(* ===== verification/Prelude.thy ===== *)
theory Prelude
  imports Main "HOL-Library.Word"
begin

text \<open>
  Shared vocabulary of the development: the machine types of the C++ sources, the error
  values (exceptions, failed assertions), byte memories, and the lemmas on lists and words
  that the component theories use.
\<close>

unbundle bit_operations_syntax

section \<open>Machine types\<close>

type_synonym u8 = "8 word"
type_synonym u16 = "16 word"
type_synonym u32 = "32 word"
type_synonym u64 = "64 word"
type_synonym u128 = "128 word"

section \<open>Errors as values\<close>

text \<open>
  The exception classes of namespace \<open>pnm::error\<close>. The message strings are not kept.
\<close>

datatype pnm_error =
    OutOfMemory
  | BadAccess
  | InvalidArguments
  | IO
  | NotSupported
  | Failure

text \<open>
  How a call can fail to return: a thrown library exception, an exception of the standard library,
  a failed \<open>assert\<close> (the debug configuration of the library, which is the one the model follows),
  an operation that C++ leaves undefined (reading past a container), or a wait or loop that never ends.
\<close>

datatype fault = Throw pnm_error | StdException | AssertFail | Undefined | Blocked

type_synonym 'a result = "fault + 'a"

definition bind_r :: "'a result \<Rightarrow> ('a \<Rightarrow> 'b result) \<Rightarrow> 'b result" where
  "bind_r r f = (case r of Inl e \<Rightarrow> Inl e | Inr x \<Rightarrow> f x)"

definition assert_r :: "bool \<Rightarrow> 'a result \<Rightarrow> 'a result" where
  "assert_r b r = (if b then r else Inl AssertFail)"

lemma bind_r_simps [simp]:
  "bind_r (Inl e) f = Inl e"
  "bind_r (Inr x) f = f x"
  by (simp_all add: bind_r_def)

lemma bind_r_Inr_iff: "bind_r r f = Inr y \<longleftrightarrow> (\<exists>x. r = Inr x \<and> f x = Inr y)"
  by (cases r) auto

lemma assert_r_simps [simp]:
  "assert_r True r = r"
  "assert_r False r = Inl AssertFail"
  by (simp_all add: assert_r_def)

lemma assert_r_Inr_iff: "assert_r b r = Inr x \<longleftrightarrow> b \<and> r = Inr x"
  by (simp add: assert_r_def)

lemma bind_r_cong [fundef_cong]:
  "r = r' \<Longrightarrow> (\<And>x. r' = Inr x \<Longrightarrow> f x = f' x) \<Longrightarrow> bind_r r f = bind_r r' f'"
  by (cases r') auto

text \<open>Applying a fallible function along a list, left to right.\<close>

primrec map_r :: "('a \<Rightarrow> 'b result) \<Rightarrow> 'a list \<Rightarrow> 'b list result" where
  "map_r f [] = Inr []"
| "map_r f (x # xs) = bind_r (f x) (\<lambda>y. bind_r (map_r f xs) (\<lambda>ys. Inr (y # ys)))"

lemma map_r_Inr: "(\<And>x. x \<in> set xs \<Longrightarrow> f x = Inr (h x)) \<Longrightarrow> map_r f xs = Inr (map h xs)"
  by (induction xs) auto

lemma map_r_append:
  "map_r f (xs @ ys) = bind_r (map_r f xs) (\<lambda>us. bind_r (map_r f ys) (\<lambda>vs. Inr (us @ vs)))"
proof (induction xs)
  case Nil
  then show ?case by (cases "map_r f ys") auto
next
  case (Cons x xs)
  then show ?case by (cases "f x"; cases "map_r f xs"; cases "map_r f ys") auto
qed

section \<open>Words\<close>

lemma less_exp_take_bit:
  fixes a :: "'a::len word"
  assumes "k < LENGTH('a)"
  shows "a < 2 ^ k \<longleftrightarrow> take_bit k a = a"
proof -
  have "a < 2 ^ k \<longleftrightarrow> uint a < 2 ^ k" using assms by (simp add: word_2p_lem word_size)
  also have "\<dots> \<longleftrightarrow> take_bit k (uint a) = uint a" by (simp add: take_bit_int_eq_self_iff)
  also have "\<dots> \<longleftrightarrow> uint (take_bit k a) = uint a" by (simp add: unsigned_take_bit_eq)
  also have "\<dots> \<longleftrightarrow> take_bit k a = a" by (rule word_uint_eq_iff [symmetric])
  finally show ?thesis .
qed

lemma less_exp_bit_iff:
  fixes a :: "'a::len word"
  assumes "k < LENGTH('a)"
  shows "a < 2 ^ k \<longleftrightarrow> (\<forall>n. bit a n \<longrightarrow> n < k)"
  unfolding less_exp_take_bit [OF assms]
  by (auto simp: bit_eq_iff bit_take_bit_iff dest: bit_imp_le_length)

section \<open>Lists\<close>

text \<open>Cutting a list into consecutive pieces of given lengths.\<close>

primrec segments :: "nat list \<Rightarrow> 'a list \<Rightarrow> 'a list list" where
  "segments [] xs = []"
| "segments (n # ns) xs = take n xs # segments ns (drop n xs)"

lemma length_segments [simp]: "length (segments ns xs) = length ns"
  by (induction ns arbitrary: xs) auto

lemma map_length_segments: "sum_list ns \<le> length xs \<Longrightarrow> map length (segments ns xs) = ns"
  by (induction ns arbitrary: xs) auto

lemma concat_segments: "concat (segments ns xs) = take (sum_list ns) xs"
  by (induction ns arbitrary: xs) (auto simp: take_add)

lemma segments_nth: "b < length ns \<Longrightarrow> segments ns xs ! b = take (ns ! b) (drop (sum_list (take b ns)) xs)"
proof (induction ns arbitrary: xs b)
  case (Cons n ns)
  then show ?case by (cases b) (auto simp: add.commute)
qed simp

end
