(* ===== verification/Rank_Address.thy ===== *)
theory Rank_Address
  imports Prelude
begin

text \<open>
  Rank interleaving (\<open>core/device/sls/utils/rank_address.h\<close> and \<open>.cpp\<close>). Two ranks share a
  channel in 256-byte stripes; a rank-local address is turned into a channel address by
  inserting the home-agent bit. The theory models the address transformation, the
  \<open>InterleavedPointer\<close> class with its operators, and the two block-wise copies
  \<open>memcpy_interleaved\<close>, and proves that the copies are byte-wise copies through the address
  transformation.
\<close>

section \<open>Constants and the address transformation\<close>

definition HA_XOR_BIT :: nat where "HA_XOR_BIT = 19"
definition HA_BIT_POS :: nat where "HA_BIT_POS = 8"
definition HA_MASK :: u64 where "HA_MASK = 1"

definition RankInterleavingSize :: nat where
  "RankInterleavingSize = 2 ^ HA_BIT_POS"

lemmas ha_consts = HA_XOR_BIT_def HA_BIT_POS_def HA_MASK_def RankInterleavingSize_def

definition cunit_to_ha :: "u8 \<Rightarrow> u8" where
  "cunit_to_ha cunit = cunit AND 1"

definition interleaved_address :: "u64 \<Rightarrow> u8 \<Rightarrow> u64" where
  "interleaved_address rank_address HA =
     (let r16 = drop_bit HA_XOR_BIT rank_address AND HA_MASK;
          HA' = (ucast (r16 XOR ucast HA) :: u8);
          LOW_BIT_MASK = push_bit HA_BIT_POS 1 - 1;
          low_bits = rank_address AND LOW_BIT_MASK;
          hi_bits = rank_address AND NOT LOW_BIT_MASK
      in push_bit 1 hi_bits OR push_bit HA_BIT_POS (ucast HA') OR low_bits)"

section \<open>The pointer class\<close>

record InterleavedPointer =
  ip_base :: u64
  ip_HA :: u8
  ip_ranked_addr :: u64
  ip_interleaved :: u64

definition ip_update :: "InterleavedPointer \<Rightarrow> InterleavedPointer" where
  "ip_update p = p\<lparr>ip_interleaved := ip_base p + interleaved_address (ip_ranked_addr p) (ip_HA p)\<rparr>"

definition ip_make :: "u64 \<Rightarrow> u8 \<Rightarrow> InterleavedPointer" where
  "ip_make base HA =
     ip_update \<lparr>ip_base = base, ip_HA = HA, ip_ranked_addr = 0, ip_interleaved = 0\<rparr>"

definition ip_add :: "InterleavedPointer \<Rightarrow> u64 \<Rightarrow> InterleavedPointer" where
  "ip_add p offset = ip_update (p\<lparr>ip_ranked_addr := ip_ranked_addr p + offset\<rparr>)"

definition ip_sub :: "InterleavedPointer \<Rightarrow> u64 \<Rightarrow> InterleavedPointer" where
  "ip_sub p offset = ip_update (p\<lparr>ip_ranked_addr := ip_ranked_addr p - offset\<rparr>)"

definition ip_inc :: "InterleavedPointer \<Rightarrow> InterleavedPointer" where
  "ip_inc p = ip_add p 1"

definition ip_dec :: "InterleavedPointer \<Rightarrow> InterleavedPointer" where
  "ip_dec p = ip_sub p 1"

definition ip_post_inc :: "InterleavedPointer \<Rightarrow> InterleavedPointer \<times> InterleavedPointer" where
  "ip_post_inc p = (p, ip_inc p)"

definition ip_post_dec :: "InterleavedPointer \<Rightarrow> InterleavedPointer \<times> InterleavedPointer" where
  "ip_post_dec p = (p, ip_dec p)"

definition ip_eq :: "InterleavedPointer \<Rightarrow> InterleavedPointer \<Rightarrow> bool" where
  "ip_eq p q \<longleftrightarrow> ip_base p = ip_base q \<and> ip_interleaved p = ip_interleaved q"

definition make_interleaved_pointer :: "u32 \<Rightarrow> u64 \<Rightarrow> u64 \<Rightarrow> InterleavedPointer" where
  "make_interleaved_pointer cunit phys_offset virtual_addr =
     (let HA = cunit_to_ha (ucast cunit);
          base = virtual_addr - interleaved_address phys_offset HA
      in ip_add (ip_make base HA) phys_offset)"

text \<open>The class invariant: the cached channel address belongs to the rank address.\<close>

definition ip_inv :: "InterleavedPointer \<Rightarrow> bool" where
  "ip_inv p \<longleftrightarrow>
     ip_interleaved p = ip_base p + interleaved_address (ip_ranked_addr p) (ip_HA p) \<and> ip_HA p \<le> 1"

section \<open>Block copies\<close>

text \<open>
  Device memory is a byte store over virtual addresses; the host buffer is a list of bytes.
  \<open>copy_n\<close> into device memory writes consecutive virtual addresses.
\<close>

type_synonym devmem = "u64 \<Rightarrow> u8"

definition copy_n_to :: "devmem \<Rightarrow> u64 \<Rightarrow> u8 list \<Rightarrow> devmem" where
  "copy_n_to m a bs = (\<lambda>x. if unat (x - a) < length bs then bs ! unat (x - a) else m x)"

definition copy_n_from :: "devmem \<Rightarrow> u64 \<Rightarrow> nat \<Rightarrow> u8 list" where
  "copy_n_from m a n = map (\<lambda>i. m (a + of_nat i)) [0..<n]"

definition memcpy_block_to ::
  "devmem \<Rightarrow> u8 list \<Rightarrow> nat \<Rightarrow> InterleavedPointer \<Rightarrow> devmem \<times> u8 list \<times> InterleavedPointer \<times> nat" where
  "memcpy_block_to m source block_size dst =
     (copy_n_to m (ip_interleaved dst) (take block_size source),
      drop block_size source, ip_add dst (of_nat block_size), block_size)"

definition memcpy_block_from ::
  "devmem \<Rightarrow> InterleavedPointer \<Rightarrow> nat \<Rightarrow> u8 list \<times> InterleavedPointer \<times> nat" where
  "memcpy_block_from m source block_size =
     (copy_n_from m (ip_interleaved source) block_size, ip_add source (of_nat block_size), block_size)"

function memcpy_to_loop ::
  "nat \<Rightarrow> nat \<Rightarrow> devmem \<Rightarrow> u8 list \<Rightarrow> InterleavedPointer \<Rightarrow> devmem \<times> nat" where
  "memcpy_to_loop bytes copied m source dst =
     (if copied < bytes then
        let block_size = min RankInterleavingSize (bytes - copied);
            (m', source', dst', k) = memcpy_block_to m source block_size dst
        in memcpy_to_loop bytes (copied + k) m' source' dst'
      else (m, copied))"
  by pat_completeness auto
termination
  by (relation "measure (\<lambda>(bytes, copied, _). bytes - copied)")
    (auto simp: ha_consts memcpy_block_to_def)

declare memcpy_to_loop.simps [simp del]

definition memcpy_interleaved_to ::
  "devmem \<Rightarrow> u8 list \<Rightarrow> nat \<Rightarrow> InterleavedPointer \<Rightarrow> (devmem \<times> nat) result" where
  "memcpy_interleaved_to m src bytes dst =
     (if length src < bytes then Inl Undefined
      else let r = unat (ip_ranked_addr dst) mod RankInterleavingSize in
        if r \<noteq> 0 then
          let block_size = min bytes (RankInterleavingSize - r);
              (m', source', dst', k) = memcpy_block_to m src block_size dst
          in Inr (memcpy_to_loop bytes k m' source' dst')
        else Inr (memcpy_to_loop bytes 0 m src dst))"

function memcpy_from_loop ::
  "nat \<Rightarrow> nat \<Rightarrow> devmem \<Rightarrow> InterleavedPointer \<Rightarrow> u8 list \<Rightarrow> u8 list \<times> nat" where
  "memcpy_from_loop bytes copied m src out =
     (if copied < bytes then
        let block_size = min RankInterleavingSize (bytes - copied);
            (bs, src', k) = memcpy_block_from m src block_size
        in memcpy_from_loop bytes (copied + k) m src' (out @ bs)
      else (out, copied))"
  by pat_completeness auto
termination
  by (relation "measure (\<lambda>(bytes, copied, _). bytes - copied)")
    (auto simp: ha_consts memcpy_block_from_def)

declare memcpy_from_loop.simps [simp del]

text \<open>
  The destination buffer is a host list of which the first \<open>bytes\<close> elements are overwritten.
\<close>

definition memcpy_interleaved_from ::
  "devmem \<Rightarrow> InterleavedPointer \<Rightarrow> nat \<Rightarrow> u8 list \<Rightarrow> (u8 list \<times> nat) result" where
  "memcpy_interleaved_from m src bytes dst =
     (if length dst < bytes then Inl Undefined
      else let r = unat (ip_ranked_addr src) mod RankInterleavingSize;
               (out, copied) =
                 (if r \<noteq> 0 then
                    let block_size = min bytes (RankInterleavingSize - r);
                        (bs, src', k) = memcpy_block_from m src block_size
                    in memcpy_from_loop bytes k m src' bs
                  else memcpy_from_loop bytes 0 m src [])
           in Inr (out @ drop bytes dst, copied))"

section \<open>Reference copies\<close>

text \<open>
  What the block-wise copies have to compute: one byte at a time, through the incremented
  pointer.
\<close>

primrec rank_write :: "devmem \<Rightarrow> InterleavedPointer \<Rightarrow> u8 list \<Rightarrow> devmem" where
  "rank_write m p [] = m"
| "rank_write m p (b # bs) = rank_write (m(ip_interleaved p := b)) (ip_inc p) bs"

definition rank_read :: "devmem \<Rightarrow> InterleavedPointer \<Rightarrow> nat \<Rightarrow> u8 list" where
  "rank_read m p n = map (\<lambda>i. m (ip_interleaved (ip_add p (of_nat i)))) [0..<n]"

section \<open>The address transformation\<close>

lemma u8_le_1: "HA \<le> (1::u8) \<Longrightarrow> HA = 0 \<or> HA = 1"
  by (metis le_less less_one word_le_nat_alt unat_0 unat_1 word_unat_eq_iff)

lemma bit_stripe:
  fixes r :: u64
  shows "bit (push_bit k (r AND NOT (mask l)) OR push_bit l (of_bool X) OR (r AND mask l)) n \<longleftrightarrow>
     n < 64 \<and> (if n < l then bit r n else n = l \<and> X \<or> (l + k \<le> n \<and> bit r (n - k)))"
  by (auto simp: bit_simps split: if_splits) 

lemma interleaved_address_or:
  assumes "HA \<le> 1"
  shows "interleaved_address r HA = push_bit 1 (r AND NOT (mask 8)) OR push_bit 8 (of_bool (bit r 19 \<noteq> (HA = 1))) OR (r AND mask 8)"
proof -
  have r16: "drop_bit 19 r AND 1 = of_bool (bit r 19)" by (simp add: and_one_eq bit_iff_odd_drop_bit mod_2_eq_odd)
  have lm: "push_bit 8 (1::u64) - 1 = mask 8" by (simp add: mask_eq_exp_minus_1)
  have ha: "ucast (ucast (of_bool (bit r 19) XOR (ucast HA :: u64)) :: u8) = (of_bool (bit r 19 \<noteq> (HA = 1)) :: u64)"
    using u8_le_1 [OF assms] by auto
  show ?thesis
    unfolding interleaved_address_def Let_def ha_consts r16 lm ha ..
qed
lemma bit_interleaved_address:
  assumes "HA \<le> 1"
  shows "bit (interleaved_address r HA) n \<longleftrightarrow> n < 64 \<and>
     (if n < 8 then bit r n else if n = 8 then bit r 19 \<noteq> (HA = 1) else bit r (n - 1))"
  unfolding interleaved_address_or [OF assms] bit_stripe by auto

lemma interleaved_address_inj:
  assumes "HA \<le> 1" "HB \<le> 1" "a < 2 ^ 63" "b < 2 ^ 63"
  assumes eq: "interleaved_address a HA = interleaved_address b HB"
  shows "a = b \<and> HA = HB"
proof -
  have bits: "bit (interleaved_address a HA) n = bit (interleaved_address b HB) n" for n
    by (simp add: eq)
  have top: "\<not> bit a 63" "\<not> bit b 63" using assms(3,4)
    by (simp_all add: bit_iff_odd_drop_bit drop_bit_eq_div div_word_less)
  have "bit a n = bit b n" if "n < 64" for n
  proof -
    consider "n < 8" | "8 \<le> n" "n < 63" | "n = 63" using \<open>n < 64\<close> by linarith
    then show ?thesis
    proof cases
      case 1 then show ?thesis using bits [of n] assms(1,2) by (simp add: bit_interleaved_address)
    next
      case 2 then show ?thesis using bits [of "Suc n"] assms(1,2) by (simp add: bit_interleaved_address)
    next
      case 3 then show ?thesis using top by simp
    qed
  qed
  then have ab: "a = b" by (auto intro: bit_word_eqI)
  moreover have "(HA = 1) = (HB = 1)" using bits [of 8] assms(1,2) ab by (auto simp: bit_interleaved_address)
  ultimately show ?thesis using u8_le_1 [OF assms(1)] u8_le_1 [OF assms(2)] by auto
qed


lemma stripe_sum:
  fixes r :: u64
  assumes "l < k" "k \<le> Suc l"
  shows "push_bit k (drop_bit l r) + (push_bit l (of_bool X) + take_bit l r) =
    push_bit (k - l) (r AND NOT (mask l)) OR push_bit l (of_bool X) OR (r AND mask l)"
proof -
  have a: "push_bit l (of_bool X) + take_bit l r = push_bit l (of_bool X) OR take_bit l r"
    by (rule disjunctive_add) (auto simp: bit_simps)
  have b: "push_bit k (drop_bit l r) + (push_bit l (of_bool X) OR take_bit l r) = 
       push_bit k (drop_bit l r) OR (push_bit l (of_bool X) OR take_bit l r)"
    using assms(1) by (intro disjunctive_add) (auto simp: bit_simps)
  have "push_bit k (drop_bit l r) = push_bit (k - l) (r AND NOT (mask l))"
    using assms(1) by (intro bit_word_eqI) (auto simp: bit_simps not_le add.commute)
  moreover have "take_bit l r = r AND mask l" by (rule take_bit_eq_mask)
  ultimately show ?thesis unfolding a b by (simp only: or.assoc)
qed

lemma interleaved_address_sum:
  assumes "HA \<le> 1"
  shows "interleaved_address r HA =
    push_bit 9 (drop_bit 8 r) + (push_bit 8 (of_bool (bit (drop_bit 8 r) 11 \<noteq> (HA = 1))) + take_bit 8 r)"
proof -
  have "bit (drop_bit 8 r) 11 = bit r 19" by (simp add: bit_drop_bit_eq)
  moreover have "8 < (9::nat)" "9 \<le> Suc 8" "9 - 8 = (1::nat)" by simp_all
  ultimately show ?thesis by (simp only: stripe_sum interleaved_address_or [OF assms])
qed

lemma div_add_no_carry:
  assumes "n mod c + k < (c::nat)"
  shows "(n + k) div c = n div c"
proof (rule div_nat_eqI)
  have n: "n = c * (n div c) + n mod c" by simp
  then show "c * (n div c) \<le> n + k" by linarith
  from n assms show "n + k < c * Suc (n div c)" unfolding mult_Suc_right by linarith
qed

lemma interleaved_address_stripe:
  assumes "HA \<le> 1" "unat r mod 256 + k < 256"
  shows "interleaved_address (r + of_nat k) HA = interleaved_address r HA + of_nat k"
proof -
  have "unat r < 2 ^ 64" using unsigned_less [of r, where ?'a = nat] by simp
  then have "unat r div 256 < 2 ^ 56" by (simp add: div_less_iff_less_mult)
  moreover have "unat r = 256 * (unat r div 256) + unat r mod 256" by simp
  ultimately have "unat r + k < 2 ^ 64" using assms(2) unfolding power_numeral_reduce by (simp; linarith)
  then have u: "unat (r + of_nat k) = unat r + k" 
    by (simp add: unat_word_ariths unat_of_nat take_bit_eq_mod)
  have d: "drop_bit 8 (r + of_nat k) = drop_bit 8 r"
  proof (rule word_unat_eq_iff [THEN iffD2])
    have "(unat r + k) div 256 = unat r div 256" by (rule div_add_no_carry [OF assms(2)])
    then show "unat (drop_bit 8 (r + of_nat k)) = unat (drop_bit 8 r)"
      unfolding unat_drop_bit_eq u by (simp add: drop_bit_eq_div)
  qed
  have t: "take_bit 8 (r + of_nat k) = take_bit 8 r + of_nat k"
  proof -
    have "push_bit 8 (drop_bit 8 r) + take_bit 8 (r + of_nat k) = r + of_nat k"
      by (simp only: bits_ident flip: d)
    also have "\<dots> = push_bit 8 (drop_bit 8 r) + (take_bit 8 r + of_nat k)"
      by (simp only: bits_ident flip: add.assoc)
    finally show ?thesis by (simp only: add_left_cancel)
  qed
  show ?thesis unfolding interleaved_address_sum [OF assms(1)] d t by (simp only: add.assoc)
qed
lemma ip_add_fields [simp]:
  "ip_base (ip_add p k) = ip_base p"
  "ip_HA (ip_add p k) = ip_HA p"
  "ip_ranked_addr (ip_add p k) = ip_ranked_addr p + k"
  "ip_interleaved (ip_add p k) = ip_base p + interleaved_address (ip_ranked_addr p + k) (ip_HA p)"
  by (simp_all add: ip_add_def ip_update_def)

lemma ip_add_add [simp]: "ip_add (ip_add p j) k = ip_add p (j + k)"
  by (simp add: ip_add_def ip_update_def add.assoc)

lemma ip_add_0: "ip_inv p \<Longrightarrow> ip_add p 0 = p"
  by (simp add: ip_add_def ip_update_def ip_inv_def)

lemma ip_inv_add [intro, simp]: "ip_inv p \<Longrightarrow> ip_inv (ip_add p k)"
  by (simp add: ip_inv_def)

lemma rank_write_append:
  "ip_inv p \<Longrightarrow> rank_write m p (xs @ ys) = rank_write (rank_write m p xs) (ip_add p (of_nat (length xs))) ys"
  by (induction xs arbitrary: m p) (simp_all add: ip_add_0 ip_inc_def)

lemma copy_n_to_Nil [simp]: "copy_n_to m a [] = m"
  by (simp add: copy_n_to_def)

lemma copy_n_to_Cons:
  assumes "length bs < 2 ^ 64 - 1"
  shows "copy_n_to m a (b # bs) = copy_n_to (m(a := b)) (a + 1) bs"
proof
  fix x
  show "copy_n_to m a (b # bs) x = copy_n_to (m(a := b)) (a + 1) bs x"
  proof (cases "x = a")
    case True
    then show ?thesis using assms by (simp add: copy_n_to_def unsigned_minus_1_eq_mask mask_eq_exp_minus_1)
  next
    case False
    then have "x - a \<noteq> 0" by simp
    then have "unat (x - a) = Suc (unat (x - a - 1))"
      by (metis Suc_pred' unat_gt_0 unat_minus_one)
    then show ?thesis using False by (simp add: copy_n_to_def diff_diff_eq)
  qed
qed

lemma mod_256_add: "unat (r + of_nat k :: u64) mod 256 = (unat r mod 256 + k) mod 256"
proof -
  have "(256::nat) dvd 2 ^ 64" by simp
  then show ?thesis
    by (simp add: unat_word_ariths unat_of_nat mod_mod_cancel mod_simps)
qed

lemma rank_write_block:
  assumes "ip_inv p" "unat (ip_ranked_addr p) mod 256 + length bs \<le> 256"
  shows "rank_write m p bs = copy_n_to m (ip_interleaved p) bs"
  using assms
proof (induction bs arbitrary: m p)
  case (Cons b bs)
  show ?case
  proof (cases "bs = []")
    case True
    then show ?thesis by (simp add: copy_n_to_Cons)
  next
    case False
    then have l: "unat (ip_ranked_addr p) mod 256 + 1 < 256"
      using Cons.prems(2) by (cases bs) auto
    have "unat (ip_ranked_addr p + 1) mod 256 = unat (ip_ranked_addr p) mod 256 + 1"
      using mod_256_add [of "ip_ranked_addr p" 1] l by simp
    moreover have "ip_interleaved (ip_inc p) = ip_interleaved p + 1"
      using interleaved_address_stripe [of "ip_HA p" "ip_ranked_addr p" 1] l Cons.prems(1) by (simp add: ip_inc_def ip_inv_def)
    ultimately show ?thesis
      using Cons by (simp add: copy_n_to_Cons ip_inc_def fun_upd_def)
  qed
qed simp

lemma memcpy_to_loop_correct:
  assumes "ip_inv p" "copied < bytes \<Longrightarrow> unat (ip_ranked_addr p) mod 256 = 0"
    "bytes \<le> copied + length src" "copied \<le> bytes"
  shows "memcpy_to_loop bytes copied m src p = (rank_write m p (take (bytes - copied) src), bytes)"
  using assms
proof (induction bytes copied m src p rule: memcpy_to_loop.induct)
  case (1 bytes copied m src p)
  show ?case
  proof (cases "copied < bytes")
    case True
    define k where "k = min RankInterleavingSize (bytes - copied)"
    have k: "k \<le> 256" "k \<le> bytes - copied" "k \<le> length src" "copied + k < bytes \<Longrightarrow> k = 256"
      using "1.prems" True by (auto simp: k_def ha_consts)
    have m0: "unat (ip_ranked_addr p) mod 256 = 0" using "1.prems"(2) True by simp
    have blk: "memcpy_block_to m src k p =
        (rank_write m p (take k src), drop k src, ip_add p (of_nat k), k)"
      using "1.prems"(1) m0 k by (simp add: memcpy_block_to_def rank_write_block)
    have s: "take (bytes - copied) src = take k src @ take (bytes - (copied + k)) (drop k src)"
      using k by (metis diff_diff_left le_add_diff_inverse take_add)
    have "memcpy_to_loop bytes copied m src p =
        memcpy_to_loop bytes (copied + k) (rank_write m p (take k src)) (drop k src) (ip_add p (of_nat k))"
      using True blk by (subst memcpy_to_loop.simps) (simp flip: k_def)
    also have "\<dots> = (rank_write (rank_write m p (take k src)) (ip_add p (of_nat k))
        (take (bytes - (copied + k)) (drop k src)), bytes)"
      using "1.prems" k m0 mod_256_add [of "ip_ranked_addr p" k]
      by (intro 1(1) [OF True k_def blk [symmetric] refl refl refl]) auto
    also have "\<dots> = (rank_write m p (take (bytes - copied) src), bytes)"
      using "1.prems"(1) k(3) by (simp add: s rank_write_append)
    finally show ?thesis .
  next
    case False
    then show ?thesis using "1.prems" by (subst memcpy_to_loop.simps) simp
  qed
qed

lemma memcpy_to_eq:
  assumes "ip_inv p" "bytes \<le> length src"
  shows "memcpy_interleaved_to m src bytes p = Inr (rank_write m p (take bytes src), bytes)"
proof (cases "unat (ip_ranked_addr p) mod 256 = 0")
  case True
  then show ?thesis using assms by (simp add: memcpy_interleaved_to_def ha_consts memcpy_to_loop_correct)
next
  case False
  define r where "r = unat (ip_ranked_addr p) mod 256"
  define k where "k = min bytes (256 - r)"
  have k: "r + k \<le> 256" "k \<le> bytes" "k \<le> length src" "k < bytes \<Longrightarrow> r + k = 256" "r < 256"
    using assms(2) by (auto simp: k_def r_def)
  have s: "take bytes src = take k src @ take (bytes - k) (drop k src)"
    using k(2) by (metis le_add_diff_inverse take_add)
  have "memcpy_interleaved_to m src bytes p =
      Inr (memcpy_to_loop bytes k (rank_write m p (take k src)) (drop k src) (ip_add p (of_nat k)))"
    using False assms k
    by (simp add: memcpy_interleaved_to_def ha_consts memcpy_block_to_def rank_write_block
        flip: r_def k_def)
  also have "\<dots> = Inr (rank_write (rank_write m p (take k src)) (ip_add p (of_nat k))
        (take (bytes - k) (drop k src)), bytes)"
    using assms k mod_256_add [of "ip_ranked_addr p" k]
    by (simp add: memcpy_to_loop_correct flip: r_def)
  also have "\<dots> = Inr (rank_write m p (take bytes src), bytes)"
    using assms k by (simp add: s rank_write_append)
  finally show ?thesis .
qed

lemma rank_read_add:
  "rank_read m p (j + k) = rank_read m p j @ rank_read m (ip_add p (of_nat j)) k"
  by (induction k) (simp_all add: rank_read_def add.assoc)

lemma rank_read_block:
  assumes "ip_inv p" "unat (ip_ranked_addr p) mod 256 + n \<le> 256"
  shows "copy_n_from m (ip_interleaved p) n = rank_read m p n"
proof -
  have "ip_interleaved p + of_nat i = ip_interleaved (ip_add p (of_nat i))" if "i < n" for i
    using interleaved_address_stripe [of "ip_HA p" "ip_ranked_addr p" i] that assms by (simp add: ip_inv_def)
  then show ?thesis by (simp add: copy_n_from_def rank_read_def)
qed

lemma memcpy_from_loop_correct:
  assumes "ip_inv p" "copied < bytes \<Longrightarrow> unat (ip_ranked_addr p) mod 256 = 0" "copied \<le> bytes"
  shows "memcpy_from_loop bytes copied m p out = (out @ rank_read m p (bytes - copied), bytes)"
  using assms
proof (induction bytes copied m p out rule: memcpy_from_loop.induct)
  case (1 bytes copied m p out)
  show ?case
  proof (cases "copied < bytes")
    case True
    define k where "k = min RankInterleavingSize (bytes - copied)"
    have k: "k \<le> 256" "copied + k \<le> bytes" "copied + k < bytes \<Longrightarrow> k = 256"
      using "1.prems" True by (auto simp: k_def ha_consts)
    have m0: "unat (ip_ranked_addr p) mod 256 = 0" using "1.prems"(2) True by simp
    have blk: "memcpy_block_from m p k = (rank_read m p k, ip_add p (of_nat k), k)"
      using "1.prems"(1) m0 k by (simp add: memcpy_block_from_def rank_read_block)
    have s: "bytes - copied = k + (bytes - (copied + k))" using k by simp
    have "memcpy_from_loop bytes copied m p out =
        memcpy_from_loop bytes (copied + k) m (ip_add p (of_nat k)) (out @ rank_read m p k)"
      using True blk by (subst memcpy_from_loop.simps) (simp flip: k_def)
    also have "\<dots> = ((out @ rank_read m p k) @ rank_read m (ip_add p (of_nat k)) (bytes - (copied + k)), bytes)"
      using "1.prems" k m0 mod_256_add [of "ip_ranked_addr p" k]
      by (intro 1(1) [OF True k_def blk [symmetric] refl refl]) auto
    also have "\<dots> = (out @ rank_read m p (bytes - copied), bytes)"
      unfolding s by (simp add: rank_read_add)
    finally show ?thesis .
  next
    case False
    then show ?thesis using "1.prems" by (subst memcpy_from_loop.simps) (simp add: rank_read_def)
  qed
qed

lemma memcpy_from_eq:
  assumes "ip_inv p" "bytes \<le> length dst"
  shows "memcpy_interleaved_from m p bytes dst = Inr (rank_read m p bytes @ drop bytes dst, bytes)"
proof (cases "unat (ip_ranked_addr p) mod 256 = 0")
  case True
  then show ?thesis using assms by (simp add: memcpy_interleaved_from_def ha_consts memcpy_from_loop_correct)
next
  case False
  define r where "r = unat (ip_ranked_addr p) mod 256"
  define k where "k = min bytes (256 - r)"
  have k: "r + k \<le> 256" "k \<le> bytes" "k < bytes \<Longrightarrow> r + k = 256" "r < 256"
    by (auto simp: k_def r_def)
  have s: "bytes = k + (bytes - k)" using k by simp
  have "rank_read m p bytes = rank_read m p k @ rank_read m (ip_add p (of_nat k)) (bytes - k)"
    by (subst s) (rule rank_read_add)
  moreover have "memcpy_from_loop bytes k m (ip_add p (of_nat k)) (rank_read m p k) =
      (rank_read m p k @ rank_read m (ip_add p (of_nat k)) (bytes - k), bytes)"
    using assms k mod_256_add [of "ip_ranked_addr p" k]
    by (intro memcpy_from_loop_correct) (simp_all flip: r_def)
  ultimately show ?thesis
    using False assms k
    by (simp add: memcpy_interleaved_from_def ha_consts memcpy_block_from_def rank_read_block
        flip: r_def k_def)
qed

lemma rank_write_other:
  "(\<And>i. i < length bs \<Longrightarrow> x \<noteq> ip_interleaved (ip_add p (of_nat i))) \<Longrightarrow> ip_inv p \<Longrightarrow> rank_write m p bs x = m x"
proof (induction bs arbitrary: m p)
  case (Cons b bs)
  have "x \<noteq> ip_interleaved (ip_add (ip_inc p) (of_nat i))" if "i < length bs" for i
    using Cons.prems(1) [of "Suc i"] that by (simp add: ip_inc_def add.commute)
  moreover have "x \<noteq> ip_interleaved p" using Cons.prems(1) [of 0] Cons.prems(2) by (simp add: ip_add_0 ip_inv_def)
  ultimately show ?case using Cons.IH [of "ip_inc p"] Cons.prems(2) by (simp add: ip_inc_def)
qed simp

lemma rank_write_read:
  assumes "ip_inv p" "unat (ip_ranked_addr p) + length bs \<le> 2 ^ 63" "i < length bs"
  shows "rank_write m p bs (ip_interleaved (ip_add p (of_nat i))) = bs ! i"
  using assms
proof (induction bs arbitrary: m p i)
  case (Cons b bs)
  have i: "ip_inv (ip_inc p)" using Cons.prems by (simp add: ip_inc_def)
  have u: "unat (ip_ranked_addr p + of_nat j) = unat (ip_ranked_addr p) + j" if "j < length (b # bs)" for j
    using Cons.prems(2) that by (simp add: unat_word_ariths unat_of_nat take_bit_eq_mod)
  have lt: "ip_ranked_addr p + of_nat j < 2 ^ 63" if "j < length (b # bs)" for j
    using Cons.prems(2) u [OF that] that by (simp add: word_less_nat_alt)
  have lt0: "ip_ranked_addr p < 2 ^ 63" using lt [of 0] by simp
  have h: "ip_HA p \<le> 1" using Cons.prems(1) by (simp add: ip_inv_def)
  show ?case
  proof (cases i)
    case 0
    have "ip_interleaved p \<noteq> ip_interleaved (ip_add (ip_inc p) (of_nat j))" if "j < length bs" for j
    proof
      have sj: "Suc j < length (b # bs)" using that by simp
      assume "ip_interleaved p = ip_interleaved (ip_add (ip_inc p) (of_nat j))"
      then have "interleaved_address (ip_ranked_addr p) (ip_HA p) =
          interleaved_address (ip_ranked_addr p + of_nat (Suc j)) (ip_HA p)"
        using Cons.prems(1) by (simp add: ip_inv_def ip_inc_def add.assoc)
      then have "ip_ranked_addr p = ip_ranked_addr p + of_nat (Suc j)"
        by (rule conjunct1 [OF interleaved_address_inj [OF h h lt0 lt [OF sj]]])
      then have "unat (ip_ranked_addr p) = unat (ip_ranked_addr p) + Suc j"
        using u [OF sj] by metis
      then show False by simp
    qed
    then have "rank_write (m(ip_interleaved p := b)) (ip_inc p) bs (ip_interleaved p) = b"
      using rank_write_other [of bs "ip_interleaved p" "ip_inc p"] i by simp
    then show ?thesis using 0 Cons.prems(1) by (simp add: ip_inv_def)
  next
    case (Suc j)
    then show ?thesis
      using Cons.IH [OF i, of j] Cons.prems u [of 1]
      by (cases bs) (simp_all add: ip_inc_def add.commute)
  qed
qed simp
lemma rank_write_read_all:
  assumes "ip_inv p" "unat (ip_ranked_addr p) + length bs \<le> 2 ^ 63"
  shows "rank_read (rank_write m p bs) p (length bs) = bs"
  unfolding rank_read_def
  by (rule nth_equalityI) (simp_all only: length_map length_upt nth_map nth_upt
      rank_write_read [OF assms] add_0 diff_zero)

lemma rank_write_other_rank:
  assumes "ip_inv p" "unat (ip_ranked_addr p) + length bs \<le> 2 ^ 63"
  assumes "ip_inv q" "ip_base q = ip_base p" "ip_HA q \<noteq> ip_HA p" "unat (ip_ranked_addr q) < 2 ^ 63"
  shows "rank_write m p bs (ip_interleaved q) = m (ip_interleaved q)"
proof (rule rank_write_other [OF _ assms(1)])
  fix i assume i: "i < length bs"
  have u: "unat (ip_ranked_addr p + of_nat i) = unat (ip_ranked_addr p) + i"
    using assms(2) i by (simp add: unat_word_ariths unat_of_nat take_bit_eq_mod)
  have "ip_ranked_addr p + of_nat i < 2 ^ 63" "ip_ranked_addr q < 2 ^ 63"
    using assms(2,6) u i by (simp_all add: word_less_nat_alt)
  moreover have "ip_HA p \<le> 1" "ip_HA q \<le> 1" using assms(1,3) by (simp_all add: ip_inv_def)
  ultimately have "interleaved_address (ip_ranked_addr q) (ip_HA q) \<noteq>
      interleaved_address (ip_ranked_addr p + of_nat i) (ip_HA p)"
    using interleaved_address_inj assms(5) by blast
  then show "ip_interleaved q \<noteq> ip_interleaved (ip_add p (of_nat i))"
    using assms(3,4) by (simp add: ip_inv_def)
qed

lemma ip_inv_make: "HA \<le> 1 \<Longrightarrow> ip_inv (ip_make base HA)"
  by (simp add: ip_make_def ip_update_def ip_inv_def)

lemma cunit_to_ha_le: "cunit_to_ha c \<le> 1"
  by (simp add: cunit_to_ha_def word_and_le1)

section \<open>Properties\<close>

text \<open>
  The pointer made for a compute unit, a rank offset and a virtual address satisfies the
  class invariant, denotes exactly that virtual address, has the rank offset as its rank
  address, and every operator of the class keeps the invariant.
\<close>
theorem interleaved_pointer_invariant:
  "(let p = make_interleaved_pointer cunit phys_offset virtual_addr in
      ip_inv p \<and> ip_interleaved p = virtual_addr \<and> ip_ranked_addr p = phys_offset \<and>
      ip_HA p = ucast cunit AND 1) \<and>
   (ip_inv q \<longrightarrow> ip_inv (ip_add q k) \<and> ip_inv (ip_sub q k) \<and> ip_inv (snd (ip_post_inc q)) \<and>
      ip_inv (snd (ip_post_dec q)) \<and> ip_add (ip_sub q k) k = q \<and> ip_dec (ip_inc q) = q)"
  by (auto simp: make_interleaved_pointer_def Let_def ip_inv_add ip_inv_make cunit_to_ha_le
      ip_make_def ip_update_def ip_add_def ip_sub_def ip_inc_def ip_dec_def ip_inv_def
      ip_post_inc_def ip_post_dec_def cunit_to_ha_def word_and_le1)

theorem interleaved_pointer_invariant_witness:
  "ip_inv \<lparr>ip_base = 4096, ip_HA = 1, ip_ranked_addr = 0, ip_interleaved = 4096 + 256\<rparr> \<and>
   ip_inv (ip_add \<lparr>ip_base = 4096, ip_HA = 1, ip_ranked_addr = 0, ip_interleaved = 4096 + 256\<rparr> 300)"
proof -
  have "ip_inv \<lparr>ip_base = 4096, ip_HA = 1, ip_ranked_addr = 0, ip_interleaved = 4096 + 256\<rparr>"
    by (simp add: ip_inv_def interleaved_address_def ha_consts)
  then show ?thesis
    using interleaved_pointer_invariant [of 3 1000 9999 "\<lparr>ip_base = 4096, ip_HA = 1,
      ip_ranked_addr = 0, ip_interleaved = 4096 + 256\<rparr>" 300] by blast
qed

text \<open>
  C31: the block-wise copies, with their partial first block, are the byte-by-byte copies
  through the incremented pointer: every byte goes to the channel address of its own rank
  address, whatever the alignment of the start. The number of copied bytes is returned.
\<close>
theorem memcpy_interleaved_bytewise:
  assumes "ip_inv p" "bytes \<le> length src"
  shows "memcpy_interleaved_to m src bytes p = Inr (rank_write m p (take bytes src), bytes) \<and>
    memcpy_interleaved_from m p bytes src = Inr (rank_read m p bytes @ drop bytes src, bytes)"
  using assms by (simp add: memcpy_to_eq memcpy_from_eq)

theorem memcpy_interleaved_bytewise_witness:
  "ip_inv (make_interleaved_pointer 1 254 4096) \<and>
   memcpy_interleaved_to (\<lambda>_. 0) [1, 2, 3, 4] 4 (make_interleaved_pointer 1 254 4096) =
     Inr (rank_write (\<lambda>_. 0) (make_interleaved_pointer 1 254 4096) [1, 2, 3, 4], 4)"
proof -
  have "ip_inv (make_interleaved_pointer 1 254 4096)"
    by (simp add: make_interleaved_pointer_def Let_def ip_inv_make cunit_to_ha_le)
  then show ?thesis
    using memcpy_interleaved_bytewise [of "make_interleaved_pointer 1 254 4096" 4 "[1, 2, 3, 4]" "\<lambda>_. 0"]
    by simp
qed

text \<open>
  C30: what one rank writes it reads back, and the other rank of the channel does not see the
  write: its bytes keep their value although the two ranks share the address window.
\<close>
theorem memcpy_interleaved_roundtrip:
  assumes "ip_inv p" "bytes \<le> length src" "bytes \<le> length dst"
    and "unat (ip_ranked_addr p) + bytes \<le> 2 ^ 63"
  shows "\<exists>m'. memcpy_interleaved_to m src bytes p = Inr (m', bytes) \<and>
     memcpy_interleaved_from m' p bytes dst = Inr (take bytes src @ drop bytes dst, bytes) \<and>
     (\<forall>q. ip_inv q \<and> ip_base q = ip_base p \<and> ip_HA q \<noteq> ip_HA p \<and> unat (ip_ranked_addr q) < 2 ^ 63 \<longrightarrow>
        m' (ip_interleaved q) = m (ip_interleaved q))"
proof -
  have b: "bytes = length (take bytes src)" using assms(2) by simp
  have "rank_read (rank_write m p (take bytes src)) p bytes = take bytes src"
    using rank_write_read_all [of p "take bytes src" m] assms b by simp
  moreover have "rank_write m p (take bytes src) (ip_interleaved q) = m (ip_interleaved q)"
    if "ip_inv q" "ip_base q = ip_base p" "ip_HA q \<noteq> ip_HA p" "unat (ip_ranked_addr q) < 2 ^ 63" for q
    using rank_write_other_rank [of p "take bytes src" q m] assms that b by simp
  ultimately show ?thesis
    using assms by (simp add: memcpy_to_eq memcpy_from_eq)
qed

theorem memcpy_interleaved_roundtrip_witness:
  "ip_inv (make_interleaved_pointer 1 254 4096) \<and>
   (\<exists>m'. memcpy_interleaved_to (\<lambda>_. 0) [1, 2, 3, 4] 4 (make_interleaved_pointer 1 254 4096) = Inr (m', 4) \<and>
      memcpy_interleaved_from m' (make_interleaved_pointer 1 254 4096) 4 [0, 0, 0, 0, 0] =
        Inr ([1, 2, 3, 4, 0], 4))"
proof -
  have i: "ip_inv (make_interleaved_pointer 1 254 4096)"
    by (simp add: make_interleaved_pointer_def Let_def ip_inv_make cunit_to_ha_le)
  moreover have "unat (ip_ranked_addr (make_interleaved_pointer 1 254 4096)) + 4 \<le> 2 ^ 63"
    by (simp add: make_interleaved_pointer_def Let_def ip_make_def ip_update_def)
  ultimately show ?thesis
    using memcpy_interleaved_roundtrip [of "make_interleaved_pointer 1 254 4096" 4 "[1, 2, 3, 4]"
        "[0, 0, 0, 0, 0]" "\<lambda>_. 0"] by auto
qed

end
