(* ===== verification/Inst_Generator.thy ===== *)
theory Inst_Generator
  imports Prelude
begin

text \<open>
  Instructions of the near-memory SLS engine (\<open>core/device/sls/utils/inst_generator.h\<close> and the
  layout constants of \<open>hw/\<close>). An instruction word packs eight fields; the memory address an
  instruction reads is spread over its row, bank group, bank and column fields by the tables of
  \<open>hw/pnm_sim_addr_constants.h\<close>. The ranked generator mixes bank and bank-group bits with row
  bits by exclusive or, the channel generator stores them directly.
\<close>

section \<open>Layout constants\<close>

definition DUMMY_INST_SIZE :: nat where "DUMMY_INST_SIZE = 16"
definition INSTR_OPCODE_OFFSET :: nat where "INSTR_OPCODE_OFFSET = 62"
definition INSTR_OPCODE_MASK :: u64 where "INSTR_OPCODE_MASK = 0x03"
definition INSTR_LOCAL_BIT_OFFSET :: nat where "INSTR_LOCAL_BIT_OFFSET = 61"
definition INSTR_LOCAL_BIT_MASK :: u64 where "INSTR_LOCAL_BIT_MASK = 0x01"
definition INSTR_OUTPUT_IDX_OFFSET :: nat where "INSTR_OUTPUT_IDX_OFFSET = 49"
definition INSTR_OUTPUT_IDX_MASK :: u64 where "INSTR_OUTPUT_IDX_MASK = 0x0FFF"
definition INSTR_TRACE_END_OFFSET :: nat where "INSTR_TRACE_END_OFFSET = 48"
definition INSTR_TRACE_END_MASK :: u64 where "INSTR_TRACE_END_MASK = 0x01"
definition INSTR_ROW_OFFSET :: nat where "INSTR_ROW_OFFSET = 14"
definition INSTR_ROW_MASK :: u64 where "INSTR_ROW_MASK = 0x01FFFF"
definition INSTR_BANKGROUP_OFFSET :: nat where "INSTR_BANKGROUP_OFFSET = 12"
definition INSTR_BANKGROUP_MASK :: u64 where "INSTR_BANKGROUP_MASK = 0x03"
definition INSTR_BANK_OFFSET :: nat where "INSTR_BANK_OFFSET = 10"
definition INSTR_BANK_MASK :: u64 where "INSTR_BANK_MASK = 0x03"
definition INSTR_COL_OFFSET :: nat where "INSTR_COL_OFFSET = 0"
definition INSTR_COL_MASK :: u64 where "INSTR_COL_MASK = 0x03FF"
definition INSTR_HEADER_TAGBIT_POS :: nat where "INSTR_HEADER_TAGBIT_POS = 8"
definition INSTR_HEADER_VSIZE_MASK :: u64 where "INSTR_HEADER_VSIZE_MASK = 0b11111"

lemmas instr_consts =
  INSTR_OPCODE_OFFSET_def INSTR_OPCODE_MASK_def INSTR_LOCAL_BIT_OFFSET_def
  INSTR_LOCAL_BIT_MASK_def INSTR_OUTPUT_IDX_OFFSET_def INSTR_OUTPUT_IDX_MASK_def
  INSTR_TRACE_END_OFFSET_def INSTR_TRACE_END_MASK_def INSTR_ROW_OFFSET_def INSTR_ROW_MASK_def
  INSTR_BANKGROUP_OFFSET_def INSTR_BANKGROUP_MASK_def INSTR_BANK_OFFSET_def INSTR_BANK_MASK_def
  INSTR_COL_OFFSET_def INSTR_COL_MASK_def

record BitRegionEntry =
  RAOffset :: nat
  Mask :: u64
  StartBit :: nat

record BitXorEntry =
  RAOffset0 :: nat
  RAOffset1 :: nat
  XStartBit :: nat

definition COL :: "BitRegionEntry list" where
  "COL = [\<lparr>RAOffset = 3, Mask = 0x1F, StartBit = 0\<rparr>,
          \<lparr>RAOffset = 14, Mask = 0x1F, StartBit = 5\<rparr>]"

definition ROW :: "BitRegionEntry list" where
  "ROW = [\<lparr>RAOffset = 8, Mask = 0x0F, StartBit = 0\<rparr>,
          \<lparr>RAOffset = 28, Mask = 0x01, StartBit = 4\<rparr>,
          \<lparr>RAOffset = 21, Mask = 0x7F, StartBit = 5\<rparr>,
          \<lparr>RAOffset = 29, Mask = 0x1F, StartBit = 12\<rparr>]"

definition BG :: "BitXorEntry list" where
  "BG = [\<lparr>RAOffset0 = 21, RAOffset1 = 12, XStartBit = 0\<rparr>,
         \<lparr>RAOffset0 = 22, RAOffset1 = 13, XStartBit = 1\<rparr>]"

definition BANK :: "BitXorEntry list" where
  "BANK = [\<lparr>RAOffset0 = 23, RAOffset1 = 19, XStartBit = 0\<rparr>,
           \<lparr>RAOffset0 = 24, RAOffset1 = 20, XStartBit = 1\<rparr>]"

section \<open>Opcodes and decoded instructions\<close>

datatype Opcode = SPARSE_FT_SUM_F32 | RESERVED | SPARSE_FT_SUM_U32 | SPARSE_FT_SUM_U32_TAGGED

fun opcode_code :: "Opcode \<Rightarrow> u32" where
  "opcode_code SPARSE_FT_SUM_F32 = 0"
| "opcode_code RESERVED = 1"
| "opcode_code SPARSE_FT_SUM_U32 = 2"
| "opcode_code SPARSE_FT_SUM_U32_TAGGED = 3"

definition dummy_inst :: "u64 list" where
  "dummy_inst = (replicate DUMMY_INST_SIZE 0xffd000000000000)[0 := 0]"

record DecodedInst =
  opcode :: u32
  local_bit :: u32
  output_idx :: u32
  trace_end :: u32
  row :: u32
  bankgroup :: u32
  bank :: u32
  column :: u32

definition make_empty_instruction :: "u32 \<Rightarrow> u32 \<Rightarrow> DecodedInst" where
  "make_empty_instruction op idx =
     \<lparr>opcode = op, local_bit = 0, output_idx = idx, trace_end = 0,
      row = 0, bankgroup = 0, bank = 0, column = 0\<rparr>"

definition bit_width :: "nat list" where
  "bit_width = [2, 1, 12, 1, 17, 2, 2, 10]"

definition inst_fields :: "DecodedInst \<Rightarrow> u32 list" where
  "inst_fields i = [opcode i, local_bit i, output_idx i, trace_end i, row i, bankgroup i, bank i, column i]"

definition fields_fit :: "DecodedInst \<Rightarrow> bool" where
  "fields_fit i \<longleftrightarrow> list_all2 (\<lambda>f w. f < push_bit w 1) (inst_fields i) bit_width"

definition instr_word :: "DecodedInst \<Rightarrow> u64" where
  "instr_word inst =
     push_bit INSTR_OPCODE_OFFSET (ucast (opcode inst)) +
     push_bit INSTR_LOCAL_BIT_OFFSET (ucast (local_bit inst)) +
     push_bit INSTR_OUTPUT_IDX_OFFSET (ucast (output_idx inst)) +
     push_bit INSTR_TRACE_END_OFFSET (ucast (trace_end inst)) +
     push_bit INSTR_ROW_OFFSET (ucast (row inst)) +
     push_bit INSTR_BANKGROUP_OFFSET (ucast (bankgroup inst)) +
     push_bit INSTR_BANK_OFFSET (ucast (bank inst)) +
     push_bit INSTR_COL_OFFSET (ucast (column inst))"

definition encode_instruction :: "DecodedInst \<Rightarrow> u64 result" where
  "encode_instruction inst =
     assert_r (fields_fit inst)
       (assert_r (opcode inst = opcode_code SPARSE_FT_SUM_F32 \<or> opcode inst = opcode_code RESERVED \<or>
                  opcode inst = opcode_code SPARSE_FT_SUM_U32 \<or>
                  opcode inst = opcode_code SPARSE_FT_SUM_U32_TAGGED)
         (Inr (instr_word inst)))"

definition decode_instruction :: "u64 \<Rightarrow> DecodedInst" where
  "decode_instruction w =
     \<lparr>opcode = ucast (drop_bit INSTR_OPCODE_OFFSET w AND INSTR_OPCODE_MASK),
      local_bit = ucast (drop_bit INSTR_LOCAL_BIT_OFFSET w AND INSTR_LOCAL_BIT_MASK),
      output_idx = ucast (drop_bit INSTR_OUTPUT_IDX_OFFSET w AND INSTR_OUTPUT_IDX_MASK),
      trace_end = ucast (drop_bit INSTR_TRACE_END_OFFSET w AND INSTR_TRACE_END_MASK),
      row = ucast (drop_bit INSTR_ROW_OFFSET w AND INSTR_ROW_MASK),
      bankgroup = ucast (drop_bit INSTR_BANKGROUP_OFFSET w AND INSTR_BANKGROUP_MASK),
      bank = ucast (drop_bit INSTR_BANK_OFFSET w AND INSTR_BANK_MASK),
      column = ucast (drop_bit INSTR_COL_OFFSET w AND INSTR_COL_MASK)\<rparr>"

section \<open>Addresses in instructions: the ranked generator\<close>

text \<open>The four loops add one table entry after the other to the address built so far.\<close>

definition put_region :: "u32 \<Rightarrow> BitRegionEntry \<Rightarrow> u64 \<Rightarrow> u64" where
  "put_region v e rank_addr =
     rank_addr + push_bit (RAOffset e) (ucast (drop_bit (StartBit e) v) AND Mask e)"

definition put_xor :: "u32 \<Rightarrow> BitXorEntry \<Rightarrow> u64 \<Rightarrow> u64" where
  "put_xor v e rank_addr =
     rank_addr + push_bit (RAOffset1 e)
       (ucast (drop_bit (XStartBit e) v AND 1) XOR (drop_bit (RAOffset0 e) rank_addr AND 1))"

definition ranked_encode_address :: "DecodedInst \<Rightarrow> u64" where
  "ranked_encode_address inst =
     fold (put_xor (bank inst)) BANK
       (fold (put_xor (bankgroup inst)) BG
         (fold (put_region (row inst)) ROW
           (fold (put_region (column inst)) COL 0)))"

definition get_xor :: "u64 \<Rightarrow> BitXorEntry \<Rightarrow> u32 \<Rightarrow> u32" where
  "get_xor rank_addr e v =
     v + ucast (push_bit (XStartBit e)
       ((drop_bit (RAOffset0 e) rank_addr AND 1) XOR (drop_bit (RAOffset1 e) rank_addr AND 1)))"

definition get_region :: "u64 \<Rightarrow> BitRegionEntry \<Rightarrow> u32 \<Rightarrow> u32" where
  "get_region rank_addr e v =
     v + ucast (push_bit (StartBit e) (drop_bit (RAOffset e) rank_addr AND Mask e))"

definition ranked_decode_address :: "u64 \<Rightarrow> DecodedInst \<Rightarrow> DecodedInst result" where
  "ranked_decode_address rank_addr inst =
     assert_r (rank_addr mod 4 = 0)
       (Inr (inst\<lparr>bankgroup := fold (get_xor rank_addr) BG 0,
                  bank := fold (get_xor rank_addr) BANK 0,
                  row := fold (get_region rank_addr) ROW 0,
                  column := fold (get_region rank_addr) COL 0\<rparr>))"

section \<open>Addresses in instructions: the channel generator\<close>

definition set_bit_direct :: "u32 \<Rightarrow> BitXorEntry \<Rightarrow> u64 \<Rightarrow> u64" where
  "set_bit_direct v e channel_addr =
     (channel_addr AND NOT (push_bit (RAOffset1 e) 1)) OR
       ucast (push_bit (RAOffset1 e) (drop_bit (XStartBit e) v AND 1))"

definition channel_encode_address :: "DecodedInst \<Rightarrow> u64" where
  "channel_encode_address inst =
     fold (set_bit_direct (bankgroup inst)) BG
       (fold (set_bit_direct (bank inst)) BANK (ranked_encode_address inst))"

definition get_bit_direct :: "u64 \<Rightarrow> BitXorEntry \<Rightarrow> u32 \<Rightarrow> u32" where
  "get_bit_direct channel_addr e v =
     v OR ucast (push_bit (XStartBit e) (drop_bit (RAOffset1 e) channel_addr AND 1))"

definition channel_decode_address :: "u64 \<Rightarrow> DecodedInst \<Rightarrow> DecodedInst result" where
  "channel_decode_address channel_addr inst =
     bind_r (ranked_decode_address channel_addr inst)
       (\<lambda>i. Inr (i\<lparr>bankgroup := fold (get_bit_direct channel_addr) BG 0,
                   bank := fold (get_bit_direct channel_addr) BANK 0\<rparr>))"

section \<open>Specification: the bits of addresses and words\<close>

text \<open>
  \<open>rank_bit\<close> and \<open>word_bit\<close> give every bit of a ranked address and of an instruction word;
  \<open>addr_cell\<close> is the part of an address that the instruction fields can carry (8-byte cells
  of a 16 GB rank).
\<close>

definition rank_bit :: "DecodedInst \<Rightarrow> nat \<Rightarrow> bool" where
  "rank_bit i n =
    (if n < 3 then False else if n < 8 then bit (column i) (n - 3)
     else if n < 12 then bit (row i) (n - 8)
     else if n = 12 then bit (bankgroup i) 0 \<noteq> bit (row i) 5
     else if n = 13 then bit (bankgroup i) 1 \<noteq> bit (row i) 6
     else if n < 19 then bit (column i) (n - 9)
     else if n = 19 then bit (bank i) 0 \<noteq> bit (row i) 7
     else if n = 20 then bit (bank i) 1 \<noteq> bit (row i) 8
     else if n < 28 then bit (row i) (n - 16)
     else if n = 28 then bit (row i) 4
     else n < 34 \<and> bit (row i) (n - 17))"

definition word_bit :: "DecodedInst \<Rightarrow> nat \<Rightarrow> bool" where
  "word_bit i n = (if n < 10 then bit (column i) n else if n < 12 then bit (bank i) (n - 10)
     else if n < 14 then bit (bankgroup i) (n - 12) else if n < 31 then bit (row i) (n - 14)
     else if n < 48 then False else if n = 48 then bit (trace_end i) 0
     else if n < 61 then bit (output_idx i) (n - 49) else if n = 61 then bit (local_bit i) 0
     else bit (opcode i) (n - 62))"

definition addr_ok :: "u64 \<Rightarrow> bool" where
  "addr_ok a \<longleftrightarrow> a mod 8 = 0 \<and> a < 2 ^ 34"

definition inst_addr_ok :: "DecodedInst \<Rightarrow> bool" where
  "inst_addr_ok i \<longleftrightarrow> row i < 2 ^ 17 \<and> bankgroup i < 2 ^ 2 \<and> bank i < 2 ^ 2 \<and> column i < 2 ^ 10"

definition addr_cell :: "u64 \<Rightarrow> u64" where
  "addr_cell a = take_bit 34 a AND NOT (mask 3)"

section \<open>Table entries bit by bit\<close>

lemma bit_put_region:
  assumes "\<And>j. bit (Mask e) j \<Longrightarrow> RAOffset e + j < 64 \<and> \<not> bit a (RAOffset e + j)"
  shows "bit (put_region v e a) n \<longleftrightarrow>
    bit a n \<or> RAOffset e \<le> n \<and> bit (Mask e) (n - RAOffset e) \<and> bit v (StartBit e + (n - RAOffset e))"
proof -
  have "put_region v e a = a OR push_bit (RAOffset e) (ucast (drop_bit (StartBit e) v) AND Mask e)"
    unfolding put_region_def 
  proof (rule disjunctive_add)
    fix n
    show "\<not> bit a n \<or> \<not> bit (push_bit (RAOffset e) (ucast (drop_bit (StartBit e) v) AND Mask e)) n"
      using assms [of "n - RAOffset e"] by (auto simp: bit_simps)
  qed
  then show ?thesis using assms [of "n - RAOffset e"]
    by (auto simp: bit_simps dest: bit_imp_le_length)
qed

lemma bit_put_xor:
  assumes "\<not> bit a (RAOffset1 e)" "RAOffset1 e < 64"
  shows "bit (put_xor v e a) n \<longleftrightarrow>
    bit a n \<or> n = RAOffset1 e \<and> (bit v (XStartBit e) \<noteq> bit a (RAOffset0 e))"
proof -
  have "ucast (drop_bit s v AND 1) XOR (drop_bit l a AND 1) = (of_bool (bit v s \<noteq> bit a l) :: u64)" for s l
    by (intro bit_word_eqI) (auto simp: bit_simps bit_1_iff)
  moreover have "a + push_bit (RAOffset1 e) (of_bool X) = a OR push_bit (RAOffset1 e) (of_bool X)" for X
    using assms(1) by (intro disjunctive_add) (auto simp: bit_simps)
  ultimately show ?thesis using assms(2) by (auto simp: put_xor_def bit_simps)
qed

lemma bit_masks [simp]: "bit (0x1F :: int) n \<longleftrightarrow> n < 5" "bit (0xF :: int) n \<longleftrightarrow> n < 4"
  "bit (0x7F :: int) n \<longleftrightarrow> n < 7"
  using bit_mask_iff [of 5 n, where ?'a = int] bit_mask_iff [of 4 n, where ?'a = int] bit_mask_iff [of 7 n, where ?'a = int]
  by (simp_all add: mask_eq_exp_minus_1)

lemma bit_put_col: "bit (fold (put_region c) COL 0) n \<longleftrightarrow> 
  3 \<le> n \<and> n < 8 \<and> bit c (n - 3) \<or> 14 \<le> n \<and> n < 19 \<and> bit c (n - 9)"
proof -
  have *: "bit (put_region c \<lparr>RAOffset = 3, Mask = 31, StartBit = 0\<rparr> 0) n \<longleftrightarrow> 
    3 \<le> n \<and> n < 8 \<and> bit c (n - 3)" for n
    by (subst bit_put_region) auto
  show ?thesis
    unfolding COL_def fold_simps by (subst bit_put_region) (auto simp: * )
qed

lemma bit_put_row:
  assumes "\<And>j. 8 \<le> j \<and> j < 12 \<or> 21 \<le> j \<Longrightarrow> \<not> bit a j"
  shows "bit (fold (put_region r) ROW a) n \<longleftrightarrow> bit a n \<or> 8 \<le> n \<and> n < 12 \<and> bit r (n - 8) \<or> n = 28 \<and> bit r 4
     \<or> 21 \<le> n \<and> n < 28 \<and> bit r (n - 16) \<or> 29 \<le> n \<and> n < 34 \<and> bit r (n - 17)"
proof -
  define a1 where "a1 = put_region r \<lparr>RAOffset = 8, Mask = 0x0F, StartBit = 0\<rparr> a"
  define a2 where "a2 = put_region r \<lparr>RAOffset = 28, Mask = 0x01, StartBit = 4\<rparr> a1"
  define a3 where "a3 = put_region r \<lparr>RAOffset = 21, Mask = 0x7F, StartBit = 5\<rparr> a2"
  have 1: "bit a1 n \<longleftrightarrow> bit a n \<or> 8 \<le> n \<and> n < 12 \<and> bit r (n - 8)" for n
    unfolding a1_def using assms by (subst bit_put_region) auto
  have 2: "bit a2 n \<longleftrightarrow> bit a1 n \<or> n = 28 \<and> bit r 4" for n
    unfolding a2_def using assms by (subst bit_put_region) (auto simp: 1 bit_1_iff)
  have 3: "bit a3 n \<longleftrightarrow> bit a2 n \<or> 21 \<le> n \<and> n < 28 \<and> bit r (n - 16)" for n
    unfolding a3_def using assms by (subst bit_put_region) (auto simp: 1 2)
  show ?thesis
    unfolding ROW_def fold_simps a1_def [symmetric] a2_def [symmetric] a3_def [symmetric]
    using assms by (subst bit_put_region) (auto simp: 1 2 3)
qed
lemma bit_put_bg:
  assumes "\<not> bit a 12" "\<not> bit a 13"
  shows "bit (fold (put_xor g) BG a) n \<longleftrightarrow> bit a n \<or> n = 12 \<and> (bit g 0 \<noteq> bit a 21) \<or> n = 13 \<and> (bit g 1 \<noteq> bit a 22)"
proof -
  define a1 where "a1 = put_xor g \<lparr>RAOffset0 = 21, RAOffset1 = 12, XStartBit = 0\<rparr> a"
  have 1: "bit a1 n \<longleftrightarrow> bit a n \<or> n = 12 \<and> (bit g 0 \<noteq> bit a 21)" for n
    unfolding a1_def using assms by (subst bit_put_xor) auto
  show ?thesis
    unfolding BG_def fold_simps a1_def [symmetric]
    using assms by (subst bit_put_xor) (auto simp: 1)
qed
lemma bit_put_bank:
  assumes "\<not> bit a 19" "\<not> bit a 20"
  shows "bit (fold (put_xor g) BANK a) n \<longleftrightarrow> bit a n \<or> n = 19 \<and> (bit g 0 \<noteq> bit a 23) \<or> n = 20 \<and> (bit g 1 \<noteq> bit a 24)"
proof -
  define a1 where "a1 = put_xor g \<lparr>RAOffset0 = 23, RAOffset1 = 19, XStartBit = 0\<rparr> a"
  have 1: "bit a1 n \<longleftrightarrow> bit a n \<or> n = 19 \<and> (bit g 0 \<noteq> bit a 23)" for n
    unfolding a1_def using assms by (subst bit_put_xor) auto
  show ?thesis
    unfolding BANK_def fold_simps a1_def [symmetric]
    using assms by (subst bit_put_xor) (auto simp: 1)
qed
lemma bit_ranked_encode: "bit (ranked_encode_address i) n = rank_bit i n"
proof -
  define a where "a = fold (put_region (column i)) COL 0"
  define b where "b = fold (put_region (row i)) ROW a"
  define c where "c = fold (put_xor (bankgroup i)) BG b"
  have a: "bit a n \<longleftrightarrow> 3 \<le> n \<and> n < 8 \<and> bit (column i) (n - 3) \<or> 14 \<le> n \<and> n < 19 \<and> bit (column i) (n - 9)" for n
    unfolding a_def by (rule bit_put_col)
  have b: "bit b n \<longleftrightarrow> bit a n \<or> 8 \<le> n \<and> n < 12 \<and> bit (row i) (n - 8) \<or> n = 28 \<and> bit (row i) 4
     \<or> 21 \<le> n \<and> n < 28 \<and> bit (row i) (n - 16) \<or> 29 \<le> n \<and> n < 34 \<and> bit (row i) (n - 17)" for n
    unfolding b_def by (rule bit_put_row) (auto simp: a)
  have c: "bit c n \<longleftrightarrow> bit b n \<or> n = 12 \<and> (bit (bankgroup i) 0 \<noteq> bit b 21) \<or> n = 13 \<and> (bit (bankgroup i) 1 \<noteq> bit b 22)" for n
    unfolding c_def by (rule bit_put_bg) (auto simp: a b)
  have "bit (ranked_encode_address i) n \<longleftrightarrow> bit c n \<or> n = 19 \<and> (bit (bank i) 0 \<noteq> bit c 23) \<or> n = 20 \<and> (bit (bank i) 1 \<noteq> bit c 24)"
    unfolding ranked_encode_address_def a_def [symmetric] b_def [symmetric] c_def [symmetric]
    by (rule bit_put_bank) (auto simp: a b c)
  also have "\<dots> = rank_bit i n"
    by (auto simp: a b c rank_bit_def)
  finally show ?thesis .
qed

lemma bit_get_region:
  assumes "\<And>j. bit (Mask e) j \<Longrightarrow> StartBit e + j < 32 \<and> \<not> bit v (StartBit e + j)"
  shows "bit (get_region a e v) n \<longleftrightarrow>
    bit v n \<or> StartBit e \<le> n \<and> bit (Mask e) (n - StartBit e) \<and> bit a (RAOffset e + (n - StartBit e))"
proof -
  have "get_region a e v = v OR ucast (push_bit (StartBit e) (drop_bit (RAOffset e) a AND Mask e))"
    unfolding get_region_def
  proof (rule disjunctive_add)
    fix n
    show "\<not> bit v n \<or> \<not> bit (ucast (push_bit (StartBit e) (drop_bit (RAOffset e) a AND Mask e)) :: u32) n"
      using assms [of "n - StartBit e"] by (auto simp: bit_simps)
  qed
  then show ?thesis using assms [of "n - StartBit e"]
    by (auto simp: bit_simps dest: bit_imp_le_length)
qed

lemma bit_get_xor:
  assumes "\<not> bit v (XStartBit e)" "XStartBit e < 32"
  shows "bit (get_xor a e v) n \<longleftrightarrow>
    bit v n \<or> n = XStartBit e \<and> (bit a (RAOffset0 e) \<noteq> bit a (RAOffset1 e))"
proof -
  have x: "(drop_bit k a AND 1) XOR (drop_bit l a AND 1) = (of_bool (bit a k \<noteq> bit a l) :: u64)" for k l
    by (intro bit_word_eqI) (auto simp: bit_simps bit_1_iff)
  have "v + ucast (push_bit (XStartBit e) (of_bool X :: u64)) = v OR ucast (push_bit (XStartBit e) (of_bool X :: u64))" for X
    using assms(1) by (intro disjunctive_add) (auto simp: bit_simps)
  then show ?thesis using assms(2) by (auto simp: get_xor_def x bit_simps)
qed

lemma bit_get_col:
  "bit (fold (get_region a) COL 0) n \<longleftrightarrow> n < 5 \<and> bit a (n + 3) \<or> 5 \<le> n \<and> n < 10 \<and> bit a (n + 9)"
proof -
  have *: "bit (get_region a \<lparr>RAOffset = 3, Mask = 31, StartBit = 0\<rparr> 0) n \<longleftrightarrow> n < 5 \<and> bit a (n + 3)" for n
    by (subst bit_get_region) (auto simp: add.commute)
  show ?thesis
    unfolding COL_def fold_simps by (subst bit_get_region) (auto simp: * add.commute)
qed

lemma bit_get_row:
  "bit (fold (get_region a) ROW 0) n \<longleftrightarrow> n < 4 \<and> bit a (n + 8) \<or> n = 4 \<and> bit a 28 \<or>
     5 \<le> n \<and> n < 12 \<and> bit a (n + 16) \<or> 12 \<le> n \<and> n < 17 \<and> bit a (n + 17)"
proof -
  define a1 where "a1 = get_region a \<lparr>RAOffset = 8, Mask = 0x0F, StartBit = 0\<rparr> 0"
  define a2 where "a2 = get_region a \<lparr>RAOffset = 28, Mask = 0x01, StartBit = 4\<rparr> a1"
  define a3 where "a3 = get_region a \<lparr>RAOffset = 21, Mask = 0x7F, StartBit = 5\<rparr> a2"
  have 1: "bit a1 n \<longleftrightarrow> n < 4 \<and> bit a (n + 8)" for n
    unfolding a1_def by (subst bit_get_region) (auto simp: add.commute)
  have 2: "bit a2 n \<longleftrightarrow> bit a1 n \<or> n = 4 \<and> bit a 28" for n
    unfolding a2_def by (subst bit_get_region) (auto simp: 1 bit_1_iff)
  have 3: "bit a3 n \<longleftrightarrow> bit a2 n \<or> 5 \<le> n \<and> n < 12 \<and> bit a (n + 16)" for n
    unfolding a3_def by (subst bit_get_region) (auto simp: 1 2 add.commute)
  show ?thesis
    unfolding ROW_def fold_simps a1_def [symmetric] a2_def [symmetric] a3_def [symmetric]
    by (subst bit_get_region) (auto simp: 1 2 3 add.commute)
qed

lemma bit_get_bg:
  "bit (fold (get_xor a) BG 0) n \<longleftrightarrow> n = 0 \<and> (bit a 21 \<noteq> bit a 12) \<or> n = 1 \<and> (bit a 22 \<noteq> bit a 13)"
proof -
  have *: "bit (get_xor a \<lparr>RAOffset0 = 21, RAOffset1 = 12, XStartBit = 0\<rparr> 0) n \<longleftrightarrow> n = 0 \<and> (bit a 21 \<noteq> bit a 12)" for n
    by (subst bit_get_xor) auto
  show ?thesis
    unfolding BG_def fold_simps by (subst bit_get_xor) (auto simp: * )
qed

lemma bit_get_bank:
  "bit (fold (get_xor a) BANK 0) n \<longleftrightarrow> n = 0 \<and> (bit a 23 \<noteq> bit a 19) \<or> n = 1 \<and> (bit a 24 \<noteq> bit a 20)"
proof -
  have *: "bit (get_xor a \<lparr>RAOffset0 = 23, RAOffset1 = 19, XStartBit = 0\<rparr> 0) n \<longleftrightarrow> n = 0 \<and> (bit a 23 \<noteq> bit a 19)" for n
    by (subst bit_get_xor) auto
  show ?thesis
    unfolding BANK_def fold_simps by (subst bit_get_xor) (auto simp: * )
qed

lemma bit_set_bit_direct:
  assumes "RAOffset1 e < 32"
  shows "bit (set_bit_direct v e a) n \<longleftrightarrow> (if n = RAOffset1 e then bit v (XStartBit e) else bit a n)"
  using assms by (auto simp: set_bit_direct_def bit_simps bit_1_iff dest: bit_imp_le_length)

lemma bit_get_bit_direct:
  assumes "XStartBit e < 32"
  shows "bit (get_bit_direct a e v) n \<longleftrightarrow> bit v n \<or> n = XStartBit e \<and> bit a (RAOffset1 e)"
  using assms by (auto simp: get_bit_direct_def bit_simps bit_1_iff dest: bit_imp_le_length)

lemma bit_channel_encode:
  "bit (channel_encode_address i) n =
    (if n = 12 then bit (bankgroup i) 0 else if n = 13 then bit (bankgroup i) 1
     else if n = 19 then bit (bank i) 0 else if n = 20 then bit (bank i) 1 else rank_bit i n)"
  unfolding channel_encode_address_def BG_def BANK_def fold_simps
  by (simp add: bit_set_bit_direct bit_ranked_encode)

lemma bit_get_direct:
  "bit (fold (get_bit_direct a) BG 0) n \<longleftrightarrow> n = 0 \<and> bit a 12 \<or> n = 1 \<and> bit a 13"
  "bit (fold (get_bit_direct a) BANK 0) n \<longleftrightarrow> n = 0 \<and> bit a 19 \<or> n = 1 \<and> bit a 20"
  unfolding BG_def BANK_def fold_simps by (simp_all add: bit_get_bit_direct)

lemmas bit_decode = bit_get_col bit_get_row bit_get_bg bit_get_bank bit_get_direct


lemma addr_ranges:
  fixes n :: nat
  obtains "n < 3" | "3 \<le> n" "n < 8" | "8 \<le> n" "n < 12" | "n = 12" | "n = 13" | "14 \<le> n" "n < 19"
    | "n = 19" | "n = 20" | "21 \<le> n" "n < 28" | "n = 28" | "29 \<le> n" "n < 34" | "34 \<le> n"
  by linarith

lemma row_ranges:
  fixes n :: nat
  obtains "n < 2" | "2 \<le> n" "n < 4" | "n = 4" | "5 \<le> n" "n < 10" | "10 \<le> n" "n < 12" | "12 \<le> n" "n < 17" | "17 \<le> n"
  by linarith

lemma addr_ok_bits:
  assumes "addr_ok a" "bit a n" shows "3 \<le> n \<and> n < 34"
proof -
  have "take_bit 3 a = 0" using assms(1) by (simp add: addr_ok_def take_bit_eq_mod)
  then have "\<not> n < 3" using assms(2) by (metis bit_0_eq bit_take_bit_iff bot_apply bot_bool_def)
  moreover have "n < 34" using assms less_exp_bit_iff [of 34 a] by (simp add: addr_ok_def)
  ultimately show ?thesis by simp
qed

lemma addr_mod_4: "addr_ok a \<Longrightarrow> a mod 4 = 0"
proof -
  assume "addr_ok a"
  then have "take_bit 2 a = 0" by (intro bit_word_eqI) (auto simp: bit_simps dest!: addr_ok_bits)
  then show "a mod 4 = 0" by (simp add: take_bit_eq_mod)
qed

lemma get_fields_less:
  "fold (get_region a) ROW 0 < 2 ^ 17" "fold (get_region a) COL 0 < 2 ^ 10"
  "fold (get_xor a) BG 0 < 2 ^ 2" "fold (get_xor a) BANK 0 < 2 ^ 2"
  "fold (get_bit_direct a) BG 0 < 2 ^ 2" "fold (get_bit_direct a) BANK 0 < 2 ^ 2"
  by (subst less_exp_bit_iff; auto simp: bit_decode)+

lemma get_fields_ok:
  "inst_addr_ok (i\<lparr>bankgroup := fold (get_xor a) BG 0, bank := fold (get_xor a) BANK 0,
     row := fold (get_region a) ROW 0, column := fold (get_region a) COL 0\<rparr>)"
  "inst_addr_ok (i\<lparr>row := fold (get_region a) ROW 0, column := fold (get_region a) COL 0,
     bankgroup := fold (get_bit_direct a) BG 0, bank := fold (get_bit_direct a) BANK 0\<rparr>)"
  using get_fields_less [of a] by (simp_all add: inst_addr_ok_def)

lemma ranked_dec_enc_bits:
  "bit (ranked_encode_address (i\<lparr>bankgroup := fold (get_xor a) BG 0, bank := fold (get_xor a) BANK 0,
     row := fold (get_region a) ROW 0, column := fold (get_region a) COL 0\<rparr>)) n \<longleftrightarrow>
   3 \<le> n \<and> n < 34 \<and> bit a n"
  unfolding bit_ranked_encode rank_bit_def
  by (cases n rule: addr_ranges) (auto simp: bit_decode)

lemma channel_dec_enc_bits:
  "bit (channel_encode_address (i\<lparr>row := fold (get_region a) ROW 0, column := fold (get_region a) COL 0,
     bankgroup := fold (get_bit_direct a) BG 0, bank := fold (get_bit_direct a) BANK 0\<rparr>)) n \<longleftrightarrow>
   3 \<le> n \<and> n < 34 \<and> bit a n"
  unfolding bit_channel_encode rank_bit_def
  by (cases n rule: addr_ranges) (auto simp: bit_decode)

lemma bit_addr_cell: "bit (addr_cell a) n \<longleftrightarrow> 3 \<le> n \<and> n < 34 \<and> bit a n"
  by (auto simp: addr_cell_def bit_simps dest: bit_imp_le_length)

lemma addr_cell_ok: "addr_ok a \<Longrightarrow> addr_cell a = a"
  by (rule bit_word_eqI) (auto simp: bit_addr_cell dest: addr_ok_bits)

lemma ranked_enc_mod_4: "ranked_encode_address i mod 4 = 0" "channel_encode_address i mod 4 = 0"
proof -
  have "take_bit 2 (ranked_encode_address i) = 0" "take_bit 2 (channel_encode_address i) = 0"
    by (intro bit_word_eqI; simp add: bit_take_bit_iff bit_ranked_encode bit_channel_encode rank_bit_def)+
  then show "ranked_encode_address i mod 4 = 0" "channel_encode_address i mod 4 = 0"
    by (simp_all add: take_bit_eq_mod)
qed

lemma inst_addr_ok_bits:
  assumes "inst_addr_ok i"
  shows "17 \<le> n \<Longrightarrow> \<not> bit (row i) n" "2 \<le> n \<Longrightarrow> \<not> bit (bankgroup i) n"
    "2 \<le> n \<Longrightarrow> \<not> bit (bank i) n" "10 \<le> n \<Longrightarrow> \<not> bit (column i) n"
  using assms less_exp_bit_iff [of 17 "row i"] less_exp_bit_iff [of 2 "bankgroup i"]
    less_exp_bit_iff [of 2 "bank i"] less_exp_bit_iff [of 10 "column i"]
  by (auto simp: inst_addr_ok_def)

lemma low2: fixes n :: nat obtains "n = 0" | "n = 1" | "2 \<le> n" by linarith

lemma ranked_enc_dec:
  assumes "inst_addr_ok i"
  shows "ranked_decode_address (ranked_encode_address i) j =
    Inr (j\<lparr>bankgroup := bankgroup i, bank := bank i, row := row i, column := column i\<rparr>)"
proof -
  note nb = inst_addr_ok_bits [OF assms]
  have "bit (fold (get_xor (ranked_encode_address i)) BG 0) n = bit (bankgroup i) n" for n
    using nb(2) [of n] by (cases n rule: low2) (auto simp: bit_decode bit_ranked_encode rank_bit_def)
  moreover have "bit (fold (get_xor (ranked_encode_address i)) BANK 0) n = bit (bank i) n" for n
    using nb(3) [of n] by (cases n rule: low2) (auto simp: bit_decode bit_ranked_encode rank_bit_def)
  moreover have "bit (fold (get_region (ranked_encode_address i)) COL 0) n = bit (column i) n" for n
    using nb(4) [of n] by (cases n rule: row_ranges) (auto simp: bit_decode bit_ranked_encode rank_bit_def)
  moreover have "bit (fold (get_region (ranked_encode_address i)) ROW 0) n = bit (row i) n" for n
    using nb(1) [of n] by (cases n rule: row_ranges) (auto simp: bit_decode bit_ranked_encode rank_bit_def)
  ultimately show ?thesis
    by (simp add: ranked_decode_address_def ranked_enc_mod_4 bit_eq_iff)
qed

lemma channel_enc_dec:
  assumes "inst_addr_ok i"
  shows "channel_decode_address (channel_encode_address i) j =
    Inr (j\<lparr>bankgroup := bankgroup i, bank := bank i, row := row i, column := column i\<rparr>)"
proof -
  note nb = inst_addr_ok_bits [OF assms]
  have "bit (fold (get_bit_direct (channel_encode_address i)) BG 0) n = bit (bankgroup i) n" for n
    using nb(2) [of n] by (cases n rule: low2) (auto simp: bit_decode bit_channel_encode rank_bit_def)
  moreover have "bit (fold (get_bit_direct (channel_encode_address i)) BANK 0) n = bit (bank i) n" for n
    using nb(3) [of n] by (cases n rule: low2) (auto simp: bit_decode bit_channel_encode rank_bit_def)
  moreover have "bit (fold (get_region (channel_encode_address i)) COL 0) n = bit (column i) n" for n
    using nb(4) [of n] by (cases n rule: row_ranges) (auto simp: bit_decode bit_channel_encode rank_bit_def)
  moreover have "bit (fold (get_region (channel_encode_address i)) ROW 0) n = bit (row i) n" for n
    using nb(1) [of n] by (cases n rule: row_ranges) (auto simp: bit_decode bit_channel_encode rank_bit_def)
  ultimately show ?thesis
    by (cases j) (simp add: channel_decode_address_def ranked_decode_address_def ranked_enc_mod_4 bit_eq_iff)
qed

lemma bit_masks_instr [simp]: "bit (0x3 :: int) n \<longleftrightarrow> n < 2" "bit (0xFFF :: int) n \<longleftrightarrow> n < 12"
  "bit (0x1FFFF :: int) n \<longleftrightarrow> n < 17" "bit (0x3FF :: int) n \<longleftrightarrow> n < 10"
  using bit_mask_iff [of 2 n, where ?'a = int] bit_mask_iff [of 12 n, where ?'a = int]
    bit_mask_iff [of 17 n, where ?'a = int] bit_mask_iff [of 10 n, where ?'a = int]
  by (simp_all add: mask_eq_exp_minus_1)

lemma bit_add_field:
  fixes a :: u64 and f :: u32
  assumes "\<And>j. bit f j \<Longrightarrow> k + j < 64 \<and> \<not> bit a (k + j)"
  shows "bit (a + push_bit k (ucast f)) n \<longleftrightarrow> bit a n \<or> k \<le> n \<and> bit f (n - k)"
proof -
  have "a + push_bit k (ucast f) = a OR push_bit k (ucast f)"
  proof (rule disjunctive_add)
    fix n show "\<not> bit a n \<or> \<not> bit (push_bit k (ucast f) :: u64) n"
      using assms [of "n - k"] by (auto simp: bit_simps)
  qed
  then show ?thesis using assms [of "n - k"] by (auto simp: bit_simps dest: bit_imp_le_length)
qed

lemma fields_fit_iff:
  "fields_fit i \<longleftrightarrow> opcode i < 2 ^ 2 \<and> local_bit i < 2 ^ 1 \<and> output_idx i < 2 ^ 12 \<and> trace_end i < 2 ^ 1 \<and>
     row i < 2 ^ 17 \<and> bankgroup i < 2 ^ 2 \<and> bank i < 2 ^ 2 \<and> column i < 2 ^ 10"
  unfolding fields_fit_def inst_fields_def bit_width_def push_bit_eq_mult by simp

lemma fields_fit_bits:
  assumes "fields_fit i"
  shows "bit (opcode i) n \<Longrightarrow> n < 2" "bit (local_bit i) n \<Longrightarrow> n = 0" "bit (output_idx i) n \<Longrightarrow> n < 12"
    "bit (trace_end i) n \<Longrightarrow> n = 0" "bit (row i) n \<Longrightarrow> n < 17" "bit (bankgroup i) n \<Longrightarrow> n < 2"
    "bit (bank i) n \<Longrightarrow> n < 2" "bit (column i) n \<Longrightarrow> n < 10"
  using assms less_exp_bit_iff [of 2 "opcode i"] less_exp_bit_iff [of 1 "local_bit i"]
    less_exp_bit_iff [of 12 "output_idx i"] less_exp_bit_iff [of 1 "trace_end i"]
    less_exp_bit_iff [of 17 "row i"] less_exp_bit_iff [of 2 "bankgroup i"]
    less_exp_bit_iff [of 2 "bank i"] less_exp_bit_iff [of 10 "column i"]
  unfolding fields_fit_iff by simp_all

lemma fields_fit_nbits:
  assumes "fields_fit i"
  shows "2 \<le> n \<Longrightarrow> \<not> bit (opcode i) n" "1 \<le> n \<Longrightarrow> \<not> bit (local_bit i) n" "12 \<le> n \<Longrightarrow> \<not> bit (output_idx i) n"
    "1 \<le> n \<Longrightarrow> \<not> bit (trace_end i) n" "17 \<le> n \<Longrightarrow> \<not> bit (row i) n" "2 \<le> n \<Longrightarrow> \<not> bit (bankgroup i) n"
    "2 \<le> n \<Longrightarrow> \<not> bit (bank i) n" "10 \<le> n \<Longrightarrow> \<not> bit (column i) n"
  using fields_fit_bits [OF assms, of n] by (fastforce simp: not_less [symmetric])+

lemma word_ranges:
  fixes n :: nat
  obtains "n < 10" | "10 \<le> n" "n < 12" | "12 \<le> n" "n < 14" | "14 \<le> n" "n < 31" | "31 \<le> n" "n < 48" | "n = 48"
    | "49 \<le> n" "n < 61" | "n = 61" | "62 \<le> n"
  by linarith

lemma bit_instr_word:
  assumes "fields_fit i"
  shows "bit (instr_word i) n = word_bit i n"
proof -
  define w1 :: u64 where "w1 = 0 + push_bit INSTR_OPCODE_OFFSET (ucast (opcode i))"
  define w2 where "w2 = w1 + push_bit INSTR_LOCAL_BIT_OFFSET (ucast (local_bit i))"
  define w3 where "w3 = w2 + push_bit INSTR_OUTPUT_IDX_OFFSET (ucast (output_idx i))"
  define w4 where "w4 = w3 + push_bit INSTR_TRACE_END_OFFSET (ucast (trace_end i))"
  define w5 where "w5 = w4 + push_bit INSTR_ROW_OFFSET (ucast (row i))"
  define w6 where "w6 = w5 + push_bit INSTR_BANKGROUP_OFFSET (ucast (bankgroup i))"
  define w7 where "w7 = w6 + push_bit INSTR_BANK_OFFSET (ucast (bank i))"
  note fb = fields_fit_bits [OF assms]
  have w: "instr_word i = w7 + push_bit INSTR_COL_OFFSET (ucast (column i))"
    unfolding instr_word_def w1_def w2_def w3_def w4_def w5_def w6_def w7_def by (simp only: add_0)
  have 1: "bit w1 n \<longleftrightarrow> 62 \<le> n \<and> bit (opcode i) (n - 62)" for n
    unfolding w1_def by (subst bit_add_field) (auto simp: instr_consts dest: fb)
  have 2: "bit w2 n \<longleftrightarrow> bit w1 n \<or> 61 \<le> n \<and> bit (local_bit i) (n - 61)" for n
    unfolding w2_def by (subst bit_add_field) (auto simp: instr_consts 1 dest!: fb)
  have 3: "bit w3 n \<longleftrightarrow> bit w2 n \<or> 49 \<le> n \<and> bit (output_idx i) (n - 49)" for n
    unfolding w3_def by (subst bit_add_field) (auto simp: instr_consts 1 2 dest!: fb)
  have 4: "bit w4 n \<longleftrightarrow> bit w3 n \<or> 48 \<le> n \<and> bit (trace_end i) (n - 48)" for n
    unfolding w4_def by (subst bit_add_field) (auto simp: instr_consts 1 2 3 dest!: fb)
  have 5: "bit w5 n \<longleftrightarrow> bit w4 n \<or> 14 \<le> n \<and> bit (row i) (n - 14)" for n
    unfolding w5_def by (subst bit_add_field) (auto simp: instr_consts 1 2 3 4 dest!: fb)
  have 6: "bit w6 n \<longleftrightarrow> bit w5 n \<or> 12 \<le> n \<and> bit (bankgroup i) (n - 12)" for n
    unfolding w6_def by (subst bit_add_field) (auto simp: instr_consts 1 2 3 4 5 dest!: fb)
  have 7: "bit w7 n \<longleftrightarrow> bit w6 n \<or> 10 \<le> n \<and> bit (bank i) (n - 10)" for n
    unfolding w7_def by (subst bit_add_field) (auto simp: instr_consts 1 2 3 4 5 6 dest!: fb)
  have "bit (instr_word i) n \<longleftrightarrow> bit w7 n \<or> bit (column i) n"
    unfolding w by (subst bit_add_field) (auto simp: instr_consts 1 2 3 4 5 6 7 dest!: fb)
  then have *: "bit (instr_word i) n \<longleftrightarrow> 62 \<le> n \<and> bit (opcode i) (n - 62) \<or> 61 \<le> n \<and> bit (local_bit i) (n - 61) \<or>
      49 \<le> n \<and> bit (output_idx i) (n - 49) \<or> 48 \<le> n \<and> bit (trace_end i) (n - 48) \<or>
      14 \<le> n \<and> bit (row i) (n - 14) \<or> 12 \<le> n \<and> bit (bankgroup i) (n - 12) \<or>
      10 \<le> n \<and> bit (bank i) (n - 10) \<or> bit (column i) n"
    by (simp only: 1 2 3 4 5 6 7 disj_assoc)
  note nb = fields_fit_nbits [OF assms]
  show ?thesis unfolding word_bit_def *
    by (cases n rule: word_ranges) (simp_all add: nb)
qed

lemma extract_field:
  fixes f :: u32
  assumes "fields_fit i" "\<And>n. bit f n \<Longrightarrow> n < b" "\<And>n. n < b \<Longrightarrow> word_bit i (k + n) = bit f n"
    "\<And>n. bit M n \<longleftrightarrow> n < b"
  shows "ucast (drop_bit k (instr_word i) AND M) = f"
  by (rule bit_word_eqI)
    (use assms in \<open>auto simp: bit_simps bit_instr_word dest: bit_imp_le_length\<close>)

lemma decode_instr_word:
  assumes "fields_fit i"
  shows "decode_instruction (instr_word i) = i"
proof -
  note fb = fields_fit_bits [OF assms]
  have one: "bit (local_bit i) n \<Longrightarrow> n < 1" "bit (trace_end i) n \<Longrightarrow> n < 1" for n
    using fb(2,4) [of n] by simp_all
  note x = extract_field [OF assms] and s = instr_consts word_bit_def bit_1_iff
  have f1: "ucast (drop_bit INSTR_OPCODE_OFFSET (instr_word i) AND INSTR_OPCODE_MASK) = opcode i"
    by (rule x [OF fb(1)]) (auto simp: s)
  have f2: "ucast (drop_bit INSTR_LOCAL_BIT_OFFSET (instr_word i) AND INSTR_LOCAL_BIT_MASK) = local_bit i"
    by (rule x [OF one(1)]) (auto simp: s)
  have f3: "ucast (drop_bit INSTR_OUTPUT_IDX_OFFSET (instr_word i) AND INSTR_OUTPUT_IDX_MASK) = output_idx i"
    by (rule x [OF fb(3)]) (auto simp: s)
  have f4: "ucast (drop_bit INSTR_TRACE_END_OFFSET (instr_word i) AND INSTR_TRACE_END_MASK) = trace_end i"
    by (rule x [OF one(2)]) (auto simp: s)
  have f5: "ucast (drop_bit INSTR_ROW_OFFSET (instr_word i) AND INSTR_ROW_MASK) = row i"
    by (rule x [OF fb(5)]) (auto simp: s)
  have f6: "ucast (drop_bit INSTR_BANKGROUP_OFFSET (instr_word i) AND INSTR_BANKGROUP_MASK) = bankgroup i"
    by (rule x [OF fb(6)]) (auto simp: s)
  have f7: "ucast (drop_bit INSTR_BANK_OFFSET (instr_word i) AND INSTR_BANK_MASK) = bank i"
    by (rule x [OF fb(7)]) (auto simp: s)
  have f8: "ucast (drop_bit INSTR_COL_OFFSET (instr_word i) AND INSTR_COL_MASK) = column i"
    by (rule x [OF fb(8)]) (auto simp: s)
  show ?thesis unfolding decode_instruction_def f1 f2 f3 f4 f5 f6 f7 f8 by simp
qed

lemma encode_instruction_eq:
  "encode_instruction i = (if fields_fit i then Inr (instr_word i) else Inl AssertFail)"
proof -
  have "opcode i \<in> {0, 1, 2, 3}" if "fields_fit i"
  proof -
    have "unat (opcode i) < 4" using that by (simp add: fields_fit_iff word_less_nat_alt)
    then have "unat (opcode i) \<in> {0, 1, 2, 3}" by auto
    then show ?thesis by (simp add: word_unat_eq_iff)
  qed
  then show ?thesis by (auto simp: encode_instruction_def assert_r_def)
qed

locale address_codec =
  fixes enc :: "DecodedInst \<Rightarrow> u64" and dec :: "u64 \<Rightarrow> DecodedInst \<Rightarrow> DecodedInst result"
  assumes dec_unaligned: "a mod 4 \<noteq> 0 \<Longrightarrow> dec a i = Inl AssertFail"
    and dec_enc: "a mod 4 = 0 \<Longrightarrow> \<exists>i'. dec a i = Inr i' \<and> enc i' = addr_cell a \<and> inst_addr_ok i' \<and>
      opcode i' = opcode i \<and> local_bit i' = local_bit i \<and> output_idx i' = output_idx i \<and>
      trace_end i' = trace_end i"
    and enc_dec: "inst_addr_ok i \<Longrightarrow> dec (enc i) j =
      Inr (j\<lparr>bankgroup := bankgroup i, bank := bank i, row := row i, column := column i\<rparr>)"
    and enc_frame: "enc (i\<lparr>trace_end := t\<rparr>) = enc i"
begin

lemma instruction_for_address:
  assumes "addr_ok a" "op < 4" "idx < 2 ^ 12"
  shows "\<exists>i. dec a (make_empty_instruction op idx) = Inr i \<and> encode_instruction i = Inr (instr_word i) \<and>
     decode_instruction (instr_word i) = i \<and> enc i = a \<and> opcode i = op \<and> local_bit i = 0 \<and>
     output_idx i = idx \<and> trace_end i = 0 \<and> fields_fit i"
proof -
  obtain i where i: "dec a (make_empty_instruction op idx) = Inr i" "enc i = a" "inst_addr_ok i"
    "opcode i = op" "local_bit i = 0" "output_idx i = idx" "trace_end i = 0"
    using dec_enc [OF addr_mod_4 [OF assms(1)], of "make_empty_instruction op idx"]
      addr_cell_ok [OF assms(1)] by (auto simp: make_empty_instruction_def)
  then have "fields_fit i" using assms(2,3) by (simp add: fields_fit_iff inst_addr_ok_def)
  then show ?thesis using i by (simp add: encode_instruction_eq decode_instr_word)
qed

end

lemma ranked_enc_frame: "ranked_encode_address (i\<lparr>trace_end := t\<rparr>) = ranked_encode_address i"
  "channel_encode_address (i\<lparr>trace_end := t\<rparr>) = channel_encode_address i"
  by (simp_all add: ranked_encode_address_def channel_encode_address_def)

interpretation ranked: address_codec ranked_encode_address ranked_decode_address
proof
  fix a and i :: DecodedInst
  show "a mod 4 \<noteq> 0 \<Longrightarrow> ranked_decode_address a i = Inl AssertFail"
    by (simp add: ranked_decode_address_def)
  show "a mod 4 = 0 \<Longrightarrow> \<exists>i'. ranked_decode_address a i = Inr i' \<and> ranked_encode_address i' = addr_cell a \<and>
      inst_addr_ok i' \<and> opcode i' = opcode i \<and> local_bit i' = local_bit i \<and> output_idx i' = output_idx i \<and>
      trace_end i' = trace_end i"
    by (auto simp: ranked_decode_address_def assert_r_def get_fields_ok ranked_dec_enc_bits bit_addr_cell
        intro!: bit_word_eqI)
qed (simp_all add: ranked_enc_dec ranked_enc_frame)

interpretation channel: address_codec channel_encode_address channel_decode_address
proof
  fix a and i :: DecodedInst
  show "a mod 4 \<noteq> 0 \<Longrightarrow> channel_decode_address a i = Inl AssertFail"
    by (simp add: channel_decode_address_def ranked_decode_address_def)
  show "a mod 4 = 0 \<Longrightarrow> \<exists>i'. channel_decode_address a i = Inr i' \<and> channel_encode_address i' = addr_cell a \<and>
      inst_addr_ok i' \<and> opcode i' = opcode i \<and> local_bit i' = local_bit i \<and> output_idx i' = output_idx i \<and>
      trace_end i' = trace_end i"
    by (auto simp: channel_decode_address_def ranked_decode_address_def assert_r_def get_fields_ok
        channel_dec_enc_bits bit_addr_cell intro!: bit_word_eqI)
qed (simp_all add: channel_enc_dec ranked_enc_frame)

lemma bit_push_one: "bit (push_bit k (1 :: u64)) n \<longleftrightarrow> n = k \<and> k < 64"
  by (auto simp: bit_simps bit_1_iff)

lemma trace_end_or:
  assumes "fields_fit i"
  shows "instr_word i OR push_bit INSTR_TRACE_END_OFFSET 1 = instr_word (i\<lparr>trace_end := 1\<rparr>)"
proof (rule bit_word_eqI)
  fix n
  have "fields_fit (i\<lparr>trace_end := 1\<rparr>)" using assms by (simp add: fields_fit_iff)
  then show "bit (instr_word i OR push_bit INSTR_TRACE_END_OFFSET 1) n = bit (instr_word (i\<lparr>trace_end := 1\<rparr>)) n"
    if "n < LENGTH(64)"
    using that assms unfolding bit_or_iff bit_push_one
    by (auto simp: bit_instr_word word_bit_def INSTR_TRACE_END_OFFSET_def)
qed

section \<open>Properties\<close>

text \<open>
  C32: an instruction whose fields fit their widths is encoded, and decoding the word gives the
  instruction back; one with a field that does not fit is refused by the assertion.
\<close>
theorem instruction_roundtrip:
  "if fields_fit i then \<exists>w. encode_instruction i = Inr w \<and> decode_instruction w = i
   else encode_instruction i = Inl AssertFail"
  by (simp add: encode_instruction_eq decode_instr_word)

text \<open>
  C33: both generators split an aligned address into instruction fields from which the same
  address is rebuilt, up to the 8-byte cell: bit 2 and the bits from 34 on are not carried by
  any field, although the assertion accepts every multiple of 4. In the other direction the
  address of an instruction splits into the instruction's own fields.
\<close>
theorem address_roundtrip:
  assumes "a mod 4 = 0" "inst_addr_ok i"
  shows "(\<exists>i'. ranked_decode_address a j = Inr i' \<and> inst_addr_ok i' \<and>
            ranked_encode_address i' = take_bit 34 a AND NOT (mask 3)) \<and>
         (\<exists>i'. channel_decode_address a j = Inr i' \<and> inst_addr_ok i' \<and>
            channel_encode_address i' = take_bit 34 a AND NOT (mask 3)) \<and>
         ranked_decode_address (ranked_encode_address i) i = Inr i \<and>
         channel_decode_address (channel_encode_address i) i = Inr i"
  using ranked.dec_enc [OF assms(1)] channel.dec_enc [OF assms(1)] assms(2)
  by (auto simp: addr_cell_def ranked.enc_dec channel.enc_dec)

theorem address_roundtrip_witness:
  "(0x3FFABCDE8 :: u64) mod 4 = 0 \<and>
   (\<exists>i'. channel_decode_address 0x3FFABCDE8 (make_empty_instruction 0 5) = Inr i' \<and>
      channel_encode_address i' = 0x3FFABCDE8)"
proof -
  have "(0x3FFABCDE8 :: u64) mod 4 = 0" by simp
  moreover have "inst_addr_ok (make_empty_instruction 0 5)"
    by (simp add: inst_addr_ok_def make_empty_instruction_def)
  moreover have "take_bit 34 (0x3FFABCDE8 :: u64) AND NOT (mask 3) = 0x3FFABCDE8"
    by (simp add: mask_eq_exp_minus_1)
  ultimately show ?thesis
    using address_roundtrip [of "0x3FFABCDE8" "make_empty_instruction 0 5" "make_empty_instruction 0 5"]
    by auto
qed

end
