(* ===== verification/Topology.thy ===== *)
theory Topology
  imports Prelude
begin

text \<open>
  Device topology, derived buffer sizes, packs and memory objects
  (\<open>common/topology_constants.h\<close>, \<open>core/device/sls/utils/constants.h\<close>,
  \<open>core/device/sls/rank_memory.h\<close>, \<open>include/pnmlib/core/memory_object.h\<close>). The topology is
  read from sysfs when the library starts, so it is a parameter of every definition that uses it.
\<close>

section \<open>Topology constants\<close>

datatype BusType = AXDIMM | CXL

record Constants =
  Bus :: BusType
  NumOfCUnits :: nat
  PSumBufSize :: nat
  NumOfPSumBuf :: nat
  TagsBufSize :: nat
  NumOfTagsBuf :: nat
  InstBufSize :: nat
  NumOfInstBuf :: nat
  InstructionSize :: nat
  AlignedTagSize :: nat
  RegPolling :: nat
  RegSlsExec :: nat
  RegSlsEn :: nat
  DataSize :: nat

definition psum_single_buf_size :: "Constants \<Rightarrow> nat" where
  "psum_single_buf_size topo = PSumBufSize topo div NumOfPSumBuf topo"

definition tags_single_buf_size :: "Constants \<Rightarrow> nat" where
  "tags_single_buf_size topo = TagsBufSize topo div NumOfTagsBuf topo"

definition inst_single_buf_size :: "Constants \<Rightarrow> nat" where
  "inst_single_buf_size topo = InstBufSize topo div NumOfInstBuf topo"

definition inst_per_single_buf :: "Constants \<Rightarrow> nat" where
  "inst_per_single_buf topo = inst_single_buf_size topo div InstructionSize topo"

definition trace_header_size :: "Constants \<Rightarrow> nat" where
  "trace_header_size topo = InstructionSize topo"

definition inst_per_single_buf_no_header :: "Constants \<Rightarrow> nat" where
  "inst_per_single_buf_no_header topo =
     (inst_single_buf_size topo - trace_header_size topo) div InstructionSize topo"

text \<open>
  The topologies the sizes above are meant for: no division by zero, and a buffer that holds at
  least the trace header, so that the subtraction does not wrap.
\<close>

definition topo_ok :: "Constants \<Rightarrow> bool" where
  "topo_ok topo \<longleftrightarrow>
     0 < NumOfPSumBuf topo \<and> 0 < NumOfTagsBuf topo \<and> 0 < NumOfInstBuf topo \<and>
     0 < InstructionSize topo \<and> 0 < DataSize topo \<and>
     InstructionSize topo \<le> inst_single_buf_size topo \<and>
     0 < NumOfCUnits topo \<and> NumOfCUnits topo \<le> 8"

lemmas topo_defs = psum_single_buf_size_def tags_single_buf_size_def inst_single_buf_size_def
  inst_per_single_buf_def trace_header_size_def inst_per_single_buf_no_header_def

definition POLL_FINISH_VALUE :: u32 where "POLL_FINISH_VALUE = 0xFFFFFFFF"
definition POLL_INST_NUM_OFFSET :: nat where "POLL_INST_NUM_OFFSET = 8"
definition SLS_ENABLE_VALUE :: u32 where "SLS_ENABLE_VALUE = 0xCAFE"
definition SLS_DISABLE_VALUE :: u32 where "SLS_DISABLE_VALUE = 0"
definition SLS_CONTROL_SWITCHED_VALUE :: u32 where "SLS_CONTROL_SWITCHED_VALUE = 0x10001"

section \<open>Packs\<close>

definition num_of_pack :: "Constants \<Rightarrow> nat" where
  "num_of_pack topo = 2 ^ NumOfCUnits topo"

definition pack_identifiers :: "Constants \<Rightarrow> nat list" where
  "pack_identifiers topo = [1..<num_of_pack topo]"

text \<open>A pack array is a vector with one entry per pack, checked on construction.\<close>

definition packs_array :: "Constants \<Rightarrow> 'a list \<Rightarrow> 'a list result" where
  "packs_array topo data = assert_r (length data = num_of_pack topo) (Inr data)"

section \<open>Memory objects\<close>

record MemoryObject =
  object_id :: nat
  size_bytes :: nat
  offsets :: "(bool \<times> u64) list"

definition MemoryObject_make :: "nat \<Rightarrow> nat \<Rightarrow> nat \<Rightarrow> MemoryObject" where
  "MemoryObject_make oid sz num_of_rank =
     \<lparr>object_id = oid, size_bytes = sz, offsets = replicate num_of_rank (False, 0)\<rparr>"

definition obj_offset :: "MemoryObject \<Rightarrow> nat \<Rightarrow> u64 result" where
  "obj_offset ob rank_id =
     (if rank_id < length (offsets ob)
      then assert_r (fst (offsets ob ! rank_id)) (Inr (snd (offsets ob ! rank_id)))
      else Inl Undefined)"

definition obj_set_offset :: "MemoryObject \<Rightarrow> nat \<Rightarrow> u64 \<Rightarrow> MemoryObject result" where
  "obj_set_offset ob rank_id off =
     assert_r (rank_id < length (offsets ob)) (Inr (ob\<lparr>offsets := (offsets ob)[rank_id := (True, off)]\<rparr>))"

definition get_max_object_size_in_bytes :: "MemoryObject list \<Rightarrow> nat" where
  "get_max_object_size_in_bytes objects =
     (if objects = [] then 0 else fold max (map size_bytes objects) 0)"

definition get_max_object_size_in_packs :: "MemoryObject list list \<Rightarrow> nat" where
  "get_max_object_size_in_packs packs = fold (\<lambda>elm m. max m (get_max_object_size_in_bytes elm)) packs 0"

definition get_objects_size_in_bytes :: "MemoryObject list \<Rightarrow> nat" where
  "get_objects_size_in_bytes objects = fold (\<lambda>elm s. s + size_bytes elm) objects 0"

definition get_objects_size_in_packs :: "MemoryObject list list \<Rightarrow> nat" where
  "get_objects_size_in_packs packs = fold (\<lambda>elm s. s + get_objects_size_in_bytes elm) packs 0"

text \<open>A small topology on which the theorems are instantiated.\<close>

definition small_topo :: Constants where
  "small_topo = \<lparr>Bus = CXL, NumOfCUnits = 1, PSumBufSize = 256, NumOfPSumBuf = 1, TagsBufSize = 64,
     NumOfTagsBuf = 1, InstBufSize = 64, NumOfInstBuf = 1, InstructionSize = 8, AlignedTagSize = 16,
     RegPolling = 0, RegSlsExec = 4, RegSlsEn = 8, DataSize = 4\<rparr>"

section \<open>Lemmas\<close>

lemma small_topo_ok: "topo_ok small_topo"
  by (simp add: topo_ok_def small_topo_def inst_single_buf_size_def)

lemma num_of_pack_le: "topo_ok topo \<Longrightarrow> num_of_pack topo \<le> 256"
  using power_increasing [of "NumOfCUnits topo" 8 "2::nat"] by (simp add: topo_ok_def num_of_pack_def)

lemma pack_id_less: "p \<in> set (pack_identifiers topo) \<longleftrightarrow> 0 < p \<and> p < num_of_pack topo"
  by (auto simp: pack_identifiers_def)

lemma obj_offset_set:
  assumes "r < length (offsets ob)"
  shows "\<exists>ob'. obj_set_offset ob r off = Inr ob' \<and> obj_offset ob' r = Inr off \<and>
    object_id ob' = object_id ob \<and> size_bytes ob' = size_bytes ob \<and>
    (\<forall>s. s \<noteq> r \<longrightarrow> obj_offset ob' s = obj_offset ob s)"
  using assms by (auto simp: obj_set_offset_def obj_offset_def assert_r_def)

text \<open>
  The instructions that fit into one buffer together with the trace header: the header and
  \<open>inst_per_single_buf_no_header\<close> instructions never exceed the buffer.
\<close>

lemma inst_buffer_fits:
  assumes "topo_ok topo"
  shows "(inst_per_single_buf_no_header topo + 1) * InstructionSize topo \<le> inst_single_buf_size topo"
proof -
  let ?k = "(inst_single_buf_size topo - InstructionSize topo) div InstructionSize topo"
  have "?k * InstructionSize topo \<le> inst_single_buf_size topo - InstructionSize topo"
    by (rule div_times_less_eq_dividend)
  moreover have "InstructionSize topo \<le> inst_single_buf_size topo"
    using assms by (simp add: topo_ok_def)
  ultimately show ?thesis
    unfolding inst_per_single_buf_no_header_def trace_header_size_def add_mult_distrib by linarith
qed

end
