(* ===== verification/Exec_Generator.thy ===== *)
theory Exec_Generator
  imports Topology
begin

text \<open>
  Splitting a reduction into executions (\<open>sls/operation/execution_generator.h\<close> and \<open>.cpp\<close>).
  The generator walks over the tables of every pack and over the batches of every table, and
  starts a new execution whenever the next batch would overflow the instruction buffer or the
  partial-sum buffer. The main result is that the executions of a pack, read in order, cover
  every (table, batch) pair of the pack exactly once, in the order of the layout, and that no
  execution exceeds the buffers.
\<close>

section \<open>Executions\<close>

text \<open>
  A chunk is created without a batch offset; the offset is written when the chunk is committed.
\<close>

record TableData =
  table_id :: nat
  table_batches_chunk :: nat
  batch_offset :: "nat option"

record Execution =
  tables_data :: "TableData list"
  total_lookups :: nat
  total_batches_in_chunks :: nat
  psum_size :: nat

definition Execution_empty :: Execution where
  "Execution_empty = \<lparr>tables_data = [], total_lookups = 0, total_batches_in_chunks = 0, psum_size = 0\<rparr>"

definition commit_table_batches :: "Execution \<Rightarrow> nat list \<Rightarrow> (Execution \<times> nat list) result" where
  "commit_table_batches e tables_batches =
     (if tables_data e = [] then Inl Undefined
      else let td = last (tables_data e) in
        if table_id td < length tables_batches then
          Inr (e\<lparr>tables_data := butlast (tables_data e) @
                   [td\<lparr>batch_offset := Some (tables_batches ! table_id td)\<rparr>]\<rparr>,
               tables_batches[table_id td := tables_batches ! table_id td + table_batches_chunk td])
        else Inl Undefined)"

definition add_batch :: "Execution \<Rightarrow> nat \<Rightarrow> nat \<Rightarrow> nat list \<Rightarrow> (Execution \<times> nat list) result" where
  "add_batch e t_id b_lookups tables_batches =
     assert_r (b_lookups \<noteq> 0)
      (bind_r
        (if tables_data e = [] \<or> table_id (last (tables_data e)) \<noteq> t_id then
           bind_r (if tables_data e \<noteq> [] then commit_table_batches e tables_batches
                   else Inr (e, tables_batches))
             (\<lambda>(e, tb). Inr (e\<lparr>tables_data := tables_data e @
                 [\<lparr>table_id = t_id, table_batches_chunk = 0, batch_offset = None\<rparr>]\<rparr>, tb))
         else Inr (e, tables_batches))
        (\<lambda>(e, tb). let td = last (tables_data e) in
           Inr (e\<lparr>tables_data := butlast (tables_data e) @
                    [td\<lparr>table_batches_chunk := table_batches_chunk td + 1\<rparr>],
                  total_batches_in_chunks := total_batches_in_chunks e + 1,
                  total_lookups := total_lookups e + b_lookups\<rparr>, tb)))"

section \<open>The generator\<close>

record ExecutionGenerator =
  current_exec :: Execution
  exec_packs :: "Execution list list"
  tables_layout :: "MemoryObject list list"
  tables_batches :: "nat list"
  max_inst_in_buf :: nat
  max_features_in_buf :: nat
  sparse_feature_in_bytes :: nat

definition ExecutionGenerator_default :: "Constants \<Rightarrow> ExecutionGenerator" where
  "ExecutionGenerator_default topo =
     \<lparr>current_exec = Execution_empty, exec_packs = replicate (num_of_pack topo) [],
      tables_layout = replicate (num_of_pack topo) [], tables_batches = [],
      max_inst_in_buf = 0, max_features_in_buf = 0, sparse_feature_in_bytes = 0\<rparr>"

definition gen_init ::
  "ExecutionGenerator \<Rightarrow> MemoryObject list list \<Rightarrow> nat \<Rightarrow> nat \<Rightarrow> nat \<Rightarrow> ExecutionGenerator" where
  "gen_init g layout max_inst max_features feature_bytes =
     g\<lparr>tables_layout := layout, max_inst_in_buf := max_inst, max_features_in_buf := max_features,
       sparse_feature_in_bytes := feature_bytes\<rparr>"

text \<open>The pack index is an \<open>uint8_t\<close> here and in \<open>commit_execution\<close>.\<close>

definition get_pack_execs :: "ExecutionGenerator \<Rightarrow> nat \<Rightarrow> Execution list" where
  "get_pack_execs g pack = exec_packs g ! (pack mod 256)"

definition gen_commit_table_batches :: "ExecutionGenerator \<Rightarrow> ExecutionGenerator result" where
  "gen_commit_table_batches g =
     bind_r (commit_table_batches (current_exec g) (tables_batches g))
       (\<lambda>(e, tb). Inr (g\<lparr>current_exec := e, tables_batches := tb\<rparr>))"

definition gen_add_batch :: "ExecutionGenerator \<Rightarrow> nat \<Rightarrow> nat \<Rightarrow> ExecutionGenerator result" where
  "gen_add_batch g t_id b_lookups =
     bind_r (add_batch (current_exec g) t_id b_lookups (tables_batches g))
       (\<lambda>(e, tb). Inr (g\<lparr>current_exec := e, tables_batches := tb\<rparr>))"

definition try_add_batch :: "ExecutionGenerator \<Rightarrow> nat \<Rightarrow> nat \<Rightarrow> (bool \<times> ExecutionGenerator) result" where
  "try_add_batch g t_id batch_lookups =
     assert_r (batch_lookups \<le> max_inst_in_buf g)
      (if total_lookups (current_exec g) + batch_lookups > max_inst_in_buf g then
         bind_r (gen_commit_table_batches g) (\<lambda>g. Inr (False, g))
       else if total_batches_in_chunks (current_exec g) + 1 > max_features_in_buf g then
         bind_r (gen_commit_table_batches g) (\<lambda>g. Inr (False, g))
       else
         bind_r (gen_add_batch g t_id batch_lookups) (\<lambda>g. Inr (True, g)))"

definition commit_execution :: "ExecutionGenerator \<Rightarrow> nat \<Rightarrow> ExecutionGenerator result" where
  "commit_execution g pack =
     (let e = (current_exec g)\<lparr>psum_size :=
                 total_batches_in_chunks (current_exec g) * sparse_feature_in_bytes g\<rparr> in
      assert_r (total_lookups e > 0)
       (assert_r (total_batches_in_chunks e > 0)
         (assert_r (total_lookups e \<le> max_inst_in_buf g)
           (assert_r (total_batches_in_chunks e \<le> max_features_in_buf g)
             (Inr (g\<lparr>exec_packs := (exec_packs g)[pack mod 256 := exec_packs g ! (pack mod 256) @ [e]],
                     current_exec := Execution_empty\<rparr>))))))"

text \<open>One iteration of the batch loop, and the three nested loops of \<open>generate\<close>.\<close>

definition gen_batch :: "nat \<Rightarrow> nat \<Rightarrow> nat \<Rightarrow> ExecutionGenerator \<Rightarrow> ExecutionGenerator result" where
  "gen_batch pack t_id len g =
     bind_r (try_add_batch g t_id len)
       (\<lambda>(added, g). if added then Inr g
          else bind_r (commit_execution g pack) (\<lambda>g. gen_add_batch g t_id len))"

primrec gen_batches :: "nat \<Rightarrow> nat \<Rightarrow> nat list \<Rightarrow> ExecutionGenerator \<Rightarrow> ExecutionGenerator result" where
  "gen_batches pack t_id [] g = Inr g"
| "gen_batches pack t_id (len # lens) g =
     bind_r (gen_batch pack t_id len g) (gen_batches pack t_id lens)"

primrec gen_tables ::
  "nat \<Rightarrow> nat \<Rightarrow> nat list \<Rightarrow> nat \<Rightarrow> MemoryObject list \<Rightarrow> ExecutionGenerator \<Rightarrow> ExecutionGenerator result" where
  "gen_tables mb nt lengths pack [] g = Inr g"
| "gen_tables mb nt lengths pack (ob # obs) g =
     (let current_table_batch_offset = object_id ob * mb in
      assert_r (current_table_batch_offset + mb - 1 < nt * mb)
       (if length lengths < current_table_batch_offset + mb then Inl Undefined
        else bind_r (gen_batches pack (object_id ob) (take mb (drop current_table_batch_offset lengths)) g)
          (gen_tables mb nt lengths pack obs)))"

definition gen_pack :: "nat \<Rightarrow> nat \<Rightarrow> nat list \<Rightarrow> nat \<Rightarrow> ExecutionGenerator \<Rightarrow> ExecutionGenerator result" where
  "gen_pack mb nt lengths pack g =
     bind_r (gen_tables mb nt lengths pack (tables_layout g ! pack) g)
       (\<lambda>g. if total_lookups (current_exec g) \<noteq> 0
            then bind_r (gen_commit_table_batches g) (\<lambda>g. commit_execution g pack)
            else Inr g)"

primrec gen_packs :: "nat \<Rightarrow> nat \<Rightarrow> nat list \<Rightarrow> nat list \<Rightarrow> ExecutionGenerator \<Rightarrow> ExecutionGenerator result" where
  "gen_packs mb nt lengths [] g = Inr g"
| "gen_packs mb nt lengths (p # ps) g =
     bind_r (gen_pack mb nt lengths p g) (gen_packs mb nt lengths ps)"

definition resize :: "nat \<Rightarrow> 'a \<Rightarrow> 'a list \<Rightarrow> 'a list" where
  "resize n d xs = take n xs @ replicate (n - length xs) d"

definition generate ::
  "Constants \<Rightarrow> ExecutionGenerator \<Rightarrow> nat \<Rightarrow> nat \<Rightarrow> nat list \<Rightarrow> ExecutionGenerator result" where
  "generate topo g mb nt lengths =
     assert_r (max_inst_in_buf g > 0 \<and> max_features_in_buf g > 0 \<and> sparse_feature_in_bytes g > 0 \<and>
               mb > 0 \<and> nt > 0)
      (gen_packs mb nt lengths (pack_identifiers topo)
        (g\<lparr>tables_batches := resize nt 0 (tables_batches g),
           exec_packs := map (\<lambda>_. []) (exec_packs g)\<rparr>))"

section \<open>Specification\<close>

text \<open>
  \<open>chunk_cells\<close> and \<open>exec_cells\<close> list the (table, batch) pairs that a committed chunk and an
  execution stand for; \<open>open_cells\<close> those of the execution under construction, whose last chunk
  has no offset yet; \<open>next_batch\<close> is the batch of a table that comes next; \<open>tds_wf\<close> says that chunks
  are committed and not empty. \<open>exec_ok\<close> says that an
  execution fits the buffers and that its counters are those of its pairs.
\<close>

type_synonym cell_len = "nat \<times> nat \<Rightarrow> nat"

definition chunk_cells :: "TableData \<Rightarrow> (nat \<times> nat) list" where
  "chunk_cells td = (case batch_offset td of None \<Rightarrow> []
     | Some off \<Rightarrow> map (\<lambda>k. (table_id td, off + k)) [0..<table_batches_chunk td])"

definition exec_cells :: "Execution \<Rightarrow> (nat \<times> nat) list" where
  "exec_cells e = concat (map chunk_cells (tables_data e))"

definition open_cells :: "Execution \<Rightarrow> nat list \<Rightarrow> (nat \<times> nat) list" where
  "open_cells e tb = (if tables_data e = [] then []
     else concat (map chunk_cells (butlast (tables_data e))) @
       (let td = last (tables_data e) in
         map (\<lambda>k. (table_id td, tb ! table_id td + k)) [0..<table_batches_chunk td]))"

definition next_batch :: "Execution \<Rightarrow> nat list \<Rightarrow> nat \<Rightarrow> nat" where
  "next_batch e tb t = tb ! t +
     (if tables_data e \<noteq> [] \<and> table_id (last (tables_data e)) = t
      then table_batches_chunk (last (tables_data e)) else 0)"

definition tds_wf :: "TableData list \<Rightarrow> bool" where
  "tds_wf tds \<longleftrightarrow> (\<forall>td \<in> set tds. batch_offset td \<noteq> None \<and> 0 < table_batches_chunk td)"

definition open_wf :: "Execution \<Rightarrow> nat list \<Rightarrow> bool" where
  "open_wf e tb \<longleftrightarrow> (if tables_data e = [] then e = Execution_empty
     else table_id (last (tables_data e)) < length tb \<and> 0 < table_batches_chunk (last (tables_data e)) \<and>
       tds_wf (butlast (tables_data e)))"

definition exec_ok :: "cell_len \<Rightarrow> ExecutionGenerator \<Rightarrow> Execution \<Rightarrow> bool" where
  "exec_ok L g e \<longleftrightarrow> total_lookups e = sum_list (map L (exec_cells e)) \<and>
     total_batches_in_chunks e = length (exec_cells e) \<and>
     0 < total_lookups e \<and> total_lookups e \<le> max_inst_in_buf g \<and>
     0 < total_batches_in_chunks e \<and> total_batches_in_chunks e \<le> max_features_in_buf g \<and>
     psum_size e = total_batches_in_chunks e * sparse_feature_in_bytes g \<and> tds_wf (tables_data e)"

definition pack_cells :: "ExecutionGenerator \<Rightarrow> nat \<Rightarrow> (nat \<times> nat) list" where
  "pack_cells g p = concat (map exec_cells (exec_packs g ! p))"

definition cur_cells :: "ExecutionGenerator \<Rightarrow> (nat \<times> nat) list" where
  "cur_cells g = open_cells (current_exec g) (tables_batches g)"

definition gen_next :: "ExecutionGenerator \<Rightarrow> nat \<Rightarrow> nat" where
  "gen_next g t = next_batch (current_exec g) (tables_batches g) t"

definition gen_inv :: "cell_len \<Rightarrow> ExecutionGenerator \<Rightarrow> bool" where
  "gen_inv L g \<longleftrightarrow> open_wf (current_exec g) (tables_batches g) \<and>
     total_lookups (current_exec g) = sum_list (map L (cur_cells g)) \<and>
     total_batches_in_chunks (current_exec g) = length (cur_cells g) \<and>
     total_lookups (current_exec g) \<le> max_inst_in_buf g \<and>
     total_batches_in_chunks (current_exec g) \<le> max_features_in_buf g \<and>
     total_batches_in_chunks (current_exec g) \<le> total_lookups (current_exec g) \<and>
     0 < max_features_in_buf g"

definition gen_frame :: "nat \<Rightarrow> ExecutionGenerator \<Rightarrow> ExecutionGenerator \<Rightarrow> bool" where
  "gen_frame p g g' \<longleftrightarrow> tables_layout g' = tables_layout g \<and> max_inst_in_buf g' = max_inst_in_buf g \<and>
     max_features_in_buf g' = max_features_in_buf g \<and>
     sparse_feature_in_bytes g' = sparse_feature_in_bytes g \<and>
     length (exec_packs g') = length (exec_packs g) \<and>
     length (tables_batches g') = length (tables_batches g) \<and>
     (\<forall>q. q \<noteq> p \<longrightarrow> exec_packs g' ! q = exec_packs g ! q)"

definition covered :: "ExecutionGenerator \<Rightarrow> nat \<Rightarrow> (nat \<times> nat) list" where
  "covered g p = pack_cells g p @ cur_cells g"

definition lens_of :: "nat \<Rightarrow> nat list \<Rightarrow> cell_len" where
  "lens_of mb lengths = (\<lambda>(t, b). lengths ! (t * mb + b))"

definition table_cells :: "nat \<Rightarrow> nat list \<Rightarrow> (nat \<times> nat) list" where
  "table_cells mb ids = concat (map (\<lambda>t. map (\<lambda>b. (t, b)) [0..<mb]) ids)"

definition gen_ready :: "nat \<Rightarrow> nat \<Rightarrow> nat list \<Rightarrow> ExecutionGenerator \<Rightarrow> bool" where
  "gen_ready mb nt lengths g \<longleftrightarrow> gen_inv (lens_of mb lengths) g \<and> current_exec g = Execution_empty \<and>
     length (tables_batches g) = nt \<and> length lengths = nt * mb \<and> 0 < mb \<and>
     (\<forall>l \<in> set lengths. 0 < l \<and> l \<le> max_inst_in_buf g)"

definition layout_ok :: "Constants \<Rightarrow> nat \<Rightarrow> MemoryObject list list \<Rightarrow> bool" where
  "layout_ok topo nt layout \<longleftrightarrow> length layout = num_of_pack topo \<and>
     (\<forall>p \<in> set (pack_identifiers topo). \<forall>ob \<in> set (layout ! p). object_id ob < nt) \<and>
     distinct (concat (map (\<lambda>p. map object_id (layout ! p)) (pack_identifiers topo)))"

section \<open>Chunks\<close>

lemma commit_table_batches_correct:
  assumes "open_wf e tb" "tables_data e \<noteq> []"
  shows "\<exists>e' tb'. commit_table_batches e tb = Inr (e', tb') \<and> exec_cells e' = open_cells e tb \<and>
    length tb' = length tb \<and> (\<forall>t < length tb. tb' ! t = next_batch e tb t) \<and>
    total_lookups e' = total_lookups e \<and> total_batches_in_chunks e' = total_batches_in_chunks e \<and>
    tables_data e' \<noteq> [] \<and> tds_wf (tables_data e')"
  using assms
  by (auto simp: commit_table_batches_def open_wf_def tds_wf_def exec_cells_def open_cells_def chunk_cells_def
      next_batch_def Let_def nth_list_update)

lemma add_batch_correct:
  assumes "open_wf e tb" "l \<noteq> 0" "t < length tb"
  shows "\<exists>e' tb'. add_batch e t l tb = Inr (e', tb') \<and> open_wf e' tb' \<and>
    open_cells e' tb' = open_cells e tb @ [(t, next_batch e tb t)] \<and> length tb' = length tb \<and>
    (\<forall>s < length tb. next_batch e' tb' s = next_batch e tb s + (if s = t then 1 else 0)) \<and>
    total_lookups e' = total_lookups e + l \<and>
    total_batches_in_chunks e' = total_batches_in_chunks e + 1"
proof (cases "tables_data e = [] \<or> table_id (last (tables_data e)) \<noteq> t")
  case False
  then show ?thesis using assms
    by (auto simp: add_batch_def open_wf_def tds_wf_def open_cells_def next_batch_def Let_def)
next
  case new: True
  show ?thesis
  proof (cases "tables_data e = []")
    case True
    then show ?thesis using assms
      by (auto simp: add_batch_def open_wf_def tds_wf_def open_cells_def next_batch_def Let_def)
  next
    case False
    obtain e1 tb1 where c: "commit_table_batches e tb = Inr (e1, tb1)" "exec_cells e1 = open_cells e tb"
      "length tb1 = length tb" "\<forall>t < length tb. tb1 ! t = next_batch e tb t"
      "total_lookups e1 = total_lookups e" "total_batches_in_chunks e1 = total_batches_in_chunks e"
      "tds_wf (tables_data e1)"
      using commit_table_batches_correct [OF assms(1) False] by auto
    show ?thesis using new False assms(2,3) c
      by (auto simp: add_batch_def open_wf_def open_cells_def next_batch_def Let_def exec_cells_def)
  qed
qed

lemma gen_frame_refl [simp]: "gen_frame p g g"
  by (simp add: gen_frame_def)

lemma gen_frame_trans: "gen_frame p g g' \<Longrightarrow> gen_frame p g' g'' \<Longrightarrow> gen_frame p g g''"
  by (simp add: gen_frame_def)

lemma exec_ok_frame: "gen_frame p g g' \<Longrightarrow> exec_ok L g' e = exec_ok L g e"
  by (simp add: gen_frame_def exec_ok_def)

lemma gen_add_batch_correct:
  assumes "gen_inv L g" "l = L (t, gen_next g t)" "l \<noteq> 0" "t < length (tables_batches g)"
    and "total_lookups (current_exec g) + l \<le> max_inst_in_buf g"
    and "total_batches_in_chunks (current_exec g) + 1 \<le> max_features_in_buf g"
  shows "\<exists>g'. gen_add_batch g t l = Inr g' \<and> gen_inv L g' \<and> gen_frame p g g' \<and>
    exec_packs g' = exec_packs g \<and> cur_cells g' = cur_cells g @ [(t, gen_next g t)] \<and>
    (\<forall>s < length (tables_batches g). gen_next g' s = gen_next g s + (if s = t then 1 else 0))"
proof -
  obtain e' tb' where *: "add_batch (current_exec g) t l (tables_batches g) = Inr (e', tb')" "open_wf e' tb'"
    "open_cells e' tb' = cur_cells g @ [(t, gen_next g t)]" "length tb' = length (tables_batches g)"
    "\<forall>s < length (tables_batches g). next_batch e' tb' s = gen_next g s + (if s = t then 1 else 0)"
    "total_lookups e' = total_lookups (current_exec g) + l"
    "total_batches_in_chunks e' = total_batches_in_chunks (current_exec g) + 1"
    using add_batch_correct [of "current_exec g" "tables_batches g" l t] assms(1,3,4)
    unfolding gen_inv_def cur_cells_def gen_next_def by auto
  show ?thesis
    using * assms by (auto simp: gen_add_batch_def gen_inv_def gen_frame_def cur_cells_def gen_next_def)
qed

lemma gen_close:
  assumes "gen_inv L g" "total_lookups (current_exec g) \<noteq> 0" "p < length (exec_packs g)" "p < 256"
  shows "\<exists>g1 g2 e. gen_commit_table_batches g = Inr g1 \<and> commit_execution g1 p = Inr g2 \<and>
    gen_inv L g2 \<and> gen_frame p g g2 \<and> current_exec g2 = Execution_empty \<and>
    exec_packs g2 ! p = exec_packs g ! p @ [e] \<and> exec_ok L g e \<and> exec_cells e = cur_cells g \<and>
    cur_cells g2 = [] \<and>
    (\<forall>s < length (tables_batches g). gen_next g2 s = gen_next g s)"
proof -
  have ne: "cur_cells g \<noteq> []" using assms(1,2) by (auto simp: gen_inv_def)
  then have "tables_data (current_exec g) \<noteq> []" by (auto simp: cur_cells_def open_cells_def)
  then obtain e' tb' where *: "commit_table_batches (current_exec g) (tables_batches g) = Inr (e', tb')"
    "exec_cells e' = cur_cells g" "length tb' = length (tables_batches g)"
    "\<forall>t < length (tables_batches g). tb' ! t = gen_next g t"
    "total_lookups e' = total_lookups (current_exec g)"
    "total_batches_in_chunks e' = total_batches_in_chunks (current_exec g)" "tds_wf (tables_data e')"
    using commit_table_batches_correct [of "current_exec g" "tables_batches g"] assms(1)
    unfolding gen_inv_def cur_cells_def gen_next_def by auto
  define e where "e = e'\<lparr>psum_size := total_batches_in_chunks e' * sparse_feature_in_bytes g\<rparr>"
  define g1 where "g1 = g\<lparr>current_exec := e', tables_batches := tb'\<rparr>"
  define g2 where "g2 = g1\<lparr>exec_packs := (exec_packs g)[p := exec_packs g ! p @ [e]],
    current_exec := Execution_empty\<rparr>"
  have pos: "0 < total_batches_in_chunks (current_exec g)" using ne assms(1) by (simp add: gen_inv_def)
  have b: "total_lookups (current_exec g) \<le> max_inst_in_buf g"
    "total_batches_in_chunks (current_exec g) \<le> max_features_in_buf g"
    and i: "sum_list (map L (cur_cells g)) = total_lookups (current_exec g)"
    "length (cur_cells g) = total_batches_in_chunks (current_exec g)"
    using assms(1) unfolding gen_inv_def by simp_all
  have ec: "exec_cells e = cur_cells g" using *(2) by (simp add: e_def exec_cells_def)
  have 1: "gen_commit_table_batches g = Inr g1" using *(1) by (simp add: gen_commit_table_batches_def g1_def)
  have 2: "commit_execution g1 p = Inr g2"
    using *(5,6) b pos assms(2,4) by (simp add: commit_execution_def g1_def g2_def e_def)
  have 3: "exec_ok L g e"
    unfolding exec_ok_def ec using *(5,6,7) b pos assms(2) i by (simp add: e_def)
  have 4: "gen_inv L g2" "cur_cells g2 = []"
    using assms(1) by (simp_all add: gen_inv_def g2_def g1_def cur_cells_def open_cells_def open_wf_def Execution_empty_def)
  have 5: "gen_frame p g g2" using *(3) by (simp add: gen_frame_def g1_def g2_def)
  have 6: "\<forall>s < length (tables_batches g). gen_next g2 s = gen_next g s"
    using *(4) by (simp add: gen_next_def next_batch_def g1_def g2_def Execution_empty_def)
  have "exec_packs g2 ! p = exec_packs g ! p @ [e]" "current_exec g2 = Execution_empty"
    using assms(3) by (simp_all add: g2_def)
  with 1 2 3 4 5 6 ec show ?thesis by blast
qed

lemma gen_batch_correct:
  assumes "gen_inv L g" "l = L (t, gen_next g t)" "l \<noteq> 0" "l \<le> max_inst_in_buf g"
    "t < length (tables_batches g)" "p < length (exec_packs g)" "p < 256"
    "\<forall>e \<in> set (exec_packs g ! p). exec_ok L g e"
  shows "\<exists>g'. gen_batch p t l g = Inr g' \<and> gen_inv L g' \<and> gen_frame p g g' \<and>
    (\<forall>e \<in> set (exec_packs g' ! p). exec_ok L g e) \<and>
    covered g' p = covered g p @ [(t, gen_next g t)] \<and>
    (\<forall>s < length (tables_batches g). gen_next g' s = gen_next g s + (if s = t then 1 else 0))"
proof (cases "total_lookups (current_exec g) + l \<le> max_inst_in_buf g \<and>
    total_batches_in_chunks (current_exec g) + 1 \<le> max_features_in_buf g")
  case True
  then obtain g' where "gen_add_batch g t l = Inr g'" "gen_inv L g'" "gen_frame p g g'"
    "exec_packs g' = exec_packs g" "cur_cells g' = cur_cells g @ [(t, gen_next g t)]"
    "\<forall>s < length (tables_batches g). gen_next g' s = gen_next g s + (if s = t then 1 else 0)"
    using gen_add_batch_correct [OF assms(1,2,3,5), of p] by blast
  then show ?thesis using True assms
    by (auto simp: gen_batch_def try_add_batch_def covered_def pack_cells_def)
next
  case False
  have nz: "total_lookups (current_exec g) \<noteq> 0"
    using False assms(1,4) unfolding gen_inv_def by linarith
  obtain g1 g2 e where c: "gen_commit_table_batches g = Inr g1" "commit_execution g1 p = Inr g2"
    "gen_inv L g2" "gen_frame p g g2" "current_exec g2 = Execution_empty"
    "exec_packs g2 ! p = exec_packs g ! p @ [e]" "exec_ok L g e" "exec_cells e = cur_cells g"
    "cur_cells g2 = []" "\<forall>s < length (tables_batches g). gen_next g2 s = gen_next g s"
    using gen_close [OF assms(1) nz assms(6,7)] by blast
  have f: "length (tables_batches g2) = length (tables_batches g)" "max_inst_in_buf g2 = max_inst_in_buf g"
    "max_features_in_buf g2 = max_features_in_buf g" using c(4) by (simp_all add: gen_frame_def)
  have "\<exists>g'. gen_add_batch g2 t l = Inr g' \<and> gen_inv L g' \<and> gen_frame p g2 g' \<and>
    exec_packs g' = exec_packs g2 \<and> cur_cells g' = cur_cells g2 @ [(t, gen_next g2 t)] \<and>
    (\<forall>s < length (tables_batches g2). gen_next g' s = gen_next g2 s + (if s = t then 1 else 0))"
    using assms c f by (intro gen_add_batch_correct) (auto simp: Execution_empty_def gen_inv_def)
  then obtain g' where a: "gen_add_batch g2 t l = Inr g'" "gen_inv L g'" "gen_frame p g2 g'"
    "exec_packs g' = exec_packs g2" "cur_cells g' = cur_cells g2 @ [(t, gen_next g2 t)]"
    "\<forall>s < length (tables_batches g2). gen_next g' s = gen_next g2 s + (if s = t then 1 else 0)" by blast
  have "gen_batch p t l g = Inr g'"
    using False assms(4) c(1,2) a(1) by (auto simp: gen_batch_def try_add_batch_def)
  moreover have "covered g' p = covered g p @ [(t, gen_next g t)]"
    using a c assms(5) by (simp add: covered_def pack_cells_def)
  moreover have "\<forall>s < length (tables_batches g). gen_next g' s = gen_next g s + (if s = t then 1 else 0)"
    using a(6) c(10) f by simp
  moreover have "\<forall>e \<in> set (exec_packs g' ! p). exec_ok L g e" using a(4) c(6,7) assms(8) by auto
  ultimately show ?thesis using a(2) gen_frame_trans [OF c(4) a(3)] by blast
qed

lemma gen_batches_correct:
  assumes "gen_inv L g" "p < length (exec_packs g)" "p < 256" "t < length (tables_batches g)"
    "\<forall>e \<in> set (exec_packs g ! p). exec_ok L g e"
    "gen_next g t = b" "lens = map (\<lambda>k. L (t, b + k)) [0..<length lens]"
    "\<forall>l \<in> set lens. 0 < l \<and> l \<le> max_inst_in_buf g"
  shows "\<exists>g'. gen_batches p t lens g = Inr g' \<and> gen_inv L g' \<and> gen_frame p g g' \<and>
    (\<forall>e \<in> set (exec_packs g' ! p). exec_ok L g e) \<and>
    covered g' p = covered g p @ map (\<lambda>k. (t, b + k)) [0..<length lens] \<and>
    (\<forall>s < length (tables_batches g). s \<noteq> t \<longrightarrow> gen_next g' s = gen_next g s)"
  using assms
proof (induction lens arbitrary: g b)
  case (Cons l lens)
  have l: "l = L (t, gen_next g t)" "l \<noteq> 0" "l \<le> max_inst_in_buf g"
    using Cons.prems(6,7,8) by (auto simp: upt_rec dest: arg_cong [of _ _ hd])
  have tl: "lens = map (\<lambda>k. L (t, Suc b + k)) [0..<length lens]"
    using arg_cong [OF Cons.prems(7), of tl]
    by (simp del: upt_Suc add: upt_conv_Cons map_Suc_upt [symmetric] comp_def)
  have lb: "\<forall>l \<in> set lens. 0 < l \<and> l \<le> max_inst_in_buf g" using Cons.prems(8) by simp
  obtain g1 where g1: "gen_batch p t l g = Inr g1" "gen_inv L g1" "gen_frame p g g1"
    "\<forall>e \<in> set (exec_packs g1 ! p). exec_ok L g e" "covered g1 p = covered g p @ [(t, gen_next g t)]"
    "\<forall>s < length (tables_batches g). gen_next g1 s = gen_next g s + (if s = t then 1 else 0)"
    using gen_batch_correct [OF Cons.prems(1) l Cons.prems(4,2,3,5)] by blast
  have f: "length (tables_batches g1) = length (tables_batches g)" "length (exec_packs g1) = length (exec_packs g)"
    "max_inst_in_buf g1 = max_inst_in_buf g" using g1(3) by (simp_all add: gen_frame_def)
  have "\<exists>g'. gen_batches p t lens g1 = Inr g' \<and> gen_inv L g' \<and> gen_frame p g1 g' \<and>
    (\<forall>e \<in> set (exec_packs g' ! p). exec_ok L g1 e) \<and>
    covered g' p = covered g1 p @ map (\<lambda>k. (t, Suc b + k)) [0..<length lens] \<and>
    (\<forall>s < length (tables_batches g1). s \<noteq> t \<longrightarrow> gen_next g' s = gen_next g1 s)"
    using Cons.prems(2,3,4,6) g1 f tl lb
    by (intro Cons.IH) (simp_all add: exec_ok_frame [OF g1(3)])
  then obtain g2 where g2: "gen_batches p t lens g1 = Inr g2" "gen_inv L g2" "gen_frame p g1 g2"
    "\<forall>e \<in> set (exec_packs g2 ! p). exec_ok L g1 e"
    "covered g2 p = covered g1 p @ map (\<lambda>k. (t, Suc b + k)) [0..<length lens]"
    "\<forall>s < length (tables_batches g1). s \<noteq> t \<longrightarrow> gen_next g2 s = gen_next g1 s" by blast
  have "gen_batches p t (l # lens) g = Inr g2" using g1 g2 by simp
  moreover have "covered g2 p = covered g p @ map (\<lambda>k. (t, b + k)) [0..<length (l # lens)]"
    using g1(5) g2(5) Cons.prems(6)
    by (simp del: upt_Suc add: upt_conv_Cons map_Suc_upt [symmetric] comp_def)
  moreover have "\<forall>s < length (tables_batches g). s \<noteq> t \<longrightarrow> gen_next g2 s = gen_next g s"
    using g1(6) g2(6) f by simp
  moreover have "\<forall>e \<in> set (exec_packs g2 ! p). exec_ok L g e"
    using g2(4) by (simp add: exec_ok_frame [OF g1(3)])
  ultimately show ?case using g2(2) gen_frame_trans [OF g1(3) g2(3)] by blast
qed simp

lemma lens_slice:
  fixes lengths :: "nat list"
  assumes "t < nt" "length lengths = nt * mb"
  shows "t * mb + mb \<le> length lengths"
    "take mb (drop (t * mb) lengths) = map (\<lambda>k. lengths ! (t * mb + k)) [0..<mb]"
proof -
  have "Suc t * mb \<le> nt * mb" using assms(1) by (intro mult_right_mono) simp_all
  then show l: "t * mb + mb \<le> length lengths" using assms(2) by (simp add: add.commute)
  show "take mb (drop (t * mb) lengths) = map (\<lambda>k. lengths ! (t * mb + k)) [0..<mb]"
    using l by (intro nth_equalityI) (auto simp: min_def split: if_splits)
qed

lemma gen_tables_correct:
  assumes "gen_inv (lens_of mb lengths) g" "p < length (exec_packs g)" "p < 256"
    "length (tables_batches g) = nt" "length lengths = nt * mb" "0 < mb"
    "\<forall>e \<in> set (exec_packs g ! p). exec_ok (lens_of mb lengths) g e"
    "\<forall>ob \<in> set obs. object_id ob < nt \<and> gen_next g (object_id ob) = 0"
    "distinct (map object_id obs)" "\<forall>l \<in> set lengths. 0 < l \<and> l \<le> max_inst_in_buf g"
  shows "\<exists>g'. gen_tables mb nt lengths p obs g = Inr g' \<and> gen_inv (lens_of mb lengths) g' \<and> gen_frame p g g' \<and>
    (\<forall>e \<in> set (exec_packs g' ! p). exec_ok (lens_of mb lengths) g e) \<and>
    covered g' p = covered g p @ table_cells mb (map object_id obs) \<and>
    (\<forall>s < nt. s \<notin> object_id ` set obs \<longrightarrow> gen_next g' s = gen_next g s)"
  using assms
proof (induction obs arbitrary: g)
  case Nil
  then show ?case by (simp add: table_cells_def)
next
  case (Cons ob obs)
  let ?L = "lens_of mb lengths" and ?t = "object_id ob"
  let ?lens = "take mb (drop (?t * mb) lengths)"
  have t: "?t < nt" "gen_next g ?t = 0" using Cons.prems(8) by auto
  note sl = lens_slice [OF t(1) Cons.prems(5)]
  have len: "length ?lens = mb" using sl(1) by simp
  have "\<exists>g'. gen_batches p ?t ?lens g = Inr g' \<and> gen_inv ?L g' \<and> gen_frame p g g' \<and>
    (\<forall>e \<in> set (exec_packs g' ! p). exec_ok ?L g e) \<and>
    covered g' p = covered g p @ map (\<lambda>k. (?t, 0 + k)) [0..<length ?lens] \<and>
    (\<forall>s < length (tables_batches g). s \<noteq> ?t \<longrightarrow> gen_next g' s = gen_next g s)"
  proof (rule gen_batches_correct)
    show "?lens = map (\<lambda>k. ?L (?t, 0 + k)) [0..<length ?lens]"
      unfolding len unfolding sl(2) by (simp add: lens_of_def)
    show "\<forall>l \<in> set ?lens. 0 < l \<and> l \<le> max_inst_in_buf g"
      using Cons.prems(10) by (meson in_set_dropD in_set_takeD)
  qed (use Cons.prems t in simp_all)
  then obtain g1 where g1: "gen_batches p ?t ?lens g = Inr g1" "gen_inv ?L g1" "gen_frame p g g1"
    "\<forall>e \<in> set (exec_packs g1 ! p). exec_ok ?L g e"
    "covered g1 p = covered g p @ map (\<lambda>k. (?t, k)) [0..<mb]"
    "\<forall>s < nt. s \<noteq> ?t \<longrightarrow> gen_next g1 s = gen_next g s"
    unfolding len Cons.prems(4) by auto
  have f: "length (tables_batches g1) = nt" "length (exec_packs g1) = length (exec_packs g)"
    "max_inst_in_buf g1 = max_inst_in_buf g" using g1(3) Cons.prems(4) by (simp_all add: gen_frame_def)
  have nx: "\<forall>ob \<in> set obs. object_id ob < nt \<and> gen_next g1 (object_id ob) = 0"
    using g1(6) Cons.prems(8,9) by (auto simp: image_iff)
  have "\<exists>g'. gen_tables mb nt lengths p obs g1 = Inr g' \<and> gen_inv ?L g' \<and> gen_frame p g1 g' \<and>
    (\<forall>e \<in> set (exec_packs g' ! p). exec_ok ?L g1 e) \<and>
    covered g' p = covered g1 p @ table_cells mb (map object_id obs) \<and>
    (\<forall>s < nt. s \<notin> object_id ` set obs \<longrightarrow> gen_next g' s = gen_next g1 s)"
    using Cons.prems g1 f nx by (intro Cons.IH) (simp_all add: exec_ok_frame [OF g1(3)])
  then obtain g2 where g2: "gen_tables mb nt lengths p obs g1 = Inr g2" "gen_inv ?L g2" "gen_frame p g1 g2"
    "\<forall>e \<in> set (exec_packs g2 ! p). exec_ok ?L g1 e"
    "covered g2 p = covered g1 p @ table_cells mb (map object_id obs)"
    "\<forall>s < nt. s \<notin> object_id ` set obs \<longrightarrow> gen_next g2 s = gen_next g1 s" by blast
  have "gen_tables mb nt lengths p (ob # obs) g = Inr g2"
    using g1(1) g2(1) sl(1) Cons.prems(5,6) by (auto simp: Let_def assert_r_def)
  moreover have "covered g2 p = covered g p @ table_cells mb (map object_id (ob # obs))"
    using g1(5) g2(5) by (simp add: table_cells_def)
  moreover have "\<forall>s < nt. s \<notin> object_id ` set (ob # obs) \<longrightarrow> gen_next g2 s = gen_next g s"
    using g1(6) g2(6) by simp
  moreover have "\<forall>e \<in> set (exec_packs g2 ! p). exec_ok ?L g e"
    using g2(4) by (simp add: exec_ok_frame [OF g1(3)])
  ultimately show ?case using g2(2) gen_frame_trans [OF g1(3) g2(3)] by blast
qed

lemma gen_pack_correct:
  assumes "gen_ready mb nt lengths g" "p < length (exec_packs g)" "p < 256" "exec_packs g ! p = []"
    "\<forall>ob \<in> set (tables_layout g ! p). object_id ob < nt \<and> tables_batches g ! object_id ob = 0"
    "distinct (map object_id (tables_layout g ! p))"
  shows "\<exists>g'. gen_pack mb nt lengths p g = Inr g' \<and> gen_ready mb nt lengths g' \<and> gen_frame p g g' \<and>
    (\<forall>e \<in> set (exec_packs g' ! p). exec_ok (lens_of mb lengths) g e) \<and>
    pack_cells g' p = table_cells mb (map object_id (tables_layout g ! p)) \<and>
    (\<forall>s < nt. s \<notin> object_id ` set (tables_layout g ! p) \<longrightarrow> tables_batches g' ! s = tables_batches g ! s)"
proof -
  let ?L = "lens_of mb lengths" and ?obs = "tables_layout g ! p"
  have nx: "gen_next g s = tables_batches g ! s" if "current_exec g = Execution_empty" for g s
    using that by (simp add: gen_next_def next_batch_def Execution_empty_def)
  have empty: "cur_cells g = []" if "current_exec g = Execution_empty" for g
    using that by (simp add: cur_cells_def open_cells_def Execution_empty_def)
  have r: "gen_inv ?L g" "current_exec g = Execution_empty" "length (tables_batches g) = nt"
    "length lengths = nt * mb" "0 < mb" "\<forall>l \<in> set lengths. 0 < l \<and> l \<le> max_inst_in_buf g"
    using assms(1) by (simp_all add: gen_ready_def)
  obtain g1 where g1: "gen_tables mb nt lengths p ?obs g = Inr g1" "gen_inv ?L g1" "gen_frame p g g1"
    "\<forall>e \<in> set (exec_packs g1 ! p). exec_ok ?L g e"
    "covered g1 p = covered g p @ table_cells mb (map object_id ?obs)"
    "\<forall>s < nt. s \<notin> object_id ` set ?obs \<longrightarrow> gen_next g1 s = gen_next g s"
    using gen_tables_correct [OF r(1) assms(2,3) r(3,4,5), of ?obs] assms(4,5,6) r(2,6) nx [OF r(2)] by auto
  have cov: "covered g1 p = table_cells mb (map object_id ?obs)"
    using g1(5) assms(4) r(2) by (simp add: covered_def pack_cells_def empty)
  have f: "length (tables_batches g1) = nt" "length (exec_packs g1) = length (exec_packs g)"
    "max_inst_in_buf g1 = max_inst_in_buf g" using g1(3) r(3) by (simp_all add: gen_frame_def)
  show ?thesis
  proof (cases "total_lookups (current_exec g1) = 0")
    case True
    then have "length (cur_cells g1) = 0" using g1(2) unfolding gen_inv_def by linarith
    then have "cur_cells g1 = []" by simp
    then have e: "current_exec g1 = Execution_empty"
      using g1(2) by (auto simp: gen_inv_def cur_cells_def open_cells_def open_wf_def Let_def split: if_splits)
    have "gen_pack mb nt lengths p g = Inr g1" using g1(1) True by (simp add: gen_pack_def)
    moreover have "gen_ready mb nt lengths g1" using g1(2) e f r by (simp add: gen_ready_def)
    moreover have "pack_cells g1 p = table_cells mb (map object_id ?obs)"
      using cov e by (simp add: covered_def empty)
    ultimately show ?thesis using g1(3,4,6) nx [OF e] nx [OF r(2)] by auto
  next
    case False
    obtain g2 g3 e where c: "gen_commit_table_batches g1 = Inr g2" "commit_execution g2 p = Inr g3"
      "gen_inv ?L g3" "gen_frame p g1 g3" "current_exec g3 = Execution_empty"
      "exec_packs g3 ! p = exec_packs g1 ! p @ [e]" "exec_ok ?L g1 e" "exec_cells e = cur_cells g1"
      "cur_cells g3 = []" "\<forall>s < length (tables_batches g1). gen_next g3 s = gen_next g1 s"
      using gen_close [OF g1(2) False, of p] f assms(2,3) by auto
    have "gen_pack mb nt lengths p g = Inr g3" using g1(1) False c(1,2) by (simp add: gen_pack_def)
    moreover have "gen_ready mb nt lengths g3"
      using c(3,4,5) f r by (simp add: gen_ready_def gen_frame_def)
    moreover have "\<forall>e \<in> set (exec_packs g3 ! p). exec_ok ?L g e"
      using c(6,7) g1(4) by (auto simp: exec_ok_frame [OF g1(3)])
    moreover have "pack_cells g3 p = table_cells mb (map object_id ?obs)"
      using cov c(6,8) by (simp add: pack_cells_def covered_def)
    moreover have "\<forall>s < nt. s \<notin> object_id ` set ?obs \<longrightarrow> tables_batches g3 ! s = tables_batches g ! s"
      using g1(6) c(10) f(1) nx [OF c(5)] nx [OF r(2)] by simp
    ultimately show ?thesis using gen_frame_trans [OF g1(3) c(4)] by blast
  qed
qed

lemma gen_packs_correct:
  assumes "gen_ready mb nt lengths g" "distinct ps" "\<forall>p \<in> set ps. p < length (exec_packs g) \<and> p < 256 \<and> exec_packs g ! p = []"
    "\<forall>p \<in> set ps. \<forall>ob \<in> set (tables_layout g ! p). object_id ob < nt \<and> tables_batches g ! object_id ob = 0"
    "distinct (concat (map (\<lambda>p. map object_id (tables_layout g ! p)) ps))"
  shows "\<exists>g'. gen_packs mb nt lengths ps g = Inr g' \<and> tables_layout g' = tables_layout g \<and>
    length (exec_packs g') = length (exec_packs g) \<and>
    (\<forall>q. q \<notin> set ps \<longrightarrow> exec_packs g' ! q = exec_packs g ! q) \<and>
    (\<forall>p \<in> set ps. (\<forall>e \<in> set (exec_packs g' ! p). exec_ok (lens_of mb lengths) g e) \<and>
      pack_cells g' p = table_cells mb (map object_id (tables_layout g ! p)))"
  using assms
proof (induction ps arbitrary: g)
  case (Cons p ps)
  let ?L = "lens_of mb lengths"
  obtain g1 where g1: "gen_pack mb nt lengths p g = Inr g1" "gen_ready mb nt lengths g1" "gen_frame p g g1"
    "\<forall>e \<in> set (exec_packs g1 ! p). exec_ok ?L g e"
    "pack_cells g1 p = table_cells mb (map object_id (tables_layout g ! p))"
    "\<forall>s < nt. s \<notin> object_id ` set (tables_layout g ! p) \<longrightarrow> tables_batches g1 ! s = tables_batches g ! s"
    using gen_pack_correct [OF Cons.prems(1), of p] Cons.prems(3,4,5) by auto
  have f: "tables_layout g1 = tables_layout g" "length (exec_packs g1) = length (exec_packs g)"
    "\<forall>q. q \<noteq> p \<longrightarrow> exec_packs g1 ! q = exec_packs g ! q" using g1(3) by (simp_all add: gen_frame_def)
  have "\<forall>q \<in> set ps. \<forall>ob \<in> set (tables_layout g ! q). object_id ob < nt \<and> tables_batches g1 ! object_id ob = 0"
  proof (intro ballI)
    fix q ob assume q: "q \<in> set ps" "ob \<in> set (tables_layout g ! q)"
    then have "object_id ob \<in> set (concat (map (\<lambda>p. map object_id (tables_layout g ! p)) ps))" by auto
    moreover have "set (map object_id (tables_layout g ! p)) \<inter>
        set (concat (map (\<lambda>p. map object_id (tables_layout g ! p)) ps)) = {}"
      using Cons.prems(5) by (simp only: list.map concat.simps distinct_append)
    ultimately have "object_id ob \<notin> object_id ` set (tables_layout g ! p)" by (simp only: list.set_map) blast
    then show "object_id ob < nt \<and> tables_batches g1 ! object_id ob = 0"
      using g1(6) Cons.prems(4) q by auto
  qed
  moreover have "\<forall>q \<in> set ps. q < length (exec_packs g1) \<and> q < 256 \<and> exec_packs g1 ! q = []"
    using Cons.prems(2,3) f by auto
  ultimately obtain g2 where g2: "gen_packs mb nt lengths ps g1 = Inr g2" "tables_layout g2 = tables_layout g1"
    "length (exec_packs g2) = length (exec_packs g1)" "\<forall>q. q \<notin> set ps \<longrightarrow> exec_packs g2 ! q = exec_packs g1 ! q"
    "\<forall>p \<in> set ps. (\<forall>e \<in> set (exec_packs g2 ! p). exec_ok ?L g1 e) \<and>
      pack_cells g2 p = table_cells mb (map object_id (tables_layout g1 ! p))"
    using Cons.IH [OF g1(2)] Cons.prems(2,5) f(1) by auto
  have p2: "exec_packs g2 ! p = exec_packs g1 ! p" using g2(4) Cons.prems(2) by simp
  have "\<forall>q \<in> set (p # ps). (\<forall>e \<in> set (exec_packs g2 ! q). exec_ok ?L g e) \<and>
      pack_cells g2 q = table_cells mb (map object_id (tables_layout g ! q))"
    using g1(4,5) g2(5) p2 f(1) exec_ok_frame [OF g1(3)] by (auto simp: pack_cells_def)
  moreover have "gen_packs mb nt lengths (p # ps) g = Inr g2" using g1(1) g2(1) by simp
  moreover have "\<forall>q. q \<notin> set (p # ps) \<longrightarrow> exec_packs g2 ! q = exec_packs g ! q" using g2(4) f(3) by simp
  moreover have "tables_layout g2 = tables_layout g" "length (exec_packs g2) = length (exec_packs g)"
    using g2(2,3) f(1,2) by simp_all
  ultimately show ?case by blast
qed simp

lemma generate_correct:
  assumes "topo_ok topo" "layout_ok topo nt layout" "0 < max_inst" "0 < max_features" "0 < feature_bytes"
    "0 < mb" "0 < nt" "length lengths = nt * mb" "\<forall>l \<in> set lengths. 0 < l \<and> l \<le> max_inst"
  defines "g \<equiv> gen_init (ExecutionGenerator_default topo) layout max_inst max_features feature_bytes"
  shows "\<exists>g'. generate topo g mb nt lengths = Inr g' \<and> length (exec_packs g') = num_of_pack topo \<and>
    (\<forall>p \<in> set (pack_identifiers topo).
      (\<forall>e \<in> set (get_pack_execs g' p). exec_ok (lens_of mb lengths) g e) \<and>
      concat (map exec_cells (get_pack_execs g' p)) = table_cells mb (map object_id (layout ! p)))"
proof -
  define g0 where "g0 = g\<lparr>tables_batches := resize nt 0 (tables_batches g),
           exec_packs := map (\<lambda>_. []) (exec_packs g)\<rparr>"
  have tb: "tables_batches g0 = replicate nt 0" and ep: "exec_packs g0 = replicate (num_of_pack topo) []"
    and ly: "tables_layout g0 = layout" and mx: "max_inst_in_buf g0 = max_inst"
    by (simp_all add: g0_def g_def gen_init_def ExecutionGenerator_default_def resize_def map_replicate_const)
  have "gen_ready mb nt lengths g0"
    using assms(4,6,8,9) unfolding gen_ready_def mx tb
    by (simp add: gen_inv_def g0_def g_def gen_init_def ExecutionGenerator_default_def
        cur_cells_def open_cells_def open_wf_def Execution_empty_def)
  moreover have "distinct (pack_identifiers topo)" by (simp add: pack_identifiers_def)
  moreover have lt: "p < num_of_pack topo" "p < 256" if "p \<in> set (pack_identifiers topo)" for p
    using that num_of_pack_le [OF assms(1)] by (auto simp: pack_id_less)
  ultimately obtain g' where "gen_packs mb nt lengths (pack_identifiers topo) g0 = Inr g'"
    "length (exec_packs g') = num_of_pack topo"
    "\<forall>p \<in> set (pack_identifiers topo). (\<forall>e \<in> set (exec_packs g' ! p). exec_ok (lens_of mb lengths) g0 e) \<and>
      pack_cells g' p = table_cells mb (map object_id (layout ! p))"
    using gen_packs_correct [of mb nt lengths g0 "pack_identifiers topo"] assms(2) tb ep ly
    by (auto simp: layout_ok_def)
  moreover have "exec_ok L g0 = exec_ok L g" for L by (rule ext) (simp add: exec_ok_def g0_def)
  moreover have "generate topo g mb nt lengths = gen_packs mb nt lengths (pack_identifiers topo) g0"
    using assms(3-7) by (simp add: generate_def g0_def) (simp add: g_def gen_init_def)
  moreover have "get_pack_execs g' p = exec_packs g' ! p" if "p \<in> set (pack_identifiers topo)" for p
    using lt [OF that] by (simp add: get_pack_execs_def)
  ultimately show ?thesis by (simp add: pack_cells_def)
qed

section \<open>Properties\<close>

text \<open>
  C20: a freshly initialised generator splits every well-formed request without failing; the
  executions of a pack, in order, cover every (table, batch) pair of the pack exactly once and in
  layout order, and every execution fits the instruction buffer and the partial-sum buffer, with
  counters and read size that agree with the pairs it covers.
\<close>
theorem generate_covers:
  assumes "topo_ok topo" "layout_ok topo nt layout" "0 < max_inst" "0 < max_features" "0 < feature_bytes"
    "0 < mb" "0 < nt" "length lengths = nt * mb" "\<forall>l \<in> set lengths. 0 < l \<and> l \<le> max_inst"
  shows "\<exists>g'. generate topo (gen_init (ExecutionGenerator_default topo) layout max_inst max_features feature_bytes)
         mb nt lengths = Inr g' \<and>
    (\<forall>p \<in> set (pack_identifiers topo).
      concat (map exec_cells (get_pack_execs g' p)) = [(object_id ob, b). ob \<leftarrow> layout ! p, b \<leftarrow> [0..<mb]] \<and>
      (\<forall>e \<in> set (get_pack_execs g' p).
         total_lookups e = sum_list (map (\<lambda>(t, b). lengths ! (t * mb + b)) (exec_cells e)) \<and>
         total_batches_in_chunks e = length (exec_cells e) \<and>
         0 < total_lookups e \<and> total_lookups e \<le> max_inst \<and>
         0 < total_batches_in_chunks e \<and> total_batches_in_chunks e \<le> max_features \<and>
         psum_size e = total_batches_in_chunks e * feature_bytes))"
  using generate_correct [OF assms]
  by (auto simp: exec_ok_def gen_init_def lens_of_def table_cells_def comp_def)

theorem generate_covers_witness:
  "layout_ok small_topo 2 [[], [MemoryObject_make 1 128 1, MemoryObject_make 0 128 1]] \<and>
   (\<exists>g'. generate small_topo (gen_init (ExecutionGenerator_default small_topo)
        [[], [MemoryObject_make 1 128 1, MemoryObject_make 0 128 1]] 3 2 64) 2 2 [1, 2, 3, 1] = Inr g' \<and>
      concat (map exec_cells (get_pack_execs g' 1)) = [(1, 0), (1, 1), (0, 0), (0, 1)])"
proof -
  have l: "layout_ok small_topo 2 [[], [MemoryObject_make 1 128 1, MemoryObject_make 0 128 1]]"
    by (simp add: layout_ok_def small_topo_def num_of_pack_def pack_identifiers_def MemoryObject_make_def
        upt_rec)
  moreover have "1 \<in> set (pack_identifiers small_topo)"
    by (simp add: small_topo_def num_of_pack_def pack_identifiers_def)
  ultimately show ?thesis
    using generate_covers [OF small_topo_ok l, of 3 2 64 2 "[1, 2, 3, 1]"]
    by (auto simp: MemoryObject_make_def upt_rec)
qed

end
