(* ===== verification/Trace_Generator.thy ===== *)
theory Trace_Generator
  imports Inst_Generator Exec_Generator
begin

text \<open>
  Generation of instruction traces (\<open>sls/operation/ir.h\<close>, \<open>trace_generator_core.h\<close> and \<open>.cpp\<close>,
  \<open>trace_generator.h\<close>). The lookups of a table chunk are emitted in column-major order: one lookup
  of every batch, then the next lookup of every batch, and so on. A trace is a header word followed
  by the encoded instructions, the last of which carries the trace-end bit.
\<close>

section \<open>Intermediate representation\<close>

record InstructionIR =
  ir_opcode :: u32
  ir_output_index :: u32
  ir_address :: u64

definition encode_ir :: "u32 \<Rightarrow> u32 \<Rightarrow> u64 \<Rightarrow> InstructionIR" where
  "encode_ir op output_index table_addr =
     \<lparr>ir_opcode = op, ir_output_index = output_index, ir_address = table_addr\<rparr>"

section \<open>The core generator\<close>

record TraceGeneratorCore =
  bytes_per_row_full :: u32
  max_tables_rows_num :: u32

definition init_mapping :: "u32 \<Rightarrow> u32 \<Rightarrow> TraceGeneratorCore" where
  "init_mapping sparse_feature_size_full max_rows =
     \<lparr>bytes_per_row_full = sparse_feature_size_full, max_tables_rows_num = max_rows\<rparr>"

definition core_init :: "Constants \<Rightarrow> u32 \<Rightarrow> u32 \<Rightarrow> bool \<Rightarrow> TraceGeneratorCore" where
  "core_init topo sparse_feature_size max_rows is_tagged =
     (let extended = (ucast sparse_feature_size :: u64) +
            (if is_tagged then of_nat (AlignedTagSize topo) else 0)
      in init_mapping (ucast extended) max_rows)"

text \<open>The row offset is a product of two 32-bit values; it wraps before it is added.\<close>

definition get_phys_address :: "TraceGeneratorCore \<Rightarrow> u32 \<Rightarrow> u64 \<Rightarrow> u64 result" where
  "get_phys_address core table_row_idx offset =
     assert_r (table_row_idx < max_tables_rows_num core)
       (Inr (offset + ucast (table_row_idx * bytes_per_row_full core)))"

definition write_ir ::
  "TraceGeneratorCore \<Rightarrow> u32 \<Rightarrow> u32 \<Rightarrow> u32 \<Rightarrow> u64 \<Rightarrow> InstructionIR list \<Rightarrow> InstructionIR list result" where
  "write_ir core op output_index table_row_idx offset trace =
     bind_r (get_phys_address core table_row_idx offset)
       (\<lambda>addr. Inr (trace @ [encode_ir op output_index addr]))"

text \<open>
  One pass of the inner loop over the batches, at column \<open>lookup_offset\<close>. The lengths are those of
  the batches still to visit, \<open>base\<close> is the suffix of the index array that starts with the current
  batch; the third component counts the indices passed over.
\<close>

primrec column_pass ::
  "TraceGeneratorCore \<Rightarrow> u64 \<Rightarrow> u32 \<Rightarrow> nat \<Rightarrow> nat \<Rightarrow> nat list \<Rightarrow> nat \<Rightarrow> u32 list \<Rightarrow> nat \<Rightarrow>
   InstructionIR list \<Rightarrow> bool \<Rightarrow> (InstructionIR list \<times> bool \<times> nat) result" where
  "column_pass core off op psum_id_base lookup_offset [] batch_id base passed trace has =
     Inr (trace, has, passed)"
| "column_pass core off op psum_id_base lookup_offset (len # lens) batch_id base passed trace has =
     bind_r
       (if lookup_offset < len then
          if lookup_offset < length base then
            bind_r (write_ir core op (of_nat (psum_id_base + batch_id)) (base ! lookup_offset) off trace)
              (\<lambda>tr. Inr (tr, True))
          else Inl Undefined
        else Inr (trace, has))
       (\<lambda>(tr, has'). column_pass core off op psum_id_base lookup_offset lens (batch_id + 1)
          (drop len base) (passed + len) tr has')"

lemma column_pass_has:
  "column_pass core off op pb k lens b base n trace has = Inr (tr, has', m) \<Longrightarrow>
   has' \<longleftrightarrow> has \<or> (\<exists>len \<in> set lens. k < len)"
proof (induction lens arbitrary: b base n trace has)
  case (Cons l lens)
  then obtain tr1 h1 where *:
    "column_pass core off op pb k lens (b + 1) (drop l base) (n + l) tr1 h1 = Inr (tr, has', m)"
    "h1 \<longleftrightarrow> has \<or> k < l"
    by (auto simp: bind_r_Inr_iff split: if_splits)
  show ?case using Cons.IH [OF *(1)] *(2) by auto
qed simp

lemma fold_max_le: "x \<in> set xs \<Longrightarrow> x \<le> fold max xs (a::nat)"
  by (simp add: Max.set_eq_fold [symmetric])

function write_columns ::
  "TraceGeneratorCore \<Rightarrow> u64 \<Rightarrow> u32 \<Rightarrow> nat \<Rightarrow> nat list \<Rightarrow> u32 list \<Rightarrow> nat \<Rightarrow>
   InstructionIR list \<Rightarrow> (InstructionIR list \<times> nat) result" where
  "write_columns core off op psum_id_base lens index lookup_offset trace =
     bind_r (column_pass core off op psum_id_base lookup_offset lens 0 index 0 trace False)
       (\<lambda>(tr, has_available_lookup, passed).
          if has_available_lookup
          then write_columns core off op psum_id_base lens index (lookup_offset + 1) tr
          else Inr (tr, passed))"
  by pat_completeness auto
termination
proof (relation "measure (\<lambda>(core, off, op, pb, lens, index, k, tr). fold max lens 0 - k)", goal_cases)
  case (2 core off op pb lens index k trace x y xa ya yb)
  then obtain len where "len \<in> set lens" "k < len" by (auto dest: column_pass_has)
  then have "k < fold max lens 0" using fold_max_le [of len lens 0] by simp
  then show ?case by simp
qed simp

declare write_columns.simps [simp del]

definition write_object_trace ::
  "TraceGeneratorCore \<Rightarrow> u64 \<Rightarrow> nat list \<Rightarrow> nat \<Rightarrow> u32 list \<Rightarrow> nat \<Rightarrow> u32 \<Rightarrow>
   InstructionIR list \<Rightarrow> (InstructionIR list \<times> nat) result" where
  "write_object_trace core cunit_offset len batches_count index psum_id_base instruction_type trace =
     (if length len < batches_count then Inl Undefined
      else write_columns core cunit_offset instruction_type psum_id_base (take batches_count len) index 0 trace)"

primrec generate_tables ::
  "TraceGeneratorCore \<Rightarrow> u32 \<Rightarrow> nat \<Rightarrow> MemoryObject list \<Rightarrow> TableData list \<Rightarrow> nat list list \<Rightarrow>
   u32 list list \<Rightarrow> nat \<Rightarrow> InstructionIR list \<Rightarrow> InstructionIR list result" where
  "generate_tables core type compute_unit objects [] lengths indices off trace = Inr trace"
| "generate_tables core type compute_unit objects (td # tds) lengths indices off trace =
     (case find (\<lambda>ob. object_id ob = table_id td) objects of
        None \<Rightarrow> Inl AssertFail
      | Some ob \<Rightarrow>
         bind_r (obj_offset ob compute_unit) (\<lambda>cunit_offset.
           case (lengths, indices) of
             (len # lens, idx # idxs) \<Rightarrow>
               bind_r (write_object_trace core cunit_offset len (table_batches_chunk td) idx off type trace)
                 (\<lambda>(tr, _). generate_tables core type compute_unit objects tds lens idxs
                    (off + table_batches_chunk td) tr)
           | _ \<Rightarrow> Inl Undefined))"

definition core_generate_instructions ::
  "TraceGeneratorCore \<Rightarrow> Execution \<Rightarrow> nat list list \<Rightarrow> u32 list list \<Rightarrow> u32 \<Rightarrow> nat \<Rightarrow>
   MemoryObject list \<Rightarrow> InstructionIR list \<Rightarrow> InstructionIR list result" where
  "core_generate_instructions core exec lengths indices type compute_unit objects trace =
     generate_tables core type compute_unit objects (tables_data exec) lengths indices 0 trace"

section \<open>Traces\<close>

record TraceGenerator =
  bytes_per_row :: u32
  tg_core :: TraceGeneratorCore

definition trace_init :: "Constants \<Rightarrow> u32 \<Rightarrow> u32 \<Rightarrow> bool \<Rightarrow> TraceGenerator" where
  "trace_init topo sparse_feature_size max_rows is_tagged =
     \<lparr>bytes_per_row = sparse_feature_size, tg_core = core_init topo sparse_feature_size max_rows is_tagged\<rparr>"

definition trace_header :: "TraceGenerator \<Rightarrow> bool \<Rightarrow> u64" where
  "trace_header tg is_tagged =
     (0 OR (ucast (bytes_per_row tg div 128) AND INSTR_HEADER_VSIZE_MASK)) OR
       push_bit INSTR_HEADER_TAGBIT_POS (of_bool is_tagged)"

text \<open>
  The instruction generator is a template parameter; of it \<open>compile\<close> uses the address splitting
  \<open>dec\<close>, the other functions being common to both generators.
\<close>

definition compile_ir :: "(u64 \<Rightarrow> DecodedInst \<Rightarrow> DecodedInst result) \<Rightarrow> InstructionIR \<Rightarrow> u64 result" where
  "compile_ir dec instruction =
     bind_r (dec (ir_address instruction)
         (make_empty_instruction (ir_opcode instruction) (ir_output_index instruction)))
       encode_instruction"

definition set_trace_end :: "u64 list \<Rightarrow> u64 list" where
  "set_trace_end trace = butlast trace @ [last trace OR push_bit INSTR_TRACE_END_OFFSET 1]"

definition generate_instructions ::
  "(u64 \<Rightarrow> DecodedInst \<Rightarrow> DecodedInst result) \<Rightarrow> TraceGenerator \<Rightarrow> Execution \<Rightarrow> nat list list \<Rightarrow>
   u32 list list \<Rightarrow> u32 \<Rightarrow> nat \<Rightarrow> MemoryObject list \<Rightarrow> bool \<Rightarrow> u64 list result" where
  "generate_instructions dec tg exec lengths indices type compute_unit objects is_tagged =
     bind_r (core_generate_instructions (tg_core tg) exec lengths indices type compute_unit objects [])
       (\<lambda>ir. bind_r (map_r (compile_ir dec) ir)
          (\<lambda>ws. Inr (set_trace_end (trace_header tg is_tagged # ws))))"

section \<open>Specification\<close>

text \<open>
  \<open>segments\<close> of the prelude cuts an index array into the lookups of each batch; \<open>columns\<close> lists
  them in column-major order with their batch. A chunk is given by the table's offset in the compute unit
  and the lookups of its batches; \<open>chunk_lookups\<close> is the list of all lookups of an execution, with
  the output they are added to, and \<open>chunk_outputs\<close> the table offset and rows of every output.
  \<open>chunk_ok\<close> says that a chunk's arrays are long enough and that its rows exist, and \<open>row_fits\<close> that the
  address of a row can be computed and held by an instruction.
\<close>

definition column :: "nat \<Rightarrow> nat \<Rightarrow> 'a list list \<Rightarrow> (nat \<times> 'a) list" where
  "column k b segs = concat (map (\<lambda>(b, s). if k < length s then [(b, s ! k)] else []) (enumerate b segs))"

definition columns :: "nat \<Rightarrow> 'a list list \<Rightarrow> (nat \<times> 'a) list" where
  "columns k segs = concat (map (\<lambda>k. column k 0 segs) [k..<fold max (map length segs) 0])"

definition lookup_ir :: "TraceGeneratorCore \<Rightarrow> u64 \<Rightarrow> u32 \<Rightarrow> nat \<Rightarrow> nat \<times> u32 \<Rightarrow> InstructionIR" where
  "lookup_ir core off op pb = (\<lambda>(b, r). encode_ir op (of_nat (pb + b)) (off + ucast (r * bytes_per_row_full core)))"

primrec chunk_lookups :: "nat \<Rightarrow> (u64 \<times> u32 list list) list \<Rightarrow> (nat \<times> u64 \<times> u32) list" where
  "chunk_lookups base [] = []"
| "chunk_lookups base (c # cs) =
     map (\<lambda>(b, r). (base + b, fst c, r)) (columns 0 (snd c)) @ chunk_lookups (base + length (snd c)) cs"

definition chunk_outputs :: "(u64 \<times> u32 list list) list \<Rightarrow> (u64 \<times> u32 list) list" where
  "chunk_outputs cs = concat (map (\<lambda>c. map (Pair (fst c)) (snd c)) cs)"

definition ir_of :: "TraceGeneratorCore \<Rightarrow> u32 \<Rightarrow> nat \<times> u64 \<times> u32 \<Rightarrow> InstructionIR" where
  "ir_of core op = (\<lambda>(out, off, r). encode_ir op (of_nat out) (off + ucast (r * bytes_per_row_full core)))"

definition chunk_ok ::
  "TraceGeneratorCore \<Rightarrow> nat \<Rightarrow> MemoryObject list \<Rightarrow> TableData \<Rightarrow> nat list \<Rightarrow> u32 list \<Rightarrow> u64 \<times> u32 list list \<Rightarrow> bool" where
  "chunk_ok core cu objects td len idx c \<longleftrightarrow>
     (\<exists>ob. find (\<lambda>ob. object_id ob = table_id td) objects = Some ob \<and> obj_offset ob cu = Inr (fst c)) \<and>
     table_batches_chunk td \<le> length len \<and> snd c = segments (take (table_batches_chunk td) len) idx \<and>
     sum_list (take (table_batches_chunk td) len) \<le> length idx \<and>
     (\<forall>r \<in> set (concat (snd c)). r < max_tables_rows_num core)"

definition table_row_address :: "TraceGeneratorCore \<Rightarrow> u64 \<Rightarrow> u32 \<Rightarrow> nat" where
  "table_row_address core off r = unat off + unat r * unat (bytes_per_row_full core)"

definition row_fits :: "TraceGeneratorCore \<Rightarrow> u64 \<Rightarrow> u32 \<Rightarrow> bool" where
  "row_fits core off r \<longleftrightarrow> unat r * unat (bytes_per_row_full core) < 2 ^ 32 \<and> 8 dvd table_row_address core off r \<and> table_row_address core off r < 2 ^ 34"

definition inst_of :: "(u64 \<Rightarrow> DecodedInst \<Rightarrow> DecodedInst result) \<Rightarrow> InstructionIR \<Rightarrow> DecodedInst" where
  "inst_of dec ir = projr (dec (ir_address ir) (make_empty_instruction (ir_opcode ir) (ir_output_index ir)))"

definition ir_ok :: "InstructionIR \<Rightarrow> bool" where
  "ir_ok ir \<longleftrightarrow> addr_ok (ir_address ir) \<and> ir_opcode ir < 4 \<and> ir_output_index ir < 2 ^ 12"

definition end_trace :: "DecodedInst list \<Rightarrow> DecodedInst list" where
  "end_trace is = butlast is @ [(last is)\<lparr>trace_end := 1\<rparr>]"

text \<open>An execution of one table with two batches, used in the instances below.\<close>

definition small_exec :: Execution where
  "small_exec = \<lparr>tables_data = [\<lparr>table_id = 0, table_batches_chunk = 2, batch_offset = Some 0\<rparr>],
     total_lookups = 3, total_batches_in_chunks = 2, psum_size = 128\<rparr>"

definition small_object :: MemoryObject where
  "small_object = \<lparr>object_id = 0, size_bytes = 640, offsets = [(True, 4096)]\<rparr>"

section \<open>Column-major order\<close>

lemma column_Nil [simp]: "column k b [] = []"
  by (simp add: column_def)

lemma column_Cons [simp]:
  "column k b (s # segs) = (if k < length s then [(b, s ! k)] else []) @ column k (Suc b) segs"
  by (simp add: column_def)

lemma column_pass_correct:
  assumes "sum_list lens \<le> length base" "\<forall>r \<in> set (take (sum_list lens) base). r < max_tables_rows_num core"
  shows "column_pass core off op pb k lens b base n trace has =
    Inr (trace @ map (lookup_ir core off op pb) (column k b (segments lens base)),
         has \<or> (\<exists>len \<in> set lens. k < len), n + sum_list lens)"
  using assms
proof (induction lens arbitrary: b base n trace has)
  case (Cons len lens)
  have IH: "column_pass core off op pb k lens (Suc b) (drop len base) (n + len) tr h =
    Inr (tr @ map (lookup_ir core off op pb) (column k (Suc b) (segments lens (drop len base))),
         h \<or> (\<exists>len \<in> set lens. k < len), n + len + sum_list lens)" for tr h
    using Cons.prems by (intro Cons.IH) (auto simp: take_add)
  show ?case
  proof (cases "k < len")
    case True
    then have kl: "k < length base" using Cons.prems(1) by simp
    then have "base ! k \<in> set (take (sum_list (len # lens)) base)"
      using True by (auto simp: in_set_conv_nth intro!: exI [of _ k])
    then have "base ! k < max_tables_rows_num core" using Cons.prems(2) by blast
    then show ?thesis using True kl IH
      by (auto simp: write_ir_def get_phys_address_def lookup_ir_def)
  next
    case False
    then show ?thesis using IH by (auto simp: add.assoc)
  qed
qed simp

lemma write_columns_correct:
  assumes "sum_list lens \<le> length index" "\<forall>r \<in> set (take (sum_list lens) index). r < max_tables_rows_num core"
  shows "write_columns core off op pb lens index k trace =
    Inr (trace @ map (lookup_ir core off op pb) (columns k (segments lens index)), sum_list lens)"
  using assms
proof (induction core off op pb lens index k trace rule: write_columns.induct)
  case (1 core off op pb lens index k trace)
  note pass = column_pass_correct [OF "1.prems", of off op pb k 0 0 trace False]
  have ml: "map length (segments lens index) = lens" by (rule map_length_segments [OF "1.prems"(1)])
  show ?case
  proof (cases "\<exists>len \<in> set lens. k < len")
    case True
    then obtain len where "len \<in> set lens" "k < len" by blast
    then have "k < fold max lens 0" using fold_max_le [of len lens 0] by simp
    then have c: "columns k (segments lens index) = column k 0 (segments lens index) @ columns (Suc k) (segments lens index)"
      by (simp add: columns_def ml upt_conv_Cons)
    show ?thesis using pass True 1(1) [OF pass refl refl, simplified] "1.prems"
      by (subst write_columns.simps) (simp add: c)
  next
    case False
    have "fold max lens 0 \<le> k"
      using False unfolding Max.set_eq_fold [symmetric] by (auto simp: not_less)
    then have "columns k (segments lens index) = []" by (simp add: columns_def ml)
    moreover have "length s \<in> set lens" if "s \<in> set (segments lens index)" for s
      using imageI [OF that, of length] ml by (metis list.set_map)
    then have "column k 0 (segments lens index) = []"
      using False by (auto simp: column_def enumerate_eq_zip dest!: set_zip_rightD)
    ultimately show ?thesis using pass False
      by (subst write_columns.simps) simp
  qed
qed

lemma filter_column:
  "b0 < b \<Longrightarrow> filter (\<lambda>(b, x). b = b0) (column k b segs) = []"
  by (induction segs arbitrary: b) auto

lemma filter_column_eq:
  "b \<le> b0 \<Longrightarrow> b0 < b + length segs \<Longrightarrow> filter (\<lambda>(b, x). b = b0) (column k b segs) =
     (if k < length (segs ! (b0 - b)) then [(b0, segs ! (b0 - b) ! k)] else [])"
proof (induction segs arbitrary: b)
  case (Cons s segs)
  show ?case
  proof (cases "b = b0")
    case True
    then show ?thesis by (simp add: filter_column)
  next
    case False
    then show ?thesis using Cons.IH [of "Suc b"] Cons.prems by (simp add: nth_Cons' Suc_le_eq)
  qed
qed simp

lemma filter_columns:
  assumes "b < length segs"
  shows "filter (\<lambda>(b', x). b' = b) (columns 0 segs) = map (Pair b) (segs ! b)"
proof -
  let ?M = "fold max (map length segs) 0" and ?s = "segs ! b"
  let ?f = "\<lambda>k. if k < length ?s then [(b, ?s ! k)] else []"
  have le: "length ?s \<le> ?M" using assms by (intro fold_max_le) simp
  have "filter (\<lambda>(b', x). b' = b) (columns 0 segs) =
    concat (map ?f [0..<?M])"
    using assms by (simp add: columns_def filter_concat comp_def filter_column_eq cong: if_cong)
  also have "[0..<?M] = [0..<length ?s] @ [length ?s..<?M]" using upt_add_eq_append [of 0 "length ?s" "?M - length ?s"] le by simp
  also have "concat (map ?f ([0..<length ?s] @ [length ?s..<?M])) = map (\<lambda>k. (b, ?s ! k)) [0..<length ?s]"
  proof -
    have "map ?f [0..<length ?s] = map (\<lambda>k. [(b, ?s ! k)]) [0..<length ?s]" by (rule map_cong) auto
    moreover have "concat (map ?f [length ?s..<?M]) = []" by auto
    ultimately show ?thesis by (simp only: map_append concat_append) simp
  qed
  also have "\<dots> = map (Pair b) (map ((!) ?s) [0..<length ?s])" by simp
  finally show ?thesis by (simp only: map_nth)
qed

lemma columns_fst: "(b, x) \<in> set (columns k segs) \<Longrightarrow> b < length segs \<and> x \<in> set (segs ! b)"
  by (auto simp: columns_def column_def enumerate_eq_zip set_zip)

lemma write_object_trace_correct:
  assumes "n \<le> length len" "sum_list (take n len) \<le> length idx"
    "\<forall>r \<in> set (concat (segments (take n len) idx)). r < max_tables_rows_num core"
  shows "write_object_trace core off len n idx base op trace =
    Inr (trace @ map (lookup_ir core off op base) (columns 0 (segments (take n len) idx)), sum_list (take n len))"
  using assms by (simp add: write_object_trace_def write_columns_correct concat_segments)

lemma generate_tables_correct:
  assumes "length lens = length tds" "length idxs = length tds" "length cs = length tds"
    "\<forall>i < length tds. chunk_ok core cu objects (tds ! i) (lens ! i) (idxs ! i) (cs ! i)"
  shows "generate_tables core op cu objects tds lens idxs base trace = Inr (trace @ map (ir_of core op) (chunk_lookups base cs))"
  using assms
proof (induction tds arbitrary: lens idxs cs base trace)
  case (Cons td tds)
  obtain len lens' idx idxs' c cs' where l: "lens = len # lens'" "idxs = idx # idxs'" "cs = c # cs'"
    using Cons.prems(1,2,3) by (auto simp: length_Suc_conv)
  have c: "chunk_ok core cu objects td len idx c" using Cons.prems(4) l by fastforce
  have IH: "generate_tables core op cu objects tds lens' idxs' b tr = Inr (tr @ map (ir_of core op) (chunk_lookups b cs'))" for b tr
    using Cons.prems l by (intro Cons.IH) auto
  obtain ob where ob: "find (\<lambda>ob. object_id ob = table_id td) objects = Some ob" "obj_offset ob cu = Inr (fst c)"
    and n: "table_batches_chunk td \<le> length len" "snd c = segments (take (table_batches_chunk td) len) idx"
    "sum_list (take (table_batches_chunk td) len) \<le> length idx"
    "\<forall>r \<in> set (concat (segments (take (table_batches_chunk td) len) idx)). r < max_tables_rows_num core"
    using c by (auto simp: chunk_ok_def)
  have "length (snd c) = table_batches_chunk td" using n by simp
  then show ?case
    using ob l IH write_object_trace_correct [OF n(1,3,4)]
    by (simp add: n(2) lookup_ir_def ir_of_def comp_def split_def)
qed simp

lemma length_chunk_outputs: "length (chunk_outputs cs) = sum_list (map (length \<circ> snd) cs)"
  by (induction cs) (auto simp: chunk_outputs_def)

lemma chunk_lookups_fst:
  "(out, off, r) \<in> set (chunk_lookups base cs) \<Longrightarrow> base \<le> out \<and> out < base + length (chunk_outputs cs) \<and>
     (\<exists>c \<in> set cs. off = fst c \<and> r \<in> set (concat (snd c)))"
proof (induction cs arbitrary: base)
  case (Cons c cs)
  have "length (chunk_outputs (c # cs)) = length (snd c) + length (chunk_outputs cs)" by (simp add: length_chunk_outputs)
  then show ?case using Cons.prems Cons.IH [of "base + length (snd c)"]
    by (fastforce dest!: columns_fst)
qed simp

lemma filter_chunk_lookups_low:
  "o' < base \<Longrightarrow> filter (\<lambda>(out, x). out = o') (chunk_lookups base cs) = []"
  by (auto simp: filter_empty_conv dest: chunk_lookups_fst)

lemma filter_chunk_lookups:
  assumes "out < length (chunk_outputs cs)"
  shows "filter (\<lambda>(o', x). o' = base + out) (chunk_lookups base cs) =
    map (\<lambda>r. (base + out, fst (chunk_outputs cs ! out), r)) (snd (chunk_outputs cs ! out))"
  using assms
proof (induction cs arbitrary: base out)
  case Nil
  then show ?case by (simp add: chunk_outputs_def)
next
  case (Cons c cs)
  let ?h = "map (\<lambda>(b, r). (base + b, fst c, r)) (columns 0 (snd c))"
  have co: "chunk_outputs (c # cs) = map (Pair (fst c)) (snd c) @ chunk_outputs cs" by (simp add: chunk_outputs_def)
  have f: "filter (\<lambda>(o', x). o' = base + out) ?h =
      map (\<lambda>(b, r). (base + b, fst c, r)) (filter (\<lambda>(b, r). b = out) (columns 0 (snd c)))"
    by (simp add: filter_map comp_def split_def)
  show ?case
  proof (cases "out < length (snd c)")
    case True
    then show ?thesis using f filter_columns [OF True]
      by (simp add: co nth_append filter_chunk_lookups_low comp_def)
  next
    case False
    then have "filter (\<lambda>(b, r). b = out) (columns 0 (snd c)) = []"
      by (auto simp: filter_empty_conv dest: columns_fst)
    then show ?thesis
      using f False Cons.IH [of "out - length (snd c)" "base + length (snd c)"] Cons.prems
      by (simp add: co nth_append)
  qed
qed

lemma length_by_fst:
  fixes xs :: "(nat \<times> 'a) list"
  shows "(\<And>b x. (b, x) \<in> set xs \<Longrightarrow> b < n) \<Longrightarrow> length xs = (\<Sum>b<n. length (filter (\<lambda>(b', x). b' = b) xs))"
proof (induction xs)
  case (Cons a xs)
  obtain b0 x where a: "a = (b0, x)" by (cases a)
  have IH: "length xs = (\<Sum>b<n. length (filter (\<lambda>(b', x). b' = b) xs))"
    using Cons.prems by (intro Cons.IH) auto
  have "(\<Sum>b<n. length (filter (\<lambda>(b', x). b' = b) (a # xs))) =
      (\<Sum>b<n. (if b0 = b then 1 else 0) + length (filter (\<lambda>(b', x). b' = b) xs))"
    by (intro sum.cong) (auto simp: a)
  also have "\<dots> = 1 + length xs"
    using Cons.prems [of b0 x] a by (simp add: sum.distrib IH [symmetric])
  finally show ?case by simp
qed simp

lemma length_chunk_lookups: "length (chunk_lookups base cs) = sum_list (map (length \<circ> snd) (chunk_outputs cs))"
proof -
  let ?xs = "chunk_lookups 0 cs" and ?n = "length (chunk_outputs cs)"
  have "length ?xs = (\<Sum>b<?n. length (filter (\<lambda>(b', x). b' = b) ?xs))"
    by (rule length_by_fst) (auto dest: chunk_lookups_fst)
  also have "\<dots> = (\<Sum>b<?n. length (snd (chunk_outputs cs ! b)))"
    using filter_chunk_lookups [of _ cs 0] by (intro sum.cong) auto
  also have "\<dots> = sum_list (map (length \<circ> snd) (chunk_outputs cs))"
    by (simp add: sum_list_sum_nth atLeast0LessThan)
  finally have "length ?xs = sum_list (map (length \<circ> snd) (chunk_outputs cs))" .
  moreover have "length (chunk_lookups base cs) = length (chunk_lookups base' cs)" for base base'
    by (induction cs arbitrary: base base') (simp_all)
  ultimately show ?thesis by metis
qed

context address_codec
begin

lemma compile_ir_correct:
  assumes "ir_ok ir"
  defines "i \<equiv> inst_of dec ir"
  shows "compile_ir dec ir = Inr (instr_word i)" "fields_fit i" "enc i = ir_address ir"
    "opcode i = ir_opcode ir" "output_idx i = ir_output_index ir" "trace_end i = 0"
  using instruction_for_address [of "ir_address ir" "ir_opcode ir" "ir_output_index ir"] assms(1)
  by (auto simp: ir_ok_def i_def inst_of_def compile_ir_def)

lemma compile_trace:
  assumes "\<forall>ir \<in> set irs. ir_ok ir" "irs \<noteq> []"
  shows "bind_r (map_r (compile_ir dec) irs) (\<lambda>ws. Inr (set_trace_end (h # ws))) =
    Inr (h # map instr_word (end_trace (map (inst_of dec) irs)))"
proof -
  have "map_r (compile_ir dec) irs = Inr (map (\<lambda>ir. instr_word (inst_of dec ir)) irs)"
    using assms(1) by (intro map_r_Inr) (simp add: compile_ir_correct)
  moreover have "instr_word (inst_of dec (last irs)) OR push_bit INSTR_TRACE_END_OFFSET 1 =
      instr_word ((inst_of dec (last irs))\<lparr>trace_end := 1\<rparr>)"
    using assms by (intro trace_end_or) (simp add: compile_ir_correct)
  ultimately show ?thesis
    using assms(2) by (simp add: set_trace_end_def end_trace_def last_map map_butlast comp_def)
qed

lemma decode_end_trace:
  assumes "\<forall>ir \<in> set irs. ir_ok ir" "irs \<noteq> []"
  defines "ds \<equiv> end_trace (map (inst_of dec) irs)"
  shows "map decode_instruction (map instr_word ds) = ds"
    and "map (\<lambda>i. (output_idx i, enc i)) ds = map (\<lambda>ir. (ir_output_index ir, ir_address ir)) irs"
    and "map opcode ds = map ir_opcode irs"
    and "map trace_end ds = replicate (length irs - 1) 0 @ [1]"
proof -
  have ff: "fields_fit (i\<lparr>trace_end := 1\<rparr>) \<longleftrightarrow> fields_fit (i\<lparr>trace_end := 0\<rparr>)" for i
    by (simp add: fields_fit_iff)
  have split: "irs = butlast irs @ [last irs]" using assms(2) by simp
  have l: "ir_ok (last irs)" and b: "\<forall>ir \<in> set (butlast irs). ir_ok ir"
    using assms(1,2) by (auto dest: in_set_butlastD)
  have ds: "ds = map (inst_of dec) (butlast irs) @ [(inst_of dec (last irs))\<lparr>trace_end := 1\<rparr>]"
    using assms(2) by (simp add: ds_def end_trace_def map_butlast last_map)
  have fl: "fields_fit ((inst_of dec (last irs))\<lparr>trace_end := 1\<rparr>)"
    using compile_ir_correct(2,6) [OF l] by (simp add: fields_fit_iff)
  show "map decode_instruction (map instr_word ds) = ds"
    unfolding ds using b fl by (auto simp: decode_instr_word compile_ir_correct intro!: map_idI)
  show "map (\<lambda>i. (output_idx i, enc i)) ds = map (\<lambda>ir. (ir_output_index ir, ir_address ir)) irs"
    unfolding ds using b l by (subst (3) split) (simp add: compile_ir_correct enc_frame)
  show "map opcode ds = map ir_opcode irs"
    unfolding ds using b l by (subst (3) split) (simp add: compile_ir_correct)
  show "map trace_end ds = replicate (length irs - 1) 0 @ [1]"
    unfolding ds using b by (simp add: compile_ir_correct map_replicate_const cong: map_cong)
qed

lemma generate_instructions_correct:
  assumes "length lens = length (tables_data e)" "length idxs = length (tables_data e)"
    "length cs = length (tables_data e)"
    "\<forall>i < length (tables_data e). chunk_ok (tg_core tg) cu objs (tables_data e ! i) (lens ! i) (idxs ! i) (cs ! i)"
    "\<forall>c \<in> set cs. \<forall>r \<in> set (concat (snd c)). addr_ok (fst c + ucast (r * bytes_per_row_full (tg_core tg)))"
    "length (chunk_outputs cs) \<le> 2 ^ 12" "op < 4" "chunk_lookups 0 cs \<noteq> []"
  defines "irs \<equiv> map (ir_of (tg_core tg) op) (chunk_lookups 0 cs)"
  shows "generate_instructions dec tg e lens idxs op cu objs tagged =
      Inr (trace_header tg tagged # map instr_word (end_trace (map (inst_of dec) irs)))"
    and "\<forall>ir \<in> set irs. ir_ok ir"
proof -
  show ok: "\<forall>ir \<in> set irs. ir_ok ir"
  proof
    fix ir assume "ir \<in> set irs"
    then obtain out off r where x: "(out, off, r) \<in> set (chunk_lookups 0 cs)" "ir = ir_of (tg_core tg) op (out, off, r)"
      by (auto simp: irs_def)
    have "out < 2 ^ 12" using chunk_lookups_fst [OF x(1)] assms(6) by simp
    then have "(of_nat out :: u32) < 2 ^ 12" by (simp add: word_less_nat_alt unat_of_nat take_bit_eq_mod)
    then show "ir_ok ir" using chunk_lookups_fst [OF x(1)] x(2) assms(5,7)
      by (auto simp: ir_ok_def ir_of_def encode_ir_def)
  qed
  show "generate_instructions dec tg e lens idxs op cu objs tagged =
      Inr (trace_header tg tagged # map instr_word (end_trace (map (inst_of dec) irs)))"
    using compile_trace [OF ok, of "trace_header tg tagged"] assms(8)
    unfolding generate_instructions_def core_generate_instructions_def
      generate_tables_correct [OF assms(1-4)] by (simp add: irs_def)
qed

lemma trace_lookups:
  assumes "length lens = length (tables_data e)" "length idxs = length (tables_data e)"
    "length cs = length (tables_data e)"
    "\<forall>i < length (tables_data e). chunk_ok (tg_core tg) cu objs (tables_data e ! i) (lens ! i) (idxs ! i) (cs ! i)"
    "\<forall>c \<in> set cs. \<forall>r \<in> set (concat (snd c)). addr_ok (fst c + ucast (r * bytes_per_row_full (tg_core tg)))"
    "length (chunk_outputs cs) \<le> 2 ^ 12" "op < 4" "chunk_lookups 0 cs \<noteq> []"
  shows "\<exists>ws. generate_instructions dec tg e lens idxs op cu objs tagged = Inr (trace_header tg tagged # ws) \<and>
     map (\<lambda>i. (output_idx i, enc i)) (map decode_instruction ws) =
       map (\<lambda>(out, off, r). (of_nat out, off + ucast (r * bytes_per_row_full (tg_core tg)))) (chunk_lookups 0 cs) \<and>
     map opcode (map decode_instruction ws) = replicate (length ws) op \<and>
     map trace_end (map decode_instruction ws) = replicate (length ws - 1) 0 @ [1]"
proof -
  let ?irs = "map (ir_of (tg_core tg) op) (chunk_lookups 0 cs)"
  let ?ds = "end_trace (map (inst_of dec) ?irs)"
  have ne: "?irs \<noteq> []" using assms(8) by simp
  note gi = generate_instructions_correct [OF assms] and de = decode_end_trace [OF generate_instructions_correct(2) [OF assms] ne]
  have len: "length (map instr_word ?ds) = length ?irs" using ne by (simp add: end_trace_def)
  show ?thesis
    by (rule exI [of _ "map instr_word ?ds"], intro conjI gi(1); unfold de(1) len; unfold de)
      (simp_all add: ir_of_def encode_ir_def comp_def split_def map_replicate_const)
qed

end

lemma trace_per_output:
  assumes "map f ws = map (\<lambda>(out, off, r). (of_nat out :: u32, h off r)) (chunk_lookups 0 cs)"
    "length (chunk_outputs cs) \<le> 2 ^ 12" "out < length (chunk_outputs cs)"
  shows "map snd (filter (\<lambda>(out', a). out' = of_nat out) (map f ws)) =
    map (h (fst (chunk_outputs cs ! out))) (snd (chunk_outputs cs ! out))"
proof -
  have inj: "(of_nat x :: u32) = of_nat out \<longleftrightarrow> x = out" if "x < length (chunk_outputs cs)" for x
    using that assms(2,3) by (simp add: word_unat_eq_iff unat_of_nat take_bit_eq_mod)
  have "filter (\<lambda>(out', a). out' = of_nat out) (map f ws) =
      map (\<lambda>(out, off, r). (of_nat out, h off r)) (filter (\<lambda>(o', x). o' = out) (chunk_lookups 0 cs))"
    unfolding assms(1) filter_map
    by (intro arg_cong [of _ _ "map _"] filter_cong) (auto simp: inj dest!: chunk_lookups_fst)
  then show ?thesis using filter_chunk_lookups [OF assms(3), of 0] by (simp add: comp_def)
qed

lemma ucast_mult_eq_iff:
  fixes r b :: u32
  shows "(ucast (r * b) :: u64) = of_nat (unat r * unat b) \<longleftrightarrow> unat r * unat b < 2 ^ 32"
proof -
  have "unat r < 2 ^ 32" "unat b < 2 ^ 32"
    using unsigned_less [of r, where ?'a = nat] unsigned_less [of b, where ?'a = nat] by simp_all
  then have "unat r * unat b < 2 ^ 32 * 2 ^ 32" by (intro mult_strict_mono) simp_all
  then have lt: "unat r * unat b < 2 ^ 64" by simp
  have "(ucast (r * b) :: u64) = of_nat (unat r * unat b) \<longleftrightarrow> unat (ucast (r * b) :: u64) = unat (of_nat (unat r * unat b) :: u64)"
    by (rule word_unat_eq_iff)
  also have "unat (ucast (r * b) :: u64) = (unat r * unat b) mod 2 ^ 32"
    by (simp add: unsigned_ucast_eq unat_word_ariths take_bit_eq_mod)
  also have "unat (of_nat (unat r * unat b) :: u64) = unat r * unat b"
    using lt by (simp add: unat_of_nat take_bit_eq_mod del: of_nat_mult)
  also have "(unat r * unat b) mod 2 ^ 32 = unat r * unat b \<longleftrightarrow> unat r * unat b < 2 ^ 32"
    by (metis mod_less mod_less_divisor zero_less_numeral zero_less_power)
  finally show ?thesis .
qed

text \<open>A row within the first 4 GB of its table whose address fits the instruction.\<close>

lemma row_exact:
  assumes "row_fits core off r"
  shows "unat (off + ucast (r * bytes_per_row_full core)) = table_row_address core off r" "addr_ok (off + ucast (r * bytes_per_row_full core))"
proof -
  have m: "unat r * unat (bytes_per_row_full core) < 2 ^ 32" "8 dvd table_row_address core off r" "table_row_address core off r < 2 ^ 34"
    using assms by (simp_all add: row_fits_def)
  have u: "unat (ucast (r * bytes_per_row_full core) :: u64) = unat r * unat (bytes_per_row_full core)"
    using m(1) by (simp add: unsigned_ucast_eq unat_word_ariths take_bit_eq_mod)
  then show e: "unat (off + ucast (r * bytes_per_row_full core)) = table_row_address core off r"
    using m(3) unat_add_lem [where x = off and y = "ucast (r * bytes_per_row_full core)"] by (simp add: table_row_address_def)
  have "(off + ucast (r * bytes_per_row_full core)) mod 8 = 0"
    using m(2) e by (simp add: word_arith_nat_mod del: unat_add_lem)
  then show "addr_ok (off + ucast (r * bytes_per_row_full core))" using m(3) e by (simp add: addr_ok_def word_less_nat_alt)
qed

lemma outputs_in_chunks:
  assumes "out < length (chunk_outputs cs)" "r \<in> set (snd (chunk_outputs cs ! out))"
  shows "\<exists>c \<in> set cs. fst c = fst (chunk_outputs cs ! out) \<and> r \<in> set (concat (snd c))"
proof -
  have "chunk_outputs cs ! out \<in> set (chunk_outputs cs)" using assms(1) by simp
  then obtain c rs where "c \<in> set cs" "chunk_outputs cs ! out = (fst c, rs)" "rs \<in> set (snd c)" by (auto simp: chunk_outputs_def)
  then show ?thesis using assms(2) by auto
qed

section \<open>Properties\<close>

text \<open>
  C21: for a well-formed execution both generators produce a trace whose words decode to the
  lookups of the execution: every word has the operation's opcode, the lookups of each output
  appear in the order of the index array with the exact address of their table row, which is the table's
  offset plus row number times row size, the number of
  instructions is the number of lookups, and exactly the last word carries the trace-end bit. The rows
  lie within the first 4 GB of their tables, since the generators compute that product in 32 bits, and the
  addresses are multiples of 8 below \<open>2\<^sup>3\<^sup>4\<close>, which an instruction can hold.
\<close>
theorem trace_decodes:
  assumes "(enc, dec) \<in> {(ranked_encode_address, ranked_decode_address), (channel_encode_address, channel_decode_address)}"
    and "length lens = length (tables_data e)" "length idxs = length (tables_data e)"
    "length cs = length (tables_data e)"
    and "\<forall>i < length (tables_data e). chunk_ok (tg_core tg) cu objs (tables_data e ! i) (lens ! i) (idxs ! i) (cs ! i)"
    and "\<forall>c \<in> set cs. \<forall>r \<in> set (concat (snd c)). row_fits (tg_core tg) (fst c) r"
    and "length (chunk_outputs cs) \<le> 2 ^ 12" "op < 4" "chunk_lookups 0 cs \<noteq> []"
  shows "\<exists>ws. generate_instructions dec tg e lens idxs op cu objs tagged = Inr (trace_header tg tagged # ws) \<and>
     length ws = sum_list (map (length \<circ> snd) (chunk_outputs cs)) \<and>
     (\<forall>out < length (chunk_outputs cs).
        map (\<lambda>w. unat (enc (decode_instruction w))) (filter (\<lambda>w. output_idx (decode_instruction w) = of_nat out) ws) =
        map (table_row_address (tg_core tg) (fst (chunk_outputs cs ! out))) (snd (chunk_outputs cs ! out))) \<and>
     (\<forall>w \<in> set ws. opcode (decode_instruction w) = op) \<and>
     map (\<lambda>w. trace_end (decode_instruction w)) ws = replicate (length ws - 1) 0 @ [1]"
proof -
  let ?a = "\<lambda>off r. off + ucast (r * bytes_per_row_full (tg_core tg)) :: u64"
  have ok: "\<forall>c \<in> set cs. \<forall>r \<in> set (concat (snd c)). addr_ok (?a (fst c) r)" using assms(6) row_exact(2) by blast
  obtain ws where ws: "generate_instructions dec tg e lens idxs op cu objs tagged = Inr (trace_header tg tagged # ws)"
    "map (\<lambda>i. (output_idx i, enc i)) (map decode_instruction ws) = map (\<lambda>(out, off, r). (of_nat out, ?a off r)) (chunk_lookups 0 cs)"
    "map opcode (map decode_instruction ws) = replicate (length ws) op"
    "map trace_end (map decode_instruction ws) = replicate (length ws - 1) 0 @ [1]"
    using assms(1) ranked.trace_lookups [OF assms(2-5) ok assms(7-9)] channel.trace_lookups [OF assms(2-5) ok assms(7-9)] by auto
  have "length ws = length (chunk_lookups 0 cs)" using arg_cong [OF ws(2), of length] by simp
  moreover have "\<forall>w \<in> set ws. opcode (decode_instruction w) = op"
    using arg_cong [OF ws(3), of set] by auto
  moreover have "map (\<lambda>w. unat (enc (decode_instruction w))) (filter (\<lambda>w. output_idx (decode_instruction w) = of_nat out) ws) =
      map (table_row_address (tg_core tg) (fst (chunk_outputs cs ! out))) (snd (chunk_outputs cs ! out))" if out: "out < length (chunk_outputs cs)" for out
  proof -
    have "map snd (filter (\<lambda>(out', a). out' = of_nat out) (map (\<lambda>w. (output_idx (decode_instruction w), enc (decode_instruction w))) ws)) =
        map (?a (fst (chunk_outputs cs ! out))) (snd (chunk_outputs cs ! out))"
      using ws(2) assms(7) out by (intro trace_per_output [where h = ?a]) (simp_all add: comp_def)
    from arg_cong [OF this, of "map unat"] show ?thesis
      using outputs_in_chunks [OF out] assms(6) row_exact(1) by (fastforce simp: filter_map comp_def)
  qed
  ultimately show ?thesis using ws(1,4) by (auto simp: length_chunk_lookups comp_def)
qed

theorem trace_decodes_witness:
  "\<exists>ws. generate_instructions channel_decode_address (trace_init small_topo 64 10 False) small_exec
      [[1, 2]] [[3, 1, 0]] 0 0 [small_object] False =
        Inr (trace_header (trace_init small_topo 64 10 False) False # ws) \<and> length ws = 3"
proof -
  let ?tg = "trace_init small_topo 64 10 False" and ?cs = "[(4096, [[3], [1, 0]])] :: (u64 \<times> u32 list list) list"
  have "chunk_ok (tg_core ?tg) 0 [small_object] (tables_data small_exec ! 0) [1, 2] [3, 1, 0] (?cs ! 0)"
    by (simp add: chunk_ok_def trace_init_def core_init_def init_mapping_def small_exec_def small_object_def
        obj_offset_def Let_def)
  moreover have "\<forall>c \<in> set ?cs. \<forall>r \<in> set (concat (snd c)). row_fits (tg_core ?tg) (fst c) r"
    by (simp add: row_fits_def table_row_address_def trace_init_def core_init_def init_mapping_def Let_def)
  moreover have "length (chunk_outputs ?cs) \<le> 2 ^ 12" "chunk_lookups 0 ?cs \<noteq> []"
    "sum_list (map (length \<circ> snd) (chunk_outputs ?cs)) = 3"
    by (simp_all add: chunk_outputs_def columns_def column_def upt_rec)
  ultimately show ?thesis
    using trace_decodes [of channel_encode_address channel_decode_address "[[1, 2]]" small_exec "[[3, 1, 0]]" ?cs ?tg 0
      "[small_object]" 0 False] by (auto simp: small_exec_def)
qed

text \<open>
  The address of a table row is the table's offset plus the row's offset exactly when the row
  lies within the first 4 GB of the table: the product of row index and row size is computed in 32
  bits.
\<close>
theorem row_address_exact:
  assumes "r < max_tables_rows_num core"
  shows "\<exists>a. get_phys_address core r off = Inr a \<and>
    (a = off + of_nat (unat r * unat (bytes_per_row_full core)) \<longleftrightarrow>
     unat r * unat (bytes_per_row_full core) < 2 ^ 32)"
  using assms ucast_mult_eq_iff [of r "bytes_per_row_full core"]
  by (simp add: get_phys_address_def del: of_nat_mult)

theorem row_address_exact_witness:
  "get_phys_address \<lparr>bytes_per_row_full = 256, max_tables_rows_num = 0x1000001\<rparr> 0x1000000 4096 \<noteq>
     Inr (4096 + of_nat (unat (0x1000000 :: u32) * unat (256 :: u32)))"
  using row_address_exact [of "0x1000000" "\<lparr>bytes_per_row_full = 256, max_tables_rows_num = 0x1000001\<rparr>" 4096]
  by auto
end
