(* ===== verification/Views.thy ===== *)
theory Views
  imports Prelude
begin

text \<open>
  Array views (\<open>include/pnmlib/common/views.h\<close>, \<open>rowwise_view.h\<close>, \<open>variable_row_view.h\<close>). A
  pointer into an array is a position; a view of consecutive elements is a pair of positions. The
  row iterators are modelled with their members, and the range-for loops over them as the list of
  the rows they visit.
\<close>

section \<open>Common views\<close>

record view =
  v_begin :: nat
  v_end :: nat

definition make_view :: "nat \<Rightarrow> nat \<Rightarrow> view" where
  "make_view f l = \<lparr>v_begin = f, v_end = l\<rparr>"

definition view_size :: "view \<Rightarrow> int" where
  "view_size v = int (v_end v) - int (v_begin v)"

definition view_empty :: "view \<Rightarrow> bool" where
  "view_empty v \<longleftrightarrow> v_begin v = v_end v"

text \<open>The elements of a view of the array \<open>xs\<close>; a view that leaves the array cannot be read.\<close>

definition view_elems :: "'a list \<Rightarrow> view \<Rightarrow> 'a list result" where
  "view_elems xs v =
     (if v_begin v \<le> v_end v \<and> v_end v \<le> length xs
      then Inr (take (v_end v - v_begin v) (drop (v_begin v) xs)) else Inl Undefined)"

definition advance_view :: "view \<Rightarrow> nat \<Rightarrow> view result" where
  "advance_view v offset =
     assert_r (offset > 0 \<longrightarrow> int offset < view_size v)
       (Inr (make_view (v_begin v + offset) (v_end v)))"

definition view_equal :: "'a list \<Rightarrow> 'a list \<Rightarrow> bool" where
  "view_equal l r \<longleftrightarrow> length l = length r \<and> list_all2 (=) l r"

section \<open>Rowwise views\<close>

record rowwise =
  rw_begin :: nat
  rw_end :: nat
  row_physical_size :: nat
  row_logical_size :: nat
  front_gap :: nat
  rw_size :: nat

definition make_rowwise_view :: "nat \<Rightarrow> nat \<Rightarrow> nat \<Rightarrow> nat \<Rightarrow> nat \<Rightarrow> rowwise" where
  "make_rowwise_view b e row_size fgap bgap =
     \<lparr>rw_begin = b, rw_end = e, row_physical_size = row_size,
      row_logical_size = row_size - bgap - fgap, front_gap = fgap,
      rw_size = (e - b) div row_size\<rparr>"

record rows_iterator =
  it_base :: nat
  it_step :: nat
  it_offset :: nat
  it_size :: nat

definition rw_begin_it :: "rowwise \<Rightarrow> rows_iterator" where
  "rw_begin_it v = \<lparr>it_base = rw_begin v, it_step = row_physical_size v, it_offset = front_gap v,
     it_size = row_logical_size v\<rparr>"

definition rw_end_it :: "rowwise \<Rightarrow> rows_iterator" where
  "rw_end_it v = \<lparr>it_base = rw_end v, it_step = 0, it_offset = 0, it_size = 0\<rparr>"

definition it_current :: "rows_iterator \<Rightarrow> view" where
  "it_current it = make_view (it_base it + it_offset it) (it_base it + it_offset it + it_size it)"

definition it_eq :: "rows_iterator \<Rightarrow> rows_iterator \<Rightarrow> bool" where
  "it_eq a b \<longleftrightarrow> it_base a = it_base b"

definition it_next :: "rows_iterator \<Rightarrow> rows_iterator" where
  "it_next it = it\<lparr>it_base := it_base it + it_step it\<rparr>"

definition it_plus :: "rows_iterator \<Rightarrow> nat \<Rightarrow> rows_iterator" where
  "it_plus it n = it\<lparr>it_base := it_base it + it_step it * n\<rparr>"

text \<open>
  The rows a range-for loop visits. A view whose rows do not end at its end makes the loop run
  past it, as does a row size of zero.
\<close>

function rowwise_loop :: "'a list \<Rightarrow> rowwise \<Rightarrow> rows_iterator \<Rightarrow> 'a list list result" where
  "rowwise_loop xs v it =
     (if it_eq it (rw_end_it v) then Inr []
      else if it_step it = 0 \<or> rw_end v < it_base it then Inl Undefined
      else bind_r (view_elems xs (it_current it))
             (\<lambda>r. bind_r (rowwise_loop xs v (it_next it)) (\<lambda>rs. Inr (r # rs))))"
  by pat_completeness auto
termination
  by (relation "measure (\<lambda>(xs, v, it). rw_end v + 1 - it_base it)") (auto simp: it_next_def)

declare rowwise_loop.simps [simp del]

definition rowwise_rows :: "'a list \<Rightarrow> rowwise \<Rightarrow> 'a list list result" where
  "rowwise_rows xs v = rowwise_loop xs v (rw_begin_it v)"

section \<open>Views with variable rows\<close>

record variable_row =
  vr_begin :: nat
  vr_end :: nat
  vr_row_size :: "nat list"

record var_iterator =
  vi_base :: nat
  vi_row_size :: nat

definition vr_begin_it :: "variable_row \<Rightarrow> var_iterator" where
  "vr_begin_it v = \<lparr>vi_base = vr_begin v, vi_row_size = 0\<rparr>"

definition vr_end_it :: "variable_row \<Rightarrow> var_iterator" where
  "vr_end_it v = \<lparr>vi_base = vr_end v, vi_row_size = length (vr_row_size v)\<rparr>"

definition vi_current :: "variable_row \<Rightarrow> var_iterator \<Rightarrow> view" where
  "vi_current v it =
     (if vi_row_size it \<noteq> length (vr_row_size v)
      then make_view (vi_base it) (vi_base it + vr_row_size v ! vi_row_size it)
      else make_view (vi_base it) (vi_base it))"

definition vi_eq :: "var_iterator \<Rightarrow> var_iterator \<Rightarrow> bool" where
  "vi_eq a b \<longleftrightarrow> vi_base a = vi_base b"

definition vi_next :: "variable_row \<Rightarrow> var_iterator \<Rightarrow> var_iterator" where
  "vi_next v it = \<lparr>vi_base = vi_base it + vr_row_size v ! vi_row_size it, vi_row_size = vi_row_size it + 1\<rparr>"

definition vi_prev :: "variable_row \<Rightarrow> var_iterator \<Rightarrow> var_iterator" where
  "vi_prev v it = \<lparr>vi_base = vi_base it - vr_row_size v ! (vi_row_size it - 1), vi_row_size = vi_row_size it - 1\<rparr>"

function variable_loop :: "'a list \<Rightarrow> variable_row \<Rightarrow> var_iterator \<Rightarrow> 'a list list result" where
  "variable_loop xs v it =
     (if vi_eq it (vr_end_it v) then Inr []
      else if length (vr_row_size v) \<le> vi_row_size it then Inl Undefined
      else bind_r (view_elems xs (vi_current v it))
             (\<lambda>r. bind_r (variable_loop xs v (vi_next v it)) (\<lambda>rs. Inr (r # rs))))"
  by pat_completeness auto
termination
  by (relation "measure (\<lambda>(xs, v, it). length (vr_row_size v) - vi_row_size it)") (auto simp: vi_next_def)

declare variable_loop.simps [simp del]

definition variable_rows :: "'a list \<Rightarrow> variable_row \<Rightarrow> 'a list list result" where
  "variable_rows xs v = variable_loop xs v (vr_begin_it v)"

definition make_variable_row_view :: "nat \<Rightarrow> nat \<Rightarrow> nat list \<Rightarrow> variable_row" where
  "make_variable_row_view b e sizes = \<lparr>vr_begin = b, vr_end = e, vr_row_size = sizes\<rparr>"

text \<open>The row sizes up to the last row that is not empty.\<close>

primrec visited :: "nat list \<Rightarrow> nat list" where
  "visited [] = []"
| "visited (n # ns) = (if n + sum_list ns = 0 then [] else n # visited ns)"

section \<open>Loops over rows\<close>

lemma rowwise_loop_correct:
  assumes "0 < rs" "b + n * rs \<le> length xs" "fgap + bgap \<le> rs" "k \<le> n"
  shows "rowwise_loop xs (make_rowwise_view b (b + n * rs) rs fgap bgap)
      \<lparr>it_base = b + k * rs, it_step = rs, it_offset = fgap, it_size = rs - bgap - fgap\<rparr> =
    Inr (map (\<lambda>i. take (rs - bgap - fgap) (drop (b + i * rs + fgap) xs)) [k..<n])"
  using assms(4)
proof (induction "n - k" arbitrary: k)
  case 0
  then show ?case by (subst rowwise_loop.simps) (simp add: it_eq_def rw_end_it_def make_rowwise_view_def)
next
  case (Suc d)
  have kn: "k < n" using Suc(2) by simp
  have "Suc k * rs \<le> n * rs" using kn by (intro mult_right_mono) simp_all
  then have le: "b + k * rs + fgap + (rs - bgap - fgap) \<le> length xs" "k * rs < n * rs"
    using assms(1,2,3) kn by (auto simp: algebra_simps)
  have IH: "rowwise_loop xs (make_rowwise_view b (b + n * rs) rs fgap bgap)
      \<lparr>it_base = b + Suc k * rs, it_step = rs, it_offset = fgap, it_size = rs - bgap - fgap\<rparr> =
    Inr (map (\<lambda>i. take (rs - bgap - fgap) (drop (b + i * rs + fgap) xs)) [Suc k..<n])"
    using Suc kn by (intro Suc(1)) auto
  show ?case
    using le kn assms(1) IH
    by (subst rowwise_loop.simps)
      (simp add: it_eq_def rw_end_it_def make_rowwise_view_def it_next_def it_current_def view_elems_def
        make_view_def upt_conv_Cons algebra_simps)
qed

lemma visited_eq: "visited ns = rev (dropWhile (\<lambda>n. n = 0) (rev ns))"
proof (induction ns)
  case (Cons n ns)
  have "sum_list ns = 0 \<longleftrightarrow> (\<forall>m \<in> set ns. m = 0)" by simp
  then show ?case using Cons by (auto simp: dropWhile_append simp del: sum_list_eq_0_iff)
qed simp

lemma variable_loop_correct:
  assumes "sizes = pre @ suf" "b + sum_list sizes \<le> length xs"
  shows "variable_loop xs (make_variable_row_view b (b + sum_list sizes) sizes)
      \<lparr>vi_base = b + sum_list pre, vi_row_size = length pre\<rparr> =
    Inr (segments (visited suf) (drop (b + sum_list pre) xs))"
  using assms
proof (induction suf arbitrary: pre)
  case Nil
  then show ?case by (subst variable_loop.simps) (simp add: vi_eq_def vr_end_it_def make_variable_row_view_def)
next
  case (Cons n suf)
  show ?case
  proof (cases "n + sum_list suf = 0")
    case True
    then show ?thesis using Cons.prems
      by (subst variable_loop.simps) (simp add: vi_eq_def vr_end_it_def make_variable_row_view_def)
  next
    case False
    have "variable_loop xs (make_variable_row_view b (b + sum_list sizes) sizes)
      \<lparr>vi_base = b + sum_list (pre @ [n]), vi_row_size = length (pre @ [n])\<rparr> =
      Inr (segments (visited suf) (drop (b + sum_list (pre @ [n])) xs))"
      using Cons.prems by (intro Cons.IH) simp_all
    then show ?thesis using False Cons.prems
      by (subst variable_loop.simps)
        (simp add: vi_eq_def vr_end_it_def make_variable_row_view_def vi_current_def vi_next_def
          view_elems_def make_view_def nth_append add.commute add.left_commute)
  qed
qed
section \<open>Properties\<close>

text \<open>
  A loop over a rowwise view of whole rows visits each row once, in order, without its front
  and back gap.
\<close>
theorem rowwise_visits_rows:
  assumes "0 < row_size" "fgap + bgap \<le> row_size" "b + n * row_size \<le> length xs"
  shows "rowwise_rows xs (make_rowwise_view b (b + n * row_size) row_size fgap bgap) =
    Inr (map (\<lambda>i. take (row_size - bgap - fgap) (drop (b + i * row_size + fgap) xs)) [0..<n])"
  using rowwise_loop_correct [of row_size b n xs fgap bgap 0] assms
  by (simp add: rowwise_rows_def rw_begin_it_def) (simp add: make_rowwise_view_def)

theorem rowwise_visits_rows_witness:
  "rowwise_rows [1, 2, 3, 4, 5, 6 :: nat] (make_rowwise_view 0 6 3 0 1) = Inr [[1, 2], [4, 5]]"
  using rowwise_visits_rows [of 3 0 1 0 2 "[1, 2, 3, 4, 5, 6 :: nat]"] by (simp add: upt_rec)

text \<open>
  C38: a loop over a view with variable rows visits the rows up to the last one that is not empty.
  Empty rows at the end are not visited, since the iterator already equals the end iterator there.
\<close>
theorem variable_rows_visited:
  assumes "b + sum_list sizes \<le> length xs"
  shows "variable_rows xs (make_variable_row_view b (b + sum_list sizes) sizes) =
    Inr (segments (rev (dropWhile (\<lambda>n. n = 0) (rev sizes))) (drop b xs))"
  using variable_loop_correct [of sizes "[]" sizes b xs] assms
  by (simp add: variable_rows_def vr_begin_it_def visited_eq) (simp add: make_variable_row_view_def)

theorem variable_rows_visited_witness:
  "variable_rows [7, 8, 9 :: nat] (make_variable_row_view 0 3 [2, 0, 1, 0]) = Inr [[7, 8], [], [9]]"
  using variable_rows_visited [of 0 "[2, 0, 1, 0]" "[7, 8, 9 :: nat]"] by simp

end
