(* ===== verification/Byte_Memory.thy ===== *)
theory Byte_Memory
  imports Prelude
begin

text \<open>
  Byte memories and the little-endian words in them: what \<open>reinterpret_cast\<close> of a buffer to an
  array of \<open>uint32_t\<close>, \<open>uint64_t\<close> or \<open>uint128_t\<close> reads and writes.
\<close>

type_synonym bmem = "nat \<Rightarrow> u8"

primrec load_le :: "nat \<Rightarrow> bmem \<Rightarrow> nat \<Rightarrow> 'w::len word" where
  "load_le 0 m a = 0"
| "load_le (Suc n) m a = ucast (m a) OR push_bit 8 (load_le n m (Suc a))"

definition store_le :: "nat \<Rightarrow> bmem \<Rightarrow> nat \<Rightarrow> 'w::len word \<Rightarrow> bmem" where
  "store_le n m a w = (\<lambda>x. if a \<le> x \<and> x < a + n then ucast (drop_bit (8 * (x - a)) w) else m x)"

definition read_bytes :: "bmem \<Rightarrow> nat \<Rightarrow> nat \<Rightarrow> u8 list" where
  "read_bytes m a n = map m [a..<a + n]"

definition write_bytes :: "bmem \<Rightarrow> nat \<Rightarrow> u8 list \<Rightarrow> bmem" where
  "write_bytes m a bs = (\<lambda>x. if a \<le> x \<and> x < a + length bs then bs ! (x - a) else m x)"

definition word_bytes :: "nat \<Rightarrow> 'w::len word \<Rightarrow> u8 list" where
  "word_bytes n w = map (\<lambda>i. ucast (drop_bit (8 * i) w)) [0..<n]"

text \<open>The array of \<open>n\<close> 32-bit elements at an address.\<close>

definition elems32 :: "bmem \<Rightarrow> nat \<Rightarrow> nat \<Rightarrow> u32 list" where
  "elems32 m a n = map (\<lambda>j. load_le 4 m (a + 4 * j)) [0..<n]"

section \<open>Loads and stores\<close>

lemma bit_load_le:
  "bit (load_le n m a :: 'w::len word) j \<longleftrightarrow> j < LENGTH('w) \<and> j < 8 * n \<and> bit (m (a + j div 8)) (j mod 8)"
proof (induction n arbitrary: a j)
  case (Suc n)
  show ?case
  proof (cases "j < 8")
    case True
    then show ?thesis by (auto simp: bit_simps)
  next
    case False
    then obtain i where i: "j = 8 + i" by (metis le_add_diff_inverse not_less)
    have "\<not> bit (m a) j" using False by (auto dest: bit_imp_le_length)
    moreover have "(8 + i) div 8 = Suc (i div 8)" by simp
    ultimately show ?thesis using Suc [of "Suc a" i] i by (auto simp: bit_simps simp del: div_add_self1)
  qed
qed simp

lemma load_store_same:
  assumes "8 * n = LENGTH('w)"
  shows "load_le n (store_le n m a w) a = (w :: 'w::len word)"
proof (rule bit_word_eqI)
  fix j assume j: "j < LENGTH('w)"
  then have "j div 8 < n" using assms by auto
  then have "store_le n m a w (a + j div 8) = ucast (drop_bit (8 * (j div 8)) w)"
    by (simp add: store_le_def)
  then show "bit (load_le n (store_le n m a w) a :: 'w word) j = bit w j"
    using j assms by (simp add: bit_load_le bit_simps)
qed

lemma load_le_cong:
  "(\<And>x. a \<le> x \<Longrightarrow> x < a + n \<Longrightarrow> m x = m' x) \<Longrightarrow> load_le n m a = load_le n m' a"
  by (induction n arbitrary: a) auto

lemma load_store_other:
  "a + n \<le> b \<or> b + k \<le> a \<Longrightarrow> load_le n (store_le k m b w) a = load_le n m a"
  by (rule load_le_cong) (auto simp: store_le_def)

lemma store_le_outside: "x < a \<or> a + n \<le> x \<Longrightarrow> store_le n m a w x = m x"
  by (auto simp: store_le_def)

lemma read_write_bytes: "read_bytes (write_bytes m a bs) a (length bs) = bs"
  by (rule nth_equalityI) (auto simp: read_bytes_def write_bytes_def)

lemma length_read_bytes [simp]: "length (read_bytes m a n) = n"
  by (simp add: read_bytes_def)

lemma length_word_bytes [simp]: "length (word_bytes n w) = n"
  by (simp add: word_bytes_def)

lemma load_write_word:
  assumes "8 * n = LENGTH('w)" "i < length ws"
  shows "load_le n (write_bytes m a (concat (map (word_bytes n) ws))) (a + n * i) = (ws ! i :: 'w::len word)"
proof -
  have len: "length (concat (map (word_bytes n) ws)) = length ws * n" for ws :: "'w word list"
    by (induction ws) auto
  have nth: "concat (map (word_bytes n) ws) ! (n * i + j) = ucast (drop_bit (8 * j) (ws ! i))"
    if "j < n" "i < length ws" for j i and ws :: "'w word list"
    using that(2)
  proof (induction ws arbitrary: i)
    case (Cons w ws)
    show ?case
    proof (cases i)
      case 0
      then show ?thesis using that by (simp add: nth_append word_bytes_def)
    next
      case (Suc i')
      then show ?thesis using Cons by (simp add: nth_append)
    qed
  qed simp
  show ?thesis
  proof (rule bit_word_eqI)
    fix j assume j: "j < LENGTH('w)"
    then have jn: "j div 8 < n" using assms(1) by auto
    have "Suc i * n \<le> length ws * n" using assms(2) by (intro mult_right_mono) simp_all
    then have "a + n * i + j div 8 < a + length ws * n" using jn by (simp add: mult.commute)
    then have "write_bytes m a (concat (map (word_bytes n) ws)) (a + n * i + j div 8) =
        ucast (drop_bit (8 * (j div 8)) (ws ! i))"
      using nth [OF jn assms(2)] by (simp add: write_bytes_def len add.assoc)
    then show "bit (load_le n (write_bytes m a (concat (map (word_bytes n) ws))) (a + n * i) :: 'w word) j =
        bit (ws ! i) j"
      using j assms(1) by (simp add: bit_load_le bit_simps)
  qed
qed

lemma length_elems32 [simp]: "length (elems32 m a n) = n"
  by (simp add: elems32_def)

lemma elems32_nth [simp]: "j < n \<Longrightarrow> elems32 m a n ! j = load_le 4 m (a + 4 * j)"
  by (simp add: elems32_def)

lemma elems32_cong:
  "(\<And>x. a \<le> x \<Longrightarrow> x < a + 4 * n \<Longrightarrow> m x = m' x) \<Longrightarrow> elems32 m a n = elems32 m' a n"
  by (rule nth_equalityI) (auto intro!: load_le_cong)

end
