(* ===== verification/Mem_Map.thy ===== *)
theory Mem_Map
  imports Byte_Memory Topology
begin

text \<open>
  The memory map of a device (\<open>core/device/sls/utils/memory_map.h\<close>): for every compute unit the
  address and size of its five blocks. A block is modelled by its contents, so the blocks of a
  device do not overlap; mapping the device file is left to the operating system.
\<close>

datatype sls_block = SLS_BLOCK_BASE | SLS_BLOCK_INST | SLS_BLOCK_CFGR | SLS_BLOCK_TAGS | SLS_BLOCK_PSUM

definition all_blocks :: "sls_block list" where
  "all_blocks = [SLS_BLOCK_BASE, SLS_BLOCK_INST, SLS_BLOCK_CFGR, SLS_BLOCK_TAGS, SLS_BLOCK_PSUM]"

record memAddr =
  blk :: "sls_block \<Rightarrow> bmem"
  blk_size :: "sls_block \<Rightarrow> nat"

record MemMap =
  cunitAddrInfo :: "memAddr list"
  minSizeInfo :: "sls_block \<Rightarrow> nat"

definition size_max :: nat where
  "size_max = 2 ^ 64 - 1"

definition memmap_init :: "memAddr list \<Rightarrow> MemMap" where
  "memmap_init infos =
     \<lparr>cunitAddrInfo = infos,
      minSizeInfo = fold (\<lambda>info mins b. min (mins b) (blk_size info b)) infos (\<lambda>_. size_max)\<rparr>"

definition get_min_block_size :: "MemMap \<Rightarrow> sls_block \<Rightarrow> nat" where
  "get_min_block_size mm b = minSizeInfo mm b"

definition get_all_cunits_block_size :: "MemMap \<Rightarrow> sls_block \<Rightarrow> nat" where
  "get_all_cunits_block_size mm b = fold (\<lambda>info s. s + blk_size info b) (cunitAddrInfo mm) 0"

definition set_blk :: "sls_block \<Rightarrow> bmem \<Rightarrow> memAddr \<Rightarrow> memAddr" where
  "set_blk b m ma = ma\<lparr>blk := (blk ma)(b := m)\<rparr>"

section \<open>Lemmas\<close>

lemma set_blk_simps [simp]:
  "blk (set_blk b m ma) c = (if c = b then m else blk ma c)"
  "blk_size (set_blk b m ma) = blk_size ma"
  by (simp_all add: set_blk_def)

lemma set_blk_set_blk [simp]: "set_blk b m' (set_blk b m ma) = set_blk b m' ma"
  by (simp add: set_blk_def)

lemma set_blk_same [simp]: "set_blk b (blk ma b) ma = ma"
  by (simp add: set_blk_def)

lemma fold_min_le:
  "fold (\<lambda>info mins b. min (mins b) (blk_size info b)) infos mins b \<le> mins b \<and>
   (\<forall>info \<in> set infos. fold (\<lambda>info mins b. min (mins b) (blk_size info b)) infos mins b \<le> blk_size info b)"
proof (induction infos arbitrary: mins)
  case (Cons info infos)
  show ?case using Cons [of "\<lambda>b. min (mins b) (blk_size info b)"] by auto
qed simp

lemma fold_min_attained:
  "fold (\<lambda>info mins b. min (mins b) (blk_size info b)) infos mins b \<in> insert (mins b) ((\<lambda>i. blk_size i b) ` set infos)"
proof (induction infos arbitrary: mins)
  case (Cons info infos)
  show ?case using Cons [of "\<lambda>b. min (mins b) (blk_size info b)"] by (auto simp: min_def split: if_splits)
qed simp

text \<open>
  The minimal block size is a lower bound of the block in every compute unit and is the size of
  one of them.
\<close>

lemma min_block_size:
  assumes "infos \<noteq> []" "\<forall>info \<in> set infos. blk_size info b \<le> size_max"
  shows "get_min_block_size (memmap_init infos) b = Min ((\<lambda>i. blk_size i b) ` set infos)"
proof (rule antisym)
  let ?f = "fold (\<lambda>info mins b. min (mins b) (blk_size info b)) infos (\<lambda>_. size_max) b"
  have le: "\<forall>info \<in> set infos. ?f \<le> blk_size info b" using fold_min_le by blast
  then show "get_min_block_size (memmap_init infos) b \<le> Min ((\<lambda>i. blk_size i b) ` set infos)"
    using assms(1) by (simp add: get_min_block_size_def memmap_init_def)
  have "?f \<in> insert size_max ((\<lambda>i. blk_size i b) ` set infos)"
    using fold_min_attained [of infos "\<lambda>_. size_max" b] by simp
  then show "Min ((\<lambda>i. blk_size i b) ` set infos) \<le> get_min_block_size (memmap_init infos) b"
  proof
    assume f: "?f = size_max"
    obtain info where "info \<in> set infos" using assms(1) by (cases infos) auto
    then have "Min ((\<lambda>i. blk_size i b) ` set infos) \<le> blk_size info b" "blk_size info b \<le> size_max"
      using assms(2) by (auto intro: Min_le)
    then have "Min ((\<lambda>i. blk_size i b) ` set infos) \<le> size_max" by (rule le_trans)
    then show ?thesis by (simp add: get_min_block_size_def memmap_init_def f)
  qed (auto simp: get_min_block_size_def memmap_init_def intro!: Min_le)
qed

lemma all_cunits_block_size:
  "get_all_cunits_block_size (memmap_init infos) b = sum_list (map (\<lambda>i. blk_size i b) infos)"
proof -
  have "fold (\<lambda>info s. s + blk_size info b) infos n = n + sum_list (map (\<lambda>i. blk_size i b) infos)" for n
    by (induction infos arbitrary: n) simp_all
  then show ?thesis by (simp add: get_all_cunits_block_size_def memmap_init_def)
qed

end
