(* ===== verification/Cxl_Core_Sim.thy ===== *)
theory Cxl_Core_Sim
  imports Inst_Generator Mem_Map
begin

text \<open>
  The functional simulator of the CXL device (\<open>core/device/sls/simulator_core/cxl_core_sim.cpp\<close>):
  it reads a trace from the instruction block, adds table rows of the base block to the partial
  sums, and writes the number of processed instructions into the configuration registers. The
  addition of single-precision floats on their bit patterns is a parameter.
\<close>

section \<open>Row additions\<close>

type_synonym add_op = "u32 \<Rightarrow> u32 \<Rightarrow> u32"

definition get_bytes_per_idx :: "u64 \<Rightarrow> nat result" where
  "get_bytes_per_idx mode = assert_r (mode \<le> 2) (Inr (64 * 2 ^ unat mode))"

text \<open>
  \<open>std::transform\<close> over the elements of the table row and of the partial sum: the sum of the table
  element and the partial-sum element is stored at the latter, one element after the other.
\<close>

definition sparse_ft_sum :: "add_op \<Rightarrow> memAddr \<Rightarrow> u64 \<Rightarrow> u32 \<Rightarrow> nat \<Rightarrow> memAddr result" where
  "sparse_ft_sum add ma channel_addr out bytes_per_idx =
     (let a = unat channel_addr; p = unat out * bytes_per_idx; n = bytes_per_idx div 4 in
      if a + bytes_per_idx \<le> blk_size ma SLS_BLOCK_BASE \<and> p + bytes_per_idx \<le> blk_size ma SLS_BLOCK_PSUM
      then Inr (set_blk SLS_BLOCK_PSUM
             (fold (\<lambda>j m. store_le 4 m (p + 4 * j)
                      (add (load_le 4 (blk ma SLS_BLOCK_BASE) (a + 4 * j)) (load_le 4 m (p + 4 * j))))
                [0..<n] (blk ma SLS_BLOCK_PSUM)) ma)
      else Inl Undefined)"

definition sparse_ft_sum_tagged :: "Constants \<Rightarrow> memAddr \<Rightarrow> u64 \<Rightarrow> u32 \<Rightarrow> nat \<Rightarrow> memAddr result" where
  "sparse_ft_sum_tagged topo ma channel_addr out bytes_per_idx =
     bind_r (sparse_ft_sum (+) ma channel_addr out bytes_per_idx)
       (\<lambda>ma. let t = unat channel_addr + bytes_per_idx; p = unat out * AlignedTagSize topo in
          if t + 16 \<le> blk_size ma SLS_BLOCK_BASE \<and> p + 16 \<le> blk_size ma SLS_BLOCK_TAGS
          then Inr (set_blk SLS_BLOCK_TAGS
                 (store_le 16 (blk ma SLS_BLOCK_TAGS) p
                    ((load_le 16 (blk ma SLS_BLOCK_TAGS) p :: u128) + load_le 16 (blk ma SLS_BLOCK_BASE) t)) ma)
          else Inl Undefined)"

definition write_reg :: "memAddr \<Rightarrow> nat \<Rightarrow> u32 \<Rightarrow> memAddr result" where
  "write_reg ma reg val =
     (if reg + 4 \<le> blk_size ma SLS_BLOCK_CFGR
      then Inr (set_blk SLS_BLOCK_CFGR (store_le 4 (blk ma SLS_BLOCK_CFGR) reg val) ma)
      else Inl Undefined)"

section \<open>Running a trace\<close>

text \<open>What the simulator knows after the header: the row size and whether rows carry tags.\<close>

record trace_mode =
  mode_bytes_per_idx :: nat
  mode_is_tagged :: bool

definition read_header :: "u64 \<Rightarrow> trace_mode result" where
  "read_header raw_instr =
     bind_r (get_bytes_per_idx (raw_instr AND 0x03))
       (\<lambda>n. Inr \<lparr>mode_bytes_per_idx = n, mode_is_tagged = bit raw_instr INSTR_HEADER_TAGBIT_POS\<rparr>)"

definition exec_instr :: "add_op \<Rightarrow> Constants \<Rightarrow> trace_mode \<Rightarrow> DecodedInst \<Rightarrow> memAddr \<Rightarrow> memAddr result" where
  "exec_instr fadd topo mode instr ma =
     (let channel_addr = channel_encode_address instr in
      if opcode instr = opcode_code SPARSE_FT_SUM_F32
      then sparse_ft_sum fadd ma channel_addr (output_idx instr) (mode_bytes_per_idx mode)
      else if opcode instr = opcode_code SPARSE_FT_SUM_U32 \<or>
              opcode instr = opcode_code SPARSE_FT_SUM_U32_TAGGED
      then if \<not> mode_is_tagged mode
           then sparse_ft_sum (+) ma channel_addr (output_idx instr) (mode_bytes_per_idx mode)
           else sparse_ft_sum_tagged topo ma channel_addr (output_idx instr) (mode_bytes_per_idx mode)
      else Inl (Throw InvalidArguments))"

text \<open>
  The loop over the instruction buffer; the first argument counts the instructions left, \<open>i\<close> is the
  loop variable and the mode is absent until the header has been read.
\<close>

primrec exec_loop ::
  "nat \<Rightarrow> add_op \<Rightarrow> Constants \<Rightarrow> nat \<Rightarrow> trace_mode option \<Rightarrow> memAddr \<Rightarrow> memAddr result" where
  "exec_loop 0 fadd topo i mode ma = Inr ma"
| "exec_loop (Suc k) fadd topo i mode ma =
     (if 8 * i + 8 \<le> blk_size ma SLS_BLOCK_INST then
        let raw_instr = (load_le 8 (blk ma SLS_BLOCK_INST) (8 * i) :: u64) in
        case mode of
          None \<Rightarrow> bind_r (read_header raw_instr) (\<lambda>md. exec_loop k fadd topo (i + 1) (Some md) ma)
        | Some md \<Rightarrow>
            let instr = decode_instruction raw_instr in
            bind_r (exec_instr fadd topo md instr ma) (\<lambda>ma.
              if trace_end instr \<noteq> 0
              then write_reg ma (RegPolling topo + POLL_INST_NUM_OFFSET) (of_nat (i + 1))
              else assert_r (i < inst_per_single_buf topo - 1)
                     (exec_loop k fadd topo (i + 1) (Some md) ma))
      else Inl Undefined)"

definition exec_trace :: "add_op \<Rightarrow> Constants \<Rightarrow> memAddr \<Rightarrow> memAddr result" where
  "exec_trace fadd topo ma = exec_loop (inst_per_single_buf topo) fadd topo 0 None ma"

text \<open>The CXL device has no clean operation.\<close>

definition clear_buffers :: "memAddr \<Rightarrow> memAddr" where
  "clear_buffers ma = ma"

section \<open>Specification\<close>

text \<open>
  The partial sums and the table rows as arrays of elements, and the effect of a list of
  (output, address) lookups on the partial sums.
\<close>

definition psum_rows :: "nat \<Rightarrow> memAddr \<Rightarrow> nat \<Rightarrow> u32 list" where
  "psum_rows bpi ma out = elems32 (blk ma SLS_BLOCK_PSUM) (out * bpi) (bpi div 4)"

definition base_row :: "nat \<Rightarrow> memAddr \<Rightarrow> u64 \<Rightarrow> u32 list" where
  "base_row bpi ma a = elems32 (blk ma SLS_BLOCK_BASE) (unat a) (bpi div 4)"

definition add_row :: "add_op \<Rightarrow> u32 list \<Rightarrow> u32 list \<Rightarrow> u32 list" where
  "add_row add r acc = map2 add r acc"

definition op_add :: "add_op \<Rightarrow> u32 \<Rightarrow> add_op" where
  "op_add fadd op = (if op = opcode_code SPARSE_FT_SUM_F32 then fadd else (+))"

definition word_lookup :: "u64 \<Rightarrow> nat \<times> u64" where
  "word_lookup w = (unat (output_idx (decode_instruction w)), channel_encode_address (decode_instruction w))"

definition add_lookups :: "add_op \<Rightarrow> (u64 \<Rightarrow> u32 list) \<Rightarrow> (nat \<times> u64) list \<Rightarrow> (nat \<Rightarrow> u32 list) \<Rightarrow> nat \<Rightarrow> u32 list" where
  "add_lookups add rw = fold (\<lambda>(out, a) P. P(out := add_row add (rw a) (P out)))"

primrec inst_at :: "memAddr \<Rightarrow> nat \<Rightarrow> u64 list \<Rightarrow> bool" where
  "inst_at ma i [] \<longleftrightarrow> True"
| "inst_at ma i (w # ws) \<longleftrightarrow> 8 * i + 8 \<le> blk_size ma SLS_BLOCK_INST \<and>
     load_le 8 (blk ma SLS_BLOCK_INST) (8 * i) = w \<and> inst_at ma (Suc i) ws"

definition lookups_ok :: "nat \<Rightarrow> memAddr \<Rightarrow> (nat \<times> u64) list \<Rightarrow> bool" where
  "lookups_ok bpi ma xs \<longleftrightarrow> (\<forall>(out, a) \<in> set xs. unat a + bpi \<le> blk_size ma SLS_BLOCK_BASE \<and>
     out * bpi + bpi \<le> blk_size ma SLS_BLOCK_PSUM)"

text \<open>A one-instruction trace and a memory that holds it, used in the instance below.\<close>

definition small_inst :: DecodedInst where
  "small_inst = \<lparr>opcode = 2, local_bit = 0, output_idx = 1, trace_end = 1, row = 0, bankgroup = 0,
     bank = 0, column = 0\<rparr>"

definition small_mem :: memAddr where
  "small_mem = \<lparr>blk = (\<lambda>b. if b = SLS_BLOCK_INST
       then write_bytes (\<lambda>_. 0) 0 (concat (map (word_bytes 8) [0, instr_word small_inst])) else (\<lambda>_. 3)),
     blk_size = (\<lambda>_. 4096)\<rparr>"

section \<open>Lemmas on row additions\<close>

lemma fold_add_row:
  fixes base m :: bmem and add :: add_op and a p :: nat
  defines "M \<equiv> \<lambda>n. fold (\<lambda>j m. store_le 4 m (p + 4 * j) (add (load_le 4 base (a + 4 * j)) (load_le 4 m (p + 4 * j)))) [0..<n] m"
  shows "x < p \<or> p + 4 * n \<le> x \<Longrightarrow> M n x = m x"
    and "j < n \<Longrightarrow> load_le 4 (M n) (p + 4 * j) = (add (load_le 4 base (a + 4 * j)) (load_le 4 m (p + 4 * j)) :: u32)"
proof -
  have M: "M 0 = m" "M (Suc n) = store_le 4 (M n) (p + 4 * n) (add (load_le 4 base (a + 4 * n)) (load_le 4 (M n) (p + 4 * n)))" for n
    by (simp_all add: M_def)
  have out: "x < p \<or> p + 4 * n \<le> x \<Longrightarrow> M n x = m x" for x n
    by (induction n) (auto simp: M store_le_outside)
  then show "x < p \<or> p + 4 * n \<le> x \<Longrightarrow> M n x = m x" .
  show "j < n \<Longrightarrow> load_le 4 (M n) (p + 4 * j) = (add (load_le 4 base (a + 4 * j)) (load_le 4 m (p + 4 * j)) :: u32)"
  proof (induction n)
    case (Suc n)
    have same: "load_le 4 (M n) (p + 4 * n) = (load_le 4 m (p + 4 * n) :: u32)"
      by (rule load_le_cong) (rule out, simp)
    show ?case
    proof (cases "j = n")
      case True
      then show ?thesis unfolding M by (simp add: load_store_same same)
    next
      case False
      then have "p + 4 * j + 4 \<le> p + 4 * n" using Suc.prems by simp
      then show ?thesis unfolding M using Suc False by (simp add: load_store_other)
    qed
  qed simp
qed

lemma length_add_row [simp]: "length (add_row add r v) = min (length r) (length v)"
  by (simp add: add_row_def)

lemma psum_rows_other: "b \<noteq> SLS_BLOCK_PSUM \<Longrightarrow> psum_rows bpi (set_blk b m ma) = psum_rows bpi ma"
  by (simp add: psum_rows_def fun_eq_iff)

lemma sparse_ft_sum_correct:
  assumes "unat a + bpi \<le> blk_size ma SLS_BLOCK_BASE" "unat out * bpi + bpi \<le> blk_size ma SLS_BLOCK_PSUM" "4 dvd bpi"
  shows "\<exists>ma'. sparse_ft_sum add ma a out bpi = Inr ma' \<and> blk_size ma' = blk_size ma \<and>
    (\<forall>b. b \<noteq> SLS_BLOCK_PSUM \<longrightarrow> blk ma' b = blk ma b) \<and>
    psum_rows bpi ma' (unat out) = add_row add (base_row bpi ma a) (psum_rows bpi ma (unat out)) \<and>
    (\<forall>q. q \<noteq> unat out \<longrightarrow> psum_rows bpi ma' q = psum_rows bpi ma q)"
proof -
  let ?p = "unat out * bpi" and ?n = "bpi div 4" and ?base = "blk ma SLS_BLOCK_BASE" and ?m = "blk ma SLS_BLOCK_PSUM"
  let ?M = "fold (\<lambda>j m. store_le 4 m (?p + 4 * j) (add (load_le 4 ?base (unat a + 4 * j)) (load_le 4 m (?p + 4 * j)))) [0..<?n] ?m"
  have bpi: "4 * ?n = bpi" using assms(3) by simp
  have f: "sparse_ft_sum add ma a out bpi = Inr (set_blk SLS_BLOCK_PSUM ?M ma)"
    using assms(1,2) by (simp add: sparse_ft_sum_def Let_def)
  have own: "psum_rows bpi (set_blk SLS_BLOCK_PSUM ?M ma) (unat out) = add_row add (base_row bpi ma a) (psum_rows bpi ma (unat out))"
    by (rule nth_equalityI) (simp_all add: psum_rows_def base_row_def add_row_def fold_add_row(2))
  have "psum_rows bpi (set_blk SLS_BLOCK_PSUM ?M ma) q = psum_rows bpi ma q" if "q \<noteq> unat out" for q
  proof -
    have "q * bpi + bpi \<le> ?p \<or> ?p + bpi \<le> q * bpi"
    proof (cases "q < unat out")
      case True
      then have "Suc q * bpi \<le> unat out * bpi" by (intro mult_right_mono) simp_all
      then show ?thesis by simp
    next
      case False
      then have "Suc (unat out) * bpi \<le> q * bpi" using that by (intro mult_right_mono) simp_all
      then show ?thesis by simp
    qed
    then show ?thesis unfolding psum_rows_def set_blk_simps
      by (intro elems32_cong) (auto simp: bpi fold_add_row(1))
  qed
  then show ?thesis using f own by auto
qed

lemma add_lookups_simps [simp]:
  "add_lookups add rw [] P = P"
  "add_lookups add rw ((out, a) # xs) P = add_lookups add rw xs (P(out := add_row add (rw a) (P out)))"
  by (simp_all add: add_lookups_def)

lemma add_lookups_out:
  "add_lookups add rw xs P out =
     fold (\<lambda>a acc. add_row add (rw a) acc) (map snd (filter (\<lambda>(o', a). o' = out) xs)) (P out)"
  by (induction xs arbitrary: P) auto

lemma inst_at_cong:
  "blk ma' SLS_BLOCK_INST = blk ma SLS_BLOCK_INST \<Longrightarrow> blk_size ma' = blk_size ma \<Longrightarrow> inst_at ma' i ws = inst_at ma i ws"
  by (induction ws arbitrary: i) auto

lemma inst_atI:
  "\<lbrakk>\<And>k. k < length ws \<Longrightarrow> load_le 8 (blk ma SLS_BLOCK_INST) (8 * (i + k)) = ws ! k;
    8 * (i + length ws) \<le> blk_size ma SLS_BLOCK_INST\<rbrakk> \<Longrightarrow> inst_at ma i ws"
proof (induction ws arbitrary: i)
  case (Cons w ws)
  have "inst_at ma (Suc i) ws"
    using Cons.prems(1) [of "Suc _"] Cons.prems(2) by (intro Cons.IH) auto
  then show ?case using Cons.prems(1) [of 0] Cons.prems(2) by simp
qed simp

lemma exec_instr_correct:
  assumes "opcode d \<in> {0, 2, 3}" "\<not> mode_is_tagged md" "mode_bytes_per_idx md = bpi" "4 dvd bpi"
    "lookups_ok bpi ma [(unat (output_idx d), channel_encode_address d)]"
  shows "\<exists>ma'. exec_instr fadd topo md d ma = Inr ma' \<and> blk_size ma' = blk_size ma \<and>
    (\<forall>b. b \<noteq> SLS_BLOCK_PSUM \<longrightarrow> blk ma' b = blk ma b) \<and>
    psum_rows bpi ma' = (psum_rows bpi ma)(unat (output_idx d) :=
      add_row (op_add fadd (opcode d)) (base_row bpi ma (channel_encode_address d)) (psum_rows bpi ma (unat (output_idx d))))"
proof -
  have "exec_instr fadd topo md d ma =
      sparse_ft_sum (op_add fadd (opcode d)) ma (channel_encode_address d) (output_idx d) bpi"
    using assms(1,2,3) by (auto simp: exec_instr_def Let_def op_add_def)
  moreover obtain ma' where "sparse_ft_sum (op_add fadd (opcode d)) ma (channel_encode_address d) (output_idx d) bpi = Inr ma'"
    "blk_size ma' = blk_size ma" "\<forall>b. b \<noteq> SLS_BLOCK_PSUM \<longrightarrow> blk ma' b = blk ma b"
    "psum_rows bpi ma' (unat (output_idx d)) =
      add_row (op_add fadd (opcode d)) (base_row bpi ma (channel_encode_address d)) (psum_rows bpi ma (unat (output_idx d)))"
    "\<forall>q. q \<noteq> unat (output_idx d) \<longrightarrow> psum_rows bpi ma' q = psum_rows bpi ma q"
    using sparse_ft_sum_correct [of "channel_encode_address d" bpi ma "output_idx d" "op_add fadd (opcode d)"] assms(4,5)
    by (auto simp: lookups_ok_def)
  ultimately show ?thesis by (intro exI [of _ ma']) (auto intro!: ext)
qed

lemma exec_loop_correct:
  assumes "ws \<noteq> []" "inst_at ma i ws" "i + length ws \<le> inst_per_single_buf topo" "k = inst_per_single_buf topo - i"
    "\<forall>w \<in> set ws. opcode (decode_instruction w) = op" "op \<in> {0, 2, 3}"
    "map (\<lambda>w. trace_end (decode_instruction w)) ws = replicate (length ws - 1) 0 @ [1]"
    "\<not> mode_is_tagged md" "mode_bytes_per_idx md = bpi" "4 dvd bpi" "lookups_ok bpi ma (map word_lookup ws)"
    "RegPolling topo + POLL_INST_NUM_OFFSET + 4 \<le> blk_size ma SLS_BLOCK_CFGR"
  shows "\<exists>ma'. exec_loop k fadd topo i (Some md) ma = Inr ma' \<and> blk_size ma' = blk_size ma \<and>
    (\<forall>b. b \<noteq> SLS_BLOCK_PSUM \<and> b \<noteq> SLS_BLOCK_CFGR \<longrightarrow> blk ma' b = blk ma b) \<and>
    psum_rows bpi ma' = add_lookups (op_add fadd op) (base_row bpi ma) (map word_lookup ws) (psum_rows bpi ma) \<and>
    blk ma' SLS_BLOCK_CFGR = store_le 4 (blk ma SLS_BLOCK_CFGR) (RegPolling topo + POLL_INST_NUM_OFFSET)
       (of_nat (i + length ws) :: u32)"
  using assms
proof (induction ws arbitrary: i k ma)
  case (Cons w ws)
  let ?d = "decode_instruction w"
  obtain k' where k: "k = Suc k'" "k' = inst_per_single_buf topo - Suc i"
    using Cons.prems(3,4) by (cases k) auto
  have raw: "8 * i + 8 \<le> blk_size ma SLS_BLOCK_INST" "load_le 8 (blk ma SLS_BLOCK_INST) (8 * i) = w" "inst_at ma (Suc i) ws"
    using Cons.prems(2) by auto
  have "opcode ?d = op" using Cons.prems(5) by simp
  moreover have "lookups_ok bpi ma [(unat (output_idx ?d), channel_encode_address ?d)]"
    using Cons.prems(11) by (auto simp: lookups_ok_def word_lookup_def)
  ultimately obtain ma1 where m1: "exec_instr fadd topo md ?d ma = Inr ma1" "blk_size ma1 = blk_size ma"
    "\<forall>b. b \<noteq> SLS_BLOCK_PSUM \<longrightarrow> blk ma1 b = blk ma b"
    "psum_rows bpi ma1 = (psum_rows bpi ma)(unat (output_idx ?d) :=
      add_row (op_add fadd op) (base_row bpi ma (channel_encode_address ?d)) (psum_rows bpi ma (unat (output_idx ?d))))"
    using exec_instr_correct [of ?d md bpi ma fadd topo] Cons.prems(6,8,9,10) by auto
  show ?case
  proof (cases "ws = []")
    case True
    then have "trace_end ?d = 1" using Cons.prems(7) by simp
    then show ?thesis using True k raw m1 Cons.prems(12)
      by (auto simp: Let_def write_reg_def word_lookup_def psum_rows_other)
  next
    case False
    then obtain n where n: "length ws = Suc n" by (cases ws) auto
    then have te: "trace_end ?d = 0" "map (\<lambda>w. trace_end (decode_instruction w)) ws = replicate (length ws - 1) 0 @ [1]"
      using Cons.prems(7) by simp_all
    have rows: "base_row bpi ma1 = base_row bpi ma" using m1(3) by (intro ext) (simp add: base_row_def)
    have "\<exists>ma'. exec_loop k' fadd topo (Suc i) (Some md) ma1 = Inr ma' \<and> blk_size ma' = blk_size ma1 \<and>
      (\<forall>b. b \<noteq> SLS_BLOCK_PSUM \<and> b \<noteq> SLS_BLOCK_CFGR \<longrightarrow> blk ma' b = blk ma1 b) \<and>
      psum_rows bpi ma' = add_lookups (op_add fadd op) (base_row bpi ma1) (map word_lookup ws) (psum_rows bpi ma1) \<and>
      blk ma' SLS_BLOCK_CFGR = store_le 4 (blk ma1 SLS_BLOCK_CFGR) (RegPolling topo + POLL_INST_NUM_OFFSET)
         (of_nat (Suc i + length ws) :: u32)"
      using Cons.prems False k te raw m1
      by (intro Cons.IH) (simp_all add: inst_at_cong [of ma1 ma] lookups_ok_def)
    then obtain ma2 where m2: "exec_loop k' fadd topo (Suc i) (Some md) ma1 = Inr ma2" "blk_size ma2 = blk_size ma1"
      "\<forall>b. b \<noteq> SLS_BLOCK_PSUM \<and> b \<noteq> SLS_BLOCK_CFGR \<longrightarrow> blk ma2 b = blk ma1 b"
      "psum_rows bpi ma2 = add_lookups (op_add fadd op) (base_row bpi ma1) (map word_lookup ws) (psum_rows bpi ma1)"
      "blk ma2 SLS_BLOCK_CFGR = store_le 4 (blk ma1 SLS_BLOCK_CFGR) (RegPolling topo + POLL_INST_NUM_OFFSET)
         (of_nat (Suc i + length ws) :: u32)" by blast
    have "i < inst_per_single_buf topo - 1" using Cons.prems(3) n by simp
    then have "exec_loop k fadd topo i (Some md) ma = Inr ma2"
      using k raw m1(1) m2(1) te(1) by (simp add: Let_def)
    then show ?thesis using m1(2,3) m2
      by (intro exI [of _ ma2]) (simp add: rows m1(4) word_lookup_def [of w])
  qed
qed simp

lemma exec_trace_correct:
  assumes "inst_at ma 0 (h # ws)" "ws \<noteq> []" "Suc (length ws) \<le> inst_per_single_buf topo"
    "read_header h = Inr \<lparr>mode_bytes_per_idx = bpi, mode_is_tagged = False\<rparr>"
    "\<forall>w \<in> set ws. opcode (decode_instruction w) = op" "op \<in> {0, 2, 3}"
    "map (\<lambda>w. trace_end (decode_instruction w)) ws = replicate (length ws - 1) 0 @ [1]"
    "4 dvd bpi" "lookups_ok bpi ma (map word_lookup ws)"
    "RegPolling topo + POLL_INST_NUM_OFFSET + 4 \<le> blk_size ma SLS_BLOCK_CFGR"
  shows "\<exists>ma'. exec_trace fadd topo ma = Inr ma' \<and> blk_size ma' = blk_size ma \<and>
    (\<forall>b. b \<noteq> SLS_BLOCK_PSUM \<and> b \<noteq> SLS_BLOCK_CFGR \<longrightarrow> blk ma' b = blk ma b) \<and>
    psum_rows bpi ma' = add_lookups (op_add fadd op) (base_row bpi ma) (map word_lookup ws) (psum_rows bpi ma) \<and>
    blk ma' SLS_BLOCK_CFGR = store_le 4 (blk ma SLS_BLOCK_CFGR) (RegPolling topo + POLL_INST_NUM_OFFSET)
       (of_nat (Suc (length ws)) :: u32)"
proof -
  let ?md = "\<lparr>mode_bytes_per_idx = bpi, mode_is_tagged = False\<rparr>"
  obtain k where k: "inst_per_single_buf topo = Suc k" using assms(3) by (cases "inst_per_single_buf topo") auto
  have "exec_trace fadd topo ma = exec_loop k fadd topo 1 (Some ?md) ma"
    using assms(1,4) by (simp add: exec_trace_def k Let_def)
  moreover have "\<exists>ma'. exec_loop k fadd topo 1 (Some ?md) ma = Inr ma' \<and> blk_size ma' = blk_size ma \<and>
    (\<forall>b. b \<noteq> SLS_BLOCK_PSUM \<and> b \<noteq> SLS_BLOCK_CFGR \<longrightarrow> blk ma' b = blk ma b) \<and>
    psum_rows bpi ma' = add_lookups (op_add fadd op) (base_row bpi ma) (map word_lookup ws) (psum_rows bpi ma) \<and>
    blk ma' SLS_BLOCK_CFGR = store_le 4 (blk ma SLS_BLOCK_CFGR) (RegPolling topo + POLL_INST_NUM_OFFSET)
       (of_nat (1 + length ws) :: u32)"
    using assms(1,3) k by (intro exec_loop_correct [OF assms(2) _ _ _ assms(5,6,7) _ _ assms(8,9,10)]) simp_all
  ultimately show ?thesis by simp
qed

section \<open>Properties\<close>

text \<open>
  C22: on a well-formed trace of an untagged operation the simulator adds to every output row the
  table rows of that output's instructions, in trace order, reports the number of processed
  instructions (the header included) in the configuration register, and leaves the table, the
  instruction and the tag block as they were.
\<close>
theorem exec_trace_sums:
  assumes "inst_at ma 0 (h # ws)" "ws \<noteq> []" "Suc (length ws) \<le> inst_per_single_buf topo"
    "read_header h = Inr \<lparr>mode_bytes_per_idx = bpi, mode_is_tagged = False\<rparr>"
    "\<forall>w \<in> set ws. opcode (decode_instruction w) = op" "op \<in> {0, 2, 3}"
    "map (\<lambda>w. trace_end (decode_instruction w)) ws = replicate (length ws - 1) 0 @ [1]"
    "4 dvd bpi" "lookups_ok bpi ma (map word_lookup ws)"
    "RegPolling topo + POLL_INST_NUM_OFFSET + 4 \<le> blk_size ma SLS_BLOCK_CFGR"
  shows "\<exists>ma'. exec_trace fadd topo ma = Inr ma' \<and>
    (\<forall>out. psum_rows bpi ma' out =
       fold (\<lambda>a acc. map2 (if op = 0 then fadd else (+)) (base_row bpi ma a) acc)
         (map snd (filter (\<lambda>(out', a). out' = out) (map word_lookup ws))) (psum_rows bpi ma out)) \<and>
    load_le 4 (blk ma' SLS_BLOCK_CFGR) (RegPolling topo + POLL_INST_NUM_OFFSET) = (of_nat (Suc (length ws)) :: u32) \<and>
    blk ma' SLS_BLOCK_BASE = blk ma SLS_BLOCK_BASE \<and> blk ma' SLS_BLOCK_INST = blk ma SLS_BLOCK_INST \<and>
    blk ma' SLS_BLOCK_TAGS = blk ma SLS_BLOCK_TAGS"
proof -
  obtain ma' where "exec_trace fadd topo ma = Inr ma'"
    "\<forall>b. b \<noteq> SLS_BLOCK_PSUM \<and> b \<noteq> SLS_BLOCK_CFGR \<longrightarrow> blk ma' b = blk ma b"
    "psum_rows bpi ma' = add_lookups (op_add fadd op) (base_row bpi ma) (map word_lookup ws) (psum_rows bpi ma)"
    "blk ma' SLS_BLOCK_CFGR = store_le 4 (blk ma SLS_BLOCK_CFGR) (RegPolling topo + POLL_INST_NUM_OFFSET)
       (of_nat (Suc (length ws)) :: u32)"
    using exec_trace_correct [OF assms] by blast
  then show ?thesis
    by (intro exI [of _ ma']) (simp add: add_lookups_out add_row_def op_add_def load_store_same del: of_nat_Suc)
qed

theorem exec_trace_sums_witness:
  "\<exists>ma'. exec_trace (\<lambda>x y. x) small_topo small_mem = Inr ma' \<and>
     psum_rows 64 ma' 1 = map2 (+) (base_row 64 small_mem 0) (psum_rows 64 small_mem 1)"
proof -
  let ?w = "instr_word small_inst"
  have ff: "fields_fit small_inst" by (simp add: fields_fit_iff small_inst_def)
  have d: "decode_instruction ?w = small_inst" by (rule decode_instr_word [OF ff])
  have ot: "opcode (decode_instruction ?w) = 2" "trace_end (decode_instruction ?w) = 1"
    unfolding d by (simp_all add: small_inst_def)
  have a: "channel_encode_address small_inst = 0"
    by (rule bit_word_eqI) (simp add: bit_channel_encode rank_bit_def small_inst_def)
  have lk: "map word_lookup [?w] = [(1, 0)]" by (simp add: word_lookup_def d a) (simp add: small_inst_def)
  have i: "inst_at small_mem 0 [0, ?w]"
  proof (rule inst_atI)
    fix k assume "k < length [0, ?w]"
    then show "load_le 8 (blk small_mem SLS_BLOCK_INST) (8 * (0 + k)) = [0, ?w] ! k"
      using load_write_word [of 8 k "[0, ?w]" "\<lambda>_. 0" 0] by (simp add: small_mem_def)
  qed (simp add: small_mem_def)
  have "\<exists>ma'. exec_trace (\<lambda>x y. x) small_topo small_mem = Inr ma' \<and>
      (\<forall>out. psum_rows 64 ma' out =
       fold (\<lambda>a acc. map2 (if (2::u32) = 0 then (\<lambda>x y. x) else (+)) (base_row 64 small_mem a) acc)
         (map snd (filter (\<lambda>(out', a). out' = out) (map word_lookup [?w]))) (psum_rows 64 small_mem out)) \<and>
      load_le 4 (blk ma' SLS_BLOCK_CFGR) (RegPolling small_topo + POLL_INST_NUM_OFFSET) = (of_nat (Suc (length [?w])) :: u32) \<and>
      blk ma' SLS_BLOCK_BASE = blk small_mem SLS_BLOCK_BASE \<and> blk ma' SLS_BLOCK_INST = blk small_mem SLS_BLOCK_INST \<and>
      blk ma' SLS_BLOCK_TAGS = blk small_mem SLS_BLOCK_TAGS"
  proof (rule exec_trace_sums [OF i])
    show "read_header 0 = Inr \<lparr>mode_bytes_per_idx = 64, mode_is_tagged = False\<rparr>"
      by (simp add: read_header_def get_bytes_per_idx_def)
    show "lookups_ok 64 small_mem (map word_lookup [?w])"
      unfolding lk by (simp add: lookups_ok_def small_mem_def)
  qed (simp_all add: ot small_topo_def inst_per_single_buf_def inst_single_buf_size_def
      small_mem_def POLL_INST_NUM_OFFSET_def)
  then show ?thesis unfolding lk by auto
qed

end
