(* ===== verification/Cpu_Sls.thy ===== *)
theory Cpu_Sls
  imports Views
begin

text \<open>
  The reference implementation of sparse-lengths-sum on the host (\<open>common/cpu_sls.h\<close>), with and
  without tags, and what it computes in terms of tables, rows and index segments. Arrays are lists
  and pointers are positions; the element type is the 32-bit pattern of \<open>float\<close> or \<open>uint32_t\<close>, and
  the addition on it is a parameter.
\<close>

section \<open>The reduction\<close>

text \<open>Writing the elements of a view of an array.\<close>

definition view_write :: "'a list \<Rightarrow> view \<Rightarrow> 'a list \<Rightarrow> 'a list result" where
  "view_write xs v ys =
     (if v_begin v \<le> v_end v \<and> v_end v \<le> length xs \<and> length ys = v_end v - v_begin v
      then Inr (take (v_begin v) xs @ ys @ drop (v_end v) xs) else Inl Undefined)"

text \<open>One round of the loop of \<open>common\<close>: the row starts where the row view starts and has as many
  elements as the partial sum.\<close>

definition cpu_add_row ::
  "(u32 \<Rightarrow> u32 \<Rightarrow> u32) \<Rightarrow> u32 list \<Rightarrow> rowwise \<Rightarrow> view \<Rightarrow> u32 \<Rightarrow> u32 list \<Rightarrow> u32 list result" where
  "cpu_add_row add tab table psum index ps =
     (let r = it_current (it_plus (rw_begin_it table) (unat index)) in
      bind_r (view_elems tab (make_view (v_begin r) (v_begin r + (v_end psum - v_begin psum)))) (\<lambda>row.
      bind_r (view_elems ps psum) (\<lambda>acc. view_write ps psum (map2 add acc row))))"

primrec cpu_add_rows ::
  "(u32 \<Rightarrow> u32 \<Rightarrow> u32) \<Rightarrow> u32 list \<Rightarrow> rowwise \<Rightarrow> view \<Rightarrow> u32 list \<Rightarrow> u32 list \<Rightarrow> u32 list result" where
  "cpu_add_rows add tab table psum [] ps = Inr ps"
| "cpu_add_rows add tab table psum (index # indices) ps =
     bind_r (cpu_add_row add tab table psum index ps) (cpu_add_rows add tab table psum indices)"

definition cpu_common ::
  "(u32 \<Rightarrow> u32 \<Rightarrow> u32) \<Rightarrow> u32 list \<Rightarrow> rowwise \<Rightarrow> u32 list \<Rightarrow> view \<Rightarrow> u32 list \<Rightarrow> u32 list result" where
  "cpu_common add tab table indices psum ps =
     bind_r (view_write ps psum (replicate (v_end psum - v_begin psum) 0))
       (cpu_add_rows add tab table psum indices)"

text \<open>The 128-bit tag in four consecutive elements, least significant element first.\<close>

definition tag_of :: "u32 list \<Rightarrow> u128" where
  "tag_of es = foldr (\<lambda>e t. ucast e OR push_bit 32 t) es 0"

definition tag_elems :: "u128 \<Rightarrow> u32 list" where
  "tag_elems t = map (\<lambda>i. ucast (drop_bit (32 * i) t)) [0..<4]"

definition tag_view :: "nat \<Rightarrow> view" where
  "tag_view p = make_view p (p + 4)"

definition cpu_add_tag :: "u32 list \<Rightarrow> rowwise \<Rightarrow> view \<Rightarrow> u32 \<Rightarrow> u32 list \<Rightarrow> u32 list result" where
  "cpu_add_tag tab tags psum_tag index ps =
     bind_r (view_elems tab (tag_view (v_begin (it_current (it_plus (rw_begin_it tags) (unat index)))))) (\<lambda>t.
     bind_r (view_elems ps (tag_view (v_begin psum_tag))) (\<lambda>acc.
       view_write ps (tag_view (v_begin psum_tag)) (tag_elems (tag_of acc + tag_of t))))"

primrec cpu_add_tags :: "u32 list \<Rightarrow> rowwise \<Rightarrow> view \<Rightarrow> u32 list \<Rightarrow> u32 list \<Rightarrow> u32 list result" where
  "cpu_add_tags tab tags psum_tag [] ps = Inr ps"
| "cpu_add_tags tab tags psum_tag (index # indices) ps =
     bind_r (cpu_add_tag tab tags psum_tag index ps) (cpu_add_tags tab tags psum_tag indices)"

definition cpu_on_tag :: "u32 list \<Rightarrow> rowwise \<Rightarrow> u32 list \<Rightarrow> view \<Rightarrow> u32 list \<Rightarrow> u32 list result" where
  "cpu_on_tag tab tags indices psum_tag ps =
     bind_r (view_write ps (tag_view (v_begin psum_tag)) (tag_elems 0)) (cpu_add_tags tab tags psum_tag indices)"

section \<open>Computing all tables\<close>

text \<open>
  The variables that the loops of \<open>compute\<close> and \<open>compute_with_tag\<close> advance: the positions in the
  indices, the lengths and the tables, the partial-sum iterators, and the partial-sum array.
\<close>

record cpu_state =
  indices_pos :: nat
  length_pos :: nat
  table_pos :: nat
  cpsum_it :: rows_iterator
  ctag_it :: rows_iterator
  psum_array :: "u32 list"

primrec cpu_batches ::
  "nat \<Rightarrow> (u32 \<Rightarrow> u32 \<Rightarrow> u32) \<Rightarrow> u32 list \<Rightarrow> rowwise \<Rightarrow> u32 list \<Rightarrow> nat list \<Rightarrow> cpu_state \<Rightarrow> cpu_state result" where
  "cpu_batches 0 add tab table inds lens s = Inr s"
| "cpu_batches (Suc k) add tab table inds lens s =
     (if length_pos s < length lens then
        let n = lens ! length_pos s in
        bind_r (view_elems inds (make_view (indices_pos s) (indices_pos s + n))) (\<lambda>iv.
        bind_r (cpu_common add tab table iv (it_current (cpsum_it s)) (psum_array s)) (\<lambda>ps.
          cpu_batches k add tab table inds lens
            (s\<lparr>psum_array := ps, cpsum_it := it_next (cpsum_it s),
               indices_pos := indices_pos s + n, length_pos := length_pos s + 1\<rparr>)))
      else Inl Undefined)"

primrec cpu_tables ::
  "nat list \<Rightarrow> nat \<Rightarrow> nat \<Rightarrow> (u32 \<Rightarrow> u32 \<Rightarrow> u32) \<Rightarrow> u32 list \<Rightarrow> u32 list \<Rightarrow> nat list \<Rightarrow> cpu_state \<Rightarrow> cpu_state result" where
  "cpu_tables [] n mb add tab inds lens s = Inr s"
| "cpu_tables (rows_count # rws) n mb add tab inds lens s =
     (let table = make_rowwise_view (table_pos s) (table_pos s + n * rows_count) n 0 0 in
      bind_r (cpu_batches mb add tab table inds lens s) (\<lambda>s.
        cpu_tables rws n mb add tab inds lens (s\<lparr>table_pos := table_pos s + rows_count * n\<rparr>)))"

definition cpu_compute ::
  "(u32 \<Rightarrow> u32 \<Rightarrow> u32) \<Rightarrow> u32 list \<Rightarrow> nat list \<Rightarrow> u32 list \<Rightarrow> nat list \<Rightarrow> nat \<Rightarrow> nat \<Rightarrow> u32 list \<Rightarrow> u32 list result" where
  "cpu_compute add tab rws inds lens n mb ps =
     (let psum_v = make_rowwise_view 0 (mb * length rws * n) n 0 0 in
      bind_r (cpu_tables rws n mb add tab inds lens
          \<lparr>indices_pos = 0, length_pos = 0, table_pos = 0, cpsum_it = rw_begin_it psum_v,
           ctag_it = rw_begin_it psum_v, psum_array = ps\<rparr>) (\<lambda>s. Inr (psum_array s)))"

definition single_tag_size :: nat where
  "single_tag_size = 4"

primrec cpu_tag_batches ::
  "nat \<Rightarrow> (u32 \<Rightarrow> u32 \<Rightarrow> u32) \<Rightarrow> u32 list \<Rightarrow> rowwise \<Rightarrow> rowwise \<Rightarrow> u32 list \<Rightarrow> nat list \<Rightarrow> cpu_state \<Rightarrow> cpu_state result" where
  "cpu_tag_batches 0 add tab table tags inds lens s = Inr s"
| "cpu_tag_batches (Suc k) add tab table tags inds lens s =
     (if length_pos s < length lens then
        let n = lens ! length_pos s in
        bind_r (view_elems inds (make_view (indices_pos s) (indices_pos s + n))) (\<lambda>iv.
        bind_r (cpu_common add tab table iv (it_current (cpsum_it s)) (psum_array s)) (\<lambda>ps.
        bind_r (cpu_on_tag tab tags iv (it_current (ctag_it s)) ps) (\<lambda>ps.
          cpu_tag_batches k add tab table tags inds lens
            (s\<lparr>psum_array := ps, cpsum_it := it_next (cpsum_it s), ctag_it := it_next (ctag_it s),
               indices_pos := indices_pos s + n, length_pos := length_pos s + 1\<rparr>))))
      else Inl Undefined)"

primrec cpu_tag_tables ::
  "nat list \<Rightarrow> nat \<Rightarrow> nat \<Rightarrow> (u32 \<Rightarrow> u32 \<Rightarrow> u32) \<Rightarrow> u32 list \<Rightarrow> u32 list \<Rightarrow> nat list \<Rightarrow> cpu_state \<Rightarrow> cpu_state result" where
  "cpu_tag_tables [] n mb add tab inds lens s = Inr s"
| "cpu_tag_tables (rows_count # rws) n mb add tab inds lens s =
     (let w = n + single_tag_size;
          table = make_rowwise_view (table_pos s) (table_pos s + w * rows_count) w 0 single_tag_size;
          tags = make_rowwise_view (table_pos s) (table_pos s + w * rows_count) w n 0 in
      bind_r (cpu_tag_batches mb add tab table tags inds lens s) (\<lambda>s.
        cpu_tag_tables rws n mb add tab inds lens (s\<lparr>table_pos := table_pos s + rows_count * w\<rparr>)))"

definition cpu_compute_with_tag ::
  "(u32 \<Rightarrow> u32 \<Rightarrow> u32) \<Rightarrow> u32 list \<Rightarrow> nat list \<Rightarrow> u32 list \<Rightarrow> nat list \<Rightarrow> nat \<Rightarrow> nat \<Rightarrow> u32 list \<Rightarrow> u32 list result" where
  "cpu_compute_with_tag add tab rws inds lens n mb ps =
     (let psum_size = mb * length rws * n; tags_meta_size = mb * length rws * single_tag_size;
          sf_psum_v = make_rowwise_view 0 psum_size n 0 0;
          tag_psum_v = make_rowwise_view psum_size (psum_size + tags_meta_size) single_tag_size 0 0 in
      bind_r (cpu_tag_tables rws n mb add tab inds lens
          \<lparr>indices_pos = 0, length_pos = 0, table_pos = 0, cpsum_it = rw_begin_it sf_psum_v,
           ctag_it = rw_begin_it tag_psum_v, psum_array = ps\<rparr>) (\<lambda>s. Inr (psum_array s)))"

section \<open>Specification\<close>

text \<open>
  A table is its list of rows. The sum of a batch starts at zero and adds the rows of the batch's
  indices in order; a table has \<open>mb\<close> consecutive batches.
\<close>

definition sls_sum :: "(u32 \<Rightarrow> u32 \<Rightarrow> u32) \<Rightarrow> nat \<Rightarrow> u32 list list \<Rightarrow> u32 list \<Rightarrow> u32 list" where
  "sls_sum add n table seg = fold (\<lambda>i acc. map2 add acc (take n (table ! unat i))) seg (replicate n 0)"

definition tag_sum :: "nat \<Rightarrow> u32 list list \<Rightarrow> u32 list \<Rightarrow> u128" where
  "tag_sum n table seg = sum_list (map (\<lambda>i. tag_of (drop n (table ! unat i))) seg)"

primrec per_table :: "nat \<Rightarrow> 'b list \<Rightarrow> 'a list \<Rightarrow> ('b \<times> 'a) list" where
  "per_table mb [] segs = []"
| "per_table mb (t # ts) segs = map (Pair t) (take mb segs) @ per_table mb ts (drop mb segs)"

definition tables_wf :: "nat \<Rightarrow> u32 list list list \<Rightarrow> bool" where
  "tables_wf w tables \<longleftrightarrow> (\<forall>t \<in> set tables. \<forall>r \<in> set t. length r = w)"

definition segs_ok :: "('b list \<times> u32 list) list \<Rightarrow> bool" where
  "segs_ok cells \<longleftrightarrow> (\<forall>(t, seg) \<in> set cells. \<forall>i \<in> set seg. unat i < length t)"

definition table_row_view :: "rowwise \<Rightarrow> nat \<Rightarrow> nat" where
  "table_row_view v i = v_begin (it_current (it_plus (rw_begin_it v) i))"

definition cell_sums :: "(u32 \<Rightarrow> u32 \<Rightarrow> u32) \<Rightarrow> nat \<Rightarrow> (u32 list list \<times> u32 list) list \<Rightarrow> u32 list" where
  "cell_sums add n cells = concat (map (\<lambda>(t, seg). sls_sum add n t seg) cells)"

definition cell_tags :: "nat \<Rightarrow> (u32 list list \<times> u32 list) list \<Rightarrow> u32 list" where
  "cell_tags n cells = concat (map (\<lambda>(t, seg). tag_elems (tag_sum n t seg)) cells)"

definition row_it :: "nat \<Rightarrow> nat \<Rightarrow> rows_iterator" where
  "row_it p n = \<lparr>it_base = p, it_step = n, it_offset = 0, it_size = n\<rparr>"

section \<open>Lemmas\<close>

lemma make_view_simps [simp]: "v_begin (make_view a b) = a" "v_end (make_view a b) = b"
  by (simp_all add: make_view_def)

lemma view_elems_mid:
  "length pre = p \<Longrightarrow> length mid = n \<Longrightarrow> view_elems (pre @ mid @ post) (make_view p (p + n)) = Inr mid"
  by (auto simp: view_elems_def make_view_def)

lemma view_write_mid:
  "length pre = p \<Longrightarrow> length mid = n \<Longrightarrow> length ys = n \<Longrightarrow>
   view_write (pre @ mid @ post) (make_view p (p + n)) ys = Inr (pre @ ys @ post)"
  by (auto simp: view_write_def make_view_def)

lemma concat_split_nth: "i < length T \<Longrightarrow> concat T = concat (take i T) @ T ! i @ concat (drop (Suc i) T)"
  by (metis concat.simps(2) concat_append id_take_nth_drop)

lemma length_concat_eq: "\<forall>r \<in> set T. length r = w \<Longrightarrow> length (concat T) = w * length T"
  by (induction T) auto

lemma view_row:
  assumes "\<forall>r \<in> set T. length r = w" "i < length T" "g + n \<le> w"
  shows "view_elems (tp @ concat T @ rest) (make_view (length tp + (w * i + g)) (length tp + (w * i + g) + n)) =
    Inr (take n (drop g (T ! i)))"
proof -
  let ?r = "T ! i"
  have "length (concat (take i T)) = w * i"
    using assms(1,2) length_concat_eq [of "take i T" w] by (auto dest: in_set_takeD)
  moreover have "length ?r = w" using assms(1,2) by simp
  moreover have "?r = take g ?r @ take n (drop g ?r) @ drop (g + n) ?r"
    by (metis append_take_drop_id drop_drop add.commute)
  then have "tp @ concat T @ rest = (tp @ concat (take i T) @ take g ?r) @ take n (drop g ?r) @
      (drop (g + n) ?r @ concat (drop (Suc i) T) @ rest)"
    by (simp add: concat_split_nth [OF assms(2)])
  ultimately show ?thesis using assms(3)
    by (simp only:) (rule view_elems_mid, simp_all)
qed

lemma cpu_add_rows_correct:
  assumes "\<forall>i \<in> set idx. view_elems tab (make_view (table_row_view table (unat i)) (table_row_view table (unat i) + n)) = Inr (R i) \<and> length (R i) = n"
    "length acc = n"
  shows "cpu_add_rows add tab table (make_view (length pre) (length pre + n)) idx (pre @ acc @ post) =
    Inr (pre @ fold (\<lambda>i acc. map2 add acc (R i)) idx acc @ post)"
  using assms
proof (induction idx arbitrary: acc)
  case (Cons i idx)
  have "cpu_add_row add tab table (make_view (length pre) (length pre + n)) i (pre @ acc @ post) =
      Inr (pre @ map2 add acc (R i) @ post)"
    using Cons.prems
    by (simp add: cpu_add_row_def Let_def table_row_view_def view_elems_mid view_write_mid)
  then show ?case using Cons by simp
qed simp


lemma tag_of_elems: "tag_of (tag_elems t) = t"
proof (rule bit_word_eqI)
  fix j assume "j < LENGTH(128)"
  moreover have "[0..<4] = [0, 1, 2, 3::nat]" by (simp add: upt_conv_Cons)
  moreover have "96 \<le> j \<Longrightarrow> 96 + (j - 96) = j" "64 \<le> j \<Longrightarrow> 64 + (j - 64) = j" by simp_all
  ultimately show "bit (tag_of (tag_elems t)) j = bit t j"
    by (cases "96 \<le> j"; cases "64 \<le> j") (auto simp: tag_of_def tag_elems_def bit_simps)
qed

lemma length_tag_elems [simp]: "length (tag_elems t) = 4"
  by (simp add: tag_elems_def)

lemma table_row_view_make:
  "table_row_view (make_rowwise_view b e w f g) i = b + (w * i + f)"
  by (simp add: table_row_view_def it_current_def it_plus_def rw_begin_it_def make_rowwise_view_def)

lemma cpu_common_correct:
  assumes "\<forall>r \<in> set T. length r = w" "n \<le> w" "\<forall>i \<in> set idx. unat i < length T" "length old = n"
  shows "cpu_common add (tp @ concat T @ rest) (make_rowwise_view (length tp) e w 0 g) idx
      (make_view (length pre) (length pre + n)) (pre @ old @ post) = Inr (pre @ sls_sum add n T idx @ post)"
proof -
  let ?tab = "tp @ concat T @ rest" and ?v = "make_rowwise_view (length tp) e w 0 g"
  have "\<forall>i \<in> set idx. view_elems ?tab (make_view (table_row_view ?v (unat i)) (table_row_view ?v (unat i) + n)) =
      Inr (take n (T ! unat i)) \<and> length (take n (T ! unat i)) = n"
    using assms by (auto simp: table_row_view_make view_row [where g = 0, simplified])
  then show ?thesis
    using cpu_add_rows_correct [of idx ?tab ?v n "\<lambda>i. take n (T ! unat i)" "replicate n 0" add pre post] assms
    by (simp add: cpu_common_def view_write_mid sls_sum_def)
qed

lemma cpu_add_tags_correct:
  assumes "\<forall>r \<in> set T. length r = n + 4" "\<forall>i \<in> set idx. unat i < length T" "length old = 4"
    "v_begin v = length pre"
  shows "cpu_add_tags (tp @ concat T @ rest) (make_rowwise_view (length tp) e (n + 4) n g) v idx
      (pre @ tag_elems t @ post) = Inr (pre @ tag_elems (t + tag_sum n T idx) @ post)"
  using assms(2)
proof (induction idx arbitrary: t)
  case (Cons i idx)
  have "length (T ! unat i) = n + 4" using assms(1) Cons.prems by simp
  then have "view_elems (tp @ concat T @ rest) (make_view (length tp + ((n + 4) * unat i + n))
       (length tp + ((n + 4) * unat i + n) + 4)) = Inr (drop n (T ! unat i))"
    using Cons.prems assms(1) by (simp add: view_row)
  then have "cpu_add_tag (tp @ concat T @ rest) (make_rowwise_view (length tp) e (n + 4) n g) v i
      (pre @ tag_elems t @ post) = Inr (pre @ tag_elems (t + tag_of (drop n (T ! unat i))) @ post)"
    using table_row_view_make [of "length tp" e "n + 4" n g "unat i"] assms(4)
    by (simp add: cpu_add_tag_def tag_view_def table_row_view_def view_elems_mid view_write_mid tag_of_elems)
  then show ?case using Cons by (simp add: tag_sum_def add.assoc)
qed (simp add: tag_sum_def)

lemma cpu_on_tag_correct:
  assumes "\<forall>r \<in> set T. length r = n + 4" "\<forall>i \<in> set idx. unat i < length T" "length old = 4"
    "v_begin v = length pre"
  shows "cpu_on_tag (tp @ concat T @ rest) (make_rowwise_view (length tp) e (n + 4) n g) idx v
      (pre @ old @ post) = Inr (pre @ tag_elems (tag_sum n T idx) @ post)"
  using cpu_add_tags_correct [OF assms, of tp rest e g 0 post] assms(3,4)
  by (simp add: cpu_on_tag_def tag_view_def view_write_mid)

lemma length_sls_sum [simp]:
  "\<lbrakk>\<forall>r \<in> set T. length r = w; n \<le> w; \<forall>i \<in> set idx. unat i < length T\<rbrakk> \<Longrightarrow> length (sls_sum add n T idx) = n"
proof -
  have "\<lbrakk>\<forall>r \<in> set T. length r = w; n \<le> w; \<forall>i \<in> set idx. unat i < length T; length acc = n\<rbrakk> \<Longrightarrow>
      length (fold (\<lambda>i acc. map2 add acc (take n (T ! unat i))) idx acc) = n" for acc
    by (induction idx arbitrary: acc) auto
  then show "\<lbrakk>\<forall>r \<in> set T. length r = w; n \<le> w; \<forall>i \<in> set idx. unat i < length T\<rbrakk> \<Longrightarrow> length (sls_sum add n T idx) = n"
    by (simp add: sls_sum_def)
qed


lemma row_it_simps [simp]: "it_current (row_it p n) = make_view p (p + n)" "it_next (row_it p n) = row_it (p + n) n"
  by (simp_all add: row_it_def it_current_def it_next_def)

lemma rw_begin_it_make: "rw_begin_it (make_rowwise_view p e n 0 0) = row_it p n"
  by (simp add: rw_begin_it_def make_rowwise_view_def row_it_def)

lemma split_front: "n \<le> length xs \<Longrightarrow> \<exists>a b. xs = a @ b \<and> length a = n"
  by (metis append_take_drop_id length_take min.absorb2)

lemma cpu_batches_correct:
  assumes "\<forall>r \<in> set T. length r = n" "\<forall>seg \<in> set segs. \<forall>i \<in> set seg. unat i < length T"
    "segs = segments (take k (drop l lens)) (drop p inds)" "l + k \<le> length lens"
    "p + sum_list (take k (drop l lens)) \<le> length inds" "length old = k * n"
  shows "cpu_batches k add (tp @ concat T @ rest) (make_rowwise_view (length tp) e n 0 0) inds lens
      \<lparr>indices_pos = p, length_pos = l, table_pos = tpos, cpsum_it = row_it (length pre) n, ctag_it = ct,
       psum_array = pre @ old @ post\<rparr> =
    Inr \<lparr>indices_pos = p + sum_list (take k (drop l lens)), length_pos = l + k, table_pos = tpos,
       cpsum_it = row_it (length pre + k * n) n, ctag_it = ct,
       psum_array = pre @ cell_sums add n (map (Pair T) segs) @ post\<rparr>"
  using assms(2-)
proof (induction k arbitrary: l p pre old segs)
  case 0
  then show ?case by (simp add: cell_sums_def)
next
  case (Suc k)
  obtain o1 o2 where o: "old = o1 @ o2" "length o1 = n" "length o2 = k * n"
    using split_front [of n old] Suc.prems(5) by auto
  have l: "l < length lens" using Suc.prems(3) by simp
  then have d: "take (Suc k) (drop l lens) = lens ! l # take k (drop (Suc l) lens)"
    by (metis Cons_nth_drop_Suc take_Suc_Cons)
  let ?seg = "take (lens ! l) (drop p inds)"
  let ?segs = "segments (take k (drop (Suc l) lens)) (drop (p + lens ! l) inds)"
  have segs: "segs = ?seg # ?segs" using Suc.prems(2) d by (simp add: add.commute)
  have iv: "view_elems inds (make_view p (p + lens ! l)) = Inr ?seg"
    using Suc.prems(4) d by (simp add: view_elems_def)
  have c: "cpu_common add (tp @ concat T @ rest) (make_rowwise_view (length tp) e n 0 0) ?seg
      (make_view (length pre) (length pre + n)) (pre @ o1 @ (o2 @ post)) = Inr (pre @ sls_sum add n T ?seg @ o2 @ post)"
    using Suc.prems(1) segs assms(1) o by (intro cpu_common_correct) auto
  have len: "length (sls_sum add n T ?seg) = n"
    using Suc.prems(1) segs assms(1) by (intro length_sls_sum) auto
  have IH: "cpu_batches k add (tp @ concat T @ rest) (make_rowwise_view (length tp) e n 0 0) inds lens
      \<lparr>indices_pos = p + lens ! l, length_pos = Suc l, table_pos = tpos,
       cpsum_it = row_it (length (pre @ sls_sum add n T ?seg)) n, ctag_it = ct,
       psum_array = (pre @ sls_sum add n T ?seg) @ o2 @ post\<rparr> =
    Inr \<lparr>indices_pos = p + lens ! l + sum_list (take k (drop (Suc l) lens)), length_pos = Suc l + k, table_pos = tpos,
       cpsum_it = row_it (length (pre @ sls_sum add n T ?seg) + k * n) n, ctag_it = ct,
       psum_array = (pre @ sls_sum add n T ?seg) @ cell_sums add n (map (Pair T) ?segs) @ post\<rparr>"
    using Suc.prems segs d o by (intro Suc.IH) auto
  then show ?case using l iv c len o
    by (simp add: d segs cell_sums_def add.assoc Let_def)
qed


lemma segments_append: "segments (a @ b) xs = segments a xs @ segments b (drop (sum_list a) xs)"
  by (induction a arbitrary: xs) (auto simp: add.commute)

lemma cell_sums_append: "cell_sums add n (a @ b) = cell_sums add n a @ cell_sums add n b"
  by (simp add: cell_sums_def)

lemma cell_tags_append: "cell_tags n (a @ b) = cell_tags n a @ cell_tags n b"
  by (simp add: cell_tags_def)

lemma length_cell_tags: "length (cell_tags n cells) = length cells * 4"
  by (induction cells) (auto simp: cell_tags_def)

lemma length_cell_sums:
  assumes "\<forall>(t, seg) \<in> set cells. (\<forall>r \<in> set t. length r = w) \<and> (\<forall>i \<in> set seg. unat i < length t)" "n \<le> w"
  shows "length (cell_sums add n cells) = length cells * n"
  using assms by (induction cells) (auto simp: cell_sums_def intro!: length_sls_sum)

lemma cpu_tables_correct:
  assumes "tables_wf n Ts" "segs = segments (take (mb * length Ts) (drop l lens)) (drop p inds)"
    "l + mb * length Ts \<le> length lens" "p + sum_list (take (mb * length Ts) (drop l lens)) \<le> length inds"
    "segs_ok (per_table mb Ts segs)" "length old = mb * length Ts * n"
  shows "\<exists>s. cpu_tables (map length Ts) n mb add (tp @ concat (map concat Ts) @ rest) inds lens
      \<lparr>indices_pos = p, length_pos = l, table_pos = length tp, cpsum_it = row_it (length pre) n, ctag_it = ct,
       psum_array = pre @ old @ post\<rparr> = Inr s \<and>
    psum_array s = pre @ cell_sums add n (per_table mb Ts segs) @ post"
  using assms
proof (induction Ts arbitrary: l p pre old segs tp)
  case Nil
  then show ?case by (simp add: cell_sums_def)
next
  case (Cons T Ts)
  let ?a = "take mb (drop l lens)" and ?b = "take (mb * length Ts) (drop (l + mb) lens)"
  have d: "take (mb * length (T # Ts)) (drop l lens) = ?a @ ?b"
    by (simp add: take_add add.commute)
  have la: "length ?a = mb" using Cons.prems(3) by simp
  let ?segs1 = "segments ?a (drop p inds)" and ?segs2 = "segments ?b (drop (p + sum_list ?a) inds)"
  have segs: "take mb segs = ?segs1" "drop mb segs = ?segs2" "segs = ?segs1 @ ?segs2"
    using Cons.prems(2) la unfolding d segments_append by (simp_all add: add.commute)
  obtain o1 o2 where o: "old = o1 @ o2" "length o1 = mb * n" "length o2 = mb * length Ts * n"
    using split_front [of "mb * n" old] Cons.prems(6) by (auto simp: algebra_simps)
  have T: "\<forall>r \<in> set T. length r = n" "\<forall>seg \<in> set ?segs1. \<forall>i \<in> set seg. unat i < length T"
    using Cons.prems(1,5) segs(1) by (auto simp: tables_wf_def segs_ok_def)
  have b: "cpu_batches mb add (tp @ concat T @ (concat (map concat Ts) @ rest)) (make_rowwise_view (length tp) e n 0 0) inds lens
      \<lparr>indices_pos = p, length_pos = l, table_pos = length tp, cpsum_it = row_it (length pre) n, ctag_it = ct,
       psum_array = pre @ o1 @ (o2 @ post)\<rparr> =
    Inr \<lparr>indices_pos = p + sum_list ?a, length_pos = l + mb, table_pos = length tp,
       cpsum_it = row_it (length pre + mb * n) n, ctag_it = ct,
       psum_array = pre @ cell_sums add n (map (Pair T) ?segs1) @ (o2 @ post)\<rparr>" for e
    using Cons.prems(3,4) d o T by (intro cpu_batches_correct) auto
  have len: "length (cell_sums add n (map (Pair T) ?segs1)) = mb * n"
    using T la by (subst length_cell_sums [where w = n]) auto
  have tp: "length (tp @ concat T) = length tp + length T * n"
    using length_concat_eq [OF T(1)] by (simp add: mult.commute)
  have "\<exists>s. cpu_tables (map length Ts) n mb add ((tp @ concat T) @ concat (map concat Ts) @ rest) inds lens
      \<lparr>indices_pos = p + sum_list ?a, length_pos = l + mb, table_pos = length (tp @ concat T),
       cpsum_it = row_it (length (pre @ cell_sums add n (map (Pair T) ?segs1))) n, ctag_it = ct,
       psum_array = (pre @ cell_sums add n (map (Pair T) ?segs1)) @ o2 @ post\<rparr> = Inr s \<and>
    psum_array s = (pre @ cell_sums add n (map (Pair T) ?segs1)) @ cell_sums add n (per_table mb Ts ?segs2) @ post"
    using Cons.prems(1,3,4,5) d o segs by (intro Cons.IH) (auto simp: tables_wf_def segs_ok_def)
  then show ?case using b
    unfolding tp by (simp add: Let_def o len segs(1,2) cell_sums_append)
qed


lemma cpu_tag_batches_correct:
  assumes "\<forall>r \<in> set T. length r = n + 4" "\<forall>seg \<in> set segs. \<forall>i \<in> set seg. unat i < length T"
    "segs = segments (take k (drop l lens)) (drop p inds)" "l + k \<le> length lens"
    "p + sum_list (take k (drop l lens)) \<le> length inds" "length old = k * n" "length told = k * 4"
    "c = length pre + length old + length tpre"
  shows "cpu_tag_batches k add (tp @ concat T @ rest) (make_rowwise_view (length tp) e (n + 4) 0 4)
      (make_rowwise_view (length tp) e (n + 4) n 0) inds lens
      \<lparr>indices_pos = p, length_pos = l, table_pos = tpos, cpsum_it = row_it (length pre) n,
       ctag_it = row_it c 4, psum_array = pre @ old @ tpre @ told @ post\<rparr> =
    Inr \<lparr>indices_pos = p + sum_list (take k (drop l lens)), length_pos = l + k, table_pos = tpos,
       cpsum_it = row_it (length pre + k * n) n, ctag_it = row_it (c + k * 4) 4,
       psum_array = pre @ cell_sums add n (map (Pair T) segs) @ tpre @ cell_tags n (map (Pair T) segs) @ post\<rparr>"
  using assms(2-)
proof (induction k arbitrary: l p pre old tpre told segs c)
  case 0
  then show ?case by (simp add: cell_sums_def cell_tags_def)
next
  case (Suc k)
  obtain o1 o2 where o: "old = o1 @ o2" "length o1 = n" "length o2 = k * n"
    using split_front [of n old] Suc.prems(5) by auto
  obtain t1 t2 where t: "told = t1 @ t2" "length t1 = 4" "length t2 = k * 4"
    using split_front [of 4 told] Suc.prems(6) by auto
  have l: "l < length lens" using Suc.prems(3) by simp
  then have d: "take (Suc k) (drop l lens) = lens ! l # take k (drop (Suc l) lens)"
    by (metis Cons_nth_drop_Suc take_Suc_Cons)
  let ?seg = "take (lens ! l) (drop p inds)"
  let ?segs = "segments (take k (drop (Suc l) lens)) (drop (p + lens ! l) inds)"
  let ?tab = "tp @ concat T @ rest"
  let ?table = "make_rowwise_view (length tp) e (n + 4) 0 4" and ?tags = "make_rowwise_view (length tp) e (n + 4) n 0"
  let ?s = "sls_sum add n T ?seg" and ?t = "tag_elems (tag_sum n T ?seg)"
  have segs: "segs = ?seg # ?segs" using Suc.prems(2) d by (simp add: add.commute)
  have iv: "view_elems inds (make_view p (p + lens ! l)) = Inr ?seg"
    using Suc.prems(4) d by (simp add: view_elems_def)
  have rng: "\<forall>i \<in> set ?seg. unat i < length T" using Suc.prems(1) segs by simp
  have c: "cpu_common add ?tab ?table ?seg (make_view (length pre) (length pre + n))
      (pre @ o1 @ (o2 @ tpre @ told @ post)) = Inr (pre @ ?s @ (o2 @ tpre @ told @ post))"
    using rng assms(1) o by (intro cpu_common_correct) auto
  have len: "length ?s = n" using rng assms(1) by (intro length_sls_sum) auto
  have g: "cpu_on_tag ?tab ?tags ?seg (make_view c (c + 4)) ((pre @ ?s @ o2 @ tpre) @ t1 @ (t2 @ post)) =
      Inr ((pre @ ?s @ o2 @ tpre) @ ?t @ (t2 @ post))"
    using rng assms(1) t o len Suc.prems(7) by (intro cpu_on_tag_correct) auto
  have IH: "cpu_tag_batches k add ?tab ?table ?tags inds lens
      \<lparr>indices_pos = p + lens ! l, length_pos = Suc l, table_pos = tpos,
       cpsum_it = row_it (length (pre @ ?s)) n, ctag_it = row_it (c + 4) 4,
       psum_array = (pre @ ?s) @ o2 @ (tpre @ ?t) @ t2 @ post\<rparr> =
    Inr \<lparr>indices_pos = p + lens ! l + sum_list (take k (drop (Suc l) lens)), length_pos = Suc l + k, table_pos = tpos,
       cpsum_it = row_it (length (pre @ ?s) + k * n) n, ctag_it = row_it (c + 4 + k * 4) 4,
       psum_array = (pre @ ?s) @ cell_sums add n (map (Pair T) ?segs) @ (tpre @ ?t) @ cell_tags n (map (Pair T) ?segs) @ post\<rparr>"
    using Suc.prems segs d o t len by (intro Suc.IH) auto
  then show ?case using l iv c len o t g
    by (simp add: d segs cell_sums_def cell_tags_def add.assoc Let_def)
qed

lemma cpu_tag_tables_correct:
  assumes "tables_wf (n + 4) Ts" "segs = segments (take (mb * length Ts) (drop l lens)) (drop p inds)"
    "l + mb * length Ts \<le> length lens" "p + sum_list (take (mb * length Ts) (drop l lens)) \<le> length inds"
    "segs_ok (per_table mb Ts segs)" "length old = mb * length Ts * n" "length told = mb * length Ts * 4"
    "c = length pre + length old + length tpre"
  shows "\<exists>s. cpu_tag_tables (map length Ts) n mb add (tp @ concat (map concat Ts) @ rest) inds lens
      \<lparr>indices_pos = p, length_pos = l, table_pos = length tp, cpsum_it = row_it (length pre) n, ctag_it = row_it c 4,
       psum_array = pre @ old @ tpre @ told @ post\<rparr> = Inr s \<and>
    psum_array s = pre @ cell_sums add n (per_table mb Ts segs) @ tpre @ cell_tags n (per_table mb Ts segs) @ post"
  using assms
proof (induction Ts arbitrary: l p pre old tpre told segs tp c)
  case Nil
  then show ?case by (simp add: cell_sums_def cell_tags_def)
next
  case (Cons T Ts)
  let ?a = "take mb (drop l lens)" and ?b = "take (mb * length Ts) (drop (l + mb) lens)"
  have d: "take (mb * length (T # Ts)) (drop l lens) = ?a @ ?b"
    by (simp add: take_add add.commute)
  have la: "length ?a = mb" using Cons.prems(3) by simp
  let ?segs1 = "segments ?a (drop p inds)" and ?segs2 = "segments ?b (drop (p + sum_list ?a) inds)"
  have segs: "take mb segs = ?segs1" "drop mb segs = ?segs2" "segs = ?segs1 @ ?segs2"
    using Cons.prems(2) la unfolding d segments_append by (simp_all add: add.commute)
  obtain o1 o2 where o: "old = o1 @ o2" "length o1 = mb * n" "length o2 = mb * length Ts * n"
    using split_front [of "mb * n" old] Cons.prems(6) by (auto simp: algebra_simps)
  obtain t1 t2 where t: "told = t1 @ t2" "length t1 = mb * 4" "length t2 = mb * length Ts * 4"
    using split_front [of "mb * 4" told] Cons.prems(7) by (auto simp: algebra_simps)
  have T: "\<forall>r \<in> set T. length r = n + 4" "\<forall>seg \<in> set ?segs1. \<forall>i \<in> set seg. unat i < length T"
    using Cons.prems(1,5) segs(1) by (auto simp: tables_wf_def segs_ok_def)
  let ?S = "cell_sums add n (map (Pair T) ?segs1)" and ?G = "cell_tags n (map (Pair T) ?segs1)"
  have b: "cpu_tag_batches mb add (tp @ concat T @ (concat (map concat Ts) @ rest)) (make_rowwise_view (length tp) e (n + 4) 0 4)
      (make_rowwise_view (length tp) e (n + 4) n 0) inds lens
      \<lparr>indices_pos = p, length_pos = l, table_pos = length tp, cpsum_it = row_it (length pre) n, ctag_it = row_it c 4,
       psum_array = pre @ o1 @ (o2 @ tpre) @ t1 @ (t2 @ post)\<rparr> =
    Inr \<lparr>indices_pos = p + sum_list ?a, length_pos = l + mb, table_pos = length tp,
       cpsum_it = row_it (length pre + mb * n) n, ctag_it = row_it (c + mb * 4) 4,
       psum_array = pre @ ?S @ (o2 @ tpre) @ ?G @ (t2 @ post)\<rparr>" for e
    using Cons.prems(3,4,8) d o t T by (intro cpu_tag_batches_correct) auto
  have len: "length ?S = mb * n" "length ?G = mb * 4"
    using T la by (subst length_cell_sums [where w = "n + 4"], auto) (simp add: length_cell_tags)
  have tp: "length (tp @ concat T) = length tp + length T * (n + 4)"
    using length_concat_eq [OF T(1)] by (simp only: length_append mult.commute)
  have "\<exists>s. cpu_tag_tables (map length Ts) n mb add ((tp @ concat T) @ concat (map concat Ts) @ rest) inds lens
      \<lparr>indices_pos = p + sum_list ?a, length_pos = l + mb, table_pos = length (tp @ concat T),
       cpsum_it = row_it (length (pre @ ?S)) n, ctag_it = row_it (c + mb * 4) 4,
       psum_array = (pre @ ?S) @ o2 @ (tpre @ ?G) @ t2 @ post\<rparr> = Inr s \<and>
    psum_array s = (pre @ ?S) @ cell_sums add n (per_table mb Ts ?segs2) @ (tpre @ ?G) @ cell_tags n (per_table mb Ts ?segs2) @ post"
    using Cons.prems(1,3,4,5,8) d o t segs len by (intro Cons.IH) (auto simp: tables_wf_def segs_ok_def)
  then show ?case using b
    unfolding tp by (simp add: Let_def o t len segs(1,2) cell_sums_append cell_tags_append single_tag_size_def)
qed

lemma cpu_compute_correct:
  assumes "tables_wf n tables" "length lens = mb * length tables" "sum_list lens \<le> length inds"
    "segs_ok (per_table mb tables (segments lens inds))" "mb * length tables * n \<le> length ps"
  shows "cpu_compute add (concat (map concat tables)) (map length tables) inds lens n mb ps =
    Inr (cell_sums add n (per_table mb tables (segments lens inds)) @ drop (mb * length tables * n) ps)"
proof -
  obtain old post where ps: "ps = old @ post" "length old = mb * length tables * n"
    using split_front [OF assms(5)] by blast
  have "\<exists>s. cpu_tables (map length tables) n mb add ([] @ concat (map concat tables) @ []) inds lens
      \<lparr>indices_pos = 0, length_pos = 0, table_pos = length ([] :: u32 list), cpsum_it = row_it (length ([] :: u32 list)) n,
       ctag_it = row_it 0 n, psum_array = [] @ old @ post\<rparr> = Inr s \<and>
    psum_array s = [] @ cell_sums add n (per_table mb tables (segments lens inds)) @ post"
    by (rule cpu_tables_correct) (use assms(1-4) ps in simp_all)
  then show ?thesis
    by (auto simp: cpu_compute_def Let_def rw_begin_it_make ps)
qed

lemma cpu_compute_with_tag_correct:
  assumes "tables_wf (n + 4) tables" "length lens = mb * length tables" "sum_list lens \<le> length inds"
    "segs_ok (per_table mb tables (segments lens inds))" "length ps = mb * length tables * (n + 4)"
  shows "cpu_compute_with_tag add (concat (map concat tables)) (map length tables) inds lens n mb ps =
    Inr (cell_sums add n (per_table mb tables (segments lens inds)) @ cell_tags n (per_table mb tables (segments lens inds)))"
proof -
  have "mb * length tables * n \<le> length ps" using assms(5) by simp
  then obtain old told where ps: "ps = old @ told" "length old = mb * length tables * n"
    using split_front by blast
  then have told: "length told = mb * length tables * 4" using assms(5) by (simp add: algebra_simps)
  let ?c = "mb * length tables * n"
  have "\<exists>s. cpu_tag_tables (map length tables) n mb add ([] @ concat (map concat tables) @ []) inds lens
      \<lparr>indices_pos = 0, length_pos = 0, table_pos = length ([] :: u32 list), cpsum_it = row_it (length ([] :: u32 list)) n, ctag_it = row_it ?c 4,
       psum_array = [] @ old @ [] @ told @ []\<rparr> = Inr s \<and>
    psum_array s = [] @ cell_sums add n (per_table mb tables (segments lens inds)) @ [] @
      cell_tags n (per_table mb tables (segments lens inds)) @ []"
    by (rule cpu_tag_tables_correct) (use assms(1-4) ps told in simp_all)
  then show ?thesis
    by (auto simp: cpu_compute_with_tag_def Let_def rw_begin_it_make ps single_tag_size_def)
qed

section \<open>Properties\<close>

text \<open>
  The host reduction writes, table by table and batch by batch, the sum of the rows that the
  batch's indices name, started at zero and added in index order, and leaves the rest of the
  output array alone.
\<close>
theorem cpu_compute_sums:
  assumes "tables_wf n tables" "length lens = mb * length tables" "sum_list lens \<le> length inds"
    "segs_ok (per_table mb tables (segments lens inds))" "mb * length tables * n \<le> length ps"
  shows "cpu_compute add (concat (map concat tables)) (map length tables) inds lens n mb ps =
    Inr (concat (map (\<lambda>(t, seg). sls_sum add n t seg) (per_table mb tables (segments lens inds))) @
      drop (mb * length tables * n) ps)"
  using cpu_compute_correct [OF assms] by (simp add: cell_sums_def)

theorem cpu_compute_sums_witness:
  "cpu_compute (+) [1, 2, 3, 4] [2] [1, 0, 1] [2, 1] 2 2 [9, 9, 9, 9, 9] = Inr [4, 6, 3, 4, 9]"
  using cpu_compute_sums [of 2 "[[[1, 2], [3, 4]]]" "[2, 1]" 2 "[1, 0, 1]" "[9, 9, 9, 9, 9]" "(+)"]
  by (simp add: tables_wf_def segs_ok_def sls_sum_def numeral_2_eq_2)

text \<open>
  With tags the host reduction additionally writes, after all sums, the sum modulo
  \<open>2 ^ 128\<close> of the tags of every batch's rows.
\<close>
theorem cpu_compute_with_tag_sums:
  assumes "tables_wf (n + 4) tables" "length lens = mb * length tables" "sum_list lens \<le> length inds"
    "segs_ok (per_table mb tables (segments lens inds))" "length ps = mb * length tables * (n + 4)"
  shows "cpu_compute_with_tag add (concat (map concat tables)) (map length tables) inds lens n mb ps =
    Inr (concat (map (\<lambda>(t, seg). sls_sum add n t seg) (per_table mb tables (segments lens inds))) @
      concat (map (\<lambda>(t, seg). tag_elems (tag_sum n t seg)) (per_table mb tables (segments lens inds))))"
  using cpu_compute_with_tag_correct [OF assms] by (simp add: cell_sums_def cell_tags_def)

theorem cpu_compute_with_tag_sums_witness:
  "cpu_compute_with_tag (+) [1, 5, 0, 0, 0, 3, 7, 0, 0, 0] [2] [1, 0] [2] 1 1 [9, 9, 9, 9, 9] =
     Inr (4 # tag_elems (tag_of [7, 0, 0, 0] + tag_of [5, 0, 0, 0]))"
  using cpu_compute_with_tag_sums [of 1 "[[[1, 5, 0, 0, 0], [3, 7, 0, 0, 0]]]" "[2]" 1 "[1, 0]" "[9, 9, 9, 9, 9]" "(+)"]
  by (simp add: tables_wf_def segs_ok_def sls_sum_def tag_sum_def numeral_2_eq_2)

end
