(* ===== verification/Sparse_Reduction.thy ===== *)
theory Sparse_Reduction
  imports Trace_Generator
begin

text \<open>
  The sparse reduction of an SLS request: the request (\<open>include/pnmlib/sls/operation.h\<close>), the
  positions of the lengths, indices, sums and tags of every chunk (\<open>sls/operation/packs_data.cpp\<close>)
  and the operation that the runners execute (\<open>sls/operation/internal.h\<close>). Pointers into the arrays of the request are
  positions; the user's output buffer is a list of bytes.
\<close>

section \<open>The request\<close>

datatype op_type = Float | Uint32 | Uint32Tagged

definition op_code :: "op_type \<Rightarrow> u32" where
  "op_code t = (case t of Float \<Rightarrow> 0 | Uint32 \<Rightarrow> 2 | Uint32Tagged \<Rightarrow> 3)"

record SlsOperation =
  sparse_feature_size :: nat
  tables_sizes :: "nat list"
  minibatch_size :: nat
  lengths :: "nat list"
  indices :: "u32 list"
  tables_objects :: "MemoryObject list list"
  sls_type :: op_type

section \<open>Positions of the chunks\<close>

text \<open>
  \<open>std::accumulate\<close> with the initial value \<open>0\<close>: the sum is an \<open>int\<close>, converted to 64 bits with its
  sign when it is added to a pointer or to the running offset.
\<close>

definition accumulate_int :: "nat list \<Rightarrow> u32" where
  "accumulate_int ls = fold (\<lambda>l a. a + of_nat l) ls 0"

definition offset_of_int :: "u32 \<Rightarrow> u64" where
  "offset_of_int a = scast a"

text \<open>For every table the position of its first index and of its first length.\<close>

primrec init_tables_indexing_data :: "nat \<Rightarrow> nat \<Rightarrow> nat list \<Rightarrow> u64 \<Rightarrow> nat \<Rightarrow> (u64 \<times> nat) list result" where
  "init_tables_indexing_data 0 mb ls index_offset off = Inr []"
| "init_tables_indexing_data (Suc k) mb ls index_offset off =
     (if off + mb \<le> length ls then
        bind_r (init_tables_indexing_data k mb ls
            (index_offset + offset_of_int (accumulate_int (take mb (drop off ls)))) (off + mb))
          (\<lambda>rest. Inr ((index_offset, off) # rest))
      else Inl Undefined)"

record table_addrs =
  index_addr :: nat
  length_addr :: nat
  psum_addr :: nat
  tags_addr :: nat

definition is_tagged :: "SlsOperation \<Rightarrow> bool" where
  "is_tagged op \<longleftrightarrow> sls_type op = Uint32Tagged"

definition fill_table_data :: "Constants \<Rightarrow> SlsOperation \<Rightarrow> (u64 \<times> nat) list \<Rightarrow> TableData \<Rightarrow> table_addrs result" where
  "fill_table_data topo op offs td =
     (case batch_offset td of None \<Rightarrow> Inl Undefined
      | Some b \<Rightarrow>
          if table_id td < length offs \<and> snd (offs ! table_id td) + b \<le> length (lengths op) then
            let (ix, lx) = offs ! table_id td; sp = sparse_feature_size op * DataSize topo;
                data_size = minibatch_size op * sp in
            Inr \<lparr>index_addr = unat (ix + offset_of_int (accumulate_int (take b (drop lx (lengths op))))),
                 length_addr = lx + b,
                 psum_addr = table_id td * data_size + b * sp,
                 tags_addr = (if is_tagged op
                   then length (lengths op) * sp + table_id td * (minibatch_size op * 16) + b * 16 else 0)\<rparr>
          else Inl Undefined)"

definition fill_packs_data :: "Constants \<Rightarrow> SlsOperation \<Rightarrow> ExecutionGenerator \<Rightarrow> table_addrs list list list result" where
  "fill_packs_data topo op g =
     bind_r (init_tables_indexing_data (length (tables_sizes op)) (minibatch_size op) (lengths op) 0 0)
       (\<lambda>offs. map_r (\<lambda>pack. if pack = 0 then Inr []
          else map_r (\<lambda>e. map_r (fill_table_data topo op offs) (tables_data e)) (get_pack_execs g pack))
        [0..<num_of_pack topo])"

section \<open>The operation\<close>

definition choose_optimal_buf_divider :: "nat list \<Rightarrow> nat" where
  "choose_optimal_buf_divider ls =
     (let inst_count = sint (accumulate_int ls) in
      if inst_count < 1500 then 65
      else if inst_count < 5000 then 38
      else if inst_count < 10000 then 32
      else if inst_count < 50000 then 16
      else if inst_count < 140000 then 8
      else if inst_count < 600000 then 4
      else 2)"

text \<open>
  The variable \<open>SLS_BUF_DIVIDER\<close> of the environment, when it is set: whether its value is below
  one, and the truncated quotient of a size by it. The default dividers are whole numbers, by which
  a size below \<open>2 ^ 52\<close> is divided exactly in floating point.
\<close>

type_synonym env_divider = "(bool \<times> (nat \<Rightarrow> nat)) option"

definition set_instr_buffer_size :: "env_divider \<Rightarrow> nat list \<Rightarrow> nat \<Rightarrow> nat result" where
  "set_instr_buffer_size env ls max_inst =
     bind_r (case env of None \<Rightarrow> Inr (max_inst div choose_optimal_buf_divider ls)
             | Some (below_one, quot) \<Rightarrow> if below_one then Inl StdException else Inr (quot max_inst))
       (\<lambda>n. if ls = [] then Inl Undefined else Inr (max (fold max ls 0) n))"

definition get_sparse_ft_data_nb :: "Constants \<Rightarrow> SlsOperation \<Rightarrow> nat" where
  "get_sparse_ft_data_nb topo op = (sparse_feature_size op * DataSize topo) mod 2 ^ 32"

definition get_sparse_ft_tag_nb :: "SlsOperation \<Rightarrow> nat" where
  "get_sparse_ft_tag_nb op = (if is_tagged op then 16 else 0)"

definition init_exec_gen :: "env_divider \<Rightarrow> Constants \<Rightarrow> SlsOperation \<Rightarrow> ExecutionGenerator result" where
  "init_exec_gen env topo op =
     (let nb = get_sparse_ft_data_nb topo op in
      if nb = 0 then Inl Undefined
      else bind_r (set_instr_buffer_size env (lengths op) (inst_per_single_buf_no_header topo)) (\<lambda>max_inst.
           bind_r (packs_array topo (tables_objects op)) (\<lambda>packs.
             generate topo
               (gen_init (ExecutionGenerator_default topo) packs max_inst (psum_single_buf_size topo div nb) nb)
               (minibatch_size op) (length (tables_sizes op)) (lengths op))))"

definition max_object :: "nat list \<Rightarrow> MemoryObject list \<Rightarrow> MemoryObject" where
  "max_object sizes objs =
     fold (\<lambda>ob m. if sizes ! object_id m < sizes ! object_id ob then ob else m) (tl objs) (hd objs)"

definition init_pack_trace_gen :: "Constants \<Rightarrow> SlsOperation \<Rightarrow> MemoryObject list \<Rightarrow> TraceGenerator option result" where
  "init_pack_trace_gen topo op objs =
     (if objs = [] then Inr None
      else if \<exists>ob \<in> set objs. length (tables_sizes op) \<le> object_id ob then Inl Undefined
      else Inr (Some (trace_init topo (of_nat (get_sparse_ft_data_nb topo op))
             (of_nat (tables_sizes op ! object_id (max_object (tables_sizes op) objs))) (is_tagged op))))"

definition init_trace_gen :: "Constants \<Rightarrow> SlsOperation \<Rightarrow> TraceGenerator option list result" where
  "init_trace_gen topo op =
     map_r (\<lambda>pack. if pack = 0 then Inr None else init_pack_trace_gen topo op (tables_objects op ! pack))
       [0..<num_of_pack topo]"

record SparseReduction =
  sls_op :: SlsOperation
  exec_gen :: ExecutionGenerator
  trace_gen :: "TraceGenerator option list"
  packs_data :: "table_addrs list list list"

definition SparseReduction_make :: "env_divider \<Rightarrow> Constants \<Rightarrow> SlsOperation \<Rightarrow> SparseReduction result" where
  "SparseReduction_make env topo op =
     bind_r (init_exec_gen env topo op) (\<lambda>g.
     bind_r (init_trace_gen topo op) (\<lambda>tg.
     bind_r (fill_packs_data topo op g) (\<lambda>pd.
       Inr \<lparr>sls_op = op, exec_gen = g, trace_gen = tg, packs_data = pd\<rparr>)))"

definition get_num_exec_iterations :: "SparseReduction \<Rightarrow> nat \<Rightarrow> nat" where
  "get_num_exec_iterations sr pack = length (get_pack_execs (exec_gen sr) pack)"

definition get_num_outputs :: "SparseReduction \<Rightarrow> nat" where
  "get_num_outputs sr = (if is_tagged (sls_op sr) then 2 else 1)"

definition get_tmp_buffer_size :: "SparseReduction \<Rightarrow> nat \<Rightarrow> nat \<Rightarrow> nat result" where
  "get_tmp_buffer_size sr pack exec_no =
     (if exec_no < get_num_exec_iterations sr pack
      then Inr (psum_size (get_pack_execs (exec_gen sr) pack ! exec_no)) else Inl Undefined)"

text \<open>The lengths and indices of a chunk are the suffixes of the arrays at the chunk's positions.\<close>

definition op_generate_instructions ::
  "(u64 \<Rightarrow> DecodedInst \<Rightarrow> DecodedInst result) \<Rightarrow> SparseReduction \<Rightarrow> nat \<Rightarrow> nat \<Rightarrow> nat \<Rightarrow> u64 list result" where
  "op_generate_instructions dec sr pack compute_unit exec_no =
     assert_r (exec_no < get_num_exec_iterations sr pack)
      (if pack < length (trace_gen sr) \<and> pack < length (packs_data sr) \<and> exec_no < length (packs_data sr ! pack) then
         case trace_gen sr ! pack of None \<Rightarrow> Inl Undefined
         | Some tg \<Rightarrow>
             let op = sls_op sr; addrs = packs_data sr ! pack ! exec_no in
             generate_instructions dec tg (get_pack_execs (exec_gen sr) pack ! exec_no)
               (map (\<lambda>a. drop (length_addr a) (lengths op)) addrs) (map (\<lambda>a. drop (index_addr a) (indices op)) addrs)
               (op_code (sls_type op)) compute_unit (tables_objects op ! pack) (is_tagged op)
       else Inl Undefined)"

text \<open>Copying the chunks of an execution from the intermediate buffer to the user's buffer.\<close>

primrec write_chunks :: "TableData list \<Rightarrow> nat list \<Rightarrow> nat \<Rightarrow> u8 list \<Rightarrow> nat \<Rightarrow> u8 list \<Rightarrow> u8 list result" where
  "write_chunks [] dst sz src off out = Inr out"
| "write_chunks (td # tds) dst sz src off out =
     (let n = table_batches_chunk td * sz in
      case dst of [] \<Rightarrow> Inl Undefined
      | d # ds \<Rightarrow>
          if off + n \<le> length src \<and> d + n \<le> length out
          then write_chunks tds ds sz src (off + n) (take d out @ take n (drop off src) @ drop (d + n) out)
          else Inl Undefined)"

definition write_result :: "Constants \<Rightarrow> SparseReduction \<Rightarrow> nat \<Rightarrow> nat \<Rightarrow> nat \<Rightarrow> u8 list \<Rightarrow> u8 list \<Rightarrow> u8 list result" where
  "write_result topo sr output_no pack exec_no src out =
     (if exec_no < get_num_exec_iterations sr pack \<and> pack < length (packs_data sr) \<and> exec_no < length (packs_data sr ! pack) then
        let tds = tables_data (get_pack_execs (exec_gen sr) pack ! exec_no); addrs = packs_data sr ! pack ! exec_no in
        if output_no = 0 then write_chunks tds (map psum_addr addrs) (get_sparse_ft_data_nb topo (sls_op sr)) src 0 out
        else if output_no = 1 then
          if is_tagged (sls_op sr) then write_chunks tds (map tags_addr addrs) (get_sparse_ft_tag_nb (sls_op sr)) src 0 out
          else Inl Undefined
        else Inl (Throw NotSupported)
      else Inl Undefined)"

section \<open>Specification\<close>

text \<open>
  A well-formed request (\<open>op_ok\<close>), a committed chunk of it (\<open>td_ok\<close>), the number of the chunk's first
  (table, batch) pair in table-major order (\<open>td_slot\<close>), and the positions that belong to it.
\<close>

definition td_ok :: "SlsOperation \<Rightarrow> TableData \<Rightarrow> bool" where
  "td_ok op td \<longleftrightarrow> (\<exists>b. batch_offset td = Some b \<and> b + table_batches_chunk td \<le> minibatch_size op \<and>
     table_id td < length (tables_sizes op))"

definition td_slot :: "SlsOperation \<Rightarrow> TableData \<Rightarrow> nat" where
  "td_slot op td = table_id td * minibatch_size op + the (batch_offset td)"

definition op_ok :: "SlsOperation \<Rightarrow> bool" where
  "op_ok op \<longleftrightarrow> length (lengths op) = length (tables_sizes op) * minibatch_size op \<and>
     sum_list (lengths op) < 2 ^ 31 \<and> sum_list (lengths op) \<le> length (indices op)"

definition addrs_of :: "Constants \<Rightarrow> SlsOperation \<Rightarrow> TableData \<Rightarrow> table_addrs" where
  "addrs_of topo op td = (let s = td_slot op td; sp = sparse_feature_size op * DataSize topo in
     \<lparr>index_addr = sum_list (take s (lengths op)), length_addr = s, psum_addr = s * sp,
      tags_addr = (if is_tagged op then length (lengths op) * sp + s * 16 else 0)\<rparr>)"

definition req_ok :: "Constants \<Rightarrow> SlsOperation \<Rightarrow> bool" where
  "req_ok topo op \<longleftrightarrow> topo_ok topo \<and> op_ok op \<and> layout_ok topo (length (tables_sizes op)) (tables_objects op) \<and>
     0 < minibatch_size op \<and> tables_sizes op \<noteq> [] \<and> (\<forall>l \<in> set (lengths op). 0 < l) \<and>
     0 < sparse_feature_size op \<and> sparse_feature_size op * DataSize topo < 2 ^ 32 \<and>
     sparse_feature_size op * DataSize topo \<le> psum_single_buf_size topo"

definition instr_limit :: "Constants \<Rightarrow> nat list \<Rightarrow> nat" where
  "instr_limit topo ls = max (fold max ls 0) (inst_per_single_buf_no_header topo div choose_optimal_buf_divider ls)"

definition pack_trace_gen :: "Constants \<Rightarrow> SlsOperation \<Rightarrow> nat \<Rightarrow> TraceGenerator" where
  "pack_trace_gen topo op p = trace_init topo (of_nat (sparse_feature_size op * DataSize topo))
     (of_nat (tables_sizes op ! object_id (max_object (tables_sizes op) (tables_objects op ! p)))) (is_tagged op)"

definition td_slots :: "SlsOperation \<Rightarrow> TableData \<Rightarrow> nat list" where
  "td_slots op td = [td_slot op td..<td_slot op td + table_batches_chunk td]"

definition small_op :: SlsOperation where
  "small_op = \<lparr>sparse_feature_size = 16, tables_sizes = [10], minibatch_size = 2, lengths = [1, 2],
     indices = [3, 1, 0], tables_objects = [[], [small_object]], sls_type = Uint32\<rparr>"

section \<open>Lemmas on positions\<close>

lemma fold_add_of_nat: "fold (\<lambda>l a. a + of_nat l) ls (a :: u32) = a + of_nat (sum_list ls)"
  by (induction ls arbitrary: a) (simp_all add: add.assoc)

lemma scast_of_nat: "n < 2 ^ 31 \<Longrightarrow> (scast (of_nat n :: u32) :: u64) = of_nat n"
proof -
  assume n: "n < 2 ^ 31"
  then have i: "int n < 2 ^ 31" using of_nat_less_iff [of n "2 ^ 31", where 'a = int] by simp
  have "signed_take_bit 31 (int n) = int n" using i by (intro signed_take_bit_int_eq_self) simp_all
  then have "sint (of_nat n :: u32) = int n"
    by (simp add: sint_sbintrunc' signed_of_nat)
  then show ?thesis by (simp add: scast_eq)
qed

lemma offset_accumulate:
  "sum_list ls < 2 ^ 31 \<Longrightarrow> offset_of_int (accumulate_int ls) = of_nat (sum_list ls)"
  by (simp add: offset_of_int_def accumulate_int_def fold_add_of_nat scast_of_nat)

lemma sum_list_take_le: "sum_list (take n ls) \<le> sum_list (ls :: nat list)"
  by (metis append_take_drop_id le_add1 sum_list_append)

lemma sum_list_drop_le: "sum_list (drop n ls) \<le> sum_list (ls :: nat list)"
  by (metis append_take_drop_id le_add2 sum_list_append)

lemma init_tables_indexing_correct:
  assumes "off + k * mb \<le> length ls" "sum_list ls < 2 ^ 31" "ix = of_nat (sum_list (take off ls))"
  shows "init_tables_indexing_data k mb ls ix off =
    Inr (map (\<lambda>t. (of_nat (sum_list (take (off + t * mb) ls)), off + t * mb)) [0..<k])"
  using assms
proof (induction k arbitrary: ix off)
  case (Suc k)
  have "sum_list (take mb (drop off ls)) < 2 ^ 31"
    using sum_list_take_le [of mb "drop off ls"] sum_list_drop_le [of off ls] Suc.prems(2) by linarith
  then have "ix + offset_of_int (accumulate_int (take mb (drop off ls))) = of_nat (sum_list (take (off + mb) ls))"
    using Suc.prems(3) by (simp add: offset_accumulate take_add)
  then have "init_tables_indexing_data k mb ls (ix + offset_of_int (accumulate_int (take mb (drop off ls)))) (off + mb) =
      Inr (map (\<lambda>t. (of_nat (sum_list (take (off + mb + t * mb) ls)), off + mb + t * mb)) [0..<k])"
    using Suc.prems by (intro Suc.IH) simp_all
  then show ?case using Suc.prems(1,3)
    by (simp add: upt_conv_Cons [of 0 "Suc k"] map_Suc_upt [symmetric] add.assoc comp_def del: upt_Suc)
qed simp

lemma td_slot_le: "td_ok op td \<Longrightarrow> op_ok op \<Longrightarrow> td_slot op td + table_batches_chunk td \<le> length (lengths op)"
proof -
  assume a: "td_ok op td" "op_ok op"
  then obtain b where b: "batch_offset td = Some b" "b + table_batches_chunk td \<le> minibatch_size op"
    "table_id td < length (tables_sizes op)" by (auto simp: td_ok_def)
  have "Suc (table_id td) * minibatch_size op \<le> length (tables_sizes op) * minibatch_size op"
    using b(3) by (intro mult_right_mono) simp_all
  then show ?thesis using a(2) b by (simp add: td_slot_def op_ok_def)
qed

lemma fill_table_data_correct:
  assumes "op_ok op" "td_ok op td"
    "offs = map (\<lambda>t. (of_nat (sum_list (take (t * minibatch_size op) (lengths op))), t * minibatch_size op)) [0..<length (tables_sizes op)]"
  shows "fill_table_data topo op offs td = Inr (addrs_of topo op td)"
proof -
  obtain b where b: "batch_offset td = Some b" "table_id td < length (tables_sizes op)"
    using assms(2) by (auto simp: td_ok_def)
  let ?m = "table_id td * minibatch_size op" and ?ls = "lengths op"
  have le: "?m + b \<le> length ?ls" using td_slot_le [OF assms(2,1)] b by (simp add: td_slot_def)
  have small: "sum_list (take n ?ls) < 2 ^ 31" for n
    using sum_list_take_le [of n ?ls] assms(1) by (simp add: op_ok_def)
  have "sum_list (take b (drop ?m ?ls)) \<le> sum_list (take (?m + b) ?ls)" by (simp add: take_add)
  then have "sum_list (take b (drop ?m ?ls)) < 2 ^ 31" using small [of "?m + b"] by linarith
  then have "of_nat (sum_list (take ?m ?ls)) + offset_of_int (accumulate_int (take b (drop ?m ?ls))) =
      (of_nat (sum_list (take (?m + b) ?ls)) :: u64)"
    by (simp add: offset_accumulate take_add)
  moreover have "unat (of_nat (sum_list (take (?m + b) ?ls)) :: u64) = sum_list (take (?m + b) ?ls)"
    using small [of "?m + b"] by (simp add: unat_of_nat take_bit_eq_mod)
  ultimately show ?thesis using b le assms(3)
    by (simp add: fill_table_data_def addrs_of_def Let_def td_slot_def algebra_simps)
qed

lemma map_r_map_r: "(\<And>x y. x \<in> set xs \<Longrightarrow> y \<in> set (f x) \<Longrightarrow> g y = Inr (h y)) \<Longrightarrow>
   map_r (\<lambda>x. map_r g (f x)) xs = Inr (map (\<lambda>x. map h (f x)) xs)"
  by (intro map_r_Inr) auto

lemma fill_packs_data_correct:
  assumes "op_ok op"
    "\<forall>p \<in> set (pack_identifiers topo). \<forall>e \<in> set (get_pack_execs g p). \<forall>td \<in> set (tables_data e). td_ok op td"
  shows "fill_packs_data topo op g = Inr (map (\<lambda>p. if p = 0 then []
      else map (\<lambda>e. map (addrs_of topo op) (tables_data e)) (get_pack_execs g p)) [0..<num_of_pack topo])"
proof -
  have "init_tables_indexing_data (length (tables_sizes op)) (minibatch_size op) (lengths op) 0 0 =
      Inr (map (\<lambda>t. (of_nat (sum_list (take (t * minibatch_size op) (lengths op))), t * minibatch_size op))
        [0..<length (tables_sizes op)])"
    using init_tables_indexing_correct [of 0 "length (tables_sizes op)" "minibatch_size op" "lengths op" 0] assms(1)
    by (simp add: op_ok_def)
  moreover have "map_r (\<lambda>p. if p = 0 then Inr []
          else map_r (\<lambda>e. map_r (fill_table_data topo op offs) (tables_data e)) (get_pack_execs g p)) [0..<num_of_pack topo] =
      Inr (map (\<lambda>p. if p = 0 then []
          else map (\<lambda>e. map (addrs_of topo op) (tables_data e)) (get_pack_execs g p)) [0..<num_of_pack topo])"
    if "offs = map (\<lambda>t. (of_nat (sum_list (take (t * minibatch_size op) (lengths op))), t * minibatch_size op)) [0..<length (tables_sizes op)]" for offs
    using assms that
    by (intro map_r_Inr) (auto simp: pack_id_less intro!: map_r_map_r fill_table_data_correct)
  ultimately show ?thesis by (simp add: fill_packs_data_def)
qed

section \<open>The constructed operation\<close>

lemma chunk_cells_in:
  assumes "td \<in> set (tables_data e)" "tds_wf (tables_data e)" "b = the (batch_offset td)" "k < table_batches_chunk td"
  shows "(table_id td, b + k) \<in> set (exec_cells e)"
proof -
  obtain y where "batch_offset td = Some y" using assms(1,2) by (auto simp: tds_wf_def)
  then show ?thesis using assms(1,3,4) by (auto simp: exec_cells_def chunk_cells_def intro!: bexI [of _ td])
qed

lemma exec_td_ok:
  assumes "e \<in> set execs" "tds_wf (tables_data e)" "td \<in> set (tables_data e)"
    "concat (map exec_cells execs) = table_cells (minibatch_size op) ids" "\<forall>t \<in> set ids. t < length (tables_sizes op)"
  shows "td_ok op td"
proof -
  obtain b n where b: "batch_offset td = Some b" "table_batches_chunk td = Suc n"
    using assms(2,3) by (cases "table_batches_chunk td") (auto simp: tds_wf_def)
  have "(table_id td, b + n) \<in> set (concat (map exec_cells execs))"
    using chunk_cells_in [OF assms(3,2), of b n] b assms(1) by auto
  then show ?thesis using assms(4,5) b by (auto simp: table_cells_def td_ok_def)
qed

lemma init_exec_gen_correct:
  assumes "req_ok topo op"
  shows "\<exists>g. init_exec_gen None topo op = Inr g \<and> length (exec_packs g) = num_of_pack topo \<and>
    (\<forall>p \<in> set (pack_identifiers topo).
      (\<forall>e \<in> set (get_pack_execs g p). (\<forall>td \<in> set (tables_data e). td_ok op td) \<and>
         exec_ok (lens_of (minibatch_size op) (lengths op))
           (gen_init (ExecutionGenerator_default topo) (tables_objects op) (instr_limit topo (lengths op))
             (psum_single_buf_size topo div (sparse_feature_size op * DataSize topo)) (sparse_feature_size op * DataSize topo)) e) \<and>
      concat (map exec_cells (get_pack_execs g p)) = table_cells (minibatch_size op) (map object_id (tables_objects op ! p)))"
proof -
  let ?nb = "sparse_feature_size op * DataSize topo" and ?mx = "instr_limit topo (lengths op)"
  let ?mf = "psum_single_buf_size topo div ?nb"
  have r: "topo_ok topo" "layout_ok topo (length (tables_sizes op)) (tables_objects op)" "0 < minibatch_size op"
    "0 < length (tables_sizes op)" "length (lengths op) = length (tables_sizes op) * minibatch_size op"
    "\<forall>l \<in> set (lengths op). 0 < l" "?nb < 2 ^ 32" "?nb \<le> psum_single_buf_size topo"
    using assms by (simp_all add: req_ok_def op_ok_def)
  have nb: "0 < ?nb" using assms by (simp add: req_ok_def topo_ok_def)
  have mf: "0 < ?mf" using r(8) nb by (simp add: div_greater_zero_iff)
  have ne: "lengths op \<noteq> []" using r(3,4,5) by (cases "lengths op") auto
  then have mx: "0 < ?mx" using r(6) fold_max_le [of "hd (lengths op)" "lengths op" 0]
    by (cases "lengths op") (auto simp: instr_limit_def less_max_iff_disj)
  have ls: "\<forall>l \<in> set (lengths op). 0 < l \<and> l \<le> ?mx"
    using r(6) fold_max_le by (fastforce simp: instr_limit_def le_max_iff_disj)
  obtain g where g: "generate topo (gen_init (ExecutionGenerator_default topo) (tables_objects op) ?mx ?mf ?nb)
      (minibatch_size op) (length (tables_sizes op)) (lengths op) = Inr g" "length (exec_packs g) = num_of_pack topo"
    and gp: "\<forall>p \<in> set (pack_identifiers topo).
      (\<forall>e \<in> set (get_pack_execs g p). exec_ok (lens_of (minibatch_size op) (lengths op))
         (gen_init (ExecutionGenerator_default topo) (tables_objects op) ?mx ?mf ?nb) e) \<and>
      concat (map exec_cells (get_pack_execs g p)) = table_cells (minibatch_size op) (map object_id (tables_objects op ! p))"
    using generate_correct [OF r(1,2) mx mf nb r(3,4,5) ls] by blast
  have "init_exec_gen None topo op = Inr g"
    using g(1) nb r(2,7) ne
    by (simp add: init_exec_gen_def Let_def get_sparse_ft_data_nb_def set_instr_buffer_size_def packs_array_def
        layout_ok_def instr_limit_def)
  moreover have "td_ok op td" if "p \<in> set (pack_identifiers topo)" "e \<in> set (get_pack_execs g p)" "td \<in> set (tables_data e)" for p e td
    using gp that r(2) by (intro exec_td_ok [of e "get_pack_execs g p" td op "map object_id (tables_objects op ! p)"])
      (auto simp: exec_ok_def layout_ok_def)
  ultimately show ?thesis using g(2) gp by blast
qed


lemma max_object_correct:
  assumes "objs \<noteq> []"
  shows "max_object szs objs \<in> set objs"
    "ob \<in> set objs \<Longrightarrow> szs ! object_id ob \<le> szs ! object_id (max_object szs objs)"
proof -
  let ?f = "\<lambda>ob m. if szs ! object_id m < szs ! object_id ob then ob else m"
  have "fold ?f xs m \<in> insert m (set xs) \<and>
      (\<forall>ob \<in> insert m (set xs). szs ! object_id ob \<le> szs ! object_id (fold ?f xs m))" for xs m
  proof (induction xs arbitrary: m)
    case (Cons x xs)
    show ?case using Cons [of "?f x m"] by (auto split: if_splits)
  qed simp
  from this [of "tl objs" "hd objs"] assms
  show "max_object szs objs \<in> set objs"
    "ob \<in> set objs \<Longrightarrow> szs ! object_id ob \<le> szs ! object_id (max_object szs objs)"
    by (cases objs; auto simp: max_object_def)+
qed

lemma init_trace_gen_correct:
  assumes "req_ok topo op"
  shows "init_trace_gen topo op = Inr (map (\<lambda>p. if p = 0 \<or> tables_objects op ! p = [] then None
     else Some (pack_trace_gen topo op p)) [0..<num_of_pack topo])"
proof -
  have "get_sparse_ft_data_nb topo op = sparse_feature_size op * DataSize topo"
    using assms by (simp add: get_sparse_ft_data_nb_def req_ok_def)
  moreover have "\<not> (\<exists>ob \<in> set (tables_objects op ! p). length (tables_sizes op) \<le> object_id ob)"
    if "p \<noteq> 0" "p < num_of_pack topo" for p
    using assms that by (auto simp: req_ok_def layout_ok_def pack_id_less not_le)
  ultimately show ?thesis unfolding init_trace_gen_def
    by (intro map_r_Inr) (simp add: init_pack_trace_gen_def pack_trace_gen_def)
qed

lemma SparseReduction_make_correct:
  assumes "req_ok topo op"
  shows "\<exists>sr. SparseReduction_make None topo op = Inr sr \<and> init_exec_gen None topo op = Inr (exec_gen sr) \<and> sls_op sr = op \<and>
    trace_gen sr = map (\<lambda>p. if p = 0 \<or> tables_objects op ! p = [] then None
     else Some (pack_trace_gen topo op p)) [0..<num_of_pack topo] \<and>
    packs_data sr = map (\<lambda>p. if p = 0 then []
      else map (\<lambda>e. map (addrs_of topo op) (tables_data e)) (get_pack_execs (exec_gen sr) p)) [0..<num_of_pack topo] \<and>
    (\<forall>p \<in> set (pack_identifiers topo).
      (\<forall>e \<in> set (get_pack_execs (exec_gen sr) p). (\<forall>td \<in> set (tables_data e). td_ok op td) \<and>
         exec_ok (lens_of (minibatch_size op) (lengths op))
           (gen_init (ExecutionGenerator_default topo) (tables_objects op) (instr_limit topo (lengths op))
             (psum_single_buf_size topo div (sparse_feature_size op * DataSize topo)) (sparse_feature_size op * DataSize topo)) e) \<and>
      concat (map exec_cells (get_pack_execs (exec_gen sr) p)) =
        table_cells (minibatch_size op) (map object_id (tables_objects op ! p)))"
proof -
  obtain g where g: "init_exec_gen None topo op = Inr g"
    "\<forall>p \<in> set (pack_identifiers topo).
      (\<forall>e \<in> set (get_pack_execs g p). (\<forall>td \<in> set (tables_data e). td_ok op td) \<and>
         exec_ok (lens_of (minibatch_size op) (lengths op))
           (gen_init (ExecutionGenerator_default topo) (tables_objects op) (instr_limit topo (lengths op))
             (psum_single_buf_size topo div (sparse_feature_size op * DataSize topo)) (sparse_feature_size op * DataSize topo)) e) \<and>
      concat (map exec_cells (get_pack_execs g p)) = table_cells (minibatch_size op) (map object_id (tables_objects op ! p))"
    using init_exec_gen_correct [OF assms] by blast
  have "fill_packs_data topo op g = Inr (map (\<lambda>p. if p = 0 then []
      else map (\<lambda>e. map (addrs_of topo op) (tables_data e)) (get_pack_execs g p)) [0..<num_of_pack topo])"
    using assms g(2) by (intro fill_packs_data_correct) (auto simp: req_ok_def)
  then show ?thesis using g init_trace_gen_correct [OF assms]
    by (simp add: SparseReduction_make_def)
qed

section \<open>Copying results\<close>

lemma length_slots: "(\<And>s. length (S s) = w) \<Longrightarrow> length (concat (map S xs)) = length xs * w"
  by (induction xs) auto

lemma upt_split: "i \<le> j \<Longrightarrow> j \<le> k \<Longrightarrow> [i..<k] = [i..<j] @ [j..<k]"
  by (metis le_add_diff_inverse upt_add_eq_append)

lemma slots_split: "k \<le> (n::nat) \<Longrightarrow> concat (map S [0..<n]) = concat (map S [0..<k]) @ concat (map S [k..<n])"
  by (simp add: upt_split [of 0 k n])

lemma slots_write:
  assumes "\<And>s. length (S s) = w" "\<And>s. length (G s) = w" "k + m \<le> n"
  shows "take (k * w) (concat (map S [0..<n])) @ concat (map G [k..<k + m]) @ drop (k * w + m * w) (concat (map S [0..<n])) =
    concat (map (\<lambda>s. if k \<le> s \<and> s < k + m then G s else S s) [0..<n])"
proof -
  let ?S = "\<lambda>s. if k \<le> s \<and> s < k + m then G s else S s"
  have len: "length (concat (map S [0..<j])) = j * w" for j using length_slots [of S w "[0..<j]"] assms(1) by simp
  have kn: "k \<le> n" using assms(3) by simp
  have t: "take (k * w) (concat (map S [0..<n])) = concat (map S [0..<k])"
    unfolding slots_split [OF kn] using len [of k] by simp
  have d: "drop (k * w + m * w) (concat (map S [0..<n])) = concat (map S [k + m..<n])"
    unfolding slots_split [OF assms(3)] using len [of "k + m"] by (simp add: add_mult_distrib)
  have "concat (map ?S [0..<n]) = concat (map ?S [0..<k]) @ concat (map ?S [k..<k + m]) @ concat (map ?S [k + m..<n])"
    using assms(3) by (simp add: upt_split [of 0 k n] upt_split [of k "k + m" n] del: map_append concat_append) (simp only: map_append concat_append)
  moreover have "map ?S [0..<k] = map S [0..<k]" "map ?S [k..<k + m] = map G [k..<k + m]" "map ?S [k + m..<n] = map S [k + m..<n]"
    by (auto intro: map_cong)
  ultimately show ?thesis by (simp only: t d)
qed

lemma write_chunks_correct:
  assumes "\<And>s. length (S s) = w" "\<And>s. length (G s) = w"
    "\<forall>td \<in> set tds. td_slot op td + table_batches_chunk td \<le> n"
  shows "write_chunks tds (map (\<lambda>td. td_slot op td * w) tds) w
      (pre @ concat (map G (concat (map (td_slots op) tds)))) (length pre) (concat (map S [0..<n])) =
    Inr (concat (map (\<lambda>s. if s \<in> set (concat (map (td_slots op) tds)) then G s else S s) [0..<n]))"
  using assms(1,3)
proof (induction tds arbitrary: S pre)
  case (Cons td tds)
  let ?k = "td_slot op td" and ?m = "table_batches_chunk td" and ?R = "concat (map G (concat (map (td_slots op) tds)))"
  let ?S = "\<lambda>s. if ?k \<le> s \<and> s < ?k + ?m then G s else S s" and ?c = "concat (map G [?k..<?k + ?m])"
  have lc: "length ?c = ?m * w" using length_slots [of G w "[?k..<?k + ?m]"] assms(2) by simp
  have ln: "length (concat (map S [0..<n])) = n * w" using length_slots [of S w "[0..<n]"] Cons.prems(1) by simp
  have le: "(?k + ?m) * w \<le> n * w" using Cons.prems(2) by (intro mult_right_mono) auto
  have wr: "take (?k * w) (concat (map S [0..<n])) @ ?c @ drop (?k * w + ?m * w) (concat (map S [0..<n])) = concat (map ?S [0..<n])"
    using Cons.prems by (intro slots_write assms(2)) auto
  have "write_chunks tds (map (\<lambda>td. td_slot op td * w) tds) w ((pre @ ?c) @ ?R) (length (pre @ ?c)) (concat (map ?S [0..<n])) =
      Inr (concat (map (\<lambda>s. if s \<in> set (concat (map (td_slots op) tds)) then G s else ?S s) [0..<n]))"
    using Cons.prems assms(2) by (intro Cons.IH) auto
  moreover have "(\<lambda>s. if s \<in> set (concat (map (td_slots op) tds)) then G s else ?S s) =
      (\<lambda>s. if s \<in> set (concat (map (td_slots op) (td # tds))) then G s else S s)"
    by (rule ext) (auto simp: td_slots_def)
  moreover have "write_chunks (td # tds) (map (\<lambda>td. td_slot op td * w) (td # tds)) w
      (pre @ concat (map G (concat (map (td_slots op) (td # tds))))) (length pre) (concat (map S [0..<n])) =
    write_chunks tds (map (\<lambda>td. td_slot op td * w) tds) w ((pre @ ?c) @ ?R) (length (pre @ ?c)) (concat (map ?S [0..<n]))"
    using le wr lc ln by (simp add: Let_def td_slots_def algebra_simps)
  ultimately show ?case by simp
qed simp

lemma exec_slots:
  "tds_wf tds \<Longrightarrow> concat (map (td_slots op) tds) =
     map (\<lambda>(t, b). t * minibatch_size op + b) (concat (map chunk_cells tds))"
proof (induction tds)
  case (Cons td tds)
  then obtain b where "batch_offset td = Some b" by (auto simp: tds_wf_def)
  moreover have "[s + b..<s + (b + m)] = map (\<lambda>x. s + (b + x)) [0..<m]" for s m :: nat
    by (rule nth_equalityI) simp_all
  ultimately show ?case using Cons
    by (auto simp: tds_wf_def td_slots_def td_slot_def chunk_cells_def comp_def add.assoc)
qed simp


lemma fold_max_bound: "(\<And>l. l \<in> set ls \<Longrightarrow> l \<le> n) \<Longrightarrow> a \<le> n \<Longrightarrow> fold max ls a \<le> (n::nat)"
  by (induction ls arbitrary: a) auto

lemma fits_iff:
  assumes "topo_ok topo" "InstructionSize topo dvd inst_single_buf_size topo"
  shows "(l + 1) * InstructionSize topo \<le> inst_single_buf_size topo \<longleftrightarrow> l \<le> inst_per_single_buf_no_header topo"
proof -
  obtain k where k: "inst_single_buf_size topo = InstructionSize topo * k" using assms(2) by blast
  then obtain k' where "k = Suc k'" using assms(1) by (cases k) (auto simp: topo_ok_def)
  then show ?thesis using assms(1) k
    by (simp add: inst_per_single_buf_no_header_def trace_header_size_def topo_ok_def mult.commute [of _ "InstructionSize topo"])
qed

lemma lengths_cell:
  assumes "op_ok op" "l \<in> set (lengths op)" "0 < minibatch_size op"
  shows "\<exists>t b. l = lens_of (minibatch_size op) (lengths op) (t, b) \<and> t < length (tables_sizes op) \<and> b < minibatch_size op"
proof -
  let ?mb = "minibatch_size op"
  obtain s where s: "s < length (lengths op)" "l = lengths op ! s" using assms(2) by (auto simp: in_set_conv_nth)
  have "s div ?mb < length (tables_sizes op)" using s(1) assms(1) by (simp add: op_ok_def less_mult_imp_div_less)
  then show ?thesis using s assms(3) by (intro exI [of _ "s div ?mb"] exI [of _ "s mod ?mb"]) (simp add: lens_of_def)
qed

lemma small_op_ok: "req_ok small_topo small_op"
  by (simp add: req_ok_def small_topo_ok small_op_def op_ok_def layout_ok_def small_object_def)
    (simp add: small_topo_def num_of_pack_def pack_identifiers_def psum_single_buf_size_def upt_rec)

lemma small_simps:
  "pack_identifiers small_topo = [1]" "InstructionSize small_topo = 8" "inst_single_buf_size small_topo = 64"
  "DataSize small_topo = 4" "tables_sizes small_op = [10]" "lengths small_op = [1, 2]" "minibatch_size small_op = 2"
  "tables_objects small_op = [[], [small_object]]" "object_id small_object = 0" "sparse_feature_size small_op = 16"
  by (simp_all add: small_topo_def small_op_def small_object_def pack_identifiers_def num_of_pack_def
      inst_single_buf_size_def upt_rec)

lemma small_reduction:
  "\<exists>sr. SparseReduction_make None small_topo small_op = Inr sr \<and> 0 < get_num_exec_iterations sr 1"
proof -
  obtain sr where "SparseReduction_make None small_topo small_op = Inr sr"
    "concat (map exec_cells (get_pack_execs (exec_gen sr) 1)) = table_cells 2 [0]"
    using SparseReduction_make_correct [OF small_op_ok] by (auto simp: small_simps)
  then show ?thesis by (cases "get_pack_execs (exec_gen sr) 1") (auto simp: table_cells_def get_num_exec_iterations_def)
qed

lemma write_result_slots:
  assumes "req_ok topo op" "SparseReduction_make None topo op = Inr sr" "p \<in> set (pack_identifiers topo)"
    "i < get_num_exec_iterations sr p" "e = get_pack_execs (exec_gen sr) p ! i" "nb = sparse_feature_size op * DataSize topo"
    "\<And>s. length (old s) = nb" "\<And>s. length (new s) = nb"
  defines "slots \<equiv> concat (map (td_slots op) (tables_data e))"
  shows "write_result topo sr 0 p i (concat (map new slots)) (concat (map old [0..<length (lengths op)])) =
    Inr (concat (map (\<lambda>s. if s \<in> set slots then new s else old s) [0..<length (lengths op)]))"
proof -
  have i: "i < length (get_pack_execs (exec_gen sr) p)" using assms(4) by (simp add: get_num_exec_iterations_def)
  then have mem: "e \<in> set (get_pack_execs (exec_gen sr) p)" using assms(5) by simp
  have sr: "sls_op sr = op" "packs_data sr = map (\<lambda>p. if p = 0 then []
      else map (\<lambda>e. map (addrs_of topo op) (tables_data e)) (get_pack_execs (exec_gen sr) p)) [0..<num_of_pack topo]"
    and tds: "\<forall>td \<in> set (tables_data e). td_ok op td"
    using SparseReduction_make_correct [OF assms(1)] assms(2,3) mem by auto
  have dnb: "get_sparse_ft_data_nb topo op = nb" using assms(1,6) by (simp add: get_sparse_ft_data_nb_def req_ok_def)
  have "write_result topo sr 0 p i src out =
      write_chunks (tables_data e) (map (\<lambda>td. td_slot op td * nb) (tables_data e)) nb src 0 out" for src out
    using assms(3,4) i by (simp add: write_result_def Let_def sr pack_id_less comp_def dnb addrs_of_def assms(5)) (simp add: assms(6))
  then show ?thesis
    using write_chunks_correct [of old nb new "tables_data e" op "length (lengths op)" "[]"] assms(1,7,8) tds
    by (auto simp: slots_def req_ok_def td_slot_le)
qed

section \<open>Properties\<close>

text \<open>
  For a well-formed request the operation is constructed, and the positions of every chunk of
  every execution are those of its first (table, batch) pair: the number of indices of all earlier
  pairs, the pair's number, and the pair's place in the output.
\<close>
theorem chunk_positions:
  assumes "req_ok topo op"
  shows "\<exists>sr. SparseReduction_make None topo op = Inr sr \<and>
    (\<forall>p \<in> set (pack_identifiers topo). \<forall>i < get_num_exec_iterations sr p.
      packs_data sr ! p ! i = map (\<lambda>td.
        let s = table_id td * minibatch_size op + the (batch_offset td); row_bytes = sparse_feature_size op * DataSize topo in
        \<lparr>index_addr = sum_list (take s (lengths op)), length_addr = s, psum_addr = s * row_bytes,
         tags_addr = (if is_tagged op then length (lengths op) * row_bytes + s * 16 else 0)\<rparr>)
       (tables_data (get_pack_execs (exec_gen sr) p ! i)))"
proof -
  obtain sr where sr: "SparseReduction_make None topo op = Inr sr"
    "packs_data sr = map (\<lambda>p. if p = 0 then []
      else map (\<lambda>e. map (addrs_of topo op) (tables_data e)) (get_pack_execs (exec_gen sr) p)) [0..<num_of_pack topo]"
    using SparseReduction_make_correct [OF assms] by blast
  then show ?thesis
    by (auto simp: pack_id_less get_num_exec_iterations_def addrs_of_def [abs_def] td_slot_def Let_def)
qed

theorem chunk_positions_witness:
  "\<exists>sr. SparseReduction_make None small_topo small_op = Inr sr"
  using chunk_positions [OF small_op_ok] by blast

text \<open>
  C35: the trace of every execution (its header included) fits the instruction buffer exactly when
  no single batch has more lookups than the buffer holds: the limit of the generator is raised to
  the longest batch without a check against the buffer.
\<close>
theorem instruction_buffer_iff:
  assumes "req_ok topo op" "InstructionSize topo dvd inst_single_buf_size topo"
    "\<forall>t < length (tables_sizes op). \<exists>p \<in> set (pack_identifiers topo). t \<in> object_id ` set (tables_objects op ! p)"
  shows "\<exists>g. init_exec_gen None topo op = Inr g \<and>
    ((\<forall>p \<in> set (pack_identifiers topo). \<forall>e \<in> set (get_pack_execs g p).
        (total_lookups e + 1) * InstructionSize topo \<le> inst_single_buf_size topo) \<longleftrightarrow>
     (\<forall>l \<in> set (lengths op). (l + 1) * InstructionSize topo \<le> inst_single_buf_size topo))"
proof -
  let ?L = "lens_of (minibatch_size op) (lengths op)" and ?nb = "sparse_feature_size op * DataSize topo"
  let ?g = "gen_init (ExecutionGenerator_default topo) (tables_objects op) (instr_limit topo (lengths op))
             (psum_single_buf_size topo div ?nb) ?nb"
  let ?fits = "\<lambda>l. (l + 1) * InstructionSize topo \<le> inst_single_buf_size topo"
  obtain g where g: "init_exec_gen None topo op = Inr g"
    "\<And>p e. \<lbrakk>p \<in> set (pack_identifiers topo); e \<in> set (get_pack_execs g p)\<rbrakk> \<Longrightarrow> exec_ok ?L ?g e"
    "\<And>p. p \<in> set (pack_identifiers topo) \<Longrightarrow> concat (map exec_cells (get_pack_execs g p)) =
        table_cells (minibatch_size op) (map object_id (tables_objects op ! p))"
    using init_exec_gen_correct [OF assms(1)] by auto
  have fit: "?fits l \<longleftrightarrow> l \<le> inst_per_single_buf_no_header topo" for l
    using assms(1,2) by (intro fits_iff) (auto simp: req_ok_def)
  have "?fits (total_lookups e)" if a: "p \<in> set (pack_identifiers topo)" "e \<in> set (get_pack_execs g p)"
    "\<forall>l \<in> set (lengths op). ?fits l" for p e
  proof -
    have "total_lookups e \<le> instr_limit topo (lengths op)" using g(2) [OF a(1,2)] by (simp add: exec_ok_def gen_init_def)
    also have "\<dots> \<le> inst_per_single_buf_no_header topo"
      using a(3) unfolding fit instr_limit_def by (auto intro: fold_max_bound)
    finally show ?thesis unfolding fit .
  qed
  moreover have "?fits l" if a: "\<forall>p \<in> set (pack_identifiers topo). \<forall>e \<in> set (get_pack_execs g p). ?fits (total_lookups e)"
    "l \<in> set (lengths op)" for l
  proof -
    obtain t b where tb: "l = ?L (t, b)" "t < length (tables_sizes op)" "b < minibatch_size op"
      using lengths_cell [of op l] a(2) assms(1) by (auto simp: req_ok_def)
    then obtain p where p: "p \<in> set (pack_identifiers topo)" "t \<in> object_id ` set (tables_objects op ! p)"
      using assms(3) by blast
    then have "(t, b) \<in> set (concat (map exec_cells (get_pack_execs g p)))"
      using tb(3) unfolding g(3) [OF p(1)] by (fastforce simp: table_cells_def)
    then obtain e where e: "e \<in> set (get_pack_execs g p)" "(t, b) \<in> set (exec_cells e)" by auto
    have "?L (t, b) \<le> total_lookups e"
      using g(2) [OF p(1) e(1)] e(2) by (auto simp: exec_ok_def intro!: member_le_sum_list)
    then show ?thesis using a(1) p(1) e(1) unfolding fit tb(1) by fastforce
  qed
  ultimately show ?thesis using g(1) by blast
qed

theorem instruction_buffer_iff_witness:
  "\<exists>g. init_exec_gen None small_topo small_op = Inr g \<and>
    (\<forall>e \<in> set (get_pack_execs g 1). (total_lookups e + 1) * 8 \<le> 64)"
  using instruction_buffer_iff [OF small_op_ok]
  by (auto simp: small_simps)

text \<open>
  C34: writing the result of an execution copies the row of every (table, batch) pair of the
  execution to the pair's place in the user's buffer and changes no other row.
\<close>
theorem write_result_places:
  assumes "req_ok topo op" "SparseReduction_make None topo op = Inr sr" "p \<in> set (pack_identifiers topo)"
    "i < get_num_exec_iterations sr p" "row_bytes = sparse_feature_size op * DataSize topo"
    "\<And>s. length (old s) = row_bytes" "\<And>s. length (new s) = row_bytes"
  defines "pairs \<equiv> map (\<lambda>(t, b). t * minibatch_size op + b) (exec_cells (get_pack_execs (exec_gen sr) p ! i))"
  shows "write_result topo sr 0 p i (concat (map new pairs)) (concat (map old [0..<length (lengths op)])) =
    Inr (concat (map (\<lambda>s. if s \<in> set pairs then new s else old s) [0..<length (lengths op)]))"
proof -
  let ?e = "get_pack_execs (exec_gen sr) p ! i"
  have "?e \<in> set (get_pack_execs (exec_gen sr) p)" using assms(4) by (simp add: get_num_exec_iterations_def)
  then have "tds_wf (tables_data ?e)"
    using SparseReduction_make_correct [OF assms(1)] assms(2,3) by (auto simp: exec_ok_def)
  then have "pairs = concat (map (td_slots op) (tables_data ?e))"
    by (simp add: exec_slots pairs_def exec_cells_def)
  then show ?thesis using write_result_slots [OF assms(1-4) refl assms(5-7)] by simp
qed

theorem write_result_places_witness:
  "\<exists>sr out. SparseReduction_make None small_topo small_op = Inr sr \<and>
    write_result small_topo sr 0 1 0
      (concat (map (\<lambda>_. replicate 64 1) (exec_cells (get_pack_execs (exec_gen sr) 1 ! 0)))) (replicate 128 0) = Inr out"
proof -
  obtain sr where sr: "SparseReduction_make None small_topo small_op = Inr sr" "0 < get_num_exec_iterations sr 1"
    using small_reduction by blast
  have "concat (map (\<lambda>s :: nat. replicate 64 (0 :: u8)) [0..<length (lengths small_op)]) = replicate 128 0"
    by (simp add: small_simps upt_rec replicate_add [symmetric] numeral_2_eq_2)
  then show ?thesis
    using write_result_places [OF small_op_ok sr(1) _ sr(2), of 64 "\<lambda>_. replicate 64 0" "\<lambda>_. replicate 64 1"] sr(1)
    by (auto simp: small_simps comp_def case_prod_beta)
qed

end
