(* ===== verification/Param_Checks.thy ===== *)
theory Param_Checks
  imports Sparse_Reduction Mem_Map
begin

text \<open>
  The checks of a request before it runs (\<open>sls/operation/param_checks.cpp\<close>): the row size, the
  device memory limits, the run parameters and, in debug builds, the indices. The second part
  states which requests the index check accepts.
\<close>

section \<open>Parameter checks\<close>

definition check_sparse_feature_size :: "nat \<Rightarrow> unit result" where
  "check_sparse_feature_size n = (if n \<in> set [16, 32, 64] then Inr () else Inl (Throw InvalidArguments))"

text \<open>
  The three loops of \<open>check_indices\<close>. The index that is compared is the one at the position of the
  (table, batch) pair plus the lookup number; positions and counters have 32 bits and wrap around.
\<close>

primrec check_lookups :: "nat \<Rightarrow> u32 list \<Rightarrow> u32 \<Rightarrow> nat \<Rightarrow> unit result" where
  "check_lookups 0 inds pos sz = Inr ()"
| "check_lookups (Suc k) inds pos sz =
     (if unat pos < length inds then
        if sz \<le> unat (inds ! unat pos) then Inl (Throw InvalidArguments)
        else check_lookups k inds (pos + 1) sz
      else Inl Undefined)"

primrec check_batches :: "nat \<Rightarrow> u32 \<Rightarrow> SlsOperation \<Rightarrow> nat \<Rightarrow> unit result" where
  "check_batches 0 pos op sz = Inr ()"
| "check_batches (Suc k) pos op sz =
     (if unat pos < length (lengths op) then
        bind_r (check_lookups (lengths op ! unat pos) (indices op) pos sz)
          (\<lambda>_. check_batches k (pos + 1) op sz)
      else Inl Undefined)"

primrec check_tables :: "nat list \<Rightarrow> u32 \<Rightarrow> SlsOperation \<Rightarrow> unit result" where
  "check_tables [] table op = Inr ()"
| "check_tables (sz # szs) table op =
     bind_r (check_batches (minibatch_size op) (table * of_nat (minibatch_size op)) op sz)
       (\<lambda>_. check_tables szs (table + 1) op)"

text \<open>With \<open>2\<^sup>3\<^sup>2\<close> tables or more the counter of tables starts again and the loop never ends.\<close>

definition check_indices :: "SlsOperation \<Rightarrow> unit result" where
  "check_indices op =
     (if length (tables_sizes op) < 2 ^ 32 then check_tables (tables_sizes op) 0 op
      else bind_r (check_tables (take (2 ^ 32) (tables_sizes op)) 0 op) (\<lambda>_. Inl Blocked))"

text \<open>The indices are looked at in debug builds only.\<close>

definition check_run_params :: "bool \<Rightarrow> SlsOperation \<Rightarrow> nat \<Rightarrow> unit result" where
  "check_run_params debug op psum_len =
     (if minibatch_size op = 0 then Inl (Throw InvalidArguments)
      else if lengths op = [] then Inl (Throw InvalidArguments)
      else if indices op = [] then Inl (Throw InvalidArguments)
      else if psum_len = 0 then Inl (Throw InvalidArguments)
      else if debug then check_indices op else Inr ())"

datatype sls_user_preferences = SLS_ALLOC_AUTO | SLS_ALLOC_REPLICATE_ALL | SLS_ALLOC_DISTRIBUTE_ALL | SLS_ALLOC_SINGLE

definition check_device_memory_limits :: "Constants \<Rightarrow> MemMap \<Rightarrow> nat \<Rightarrow> sls_user_preferences \<Rightarrow> unit result" where
  "check_device_memory_limits topo mm objects_size preference =
     (let max_mem_size = (if preference = SLS_ALLOC_DISTRIBUTE_ALL
            then get_all_cunits_block_size mm SLS_BLOCK_BASE else get_min_block_size mm SLS_BLOCK_BASE) in
      if objects_size = 0 \<or> max_mem_size < objects_size then Inl (Throw OutOfMemory)
      else if psum_single_buf_size topo = 0 \<or> get_min_block_size mm SLS_BLOCK_PSUM < psum_single_buf_size topo
      then Inl (Throw OutOfMemory)
      else if inst_single_buf_size topo = 0 \<or> get_min_block_size mm SLS_BLOCK_INST < inst_single_buf_size topo
      then Inl (Throw OutOfMemory)
      else Inr ())"

text \<open>A request with an index beyond its table, used in the instance below.\<close>

definition bad_index_op :: SlsOperation where
  "bad_index_op = \<lparr>sparse_feature_size = 16, tables_sizes = [10], minibatch_size = 2, lengths = [2, 2],
     indices = [1, 2, 3, 99], tables_objects = [[], [small_object]], sls_type = Uint32\<rparr>"

section \<open>Index checks\<close>

lemma unat_position: "n < 2 ^ 32 \<Longrightarrow> unat (of_nat n :: u32) = n"
  by (simp add: unat_of_nat take_bit_nat_eq_self)

lemma check_lookups_iff:
  "pos + k \<le> length inds \<Longrightarrow> length inds \<le> 2 ^ 32 \<Longrightarrow>
   check_lookups k inds (of_nat pos) sz = Inr () \<longleftrightarrow> (\<forall>j < k. unat (inds ! (pos + j)) < sz)"
proof (induction k arbitrary: pos)
  case (Suc k)
  then have "check_lookups k inds (of_nat (pos + 1)) sz = Inr () \<longleftrightarrow> (\<forall>j < k. unat (inds ! (pos + 1 + j)) < sz)"
    by (intro Suc.IH) simp_all
  moreover have "unat (of_nat pos :: u32) = pos" using Suc.prems by (intro unat_position) simp
  ultimately show ?case using Suc.prems by (auto simp: less_Suc_eq_0_disj not_le add.commute)
qed simp

lemma check_batches_iff:
  "\<lbrakk>pos + k \<le> length (lengths op); length (lengths op) < 2 ^ 32; length (indices op) \<le> 2 ^ 32;
    \<forall>b < k. pos + b + lengths op ! (pos + b) \<le> length (indices op)\<rbrakk> \<Longrightarrow>
   check_batches k (of_nat pos) op sz = Inr () \<longleftrightarrow>
     (\<forall>b < k. \<forall>j < lengths op ! (pos + b). unat (indices op ! (pos + b + j)) < sz)"
proof (induction k arbitrary: pos)
  case (Suc k)
  have "check_batches k (of_nat (pos + 1)) op sz = Inr () \<longleftrightarrow>
     (\<forall>b < k. \<forall>j < lengths op ! (pos + 1 + b). unat (indices op ! (pos + 1 + b + j)) < sz)"
    using Suc.prems by (intro Suc.IH) (auto dest: spec [of _ "Suc _"])
  moreover have "check_lookups (lengths op ! pos) (indices op) (of_nat pos) sz = Inr () \<longleftrightarrow>
      (\<forall>j < lengths op ! pos. unat (indices op ! (pos + j)) < sz)"
    using Suc.prems(3,4) by (intro check_lookups_iff) auto
  moreover have "unat (of_nat pos :: u32) = pos" using Suc.prems by (intro unat_position) simp
  ultimately show ?case using Suc.prems(1)
    by (auto simp: bind_r_Inr_iff less_Suc_eq_0_disj add.commute)
qed simp

lemma check_tables_iff:
  assumes "\<forall>t < length szs. \<forall>b < mb. let s = (k + t) * mb + b in s < length (lengths op) \<and> s + lengths op ! s \<le> length (indices op)"
    "mb = minibatch_size op" "0 < mb" "length (lengths op) < 2 ^ 32" "length (indices op) \<le> 2 ^ 32"
  shows "check_tables szs (of_nat k) op = Inr () \<longleftrightarrow>
     (\<forall>t < length szs. \<forall>b < mb. \<forall>j < lengths op ! ((k + t) * mb + b). unat (indices op ! ((k + t) * mb + b + j)) < szs ! t)"
  using assms(1)
proof (induction szs arbitrary: k)
  case (Cons s szs)
  have "check_tables szs (of_nat (k + 1)) op = Inr () \<longleftrightarrow> (\<forall>t < length szs. \<forall>b < mb.
      \<forall>j < lengths op ! ((k + 1 + t) * mb + b). unat (indices op ! ((k + 1 + t) * mb + b + j)) < szs ! t)"
    using Cons.prems by (intro Cons.IH) (auto dest: spec [of _ "Suc _"])
  moreover have "check_batches mb (of_nat (k * mb)) op s = Inr () \<longleftrightarrow>
      (\<forall>b < mb. \<forall>j < lengths op ! (k * mb + b). unat (indices op ! (k * mb + b + j)) < s)"
  proof (rule check_batches_iff [OF _ assms(4,5)])
    have "k * mb + (mb - 1) < length (lengths op)"
      using Cons.prems [rule_format, of 0 "mb - 1"] assms(3) by (simp add: Let_def)
    then show "k * mb + mb \<le> length (lengths op)" using assms(3) by linarith
    show "\<forall>b < mb. k * mb + b + lengths op ! (k * mb + b) \<le> length (indices op)"
      using Cons.prems [rule_format, of 0] by (simp add: Let_def)
  qed
  ultimately show ?case using assms(2)
    by (auto simp: bind_r_Inr_iff less_Suc_eq_0_disj add.commute)
qed simp

section \<open>Properties\<close>

text \<open>
  C36: in a debug build, for a request of fewer than \<open>2\<^sup>3\<^sup>2\<close> pairs of a table and a batch, with a length for each pair,
  and at most \<open>2\<^sup>3\<^sup>2\<close> indices, whose positions \<open>s, s + 1, \<dots>\<close> for every pair number \<open>s\<close> are within the list of
  indices: the parameter check accepts the request exactly when batch, lengths, indices and results are
  not empty and for every pair number \<open>s\<close> the indices at positions \<open>s, s + 1, \<dots>\<close> are within the table.
  The indices of pair \<open>s\<close> are stored after those of all earlier pairs, at the sum of their lengths, so a
  request can pass with an index that is out of its table.
\<close>
theorem check_run_params_iff:
  assumes "length (lengths op) = length (tables_sizes op) * minibatch_size op"
    "length (lengths op) < 2 ^ 32" "length (indices op) \<le> 2 ^ 32"
    "\<forall>s < length (lengths op). s + lengths op ! s \<le> length (indices op)"
  shows "check_run_params True op psum_len = Inr () \<longleftrightarrow>
    0 < minibatch_size op \<and> lengths op \<noteq> [] \<and> indices op \<noteq> [] \<and> 0 < psum_len \<and>
    (\<forall>t < length (tables_sizes op). \<forall>b < minibatch_size op. let s = t * minibatch_size op + b in
      \<forall>j < lengths op ! s. unat (indices op ! (s + j)) < tables_sizes op ! t)"
proof (cases "0 < minibatch_size op")
  case True
  have "t * minibatch_size op + b < length (lengths op)" if "t < length (tables_sizes op)" "b < minibatch_size op" for t b
  proof -
    have "Suc t * minibatch_size op \<le> length (tables_sizes op) * minibatch_size op"
      using that(1) by (intro mult_right_mono) simp_all
    then show ?thesis using that(2) assms(1) by simp
  qed
  then have "check_tables (tables_sizes op) (of_nat 0) op = Inr () \<longleftrightarrow>
     (\<forall>t < length (tables_sizes op). \<forall>b < minibatch_size op. \<forall>j < lengths op ! ((0 + t) * minibatch_size op + b).
        unat (indices op ! ((0 + t) * minibatch_size op + b + j)) < tables_sizes op ! t)"
    using assms(2-4) True by (intro check_tables_iff) (auto simp: Let_def)
  moreover have "length (tables_sizes op) * 1 \<le> length (lengths op)" unfolding assms(1) using True by (intro mult_left_mono) simp_all
  ultimately show ?thesis using True assms(2) by (auto simp: check_run_params_def check_indices_def Let_def)
qed (simp add: check_run_params_def)

theorem check_run_params_iff_witness:
  "check_run_params True bad_index_op 128 = Inr () \<and>
   \<not> (\<forall>i \<in> set (indices bad_index_op). unat i < tables_sizes bad_index_op ! 0)"
proof -
  have "(\<forall>b < 2. P b) \<longleftrightarrow> P 0 \<and> P (1 :: nat)" for P by (auto simp: less_2_cases_iff)
  then show ?thesis using check_run_params_iff [of bad_index_op 128] by (simp add: bad_index_op_def Let_def All_less_Suc)
qed

text \<open>
  C37: the memory check accepts a device exactly when the tables are not empty and fit (all compute
  units together when the tables are distributed, every single one otherwise), and every compute
  unit has room for a whole partial-sum and a whole instruction buffer.
\<close>
theorem memory_limits_iff:
  assumes "infos \<noteq> []" "\<forall>info \<in> set infos. \<forall>b. blk_size info b \<le> size_max"
  shows "check_device_memory_limits topo (memmap_init infos) objects_size preference = Inr () \<longleftrightarrow>
    0 < objects_size \<and> 0 < psum_single_buf_size topo \<and> 0 < inst_single_buf_size topo \<and>
    (if preference = SLS_ALLOC_DISTRIBUTE_ALL
     then objects_size \<le> sum_list (map (\<lambda>i. blk_size i SLS_BLOCK_BASE) infos)
     else \<forall>i \<in> set infos. objects_size \<le> blk_size i SLS_BLOCK_BASE) \<and>
    (\<forall>i \<in> set infos. psum_single_buf_size topo \<le> blk_size i SLS_BLOCK_PSUM \<and>
       inst_single_buf_size topo \<le> blk_size i SLS_BLOCK_INST)"
proof -
  have lt: "get_min_block_size (memmap_init infos) b < n \<longleftrightarrow> (\<exists>i \<in> set infos. blk_size i b < n)" for n b
    using assms by (subst min_block_size) (auto simp: Min_less_iff)
  have "n \<le> get_min_block_size (memmap_init infos) b \<longleftrightarrow> (\<forall>i \<in> set infos. n \<le> blk_size i b)" for n b
    using lt [of b n] by (auto simp: not_less [symmetric])
  then show ?thesis
    by (auto simp: lt check_device_memory_limits_def all_cunits_block_size Let_def not_less not_le)
qed

theorem memory_limits_iff_witness:
  "check_device_memory_limits small_topo (memmap_init [\<lparr>blk = \<lambda>_ _. 0, blk_size = \<lambda>_. 4096\<rparr>]) 640 SLS_ALLOC_AUTO = Inr ()"
  using memory_limits_iff [of "[\<lparr>blk = \<lambda>_ _. 0, blk_size = \<lambda>_. 4096\<rparr>]" small_topo 640 SLS_ALLOC_AUTO]
  by (simp add: size_max_def small_topo_def psum_single_buf_size_def inst_single_buf_size_def)

end
