(* ===== verification/Cxl_Device.thy ===== *)
theory Cxl_Device
  imports Cxl_Core_Sim Views
begin

text \<open>
  The CXL device as the runner sees it: the block readers and writers
  (\<open>core/device/sls/memblockhandler\<close>), the registers and the acquisition of compute units
  (\<open>core/device/sls/base.cpp\<close>), the simulator's compute device
  (\<open>core/device/sls/simulator\<close>) and the compute unit (\<open>sls/compute_unit\<close>). The state is the memory
  of one compute unit, except for the operations that select a compute unit of the device.
\<close>

section \<open>Block readers and writers\<close>

datatype platform = HARDWARE | FUNCSIM

definition UnsupportedBlockWriter :: "memAddr result" where
  "UnsupportedBlockWriter = Inl (Throw NotSupported)"

definition UnsupportedBlockReader :: "u8 list result" where
  "UnsupportedBlockReader = Inl (Throw NotSupported)"

definition RawBlockWriter :: "memAddr \<Rightarrow> sls_block \<Rightarrow> nat \<Rightarrow> u8 list \<Rightarrow> memAddr result" where
  "RawBlockWriter ma type off bs =
     (if off + length bs \<le> blk_size ma type then Inr (set_blk type (write_bytes (blk ma type) off bs) ma)
      else Inl Undefined)"

definition RawBlockReader :: "memAddr \<Rightarrow> sls_block \<Rightarrow> nat \<Rightarrow> nat \<Rightarrow> u8 list result" where
  "RawBlockReader ma type off read_size =
     (if off + read_size \<le> blk_size ma type then Inr (read_bytes (blk ma type) off read_size) else Inl Undefined)"

text \<open>Which reader and writer a block has depends on the bus and the platform.\<close>

definition inst_writer :: "memAddr \<Rightarrow> nat \<Rightarrow> u8 list \<Rightarrow> memAddr result" where
  "inst_writer ma = RawBlockWriter ma SLS_BLOCK_INST"

definition cfgr_writer :: "memAddr \<Rightarrow> nat \<Rightarrow> u8 list \<Rightarrow> memAddr result" where
  "cfgr_writer ma = RawBlockWriter ma SLS_BLOCK_CFGR"

definition cfgr_reader :: "memAddr \<Rightarrow> nat \<Rightarrow> nat \<Rightarrow> u8 list result" where
  "cfgr_reader ma = RawBlockReader ma SLS_BLOCK_CFGR"

definition psum_reader :: "memAddr \<Rightarrow> nat \<Rightarrow> nat \<Rightarrow> u8 list result" where
  "psum_reader ma = RawBlockReader ma SLS_BLOCK_PSUM"

definition tags_reader :: "platform \<Rightarrow> memAddr \<Rightarrow> nat \<Rightarrow> nat \<Rightarrow> u8 list result" where
  "tags_reader pf ma off n =
     (if pf = HARDWARE then UnsupportedBlockReader else RawBlockReader ma SLS_BLOCK_TAGS off n)"

definition write_block_impl :: "memAddr \<Rightarrow> sls_block \<Rightarrow> nat \<Rightarrow> u8 list \<Rightarrow> memAddr result" where
  "write_block_impl ma type off bs =
     (case type of
        SLS_BLOCK_BASE \<Rightarrow> Inl (Throw InvalidArguments)
      | SLS_BLOCK_INST \<Rightarrow> inst_writer ma off bs
      | SLS_BLOCK_CFGR \<Rightarrow> cfgr_writer ma off bs
      | SLS_BLOCK_TAGS \<Rightarrow> UnsupportedBlockWriter
      | SLS_BLOCK_PSUM \<Rightarrow> UnsupportedBlockWriter)"

definition read_block_impl :: "platform \<Rightarrow> memAddr \<Rightarrow> sls_block \<Rightarrow> nat \<Rightarrow> nat \<Rightarrow> u8 list result" where
  "read_block_impl pf ma type off n =
     (case type of
        SLS_BLOCK_BASE \<Rightarrow> Inl (Throw InvalidArguments)
      | SLS_BLOCK_INST \<Rightarrow> Inl (Throw InvalidArguments)
      | SLS_BLOCK_CFGR \<Rightarrow> cfgr_reader ma off n
      | SLS_BLOCK_TAGS \<Rightarrow> tags_reader pf ma off n
      | SLS_BLOCK_PSUM \<Rightarrow> psum_reader ma off n)"

definition write_block :: "Constants \<Rightarrow> MemMap \<Rightarrow> sls_block \<Rightarrow> nat \<Rightarrow> nat \<Rightarrow> u8 list \<Rightarrow> MemMap result" where
  "write_block topo mm type cu off bs =
     assert_r (cu < NumOfCUnits topo)
      (if cu < length (cunitAddrInfo mm)
       then bind_r (write_block_impl (cunitAddrInfo mm ! cu) type off bs)
              (\<lambda>ma. Inr (mm\<lparr>cunitAddrInfo := (cunitAddrInfo mm)[cu := ma]\<rparr>))
       else Inl Undefined)"

definition read_block :: "platform \<Rightarrow> Constants \<Rightarrow> MemMap \<Rightarrow> sls_block \<Rightarrow> nat \<Rightarrow> nat \<Rightarrow> nat \<Rightarrow> u8 list result" where
  "read_block pf topo mm type cu off n =
     assert_r (cu < NumOfCUnits topo)
      (if cu < length (cunitAddrInfo mm) then read_block_impl pf (cunitAddrInfo mm ! cu) type off n
       else Inl Undefined)"

section \<open>Registers\<close>

definition psum_poll_register :: "Constants \<Rightarrow> nat" where
  "psum_poll_register topo = RegPolling topo + 4"

definition exec_sls_register :: "Constants \<Rightarrow> nat" where
  "exec_sls_register topo = RegSlsExec topo"

definition control_switch_register :: "Constants \<Rightarrow> nat" where
  "control_switch_register topo = RegSlsEn topo"

definition read_reg :: "memAddr \<Rightarrow> nat \<Rightarrow> u32 result" where
  "read_reg ma reg =
     (if reg + 4 \<le> blk_size ma SLS_BLOCK_CFGR then Inr (load_le 4 (blk ma SLS_BLOCK_CFGR) reg) else Inl Undefined)"

text \<open>The number of processed instructions, read through the configuration block.\<close>

definition get_num_processed_inst :: "Constants \<Rightarrow> memAddr \<Rightarrow> u8 list result" where
  "get_num_processed_inst topo ma = cfgr_reader ma (RegPolling topo + POLL_INST_NUM_OFFSET) 4"

section \<open>Acquiring and releasing compute units\<close>

text \<open>
  The answer of the resource driver to \<open>GET_CUNIT\<close> and \<open>RELEASE_CUNIT\<close> is an argument; a negative
  one is an error. A compute unit number is stored in 8 bits.
\<close>

definition acquire_idle_cunit_from_range :: "Constants \<Rightarrow> int \<Rightarrow> nat" where
  "acquire_idle_cunit_from_range topo res = (if res < 0 then NumOfCUnits topo else nat res) mod 256"

definition acquire_cunit_from_range :: "Constants \<Rightarrow> int \<Rightarrow> nat option" where
  "acquire_cunit_from_range topo res =
     (let cunit_tmp = acquire_idle_cunit_from_range topo res in
      if cunit_tmp = NumOfCUnits topo then None else Some cunit_tmp)"

definition release_cunit :: "int \<Rightarrow> unit result" where
  "release_cunit res = (if res < 0 then Inl (Throw Failure) else Inr ())"

section \<open>Reading the outputs\<close>

definition read_and_reset_psum :: "memAddr \<Rightarrow> nat \<Rightarrow> u8 list result" where
  "read_and_reset_psum ma read_size = read_block_impl FUNCSIM ma SLS_BLOCK_PSUM 0 read_size"

text \<open>
  The tags are read into a temporary buffer of \<open>TagsBufSize\<close> bytes, of which the first bytes of
  every aligned row are handed on.
\<close>

definition read_and_reset_tags :: "platform \<Rightarrow> Constants \<Rightarrow> memAddr \<Rightarrow> nat \<Rightarrow> u8 list result" where
  "read_and_reset_tags pf topo ma read_size =
     (let aligned = read_size div 16 * AlignedTagSize topo in
      bind_r (read_block_impl pf ma SLS_BLOCK_TAGS 0 aligned) (\<lambda>tags_tmp.
        if TagsBufSize topo < aligned then Inl Undefined
        else bind_r (rowwise_rows tags_tmp
               (make_rowwise_view 0 aligned (AlignedTagSize topo) 0 (AlignedTagSize topo - 16)))
             (\<lambda>rows. Inr (concat rows))))"

section \<open>The simulator's compute device\<close>

definition reset_psum_poll_register :: "Constants \<Rightarrow> memAddr \<Rightarrow> memAddr result" where
  "reset_psum_poll_register topo ma = write_reg ma (psum_poll_register topo) 0"

definition write_exec_sls_register :: "Constants \<Rightarrow> memAddr \<Rightarrow> u32 \<Rightarrow> memAddr result" where
  "write_exec_sls_register topo ma val =
     bind_r (if val = SLS_ENABLE_VALUE then reset_psum_poll_register topo ma else Inr ma)
       (\<lambda>ma. write_reg ma (exec_sls_register topo) val)"

definition write_control_switch_register :: "Constants \<Rightarrow> memAddr \<Rightarrow> u32 \<Rightarrow> memAddr result" where
  "write_control_switch_register topo ma val =
     write_reg ma (control_switch_register topo)
       (if val = SLS_DISABLE_VALUE then SLS_ENABLE_VALUE
        else if val = SLS_ENABLE_VALUE then SLS_CONTROL_SWITCHED_VALUE else val)"

text \<open>The registers of a compute unit are reset when it is acquired, before its thread is enabled.\<close>

definition acquire_reset :: "Constants \<Rightarrow> memAddr \<Rightarrow> memAddr result" where
  "acquire_reset topo ma =
     bind_r (reset_psum_poll_register topo ma) (\<lambda>ma. write_reg ma (exec_sls_register topo) SLS_DISABLE_VALUE)"

section \<open>The compute unit\<close>

datatype BlockType = INST | TAGS | PSUM

datatype PollType = ENABLE | FINISH | CONTROL_SWITCH

text \<open>A poll returns when the register holds the target; otherwise it waits.\<close>

definition poll_register :: "memAddr \<Rightarrow> nat \<Rightarrow> u32 \<Rightarrow> unit result" where
  "poll_register ma reg target =
     bind_r (read_reg ma reg) (\<lambda>v. if v = target then Inr () else Inl Blocked)"

definition cu_poll :: "Constants \<Rightarrow> memAddr \<Rightarrow> PollType \<Rightarrow> unit result" where
  "cu_poll topo ma type =
     (case type of
        ENABLE \<Rightarrow> poll_register ma (control_switch_register topo) SLS_ENABLE_VALUE
      | FINISH \<Rightarrow> poll_register ma (psum_poll_register topo) POLL_FINISH_VALUE
      | CONTROL_SWITCH \<Rightarrow> poll_register ma (control_switch_register topo) SLS_CONTROL_SWITCHED_VALUE)"

definition cu_enable :: "Constants \<Rightarrow> memAddr \<Rightarrow> memAddr result" where
  "cu_enable topo ma = write_control_switch_register topo ma SLS_ENABLE_VALUE"

definition cu_disable :: "Constants \<Rightarrow> memAddr \<Rightarrow> memAddr result" where
  "cu_disable topo ma = write_control_switch_register topo ma SLS_DISABLE_VALUE"

definition cu_open :: "Constants \<Rightarrow> memAddr \<Rightarrow> memAddr result" where
  "cu_open topo ma =
     bind_r (acquire_reset topo ma) (\<lambda>ma. bind_r (cu_enable topo ma)
       (\<lambda>ma. bind_r (cu_poll topo ma CONTROL_SWITCH) (\<lambda>_. Inr ma)))"

definition cu_close :: "Constants \<Rightarrow> memAddr \<Rightarrow> int \<Rightarrow> memAddr result" where
  "cu_close topo ma res =
     bind_r (cu_disable topo ma) (\<lambda>ma. bind_r (cu_poll topo ma ENABLE)
       (\<lambda>_. bind_r (release_cunit res) (\<lambda>_. Inr ma)))"

definition cu_read_buffer :: "platform \<Rightarrow> Constants \<Rightarrow> memAddr \<Rightarrow> BlockType \<Rightarrow> nat \<Rightarrow> u8 list result" where
  "cu_read_buffer pf topo ma type n =
     (case type of
        PSUM \<Rightarrow> read_and_reset_psum ma n
      | TAGS \<Rightarrow> read_and_reset_tags pf topo ma n
      | INST \<Rightarrow> Inl (Throw NotSupported))"

definition cu_write_buffer :: "memAddr \<Rightarrow> BlockType \<Rightarrow> u8 list \<Rightarrow> memAddr result" where
  "cu_write_buffer ma type bs =
     (case type of INST \<Rightarrow> write_block_impl ma SLS_BLOCK_INST 0 bs | _ \<Rightarrow> Inl (Throw NotSupported))"

text \<open>
  One round of the simulator thread: it waits for the enable value, executes the trace, clears the
  enable value and reports the end.
\<close>

definition worker_round :: "add_op \<Rightarrow> Constants \<Rightarrow> memAddr \<Rightarrow> memAddr result" where
  "worker_round fadd topo ma =
     bind_r (read_reg ma (exec_sls_register topo)) (\<lambda>v.
       if v \<noteq> SLS_ENABLE_VALUE then Inl Blocked
       else bind_r (exec_trace fadd topo ma) (\<lambda>ma.
            bind_r (write_reg ma (exec_sls_register topo) SLS_DISABLE_VALUE) (\<lambda>ma.
              write_reg ma (psum_poll_register topo) POLL_FINISH_VALUE)))"

definition cu_run_async :: "Constants \<Rightarrow> memAddr \<Rightarrow> memAddr result" where
  "cu_run_async topo ma = write_exec_sls_register topo ma SLS_ENABLE_VALUE"

text \<open>Running a compute unit when the simulator thread does its round while the host waits.\<close>

definition cu_run :: "add_op \<Rightarrow> Constants \<Rightarrow> memAddr \<Rightarrow> memAddr result" where
  "cu_run fadd topo ma =
     bind_r (cu_run_async topo ma) (\<lambda>ma. bind_r (worker_round fadd topo ma)
       (\<lambda>ma. bind_r (cu_poll topo ma FINISH) (\<lambda>_. Inr ma)))"

end
