(* ===== verification/Sim_Protocol.thy ===== *)
theory Sim_Protocol
  imports Cxl_Device
begin

text \<open>
  The handshake between the host thread that runs a compute unit (\<open>CxlComputeUnit::run\<close> over
  \<open>SimulatorComputeDevice\<close>) and the simulator thread of that unit
  (\<open>BaseSlsSimulator::worker_job\<close>), as a step relation on the unit's memory: each step is one
  register access of one of the two threads, or the execution of a trace. The thread pool of the
  simulator (\<open>core/device/simulator/base_simulator.cpp\<close>) is modelled by the flags that enable and
  stop its threads.
\<close>

section \<open>Enabling and disabling simulator threads\<close>

text \<open>
  Of a future only its validity matters: it is valid from the start of the thread's job until its
  result has been taken.
\<close>

record ThreadControls =
  stop_flag :: bool
  finished_valid :: bool

record AsyncSimulator =
  thread_pool :: bool
  thread_controls :: "ThreadControls list"

definition AsyncSimulator_make :: "nat \<Rightarrow> AsyncSimulator result" where
  "AsyncSimulator_make threads_num =
     assert_r (0 < threads_num)
       (Inr \<lparr>thread_pool = False, thread_controls = replicate threads_num \<lparr>stop_flag = False, finished_valid = False\<rparr>\<rparr>)"

definition sim_start :: "AsyncSimulator \<Rightarrow> AsyncSimulator result" where
  "sim_start sim = assert_r (\<not> thread_pool sim) (Inr (sim\<lparr>thread_pool := True\<rparr>))"

definition is_thread_enabled :: "AsyncSimulator \<Rightarrow> nat \<Rightarrow> bool result" where
  "is_thread_enabled sim i =
     (if length (thread_controls sim) \<le> i then Inl (Throw InvalidArguments)
      else Inr (finished_valid (thread_controls sim ! i)))"

definition should_stop :: "AsyncSimulator \<Rightarrow> nat \<Rightarrow> bool" where
  "should_stop sim i = stop_flag (thread_controls sim ! i)"

definition enable_thread :: "AsyncSimulator \<Rightarrow> nat \<Rightarrow> AsyncSimulator result" where
  "enable_thread sim i =
     assert_r (thread_pool sim)
      (bind_r (is_thread_enabled sim i) (\<lambda>enabled.
        if enabled then Inl (Throw InvalidArguments)
        else Inr (sim\<lparr>thread_controls := (thread_controls sim)[i := \<lparr>stop_flag = False, finished_valid = True\<rparr>]\<rparr>)))"

text \<open>Taking the result waits for the job to end, which it does once it sees the flag.\<close>

definition disable_thread :: "AsyncSimulator \<Rightarrow> nat \<Rightarrow> AsyncSimulator result" where
  "disable_thread sim i =
     bind_r (is_thread_enabled sim i) (\<lambda>enabled.
       if \<not> enabled then Inl (Throw InvalidArguments)
       else Inr (sim\<lparr>thread_controls := (thread_controls sim)[i := \<lparr>stop_flag = True, finished_valid = False\<rparr>]\<rparr>))"

primrec disable_all :: "nat list \<Rightarrow> AsyncSimulator \<Rightarrow> AsyncSimulator result" where
  "disable_all [] sim = Inr sim"
| "disable_all (i # is') sim =
     bind_r (is_thread_enabled sim i) (\<lambda>enabled.
       bind_r (if enabled then disable_thread sim i else Inr sim) (disable_all is'))"

definition sim_stop :: "AsyncSimulator \<Rightarrow> AsyncSimulator result" where
  "sim_stop sim =
     bind_r (disable_all [0..<length (thread_controls sim)] sim) (\<lambda>sim. Inr (sim\<lparr>thread_pool := False\<rparr>))"

definition sim_destroy :: "AsyncSimulator \<Rightarrow> unit result" where
  "sim_destroy sim = assert_r (\<not> thread_pool sim) (Inr ())"

section \<open>The handshake\<close>

datatype host_pc = HReset | HEnable | HPoll | HDone

datatype worker_pc = WWait | WExec | WClear | WFinish | WDead

record proto =
  mem :: memAddr
  hpc :: host_pc
  wpc :: worker_pc
  runs :: nat

text \<open>
  An exception of the trace execution ends the job (it is kept in the future), so that the host
  polls a register that nobody writes.
\<close>

inductive run_step :: "add_op \<Rightarrow> Constants \<Rightarrow> proto \<Rightarrow> proto \<Rightarrow> bool" for fadd topo where
  host_reset: "\<lbrakk>hpc s = HReset; reset_psum_poll_register topo (mem s) = Inr m\<rbrakk> \<Longrightarrow>
     run_step fadd topo s (s\<lparr>mem := m, hpc := HEnable\<rparr>)"
| host_enable: "\<lbrakk>hpc s = HEnable; write_reg (mem s) (exec_sls_register topo) SLS_ENABLE_VALUE = Inr m\<rbrakk> \<Longrightarrow>
     run_step fadd topo s (s\<lparr>mem := m, hpc := HPoll\<rparr>)"
| host_yield: "\<lbrakk>hpc s = HPoll; read_reg (mem s) (psum_poll_register topo) = Inr v; v \<noteq> POLL_FINISH_VALUE\<rbrakk> \<Longrightarrow>
     run_step fadd topo s s"
| host_done: "\<lbrakk>hpc s = HPoll; read_reg (mem s) (psum_poll_register topo) = Inr POLL_FINISH_VALUE\<rbrakk> \<Longrightarrow>
     run_step fadd topo s (s\<lparr>hpc := HDone\<rparr>)"
| worker_yield: "\<lbrakk>wpc s = WWait; read_reg (mem s) (exec_sls_register topo) = Inr v; v \<noteq> SLS_ENABLE_VALUE\<rbrakk> \<Longrightarrow>
     run_step fadd topo s s"
| worker_start: "\<lbrakk>wpc s = WWait; read_reg (mem s) (exec_sls_register topo) = Inr SLS_ENABLE_VALUE\<rbrakk> \<Longrightarrow>
     run_step fadd topo s (s\<lparr>wpc := WExec\<rparr>)"
| worker_exec: "\<lbrakk>wpc s = WExec; exec_trace fadd topo (mem s) = Inr m\<rbrakk> \<Longrightarrow>
     run_step fadd topo s (s\<lparr>mem := m, wpc := WClear, runs := runs s + 1\<rparr>)"
| worker_throw: "\<lbrakk>wpc s = WExec; exec_trace fadd topo (mem s) = Inl e\<rbrakk> \<Longrightarrow>
     run_step fadd topo s (s\<lparr>wpc := WDead\<rparr>)"
| worker_clear: "\<lbrakk>wpc s = WClear; write_reg (mem s) (exec_sls_register topo) SLS_DISABLE_VALUE = Inr m\<rbrakk> \<Longrightarrow>
     run_step fadd topo s (s\<lparr>mem := m, wpc := WFinish\<rparr>)"
| worker_finish: "\<lbrakk>wpc s = WFinish; write_reg (mem s) (psum_poll_register topo) POLL_FINISH_VALUE = Inr m\<rbrakk> \<Longrightarrow>
     run_step fadd topo s (s\<lparr>mem := m, wpc := WWait\<rparr>)"

definition run_init :: "memAddr \<Rightarrow> proto" where
  "run_init ma = \<lparr>mem = ma, hpc = HReset, wpc = WWait, runs = 0\<rparr>"

section \<open>Specification\<close>

text \<open>The registers the handshake uses do not overlap and lie in the configuration block.\<close>

definition regs_ok :: "Constants \<Rightarrow> memAddr \<Rightarrow> bool" where
  "regs_ok topo ma \<longleftrightarrow> RegPolling topo + 12 \<le> blk_size ma SLS_BLOCK_CFGR \<and>
     RegSlsExec topo + 4 \<le> blk_size ma SLS_BLOCK_CFGR \<and> RegSlsEn topo + 4 \<le> blk_size ma SLS_BLOCK_CFGR \<and>
     (RegSlsExec topo + 4 \<le> RegPolling topo + 4 \<or> RegPolling topo + 12 \<le> RegSlsExec topo)"

definition set_reg :: "nat \<Rightarrow> u32 \<Rightarrow> memAddr \<Rightarrow> memAddr" where
  "set_reg reg v ma = set_blk SLS_BLOCK_CFGR (store_le 4 (blk ma SLS_BLOCK_CFGR) reg v) ma"

definition get_reg :: "nat \<Rightarrow> memAddr \<Rightarrow> u32" where
  "get_reg reg ma = load_le 4 (blk ma SLS_BLOCK_CFGR) reg"

definition started :: "Constants \<Rightarrow> memAddr \<Rightarrow> memAddr" where
  "started topo ma = set_reg (exec_sls_register topo) SLS_ENABLE_VALUE (set_reg (psum_poll_register topo) 0 ma)"

text \<open>The reachable states of a run, by the positions of the two threads.\<close>

definition run_inv :: "add_op \<Rightarrow> Constants \<Rightarrow> memAddr \<Rightarrow> proto \<Rightarrow> bool" where
  "run_inv fadd topo m0 s \<longleftrightarrow>
     (let m1 = started topo m0; X = exec_trace fadd topo m1;
          ex = (\<lambda>m. set_reg (exec_sls_register topo) SLS_DISABLE_VALUE m);
          fin = (\<lambda>m. set_reg (psum_poll_register topo) POLL_FINISH_VALUE (ex m)) in
      case (hpc s, wpc s) of
        (HReset, WWait) \<Rightarrow> mem s = m0 \<and> runs s = 0
      | (HEnable, WWait) \<Rightarrow> mem s = set_reg (psum_poll_register topo) 0 m0 \<and> runs s = 0
      | (HPoll, WWait) \<Rightarrow> mem s = m1 \<and> runs s = 0 \<or> (\<exists>m2. X = Inr m2 \<and> mem s = fin m2 \<and> runs s = 1)
      | (HPoll, WExec) \<Rightarrow> mem s = m1 \<and> runs s = 0
      | (HPoll, WClear) \<Rightarrow> X = Inr (mem s) \<and> runs s = 1
      | (HPoll, WFinish) \<Rightarrow> (\<exists>m2. X = Inr m2 \<and> mem s = ex m2) \<and> runs s = 1
      | (HPoll, WDead) \<Rightarrow> (\<exists>e. X = Inl e) \<and> mem s = m1
      | (HDone, WWait) \<Rightarrow> (\<exists>m2. X = Inr m2 \<and> mem s = fin m2) \<and> runs s = 1
      | _ \<Rightarrow> False)"

text \<open>The number of effective steps left in a run.\<close>

definition run_measure :: "proto \<Rightarrow> nat" where
  "run_measure s =
     (case hpc s of HReset \<Rightarrow> 8 | HEnable \<Rightarrow> 7 | HPoll \<Rightarrow> 1 | HDone \<Rightarrow> 0) +
     (if hpc s = HPoll then (case wpc s of WWait \<Rightarrow> if runs s = 0 then 4 else 0 | WExec \<Rightarrow> 3
        | WClear \<Rightarrow> 2 | WFinish \<Rightarrow> 1 | WDead \<Rightarrow> 0) else 0)"

text \<open>A trace execution writes the partial sums, the tags and one register.\<close>

definition exec_frame :: "Constants \<Rightarrow> memAddr \<Rightarrow> memAddr \<Rightarrow> bool" where
  "exec_frame topo m m' \<longleftrightarrow> blk_size m' = blk_size m \<and> blk m' SLS_BLOCK_BASE = blk m SLS_BLOCK_BASE \<and>
     blk m' SLS_BLOCK_INST = blk m SLS_BLOCK_INST \<and>
     (\<forall>x. x < RegPolling topo + 8 \<or> RegPolling topo + 12 \<le> x \<longrightarrow> blk m' SLS_BLOCK_CFGR x = blk m SLS_BLOCK_CFGR x)"

definition run_topo :: Constants where
  "run_topo = small_topo\<lparr>RegSlsExec := 16, RegSlsEn := 20\<rparr>"

section \<open>Lemmas on the thread controls\<close>

lemma disable_all_correct:
  assumes "set is' \<subseteq> {..<length (thread_controls sim)}"
  shows "\<exists>sim'. disable_all is' sim = Inr sim' \<and> length (thread_controls sim') = length (thread_controls sim) \<and>
    thread_pool sim' = thread_pool sim \<and>
    (\<forall>i < length (thread_controls sim). finished_valid (thread_controls sim' ! i) \<longleftrightarrow>
       finished_valid (thread_controls sim ! i) \<and> i \<notin> set is')"
  using assms
proof (induction is' arbitrary: sim)
  case (Cons i is')
  let ?sim1 = "if finished_valid (thread_controls sim ! i)
    then sim\<lparr>thread_controls := (thread_controls sim)[i := \<lparr>stop_flag = True, finished_valid = False\<rparr>]\<rparr> else sim"
  have len: "length (thread_controls ?sim1) = length (thread_controls sim)" by simp
  then have "\<exists>sim'. disable_all is' ?sim1 = Inr sim' \<and> length (thread_controls sim') = length (thread_controls ?sim1) \<and>
    thread_pool sim' = thread_pool ?sim1 \<and>
    (\<forall>j < length (thread_controls ?sim1). finished_valid (thread_controls sim' ! j) \<longleftrightarrow>
       finished_valid (thread_controls ?sim1 ! j) \<and> j \<notin> set is')"
    using Cons.prems by (intro Cons.IH) simp
  moreover have "disable_all (i # is') sim = disable_all is' ?sim1"
    using Cons.prems by (simp add: is_thread_enabled_def disable_thread_def)
  moreover have "i < length (thread_controls sim)" using Cons.prems by simp
  ultimately show ?case by (auto simp: nth_list_update split: if_splits)
qed simp

section \<open>Lemmas on the handshake\<close>

lemma reg_simps [simp]:
  "blk_size (set_reg r v m) = blk_size m"
  "b \<noteq> SLS_BLOCK_CFGR \<Longrightarrow> blk (set_reg r v m) b = blk m b"
  "get_reg r (set_reg r v m) = v"
  "r + 4 \<le> r' \<or> r' + 4 \<le> r \<Longrightarrow> get_reg r (set_reg r' v m) = get_reg r m"
  by (simp_all add: set_reg_def get_reg_def load_store_same load_store_other)

lemma write_reg_ok: "r + 4 \<le> blk_size m SLS_BLOCK_CFGR \<Longrightarrow> write_reg m r v = Inr (set_reg r v m)"
  by (simp add: write_reg_def set_reg_def)

lemma read_reg_ok: "r + 4 \<le> blk_size m SLS_BLOCK_CFGR \<Longrightarrow> read_reg m r = Inr (get_reg r m)"
  by (simp add: read_reg_def get_reg_def)

lemma exec_frame_trans: "exec_frame topo m m' \<Longrightarrow> exec_frame topo m' m'' \<Longrightarrow> exec_frame topo m m''"
  by (simp add: exec_frame_def)

lemma exec_instr_frame: "exec_instr fadd topo md d m = Inr m' \<Longrightarrow> exec_frame topo m m'"
  by (auto simp: exec_instr_def sparse_ft_sum_def sparse_ft_sum_tagged_def exec_frame_def Let_def bind_r_Inr_iff
      split: if_splits)

lemma exec_loop_frame: "exec_loop k fadd topo i md m = Inr m' \<Longrightarrow> exec_frame topo m m'"
proof (induction k arbitrary: i md m)
  case 0
  then show ?case by (simp add: exec_frame_def)
next
  case (Suc k)
  show ?case
  proof (cases md)
    case None
    then show ?thesis using Suc by (auto simp: Let_def bind_r_Inr_iff split: if_splits)
  next
    case (Some mode)
    then obtain m1 where m1: "exec_instr fadd topo mode (decode_instruction (load_le 8 (blk m SLS_BLOCK_INST) (8 * i))) m = Inr m1"
      and rest: "write_reg m1 (RegPolling topo + POLL_INST_NUM_OFFSET) (of_nat (i + 1)) = Inr m' \<or>
        exec_loop k fadd topo (i + 1) (Some mode) m1 = Inr m'"
      using Suc.prems by (auto simp: Let_def bind_r_Inr_iff assert_r_Inr_iff split: if_splits)
    have "exec_frame topo m1 m'"
      using rest Suc.IH [of "i + 1" "Some mode" m1]
      by (auto simp: write_reg_def exec_frame_def POLL_INST_NUM_OFFSET_def store_le_outside split: if_splits)
    then show ?thesis using exec_instr_frame [OF m1] exec_frame_trans by blast
  qed
qed

lemma exec_trace_frame: "exec_trace fadd topo m = Inr m' \<Longrightarrow> exec_frame topo m m'"
  unfolding exec_trace_def by (rule exec_loop_frame)

lemma exec_frame_reg:
  assumes "exec_frame topo m m'" "r + 4 \<le> RegPolling topo + 8 \<or> RegPolling topo + 12 \<le> r"
  shows "get_reg r m' = get_reg r m"
  unfolding get_reg_def using assms by (intro load_le_cong) (auto simp: exec_frame_def)

lemmas run_regs = regs_ok_def psum_poll_register_def exec_sls_register_def started_def
lemmas run_values = SLS_ENABLE_VALUE_def SLS_DISABLE_VALUE_def POLL_FINISH_VALUE_def

lemma executed_regs:
  assumes "regs_ok topo m0" "exec_trace fadd topo (started topo m0) = Inr m2"
  shows "blk_size m2 = blk_size m0" "get_reg (psum_poll_register topo) m2 = 0" "get_reg (exec_sls_register topo) m2 = SLS_ENABLE_VALUE"
proof -
  have f: "exec_frame topo (started topo m0) m2" using assms(2) by (rule exec_trace_frame)
  then show "blk_size m2 = blk_size m0" by (simp add: exec_frame_def started_def)
  have "get_reg (psum_poll_register topo) m2 = get_reg (psum_poll_register topo) (started topo m0)"
    using f by (rule exec_frame_reg) (simp add: psum_poll_register_def)
  then show "get_reg (psum_poll_register topo) m2 = 0" using assms(1) by (auto simp: run_regs)
  have "get_reg (exec_sls_register topo) m2 = get_reg (exec_sls_register topo) (started topo m0)"
    using f by (rule exec_frame_reg) (use assms(1) in \<open>auto simp: run_regs\<close>)
  then show "get_reg (exec_sls_register topo) m2 = SLS_ENABLE_VALUE" by (simp add: run_regs)
qed

lemma run_inv_cases:
  assumes "run_inv fadd topo m0 s"
  obtains (reset) "hpc s = HReset" "wpc s = WWait" "mem s = m0" "runs s = 0"
  | (enable) "hpc s = HEnable" "wpc s = WWait" "mem s = set_reg (psum_poll_register topo) 0 m0" "runs s = 0"
  | (start) "hpc s = HPoll" "wpc s = WWait" "mem s = started topo m0" "runs s = 0"
  | (exec) "hpc s = HPoll" "wpc s = WExec" "mem s = started topo m0" "runs s = 0"
  | (clear) m2 where "hpc s = HPoll" "wpc s = WClear" "exec_trace fadd topo (started topo m0) = Inr m2" "mem s = m2" "runs s = 1"
  | (finish) m2 where "hpc s = HPoll" "wpc s = WFinish" "exec_trace fadd topo (started topo m0) = Inr m2"
      "mem s = set_reg (exec_sls_register topo) SLS_DISABLE_VALUE m2" "runs s = 1"
  | (dead) e where "hpc s = HPoll" "wpc s = WDead" "exec_trace fadd topo (started topo m0) = Inl e" "mem s = started topo m0"
  | (report) m2 where "hpc s = HPoll \<or> hpc s = HDone" "wpc s = WWait" "exec_trace fadd topo (started topo m0) = Inr m2"
      "mem s = set_reg (psum_poll_register topo) POLL_FINISH_VALUE (set_reg (exec_sls_register topo) SLS_DISABLE_VALUE m2)" "runs s = 1"
  using assms unfolding run_inv_def Let_def
  by (cases "hpc s"; cases "wpc s") (auto split: prod.splits)

lemma run_inv_step:
  assumes "run_step fadd topo s s'" "run_inv fadd topo m0 s" "regs_ok topo m0" "get_reg (exec_sls_register topo) m0 \<noteq> SLS_ENABLE_VALUE"
  shows "run_inv fadd topo m0 s'"
proof -
  have ok: "psum_poll_register topo + 4 \<le> blk_size m0 SLS_BLOCK_CFGR" "exec_sls_register topo + 4 \<le> blk_size m0 SLS_BLOCK_CFGR"
    "exec_sls_register topo + 4 \<le> psum_poll_register topo \<or> psum_poll_register topo + 4 \<le> exec_sls_register topo"
    "psum_poll_register topo + 4 \<le> exec_sls_register topo \<or> exec_sls_register topo + 4 \<le> psum_poll_register topo"
    using assms(3) by (auto simp: run_regs)
  have st: "blk_size (started topo m0) = blk_size m0" "get_reg (psum_poll_register topo) (started topo m0) = 0"
    "get_reg (exec_sls_register topo) (started topo m0) = SLS_ENABLE_VALUE"
    using ok by (simp_all add: started_def)
  have neq: "SLS_ENABLE_VALUE \<noteq> SLS_DISABLE_VALUE" "POLL_FINISH_VALUE \<noteq> 0" by (simp_all add: run_values)
  note regs = write_reg_ok read_reg_ok reset_psum_poll_register_def run_inv_def Let_def
  from assms(2) show ?thesis
  proof (cases rule: run_inv_cases)
    case reset
    then show ?thesis using assms(4) ok by (cases rule: run_step.cases [OF assms(1)]) (auto simp: regs)
  next
    case enable
    then show ?thesis using assms(4) ok by (cases rule: run_step.cases [OF assms(1)]) (auto simp: regs started_def)
  next
    case start
    then show ?thesis using ok st neq by (cases rule: run_step.cases [OF assms(1)]) (auto simp: regs)
  next
    case exec
    then show ?thesis using ok st neq by (cases rule: run_step.cases [OF assms(1)]) (auto simp: regs)
  next
    case (clear m2)
    then show ?thesis using ok executed_regs [OF assms(3) clear(3)] neq
      by (cases rule: run_step.cases [OF assms(1)]) (auto simp: regs)
  next
    case (finish m2)
    then show ?thesis using ok executed_regs [OF assms(3) finish(3)] neq
      by (cases rule: run_step.cases [OF assms(1)]) (auto simp: regs)
  next
    case (dead e)
    then show ?thesis using ok st neq by (cases rule: run_step.cases [OF assms(1)]) (auto simp: regs)
  next
    case (report m2)
    then show ?thesis using ok executed_regs [OF assms(3) report(3)] neq
      by (cases rule: run_step.cases [OF assms(1)]) (auto simp: regs)
  qed
qed


lemma run_inv_reachable:
  assumes "(run_step fadd topo)\<^sup>*\<^sup>* (run_init m0) s" "regs_ok topo m0" "get_reg (exec_sls_register topo) m0 \<noteq> SLS_ENABLE_VALUE"
  shows "run_inv fadd topo m0 s"
  using assms(1)
proof (induction rule: rtranclp_induct)
  case base
  then show ?case by (simp add: run_inv_def run_init_def)
next
  case (step s s')
  then show ?case using assms(2,3) by (blast intro: run_inv_step)
qed

lemma cu_run_eq:
  assumes "regs_ok topo m0" "exec_trace fadd topo (started topo m0) = Inr m2"
  shows "cu_run fadd topo m0 = Inr (set_reg (psum_poll_register topo) POLL_FINISH_VALUE
    (set_reg (exec_sls_register topo) SLS_DISABLE_VALUE m2))"
proof -
  have ok: "psum_poll_register topo + 4 \<le> blk_size m0 SLS_BLOCK_CFGR" "exec_sls_register topo + 4 \<le> blk_size m0 SLS_BLOCK_CFGR"
    using assms(1) by (auto simp: run_regs)
  have "cu_run_async topo m0 = Inr (started topo m0)"
    using ok by (simp add: cu_run_async_def write_exec_sls_register_def reset_psum_poll_register_def write_reg_ok started_def)
  moreover have "blk_size (started topo m0) = blk_size m0" "get_reg (exec_sls_register topo) (started topo m0) = SLS_ENABLE_VALUE"
    by (simp_all add: started_def)
  ultimately show ?thesis using ok assms(2) executed_regs(1) [OF assms]
    by (simp add: cu_run_def worker_round_def read_reg_ok write_reg_ok cu_poll_def poll_register_def)
qed

lemma progressI:
  "run_step fadd topo s s' \<Longrightarrow> run_measure s' < run_measure s \<Longrightarrow> \<exists>s'. run_step fadd topo s s' \<and> run_measure s' < run_measure s"
  by blast

lemma run_inv_progress:
  assumes "run_inv fadd topo m0 s" "regs_ok topo m0" "get_reg (exec_sls_register topo) m0 \<noteq> SLS_ENABLE_VALUE"
    "exec_trace fadd topo (started topo m0) = Inr mx"
  shows "run_step fadd topo s s' \<Longrightarrow> s' = s \<or> run_measure s' < run_measure s"
    and "hpc s \<noteq> HDone \<Longrightarrow> \<exists>s'. run_step fadd topo s s' \<and> run_measure s' < run_measure s"
proof -
  have ok: "psum_poll_register topo + 4 \<le> blk_size m0 SLS_BLOCK_CFGR" "exec_sls_register topo + 4 \<le> blk_size m0 SLS_BLOCK_CFGR"
    using assms(2) by (auto simp: run_regs)
  have st: "blk_size (started topo m0) = blk_size m0" "get_reg (exec_sls_register topo) (started topo m0) = SLS_ENABLE_VALUE"
    "get_reg (psum_poll_register topo) (started topo m0) = 0"
    using assms(2) by (auto simp: run_regs)
  have mx: "blk_size mx = blk_size m0" "get_reg (psum_poll_register topo) mx = 0" using executed_regs [OF assms(2,4)] by auto
  have ex: "get_reg (psum_poll_register topo) (set_reg (exec_sls_register topo) v m) = get_reg (psum_poll_register topo) m" for v m
    using assms(2) by (auto simp: run_regs)
  have neq: "POLL_FINISH_VALUE \<noteq> 0" by (simp add: run_values)
  note regs = write_reg_ok read_reg_ok reset_psum_poll_register_def run_measure_def
  have ex2: "get_reg (exec_sls_register topo) (set_reg (psum_poll_register topo) v m) = get_reg (exec_sls_register topo) m" for v m
    using assms(2) by (auto simp: run_regs)
  have neq2: "SLS_ENABLE_VALUE \<noteq> SLS_DISABLE_VALUE" by (simp add: run_values)
  show "s' = s \<or> run_measure s' < run_measure s" if step: "run_step fadd topo s s'"
    using assms(1)
  proof (cases rule: run_inv_cases)
    case reset
    then show ?thesis using ok assms(3) by (cases rule: run_step.cases [OF step]) (auto simp: regs)
  next
    case enable
    then show ?thesis using ok assms(3) ex2 by (cases rule: run_step.cases [OF step]) (auto simp: regs)
  next
    case start
    then show ?thesis using ok st neq by (cases rule: run_step.cases [OF step]) (auto simp: regs)
  next
    case exec
    then show ?thesis using ok assms(4) by (cases rule: run_step.cases [OF step]) (auto simp: regs)
  next
    case (clear m2)
    then show ?thesis using ok mx neq assms(4) by (cases rule: run_step.cases [OF step]) (auto simp: regs)
  next
    case (finish m2)
    then show ?thesis using ok mx ex neq assms(4) by (cases rule: run_step.cases [OF step]) (auto simp: regs)
  next
    case (dead e)
    then show ?thesis using ok assms(4) by (cases rule: run_step.cases [OF step]) (auto simp: regs)
  next
    case (report m2)
    then show ?thesis using ok mx assms(4) ex2 neq2 by (cases rule: run_step.cases [OF step]) (auto simp: regs)
  qed
  assume nd: "hpc s \<noteq> HDone"
  from assms(1) show "\<exists>s'. run_step fadd topo s s' \<and> run_measure s' < run_measure s"
  proof (cases rule: run_inv_cases)
    case reset
    show ?thesis by (rule progressI [OF run_step.host_reset]) (use reset ok in \<open>auto simp: regs\<close>)
  next
    case enable
    show ?thesis by (rule progressI [OF run_step.host_enable]) (use enable ok in \<open>auto simp: regs\<close>)
  next
    case start
    show ?thesis by (rule progressI [OF run_step.worker_start]) (use start ok st in \<open>auto simp: regs\<close>)
  next
    case exec
    show ?thesis by (rule progressI [OF run_step.worker_exec]) (use exec assms(4) in \<open>auto simp: regs\<close>)
  next
    case (clear m2)
    show ?thesis by (rule progressI [OF run_step.worker_clear]) (use clear ok mx assms(4) in \<open>auto simp: regs\<close>)
  next
    case (finish m2)
    show ?thesis by (rule progressI [OF run_step.worker_finish]) (use finish ok mx assms(4) in \<open>auto simp: regs\<close>)
  next
    case (dead e)
    then show ?thesis using assms(4) by simp
  next
    case (report m2)
    show ?thesis by (rule progressI [OF run_step.host_done]) (use report ok mx nd assms(4) in \<open>auto simp: regs\<close>)
  qed
qed

lemma run_reaches_done:
  assumes "regs_ok topo ma" "get_reg (exec_sls_register topo) ma \<noteq> SLS_ENABLE_VALUE"
    "exec_trace fadd topo (started topo ma) = Inr m2"
  shows "\<exists>s. (run_step fadd topo)\<^sup>*\<^sup>* (run_init ma) s \<and> hpc s = HDone"
proof -
  have "\<exists>s'. (run_step fadd topo)\<^sup>*\<^sup>* (run_init ma) s' \<and> hpc s' = HDone" if "(run_step fadd topo)\<^sup>*\<^sup>* (run_init ma) s" for s
    using that
  proof (induction "run_measure s" arbitrary: s rule: less_induct)
    case less
    show ?case
    proof (cases "hpc s = HDone")
      case False
      then obtain s' where "run_step fadd topo s s'" "run_measure s' < run_measure s"
        using run_inv_progress(2) [OF run_inv_reachable [OF less.prems assms(1,2)] assms] by blast
      then show ?thesis using less by (meson rtranclp.rtrancl_into_rtrancl)
    qed (use less.prems in blast)
  qed
  then show ?thesis by blast
qed

lemma small_run:
  "regs_ok run_topo small_mem" "get_reg (exec_sls_register run_topo) small_mem \<noteq> SLS_ENABLE_VALUE"
  "\<exists>m2. exec_trace (\<lambda>x y. x) run_topo (started run_topo small_mem) = Inr m2"
proof -
  show "regs_ok run_topo small_mem" by (simp add: regs_ok_def run_topo_def small_topo_def small_mem_def)
  show "get_reg (exec_sls_register run_topo) small_mem \<noteq> SLS_ENABLE_VALUE"
  proof -
    have "\<not> bit (get_reg (exec_sls_register run_topo) small_mem) 2" "bit SLS_ENABLE_VALUE 2"
      by (simp_all add: get_reg_def bit_load_le small_mem_def run_values)
    then show ?thesis by metis
  qed
  let ?w = "instr_word small_inst" and ?m = "started run_topo small_mem"
  have ff: "fields_fit small_inst" by (simp add: fields_fit_iff small_inst_def)
  have d: "decode_instruction ?w = small_inst" by (rule decode_instr_word [OF ff])
  have a: "channel_encode_address small_inst = 0"
    by (rule bit_word_eqI) (simp add: bit_channel_encode rank_bit_def small_inst_def)
  have lk: "map word_lookup [?w] = [(1, 0)]" by (simp add: word_lookup_def d a) (simp add: small_inst_def)
  have i: "inst_at ?m 0 [0, ?w]"
  proof (rule inst_atI)
    fix k assume "k < length [0, ?w]"
    then show "load_le 8 (blk ?m SLS_BLOCK_INST) (8 * (0 + k)) = [0, ?w] ! k"
      using load_write_word [of 8 k "[0, ?w]" "\<lambda>_. 0" 0] by (simp add: started_def small_mem_def)
  qed (simp add: started_def small_mem_def)
  have "\<forall>w \<in> set [?w]. opcode (decode_instruction w) = 2" "map (\<lambda>w. trace_end (decode_instruction w)) [?w] = replicate (length [?w] - 1) 0 @ [1]"
    by (simp_all add: d) (simp_all add: small_inst_def)
  moreover have "read_header 0 = Inr \<lparr>mode_bytes_per_idx = 64, mode_is_tagged = False\<rparr>"
    by (simp add: read_header_def get_bytes_per_idx_def)
  moreover have "lookups_ok 64 ?m (map word_lookup [?w])"
    unfolding lk by (simp add: lookups_ok_def started_def small_mem_def)
  moreover have "RegPolling run_topo + POLL_INST_NUM_OFFSET + 4 \<le> blk_size ?m SLS_BLOCK_CFGR" "Suc (length [?w]) \<le> inst_per_single_buf run_topo"
    by (simp_all add: run_topo_def small_topo_def POLL_INST_NUM_OFFSET_def started_def small_mem_def inst_per_single_buf_def inst_single_buf_size_def)
  moreover have "[?w] \<noteq> []" "(2 :: u32) \<in> {0, 2, 3}" "4 dvd (64 :: nat)" by simp_all
  ultimately show "\<exists>m2. exec_trace (\<lambda>x y. x) run_topo ?m = Inr m2"
    using exec_trace_correct [OF i, of run_topo 64 2 "\<lambda>x y. x"] by blast
qed

section \<open>Properties\<close>

text \<open>
  C7: whatever the interleaving of the host thread and the simulator thread, when the host's run
  returns, the trace has been executed exactly once and the memory is the one of the sequential
  run, with the enable register cleared.
\<close>
theorem run_refines_sequential:
  assumes "regs_ok topo ma" "get_reg (exec_sls_register topo) ma \<noteq> SLS_ENABLE_VALUE"
    "(run_step fadd topo)\<^sup>*\<^sup>* (run_init ma) s" "hpc s = HDone"
  shows "cu_run fadd topo ma = Inr (mem s) \<and> runs s = 1 \<and> get_reg (exec_sls_register topo) (mem s) = SLS_DISABLE_VALUE"
proof -
  obtain m2 where m2: "exec_trace fadd topo (started topo ma) = Inr m2" "runs s = 1"
    "mem s = set_reg (psum_poll_register topo) POLL_FINISH_VALUE (set_reg (exec_sls_register topo) SLS_DISABLE_VALUE m2)"
    using run_inv_reachable [OF assms(3,1,2)] assms(4) by (cases rule: run_inv_cases) auto
  moreover have "get_reg (exec_sls_register topo) (mem s) = SLS_DISABLE_VALUE"
    using assms(1) unfolding m2(3) by (subst reg_simps(4)) (auto simp: run_regs)
  ultimately show ?thesis using cu_run_eq [OF assms(1) m2(1)] by simp
qed

theorem run_refines_sequential_witness:
  "\<exists>s. (run_step (\<lambda>x y. x) run_topo)\<^sup>*\<^sup>* (run_init small_mem) s \<and> cu_run (\<lambda>x y. x) run_topo small_mem = Inr (mem s)"
proof -
  obtain s where "(run_step (\<lambda>x y. x) run_topo)\<^sup>*\<^sup>* (run_init small_mem) s" "hpc s = HDone"
    using run_reaches_done [OF small_run(1,2)] small_run(3) by blast
  then show ?thesis using run_refines_sequential [OF small_run(1,2)] by blast
qed

text \<open>
  C14: a run always makes progress: in every reachable state each step either changes nothing (a
  poll that fails) or brings the run closer to its end, and as long as the host has not returned
  there is a step of the second kind. A run whose threads are both scheduled therefore returns.
\<close>
theorem run_progress:
  assumes "regs_ok topo ma" "get_reg (exec_sls_register topo) ma \<noteq> SLS_ENABLE_VALUE"
    "exec_trace fadd topo (started topo ma) = Inr m2" "(run_step fadd topo)\<^sup>*\<^sup>* (run_init ma) s"
  shows "(\<forall>s'. run_step fadd topo s s' \<longrightarrow> s' = s \<or> run_measure s' < run_measure s) \<and>
    (hpc s \<noteq> HDone \<longrightarrow> (\<exists>s'. run_step fadd topo s s' \<and> run_measure s' < run_measure s))"
  using run_inv_progress [OF run_inv_reachable [OF assms(4,1,2)] assms(1,2,3)] by blast


theorem run_progress_witness:
  "\<exists>s'. run_step (\<lambda>x y. x) run_topo (run_init small_mem) s' \<and> run_measure s' < run_measure (run_init small_mem)"
proof -
  obtain m2 where "exec_trace (\<lambda>x y. x) run_topo (started run_topo small_mem) = Inr m2" using small_run(3) by blast
  from run_progress [OF small_run(1,2) this, of "run_init small_mem"] show ?thesis by (simp add: run_init_def)
qed

text \<open>
  Stopping the simulator stops exactly the threads that run: afterwards no thread is enabled
  and the pool is gone, so the simulator can be destroyed; and an enabled thread can be disabled
  and not enabled again, a disabled one enabled and not disabled again.
\<close>
theorem sim_threads_lifecycle:
  assumes "i < length (thread_controls sim)"
  shows "(\<exists>sim'. sim_stop sim = Inr sim' \<and> sim_destroy sim' = Inr () \<and>
      (\<forall>j < length (thread_controls sim). is_thread_enabled sim' j = Inr False)) \<and>
    (if finished_valid (thread_controls sim ! i)
     then (\<exists>sim'. disable_thread sim i = Inr sim' \<and> is_thread_enabled sim' i = Inr False \<and> should_stop sim' i) \<and>
       (thread_pool sim \<longrightarrow> enable_thread sim i = Inl (Throw InvalidArguments))
     else disable_thread sim i = Inl (Throw InvalidArguments) \<and>
       (thread_pool sim \<longrightarrow> (\<exists>sim'. enable_thread sim i = Inr sim' \<and> is_thread_enabled sim' i = Inr True \<and> \<not> should_stop sim' i)))"
proof -
  obtain sim' where "disable_all [0..<length (thread_controls sim)] sim = Inr sim'"
    "length (thread_controls sim') = length (thread_controls sim)"
    "\<forall>j < length (thread_controls sim). \<not> finished_valid (thread_controls sim' ! j)"
    using disable_all_correct [of "[0..<length (thread_controls sim)]" sim] by (auto simp: subset_iff)
  then have "\<exists>sim'. sim_stop sim = Inr sim' \<and> sim_destroy sim' = Inr () \<and>
      (\<forall>j < length (thread_controls sim). is_thread_enabled sim' j = Inr False)"
    by (simp add: sim_stop_def sim_destroy_def is_thread_enabled_def)
  then show ?thesis using assms
    by (auto simp: disable_thread_def enable_thread_def is_thread_enabled_def should_stop_def)
qed

theorem sim_threads_lifecycle_witness:
  "\<exists>sim'. enable_thread \<lparr>thread_pool = True, thread_controls = [\<lparr>stop_flag = True, finished_valid = False\<rparr>]\<rparr> 0 = Inr sim' \<and>
     is_thread_enabled sim' 0 = Inr True"
  using sim_threads_lifecycle [of 0 "\<lparr>thread_pool = True, thread_controls = [\<lparr>stop_flag = True, finished_valid = False\<rparr>]\<rparr>"]
  by auto

end
