(* ===== verification/Cxl_Runner.thy ===== *)
theory Cxl_Runner
  imports Sim_Protocol Sparse_Reduction Cpu_Sls "HOL-Library.Multiset"
begin

text \<open>
  The runner of reductions on CXL devices (\<open>core/operation_runner/reduction/cxl_runner.h\<close> and
  \<open>core.h\<close>): for every execution of a pack it writes the trace, resets the partial sums, runs the
  compute unit and copies the outputs to the user's buffer. The packs are run by several threads;
  the model runs them one after the other in an arbitrary order, on arbitrary compute units of
  their packs. The last part proves that the user's buffer then holds what the host reference
  computes.
\<close>

section \<open>The runner\<close>

definition view_cast_bytes :: "u64 list \<Rightarrow> u8 list" where
  "view_cast_bytes ws = concat (map (word_bytes 8) ws)"

definition reset_output_buffers :: "memAddr \<Rightarrow> nat \<Rightarrow> memAddr result" where
  "reset_output_buffers ma n =
     (if n \<le> blk_size ma SLS_BLOCK_PSUM
      then Inr (set_blk SLS_BLOCK_PSUM (write_bytes (blk ma SLS_BLOCK_PSUM) 0 (replicate n 0)) ma) else Inl Undefined)"

definition dispatch_read_op :: "Constants \<Rightarrow> memAddr \<Rightarrow> nat \<Rightarrow> u8 list \<Rightarrow> u8 list result" where
  "dispatch_read_op topo ma output_id dst =
     (if output_id = 0 then cu_read_buffer FUNCSIM topo ma PSUM (length dst)
      else if output_id = 1 then bind_r (cu_read_buffer FUNCSIM topo ma TAGS (length dst))
             (\<lambda>bs. Inr (bs @ drop (length bs) dst))
      else Inl (Throw NotSupported))"

primrec read_outputs ::
  "nat list \<Rightarrow> Constants \<Rightarrow> SparseReduction \<Rightarrow> memAddr \<Rightarrow> nat \<Rightarrow> nat \<Rightarrow> u8 list \<Rightarrow> u8 list \<Rightarrow> u8 list result" where
  "read_outputs [] topo sr ma pack exec_id buf out = Inr out"
| "read_outputs (output_id # ids) topo sr ma pack exec_id buf out =
     bind_r (dispatch_read_op topo ma output_id buf) (\<lambda>buf.
     bind_r (write_result topo sr output_id pack exec_id buf out) (\<lambda>out.
       read_outputs ids topo sr ma pack exec_id buf out))"

definition read_output_buffers ::
  "Constants \<Rightarrow> SparseReduction \<Rightarrow> memAddr \<Rightarrow> nat \<Rightarrow> nat \<Rightarrow> u8 list \<Rightarrow> u8 list result" where
  "read_output_buffers topo sr ma pack exec_id out =
     bind_r (get_tmp_buffer_size sr pack exec_id) (\<lambda>n.
       read_outputs [0..<get_num_outputs sr] topo sr ma pack exec_id (replicate n 0) out)"

definition process_exec ::
  "add_op \<Rightarrow> Constants \<Rightarrow> SparseReduction \<Rightarrow> nat \<Rightarrow> nat \<Rightarrow> nat \<Rightarrow> memAddr \<times> u8 list \<Rightarrow> (memAddr \<times> u8 list) result" where
  "process_exec fadd topo sr pack cu exec_id = (\<lambda>(ma, out).
     bind_r (op_generate_instructions channel_decode_address sr pack cu exec_id) (\<lambda>trace.
     bind_r (cu_write_buffer ma INST (view_cast_bytes trace)) (\<lambda>ma.
     bind_r (get_tmp_buffer_size sr pack exec_id) (\<lambda>n.
     bind_r (reset_output_buffers ma n) (\<lambda>ma.
     bind_r (cu_run fadd topo ma) (\<lambda>ma.
     bind_r (read_output_buffers topo sr ma pack exec_id out) (\<lambda>out. Inr (ma, out))))))))"

primrec process_exec_list ::
  "nat list \<Rightarrow> add_op \<Rightarrow> Constants \<Rightarrow> SparseReduction \<Rightarrow> nat \<Rightarrow> nat \<Rightarrow> memAddr \<times> u8 list \<Rightarrow> (memAddr \<times> u8 list) result" where
  "process_exec_list [] fadd topo sr pack cu s = Inr s"
| "process_exec_list (i # is') fadd topo sr pack cu s =
     bind_r (process_exec fadd topo sr pack cu i s) (process_exec_list is' fadd topo sr pack cu)"

definition process_execs ::
  "add_op \<Rightarrow> Constants \<Rightarrow> SparseReduction \<Rightarrow> nat \<Rightarrow> nat \<Rightarrow> memAddr \<times> u8 list \<Rightarrow> (memAddr \<times> u8 list) result" where
  "process_execs fadd topo sr pack cu = process_exec_list [0..<get_num_exec_iterations sr pack] fadd topo sr pack cu"

text \<open>
  A pack runs on one of its compute units; which one the driver gives, and its answer to the
  release, are arguments. A pack without compute units waits for ever.
\<close>

definition run_on_pack ::
  "add_op \<Rightarrow> Constants \<Rightarrow> SparseReduction \<Rightarrow> nat \<Rightarrow> nat \<Rightarrow> int \<Rightarrow> memAddr list \<times> u8 list \<Rightarrow> (memAddr list \<times> u8 list) result" where
  "run_on_pack fadd topo sr pack cu res = (\<lambda>(dev, out).
     if \<not> bit pack cu then Inl Blocked
     else if cu < length dev then
       bind_r (cu_open topo (dev ! cu)) (\<lambda>ma.
       bind_r (process_execs fadd topo sr pack cu (ma, out)) (\<lambda>(ma, out).
       bind_r (cu_close topo ma res) (\<lambda>ma. Inr (dev[cu := ma], out))))
     else Inl Undefined)"

text \<open>
  The packs of an operation: the first one with executions runs on the calling thread, the others
  on the workers; pack 0 stands for none.
\<close>

definition packs_to_run :: "Constants \<Rightarrow> SparseReduction \<Rightarrow> nat list" where
  "packs_to_run topo sr =
     (let ps = filter (\<lambda>p. get_num_exec_iterations sr p \<noteq> 0) (pack_identifiers topo) in if ps = [] then [0] else ps)"

primrec run_operation ::
  "(nat \<times> nat \<times> int) list \<Rightarrow> add_op \<Rightarrow> Constants \<Rightarrow> SparseReduction \<Rightarrow> memAddr list \<times> u8 list \<Rightarrow>
   (memAddr list \<times> u8 list) result" where
  "run_operation [] fadd topo sr s = Inr s"
| "run_operation (x # xs) fadd topo sr s =
     (case x of (pack, cu, res) \<Rightarrow> bind_r (run_on_pack fadd topo sr pack cu res s) (run_operation xs fadd topo sr))"

text \<open>A schedule of an operation: its packs in the order in which the threads get to them.\<close>

definition valid_schedule :: "Constants \<Rightarrow> SparseReduction \<Rightarrow> (nat \<times> nat \<times> int) list \<Rightarrow> bool" where
  "valid_schedule topo sr sched \<longleftrightarrow> mset (map fst sched) = mset (packs_to_run topo sr)"

section \<open>Specification\<close>

text \<open>
  The tables of a request are loaded into a compute unit when every row of every table object of
  the pack is stored at the object's offset, within the block and within the reach of the
  instruction's address and of the 32-bit row offset. \<open>unit_ok\<close> collects what a compute unit
  offers: registers, and room for the buffers.
\<close>

definition loaded :: "Constants \<Rightarrow> SlsOperation \<Rightarrow> u32 list list list \<Rightarrow> nat \<Rightarrow> MemoryObject list \<Rightarrow> memAddr \<Rightarrow> bool" where
  "loaded topo op tables cu objs ma \<longleftrightarrow> (\<forall>ob \<in> set objs. \<exists>off. obj_offset ob cu = Inr off \<and>
     (let T = tables ! object_id ob; nb = sparse_feature_size op * DataSize topo in
      length T * nb \<le> 2 ^ 32 \<and> unat off + length T * nb \<le> blk_size ma SLS_BLOCK_BASE \<and> unat off + length T * nb < 2 ^ 64 \<and>
      (\<forall>r < length T. addr_ok (off + of_nat (r * nb)) \<and>
         elems32 (blk ma SLS_BLOCK_BASE) (unat off + r * nb) (sparse_feature_size op) = T ! r)))"

definition unit_ok :: "Constants \<Rightarrow> memAddr \<Rightarrow> bool" where
  "unit_ok topo ma \<longleftrightarrow> regs_ok topo ma \<and>
     psum_single_buf_size topo \<le> blk_size ma SLS_BLOCK_PSUM \<and> inst_single_buf_size topo \<le> blk_size ma SLS_BLOCK_INST"

definition tables_ok :: "SlsOperation \<Rightarrow> u32 list list list \<Rightarrow> bool" where
  "tables_ok op tables \<longleftrightarrow> map length tables = tables_sizes op \<and> tables_wf (sparse_feature_size op) tables \<and>
     (\<forall>t \<in> set tables. length t < 2 ^ 32) \<and>
     segs_ok (per_table (minibatch_size op) tables (segments (lengths op) (indices op)))"

definition sim_ok :: "Constants \<Rightarrow> SlsOperation \<Rightarrow> bool" where
  "sim_ok topo op \<longleftrightarrow> InstructionSize topo = 8 \<and> DataSize topo = 4 \<and> sparse_feature_size op \<in> {16, 32, 64} \<and>
     \<not> is_tagged op \<and> 8 dvd inst_single_buf_size topo \<and>
     psum_single_buf_size topo div (sparse_feature_size op * DataSize topo) \<le> 2 ^ 12 \<and>
     (\<forall>l \<in> set (lengths op). (l + 1) * 8 \<le> inst_single_buf_size topo)"

text \<open>The row of the pair with number \<open>s\<close> and its bytes.\<close>

definition pair_sum :: "add_op \<Rightarrow> SlsOperation \<Rightarrow> u32 list list list \<Rightarrow> nat \<Rightarrow> u32 list" where
  "pair_sum add op tables s = sls_sum add (sparse_feature_size op) (tables ! (s div minibatch_size op))
     (segments (lengths op) (indices op) ! s)"

definition row_bytes :: "u32 list \<Rightarrow> u8 list" where
  "row_bytes r = concat (map (word_bytes 4) r)"

text \<open>The chunk of an execution as the trace generator sees it.\<close>

definition td_chunk :: "SlsOperation \<Rightarrow> nat \<Rightarrow> MemoryObject list \<Rightarrow> TableData \<Rightarrow> u64 \<times> u32 list list" where
  "td_chunk op cu objs td =
     (projr (obj_offset (the (find (\<lambda>ob. object_id ob = table_id td) objs)) cu),
      take (table_batches_chunk td) (drop (td_slot op td) (segments (lengths op) (indices op))))"

text \<open>The offset of a table in a compute unit and the pairs of an execution in the order of its outputs.\<close>

definition tab_off :: "nat \<Rightarrow> MemoryObject list \<Rightarrow> nat \<Rightarrow> u64" where
  "tab_off cu objs t = projr (obj_offset (the (find (\<lambda>ob. object_id ob = t) objs)) cu)"

definition exec_slot_list :: "SlsOperation \<Rightarrow> Execution \<Rightarrow> nat list" where
  "exec_slot_list op e = concat (map (td_slots op) (tables_data e))"

text \<open>What an execution of a pack of a well-formed request looks like.\<close>

definition ready ::
  "Constants \<Rightarrow> SlsOperation \<Rightarrow> u32 list list list \<Rightarrow> SparseReduction \<Rightarrow> nat \<Rightarrow> bool" where
  "ready topo op tables sr p \<longleftrightarrow> req_ok topo op \<and> sim_ok topo op \<and> tables_ok op tables \<and>
     SparseReduction_make None topo op = Inr sr \<and> p \<in> set (pack_identifiers topo)"

text \<open>The pairs of an execution, the row of a pair, and a buffer in which the rows of some pairs are new.\<close>

definition exec_slots_of :: "SlsOperation \<Rightarrow> SparseReduction \<Rightarrow> nat \<Rightarrow> nat \<Rightarrow> nat list" where
  "exec_slots_of op sr p i = exec_slot_list op (get_pack_execs (exec_gen sr) p ! i)"

definition new_row :: "add_op \<Rightarrow> SlsOperation \<Rightarrow> u32 list list list \<Rightarrow> nat \<Rightarrow> u8 list" where
  "new_row fadd op tables s = row_bytes (pair_sum (op_add fadd (op_code (sls_type op))) op tables s)"

definition merge_rows :: "nat \<Rightarrow> nat set \<Rightarrow> (nat \<Rightarrow> u8 list) \<Rightarrow> (nat \<Rightarrow> u8 list) \<Rightarrow> u8 list" where
  "merge_rows n S new old = concat (map (\<lambda>s. if s \<in> S then new s else old s) [0..<n])"

text \<open>
  A step of a schedule can run: the compute unit belongs to the pack, the driver releases it, and
  the pack's tables are loaded. Runs do not change the tables.
\<close>

definition unit_ready ::
  "Constants \<Rightarrow> SlsOperation \<Rightarrow> u32 list list list \<Rightarrow> memAddr list \<Rightarrow> nat \<times> nat \<times> int \<Rightarrow> bool" where
  "unit_ready topo op tables dev x = (case x of (p, cu, res) \<Rightarrow> bit p cu \<and> cu < length dev \<and> 0 \<le> res \<and>
     unit_ok topo (dev ! cu) \<and> loaded topo op tables cu (tables_objects op ! p) (dev ! cu))"

definition same_tables :: "memAddr list \<Rightarrow> memAddr list \<Rightarrow> bool" where
  "same_tables dev dev' \<longleftrightarrow> length dev' = length dev \<and> (\<forall>cu < length dev.
     blk (dev' ! cu) SLS_BLOCK_BASE = blk (dev ! cu) SLS_BLOCK_BASE \<and> blk_size (dev' ! cu) = blk_size (dev ! cu))"

text \<open>A device whose memory holds the same byte everywhere, and the table it holds.\<close>

definition small_dev :: memAddr where
  "small_dev = \<lparr>blk = (\<lambda>_ _. 3), blk_size = (\<lambda>_. 8192)\<rparr>"

definition small_tables :: "u32 list list list" where
  "small_tables = [replicate 10 (replicate 16 0x03030303)]"

section \<open>Lemmas on bytes\<close>

lemma word_bytes_load:
  assumes "8 * n = LENGTH('w)"
  shows "word_bytes n (load_le n m a :: 'w::len word) = read_bytes m a n"
proof (rule nth_equalityI)
  fix i assume "i < length (word_bytes n (load_le n m a :: 'w word))"
  then have i: "i < n" by simp
  have "(ucast (drop_bit (8 * i) (load_le n m a :: 'w word)) :: u8) = m (a + i)"
  proof (rule bit_word_eqI)
    fix j assume "j < LENGTH(8)"
    then have j: "j < 8" by simp
    have "8 * i + j < 8 * n" "(8 * i + j) div 8 = i" "(8 * i + j) mod 8 = j" using i j by simp_all
    then show "bit (ucast (drop_bit (8 * i) (load_le n m a :: 'w word)) :: u8) j = bit (m (a + i)) j"
      using j assms by (simp add: bit_simps bit_load_le)
  qed
  then show "word_bytes n (load_le n m a :: 'w word) ! i = read_bytes m a n ! i"
    using i by (simp add: word_bytes_def read_bytes_def)
qed simp

lemma read_bytes_add: "read_bytes m a (k + n) = read_bytes m a k @ read_bytes m (a + k) n"
  unfolding read_bytes_def by (simp only: map_append [symmetric] add.assoc [symmetric] upt_add_eq_append [OF le_add1])

lemma read_bytes_rows: "read_bytes m a (k * w) = concat (map (\<lambda>j. read_bytes m (a + j * w) w) [0..<k])"
proof (induction k)
  case (Suc k)
  have "read_bytes m a (k * w + w) = read_bytes m a (k * w) @ read_bytes m (a + k * w) w" by (rule read_bytes_add)
  then show ?case using Suc by (simp add: add.commute)
qed (simp add: read_bytes_def)

lemma read_elems32: "read_bytes m a (4 * n) = row_bytes (elems32 m a n)"
proof -
  have "read_bytes m a (n * 4) = concat (map (\<lambda>j. read_bytes m (a + j * 4) 4) [0..<n])" by (rule read_bytes_rows)
  also have "\<dots> = row_bytes (elems32 m a n)"
    by (simp add: row_bytes_def elems32_def comp_def word_bytes_load mult.commute)
  finally show ?thesis by (simp add: mult.commute)
qed

lemma load_le_zero: "(\<And>x. a \<le> x \<Longrightarrow> x < a + n \<Longrightarrow> m x = 0) \<Longrightarrow> load_le n m a = 0"
  by (induction n arbitrary: a) auto

lemma elems32_zeroed: "a + 4 * n \<le> k \<Longrightarrow> elems32 (write_bytes m 0 (replicate k 0)) a n = replicate n 0"
  by (rule nth_equalityI) (auto simp: elems32_def write_bytes_def intro!: load_le_zero)

lemma length_row_bytes [simp]: "length (row_bytes r) = 4 * length r"
  by (induction r) (auto simp: row_bytes_def)

lemma length_view_cast [simp]: "length (view_cast_bytes ws) = 8 * length ws"
  by (induction ws) (auto simp: view_cast_bytes_def)

lemma segments_take: "segments (take k ls) xs = take k (segments ls xs)"
proof (induction ls arbitrary: k xs)
  case (Cons l ls)
  then show ?case by (cases k) auto
qed simp

lemma segments_drop: "segments (drop k ls) (drop (sum_list (take k ls)) xs) = drop k (segments ls xs)"
proof (induction ls arbitrary: k xs)
  case (Cons l ls)
  show ?case
  proof (cases k)
    case (Suc k')
    then show ?thesis using Cons [of k' "drop l xs"] by (simp add: add.commute)
  qed simp
qed simp

lemma fold_add_row_comm:
  assumes "\<And>x y. add x y = add y x" "\<forall>a \<in> set as. R a = take n (T ! unat a)"
  shows "fold (\<lambda>a acc. add_row add (R a) acc) as acc = fold (\<lambda>i acc. map2 add acc (take n (T ! unat i))) as acc"
  using assms(2)
proof (induction as arbitrary: acc)
  case (Cons a as)
  have "map2 add (R a) acc = map2 add acc (R a)"
    by (rule nth_equalityI) (auto simp: assms(1))
  then show ?case using Cons by (simp add: add_row_def)
qed simp

lemma per_table_nth:
  assumes "length segs = length ts * mb" "0 < mb"
  shows "per_table mb ts segs = map (\<lambda>s. (ts ! (s div mb), segs ! s)) [0..<length segs]"
  using assms(1)
proof (induction ts arbitrary: segs)
  case (Cons t ts)
  have l: "length (drop mb segs) = length ts * mb" using Cons.prems by simp
  have dv: "(mb + i) div mb = Suc (i div mb)" for i using assms(2) div_add_self1 [of mb i] by simp
  have u: "[0..<length segs] = [0..<mb] @ [mb..<length segs]" using Cons.prems by (intro upt_split) simp_all
  have "map (\<lambda>s. ((t # ts) ! (s div mb), segs ! s)) [0..<length segs] =
      map (\<lambda>s. ((t # ts) ! (s div mb), segs ! s)) [0..<mb] @ map (\<lambda>s. ((t # ts) ! (s div mb), segs ! s)) [mb..<length segs]"
    by (subst u) (rule map_append)
  moreover have "map (\<lambda>s. ((t # ts) ! (s div mb), segs ! s)) [0..<mb] = map (Pair t) (take mb segs)"
    using Cons.prems by (intro nth_equalityI) auto
  moreover have "map (\<lambda>s. ((t # ts) ! (s div mb), segs ! s)) [mb..<length segs] =
      map (\<lambda>s. (ts ! (s div mb), drop mb segs ! s)) [0..<length (drop mb segs)]"
    using Cons.prems dv by (intro nth_equalityI) auto
  ultimately show ?case using Cons.IH [OF l] by simp
qed simp

section \<open>The trace of an execution\<close>

lemma segs_in_range:
  assumes "op_ok op" "tables_ok op tables" "0 < minibatch_size op" "s < length (lengths op)"
  shows "\<forall>i \<in> set (segments (lengths op) (indices op) ! s). unat i < length (tables ! (s div minibatch_size op))"
proof -
  have "length tables = length (tables_sizes op)" using assms(2) by (metis length_map tables_ok_def)
  then have "per_table (minibatch_size op) tables (segments (lengths op) (indices op)) =
      map (\<lambda>s. (tables ! (s div minibatch_size op), segments (lengths op) (indices op) ! s)) [0..<length (lengths op)]"
    using assms(1,3) by (subst per_table_nth) (simp_all add: op_ok_def)
  then show ?thesis using assms(2,4) by (auto simp: tables_ok_def segs_ok_def)
qed

lemma td_slot_div:
  assumes "td_ok op td" "k < table_batches_chunk td"
  shows "(td_slot op td + k) div minibatch_size op = table_id td"
proof -
  obtain b where b: "batch_offset td = Some b" "b + table_batches_chunk td \<le> minibatch_size op"
    using assms(1) by (auto simp: td_ok_def)
  then have "(b + k) div minibatch_size op = 0" "0 < minibatch_size op" using assms(2) by simp_all
  then have "(table_id td * minibatch_size op + (b + k)) div minibatch_size op = table_id td"
    by (subst div_mult_self3) simp_all
  then show ?thesis using b by (simp add: td_slot_def add.assoc)
qed

lemma td_chunk_rows:
  assumes "op_ok op" "tables_ok op tables" "td_ok op td" "r \<in> set (concat (snd (td_chunk op cu objs td)))"
  shows "unat r < length (tables ! table_id td)"
proof -
  let ?S = "segments (lengths op) (indices op)"
  have mb: "0 < minibatch_size op \<or> table_batches_chunk td = 0" using assms(3) by (auto simp: td_ok_def)
  obtain k where k: "k < table_batches_chunk td" "k < length (lengths op) - td_slot op td" "r \<in> set (?S ! (td_slot op td + k))"
    using assms(4) by (auto simp: td_chunk_def in_set_conv_nth [of _ "take _ _"])
  then have "unat r < length (tables ! ((td_slot op td + k) div minibatch_size op))"
    using segs_in_range [OF assms(1,2)] mb by (metis less_diff_conv add.commute not_less0)
  then show ?thesis using td_slot_div [OF assms(3) k(1)] by simp
qed

lemma loaded_object:
  assumes "loaded topo op tables cu objs ma" "table_id td \<in> object_id ` set objs" "nb = sparse_feature_size op * DataSize topo"
  shows "\<exists>ob. find (\<lambda>ob. object_id ob = table_id td) objs = Some ob \<and> obj_offset ob cu = Inr (fst (td_chunk op cu objs td)) \<and>
    (let T = tables ! table_id td; off = fst (td_chunk op cu objs td) in
      length T * nb \<le> 2 ^ 32 \<and> unat off + length T * nb \<le> blk_size ma SLS_BLOCK_BASE \<and> unat off + length T * nb < 2 ^ 64 \<and>
      (\<forall>r < length T. addr_ok (off + of_nat (r * nb)) \<and>
         elems32 (blk ma SLS_BLOCK_BASE) (unat off + r * nb) (sparse_feature_size op) = T ! r))"
proof -
  obtain ob where ob: "find (\<lambda>ob. object_id ob = table_id td) objs = Some ob"
    using assms(2) by (cases "find (\<lambda>ob. object_id ob = table_id td) objs") (auto simp: find_None_iff)
  then have "ob \<in> set objs" "object_id ob = table_id td" by (auto simp: find_Some_iff)
  then show ?thesis using assms(1,3) ob by (auto simp: loaded_def td_chunk_def Let_def)
qed

lemma td_chunk_ok:
  assumes "req_ok topo op" "tables_ok op tables" "td_ok op td" "p \<in> set (pack_identifiers topo)"
    "table_id td \<in> object_id ` set (tables_objects op ! p)" "loaded topo op tables cu (tables_objects op ! p) ma"
  shows "chunk_ok (tg_core (pack_trace_gen topo op p)) cu (tables_objects op ! p) td (drop (td_slot op td) (lengths op))
    (drop (sum_list (take (td_slot op td) (lengths op))) (indices op)) (td_chunk op cu (tables_objects op ! p) td)"
proof -
  let ?objs = "tables_objects op ! p" and ?s = "td_slot op td" and ?ls = "lengths op"
  have op: "op_ok op" using assms(1) by (simp add: req_ok_def)
  have sz: "?s + table_batches_chunk td \<le> length ?ls" by (rule td_slot_le [OF assms(3) op])
  have snd: "snd (td_chunk op cu ?objs td) = segments (take (table_batches_chunk td) (drop ?s ?ls)) (drop (sum_list (take ?s ?ls)) (indices op))"
    by (simp add: td_chunk_def segments_take segments_drop)
  have "sum_list (take ?s ?ls) + sum_list (take (table_batches_chunk td) (drop ?s ?ls)) \<le> sum_list ?ls"
    using sum_list_take_le [of "?s + table_batches_chunk td" ?ls] by (simp add: take_add)
  then have len: "sum_list (take (table_batches_chunk td) (drop ?s ?ls)) \<le> length (drop (sum_list (take ?s ?ls)) (indices op))"
    using op by (auto simp: op_ok_def)
  have mapl: "map length tables = tables_sizes op" using assms(2) by (simp add: tables_ok_def)
  have tid: "table_id td < length tables" using assms(3) mapl by (metis length_map td_ok_def)
  let ?mo = "max_object (tables_sizes op) ?objs"
  obtain ob where ob: "ob \<in> set ?objs" "object_id ob = table_id td" using assms(5) by auto
  have ne: "?objs \<noteq> []" using ob(1) by auto
  have mo: "?mo \<in> set ?objs" "tables_sizes op ! table_id td \<le> tables_sizes op ! object_id ?mo"
    using max_object_correct(1) [OF ne] max_object_correct(2) [OF ne ob(1)] ob(2) by simp_all
  have moid: "object_id ?mo < length tables"
    using mo(1) assms(1,4) mapl by (metis (no_types, lifting) layout_ok_def length_map req_ok_def)
  have "tables_sizes op ! object_id ?mo = length (tables ! object_id ?mo)" using nth_map [OF moid, of length] mapl by simp
  moreover have "length (tables ! object_id ?mo) < 2 ^ 32" using moid assms(2) by (auto simp: tables_ok_def)
  ultimately have "unat (of_nat (tables_sizes op ! object_id ?mo) :: u32) = tables_sizes op ! object_id ?mo"
    by (simp add: unat_of_nat take_bit_eq_mod)
  moreover have "unat r < tables_sizes op ! object_id ?mo" if "r \<in> set (concat (snd (td_chunk op cu ?objs td)))" for r
    using td_chunk_rows [OF op assms(2,3) that] mo(2) tid mapl by (metis nth_map order_less_le_trans)
  ultimately have rows: "\<forall>r \<in> set (concat (snd (td_chunk op cu ?objs td))). r < max_tables_rows_num (tg_core (pack_trace_gen topo op p))"
    by (simp add: pack_trace_gen_def trace_init_def core_init_def init_mapping_def Let_def word_less_nat_alt)
  show ?thesis unfolding chunk_ok_def
    using loaded_object [OF assms(6,5) refl] sz snd len rows by auto
qed

lemma fst_td_chunk: "fst (td_chunk op cu objs td) = tab_off cu objs (table_id td)"
  by (simp add: td_chunk_def tab_off_def)

lemma chunk_outputs_tds:
  assumes "op_ok op" "\<forall>td \<in> set tds. td_ok op td"
  shows "chunk_outputs (map (td_chunk op cu objs) tds) =
    map (\<lambda>s. (tab_off cu objs (s div minibatch_size op), segments (lengths op) (indices op) ! s)) (concat (map (td_slots op) tds))"
  using assms(2)
proof (induction tds)
  case (Cons td tds)
  let ?S = "segments (lengths op) (indices op)"
  have "td_slot op td + table_batches_chunk td \<le> length ?S" using td_slot_le [OF _ assms(1)] Cons.prems by simp
  then have "map (Pair (tab_off cu objs (table_id td))) (take (table_batches_chunk td) (drop (td_slot op td) ?S)) =
      map (\<lambda>s. (tab_off cu objs (s div minibatch_size op), ?S ! s)) (td_slots op td)"
    using Cons.prems by (intro nth_equalityI) (auto simp: td_slots_def td_slot_div)
  then show ?case using Cons by (simp add: chunk_outputs_def fst_td_chunk) (simp add: td_chunk_def)
qed (simp add: chunk_outputs_def)

lemma trace_header_mode:
  assumes "sim_ok topo op"
  shows "read_header (trace_header (pack_trace_gen topo op p) False) =
    Inr \<lparr>mode_bytes_per_idx = sparse_feature_size op * DataSize topo, mode_is_tagged = False\<rparr>"
proof -
  define nb where "nb = sparse_feature_size op * DataSize topo"
  have b: "bytes_per_row (pack_trace_gen topo op p) = of_nat nb"
    by (simp add: pack_trace_gen_def trace_init_def nb_def)
  have "nb \<in> {64, 128, 256}" using assms by (auto simp: sim_ok_def nb_def)
  then show ?thesis unfolding nb_def [symmetric]
    by (auto simp: trace_header_def b read_header_def get_bytes_per_idx_def INSTR_HEADER_VSIZE_MASK_def INSTR_HEADER_TAGBIT_POS_def)
qed

lemma trace_gen_row:
  assumes "sim_ok topo op"
  shows "bytes_per_row_full (tg_core (pack_trace_gen topo op p)) = of_nat (sparse_feature_size op * DataSize topo)"
proof -
  define nb where "nb = sparse_feature_size op * DataSize topo"
  have "nb \<in> {64, 128, 256}" using assms by (auto simp: sim_ok_def nb_def)
  then have "(ucast (ucast (of_nat nb :: u32) :: u64) :: u32) = of_nat nb" by auto
  moreover have "\<not> is_tagged op" using assms by (simp add: sim_ok_def)
  ultimately show ?thesis unfolding nb_def [symmetric]
    by (simp add: pack_trace_gen_def trace_init_def core_init_def init_mapping_def Let_def del: of_nat_mult flip: nb_def)
qed

text \<open>Addresses of rows: neither the row offset nor the sum wraps.\<close>

lemma row_address:
  fixes off :: u64 and r :: u32
  assumes "unat r < l" "l * nb \<le> 2 ^ 32" "0 < nb" "unat off + l * nb < 2 ^ 64" "nb < 2 ^ 32"
  shows "off + ucast (r * of_nat nb) = off + of_nat (unat r * nb)" "unat (off + of_nat (unat r * nb)) = unat off + unat r * nb"
proof -
  have lt: "unat r * nb < l * nb" using assms(1,3) by simp
  have lt2: "unat r * nb < 2 ^ 32" using order_less_le_trans [OF lt assms(2)] .
  have n: "unat (of_nat nb :: u32) = nb" using assms(5) by (simp add: unat_of_nat take_bit_eq_mod)
  have "(ucast (r * of_nat nb) :: u64) = of_nat (unat r * nb)"
    using ucast_mult_eq_iff [of r "of_nat nb"] lt2 unfolding n by blast
  then show "off + ucast (r * of_nat nb) = off + of_nat (unat r * nb)" by simp
  have "unat (of_nat (unat r * nb) :: u64) = unat r * nb"
    using lt2 by (simp add: unat_of_nat take_bit_eq_mod del: of_nat_mult)
  then show "unat (off + of_nat (unat r * nb)) = unat off + unat r * nb"
    using less_trans [OF add_strict_left_mono [OF lt] assms(4)] by (simp add: unat_word_ariths del: of_nat_mult)
qed


lemma ready_exec:
  assumes "ready topo op tables sr p" "i < get_num_exec_iterations sr p" "e = get_pack_execs (exec_gen sr) p ! i"
  shows "\<forall>td \<in> set (tables_data e). td_ok op td \<and> table_id td \<in> object_id ` set (tables_objects op ! p)"
    "tds_wf (tables_data e)" "total_batches_in_chunks e = length (exec_slot_list op e)"
    "psum_size e = length (exec_slot_list op e) * (sparse_feature_size op * DataSize topo)"
    "length (exec_slot_list op e) * (sparse_feature_size op * DataSize topo) \<le> psum_single_buf_size topo"
    "0 < length (exec_slot_list op e)" "length (exec_slot_list op e) \<le> 2 ^ 12"
    "total_lookups e = sum_list (map (\<lambda>s. lengths op ! s) (exec_slot_list op e))"
    "0 < total_lookups e" "(total_lookups e + 1) * 8 \<le> inst_single_buf_size topo"
    "\<forall>s \<in> set (exec_slot_list op e). s < length (lengths op)"
proof -
  let ?nb = "sparse_feature_size op * DataSize topo" and ?mb = "minibatch_size op"
  let ?g = "gen_init (ExecutionGenerator_default topo) (tables_objects op) (instr_limit topo (lengths op)) (psum_single_buf_size topo div ?nb) ?nb"
  have req: "req_ok topo op" and sim: "sim_ok topo op" using assms(1) by (simp_all add: ready_def)
  have "p \<in> set (pack_identifiers topo)" using assms(1) by (simp add: ready_def)
  moreover have mem: "e \<in> set (get_pack_execs (exec_gen sr) p)" using assms(2,3) by (simp add: get_num_exec_iterations_def)
  ultimately have tdok: "\<forall>td \<in> set (tables_data e). td_ok op td" and ok: "exec_ok (lens_of ?mb (lengths op)) ?g e"
    and cells: "concat (map exec_cells (get_pack_execs (exec_gen sr) p)) = table_cells ?mb (map object_id (tables_objects op ! p))"
    using SparseReduction_make_correct [OF req] assms(1) unfolding ready_def by auto
  show wf: "tds_wf (tables_data e)" using ok by (simp add: exec_ok_def)
  have slots: "exec_slot_list op e = map (\<lambda>(t, b). t * ?mb + b) (exec_cells e)"
    unfolding exec_slot_list_def exec_slots [OF wf] exec_cells_def ..
  have "table_id td \<in> object_id ` set (tables_objects op ! p)" if td: "td \<in> set (tables_data e)" for td
  proof -
    have "0 < table_batches_chunk td" using wf td by (auto simp: tds_wf_def)
    then have "(table_id td, the (batch_offset td) + 0) \<in> set (exec_cells e)" using chunk_cells_in [OF td wf refl, of 0] by simp
    then have "(table_id td, the (batch_offset td)) \<in> set (table_cells ?mb (map object_id (tables_objects op ! p)))"
      using mem unfolding cells [symmetric] by auto
    then show ?thesis by (auto simp: table_cells_def)
  qed
  then show "\<forall>td \<in> set (tables_data e). td_ok op td \<and> table_id td \<in> object_id ` set (tables_objects op ! p)"
    using tdok by blast
  show n: "total_batches_in_chunks e = length (exec_slot_list op e)" using ok unfolding slots by (simp add: exec_ok_def)
  show "psum_size e = length (exec_slot_list op e) * ?nb" using ok n by (simp add: exec_ok_def gen_init_def)
  have le: "length (exec_slot_list op e) \<le> psum_single_buf_size topo div ?nb" using ok n by (simp add: exec_ok_def gen_init_def)
  then have "length (exec_slot_list op e) * ?nb \<le> psum_single_buf_size topo div ?nb * ?nb" by (rule mult_right_mono) simp
  also have "\<dots> \<le> psum_single_buf_size topo" by (rule div_times_less_eq_dividend)
  finally show "length (exec_slot_list op e) * ?nb \<le> psum_single_buf_size topo" .
  show "0 < length (exec_slot_list op e)" using ok unfolding n [symmetric] exec_ok_def by blast
  show "length (exec_slot_list op e) \<le> 2 ^ 12" using le sim unfolding sim_ok_def by (blast intro: le_trans)
  show "total_lookups e = sum_list (map (\<lambda>s. lengths op ! s) (exec_slot_list op e))"
    using ok unfolding slots by (simp add: exec_ok_def lens_of_def comp_def case_prod_unfold)
  show "0 < total_lookups e" using ok by (simp add: exec_ok_def)
  have "topo_ok topo" "InstructionSize topo dvd inst_single_buf_size topo" "InstructionSize topo = 8"
    using req sim by (simp_all add: req_ok_def sim_ok_def)
  note fit = fits_iff [OF this(1,2), unfolded this(3)]
  have "instr_limit topo (lengths op) \<le> inst_per_single_buf_no_header topo"
    using sim unfolding sim_ok_def fit instr_limit_def by (auto intro: fold_max_bound)
  then show "(total_lookups e + 1) * 8 \<le> inst_single_buf_size topo"
    using ok unfolding fit by (simp add: exec_ok_def gen_init_def)
  have "op_ok op" using req by (simp add: req_ok_def)
  then show "\<forall>s \<in> set (exec_slot_list op e). s < length (lengths op)"
    using tdok td_slot_le unfolding exec_slot_list_def td_slots_def by fastforce
qed

context address_codec
begin

lemma exec_trace_words:
  assumes "ready topo op tables sr p" "i < get_num_exec_iterations sr p" "e = get_pack_execs (exec_gen sr) p ! i"
    "loaded topo op tables cu (tables_objects op ! p) ma"
    "cs = map (td_chunk op cu (tables_objects op ! p)) (tables_data e)"
  shows "\<exists>ws. op_generate_instructions dec sr p cu i = Inr (trace_header (pack_trace_gen topo op p) False # ws) \<and>
     map (\<lambda>w. (unat (output_idx (decode_instruction w)), enc (decode_instruction w))) ws = map (\<lambda>(out, off, r). (out, off + ucast (r * of_nat (sparse_feature_size op * DataSize topo)))) (chunk_lookups 0 cs) \<and>
     (\<forall>w \<in> set ws. opcode (decode_instruction w) = op_code (sls_type op)) \<and>
     map (\<lambda>w. trace_end (decode_instruction w)) ws = replicate (length ws - 1) 0 @ [1] \<and>
     length ws = total_lookups e"
proof -
  let ?objs = "tables_objects op ! p" and ?tg = "pack_trace_gen topo op p" and ?nb = "sparse_feature_size op * DataSize topo"
  let ?lens = "map (\<lambda>td. drop (td_slot op td) (lengths op)) (tables_data e)"
  let ?idxs = "map (\<lambda>td. drop (sum_list (take (td_slot op td) (lengths op))) (indices op)) (tables_data e)"
  note ex = ready_exec [OF assms(1-3)]
  have req: "req_ok topo op" and sim: "sim_ok topo op" and tab: "tables_ok op tables" and p: "p \<in> set (pack_identifiers topo)"
    and mk: "SparseReduction_make None topo op = Inr sr" using assms(1) by (simp_all add: ready_def)
  have op: "op_ok op" using req by (simp add: req_ok_def)
  have bpr: "bytes_per_row_full (tg_core ?tg) = of_nat ?nb" by (rule trace_gen_row [OF sim])
  have outs: "chunk_outputs cs = map (\<lambda>s. (tab_off cu ?objs (s div minibatch_size op), segments (lengths op) (indices op) ! s)) (exec_slot_list op e)"
    unfolding assms(5) exec_slot_list_def using ex(1) by (intro chunk_outputs_tds [OF op]) blast
  have len: "length (chunk_lookups 0 cs) = total_lookups e"
  proof -
    have "length (segments (lengths op) (indices op) ! s) = lengths op ! s" if "s < length (lengths op)" for s
      using map_length_segments [of "lengths op" "indices op"] op that by (metis length_segments nth_map op_ok_def)
    then show ?thesis unfolding length_chunk_lookups outs ex(8) using ex(11)
      by (auto intro!: arg_cong [of _ _ sum_list])
  qed
  have addr: "\<forall>c \<in> set cs. \<forall>r \<in> set (concat (snd c)). addr_ok (fst c + ucast (r * bytes_per_row_full (tg_core ?tg)))"
  proof (intro ballI)
    fix c r assume c: "c \<in> set cs" "r \<in> set (concat (snd c))"
    then obtain td where td: "td \<in> set (tables_data e)" "c = td_chunk op cu ?objs td" using assms(5) by auto
    then have r: "unat r < length (tables ! table_id td)" using td_chunk_rows [OF op tab] ex(1) c(2) by blast
    have nb: "0 < ?nb" "?nb < 2 ^ 32" using req by (simp_all add: req_ok_def topo_ok_def)
    show "addr_ok (fst c + ucast (r * bytes_per_row_full (tg_core ?tg)))"
      using loaded_object [OF assms(4) _ refl, of td] ex(1) td r nb
      unfolding bpr by (auto simp: row_address(1) [of r "length (tables ! table_id td)"] Let_def simp del: of_nat_mult)
  qed
  have c4: "\<forall>j < length (tables_data e). chunk_ok (tg_core ?tg) cu ?objs (tables_data e ! j) (?lens ! j) (?idxs ! j) (cs ! j)"
    using td_chunk_ok [OF req tab _ p _ assms(4)] ex(1) unfolding assms(5) by (simp add: nth_mem)
  have "op_code (sls_type op) < 4" by (cases "sls_type op") (simp_all add: op_code_def)
  moreover have ne: "chunk_lookups 0 cs \<noteq> []" using len ex(9) by auto
  moreover have co: "length (chunk_outputs cs) \<le> 2 ^ 12" using ex(7) by (simp add: outs)
  ultimately obtain ws where ws: "generate_instructions dec ?tg e ?lens ?idxs (op_code (sls_type op)) cu ?objs False =
      Inr (trace_header ?tg False # ws)"
    "map (\<lambda>i. (output_idx i, enc i)) (map decode_instruction ws) =
       map (\<lambda>(out, off, r). (of_nat out, off + ucast (r * bytes_per_row_full (tg_core ?tg)))) (chunk_lookups 0 cs)"
    "map opcode (map decode_instruction ws) = replicate (length ws) (op_code (sls_type op))"
    "map trace_end (map decode_instruction ws) = replicate (length ws - 1) 0 @ [1]"
    using trace_lookups [of ?lens e ?idxs cs ?tg cu ?objs "op_code (sls_type op)" False] c4 addr assms(5) by auto
  have "op_generate_instructions dec sr p cu i = Inr (trace_header ?tg False # ws)"
  proof -
    have sr: "sls_op sr = op" "trace_gen sr = map (\<lambda>p. if p = 0 \<or> tables_objects op ! p = [] then None else Some (pack_trace_gen topo op p)) [0..<num_of_pack topo]"
      "packs_data sr = map (\<lambda>p. if p = 0 then [] else map (\<lambda>e. map (addrs_of topo op) (tables_data e)) (get_pack_execs (exec_gen sr) p)) [0..<num_of_pack topo]"
      using SparseReduction_make_correct [OF req] mk by auto
    have "?objs \<noteq> []"
    proof
      assume "?objs = []"
      then have "tables_data e = []" using ex(1) by (cases "tables_data e") auto
      then show False using ex(6) by (simp add: exec_slot_list_def)
    qed
    then show ?thesis using ws(1) p assms(2,3) sim
      by (simp add: op_generate_instructions_def sr pack_id_less get_num_exec_iterations_def Let_def addrs_of_def comp_def sim_ok_def)
  qed
  moreover have "map (\<lambda>w. (unat (output_idx (decode_instruction w)), enc (decode_instruction w))) ws = map (\<lambda>(out, off, r). (out, off + ucast (r * of_nat ?nb))) (chunk_lookups 0 cs)"
  proof -
    have "map (\<lambda>w. (unat (output_idx (decode_instruction w)), enc (decode_instruction w))) ws = map (\<lambda>(o', a). (unat o', a)) (map (\<lambda>i. (output_idx i, enc i)) (map decode_instruction ws))"
      by simp
    also have "\<dots> = map (\<lambda>(out, off, r). (out, off + ucast (r * of_nat ?nb))) (chunk_lookups 0 cs)"
    proof -
      have "unat (of_nat x :: u32) = x" if "x < 2 ^ 12" for x using that by (simp add: unat_of_nat take_bit_eq_mod)
      then show ?thesis unfolding ws(2) bpr using co by (auto dest!: chunk_lookups_fst)
    qed
    finally show ?thesis .
  qed
  moreover have "\<forall>w \<in> set ws. opcode (decode_instruction w) = op_code (sls_type op)" using arg_cong [OF ws(3), of set] by auto
  moreover have "length ws = total_lookups e" using arg_cong [OF ws(2), of length] len by simp
  ultimately show ?thesis using ws(4) by (auto simp: comp_def)
qed

end

lemma exec_words:
  assumes "ready topo op tables sr p" "i < get_num_exec_iterations sr p" "e = get_pack_execs (exec_gen sr) p ! i"
    "loaded topo op tables cu (tables_objects op ! p) ma"
    "cs = map (td_chunk op cu (tables_objects op ! p)) (tables_data e)"
  shows "\<exists>ws. op_generate_instructions channel_decode_address sr p cu i = Inr (trace_header (pack_trace_gen topo op p) False # ws) \<and>
     map word_lookup ws = map (\<lambda>(out, off, r). (out, off + ucast (r * of_nat (sparse_feature_size op * DataSize topo)))) (chunk_lookups 0 cs) \<and>
     (\<forall>w \<in> set ws. opcode (decode_instruction w) = op_code (sls_type op)) \<and>
     map (\<lambda>w. trace_end (decode_instruction w)) ws = replicate (length ws - 1) 0 @ [1] \<and>
     length ws = total_lookups e"
  using channel.exec_trace_words [OF assms] unfolding word_lookup_def .

lemma exec_row:
  assumes "ready topo op tables sr p" "i < get_num_exec_iterations sr p" "e = get_pack_execs (exec_gen sr) p ! i"
    "loaded topo op tables cu (tables_objects op ! p) ma" "nb = sparse_feature_size op * DataSize topo"
    "s \<in> set (exec_slot_list op e)" "r \<in> set (segments (lengths op) (indices op) ! s)"
  defines "a \<equiv> tab_off cu (tables_objects op ! p) (s div minibatch_size op) + ucast (r * of_nat nb)"
  shows "base_row nb ma a = take (sparse_feature_size op) (tables ! (s div minibatch_size op) ! unat r)"
    "unat a + nb \<le> blk_size ma SLS_BLOCK_BASE" "addr_ok a"
proof -
  let ?t = "s div minibatch_size op" and ?objs = "tables_objects op ! p"
  note ex = ready_exec [OF assms(1-3)]
  have req: "req_ok topo op" and sim: "sim_ok topo op" and tab: "tables_ok op tables" using assms(1) by (simp_all add: ready_def)
  have op: "op_ok op" "0 < minibatch_size op" using req by (simp_all add: req_ok_def)
  obtain td where td: "td \<in> set (tables_data e)" "s \<in> set (td_slots op td)" using assms(6) by (auto simp: exec_slot_list_def)
  then obtain k where k: "k < table_batches_chunk td" "s = td_slot op td + k"
    by (auto simp: td_slots_def le_iff_add)
  then have t: "?t = table_id td" using td_slot_div [of op td k] ex(1) td(1) by auto
  have r: "unat r < length (tables ! ?t)" using segs_in_range [OF op(1) tab op(2)] ex(11) assms(6,7) by blast
  have nb: "0 < nb" "nb < 2 ^ 32" "nb div 4 = sparse_feature_size op" using req sim assms(5) by (auto simp: req_ok_def topo_ok_def sim_ok_def)
  have off: "fst (td_chunk op cu ?objs td) = tab_off cu ?objs ?t" by (simp add: fst_td_chunk t)
  have ld: "length (tables ! ?t) * nb \<le> 2 ^ 32" "unat (tab_off cu ?objs ?t) + length (tables ! ?t) * nb \<le> blk_size ma SLS_BLOCK_BASE"
    "unat (tab_off cu ?objs ?t) + length (tables ! ?t) * nb < 2 ^ 64"
    "elems32 (blk ma SLS_BLOCK_BASE) (unat (tab_off cu ?objs ?t) + unat r * nb) (sparse_feature_size op) = tables ! ?t ! unat r"
    "addr_ok (tab_off cu ?objs ?t + of_nat (unat r * nb))"
    using loaded_object [OF assms(4) _ assms(5), of td] ex(1) td(1) r unfolding off by (auto simp: t Let_def)
  have a: "unat a = unat (tab_off cu ?objs ?t) + unat r * nb" "addr_ok a"
    using row_address [OF r ld(1) nb(1) ld(3) nb(2)] ld(5) by (simp_all add: a_def)
  show "addr_ok a" by (rule a(2))
  have l: "length (tables ! ?t ! unat r) = sparse_feature_size op" unfolding ld(4) [symmetric] by simp
  show "base_row nb ma a = take (sparse_feature_size op) (tables ! ?t ! unat r)"
    unfolding base_row_def a(1) nb(3) ld(4) by (simp add: l)
  have "Suc (unat r) * nb \<le> length (tables ! ?t) * nb" using r by (intro mult_right_mono) simp_all
  then show "unat a + nb \<le> blk_size ma SLS_BLOCK_BASE" using ld(2) unfolding a(1) by simp
qed

lemma slot_rows:
  assumes "ready topo op tables sr p" "i < get_num_exec_iterations sr p" "e = get_pack_execs (exec_gen sr) p ! i"
    "loaded topo op tables cu (tables_objects op ! p) ma" "nb = sparse_feature_size op * DataSize topo"
    "cs = map (td_chunk op cu (tables_objects op ! p)) (tables_data e)"
    "ls = map (\<lambda>(out, off, r). (out, off + ucast (r * of_nat nb))) (chunk_lookups 0 cs)" "\<And>x y. add x y = add y x"
    "k < length (exec_slot_list op e)" "P k = replicate (sparse_feature_size op) 0"
  shows "add_lookups add (base_row nb ma) ls P k = pair_sum add op tables (exec_slot_list op e ! k)"
proof -
  let ?s = "exec_slot_list op e ! k" and ?objs = "tables_objects op ! p" and ?S = "segments (lengths op) (indices op)"
  have "op_ok op" using assms(1) by (simp add: ready_def req_ok_def)
  then have outs: "chunk_outputs cs = map (\<lambda>s. (tab_off cu ?objs (s div minibatch_size op), ?S ! s)) (exec_slot_list op e)"
    unfolding assms(6) exec_slot_list_def using ready_exec(1) [OF assms(1-3)] by (intro chunk_outputs_tds) blast+
  let ?f = "\<lambda>r. tab_off cu ?objs (?s div minibatch_size op) + ucast (r * of_nat nb) :: u64"
  have "map snd (filter (\<lambda>(o', a). o' = k) ls) =
      map (\<lambda>(out, off, r). off + ucast (r * of_nat nb)) (filter (\<lambda>(o', x). o' = 0 + k) (chunk_lookups 0 cs))"
    unfolding assms(7) by (simp add: filter_map comp_def case_prod_unfold)
  also have "\<dots> = map ?f (?S ! ?s)"
    using assms(9) by (subst filter_chunk_lookups) (simp_all add: outs comp_def)
  finally have "add_lookups add (base_row nb ma) ls P k =
      fold (\<lambda>r acc. add_row add (base_row nb ma (?f r)) acc) (?S ! ?s) (replicate (sparse_feature_size op) 0)"
    unfolding add_lookups_out assms(10) by (simp add: fold_map comp_def)
  also have "\<dots> = fold (\<lambda>i acc. map2 add acc (take (sparse_feature_size op) (tables ! (?s div minibatch_size op) ! unat i))) (?S ! ?s)
      (replicate (sparse_feature_size op) 0)"
    using exec_row(1) [OF assms(1-5)] assms(9) by (intro fold_add_row_comm [OF assms(8)]) auto
  finally show ?thesis by (simp add: pair_sum_def sls_sum_def)
qed

lemma slot_lookups:
  assumes "ready topo op tables sr p" "i < get_num_exec_iterations sr p" "e = get_pack_execs (exec_gen sr) p ! i"
    "loaded topo op tables cu (tables_objects op ! p) ma" "nb = sparse_feature_size op * DataSize topo"
    "cs = map (td_chunk op cu (tables_objects op ! p)) (tables_data e)"
    "ls = map (\<lambda>(out, off, r). (out, off + ucast (r * of_nat nb))) (chunk_lookups 0 cs)" "(out, a) \<in> set ls"
  shows "unat a + nb \<le> blk_size ma SLS_BLOCK_BASE" "addr_ok a" "out * nb + nb \<le> length (exec_slot_list op e) * nb"
proof -
  let ?objs = "tables_objects op ! p" and ?S = "segments (lengths op) (indices op)"
  note ex = ready_exec [OF assms(1-3)]
  have "op_ok op" using assms(1) by (simp add: ready_def req_ok_def)
  then have outs: "chunk_outputs cs = map (\<lambda>s. (tab_off cu ?objs (s div minibatch_size op), ?S ! s)) (exec_slot_list op e)"
    unfolding assms(6) exec_slot_list_def using ex(1) by (intro chunk_outputs_tds) blast+
  obtain off r where x: "(out, off, r) \<in> set (chunk_lookups 0 cs)" "a = off + ucast (r * of_nat nb)" using assms(7,8) by auto
  have o: "out < length (exec_slot_list op e)" using chunk_lookups_fst [OF x(1)] by (simp add: outs)
  then have "(out, off, r) \<in> set (filter (\<lambda>(o', x). o' = 0 + out) (chunk_lookups 0 cs))" using x(1) by simp
  then have "off = tab_off cu ?objs (exec_slot_list op e ! out div minibatch_size op)" "r \<in> set (?S ! (exec_slot_list op e ! out))"
    using o by (subst (asm) filter_chunk_lookups, simp add: outs, auto simp: outs)+
  then show "unat a + nb \<le> blk_size ma SLS_BLOCK_BASE" "addr_ok a"
    using exec_row(2,3) [OF assms(1-5)] o unfolding x(2) by auto
  have "Suc out * nb \<le> length (exec_slot_list op e) * nb" using o by (intro mult_right_mono) simp_all
  then show "out * nb + nb \<le> length (exec_slot_list op e) * nb" by simp
qed

lemma slot_lookups_ok:
  assumes "ready topo op tables sr p" "i < get_num_exec_iterations sr p" "e = get_pack_execs (exec_gen sr) p ! i"
    "loaded topo op tables cu (tables_objects op ! p) ma" "nb = sparse_feature_size op * DataSize topo"
    "cs = map (td_chunk op cu (tables_objects op ! p)) (tables_data e)"
    "ls = map (\<lambda>(out, off, r). (out, off + ucast (r * of_nat nb))) (chunk_lookups 0 cs)" "unit_ok topo ma"
  shows "lookups_ok nb ma ls"
  using slot_lookups [OF assms(1-7)] ready_exec(5) [OF assms(1-3)] assms(5,8) unfolding lookups_ok_def unit_ok_def by fastforce

lemma blk_set_reg [simp]: "b \<noteq> SLS_BLOCK_CFGR \<Longrightarrow> blk (set_reg r v ma) b = blk ma b" "blk_size (set_reg r v ma) = blk_size ma"
  by (simp_all add: set_reg_def)

lemma blk_started [simp]: "b \<noteq> SLS_BLOCK_CFGR \<Longrightarrow> blk (started topo ma) b = blk ma b" "blk_size (started topo ma) = blk_size ma"
  by (simp_all add: started_def)

lemma loaded_cong:
  "blk ma' SLS_BLOCK_BASE = blk ma SLS_BLOCK_BASE \<Longrightarrow> blk_size ma' = blk_size ma \<Longrightarrow>
   loaded topo op tables cu objs ma' = loaded topo op tables cu objs ma"
  by (simp add: loaded_def)

lemma unit_ok_cong: "blk_size ma' = blk_size ma \<Longrightarrow> unit_ok topo ma' = unit_ok topo ma"
  by (simp add: unit_ok_def regs_ok_def)

lemma op_code_in: "op_code t \<in> {0, 2, 3}"
  by (cases t) (simp_all add: op_code_def)

text \<open>
  An execution whose trace is in the instruction buffer and whose sums are reset leaves the sums of
  its pairs, one after the other, in the buffer of partial sums.
\<close>

lemma exec_run:
  assumes rd: "ready topo op tables sr p" "i < get_num_exec_iterations sr p" "e = get_pack_execs (exec_gen sr) p ! i"
    and ld: "loaded topo op tables cu (tables_objects op ! p) ma" and nb: "nb = sparse_feature_size op * DataSize topo"
    and cs: "cs = map (td_chunk op cu (tables_objects op ! p)) (tables_data e)"
    and comm: "\<And>x y. fadd x y = fadd y x" and ok: "unit_ok topo ma"
    and ws: "map word_lookup ws = map (\<lambda>(out, off, r). (out, off + ucast (r * of_nat nb))) (chunk_lookups 0 cs)"
      "\<forall>w \<in> set ws. opcode (decode_instruction w) = op_code (sls_type op)"
      "map (\<lambda>w. trace_end (decode_instruction w)) ws = replicate (length ws - 1) 0 @ [1]" "length ws = total_lookups e"
    and inst: "inst_at ma 0 (trace_header (pack_trace_gen topo op p) False # ws)"
    and zero: "\<And>k. k < length (exec_slot_list op e) \<Longrightarrow> psum_rows nb ma k = replicate (sparse_feature_size op) 0"
  shows "\<exists>ma'. cu_run fadd topo ma = Inr ma' \<and> blk ma' SLS_BLOCK_BASE = blk ma SLS_BLOCK_BASE \<and> blk_size ma' = blk_size ma \<and>
    read_bytes (blk ma' SLS_BLOCK_PSUM) 0 (length (exec_slot_list op e) * nb) =
      concat (map (\<lambda>s. row_bytes (pair_sum (op_add fadd (op_code (sls_type op))) op tables s)) (exec_slot_list op e))"
proof -
  let ?m = "started topo ma" and ?add = "op_add fadd (op_code (sls_type op))" and ?n = "length (exec_slot_list op e)"
  note ex = ready_exec [OF rd]
  have sim: "sim_ok topo op" using rd(1) by (simp add: ready_def)
  then have nb4: "nb = 4 * sparse_feature_size op" and is8: "InstructionSize topo = 8" by (simp_all add: nb sim_ok_def)
  have add: "?add x y = ?add y x" for x y by (simp add: op_add_def comm add.commute)
  have regs: "regs_ok topo ma" using ok by (simp add: unit_ok_def)
  have hdr: "read_header (trace_header (pack_trace_gen topo op p) False) = Inr \<lparr>mode_bytes_per_idx = nb, mode_is_tagged = False\<rparr>"
    unfolding nb by (rule trace_header_mode [OF sim])
  have fit: "Suc (length ws) \<le> inst_per_single_buf topo"
  proof -
    have "8 * Suc (length ws) \<le> inst_single_buf_size topo" using ex(10) ws(4) by simp
    then have "8 * Suc (length ws) div 8 \<le> inst_single_buf_size topo div 8" by (rule div_le_mono)
    then show ?thesis by (simp add: inst_per_single_buf_def is8)
  qed
  have ne: "ws \<noteq> []" using ws(4) ex(9) by auto
  have ok': "unit_ok topo ?m" "loaded topo op tables cu (tables_objects op ! p) ?m"
    using ok ld by (simp_all add: unit_ok_cong [of ?m ma] loaded_cong [of ?m ma])
  have lk: "lookups_ok nb ?m (map word_lookup ws)" by (rule slot_lookups_ok [OF rd ok'(2) nb cs ws(1) ok'(1)])
  have inst': "inst_at ?m 0 (trace_header (pack_trace_gen topo op p) False # ws)"
    using inst inst_at_cong [of ?m ma 0 "trace_header (pack_trace_gen topo op p) False # ws"] by (simp del: inst_at.simps)
  have reg: "RegPolling topo + POLL_INST_NUM_OFFSET + 4 \<le> blk_size ?m SLS_BLOCK_CFGR"
    using regs by (simp add: regs_ok_def POLL_INST_NUM_OFFSET_def)
  obtain m2 where m2: "exec_trace fadd topo ?m = Inr m2" "blk_size m2 = blk_size ma"
    "blk m2 SLS_BLOCK_BASE = blk ma SLS_BLOCK_BASE"
    "psum_rows nb m2 = add_lookups ?add (base_row nb ?m) (map word_lookup ws) (psum_rows nb ?m)"
    using exec_trace_correct [OF inst' ne fit hdr ws(2) op_code_in ws(3) _ lk reg, of fadd] nb4 by auto
  have rows: "psum_rows nb m2 k = pair_sum ?add op tables (exec_slot_list op e ! k)" if "k < ?n" for k
    unfolding m2(4) using zero [OF that]
    by (intro slot_rows [OF rd ok'(2) nb cs ws(1) add that]) (simp add: psum_rows_def)
  have "read_bytes (blk m2 SLS_BLOCK_PSUM) 0 (?n * nb) = concat (map (\<lambda>k. row_bytes (psum_rows nb m2 k)) [0..<?n])"
    using read_elems32 [of "blk m2 SLS_BLOCK_PSUM" _ "sparse_feature_size op"]
    by (simp add: read_bytes_rows [of _ 0 ?n nb] psum_rows_def) (simp add: nb4)
  also have "\<dots> = concat (map (\<lambda>s. row_bytes (pair_sum ?add op tables s)) (exec_slot_list op e))"
    by (rule arg_cong [of _ _ concat], rule nth_equalityI) (simp_all add: rows)
  finally show ?thesis using cu_run_eq [OF regs m2(1)] m2(2,3) by simp
qed

lemma length_pair_sum:
  assumes "ready topo op tables sr p" "s < length (lengths op)"
  shows "length (pair_sum add op tables s) = sparse_feature_size op"
proof -
  have req: "req_ok topo op" and tab: "tables_ok op tables" using assms(1) by (simp_all add: ready_def)
  have op: "op_ok op" "0 < minibatch_size op" using req by (simp_all add: req_ok_def)
  have len: "length tables = length (tables_sizes op)" using tab by (metis length_map tables_ok_def)
  have t: "s div minibatch_size op < length tables"
    unfolding len using assms(2) op by (simp add: op_ok_def less_mult_imp_div_less)
  let ?T = "tables ! (s div minibatch_size op)"
  have wf: "\<forall>i \<in> set (segments (lengths op) (indices op) ! s). sparse_feature_size op \<le> length (?T ! unat i)"
    using segs_in_range [OF op(1) tab op(2) assms(2)] t tab
    by (simp add: tables_ok_def tables_wf_def) (metis nth_mem order_refl)
  have "length (fold (\<lambda>i acc. map2 add acc (take n (T ! unat i))) seg acc) = n"
    if "length acc = n" "\<forall>i \<in> set seg. n \<le> length (T ! unat i)" for n and T :: "u32 list list" and seg :: "u32 list" and acc
    using that by (induction seg arbitrary: acc) auto
  then show ?thesis using wf by (simp add: pair_sum_def sls_sum_def)
qed

lemma merge_rows_merge:
  assumes "\<And>s. length (old s) = nb" "\<And>s. s < n \<Longrightarrow> length (new s) = nb"
  shows "\<exists>old'. (\<forall>s. length (old' s) = nb) \<and> merge_rows n S new old = merge_rows n {} new old' \<and>
    (\<forall>A. merge_rows n A new old' = merge_rows n (S \<union> A) new old)"
  by (rule exI [of _ "\<lambda>s. if s \<in> S \<and> s < n then new s else old s"])
    (auto simp: merge_rows_def assms intro!: arg_cong [of _ _ concat])

lemma write_exec_rows:
  assumes rd: "ready topo op tables sr p" "i < get_num_exec_iterations sr p" and n: "n = length (lengths op)"
    and len: "\<And>s. length (old s) = sparse_feature_size op * DataSize topo"
  shows "write_result topo sr 0 p i (concat (map (new_row fadd op tables) (exec_slots_of op sr p i))) (merge_rows n A (new_row fadd op tables) old) =
    Inr (merge_rows n (A \<union> set (exec_slots_of op sr p i)) (new_row fadd op tables) old)"
proof -
  define nb where nb: "nb = sparse_feature_size op * DataSize topo"
  let ?new = "new_row fadd op tables" and ?slots = "exec_slots_of op sr p i"
  have req: "req_ok topo op" and mk: "SparseReduction_make None topo op = Inr sr" and p: "p \<in> set (pack_identifiers topo)"
    and d4: "DataSize topo = 4" using rd(1) by (simp_all add: ready_def sim_ok_def)
  have ln: "length (?new s) = nb" if "s < n" for s using length_pair_sum [OF rd(1)] that n by (simp add: new_row_def nb d4)
  obtain old' where old': "\<forall>s. length (old' s) = nb" "merge_rows n A ?new old = merge_rows n {} ?new old'"
    "\<forall>B. merge_rows n B ?new old' = merge_rows n (A \<union> B) ?new old"
    using merge_rows_merge [of old nb n ?new A] len ln nb by blast
  let ?new' = "\<lambda>s. if s < n then ?new s else replicate nb 0"
  have sl: "?slots = concat (map (td_slots op) (tables_data (get_pack_execs (exec_gen sr) p ! i)))"
    by (simp add: exec_slots_of_def exec_slot_list_def)
  have "\<forall>s \<in> set ?slots. s < n" using ready_exec(11) [OF rd refl] by (simp add: exec_slots_of_def n)
  then have m: "map ?new ?slots = map ?new' ?slots" by simp
  have "write_result topo sr 0 p i (concat (map ?new' ?slots)) (concat (map old' [0..<length (lengths op)])) =
      Inr (concat (map (\<lambda>s. if s \<in> set ?slots then ?new' s else old' s) [0..<length (lengths op)]))"
    unfolding sl using old'(1) ln by (intro write_result_slots [OF req mk p rd(2) refl nb]) auto
  moreover have "map (\<lambda>s. if s \<in> set ?slots then ?new' s else old' s) [0..<n] = map (\<lambda>s. if s \<in> set ?slots then ?new s else old' s) [0..<n]" by simp
  ultimately show ?thesis
    using old'(3) [rule_format, of "set ?slots"] unfolding m old'(2) n [symmetric] by (simp add: merge_rows_def)
qed

lemma process_exec_correct:
  assumes rd: "ready topo op tables sr p" "i < get_num_exec_iterations sr p"
    and ld: "loaded topo op tables cu (tables_objects op ! p) ma" and ok: "unit_ok topo ma"
    and comm: "\<And>x y. fadd x y = fadd y x"
    and nb: "nb = sparse_feature_size op * DataSize topo" and len: "\<And>s. length (old s) = nb" and n: "n = length (lengths op)"
  defines "slots \<equiv> exec_slots_of op sr p i"
  shows "\<exists>ma'. process_exec fadd topo sr p cu i (ma, merge_rows n A (new_row fadd op tables) old) =
      Inr (ma', merge_rows n (A \<union> set slots) (new_row fadd op tables) old) \<and>
    blk ma' SLS_BLOCK_BASE = blk ma SLS_BLOCK_BASE \<and> blk_size ma' = blk_size ma"
proof -
  define e where e: "e = get_pack_execs (exec_gen sr) p ! i"
  let ?tr = "trace_header (pack_trace_gen topo op p) False" and ?add = "op_add fadd (op_code (sls_type op))" and ?n = "length slots"
  let ?cs = "map (td_chunk op cu (tables_objects op ! p)) (tables_data e)"
  note ex = ready_exec [OF rd e, folded nb, folded e]
  have sl: "slots = exec_slot_list op e" by (simp add: slots_def exec_slots_of_def e)
  have sim: "sim_ok topo op" and req: "req_ok topo op" and mk: "SparseReduction_make None topo op = Inr sr"
    using rd(1) by (simp_all add: ready_def)
  have nb4: "nb = 4 * sparse_feature_size op" using sim by (simp add: nb sim_ok_def)
  obtain ws where ws: "op_generate_instructions channel_decode_address sr p cu i = Inr (?tr # ws)"
    "map word_lookup ws = map (\<lambda>(out, off, r). (out, off + ucast (r * of_nat nb))) (chunk_lookups 0 ?cs)"
    "\<forall>w \<in> set ws. opcode (decode_instruction w) = op_code (sls_type op)"
    "map (\<lambda>w. trace_end (decode_instruction w)) ws = replicate (length ws - 1) 0 @ [1]" "length ws = total_lookups e"
    using exec_words [OF rd e ld refl, folded nb] by blast
  define m1 where "m1 = set_blk SLS_BLOCK_INST (write_bytes (blk ma SLS_BLOCK_INST) 0 (view_cast_bytes (?tr # ws))) ma"
  define m2 where "m2 = set_blk SLS_BLOCK_PSUM (write_bytes (blk m1 SLS_BLOCK_PSUM) 0 (replicate (?n * nb) 0)) m1"
  have sz: "8 * Suc (length ws) \<le> blk_size ma SLS_BLOCK_INST" "?n * nb \<le> blk_size ma SLS_BLOCK_PSUM"
    using ok ex(5,10) ws(5) by (simp_all add: unit_ok_def sl)
  have w: "cu_write_buffer ma INST (view_cast_bytes (?tr # ws)) = Inr m1"
    using sz(1) by (simp add: cu_write_buffer_def write_block_impl_def inst_writer_def RawBlockWriter_def m1_def)
  have tmp: "get_tmp_buffer_size sr p i = Inr (?n * nb)" using rd(2) ex(4) by (simp add: get_tmp_buffer_size_def sl flip: e)
  have r: "reset_output_buffers m1 (?n * nb) = Inr m2" using sz(2) by (simp add: reset_output_buffers_def m1_def m2_def)
  have inst: "inst_at m2 0 (?tr # ws)"
  proof (rule inst_atI)
    fix k assume "k < length (?tr # ws)"
    then show "load_le 8 (blk m2 SLS_BLOCK_INST) (8 * (0 + k)) = (?tr # ws) ! k"
      using load_write_word [of 8 k "?tr # ws" "blk ma SLS_BLOCK_INST" 0] by (simp add: m2_def m1_def view_cast_bytes_def)
  qed (use sz in \<open>simp add: m2_def m1_def\<close>)
  have zero: "psum_rows nb m2 k = replicate (sparse_feature_size op) 0" if "k < ?n" for k
  proof -
    have "Suc k * nb \<le> ?n * nb" using that by (intro mult_right_mono) simp_all
    then show ?thesis by (simp add: psum_rows_def m2_def elems32_zeroed nb4)
  qed
  have sz2: "blk m2 SLS_BLOCK_BASE = blk ma SLS_BLOCK_BASE" "blk_size m2 = blk_size ma" by (simp_all add: m2_def m1_def)
  obtain m3 where m3: "cu_run fadd topo m2 = Inr m3" "blk m3 SLS_BLOCK_BASE = blk m2 SLS_BLOCK_BASE" "blk_size m3 = blk_size m2"
    "read_bytes (blk m3 SLS_BLOCK_PSUM) 0 (?n * nb) = concat (map (\<lambda>s. row_bytes (pair_sum ?add op tables s)) slots)"
    using exec_run [where fadd = fadd, OF rd e _ nb refl comm _ ws(2-5) inst] ld ok zero loaded_cong [OF sz2] unit_ok_cong [OF sz2(2)]
    unfolding sl by blast
  have wr: "write_result topo sr 0 p i (concat (map (new_row fadd op tables) slots)) (merge_rows n A (new_row fadd op tables) old) =
      Inr (merge_rows n (A \<union> set slots) (new_row fadd op tables) old)"
    unfolding slots_def using len by (intro write_exec_rows [OF rd n]) (simp add: nb)
  have "get_num_outputs sr = 1" using SparseReduction_make_correct [OF req] mk sim by (auto simp: get_num_outputs_def sim_ok_def)
  then have "read_output_buffers topo sr m3 p i (merge_rows n A (new_row fadd op tables) old) =
      Inr (merge_rows n (A \<union> set slots) (new_row fadd op tables) old)"
    using m3(3,4) sz(2) sz2(2) wr unfolding new_row_def [abs_def]
    by (simp add: read_output_buffers_def tmp dispatch_read_op_def cu_read_buffer_def read_and_reset_psum_def read_block_impl_def
        psum_reader_def RawBlockReader_def)
  then show ?thesis using ws(1) w tmp r m3 sz2 by (simp add: process_exec_def)
qed

section \<open>Running the packs\<close>

lemma process_exec_list_correct:
  assumes "ready topo op tables sr p" "unit_ok topo ma" "loaded topo op tables cu (tables_objects op ! p) ma"
    "\<And>x y. fadd x y = fadd y x" "nb = sparse_feature_size op * DataSize topo" "\<And>s. length (old s) = nb"
    "\<forall>i \<in> set js. i < get_num_exec_iterations sr p" "n = length (lengths op)"
  shows "\<exists>ma'. process_exec_list js fadd topo sr p cu (ma, merge_rows n A (new_row fadd op tables) old) =
      Inr (ma', merge_rows n (A \<union> (\<Union>i \<in> set js. set (exec_slots_of op sr p i))) (new_row fadd op tables) old) \<and>
    blk ma' SLS_BLOCK_BASE = blk ma SLS_BLOCK_BASE \<and> blk_size ma' = blk_size ma"
  using assms(2,3,7)
proof (induction js arbitrary: ma A)
  case Nil
  then show ?case by simp
next
  case (Cons j js)
  let ?new = "new_row fadd op tables" and ?S = "set (exec_slots_of op sr p j)"
  obtain ma1 where m1: "process_exec fadd topo sr p cu j (ma, merge_rows n A ?new old) = Inr (ma1, merge_rows n (A \<union> ?S) ?new old)"
    "blk ma1 SLS_BLOCK_BASE = blk ma SLS_BLOCK_BASE" "blk_size ma1 = blk_size ma"
    using process_exec_correct [where fadd = fadd and old = old, OF assms(1) _ Cons.prems(2,1) assms(4,5,6,8), of j] Cons.prems(3) by auto
  have ok1: "unit_ok topo ma1" "loaded topo op tables cu (tables_objects op ! p) ma1"
    using Cons.prems(1,2) unit_ok_cong [OF m1(3)] loaded_cong [OF m1(2,3)] by simp_all
  have js: "\<forall>i \<in> set js. i < get_num_exec_iterations sr p" using Cons.prems(3) by simp
  show ?case using Cons.IH [OF ok1 js, of "A \<union> ?S"] m1 by (simp add: Un_assoc)
qed

lemma pack_slots:
  assumes "ready topo op tables sr p"
  shows "(\<Union>i < get_num_exec_iterations sr p. set (exec_slots_of op sr p i)) =
    {s. s div minibatch_size op \<in> object_id ` set (tables_objects op ! p)}"
proof -
  have req: "req_ok topo op" and mk: "SparseReduction_make None topo op = Inr sr" and p: "p \<in> set (pack_identifiers topo)"
    using assms by (simp_all add: ready_def)
  let ?mb = "minibatch_size op" and ?es = "get_pack_execs (exec_gen sr) p"
  have mb: "0 < ?mb" using req by (simp add: req_ok_def)
  have cells: "concat (map exec_cells ?es) = table_cells ?mb (map object_id (tables_objects op ! p))"
    and wf: "\<forall>e \<in> set ?es. tds_wf (tables_data e)"
    using SparseReduction_make_correct [OF req] mk p by (auto simp: exec_ok_def)
  have "(\<Union>i < get_num_exec_iterations sr p. set (exec_slots_of op sr p i)) = (\<Union>e \<in> set ?es. set (exec_slot_list op e))"
    by (auto simp: exec_slots_of_def get_num_exec_iterations_def in_set_conv_nth [of _ ?es] intro!: bexI [OF _ nth_mem])
  also have "\<dots> = (\<lambda>(t, b). t * ?mb + b) ` set (concat (map exec_cells ?es))"
    using wf unfolding set_concat set_map image_UN image_image
    by (intro SUP_cong refl) (simp add: exec_slot_list_def exec_slots exec_cells_def)
  also have "\<dots> = {s. s div ?mb \<in> object_id ` set (tables_objects op ! p)}" (is "?L = ?R")
  proof
    show "?L \<subseteq> ?R" unfolding cells using mb by (auto simp: table_cells_def)
    show "?R \<subseteq> ?L"
    proof
      fix s assume "s \<in> ?R"
      then have "(s div ?mb, s mod ?mb) \<in> set (table_cells ?mb (map object_id (tables_objects op ! p)))"
        using mb by (fastforce simp: table_cells_def)
      then show "s \<in> ?L" unfolding cells by (auto intro!: image_eqI [of _ _ "(s div ?mb, s mod ?mb)"])
    qed
  qed
  finally show ?thesis .
qed

lemma cu_open_ok:
  assumes "unit_ok topo ma"
  shows "\<exists>ma'. cu_open topo ma = Inr ma' \<and> blk ma' SLS_BLOCK_BASE = blk ma SLS_BLOCK_BASE \<and> blk_size ma' = blk_size ma"
  using assms
  by (auto simp: cu_open_def acquire_reset_def reset_psum_poll_register_def cu_enable_def write_control_switch_register_def
      cu_poll_def poll_register_def write_reg_ok read_reg_ok unit_ok_def regs_ok_def psum_poll_register_def exec_sls_register_def
      control_switch_register_def SLS_ENABLE_VALUE_def SLS_DISABLE_VALUE_def)

lemma cu_close_ok:
  assumes "unit_ok topo ma" "0 \<le> res"
  shows "\<exists>ma'. cu_close topo ma res = Inr ma' \<and> blk ma' SLS_BLOCK_BASE = blk ma SLS_BLOCK_BASE \<and> blk_size ma' = blk_size ma"
  using assms
  by (auto simp: cu_close_def cu_disable_def write_control_switch_register_def cu_poll_def poll_register_def write_reg_ok read_reg_ok
      unit_ok_def regs_ok_def control_switch_register_def release_cunit_def)

lemma unit_ready_cong: "same_tables dev dev' \<Longrightarrow> unit_ready topo op tables dev x \<Longrightarrow> unit_ready topo op tables dev' x"
  unfolding unit_ready_def same_tables_def
  by (auto split: prod.splits simp: unit_ok_def regs_ok_def loaded_def)

lemma run_on_pack_correct:
  assumes "ready topo op tables sr p" "unit_ready topo op tables dev (p, cu, res)" "\<And>x y. fadd x y = fadd y x"
    "nb = sparse_feature_size op * DataSize topo" "\<And>s. length (old s) = nb" "n = length (lengths op)"
  shows "\<exists>dev'. run_on_pack fadd topo sr p cu res (dev, merge_rows n {} (new_row fadd op tables) old) =
      Inr (dev', merge_rows n {s. s div minibatch_size op \<in> object_id ` set (tables_objects op ! p)} (new_row fadd op tables) old) \<and>
    same_tables dev dev'"
proof -
  let ?new = "new_row fadd op tables" and ?S = "{s. s div minibatch_size op \<in> object_id ` set (tables_objects op ! p)}"
  let ?objs = "tables_objects op ! p"
  have u: "bit p cu" "cu < length dev" "0 \<le> res" "unit_ok topo (dev ! cu)" "loaded topo op tables cu ?objs (dev ! cu)"
    using assms(2) by (simp_all add: unit_ready_def)
  obtain m1 where m1: "cu_open topo (dev ! cu) = Inr m1" "blk m1 SLS_BLOCK_BASE = blk (dev ! cu) SLS_BLOCK_BASE" "blk_size m1 = blk_size (dev ! cu)"
    using cu_open_ok [OF u(4)] by blast
  have ok: "unit_ok topo m1" "loaded topo op tables cu ?objs m1" using u(4,5) unit_ok_cong [OF m1(3)] loaded_cong [OF m1(2,3)] by simp_all
  have "\<exists>ma'. process_exec_list [0..<get_num_exec_iterations sr p] fadd topo sr p cu (m1, merge_rows n {} ?new old) =
      Inr (ma', merge_rows n ({} \<union> (\<Union>i \<in> set [0..<get_num_exec_iterations sr p]. set (exec_slots_of op sr p i))) ?new old) \<and>
    blk ma' SLS_BLOCK_BASE = blk m1 SLS_BLOCK_BASE \<and> blk_size ma' = blk_size m1"
    by (rule process_exec_list_correct [OF assms(1) ok assms(3-5) _ assms(6)]) simp
  then obtain m2 where m2: "process_execs fadd topo sr p cu (m1, merge_rows n {} ?new old) = Inr (m2, merge_rows n ?S ?new old)"
    "blk m2 SLS_BLOCK_BASE = blk m1 SLS_BLOCK_BASE" "blk_size m2 = blk_size m1"
    using pack_slots [OF assms(1)] by (auto simp: process_execs_def atLeast0LessThan)
  obtain m3 where "cu_close topo m2 res = Inr m3" "blk m3 SLS_BLOCK_BASE = blk m2 SLS_BLOCK_BASE" "blk_size m3 = blk_size m2"
    using cu_close_ok [of topo m2 res] ok(1) unit_ok_cong [OF m2(3)] u(3) by blast
  then show ?thesis using u(1,2) m1 m2 by (auto simp: run_on_pack_def same_tables_def nth_list_update)
qed

lemma run_operation_correct:
  assumes "\<forall>x \<in> set sched. ready topo op tables sr (fst x) \<and> unit_ready topo op tables dev x" "\<And>x y. fadd x y = fadd y x"
    "nb = sparse_feature_size op * DataSize topo" "\<And>s. length (old s) = nb" "n = length (lengths op)"
  shows "\<exists>dev'. run_operation sched fadd topo sr (dev, merge_rows n {} (new_row fadd op tables) old) =
      Inr (dev', merge_rows n {s. \<exists>p \<in> fst ` set sched. s div minibatch_size op \<in> object_id ` set (tables_objects op ! p)}
        (new_row fadd op tables) old) \<and> same_tables dev dev'"
  using assms(1,4)
proof (induction sched arbitrary: dev old)
  case Nil
  then show ?case by (simp add: same_tables_def)
next
  case (Cons x xs)
  obtain p cu res where x: "x = (p, cu, res)" by (cases x)
  let ?new = "new_row fadd op tables" and ?S = "\<lambda>p. {s. s div minibatch_size op \<in> object_id ` set (tables_objects op ! p)}"
  let ?A = "{s. \<exists>p \<in> fst ` set xs. s div minibatch_size op \<in> object_id ` set (tables_objects op ! p)}"
  have rd: "ready topo op tables sr p" "unit_ready topo op tables dev (p, cu, res)" using Cons.prems(1) x by auto
  obtain dev1 where d1: "run_on_pack fadd topo sr p cu res (dev, merge_rows n {} ?new old) = Inr (dev1, merge_rows n (?S p) ?new old)"
    "same_tables dev dev1"
    using run_on_pack_correct [where fadd = fadd and old = old, OF rd assms(2,3) Cons.prems(2) assms(5)] by blast
  have "length (?new s) = nb" if "s < n" for s
    using length_pair_sum [OF rd(1)] that rd(1) assms(3,5) by (simp add: new_row_def ready_def sim_ok_def)
  then obtain old' where old': "\<forall>s. length (old' s) = nb" "merge_rows n (?S p) ?new old = merge_rows n {} ?new old'"
    "\<forall>A. merge_rows n A ?new old' = merge_rows n (?S p \<union> A) ?new old"
    using merge_rows_merge [of old nb n ?new "?S p"] Cons.prems(2) by blast
  have rest: "\<forall>x \<in> set xs. ready topo op tables sr (fst x) \<and> unit_ready topo op tables dev1 x"
    using Cons.prems(1) unit_ready_cong [OF d1(2)] by simp
  obtain dev2 where d2: "run_operation xs fadd topo sr (dev1, merge_rows n {} ?new old') = Inr (dev2, merge_rows n ?A ?new old')"
    "same_tables dev1 dev2"
    using Cons.IH [OF rest, of old'] old'(1) by blast
  have "?S p \<union> ?A = {s. \<exists>q \<in> fst ` set (x # xs). s div minibatch_size op \<in> object_id ` set (tables_objects op ! q)}" using x by auto
  moreover have "same_tables dev dev2" using d1(2) d2(2) by (simp add: same_tables_def)
  ultimately show ?case using d1(1) [unfolded old'(2)] d2(1) old'(3) [rule_format, of ?A] x by simp
qed

lemma pairs_cell_sums:
  assumes "ready topo op tables sr p"
  shows "concat (map (\<lambda>s. row_bytes (pair_sum add op tables s)) [0..<length (lengths op)]) =
    row_bytes (cell_sums add (sparse_feature_size op) (per_table (minibatch_size op) tables (segments (lengths op) (indices op))))"
proof -
  have len: "length tables = length (tables_sizes op)" using assms by (metis length_map tables_ok_def ready_def)
  have rb: "row_bytes (concat xs) = concat (map row_bytes xs)" for xs by (induction xs) (simp_all add: row_bytes_def)
  have "per_table (minibatch_size op) tables (segments (lengths op) (indices op)) =
      map (\<lambda>s. (tables ! (s div minibatch_size op), segments (lengths op) (indices op) ! s)) [0..<length (lengths op)]"
    using assms len by (subst per_table_nth) (simp_all add: op_ok_def ready_def req_ok_def)
  then show ?thesis by (simp add: cell_sums_def rb comp_def pair_sum_def)
qed

lemma merge_rows_all: "(\<And>s. s < n \<Longrightarrow> s \<in> S) \<Longrightarrow> merge_rows n S new old = concat (map new [0..<n])"
  by (auto simp: merge_rows_def intro!: arg_cong [of _ _ concat])

lemma split_rows:
  assumes "length xs = n * nb"
  shows "\<exists>old. (\<forall>s. length (old s) = nb) \<and> xs = concat (map old [0..<n])"
  using assms
proof (induction n arbitrary: xs)
  case 0
  then show ?case by (auto intro: exI [of _ "\<lambda>_. replicate nb undefined"])
next
  case (Suc n)
  have "length (take (n * nb) xs) = n * nb" using Suc.prems by simp
  then obtain old where old: "\<forall>s. length (old s) = nb" "take (n * nb) xs = concat (map old [0..<n])" using Suc.IH by blast
  let ?old = "old(n := drop (n * nb) xs)"
  have "map ?old [0..<n] = map old [0..<n]" by simp
  then have "concat (map ?old [0..<Suc n]) = take (n * nb) xs @ drop (n * nb) xs" using old(2) by (simp del: fun_upd_apply) simp
  then show ?case using old(1) Suc.prems by (intro exI [of _ ?old]) (auto simp del: fun_upd_apply simp: fun_upd_def)
qed

lemma word_3s: "load_le (Suc (Suc (Suc (Suc 0)))) (\<lambda>_. 3) a = (0x03030303 :: u32)"
  by simp

lemma addr_ok_of_nat: "n < 2 ^ 34 \<Longrightarrow> 8 dvd n \<Longrightarrow> addr_ok (of_nat n)"
  by (simp add: addr_ok_def word_arith_nat_mod word_less_nat_alt unat_of_nat take_bit_eq_mod)

lemma run_small:
  "req_ok run_topo small_op" "sim_ok run_topo small_op" "tables_ok small_op small_tables"
  "unit_ready run_topo small_op small_tables [small_dev] (1, 0, 0)" "pack_identifiers run_topo = [1]"
proof -
  show "req_ok run_topo small_op"
    by (simp add: req_ok_def small_op_def op_ok_def layout_ok_def small_object_def topo_ok_def run_topo_def inst_single_buf_size_def)
      (simp add: small_topo_def num_of_pack_def pack_identifiers_def psum_single_buf_size_def upt_rec)
  show "sim_ok run_topo small_op"
    by (simp add: sim_ok_def run_topo_def small_topo_def small_op_def is_tagged_def inst_single_buf_size_def psum_single_buf_size_def)
  show "tables_ok small_op small_tables"
    by (simp add: tables_ok_def small_op_def small_tables_def tables_wf_def segs_ok_def take_Cons')
  show "pack_identifiers run_topo = [1]"
    by (simp add: run_topo_def small_topo_def pack_identifiers_def num_of_pack_def upt_rec)
  have "(4 :: nat) = Suc (Suc (Suc (Suc 0)))" by simp
  then have ld: "load_le 4 (\<lambda>_. 3) a = (0x03030303 :: u32)" for a by (metis (no_types) word_3s)
  have "unit_ok run_topo small_dev"
    by (simp add: unit_ok_def regs_ok_def run_topo_def small_topo_def small_dev_def inst_single_buf_size_def psum_single_buf_size_def)
  moreover have "loaded run_topo small_op small_tables 0 [small_object] small_dev"
  proof -
    have "obj_offset small_object 0 = Inr 4096" by (simp add: small_object_def obj_offset_def)
    moreover have "addr_ok (4096 + of_nat r * 64)" if "r < 10" for r using addr_ok_of_nat [of "4096 + r * 64"] that by simp
    moreover have "elems32 (\<lambda>_. 3) a 16 = replicate 16 0x03030303" for a by (rule nth_equalityI) (simp_all add: ld)
    moreover have "DataSize run_topo = 4" by (simp add: run_topo_def small_topo_def)
    ultimately show ?thesis
      by (simp add: loaded_def small_dev_def small_tables_def small_simps)
  qed
  ultimately show "unit_ready run_topo small_op small_tables [small_dev] (1, 0, 0)"
    by (simp add: unit_ready_def small_simps bit_0)
qed

lemma pack_runs:
  assumes "ready topo op tables sr p" "t \<in> object_id ` set (tables_objects op ! p)"
  shows "p \<in> set (packs_to_run topo sr)"
proof -
  let ?mb = "minibatch_size op"
  have "0 < ?mb" using assms(1) by (simp add: ready_def req_ok_def)
  then have "(t * ?mb) div ?mb = t" by simp
  then have "t * ?mb \<in> {s. s div ?mb \<in> object_id ` set (tables_objects op ! p)}" using assms(2) by (metis mem_Collect_eq)
  then have "get_num_exec_iterations sr p \<noteq> 0" unfolding pack_slots [OF assms(1), symmetric] by auto
  moreover have "p \<in> set (pack_identifiers topo)" using assms(1) by (simp add: ready_def)
  ultimately show ?thesis by (auto simp: packs_to_run_def Let_def filter_empty_conv)
qed

lemma packs_to_run_sub:
  assumes "p \<in> set (packs_to_run topo sr)" "p \<noteq> 0"
  shows "set (packs_to_run topo sr) \<subseteq> set (pack_identifiers topo)"
  using assms by (auto simp: packs_to_run_def Let_def split: if_splits)

lemma packs_hold_tables:
  assumes "req_ok topo op" "sim_ok topo op" "tables_ok op tables" "SparseReduction_make None topo op = Inr sr"
    "\<forall>t < length tables. \<exists>p \<in> set (pack_identifiers topo). t \<in> object_id ` set (tables_objects op ! p)"
  shows "set (packs_to_run topo sr) \<subseteq> set (pack_identifiers topo)" "\<exists>p. ready topo op tables sr p"
proof -
  have "map length tables = tables_sizes op" "tables_sizes op \<noteq> []" using assms(1,3) by (simp_all add: tables_ok_def req_ok_def)
  then obtain p where p: "p \<in> set (pack_identifiers topo)" "0 \<in> object_id ` set (tables_objects op ! p)"
    using assms(5) by (metis length_greater_0_conv list.map_disc_iff)
  then have rd: "ready topo op tables sr p" using assms(1-4) by (simp add: ready_def)
  then show "\<exists>p. ready topo op tables sr p" by blast
  show "set (packs_to_run topo sr) \<subseteq> set (pack_identifiers topo)"
    using packs_to_run_sub pack_runs [OF rd p(2)] p(1) by (metis pack_id_less less_irrefl)
qed

lemma covered_rows:
  assumes "req_ok topo op" "sim_ok topo op" "tables_ok op tables" "SparseReduction_make None topo op = Inr sr"
    "\<forall>t < length tables. \<exists>p \<in> set (pack_identifiers topo). t \<in> object_id ` set (tables_objects op ! p)"
  shows "merge_rows (length (lengths op)) {s. \<exists>p \<in> set (packs_to_run topo sr). s div minibatch_size op \<in> object_id ` set (tables_objects op ! p)}
      (new_row fadd op tables) old =
    row_bytes (cell_sums (op_add fadd (op_code (sls_type op))) (sparse_feature_size op)
      (per_table (minibatch_size op) tables (segments (lengths op) (indices op))))"
proof -
  let ?mb = "minibatch_size op" and ?n = "length (lengths op)"
  have op: "op_ok op" "0 < ?mb" using assms(1) by (simp_all add: req_ok_def)
  have "map length tables = tables_sizes op" using assms(3) by (simp add: tables_ok_def)
  then have len: "length tables = length (tables_sizes op)" by (metis length_map)
  have rd: "ready topo op tables sr p" if "p \<in> set (pack_identifiers topo)" for p using assms(1-4) that by (simp add: ready_def)
  obtain p0 where p0: "ready topo op tables sr p0" using packs_hold_tables(2) [OF assms] by blast
  have "s div ?mb < length tables" if "s < ?n" for s using that op len by (simp add: op_ok_def less_mult_imp_div_less)
  then have "\<exists>p \<in> set (packs_to_run topo sr). s div ?mb \<in> object_id ` set (tables_objects op ! p)" if "s < ?n" for s
    using assms(5) pack_runs [OF rd] that by blast
  then have "merge_rows ?n {s. \<exists>p \<in> set (packs_to_run topo sr). s div ?mb \<in> object_id ` set (tables_objects op ! p)} (new_row fadd op tables) old =
      concat (map (new_row fadd op tables) [0..<?n])" by (intro merge_rows_all) blast
  then show ?thesis using pairs_cell_sums [OF p0, of "op_add fadd (op_code (sls_type op))"] by (simp add: new_row_def [abs_def])
qed

lemma cpu_rows:
  assumes "req_ok topo op" "tables_ok op tables" "length ps = length (lengths op) * sparse_feature_size op"
  shows "cpu_compute add (concat (map concat tables)) (tables_sizes op) (indices op) (lengths op) (sparse_feature_size op) (minibatch_size op) ps =
    Inr (cell_sums add (sparse_feature_size op) (per_table (minibatch_size op) tables (segments (lengths op) (indices op))))"
proof -
  have op: "op_ok op" using assms(1) by (simp add: req_ok_def)
  have sizes: "map length tables = tables_sizes op" using assms(2) by (simp add: tables_ok_def)
  then have "length tables = length (tables_sizes op)" by (metis length_map)
  then show ?thesis
    using cpu_compute_correct [of "sparse_feature_size op" tables "lengths op" "minibatch_size op" "indices op" ps] assms(2,3) op sizes
    by (simp add: tables_ok_def op_ok_def mult.commute)
qed

lemma run_operation_rows:
  assumes "req_ok topo op" "sim_ok topo op" "tables_ok op tables" "SparseReduction_make None topo op = Inr sr"
    "\<forall>t < length tables. \<exists>p \<in> set (pack_identifiers topo). t \<in> object_id ` set (tables_objects op ! p)"
    "valid_schedule topo sr sched" "\<forall>x \<in> set sched. unit_ready topo op tables dev x" "\<And>x y. fadd x y = fadd y x"
    "length out = length (lengths op) * sparse_feature_size op * DataSize topo"
  shows "\<exists>dev'. run_operation sched fadd topo sr (dev, out) = Inr (dev', row_bytes
      (cell_sums (op_add fadd (op_code (sls_type op))) (sparse_feature_size op)
        (per_table (minibatch_size op) tables (segments (lengths op) (indices op))))) \<and> same_tables dev dev'"
proof -
  let ?n = "length (lengths op)" and ?nb = "sparse_feature_size op * DataSize topo"
  have rd: "ready topo op tables sr p" if "p \<in> set (pack_identifiers topo)" for p using assms(1-4) that by (simp add: ready_def)
  have sched: "fst ` set sched = set (packs_to_run topo sr)" using assms(6) by (metis valid_schedule_def set_map set_mset_mset)
  obtain old where old: "\<forall>s. length (old s) = ?nb" "out = concat (map old [0..<?n])"
    using split_rows [of out ?n ?nb] assms(9) by (auto simp: mult.assoc)
  obtain dev' where d: "run_operation sched fadd topo sr (dev, merge_rows ?n {} (new_row fadd op tables) old) =
      Inr (dev', merge_rows ?n {s. \<exists>p \<in> fst ` set sched. s div minibatch_size op \<in> object_id ` set (tables_objects op ! p)} (new_row fadd op tables) old)"
    "same_tables dev dev'"
    using run_operation_correct [where fadd = fadd and old = old, OF _ assms(8) refl _ refl, of sched topo op tables sr dev] old(1) assms(7) sched
      packs_hold_tables(1) [OF assms(1-5)] rd by blast
  have "merge_rows ?n {} (new_row fadd op tables) old = out" by (simp add: merge_rows_def old(2))
  then show ?thesis using d unfolding sched covered_rows [OF assms(1-5)] by simp
qed

section \<open>Properties\<close>

text \<open>
  C2: running a reduction on the simulated device computes what the host reference computes: when
  every table is loaded into the packs that hold it, the packs may be run in any order, each on
  any of its compute units, and the user's buffer ends up with the bytes of the rows that
  \<open>cpu_compute\<close> returns.
\<close>
theorem run_operation_equals_cpu:
  assumes "req_ok topo op" "sim_ok topo op" "tables_ok op tables" "SparseReduction_make None topo op = Inr sr"
    "\<forall>t < length tables. \<exists>p \<in> set (pack_identifiers topo). t \<in> object_id ` set (tables_objects op ! p)"
    "valid_schedule topo sr sched" "\<forall>x \<in> set sched. unit_ready topo op tables dev x" "\<And>x y. fadd x y = fadd y x"
    "length out = length (lengths op) * sparse_feature_size op * DataSize topo" "length ps = length (lengths op) * sparse_feature_size op"
  shows "\<exists>dev' rows. run_operation sched fadd topo sr (dev, out) = Inr (dev', concat (map (word_bytes 4) rows)) \<and>
    cpu_compute (op_add fadd (op_code (sls_type op))) (concat (map concat tables)) (tables_sizes op) (indices op) (lengths op)
      (sparse_feature_size op) (minibatch_size op) ps = Inr rows"
  using run_operation_rows [where fadd = fadd, OF assms(1-9)] cpu_rows [OF assms(1,3,10)] by (auto simp: row_bytes_def)

theorem run_operation_equals_cpu_witness:
  "\<exists>sr dev' rows. SparseReduction_make None run_topo small_op = Inr sr \<and>
    run_operation [(1, 0, 0)] (+) run_topo sr ([small_dev], replicate 128 9) = Inr (dev', concat (map (word_bytes 4) rows)) \<and>
    cpu_compute (+) (concat (map concat small_tables)) [10] [3, 1, 0] [1, 2] 16 2 (replicate 32 7) = Inr rows"
proof -
  obtain sr where sr: "SparseReduction_make None run_topo small_op = Inr sr"
    using SparseReduction_make_correct [OF run_small(1)] by blast
  have "ready run_topo small_op small_tables sr 1" using run_small sr by (simp add: ready_def)
  then have "1 \<in> set (packs_to_run run_topo sr)" by (rule pack_runs [of _ _ _ _ _ 0]) (simp add: small_simps)
  then have v: "valid_schedule run_topo sr [(1, 0, 0)]"
    by (auto simp: valid_schedule_def packs_to_run_def run_small(5) split: if_splits)
  have t: "\<forall>t < length small_tables. \<exists>p \<in> set (pack_identifiers run_topo). t \<in> object_id ` set (tables_objects small_op ! p)"
    by (simp add: small_tables_def run_small(5) small_simps)
  have d: "DataSize run_topo = 4" by (simp add: run_topo_def small_topo_def)
  have add: "op_add (+) c = (+)" for c by (simp add: op_add_def)
  have "length (replicate 128 (9 :: u8)) = length (lengths small_op) * sparse_feature_size small_op * DataSize run_topo"
    "length (replicate 32 (7 :: u32)) = length (lengths small_op) * sparse_feature_size small_op"
    by (simp_all add: small_simps d)
  from run_operation_equals_cpu [where fadd = "(+)", OF run_small(1-3) sr t v _ add.commute this, of "[small_dev]"] run_small(4)
  show ?thesis using sr by (simp add: add small_simps small_op_def [THEN arg_cong, of indices])
qed

end
