(* ===== verification/Bit_Storage.thy ===== *)
theory Bit_Storage
  imports Prelude
begin

text \<open>
  The bit containers of the in-memory database (\<open>include/pnmlib/imdb/bit_common.h\<close>,
  \<open>bit_views.h\<close>, \<open>bit_iterator.h\<close>, \<open>bit_containers.h\<close>): values of a fixed number of bits packed into
  an array of 32-bit words, and sets of numbers stored as bits. The lemmas show that packing and
  reading back are inverse, and that a bit vector is the set of the numbers whose bits are set.
\<close>

section \<open>Sizes and positions\<close>

definition BIT_IN_BYTE :: u64 where
  "BIT_IN_BYTE = 8"

definition align_size :: "u64 \<Rightarrow> u64 \<Rightarrow> u64 result" where
  "align_size sz align = assert_r (align AND (align - 1) = 0) (Inr ((sz + align - 1) AND NOT (align - 1)))"

text \<open>The size of the element type is an argument.\<close>

definition aligned_storage_size :: "u64 \<Rightarrow> u64 \<Rightarrow> u64 \<Rightarrow> u64 result" where
  "aligned_storage_size sizeof_T bits_count bit_align =
     assert_r (bit_align mod 8 = 0)
      (let bytes = (if bits_count mod BIT_IN_BYTE = 0 then bits_count div BIT_IN_BYTE
                    else bits_count div BIT_IN_BYTE + 1) in
       bind_r (align_size bytes sizeof_T) (\<lambda>bytes.
       bind_r (align_size bytes (bit_align div BIT_IN_BYTE)) (\<lambda>n. Inr (n div sizeof_T))))"

definition in_storage_bit_position :: "nat \<Rightarrow> nat \<times> nat" where
  "in_storage_bit_position index = (index div 32, index AND (32 - 1))"

definition in_storage_bit_position_masked :: "nat \<Rightarrow> nat \<times> u64" where
  "in_storage_bit_position_masked index =
     (let position = in_storage_bit_position index in (fst position, push_bit (snd position) 1))"

section \<open>Packed values\<close>

record bit_compressed =
  value_bits :: nat
  value_counts :: nat
  value_mask :: u32
  bc_data :: "u32 list"

text \<open>Shifting by the width of the type or more is undefined.\<close>

definition bit_compressed_make :: "nat \<Rightarrow> nat \<Rightarrow> u32 list \<Rightarrow> bit_compressed result" where
  "bit_compressed_make bits n other =
     (if bits < 32 then Inr \<lparr>value_bits = bits, value_counts = n, value_mask = push_bit bits 1 - 1, bc_data = other\<rparr>
      else Inl Undefined)"

definition bc_bytes :: "bit_compressed \<Rightarrow> nat" where
  "bc_bytes bc = 4 * length (bc_data bc)"

definition bc_capacity :: "bit_compressed \<Rightarrow> nat result" where
  "bc_capacity bc = (if value_bits bc = 0 then Inl Undefined else Inr (bc_bytes bc * 8 div value_bits bc))"

definition get_value :: "bit_compressed \<Rightarrow> nat \<Rightarrow> u32 result" where
  "get_value bc i =
     (let (index, shift) = in_storage_bit_position (i * value_bits bc); d = bc_data bc in
      if value_bits bc + shift < 32 then
        if index < length d then Inr (drop_bit shift (d ! index) AND value_mask bc) else Inl Undefined
      else
        let part1_size = 32 - shift; part2_mask = drop_bit part1_size (value_mask bc) in
        if index + 1 < length d
        then Inr (push_bit part1_size (d ! (index + 1) AND part2_mask) OR drop_bit shift (d ! index))
        else Inl Undefined)"

definition set_value :: "bit_compressed \<Rightarrow> nat \<Rightarrow> u32 \<Rightarrow> bit_compressed result" where
  "set_value bc i v =
     (let (index, shift) = in_storage_bit_position (i * value_bits bc); v = v AND value_mask bc; d = bc_data bc in
      if value_bits bc + shift < 32 then
        if index < length d then Inr (bc\<lparr>bc_data := d[index := d ! index OR push_bit shift v]\<rparr>) else Inl Undefined
      else
        let part1_size = 32 - shift in
        if index + 1 < length d
        then Inr (bc\<lparr>bc_data := d[index := d ! index OR push_bit shift (v AND drop_bit (value_bits bc - part1_size) (value_mask bc)),
               index + 1 := d ! (index + 1) OR drop_bit part1_size v]\<rparr>)
        else Inl Undefined)"

text \<open>Reading all values through the iterators: index 0 up to the number of values.\<close>

definition bc_values :: "bit_compressed \<Rightarrow> u32 list result" where
  "bc_values bc = map_r (get_value bc) [0..<value_counts bc]"

section \<open>Bit vectors\<close>

record bit_vector =
  max_value :: nat
  bv_data :: "u32 list"

definition bv_bytes :: "bit_vector \<Rightarrow> nat" where
  "bv_bytes bv = 4 * length (bv_data bv)"

definition bv_capacity :: "bit_vector \<Rightarrow> nat" where
  "bv_capacity bv = bv_bytes bv * 8"

definition contains :: "bit_vector \<Rightarrow> nat \<Rightarrow> bool result" where
  "contains bv v =
     (if max_value bv \<le> v then Inr False
      else let (index, mask) = in_storage_bit_position_masked v in
        if index < length (bv_data bv) then Inr (ucast (bv_data bv ! index) AND mask \<noteq> 0) else Inl Undefined)"

definition bv_insert :: "bit_vector \<Rightarrow> nat \<Rightarrow> bit_vector result" where
  "bv_insert bv v =
     (let (index, mask) = in_storage_bit_position_masked v; d = bv_data bv in
      if index < length d then Inr (bv\<lparr>bv_data := d[index := ucast (ucast (d ! index) OR mask)]\<rparr>) else Inl Undefined)"

definition bv_erase :: "bit_vector \<Rightarrow> nat \<Rightarrow> bit_vector result" where
  "bv_erase bv v =
     (let (index, mask) = in_storage_bit_position_masked v; d = bv_data bv in
      if index < length d then Inr (bv\<lparr>bv_data := d[index := ucast (ucast (d ! index) AND NOT mask)]\<rparr>) else Inl Undefined)"

definition bv_clear :: "bit_vector \<Rightarrow> bit_vector" where
  "bv_clear bv = bv\<lparr>bv_data := replicate (length (bv_data bv)) 0\<rparr>"

text \<open>The iterator moves to the next number whose bit is set, or to the size.\<close>

function find_set :: "bit_vector \<Rightarrow> nat \<Rightarrow> nat result" where
  "find_set bv index =
     (if index < max_value bv
      then bind_r (contains bv index) (\<lambda>b. if b then Inr index else find_set bv (index + 1))
      else Inr index)"
  by auto
termination by (relation "measure (\<lambda>(bv, index). max_value bv - index)") auto

declare find_set.simps [simp del]

definition bv_begin :: "bit_vector \<Rightarrow> nat result" where
  "bv_begin bv = find_set bv 0"

definition it_helper_next :: "bit_vector \<Rightarrow> nat \<Rightarrow> nat result" where
  "it_helper_next bv index = find_set bv (index + 1)"

text \<open>The values between begin and end; the end iterator is at the size.\<close>

function bv_collect :: "bit_vector \<Rightarrow> nat \<Rightarrow> nat list result" where
  "bv_collect bv index =
     (if index = max_value bv then Inr []
      else if index < max_value bv
      then bind_r (it_helper_next bv index) (\<lambda>next_index. bind_r (bv_collect bv next_index) (\<lambda>vs. Inr (index # vs)))
      else Inl Undefined)"
  by auto
termination
proof (relation "measure (\<lambda>(bv, index). max_value bv - index)")
  have ge: "find_set bv i = Inr j \<Longrightarrow> i \<le> j" for bv i j
  proof (induction bv i rule: find_set.induct)
    case (1 bv i)
    then show ?case by (subst (asm) (2) find_set.simps) (fastforce split: if_splits simp: bind_r_Inr_iff)
  qed
  fix bv :: bit_vector and index x
  assume "index \<noteq> max_value bv" "index < max_value bv" "it_helper_next bv index = Inr x"
  then show "((bv, x), (bv, index)) \<in> measure (\<lambda>(bv, index). max_value bv - index)"
    by (auto simp: it_helper_next_def dest!: ge)
qed simp

declare bv_collect.simps [simp del]

definition bv_elements :: "bit_vector \<Rightarrow> nat list result" where
  "bv_elements bv = bind_r (bv_begin bv) (bv_collect bv)"

text \<open>
  The comparison runs along the left operand only: an iterator of the right operand that has
  reached the end continues with the numbers behind the size.
\<close>

function equal_from :: "bit_vector \<Rightarrow> bit_vector \<Rightarrow> nat \<Rightarrow> nat \<Rightarrow> bool result" where
  "equal_from lhs rhs i j =
     (if i = max_value lhs then Inr True
      else if i < max_value lhs
      then if i \<noteq> j then Inr False
           else bind_r (it_helper_next lhs i) (\<lambda>i'. bind_r (it_helper_next rhs j) (equal_from lhs rhs i'))
      else Inl Undefined)"
  by auto
termination
proof (relation "measure (\<lambda>(lhs, rhs, i, j). max_value lhs - i)")
  have ge: "find_set bv i = Inr j \<Longrightarrow> i \<le> j" for bv i j
  proof (induction bv i rule: find_set.induct)
    case (1 bv i)
    then show ?case by (subst (asm) (2) find_set.simps) (fastforce split: if_splits simp: bind_r_Inr_iff)
  qed
  fix lhs rhs :: bit_vector and i j x y
  assume "i \<noteq> max_value lhs" "i < max_value lhs" "it_helper_next lhs i = Inr x"
  then show "((lhs, rhs, x, y), (lhs, rhs, i, j)) \<in> measure (\<lambda>(lhs, rhs, i, j). max_value lhs - i)"
    by (auto simp: it_helper_next_def dest!: ge)
qed simp

declare equal_from.simps [simp del]

definition bv_equal :: "bit_vector \<Rightarrow> bit_vector \<Rightarrow> bool result" where
  "bv_equal lhs rhs = bind_r (bv_begin lhs) (\<lambda>i. bind_r (bv_begin rhs) (equal_from lhs rhs i))"

section \<open>Containers\<close>

definition compressed_vector_storage_size :: "u64 \<Rightarrow> u64 \<Rightarrow> u64 result" where
  "compressed_vector_storage_size value_bit_size n = aligned_storage_size 4 (value_bit_size * n + 512) 512"

definition bit_vector_storage_size :: "u64 \<Rightarrow> u64 result" where
  "bit_vector_storage_size max_val = aligned_storage_size 4 max_val 512"

definition compressed_vector_make :: "nat \<Rightarrow> nat \<Rightarrow> bit_compressed result" where
  "compressed_vector_make bits n =
     bind_r (compressed_vector_storage_size (of_nat bits) (of_nat n))
       (\<lambda>k. bit_compressed_make bits n (replicate (unat k) 0))"

primrec set_values :: "u32 list \<Rightarrow> nat \<Rightarrow> bit_compressed \<Rightarrow> bit_compressed result" where
  "set_values [] i bc = Inr bc"
| "set_values (v # vs) i bc = bind_r (set_value bc i v) (set_values vs (i + 1))"

definition compressed_vector_of :: "nat \<Rightarrow> u32 list \<Rightarrow> bit_compressed result" where
  "compressed_vector_of bits vs = bind_r (compressed_vector_make bits (length vs)) (set_values vs 0)"

definition bit_vector_make :: "nat \<Rightarrow> bit_vector result" where
  "bit_vector_make n =
     bind_r (bit_vector_storage_size (of_nat n)) (\<lambda>k. Inr \<lparr>max_value = n, bv_data = replicate (unat k) 0\<rparr>)"

definition range_upper_limit :: "nat list \<Rightarrow> nat" where
  "range_upper_limit vs = (if vs = [] then 0 else fold max vs 0 + 1)"

primrec insert_values :: "nat list \<Rightarrow> bit_vector \<Rightarrow> bit_vector result" where
  "insert_values [] bv = Inr bv"
| "insert_values (v # vs) bv = bind_r (bv_insert bv v) (insert_values vs)"

definition bit_vector_of :: "nat list \<Rightarrow> bit_vector result" where
  "bit_vector_of vs = bind_r (bit_vector_make (range_upper_limit vs)) (insert_values vs)"

section \<open>Specification\<close>

text \<open>
  The bit at a position of the storage, the value packed at a position, and the set a bit vector
  stands for.
\<close>

definition sbit :: "u32 list \<Rightarrow> nat \<Rightarrow> bool" where
  "sbit d j \<longleftrightarrow> j div 32 < length d \<and> bit (d ! (j div 32)) (j mod 32)"

definition field_at :: "u32 list \<Rightarrow> nat \<Rightarrow> nat \<Rightarrow> u32" where
  "field_at d p n = horner_sum of_bool 2 (map (\<lambda>j. sbit d (p + j)) [0..<n])"

definition bc_ok :: "bit_compressed \<Rightarrow> bool" where
  "bc_ok bc \<longleftrightarrow> 0 < value_bits bc \<and> value_bits bc < 32 \<and> value_mask bc = mask (value_bits bc) \<and>
     value_bits bc * value_counts bc + 32 \<le> 32 * length (bc_data bc)"

definition bv_ok :: "bit_vector \<Rightarrow> bool" where
  "bv_ok bv \<longleftrightarrow> max_value bv \<le> 32 * length (bv_data bv)"

definition bv_set :: "bit_vector \<Rightarrow> nat set" where
  "bv_set bv = {v. v < max_value bv \<and> sbit (bv_data bv) v}"

section \<open>Lemmas on sizes\<close>

lemma align_down: "of_nat n AND NOT (mask k) = (of_nat (n div 2 ^ k * 2 ^ k) :: u64)"
proof -
  have "(of_nat n AND NOT (mask k) :: u64) = push_bit k (drop_bit k (of_nat n))"
    by (rule bit_word_eqI) (auto simp: bit_simps)
  also have "\<dots> = of_nat (push_bit k (drop_bit k n))"
    by (rule bit_word_eqI) (auto simp: bit_simps)
  also have "push_bit k (drop_bit k n) = n div 2 ^ k * 2 ^ k" by (simp add: push_bit_eq_mult drop_bit_eq_div)
  finally show ?thesis .
qed

lemma align_size_correct:
  "align_size (of_nat n) (2 ^ k) = Inr (of_nat ((n + 2 ^ k - 1) div 2 ^ k * 2 ^ k))"
proof -
  have m: "(2 ^ k :: u64) - 1 = mask k" by (simp add: mask_eq_decr_exp)
  have "(2 ^ k :: u64) AND (2 ^ k - 1) = 0"
    unfolding m by (rule bit_word_eqI) (auto simp: bit_simps)
  moreover have "(of_nat n + 2 ^ k - 1 :: u64) = of_nat (n + 2 ^ k - 1)"
    by (subst of_nat_diff) (simp_all add: Suc_le_eq)
  ultimately show ?thesis unfolding align_size_def m by (simp only: align_down assert_r_simps simp_thms)
qed

text \<open>The storage is the smallest number of whole 512-bit blocks that holds the bits.\<close>

lemma storage_size_correct:
  assumes "bits + 1024 \<le> 2 ^ 64"
  shows "aligned_storage_size 4 (of_nat bits) 512 = Inr (of_nat (16 * ((bits + 511) div 512)))"
proof -
  have u: "unat (of_nat n :: u64) = n" if "n < 2 ^ 64" for n using that by (simp add: unat_of_nat take_bit_eq_mod)
  have dv: "(of_nat n :: u64) div of_nat d = of_nat (n div d)" if "n < 2 ^ 64" "d < 2 ^ 64" for n d
    using that by (simp add: word_arith_nat_div u)
  have md: "(of_nat n :: u64) mod of_nat d = of_nat (n mod d)" if "n < 2 ^ 64" "d < 2 ^ 64" for n d
    using that by (simp add: word_arith_nat_mod u)
  have b: "bits < 2 ^ 64" using assms by simp
  let ?bytes = "(bits + 7) div 8"
  have "(if (of_nat bits :: u64) mod 8 = 0 then of_nat bits div 8 else of_nat bits div 8 + 1) = (of_nat ?bytes :: u64)"
  proof (cases "bits mod 8 = 0")
    case True
    then have "?bytes = bits div 8" by (auto simp: mod_eq_0_iff_dvd elim!: dvdE)
    then show ?thesis using dv [OF b, of 8] md [OF b, of 8] True by simp
  next
    case False
    then have "?bytes = bits div 8 + 1" by presburger
    moreover have "(of_nat bits :: u64) mod 8 \<noteq> 0"
    proof -
      have "unat ((of_nat bits :: u64) mod 8) = bits mod 8" using md [OF b, of 8] u [of "bits mod 8"] b by (simp add: less_trans [of _ 8])
      then show ?thesis using False by (metis unat_0)
    qed
    ultimately show ?thesis using dv [OF b, of 8] by simp
  qed
  moreover have "align_size (of_nat ?bytes) 4 = Inr (of_nat (4 * ((bits + 31) div 32)))"
  proof -
    have "(bits + 31) div 8 = ?bytes + 3" by simp
    then have "(?bytes + 3) div 4 = (bits + 31) div 32" using div_mult2_eq [of "bits + 31" 8 4] by simp
    then show ?thesis using align_size_correct [of ?bytes 2] by (simp add: add.commute mult.commute)
  qed
  moreover have "align_size (of_nat (4 * ((bits + 31) div 32))) 64 = Inr (of_nat (64 * ((bits + 511) div 512)))"
  proof -
    have "(bits + 511) div 32 = (bits + 31) div 32 + 15" by simp
    then have "((bits + 31) div 32 + 15) div 16 = (bits + 511) div 512" using div_mult2_eq [of "bits + 511" 32 16] by simp
    moreover have "(63 + 4 * x) div 64 = (15 + x) div 16" for x :: nat by presburger
    ultimately have "(63 + 4 * ((bits + 31) div 32)) div 64 = (bits + 511) div 512" by (metis add.commute)
    then show ?thesis using align_size_correct [of "4 * ((bits + 31) div 32)" 6] by (simp add: add.commute mult.commute)
  qed
  moreover have "(of_nat (64 * ((bits + 511) div 512)) :: u64) div 4 = of_nat (16 * ((bits + 511) div 512))"
  proof -
    have "64 * ((bits + 511) div 512) < 2 ^ 64" using assms by simp
    then show ?thesis using dv [of "64 * ((bits + 511) div 512)" 4] by simp
  qed
  ultimately show ?thesis by (simp add: aligned_storage_size_def BIT_IN_BYTE_def Let_def split: if_splits)
qed

section \<open>Lemmas on packed values\<close>

lemma bit_position: "in_storage_bit_position p = (p div 32, p mod 32)"
proof -
  have "p AND 31 = take_bit 5 p" by (simp add: take_bit_eq_mask mask_eq_exp_minus_1)
  then show ?thesis by (simp add: in_storage_bit_position_def take_bit_eq_mod)
qed

lemma bit_field_at: "bit (field_at d p n) j \<longleftrightarrow> j < n \<and> j < 32 \<and> sbit d (p + j)"
  by (auto simp: field_at_def bit_horner_sum_bit_iff)

lemma field_at_cong: "(\<And>j. j < n \<Longrightarrow> sbit d (p + j) = sbit d' (p + j)) \<Longrightarrow> field_at d p n = field_at d' p n"
  by (rule bit_word_eqI) (auto simp: bit_field_at)

lemma sbit_pos: "r < 32 \<Longrightarrow> sbit d (32 * q + r) \<longleftrightarrow> q < length d \<and> bit (d ! q) r"
  by (simp add: sbit_def)

lemma sbit_split:
  assumes "a = p div 32" "s = p mod 32"
  shows "s + j < 32 \<Longrightarrow> sbit d (p + j) \<longleftrightarrow> a < length d \<and> bit (d ! a) (s + j)"
    "32 \<le> s + j \<Longrightarrow> j < 32 \<Longrightarrow> sbit d (p + j) \<longleftrightarrow> a + 1 < length d \<and> bit (d ! (a + 1)) (s + j - 32)"
proof -
  have p: "p = 32 * a + s" "s < 32" using assms by simp_all
  show "s + j < 32 \<Longrightarrow> sbit d (p + j) \<longleftrightarrow> a < length d \<and> bit (d ! a) (s + j)"
    using p by (simp add: sbit_def add.assoc)
  assume j: "32 \<le> s + j" "j < 32"
  then obtain k where k: "s + j = 32 + k" "k < 32" using p(2) by (metis add_less_imp_less_left add_mono_thms_linordered_field(5) le_iff_add)
  then have "(p + j) div 32 = a + 1" "(p + j) mod 32 = k" using p by (simp_all add: add.assoc)
  then show "sbit d (p + j) \<longleftrightarrow> a + 1 < length d \<and> bit (d ! (a + 1)) (s + j - 32)" using k by (simp add: sbit_def)
qed

lemma get_value_correct:
  assumes "value_bits bc < 32" "value_mask bc = mask (value_bits bc)" "0 < value_bits bc"
    "i * value_bits bc + value_bits bc + 32 \<le> 32 * length (bc_data bc)"
  shows "get_value bc i = Inr (field_at (bc_data bc) (i * value_bits bc) (value_bits bc))"
proof -
  define p n d where "p = i * value_bits bc" "n = value_bits bc" "d = bc_data bc"
  define a s where as: "a = p div 32" "s = p mod 32"
  have n: "0 < n" "n < 32" "p + n + 32 \<le> 32 * length d" using assms by (simp_all add: p_n_d_def)
  have p: "p = 32 * a + s" "s < 32" by (simp_all add: as)
  have len: "a + 1 < length d" using n p by simp
  note sb = sbit_split [OF as]
  show ?thesis
  proof (cases "n + s < 32")
    case True
    have "drop_bit s (d ! a) AND mask n = field_at d p n"
      using True len by (intro bit_word_eqI) (auto simp: bit_simps bit_field_at sb)
    then show ?thesis using True len assms(2)
      unfolding as p_n_d_def get_value_def bit_position Let_def by simp
  next
    case False
    have "push_bit (32 - s) (d ! (a + 1) AND drop_bit (32 - s) (mask n)) OR drop_bit s (d ! a) = field_at d p n"
    proof (rule bit_word_eqI)
      fix j assume "j < LENGTH(32)"
      then have j: "j < 32" by simp
      show "bit (push_bit (32 - s) (d ! (a + 1) AND drop_bit (32 - s) (mask n)) OR drop_bit s (d ! a)) j = bit (field_at d p n) j"
      proof (cases "s + j < 32")
        case True
        then have "j < n" using False by simp
        then show ?thesis using True j len p(2) by (auto simp: bit_simps bit_field_at sb(1))
      next
        case False
        then have "\<not> bit (d ! a) (s + j)" by (auto dest: bit_imp_le_length)
        then show ?thesis using False j len p(2) by (auto simp: bit_simps bit_field_at sb(2) add.commute [of j s])
      qed
    qed
    then show ?thesis using False len assms(2)
      unfolding as p_n_d_def get_value_def bit_position Let_def by simp
  qed
qed


lemma set_value_correct:
  assumes "value_bits bc < 32" "value_mask bc = mask (value_bits bc)" "0 < value_bits bc"
    "i * value_bits bc + value_bits bc + 32 \<le> 32 * length (bc_data bc)"
  shows "\<exists>d. set_value bc i v = Inr (bc\<lparr>bc_data := d\<rparr>) \<and> length d = length (bc_data bc) \<and>
    (\<forall>j. sbit d j \<longleftrightarrow> sbit (bc_data bc) j \<or>
       i * value_bits bc \<le> j \<and> j < i * value_bits bc + value_bits bc \<and> bit v (j - i * value_bits bc))"
proof -
  define p n d where "p = i * value_bits bc" "n = value_bits bc" "d = bc_data bc"
  define a s where as: "a = p div 32" "s = p mod 32"
  have n: "0 < n" "n < 32" "p + n + 32 \<le> 32 * length d" using assms by (simp_all add: p_n_d_def)
  have p: "p = 32 * a + s" "s < 32" by (simp_all add: as)
  have len: "a + 1 < length d" using n p by simp
  have pos: "\<exists>q r. j = 32 * q + r \<and> r < 32" for j :: nat by (intro exI [of _ "j div 32"] exI [of _ "j mod 32"]) simp
  show ?thesis
  proof (cases "n + s < 32")
    case True
    let ?d = "d[a := d ! a OR push_bit s (v AND mask n)]"
    have "sbit ?d j \<longleftrightarrow> sbit d j \<or> p \<le> j \<and> j < p + n \<and> bit v (j - p)" for j
    proof -
      obtain q r where j: "j = 32 * q + r" "r < 32" using pos by blast
      show ?thesis
      proof (cases "q = a")
        case True
        then show ?thesis using j len p \<open>n + s < 32\<close> by (auto simp: sbit_pos bit_simps)
      next
        case False
        then have "\<not> (p \<le> j \<and> j < p + n)" using p(1) True j by auto
        then show ?thesis using False j by (auto simp: sbit_pos)
      qed
    qed
    moreover have "set_value bc i v = Inr (bc\<lparr>bc_data := ?d\<rparr>)"
      using True len assms(2) unfolding as p_n_d_def set_value_def bit_position Let_def by simp
    ultimately show ?thesis unfolding p_n_d_def by auto
  next
    case False
    let ?d = "d[a := d ! a OR push_bit s ((v AND mask n) AND drop_bit (n - (32 - s)) (mask n)), a + 1 := d ! (a + 1) OR drop_bit (32 - s) (v AND mask n)]"
    have "sbit ?d j \<longleftrightarrow> sbit d j \<or> p \<le> j \<and> j < p + n \<and> bit v (j - p)" for j
    proof -
      obtain q r where j: "j = 32 * q + r" "r < 32" using pos by blast
      consider "q = a" | "q = a + 1" | "q < a \<or> a + 1 < q" by linarith
      then show ?thesis
      proof cases
        case 1
        then show ?thesis using j len p False n(1,2) by (auto simp: sbit_pos bit_simps)
      next
        case 2
        have "sbit ?d j \<longleftrightarrow> bit (d ! (a + 1)) r \<or> r + (32 - s) < n \<and> bit v (r + (32 - s))"
          unfolding j(1) 2 sbit_pos [OF j(2)] using len n(2) by (auto simp: bit_simps add.commute [of "32 - s"])
        moreover have "sbit d j \<longleftrightarrow> bit (d ! (a + 1)) r" unfolding j(1) 2 sbit_pos [OF j(2)] using len by simp
        moreover have "j - p = r + (32 - s)" "p \<le> j \<and> j < p + n \<longleftrightarrow> r + (32 - s) < n" using 2 j p by auto
        ultimately show ?thesis by auto
      next
        case 3
        then have "\<not> (p \<le> j \<and> j < p + n)" using p n(2) j by auto
        then show ?thesis using 3 j by (auto simp: sbit_pos)
      qed
    qed
    moreover have "set_value bc i v = Inr (bc\<lparr>bc_data := ?d\<rparr>)"
      using False len assms(2) unfolding as p_n_d_def set_value_def bit_position Let_def by simp
    ultimately show ?thesis unfolding p_n_d_def by auto
  qed
qed

lemma set_values_correct:
  assumes "bc_ok bc" "i + length vs \<le> value_counts bc"
  shows "\<exists>d. set_values vs i bc = Inr (bc\<lparr>bc_data := d\<rparr>) \<and> length d = length (bc_data bc) \<and>
    (\<forall>j. sbit d j \<longleftrightarrow> sbit (bc_data bc) j \<or> (\<exists>k < length vs. (i + k) * value_bits bc \<le> j \<and>
       j < (i + k) * value_bits bc + value_bits bc \<and> bit (vs ! k) (j - (i + k) * value_bits bc)))"
  using assms
proof (induction vs arbitrary: i bc)
  case Nil
  then show ?case by (intro exI [of _ "bc_data bc"]) simp
next
  case (Cons v vs)
  let ?n = "value_bits bc"
  have "(i + 1) * ?n \<le> value_counts bc * ?n" using Cons.prems(2) by (intro mult_right_mono) simp_all
  then have fit: "i * ?n + ?n + 32 \<le> 32 * length (bc_data bc)" using Cons.prems(1) by (simp add: bc_ok_def mult.commute)
  obtain d where d: "set_value bc i v = Inr (bc\<lparr>bc_data := d\<rparr>)" "length d = length (bc_data bc)"
    "\<forall>j. sbit d j \<longleftrightarrow> sbit (bc_data bc) j \<or> i * ?n \<le> j \<and> j < i * ?n + ?n \<and> bit v (j - i * ?n)"
    using set_value_correct [OF _ _ _ fit, of v] Cons.prems(1) by (auto simp: bc_ok_def)
  have ok: "bc_ok (bc\<lparr>bc_data := d\<rparr>)" "(i + 1) + length vs \<le> value_counts (bc\<lparr>bc_data := d\<rparr>)"
    using Cons.prems d(2) by (simp_all add: bc_ok_def)
  obtain d' where d': "set_values vs (i + 1) (bc\<lparr>bc_data := d\<rparr>) = Inr (bc\<lparr>bc_data := d'\<rparr>)" "length d' = length d"
    "\<forall>j. sbit d' j \<longleftrightarrow> sbit d j \<or> (\<exists>k < length vs. (i + 1 + k) * ?n \<le> j \<and> j < (i + 1 + k) * ?n + ?n \<and>
       bit (vs ! k) (j - (i + 1 + k) * ?n))"
    using Cons.IH [OF ok] by auto
  have "(\<exists>k < length (v # vs). (i + k) * ?n \<le> j \<and> j < (i + k) * ?n + ?n \<and> bit ((v # vs) ! k) (j - (i + k) * ?n)) \<longleftrightarrow>
      (i * ?n \<le> j \<and> j < i * ?n + ?n \<and> bit v (j - i * ?n)) \<or>
      (\<exists>k < length vs. (i + 1 + k) * ?n \<le> j \<and> j < (i + 1 + k) * ?n + ?n \<and> bit (vs ! k) (j - (i + 1 + k) * ?n))" for j
    by (simp only: length_Cons Nat.Ex_less_Suc2) simp
  then show ?case using d d' by (intro exI [of _ d']) auto
qed

lemma compressed_vector_make_correct:
  assumes "0 < bits" "bits < 32" "bits * n + 1536 \<le> 2 ^ 64"
  shows "\<exists>k. compressed_vector_make bits n =
    Inr \<lparr>value_bits = bits, value_counts = n, value_mask = mask bits, bc_data = replicate k 0\<rparr> \<and> bits * n + 512 \<le> 32 * k"
proof -
  let ?b = "bits * n + 512"
  have "compressed_vector_storage_size (of_nat bits) (of_nat n) = Inr (of_nat (16 * ((?b + 511) div 512)))"
    using storage_size_correct [of ?b] assms(3) by (simp add: compressed_vector_storage_size_def)
  moreover have "16 * ((?b + 511) div 512) < 2 ^ 64" using assms(3) by simp
  then have "unat (of_nat (16 * ((?b + 511) div 512)) :: u64) = 16 * ((?b + 511) div 512)"
    by (simp add: unat_of_nat take_bit_eq_mod del: of_nat_mult of_nat_add)
  moreover have "?b \<le> 32 * (16 * ((?b + 511) div 512))" by simp
  ultimately show ?thesis using assms(2) unfolding compressed_vector_make_def
    by (simp add: bit_compressed_make_def mask_eq_decr_exp del: of_nat_mult of_nat_add)
qed

lemma sbit_zero [simp]: "\<not> sbit (replicate k 0) j"
  by (simp add: sbit_def)

lemma packed_unique:
  fixes n :: nat
  assumes "k * n \<le> j" "j < k * n + n" "i * n \<le> j" "j < i * n + n"
  shows "k = i"
proof -
  have "j div n = k" "j div n = i" using assms by (auto intro!: div_nat_eqI simp: mult.commute)
  then show ?thesis by simp
qed

lemma bc_values_correct:
  assumes "bc_ok bc"
  shows "bc_values bc = Inr (map (\<lambda>i. field_at (bc_data bc) (i * value_bits bc) (value_bits bc)) [0..<value_counts bc])"
  unfolding bc_values_def
proof (rule map_r_Inr)
  fix i assume "i \<in> set [0..<value_counts bc]"
  then have "(i + 1) * value_bits bc \<le> value_counts bc * value_bits bc" by (intro mult_right_mono) simp_all
  then show "get_value bc i = Inr (field_at (bc_data bc) (i * value_bits bc) (value_bits bc))"
    using assms by (intro get_value_correct) (simp_all add: bc_ok_def mult.commute)
qed

lemma compressed_vector_of_correct:
  assumes "0 < bits" "bits < 32" "bits * length vs + 1536 \<le> 2 ^ 64"
  shows "\<exists>bc. compressed_vector_of bits vs = Inr bc \<and> bc_ok bc \<and> value_bits bc = bits \<and> value_counts bc = length vs \<and>
    bits * length vs + 512 \<le> 32 * length (bc_data bc) \<and>
    (\<forall>i < length vs. field_at (bc_data bc) (i * bits) bits = take_bit bits (vs ! i)) \<and>
    (\<forall>j \<ge> bits * length vs. \<not> sbit (bc_data bc) j)"
proof -
  obtain k where k: "compressed_vector_make bits (length vs) =
      Inr \<lparr>value_bits = bits, value_counts = length vs, value_mask = mask bits, bc_data = replicate k 0\<rparr>"
    "bits * length vs + 512 \<le> 32 * k" using compressed_vector_make_correct [OF assms] by blast
  let ?bc = "\<lparr>value_bits = bits, value_counts = length vs, value_mask = mask bits, bc_data = replicate k 0\<rparr>"
  have ok: "bc_ok ?bc" using assms(1,2) k(2) by (simp add: bc_ok_def)
  obtain d where d: "set_values vs 0 ?bc = Inr (?bc\<lparr>bc_data := d\<rparr>)" "length d = k"
    "\<And>j. sbit d j \<longleftrightarrow> (\<exists>i < length vs. i * bits \<le> j \<and> j < i * bits + bits \<and> bit (vs ! i) (j - i * bits))"
    using set_values_correct [OF ok, of 0 vs] by auto
  have "field_at d (i * bits) bits = take_bit bits (vs ! i)" if "i < length vs" for i
  proof (rule bit_word_eqI)
    fix j assume "j < LENGTH(32)"
    have "sbit d (i * bits + j) \<longleftrightarrow> bit (vs ! i) j" if "j < bits"
      unfolding d(3) using \<open>i < length vs\<close> that packed_unique [of _ bits "i * bits + j" i]
      by (auto intro!: exI [of _ i]) (metis add_diff_cancel_left')
    then show "bit (field_at d (i * bits) bits) j = bit (take_bit bits (vs ! i)) j"
      using \<open>j < LENGTH(32)\<close> by (auto simp: bit_field_at bit_simps)
  qed
  moreover have "\<not> sbit d j" if "bits * length vs \<le> j" for j
  proof
    assume "sbit d j"
    then obtain i where "i < length vs" "j < i * bits + bits" unfolding d(3) by blast
    moreover then have "(i + 1) * bits \<le> length vs * bits" by (intro mult_right_mono) simp_all
    ultimately show False using that by (simp add: mult.commute)
  qed
  ultimately show ?thesis using k d ok by (auto simp: compressed_vector_of_def bc_ok_def)
qed

section \<open>Lemmas on bit vectors\<close>

lemma bit_position_masked: "in_storage_bit_position_masked v = (v div 32, 2 ^ (v mod 32))"
  by (simp add: in_storage_bit_position_masked_def bit_position Let_def)

lemma and_single_bit: "(ucast (w :: u32) :: u64) AND 2 ^ k \<noteq> 0 \<longleftrightarrow> bit w k"
proof -
  have "(ucast w :: u64) AND 2 ^ k = 0 \<longleftrightarrow> \<not> bit w k"
    using bit_imp_le_length [of w k] by (subst bit_eq_iff) (auto simp: bit_simps dest: spec [of _ k])
  then show ?thesis by blast
qed

lemma contains_correct: "bv_ok bv \<Longrightarrow> contains bv v = Inr (v \<in> bv_set bv)"
  by (auto simp: contains_def bit_position_masked and_single_bit bv_ok_def bv_set_def sbit_def)

lemma bv_update:
  assumes "bv_ok bv" "v < max_value bv"
  shows "\<exists>bv'. bv_insert bv v = Inr bv' \<and> bv_ok bv' \<and> max_value bv' = max_value bv \<and> length (bv_data bv') = length (bv_data bv) \<and>
      (\<forall>j. sbit (bv_data bv') j \<longleftrightarrow> sbit (bv_data bv) j \<or> j = v)"
    and "\<exists>bv'. bv_erase bv v = Inr bv' \<and> bv_ok bv' \<and> max_value bv' = max_value bv \<and> length (bv_data bv') = length (bv_data bv) \<and>
      (\<forall>j. sbit (bv_data bv') j \<longleftrightarrow> sbit (bv_data bv) j \<and> j \<noteq> v)"
proof -
  have v: "v div 32 < length (bv_data bv)" using assms by (simp add: bv_ok_def less_mult_imp_div_less mult.commute)
  have eq: "j div 32 = v div 32 \<and> j mod 32 = v mod 32 \<longleftrightarrow> j = v" for j by (metis div_mult_mod_eq)
  have ins: "bit (ucast (ucast (w :: u32) OR 2 ^ k :: u64) :: u32) r \<longleftrightarrow> bit w r \<or> r = k" if "k < 32" for w k r
    using that by (auto simp: bit_simps dest: bit_imp_le_length)
  have er: "bit (ucast (ucast (w :: u32) AND NOT (2 ^ k) :: u64) :: u32) r \<longleftrightarrow> bit w r \<and> r \<noteq> k" if "k < 32" for w k r
    using that by (auto simp: bit_simps dest: bit_imp_le_length)
  have "sbit ((bv_data bv)[v div 32 := ucast (ucast (bv_data bv ! (v div 32)) OR 2 ^ (v mod 32) :: u64)]) j \<longleftrightarrow> sbit (bv_data bv) j \<or> j = v" for j
    using eq [of j] v by (cases "j div 32 = v div 32") (auto simp: sbit_def ins)
  then show "\<exists>bv'. bv_insert bv v = Inr bv' \<and> bv_ok bv' \<and> max_value bv' = max_value bv \<and> length (bv_data bv') = length (bv_data bv) \<and>
      (\<forall>j. sbit (bv_data bv') j \<longleftrightarrow> sbit (bv_data bv) j \<or> j = v)"
    using v assms(1) by (simp add: bv_insert_def Let_def bit_position_masked bv_ok_def)
  have "sbit ((bv_data bv)[v div 32 := ucast (ucast (bv_data bv ! (v div 32)) AND NOT (2 ^ (v mod 32)) :: u64)]) j \<longleftrightarrow> sbit (bv_data bv) j \<and> j \<noteq> v" for j
    using eq [of j] v by (cases "j div 32 = v div 32") (auto simp: sbit_def er)
  then show "\<exists>bv'. bv_erase bv v = Inr bv' \<and> bv_ok bv' \<and> max_value bv' = max_value bv \<and> length (bv_data bv') = length (bv_data bv) \<and>
      (\<forall>j. sbit (bv_data bv') j \<longleftrightarrow> sbit (bv_data bv) j \<and> j \<noteq> v)"
    using v assms(1) by (simp add: bv_erase_def Let_def bit_position_masked bv_ok_def)
qed

lemma find_set_correct:
  assumes "bv_ok bv"
  shows "find_set bv i = Inr (hd (filter (\<lambda>v. v \<in> bv_set bv) [i..<max_value bv] @ [max i (max_value bv)]))"
  using assms
proof (induction bv i rule: find_set.induct)
  case (1 bv i)
  show ?case
  proof (cases "i < max_value bv")
    case True
    then show ?thesis using 1 by (subst find_set.simps) (auto simp: contains_correct upt_conv_Cons max_def)
  next
    case False
    then show ?thesis by (subst find_set.simps) simp
  qed
qed

lemma bv_collect_correct:
  fixes bv
  defines "Q \<equiv> \<lambda>v. v \<in> bv_set bv" and "m \<equiv> max_value bv"
  assumes "bv_ok bv" "i \<le> m"
  shows "bv_collect bv (hd (filter Q [i..<m] @ [m])) = Inr (filter Q [i..<m])"
  using assms(4)
proof (induction "m - i" arbitrary: i)
  case 0
  then show ?case by (simp add: bv_collect.simps m_def)
next
  case (Suc k)
  then have i: "i < m" and IH: "bv_collect bv (hd (filter Q [i + 1..<m] @ [m])) = Inr (filter Q [i + 1..<m])" by simp_all
  have nx: "it_helper_next bv i = Inr (hd (filter Q [i + 1..<m] @ [m]))"
    using find_set_correct [OF assms(3), of "i + 1"] i by (simp add: it_helper_next_def Q_def m_def max_def)
  show ?case
  proof (cases "Q i")
    case True
    then show ?thesis using i nx IH unfolding upt_conv_Cons [OF i] by (simp, subst bv_collect.simps, simp add: m_def)
  next
    case False
    then show ?thesis using IH unfolding upt_conv_Cons [OF i] by simp
  qed
qed

lemma bv_elements_correct:
  "bv_ok bv \<Longrightarrow> bv_elements bv = Inr (filter (\<lambda>v. v \<in> bv_set bv) [0..<max_value bv])"
  using find_set_correct [of bv 0] bv_collect_correct [of bv 0] by (simp add: bv_elements_def bv_begin_def)

text \<open>
  The comparison: the values of the left operand are compared with those of the right operand
  followed by all numbers from its size on.
\<close>

lemma filter_upt_Cons:
  "filter Q [i..<m] = x # xs \<Longrightarrow> xs = filter Q [x + 1..<m] \<and> Q x \<and> x < m \<and> i \<le> x"
proof (induction "m - i" arbitrary: i)
  case (Suc k)
  then have i: "i < m" "k = m - (i + 1)" by simp_all
  then show ?case using Suc.prems Suc.hyps(1) [OF i(2)]
    unfolding upt_conv_Cons [OF i(1)] by (cases "Q i") auto
qed simp

lemma equal_from_correct:
  fixes l r
  defines "L \<equiv> \<lambda>i. filter (\<lambda>v. v \<in> bv_set l) [i..<max_value l]" and "R \<equiv> \<lambda>i. filter (\<lambda>v. v \<in> bv_set r) [i..<max_value r]"
  assumes "bv_ok l" "bv_ok r" "L i = xs"
  shows "equal_from l r (hd (xs @ [max_value l])) (hd (R j @ [max j (max_value r)])) =
    Inr (xs = take (length xs) (R j @ [max j (max_value r)..<max j (max_value r) + length xs]))"
  using assms(5)
proof (induction xs arbitrary: i j)
  case Nil
  then show ?case by (simp add: equal_from.simps)
next
  case (Cons x xs)
  have x: "xs = L (x + 1)" "x < max_value l" using filter_upt_Cons [of _ i "max_value l" x xs] Cons.prems by (simp_all add: L_def)
  have nl: "it_helper_next l x = Inr (hd (xs @ [max_value l]))"
    using find_set_correct [OF assms(3), of "x + 1"] x by (simp add: it_helper_next_def L_def max_def)
  define y where "y = hd (R j @ [max j (max_value r)])"
  have nr: "it_helper_next r y = Inr (hd (R (y + 1) @ [max (y + 1) (max_value r)]))"
    using find_set_correct [OF assms(4), of "y + 1"] by (simp add: it_helper_next_def R_def)
  have IH: "equal_from l r (hd (xs @ [max_value l])) (hd (R (y + 1) @ [max (y + 1) (max_value r)])) =
      Inr (xs = take (length xs) (R (y + 1) @ [max (y + 1) (max_value r)..<max (y + 1) (max_value r) + length xs]))"
    using Cons.IH [of "x + 1" "y + 1"] x(1) by simp
  have "R j @ [max j (max_value r)..<max j (max_value r) + Suc (length xs)] =
      y # R (y + 1) @ [max (y + 1) (max_value r)..<max (y + 1) (max_value r) + length xs] @ zs" 
    if "zs = (if R j = [] then [] else [max j (max_value r) + length xs])" for zs
  proof (cases "R j")
    case Nil
    then have "y = max j (max_value r)" "R (y + 1) = []" by (simp_all add: y_def R_def)
    moreover have "[M..<Suc (M + k)] = M # [Suc M..<Suc (M + k)]" for M k by (simp add: upt_conv_Cons del: upt_Suc)
    ultimately show ?thesis using Nil that by (simp del: upt_Suc)
  next
    case (Cons z zs)
    then have "zs = R (z + 1)" "z < max_value r" "j \<le> z" using filter_upt_Cons [of _ j "max_value r" z zs] by (simp_all add: R_def)
    then show ?thesis using Cons that by (simp add: y_def)
  qed
  note step = this
  have "take (Suc (length xs)) (R j @ [max j (max_value r)..<max j (max_value r) + Suc (length xs)]) =
      y # take (length xs) (R (y + 1) @ [max (y + 1) (max_value r)..<max (y + 1) (max_value r) + length xs])"
    unfolding step [OF refl] by simp
  then show ?case using IH nl nr x(2) by (subst equal_from.simps) (auto simp: y_def [symmetric])
qed

lemma bv_equal_correct:
  assumes "bv_ok l" "bv_ok r"
  defines "xs \<equiv> filter (\<lambda>v. v \<in> bv_set l) [0..<max_value l]"
  shows "bv_equal l r = Inr (xs = take (length xs) (filter (\<lambda>v. v \<in> bv_set r) [0..<max_value r] @ [max_value r..<max_value r + length xs]))"
  using find_set_correct [OF assms(1), of 0] find_set_correct [OF assms(2), of 0] equal_from_correct [OF assms(1,2), of 0 xs 0]
  by (simp add: bv_equal_def bv_begin_def xs_def)

lemma insert_values_correct:
  assumes "bv_ok bv" "\<forall>v \<in> set vs. v < max_value bv"
  shows "\<exists>bv'. insert_values vs bv = Inr bv' \<and> bv_ok bv' \<and> max_value bv' = max_value bv \<and> bv_set bv' = bv_set bv \<union> set vs"
  using assms
proof (induction vs arbitrary: bv)
  case (Cons v vs)
  obtain bv1 where 1: "bv_insert bv v = Inr bv1" "bv_ok bv1" "max_value bv1 = max_value bv"
    "\<forall>j. sbit (bv_data bv1) j \<longleftrightarrow> sbit (bv_data bv) j \<or> j = v"
    using bv_update(1) [OF Cons.prems(1), of v] Cons.prems(2) by auto
  then have "bv_set bv1 = insert v (bv_set bv)" using Cons.prems(2) by (auto simp: bv_set_def)
  then show ?case using Cons.IH [OF 1(2)] Cons.prems(2) 1 by auto
qed simp

lemma bit_vector_make_correct:
  assumes "n + 1024 \<le> 2 ^ 64"
  shows "\<exists>bv. bit_vector_make n = Inr bv \<and> bv_ok bv \<and> max_value bv = n \<and> bv_data bv = replicate (length (bv_data bv)) 0"
proof -
  have "16 * ((n + 511) div 512) < 2 ^ 64" using assms by simp
  then have "unat (of_nat (16 * ((n + 511) div 512)) :: u64) = 16 * ((n + 511) div 512)"
    by (simp add: unat_of_nat take_bit_eq_mod del: of_nat_mult of_nat_add)
  moreover have "n \<le> 32 * (16 * ((n + 511) div 512))" by simp
  ultimately show ?thesis using storage_size_correct [OF assms]
    by (simp add: bit_vector_make_def bit_vector_storage_size_def bv_ok_def del: of_nat_mult of_nat_add)
qed

lemma fold_max_start: "(a :: nat) \<le> fold max vs a"
proof (induction vs arbitrary: a)
  case (Cons x xs)
  then show ?case using order_trans [OF max.cobounded2 Cons [of "max x a"]] by simp
qed simp

lemma fold_max_ge: "v \<in> set vs \<Longrightarrow> (v :: nat) \<le> fold max vs a"
proof (induction vs arbitrary: a)
  case (Cons x xs)
  then show ?case using order_trans [OF max.cobounded1 fold_max_start [of "max x a" xs]] by (cases "v = x") simp_all
qed simp

lemma range_upper_limit_bound: "v \<in> set vs \<Longrightarrow> v < range_upper_limit vs"
  using fold_max_ge [of v vs 0] by (cases "vs = []") (simp_all add: range_upper_limit_def less_Suc_eq_le)

lemma bit_vector_of_correct:
  assumes "\<forall>v \<in> set vs. v + 1025 \<le> 2 ^ 64"
  shows "\<exists>bv. bit_vector_of vs = Inr bv \<and> bv_ok bv \<and> max_value bv = range_upper_limit vs \<and> bv_set bv = set vs"
proof -
  have "fold max xs a + 1025 \<le> 2 ^ 64" if "\<forall>v \<in> set xs. v + 1025 \<le> 2 ^ 64" "a + 1025 \<le> 2 ^ 64" for xs and a :: nat
    using that
  proof (induction xs arbitrary: a)
    case (Cons x xs)
    then have "max x a + 1025 \<le> 2 ^ 64" by (cases "x \<le> a") simp_all
    then show ?case using Cons by simp
  qed simp
  from this [OF assms, of 0] have "range_upper_limit vs + 1024 \<le> 2 ^ 64" by (auto simp: range_upper_limit_def)
  then obtain bv where bv: "bit_vector_make (range_upper_limit vs) = Inr bv" "bv_ok bv" "max_value bv = range_upper_limit vs"
    "bv_data bv = replicate (length (bv_data bv)) 0"
    using bit_vector_make_correct by blast
  have "bv_set bv = {}" unfolding bv_set_def by (subst bv(4)) simp
  then show ?thesis using insert_values_correct [OF bv(2), of vs] bv(1,3) range_upper_limit_bound by (auto simp: bit_vector_of_def)
qed

section \<open>Properties\<close>

text \<open>
  C26: a compressed vector built from a list of values gives back, through its iterators, the values
  cut to the given number of bits, for every number of bits from 1 to 31.
\<close>
theorem compressed_vector_roundtrip:
  assumes "0 < bits" "bits < 32" "bits * length vs + 1536 \<le> 2 ^ 64"
  shows "\<exists>bc. compressed_vector_of bits vs = Inr bc \<and> bc_values bc = Inr (map (take_bit bits) vs)"
proof -
  obtain bc where bc: "compressed_vector_of bits vs = Inr bc" "bc_ok bc" "value_bits bc = bits" "value_counts bc = length vs"
    "\<forall>i < length vs. field_at (bc_data bc) (i * bits) bits = take_bit bits (vs ! i)"
    using compressed_vector_of_correct [OF assms] by blast
  have "map (\<lambda>i. field_at (bc_data bc) (i * bits) bits) [0..<length vs] = map (take_bit bits) vs"
    using bc(5) by (intro nth_equalityI) simp_all
  then show ?thesis using bc bc_values_correct [OF bc(2)] by simp
qed

theorem compressed_vector_roundtrip_witness:
  "\<exists>bc. compressed_vector_of 5 [3, 31, 40] = Inr bc \<and> bc_values bc = Inr [3, 31, 8]"
  using compressed_vector_roundtrip [of 5 "[3, 31, 40]"] by (simp add: take_bit_eq_mod)

text \<open>
  Writing a value keeps the container well-formed and every other value, and the value read
  back is the old value combined bit by bit with the new one: a write never clears bits.
\<close>
theorem set_value_combines:
  assumes "bc_ok bc" "i < value_counts bc"
  shows "\<exists>bc' old. set_value bc i v = Inr bc' \<and> bc_ok bc' \<and> get_value bc i = Inr old \<and>
    get_value bc' i = Inr (old OR take_bit (value_bits bc) v) \<and>
    (\<forall>k < value_counts bc. k \<noteq> i \<longrightarrow> get_value bc' k = get_value bc k)"
proof -
  let ?n = "value_bits bc"
  have fit: "k * ?n + ?n + 32 \<le> 32 * length (bc_data bc)" if "k < value_counts bc" for k
  proof -
    have "(k + 1) * ?n \<le> value_counts bc * ?n" using that by (intro mult_right_mono) simp_all
    then show ?thesis using assms(1) by (simp add: bc_ok_def mult.commute)
  qed
  have n: "0 < ?n" "?n < 32" "value_mask bc = mask ?n" using assms(1) by (simp_all add: bc_ok_def)
  obtain d where d: "set_value bc i v = Inr (bc\<lparr>bc_data := d\<rparr>)" "length d = length (bc_data bc)"
    "\<And>j. sbit d j \<longleftrightarrow> sbit (bc_data bc) j \<or> i * ?n \<le> j \<and> j < i * ?n + ?n \<and> bit v (j - i * ?n)"
    using set_value_correct [OF n(2,3,1) fit [OF assms(2)], of v] by blast
  let ?bc = "bc\<lparr>bc_data := d\<rparr>"
  have get: "get_value bc k = Inr (field_at (bc_data bc) (k * ?n) ?n)" "get_value ?bc k = Inr (field_at d (k * ?n) ?n)"
    if "k < value_counts bc" for k
    using get_value_correct [of bc k] get_value_correct [of ?bc k] n fit [OF that] d(2) by simp_all
  have "field_at d (i * ?n) ?n = field_at (bc_data bc) (i * ?n) ?n OR take_bit ?n v"
    using n(2) by (intro bit_word_eqI) (auto simp: bit_simps bit_field_at d(3))
  moreover have "field_at d (k * ?n) ?n = field_at (bc_data bc) (k * ?n) ?n" if "k \<noteq> i" for k
  proof (rule field_at_cong)
    fix j assume "j < ?n"
    then have "\<not> (i * ?n \<le> k * ?n + j \<and> k * ?n + j < i * ?n + ?n)" using packed_unique [of k ?n "k * ?n + j" i] that by auto
    then show "sbit d (k * ?n + j) = sbit (bc_data bc) (k * ?n + j)" by (auto simp: d(3))
  qed
  ultimately show ?thesis using d(1,2) get assms by (simp add: bc_ok_def)
qed

theorem set_value_combines_witness:
  "\<exists>bc bc'. compressed_vector_of 4 [5, 9] = Inr bc \<and> set_value bc 0 2 = Inr bc' \<and> get_value bc' 0 = Inr 7"
proof -
  obtain bc where bc: "compressed_vector_of 4 [5, 9] = Inr bc" "bc_ok bc" "value_bits bc = 4" "value_counts bc = 2"
    "field_at (bc_data bc) (0 * 4) 4 = take_bit 4 5"
    using compressed_vector_of_correct [of 4 "[5, 9]"] by auto
  have "get_value bc 0 = Inr 5"
    using get_value_correct [of bc 0] bc by (simp add: bc_ok_def take_bit_eq_mod)
  then show ?thesis using set_value_combines [OF bc(2), of 0 2] bc(1,3,4) by (auto simp: take_bit_eq_mod)
qed

text \<open>
  A bit vector built from a list of numbers stands for their set: membership tests answer for
  exactly these numbers, and the iterators visit each of them once, in increasing order.
\<close>
theorem bit_vector_of_is_set:
  assumes "\<forall>v \<in> set vs. v + 1025 \<le> 2 ^ 64"
  shows "\<exists>bv. bit_vector_of vs = Inr bv \<and> (\<forall>v. contains bv v = Inr (v \<in> set vs)) \<and> bv_elements bv = Inr (sorted_list_of_set (set vs))"
proof -
  obtain bv where bv: "bit_vector_of vs = Inr bv" "bv_ok bv" "max_value bv = range_upper_limit vs" "bv_set bv = set vs"
    using bit_vector_of_correct [OF assms] by blast
  let ?js = "filter (\<lambda>v. v \<in> set vs) [0..<range_upper_limit vs]"
  have "set ?js = set vs" using range_upper_limit_bound [of _ vs] by auto
  moreover have "sorted ?js" "distinct ?js" by (simp_all add: sorted_wrt_filter)
  ultimately have "?js = sorted_list_of_set (set vs)" by (metis sorted_list_of_set.idem_if_sorted_distinct)
  then show ?thesis using bv contains_correct bv_elements_correct by auto
qed

theorem bit_vector_of_is_set_witness:
  "\<exists>bv. bit_vector_of [7, 40, 7] = Inr bv \<and> contains bv 40 = Inr True \<and> contains bv 8 = Inr False \<and> bv_elements bv = Inr [7, 40]"
  using bit_vector_of_is_set [of "[7, 40, 7]"] by (auto simp: insert_Diff_if)

text \<open>
  C27: inserting, erasing and clearing refine the operations on sets, and keep the bit vector
  well-formed.
\<close>
theorem bit_vector_refines_set:
  assumes "bv_ok bv" "v < max_value bv"
  shows "(\<exists>bv'. bv_insert bv v = Inr bv' \<and> bv_ok bv' \<and> bv_set bv' = bv_set bv \<union> {v}) \<and>
    (\<exists>bv'. bv_erase bv v = Inr bv' \<and> bv_ok bv' \<and> bv_set bv' = bv_set bv - {v}) \<and>
    bv_ok (bv_clear bv) \<and> bv_set (bv_clear bv) = {}"
proof -
  have "\<exists>bv'. bv_insert bv v = Inr bv' \<and> bv_ok bv' \<and> bv_set bv' = bv_set bv \<union> {v}"
    using bv_update(1) [OF assms] assms(2) by (auto simp: bv_set_def)
  moreover have "\<exists>bv'. bv_erase bv v = Inr bv' \<and> bv_ok bv' \<and> bv_set bv' = bv_set bv - {v}"
    using bv_update(2) [OF assms] by (auto simp: bv_set_def)
  ultimately show ?thesis using assms(1) by (simp add: bv_clear_def bv_ok_def bv_set_def)
qed

theorem bit_vector_refines_set_witness:
  "\<exists>bv'. bv_insert \<lparr>max_value = 10, bv_data = [1]\<rparr> 3 = Inr bv' \<and> bv_set bv' = bv_set \<lparr>max_value = 10, bv_data = [1]\<rparr> \<union> {3}"
  using bit_vector_refines_set [of "\<lparr>max_value = 10, bv_data = [1]\<rparr>" 3] by (auto simp: bv_ok_def)

text \<open>
  The comparison of bit vectors is not symmetric: it holds exactly when the values of the left
  operand are the first values of the right operand, continued after its last value by the numbers
  from its size on.
\<close>
theorem bv_equal_is_prefix:
  assumes "bv_ok l" "bv_ok r" "bv_elements l = Inr xs" "bv_elements r = Inr ys"
  shows "bv_equal l r = Inr (xs = take (length xs) (ys @ [max_value r..<max_value r + length xs]))"
  using bv_equal_correct [OF assms(1,2)] bv_elements_correct [OF assms(1)] bv_elements_correct [OF assms(2)] assms(3,4) by simp

theorem bv_equal_is_prefix_witness:
  "\<exists>l r. bv_elements l = Inr [2] \<and> bv_elements r = Inr [2, 5] \<and> bv_equal l r = Inr True \<and> bv_equal r l = Inr False"
proof -
  obtain l where l: "bit_vector_of [2] = Inr l" "bv_ok l" "max_value l = 3" "bv_set l = {2}"
    using bit_vector_of_correct [of "[2]"] by (auto simp: range_upper_limit_def)
  obtain r where r: "bit_vector_of [2, 5] = Inr r" "bv_ok r" "max_value r = 6" "bv_set r = {2, 5}"
    using bit_vector_of_correct [of "[2, 5]"] by (auto simp: range_upper_limit_def)
  have "bv_elements l = Inr [2]" "bv_elements r = Inr [2, 5]"
    using bv_elements_correct [OF l(2)] bv_elements_correct [OF r(2)] l(3,4) r(3,4) by (simp_all add: upt_rec)
  moreover have "[6..<7] = [6 :: nat]" "[3..<5] = [3, 4 :: nat]" by (simp_all add: upt_rec)
  ultimately have "bv_equal l r = Inr True" "bv_equal r l = Inr False"
    using bv_equal_is_prefix [OF l(2) r(2), of "[2]" "[2, 5]"] bv_equal_is_prefix [OF r(2) l(2), of "[2, 5]" "[2]"] l(3) r(3) by simp_all
  then show ?thesis using \<open>bv_elements l = Inr [2]\<close> \<open>bv_elements r = Inr [2, 5]\<close> by blast
qed

end
