(* ===== verification/Software_Scan.thy ===== *)
theory Software_Scan
  imports Bit_Storage Byte_Memory
begin

text \<open>
  Scanning a column on the host: the plain loops of \<open>imdb/software_scan/nosimd/cpu_scan.h\<close> and the
  AVX2 version of \<open>imdb/software_scan/avx2\<close>, which also serves as the engine of the device simulator.
  An AVX2 scan works on byte memory: it loads eight packed values at once, compares them, and writes
  either the matching row numbers or one mask byte per eight rows. The lemmas relate both versions.
\<close>

section \<open>Plain scans\<close>

record RangeOperation =
  range_start :: u32
  range_end :: u32

definition in_range :: "RangeOperation \<Rightarrow> u32 \<Rightarrow> bool" where
  "in_range rng element \<longleftrightarrow> range_start rng \<le> element \<and> element \<le> range_end rng"

text \<open>
  The loop variable has 32 bits: for a column of at least \<open>2 ^ 32\<close> values the loop does not end.
\<close>

primrec bv_loop :: "nat list \<Rightarrow> (u32 \<Rightarrow> bool result) \<Rightarrow> bit_compressed \<Rightarrow> bit_vector \<Rightarrow> bit_vector result" where
  "bv_loop [] test column res = Inr res"
| "bv_loop (i # is') test column res =
     bind_r (get_value column i) (\<lambda>element. bind_r (test element) (\<lambda>b.
       if b then bind_r (bv_insert res i) (bv_loop is' test column) else bv_loop is' test column res))"

primrec iv_loop :: "nat list \<Rightarrow> (u32 \<Rightarrow> bool result) \<Rightarrow> bit_compressed \<Rightarrow> u32 list \<Rightarrow> u32 list result" where
  "iv_loop [] test column res = Inr res"
| "iv_loop (i # is') test column res =
     bind_r (get_value column i) (\<lambda>element. bind_r (test element) (\<lambda>b.
       iv_loop is' test column (if b then res @ [of_nat i] else res)))"

definition scan_rows :: "bit_compressed \<Rightarrow> nat list result" where
  "scan_rows column = (if value_counts column < 2 ^ 32 then Inr [0..<value_counts column] else Inl Blocked)"

definition in_range_to_bv :: "bit_compressed \<Rightarrow> RangeOperation \<Rightarrow> bit_vector result" where
  "in_range_to_bv column rng =
     bind_r (bit_vector_make (value_counts column)) (\<lambda>res.
     bind_r (scan_rows column) (\<lambda>rows. bv_loop rows (\<lambda>e. Inr (in_range rng e)) column res))"

definition in_range_to_iv :: "bit_compressed \<Rightarrow> RangeOperation \<Rightarrow> u32 list result" where
  "in_range_to_iv column rng =
     bind_r (scan_rows column) (\<lambda>rows. iv_loop rows (\<lambda>e. Inr (in_range rng e)) column [])"

definition in_list_to_bv :: "bit_compressed \<Rightarrow> bit_vector \<Rightarrow> bit_vector result" where
  "in_list_to_bv column predictor =
     bind_r (bit_vector_make (value_counts column)) (\<lambda>res.
     bind_r (scan_rows column) (\<lambda>rows. bv_loop rows (\<lambda>e. contains predictor (unat e)) column res))"

definition in_list_to_iv :: "bit_compressed \<Rightarrow> bit_vector \<Rightarrow> u32 list result" where
  "in_list_to_iv column predictor =
     bind_r (scan_rows column) (\<lambda>rows. iv_loop rows (\<lambda>e. contains predictor (unat e)) column [])"

section \<open>Instructions\<close>

text \<open>
  The vector instructions that the AVX2 code uses, after the instruction-set documentation. A
  256-bit register is a list of eight 32-bit lanes or of 32 bytes, a 128-bit one a list of 16
  bytes; the first element is the least significant one.
\<close>

definition lanes32 :: "u8 list \<Rightarrow> u32 list" where
  "lanes32 bs = map (\<lambda>i. load_le 4 (\<lambda>x. bs ! x) (4 * i)) [0..<length bs div 4]"

definition mm_shuffle_epi8 :: "u8 list \<Rightarrow> u8 list \<Rightarrow> u8 list" where
  "mm_shuffle_epi8 a ctrl = map (\<lambda>c. if bit c 7 then 0 else a ! unat (c AND 15)) ctrl"

definition mm_and_si128 :: "u8 list \<Rightarrow> u8 list \<Rightarrow> u8 list" where
  "mm_and_si128 = map2 (AND)"

definition mm_or_si128 :: "u8 list \<Rightarrow> u8 list \<Rightarrow> u8 list" where
  "mm_or_si128 = map2 (OR)"

definition mm_andnot_si128 :: "u8 list \<Rightarrow> u8 list \<Rightarrow> u8 list" where
  "mm_andnot_si128 = map2 (\<lambda>x y. NOT x AND y)"

definition mm_set_epi32 :: "u32 \<Rightarrow> u32 \<Rightarrow> u32 \<Rightarrow> u32 \<Rightarrow> u8 list" where
  "mm_set_epi32 e3 e2 e1 e0 = concat (map (word_bytes 4) [e0, e1, e2, e3])"

definition mm256_and_si256 :: "u32 list \<Rightarrow> u32 list \<Rightarrow> u32 list" where
  "mm256_and_si256 = map2 (AND)"

definition mm256_or_si256 :: "u32 list \<Rightarrow> u32 list \<Rightarrow> u32 list" where
  "mm256_or_si256 = map2 (OR)"

definition mm256_add_epi32 :: "u32 list \<Rightarrow> u32 list \<Rightarrow> u32 list" where
  "mm256_add_epi32 = map2 (+)"

definition mm256_srlv_epi32 :: "u32 list \<Rightarrow> u32 list \<Rightarrow> u32 list" where
  "mm256_srlv_epi32 = map2 (\<lambda>x n. if n < 32 then drop_bit (unat n) x else 0)"

definition mm256_sllv_epi32 :: "u32 list \<Rightarrow> u32 list \<Rightarrow> u32 list" where
  "mm256_sllv_epi32 = map2 (\<lambda>x n. if n < 32 then push_bit (unat n) x else 0)"

definition mm256_cmpgt_epi32 :: "u32 list \<Rightarrow> u32 list \<Rightarrow> u32 list" where
  "mm256_cmpgt_epi32 = map2 (\<lambda>x y. if sint y < sint x then - 1 else 0)"

definition mm256_cmpeq_epi32 :: "u32 list \<Rightarrow> u32 list \<Rightarrow> u32 list" where
  "mm256_cmpeq_epi32 = map2 (\<lambda>x y. if x = y then - 1 else 0)"

definition mm256_movemask_ps :: "u32 list \<Rightarrow> u8" where
  "mm256_movemask_ps a = horner_sum of_bool 2 (map (\<lambda>x. bit x 31) a)"

definition mm256_permutevar8x32 :: "u32 list \<Rightarrow> u32 list \<Rightarrow> u32 list" where
  "mm256_permutevar8x32 a idx = map (\<lambda>i. a ! unat (i AND 7)) idx"

definition pdep_u64 :: "u64 \<Rightarrow> u64 \<Rightarrow> u64" where
  "pdep_u64 src m = horner_sum of_bool 2 (map (\<lambda>i. bit m i \<and> bit src (length (filter (bit m) [0..<i]))) [0..<64])"

definition pext_u64 :: "u64 \<Rightarrow> u64 \<Rightarrow> u64" where
  "pext_u64 src m = horner_sum of_bool 2 (map (bit src) (filter (bit m) [0..<64]))"

definition popcnt :: "u8 \<Rightarrow> nat" where
  "popcnt x = length (filter (bit x) [0..<8])"

text \<open>A masked gather reads the lanes whose mask bit is set; \<open>lim\<close> bounds the accessible memory.\<close>

definition gather_lane :: "nat \<Rightarrow> bmem \<Rightarrow> nat \<Rightarrow> u32 \<Rightarrow> u32 \<Rightarrow> u32 \<Rightarrow> u32 result" where
  "gather_lane lim m base src idx msk =
     (if bit msk 31
      then let a = int base + sint idx * 4 in
        if 0 \<le> a \<and> nat a + 4 \<le> lim then Inr (load_le 4 m (nat a)) else Inl Undefined
      else Inr src)"

definition mm256_mask_i32gather :: "nat \<Rightarrow> bmem \<Rightarrow> u32 list \<Rightarrow> nat \<Rightarrow> u32 list \<Rightarrow> u32 list \<Rightarrow> u32 list result" where
  "mm256_mask_i32gather lim m src base idx msk =
     map_r (\<lambda>(s, i, k). gather_lane lim m base s i k) (zip src (zip idx msk))"

section \<open>Loading and unpacking\<close>

record DecompressionConstants =
  entry_size :: nat
  shuffle_control_l :: "u8 list"
  shuffle_control_h :: "u8 list"
  align_shift :: "u32 list"
  dc_value_mask :: "u32 list"
  crop_mask :: "u8 list"
  inverse_crop_mask :: "u8 list"

text \<open>The bytes of a value, written to the front of an array of four bytes.\<close>

definition value_shuffle_bytes :: "nat \<Rightarrow> nat \<Rightarrow> u8 list result" where
  "value_shuffle_bytes es value_index =
     (let byte_min = value_index * es div 8; byte_max = (es * (value_index + 1) - 1) div 8 in
      if byte_max + 1 - byte_min \<le> 4
      then Inr (map (\<lambda>i. of_nat (i mod 16)) [byte_min..<byte_max + 1] @ replicate (4 - (byte_max + 1 - byte_min)) 0)
      else Inl Undefined)"

definition init_shuffle_control_fields :: "nat \<Rightarrow> (u8 list \<times> u8 list) result" where
  "init_shuffle_control_fields es =
     bind_r (map_r (value_shuffle_bytes es) [0..<8]) (\<lambda>subs.
       let shuffle_mask = concat subs in Inr (take 16 shuffle_mask, drop 16 shuffle_mask))"

definition init_align_shift_field :: "nat \<Rightarrow> u32 list" where
  "init_align_shift_field es = map (\<lambda>i. of_nat (i * es mod 8)) [0..<8]"

definition init_crop_mask :: "nat \<Rightarrow> u8 list result" where
  "init_crop_mask es =
     (if es < 17 then Inr (replicate 16 (- 1))
      else if es \<le> 18 then Inr (mm_set_epi32 (if es = 17 then 0x0000FFFF else 0x000000FF) (- 1) (- 1) (- 1))
      else Inl (Throw InvalidArguments))"

definition DecompressionConstants_make :: "nat \<Rightarrow> DecompressionConstants result" where
  "DecompressionConstants_make bits =
     assert_r (bits \<le> 18)
      (bind_r (init_shuffle_control_fields bits) (\<lambda>(l, h).
       bind_r (init_crop_mask bits) (\<lambda>crop.
         Inr \<lparr>entry_size = bits, shuffle_control_l = l, shuffle_control_h = h, align_shift = init_align_shift_field bits,
           dc_value_mask = replicate 8 (push_bit bits 1 - 1), crop_mask = crop,
           inverse_crop_mask = mm_andnot_si128 crop (replicate 16 (- 1))\<rparr>)))"

definition singlelane_shuffle :: "u8 list \<Rightarrow> u8 list \<Rightarrow> u8 list \<Rightarrow> u8 list" where
  "singlelane_shuffle v ctrl_h ctrl_l =
     (let low_lane = take 16 v; shuffled_l = mm_shuffle_epi8 low_lane ctrl_l; shuffled_h = mm_shuffle_epi8 low_lane ctrl_h in
      shuffled_l @ shuffled_h)"

definition crosslane_shuffle :: "u8 list \<Rightarrow> u8 list \<Rightarrow> u8 list \<Rightarrow> u8 list \<Rightarrow> u8 list \<Rightarrow> u8 list" where
  "crosslane_shuffle v ctrl_h ctrl_l crop inverse_crop =
     (let low_lane = take 16 v; shuffled_l = mm_shuffle_epi8 low_lane ctrl_l; shuffled_h = mm_shuffle_epi8 low_lane ctrl_h;
          hi_lane = drop 16 v; shuffled_h_extra = mm_shuffle_epi8 hi_lane ctrl_h;
          shuffled_h_extra = mm_and_si128 shuffled_h_extra inverse_crop; shuffled_h = mm_and_si128 shuffled_h crop in
      shuffled_l @ mm_or_si128 shuffled_h shuffled_h_extra)"

definition load_with_decompression :: "nat \<Rightarrow> bmem \<Rightarrow> nat \<Rightarrow> DecompressionConstants \<Rightarrow> u32 list result" where
  "load_with_decompression lim m base c =
     (if base + 32 \<le> lim then
        let data = read_bytes m base 32;
            decompressed = (if entry_size c \<le> 16 then singlelane_shuffle data (shuffle_control_h c) (shuffle_control_l c)
              else crosslane_shuffle data (shuffle_control_h c) (shuffle_control_l c) (crop_mask c) (inverse_crop_mask c)) in
        Inr (mm256_and_si256 (mm256_srlv_epi32 (lanes32 decompressed) (align_shift c)) (dc_value_mask c))
      else Inl Undefined)"

text \<open>The table of constants: entry 0 is zero, and there are 19 entries.\<close>

definition ConstantsSet :: "nat \<Rightarrow> DecompressionConstants result" where
  "ConstantsSet i =
     (if i = 0 then Inr \<lparr>entry_size = 0, shuffle_control_l = replicate 16 0, shuffle_control_h = replicate 16 0,
        align_shift = replicate 8 0, dc_value_mask = replicate 8 0, crop_mask = replicate 16 0, inverse_crop_mask = replicate 16 0\<rparr>
      else if i < 19 then DecompressionConstants_make i else Inl Undefined)"

section \<open>Predicates\<close>

definition apply_in_range :: "RangeOperation \<Rightarrow> bmem \<Rightarrow> u32 list \<Rightarrow> u8 result" where
  "apply_in_range rng m data =
     (let ge = mm256_cmpgt_epi32 (replicate 8 (range_start rng)) data;
          le = mm256_cmpgt_epi32 data (replicate 8 (range_end rng));
          out_range = mm256_or_si256 ge le in
      Inr (mm256_movemask_ps out_range XOR 0xFF))"

text \<open>A list of numbers: the address of its bits, its size, and the bound of the accessible memory.\<close>

record list_pred =
  list_addr :: nat
  list_size :: nat
  list_lim :: nat

definition max_index :: "list_pred \<Rightarrow> u32" where
  "max_index pr = ucast (drop_bit 5 ((of_nat (list_size pr) :: u64) - 1) + 1)"

definition apply_in_list :: "list_pred \<Rightarrow> bmem \<Rightarrow> u32 list \<Rightarrow> u8 result" where
  "apply_in_list pr m data =
     (let in_value_shift = mm256_and_si256 data (replicate 8 0b11111);
          value_indices = mm256_srlv_epi32 data (replicate 8 5);
          detection_mask = mm256_sllv_epi32 (replicate 8 1) in_value_shift;
          in_bounds = mm256_cmpgt_epi32 (replicate 8 (max_index pr)) value_indices in
      bind_r (mm256_mask_i32gather (list_lim pr) m (replicate 8 0) (list_addr pr) value_indices in_bounds) (\<lambda>in_list_containers.
        let in_list = mm256_cmpeq_epi32 (mm256_and_si256 in_list_containers detection_mask) detection_mask in
        Inr (mm256_movemask_ps in_list)))"

section \<open>Stores\<close>

text \<open>The address of the result and the bound of the accessible memory.\<close>

record out_view =
  out_addr :: nat
  out_lim :: nat

definition store_indices :: "out_view \<Rightarrow> nat \<Rightarrow> u8 \<Rightarrow> bmem \<Rightarrow> nat \<Rightarrow> (bmem \<times> nat) result" where
  "store_indices res base msk m out_index =
     (let offsets = [0, 1, 2, 3, 4, 5, 6, 7];
          indices = mm256_add_epi32 (replicate 8 (of_nat base)) offsets;
          extended_mask = pdep_u64 (ucast msk) 0x0101010101010101 * 0xFF;
          permute_mask = pext_u64 0x0706050403020100 extended_mask;
          permute_vec = map ucast (word_bytes 8 permute_mask);
          indices = mm256_permutevar8x32 indices permute_vec;
          a = out_addr res + 4 * out_index in
      if a + 32 \<le> out_lim res
      then Inr (write_bytes m a (concat (map (word_bytes 4) indices)), popcnt msk) else Inl Undefined)"

definition store_bits :: "out_view \<Rightarrow> nat \<Rightarrow> u8 \<Rightarrow> bmem \<Rightarrow> nat \<Rightarrow> (bmem \<times> nat) result" where
  "store_bits res base msk m out_index =
     (if out_addr res + out_index + 1 \<le> out_lim res then Inr (m(out_addr res + out_index := msk), 1) else Inl Undefined)"

section \<open>The scan\<close>

text \<open>A column in memory: its address, the bits per value and the number of values.\<close>

record column_view =
  col_addr :: nat
  col_bits :: nat
  col_size :: nat
  col_lim :: nat

function scan_loop ::
  "(bmem \<Rightarrow> u32 list \<Rightarrow> u8 result) \<Rightarrow> (nat \<Rightarrow> u8 \<Rightarrow> bmem \<Rightarrow> nat \<Rightarrow> (bmem \<times> nat) result) \<Rightarrow> DecompressionConstants \<Rightarrow>
   column_view \<Rightarrow> nat \<Rightarrow> nat \<Rightarrow> nat \<Rightarrow> bmem \<Rightarrow> (bmem \<times> nat) result" where
  "scan_loop app store constant column i base count m =
     (if i < col_size column then
        bind_r (load_with_decompression (col_lim column) m base constant) (\<lambda>data.
        bind_r (app m data) (\<lambda>msk.
        bind_r (store i msk m count) (\<lambda>(m, n).
          scan_loop app store constant column (i + 8) (base + col_bits column) (count + n) m)))
      else Inr (m, count))"
  by pat_completeness auto
termination by (relation "measure (\<lambda>(_, _, _, column, i, _, _, _). col_size column - i)") auto

declare scan_loop.simps [simp del]

definition scan_avx2_impl ::
  "(bmem \<Rightarrow> u32 list \<Rightarrow> u8 result) \<Rightarrow> (nat \<Rightarrow> u8 \<Rightarrow> bmem \<Rightarrow> nat \<Rightarrow> (bmem \<times> nat) result) \<Rightarrow> DecompressionConstants \<Rightarrow>
   column_view \<Rightarrow> bmem \<Rightarrow> (bmem \<times> nat) result" where
  "scan_avx2_impl app store constant column m = scan_loop app store constant column 0 (col_addr column) 0 m"

definition in_range_scan_impl ::
  "(nat \<Rightarrow> u8 \<Rightarrow> bmem \<Rightarrow> nat \<Rightarrow> (bmem \<times> nat) result) \<Rightarrow> column_view \<Rightarrow> RangeOperation \<Rightarrow> bmem \<Rightarrow> (bmem \<times> nat) result" where
  "in_range_scan_impl store column rng m =
     bind_r (ConstantsSet (col_bits column)) (\<lambda>c. scan_avx2_impl (apply_in_range rng) store c column m)"

definition in_range_list_impl ::
  "(nat \<Rightarrow> u8 \<Rightarrow> bmem \<Rightarrow> nat \<Rightarrow> (bmem \<times> nat) result) \<Rightarrow> column_view \<Rightarrow> list_pred \<Rightarrow> bmem \<Rightarrow> (bmem \<times> nat) result" where
  "in_range_list_impl store column pr m =
     bind_r (ConstantsSet (col_bits column)) (\<lambda>c. scan_avx2_impl (apply_in_list pr) store c column m)"

definition scan_range_iv :: "column_view \<Rightarrow> RangeOperation \<Rightarrow> out_view \<Rightarrow> bmem \<Rightarrow> (bmem \<times> nat) result" where
  "scan_range_iv column rng res = in_range_scan_impl (store_indices res) column rng"

definition scan_range_bv :: "column_view \<Rightarrow> RangeOperation \<Rightarrow> out_view \<Rightarrow> bmem \<Rightarrow> (bmem \<times> nat) result" where
  "scan_range_bv column rng res = in_range_scan_impl (store_bits res) column rng"

definition scan_list_iv :: "column_view \<Rightarrow> list_pred \<Rightarrow> out_view \<Rightarrow> bmem \<Rightarrow> (bmem \<times> nat) result" where
  "scan_list_iv column pr res = in_range_list_impl (store_indices res) column pr"

definition scan_list_bv :: "column_view \<Rightarrow> list_pred \<Rightarrow> out_view \<Rightarrow> bmem \<Rightarrow> (bmem \<times> nat) result" where
  "scan_list_bv column pr res = in_range_list_impl (store_bits res) column pr"

section \<open>Specification\<close>

text \<open>The bits of byte memory and the value packed at a bit position.\<close>

definition mbit :: "bmem \<Rightarrow> nat \<Rightarrow> bool" where
  "mbit m q \<longleftrightarrow> bit (m (q div 8)) (q mod 8)"

definition mfield :: "bmem \<Rightarrow> nat \<Rightarrow> nat \<Rightarrow> u32" where
  "mfield m p n = horner_sum of_bool 2 (map (\<lambda>j. mbit m (p + j)) [0..<n])"

definition col_value :: "column_view \<Rightarrow> bmem \<Rightarrow> nat \<Rightarrow> u32" where
  "col_value column m i = mfield m (8 * col_addr column + i * col_bits column) (col_bits column)"

definition shuf :: "nat \<Rightarrow> nat \<Rightarrow> u8" where
  "shuf es p = concat (map (\<lambda>k. projr (value_shuffle_bytes es k)) [0..<8]) ! p"

definition decompress :: "DecompressionConstants \<Rightarrow> u8 list \<Rightarrow> u8 list" where
  "decompress c data = (if entry_size c \<le> 16 then singlelane_shuffle data (shuffle_control_h c) (shuffle_control_l c)
     else crosslane_shuffle data (shuffle_control_h c) (shuffle_control_l c) (crop_mask c) (inverse_crop_mask c))"

text \<open>The comparison of the vector code is signed.\<close>

definition range_test :: "RangeOperation \<Rightarrow> bmem \<Rightarrow> u32 \<Rightarrow> bool" where
  "range_test rng m v \<longleftrightarrow> sint (range_start rng) \<le> sint v \<and> sint v \<le> sint (range_end rng)"

definition list_words :: "list_pred \<Rightarrow> nat" where
  "list_words pr = (list_size pr + 31) div 32"

definition list_test :: "list_pred \<Rightarrow> bmem \<Rightarrow> u32 \<Rightarrow> bool" where
  "list_test pr m v \<longleftrightarrow> unat v div 32 < list_words pr \<and> mbit m (8 * list_addr pr + unat v)"

definition list_reads :: "list_pred \<Rightarrow> nat set" where
  "list_reads pr = {list_addr pr..<list_addr pr + 4 * list_words pr}"

definition list_usable :: "list_pred \<Rightarrow> bool" where
  "list_usable pr \<longleftrightarrow> list_size pr < 2 ^ 32 \<and> list_addr pr + 4 * list_words pr \<le> list_lim pr"

definition set_rows :: "nat \<Rightarrow> u8 \<Rightarrow> nat list" where
  "set_rows base msk = map ((+) base) (filter (bit msk) [0..<8])"

definition col_blocks :: "column_view \<Rightarrow> nat" where
  "col_blocks column = (col_size column + 7) div 8"

definition col_area :: "column_view \<Rightarrow> nat set" where
  "col_area column = {col_addr column..<col_addr column + col_blocks column * col_bits column}"

definition col_ok :: "column_view \<Rightarrow> bool" where
  "col_ok column \<longleftrightarrow> 0 < col_bits column \<and> col_bits column \<le> 18 \<and>
     col_addr column + col_blocks column * col_bits column + 32 \<le> col_lim column"

definition iv_fits :: "out_view \<Rightarrow> nat \<Rightarrow> bool" where
  "iv_fits res n \<longleftrightarrow> out_addr res + 32 * n \<le> out_lim res"

definition iv_area :: "out_view \<Rightarrow> nat \<Rightarrow> nat set" where
  "iv_area res n = {out_addr res..<out_addr res + 32 * n}"

definition iv_holds :: "out_view \<Rightarrow> nat \<Rightarrow> nat list \<Rightarrow> bmem \<Rightarrow> nat \<Rightarrow> bool" where
  "iv_holds res b js m c \<longleftrightarrow> c = length js \<and> c \<le> 8 * b \<and> (\<forall>t < c. load_le 4 m (out_addr res + 4 * t) = (of_nat (js ! t) :: u32))"

definition bv_fits :: "out_view \<Rightarrow> nat \<Rightarrow> bool" where
  "bv_fits res n \<longleftrightarrow> out_addr res + n \<le> out_lim res"

definition bv_area :: "out_view \<Rightarrow> nat \<Rightarrow> nat set" where
  "bv_area res n = {out_addr res..<out_addr res + n}"

definition bv_holds :: "out_view \<Rightarrow> nat \<Rightarrow> nat list \<Rightarrow> bmem \<Rightarrow> nat \<Rightarrow> bool" where
  "bv_holds res b js m c \<longleftrightarrow> c = b \<and> (\<forall>i \<in> set js. i < 8 * b) \<and> (\<forall>i < 8 * b. mbit m (8 * out_addr res + i) \<longleftrightarrow> i \<in> set js)"

definition words_at :: "nat \<Rightarrow> u32 list \<Rightarrow> bmem \<Rightarrow> bool" where
  "words_at a d m \<longleftrightarrow> (\<forall>j < length d. load_le 4 m (a + 4 * j) = d ! j)"

text \<open>
  A column is stored in memory when its words are at its address; the container reserves 512 bits
  more than the values need, and they are zero.
\<close>

definition stored :: "column_view \<Rightarrow> bit_compressed \<Rightarrow> bmem \<Rightarrow> bool" where
  "stored column bc m \<longleftrightarrow> bc_ok bc \<and> value_bits bc \<le> 18 \<and> value_counts bc < 2 ^ 32 - 8 \<and>
     value_bits bc * value_counts bc + 512 \<le> 32 * length (bc_data bc) \<and>
     (\<forall>j \<ge> value_bits bc * value_counts bc. \<not> sbit (bc_data bc) j) \<and>
     col_bits column = value_bits bc \<and> col_size column = value_counts bc \<and>
     col_addr column + 4 * length (bc_data bc) \<le> col_lim column \<and> words_at (col_addr column) (bc_data bc) m"

definition bc_value :: "bit_compressed \<Rightarrow> nat \<Rightarrow> u32" where
  "bc_value bc i = field_at (bc_data bc) (i * value_bits bc) (value_bits bc)"

text \<open>
  The row numbers after the last row that the vector scan reports: a column is scanned in blocks of
  eight values, and the zero bits behind the last value are taken for values.
\<close>

definition extra_rows :: "column_view \<Rightarrow> bool \<Rightarrow> u32 list" where
  "extra_rows column zero_passes = (if zero_passes then map of_nat [col_size column..<8 * col_blocks column] else [])"

definition list_stored :: "list_pred \<Rightarrow> bit_vector \<Rightarrow> bmem \<Rightarrow> bool" where
  "list_stored pr bv m \<longleftrightarrow> bv_ok bv \<and> max_value bv < 2 ^ 32 \<and> (\<forall>j \<ge> max_value bv. \<not> sbit (bv_data bv) j) \<and>
     list_size pr = max_value bv \<and> list_addr pr + 4 * length (bv_data bv) \<le> list_lim pr \<and>
     words_at (list_addr pr) (bv_data bv) m"

definition scan_room :: "column_view \<Rightarrow> nat set \<Rightarrow> nat set \<Rightarrow> bool" where
  "scan_room column used written \<longleftrightarrow> col_area column \<inter> written = {} \<and> used \<inter> written = {}"

text \<open>The column 5, 9, 3 of four-bit values at address 0 and the list 0, 9 at address 128.\<close>

definition ex_bc :: bit_compressed where
  "ex_bc = \<lparr>value_bits = 4, value_counts = 3, value_mask = 15, bc_data = 0x395 # replicate 31 0\<rparr>"

definition ex_list :: bit_vector where
  "ex_list = \<lparr>max_value = 10, bv_data = [0x201]\<rparr>"

definition ex_mem :: bmem where
  "ex_mem = (\<lambda>x. if x = 0 then 0x95 else if x = 1 then 3 else if x = 128 then 1 else if x = 129 then 2 else 0)"

definition ex_column :: column_view where
  "ex_column = \<lparr>col_addr = 0, col_bits = 4, col_size = 3, col_lim = 128\<rparr>"

definition ex_pred :: list_pred where
  "ex_pred = \<lparr>list_addr = 128, list_size = 10, list_lim = 132\<rparr>"

definition ex_out :: out_view where
  "ex_out = \<lparr>out_addr = 132, out_lim = 164\<rparr>"

section \<open>Lemmas on loading\<close>

lemma bit_mfield: "bit (mfield m p n) j \<longleftrightarrow> j < n \<and> j < 32 \<and> mbit m (p + j)"
  by (auto simp: mfield_def bit_horner_sum_bit_iff)

lemma nth_concat_const:
  "\<lbrakk>\<forall>x \<in> set xss. length x = w; k < length xss; j < w\<rbrakk> \<Longrightarrow> concat xss ! (w * k + j) = xss ! k ! j"
proof (induction xss arbitrary: k)
  case (Cons x xss)
  then show ?case by (cases k) (auto simp: nth_append)
qed simp

text \<open>The bytes \<open>byte_min\<close> to \<open>byte_max\<close> of a value of at most 18 bits.\<close>

lemma value_bytes:
  fixes es k :: nat
  assumes "0 < es" "es \<le> 18" "k < 8"
  defines "bmin \<equiv> k * es div 8" and "bmax \<equiv> (es * (k + 1) - 1) div 8"
  shows "bmin \<le> bmax" "bmax + 1 - bmin \<le> 4" "bmax < 18"
    "\<exists>sub. value_shuffle_bytes es k = Inr sub \<and> length sub = 4 \<and> (\<forall>j \<le> bmax - bmin. sub ! j = of_nat ((bmin + j) mod 16))"
proof -
  have le: "k * es \<le> es * (k + 1) - 1" using assms(1) by (simp add: algebra_simps)
  show 1: "bmin \<le> bmax" unfolding bmin_def bmax_def by (rule div_le_mono [OF le])
  have "es * (k + 1) - 1 \<le> k * es + 17" using assms(2) by (simp add: algebra_simps)
  then have "bmax \<le> (k * es + 17) div 8" unfolding bmax_def by (rule div_le_mono)
  also have "\<dots> \<le> k * es div 8 + 3" by presburger
  finally show 2: "bmax + 1 - bmin \<le> 4" by (simp add: bmin_def)
  have "es * (k + 1) \<le> 18 * 8" using assms(2,3) by (intro mult_mono) simp_all
  then show "bmax < 18" unfolding bmax_def by (simp add: less_mult_imp_div_less)
  show "\<exists>sub. value_shuffle_bytes es k = Inr sub \<and> length sub = 4 \<and> (\<forall>j \<le> bmax - bmin. sub ! j = of_nat ((bmin + j) mod 16))"
    using 1 2 unfolding value_shuffle_bytes_def bmin_def [symmetric] bmax_def [symmetric] Let_def
    by (auto simp: nth_append simp del: upt_Suc)
qed

lemma shuffle_fields:
  assumes "0 < es" "es \<le> 18"
  shows "init_shuffle_control_fields es = Inr (map (shuf es) [0..<16], map (shuf es) [16..<32])"
    "\<lbrakk>k < 8; j \<le> (es * (k + 1) - 1) div 8 - k * es div 8\<rbrakk> \<Longrightarrow> shuf es (4 * k + j) = of_nat ((k * es div 8 + j) mod 16)"
proof -
  let ?sub = "\<lambda>k. projr (value_shuffle_bytes es k)"
  have sub: "value_shuffle_bytes es k = Inr (?sub k)" "length (?sub k) = 4"
    "j \<le> (es * (k + 1) - 1) div 8 - k * es div 8 \<Longrightarrow> ?sub k ! j = of_nat ((k * es div 8 + j) mod 16)" if "k < 8" for k j
    using value_bytes(4) [OF assms that] by auto
  have m: "map_r (value_shuffle_bytes es) [0..<8] = Inr (map ?sub [0..<8])" using sub(1) by (intro map_r_Inr) simp
  have l: "\<forall>x \<in> set (map ?sub [0..<8]). length x = 4" using sub(2) by simp
  then have len: "length (concat (map ?sub [0..<8])) = 32" by (simp add: length_concat upt_rec)
  have "concat (map ?sub [0..<8]) = map (shuf es) [0..<32]"
    by (rule nth_equalityI) (use len in \<open>simp_all add: shuf_def\<close>)
  then show "init_shuffle_control_fields es = Inr (map (shuf es) [0..<16], map (shuf es) [16..<32])"
    using m by (simp add: init_shuffle_control_fields_def Let_def take_map drop_map)
  assume k: "k < 8" "j \<le> (es * (k + 1) - 1) div 8 - k * es div 8"
  have "j < 4" if "j \<le> b - a" "a \<le> b" "b + 1 - a \<le> 4" for a b :: nat using that by simp
  from this [OF k(2) value_bytes(1,2) [OF assms k(1)]] have "j < 4" .
  then show "shuf es (4 * k + j) = of_nat ((k * es div 8 + j) mod 16)"
    unfolding shuf_def using nth_concat_const [OF l, of k j] sub(3) [OF k] k(1) by simp
qed


lemma shuffle_byte:
  assumes "length a = 16" "c < 16"
  shows "(if bit (of_nat c :: u8) 7 then 0 else a ! unat ((of_nat c :: u8) AND 15)) = a ! c"
proof -
  have "unat (take_bit 4 (of_nat c :: u8)) = c" using assms(2) by (simp add: unsigned_take_bit_eq unat_of_nat) (simp add: take_bit_eq_mod)
  moreover have "(of_nat c :: u8) AND 15 = take_bit 4 (of_nat c)" unfolding take_bit_eq_mask by (simp add: mask_eq_exp_minus_1)
  ultimately have "unat ((of_nat c :: u8) AND 15) = c" by simp
  moreover have "\<not> bit (of_nat c :: u8) 7"
  proof
    assume "bit (of_nat c :: u8) 7"
    then have "bit c 7" by (simp add: bit_simps)
    then show False using assms(2) by (auto simp: bit_iff_odd)
  qed
  ultimately show ?thesis by simp
qed

lemma crop_masks:
  "init_crop_mask 17 = Inr (replicate 14 (- 1) @ replicate 2 0)" "init_crop_mask 18 = Inr (replicate 13 (- 1) @ replicate 3 0)"
  "es < 17 \<Longrightarrow> init_crop_mask es = Inr (replicate 16 (- 1))"
proof -
  show "init_crop_mask 17 = Inr (replicate 14 (- 1) @ replicate 2 0)" by code_simp
  show "init_crop_mask 18 = Inr (replicate 13 (- 1) @ replicate 3 0)" by code_simp
qed (simp add: init_crop_mask_def)

lemma constants_correct:
  assumes "0 < es" "es \<le> 18"
  shows "\<exists>c crop. ConstantsSet es = Inr c \<and> init_crop_mask es = Inr crop \<and> entry_size c = es \<and> shuffle_control_l c = map (shuf es) [0..<16] \<and>
    shuffle_control_h c = map (shuf es) [16..<32] \<and> align_shift c = map (\<lambda>i. of_nat (i * es mod 8)) [0..<8] \<and>
    dc_value_mask c = replicate 8 (mask es) \<and> crop_mask c = crop \<and> inverse_crop_mask c = map (\<lambda>x. NOT x) crop"
proof -
  consider "es < 17" | "es = 17" | "es = 18" using assms(2) by linarith
  then obtain crop where crop: "init_crop_mask es = Inr crop" "length crop = 16" using crop_masks by cases auto
  have "mm_andnot_si128 crop (replicate 16 (- 1)) = map (\<lambda>x. NOT x) crop"
    by (rule nth_equalityI) (simp_all add: mm_andnot_si128_def crop(2))
  then show ?thesis using assms crop(1) shuffle_fields(1) [OF assms]
    by (simp add: ConstantsSet_def DecompressionConstants_make_def init_align_shift_field_def mask_eq_decr_exp)
qed

lemma decompress_bytes:
  assumes "0 < es" "es \<le> 18" "ConstantsSet es = Inr c" "length data = 32" "k < 8" "j \<le> (es * (k + 1) - 1) div 8 - k * es div 8"
  shows "decompress c data ! (4 * k + j) = data ! (k * es div 8 + j)" "length (decompress c data) = 32"
proof -
  define bmin bmax where b: "bmin = k * es div 8" "bmax = (es * (k + 1) - 1) div 8"
  obtain crop where c: "entry_size c = es" "init_crop_mask es = Inr crop" "shuffle_control_l c = map (shuf es) [0..<16]"
    "shuffle_control_h c = map (shuf es) [16..<32]" "crop_mask c = crop" "inverse_crop_mask c = map (\<lambda>x. NOT x) crop"
    using constants_correct [OF assms(1,2)] assms(3) by auto
  have bb: "bmin \<le> bmax" "bmax + 1 - bmin \<le> 4" "bmax < 18" using value_bytes(1-3) [OF assms(1,2,5)] unfolding b by simp_all
  have j: "j < 4" "bmin + j \<le> bmax" using assms(6) bb(1,2) unfolding b [symmetric] by simp_all
  have sh: "shuf es (4 * k + j) = of_nat ((bmin + j) mod 16)" using shuffle_fields(2) [OF assms(1,2,5,6)] unfolding b .
  define S where "S = (\<lambda>a p. if bit (shuf es p) 7 then 0 else a ! unat (shuf es p AND 15) :: u8)"
  define lo hi where lh: "lo = take 16 data" "hi = drop 16 data"
  have l: "length lo = 16" "length hi = 16" using assms(4) by (simp_all add: lh)
  have S: "S a (4 * k + j) = a ! ((bmin + j) mod 16)" if "length a = 16" for a
    unfolding S_def sh by (rule shuffle_byte [OF that]) simp
  have p: "4 * k + j < 32" using assms(5) j(1) by simp
  have sh1: "mm_shuffle_epi8 a (map (shuf es) xs) = map (S a) xs" for a xs by (simp add: mm_shuffle_epi8_def S_def)
  show "decompress c data ! (4 * k + j) = data ! (k * es div 8 + j)"
  proof (cases "es \<le> 16")
    case True
    have "es * (k + 1) \<le> 16 * 8" using True assms(5) by (intro mult_mono) simp_all
    then have "bmax < 16" unfolding b by (simp add: less_mult_imp_div_less)
    then have 1: "(bmin + j) mod 16 = bmin + j" "bmin + j < 16" using j by simp_all
    have "decompress c data = map (S lo) ([0..<16] @ [16..<32])"
      using True by (simp only: decompress_def c singlelane_shuffle_def Let_def sh1 lh if_True map_append)
    also have "[0..<16] @ [16..<32] = [0..<(32 :: nat)]" using upt_add_eq_append [of 0 16 16] by simp
    finally have "decompress c data ! (4 * k + j) = S lo (4 * k + j)" using p by simp
    then show ?thesis using S [OF l(1)] 1 unfolding b [symmetric] by (simp add: lh)
  next
    case False
    then have es: "es = 17 \<or> es = 18" using assms(2) by linarith
    define n where "n = (if es = 17 then 14 else 13 :: nat)"
    have crop: "crop = replicate n (- 1) @ replicate (16 - n) 0" "n \<le> 16" using es c(2) crop_masks(1,2) by (auto simp: n_def)
    let ?h = "map2 (OR) (map2 (AND) (map (S lo) [16..<32]) crop) (map2 (AND) (map (S hi) [16..<32]) (map (\<lambda>x. NOT x) crop))"
    have D: "decompress c data = map (S lo) [0..<16] @ ?h"
      using False by (simp only: decompress_def c crosslane_shuffle_def mm_and_si128_def mm_or_si128_def Let_def sh1 lh if_False)
    show ?thesis
    proof (cases "k < 4")
      case True
      have "es * (k + 1) \<le> 18 * 4" using True assms(2) by (intro mult_mono) simp_all
      then have "bmax < 16" unfolding b by (simp add: less_mult_imp_div_less)
      moreover have "4 * k + j < 16" using True j(1) by simp
      then have "decompress c data ! (4 * k + j) = S lo (4 * k + j)" unfolding D by (simp add: nth_append)
      ultimately show ?thesis using S [OF l(1)] j unfolding b [symmetric] by (simp add: lh)
    next
      case False
      define q where "q = 4 * k + j - 16"
      have q: "4 * k + j = 16 + q" "q < 16" using False p by (simp_all add: q_def)
      have h: "decompress c data ! (4 * k + j) = (if q < n then S lo (4 * k + j) else S hi (4 * k + j))"
        unfolding D q(1) using q(2) crop(2) by (simp add: nth_append crop(1) add.commute del: upt_rec_numeral)
      have "k = 4 \<or> k = 5 \<or> k = 6 \<or> k = 7" using False assms(5) by linarith
      then have iff: "q < n \<longleftrightarrow> bmin + j < 16" using es j q(1) unfolding b n_def by auto
      show ?thesis
      proof (cases "q < n")
        case True
        then show ?thesis using h S [OF l(1)] iff unfolding b [symmetric] by (simp add: lh)
      next
        case False
        then obtain r where r: "bmin + j = 16 + r" using iff by (metis le_iff_add not_less)
        then have "r < 2" using j(2) bb(3) by simp
        then show ?thesis using h S [OF l(2)] False r assms(4) unfolding b [symmetric] by (simp add: lh)
      qed
    qed
  qed
  show "length (decompress c data) = 32"
  proof (cases "es \<le> 16")
    case False
    then have "length crop = 16" using assms(2) c(2) crop_masks(1,2) by (cases "es = 17"; cases "es = 18") auto
    then show ?thesis using False
      by (simp add: decompress_def c crosslane_shuffle_def mm_and_si128_def mm_or_si128_def Let_def mm_shuffle_epi8_def)
  qed (simp add: decompress_def c singlelane_shuffle_def Let_def mm_shuffle_epi8_def)
qed

lemma load_correct:
  assumes "0 < es" "es \<le> 18" "ConstantsSet es = Inr c" "base + 32 \<le> lim"
  shows "load_with_decompression lim m base c = Inr (map (\<lambda>k. mfield m (8 * base + k * es) es) [0..<8])"
proof -
  let ?data = "read_bytes m base 32" and ?D = "decompress c (read_bytes m base 32)"
  have c: "align_shift c = map (\<lambda>i. of_nat (i * es mod 8)) [0..<8]" "dc_value_mask c = replicate 8 (mask es)"
    using constants_correct [OF assms(1,2)] assms(3) by auto
  have len: "length ?D = 32" using decompress_bytes(2) [OF assms(1-3), of ?data 0 0] by simp
  have lane: "drop_bit (k * es mod 8) (load_le 4 (\<lambda>x. ?D ! x) (4 * k)) AND mask es = mfield m (8 * base + k * es) es" if k: "k < 8" for k
  proof (rule bit_word_eqI)
    fix j assume j: "j < LENGTH(32)"
    show "bit (drop_bit (k * es mod 8) (load_le 4 (\<lambda>x. ?D ! x) (4 * k)) AND mask es :: u32) j = bit (mfield m (8 * base + k * es) es) j"
    proof (cases "j < es")
      case True
      define s b where sb: "s = k * es mod 8" "b = k * es div 8"
      have ks: "k * es = 8 * b + s" "s < 8" by (simp_all add: sb)
      have r: "s + j < 32" using True assms(2) ks(2) by simp
      have "b + (s + j) div 8 \<le> (es * (k + 1) - 1) div 8"
      proof -
        have "8 * b + (s + j) \<le> es * (k + 1) - 1" using True ks(1) by (simp add: algebra_simps)
        then have "(8 * b + (s + j)) div 8 \<le> (es * (k + 1) - 1) div 8" by (rule div_le_mono)
        then show ?thesis by simp
      qed
      then have byte: "?D ! (4 * k + (s + j) div 8) = m (base + b + (s + j) div 8)"
        using decompress_bytes(1) [OF assms(1-3) _ k, of ?data "(s + j) div 8"] value_bytes(1,3) [OF assms(1,2) k]
        unfolding sb(2) [symmetric] by (simp add: read_bytes_def add.assoc)
      have "8 * base + k * es + j = 8 * (base + b) + (s + j)" using ks(1) by simp
      then have "mbit m (8 * base + k * es + j) = bit (m (base + b + (s + j) div 8)) ((s + j) mod 8)"
        by (simp only: mbit_def div_mult_self4 mod_mult_self4 zero_neq_numeral [symmetric] not_False_eq_True)
      then show ?thesis using True r byte j by (simp add: bit_simps bit_load_le bit_mfield add.commute flip: sb(1))
    next
      case False
      then show ?thesis by (simp add: bit_simps bit_mfield)
    qed
  qed
  have "mm256_and_si256 (mm256_srlv_epi32 (lanes32 ?D) (align_shift c)) (dc_value_mask c) =
      map (\<lambda>k. mfield m (8 * base + k * es) es) [0..<8]"
  proof (rule nth_equalityI)
    show "length (mm256_and_si256 (mm256_srlv_epi32 (lanes32 ?D) (align_shift c)) (dc_value_mask c)) =
        length (map (\<lambda>k. mfield m (8 * base + k * es) es) [0..<8])"
      by (simp add: mm256_and_si256_def mm256_srlv_epi32_def lanes32_def len c)
    fix k assume "k < length (mm256_and_si256 (mm256_srlv_epi32 (lanes32 ?D) (align_shift c)) (dc_value_mask c))"
    then have k: "k < 8" by (simp add: mm256_and_si256_def mm256_srlv_epi32_def lanes32_def len c)
    have "(of_nat (k * es mod 8) :: u32) < 32" "unat (of_nat (k * es mod 8) :: u32) = k * es mod 8"
      by (simp_all add: word_less_nat_alt unat_of_nat take_bit_eq_mod del: of_nat_mod of_nat_mult)
    then show "mm256_and_si256 (mm256_srlv_epi32 (lanes32 ?D) (align_shift c)) (dc_value_mask c) ! k =
        map (\<lambda>k. mfield m (8 * base + k * es) es) [0..<8] ! k"
      using k lane [OF k] by (simp add: mm256_and_si256_def mm256_srlv_epi32_def lanes32_def len c)
  qed
  then show ?thesis using assms(4) by (simp add: load_with_decompression_def Let_def decompress_def)
qed

section \<open>Lemmas on predicates\<close>

lemma bit_movemask: "length a = 8 \<Longrightarrow> bit (mm256_movemask_ps a) t \<longleftrightarrow> t < 8 \<and> bit (a ! t) 31"
  by (auto simp: mm256_movemask_ps_def bit_horner_sum_bit_iff)

lemma bit_FF: "bit (0xFF :: u8) t \<longleftrightarrow> t < 8"
proof -
  have "(0xFF :: u8) = - 1" by simp
  show ?thesis unfolding \<open>0xFF = - 1\<close> by (simp only: bit_minus_1_iff possible_bit_word) simp
qed

lemma apply_in_range_correct:
  assumes "length data = 8"
  shows "\<exists>msk. apply_in_range rng m data = Inr msk \<and> (\<forall>t < 8. bit msk t \<longleftrightarrow> range_test rng m (data ! t))"
proof -
  let ?out = "mm256_or_si256 (mm256_cmpgt_epi32 (replicate 8 (range_start rng)) data) (mm256_cmpgt_epi32 data (replicate 8 (range_end rng)))"
  have "bit (mm256_movemask_ps ?out XOR 0xFF) t \<longleftrightarrow> range_test rng m (data ! t)" if "t < 8" for t
  proof -
    have "bit (mm256_movemask_ps ?out) t \<longleftrightarrow> \<not> range_test rng m (data ! t)"
      using that assms by (auto simp: bit_movemask mm256_or_si256_def mm256_cmpgt_epi32_def range_test_def)
    then show ?thesis using that by (simp only: bit_xor_iff bit_FF simp_thms)
  qed
  then show ?thesis by (simp add: apply_in_range_def Let_def)
qed

lemma sint_small: "unat x < 2 ^ 31 \<Longrightarrow> sint x = int (unat x)" for x :: u32
proof -
  assume "unat x < 2 ^ 31"
  then have "x < 2 ^ 31" by (simp add: word_less_nat_alt)
  then have "sint x = uint x"
    by (simp add: sint_uint word_less_def signed_take_bit_eq_if_positive bit_uint_iff not_less bit_iff_odd take_bit_int_eq_self)
  then show ?thesis by simp
qed

lemma range_test_unsigned:
  assumes "range_start rng < 2 ^ 31" "range_end rng < 2 ^ 31" "v < 2 ^ 31"
  shows "range_test rng m v = in_range rng v"
proof -
  have "sint x = uint x" if "x < 2 ^ 31" for x :: u32
    using that sint_small [of x] by (simp add: word_less_nat_alt)
  then show ?thesis using assms by (simp add: range_test_def in_range_def word_le_def)
qed

lemma max_index_correct:
  assumes "list_size pr < 2 ^ 32"
  shows "max_index pr = of_nat (list_words pr)" "sint (max_index pr) = int (list_words pr)"
proof -
  have w: "list_words pr < 2 ^ 31" using assms by (simp add: list_words_def)
  show 1: "max_index pr = of_nat (list_words pr)"
  proof (cases "list_size pr = 0")
    case True
    have "ucast (drop_bit 5 ((0 :: u64) - 1) + 1) = (0 :: u32)" by code_simp
    then show ?thesis unfolding max_index_def list_words_def using True by (simp only: of_nat_0 add_0) simp
  next
    case False
    then obtain k where k: "list_size pr = Suc k" by (cases "list_size pr") auto
    have u: "unat (of_nat k :: u64) = k" using assms k by (simp add: unat_of_nat take_bit_eq_mod)
    have "(of_nat (list_size pr) - 1 :: u64) = of_nat k" using k by simp
    moreover have "drop_bit 5 (of_nat k :: u64) = of_nat (k div 32)" by (simp add: drop_bit_eq_div word_arith_nat_div u)
    ultimately have "max_index pr = ucast (of_nat (Suc (k div 32)) :: u64)" by (simp add: max_index_def add.commute)
    also have "\<dots> = of_nat (Suc (k div 32))" by (rule bit_word_eqI) (simp add: bit_simps del: of_nat_Suc)
    also have "Suc (k div 32) = list_words pr" using k div_add_self1 [of 32 k] by (simp add: list_words_def)
    finally show ?thesis .
  qed
  show "sint (max_index pr) = int (list_words pr)" 
  proof -
    have "unat (of_nat (list_words pr) :: u32) = list_words pr" using w by (simp add: unat_of_nat take_bit_eq_mod)
    then show ?thesis unfolding 1 using w sint_small [of "of_nat (list_words pr)"] by simp
  qed
qed


text \<open>One lane of the list predicate.\<close>

lemma gather_lane_correct:
  assumes "list_usable pr" "v < 2 ^ 31"
  defines "msk \<equiv> (if sint (drop_bit 5 v) < sint (max_index pr) then - 1 else 0 :: u32)"
  shows "\<exists>w. gather_lane (list_lim pr) m (list_addr pr) 0 (drop_bit 5 v) msk = Inr w \<and>
    (w AND push_bit (unat (v AND 31)) 1 = push_bit (unat (v AND 31)) 1 \<longleftrightarrow> list_test pr m v)"
proof -
  let ?q = "unat v div 32" and ?r = "unat v mod 32"
  have q: "unat (drop_bit 5 v) = ?q" by (simp add: drop_bit_eq_div unat_div)
  have "v AND 31 = take_bit 5 v" unfolding take_bit_eq_mask by (simp add: mask_eq_exp_minus_1)
  then have r: "unat (v AND 31) = ?r" by (simp add: unsigned_take_bit_eq) (simp add: take_bit_eq_mod)
  have "?q < 2 ^ 31" using assms(2) by (simp add: word_less_nat_alt)
  then have s: "sint (drop_bit 5 v) = int ?q"
    using sint_small [of "drop_bit 5 v"] q by simp
  have mi: "sint (max_index pr) = int (list_words pr)" using assms(1) max_index_correct(2) by (simp add: list_usable_def)
  have iff: "(w :: u32) AND 2 ^ ?r = 2 ^ ?r \<longleftrightarrow> bit w ?r" for w
    by (subst bit_eq_iff) (auto simp: bit_simps dest: spec [of _ ?r])
  show ?thesis
  proof (cases "?q < list_words pr")
    case True
    have "nat (int (list_addr pr) + int ?q * 4) = list_addr pr + 4 * ?q" by (simp add: nat_add_distrib nat_mult_distrib)
    moreover have "list_addr pr + 4 * ?q + 4 \<le> list_lim pr" using assms(1) True by (simp add: list_usable_def)
    ultimately have "gather_lane (list_lim pr) m (list_addr pr) 0 (drop_bit 5 v) msk = Inr (load_le 4 m (list_addr pr + 4 * ?q))"
      using True unfolding gather_lane_def msk_def s mi Let_def by simp
    moreover have "bit (load_le 4 m (list_addr pr + 4 * ?q) :: u32) ?r = mbit m (8 * list_addr pr + unat v)"
    proof -
      define q r where qr: "q = ?q" "r = ?r"
      have "unat v = 32 * q + r" "r < 32" by (simp_all add: qr)
      then have e: "8 * list_addr pr + unat v = 8 * (list_addr pr + 4 * q) + r" by simp
      have "(8 * X + r) div 8 = X + r div 8" "(8 * X + r) mod 8 = r mod 8" for X by simp_all
      then show ?thesis using \<open>r < 32\<close> unfolding mbit_def e qr [symmetric] by (simp only: bit_load_le) simp
    qed
    ultimately show ?thesis using True unfolding r by (simp add: iff list_test_def)
  next
    case False
    then have "gather_lane (list_lim pr) m (list_addr pr) 0 (drop_bit 5 v) msk = Inr 0"
      unfolding gather_lane_def msk_def s mi by simp
    then show ?thesis using False unfolding r by (simp add: iff list_test_def)
  qed
qed


lemma map_r_map: "map_r f (map g xs) = map_r (\<lambda>x. f (g x)) xs"
  by (induction xs) simp_all

lemma apply_in_list_correct:
  assumes "list_usable pr" "length data = 8" "\<forall>v \<in> set data. v < 2 ^ 31"
  shows "\<exists>msk. apply_in_list pr m data = Inr msk \<and> (\<forall>t < 8. bit msk t \<longleftrightarrow> list_test pr m (data ! t))"
proof -
  let ?k = "\<lambda>v. if sint (drop_bit 5 v) < sint (max_index pr) then - 1 else 0 :: u32"
  define w where "w v = projr (gather_lane (list_lim pr) m (list_addr pr) 0 (drop_bit 5 v) (?k v))" for v
  have w: "gather_lane (list_lim pr) m (list_addr pr) 0 (drop_bit 5 v) (?k v) = Inr (w v)"
    "w v AND push_bit (unat (v AND 31)) 1 = push_bit (unat (v AND 31)) 1 \<longleftrightarrow> list_test pr m v" if "v \<in> set data" for v
    using gather_lane_correct [OF assms(1), of v m] assms(3) that by (auto simp: w_def)
  have vi: "mm256_srlv_epi32 data (replicate 8 5) = map (drop_bit 5) data"
    by (rule nth_equalityI) (simp_all add: mm256_srlv_epi32_def assms(2))
  have "zip (replicate 8 (0 :: u32)) (zip (map (drop_bit 5) data) (mm256_cmpgt_epi32 (replicate 8 (max_index pr)) (map (drop_bit 5) data))) =
      map (\<lambda>v. (0, drop_bit 5 v, ?k v)) data"
    by (rule nth_equalityI) (simp_all add: mm256_cmpgt_epi32_def assms(2))
  then have g: "mm256_mask_i32gather (list_lim pr) m (replicate 8 0) (list_addr pr) (map (drop_bit 5) data)
      (mm256_cmpgt_epi32 (replicate 8 (max_index pr)) (map (drop_bit 5) data)) = Inr (map w data)"
    using w(1) by (simp add: mm256_mask_i32gather_def map_r_map map_r_Inr)
  let ?det = "mm256_sllv_epi32 (replicate 8 1) (mm256_and_si256 data (replicate 8 0b11111))"
  have "?det ! t = push_bit (unat (data ! t AND 31)) 1" "length ?det = 8" if "t < 8" for t
  proof -
    have "data ! t AND 31 = take_bit 5 (data ! t)" unfolding take_bit_eq_mask by (simp add: mask_eq_exp_minus_1)
    moreover have "take_bit 5 (data ! t) < 2 ^ 5" by (subst less_exp_bit_iff) (simp_all add: bit_simps)
    ultimately have "data ! t AND 31 < 32" by simp
    then show "?det ! t = push_bit (unat (data ! t AND 31)) 1" "length ?det = 8"
      using that by (simp_all add: mm256_sllv_epi32_def mm256_and_si256_def assms(2))
  qed
  then have "bit (mm256_movemask_ps (mm256_cmpeq_epi32 (mm256_and_si256 (map w data) ?det) ?det)) t \<longleftrightarrow> list_test pr m (data ! t)" if "t < 8" for t
    using that w(2) [of "data ! t"] assms(2) by (simp add: bit_movemask mm256_cmpeq_epi32_def mm256_and_si256_def)
  then show ?thesis by (simp add: apply_in_list_def Let_def vi g)
qed

section \<open>Lemmas on stores\<close>

lemma bit_horner_bytes:
  assumes "\<And>b. f b < 256"
  shows "bit (horner_sum f 256 bs :: u64) i \<longleftrightarrow> i < 64 \<and> i div 8 < length bs \<and> bit (f (bs ! (i div 8))) (i mod 8)"
proof (induction bs arbitrary: i)
  case (Cons b bs)
  let ?H = "horner_sum f 256 bs :: u64"
  have fb: "bit (f b) n \<Longrightarrow> n < 8" for n using assms [of b] less_exp_bit_iff [of 8 "f b"] by auto
  have "256 * ?H = push_bit 8 ?H" by (simp add: push_bit_eq_mult mult.commute)
  moreover have "f b + push_bit 8 ?H = f b OR push_bit 8 ?H" by (rule disjunctive_add) (auto simp: bit_simps dest: fb)
  ultimately have H: "horner_sum f 256 (b # bs) = f b OR push_bit 8 ?H" by simp
  show ?case
  proof (cases "i < 8")
    case True
    then show ?thesis unfolding H by (auto simp: bit_simps)
  next
    case False
    then obtain k where k: "i = 8 + k" by (metis le_iff_add not_less)
    have "\<not> bit (f b) i" using fb [of i] False by blast
    moreover have "i div 8 = Suc (k div 8)" "i mod 8 = k mod 8" using k by simp_all
    ultimately show ?thesis unfolding H using Cons [of k] by (auto simp: k bit_simps)
  qed
qed simp

lemma bit_pdep_ones: "bit (pdep_u64 (ucast (msk :: u8)) 0x0101010101010101) i \<longleftrightarrow> i < 64 \<and> 8 dvd i \<and> bit msk (i div 8)"
proof -
  have "list_all (\<lambda>i. bit (0x0101010101010101 :: u64) i \<longleftrightarrow> 8 dvd i) [0..<64]" by code_simp
  then have c: "bit (0x0101010101010101 :: u64) i \<longleftrightarrow> 8 dvd i" if "i < 64" for i
    using that unfolding list_all_iff by (metis atLeastLessThan_iff le0 set_upt)
  have "list_all (\<lambda>q. length (filter (bit (0x0101010101010101 :: u64)) [0..<8 * q]) = q) [0..<8]" by code_simp
  then have l: "length (filter (bit (0x0101010101010101 :: u64)) [0..<8 * q]) = q" if "q < 8" for q
    using that unfolding list_all_iff by (metis atLeastLessThan_iff le0 set_upt)
  show ?thesis
  proof (cases "i < 64 \<and> 8 dvd i")
    case True
    then obtain q where q: "i = 8 * q" "q < 8" by auto
    then show ?thesis using c [of i] l [of q] True
      by (simp add: pdep_u64_def bit_horner_sum_bit_iff bit_simps del: upt_rec_numeral) 
  next
    case False
    then show ?thesis using c [of i] by (auto simp: pdep_u64_def bit_horner_sum_bit_iff simp del: upt_rec_numeral)
  qed
qed

lemma bit_extended_mask:
  "bit (pdep_u64 (ucast (msk :: u8)) 0x0101010101010101 * 0xFF) i \<longleftrightarrow> i < 64 \<and> bit msk (i div 8)"
proof -
  let ?bs = "map (bit msk) [0..<8]"
  have "pdep_u64 (ucast msk) 0x0101010101010101 = horner_sum of_bool 256 ?bs"
  proof (rule bit_word_eqI)
    fix n assume "n < LENGTH(64)"
    then have n: "n < 64" "n div 8 < 8" by simp_all
    have "bit (horner_sum of_bool 256 ?bs :: u64) n \<longleftrightarrow> bit (of_bool (bit msk (n div 8)) :: u64) (n mod 8)"
      using bit_horner_bytes [of "of_bool :: bool \<Rightarrow> u64" ?bs n] n by (simp add: of_bool_def del: upt_rec_numeral)
    also have "\<dots> \<longleftrightarrow> 8 dvd n \<and> bit msk (n div 8)" by (auto simp: bit_simps dvd_eq_mod_eq_0)
    finally show "bit (pdep_u64 (ucast msk) 0x0101010101010101) n = bit (horner_sum of_bool 256 ?bs :: u64) n"
      using bit_pdep_ones [of msk n] n by simp
  qed
  moreover have "horner_sum of_bool 256 bs * 0xFF = (horner_sum (\<lambda>b. of_bool b * 0xFF) 256 bs :: u64)" for bs
    by (induction bs) (simp, simp only: horner_sum_simps distrib_right mult.assoc)
  moreover have "bit (horner_sum (\<lambda>b. of_bool b * 0xFF) 256 ?bs :: u64) i \<longleftrightarrow> i < 64 \<and> bit msk (i div 8)"
  proof -
    have F: "bit (0xFF :: u64) r" if "r < 8" for r
    proof -
      have "(0xFF :: u64) = mask 8" by (simp add: mask_eq_exp_minus_1)
      then show ?thesis using that by (simp only: bit_mask_iff) simp
    qed
    show ?thesis using bit_horner_bytes [of "\<lambda>b. of_bool b * 0xFF" ?bs i] F [of "i mod 8"]
      by (auto simp: of_bool_def simp del: upt_rec_numeral)
  qed
  ultimately show ?thesis by simp
qed

lemma concat_map_if: "concat (map (\<lambda>x. if Q x then g x else []) xs) = concat (map g (filter Q xs))"
  by (induction xs) simp_all

text \<open>The permutation moves the numbers of the set bits to the front.\<close>

lemma permute_bytes:
  fixes msk :: u8
  defines "S \<equiv> filter (bit msk) [0..<8]"
  shows "word_bytes 8 (pext_u64 0x0706050403020100 (pdep_u64 (ucast msk) 0x0101010101010101 * 0xFF)) =
    map (\<lambda>t. if t < length S then of_nat (S ! t) else 0) [0..<8]"
proof -
  define sel :: u64 where sel_def: "sel = 0x0706050403020100"
  let ?ext = "pdep_u64 (ucast msk) 0x0101010101010101 * 0xFF"
  have "list_all (\<lambda>i. bit (0x0706050403020100 :: u64) i \<longleftrightarrow> bit (i div 8) (i mod 8)) [0..<64]" by code_simp
  then have "bit sel i \<longleftrightarrow> bit (i div 8) (i mod 8)" if "i < 64" for i
    using that unfolding list_all_iff sel_def by (metis atLeastLessThan_iff le0 set_upt)
  then have sel: "bit sel (8 * b + r) \<longleftrightarrow> bit b r" if "b < 8" "r < 8" for b r using that by simp
  have u: "[0..<64] = concat (map (\<lambda>b. map ((+) (8 * b)) [0..<8]) [0..<8])" by code_simp
  have S8: "b < 8" if "b \<in> set S" for b using that by (simp add: S_def)
  have "filter (bit ?ext) (map ((+) (8 * b)) [0..<8]) = (if bit msk b then map ((+) (8 * b)) [0..<8] else [])" if "b < 8" for b
  proof -
    have "x div 8 = b" if "8 * b \<le> x" "x < 8 + 8 * b" for x using that by (intro div_nat_eqI) simp_all
    then show ?thesis using that by (auto simp: bit_extended_mask filter_empty_conv filter_id_conv simp del: upt_rec_numeral)
  qed
  then have "filter (bit ?ext) [0..<64] = concat (map (\<lambda>b. if bit msk b then map ((+) (8 * b)) [0..<8] else []) [0..<8])"
    unfolding u filter_concat map_map by (intro arg_cong [of _ _ concat] map_cong) (simp_all del: upt_rec_numeral)
  then have f: "filter (bit ?ext) [0..<64] = concat (map (\<lambda>b. map ((+) (8 * b)) [0..<8]) S)"
    unfolding concat_map_if S_def .
  have bits: "map (bit sel) (filter (bit ?ext) [0..<64]) = concat (map (\<lambda>b. map (bit b) [0..<8]) S)"
    unfolding f map_concat map_map
    by (intro arg_cong [of _ _ concat] map_cong) (auto simp: comp_def sel S8 simp del: upt_rec_numeral)
  let ?B = "concat (map (\<lambda>b. map (bit b) [0..<8]) S)"
  have lenB: "length ?B = 8 * length S" by (simp add: length_concat comp_def sum_list_triv del: upt_rec_numeral)
  have "bit (pext_u64 sel ?ext) (8 * t + r) \<longleftrightarrow> t < length S \<and> bit (S ! t) r" if "t < 8" "r < 8" for t r
  proof -
    have "bit (pext_u64 sel ?ext) (8 * t + r) \<longleftrightarrow> 8 * t + r < 64 \<and> 8 * t + r < length ?B \<and> ?B ! (8 * t + r)"
      unfolding pext_u64_def bits by (simp add: bit_horner_sum_bit_iff conj_commute)
    also have "\<dots> \<longleftrightarrow> t < length S \<and> bit (S ! t) r"
      using that nth_concat_const [of "map (\<lambda>b. map (bit b) [0..<8]) S" 8 t r] unfolding lenB by (auto simp del: upt_rec_numeral)
    finally show ?thesis .
  qed
  note pb = this
  show ?thesis unfolding sel_def [symmetric]
  proof (rule nth_equalityI)
    fix t assume "t < length (word_bytes 8 (pext_u64 sel ?ext))"
    then have t: "t < 8" by simp
    have "(ucast (drop_bit (8 * t) (pext_u64 sel ?ext)) :: u8) = (if t < length S then of_nat (S ! t) else 0)"
    proof (rule bit_word_eqI)
      fix r assume "r < LENGTH(8)"
      then have "r < 8" by simp
      then show "bit (ucast (drop_bit (8 * t) (pext_u64 sel ?ext)) :: u8) r = bit (if t < length S then of_nat (S ! t) else 0 :: u8) r"
        using pb [OF t, of r] by (auto simp: bit_simps)
    qed
    then show "word_bytes 8 (pext_u64 sel ?ext) ! t = map (\<lambda>t. if t < length S then of_nat (S ! t) else 0) [0..<8] ! t"
      using t by (simp add: word_bytes_def del: upt_rec_numeral)
  qed simp
qed

lemma store_indices_eq:
  fixes msk :: u8
  assumes "out_addr res + 4 * c + 32 \<le> out_lim res"
  defines "S \<equiv> filter (bit msk) [0..<8]"
  shows "store_indices res base msk m c = Inr (write_bytes m (out_addr res + 4 * c)
    (concat (map (word_bytes 4) (map (\<lambda>t. of_nat (base + (if t < length S then S ! t else 0)) :: u32) [0..<8]))), length S)"
proof -
  let ?idx = "mm256_add_epi32 (replicate 8 (of_nat base)) [0, 1, 2, 3, 4, 5, 6, 7]"
  have idx: "?idx = map (\<lambda>x. of_nat (base + x)) [0..<8]" by (simp add: mm256_add_epi32_def numeral_eq_Suc)
  have S8: "S ! t < 8" if "t < length S" for t
    using nth_mem [OF that] by (simp add: S_def)
  have lane: "?idx ! unat (ucast (of_nat x :: u8) AND 7 :: u32) = of_nat (base + x)" if "x < 8" for x
  proof -
    have "x \<in> set [0..<8]" using that by simp
    then have "unat (ucast (of_nat x :: u8) AND 7 :: u32) = x" by (auto simp: upt_rec)
    then show ?thesis unfolding idx using that by (simp del: upt_rec_numeral)
  qed
  have "mm256_permutevar8x32 ?idx (map ucast (map (\<lambda>t. if t < length S then of_nat (S ! t) else 0 :: u8) [0..<8])) =
      map (\<lambda>t. of_nat (base + (if t < length S then S ! t else 0)) :: u32) [0..<8]"
  proof (rule nth_equalityI)
    fix t assume "t < length (mm256_permutevar8x32 ?idx (map ucast (map (\<lambda>t. if t < length S then of_nat (S ! t) else 0 :: u8) [0..<8])))"
    then have "t < 8" by (simp add: mm256_permutevar8x32_def del: upt_rec_numeral)
    then show "mm256_permutevar8x32 ?idx (map ucast (map (\<lambda>t. if t < length S then of_nat (S ! t) else 0 :: u8) [0..<8])) ! t =
        map (\<lambda>t. of_nat (base + (if t < length S then S ! t else 0)) :: u32) [0..<8] ! t"
      using lane [OF S8, of t] lane [of 0] by (simp add: mm256_permutevar8x32_def del: upt_rec_numeral)
  qed (simp add: mm256_permutevar8x32_def del: upt_rec_numeral)
  moreover have "popcnt msk = length S" by (simp add: popcnt_def S_def)
  ultimately show ?thesis using assms(1) unfolding store_indices_def Let_def permute_bytes [of msk, folded S_def] by (simp only: if_True)
qed

section \<open>The contracts of outputs and predicates\<close>

text \<open>
  What the scan needs of a result container: after \<open>b\<close> blocks of eight rows it stands for the
  matching rows found so far (\<open>holds\<close>), storing a block adds its rows, and nothing outside the
  area of the result changes. What it needs of a predicate: the mask tells which of the eight
  values pass the test, and the test depends only on the memory the predicate reads.
\<close>

locale scan_output =
  fixes store :: "'p \<Rightarrow> nat \<Rightarrow> u8 \<Rightarrow> bmem \<Rightarrow> nat \<Rightarrow> (bmem \<times> nat) result"
    and fits :: "'p \<Rightarrow> nat \<Rightarrow> bool" and area :: "'p \<Rightarrow> nat \<Rightarrow> nat set"
    and holds :: "'p \<Rightarrow> nat \<Rightarrow> nat list \<Rightarrow> bmem \<Rightarrow> nat \<Rightarrow> bool"
  assumes holds_start: "holds p 0 [] m 0"
    and holds_step: "\<lbrakk>fits p n; b < n; holds p b js m c\<rbrakk> \<Longrightarrow>
      \<exists>m' k. store p (8 * b) msk m c = Inr (m', k) \<and> holds p (Suc b) (js @ set_rows (8 * b) msk) m' (c + k) \<and>
        (\<forall>x. x \<notin> area p n \<longrightarrow> m' x = m x)"

locale scan_predicate =
  fixes app :: "'q \<Rightarrow> bmem \<Rightarrow> u32 list \<Rightarrow> u8 result" and test :: "'q \<Rightarrow> bmem \<Rightarrow> u32 \<Rightarrow> bool"
    and reads :: "'q \<Rightarrow> nat set" and usable :: "'q \<Rightarrow> bool"
  assumes test_cong: "\<lbrakk>\<And>x. x \<in> reads q \<Longrightarrow> m x = m' x\<rbrakk> \<Longrightarrow> test q m v = test q m' v"
    and app_mask: "\<lbrakk>usable q; length data = 8; \<forall>v \<in> set data. v < 2 ^ 31\<rbrakk> \<Longrightarrow>
      \<exists>msk. app q m data = Inr msk \<and> (\<forall>t < 8. bit msk t \<longleftrightarrow> test q m (data ! t))"

lemma col_value_cong:
  assumes "\<And>x. x \<in> col_area column \<Longrightarrow> m x = m' x" "i < 8 * col_blocks column"
  shows "col_value column m i = col_value column m' i"
proof -
  let ?p = "8 * col_addr column + i * col_bits column" and ?n = "col_bits column"
  have "mbit m (?p + j) = mbit m' (?p + j)" if "j < ?n" for j
  proof -
    have "(i + 1) * ?n \<le> 8 * col_blocks column * ?n" using assms(2) by (intro mult_right_mono) simp_all
    then have "?p + j < 8 * (col_addr column + col_blocks column * ?n)" using that by (simp add: algebra_simps)
    then have "(?p + j) div 8 < col_addr column + col_blocks column * ?n" by (simp add: less_mult_imp_div_less mult.commute)
    moreover have "col_addr column \<le> (?p + j) div 8" using div_le_mono [of "8 * col_addr column" "?p + j" 8] by simp
    ultimately have "(?p + j) div 8 \<in> col_area column" by (simp add: col_area_def)
    then show ?thesis using assms(1) by (simp add: mbit_def)
  qed
  then show ?thesis unfolding col_value_def by (intro bit_word_eqI) (auto simp: bit_mfield)
qed

lemma col_value_small: "col_bits column \<le> 18 \<Longrightarrow> col_value column m i < 2 ^ 31"
  by (subst less_exp_bit_iff) (auto simp: col_value_def bit_mfield)

locale avx2_scan = scan_output store fits area holds + scan_predicate app test reads usable
  for store :: "'p \<Rightarrow> nat \<Rightarrow> u8 \<Rightarrow> bmem \<Rightarrow> nat \<Rightarrow> (bmem \<times> nat) result" and fits area holds
    and app :: "'q \<Rightarrow> bmem \<Rightarrow> u32 list \<Rightarrow> u8 result" and test reads usable
begin

lemma scan_loop_correct:
  assumes col: "col_ok column" "ConstantsSet (col_bits column) = Inr c" and u: "usable q" "fits p (col_blocks column)"
    and disj: "col_area column \<inter> area p (col_blocks column) = {}" "reads q \<inter> area p (col_blocks column) = {}"
    and b: "b \<le> col_blocks column" "holds p b (filter (\<lambda>i. test q m (col_value column m i)) [0..<8 * b]) mb cnt"
      "\<And>x. x \<notin> area p (col_blocks column) \<Longrightarrow> mb x = m x"
  shows "\<exists>m' k. scan_loop (app q) (store p) c column (8 * b) (col_addr column + b * col_bits column) cnt mb = Inr (m', k) \<and>
    holds p (col_blocks column) (filter (\<lambda>i. test q m (col_value column m i)) [0..<8 * col_blocks column]) m' k \<and>
    (\<forall>x. x \<notin> area p (col_blocks column) \<longrightarrow> m' x = m x)"
  using b
proof (induction "col_blocks column - b" arbitrary: b mb cnt)
  case 0
  then have "\<not> 8 * b < col_size column" "b = col_blocks column" by (simp_all add: col_blocks_def)
  then show ?case using "0.prems" by (subst scan_loop.simps) simp
next
  case (Suc d)
  let ?n = "col_blocks column" and ?T = "\<lambda>i. test q m (col_value column m i)" and ?vb = "col_bits column"
  have bn: "b < ?n" "8 * b < col_size column" using Suc.hyps(2) by (simp_all add: col_blocks_def)
  have "b * ?vb \<le> ?n * ?vb" using bn by (intro mult_right_mono) simp_all
  then have "col_addr column + b * ?vb + 32 \<le> col_lim column" using col(1) unfolding col_ok_def by linarith
  then have "load_with_decompression (col_lim column) mb (col_addr column + b * ?vb) c =
      Inr (map (\<lambda>k. mfield mb (8 * (col_addr column + b * ?vb) + k * ?vb) ?vb) [0..<8])"
    using col by (intro load_correct) (simp_all add: col_ok_def)
  also have "map (\<lambda>k. mfield mb (8 * (col_addr column + b * ?vb) + k * ?vb) ?vb) [0..<8] = map (\<lambda>k. col_value column m (8 * b + k)) [0..<8]"
  proof (rule map_cong [OF refl])
    fix k :: nat assume "k \<in> set [0..<8]"
    then have "8 * b + k < 8 * ?n" using bn(1) by simp
    then have "col_value column m (8 * b + k) = col_value column mb (8 * b + k)"
      using Suc.prems(3) [symmetric] disj(1) by (intro col_value_cong) auto
    then show "mfield mb (8 * (col_addr column + b * ?vb) + k * ?vb) ?vb = col_value column m (8 * b + k)"
      by (simp add: col_value_def algebra_simps)
  qed
  finally have load: "load_with_decompression (col_lim column) mb (col_addr column + b * ?vb) c =
      Inr (map (\<lambda>k. col_value column m (8 * b + k)) [0..<8])" .
  have small: "\<forall>v \<in> set (map (\<lambda>k. col_value column m (8 * b + k)) [0..<8]). v < 2 ^ 31"
    using col_value_small col(1) unfolding col_ok_def by (auto simp del: upt_rec_numeral)
  obtain msk where msk: "app q mb (map (\<lambda>k. col_value column m (8 * b + k)) [0..<8]) = Inr msk"
    "\<forall>t < 8. bit msk t \<longleftrightarrow> test q mb (col_value column m (8 * b + t))"
    using app_mask [OF u(1) _ small, of mb] by (auto simp del: upt_rec_numeral)
  have "test q mb v = test q m v" for v using Suc.prems(3) disj(2) by (intro test_cong) auto
  then have m2: "\<forall>t < 8. bit msk t \<longleftrightarrow> ?T (8 * b + t)" using msk(2) by simp
  have "[8 * b..<8 * Suc b] = map ((+) (8 * b)) [0..<8]" by (rule nth_equalityI) simp_all
  then have rows: "set_rows (8 * b) msk = filter ?T [8 * b..<8 * Suc b]"
    using m2 unfolding set_rows_def by (simp only: filter_map comp_def) (auto intro!: arg_cong [of _ _ "map _"] filter_cong)
  have up: "[0..<8 * Suc b] = [0..<8 * b] @ [8 * b..<8 * Suc b]" using upt_add_eq_append [of 0 "8 * b" 8] by (simp add: add.commute)
  obtain m1 k where m1: "store p (8 * b) msk mb cnt = Inr (m1, k)" "holds p (Suc b) (filter ?T [0..<8 * Suc b]) m1 (cnt + k)"
    "\<forall>x. x \<notin> area p ?n \<longrightarrow> m1 x = mb x"
    using holds_step [OF u(2) bn(1) Suc.prems(2), of msk] unfolding rows up filter_append by blast
  have "\<exists>m' k'. scan_loop (app q) (store p) c column (8 * Suc b) (col_addr column + Suc b * ?vb) (cnt + k) m1 = Inr (m', k') \<and>
      holds p ?n (filter ?T [0..<8 * ?n]) m' k' \<and> (\<forall>x. x \<notin> area p ?n \<longrightarrow> m' x = m x)"
    using Suc.hyps(2) bn(1) m1(2,3) Suc.prems(3) by (intro Suc.hyps(1)) simp_all
  moreover have "scan_loop (app q) (store p) c column (8 * b) (col_addr column + b * ?vb) cnt mb =
      scan_loop (app q) (store p) c column (8 * Suc b) (col_addr column + Suc b * ?vb) (cnt + k) m1"
    using bn(2) load msk(1) m1(1) by (subst scan_loop.simps) (simp add: algebra_simps)
  ultimately show ?case by simp
qed

lemma scan_correct:
  assumes "col_ok column" "usable q" "fits p (col_blocks column)"
    "col_area column \<inter> area p (col_blocks column) = {}" "reads q \<inter> area p (col_blocks column) = {}"
  shows "\<exists>c m' k. ConstantsSet (col_bits column) = Inr c \<and> scan_avx2_impl (app q) (store p) c column m = Inr (m', k) \<and>
    holds p (col_blocks column) (filter (\<lambda>i. test q m (col_value column m i)) [0..<8 * col_blocks column]) m' k \<and>
    (\<forall>x. x \<notin> area p (col_blocks column) \<longrightarrow> m' x = m x)"
proof -
  obtain c where c: "ConstantsSet (col_bits column) = Inr c" using constants_correct [of "col_bits column"] assms(1) by (auto simp: col_ok_def)
  then show ?thesis using scan_loop_correct [OF assms(1) c assms(2-5), of 0 m m 0] holds_start by (auto simp: scan_avx2_impl_def)
qed

end

section \<open>The containers and predicates of the library\<close>

lemma length_lanes: "length (concat (map (word_bytes 4) (map f [0..<8]))) = 32"
  by (simp add: length_concat comp_def sum_list_triv del: upt_rec_numeral)

lemma iv_store_step:
  assumes "iv_fits res n" "b < n" "iv_holds res b js m c"
  shows "\<exists>m' k. store_indices res (8 * b) msk m c = Inr (m', k) \<and> iv_holds res (Suc b) (js @ set_rows (8 * b) msk) m' (c + k) \<and>
    (\<forall>x. x \<notin> iv_area res n \<longrightarrow> m' x = m x)"
proof -
  define S where "S = filter (bit msk) [0..<8]"
  let ?f = "\<lambda>t. of_nat (8 * b + (if t < length S then S ! t else 0)) :: u32"
  let ?m = "write_bytes m (out_addr res + 4 * c) (concat (map (word_bytes 4) (map ?f [0..<8])))"
  have c: "c = length js" "c \<le> 8 * b" "\<forall>t < c. load_le 4 m (out_addr res + 4 * t) = (of_nat (js ! t) :: u32)"
    using assms(3) by (simp_all add: iv_holds_def)
  have le: "out_addr res + 4 * c + 32 \<le> out_addr res + 32 * n" using c(2) assms(2) by simp
  then have st: "store_indices res (8 * b) msk m c = Inr (?m, length S)"
    unfolding S_def using assms(1) by (intro store_indices_eq) (simp add: iv_fits_def)
  have S8: "length S \<le> 8" using length_filter_le [of "bit msk" "[0..<8]"] by (simp add: S_def)
  have sr: "set_rows (8 * b) msk = map ((+) (8 * b)) S" by (simp add: set_rows_def S_def)
  have "load_le 4 ?m (out_addr res + 4 * t) = (of_nat ((js @ set_rows (8 * b) msk) ! t) :: u32)" if t: "t < c + length S" for t
  proof (cases "t < c")
    case True
    have "load_le 4 ?m (out_addr res + 4 * t) = (load_le 4 m (out_addr res + 4 * t) :: u32)"
      using True by (intro load_le_cong) (simp add: write_bytes_def)
    then show ?thesis using True c by (simp add: nth_append)
  next
    case False
    then obtain j where j: "t = c + j" by (metis le_iff_add not_less)
    then have j8: "j < length S" "j < 8" using t S8 by simp_all
    then have "load_le 4 ?m (out_addr res + 4 * c + 4 * j) = map ?f [0..<8] ! j" by (intro load_write_word) simp_all
    then have "load_le 4 ?m (out_addr res + 4 * c + 4 * j) = (of_nat (8 * b + S ! j) :: u32)" using j8 by (simp del: upt_rec_numeral)
    moreover have "(js @ set_rows (8 * b) msk) ! t = 8 * b + S ! j" "out_addr res + 4 * t = out_addr res + 4 * c + 4 * j"
      using j j8 c(1) by (simp_all add: sr nth_append)
    ultimately show ?thesis by (simp only:)
  qed
  moreover have "?m x = m x" if "x \<notin> iv_area res n" for x
    using that le by (auto simp: write_bytes_def length_lanes iv_area_def simp del: map_map)
  ultimately show ?thesis using st c S8 by (simp add: iv_holds_def sr)
qed

lemma bv_store_step:
  assumes "bv_fits res n" "b < n" "bv_holds res b js m c"
  shows "\<exists>m' k. store_bits res (8 * b) msk m c = Inr (m', k) \<and> bv_holds res (Suc b) (js @ set_rows (8 * b) msk) m' (c + k) \<and>
    (\<forall>x. x \<notin> bv_area res n \<longrightarrow> m' x = m x)"
proof -
  let ?m = "m(out_addr res + b := msk)"
  have c: "c = b" "\<forall>i \<in> set js. i < 8 * b" "\<And>i. i < 8 * b \<Longrightarrow> mbit m (8 * out_addr res + i) \<longleftrightarrow> i \<in> set js"
    using assms(3) by (simp_all add: bv_holds_def)
  have st: "store_bits res (8 * b) msk m c = Inr (?m, 1)" using assms(1,2) c(1) by (simp add: store_bits_def bv_fits_def)
  have dv: "(8 * out_addr res + i) div 8 = out_addr res + i div 8" "(8 * out_addr res + i) mod 8 = i mod 8" for i by simp_all
  have "mbit ?m (8 * out_addr res + i) \<longleftrightarrow> i \<in> set (js @ set_rows (8 * b) msk)" if i: "i < 8 * Suc b" for i
  proof (cases "i < 8 * b")
    case True
    then have "i div 8 \<noteq> b" by (simp add: less_mult_imp_div_less mult.commute nat_neq_iff)
    then show ?thesis using True c(3) [OF True] unfolding mbit_def dv by (auto simp: set_rows_def)
  next
    case False
    then obtain t where t: "i = 8 * b + t" "t < 8" using i by (metis add_less_cancel_left le_iff_add mult_Suc_right not_less add.commute)
    then have "i div 8 = b" "i mod 8 = t" by simp_all
    moreover have "i \<notin> set js" using c(2) t by auto
    ultimately show ?thesis using t unfolding mbit_def dv by (auto simp: set_rows_def)
  qed
  moreover have "\<forall>i \<in> set (js @ set_rows (8 * b) msk). i < 8 * Suc b" using c(2) by (auto simp: set_rows_def)
  moreover have "?m x = m x" if "x \<notin> bv_area res n" for x using that assms(2) by (auto simp: bv_area_def)
  ultimately show ?thesis using st c(1) by (simp add: bv_holds_def)
qed

lemma list_test_cong: "(\<And>x. x \<in> list_reads pr \<Longrightarrow> m x = m' x) \<Longrightarrow> list_test pr m v = list_test pr m' v"
proof -
  assume eq: "\<And>x. x \<in> list_reads pr \<Longrightarrow> m x = m' x"
  show ?thesis
  proof (cases "unat v div 32 < list_words pr")
    case True
    have "unat v div 8 < 4 * list_words pr" using True by (simp add: div_less_iff_less_mult mult.commute)
    then have "(8 * list_addr pr + unat v) div 8 \<in> list_reads pr" by (simp add: list_reads_def)
    then show ?thesis using eq by (simp add: list_test_def mbit_def)
  qed (simp add: list_test_def)
qed

interpretation range_iv: avx2_scan store_indices iv_fits iv_area iv_holds apply_in_range range_test "\<lambda>_. {}" "\<lambda>_. True"
proof unfold_locales
  show "iv_holds p 0 [] m 0" for p m by (simp add: iv_holds_def)
  show "\<lbrakk>iv_fits p n; b < n; iv_holds p b js m c\<rbrakk> \<Longrightarrow> \<exists>m' k. store_indices p (8 * b) msk m c = Inr (m', k) \<and>
      iv_holds p (Suc b) (js @ set_rows (8 * b) msk) m' (c + k) \<and> (\<forall>x. x \<notin> iv_area p n \<longrightarrow> m' x = m x)" for p n b js m c msk
    by (rule iv_store_step)
  show "(\<And>x. x \<in> {} \<Longrightarrow> m x = m' x) \<Longrightarrow> range_test q m v = range_test q m' v" for q m m' v by (simp only: range_test_def)
  show "length data = 8 \<Longrightarrow> \<exists>msk. apply_in_range q m data = Inr msk \<and> (\<forall>t < 8. bit msk t \<longleftrightarrow> range_test q m (data ! t))" for q m data
    by (rule apply_in_range_correct)
qed

interpretation list_iv: avx2_scan store_indices iv_fits iv_area iv_holds apply_in_list list_test list_reads list_usable
proof unfold_locales
  show "(\<And>x. x \<in> list_reads q \<Longrightarrow> m x = m' x) \<Longrightarrow> list_test q m v = list_test q m' v" for q m m' v by (rule list_test_cong)
  show "\<lbrakk>list_usable q; length data = 8; \<forall>v \<in> set data. v < 2 ^ 31\<rbrakk> \<Longrightarrow>
      \<exists>msk. apply_in_list q m data = Inr msk \<and> (\<forall>t < 8. bit msk t \<longleftrightarrow> list_test q m (data ! t))" for q m data
    by (rule apply_in_list_correct)
qed

interpretation range_bv: avx2_scan store_bits bv_fits bv_area bv_holds apply_in_range range_test "\<lambda>_. {}" "\<lambda>_. True"
proof unfold_locales
  show "bv_holds p 0 [] m 0" for p m by (simp add: bv_holds_def)
  show "\<lbrakk>bv_fits p n; b < n; bv_holds p b js m c\<rbrakk> \<Longrightarrow> \<exists>m' k. store_bits p (8 * b) msk m c = Inr (m', k) \<and>
      bv_holds p (Suc b) (js @ set_rows (8 * b) msk) m' (c + k) \<and> (\<forall>x. x \<notin> bv_area p n \<longrightarrow> m' x = m x)" for p n b js m c msk
    by (rule bv_store_step)
qed

interpretation list_bv: avx2_scan store_bits bv_fits bv_area bv_holds apply_in_list list_test list_reads list_usable
  by unfold_locales

section \<open>Comparison with the plain scans\<close>

lemma mbit_words:
  assumes "words_at a d m" "j < 32 * length d"
  shows "mbit m (8 * a + j) = sbit d j"
proof -
  define q r where qr: "q = j div 32" "r = j mod 32"
  have j: "j = 32 * q + r" "r < 32" by (simp_all add: qr)
  have q: "q < length d" using assms(2) j by simp
  have e: "8 * a + j = 8 * (a + 4 * q) + r" using j by simp
  have dv: "(8 * X + r) div 8 = X + r div 8" "(8 * X + r) mod 8 = r mod 8" for X by simp_all
  have "sbit d j = bit (load_le 4 m (a + 4 * q) :: u32) r" unfolding j(1) sbit_pos [OF j(2)] using assms(1) q by (simp add: words_at_def)
  also have "\<dots> = mbit m (8 * a + j)" unfolding mbit_def e dv using j(2) by (simp add: bit_load_le)
  finally show ?thesis by simp
qed

lemma stored_col:
  assumes "stored column bc m"
  shows "col_ok column" "i < 8 * col_blocks column \<Longrightarrow> col_value column m i = bc_value bc i"
    "value_counts bc \<le> i \<Longrightarrow> bc_value bc i = 0" "value_counts bc \<le> 8 * col_blocks column" "8 * col_blocks column < 2 ^ 32"
proof -
  let ?vb = "value_bits bc" and ?n = "value_counts bc" and ?d = "bc_data bc" and ?k = "col_blocks column"
  have s: "bc_ok bc" "?vb \<le> 18" "?vb * ?n + 512 \<le> 32 * length ?d" "\<forall>j \<ge> ?vb * ?n. \<not> sbit ?d j"
    "col_bits column = ?vb" "col_size column = ?n" "col_addr column + 4 * length ?d \<le> col_lim column"
    "words_at (col_addr column) ?d m" "?n < 2 ^ 32 - 8" using assms by (simp_all add: stored_def)
  have k: "8 * ?k \<le> ?n + 7" "?n \<le> 8 * ?k" using s(6) by (simp_all add: col_blocks_def)
  then show "?n \<le> 8 * ?k" "8 * ?k < 2 ^ 32" using s(9) by simp_all
  have "8 * ?k * ?vb \<le> (?n + 7) * ?vb" using k(1) by (intro mult_right_mono) simp_all
  then have kv: "8 * ?k * ?vb + 256 \<le> 32 * length ?d" using s(2,3) by (simp add: algebra_simps)
  then show "col_ok column" using s by (simp add: col_ok_def bc_ok_def)
  show "col_value column m i = bc_value bc i" if "i < 8 * ?k"
  proof -
    have "(i + 1) * ?vb \<le> 8 * ?k * ?vb" using that by (intro mult_right_mono) simp_all
    then have "i * ?vb + ?vb \<le> 32 * length ?d" using kv by simp
    then have "mbit m (8 * col_addr column + i * ?vb + j) = sbit ?d (i * ?vb + j)" if "j < ?vb" for j
      using mbit_words [OF s(8), of "i * ?vb + j"] that by (simp add: add.assoc)
    then show ?thesis unfolding col_value_def bc_value_def s(5) by (intro bit_word_eqI) (auto simp: bit_mfield bit_field_at)
  qed
  show "bc_value bc i = 0" if "?n \<le> i"
  proof -
    have "?vb * ?n \<le> i * ?vb" using that by (simp add: mult.commute)
    then have "\<not> sbit ?d (i * ?vb + j)" for j using s(4) by (meson trans_le_add1)
    then show ?thesis unfolding bc_value_def by (intro bit_word_eqI) (simp add: bit_field_at)
  qed
qed

lemma cpu_value:
  assumes "bc_ok bc" "i < value_counts bc"
  shows "get_value bc i = Inr (bc_value bc i)"
proof -
  have "(i + 1) * value_bits bc \<le> value_counts bc * value_bits bc" using assms(2) by (intro mult_right_mono) simp_all
  then show ?thesis unfolding bc_value_def using assms(1) by (intro get_value_correct) (simp_all add: bc_ok_def mult.commute)
qed

lemma iv_loop_correct:
  assumes "bc_ok bc" "\<forall>i \<in> set js. i < value_counts bc \<and> test (bc_value bc i) = Inr (T (bc_value bc i))"
  shows "iv_loop js test bc res = Inr (res @ map of_nat (filter (\<lambda>i. T (bc_value bc i)) js))"
  using assms(2) by (induction js arbitrary: res) (simp_all add: cpu_value [OF assms(1)])

lemma bv_loop_correct:
  assumes "bc_ok bc" "\<forall>i \<in> set js. i < value_counts bc \<and> test (bc_value bc i) = Inr (T (bc_value bc i))"
    "bv_ok bv" "max_value bv = value_counts bc"
  shows "\<exists>bv'. bv_loop js test bc bv = Inr bv' \<and> bv_ok bv' \<and> max_value bv' = value_counts bc \<and>
    bv_set bv' = bv_set bv \<union> set (filter (\<lambda>i. T (bc_value bc i)) js)"
  using assms(2-4)
proof (induction js arbitrary: bv)
  case (Cons i js)
  have g: "get_value bc i = Inr (bc_value bc i)" "i < max_value bv" using Cons.prems cpu_value [OF assms(1)] by simp_all
  show ?case
  proof (cases "T (bc_value bc i)")
    case True
    obtain bv1 where 1: "bv_insert bv i = Inr bv1" "bv_ok bv1" "max_value bv1 = max_value bv"
      "\<forall>j. sbit (bv_data bv1) j \<longleftrightarrow> sbit (bv_data bv) j \<or> j = i"
      using bv_update(1) [OF Cons.prems(2) g(2)] by blast
    then have "bv_set bv1 = insert i (bv_set bv)" using g(2) by (auto simp: bv_set_def)
    then show ?thesis using Cons.IH [of bv1] Cons.prems g(1) True 1 by auto
  next
    case False
    then show ?thesis using Cons.IH [of bv] Cons.prems g(1) by auto
  qed
qed simp

lemma filter_padded:
  assumes "stored column bc m"
  shows "filter (\<lambda>i. T (col_value column m i)) [0..<8 * col_blocks column] =
    filter (\<lambda>i. T (bc_value bc i)) [0..<value_counts bc] @ (if T 0 then [value_counts bc..<8 * col_blocks column] else [])"
proof -
  have u: "[0..<8 * col_blocks column] = [0..<value_counts bc] @ [value_counts bc..<8 * col_blocks column]"
    using upt_add_eq_append [of 0 "value_counts bc" "8 * col_blocks column - value_counts bc"] stored_col(4) [OF assms] by simp
  have "filter (\<lambda>i. T (col_value column m i)) [0..<8 * col_blocks column] = filter (\<lambda>i. T (bc_value bc i)) [0..<8 * col_blocks column]"
    using stored_col(2) [OF assms] by (intro filter_cong) simp_all
  moreover have "filter (\<lambda>i. T (bc_value bc i)) [value_counts bc..<8 * col_blocks column] =
      (if T 0 then [value_counts bc..<8 * col_blocks column] else [])"
    using stored_col(3) [OF assms] by (auto simp: filter_empty_conv filter_id_conv)
  ultimately show ?thesis unfolding u filter_append by simp
qed

lemma list_stored_test:
  assumes "list_stored pr bv m"
  shows "list_usable pr" "list_test pr m v \<longleftrightarrow> unat v \<in> bv_set bv"
proof -
  have s: "bv_ok bv" "max_value bv < 2 ^ 32" "\<forall>j \<ge> max_value bv. \<not> sbit (bv_data bv) j" "list_size pr = max_value bv"
    "list_addr pr + 4 * length (bv_data bv) \<le> list_lim pr" "words_at (list_addr pr) (bv_data bv) m"
    using assms by (simp_all add: list_stored_def)
  have w: "list_words pr \<le> length (bv_data bv)" "max_value bv \<le> 32 * list_words pr" using s(1,4) by (simp_all add: list_words_def bv_ok_def)
  then show "list_usable pr" using s(2,4,5) by (simp add: list_usable_def)
  have "unat v < 32 * length (bv_data bv)" if "unat v div 32 < list_words pr"
    using that w(1) by (simp add: div_less_iff_less_mult mult.commute)
  moreover have "unat v div 32 < list_words pr" if "unat v < max_value bv"
    using that w(2) by (simp add: div_less_iff_less_mult mult.commute)
  moreover have "unat v < max_value bv" if "sbit (bv_data bv) (unat v)" using that s(3) not_less by blast
  ultimately show "list_test pr m v \<longleftrightarrow> unat v \<in> bv_set bv"
    using mbit_words [OF s(6)] by (auto simp: list_test_def bv_set_def not_less)
qed

lemma cpu_scans_correct:
  assumes "bc_ok bc" "value_counts bc < 2 ^ 32"
  shows "in_range_to_iv bc rng = Inr (map of_nat (filter (\<lambda>i. in_range rng (bc_value bc i)) [0..<value_counts bc]))"
    "bv_ok pv \<Longrightarrow> in_list_to_iv bc pv = Inr (map of_nat (filter (\<lambda>i. unat (bc_value bc i) \<in> bv_set pv) [0..<value_counts bc]))"
    "\<exists>bv. in_range_to_bv bc rng = Inr bv \<and> max_value bv = value_counts bc \<and>
       bv_set bv = set (filter (\<lambda>i. in_range rng (bc_value bc i)) [0..<value_counts bc])"
    "bv_ok pv \<Longrightarrow> \<exists>bv. in_list_to_bv bc pv = Inr bv \<and> max_value bv = value_counts bc \<and>
       bv_set bv = set (filter (\<lambda>i. unat (bc_value bc i) \<in> bv_set pv) [0..<value_counts bc])"
proof -
  obtain bv0 where b: "bit_vector_make (value_counts bc) = Inr bv0" "bv_ok bv0" "max_value bv0 = value_counts bc"
    "bv_data bv0 = replicate (length (bv_data bv0)) 0" using bit_vector_make_correct [of "value_counts bc"] assms(2) by auto
  have "bv_set bv0 = {}" unfolding bv_set_def by (subst b(4)) (simp add: sbit_def)
  then have bv: "\<exists>bv. bv_loop [0..<value_counts bc] test bc bv0 = Inr bv \<and> max_value bv = value_counts bc \<and>
      bv_set bv = set (filter (\<lambda>i. T (bc_value bc i)) [0..<value_counts bc])"
    if "\<And>v. test v = Inr (T v)" for test T using bv_loop_correct [OF assms(1) _ b(2,3), of "[0..<value_counts bc]" test T] that by auto
  show "\<exists>bv. in_range_to_bv bc rng = Inr bv \<and> max_value bv = value_counts bc \<and>
      bv_set bv = set (filter (\<lambda>i. in_range rng (bc_value bc i)) [0..<value_counts bc])"
    using bv [of "\<lambda>v. Inr (in_range rng v)" "in_range rng"] assms(2) b(1) by (simp add: in_range_to_bv_def scan_rows_def)
  show "in_range_to_iv bc rng = Inr (map of_nat (filter (\<lambda>i. in_range rng (bc_value bc i)) [0..<value_counts bc]))"
    using iv_loop_correct [OF assms(1), of "[0..<value_counts bc]" _ "in_range rng"] assms(2) by (simp add: in_range_to_iv_def scan_rows_def)
  assume pv: "bv_ok pv"
  show "\<exists>bv. in_list_to_bv bc pv = Inr bv \<and> max_value bv = value_counts bc \<and>
      bv_set bv = set (filter (\<lambda>i. unat (bc_value bc i) \<in> bv_set pv) [0..<value_counts bc])"
    using bv [of "\<lambda>v. contains pv (unat v)" "\<lambda>v. unat v \<in> bv_set pv"] contains_correct [OF pv] assms(2) b(1)
    by (simp add: in_list_to_bv_def scan_rows_def)
  show "in_list_to_iv bc pv = Inr (map of_nat (filter (\<lambda>i. unat (bc_value bc i) \<in> bv_set pv) [0..<value_counts bc]))"
    using iv_loop_correct [OF assms(1), of "[0..<value_counts bc]" "\<lambda>v. contains pv (unat v)" "\<lambda>v. unat v \<in> bv_set pv"]
      contains_correct [OF pv] assms(2) by (simp add: in_list_to_iv_def scan_rows_def)
qed

lemma stored_bc: "stored column bc m \<Longrightarrow> bc_ok bc \<and> value_counts bc < 2 ^ 32 \<and> col_size column = value_counts bc"
  by (simp add: stored_def)

lemma iv_holds_rows:
  assumes "stored column bc m" "iv_holds res b (filter (\<lambda>i. T (col_value column m i)) [0..<8 * col_blocks column]) m' k"
    "is' = map of_nat (filter (\<lambda>i. T (bc_value bc i)) [0..<value_counts bc])"
  shows "k = length (is' @ extra_rows column (T 0))" "words_at (out_addr res) (is' @ extra_rows column (T 0)) m'"
proof -
  have e: "map of_nat (filter (\<lambda>i. T (col_value column m i)) [0..<8 * col_blocks column]) = is' @ extra_rows column (T 0)"
    unfolding filter_padded [OF assms(1)] assms(3) extra_rows_def using stored_bc [OF assms(1)] by simp
  show "k = length (is' @ extra_rows column (T 0))" using assms(2) unfolding e [symmetric] by (simp add: iv_holds_def)
  show "words_at (out_addr res) (is' @ extra_rows column (T 0)) m'" using assms(2) unfolding e [symmetric] by (simp add: iv_holds_def words_at_def)
qed

lemma bv_holds_rows:
  assumes "stored column bc m" "bv_holds res b (filter (\<lambda>i. T (col_value column m i)) [0..<8 * col_blocks column]) m' k"
    "b = col_blocks column" "S = set (filter (\<lambda>i. T (bc_value bc i)) [0..<value_counts bc])" "i < value_counts bc"
  shows "mbit m' (8 * out_addr res + i) \<longleftrightarrow> i \<in> S"
proof -
  have "i < 8 * b" using stored_col(4) [OF assms(1)] assms(3,5) by simp
  then have "mbit m' (8 * out_addr res + i) \<longleftrightarrow> i \<in> set (filter (\<lambda>i. T (col_value column m i)) [0..<8 * col_blocks column])"
    using assms(2) by (simp add: bv_holds_def)
  also have "\<dots> \<longleftrightarrow> i \<in> S" unfolding filter_padded [OF assms(1)] assms(4) using assms(5) by simp
  finally show ?thesis .
qed

section \<open>The two versions agree\<close>

lemma range_test_column:
  assumes "stored column bc m" "range_start rng < 2 ^ 31" "range_end rng < 2 ^ 31"
  shows "range_test rng m (col_value column m i) = in_range rng (col_value column m i)"
proof -
  have "col_value column m i < 2 ^ 31" using stored_col(1) [OF assms(1)] by (intro col_value_small) (simp add: col_ok_def)
  then show ?thesis using assms(2,3) by (intro range_test_unsigned)
qed

text \<open>
  On a column stored in memory, the AVX2 index scan for a range with bounds below \<open>2 ^ 31\<close> writes
  the row numbers that the plain scan returns, in the same order, followed by the rows of the last
  block of eight that the column does not have whenever 0 lies in the range; it changes nothing
  outside its result.
\<close>

theorem avx2_range_indices:
  assumes "stored column bc m" "range_start rng < 2 ^ 31" "range_end rng < 2 ^ 31"
    "iv_fits res (col_blocks column)" "scan_room column {} (iv_area res (col_blocks column))"
  shows "\<exists>is' m'. in_range_to_iv bc rng = Inr is' \<and>
    scan_range_iv column rng res m = Inr (m', length (is' @ extra_rows column (in_range rng 0))) \<and>
    words_at (out_addr res) (is' @ extra_rows column (in_range rng 0)) m' \<and>
    (\<forall>x. x \<notin> iv_area res (col_blocks column) \<longrightarrow> m' x = m x)"
proof -
  obtain c m' k where c: "ConstantsSet (col_bits column) = Inr c"
    "scan_avx2_impl (apply_in_range rng) (store_indices res) c column m = Inr (m', k)"
    "iv_holds res (col_blocks column) (filter (\<lambda>i. range_test rng m (col_value column m i)) [0..<8 * col_blocks column]) m' k"
    "\<forall>x. x \<notin> iv_area res (col_blocks column) \<longrightarrow> m' x = m x"
    using range_iv.scan_correct [OF stored_col(1) [OF assms(1)], of res rng m] assms(4,5) by (auto simp: scan_room_def)
  show ?thesis using iv_holds_rows [OF assms(1) c(3) [unfolded range_test_column [OF assms(1-3)]] refl] c(1,2,4)
      cpu_scans_correct(1) [of bc rng] stored_bc [OF assms(1)] by (auto simp: scan_range_iv_def in_range_scan_impl_def)
qed

text \<open>
  C28: The AVX2 bit vector scan for a range with bounds below \<open>2 ^ 31\<close> sets, for every row of the
  column, the same bit as the plain scan and returns the number of mask bytes.
\<close>

theorem avx2_range_bits:
  assumes "stored column bc m" "range_start rng < 2 ^ 31" "range_end rng < 2 ^ 31"
    "bv_fits res (col_blocks column)" "scan_room column {} (bv_area res (col_blocks column))"
  shows "\<exists>bv m'. in_range_to_bv bc rng = Inr bv \<and> scan_range_bv column rng res m = Inr (m', col_blocks column) \<and>
    (\<forall>i < col_size column. mbit m' (8 * out_addr res + i) \<longleftrightarrow> i \<in> bv_set bv) \<and>
    (\<forall>x. x \<notin> bv_area res (col_blocks column) \<longrightarrow> m' x = m x)"
proof -
  obtain c m' k where c: "ConstantsSet (col_bits column) = Inr c"
    "scan_avx2_impl (apply_in_range rng) (store_bits res) c column m = Inr (m', k)"
    "bv_holds res (col_blocks column) (filter (\<lambda>i. range_test rng m (col_value column m i)) [0..<8 * col_blocks column]) m' k"
    "\<forall>x. x \<notin> bv_area res (col_blocks column) \<longrightarrow> m' x = m x"
    using range_bv.scan_correct [OF stored_col(1) [OF assms(1)], of res rng m] assms(4,5) by (auto simp: scan_room_def)
  obtain bv where bv: "in_range_to_bv bc rng = Inr bv" "bv_set bv = set (filter (\<lambda>i. in_range rng (bc_value bc i)) [0..<value_counts bc])"
    using cpu_scans_correct(3) [of bc rng] stored_bc [OF assms(1)] by auto
  show ?thesis using bv_holds_rows [OF assms(1) c(3) [unfolded range_test_column [OF assms(1-3)]] refl bv(2)] bv(1) c stored_bc [OF assms(1)]
    by (auto simp: scan_range_bv_def in_range_scan_impl_def bv_holds_def)
qed

text \<open>
  C29: On a column and a list of numbers stored in memory, the AVX2 index scan for the list writes the
  row numbers that the plain scan returns, in the same order, followed by the rows of the last block
  of eight that the column does not have whenever 0 is in the list.
\<close>

theorem avx2_list_indices:
  assumes "stored column bc m" "list_stored pr pv m"
    "iv_fits res (col_blocks column)" "scan_room column (list_reads pr) (iv_area res (col_blocks column))"
  shows "\<exists>is' m'. in_list_to_iv bc pv = Inr is' \<and>
    scan_list_iv column pr res m = Inr (m', length (is' @ extra_rows column (0 \<in> bv_set pv))) \<and>
    words_at (out_addr res) (is' @ extra_rows column (0 \<in> bv_set pv)) m' \<and>
    (\<forall>x. x \<notin> iv_area res (col_blocks column) \<longrightarrow> m' x = m x)"
proof -
  obtain c m' k where c: "ConstantsSet (col_bits column) = Inr c"
    "scan_avx2_impl (apply_in_list pr) (store_indices res) c column m = Inr (m', k)"
    "iv_holds res (col_blocks column) (filter (\<lambda>i. list_test pr m (col_value column m i)) [0..<8 * col_blocks column]) m' k"
    "\<forall>x. x \<notin> iv_area res (col_blocks column) \<longrightarrow> m' x = m x"
    using list_iv.scan_correct [OF stored_col(1) [OF assms(1)] list_stored_test(1) [OF assms(2)], of res m] assms(3,4) by (auto simp: scan_room_def)
  show ?thesis using iv_holds_rows [OF assms(1) c(3) [unfolded list_stored_test(2) [OF assms(2)]] refl] c(1,2,4)
      cpu_scans_correct(2) [of bc pv] stored_bc [OF assms(1)] assms(2) by (auto simp: scan_list_iv_def in_range_list_impl_def list_stored_def)
qed

text \<open>
  The AVX2 bit vector scan for a list of numbers sets, for every row of the column, the same bit
  as the plain scan and returns the number of mask bytes.
\<close>

theorem avx2_list_bits:
  assumes "stored column bc m" "list_stored pr pv m"
    "bv_fits res (col_blocks column)" "scan_room column (list_reads pr) (bv_area res (col_blocks column))"
  shows "\<exists>bv m'. in_list_to_bv bc pv = Inr bv \<and> scan_list_bv column pr res m = Inr (m', col_blocks column) \<and>
    (\<forall>i < col_size column. mbit m' (8 * out_addr res + i) \<longleftrightarrow> i \<in> bv_set bv) \<and>
    (\<forall>x. x \<notin> bv_area res (col_blocks column) \<longrightarrow> m' x = m x)"
proof -
  obtain c m' k where c: "ConstantsSet (col_bits column) = Inr c"
    "scan_avx2_impl (apply_in_list pr) (store_bits res) c column m = Inr (m', k)"
    "bv_holds res (col_blocks column) (filter (\<lambda>i. list_test pr m (col_value column m i)) [0..<8 * col_blocks column]) m' k"
    "\<forall>x. x \<notin> bv_area res (col_blocks column) \<longrightarrow> m' x = m x"
    using list_bv.scan_correct [OF stored_col(1) [OF assms(1)] list_stored_test(1) [OF assms(2)], of res m] assms(3,4) by (auto simp: scan_room_def)
  obtain bv where bv: "in_list_to_bv bc pv = Inr bv" "bv_set bv = set (filter (\<lambda>i. unat (bc_value bc i) \<in> bv_set pv) [0..<value_counts bc])"
    using cpu_scans_correct(4) [of bc pv] stored_bc [OF assms(1)] assms(2) by (auto simp: list_stored_def)
  show ?thesis using bv_holds_rows [OF assms(1) c(3) [unfolded list_stored_test(2) [OF assms(2)]] refl bv(2)] bv(1) c stored_bc [OF assms(1)]
    by (auto simp: scan_list_bv_def in_range_list_impl_def bv_holds_def)
qed

section \<open>A concrete scan\<close>

lemma sbit_single: "sbit (w # replicate k 0) j \<longleftrightarrow> j < 32 \<and> bit w j"
proof (cases "j < 32")
  case False
  then have "0 < j div 32" by (simp add: div_greater_zero_iff)
  then show ?thesis using False by (auto simp: sbit_def nth_Cons')
qed (simp add: sbit_def)

lemma ex_stored: "stored ex_column ex_bc ex_mem" "list_stored ex_pred ex_list ex_mem"
proof -
  have "\<forall>j \<ge> 12. \<not> sbit (bc_data ex_bc) j"
  proof (intro allI impI)
    fix j :: nat assume "12 \<le> j"
    moreover have "list_all (\<lambda>j. \<not> bit (0x395 :: u32) j) [12..<32]" by code_simp
    ultimately show "\<not> sbit (bc_data ex_bc) j" unfolding list_all_iff by (simp add: ex_bc_def sbit_single del: upt_rec_numeral)
  qed
  moreover have "list_all (\<lambda>j. load_le 4 ex_mem (4 * j) = (bc_data ex_bc ! j)) [0..<32]" by code_simp
  then have "words_at 0 (bc_data ex_bc) ex_mem" unfolding list_all_iff words_at_def by (simp add: ex_bc_def del: upt_rec_numeral)
  ultimately show "stored ex_column ex_bc ex_mem" by (simp add: stored_def ex_column_def bc_ok_def ex_bc_def mask_eq_exp_minus_1)
  have "\<forall>j \<ge> 10. \<not> sbit (bv_data ex_list) j"
  proof (intro allI impI)
    fix j :: nat assume "10 \<le> j"
    moreover have "list_all (\<lambda>j. \<not> bit (0x201 :: u32) j) [10..<32]" by code_simp
    ultimately show "\<not> sbit (bv_data ex_list) j"
      using sbit_single [of "0x201" 0 j] unfolding list_all_iff by (simp add: ex_list_def del: upt_rec_numeral)
  qed
  moreover have "load_le 4 ex_mem 128 = (0x201 :: u32)" by code_simp
  ultimately show "list_stored ex_pred ex_list ex_mem" by (simp add: list_stored_def ex_pred_def bv_ok_def ex_list_def words_at_def)
qed

lemma ex_room:
  "iv_fits ex_out (col_blocks ex_column)" "scan_room ex_column (list_reads ex_pred) (iv_area ex_out (col_blocks ex_column))"
  "scan_room ex_column {} (iv_area ex_out (col_blocks ex_column))"
  "bv_fits ex_out (col_blocks ex_column)" "scan_room ex_column (list_reads ex_pred) (bv_area ex_out (col_blocks ex_column))"
  "scan_room ex_column {} (bv_area ex_out (col_blocks ex_column))"
  by (auto simp: iv_fits_def bv_fits_def ex_out_def ex_column_def col_blocks_def scan_room_def iv_area_def bv_area_def
    col_area_def list_reads_def ex_pred_def list_words_def)

lemma ex_values: "map (bc_value ex_bc) [0..<3] = [5, 9, 3]"
  by code_simp

lemma ex_outcomes:
  "in_range_to_iv ex_bc \<lparr>range_start = 0, range_end = 5\<rparr> = Inr [0, 2]"
  "in_list_to_iv ex_bc ex_list = Inr [1]"
  "extra_rows ex_column True = [3, 4, 5, 6, 7]"
proof -
  have ok: "bc_ok ex_bc" "value_counts ex_bc < 2 ^ 32" "bv_ok ex_list" "value_counts ex_bc = 3" "[0..<3] = [0, 1, 2 :: nat]"
    using ex_stored by (simp_all add: stored_def list_stored_def ex_bc_def upt_rec)
  have v: "bc_value ex_bc 0 = 5" "bc_value ex_bc 1 = 9" "bc_value ex_bc 2 = 3" using ex_values unfolding ok(5) by simp_all
  have l: "9 \<in> bv_set ex_list" "5 \<notin> bv_set ex_list" "3 \<notin> bv_set ex_list"
    by (simp_all add: bv_set_def ex_list_def sbit_def)
  show "in_range_to_iv ex_bc \<lparr>range_start = 0, range_end = 5\<rparr> = Inr [0, 2]"
    unfolding cpu_scans_correct(1) [OF ok(1,2)] ok(4,5) by (simp only: filter.simps v list.map) (simp add: in_range_def)
  show "in_list_to_iv ex_bc ex_list = Inr [1]"
    unfolding cpu_scans_correct(2) [OF ok(1,2,3)] ok(4,5) using l by (simp only: filter.simps v list.map) simp
  show "extra_rows ex_column True = [3, 4, 5, 6, 7]" by (simp add: extra_rows_def ex_column_def col_blocks_def)
qed

text \<open>Rows 0 and 2 are in the range from 0 to 5; the vector scan also reports rows 3 to 7.\<close>

theorem avx2_range_indices_witness:
  "\<exists>m'. scan_range_iv ex_column \<lparr>range_start = 0, range_end = 5\<rparr> ex_out ex_mem = Inr (m', 7) \<and> words_at 132 [0, 2, 3, 4, 5, 6, 7] m'"
  using avx2_range_indices [OF ex_stored(1) _ _ ex_room(1,3), of "\<lparr>range_start = 0, range_end = 5\<rparr>"] ex_outcomes
  by (auto simp: in_range_def ex_out_def)

theorem avx2_range_bits_witness:
  "\<exists>m'. scan_range_bv ex_column \<lparr>range_start = 4, range_end = 9\<rparr> ex_out ex_mem = Inr (m', 1) \<and> (\<forall>x. x \<noteq> 132 \<longrightarrow> m' x = ex_mem x)"
  using avx2_range_bits [OF ex_stored(1) _ _ ex_room(4,6), of "\<lparr>range_start = 4, range_end = 9\<rparr>"]
  by (auto simp: ex_out_def col_blocks_def ex_column_def bv_area_def)

theorem avx2_list_indices_witness:
  "\<exists>m'. scan_list_iv ex_column ex_pred ex_out ex_mem = Inr (m', 6) \<and> words_at 132 [1, 3, 4, 5, 6, 7] m'"
proof -
  have "0 \<in> bv_set ex_list" by (simp add: bv_set_def ex_list_def sbit_def)
  then show ?thesis using avx2_list_indices [OF ex_stored ex_room(1,2)] ex_outcomes by (auto simp: ex_out_def)
qed

theorem avx2_list_bits_witness:
  "\<exists>m'. scan_list_bv ex_column ex_pred ex_out ex_mem = Inr (m', 1) \<and> (\<forall>x. x \<noteq> 132 \<longrightarrow> m' x = ex_mem x)"
  using avx2_list_bits [OF ex_stored ex_room(4,5)]
  by (auto simp: ex_out_def col_blocks_def ex_column_def bv_area_def)

end
