(* ===== verification/Device_Memory.thy ===== *)
theory Device_Memory
  imports Prelude "HOL-Library.Multiset"
begin

text \<open>
  Device memory as the host sees it: regions and their serialised form
  (\<open>core/memory/api/shared_region.cpp\<close>), the allocators that ask the kernel module for regions
  (\<open>core/memory/ranked_allocator.cpp\<close>, \<open>core/memory/sequential_allocator.cpp\<close>) and the ownership
  of regions by buffers (\<open>include/pnmlib/core/buffer.h\<close>). The kernel module is not part of the
  repository: its requests are functions on a state of any type, given as a parameter.
\<close>

section \<open>Regions\<close>

record SequentialRegion =
  reg_start :: u64
  reg_size :: u64
  reg_location :: "u8 option"
  reg_global :: u8

definition empty_region :: SequentialRegion where
  "empty_region = \<lparr>reg_start = 0, reg_size = 0, reg_location = None, reg_global = 0\<rparr>"

datatype DeviceRegion = Sequential SequentialRegion | Ranked "SequentialRegion list"

text \<open>\<open>std::get\<close> on the variant throws when the region is of the other kind.\<close>

definition get_sequential :: "DeviceRegion \<Rightarrow> SequentialRegion result" where
  "get_sequential r = (case r of Sequential s \<Rightarrow> Inr s | Ranked _ \<Rightarrow> Inl StdException)"

definition get_ranked :: "DeviceRegion \<Rightarrow> SequentialRegion list result" where
  "get_ranked r = (case r of Sequential _ \<Rightarrow> Inl StdException | Ranked rs \<Rightarrow> Inr rs)"

section \<open>Serialised regions\<close>

definition cunit_pos_in_serialized :: nat where
  "cunit_pos_in_serialized = 56"

definition max_amount_of_regions :: nat where
  "max_amount_of_regions = 256"

definition max_index_of_region :: u64 where
  "max_index_of_region = 255"

record SharedRegion =
  sr_region :: DeviceRegion
  serialized_region :: "u64 list"

definition serialize_sequential :: "SequentialRegion \<Rightarrow> u64" where
  "serialize_sequential r = reg_start r OR
     push_bit cunit_pos_in_serialized (case reg_location r of Some l \<Rightarrow> ucast l | None \<Rightarrow> max_index_of_region)"

definition deserialize_sequential :: "u64 \<Rightarrow> nat \<Rightarrow> SequentialRegion" where
  "deserialize_sequential s amount =
     (let tmp_location = drop_bit cunit_pos_in_serialized s;
          loc = (if tmp_location < max_index_of_region \<or> tmp_location = max_index_of_region \<and> amount = max_amount_of_regions
                 then Some (ucast tmp_location) else None) in
      empty_region\<lparr>reg_location := loc, reg_start := s AND NOT (push_bit cunit_pos_in_serialized tmp_location)\<rparr>)"

definition serialize :: "DeviceRegion \<Rightarrow> u64 list" where
  "serialize r = (case r of Sequential s \<Rightarrow> [serialize_sequential s] | Ranked rs \<Rightarrow> map serialize_sequential rs)"

definition deserialize :: "u64 list \<Rightarrow> DeviceRegion" where
  "deserialize s = (if 1 < length s then Ranked (map (\<lambda>b. deserialize_sequential b (length s)) s)
     else Sequential (deserialize_sequential (hd s) (length s)))"

definition SharedRegion_of_region :: "DeviceRegion \<Rightarrow> SharedRegion" where
  "SharedRegion_of_region r = \<lparr>sr_region = r, serialized_region = serialize r\<rparr>"

definition SharedRegion_of_serialized :: "u64 list \<Rightarrow> SharedRegion result" where
  "SharedRegion_of_serialized s =
     (if s = [] then Inl (Throw InvalidArguments) else Inr \<lparr>sr_region = deserialize s, serialized_region = s\<rparr>)"

section \<open>Properties of an allocation\<close>

datatype PropertiesTypes = MEM_ALLOCATION_POLICY | MEM_LOCATION

text \<open>Both properties hold one number: the policy and the compute unit.\<close>

type_synonym PropertiesList = "PropertiesTypes \<rightharpoonup> u32"

definition add_property :: "PropertiesTypes \<Rightarrow> u32 \<Rightarrow> PropertiesList \<Rightarrow> PropertiesList" where
  "add_property t v props = props(t \<mapsto> v)"

definition has_property :: "PropertiesTypes \<Rightarrow> PropertiesList \<Rightarrow> bool" where
  "has_property t props \<longleftrightarrow> props t \<noteq> None"

definition get_property :: "PropertiesTypes \<Rightarrow> PropertiesList \<Rightarrow> u32 result" where
  "get_property t props = (case props t of Some v \<Rightarrow> Inr v | None \<Rightarrow> Inl StdException)"

section \<open>The kernel module\<close>

record pnm_allocation =
  pa_addr :: u64
  pa_size :: u64
  memory_pool :: u8
  is_global :: u8

text \<open>The requests: a request fails with an error number or is answered by an updated structure.\<close>

record 'k kernel_ops =
  k_allocate :: "pnm_allocation \<Rightarrow> 'k \<Rightarrow> (int + pnm_allocation) \<times> 'k"
  k_deallocate :: "pnm_allocation \<Rightarrow> 'k \<Rightarrow> (int + unit) \<times> 'k"
  k_make_shared :: "pnm_allocation \<Rightarrow> 'k \<Rightarrow> (int + pnm_allocation) \<times> 'k"
  k_get_shared :: "pnm_allocation \<Rightarrow> 'k \<Rightarrow> (int + pnm_allocation) \<times> 'k"

text \<open>The constants of the module's header.\<close>

record alloc_consts =
  SLS_ALLOC_AUTO :: u32
  SLS_ALLOC_SINGLE :: u32
  SLS_ALLOC_REPLICATE_ALL :: u32
  SLS_ALLOC_DISTRIBUTE_ALL :: u32
  SLS_ALLOC_ANY_CUNIT :: u8

text \<open>The error numbers of Linux.\<close>

definition throw_from_errno :: "int \<Rightarrow> fault" where
  "throw_from_errno err = Throw
     (if err = 22 then InvalidArguments else if err = 12 then OutOfMemory else if err = 5 then IO else Failure)"

text \<open>An action on the kernel's state that may throw.\<close>

type_synonym ('k, 'a) kact = "'k \<Rightarrow> 'a result \<times> 'k"

definition bind_k :: "('k, 'a) kact \<Rightarrow> ('a \<Rightarrow> ('k, 'b) kact) \<Rightarrow> ('k, 'b) kact" where
  "bind_k a f k = (case a k of (Inl e, k') \<Rightarrow> (Inl e, k') | (Inr x, k') \<Rightarrow> f x k')"

definition lift_k :: "'a result \<Rightarrow> ('k, 'a) kact" where
  "lift_k r k = (r, k)"

definition request :: "(pnm_allocation \<Rightarrow> 'k \<Rightarrow> (int + 'a) \<times> 'k) \<Rightarrow> pnm_allocation \<Rightarrow> (int \<Rightarrow> fault) \<Rightarrow> ('k, 'a) kact" where
  "request cmd req err k = (case cmd req k of (Inl n, k') \<Rightarrow> (Inl (err n), k') | (Inr r, k') \<Rightarrow> (Inr r, k'))"

definition region_of :: "pnm_allocation \<Rightarrow> SequentialRegion" where
  "region_of r = \<lparr>reg_start = pa_addr r, reg_size = pa_size r, reg_location = Some (memory_pool r), reg_global = is_global r\<rparr>"

definition request_of :: "SequentialRegion \<Rightarrow> u8 \<Rightarrow> pnm_allocation" where
  "request_of s pool = \<lparr>pa_addr = reg_start s, pa_size = reg_size s, memory_pool = pool, is_global = reg_global s\<rparr>"

section \<open>The ranked allocator\<close>

definition allocate_ioctl :: "alloc_consts \<Rightarrow> 'k kernel_ops \<Rightarrow> u64 \<Rightarrow> u8 option \<Rightarrow> ('k, SequentialRegion) kact" where
  "allocate_ioctl C K sz cunit =
     bind_k (request (k_allocate K)
       \<lparr>pa_addr = 0, pa_size = sz, memory_pool = (case cunit of Some c \<Rightarrow> c | None \<Rightarrow> SLS_ALLOC_ANY_CUNIT C), is_global = 0\<rparr> throw_from_errno)
       (\<lambda>r. lift_k (Inr ((region_of r)\<lparr>reg_size := sz\<rparr>)))"

definition deallocate_ioctl :: "'k kernel_ops \<Rightarrow> SequentialRegion \<Rightarrow> ('k, unit) kact" where
  "deallocate_ioctl K s =
     (case reg_location s of None \<Rightarrow> lift_k (Inl StdException)
      | Some pool \<Rightarrow> request (k_deallocate K) (request_of s pool) throw_from_errno)"

text \<open>Writing past the vector of regions is undefined.\<close>

definition store_region :: "SequentialRegion list \<Rightarrow> SequentialRegion \<Rightarrow> SequentialRegion list result" where
  "store_region rs s =
     (case reg_location s of None \<Rightarrow> Inl Undefined
      | Some l \<Rightarrow> if unat l < length rs then Inr (rs[unat l := s]) else Inl Undefined)"

definition allocate_single ::
  "alloc_consts \<Rightarrow> 'k kernel_ops \<Rightarrow> u64 \<Rightarrow> PropertiesList \<Rightarrow> SequentialRegion list \<Rightarrow> ('k, SequentialRegion list) kact" where
  "allocate_single C K sz props rs =
     bind_k (allocate_ioctl C K sz (map_option ucast (props MEM_LOCATION))) (\<lambda>s. lift_k (store_region rs s))"

primrec deallocate_regions :: "'k kernel_ops \<Rightarrow> SequentialRegion list \<Rightarrow> ('k, unit) kact" where
  "deallocate_regions K [] = lift_k (Inr ())"
| "deallocate_regions K (s # rs) =
     (if 0 < reg_size s then bind_k (deallocate_ioctl K s) (\<lambda>_. deallocate_regions K rs) else deallocate_regions K rs)"

definition ranked_deallocate :: "'k kernel_ops \<Rightarrow> DeviceRegion \<Rightarrow> ('k, unit) kact" where
  "ranked_deallocate K r = bind_k (lift_k (get_ranked r)) (deallocate_regions K)"

text \<open>
  The loop counts the ranks in 8 bits, so it may not end; an exception releases what was allocated
  before it is passed on.
\<close>

definition release_and_throw :: "'k kernel_ops \<Rightarrow> SequentialRegion list \<Rightarrow> fault \<Rightarrow> ('k, 'a) kact" where
  "release_and_throw K rs e = bind_k (deallocate_regions K rs) (\<lambda>_. lift_k (Inl e))"

partial_function (option) replicate_loop ::
  "alloc_consts \<Rightarrow> 'k kernel_ops \<Rightarrow> u64 \<Rightarrow> nat \<Rightarrow> u8 \<Rightarrow> SequentialRegion list \<Rightarrow> 'k \<Rightarrow>
   (SequentialRegion list result \<times> 'k) option" where
  "replicate_loop C K sz regions_count rank rs k =
     (if unat rank < regions_count then
        (case allocate_ioctl C K sz (Some rank) k of
           (Inl e, k') \<Rightarrow> Some (release_and_throw K rs e k')
         | (Inr s, k') \<Rightarrow> (case store_region rs s of
             Inl e \<Rightarrow> Some (Inl e, k') | Inr rs' \<Rightarrow> replicate_loop C K sz regions_count (rank + 1) rs' k'))
      else Some (Inr rs, k))"

definition allocate_replicate_all ::
  "alloc_consts \<Rightarrow> 'k kernel_ops \<Rightarrow> nat \<Rightarrow> u64 \<Rightarrow> PropertiesList \<Rightarrow> SequentialRegion list \<Rightarrow> ('k, SequentialRegion list) kact" where
  "allocate_replicate_all C K regions_count sz props rs k =
     (if has_property MEM_LOCATION props then (Inl (Throw InvalidArguments), k)
      else (case replicate_loop C K sz regions_count 0 rs k of Some r \<Rightarrow> r | None \<Rightarrow> (Inl Blocked, k)))"

definition ranked_allocate ::
  "alloc_consts \<Rightarrow> 'k kernel_ops \<Rightarrow> nat \<Rightarrow> u64 \<Rightarrow> PropertiesList \<Rightarrow> ('k, DeviceRegion) kact" where
  "ranked_allocate C K regions_count sz props =
     (let rs = replicate regions_count empty_region;
          policy = (case props MEM_ALLOCATION_POLICY of Some p \<Rightarrow> p | None \<Rightarrow> SLS_ALLOC_AUTO C) in
      if policy = SLS_ALLOC_AUTO C \<or> policy = SLS_ALLOC_SINGLE C
      then bind_k (allocate_single C K sz props rs) (\<lambda>rs. lift_k (Inr (Ranked rs)))
      else if policy = SLS_ALLOC_REPLICATE_ALL C
      then bind_k (allocate_replicate_all C K regions_count sz props rs) (\<lambda>rs. lift_k (Inr (Ranked rs)))
      else if policy = SLS_ALLOC_DISTRIBUTE_ALL C then lift_k (Inl (Throw NotSupported))
      else lift_k (Inl (Throw InvalidArguments)))"

type_synonym 'k share_cmd = "pnm_allocation \<Rightarrow> 'k \<Rightarrow> (int + pnm_allocation) \<times> 'k"

primrec share_regions :: "'k share_cmd \<Rightarrow> SequentialRegion list \<Rightarrow> ('k, SequentialRegion list) kact" where
  "share_regions cmd [] = lift_k (Inr [])"
| "share_regions cmd (s # rs) =
     bind_k (case reg_location s of None \<Rightarrow> lift_k (Inr empty_region)
             | Some l \<Rightarrow> bind_k (request cmd (request_of s l) throw_from_errno) (\<lambda>r. lift_k (Inr (region_of r))))
       (\<lambda>s'. bind_k (share_regions cmd rs) (\<lambda>rs'. lift_k (Inr (s' # rs'))))"

definition ranked_sharing_ioctl :: "'k share_cmd \<Rightarrow> DeviceRegion \<Rightarrow> ('k, DeviceRegion) kact" where
  "ranked_sharing_ioctl cmd r =
     bind_k (lift_k (get_ranked r)) (\<lambda>rs. bind_k (share_regions cmd rs) (\<lambda>rs'. lift_k (Inr (Ranked rs'))))"

definition ranked_share_region :: "'k kernel_ops \<Rightarrow> DeviceRegion \<Rightarrow> ('k, DeviceRegion) kact" where
  "ranked_share_region K r = ranked_sharing_ioctl (k_make_shared K) r"

definition ranked_get_shared_alloc :: "'k kernel_ops \<Rightarrow> DeviceRegion \<Rightarrow> ('k, DeviceRegion) kact" where
  "ranked_get_shared_alloc K r = ranked_sharing_ioctl (k_get_shared K) r"

section \<open>The sequential allocator\<close>

definition get_alloc_preference :: "u32 \<Rightarrow> PropertiesList \<Rightarrow> u8 result" where
  "get_alloc_preference num_of_ranks props =
     assert_r (\<not> has_property MEM_ALLOCATION_POLICY props)
       (if has_property MEM_LOCATION props
        then bind_r (get_property MEM_LOCATION props) (\<lambda>c. Inr (ucast c)) else Inr (ucast num_of_ranks))"

definition sequential_allocate :: "u32 \<Rightarrow> 'k kernel_ops \<Rightarrow> u64 \<Rightarrow> PropertiesList \<Rightarrow> ('k, DeviceRegion) kact" where
  "sequential_allocate num_of_ranks K sz props =
     bind_k (lift_k (get_alloc_preference num_of_ranks props)) (\<lambda>pool.
     bind_k (request (k_allocate K) \<lparr>pa_addr = 0, pa_size = sz, memory_pool = pool, is_global = 0\<rparr> (\<lambda>_. Throw OutOfMemory)) (\<lambda>r.
       lift_k (Inr (Sequential (region_of r)))))"

definition sequential_deallocate :: "'k kernel_ops \<Rightarrow> DeviceRegion \<Rightarrow> ('k, unit) kact" where
  "sequential_deallocate K r =
     bind_k (lift_k (get_sequential r)) (\<lambda>s.
       case reg_location s of None \<Rightarrow> lift_k (Inl StdException)
       | Some pool \<Rightarrow> request (k_deallocate K) (request_of s pool) (\<lambda>_. Throw Failure))"

definition sequential_sharing_ioctl :: "'k share_cmd \<Rightarrow> DeviceRegion \<Rightarrow> ('k, DeviceRegion) kact" where
  "sequential_sharing_ioctl cmd r =
     bind_k (lift_k (get_sequential r)) (\<lambda>s.
       case reg_location s of None \<Rightarrow> lift_k (Inl (Throw Failure))
       | Some pool \<Rightarrow> bind_k (request cmd (request_of s pool) (\<lambda>_. Throw Failure)) (\<lambda>r. lift_k (Inr (Sequential (region_of r)))))"

definition sequential_share_region :: "'k kernel_ops \<Rightarrow> DeviceRegion \<Rightarrow> ('k, DeviceRegion) kact" where
  "sequential_share_region K r = sequential_sharing_ioctl (k_make_shared K) r"

definition sequential_get_shared_alloc :: "'k kernel_ops \<Rightarrow> DeviceRegion \<Rightarrow> ('k, DeviceRegion) kact" where
  "sequential_get_shared_alloc K r = sequential_sharing_ioctl (k_get_shared K) r"

section \<open>The allocator of a context\<close>

text \<open>The two allocators with the size of their topology: compute units, and ranks of the database device.\<close>

datatype Allocator = RankedAllocator nat | SequentialAllocator u32

definition allocate :: "alloc_consts \<Rightarrow> 'k kernel_ops \<Rightarrow> Allocator \<Rightarrow> u64 \<Rightarrow> PropertiesList \<Rightarrow> ('k, DeviceRegion) kact" where
  "allocate C K A sz props =
     (case A of RankedAllocator n \<Rightarrow> ranked_allocate C K n sz props | SequentialAllocator n \<Rightarrow> sequential_allocate n K sz props)"

definition deallocate :: "'k kernel_ops \<Rightarrow> Allocator \<Rightarrow> DeviceRegion \<Rightarrow> ('k, unit) kact" where
  "deallocate K A r = (case A of RankedAllocator _ \<Rightarrow> ranked_deallocate K r | SequentialAllocator _ \<Rightarrow> sequential_deallocate K r)"

definition share_region :: "'k kernel_ops \<Rightarrow> Allocator \<Rightarrow> DeviceRegion \<Rightarrow> ('k, DeviceRegion) kact" where
  "share_region K A r = (case A of RankedAllocator _ \<Rightarrow> ranked_share_region K r | SequentialAllocator _ \<Rightarrow> sequential_share_region K r)"

definition get_shared_alloc :: "'k kernel_ops \<Rightarrow> Allocator \<Rightarrow> DeviceRegion \<Rightarrow> ('k, DeviceRegion) kact" where
  "get_shared_alloc K A r =
     (case A of RankedAllocator _ \<Rightarrow> ranked_get_shared_alloc K r | SequentialAllocator _ \<Rightarrow> sequential_get_shared_alloc K r)"

section \<open>Buffers\<close>

record DeviceRegionWrapper =
  dr_value :: DeviceRegion
  owner_process_id :: int
  dr_owned :: bool
  dr_is_global :: bool

text \<open>
  Of its context a buffer uses the allocator; no context is \<open>None\<close>. The user range is an address of
  host memory with a number of elements.
\<close>

record Buffer =
  buf_context :: "Allocator option"
  user_range :: "nat \<times> nat"
  offloaded :: bool
  buf_props :: PropertiesList
  buf_size :: u64
  dev_region :: DeviceRegionWrapper

definition DeviceRegionSizeVisitor :: "DeviceRegion \<Rightarrow> u64" where
  "DeviceRegionSizeVisitor r = (case r of Sequential s \<Rightarrow> reg_size s | Ranked rs \<Rightarrow> (case rs of [] \<Rightarrow> 0 | s # _ \<Rightarrow> reg_size s))"

definition default_wrapper :: "int \<Rightarrow> DeviceRegionWrapper" where
  "default_wrapper pid = \<lparr>dr_value = Sequential empty_region, owner_process_id = pid, dr_owned = True, dr_is_global = False\<rparr>"

text \<open>The default constructor leaves the size as it is in memory.\<close>

definition Buffer_default :: "int \<Rightarrow> u64 \<Rightarrow> Buffer" where
  "Buffer_default pid n = \<lparr>buf_context = None, user_range = (0, 0), offloaded = False, buf_props = Map.empty, buf_size = n,
     dev_region = default_wrapper pid\<rparr>"

text \<open>
  The constructors for an element type of \<open>st\<close> bytes in process \<open>pid\<close>. The context is used before it
  is compared with the null pointer.
\<close>

definition Buffer_make ::
  "alloc_consts \<Rightarrow> 'k kernel_ops \<Rightarrow> int \<Rightarrow> u64 \<Rightarrow> u64 \<Rightarrow> Allocator option \<Rightarrow> PropertiesList \<Rightarrow> ('k, Buffer) kact" where
  "Buffer_make C K pid st n context props =
     (case context of None \<Rightarrow> lift_k (Inl Undefined)
      | Some A \<Rightarrow> bind_k (allocate C K A (n * st) props) (\<lambda>r.
          lift_k (Inr \<lparr>buf_context = context, user_range = (0, 0), offloaded = False, buf_props = props, buf_size = n,
            dev_region = (default_wrapper pid)\<lparr>dr_value := r\<rparr>\<rparr>)))"

definition Buffer_of_region :: "u64 \<Rightarrow> DeviceRegion \<Rightarrow> Allocator option \<Rightarrow> PropertiesList \<Rightarrow> Buffer" where
  "Buffer_of_region st r context props =
     \<lparr>buf_context = context, user_range = (0, 0), offloaded = False, buf_props = props, buf_size = DeviceRegionSizeVisitor r div st,
      dev_region = \<lparr>dr_value = r, owner_process_id = - 1, dr_owned = False, dr_is_global = False\<rparr>\<rparr>"

definition Buffer_of_shared :: "'k kernel_ops \<Rightarrow> u64 \<Rightarrow> SharedRegion \<Rightarrow> Allocator option \<Rightarrow> PropertiesList \<Rightarrow> ('k, Buffer) kact" where
  "Buffer_of_shared K st shared context props =
     (case context of None \<Rightarrow> lift_k (Inl Undefined)
      | Some A \<Rightarrow> bind_k (get_shared_alloc K A (sr_region shared)) (\<lambda>r.
          lift_k (Inr \<lparr>buf_context = context, user_range = (0, 0), offloaded = False, buf_props = props,
            buf_size = DeviceRegionSizeVisitor r div st,
            dev_region = \<lparr>dr_value = r, owner_process_id = - 1, dr_owned = False, dr_is_global = True\<rparr>\<rparr>)))"

text \<open>Moving gives the new buffer and what is left of the old one.\<close>

definition moved_from :: "int \<Rightarrow> Buffer \<Rightarrow> Buffer" where
  "moved_from pid b = b\<lparr>buf_context := None, user_range := (0, 0), buf_props := Map.empty, dev_region := default_wrapper pid\<rparr>"

definition Buffer_move :: "int \<Rightarrow> Buffer \<Rightarrow> Buffer \<times> Buffer" where
  "Buffer_move pid other = (other, moved_from pid other)"

text \<open>
  Library exceptions are swallowed when a region is released; any other exception ends the program,
  since the function is \<open>noexcept\<close>.
\<close>

definition release :: "'k kernel_ops \<Rightarrow> Buffer \<Rightarrow> ('k, unit) kact" where
  "release K b k =
     (case buf_context b of None \<Rightarrow> (Inr (), k)
      | Some A \<Rightarrow> (case deallocate K A (dr_value (dev_region b)) k of
          (Inl (Throw e), k') \<Rightarrow> (Inr (), k') | r \<Rightarrow> r))"

definition Buffer_destroy :: "'k kernel_ops \<Rightarrow> int \<Rightarrow> Buffer \<Rightarrow> ('k, unit) kact" where
  "Buffer_destroy K pid b =
     (if dr_owned (dev_region b) \<and> owner_process_id (dev_region b) = pid \<or> dr_is_global (dev_region b)
      then release K b else lift_k (Inr ()))"

definition Buffer_assign :: "'k kernel_ops \<Rightarrow> int \<Rightarrow> Buffer \<Rightarrow> Buffer \<Rightarrow> ('k, Buffer \<times> Buffer) kact" where
  "Buffer_assign K pid this other = bind_k (release K this) (\<lambda>_. lift_k (Inr (Buffer_move pid other)))"

definition bind_user_region :: "nat \<times> nat \<Rightarrow> Buffer \<Rightarrow> Buffer result" where
  "bind_user_region rng b =
     (if (of_nat (snd rng) :: u64) \<noteq> buf_size b then Inl (Throw InvalidArguments)
      else Inr (b\<lparr>user_range := rng, offloaded := False\<rparr>))"

definition make_shared :: "'k kernel_ops \<Rightarrow> Buffer \<Rightarrow> ('k, SharedRegion \<times> Buffer) kact" where
  "make_shared K b =
     (if dr_is_global (dev_region b) then lift_k (Inr (SharedRegion_of_region (dr_value (dev_region b)), b))
      else case buf_context b of None \<Rightarrow> lift_k (Inl Undefined)
      | Some A \<Rightarrow> bind_k (share_region K A (dr_value (dev_region b))) (\<lambda>r.
          lift_k (Inr (SharedRegion_of_region r, b\<lparr>dev_region := (dev_region b)\<lparr>dr_value := r, dr_is_global := True\<rparr>\<rparr>))))"

section \<open>Specification of the kernel module\<close>

text \<open>
  What the allocators rely on: the module keeps a collection of live allocations; an allocation has the
  requested size, lies in the requested pool unless any pool will do, and becomes live; a failed one
  changes nothing; a live allocation can be released.
\<close>

definition pool_ok :: "u8 \<Rightarrow> 'k kernel_ops \<Rightarrow> ('k \<Rightarrow> pnm_allocation multiset) \<Rightarrow> bool" where
  "pool_ok any K live \<longleftrightarrow>
     (\<forall>req k. case k_allocate K req k of (Inl _, k') \<Rightarrow> live k' = live k
        | (Inr r, k') \<Rightarrow> pa_size r = pa_size req \<and> (memory_pool req \<noteq> any \<longrightarrow> memory_pool r = memory_pool req) \<and>
            live k' = add_mset r (live k)) \<and>
     (\<forall>r k. r \<in># live k \<longrightarrow> (\<exists>k'. k_deallocate K r k = (Inr (), k') \<and> live k' = live k - {#r#}))"

definition consts_ok :: "alloc_consts \<Rightarrow> bool" where
  "consts_ok C \<longleftrightarrow> distinct [SLS_ALLOC_AUTO C, SLS_ALLOC_SINGLE C, SLS_ALLOC_REPLICATE_ALL C, SLS_ALLOC_DISTRIBUTE_ALL C]"

text \<open>The allocations that a list of regions stands for.\<close>

definition live_regions :: "SequentialRegion list \<Rightarrow> pnm_allocation multiset" where
  "live_regions rs = mset (map (\<lambda>s. request_of s (the (reg_location s))) (filter (\<lambda>s. 0 < reg_size s) rs))"

text \<open>The first ranks hold a region of the given size, the others none.\<close>

definition filled :: "u64 \<Rightarrow> nat \<Rightarrow> SequentialRegion list \<Rightarrow> bool" where
  "filled sz n rs \<longleftrightarrow> (\<forall>i < length rs. if i < n then reg_location (rs ! i) = Some (of_nat i) \<and> reg_size (rs ! i) = sz
     else rs ! i = empty_region)"

text \<open>What survives serialisation in a list of a given number of regions.\<close>

definition serializable :: "nat \<Rightarrow> SequentialRegion \<Rightarrow> bool" where
  "serializable n s \<longleftrightarrow> reg_start s < 2 ^ 56 \<and> (n = max_amount_of_regions \<longrightarrow> reg_location s \<noteq> None) \<and>
     (n \<noteq> max_amount_of_regions \<longrightarrow> reg_location s \<noteq> Some 255)"

text \<open>A module that keeps a list of at most \<open>cap\<close> allocations of 4 KB slots.\<close>

definition ex_kernel :: "nat \<Rightarrow> pnm_allocation list kernel_ops" where
  "ex_kernel cap =
     \<lparr>k_allocate = (\<lambda>req k. if length k < cap
        then (let r = req\<lparr>pa_addr := of_nat (4096 * length k), memory_pool := (if memory_pool req = 255 then 0 else memory_pool req)\<rparr> in (Inr r, r # k))
        else (Inl 12, k)),
      k_deallocate = (\<lambda>r k. if r \<in> set k then (Inr (), remove1 r k) else (Inl 22, k)),
      k_make_shared = (\<lambda>r k. (Inr (r\<lparr>is_global := 1\<rparr>), k)),
      k_get_shared = (\<lambda>r k. (Inr r, k))\<rparr>"

definition ex_consts :: alloc_consts where
  "ex_consts = \<lparr>SLS_ALLOC_AUTO = 0, SLS_ALLOC_SINGLE = 1, SLS_ALLOC_REPLICATE_ALL = 2, SLS_ALLOC_DISTRIBUTE_ALL = 3,
     SLS_ALLOC_ANY_CUNIT = 255\<rparr>"

text \<open>
  A region is of the kind of its allocator, and has a location wherever it has a size; a buffer without
  a context holds nothing.
\<close>

definition of_kind :: "Allocator \<Rightarrow> DeviceRegion \<Rightarrow> bool" where
  "of_kind A r \<longleftrightarrow>
     (case A of RankedAllocator _ \<Rightarrow> (case r of Ranked rs \<Rightarrow> \<forall>s \<in> set rs. 0 < reg_size s \<longrightarrow> reg_location s \<noteq> None | _ \<Rightarrow> False)
      | SequentialAllocator _ \<Rightarrow> (case r of Sequential s \<Rightarrow> reg_location s \<noteq> None | _ \<Rightarrow> False))"

definition typed :: "Buffer \<Rightarrow> bool" where
  "typed b \<longleftrightarrow> (case buf_context b of None \<Rightarrow> True | Some A \<Rightarrow> of_kind A (dr_value (dev_region b)))"

text \<open>
  The buffers a program can have: from every constructor, by moving and assigning them, where both operands
  stay buffers, binding user memory, copying it to the device, and sharing. A region that the caller passes
  is of the kind of the context's allocator, which the constructor does not check.
\<close>

inductive obtained :: "'k kernel_ops \<Rightarrow> Buffer \<Rightarrow> bool" for K where
  empty: "obtained K (Buffer_default pid n)"
| made: "Buffer_make C K pid st n context props k = (Inr b, k') \<Longrightarrow> obtained K b"
| region: "(\<And>A. context = Some A \<Longrightarrow> of_kind A r) \<Longrightarrow> obtained K (Buffer_of_region st r context props)"
| opened: "Buffer_of_shared K st shared context props k = (Inr b, k') \<Longrightarrow> obtained K b"
| move_to: "obtained K b \<Longrightarrow> obtained K (fst (Buffer_move pid b))"
| move_from: "obtained K b \<Longrightarrow> obtained K (snd (Buffer_move pid b))"
| assign_to: "obtained K b \<Longrightarrow> obtained K c \<Longrightarrow> Buffer_assign K pid b c k = (Inr (b', c'), k') \<Longrightarrow> obtained K b'"
| assign_from: "obtained K b \<Longrightarrow> obtained K c \<Longrightarrow> Buffer_assign K pid b c k = (Inr (b', c'), k') \<Longrightarrow> obtained K c'"
| bound: "obtained K b \<Longrightarrow> bind_user_region rng b = Inr b' \<Longrightarrow> obtained K b'"
| copied: "obtained K b \<Longrightarrow> obtained K (b\<lparr>user_range := rng, offloaded := True\<rparr>)"
| shared: "obtained K b \<Longrightarrow> make_shared K b k = (Inr (sr, b'), k') \<Longrightarrow> obtained K b'"

definition located_list :: "SequentialRegion list \<Rightarrow> bool" where
  "located_list rs \<longleftrightarrow> (\<forall>s \<in> set rs. 0 < reg_size s \<longrightarrow> reg_location s \<noteq> None)"

section \<open>Lemmas on serialised regions\<close>

lemma byte_bound: "unat (l :: u8) < 256" "unat (ucast l :: u64) = unat l" "ucast (ucast l :: u64) = l"
proof -
  show 1: "unat l < 256" using unsigned_less [of l] by simp
  then show 2: "unat (ucast l :: u64) = unat l" by (simp add: unsigned_ucast_eq take_bit_nat_eq_self)
  show "ucast (ucast l :: u64) = l" by (rule bit_word_eqI) (auto simp: bit_simps)
qed

lemma serialize_fields:
  assumes "reg_start s < 2 ^ 56"
  defines "l \<equiv> (case reg_location s of Some l \<Rightarrow> ucast l | None \<Rightarrow> 255) :: u64"
  shows "drop_bit 56 (serialize_sequential s) = l" "serialize_sequential s AND NOT (push_bit 56 l) = reg_start s"
proof -
  have b: "bit (reg_start s) n \<longrightarrow> n < 56" for n using assms(1) less_exp_bit_iff [of 56 "reg_start s"] by simp
  have "l < 2 ^ 8"
  proof (cases "reg_location s")
    case (Some x)
    then show ?thesis using byte_bound [of x] by (simp add: l_def word_less_nat_alt)
  qed (simp add: l_def)
  then have l: "bit l n \<longrightarrow> n < 8" for n using less_exp_bit_iff [of 8 l] by simp
  have s: "serialize_sequential s = reg_start s OR push_bit 56 l"
    unfolding serialize_sequential_def l_def cunit_pos_in_serialized_def max_index_of_region_def by simp
  show "drop_bit 56 (serialize_sequential s) = l"
    unfolding s by (rule bit_word_eqI) (use b l in \<open>auto simp: bit_simps dest: bit_imp_le_length\<close>)
  show "serialize_sequential s AND NOT (push_bit 56 l) = reg_start s"
    unfolding s by (rule bit_word_eqI) (use b l in \<open>auto simp: bit_simps not_less [symmetric]\<close>)
qed

lemma deserialize_serialize:
  assumes "serializable n s"
  shows "deserialize_sequential (serialize_sequential s) n = s\<lparr>reg_size := 0, reg_global := 0\<rparr>"
proof -
  have st: "reg_start s < 2 ^ 56" using assms by (simp add: serializable_def)
  have lt: "(ucast l :: u64) < 255" if "l \<noteq> 255" for l :: u8
  proof -
    have "unat l \<noteq> 255" using that by (metis of_nat_numeral of_nat_unat ucast_id)
    then show ?thesis using byte_bound [of l] by (simp add: word_less_nat_alt)
  qed
  have eq: "(ucast l :: u64) < 255 \<or> (ucast l :: u64) = 255" for l :: u8 using lt by (cases "l = 255") simp_all
  show ?thesis using assms lt eq byte_bound(3) serialize_fields [OF st]
    by (cases "reg_location s") (auto simp: deserialize_sequential_def serializable_def Let_def empty_region_def
      cunit_pos_in_serialized_def max_index_of_region_def max_amount_of_regions_def)
qed

section \<open>Lemmas on allocation\<close>

lemmas kact_defs = bind_k_def lift_k_def request_def

lemma pool_okD:
  assumes "pool_ok any K live"
  shows "k_allocate K req k = (Inl e, k') \<Longrightarrow> live k' = live k"
    "k_allocate K req k = (Inr r, k') \<Longrightarrow> pa_size r = pa_size req \<and> live k' = add_mset r (live k) \<and>
       (memory_pool req \<noteq> any \<longrightarrow> memory_pool r = memory_pool req)"
    "r \<in># live k \<Longrightarrow> \<exists>k'. k_deallocate K r k = (Inr (), k') \<and> live k' = live k - {#r#}"
  using assms unfolding pool_ok_def by (metis (mono_tags, lifting) case_prod_conv sum.case)+

lemma live_regions_simps [simp]:
  "live_regions [] = {#}"
  "live_regions (s # rs) = (if 0 < reg_size s then {#request_of s (the (reg_location s))#} else {#}) + live_regions rs"
  "live_regions (rs @ rs') = live_regions rs + live_regions rs'"
  by (simp_all add: live_regions_def)

lemma live_regions_replicate [simp]: "live_regions (replicate n empty_region) = {#}"
  by (simp add: live_regions_def empty_region_def)

lemma live_regions_update:
  assumes "i < length rs" "\<not> 0 < reg_size (rs ! i)" "0 < reg_size s"
  shows "live_regions (rs[i := s]) = add_mset (request_of s (the (reg_location s))) (live_regions rs)"
proof -
  have "live_regions rs = live_regions (take i rs) + live_regions (drop (Suc i) rs)"
    using assms(1,2) by (subst id_take_nth_drop [OF assms(1)]) simp
  moreover have "live_regions (rs[i := s]) = live_regions (take i rs) + live_regions (s # drop (Suc i) rs)"
    using assms(1) by (simp only: upd_conv_take_nth_drop live_regions_simps(3))
  ultimately show ?thesis using assms(3) by simp
qed

lemma deallocate_regions_correct:
  assumes "pool_ok any K live"
  shows "\<lbrakk>live_regions rs \<subseteq># live k; \<forall>s \<in> set rs. 0 < reg_size s \<longrightarrow> reg_location s \<noteq> None\<rbrakk> \<Longrightarrow>
    \<exists>k'. deallocate_regions K rs k = (Inr (), k') \<and> live k' = live k - live_regions rs"
proof (induction rs arbitrary: k)
  case (Cons s rs)
  show ?case
  proof (cases "0 < reg_size s")
    case True
    let ?r = "request_of s (the (reg_location s))"
    have "?r \<in># live k" "live_regions rs \<subseteq># live k - {#?r#}" using Cons.prems(1) True by (auto simp: insert_subset_eq_iff)
    moreover obtain k1 where k1: "k_deallocate K ?r k = (Inr (), k1)" "live k1 = live k - {#?r#}"
      using pool_okD(3) [OF assms \<open>?r \<in># live k\<close>] by blast
    ultimately obtain k2 where "deallocate_regions K rs k1 = (Inr (), k2)" "live k2 = live k1 - live_regions rs"
      using Cons.IH [of k1] Cons.prems(2) by auto
    then show ?thesis using Cons.prems(2) True k1 by (auto simp: kact_defs deallocate_ioctl_def)
  qed (use Cons in simp)
qed (simp add: lift_k_def)

lemma allocate_ioctl_correct:
  assumes "pool_ok (SLS_ALLOC_ANY_CUNIT C) K live"
  shows "(\<exists>e k'. allocate_ioctl C K sz cunit k = (Inl (Throw e), k') \<and> live k' = live k) \<or>
    (\<exists>s k' l. allocate_ioctl C K sz cunit k = (Inr s, k') \<and> reg_size s = sz \<and> reg_location s = Some l \<and>
      live k' = add_mset (request_of s l) (live k) \<and> (\<forall>c. cunit = Some c \<and> c \<noteq> SLS_ALLOC_ANY_CUNIT C \<longrightarrow> l = c))"
proof -
  let ?req = "\<lparr>pa_addr = 0, pa_size = sz, memory_pool = (case cunit of Some c \<Rightarrow> c | None \<Rightarrow> SLS_ALLOC_ANY_CUNIT C), is_global = 0\<rparr>"
  obtain x k' where x: "k_allocate K ?req k = (x, k')" by (cases "k_allocate K ?req k")
  show ?thesis
  proof (cases x)
    case (Inl e)
    then show ?thesis using pool_okD(1) [OF assms x [unfolded Inl]] x by (auto simp: allocate_ioctl_def kact_defs throw_from_errno_def)
  next
    case (Inr r)
    then have r: "pa_size r = sz" "live k' = add_mset r (live k)"
      "memory_pool ?req \<noteq> SLS_ALLOC_ANY_CUNIT C \<longrightarrow> memory_pool r = memory_pool ?req"
      using pool_okD(2) [OF assms x [unfolded Inr]] by simp_all
    have "request_of (region_of r\<lparr>reg_size := sz\<rparr>) (memory_pool r) = r" using r(1) by (simp add: request_of_def region_of_def)
    then show ?thesis using x Inr r by (auto simp: allocate_ioctl_def kact_defs region_of_def request_of_def)
  qed
qed

lemma filled_locations:
  assumes "filled sz n rs"
  shows "\<forall>s \<in> set rs. 0 < reg_size s \<longrightarrow> reg_location s \<noteq> None"
proof
  fix s assume "s \<in> set rs"
  then obtain i where "s = rs ! i" "i < length rs" by (auto simp: in_set_conv_nth)
  then show "0 < reg_size s \<longrightarrow> reg_location s \<noteq> None"
    using assms unfolding filled_def by (cases "i < n") (auto simp: empty_region_def)
qed

lemma filled_step:
  assumes "filled sz n rs" "n < length rs" "reg_location s = Some (of_nat n)" "reg_size s = sz"
  shows "filled sz (Suc n) (rs[n := s])"
  using assms by (auto simp: filled_def nth_list_update)

lemma replicate_loop_correct:
  assumes K: "pool_ok (SLS_ALLOC_ANY_CUNIT C) K live" and sz: "0 < sz" and c: "length rs \<le> unat (SLS_ALLOC_ANY_CUNIT C)"
    and r: "unat rank \<le> length rs" "filled sz (unat rank) rs" "live k = L + live_regions rs"
  shows "\<exists>res k'. replicate_loop C K sz (length rs) rank rs k = Some (res, k') \<and>
    (case res of Inl e \<Rightarrow> (\<exists>x. e = Throw x) \<and> live k' = L
     | Inr rs' \<Rightarrow> length rs' = length rs \<and> filled sz (length rs) rs' \<and> live k' = L + live_regions rs')"
  using c r
proof (induction "length rs - unat rank" arbitrary: rank rs k)
  case 0
  then show ?case by (subst replicate_loop.simps) (auto simp: le_antisym)
next
  case (Suc d)
  have n: "unat rank < length rs" using Suc.hyps(2) by simp
  have any: "rank \<noteq> SLS_ALLOC_ANY_CUNIT C" using n Suc.prems(1) by auto
  show ?case
    using allocate_ioctl_correct [OF K, of sz "Some rank" k]
  proof (elim disjE exE conjE)
    fix e k' assume e: "allocate_ioctl C K sz (Some rank) k = (Inl (Throw e), k')" "live k' = live k"
    obtain k2 where "deallocate_regions K rs k' = (Inr (), k2)" "live k2 = live k' - live_regions rs"
      using deallocate_regions_correct [OF K, of rs k'] filled_locations Suc.prems(3,4) e(2) by auto
    then show ?thesis using n e Suc.prems(4) by (subst replicate_loop.simps) (simp add: release_and_throw_def kact_defs)
  next
    fix s k' l assume s: "allocate_ioctl C K sz (Some rank) k = (Inr s, k')" "reg_size s = sz" "reg_location s = Some l"
      "live k' = add_mset (request_of s l) (live k)" "\<forall>c. Some rank = Some c \<and> c \<noteq> SLS_ALLOC_ANY_CUNIT C \<longrightarrow> l = c"
    have l: "l = rank" using s(5) any by simp
    have suc: "unat (rank + 1) = Suc (unat rank)" using n Suc.prems(1) byte_bound(1) [of "SLS_ALLOC_ANY_CUNIT C"]
      by (simp add: unat_word_ariths)
    let ?rs = "rs[unat rank := s]"
    have "rs ! unat rank = empty_region" using Suc.prems(3) n by (auto simp: filled_def)
    then have "live_regions ?rs = add_mset (request_of s l) (live_regions rs)"
      using n sz s(2,3) by (subst live_regions_update) (simp_all add: empty_region_def)
    moreover have "filled sz (Suc (unat rank)) ?rs" using filled_step [OF Suc.prems(3) n] s(2,3) l by simp
    ultimately have "\<exists>res k2. replicate_loop C K sz (length ?rs) (rank + 1) ?rs k' = Some (res, k2) \<and>
        (case res of Inl e \<Rightarrow> (\<exists>x. e = Throw x) \<and> live k2 = L
         | Inr rs' \<Rightarrow> length rs' = length ?rs \<and> filled sz (length ?rs) rs' \<and> live k2 = L + live_regions rs')"
      using Suc.hyps(2) Suc.prems n s(4) suc by (intro Suc.hyps(1)) simp_all
    moreover have "replicate_loop C K sz (length rs) rank rs k = replicate_loop C K sz (length ?rs) (rank + 1) ?rs k'"
      using n s l by (subst replicate_loop.simps) (simp add: store_region_def)
    ultimately show ?thesis unfolding length_list_update by simp
  qed
qed

section \<open>Allocations and buffers\<close>

text \<open>The regions of one allocation, whatever the policy.\<close>

lemma ranked_allocate_correct:
  assumes K: "pool_ok (SLS_ALLOC_ANY_CUNIT C) K live" and sz: "0 < sz" and n: "n \<le> unat (SLS_ALLOC_ANY_CUNIT C)"
    and a: "ranked_allocate C K n sz props k = (Inr r, k')"
  shows "\<exists>rs. r = Ranked rs \<and> length rs = n \<and> live k' = live k + live_regions rs \<and>
    (\<forall>s \<in> set rs. 0 < reg_size s \<longrightarrow> reg_location s \<noteq> None)"
proof -
  have "(\<exists>rs. allocate_single C K sz props (replicate n empty_region) k = (Inr rs, k') \<and> r = Ranked rs) \<or>
      (\<exists>rs. allocate_replicate_all C K n sz props (replicate n empty_region) k = (Inr rs, k') \<and> r = Ranked rs)"
    using a by (auto simp: ranked_allocate_def Let_def kact_defs split: if_splits prod.splits sum.splits)
  then show ?thesis
  proof (elim disjE exE conjE)
    fix rs assume s: "allocate_single C K sz props (replicate n empty_region) k = (Inr rs, k')" "r = Ranked rs"
    obtain s' k1 l where i: "allocate_ioctl C K sz (map_option ucast (props MEM_LOCATION)) k = (Inr s', k1)" "reg_size s' = sz"
      "reg_location s' = Some l" "live k1 = add_mset (request_of s' l) (live k)"
      using allocate_ioctl_correct [OF K, of sz "map_option ucast (props MEM_LOCATION)" k] s(1) by (auto simp: allocate_single_def kact_defs)
    then have l: "unat l < n" "rs = (replicate n empty_region)[unat l := s']" "k' = k1"
      using s(1) by (auto simp: allocate_single_def kact_defs store_region_def split: if_splits)
    then have "live_regions rs = add_mset (request_of s' l) {#}"
      using i(2,3) sz by (subst l(2), subst live_regions_update) (simp_all, simp add: empty_region_def)
    moreover have "reg_location x \<noteq> None" if x: "x \<in> set rs" "0 < reg_size x" for x
    proof -
      have "x \<in> insert s' (set (replicate n empty_region))" using x(1) unfolding l(2) using set_update_subset_insert by fast
      then show ?thesis using i(3) x(2) by (auto simp: empty_region_def)
    qed
    ultimately show ?thesis using i(4) l s(2) by simp
  next
    fix rs assume s: "allocate_replicate_all C K n sz props (replicate n empty_region) k = (Inr rs, k')" "r = Ranked rs"
    have "\<exists>res k'. replicate_loop C K sz (length (replicate n empty_region)) 0 (replicate n empty_region) k = Some (res, k') \<and>
        (case res of Inl e \<Rightarrow> (\<exists>x. e = Throw x) \<and> live k' = live k
         | Inr rs' \<Rightarrow> length rs' = length (replicate n empty_region) \<and> filled sz (length (replicate n empty_region)) rs' \<and>
             live k' = live k + live_regions rs')"
      using n by (intro replicate_loop_correct [OF K sz]) (simp_all add: filled_def)
    then show ?thesis using s filled_locations by (auto simp: allocate_replicate_all_def split: if_splits)
  qed
qed

text \<open>
  C17: Replicating an allocation over all ranks is all or nothing: with a kernel module that hands out and
  takes back allocations as documented, the request either gives every rank a region of the requested
  size, or throws a library exception and leaves no allocation behind.
\<close>

theorem replicate_all_or_nothing:
  assumes "pool_ok (SLS_ALLOC_ANY_CUNIT C) K live" "consts_ok C" "0 < sz" "n \<le> unat (SLS_ALLOC_ANY_CUNIT C)"
    "props MEM_ALLOCATION_POLICY = Some (SLS_ALLOC_REPLICATE_ALL C)" "props MEM_LOCATION = None"
  shows "(\<exists>rs k'. ranked_allocate C K n sz props k = (Inr (Ranked rs), k') \<and> length rs = n \<and>
      (\<forall>i < n. reg_location (rs ! i) = Some (of_nat i) \<and> reg_size (rs ! i) = sz) \<and> live k' = live k + live_regions rs) \<or>
    (\<exists>e k'. ranked_allocate C K n sz props k = (Inl (Throw e), k') \<and> live k' = live k)"
proof -
  have "\<exists>res k'. replicate_loop C K sz (length (replicate n empty_region)) 0 (replicate n empty_region) k = Some (res, k') \<and>
      (case res of Inl e \<Rightarrow> (\<exists>x. e = Throw x) \<and> live k' = live k
       | Inr rs' \<Rightarrow> length rs' = length (replicate n empty_region) \<and> filled sz (length (replicate n empty_region)) rs' \<and>
           live k' = live k + live_regions rs')"
    using assms(4) by (intro replicate_loop_correct [OF assms(1,3)]) (simp_all add: filled_def)
  then obtain res k' where l: "replicate_loop C K sz n 0 (replicate n empty_region) k = Some (res, k')"
    "case res of Inl e \<Rightarrow> (\<exists>x. e = Throw x) \<and> live k' = live k
     | Inr rs' \<Rightarrow> length rs' = n \<and> filled sz n rs' \<and> live k' = live k + live_regions rs'"
    unfolding length_replicate by blast
  show ?thesis
  proof (cases res)
    case (Inl e)
    then show ?thesis using l assms(2,5,6)
      by (auto simp: ranked_allocate_def consts_ok_def allocate_replicate_all_def has_property_def kact_defs)
  next
    case (Inr rs)
    then show ?thesis using l assms(2,5,6)
      by (auto simp: ranked_allocate_def consts_ok_def allocate_replicate_all_def has_property_def kact_defs filled_def)
  qed
qed

text \<open>
  C25: A region that is serialised and read back keeps the addresses and the locations of its parts,
  when addresses are below \<open>2 ^ 56\<close>, there are at least two parts (or the region is sequential), and
  the marker for a part without memory is unambiguous; sizes are lost and come back from the kernel.
\<close>

theorem shared_region_roundtrip:
  assumes "case r of Sequential s \<Rightarrow> serializable 1 s | Ranked rs \<Rightarrow> 1 < length rs \<and> (\<forall>s \<in> set rs. serializable (length rs) s)"
  shows "\<exists>sr. SharedRegion_of_serialized (serialized_region (SharedRegion_of_region r)) = Inr sr \<and>
    sr_region sr = (case r of Sequential s \<Rightarrow> Sequential (s\<lparr>reg_size := 0, reg_global := 0\<rparr>)
      | Ranked rs \<Rightarrow> Ranked (map (\<lambda>s. s\<lparr>reg_size := 0, reg_global := 0\<rparr>) rs)) \<and>
    serialized_region sr = serialized_region (SharedRegion_of_region r)"
proof (cases r)
  case (Sequential s)
  then show ?thesis using assms deserialize_serialize [of 1 s]
    by (simp add: SharedRegion_of_serialized_def SharedRegion_of_region_def serialize_def deserialize_def)
next
  case (Ranked rs)
  then have "map (\<lambda>s. deserialize_sequential (serialize_sequential s) (length rs)) rs = map (\<lambda>s. s\<lparr>reg_size := 0, reg_global := 0\<rparr>) rs"
    using assms deserialize_serialize by (intro map_cong) simp_all
  then show ?thesis using assms Ranked
    by (auto simp: SharedRegion_of_serialized_def SharedRegion_of_region_def serialize_def deserialize_def comp_def)
qed

lemma deallocate_allocated:
  assumes K: "pool_ok any K live" "case A of RankedAllocator n \<Rightarrow> any = SLS_ALLOC_ANY_CUNIT C \<and> n \<le> unat any | SequentialAllocator _ \<Rightarrow> True"
    and sz: "0 < sz" and a: "allocate C K A sz props k = (Inr r, k1)"
  shows "\<exists>k2. deallocate K A r k1 = (Inr (), k2) \<and> live k2 = live k"
proof (cases A)
  case (RankedAllocator n)
  then obtain rs where rs: "r = Ranked rs" "live k1 = live k + live_regions rs" "\<forall>s \<in> set rs. 0 < reg_size s \<longrightarrow> reg_location s \<noteq> None"
    using ranked_allocate_correct [of C K live sz n props k r k1] K sz a by (auto simp: allocate_def)
  then show ?thesis using deallocate_regions_correct [OF K(1), of rs k1] RankedAllocator
    by (auto simp: deallocate_def ranked_deallocate_def kact_defs get_ranked_def)
next
  case (SequentialAllocator n)
  then obtain req x where x: "k_allocate K req k = (Inr x, k1)" "r = Sequential (region_of x)"
    using a by (auto simp: allocate_def sequential_allocate_def kact_defs split: sum.splits prod.splits)
  then have "x \<in># live k1" "live k1 = add_mset x (live k)" using pool_okD(2) [OF K(1) x(1)] by simp_all
  moreover have "request_of (region_of x) (memory_pool x) = x" "reg_location (region_of x) = Some (memory_pool x)"
    by (simp_all add: region_of_def request_of_def)
  ultimately show ?thesis using pool_okD(3) [OF K(1) \<open>x \<in># live k1\<close>] SequentialAllocator x(2)
    by (auto simp: deallocate_def sequential_deallocate_def kact_defs get_sequential_def)
qed

text \<open>
  C24: A buffer of at least one byte releases its memory exactly once: its destruction in the process that
  created it makes the kernel's allocations those from before its creation, in a forked process it
  releases nothing, and after a move the old object releases nothing and the new one everything.
\<close>

theorem buffer_lifecycle:
  assumes "pool_ok any K live" "case A of RankedAllocator n \<Rightarrow> any = SLS_ALLOC_ANY_CUNIT C \<and> n \<le> unat any | SequentialAllocator _ \<Rightarrow> True"
    "0 < n * st" "Buffer_make C K pid st n (Some A) props k = (Inr b, k1)" "pid' \<noteq> pid" "Buffer_move pid b = (b', old)"
  shows "\<exists>k2. Buffer_destroy K pid b k1 = (Inr (), k2) \<and> live k2 = live k \<and> Buffer_destroy K pid' b k1 = (Inr (), k1) \<and>
    Buffer_destroy K pid old k1 = (Inr (), k1) \<and> Buffer_destroy K pid b' k1 = (Inr (), k2)"
proof -
  obtain r where r: "allocate C K A (n * st) props k = (Inr r, k1)" "buf_context b = Some A"
    "dev_region b = (default_wrapper pid)\<lparr>dr_value := r\<rparr>"
    using assms(4) by (auto simp: Buffer_make_def kact_defs split: sum.splits prod.splits)
  obtain k2 where k2: "deallocate K A r k1 = (Inr (), k2)" "live k2 = live k" using deallocate_allocated [OF assms(1-3) r(1)] by blast
  then have "release K b k1 = (Inr (), k2)" using r by (simp add: release_def)
  then show ?thesis using k2(2) r assms(5,6)
    by (auto simp: Buffer_destroy_def default_wrapper_def Buffer_move_def moved_from_def lift_k_def release_def)
qed

text \<open>
  A buffer made from the region of a single allocation takes its size from rank 0 alone: it has the
  elements of the region when the compute unit asked for is 0, and no elements for every other unit.
\<close>

theorem region_buffer_size:
  assumes "pool_ok (SLS_ALLOC_ANY_CUNIT C) K live" "c < 256" "ucast c \<noteq> SLS_ALLOC_ANY_CUNIT C"
    "ranked_allocate C K n sz [MEM_LOCATION \<mapsto> c] k = (Inr r, k')"
  shows "buf_size (Buffer_of_region st r context props) = (if c = 0 then sz div st else 0)"
proof -
  have "\<exists>rs. allocate_single C K sz [MEM_LOCATION \<mapsto> c] (replicate n empty_region) k = (Inr rs, k') \<and> r = Ranked rs"
    using assms(4) by (auto simp: ranked_allocate_def Let_def kact_defs split: if_splits prod.splits sum.splits)
  then obtain s rs where s: "reg_size s = sz" "reg_location s = Some (ucast c)" "store_region (replicate n empty_region) s = Inr rs" "r = Ranked rs"
    using allocate_ioctl_correct [OF assms(1), of sz "Some (ucast c)" k] assms(3) by (auto simp: allocate_single_def kact_defs)
  then have rs: "unat (ucast c :: u8) < n" "rs = (replicate n empty_region)[unat (ucast c :: u8) := s]" by (auto simp: store_region_def split: if_splits)
  have c: "unat (ucast c :: u8) = unat c" using assms(2) by (simp add: word_less_nat_alt unsigned_ucast_eq take_bit_nat_eq_self)
  have "rs ! 0 = (if c = 0 then s else empty_region)" using rs c by (simp add: nth_list_update unat_eq_0)
  moreover have "rs \<noteq> []" using rs by auto
  ultimately show ?thesis using s(1,4)
    by (cases rs) (auto simp: Buffer_of_region_def DeviceRegionSizeVisitor_def empty_region_def)
qed

section \<open>Kinds of regions\<close>

lemma located_store: "store_region rs s = Inr rs' \<Longrightarrow> located_list rs \<Longrightarrow> located_list rs'"
  by (auto simp: store_region_def located_list_def split: option.splits if_splits dest!: set_update_subset_insert [THEN subsetD])

lemma located_loop:
  assumes "replicate_loop C K sz n rank rs k = Some r"
  shows "located_list rs \<longrightarrow> (case fst r of Inr rs' \<Rightarrow> located_list rs' | Inl e \<Rightarrow> True)"
  using assms
proof (rule replicate_loop.raw_induct [rotated])
  fix loop :: "alloc_consts \<Rightarrow> 'a kernel_ops \<Rightarrow> u64 \<Rightarrow> nat \<Rightarrow> u8 \<Rightarrow> SequentialRegion list \<Rightarrow> 'a \<Rightarrow> (SequentialRegion list result \<times> 'a) option"
  fix C and K :: "'a kernel_ops" and sz n rank rs k r
  assume IH: "\<And>C K sz n rank rs k r. loop C K sz n rank rs k = Some r \<Longrightarrow>
      located_list rs \<longrightarrow> (case fst r of Inr rs' \<Rightarrow> located_list rs' | Inl e \<Rightarrow> True)"
    and e: "(if unat rank < n then
        (case allocate_ioctl C K sz (Some rank) k of
           (Inl e, k') \<Rightarrow> Some (release_and_throw K rs e k')
         | (Inr s, k') \<Rightarrow> (case store_region rs s of
             Inl e \<Rightarrow> Some (Inl e, k') | Inr rs' \<Rightarrow> loop C K sz n (rank + 1) rs' k'))
      else Some (Inr rs, k)) = Some r"
  have t: "\<exists>f. fst (release_and_throw K rs e k' :: SequentialRegion list result \<times> 'a) = Inl f" for e k'
    by (auto simp: release_and_throw_def bind_k_def lift_k_def split: prod.splits sum.splits)
  show "located_list rs \<longrightarrow> (case fst r of Inr rs' \<Rightarrow> located_list rs' | Inl e \<Rightarrow> True)"
  proof (cases "unat rank < n")
    case True
    obtain x k1 where al: "allocate_ioctl C K sz (Some rank) k = (x, k1)" by (cases "allocate_ioctl C K sz (Some rank) k")
    show ?thesis
    proof (cases x)
      case (Inl f)
      then show ?thesis using e True al t [of f k1] by auto
    next
      case (Inr s)
      then show ?thesis using e True al IH [of C K sz n "rank + 1" _ k1 r] located_store [of rs s]
        by (cases "store_region rs s") auto
    qed
  qed (use e in auto)
qed

lemma deallocate_located:
  "located_list rs \<Longrightarrow> \<exists>x k'. deallocate_regions K rs k = (x, k') \<and> (case x of Inl e \<Rightarrow> \<exists>t. e = Throw t | Inr _ \<Rightarrow> True)"
proof (induction rs arbitrary: k)
  case (Cons s rs)
  then have l: "0 < reg_size s \<Longrightarrow> \<exists>l. reg_location s = Some l" "located_list rs" by (auto simp: located_list_def)
  then show ?case using Cons.IH [OF l(2)]
    by (auto simp: deallocate_ioctl_def request_def bind_k_def lift_k_def throw_from_errno_def split: prod.splits sum.splits)
qed (simp add: lift_k_def)

lemma share_located:
  "\<exists>x k'. share_regions cmd rs k = (x, k') \<and> (case x of Inl e \<Rightarrow> \<exists>t. e = Throw t | Inr rs' \<Rightarrow> located_list rs')"
proof (induction rs arbitrary: k)
  case (Cons s rs)
  obtain y k1 where y: "(case reg_location s of None \<Rightarrow> lift_k (Inr empty_region)
      | Some l \<Rightarrow> bind_k (request cmd (request_of s l) throw_from_errno) (\<lambda>r. lift_k (Inr (region_of r)))) k = (y, k1)"
    and t: "case y of Inl e \<Rightarrow> \<exists>t. e = Throw t | Inr s' \<Rightarrow> 0 < reg_size s' \<longrightarrow> reg_location s' \<noteq> None"
    by (cases "reg_location s"; cases "cmd (request_of s (the (reg_location s))) k"; cases "fst (cmd (request_of s (the (reg_location s))) k)")
      (auto simp: request_def bind_k_def lift_k_def throw_from_errno_def region_of_def empty_region_def)
  show ?case
  proof (cases y)
    case (Inr s')
    obtain x k' where "share_regions cmd rs k1 = (x, k')" "case x of Inl e \<Rightarrow> \<exists>t. e = Throw t | Inr rs' \<Rightarrow> located_list rs'" using Cons by blast
    then show ?thesis using y t Inr by (cases x) (auto simp: bind_k_def lift_k_def located_list_def)
  qed (use y t in \<open>auto simp: bind_k_def\<close>)
qed (simp add: lift_k_def located_list_def)

lemma of_kind_simps:
  "of_kind (RankedAllocator n) (Ranked rs) = located_list rs" "of_kind (RankedAllocator n) (Sequential s) = False"
  "of_kind (SequentialAllocator m) (Sequential s) = (reg_location s \<noteq> None)" "of_kind (SequentialAllocator m) (Ranked rs) = False"
  by (simp_all add: of_kind_def located_list_def)

lemma located_replicate: "located_list (replicate n empty_region)"
  by (simp add: located_list_def empty_region_def)

lemma allocate_kind:
  assumes "allocate C K A sz props k = (Inr r, k')"
  shows "of_kind A r"
proof (cases A)
  case (RankedAllocator n)
  let ?rs = "replicate n empty_region"
  have single: "located_list rs" if "allocate_single C K sz props ?rs k = (Inr rs, k')" for rs
    using that located_store [of ?rs _ rs] located_replicate by (auto simp: allocate_single_def bind_k_def lift_k_def split: prod.splits sum.splits)
  have all: "located_list rs" if "allocate_replicate_all C K n sz props ?rs k = (Inr rs, k')" for rs
    using that located_loop [of C K sz n 0 ?rs k] located_replicate [of n]
    by (auto simp: allocate_replicate_all_def split: if_splits option.splits)
  show ?thesis using assms single all unfolding RankedAllocator
    by (auto simp: allocate_def ranked_allocate_def Let_def of_kind_simps bind_k_def lift_k_def split: if_splits prod.splits sum.splits)
next
  case (SequentialAllocator m)
  then show ?thesis using assms
    by (auto simp: allocate_def sequential_allocate_def of_kind_simps bind_k_def lift_k_def request_def region_of_def split: prod.splits sum.splits)
qed

lemma sharing_kind:
  assumes "cmd = k_make_shared K \<and> op = share_region K A \<or> cmd = k_get_shared K \<and> op = get_shared_alloc K A"
  shows "case fst (op r k) of Inr r' \<Rightarrow> of_kind A r' | Inl e \<Rightarrow> of_kind A r \<longrightarrow> (\<exists>t. e = Throw t)"
proof (cases A)
  case (RankedAllocator n)
  have "op r k = ranked_sharing_ioctl cmd r k"
    using assms RankedAllocator by (auto simp: share_region_def get_shared_alloc_def ranked_share_region_def ranked_get_shared_alloc_def)
  then show ?thesis using share_located [of cmd "case r of Ranked rs \<Rightarrow> rs | _ \<Rightarrow> []" k] RankedAllocator
    by (auto simp: ranked_sharing_ioctl_def get_ranked_def bind_k_def lift_k_def of_kind_simps split: DeviceRegion.splits prod.splits sum.splits)
next
  case (SequentialAllocator m)
  have "op r k = sequential_sharing_ioctl cmd r k"
    using assms SequentialAllocator by (auto simp: share_region_def get_shared_alloc_def sequential_share_region_def sequential_get_shared_alloc_def)
  then show ?thesis using SequentialAllocator
    by (auto simp: sequential_sharing_ioctl_def get_sequential_def bind_k_def lift_k_def of_kind_simps request_def region_of_def
        split: DeviceRegion.splits option.splits prod.splits sum.splits)
qed

lemma release_typed:
  assumes "typed b"
  shows "\<exists>k'. release K b k = (Inr (), k')"
proof (cases "buf_context b")
  case (Some A)
  then have a: "of_kind A (dr_value (dev_region b))" using assms by (simp add: typed_def)
  have "\<exists>x k'. deallocate K A (dr_value (dev_region b)) k = (x, k') \<and> (case x of Inl e \<Rightarrow> \<exists>t. e = Throw t | Inr _ \<Rightarrow> True)"
  proof (cases A)
    case (RankedAllocator n)
    then obtain rs where "dr_value (dev_region b) = Ranked rs" "located_list rs"
      using a by (cases "dr_value (dev_region b)") (auto simp: of_kind_simps)
    then show ?thesis using RankedAllocator deallocate_located [of rs K k]
      by (simp add: deallocate_def ranked_deallocate_def get_ranked_def bind_k_def lift_k_def)
  next
    case (SequentialAllocator m)
    then show ?thesis using a
      by (auto simp: deallocate_def sequential_deallocate_def get_sequential_def of_kind_simps bind_k_def lift_k_def request_def
          split: DeviceRegion.splits option.splits prod.splits sum.splits)
  qed
  then obtain x k' where "deallocate K A (dr_value (dev_region b)) k = (x, k')" "case x of Inl e \<Rightarrow> \<exists>t. e = Throw t | Inr _ \<Rightarrow> True" by blast
  then show ?thesis using Some by (cases x) (auto simp: release_def)
qed (simp add: release_def)

lemma make_typed: "Buffer_make C K pid st n context props k = (Inr b, k') \<Longrightarrow> typed b"
  using allocate_kind by (auto simp: Buffer_make_def typed_def bind_k_def lift_k_def split: option.splits prod.splits sum.splits)

lemma opened_typed: "Buffer_of_shared K st shared context props k = (Inr b, k') \<Longrightarrow> typed b"
  using sharing_kind [of "k_get_shared K" K "get_shared_alloc K (the context)" "the context" "sr_region shared" k]
  by (auto simp: Buffer_of_shared_def typed_def bind_k_def lift_k_def split: option.splits prod.splits sum.splits)

lemma shared_typed:
  assumes "typed b"
  shows "case fst (make_shared K b k) of Inr (sr, b') \<Rightarrow> typed b' | Inl e \<Rightarrow> e \<noteq> StdException"
  using assms sharing_kind [of "k_make_shared K" K "share_region K (the (buf_context b))" "the (buf_context b)" "dr_value (dev_region b)" k]
  by (auto simp: make_shared_def typed_def bind_k_def lift_k_def split: option.splits prod.splits sum.splits)

lemma move_typed: "typed b \<Longrightarrow> typed (fst (Buffer_move pid b)) \<and> typed (snd (Buffer_move pid b))"
  by (simp add: Buffer_move_def moved_from_def typed_def)

lemma assign_typed: "typed b \<Longrightarrow> \<exists>k'. Buffer_assign K pid b c k = (Inr (Buffer_move pid c), k')"
  using release_typed [of b K k] by (auto simp: Buffer_assign_def bind_k_def lift_k_def)

lemma obtained_typed: "obtained K b \<Longrightarrow> typed b"
proof (induction rule: obtained.induct)
  case (assign_to b c pid k b' c' k')
  then have "Buffer_move pid c = (b', c')" using assign_typed [of b K pid c k] by auto
  then show ?case using move_typed [OF assign_to.IH(2), of pid] by simp
next
  case (assign_from b c pid k b' c' k')
  then have "Buffer_move pid c = (b', c')" using assign_typed [of b K pid c k] by auto
  then show ?case using move_typed [OF assign_from.IH(2), of pid] by simp
next
  case (bound b rng b')
  then show ?case by (auto simp: bind_user_region_def typed_def split: if_splits option.splits)
next
  case (shared b k sr b' k')
  then show ?case using shared_typed [of b K k] by simp
next
  case (region ctx r st props)
  then show ?case by (cases ctx) (simp_all add: typed_def Buffer_of_region_def)
next
  case (copied b rng)
  then show ?case by (simp add: typed_def split: option.splits)
next
  case (empty pid n)
  show ?case by (simp add: typed_def Buffer_default_def)
qed (simp_all add: make_typed opened_typed move_typed)

text \<open>
  C40: a buffer a program can have, however it was made, moved, assigned, bound, copied or shared, holds a region
  of the kind of its context's allocator, with a location wherever it has a size, provided that the regions the
  program itself passes to the constructor are. Then its destructor and an assignment to it, which must not
  throw, always return, and sharing it does not end with an exception of the standard library from
  \<open>std::get\<close> or \<open>std::optional::value\<close>.
\<close>
theorem buffers_stay_typed:
  assumes "obtained K b"
  shows "typed b \<and> (\<forall>pid k. \<exists>k'. Buffer_destroy K pid b k = (Inr (), k')) \<and>
    (\<forall>pid c k. \<exists>k'. Buffer_assign K pid b c k = (Inr (Buffer_move pid c), k')) \<and> (\<forall>k. fst (make_shared K b k) \<noteq> Inl StdException)"
proof (intro conjI allI)
  show t: "typed b" by (rule obtained_typed [OF assms])
  show "\<exists>k'. Buffer_destroy K pid b k = (Inr (), k')" for pid k
    using release_typed [OF t] by (auto simp: Buffer_destroy_def lift_k_def)
  show "\<exists>k'. Buffer_assign K pid b c k = (Inr (Buffer_move pid c), k')" for pid c k by (rule assign_typed [OF t])
  show "fst (make_shared K b k) \<noteq> Inl StdException" for k using shared_typed [OF t, of K k] by auto
qed

section \<open>A concrete kernel module\<close>

lemma ex_kernel_ok: "pool_ok 255 (ex_kernel cap) mset" "pool_ok (SLS_ALLOC_ANY_CUNIT ex_consts) (ex_kernel cap) mset"
  by (auto simp: pool_ok_def ex_kernel_def ex_consts_def Let_def)

theorem replicate_all_or_nothing_witness:
  "(\<exists>rs k'. ranked_allocate ex_consts (ex_kernel 2) 3 64 [MEM_ALLOCATION_POLICY \<mapsto> 2] [] = (Inr (Ranked rs), k') \<and> length rs = 3 \<and>
      (\<forall>i < 3. reg_location (rs ! i) = Some (of_nat i) \<and> reg_size (rs ! i) = 64) \<and> mset k' = mset [] + live_regions rs) \<or>
    (\<exists>e k'. ranked_allocate ex_consts (ex_kernel 2) 3 64 [MEM_ALLOCATION_POLICY \<mapsto> 2] [] = (Inl (Throw e), k') \<and> mset k' = mset [])"
  by (rule replicate_all_or_nothing [OF ex_kernel_ok(2)]) (simp_all add: consts_ok_def ex_consts_def)

theorem shared_region_roundtrip_witness:
  "\<exists>sr. SharedRegion_of_serialized (serialized_region (SharedRegion_of_region (Ranked
      [empty_region, \<lparr>reg_start = 4096, reg_size = 64, reg_location = Some 1, reg_global = 1\<rparr>]))) = Inr sr \<and>
    sr_region sr = Ranked [empty_region, \<lparr>reg_start = 4096, reg_size = 0, reg_location = Some 1, reg_global = 0\<rparr>]"
  using shared_region_roundtrip [of "Ranked [empty_region, \<lparr>reg_start = 4096, reg_size = 64, reg_location = Some 1, reg_global = 1\<rparr>]"]
  by (auto simp: serializable_def empty_region_def max_amount_of_regions_def)

theorem buffer_lifecycle_witness:
  "\<exists>b k1 k2. Buffer_make ex_consts (ex_kernel 2) 7 4 16 (Some (SequentialAllocator 2)) Map.empty [] = (Inr b, k1) \<and> length k1 = 1 \<and>
    Buffer_destroy (ex_kernel 2) 7 b k1 = (Inr (), k2) \<and> mset k2 = {#} \<and> Buffer_destroy (ex_kernel 2) 8 b k1 = (Inr (), k1)"
proof -
  obtain b k1 where b: "Buffer_make ex_consts (ex_kernel 2) 7 4 16 (Some (SequentialAllocator 2)) Map.empty [] = (Inr b, k1)" "length k1 = 1"
    by (simp add: Buffer_make_def allocate_def sequential_allocate_def get_alloc_preference_def has_property_def kact_defs ex_kernel_def Let_def)
  obtain b' old where m: "Buffer_move 7 b = (b', old)" by (cases "Buffer_move 7 b")
  show ?thesis using buffer_lifecycle [OF ex_kernel_ok(1) _ _ b(1) _ m, of 8] b by auto
qed

text \<open>A buffer over 64 bytes of compute unit 1 has no elements.\<close>

theorem region_buffer_size_witness:
  "\<exists>r k'. ranked_allocate ex_consts (ex_kernel 2) 2 64 [MEM_LOCATION \<mapsto> 1] [] = (Inr r, k') \<and>
    buf_size (Buffer_of_region 4 r None Map.empty) = 0"
proof -
  obtain r k' where r: "ranked_allocate ex_consts (ex_kernel 2) 2 64 [MEM_LOCATION \<mapsto> 1] [] = (Inr r, k')"
    by (simp add: ranked_allocate_def allocate_single_def allocate_ioctl_def kact_defs ex_kernel_def ex_consts_def region_of_def store_region_def Let_def)
  show ?thesis using region_buffer_size [OF ex_kernel_ok(2) _ _ r, of 4 None Map.empty] r by (simp add: ex_consts_def)
qed

theorem buffers_stay_typed_witness:
  "\<exists>k'. Buffer_destroy (ex_kernel 2) (- 1)
     (Buffer_of_region 1 (Ranked [\<lparr>reg_start = 4096, reg_size = 64, reg_location = Some 0, reg_global = 0\<rparr>]) (Some (RankedAllocator 1)) Map.empty) [] = (Inr (), k')"
proof -
  have "obtained (ex_kernel 2) (Buffer_of_region 1 (Ranked [\<lparr>reg_start = 4096, reg_size = 64, reg_location = Some 0, reg_global = 0\<rparr>])
      (Some (RankedAllocator 1)) Map.empty)"
    by (intro obtained.region) (simp add: of_kind_def)
  then show ?thesis using buffers_stay_typed by blast
qed

end
