(* ===== verification/Data_Transfer.thy ===== *)
theory Data_Transfer
  imports Device_Memory Byte_Memory
begin

text \<open>
  Moving data between the host and device memory: the accessors that map a region
  (\<open>core/memory/sequential_accessor.cpp\<close>, \<open>core/memory/sls/cxl/channel_accessor.cpp\<close>), the transfer
  managers of the database and the CXL context, and the copy operations of buffers. Device memory is
  a byte memory indexed by the offset in the device file, and a mapped view is a piece of it.
\<close>

section \<open>Mapped memory\<close>

definition fast_align_up :: "u64 \<Rightarrow> u64 \<Rightarrow> u64 result" where
  "fast_align_up v alignment =
     assert_r (alignment \<noteq> 0 \<and> alignment AND (alignment - 1) = 0) (Inr ((v + alignment - 1) AND NOT (alignment - 1)))"

record dview =
  dv_addr :: nat
  dv_len :: nat

definition empty_view :: dview where
  "empty_view = \<lparr>dv_addr = 0, dv_len = 0\<rparr>"

text \<open>
  Whether the system maps a piece of the device file depends on the system; \<open>mm\<close> says so for a length
  and an offset.
\<close>

record MappedData =
  md_len :: u64
  md_addr :: u64

definition MappedData_make :: "(u64 \<Rightarrow> u64 \<Rightarrow> bool) \<Rightarrow> u64 \<Rightarrow> u64 \<Rightarrow> MappedData result" where
  "MappedData_make mm len off = (if mm len off then Inr \<lparr>md_len = len, md_addr = off\<rparr> else Inl (Throw IO))"

definition get_view :: "MappedData \<Rightarrow> u64 \<Rightarrow> dview result" where
  "get_view d sz = assert_r (sz \<le> md_len d) (Inr \<lparr>dv_addr = unat (md_addr d), dv_len = unat sz\<rparr>)"

section \<open>Accessors\<close>

record SequentialAccessor =
  sa_region :: SequentialRegion
  sa_view :: dview

definition SequentialAccessor_make :: "(u64 \<Rightarrow> u64 \<Rightarrow> bool) \<Rightarrow> u64 \<Rightarrow> SequentialRegion \<Rightarrow> SequentialAccessor result" where
  "SequentialAccessor_make mm address_align s =
     bind_r (fast_align_up (reg_size s) address_align) (\<lambda>len.
     bind_r (MappedData_make mm len (reg_start s)) (\<lambda>d.
     bind_r (get_view d (reg_size s)) (\<lambda>v.
       assert_r (reg_start s mod address_align = 0) (Inr \<lparr>sa_region = s, sa_view = v\<rparr>))))"

record ChannelAccessor =
  ca_region :: "SequentialRegion list"
  ca_views :: "dview list"
  ca_data_size :: u64

definition channel_page_size :: u64 where
  "channel_page_size = 2 * 2 ^ 20"

text \<open>The base offsets come from the device's description; reading past them is undefined.\<close>

primrec map_channels ::
  "(u64 \<Rightarrow> u64 \<Rightarrow> bool) \<Rightarrow> u64 list \<Rightarrow> SequentialRegion list \<Rightarrow> u64 \<Rightarrow> (dview list \<times> u64) result" where
  "map_channels mm base_offsets [] data_size = Inr ([], data_size)"
| "map_channels mm base_offsets (s # rs) data_size =
     (case reg_location s of
        None \<Rightarrow> bind_r (map_channels mm base_offsets rs data_size) (\<lambda>(vs, n). Inr (empty_view # vs, n))
      | Some l \<Rightarrow>
          bind_r (fast_align_up (reg_size s) channel_page_size) (\<lambda>len.
          if unat l < length base_offsets then
            bind_r (MappedData_make mm len (reg_start s + base_offsets ! unat l)) (\<lambda>d.
            bind_r (get_view d (reg_size s)) (\<lambda>v.
            bind_r (map_channels mm base_offsets rs (reg_size s)) (\<lambda>(vs, n). Inr (v # vs, n))))
          else Inl Undefined))"

definition ChannelAccessor_make :: "(u64 \<Rightarrow> u64 \<Rightarrow> bool) \<Rightarrow> u64 list \<Rightarrow> SequentialRegion list \<Rightarrow> ChannelAccessor result" where
  "ChannelAccessor_make mm map_offsets rs =
     (if length map_offsets < length rs then Inl Undefined
      else bind_r (map_channels mm (take (length rs) map_offsets) rs 0) (\<lambda>(vs, n).
        Inr \<lparr>ca_region = rs, ca_views = vs, ca_data_size = n\<rparr>))"

datatype AccessorCore = SequentialCore SequentialAccessor | ChannelCore ChannelAccessor

text \<open>The machine: what can be mapped, the alignment of the database device, the offsets of the channels.\<close>

record machine =
  can_map :: "u64 \<Rightarrow> u64 \<Rightarrow> bool"
  imdb_alignment :: u64
  channel_offsets :: "u64 list"

text \<open>Ranked regions are those of the CXL bus; the accessor of the AXDIMM bus is not modelled.\<close>

definition create_accessor_core :: "machine \<Rightarrow> DeviceRegion \<Rightarrow> AccessorCore result" where
  "create_accessor_core M r =
     (case r of
        Sequential s \<Rightarrow> bind_r (SequentialAccessor_make (can_map M) (imdb_alignment M) s) (\<lambda>a. Inr (SequentialCore a))
      | Ranked rs \<Rightarrow> bind_r (ChannelAccessor_make (can_map M) (channel_offsets M) rs) (\<lambda>a. Inr (ChannelCore a)))"

definition core_views :: "AccessorCore \<Rightarrow> dview list" where
  "core_views c = (case c of SequentialCore a \<Rightarrow> [sa_view a] | ChannelCore a \<Rightarrow> ca_views a)"

definition core_bytes :: "AccessorCore \<Rightarrow> u64" where
  "core_bytes c = (case c of SequentialCore a \<Rightarrow> of_nat (dv_len (sa_view a)) | ChannelCore a \<Rightarrow> ca_data_size a)"

text \<open>Reads and writes outside the mapped view are undefined.\<close>

definition dview_read :: "bmem \<Rightarrow> dview \<Rightarrow> nat \<Rightarrow> nat \<Rightarrow> u8 list result" where
  "dview_read m v off n = (if off + n \<le> dv_len v then Inr (read_bytes m (dv_addr v + off) n) else Inl Undefined)"

definition dview_write :: "bmem \<Rightarrow> dview \<Rightarrow> nat \<Rightarrow> u8 list \<Rightarrow> bmem result" where
  "dview_write m v off bs = (if off + length bs \<le> dv_len v then Inr (write_bytes m (dv_addr v + off) bs) else Inl Undefined)"

primrec channel_access :: "dview list \<Rightarrow> bmem \<Rightarrow> nat \<Rightarrow> nat \<Rightarrow> u8 list result" where
  "channel_access [] m off n = Inl (Throw InvalidArguments)"
| "channel_access (v # vs) m off n = (if dv_len v \<noteq> 0 then dview_read m v off n else channel_access vs m off n)"

primrec channel_store :: "dview list \<Rightarrow> u8 list \<Rightarrow> nat \<Rightarrow> bmem \<Rightarrow> bmem result" where
  "channel_store [] bs off m = Inr m"
| "channel_store (v # vs) bs off m =
     (if dv_len v \<noteq> 0 then bind_r (dview_write m v off bs) (channel_store vs bs off) else channel_store vs bs off m)"

definition access_impl :: "AccessorCore \<Rightarrow> bmem \<Rightarrow> nat \<Rightarrow> nat \<Rightarrow> u8 list result" where
  "access_impl c m off n = (case c of SequentialCore a \<Rightarrow> dview_read m (sa_view a) off n | ChannelCore a \<Rightarrow> channel_access (ca_views a) m off n)"

definition store_impl :: "AccessorCore \<Rightarrow> u8 list \<Rightarrow> nat \<Rightarrow> bmem \<Rightarrow> bmem result" where
  "store_impl c bs off m = (case c of SequentialCore a \<Rightarrow> dview_write m (sa_view a) off bs | ChannelCore a \<Rightarrow> channel_store (ca_views a) bs off m)"

text \<open>The typed facade for elements of \<open>st\<close> bytes, which are given as byte lists.\<close>

definition Accessor_make :: "nat \<Rightarrow> AccessorCore \<Rightarrow> AccessorCore result" where
  "Accessor_make st c = assert_r (unat (core_bytes c) mod st = 0) (Inr c)"

definition accessor_size :: "nat \<Rightarrow> AccessorCore \<Rightarrow> nat" where
  "accessor_size st c = unat (core_bytes c) div st"

definition accessor_at :: "nat \<Rightarrow> AccessorCore \<Rightarrow> bmem \<Rightarrow> nat \<Rightarrow> u8 list result" where
  "accessor_at st c m index = access_impl c m (index * st) st"

definition accessor_store :: "nat \<Rightarrow> AccessorCore \<Rightarrow> u8 list \<Rightarrow> nat \<Rightarrow> bmem \<Rightarrow> bmem result" where
  "accessor_store st c v index m = store_impl c v (index * st) m"

section \<open>Transfer managers\<close>

definition imdb_copy_from_device :: "dview \<Rightarrow> bmem \<Rightarrow> u8 list \<Rightarrow> (u8 list \<times> nat) result" where
  "imdb_copy_from_device v m host =
     (if length host < dv_len v then Inl (Throw InvalidArguments)
      else Inr (read_bytes m (dv_addr v) (dv_len v) @ drop (dv_len v) host, dv_len v))"

definition imdb_copy_to_device :: "u8 list \<Rightarrow> dview \<Rightarrow> bmem \<Rightarrow> (bmem \<times> nat) result" where
  "imdb_copy_to_device host v m =
     (if dv_len v < length host then Inl (Throw InvalidArguments) else Inr (write_bytes m (dv_addr v) host, length host))"

text \<open>Neither copy of the channel manager compares the sizes: a longer source runs over the end.\<close>

primrec channel_copy_to_device :: "u8 list \<Rightarrow> dview list \<Rightarrow> bmem \<Rightarrow> nat \<Rightarrow> (bmem \<times> nat) result" where
  "channel_copy_to_device host [] m copied = Inr (m, copied)"
| "channel_copy_to_device host (v # vs) m copied =
     (if dv_len v \<noteq> 0 then bind_r (dview_write m v 0 host) (\<lambda>m. channel_copy_to_device host vs m (length host))
      else channel_copy_to_device host vs m copied)"

primrec channel_copy_from_device :: "dview list \<Rightarrow> bmem \<Rightarrow> u8 list \<Rightarrow> (u8 list \<times> nat) result" where
  "channel_copy_from_device [] m host = Inr (host, 0)"
| "channel_copy_from_device (v # vs) m host =
     (if dv_len v \<noteq> 0
      then if dv_len v \<le> length host then Inr (read_bytes m (dv_addr v) (dv_len v) @ drop (dv_len v) host, dv_len v) else Inl Undefined
      else channel_copy_from_device vs m host)"

datatype TransferManager = ImdbTransferManager | ChannelTransferManager

definition copy_to_device_impl :: "TransferManager \<Rightarrow> u8 list \<Rightarrow> AccessorCore \<Rightarrow> bmem \<Rightarrow> (bmem \<times> nat) result" where
  "copy_to_device_impl T host c m =
     (case (T, c) of (ImdbTransferManager, SequentialCore a) \<Rightarrow> imdb_copy_to_device host (sa_view a) m
      | (ChannelTransferManager, ChannelCore a) \<Rightarrow> channel_copy_to_device host (ca_views a) m 0
      | _ \<Rightarrow> Inl StdException)"

definition copy_from_device_impl :: "TransferManager \<Rightarrow> AccessorCore \<Rightarrow> bmem \<Rightarrow> u8 list \<Rightarrow> (u8 list \<times> nat) result" where
  "copy_from_device_impl T c m host =
     (case (T, c) of (ImdbTransferManager, SequentialCore a) \<Rightarrow> imdb_copy_from_device (sa_view a) m host
      | (ChannelTransferManager, ChannelCore a) \<Rightarrow> channel_copy_from_device (ca_views a) m host
      | _ \<Rightarrow> Inl StdException)"

definition copy_to_device :: "nat \<Rightarrow> TransferManager \<Rightarrow> u8 list \<Rightarrow> AccessorCore \<Rightarrow> bmem \<Rightarrow> (bmem \<times> nat) result" where
  "copy_to_device st T host c m =
     bind_r (copy_to_device_impl T host c m) (\<lambda>(m, copied). assert_r (copied = length host) (Inr (m, copied div st)))"

definition copy_from_device :: "nat \<Rightarrow> TransferManager \<Rightarrow> AccessorCore \<Rightarrow> bmem \<Rightarrow> u8 list \<Rightarrow> (u8 list \<times> nat) result" where
  "copy_from_device st T c m host =
     bind_r (copy_from_device_impl T c m host) (\<lambda>(host, copied).
       assert_r (copied = accessor_size st c * st) (Inr (host, copied div st)))"

section \<open>Copies of a buffer\<close>

text \<open>The contexts pair the sequential allocator with the database's transfer manager, and the ranked one with the channels'.\<close>

definition context_transfer_manager :: "Allocator \<Rightarrow> TransferManager" where
  "context_transfer_manager A = (case A of RankedAllocator _ \<Rightarrow> ChannelTransferManager | SequentialAllocator _ \<Rightarrow> ImdbTransferManager)"

definition direct_access :: "machine \<Rightarrow> nat \<Rightarrow> Buffer \<Rightarrow> AccessorCore result" where
  "direct_access M st b = bind_r (create_accessor_core M (dr_value (dev_region b))) (Accessor_make st)"

text \<open>A copy works on host memory \<open>h\<close> and device memory \<open>m\<close>.\<close>

definition Buffer_copy_to_device :: "machine \<Rightarrow> nat \<Rightarrow> Buffer \<Rightarrow> bmem \<Rightarrow> bmem \<Rightarrow> (Buffer \<times> bmem \<times> nat) result" where
  "Buffer_copy_to_device M st b h m =
     (if snd (user_range b) = 0 then Inl (Throw InvalidArguments)
      else case buf_context b of None \<Rightarrow> Inl Undefined
      | Some A \<Rightarrow> bind_r (direct_access M st b) (\<lambda>c.
          bind_r (copy_to_device st (context_transfer_manager A) (read_bytes h (fst (user_range b)) (snd (user_range b) * st)) c m) (\<lambda>(m, n).
            Inr (b\<lparr>offloaded := True\<rparr>, m, n))))"

definition Buffer_copy_from_device :: "machine \<Rightarrow> nat \<Rightarrow> Buffer \<Rightarrow> bmem \<Rightarrow> bmem \<Rightarrow> (bmem \<times> nat) result" where
  "Buffer_copy_from_device M st b h m =
     (if snd (user_range b) = 0 then Inl (Throw InvalidArguments)
      else case buf_context b of None \<Rightarrow> Inl Undefined
      | Some A \<Rightarrow> bind_r (direct_access M st b) (\<lambda>c.
          bind_r (copy_from_device st (context_transfer_manager A) c m (read_bytes h (fst (user_range b)) (snd (user_range b) * st))) (\<lambda>(bs, n).
            Inr (write_bytes h (fst (user_range b)) bs, n))))"

definition Buffer_of_range ::
  "machine \<Rightarrow> alloc_consts \<Rightarrow> 'k kernel_ops \<Rightarrow> int \<Rightarrow> nat \<Rightarrow> nat \<times> nat \<Rightarrow> Allocator option \<Rightarrow> PropertiesList \<Rightarrow>
   bmem \<Rightarrow> bmem \<Rightarrow> ('k, Buffer \<times> bmem) kact" where
  "Buffer_of_range M C K pid st rng context props h m =
     bind_k (Buffer_make C K pid (of_nat st) (of_nat (snd rng)) context props) (\<lambda>b.
     bind_k (lift_k (Buffer_copy_to_device M st (b\<lparr>user_range := rng\<rparr>) h m)) (\<lambda>(b, m, _). lift_k (Inr (b, m))))"

section \<open>Specification\<close>

definition view_set :: "dview \<Rightarrow> nat set" where
  "view_set v = {dv_addr v..<dv_addr v + dv_len v}"

primrec apart :: "dview list \<Rightarrow> bool" where
  "apart [] \<longleftrightarrow> True"
| "apart (v # vs) \<longleftrightarrow> (\<forall>w \<in> set vs. view_set v \<inter> view_set w = {}) \<and> apart vs"

definition footprint :: "dview list \<Rightarrow> nat set" where
  "footprint vs = (\<Union>v \<in> set vs. view_set v)"

definition nonempty_views :: "dview list \<Rightarrow> dview list" where
  "nonempty_views vs = filter (\<lambda>v. dv_len v \<noteq> 0) vs"

text \<open>The regions of a buffer of \<open>sz\<close> bytes: every part with memory has that size, and there is one.\<close>

definition region_of_size :: "u64 \<Rightarrow> DeviceRegion \<Rightarrow> bool" where
  "region_of_size sz r \<longleftrightarrow> (case r of Sequential s \<Rightarrow> reg_size s = sz
     | Ranked rs \<Rightarrow> (\<forall>s \<in> set rs. reg_location s \<noteq> None \<longrightarrow> reg_size s = sz) \<and> (\<exists>s \<in> set rs. reg_location s \<noteq> None))"

definition region_kind :: "Allocator \<Rightarrow> DeviceRegion \<Rightarrow> bool" where
  "region_kind A r \<longleftrightarrow> (case (A, r) of (RankedAllocator _, Ranked _) \<Rightarrow> True | (SequentialAllocator _, Sequential _) \<Rightarrow> True | _ \<Rightarrow> False)"

definition core_places :: "AccessorCore \<Rightarrow> dview list" where
  "core_places c = nonempty_views (core_views c)"

definition ex_machine :: machine where
  "ex_machine = \<lparr>can_map = (\<lambda>len off. len \<noteq> 0 \<and> off AND 4095 = 0), imdb_alignment = 4096, channel_offsets = [0, 0x40000000]\<rparr>"

definition ex_buffer :: Buffer where
  "ex_buffer = \<lparr>buf_context = Some (RankedAllocator 2), user_range = (64, 4), offloaded = False, buf_props = Map.empty, buf_size = 4,
     dev_region = \<lparr>dr_value = Ranked [\<lparr>reg_start = 4096, reg_size = 16, reg_location = Some 0, reg_global = 0\<rparr>,
       \<lparr>reg_start = 4096, reg_size = 16, reg_location = Some 1, reg_global = 0\<rparr>], owner_process_id = 1, dr_owned = True, dr_is_global = False\<rparr>\<rparr>"

section \<open>The contract of a transfer manager\<close>

text \<open>
  A transfer to the device fills every place of the target with the data and changes nothing else; a
  transfer from the device reads the data back when all places hold it.
\<close>

locale device_transfer =
  fixes to_dev :: "u8 list \<Rightarrow> 'v \<Rightarrow> bmem \<Rightarrow> (bmem \<times> nat) result"
    and from_dev :: "'v \<Rightarrow> bmem \<Rightarrow> u8 list \<Rightarrow> (u8 list \<times> nat) result" and places :: "'v \<Rightarrow> dview list"
  assumes to_places: "\<lbrakk>places v \<noteq> []; apart (places v); \<forall>p \<in> set (places v). dv_len p = length host\<rbrakk> \<Longrightarrow>
      \<exists>m'. to_dev host v m = Inr (m', length host) \<and> (\<forall>p \<in> set (places v). read_bytes m' (dv_addr p) (length host) = host) \<and>
        (\<forall>x. x \<notin> footprint (places v) \<longrightarrow> m' x = m x)"
    and from_places: "\<lbrakk>places v \<noteq> []; \<forall>p \<in> set (places v). dv_len p = length host \<and> read_bytes m (dv_addr p) (length host) = host;
      length old = length host\<rbrakk> \<Longrightarrow> from_dev v m old = Inr (host, length host)"
begin

lemma roundtrip:
  assumes "places v \<noteq> []" "apart (places v)" "\<forall>p \<in> set (places v). dv_len p = length host"
  shows "\<exists>m'. to_dev host v m = Inr (m', length host) \<and> (\<forall>old. length old = length host \<longrightarrow> from_dev v m' old = Inr (host, length host)) \<and>
    (\<forall>x. x \<notin> footprint (places v) \<longrightarrow> m' x = m x)"
proof -
  obtain m' where m': "to_dev host v m = Inr (m', length host)" "\<forall>p \<in> set (places v). read_bytes m' (dv_addr p) (length host) = host"
    "\<forall>x. x \<notin> footprint (places v) \<longrightarrow> m' x = m x" using to_places [OF assms] by blast
  then show ?thesis using from_places [OF assms(1), of host m'] assms(3) by blast
qed

end

lemma read_bytes_cong: "(\<And>x. a \<le> x \<Longrightarrow> x < a + n \<Longrightarrow> m x = m' x) \<Longrightarrow> read_bytes m a n = read_bytes m' a n"
  by (simp add: read_bytes_def)

lemma channel_copy_to_correct:
  assumes "apart (nonempty_views vs)" "\<forall>p \<in> set (nonempty_views vs). dv_len p = length host"
  shows "\<exists>m'. channel_copy_to_device host vs m c = Inr (m', if nonempty_views vs = [] then c else length host) \<and>
    (\<forall>p \<in> set (nonempty_views vs). read_bytes m' (dv_addr p) (length host) = host) \<and>
    (\<forall>x. x \<notin> footprint (nonempty_views vs) \<longrightarrow> m' x = m x)"
  using assms
proof (induction vs arbitrary: m c)
  case (Cons v vs)
  show ?case
  proof (cases "dv_len v = 0")
    case True
    then have ne: "nonempty_views (v # vs) = nonempty_views vs" by (simp add: nonempty_views_def)
    have "channel_copy_to_device host (v # vs) m c = channel_copy_to_device host vs m c" using True by simp
    then show ?thesis using Cons.IH [of m c] Cons.prems unfolding ne by metis
  next
    case False
    then have ne: "nonempty_views (v # vs) = v # nonempty_views vs" by (simp add: nonempty_views_def)
    let ?m = "write_bytes m (dv_addr v) host"
    obtain m' where m': "channel_copy_to_device host vs ?m (length host) = Inr (m', length host)"
      "\<forall>p \<in> set (nonempty_views vs). read_bytes m' (dv_addr p) (length host) = host"
      "\<forall>x. x \<notin> footprint (nonempty_views vs) \<longrightarrow> m' x = ?m x"
      using Cons.IH [of ?m "length host"] Cons.prems unfolding ne by auto
    have len: "dv_len v = length host" using Cons.prems(2) unfolding ne by simp
    have "x \<notin> footprint (nonempty_views vs)" if "x \<in> view_set v" for x
      using that Cons.prems(1) unfolding ne by (auto simp: footprint_def)
    then have "read_bytes m' (dv_addr v) (length host) = read_bytes ?m (dv_addr v) (length host)"
      using m'(3) len by (intro read_bytes_cong) (simp add: view_set_def)
    then have r: "read_bytes m' (dv_addr v) (length host) = host" by (simp only: read_write_bytes)
    have "m' x = m x" if "x \<notin> footprint (v # nonempty_views vs)" for x
      using that m'(3) [rule_format, of x] len by (auto simp: footprint_def view_set_def write_bytes_def)
    moreover have "channel_copy_to_device host (v # vs) m c = Inr (m', length host)" using m'(1) False len by (simp add: dview_write_def)
    ultimately show ?thesis unfolding ne using r m'(2) by (intro exI [of _ m'] conjI ballI allI impI) (simp_all, blast)
  qed
qed (simp add: nonempty_views_def)

lemma channel_copy_from_correct:
  "\<lbrakk>nonempty_views vs \<noteq> []; \<forall>p \<in> set (nonempty_views vs). dv_len p = length host \<and> read_bytes m (dv_addr p) (length host) = host;
    length old = length host\<rbrakk> \<Longrightarrow> channel_copy_from_device vs m old = Inr (host, length host)"
proof (induction vs)
  case (Cons v vs)
  show ?case
  proof (cases "dv_len v = 0")
    case True
    then have "nonempty_views (v # vs) = nonempty_views vs" "channel_copy_from_device (v # vs) m old = channel_copy_from_device vs m old"
      by (simp_all add: nonempty_views_def)
    then show ?thesis using Cons.IH Cons.prems by metis
  next
    case False
    then have "v \<in> set (nonempty_views (v # vs))" by (simp add: nonempty_views_def)
    then have "dv_len v = length host" "read_bytes m (dv_addr v) (length host) = host" using Cons.prems(2) by blast+
    then show ?thesis using Cons.prems(3) False by simp
  qed
qed (simp add: nonempty_views_def)

interpretation channel: device_transfer "\<lambda>host vs m. channel_copy_to_device host vs m 0" channel_copy_from_device nonempty_views
proof unfold_locales
  show "\<exists>m'. channel_copy_to_device host v m 0 = Inr (m', length host) \<and> (\<forall>p \<in> set (nonempty_views v). read_bytes m' (dv_addr p) (length host) = host) \<and>
      (\<forall>x. x \<notin> footprint (nonempty_views v) \<longrightarrow> m' x = m x)"
    if "nonempty_views v \<noteq> []" "apart (nonempty_views v)" "\<forall>p \<in> set (nonempty_views v). dv_len p = length host" for v host m
    using channel_copy_to_correct [OF that(2,3), of m 0] that(1) by simp
qed (rule channel_copy_from_correct)

lemma imdb_copy_to_correct:
  assumes "dv_len v = length host"
  shows "imdb_copy_to_device host v m = Inr (write_bytes m (dv_addr v) host, length host)"
    "x \<notin> footprint [v] \<Longrightarrow> write_bytes m (dv_addr v) host x = m x"
  using assms by (auto simp: imdb_copy_to_device_def footprint_def view_set_def write_bytes_def)

interpretation imdb: device_transfer imdb_copy_to_device imdb_copy_from_device "\<lambda>v. [v]"
proof unfold_locales
  show "\<exists>m'. imdb_copy_to_device host v m = Inr (m', length host) \<and> (\<forall>p \<in> set [v]. read_bytes m' (dv_addr p) (length host) = host) \<and>
      (\<forall>x. x \<notin> footprint [v] \<longrightarrow> m' x = m x)" if "\<forall>p \<in> set [v]. dv_len p = length host" for v host m
    using imdb_copy_to_correct [of v host, where m = m] that by (intro exI [of _ "write_bytes m (dv_addr v) host"]) (simp add: read_write_bytes)
  show "imdb_copy_from_device v m old = Inr (host, length host)"
    if "\<forall>p \<in> set [v]. dv_len p = length host \<and> read_bytes m (dv_addr p) (length host) = host" "length old = length host" for v m old host
    using that by (simp add: imdb_copy_from_device_def)
qed

section \<open>Buffers and their data\<close>

lemma get_view_correct:
  "\<lbrakk>MappedData_make mm len off = Inr d; get_view d sz = Inr v\<rbrakk> \<Longrightarrow> dv_len v = unat sz"
  by (auto simp: get_view_def assert_r_Inr_iff)

lemma map_channels_views:
  assumes "map_channels mm offs rs n0 = Inr (vs, n)" "\<forall>s \<in> set rs. reg_location s \<noteq> None \<longrightarrow> reg_size s = sz" "0 < sz"
  shows "(\<forall>v \<in> set (nonempty_views vs). dv_len v = unat sz) \<and>
    ((\<exists>s \<in> set rs. reg_location s \<noteq> None) \<longrightarrow> nonempty_views vs \<noteq> [] \<and> n = sz) \<and> (\<not> (\<exists>s \<in> set rs. reg_location s \<noteq> None) \<longrightarrow> n = n0)"
  using assms(1,2)
proof (induction rs arbitrary: vs n0)
  case (Cons s rs)
  show ?case
  proof (cases "reg_location s")
    case None
    then obtain vs' where "map_channels mm offs rs n0 = Inr (vs', n)" "vs = empty_view # vs'"
      using Cons.prems(1) by (auto simp: bind_r_Inr_iff)
    moreover have "nonempty_views (empty_view # vs') = nonempty_views vs'" by (simp add: nonempty_views_def empty_view_def)
    ultimately show ?thesis using Cons.IH [of n0 vs'] Cons.prems(2) None by simp
  next
    case (Some l)
    then obtain len d v vs' where v: "MappedData_make mm len (reg_start s + offs ! unat l) = Inr d" "get_view d (reg_size s) = Inr v"
      "map_channels mm offs rs (reg_size s) = Inr (vs', n)" "vs = v # vs'"
      using Cons.prems(1) by (auto simp: bind_r_Inr_iff split: if_splits)
    have s: "reg_size s = sz" using Cons.prems(2) Some by simp
    then have "dv_len v = unat sz" using get_view_correct [OF v(1,2)] by simp
    moreover have "unat sz \<noteq> 0" using assms(3) by (simp add: unat_eq_0)
    moreover from this have "nonempty_views vs = v # nonempty_views vs'" using v(4) calculation by (simp add: nonempty_views_def)
    moreover have "(\<forall>v \<in> set (nonempty_views vs'). dv_len v = unat sz) \<and> n = sz" using Cons.IH [OF v(3)] Cons.prems(2) s by auto
    ultimately show ?thesis using Some by auto
  qed
qed (simp add: nonempty_views_def)

lemma core_of_region:
  assumes "create_accessor_core M r = Inr c" "region_of_size sz r" "0 < sz"
  shows "core_places c \<noteq> []" "\<forall>v \<in> set (core_places c). dv_len v = unat sz" "core_bytes c = sz"
proof -
  have nz: "unat sz \<noteq> 0" using assms(3) by (simp add: unat_eq_0)
  have "core_places c \<noteq> [] \<and> (\<forall>v \<in> set (core_places c). dv_len v = unat sz) \<and> core_bytes c = sz"
  proof (cases r)
    case (Sequential s)
    then obtain len d v where v: "MappedData_make (can_map M) len (reg_start s) = Inr d" "get_view d (reg_size s) = Inr v"
      "c = SequentialCore \<lparr>sa_region = s, sa_view = v\<rparr>"
      using assms(1) by (auto simp: create_accessor_core_def SequentialAccessor_make_def bind_r_Inr_iff assert_r_Inr_iff)
    then show ?thesis using get_view_correct [OF v(1,2)] assms(2) nz Sequential
      by (simp add: core_places_def core_views_def nonempty_views_def core_bytes_def region_of_size_def)
  next
    case (Ranked rs)
    then obtain vs n where v: "map_channels (can_map M) (take (length rs) (channel_offsets M)) rs 0 = Inr (vs, n)"
      "c = ChannelCore \<lparr>ca_region = rs, ca_views = vs, ca_data_size = n\<rparr>"
      using assms(1) by (auto simp: create_accessor_core_def ChannelAccessor_make_def bind_r_Inr_iff split: if_splits)
    then show ?thesis using map_channels_views [OF v(1) _ assms(3)] assms(2) Ranked
      by (simp add: core_places_def core_views_def core_bytes_def region_of_size_def)
  qed
  then show "core_places c \<noteq> []" "\<forall>v \<in> set (core_places c). dv_len v = unat sz" "core_bytes c = sz" by blast+
qed

text \<open>Both transfer managers bring the data of a region back.\<close>

lemma transfer_roundtrip:
  assumes "create_accessor_core M r = Inr c" "region_kind A r" "region_of_size sz r" "0 < sz" "apart (core_places c)" "length host = unat sz"
  shows "\<exists>m'. copy_to_device_impl (context_transfer_manager A) host c m = Inr (m', length host) \<and>
    (\<forall>old. length old = length host \<longrightarrow> copy_from_device_impl (context_transfer_manager A) c m' old = Inr (host, length host)) \<and>
    (\<forall>x. x \<notin> footprint (core_places c) \<longrightarrow> m' x = m x)"
proof (cases c)
  case (SequentialCore a)
  have "core_places c = [sa_view a]" using core_of_region(1) [OF assms(1,3,4)] SequentialCore
    by (simp add: core_places_def core_views_def nonempty_views_def split: if_splits)
  moreover have "context_transfer_manager A = ImdbTransferManager" using assms(1,2) SequentialCore
    by (auto simp: region_kind_def create_accessor_core_def context_transfer_manager_def bind_r_Inr_iff split: DeviceRegion.splits Allocator.splits)
  ultimately show ?thesis using imdb.roundtrip [of "sa_view a" host m] core_of_region(2) [OF assms(1,3,4)] assms(5,6) SequentialCore
    by (simp add: copy_to_device_impl_def copy_from_device_impl_def)
next
  case (ChannelCore a)
  have "context_transfer_manager A = ChannelTransferManager" using assms(1,2) ChannelCore
    by (auto simp: region_kind_def create_accessor_core_def context_transfer_manager_def bind_r_Inr_iff split: DeviceRegion.splits Allocator.splits)
  moreover have "core_places c = nonempty_views (ca_views a)" using ChannelCore by (simp add: core_places_def core_views_def)
  ultimately show ?thesis using channel.roundtrip [of "ca_views a" host m] core_of_region(1,2) [OF assms(1,3,4)] assms(5,6) ChannelCore
    by (simp add: copy_to_device_impl_def copy_from_device_impl_def)
qed

text \<open>
  C18: A buffer brings its data back: after copying the bound host range to the device, copying from the
  device restores the same bytes into the range, whatever the host memory holds by then, both for the
  database and the CXL context; device memory outside the buffer's views does not change.
\<close>

theorem buffer_transfer_roundtrip:
  assumes "buf_context b = Some A" "user_range b = (a, n)" "0 < n" "0 < st" "n * st < 2 ^ 64"
    "region_kind A (dr_value (dev_region b))" "region_of_size (of_nat (n * st)) (dr_value (dev_region b))"
    "create_accessor_core M (dr_value (dev_region b)) = Inr c" "apart (core_places c)"
  shows "\<exists>m'. Buffer_copy_to_device M st b h m = Inr (b\<lparr>offloaded := True\<rparr>, m', n) \<and>
    (\<forall>h'. Buffer_copy_from_device M st (b\<lparr>offloaded := True\<rparr>) h' m' = Inr (write_bytes h' a (read_bytes h a (n * st)), n)) \<and>
    (\<forall>x. x \<notin> footprint (core_places c) \<longrightarrow> m' x = m x)"
proof -
  have sz: "unat (of_nat (n * st) :: u64) = n * st" "(0 :: u64) < of_nat (n * st)"
    using assms(3-5) by (simp_all add: unat_of_nat take_bit_nat_eq_self word_less_nat_alt del: of_nat_mult)
  have cb: "core_bytes c = of_nat (n * st)" using core_of_region(3) [OF assms(8,7) sz(2)] .
  have acc: "direct_access M st b = Inr c" "accessor_size st c = n"
    using assms(4,8) cb sz(1) by (simp_all add: direct_access_def Accessor_make_def accessor_size_def del: of_nat_mult)
  obtain m' where m': "copy_to_device_impl (context_transfer_manager A) (read_bytes h a (n * st)) c m = Inr (m', n * st)"
    "\<And>old. length old = n * st \<Longrightarrow> copy_from_device_impl (context_transfer_manager A) c m' old = Inr (read_bytes h a (n * st), n * st)"
    "\<forall>x. x \<notin> footprint (core_places c) \<longrightarrow> m' x = m x"
    using transfer_roundtrip [OF assms(8,6,7) sz(2) assms(9), of "read_bytes h a (n * st)" m] sz(1) by auto
  have "direct_access M st (b\<lparr>offloaded := True\<rparr>) = Inr c" using acc(1) by (simp add: direct_access_def)
  then show ?thesis using m' acc assms(1-4)
    by (simp add: Buffer_copy_to_device_def Buffer_copy_from_device_def copy_to_device_def copy_from_device_def)
qed

text \<open>Four elements of four bytes, replicated over two channels.\<close>

theorem buffer_transfer_roundtrip_witness:
  "\<exists>b' m'. Buffer_copy_to_device ex_machine 4 ex_buffer (\<lambda>x. of_nat x) (\<lambda>_. 0) = Inr (b', m', 4) \<and>
    Buffer_copy_from_device ex_machine 4 b' (\<lambda>_. 7) m' = Inr (write_bytes (\<lambda>_. 7) 64 (read_bytes (\<lambda>x. of_nat x) 64 16), 4)"
proof -
  let ?c = "ChannelCore \<lparr>ca_region = [\<lparr>reg_start = 4096, reg_size = 16, reg_location = Some 0, reg_global = 0\<rparr>,
       \<lparr>reg_start = 4096, reg_size = 16, reg_location = Some 1, reg_global = 0\<rparr>],
       ca_views = [\<lparr>dv_addr = 4096, dv_len = 16\<rparr>, \<lparr>dv_addr = 0x40001000, dv_len = 16\<rparr>], ca_data_size = 16\<rparr>"
  have c: "create_accessor_core ex_machine (dr_value (dev_region ex_buffer)) = Inr ?c"
    by (simp add: create_accessor_core_def ex_buffer_def ChannelAccessor_make_def ex_machine_def fast_align_up_def channel_page_size_def
      MappedData_make_def get_view_def)
  have ap: "apart (core_places ?c)" by (auto simp: core_places_def core_views_def nonempty_views_def view_set_def)
  show ?thesis using buffer_transfer_roundtrip [of ex_buffer "RankedAllocator 2" 64 4 4 ex_machine ?c "\<lambda>x. of_nat x" "\<lambda>_. 0", OF _ _ _ _ _ _ _ c ap]
    by (auto simp: ex_buffer_def region_kind_def region_of_size_def)
qed

end
