(* ===== verification/Imdb_Device.thy ===== *)
theory Imdb_Device
  imports Software_Scan Device_Memory Sim_Protocol
begin

text \<open>
  The in-memory database device: its registers (\<open>include/pnmlib/imdb/libimdb.h\<close>), the scan operation
  that the host encodes into them (\<open>include/pnmlib/imdb/scan.h\<close>, \<open>imdb/operation/scan.cpp\<close>), the
  simulator's engine threads (\<open>core/device/imdb/simulator_core.cpp\<close>) and the runner
  (\<open>core/operation_runner/imdb/runner.cpp\<close>). The handshake of the runner and an engine thread is a
  step relation; the lemmas show that it runs the scan once and that its result is that of the plain
  scan.
\<close>

section \<open>Registers\<close>

record CommonCSR =
  IMDB_ID :: u32
  IMDB_CAP :: u32
  IMDB_RESET :: u32

text \<open>The padding fields hold no data.\<close>

record ThreadCSR =
  THREAD_CTRL :: u32
  THREAD_STATUS :: u32
  THREAD_ERROR :: u32
  THREAD_COMP_MODE :: u32
  THREAD_START_ADDR :: u64
  THREAD_SIZE_SB :: u64
  THREAD_MIN_VALUE :: u32
  THREAD_MAX_VALUE :: u32
  THREAD_MIN_OPCODE :: u32
  THREAD_MAX_OPCODE :: u32
  THREAD_RES_ADDR :: u64
  THREAD_RES_INDEX_OFFSET :: u64
  THREAD_RES_SIZE_SB :: u64
  THREAD_START_TIME :: u32
  THREAD_DONE_TIME :: u32
  THREAD_INLIST_ADDR :: u64
  THREAD_INLIST_SIZE :: u32
  THREAD_COLUMN_OFFSET :: u32
  THREAD_RSLT_LMT :: u32

definition IMDB_RESET_ENABLE :: u32 where "IMDB_RESET_ENABLE = 0"
definition IMDB_RESET_DISABLE :: u32 where "IMDB_RESET_DISABLE = 1"
definition THREAD_CTRL_STATUS_MASK :: u32 where "THREAD_CTRL_STATUS_MASK = 1"
definition THREAD_CTRL_OUTPUT_TYPE_MASK :: u32 where "THREAD_CTRL_OUTPUT_TYPE_MASK = 2"
definition THREAD_CTRL_START :: u32 where "THREAD_CTRL_START = 1"
definition THREAD_CTRL_BV :: u32 where "THREAD_CTRL_BV = 0"
definition THREAD_CTRL_IV :: u32 where "THREAD_CTRL_IV = 2"
definition THREAD_STATUS_BUSY :: u32 where "THREAD_STATUS_BUSY = 2"
definition THREAD_COMP_MODE_ENTRY_BIT_SIZE_MASK :: u32 where "THREAD_COMP_MODE_ENTRY_BIT_SIZE_MASK = push_bit 5 1 - 1"
definition THREAD_COMP_MODE_OPERATION_TYPE_MASK :: u32 where "THREAD_COMP_MODE_OPERATION_TYPE_MASK = push_bit 8 1"
definition THREAD_COMP_MODE_IN_RANGE :: u32 where "THREAD_COMP_MODE_IN_RANGE = 0"
definition THREAD_COMP_MODE_IN_LIST :: u32 where "THREAD_COMP_MODE_IN_LIST = push_bit 8 1"
definition THREAD_MIN_OPCODE_VALUE :: u32 where "THREAD_MIN_OPCODE_VALUE = 4"
definition THREAD_MAX_OPCODE_VALUE :: u32 where "THREAD_MAX_OPCODE_VALUE = 2"

lemmas csr_consts = THREAD_CTRL_STATUS_MASK_def THREAD_CTRL_OUTPUT_TYPE_MASK_def THREAD_CTRL_START_def THREAD_CTRL_BV_def THREAD_CTRL_IV_def
  THREAD_STATUS_BUSY_def THREAD_COMP_MODE_ENTRY_BIT_SIZE_MASK_def THREAD_COMP_MODE_OPERATION_TYPE_MASK_def THREAD_COMP_MODE_IN_RANGE_def
  THREAD_COMP_MODE_IN_LIST_def

section \<open>The scan operation\<close>

datatype OperationType = InRange | InList

datatype OutputType = BitVector | IndexVector

record Column =
  bit_compression :: u64
  elements_count :: u64
  column_data :: Buffer

record InListPredicate =
  il_max_value :: u64
  il_data :: Buffer

datatype ScanPredicate = RangePredicate RangeOperation | ListPredicate InListPredicate

record Scan =
  sc_column :: Column
  sc_predicate :: ScanPredicate
  sc_result :: Buffer
  sc_out_type :: OutputType
  sc_result_size :: u64
  sc_execution_time :: u64

definition valid_bit_counts :: "u64 list" where
  "valid_bit_counts = [1, 2, 3, 4, 5, 6, 7, 9, 10, 12, 16, 17, 18]"

definition validate_compression_bits :: "Column \<Rightarrow> bool result" where
  "validate_compression_bits col =
     (if bit_compression col \<notin> set valid_bit_counts then Inl (Throw InvalidArguments) else Inr True)"

definition Scan_make :: "Column \<Rightarrow> ScanPredicate \<Rightarrow> Buffer \<Rightarrow> OutputType \<Rightarrow> Scan result" where
  "Scan_make col predicate res out_type =
     bind_r (validate_compression_bits col) (\<lambda>_.
       Inr \<lparr>sc_column = col, sc_predicate = predicate, sc_result = res, sc_out_type = out_type, sc_result_size = 0, sc_execution_time = 0\<rparr>)"

definition address :: "Buffer \<Rightarrow> u64 result" where
  "address b = bind_r (get_sequential (dr_value (dev_region b))) (\<lambda>s. Inr (reg_start s))"

definition set_predicate_info :: "Scan \<Rightarrow> ThreadCSR \<Rightarrow> ThreadCSR result" where
  "set_predicate_info op csr =
     (case sc_predicate op of
        RangePredicate p \<Rightarrow>
          Inr (csr\<lparr>THREAD_COMP_MODE := THREAD_COMP_MODE csr OR THREAD_COMP_MODE_IN_RANGE,
            THREAD_MIN_VALUE := range_start p, THREAD_MAX_VALUE := range_end p,
            THREAD_MIN_OPCODE := THREAD_MIN_OPCODE_VALUE, THREAD_MAX_OPCODE := THREAD_MAX_OPCODE_VALUE,
            THREAD_INLIST_ADDR := 0, THREAD_INLIST_SIZE := 0\<rparr>)
      | ListPredicate p \<Rightarrow>
          bind_r (address (il_data p)) (\<lambda>a.
          Inr (csr\<lparr>THREAD_COMP_MODE := THREAD_COMP_MODE csr OR THREAD_COMP_MODE_IN_LIST,
            THREAD_MIN_VALUE := 0, THREAD_MAX_VALUE := 0,
            THREAD_MIN_OPCODE := THREAD_MIN_OPCODE_VALUE, THREAD_MAX_OPCODE := THREAD_MAX_OPCODE_VALUE,
            THREAD_INLIST_ADDR := a, THREAD_INLIST_SIZE := ucast (il_max_value p)\<rparr>)))"

definition set_output_type :: "Scan \<Rightarrow> ThreadCSR \<Rightarrow> ThreadCSR result" where
  "set_output_type op csr =
     bind_r (address (sc_result op)) (\<lambda>a.
       Inr (csr\<lparr>THREAD_CTRL := (if sc_out_type op = BitVector then THREAD_CTRL_BV else THREAD_CTRL_IV),
         THREAD_RES_ADDR := a,
         THREAD_RSLT_LMT := (if sc_out_type op = BitVector then 0 else ucast (buf_size (sc_result op)))\<rparr>))"

definition write_registers :: "Scan \<Rightarrow> ThreadCSR \<Rightarrow> ThreadCSR result" where
  "write_registers op csr =
     bind_r (address (column_data (sc_column op))) (\<lambda>a.
     bind_r (set_predicate_info op
       (csr\<lparr>THREAD_COMP_MODE := ucast (bit_compression (sc_column op) AND ucast THREAD_COMP_MODE_ENTRY_BIT_SIZE_MASK),
          THREAD_START_ADDR := a, THREAD_SIZE_SB := elements_count (sc_column op),
          THREAD_RES_INDEX_OFFSET := 0, THREAD_COLUMN_OFFSET := 0\<rparr>)) (set_output_type op))"

text \<open>The times are subtracted in 32 bits.\<close>

definition read_registers :: "ThreadCSR \<Rightarrow> u64 \<times> u64" where
  "read_registers csr = (THREAD_RES_SIZE_SB csr, ucast (THREAD_DONE_TIME csr - THREAD_START_TIME csr))"

section \<open>The engine of the simulator\<close>

record imdb_dev =
  common_csr :: CommonCSR
  com_status :: u32
  thread_csr :: "ThreadCSR list"
  dev_mem :: bmem
  dev_size :: nat

datatype ThreadStatus = Working | Idle

definition SimulatorCore_make :: "nat \<Rightarrow> imdb_dev \<Rightarrow> (imdb_dev \<times> AsyncSimulator) result" where
  "SimulatorCore_make num_of_threads d =
     bind_r (AsyncSimulator_make num_of_threads) (\<lambda>sim. bind_r (sim_start sim) (\<lambda>sim.
       Inr (d\<lparr>com_status := push_bit num_of_threads 1 - 1,
         common_csr := (common_csr d)\<lparr>IMDB_ID := 0b000000010001, IMDB_CAP := 0b11010000000000000000\<rparr>\<rparr>, sim)))"

definition set_imdb_com_status :: "nat \<Rightarrow> ThreadStatus \<Rightarrow> imdb_dev \<Rightarrow> imdb_dev" where
  "set_imdb_com_status t st d =
     (let mask = push_bit t 1 in
      d\<lparr>com_status := (case st of Idle \<Rightarrow> com_status d OR mask | Working \<Rightarrow> com_status d AND NOT mask)\<rparr>)"

definition compressed_view_from_raw :: "u64 \<Rightarrow> u64 \<Rightarrow> u64 \<Rightarrow> nat \<Rightarrow> column_view result" where
  "compressed_view_from_raw bits start n lim =
     bind_r (compressed_vector_storage_size bits n) (\<lambda>_.
       Inr \<lparr>col_addr = unat start, col_bits = unat bits, col_size = unat n, col_lim = lim\<rparr>)"

definition bit_view_from_raw :: "u64 \<Rightarrow> u64 \<Rightarrow> nat \<Rightarrow> list_pred result" where
  "bit_view_from_raw start n lim =
     bind_r (bit_vector_storage_size n) (\<lambda>_. Inr \<lparr>list_addr = unat start, list_size = unat n, list_lim = lim\<rparr>)"

text \<open>A predicate with its scans into index and bit vectors.\<close>

datatype engine_predicate = EngineRange RangeOperation | EngineList list_pred

definition invoke_index_scan :: "column_view \<Rightarrow> engine_predicate \<Rightarrow> out_view \<Rightarrow> bmem \<Rightarrow> (bmem \<times> nat) result" where
  "invoke_index_scan col predicate out m =
     (case predicate of EngineRange r \<Rightarrow> scan_range_iv col r out m | EngineList l \<Rightarrow> scan_list_iv col l out m)"

definition invoke_bit_scan :: "column_view \<Rightarrow> engine_predicate \<Rightarrow> out_view \<Rightarrow> bmem \<Rightarrow> (bmem \<times> nat) result" where
  "invoke_bit_scan col predicate out m =
     (case predicate of EngineRange r \<Rightarrow> scan_range_bv col r out m | EngineList l \<Rightarrow> scan_list_bv col l out m)"

text \<open>The two clock values are read from a timer.\<close>

definition dispatch_by_output_type ::
  "nat \<Rightarrow> u32 \<Rightarrow> u32 \<Rightarrow> OutputType \<Rightarrow> column_view \<Rightarrow> engine_predicate \<Rightarrow> ThreadCSR \<Rightarrow> bmem \<Rightarrow> (ThreadCSR \<times> bmem) result" where
  "dispatch_by_output_type lim t0 t1 output_type col predicate csr m =
     (case output_type of
        BitVector \<Rightarrow>
          bind_r (bit_view_from_raw (THREAD_RES_ADDR csr) (of_nat (col_size col)) lim) (\<lambda>v.
          bind_r (invoke_bit_scan col predicate \<lparr>out_addr = list_addr v, out_lim = lim\<rparr> m) (\<lambda>(m, _).
            Inr (csr\<lparr>THREAD_START_TIME := t0, THREAD_DONE_TIME := t1, THREAD_RES_SIZE_SB := THREAD_SIZE_SB csr\<rparr>, m)))
      | IndexVector \<Rightarrow>
          bind_r (invoke_index_scan col predicate
              \<lparr>out_addr = unat (THREAD_RES_ADDR csr + THREAD_RES_INDEX_OFFSET csr), out_lim = lim\<rparr> m) (\<lambda>(m, n).
            Inr (csr\<lparr>THREAD_START_TIME := t0, THREAD_DONE_TIME := t1, THREAD_RES_SIZE_SB := of_nat n\<rparr>, m)))"

definition dispatch_scan_operation ::
  "nat \<Rightarrow> u32 \<Rightarrow> u32 \<Rightarrow> OutputType \<Rightarrow> OperationType \<Rightarrow> column_view \<Rightarrow> ThreadCSR \<Rightarrow> bmem \<Rightarrow> (ThreadCSR \<times> bmem) result" where
  "dispatch_scan_operation lim t0 t1 output_type operation_type col csr m =
     (case operation_type of
        InList \<Rightarrow> bind_r (bit_view_from_raw (THREAD_INLIST_ADDR csr) (ucast (THREAD_INLIST_SIZE csr)) lim) (\<lambda>l.
          dispatch_by_output_type lim t0 t1 output_type col (EngineList l) csr m)
      | InRange \<Rightarrow> dispatch_by_output_type lim t0 t1 output_type col
          (EngineRange \<lparr>range_start = THREAD_MIN_VALUE csr, range_end = THREAD_MAX_VALUE csr\<rparr>) csr m)"

text \<open>The part of the worker's loop between setting the status and clearing the registers.\<close>

definition worker_scan :: "nat \<Rightarrow> u32 \<Rightarrow> u32 \<Rightarrow> ThreadCSR \<Rightarrow> bmem \<Rightarrow> (ThreadCSR \<times> bmem) result" where
  "worker_scan lim t0 t1 csr m =
     (let is_index_vec = THREAD_CTRL csr AND THREAD_CTRL_OUTPUT_TYPE_MASK = THREAD_CTRL_IV;
          is_in_list = THREAD_COMP_MODE csr AND THREAD_COMP_MODE_OPERATION_TYPE_MASK = THREAD_COMP_MODE_IN_LIST;
          bit_size = ucast (THREAD_COMP_MODE csr AND THREAD_COMP_MODE_ENTRY_BIT_SIZE_MASK) in
      assert_r (THREAD_COLUMN_OFFSET csr = 0)
       (bind_r (compressed_view_from_raw bit_size (THREAD_START_ADDR csr) (THREAD_SIZE_SB csr) lim) (\<lambda>col.
         dispatch_scan_operation lim t0 t1 (if is_index_vec then IndexVector else BitVector)
           (if is_in_list then InList else InRange) col csr m)))"

section \<open>The handshake of the runner and an engine thread\<close>

text \<open>
  The positions of the two threads: the host in \<open>run_and_wait\<close>, and the worker in one turn of its loop.
\<close>

datatype imdb_host = IStatus | ICtrl | IWait | IDone

datatype imdb_worker = EPoll | EBusy | EScan | EClear | EIdle | EStatus | EDead

record imdb_proto =
  idev :: imdb_dev
  ihost :: imdb_host
  iworker :: imdb_worker

definition upd_csr :: "nat \<Rightarrow> (ThreadCSR \<Rightarrow> ThreadCSR) \<Rightarrow> imdb_dev \<Rightarrow> imdb_dev" where
  "upd_csr t f d = d\<lparr>thread_csr := (thread_csr d)[t := f (thread_csr d ! t)]\<rparr>"

text \<open>Every step is one access of a register that both threads use, or the scan.\<close>

inductive imdb_step :: "nat \<Rightarrow> imdb_proto \<Rightarrow> imdb_proto \<Rightarrow> bool" for t where
  host_busy: "ihost s = IStatus \<Longrightarrow>
     imdb_step t s (s\<lparr>idev := upd_csr t (\<lambda>c. c\<lparr>THREAD_STATUS := THREAD_STATUS_BUSY\<rparr>) (idev s), ihost := ICtrl\<rparr>)"
| host_start: "ihost s = ICtrl \<Longrightarrow>
     imdb_step t s (s\<lparr>idev := upd_csr t (\<lambda>c. c\<lparr>THREAD_CTRL := THREAD_CTRL c OR THREAD_CTRL_START\<rparr>) (idev s), ihost := IWait\<rparr>)"
| host_yield: "\<lbrakk>ihost s = IWait; THREAD_STATUS (thread_csr (idev s) ! t) = THREAD_STATUS_BUSY\<rbrakk> \<Longrightarrow> imdb_step t s s"
| host_done: "\<lbrakk>ihost s = IWait; THREAD_STATUS (thread_csr (idev s) ! t) \<noteq> THREAD_STATUS_BUSY\<rbrakk> \<Longrightarrow>
     imdb_step t s (s\<lparr>ihost := IDone\<rparr>)"
| worker_yield: "\<lbrakk>iworker s = EPoll; THREAD_CTRL (thread_csr (idev s) ! t) AND THREAD_CTRL_STATUS_MASK = 0\<rbrakk> \<Longrightarrow> imdb_step t s s"
| worker_start: "\<lbrakk>iworker s = EPoll; THREAD_CTRL (thread_csr (idev s) ! t) AND THREAD_CTRL_STATUS_MASK \<noteq> 0\<rbrakk> \<Longrightarrow>
     imdb_step t s (s\<lparr>idev := set_imdb_com_status t Working (idev s), iworker := EBusy\<rparr>)"
| worker_busy: "iworker s = EBusy \<Longrightarrow>
     imdb_step t s (s\<lparr>idev := upd_csr t (\<lambda>c. c\<lparr>THREAD_STATUS := THREAD_STATUS_BUSY\<rparr>) (idev s), iworker := EScan\<rparr>)"
| worker_scan: "\<lbrakk>iworker s = EScan; worker_scan (dev_size (idev s)) t0 t1 (thread_csr (idev s) ! t) (dev_mem (idev s)) = Inr (c, m)\<rbrakk> \<Longrightarrow>
     imdb_step t s (s\<lparr>idev := upd_csr t (\<lambda>_. c) (idev s)\<lparr>dev_mem := m\<rparr>, iworker := EClear\<rparr>)"
| worker_throw: "\<lbrakk>iworker s = EScan; worker_scan (dev_size (idev s)) t0 t1 (thread_csr (idev s) ! t) (dev_mem (idev s)) = Inl e\<rbrakk> \<Longrightarrow>
     imdb_step t s (s\<lparr>iworker := EDead\<rparr>)"
| worker_clear: "iworker s = EClear \<Longrightarrow>
     imdb_step t s (s\<lparr>idev := upd_csr t (\<lambda>c. c\<lparr>THREAD_ERROR := 0, THREAD_CTRL := 0\<rparr>) (idev s), iworker := EIdle\<rparr>)"
| worker_idle: "iworker s = EIdle \<Longrightarrow> imdb_step t s (s\<lparr>idev := set_imdb_com_status t Idle (idev s), iworker := EStatus\<rparr>)"
| worker_status: "iworker s = EStatus \<Longrightarrow>
     imdb_step t s (s\<lparr>idev := upd_csr t (\<lambda>c. c\<lparr>THREAD_STATUS := 0\<rparr>) (idev s), iworker := EPoll\<rparr>)"

definition imdb_init :: "imdb_dev \<Rightarrow> imdb_proto" where
  "imdb_init d = \<lparr>idev = d, ihost = IStatus, iworker = EPoll\<rparr>"

text \<open>What a run of the handshake amounts to: the scan on the started registers, then the cleared ones.\<close>

definition run_and_wait :: "nat \<Rightarrow> u32 \<Rightarrow> u32 \<Rightarrow> imdb_dev \<Rightarrow> imdb_dev result" where
  "run_and_wait t t0 t1 d =
     (let c = thread_csr d ! t in
      bind_r (worker_scan (dev_size d) t0 t1 (c\<lparr>THREAD_STATUS := THREAD_STATUS_BUSY, THREAD_CTRL := THREAD_CTRL c OR THREAD_CTRL_START\<rparr>) (dev_mem d))
        (\<lambda>(c', m). Inr (set_imdb_com_status t Idle
          (upd_csr t (\<lambda>_. c'\<lparr>THREAD_ERROR := 0, THREAD_CTRL := 0, THREAD_STATUS := 0\<rparr>) d\<lparr>dev_mem := m\<rparr>))))"

section \<open>The device and the runner\<close>

definition imdb_lock_thread :: "int + u8 \<Rightarrow> AsyncSimulator \<Rightarrow> (u8 \<times> AsyncSimulator) result" where
  "imdb_lock_thread rc sim =
     (case rc of Inl err \<Rightarrow> Inl (throw_from_errno err)
      | Inr t \<Rightarrow> bind_r (enable_thread sim (unat t)) (\<lambda>sim. Inr (t, sim)))"

definition imdb_release_thread :: "int + unit \<Rightarrow> u8 \<Rightarrow> AsyncSimulator \<Rightarrow> AsyncSimulator result" where
  "imdb_release_thread rc t sim =
     bind_r (disable_thread sim (unat t)) (\<lambda>sim. case rc of Inl err \<Rightarrow> Inl (throw_from_errno err) | Inr _ \<Rightarrow> Inr sim)"

definition get_csr :: "imdb_dev \<Rightarrow> u8 \<Rightarrow> ThreadCSR result" where
  "get_csr d t = assert_r (unat t < length (thread_csr d)) (Inr (thread_csr d ! unat t))"

definition hardware_reset :: "imdb_dev \<Rightarrow> imdb_dev" where
  "hardware_reset d =
     (let d = d\<lparr>common_csr := (common_csr d)\<lparr>IMDB_RESET := IMDB_RESET_ENABLE\<rparr>\<rparr> in
      d\<lparr>common_csr := (common_csr d)\<lparr>IMDB_RESET := IMDB_RESET_DISABLE\<rparr>\<rparr>)"

text \<open>
  Running an operation; the answers of the resource manager and the timer's values are arguments. An
  exception leaves the thread locked.
\<close>

definition run_operator ::
  "int + u8 \<Rightarrow> int + unit \<Rightarrow> u32 \<Rightarrow> u32 \<Rightarrow> Scan \<Rightarrow> imdb_dev \<Rightarrow> AsyncSimulator \<Rightarrow> ((u64 \<times> u64) \<times> imdb_dev \<times> AsyncSimulator) result" where
  "run_operator lock_rc release_rc t0 t1 op d sim =
     bind_r (imdb_lock_thread lock_rc sim) (\<lambda>(t, sim).
     bind_r (get_csr d t) (\<lambda>csr.
     bind_r (write_registers op csr) (\<lambda>csr.
     bind_r (run_and_wait (unat t) t0 t1 (upd_csr (unat t) (\<lambda>_. csr) d)) (\<lambda>d.
     bind_r (get_csr d t) (\<lambda>csr.
     bind_r (imdb_release_thread release_rc t sim) (\<lambda>sim. Inr (read_registers csr, d, sim)))))))"

definition scan_dispatch ::
  "int + u8 \<Rightarrow> int + unit \<Rightarrow> u32 \<Rightarrow> u32 \<Rightarrow> Scan \<Rightarrow> imdb_dev \<Rightarrow> AsyncSimulator \<Rightarrow> (Scan \<times> imdb_dev \<times> AsyncSimulator) result" where
  "scan_dispatch lock_rc release_rc t0 t1 op d sim =
     bind_r (run_operator lock_rc release_rc t0 t1 op d sim) (\<lambda>((n, time), d, sim).
       Inr (op\<lparr>sc_execution_time := time, sc_result_size := n\<rparr>, d, sim))"

section \<open>Specification of the handshake\<close>

definition csr_started :: "ThreadCSR \<Rightarrow> ThreadCSR" where
  "csr_started c = c\<lparr>THREAD_STATUS := THREAD_STATUS_BUSY, THREAD_CTRL := THREAD_CTRL c OR THREAD_CTRL_START\<rparr>"

text \<open>A possible outcome of the scan that the started registers ask for.\<close>

definition scan_outcome :: "nat \<Rightarrow> imdb_dev \<Rightarrow> (ThreadCSR \<times> bmem) result \<Rightarrow> bool" where
  "scan_outcome t d r \<longleftrightarrow> (\<exists>t0 t1. worker_scan (dev_size d) t0 t1 (csr_started (thread_csr d ! t)) (dev_mem d) = r)"

definition dev_with :: "nat \<Rightarrow> (imdb_dev \<Rightarrow> imdb_dev) \<Rightarrow> ThreadCSR \<Rightarrow> bmem \<Rightarrow> imdb_dev \<Rightarrow> imdb_dev" where
  "dev_with t st c m d = upd_csr t (\<lambda>_. c) (st d)\<lparr>dev_mem := m\<rparr>"

definition cleared :: "ThreadCSR \<Rightarrow> ThreadCSR" where
  "cleared c = c\<lparr>THREAD_ERROR := 0, THREAD_CTRL := 0\<rparr>"

definition finished_dev :: "nat \<Rightarrow> imdb_dev \<Rightarrow> imdb_dev \<Rightarrow> bool" where
  "finished_dev t d d' \<longleftrightarrow> (\<exists>c m. scan_outcome t d (Inr (c, m)) \<and>
     d' = dev_with t (set_imdb_com_status t Idle) ((cleared c)\<lparr>THREAD_STATUS := 0\<rparr>) m d)"

text \<open>The device in the reachable states, by the positions of the two threads.\<close>

definition imdb_inv :: "nat \<Rightarrow> imdb_dev \<Rightarrow> imdb_proto \<Rightarrow> bool" where
  "imdb_inv t d s \<longleftrightarrow>
     (case (ihost s, iworker s) of
        (IStatus, EPoll) \<Rightarrow> idev s = d
      | (ICtrl, EPoll) \<Rightarrow> idev s = upd_csr t (\<lambda>c. c\<lparr>THREAD_STATUS := THREAD_STATUS_BUSY\<rparr>) d
      | (IWait, EPoll) \<Rightarrow> idev s = upd_csr t csr_started d \<or> finished_dev t d (idev s)
      | (IWait, EBusy) \<Rightarrow> idev s = upd_csr t csr_started (set_imdb_com_status t Working d)
      | (IWait, EScan) \<Rightarrow> idev s = upd_csr t csr_started (set_imdb_com_status t Working d)
      | (IWait, EClear) \<Rightarrow> (\<exists>c m. scan_outcome t d (Inr (c, m)) \<and> idev s = dev_with t (set_imdb_com_status t Working) c m d)
      | (IWait, EIdle) \<Rightarrow> (\<exists>c m. scan_outcome t d (Inr (c, m)) \<and> idev s = dev_with t (set_imdb_com_status t Working) (cleared c) m d)
      | (IWait, EStatus) \<Rightarrow> (\<exists>c m. scan_outcome t d (Inr (c, m)) \<and> idev s = dev_with t (set_imdb_com_status t Idle) (cleared c) m d)
      | (IWait, EDead) \<Rightarrow> (\<exists>e. scan_outcome t d (Inl e)) \<and> idev s = upd_csr t csr_started (set_imdb_com_status t Working d)
      | (IDone, EPoll) \<Rightarrow> finished_dev t d (idev s)
      | _ \<Rightarrow> False)"

text \<open>The number of steps that are left.\<close>

definition imdb_rank :: "nat \<Rightarrow> imdb_proto \<Rightarrow> nat" where
  "imdb_rank t s =
     (case ihost s of IStatus \<Rightarrow> 10 | ICtrl \<Rightarrow> 9 | IDone \<Rightarrow> 0
      | IWait \<Rightarrow> (case iworker s of
          EPoll \<Rightarrow> if THREAD_CTRL (thread_csr (idev s) ! t) AND THREAD_CTRL_STATUS_MASK \<noteq> 0 then 8 else 1
        | EBusy \<Rightarrow> 7 | EScan \<Rightarrow> 6 | EClear \<Rightarrow> 5 | EIdle \<Rightarrow> 4 | EStatus \<Rightarrow> 3 | EDead \<Rightarrow> 2))"

text \<open>The column, the predicate and the place of the result of an operation, in the memory of a device.\<close>

definition op_column :: "Scan \<Rightarrow> nat \<Rightarrow> column_view result" where
  "op_column op lim = bind_r (address (column_data (sc_column op))) (\<lambda>a.
     Inr \<lparr>col_addr = unat a, col_bits = unat (bit_compression (sc_column op)), col_size = unat (elements_count (sc_column op)), col_lim = lim\<rparr>)"

definition op_predicate :: "Scan \<Rightarrow> nat \<Rightarrow> engine_predicate result" where
  "op_predicate op lim = (case sc_predicate op of RangePredicate p \<Rightarrow> Inr (EngineRange p)
     | ListPredicate p \<Rightarrow> bind_r (address (il_data p)) (\<lambda>a.
         Inr (EngineList \<lparr>list_addr = unat a, list_size = unat (ucast (il_max_value p) :: u32), list_lim = lim\<rparr>)))"

definition op_out :: "Scan \<Rightarrow> nat \<Rightarrow> out_view result" where
  "op_out op lim = bind_r (address (sc_result op)) (\<lambda>a. Inr \<lparr>out_addr = unat a, out_lim = lim\<rparr>)"

definition op_scan :: "Scan \<Rightarrow> column_view \<Rightarrow> engine_predicate \<Rightarrow> out_view \<Rightarrow> bmem \<Rightarrow> (bmem \<times> nat) result" where
  "op_scan op col pr out m = (case sc_out_type op of BitVector \<Rightarrow> invoke_bit_scan col pr out m | IndexVector \<Rightarrow> invoke_index_scan col pr out m)"

text \<open>The number that an operation reports: the rows of the column, or the row numbers found.\<close>

definition op_result_size :: "Scan \<Rightarrow> nat \<Rightarrow> u64" where
  "op_result_size op n = (case sc_out_type op of BitVector \<Rightarrow> elements_count (sc_column op) | IndexVector \<Rightarrow> of_nat n)"

definition thread_free :: "AsyncSimulator \<Rightarrow> nat \<Rightarrow> bool" where
  "thread_free sim t \<longleftrightarrow> thread_pool sim \<and> t < length (thread_controls sim) \<and> \<not> finished_valid (thread_controls sim ! t)"

text \<open>The concrete column of the software scans as an operation: the column and the list in device memory, the result behind them.\<close>

definition ex_seq :: "u64 \<Rightarrow> u64 \<Rightarrow> Buffer" where
  "ex_seq a n = Buffer_of_region 4 (Sequential \<lparr>reg_start = a, reg_size = n, reg_location = Some 0, reg_global = 0\<rparr>) None Map.empty"

definition ex_op :: "ScanPredicate \<Rightarrow> OutputType \<Rightarrow> Scan" where
  "ex_op p ot = \<lparr>sc_column = \<lparr>bit_compression = 4, elements_count = 3, column_data = ex_seq 0 128\<rparr>, sc_predicate = p,
     sc_result = ex_seq 132 32, sc_out_type = ot, sc_result_size = 0, sc_execution_time = 0\<rparr>"

definition ex_csr :: ThreadCSR where
  "ex_csr = \<lparr>THREAD_CTRL = 0, THREAD_STATUS = 0, THREAD_ERROR = 0, THREAD_COMP_MODE = 0, THREAD_START_ADDR = 0, THREAD_SIZE_SB = 0,
     THREAD_MIN_VALUE = 0, THREAD_MAX_VALUE = 0, THREAD_MIN_OPCODE = 0, THREAD_MAX_OPCODE = 0, THREAD_RES_ADDR = 0,
     THREAD_RES_INDEX_OFFSET = 0, THREAD_RES_SIZE_SB = 0, THREAD_START_TIME = 0, THREAD_DONE_TIME = 0, THREAD_INLIST_ADDR = 0,
     THREAD_INLIST_SIZE = 0, THREAD_COLUMN_OFFSET = 0, THREAD_RSLT_LMT = 0\<rparr>"

definition ex_dev :: "ThreadCSR \<Rightarrow> imdb_dev" where
  "ex_dev csr = \<lparr>common_csr = \<lparr>IMDB_ID = 0, IMDB_CAP = 0, IMDB_RESET = 0\<rparr>, com_status = 1, thread_csr = [csr], dev_mem = ex_mem, dev_size = 164\<rparr>"

definition ex_sim :: AsyncSimulator where
  "ex_sim = \<lparr>thread_pool = True, thread_controls = [\<lparr>stop_flag = False, finished_valid = False\<rparr>]\<rparr>"

definition ex_col164 :: column_view where
  "ex_col164 = ex_column\<lparr>col_lim := 164\<rparr>"

definition ex_pred164 :: list_pred where
  "ex_pred164 = ex_pred\<lparr>list_lim := 164\<rparr>"

section \<open>Lemmas on the handshake\<close>

lemma com_status_simps [simp]:
  "thread_csr (set_imdb_com_status t st d) = thread_csr d" "dev_mem (set_imdb_com_status t st d) = dev_mem d"
  "dev_size (set_imdb_com_status t st d) = dev_size d"
  "set_imdb_com_status t Idle (set_imdb_com_status t Working d) = set_imdb_com_status t Idle d"
proof -
  have "(x AND NOT y) OR y = x OR y" for x y :: u32 by (rule bit_word_eqI) (auto simp: bit_simps)
  then show "set_imdb_com_status t Idle (set_imdb_com_status t Working d) = set_imdb_com_status t Idle d"
    by (simp add: set_imdb_com_status_def Let_def)
qed (simp_all add: set_imdb_com_status_def Let_def)

lemma com_status_update [simp]:
  "set_imdb_com_status t st (d\<lparr>thread_csr := cs\<rparr>) = (set_imdb_com_status t st d)\<lparr>thread_csr := cs\<rparr>"
  "set_imdb_com_status t st (d\<lparr>dev_mem := m\<rparr>) = (set_imdb_com_status t st d)\<lparr>dev_mem := m\<rparr>"
  by (cases st; simp add: set_imdb_com_status_def Let_def)+

lemma upd_csr_upd [simp]: "upd_csr t f (upd_csr t g d) = upd_csr t (\<lambda>c. f (g c)) d"
  by (cases "t < length (thread_csr d)") (simp_all add: upd_csr_def list_update_beyond)

lemma upd_csr_simps [simp]:
  "t < length (thread_csr d) \<Longrightarrow> thread_csr (upd_csr t f d) ! t = f (thread_csr d ! t)"
  "dev_mem (upd_csr t f d) = dev_mem d" "dev_size (upd_csr t f d) = dev_size d"
  "length (thread_csr (upd_csr t f d)) = length (thread_csr d)"
  "set_imdb_com_status t st (upd_csr t f d) = upd_csr t f (set_imdb_com_status t st d)"
  by (simp_all add: upd_csr_def)

lemma dev_with_simps [simp]:
  "t < length (thread_csr d) \<Longrightarrow> thread_csr (dev_with t (set_imdb_com_status t st) c m d) ! t = c"
  "t < length (thread_csr d) \<Longrightarrow> upd_csr t f (dev_with t (set_imdb_com_status t st) c m d) = dev_with t (set_imdb_com_status t st) (f c) m d"
  "set_imdb_com_status t Idle (dev_with t (set_imdb_com_status t Working) c m d) = dev_with t (set_imdb_com_status t Idle) c m d"
  by (simp_all add: dev_with_def) (simp_all add: upd_csr_def)

text \<open>A scan changes only the times and the size of the result.\<close>

lemma worker_scan_keeps:
  assumes "worker_scan lim t0 t1 csr m = Inr (c, m')"
  shows "THREAD_STATUS c = THREAD_STATUS csr"
proof -
  have "THREAD_STATUS c' = THREAD_STATUS csr" if "dispatch_by_output_type lim t0 t1 ot col pr csr m = Inr (c', m')" for ot col pr c' m'
    using that by (auto simp: dispatch_by_output_type_def bind_r_Inr_iff split: OutputType.splits)
  then show ?thesis using assms
    by (auto simp: worker_scan_def dispatch_scan_operation_def Let_def assert_r_Inr_iff bind_r_Inr_iff split: OperationType.splits if_splits)
qed

lemma csr_started_busy: "(csr_started c)\<lparr>THREAD_STATUS := THREAD_STATUS_BUSY\<rparr> = csr_started c"
  by (simp add: csr_started_def)

lemma scan_outcome_status: "scan_outcome t d (Inr (c, m)) \<Longrightarrow> THREAD_STATUS c = THREAD_STATUS_BUSY"
  unfolding scan_outcome_def by (auto dest!: worker_scan_keeps simp: csr_started_def)

lemma start_bit: "(x OR THREAD_CTRL_START) AND THREAD_CTRL_STATUS_MASK \<noteq> 0" for x :: u32
proof -
  have "bit ((x OR 1) AND 1) 0" by (simp add: bit_simps)
  then show ?thesis by (auto simp: csr_consts)
qed

lemma finished_regs:
  assumes "finished_dev t d d'" "t < length (thread_csr d)"
  shows "THREAD_STATUS (thread_csr d' ! t) \<noteq> THREAD_STATUS_BUSY" "THREAD_CTRL (thread_csr d' ! t) AND THREAD_CTRL_STATUS_MASK = 0"
  using assms by (auto simp: finished_dev_def cleared_def csr_consts)

lemma imdb_inv_step:
  assumes "imdb_step t s s'" "imdb_inv t d s" and t: "t < length (thread_csr d)"
    and idle: "THREAD_CTRL (thread_csr d ! t) AND THREAD_CTRL_STATUS_MASK = 0"
  shows "imdb_inv t d s'"
  using assms(1,2)
proof cases
  case host_busy
  then show ?thesis using assms(2) by (auto simp: imdb_inv_def split: imdb_worker.splits)
next
  case host_start
  then show ?thesis using assms(2) by (auto simp: imdb_inv_def csr_started_def [abs_def] split: imdb_worker.splits)
next
  case host_done
  then show ?thesis using assms(2) t scan_outcome_status
    by (auto simp: imdb_inv_def csr_started_def cleared_def split: imdb_worker.splits)
next
  case worker_start
  then show ?thesis using assms(2) t idle finished_regs(2) by (auto simp: imdb_inv_def split: imdb_host.splits)
next
  case worker_busy
  then show ?thesis using assms(2) by (auto simp: imdb_inv_def csr_started_busy split: imdb_host.splits)
next
  case (worker_scan t0 t1 c m)
  then have h: "ihost s = IWait" "idev s = upd_csr t csr_started (set_imdb_com_status t Working d)"
    using assms(2) by (auto simp: imdb_inv_def split: imdb_host.splits)
  then have "scan_outcome t d (Inr (c, m))" using worker_scan(3) t unfolding scan_outcome_def by auto
  then show ?thesis using worker_scan h by (auto simp: imdb_inv_def dev_with_def)
next
  case (worker_throw t0 t1 e)
  then have h: "ihost s = IWait" "idev s = upd_csr t csr_started (set_imdb_com_status t Working d)"
    using assms(2) by (auto simp: imdb_inv_def split: imdb_host.splits)
  then have "scan_outcome t d (Inl e)" using worker_throw(3) t unfolding scan_outcome_def by auto
  then show ?thesis using worker_throw h by (auto simp: imdb_inv_def)
next
  case worker_clear
  then show ?thesis using assms(2) t by (fastforce simp: imdb_inv_def cleared_def [symmetric] split: imdb_host.splits)
next
  case worker_idle
  then show ?thesis using assms(2) t by (fastforce simp: imdb_inv_def split: imdb_host.splits)
next
  case worker_status
  then show ?thesis using assms(2) t by (fastforce simp: imdb_inv_def finished_dev_def split: imdb_host.splits)
qed simp_all

lemma run_and_wait_finished:
  assumes "t < length (thread_csr d)"
  shows "finished_dev t d d' \<longleftrightarrow> (\<exists>t0 t1. run_and_wait t t0 t1 d = Inr d')"
proof -
  have "run_and_wait t t0 t1 d = Inr d' \<longleftrightarrow> (\<exists>c m. worker_scan (dev_size d) t0 t1 (csr_started (thread_csr d ! t)) (dev_mem d) = Inr (c, m) \<and>
      d' = dev_with t (set_imdb_com_status t Idle) ((cleared c)\<lparr>THREAD_STATUS := 0\<rparr>) m d)" for t0 t1
    by (auto simp: run_and_wait_def Let_def bind_r_Inr_iff csr_started_def dev_with_def cleared_def)
  then show ?thesis unfolding finished_dev_def scan_outcome_def by blast
qed

lemma imdb_inv_reachable:
  assumes "(imdb_step t)\<^sup>*\<^sup>* (imdb_init d) s" "t < length (thread_csr d)" "THREAD_CTRL (thread_csr d ! t) AND THREAD_CTRL_STATUS_MASK = 0"
  shows "imdb_inv t d s"
  using assms(1)
proof (induction rule: rtranclp_induct)
  case base
  show ?case by (simp add: imdb_inv_def imdb_init_def)
next
  case (step y z)
  then show ?case using imdb_inv_step assms(2,3) by blast
qed

lemma imdb_inv_progress:
  assumes "imdb_inv t d s" "ihost s \<noteq> IDone" "t < length (thread_csr d)" "\<nexists>e. scan_outcome t d (Inl e)"
    "THREAD_CTRL (thread_csr d ! t) AND THREAD_CTRL_STATUS_MASK = 0"
  shows "\<exists>s'. imdb_step t s s' \<and> imdb_rank t s' < imdb_rank t s"
proof (cases "ihost s")
  case IStatus
  then show ?thesis by - (intro exI conjI, rule imdb_step.host_busy, simp_all add: imdb_rank_def)
next
  case ICtrl
  then show ?thesis by - (intro exI conjI, rule imdb_step.host_start, auto simp: imdb_rank_def split: imdb_worker.splits)
next
  case IWait
  then consider (poll) "iworker s = EPoll" | (busy) "iworker s = EBusy" | (scan) "iworker s = EScan" | (clear) "iworker s = EClear"
    | (idle) "iworker s = EIdle" | (status) "iworker s = EStatus" using assms(1,4) by (cases "iworker s") (auto simp: imdb_inv_def)
  then show ?thesis
  proof cases
    case poll
    show ?thesis
    proof (cases "finished_dev t d (idev s)")
      case True
      show ?thesis using IWait poll finished_regs [OF True assms(3)]
        by - (intro exI conjI, rule imdb_step.host_done, simp_all add: imdb_rank_def)
    next
      case False
      then have "idev s = upd_csr t csr_started d" using assms(1) IWait poll by (simp add: imdb_inv_def)
      then have "THREAD_CTRL (thread_csr (idev s) ! t) AND THREAD_CTRL_STATUS_MASK \<noteq> 0" using assms(3) start_bit by (simp add: csr_started_def)
      then show ?thesis using IWait poll by - (intro exI conjI, rule imdb_step.worker_start, simp_all add: imdb_rank_def)
    qed
  next
    case busy
    then show ?thesis using IWait by - (intro exI conjI, rule imdb_step.worker_busy, simp_all add: imdb_rank_def)
  next
    case scan
    let ?r = "worker_scan (dev_size (idev s)) 0 0 (thread_csr (idev s) ! t) (dev_mem (idev s))"
    have "idev s = upd_csr t csr_started (set_imdb_com_status t Working d)" using assms(1) IWait scan by (simp add: imdb_inv_def)
    then have "scan_outcome t d ?r" using assms(3) unfolding scan_outcome_def by auto
    then obtain c m where "?r = Inr (c, m)" using assms(4) by (cases ?r) auto
    then show ?thesis using IWait scan by - (intro exI conjI, rule imdb_step.worker_scan, simp_all add: imdb_rank_def)
  next
    case clear
    then show ?thesis using IWait by - (intro exI conjI, rule imdb_step.worker_clear, simp_all add: imdb_rank_def)
  next
    case idle
    then show ?thesis using IWait by - (intro exI conjI, rule imdb_step.worker_idle, simp_all add: imdb_rank_def)
  next
    case status
    have "THREAD_CTRL (thread_csr (upd_csr t (\<lambda>c. c\<lparr>THREAD_STATUS := 0\<rparr>) (idev s)) ! t) = 0"
      using assms(1,3) IWait status by (auto simp: imdb_inv_def cleared_def)
    then show ?thesis using IWait status by - (intro exI conjI, rule imdb_step.worker_status, simp_all add: imdb_rank_def)
  qed
qed (use assms(2) in simp)

lemma imdb_inv_completes:
  assumes "imdb_inv t d s" "t < length (thread_csr d)" "\<nexists>e. scan_outcome t d (Inl e)"
    "THREAD_CTRL (thread_csr d ! t) AND THREAD_CTRL_STATUS_MASK = 0"
  shows "\<exists>s'. (imdb_step t)\<^sup>*\<^sup>* s s' \<and> ihost s' = IDone"
  using assms(1)
proof (induction "imdb_rank t s" arbitrary: s rule: less_induct)
  case less
  show ?case
  proof (cases "ihost s = IDone")
    case False
    then obtain s1 where s1: "imdb_step t s s1" "imdb_rank t s1 < imdb_rank t s" using imdb_inv_progress less.prems assms(2-4) by blast
    then have "imdb_inv t d s1" using imdb_inv_step less.prems assms(2,4) by blast
    then show ?thesis using less.hyps [OF s1(2)] s1(1) by (meson converse_rtranclp_into_rtranclp)
  qed blast
qed

text \<open>
  C11: The handshake of the runner with an engine thread is correct and ends: when the host leaves its
  waiting loop, the device is in the state that running the scan once and clearing the registers gives,
  in every interleaving of the two threads; and as long as the scan itself does not fail, the host
  can always get there.
\<close>

theorem imdb_run_refines_sequential:
  assumes "t < length (thread_csr d)" "THREAD_CTRL (thread_csr d ! t) AND THREAD_CTRL_STATUS_MASK = 0"
    "(imdb_step t)\<^sup>*\<^sup>* (imdb_init d) s"
  shows "(ihost s = IDone \<longrightarrow> (\<exists>t0 t1. run_and_wait t t0 t1 d = Inr (idev s))) \<and>
    ((\<forall>t0 t1. \<exists>d'. run_and_wait t t0 t1 d = Inr d') \<longrightarrow> (\<exists>s'. (imdb_step t)\<^sup>*\<^sup>* s s' \<and> ihost s' = IDone))"
proof (intro conjI impI)
  have inv: "imdb_inv t d s" using imdb_inv_reachable [OF assms(3,1,2)] .
  show "\<exists>t0 t1. run_and_wait t t0 t1 d = Inr (idev s)" if "ihost s = IDone"
    using inv that run_and_wait_finished [OF assms(1)] by (auto simp: imdb_inv_def split: imdb_worker.splits)
  assume ok: "\<forall>t0 t1. \<exists>d'. run_and_wait t t0 t1 d = Inr d'"
  have "\<nexists>e. scan_outcome t d (Inl e)"
  proof
    assume "\<exists>e. scan_outcome t d (Inl e)"
    then obtain t0 t1 e where "worker_scan (dev_size d) t0 t1 (csr_started (thread_csr d ! t)) (dev_mem d) = Inl e"
      unfolding scan_outcome_def by blast
    then have "run_and_wait t t0 t1 d = Inl e" by (simp add: run_and_wait_def Let_def csr_started_def)
    then show False using ok by (metis sum.distinct(1))
  qed
  then show "\<exists>s'. (imdb_step t)\<^sup>*\<^sup>* s s' \<and> ihost s' = IDone" using imdb_inv_completes [OF inv assms(1) _ assms(2)] by blast
qed

section \<open>Lemmas on running an operation\<close>

lemma storage_size_defined:
  "\<exists>x. compressed_vector_storage_size b n = Inr x" "\<exists>x. bit_vector_storage_size n = Inr x"
  by (simp_all add: compressed_vector_storage_size_def bit_vector_storage_size_def aligned_storage_size_def align_size_def BIT_IN_BYTE_def)

lemma views_from_raw:
  "compressed_view_from_raw b a n lim = Inr \<lparr>col_addr = unat a, col_bits = unat b, col_size = unat n, col_lim = lim\<rparr>"
  "bit_view_from_raw a n lim = Inr \<lparr>list_addr = unat a, list_size = unat n, list_lim = lim\<rparr>"
  using storage_size_defined(1) [of b n] storage_size_defined(2) [of n] by (auto simp: compressed_view_from_raw_def bit_view_from_raw_def)

lemma mode_fields:
  assumes "b \<in> set valid_bit_counts"
  defines "x \<equiv> (ucast (b AND ucast THREAD_COMP_MODE_ENTRY_BIT_SIZE_MASK) :: u32)"
  shows "ucast ((x OR THREAD_COMP_MODE_IN_RANGE) AND THREAD_COMP_MODE_ENTRY_BIT_SIZE_MASK) = b"
    "(x OR THREAD_COMP_MODE_IN_RANGE) AND THREAD_COMP_MODE_OPERATION_TYPE_MASK \<noteq> THREAD_COMP_MODE_IN_LIST"
    "ucast ((x OR THREAD_COMP_MODE_IN_LIST) AND THREAD_COMP_MODE_ENTRY_BIT_SIZE_MASK) = b"
    "(x OR THREAD_COMP_MODE_IN_LIST) AND THREAD_COMP_MODE_OPERATION_TYPE_MASK = THREAD_COMP_MODE_IN_LIST"
  using assms(1) unfolding x_def by (auto simp: valid_bit_counts_def csr_consts)


lemma ctrl_bits:
  "(THREAD_CTRL_BV OR THREAD_CTRL_START) AND THREAD_CTRL_OUTPUT_TYPE_MASK \<noteq> THREAD_CTRL_IV"
  "(THREAD_CTRL_IV OR THREAD_CTRL_START) AND THREAD_CTRL_OUTPUT_TYPE_MASK = THREAD_CTRL_IV"
  "THREAD_CTRL_BV AND THREAD_CTRL_STATUS_MASK = 0" "THREAD_CTRL_IV AND THREAD_CTRL_STATUS_MASK = 0"
  by (simp_all add: csr_consts)

text \<open>The engine decodes what the host has encoded.\<close>

lemma written_registers:
  assumes "bit_compression (sc_column op) \<in> set valid_bit_counts" "op_column op lim = Inr col" "op_predicate op lim = Inr pr" "op_out op lim = Inr out"
  shows "\<exists>csr'. write_registers op csr = Inr csr' \<and> THREAD_CTRL csr' AND THREAD_CTRL_STATUS_MASK = 0 \<and>
    (\<forall>t0 t1 m. worker_scan lim t0 t1 (csr_started csr') m = bind_r (op_scan op col pr out m) (\<lambda>(m', n).
      Inr ((csr_started csr')\<lparr>THREAD_START_TIME := t0, THREAD_DONE_TIME := t1, THREAD_RES_SIZE_SB := op_result_size op n\<rparr>, m')))"
proof -
  obtain a r where ar: "address (column_data (sc_column op)) = Inr a" "address (sc_result op) = Inr r"
    "col = \<lparr>col_addr = unat a, col_bits = unat (bit_compression (sc_column op)), col_size = unat (elements_count (sc_column op)), col_lim = lim\<rparr>"
    "out = \<lparr>out_addr = unat r, out_lim = lim\<rparr>" using assms(2,4) by (auto simp: op_column_def op_out_def bind_r_Inr_iff)
  have u: "(of_nat (unat x) :: u64) = x" for x by simp
  show ?thesis
  proof (cases "sc_predicate op")
    case (RangePredicate p)
    moreover have "pr = EngineRange p" using assms(3) RangePredicate by (simp add: op_predicate_def)
    moreover obtain x y where "p = \<lparr>range_start = x, range_end = y\<rparr>" by (cases p) simp
    ultimately show ?thesis using RangePredicate ar mode_fields [OF assms(1)] ctrl_bits
      by (cases "sc_out_type op") (auto simp: write_registers_def set_predicate_info_def set_output_type_def worker_scan_def Let_def csr_started_def
        views_from_raw dispatch_scan_operation_def dispatch_by_output_type_def op_scan_def op_result_size_def)
  next
    case (ListPredicate p)
    then obtain l where l: "address (il_data p) = Inr l" "pr = EngineList \<lparr>list_addr = unat l, list_size = unat (ucast (il_max_value p) :: u32), list_lim = lim\<rparr>"
      using assms(3) by (auto simp: op_predicate_def bind_r_Inr_iff)
    have "unat (ucast (x :: u32) :: u64) = unat x" for x
    proof -
      have "unat x < 2 ^ 32" using unsigned_less [of x] by simp
      then show ?thesis by (simp add: unsigned_ucast_eq take_bit_nat_eq_self)
    qed
    then show ?thesis using ListPredicate l ar mode_fields [OF assms(1)] ctrl_bits
      by (cases "sc_out_type op") (auto simp: write_registers_def set_predicate_info_def set_output_type_def worker_scan_def Let_def csr_started_def
        views_from_raw dispatch_scan_operation_def dispatch_by_output_type_def op_scan_def op_result_size_def)
  qed
qed

text \<open>An operation that gets a thread runs its scan and gives the thread back.\<close>

lemma scan_dispatch_correct:
  assumes "bit_compression (sc_column op) \<in> set valid_bit_counts" "op_column op (dev_size d) = Inr col"
    "op_predicate op (dev_size d) = Inr pr" "op_out op (dev_size d) = Inr out"
    "unat t < length (thread_csr d)" "thread_free sim (unat t)" "op_scan op col pr out (dev_mem d) = Inr (m', n)"
  shows "\<exists>d' sim'. scan_dispatch (Inr t) (Inr ()) t0 t1 op d sim =
      Inr (op\<lparr>sc_execution_time := ucast (t1 - t0), sc_result_size := op_result_size op n\<rparr>, d', sim') \<and>
    dev_mem d' = m' \<and> thread_free sim' (unat t)"
proof -
  obtain csr' where w: "write_registers op (thread_csr d ! unat t) = Inr csr'"
    "worker_scan (dev_size d) t0 t1 (csr_started csr') (dev_mem d) =
       Inr ((csr_started csr')\<lparr>THREAD_START_TIME := t0, THREAD_DONE_TIME := t1, THREAD_RES_SIZE_SB := op_result_size op n\<rparr>, m')"
    using written_registers [OF assms(1-4), of "thread_csr d ! unat t"] assms(7) by auto
  let ?d = "upd_csr (unat t) (\<lambda>_. csr') d"
  have d: "thread_csr ?d ! unat t = csr'" "dev_size ?d = dev_size d" "dev_mem ?d = dev_mem d" "unat t < length (thread_csr ?d)"
    using assms(5) by simp_all
  have "\<exists>d'. run_and_wait (unat t) t0 t1 ?d = Inr d' \<and> dev_mem d' = m' \<and> unat t < length (thread_csr d') \<and>
      read_registers (thread_csr d' ! unat t) = (op_result_size op n, ucast (t1 - t0))"
    using w(2) d(4) unfolding run_and_wait_def d(1-3) Let_def csr_started_def [symmetric]
    by (auto simp: read_registers_def upd_csr_def)
  then show ?thesis using w(1) assms(5,6)
    by (auto simp: scan_dispatch_def run_operator_def imdb_lock_thread_def imdb_release_thread_def enable_thread_def disable_thread_def
      is_thread_enabled_def get_csr_def thread_free_def)
qed

section \<open>Scans on the device\<close>

lemma Scan_make_fields:
  assumes "Scan_make c pr res ot = Inr op"
  shows "bit_compression (sc_column op) \<in> set valid_bit_counts" "sc_column op = c" "sc_predicate op = pr" "sc_out_type op = ot" "sc_result op = res"
  using assms by (auto simp: Scan_make_def validate_compression_bits_def split: if_splits)

text \<open>
  C6: An index scan for a range with bounds below \<open>2 ^ 31\<close> runs end to end on the simulated device: the host encodes the operation into
  the registers, the engine thread scans the column in device memory, and the result buffer then holds
  the row numbers that the plain scan of the column returns (followed by the surplus rows of the last
  block of eight when 0 lies in the range); the operation reports their number and the thread is
  given back.
\<close>

theorem imdb_range_scan_end_to_end:
  assumes "Scan_make c (RangePredicate rng) res IndexVector = Inr op"
    "op_column op (dev_size d) = Inr col" "op_out op (dev_size d) = Inr out" "stored col bc (dev_mem d)"
    "range_start rng < 2 ^ 31" "range_end rng < 2 ^ 31"
    "iv_fits out (col_blocks col)" "scan_room col {} (iv_area out (col_blocks col))"
    "unat t < length (thread_csr d)" "thread_free sim (unat t)"
  shows "\<exists>is' d' sim'. in_range_to_iv bc rng = Inr is' \<and>
    scan_dispatch (Inr t) (Inr ()) t0 t1 op d sim = Inr (op\<lparr>sc_execution_time := ucast (t1 - t0),
      sc_result_size := of_nat (length (is' @ extra_rows col (in_range rng 0)))\<rparr>, d', sim') \<and>
    words_at (out_addr out) (is' @ extra_rows col (in_range rng 0)) (dev_mem d') \<and>
    (\<forall>x. x \<notin> iv_area out (col_blocks col) \<longrightarrow> dev_mem d' x = dev_mem d x) \<and> thread_free sim' (unat t)"
proof -
  note f = Scan_make_fields [OF assms(1)]
  obtain cs m' k where cs: "ConstantsSet (col_bits col) = Inr cs"
    "scan_avx2_impl (apply_in_range rng) (store_indices out) cs col (dev_mem d) = Inr (m', k)"
    "iv_holds out (col_blocks col) (filter (\<lambda>i. range_test rng (dev_mem d) (col_value col (dev_mem d) i)) [0..<8 * col_blocks col]) m' k"
    "\<forall>x. x \<notin> iv_area out (col_blocks col) \<longrightarrow> m' x = dev_mem d x"
    using range_iv.scan_correct [OF stored_col(1) [OF assms(4)], of out rng "dev_mem d"] assms(7,8) by (auto simp: scan_room_def)
  have "op_scan op col (EngineRange rng) out (dev_mem d) = Inr (m', k)" using cs(1,2) f(4)
    by (simp add: op_scan_def invoke_index_scan_def scan_range_iv_def in_range_scan_impl_def)
  then have "\<exists>d' sim'. scan_dispatch (Inr t) (Inr ()) t0 t1 op d sim =
      Inr (op\<lparr>sc_execution_time := ucast (t1 - t0), sc_result_size := op_result_size op k\<rparr>, d', sim') \<and>
      dev_mem d' = m' \<and> thread_free sim' (unat t)"
    using f(3) by (intro scan_dispatch_correct [OF f(1) assms(2) _ assms(3,9,10)]) (simp_all add: op_predicate_def)
  then show ?thesis using iv_holds_rows [OF assms(4) cs(3) [unfolded range_test_column [OF assms(4-6)]] refl] cs(4) f(4)
      cpu_scans_correct(1) [of bc rng] stored_bc [OF assms(4)] by (auto simp: op_result_size_def)
qed

text \<open>
  C10: A bit vector scan for a list of numbers runs end to end on the simulated device: for every row
  of the column the result buffer then holds the bit that the plain scan gives; the operation reports
  the number of rows, and the thread is given back.
\<close>

theorem imdb_list_scan_end_to_end:
  assumes "Scan_make c (ListPredicate p) res BitVector = Inr op"
    "op_column op (dev_size d) = Inr col" "op_out op (dev_size d) = Inr out" "op_predicate op (dev_size d) = Inr (EngineList pr)"
    "stored col bc (dev_mem d)" "list_stored pr pv (dev_mem d)"
    "bv_fits out (col_blocks col)" "scan_room col (list_reads pr) (bv_area out (col_blocks col))"
    "unat t < length (thread_csr d)" "thread_free sim (unat t)"
  shows "\<exists>bv d' sim'. in_list_to_bv bc pv = Inr bv \<and>
    scan_dispatch (Inr t) (Inr ()) t0 t1 op d sim = Inr (op\<lparr>sc_execution_time := ucast (t1 - t0),
      sc_result_size := elements_count c\<rparr>, d', sim') \<and>
    (\<forall>i < col_size col. mbit (dev_mem d') (8 * out_addr out + i) \<longleftrightarrow> i \<in> bv_set bv) \<and>
    (\<forall>x. x \<notin> bv_area out (col_blocks col) \<longrightarrow> dev_mem d' x = dev_mem d x) \<and> thread_free sim' (unat t)"
proof -
  note f = Scan_make_fields [OF assms(1)]
  obtain cs m' k where cs: "ConstantsSet (col_bits col) = Inr cs"
    "scan_avx2_impl (apply_in_list pr) (store_bits out) cs col (dev_mem d) = Inr (m', k)"
    "bv_holds out (col_blocks col) (filter (\<lambda>i. list_test pr (dev_mem d) (col_value col (dev_mem d) i)) [0..<8 * col_blocks col]) m' k"
    "\<forall>x. x \<notin> bv_area out (col_blocks col) \<longrightarrow> m' x = dev_mem d x"
    using list_bv.scan_correct [OF stored_col(1) [OF assms(5)] list_stored_test(1) [OF assms(6)], of out "dev_mem d"] assms(7,8)
    by (auto simp: scan_room_def)
  obtain bv where bv: "in_list_to_bv bc pv = Inr bv" "bv_set bv = set (filter (\<lambda>i. unat (bc_value bc i) \<in> bv_set pv) [0..<value_counts bc])"
    using cpu_scans_correct(4) [of bc pv] stored_bc [OF assms(5)] assms(6) by (auto simp: list_stored_def)
  have "op_scan op col (EngineList pr) out (dev_mem d) = Inr (m', k)" using cs(1,2) f(4)
    by (simp add: op_scan_def invoke_bit_scan_def scan_list_bv_def in_range_list_impl_def)
  then have "\<exists>d' sim'. scan_dispatch (Inr t) (Inr ()) t0 t1 op d sim =
      Inr (op\<lparr>sc_execution_time := ucast (t1 - t0), sc_result_size := op_result_size op k\<rparr>, d', sim') \<and>
      dev_mem d' = m' \<and> thread_free sim' (unat t)"
    by (intro scan_dispatch_correct [OF f(1) assms(2,4,3,9,10)])
  then show ?thesis using bv_holds_rows [OF assms(5) cs(3) [unfolded list_stored_test(2) [OF assms(6)]] refl bv(2)] bv(1) cs(4) f(2,4)
      stored_bc [OF assms(5)] by (auto simp: op_result_size_def)
qed

section \<open>A concrete scan on the device\<close>

lemma ex_op_views:
  "op_column (ex_op p ot) 164 = Inr ex_col164" "op_out (ex_op p ot) 164 = Inr ex_out"
  "Scan_make \<lparr>bit_compression = 4, elements_count = 3, column_data = ex_seq 0 128\<rparr> p (ex_seq 132 32) ot = Inr (ex_op p ot)"
  by (simp_all add: op_column_def op_out_def ex_op_def ex_seq_def Buffer_of_region_def address_def get_sequential_def ex_col164_def
    ex_column_def ex_out_def Scan_make_def validate_compression_bits_def valid_bit_counts_def)

lemma ex_col164:
  "stored ex_col164 ex_bc ex_mem" "col_blocks ex_col164 = col_blocks ex_column" "extra_rows ex_col164 = extra_rows ex_column"
  "scan_room ex_col164 used written = scan_room ex_column used written" "col_size ex_col164 = 3"
proof -
  show "stored ex_col164 ex_bc ex_mem" using ex_stored(1) by (auto simp: stored_def ex_col164_def ex_column_def)
  show b: "col_blocks ex_col164 = col_blocks ex_column" "col_size ex_col164 = 3" by (simp_all add: ex_col164_def ex_column_def col_blocks_def)
  show "extra_rows ex_col164 = extra_rows ex_column" using b by (intro ext) (simp add: extra_rows_def ex_column_def)
  show "scan_room ex_col164 used written = scan_room ex_column used written"
    unfolding scan_room_def col_area_def b by (simp add: ex_col164_def)
qed

lemma ex_free: "unat (0 :: u8) < length (thread_csr (ex_dev c))" "thread_free ex_sim (unat (0 :: u8))"
  by (simp_all add: ex_dev_def thread_free_def ex_sim_def)

theorem imdb_range_scan_end_to_end_witness:
  "\<exists>op' d' sim'. scan_dispatch (Inr 0) (Inr ()) 5 9 (ex_op (RangePredicate \<lparr>range_start = 0, range_end = 5\<rparr>) IndexVector) (ex_dev ex_csr) ex_sim
      = Inr (op', d', sim') \<and> sc_result_size op' = 7 \<and> sc_execution_time op' = 4 \<and> words_at 132 [0, 2, 3, 4, 5, 6, 7] (dev_mem d')"
proof -
  let ?rng = "\<lparr>range_start = 0, range_end = 5\<rparr> :: RangeOperation"
  have d: "dev_size (ex_dev ex_csr) = 164" "dev_mem (ex_dev ex_csr) = ex_mem" by (simp_all add: ex_dev_def)
  have z: "in_range ?rng 0" by (simp add: in_range_def)
  show ?thesis
    using imdb_range_scan_end_to_end [OF ex_op_views(3) ex_op_views(1,2) [folded d] ex_col164(1) [folded d(2)], of ?rng 0 ex_sim 5 9, unfolded ex_col164(2-4),
        OF _ _ ex_room(1,3) ex_free] ex_outcomes z by (auto simp: ex_out_def)
qed

theorem imdb_list_scan_end_to_end_witness:
  "\<exists>op' d' sim'. scan_dispatch (Inr 0) (Inr ()) 5 9 (ex_op (ListPredicate \<lparr>il_max_value = 10, il_data = ex_seq 128 4\<rparr>) BitVector) (ex_dev ex_csr) ex_sim
      = Inr (op', d', sim') \<and> sc_result_size op' = 3 \<and> (\<forall>x. x \<noteq> 132 \<longrightarrow> dev_mem d' x = ex_mem x)"
proof -
  let ?p = "ListPredicate \<lparr>il_max_value = 10, il_data = ex_seq 128 4\<rparr>" and ?pr = ex_pred164
  have d: "dev_size (ex_dev ex_csr) = 164" "dev_mem (ex_dev ex_csr) = ex_mem" by (simp_all add: ex_dev_def)
  have p: "op_predicate (ex_op ?p BitVector) 164 = Inr (EngineList ?pr)" "list_stored ?pr ex_list ex_mem" "list_reads ?pr = list_reads ex_pred"
    using ex_stored(2) by (simp_all add: op_predicate_def ex_op_def ex_seq_def Buffer_of_region_def address_def get_sequential_def ex_pred_def ex_pred164_def
      list_stored_def list_reads_def list_words_def)
  have a: "bv_area ex_out (col_blocks ex_column) = {132}" by (auto simp: bv_area_def ex_out_def col_blocks_def ex_column_def)
  show ?thesis
    using imdb_list_scan_end_to_end [OF ex_op_views(3) ex_op_views(1,2) [folded d] p(1) [folded d] ex_col164(1) [folded d(2)] p(2) [folded d(2)],
        of 0 ex_sim 5 9, unfolded ex_col164(2-4) p(3), OF ex_room(4,5) ex_free] d(2) a by auto
qed

theorem imdb_run_refines_sequential_witness:
  "\<exists>csr s t0 t1. write_registers (ex_op (RangePredicate \<lparr>range_start = 0, range_end = 5\<rparr>) IndexVector) ex_csr = Inr csr \<and>
    (imdb_step 0)\<^sup>*\<^sup>* (imdb_init (ex_dev csr)) s \<and> ihost s = IDone \<and> run_and_wait 0 t0 t1 (ex_dev csr) = Inr (idev s)"
proof -
  let ?rng = "\<lparr>range_start = 0, range_end = 5\<rparr> :: RangeOperation"
  let ?op = "ex_op (RangePredicate ?rng) IndexVector"
  obtain m n where m: "op_scan ?op ex_col164 (EngineRange ?rng) ex_out ex_mem = Inr (m, n)"
    using range_iv.scan_correct [OF stored_col(1) [OF ex_col164(1)], of ex_out ?rng ex_mem] ex_room(1,3) [folded ex_col164(2,4)]
    by (auto simp: op_scan_def ex_op_def invoke_index_scan_def scan_range_iv_def in_range_scan_impl_def scan_room_def)
  obtain csr where w: "write_registers ?op ex_csr = Inr csr" "THREAD_CTRL csr AND THREAD_CTRL_STATUS_MASK = 0"
    "\<And>t0 t1. \<exists>r. worker_scan 164 t0 t1 (csr_started csr) ex_mem = Inr r"
    using written_registers [OF Scan_make_fields(1) [OF ex_op_views(3)] ex_op_views(1) _ ex_op_views(2), of "RangePredicate ?rng" IndexVector
        "EngineRange ?rng" ex_csr] m by (auto simp: op_predicate_def ex_op_def)
  have d: "0 < length (thread_csr (ex_dev csr))" "thread_csr (ex_dev csr) ! 0 = csr" "dev_size (ex_dev csr) = 164" "dev_mem (ex_dev csr) = ex_mem"
    by (simp_all add: ex_dev_def)
  have ok: "\<forall>t0 t1. \<exists>d'. run_and_wait 0 t0 t1 (ex_dev csr) = Inr d'"
  proof (intro allI)
    fix t0 t1
    obtain c m where "worker_scan 164 t0 t1 (csr_started csr) ex_mem = Inr (c, m)" using w(3) [of t0 t1] by auto
    then show "\<exists>d'. run_and_wait 0 t0 t1 (ex_dev csr) = Inr d'"
      unfolding run_and_wait_def d(2-4) Let_def csr_started_def [symmetric] by simp
  qed
  have c: "THREAD_CTRL (thread_csr (ex_dev csr) ! 0) AND THREAD_CTRL_STATUS_MASK = 0" using w(2) d(2) by simp
  obtain s where s: "(imdb_step 0)\<^sup>*\<^sup>* (imdb_init (ex_dev csr)) s" "ihost s = IDone"
    using imdb_run_refines_sequential [OF d(1) c rtranclp.rtrancl_refl] ok by auto
  then show ?thesis using imdb_run_refines_sequential [OF d(1) c s(1)] w(1) by blast
qed

end
