(* ===== verification/Aes_Engine.thy ===== *)
theory Aes_Engine
  imports Byte_Memory Views
begin

text \<open>
  The encryption backend of the secure library and the one-time pads made with it
  (\<open>secure/encryption/AES\<close>). Byte buffers are lists of bytes, an \<open>__m128i\<close> is a 128-bit word in
  little-endian order, and the two AES instructions \<open>_mm_aesenc_si128\<close> and
  \<open>_mm_aesenclast_si128\<close> of the processor are parameters. The key expansions of this release throw;
  what follows them is modelled for an expansion that is a parameter.
\<close>

section \<open>Block encryption\<close>

definition le_word :: "u8 list \<Rightarrow> 'w::len word" where
  "le_word bs = foldr (\<lambda>b w. ucast b OR push_bit 8 w) bs 0"

datatype AES_KEY_SIZE = AES_128 | AES_192 | AES_256

definition aes_rounds_count :: "AES_KEY_SIZE \<Rightarrow> nat" where
  "aes_rounds_count k = (case k of AES_128 \<Rightarrow> 10 | AES_192 \<Rightarrow> 12 | AES_256 \<Rightarrow> 14)"

definition AES_BLOCK_SIZE :: nat where
  "AES_BLOCK_SIZE = 16"

definition PIPELINE_SIZE :: nat where
  "PIPELINE_SIZE = 4"

record aes_instructions =
  aesenc :: "u128 \<Rightarrow> u128 \<Rightarrow> u128"
  aesenclast :: "u128 \<Rightarrow> u128 \<Rightarrow> u128"

definition loadu :: "u8 list \<Rightarrow> nat \<Rightarrow> u128 result" where
  "loadu buf i =
     (if AES_BLOCK_SIZE * i + AES_BLOCK_SIZE \<le> length buf
      then Inr (le_word (take AES_BLOCK_SIZE (drop (AES_BLOCK_SIZE * i) buf))) else Inl Undefined)"

definition storeu :: "u8 list \<Rightarrow> nat \<Rightarrow> u128 \<Rightarrow> u8 list result" where
  "storeu buf i v =
     (if AES_BLOCK_SIZE * i + AES_BLOCK_SIZE \<le> length buf
      then Inr (take (AES_BLOCK_SIZE * i) buf @ word_bytes AES_BLOCK_SIZE v @
             drop (AES_BLOCK_SIZE * i + AES_BLOCK_SIZE) buf)
      else Inl Undefined)"

primrec storeu_all :: "u8 list \<Rightarrow> nat \<Rightarrow> u128 list \<Rightarrow> u8 list result" where
  "storeu_all buf i [] = Inr buf"
| "storeu_all buf i (v # vs) = bind_r (storeu buf i v) (\<lambda>buf. storeu_all buf (i + 1) vs)"

definition aes_simple_rounds :: "aes_instructions \<Rightarrow> u128 list \<Rightarrow> nat \<Rightarrow> u128 \<Rightarrow> u128" where
  "aes_simple_rounds ins key rounds data =
     aesenclast ins (fold (\<lambda>j d. aesenc ins d (key ! j)) [1..<rounds] (data XOR key ! 0)) (key ! rounds)"

text \<open>One round of the pipelined loop: four blocks are loaded, every AES round is applied to all of
  them before the next one, and the blocks are stored.\<close>

definition pipeline_rounds :: "aes_instructions \<Rightarrow> u128 list \<Rightarrow> nat \<Rightarrow> u128 list \<Rightarrow> u128 list" where
  "pipeline_rounds ins key rounds tmp =
     map (\<lambda>v. aesenclast ins v (key ! rounds))
       (fold (\<lambda>j. map (\<lambda>v. aesenc ins v (key ! j))) [1..<rounds] (map (\<lambda>v. v XOR key ! 0) tmp))"

primrec pipeline_loop ::
  "aes_instructions \<Rightarrow> u128 list \<Rightarrow> nat \<Rightarrow> nat \<Rightarrow> nat \<Rightarrow> u8 list \<Rightarrow> u8 list result" where
  "pipeline_loop ins key rounds 0 i buf = Inr buf"
| "pipeline_loop ins key rounds (Suc k) i buf =
     bind_r (map_r (loadu buf) [i * PIPELINE_SIZE..<i * PIPELINE_SIZE + PIPELINE_SIZE]) (\<lambda>tmp.
     bind_r (storeu_all buf (i * PIPELINE_SIZE) (pipeline_rounds ins key rounds tmp)) (\<lambda>buf.
       pipeline_loop ins key rounds k (i + 1) buf))"

primrec simple_loop ::
  "aes_instructions \<Rightarrow> u128 list \<Rightarrow> nat \<Rightarrow> nat \<Rightarrow> nat \<Rightarrow> u8 list \<Rightarrow> u8 list result" where
  "simple_loop ins key rounds 0 i buf = Inr buf"
| "simple_loop ins key rounds (Suc k) i buf =
     bind_r (loadu buf i) (\<lambda>tmp.
     bind_r (storeu buf i (aes_simple_rounds ins key rounds tmp)) (\<lambda>buf.
       simple_loop ins key rounds k (i + 1) buf))"

text \<open>
  \<open>AES_ECB_encrypt\<close> with \<open>in\<close> and \<open>out\<close> the same buffer, as all callers use it. The length may be
  smaller than the buffer; the last incomplete block is padded with zeros and stored whole.
\<close>

definition AES_ECB_encrypt ::
  "aes_instructions \<Rightarrow> u128 list \<Rightarrow> nat \<Rightarrow> u8 list \<Rightarrow> nat \<Rightarrow> (u8 list \<times> nat) result" where
  "AES_ECB_encrypt ins key rounds buf len =
     (let cipher_blocks = len div AES_BLOCK_SIZE;
          pipeline_main_blocks = cipher_blocks div PIPELINE_SIZE;
          rest_from = pipeline_main_blocks * PIPELINE_SIZE in
      bind_r (pipeline_loop ins key rounds pipeline_main_blocks 0 buf) (\<lambda>buf.
      bind_r (simple_loop ins key rounds (cipher_blocks - rest_from) rest_from buf) (\<lambda>buf.
      if len mod AES_BLOCK_SIZE \<noteq> 0 then
        bind_r (view_elems buf (make_view (cipher_blocks * AES_BLOCK_SIZE) len)) (\<lambda>part.
        let augmented_block = part @ replicate (AES_BLOCK_SIZE - length part) 0 in
        bind_r (storeu buf cipher_blocks (aes_simple_rounds ins key rounds (le_word augmented_block))) (\<lambda>buf.
          Inr (buf, (len div AES_BLOCK_SIZE + 1) * AES_BLOCK_SIZE)))
      else Inr (buf, len))))"

section \<open>The AES-NI backend\<close>

record AES_NI_Backend =
  encryption_rounds :: nat
  key_schedule :: "u128 list"

definition AES_128_Key_Expansion :: "u8 list \<Rightarrow> u128 list \<Rightarrow> u128 list result" where
  "AES_128_Key_Expansion userkey key = Inl (Throw NotSupported)"

definition AES_192_Key_Expansion :: "u8 list \<Rightarrow> u128 list \<Rightarrow> u128 list result" where
  "AES_192_Key_Expansion userkey key = Inl (Throw NotSupported)"

definition AES_256_Key_Expansion :: "u8 list \<Rightarrow> u128 list \<Rightarrow> u128 list result" where
  "AES_256_Key_Expansion userkey key = Inl (Throw NotSupported)"

text \<open>The key expansion for a key size, given the user's key and the zeroed key schedule.\<close>

type_synonym key_expansion = "AES_KEY_SIZE \<Rightarrow> u8 list \<Rightarrow> u128 list \<Rightarrow> u128 list result"

definition release_expansion :: key_expansion where
  "release_expansion k = (case k of AES_128 \<Rightarrow> AES_128_Key_Expansion | AES_192 \<Rightarrow> AES_192_Key_Expansion
     | AES_256 \<Rightarrow> AES_256_Key_Expansion)"

definition AES_NI_Backend_make :: "key_expansion \<Rightarrow> AES_KEY_SIZE \<Rightarrow> u8 list \<Rightarrow> AES_NI_Backend result" where
  "AES_NI_Backend_make expand ks key =
     (let rounds = aes_rounds_count ks in
      bind_r (expand ks key (replicate (rounds + 1) 0)) (\<lambda>schedule.
        Inr \<lparr>encryption_rounds = rounds, key_schedule = schedule\<rparr>))"

text \<open>The length of the buffer is passed as an \<open>int\<close> and widened to \<open>unsigned long\<close> again.\<close>

definition int_length :: "nat \<Rightarrow> nat" where
  "int_length n = unat (scast (word_of_nat n :: u32) :: u64)"

definition ni_encrypt :: "aes_instructions \<Rightarrow> AES_NI_Backend \<Rightarrow> u8 list \<Rightarrow> u8 list result" where
  "ni_encrypt ins be buf =
     (if int_length (length buf) \<le> length buf
      then bind_r (AES_ECB_encrypt ins (key_schedule be) (encryption_rounds be) buf (int_length (length buf)))
             (\<lambda>(buf, n). Inr buf)
      else Inl Undefined)"

section \<open>One-time pads\<close>

record CommonCryptoEngine =
  table_version :: u32
  aes_backend :: AES_NI_Backend

definition CommonCryptoEngine_make :: "key_expansion \<Rightarrow> u32 \<Rightarrow> u8 list \<Rightarrow> CommonCryptoEngine result" where
  "CommonCryptoEngine_make expand version key =
     bind_r (AES_NI_Backend_make expand AES_128 key) (\<lambda>be. Inr \<lparr>table_version = version, aes_backend = be\<rparr>)"

definition engine_encrypt :: "aes_instructions \<Rightarrow> CommonCryptoEngine \<Rightarrow> u8 list \<Rightarrow> u8 list result" where
  "engine_encrypt ins e buf = ni_encrypt ins (aes_backend e) buf"

definition prepare_otp :: "nat \<Rightarrow> u32 \<Rightarrow> u32 \<Rightarrow> u64 \<Rightarrow> u8 list" where
  "prepare_otp n prefix version address =
     word_bytes 4 version @ word_bytes 8 address @ word_bytes 4 prefix @ replicate (n - 16) 0"

definition generate_otp :: "(u8 list \<Rightarrow> u8 list result) \<Rightarrow> nat \<Rightarrow> u32 \<Rightarrow> u32 \<Rightarrow> u64 \<Rightarrow> u8 list result" where
  "generate_otp enc n prefix version address = enc (prepare_otp n prefix version address)"

text \<open>The seeds of one row of one-time pads, and of all rows; rows are made of elements of
  \<open>sz\<close> bytes.\<close>

primrec prepare_otps :: "nat \<Rightarrow> nat \<Rightarrow> u32 \<Rightarrow> u32 \<Rightarrow> u64 \<Rightarrow> 'e list list \<Rightarrow> u8 list" where
  "prepare_otps sz otp_size prefix version otp_address [] = []"
| "prepare_otps sz otp_size prefix version otp_address (otp # otps) =
     prepare_otp (sz * length otp) prefix version otp_address @
     prepare_otps sz otp_size prefix version (otp_address + word_of_nat (otp_size * sz)) otps"

primrec prepare_batches ::
  "nat \<Rightarrow> nat \<Rightarrow> u32 \<Rightarrow> u32 \<Rightarrow> u64 list \<Rightarrow> 'e list list \<Rightarrow> u8 list result" where
  "prepare_batches sz otp_size prefix version addresses [] = Inr []"
| "prepare_batches sz otp_size prefix version addresses (otp_batch # batches) =
     (case addresses of [] \<Rightarrow> Inl Undefined | address # rest \<Rightarrow>
       bind_r (rowwise_rows otp_batch (make_rowwise_view 0 (length otp_batch) otp_size 0 0)) (\<lambda>otps.
       bind_r (prepare_batches sz otp_size prefix version rest batches) (\<lambda>bs.
         Inr (prepare_otps sz otp_size prefix version address otps @ bs))))"

definition generate_otp_vec ::
  "(u8 list \<Rightarrow> u8 list result) \<Rightarrow> nat \<Rightarrow> u32 \<Rightarrow> u32 \<Rightarrow> u64 list \<Rightarrow> nat \<Rightarrow> nat \<Rightarrow> 'e list \<Rightarrow> u8 list result" where
  "generate_otp_vec enc sz prefix version addresses otp_size otps_count otps =
     (if otp_size * otps_count = 0 then Inl Undefined
      else bind_r (rowwise_rows otps (make_rowwise_view 0 (length otps) (otp_size * otps_count) 0 0)) (\<lambda>batches.
             bind_r (prepare_batches sz otp_size prefix version addresses batches) enc))"

section \<open>Encryption block by block\<close>

definition ecb_block :: "aes_instructions \<Rightarrow> u128 list \<Rightarrow> nat \<Rightarrow> u8 list \<Rightarrow> u8 list" where
  "ecb_block ins key rounds b = word_bytes AES_BLOCK_SIZE (aes_simple_rounds ins key rounds (le_word b))"

definition blocks :: "u8 list list \<Rightarrow> bool" where
  "blocks bs \<longleftrightarrow> (\<forall>b \<in> set bs. length b = AES_BLOCK_SIZE)"

text \<open>
  The pad of an address is the encryption of its seed, and a row of pads takes the addresses in
  steps of the block size.
\<close>

definition pad :: "(u8 list \<Rightarrow> u8 list) \<Rightarrow> u32 \<Rightarrow> u32 \<Rightarrow> u64 \<Rightarrow> u8 list" where
  "pad blk prefix version address = blk (prepare_otp AES_BLOCK_SIZE prefix version address)"

definition pad_row :: "(u8 list \<Rightarrow> u8 list) \<Rightarrow> u32 \<Rightarrow> u32 \<Rightarrow> nat \<Rightarrow> u64 \<Rightarrow> u8 list list" where
  "pad_row blk prefix version n address = map (\<lambda>k. pad blk prefix version (address + word_of_nat (k * AES_BLOCK_SIZE))) [0..<n]"

lemma concat_concat_map: "concat (concat (map f xs)) = concat (map (\<lambda>x. concat (f x)) xs)"
  by (induction xs) simp_all

lemma blocks_simps [simp]: "blocks []" "blocks (b # bs) \<longleftrightarrow> length b = AES_BLOCK_SIZE \<and> blocks bs"
  "blocks (as @ bs) \<longleftrightarrow> blocks as \<and> blocks bs"
  by (auto simp: blocks_def)

lemma length_concat_blocks: "blocks bs \<Longrightarrow> length (concat bs) = AES_BLOCK_SIZE * length bs"
  by (induction bs) auto

lemma length_ecb_block [simp]: "length (ecb_block ins key rounds b) = AES_BLOCK_SIZE"
  by (simp add: ecb_block_def)

lemma blocks_map_ecb [simp]: "blocks (map (ecb_block ins key rounds) bs)"
  by (induction bs) auto

lemma loadu_mid:
  "length b = AES_BLOCK_SIZE \<Longrightarrow> length pre = AES_BLOCK_SIZE * i \<Longrightarrow> loadu (pre @ b @ post) i = Inr (le_word b)"
  by (simp add: loadu_def)

lemma storeu_mid:
  "length b = AES_BLOCK_SIZE \<Longrightarrow> length pre = AES_BLOCK_SIZE * i \<Longrightarrow>
    storeu (pre @ b @ post) i v = Inr (pre @ word_bytes AES_BLOCK_SIZE v @ post)"
  by (simp add: storeu_def)

lemma loadu_all:
  "blocks bs \<Longrightarrow> length pre = AES_BLOCK_SIZE * i \<Longrightarrow>
    map_r (loadu (pre @ concat bs @ post)) [i..<i + length bs] = Inr (map le_word bs)"
proof (induction bs arbitrary: pre i)
  case (Cons b bs)
  have "map_r (loadu ((pre @ b) @ concat bs @ post)) [Suc i..<Suc i + length bs] = Inr (map le_word bs)"
    by (rule Cons.IH) (use Cons.prems in simp_all)
  then show ?case using Cons.prems loadu_mid [of b pre i "concat bs @ post"]
    by (simp add: upt_conv_Cons [of i] del: upt_Suc)
qed simp

lemma storeu_all_mid:
  "blocks bs \<Longrightarrow> length pre = AES_BLOCK_SIZE * i \<Longrightarrow> length vs = length bs \<Longrightarrow>
    storeu_all (pre @ concat bs @ post) i vs = Inr (pre @ concat (map (word_bytes AES_BLOCK_SIZE) vs) @ post)"
proof (induction bs arbitrary: pre i vs)
  case (Cons b bs)
  obtain v ws where v: "vs = v # ws" using Cons.prems(3) by (cases vs) auto
  have "storeu_all ((pre @ word_bytes AES_BLOCK_SIZE v) @ concat bs @ post) (Suc i) ws =
    Inr ((pre @ word_bytes AES_BLOCK_SIZE v) @ concat (map (word_bytes AES_BLOCK_SIZE) ws) @ post)"
    by (rule Cons.IH) (use Cons.prems v in simp_all)
  then show ?case using Cons.prems storeu_mid [of b pre i "concat bs @ post" v] by (simp add: v)
qed simp

lemma pipeline_rounds_map: "pipeline_rounds ins key rounds tmp = map (aes_simple_rounds ins key rounds) tmp"
proof -
  have "fold (\<lambda>j. map (\<lambda>v. aesenc ins v (key ! j))) js (map g tmp) =
    map (\<lambda>v. fold (\<lambda>j d. aesenc ins d (key ! j)) js (g v)) tmp" for js g
    by (induction js arbitrary: g) (simp_all add: comp_def)
  then show ?thesis by (simp add: pipeline_rounds_def aes_simple_rounds_def comp_def)
qed

lemma simple_loop_correct:
  "blocks bs \<Longrightarrow> length pre = AES_BLOCK_SIZE * i \<Longrightarrow>
    simple_loop ins key rounds (length bs) i (pre @ concat bs @ post) =
      Inr (pre @ concat (map (ecb_block ins key rounds) bs) @ post)"
proof (induction bs arbitrary: pre i)
  case (Cons b bs)
  have "simple_loop ins key rounds (length bs) (Suc i) ((pre @ ecb_block ins key rounds b) @ concat bs @ post) =
    Inr ((pre @ ecb_block ins key rounds b) @ concat (map (ecb_block ins key rounds) bs) @ post)"
    by (rule Cons.IH) (use Cons.prems in simp_all)
  then show ?case
    using Cons.prems loadu_mid [of b pre i "concat bs @ post"] storeu_mid [of b pre i "concat bs @ post"]
    by (simp add: ecb_block_def [of ins key rounds b])
qed simp

lemma pipeline_loop_correct:
  "blocks bs \<Longrightarrow> length bs = PIPELINE_SIZE * k \<Longrightarrow> length pre = AES_BLOCK_SIZE * (i * PIPELINE_SIZE) \<Longrightarrow>
    pipeline_loop ins key rounds k i (pre @ concat bs @ post) =
      Inr (pre @ concat (map (ecb_block ins key rounds) bs) @ post)"
proof (induction k arbitrary: bs pre i)
  case (Suc k)
  obtain as cs where bs: "bs = as @ cs" "length as = PIPELINE_SIZE" "length cs = PIPELINE_SIZE * k"
    using Suc.prems(2) by (intro that [of "take PIPELINE_SIZE bs" "drop PIPELINE_SIZE bs"]) simp_all
  have b: "blocks as" "blocks cs" using Suc.prems(1) bs(1) by simp_all
  let ?new = "concat (map (ecb_block ins key rounds) as)"
  have l: "map_r (loadu (pre @ concat as @ concat cs @ post)) [i * PIPELINE_SIZE..<i * PIPELINE_SIZE + PIPELINE_SIZE] =
    Inr (map le_word as)"
    using loadu_all [OF b(1) Suc.prems(3), of "concat cs @ post"] by (simp add: bs(2))
  have s: "storeu_all (pre @ concat as @ concat cs @ post) (i * PIPELINE_SIZE) (map (aes_simple_rounds ins key rounds) (map le_word as)) =
    Inr (pre @ ?new @ concat cs @ post)"
    using storeu_all_mid [OF b(1) Suc.prems(3), of "map (aes_simple_rounds ins key rounds) (map le_word as)" "concat cs @ post"]
    by (simp add: ecb_block_def [abs_def] comp_def)
  have "pipeline_loop ins key rounds k (i + 1) ((pre @ ?new) @ concat cs @ post) =
    Inr ((pre @ ?new) @ concat (map (ecb_block ins key rounds) cs) @ post)"
    by (rule Suc.IH) (use Suc.prems(3) bs b in \<open>simp_all add: length_concat_blocks algebra_simps\<close>)
  then show ?case using l s by (simp add: bs(1) pipeline_rounds_map)
qed simp

lemma AES_ECB_encrypt_blocks:
  assumes "blocks bs" "len div AES_BLOCK_SIZE = length bs"
  shows "AES_ECB_encrypt ins key rounds (concat bs @ post) len =
    (let buf = concat (map (ecb_block ins key rounds) bs) @ post in
     if len mod AES_BLOCK_SIZE \<noteq> 0 then
        bind_r (view_elems buf (make_view (length bs * AES_BLOCK_SIZE) len)) (\<lambda>part.
        let augmented_block = part @ replicate (AES_BLOCK_SIZE - length part) 0 in
        bind_r (storeu buf (length bs) (aes_simple_rounds ins key rounds (le_word augmented_block))) (\<lambda>buf.
          Inr (buf, (len div AES_BLOCK_SIZE + 1) * AES_BLOCK_SIZE)))
      else Inr (buf, len))"
proof -
  let ?k = "length bs div PIPELINE_SIZE"
  let ?m = "PIPELINE_SIZE * ?k"
  have "?m \<le> length bs" by (rule times_div_less_eq_dividend)
  then obtain as cs where bs: "bs = as @ cs" "length as = ?m" "length cs = length bs - ?m"
    by (metis append_take_drop_id length_drop length_take min.absorb2)
  have b: "blocks as" "blocks cs" using assms(1) unfolding bs(1) by simp_all
  have p: "pipeline_loop ins key rounds ?k 0 (concat as @ concat cs @ post) =
    Inr (concat (map (ecb_block ins key rounds) as) @ concat cs @ post)"
    using pipeline_loop_correct [of as ?k "[]" 0 ins key rounds "concat cs @ post"] b bs(2) by simp
  have s: "simple_loop ins key rounds (length bs - ?m) ?m (concat (map (ecb_block ins key rounds) as) @ concat cs @ post) =
    Inr (concat (map (ecb_block ins key rounds) as) @ concat (map (ecb_block ins key rounds) cs) @ post)"
    using simple_loop_correct [OF b(2), of "concat (map (ecb_block ins key rounds) as)" ?m ins key rounds post]
    unfolding length_concat_blocks [OF blocks_map_ecb] length_map bs(2,3) by blast
  have c: "concat bs @ post = concat as @ concat cs @ post"
    "concat (map (ecb_block ins key rounds) bs) = concat (map (ecb_block ins key rounds) as) @ concat (map (ecb_block ins key rounds) cs)"
    unfolding bs(1) by simp_all
  show ?thesis
    unfolding AES_ECB_encrypt_def assms(2) Let_def c p bind_r_simps mult.commute [of ?k PIPELINE_SIZE] s append_assoc
    by (rule refl)
qed

lemma AES_ECB_encrypt_tail:
  assumes "blocks bs" "length part < AES_BLOCK_SIZE"
  shows "AES_ECB_encrypt ins key rounds (concat bs @ part @ post) (AES_BLOCK_SIZE * length bs + length part) =
    (if part = [] then Inr (concat (map (ecb_block ins key rounds) bs) @ post, AES_BLOCK_SIZE * length bs)
     else if AES_BLOCK_SIZE \<le> length part + length post then
       Inr (concat (map (ecb_block ins key rounds) bs) @
              ecb_block ins key rounds (part @ replicate (AES_BLOCK_SIZE - length part) 0) @
              drop (AES_BLOCK_SIZE - length part) post, AES_BLOCK_SIZE * (length bs + 1))
     else Inl Undefined)"
proof -
  let ?new = "concat (map (ecb_block ins key rounds) bs)"
  have d: "(AES_BLOCK_SIZE * length bs + length part) div AES_BLOCK_SIZE = length bs"
    "(AES_BLOCK_SIZE * length bs + length part) mod AES_BLOCK_SIZE = length part"
    using assms(2) by (simp_all add: AES_BLOCK_SIZE_def)
  have l: "length ?new = AES_BLOCK_SIZE * length bs" by (simp add: length_concat_blocks)
  have v: "view_elems (?new @ part @ post) (make_view (length bs * AES_BLOCK_SIZE) (AES_BLOCK_SIZE * length bs + length part)) = Inr part"
    using l by (simp add: view_elems_def make_view_def mult.commute)
  show ?thesis
    unfolding AES_ECB_encrypt_blocks [OF assms(1) d(1)] d v Let_def bind_r_simps
    using l assms(2) by (auto simp: storeu_def ecb_block_def)
qed

lemma int_length_id: "n < 2 ^ 31 \<Longrightarrow> int_length n = n"
proof -
  assume "n < 2 ^ 31"
  then have "sint (word_of_nat n :: u32) = int n"
    by (simp add: sint_uint signed_take_bit_int_eq_self_iff uint_nat unat_of_nat take_bit_nat_eq_self)
  then show ?thesis using \<open>n < 2 ^ 31\<close>
    by (simp add: int_length_def scast_eq unat_of_nat)
qed

lemma ni_encrypt_blocks:
  assumes "blocks bs" "AES_BLOCK_SIZE * length bs < 2 ^ 31"
  shows "ni_encrypt ins be (concat bs) = Inr (concat (map (ecb_block ins (key_schedule be) (encryption_rounds be)) bs))"
proof -
  have l: "int_length (length (concat bs)) = AES_BLOCK_SIZE * length bs"
    using assms by (simp add: length_concat_blocks int_length_id)
  show ?thesis
    using AES_ECB_encrypt_tail [OF assms(1), of "[]" ins "key_schedule be" "encryption_rounds be" "[]"]
    unfolding ni_encrypt_def l by (simp add: length_concat_blocks [OF assms(1)] AES_BLOCK_SIZE_def)
qed

section \<open>What the engines rely on\<close>

lemma length_prepare_otp [simp]: "length (prepare_otp AES_BLOCK_SIZE prefix version address) = AES_BLOCK_SIZE"
  by (simp add: prepare_otp_def AES_BLOCK_SIZE_def)

lemma rowwise_rows_whole:
  assumes "0 < rs" "length xs = n * rs"
  shows "rowwise_rows xs (make_rowwise_view 0 (length xs) rs 0 0) = Inr (map (\<lambda>i. take rs (drop (i * rs) xs)) [0..<n])"
  using rowwise_loop_correct [of rs 0 n xs 0 0 0] assms
  by (simp add: rowwise_rows_def rw_begin_it_def) (simp add: make_rowwise_view_def)

lemma length_chunks:
  assumes "length xs = n * rs"
  shows "\<forall>r \<in> set (map (\<lambda>i. take rs (drop (i * rs) xs)) [0..<n]). length r = rs"
proof
  fix r assume "r \<in> set (map (\<lambda>i. take rs (drop (i * rs) xs)) [0..<n])"
  then obtain i where i: "i < n" "r = take rs (drop (i * rs) xs)" by auto
  have "Suc i * rs \<le> n * rs" using i(1) by (intro mult_right_mono) simp_all
  then show "length r = rs" using i(2) assms by simp
qed

lemma prepare_otps_row:
  assumes "otp_size * sz = AES_BLOCK_SIZE" "\<forall>otp \<in> set otps. length otp = otp_size"
  shows "prepare_otps sz otp_size prefix version a otps =
    concat (map (\<lambda>k. prepare_otp AES_BLOCK_SIZE prefix version (a + word_of_nat (k * AES_BLOCK_SIZE))) [0..<length otps])"
  using assms(2)
proof (induction otps arbitrary: a)
  case (Cons otp otps)
  have "[0..<length (otp # otps)] = 0 # map Suc [0..<length otps]"
    by (simp add: upt_conv_Cons map_Suc_upt del: upt_Suc)
  then show ?case using Cons assms(1) by (simp add: mult.commute [of sz] comp_def algebra_simps)
qed simp

lemma prepare_batches_rows:
  assumes "otp_size * sz = AES_BLOCK_SIZE" "0 < otp_size" "length addresses = length batches"
    "\<forall>b \<in> set batches. length b = otp_size * n"
  shows "prepare_batches sz otp_size prefix version addresses batches =
    Inr (concat (map (\<lambda>a. concat (map (\<lambda>k. prepare_otp AES_BLOCK_SIZE prefix version (a + word_of_nat (k * AES_BLOCK_SIZE))) [0..<n])) addresses))"
  using assms(3,4)
proof (induction batches arbitrary: addresses)
  case (Cons b bs)
  obtain a as where a: "addresses = a # as" using Cons.prems by (cases addresses) auto
  have l: "length b = n * otp_size" using Cons.prems by (simp add: mult.commute)
  note r = rowwise_rows_whole [OF assms(2) l]
  note p = prepare_otps_row [OF assms(1) length_chunks [OF l]]
  have IH: "prepare_batches sz otp_size prefix version as bs =
    Inr (concat (map (\<lambda>a. concat (map (\<lambda>k. prepare_otp AES_BLOCK_SIZE prefix version (a + word_of_nat (k * AES_BLOCK_SIZE))) [0..<n])) as))"
    by (rule Cons.IH) (use Cons.prems a in simp_all)
  show ?case unfolding a prepare_batches.simps list.case r bind_r_simps IH p by simp
qed simp

locale ecb_backend =
  fixes enc :: "u8 list \<Rightarrow> u8 list result" and blk :: "u8 list \<Rightarrow> u8 list"
  assumes enc_blocks: "blocks bs \<Longrightarrow> AES_BLOCK_SIZE * length bs < 2 ^ 31 \<Longrightarrow> enc (concat bs) = Inr (concat (map blk bs))"
    and length_blk: "length (blk b) = AES_BLOCK_SIZE"
begin

lemma length_pad: "length (pad blk prefix version a) = AES_BLOCK_SIZE"
  by (simp add: pad_def length_blk)

lemma generate_otp_pad: "generate_otp enc AES_BLOCK_SIZE prefix version a = Inr (pad blk prefix version a)"
  using enc_blocks [of "[prepare_otp AES_BLOCK_SIZE prefix version a]"]
  by (simp add: generate_otp_def pad_def) (simp add: AES_BLOCK_SIZE_def)

lemma generate_otp_vec_pads:
  assumes "otp_size * sz = AES_BLOCK_SIZE" "0 < n" "length otps = length addresses * (otp_size * n)"
    "AES_BLOCK_SIZE * (n * length addresses) < 2 ^ 31"
  shows "generate_otp_vec enc sz prefix version addresses otp_size n otps =
    Inr (concat (map (\<lambda>a. concat (pad_row blk prefix version n a)) addresses))"
proof -
  have p: "0 < otp_size" using assms(1) by (cases otp_size) (simp_all add: AES_BLOCK_SIZE_def)
  let ?rows = "map (\<lambda>i. take (otp_size * n) (drop (i * (otp_size * n)) otps)) [0..<length addresses]"
  let ?seeds = "\<lambda>a. map (\<lambda>k. prepare_otp AES_BLOCK_SIZE prefix version (a + word_of_nat (k * AES_BLOCK_SIZE))) [0..<n]"
  have r: "rowwise_rows otps (make_rowwise_view 0 (length otps) (otp_size * n) 0 0) = Inr ?rows"
    using rowwise_rows_whole [of "otp_size * n" otps "length addresses"] assms(2,3) p by simp
  have b: "prepare_batches sz otp_size prefix version addresses ?rows = Inr (concat (map (\<lambda>a. concat (?seeds a)) addresses))"
    by (rule prepare_batches_rows [OF assms(1) p _ length_chunks [OF assms(3)]]) simp
  have bl: "blocks (concat (map ?seeds addresses))" "length (concat (map ?seeds addresses)) = n * length addresses"
    by (auto simp: blocks_def length_concat comp_def sum_list_triv)
  have "map blk (concat (map ?seeds addresses)) = concat (map (pad_row blk prefix version n) addresses)"
    by (simp add: map_concat comp_def pad_row_def [abs_def] pad_def)
  then have "enc (concat (map (\<lambda>a. concat (?seeds a)) addresses)) = Inr (concat (map (\<lambda>a. concat (pad_row blk prefix version n a)) addresses))"
    unfolding concat_concat_map [symmetric] using enc_blocks [OF bl(1)] bl(2) assms(4) by simp
  then show ?thesis using p assms(2) unfolding generate_otp_vec_def r bind_r_simps b by simp
qed

end

interpretation ni: ecb_backend "ni_encrypt ins be" "ecb_block ins (key_schedule be) (encryption_rounds be)" for ins be
  by unfold_locales (simp_all add: ni_encrypt_blocks)

section \<open>Properties\<close>

text \<open>
  The pipelined AES loop encrypts every whole 16-byte block of the buffer independently with
  the same rounds; an incomplete last block is padded with zeros and stored as a whole block,
  which needs room in the buffer.
\<close>
theorem aes_ecb_blockwise:
  assumes "blocks bs" "length part < AES_BLOCK_SIZE"
  shows "AES_ECB_encrypt ins key rounds (concat bs @ part @ post) (AES_BLOCK_SIZE * length bs + length part) =
    (if part = [] then Inr (concat (map (ecb_block ins key rounds) bs) @ post, AES_BLOCK_SIZE * length bs)
     else if AES_BLOCK_SIZE \<le> length part + length post then
       Inr (concat (map (ecb_block ins key rounds) bs) @
              ecb_block ins key rounds (part @ replicate (AES_BLOCK_SIZE - length part) 0) @
              drop (AES_BLOCK_SIZE - length part) post, AES_BLOCK_SIZE * (length bs + 1))
     else Inl Undefined)"
  using assms by (rule AES_ECB_encrypt_tail)

theorem aes_ecb_blockwise_witness:
  "AES_ECB_encrypt \<lparr>aesenc = (\<lambda>d k. d + k), aesenclast = (\<lambda>d k. d XOR k)\<rparr> [1, 2, 3] 2
      (replicate 16 0 @ [5] @ replicate 15 7) 17 =
    Inr (ecb_block \<lparr>aesenc = (\<lambda>d k. d + k), aesenclast = (\<lambda>d k. d XOR k)\<rparr> [1, 2, 3] 2 (replicate 16 0) @
         ecb_block \<lparr>aesenc = (\<lambda>d k. d + k), aesenclast = (\<lambda>d k. d XOR k)\<rparr> [1, 2, 3] 2 (5 # replicate 15 0), 32)"
  using aes_ecb_blockwise [of "[replicate 16 0]" "[5]" "\<lparr>aesenc = (\<lambda>d k. d + k), aesenclast = (\<lambda>d k. d XOR k)\<rparr>" "[1, 2, 3]" 2
      "replicate 15 7"]
  by (simp add: AES_BLOCK_SIZE_def)

end
