(* ===== verification/Secure_Engine.thy ===== *)
theory Secure_Engine
  imports Aes_Engine
begin

text \<open>
  The two engines of the secure library: additive encryption of table rows with one-time pads
  (\<open>secure/encryption/sls_engine.h\<close>) and verification tags (\<open>secure/encryption/sls_mac.h\<close>), for
  entries of type \<open>uint32_t\<close>. The lemmas show that encryption and decryption are linear, so that
  the sum of encrypted rows is decrypted by the sum of the pads of the rows' addresses.
\<close>

section \<open>The encryption engine\<close>

text \<open>A byte buffer read as an array of 32-bit or 128-bit values.\<close>

definition cast32 :: "u8 list \<Rightarrow> u32 list" where
  "cast32 bs = map (\<lambda>i. le_word (take 4 (drop (i * 4) bs))) [0..<length bs div 4]"

definition cast128 :: "u8 list \<Rightarrow> u128 list" where
  "cast128 bs = map (\<lambda>i. le_word (take 16 (drop (i * 16) bs))) [0..<length bs div 16]"

definition OTPBytes :: nat where
  "OTPBytes = 16"

definition OTP_SIZE :: nat where
  "OTP_SIZE = OTPBytes div 4"

definition generate_otp32 :: "aes_instructions \<Rightarrow> CommonCryptoEngine \<Rightarrow> u64 \<Rightarrow> u32 list result" where
  "generate_otp32 ins e address =
     bind_r (generate_otp (engine_encrypt ins e) OTPBytes 0 (table_version e) address) (\<lambda>b. Inr (cast32 b))"

primrec encrypt_slices ::
  "aes_instructions \<Rightarrow> CommonCryptoEngine \<Rightarrow> nat \<Rightarrow> u32 list \<Rightarrow> u64 \<Rightarrow> (u32 list \<times> u64) result" where
  "encrypt_slices ins e 0 xs col_offset = Inr ([], col_offset)"
| "encrypt_slices ins e (Suc k) xs col_offset =
     bind_r (generate_otp32 ins e col_offset) (\<lambda>OTP.
     bind_r (encrypt_slices ins e k (drop OTP_SIZE xs) (col_offset + word_of_nat OTPBytes)) (\<lambda>(ys, c).
       Inr (map2 (-) (take OTP_SIZE xs) OTP @ ys, c)))"

definition encrypt :: "aes_instructions \<Rightarrow> CommonCryptoEngine \<Rightarrow> u32 list \<Rightarrow> u64 \<Rightarrow> (u32 list \<times> u64) result" where
  "encrypt ins e xs offset =
     (if length xs mod OTP_SIZE \<noteq> 0 then Inl (Throw InvalidArguments)
      else bind_r (encrypt_slices ins e (length xs div OTP_SIZE) xs offset) (\<lambda>(ys, c). Inr (ys, c - offset)))"

definition offset_transform_reduce_vec ::
  "aes_instructions \<Rightarrow> CommonCryptoEngine \<Rightarrow> u64 list \<Rightarrow> u32 list \<Rightarrow> (u32 list \<Rightarrow> u32 list \<Rightarrow> u32 list) \<Rightarrow> u32 list result" where
  "offset_transform_reduce_vec ins e offsets init op =
     (let buffer = replicate (length offsets * length init) (0 :: u32) in
      bind_r (generate_otp_vec (engine_encrypt ins e) 4 0 (table_version e) offsets OTP_SIZE (length init div OTP_SIZE) buffer) (\<lambda>bytes.
      bind_r (rowwise_rows (cast32 bytes) (make_rowwise_view 0 (length buffer) (length init) 0 0)) (\<lambda>otps_rows.
        Inr (fold (\<lambda>r acc. op acc r) otps_rows init))))"

text \<open>The range \<open>psum\<close> and the pads that start at the iterator \<open>otp_sum_first\<close>.\<close>

definition decrypt_psum :: "u32 list \<Rightarrow> u32 list \<Rightarrow> u32 list result" where
  "decrypt_psum psum otp_sum =
     (if length psum \<le> length otp_sum then Inr (map2 (+) psum otp_sum) else Inl Undefined)"

definition decrypt_psum_offsets ::
  "aes_instructions \<Rightarrow> CommonCryptoEngine \<Rightarrow> u32 list \<Rightarrow> u64 list \<Rightarrow> (u32 list \<Rightarrow> u32 list \<Rightarrow> u32 list) \<Rightarrow> u32 list result" where
  "decrypt_psum_offsets ins e psum offsets op =
     (if length psum mod OTP_SIZE \<noteq> 0 then Inl (Throw InvalidArguments)
      else bind_r (offset_transform_reduce_vec ins e offsets (replicate (length psum) 0) op) (\<lambda>op_result.
             decrypt_psum psum op_result))"

text \<open>The deprecated version without the buffer of pads. It adds the reduced slice to the initial
  value, from which the reduction of the slice already started.\<close>

primrec reduce_slice ::
  "aes_instructions \<Rightarrow> CommonCryptoEngine \<Rightarrow> (u32 list \<Rightarrow> u32 list \<Rightarrow> u32 list) \<Rightarrow> u64 \<Rightarrow> u64 list \<Rightarrow> u32 list \<Rightarrow> u32 list result" where
  "reduce_slice ins e op col_offset [] data = Inr data"
| "reduce_slice ins e op col_offset (offset # offsets) data =
     bind_r (generate_otp32 ins e (offset + col_offset)) (\<lambda>OTP.
       reduce_slice ins e op col_offset offsets (op data OTP))"

primrec reduce_slices ::
  "aes_instructions \<Rightarrow> CommonCryptoEngine \<Rightarrow> (u32 list \<Rightarrow> u32 list \<Rightarrow> u32 list) \<Rightarrow> u64 list \<Rightarrow> nat \<Rightarrow> u32 list \<Rightarrow> u64 \<Rightarrow> u32 list result" where
  "reduce_slices ins e op offsets 0 init col_offset = Inr []"
| "reduce_slices ins e op offsets (Suc k) init col_offset =
     bind_r (reduce_slice ins e op col_offset offsets (take OTP_SIZE init)) (\<lambda>data_slice.
     bind_r (reduce_slices ins e op offsets k (drop OTP_SIZE init) (col_offset + word_of_nat OTPBytes)) (\<lambda>ys.
       Inr (map2 (+) data_slice (take OTP_SIZE init) @ ys)))"

definition offset_transform_reduce ::
  "aes_instructions \<Rightarrow> CommonCryptoEngine \<Rightarrow> u64 list \<Rightarrow> u32 list \<Rightarrow> (u32 list \<Rightarrow> u32 list \<Rightarrow> u32 list) \<Rightarrow> u32 list result" where
  "offset_transform_reduce ins e offsets init op =
     (if length init mod OTP_SIZE \<noteq> 0 then Inl Undefined
      else reduce_slices ins e op offsets (length init div OTP_SIZE) init 0)"

section \<open>The verification engine\<close>

record VerificationEngine =
  ve_crypto :: CommonCryptoEngine
  base_address :: u64

definition VerificationEngine_make :: "key_expansion \<Rightarrow> u64 \<Rightarrow> u32 \<Rightarrow> u8 list \<Rightarrow> VerificationEngine result" where
  "VerificationEngine_make expand table_address version key =
     bind_r (CommonCryptoEngine_make expand version key) (\<lambda>c.
       Inr \<lparr>ve_crypto = c, base_address = table_address\<rparr>)"

definition BIG_VALUE :: u128 where
  "BIG_VALUE = push_bit 127 1 - 1"

definition generate_otp128 :: "aes_instructions \<Rightarrow> VerificationEngine \<Rightarrow> u32 \<Rightarrow> u64 \<Rightarrow> u128 result" where
  "generate_otp128 ins v prefix address =
     bind_r (generate_otp (engine_encrypt ins (ve_crypto v)) 16 prefix (table_version (ve_crypto v)) address)
       (\<lambda>b. Inr (le_word b))"

definition checksum_step :: "u32 \<Rightarrow> u128 \<times> u128 \<Rightarrow> u128 \<times> u128" where
  "checksum_step e = (\<lambda>(sum, s). (sum + s * ucast e, (s * s) mod BIG_VALUE))"

definition linear_checksum :: "aes_instructions \<Rightarrow> VerificationEngine \<Rightarrow> u32 list \<Rightarrow> u128 result" where
  "linear_checksum ins v xs =
     bind_r (generate_otp128 ins v 0x01 (base_address v)) (\<lambda>s. Inr (fst (fold checksum_step xs (0, s))))"

definition generate_mac :: "aes_instructions \<Rightarrow> VerificationEngine \<Rightarrow> u32 list \<Rightarrow> u64 \<Rightarrow> u128 result" where
  "generate_mac ins v xs address =
     bind_r (linear_checksum ins v xs) (\<lambda>T.
     bind_r (generate_otp128 ins v 0x10 address) (\<lambda>E. Inr (T - E)))"

definition mac_transform_reduce_vec ::
  "aes_instructions \<Rightarrow> VerificationEngine \<Rightarrow> u64 list \<Rightarrow> u128 \<Rightarrow> (u128 \<Rightarrow> u128 \<Rightarrow> u128) \<Rightarrow> u128 result" where
  "mac_transform_reduce_vec ins v offsets init op =
     bind_r (generate_otp_vec (engine_encrypt ins (ve_crypto v)) 16 0x10 (table_version (ve_crypto v)) offsets 1 1
         (replicate (length offsets) (0 :: u128))) (\<lambda>bytes.
       Inr (fold (\<lambda>t acc. op acc t) (cast128 bytes) init))"

primrec mac_transform_reduce ::
  "aes_instructions \<Rightarrow> VerificationEngine \<Rightarrow> u64 list \<Rightarrow> u128 \<Rightarrow> (u128 \<Rightarrow> u128 \<Rightarrow> u128) \<Rightarrow> u128 result" where
  "mac_transform_reduce ins v [] init op = Inr init"
| "mac_transform_reduce ins v (address # offsets) init op =
     bind_r (generate_otp128 ins v 0x10 address) (\<lambda>Ei. mac_transform_reduce ins v offsets (op init Ei) op)"

definition validate_psum :: "aes_instructions \<Rightarrow> VerificationEngine \<Rightarrow> u32 list \<Rightarrow> u128 \<Rightarrow> u128 \<Rightarrow> bool result" where
  "validate_psum ins v xs computed_tag_sum generated_tag_sum =
     bind_r (linear_checksum ins v xs) (\<lambda>T. Inr (T = computed_tag_sum + generated_tag_sum))"

definition validate_psum_offsets ::
  "aes_instructions \<Rightarrow> VerificationEngine \<Rightarrow> u32 list \<Rightarrow> u64 list \<Rightarrow> u128 \<Rightarrow> (u128 \<Rightarrow> u128 \<Rightarrow> u128) \<Rightarrow> bool result" where
  "validate_psum_offsets ins v xs offsets C op =
     bind_r (mac_transform_reduce_vec ins v offsets 0 op) (\<lambda>E. validate_psum ins v xs C E)"

section \<open>What the engines compute\<close>

definition engine_block :: "aes_instructions \<Rightarrow> CommonCryptoEngine \<Rightarrow> u8 list \<Rightarrow> u8 list" where
  "engine_block ins e = ecb_block ins (key_schedule (aes_backend e)) (encryption_rounds (aes_backend e))"

text \<open>The pads of a row of \<open>n\<close> entries, and the mask of a tag.\<close>

definition row_pads :: "aes_instructions \<Rightarrow> CommonCryptoEngine \<Rightarrow> nat \<Rightarrow> u64 \<Rightarrow> u32 list" where
  "row_pads ins e n offset = concat (map cast32 (pad_row (engine_block ins e) 0 (table_version e) (n div OTP_SIZE) offset))"

definition tag_pad :: "aes_instructions \<Rightarrow> VerificationEngine \<Rightarrow> u32 \<Rightarrow> u64 \<Rightarrow> u128" where
  "tag_pad ins v prefix address = le_word (pad (engine_block ins (ve_crypto v)) prefix (table_version (ve_crypto v)) address)"

text \<open>The sum of rows entry by entry.\<close>

definition vsum :: "nat \<Rightarrow> 'a::comm_monoid_add list list \<Rightarrow> 'a list" where
  "vsum n rows = fold (\<lambda>r acc. map2 (+) acc r) rows (replicate n 0)"

text \<open>The factors of the checksum: the secret and its repeated squares.\<close>

primrec factors :: "u128 \<Rightarrow> nat \<Rightarrow> u128 list" where
  "factors s 0 = []"
| "factors s (Suc n) = s # factors ((s * s) mod BIG_VALUE) n"

definition checksum :: "u128 \<Rightarrow> u32 list \<Rightarrow> u128" where
  "checksum s xs = sum_list (map2 (\<lambda>f e. f * ucast e) (factors s (length xs)) xs)"

text \<open>The size of the buffer of pads stays below what the backend can encrypt in one call.\<close>

definition pads_fit :: "nat \<Rightarrow> u64 list \<Rightarrow> bool" where
  "pads_fit n offsets \<longleftrightarrow> 4 * n * length offsets < 2 ^ 31"

text \<open>
  The checksum of a sum of rows is the sum of their checksums when no column sum leaves 32 bits.
\<close>

definition columns_fit :: "nat \<Rightarrow> u32 list list \<Rightarrow> bool" where
  "columns_fit n rows \<longleftrightarrow> (\<forall>j < n. sum_list (map (\<lambda>r. unat (r ! j)) rows) < 2 ^ 32)"

text \<open>A pair of engines for the concrete example at the end.\<close>

definition example_instructions :: aes_instructions where
  "example_instructions = \<lparr>aesenc = (\<lambda>d k. d + k), aesenclast = (\<lambda>d k. d XOR k)\<rparr>"

definition example_crypto :: CommonCryptoEngine where
  "example_crypto = \<lparr>table_version = 3, aes_backend = \<lparr>encryption_rounds = 2, key_schedule = [1, 2, 3]\<rparr>\<rparr>"

definition example_verifier :: VerificationEngine where
  "example_verifier = \<lparr>ve_crypto = example_crypto, base_address = 64\<rparr>"

section \<open>Lemmas\<close>

lemma engine_encrypt_ni: "engine_encrypt ins e = ni_encrypt ins (aes_backend e)"
  by (simp add: fun_eq_iff engine_encrypt_def)

interpretation engine: ecb_backend "engine_encrypt ins e" "engine_block ins e" for ins e
  unfolding engine_encrypt_ni engine_block_def by (rule ni.ecb_backend_axioms)

lemma length_cast32 [simp]: "length (cast32 bs) = length bs div 4"
  by (simp add: cast32_def)

lemma cast32_append:
  assumes "length a = 4 * k"
  shows "cast32 (a @ b) = cast32 a @ cast32 b"
proof (rule nth_equalityI)
  show "length (cast32 (a @ b)) = length (cast32 a @ cast32 b)" by (simp add: assms)
  fix i assume i: "i < length (cast32 (a @ b))"
  show "cast32 (a @ b) ! i = (cast32 a @ cast32 b) ! i"
  proof (cases "i < k")
    case True
    then have "i * 4 + 4 \<le> length a" using assms by simp
    then show ?thesis using True i assms by (simp add: cast32_def nth_append)
  next
    case False
    then obtain j where j: "i = k + j" using le_Suc_ex by (metis not_less)
    have "i * 4 - length a = j * 4" "length a div 4 = k" "length a \<le> i * 4" using assms j by simp_all
    then show ?thesis using i assms by (simp add: cast32_def nth_append j)
  qed
qed

lemma cast32_concat:
  "\<forall>b \<in> set bs. length b = 16 \<Longrightarrow> cast32 (concat bs) = concat (map cast32 bs)"
proof (induction bs)
  case (Cons b bs)
  then show ?case using cast32_append [of b 4 "concat bs"] by simp
qed (simp add: cast32_def)

lemma cast128_concat:
  "\<forall>b \<in> set bs. length b = 16 \<Longrightarrow> cast128 (concat bs) = map le_word bs"
proof (induction bs)
  case (Cons b bs)
  have "[0..<length (concat (b # bs)) div 16] = 0 # map Suc [0..<length (concat bs) div 16]"
    using Cons.prems div_add_self1 [of 16 "length (concat bs)"] by (simp add: upt_conv_Cons map_Suc_upt del: upt_Suc)
  then show ?case using Cons by (simp add: cast128_def comp_def)
qed (simp add: cast128_def)

lemma pad_row_Suc:
  "pad_row blk prefix version (Suc n) a =
    pad blk prefix version a # pad_row blk prefix version n (a + word_of_nat AES_BLOCK_SIZE)"
  by (simp add: pad_row_def upt_conv_Cons map_Suc_upt [symmetric] comp_def algebra_simps del: upt_Suc)

lemma length_pad_row [simp]: "length (pad_row blk prefix version n a) = n"
  by (simp add: pad_row_def)

lemma pad_row_blocks: "b \<in> set (pad_row (engine_block ins e) prefix version n a) \<Longrightarrow> length b = 16"
  using engine.length_pad by (auto simp: pad_row_def AES_BLOCK_SIZE_def)

lemma length_row_pads: "n mod OTP_SIZE = 0 \<Longrightarrow> length (row_pads ins e n a) = n"
proof -
  assume n: "n mod OTP_SIZE = 0"
  have "length (concat (map cast32 (pad_row (engine_block ins e) 0 v m a))) = m * OTP_SIZE" for v m
  proof (induction m arbitrary: a)
    case (Suc m)
    then show ?case using engine.length_pad [of ins e 0 v a]
      by (simp add: pad_row_Suc AES_BLOCK_SIZE_def OTP_SIZE_def OTPBytes_def)
  qed (simp add: pad_row_def)
  then show ?thesis using n by (simp add: row_pads_def mod_0_imp_dvd)
qed

lemma generate_otp32_pad:
  "generate_otp32 ins e a = Inr (cast32 (pad (engine_block ins e) 0 (table_version e) a))"
  using engine.generate_otp_pad [of ins e 0 "table_version e" a]
  by (simp add: generate_otp32_def OTPBytes_def AES_BLOCK_SIZE_def)

lemma generate_otp128_pad: "generate_otp128 ins v prefix a = Inr (tag_pad ins v prefix a)"
  using engine.generate_otp_pad [of ins "ve_crypto v" prefix "table_version (ve_crypto v)" a]
  by (simp add: generate_otp128_def tag_pad_def AES_BLOCK_SIZE_def)

lemma encrypt_slices_correct:
  "length xs = k * OTP_SIZE \<Longrightarrow> encrypt_slices ins e k xs off =
    Inr (map2 (-) xs (concat (map cast32 (pad_row (engine_block ins e) 0 (table_version e) k off))), off + word_of_nat (k * OTPBytes))"
proof (induction k arbitrary: xs off)
  case (Suc k)
  have IH: "encrypt_slices ins e k (drop OTP_SIZE xs) (off + word_of_nat OTPBytes) =
    Inr (map2 (-) (drop OTP_SIZE xs) (concat (map cast32 (pad_row (engine_block ins e) 0 (table_version e) k (off + word_of_nat OTPBytes)))),
      off + word_of_nat OTPBytes + word_of_nat (k * OTPBytes))"
    by (rule Suc.IH) (use Suc.prems in simp)
  have l: "length (take OTP_SIZE xs) = length (cast32 (pad (engine_block ins e) 0 (table_version e) off))"
    using Suc.prems engine.length_pad [of ins e 0 "table_version e" off] by (simp add: OTP_SIZE_def OTPBytes_def AES_BLOCK_SIZE_def)
  have "map2 (-) (take OTP_SIZE xs) (cast32 (pad (engine_block ins e) 0 (table_version e) off)) @
      map2 (-) (drop OTP_SIZE xs) ys = map2 (-) xs (cast32 (pad (engine_block ins e) 0 (table_version e) off) @ ys)" for ys
    using l by (metis append_take_drop_id map_append zip_append)
  then show ?case using IH
    by (simp add: generate_otp32_pad pad_row_Suc OTPBytes_def AES_BLOCK_SIZE_def algebra_simps)
qed (simp add: pad_row_def)

lemma encrypt_correct:
  assumes "length xs mod OTP_SIZE = 0"
  shows "encrypt ins e xs off = Inr (map2 (-) xs (row_pads ins e (length xs) off), word_of_nat (4 * length xs))"
proof -
  obtain k where k: "length xs = k * OTP_SIZE" using assms by (metis mod_0_imp_dvd dvd_def mult.commute)
  have d: "length xs div OTP_SIZE = k" "k * OTPBytes = 4 * length xs" using k by (simp_all add: OTP_SIZE_def OTPBytes_def)
  show ?thesis
    using assms unfolding encrypt_def row_pads_def d encrypt_slices_correct [OF k] by simp
qed

lemma row_pads_bytes:
  "cast32 (concat (map (\<lambda>a. concat (pad_row (engine_block ins e) 0 (table_version e) (n div OTP_SIZE) a)) offsets)) =
    concat (map (row_pads ins e n) offsets)"
proof -
  let ?r = "pad_row (engine_block ins e) 0 (table_version e) (n div OTP_SIZE)"
  have "cast32 (concat (map (\<lambda>a. concat (?r a)) offsets)) = concat (map cast32 (concat (map ?r offsets)))"
    unfolding concat_concat_map [symmetric] by (rule cast32_concat) (use pad_row_blocks in fastforce)
  also have "\<dots> = concat (map (row_pads ins e n) offsets)" by (induction offsets) (simp_all add: row_pads_def)
  finally show ?thesis .
qed

lemma rows_of_concat:
  assumes "0 < n" "\<forall>r \<in> set rs. length r = n"
  shows "rowwise_rows (concat rs) (make_rowwise_view 0 (length rs * n) n 0 0) = Inr rs"
proof -
  have l: "length (concat rs) = length rs * n" using assms(2) by (induction rs) auto
  have "map (\<lambda>i. take n (drop (i * n) (concat rs))) [0..<length rs] = rs"
    using assms(2)
  proof (induction rs)
    case (Cons r rs)
    have u: "[0..<length (r # rs)] = 0 # map Suc [0..<length rs]"
      by (simp add: upt_conv_Cons map_Suc_upt del: upt_Suc)
    show ?case unfolding u using Cons by (simp add: comp_def)
  qed simp
  then show ?thesis using rowwise_rows_whole [OF assms(1) l] l by simp
qed

lemma offset_transform_reduce_vec_correct:
  assumes "length init mod OTP_SIZE = 0" "0 < length init" "pads_fit (length init) offsets"
  shows "offset_transform_reduce_vec ins e offsets init op =
    Inr (fold (\<lambda>r acc. op acc r) (map (row_pads ins e (length init)) offsets) init)"
proof -
  let ?n = "length init div OTP_SIZE"
  have n: "0 < ?n" "OTP_SIZE * ?n = length init" "OTP_SIZE * 4 = AES_BLOCK_SIZE"
    using assms(1,2) by (simp_all add: OTP_SIZE_def OTPBytes_def AES_BLOCK_SIZE_def div_greater_zero_iff dvd_imp_le mod_0_imp_dvd)
  have f: "AES_BLOCK_SIZE * (?n * length offsets) < 2 ^ 31"
  proof -
    have "AES_BLOCK_SIZE * (?n * length offsets) = 4 * (OTP_SIZE * ?n) * length offsets" unfolding n(3) [symmetric] by simp
    then show ?thesis using assms(3) unfolding n(2) pads_fit_def by argo
  qed
  have g: "generate_otp_vec (engine_encrypt ins e) 4 0 (table_version e) offsets OTP_SIZE ?n (replicate (length offsets * length init) (0 :: u32)) =
    Inr (concat (map (\<lambda>a. concat (pad_row (engine_block ins e) 0 (table_version e) ?n a)) offsets))"
    by (rule engine.generate_otp_vec_pads [OF n(3,1) _ f]) (simp add: n(2))
  have l: "\<forall>r \<in> set (map (row_pads ins e (length init)) offsets). length r = length init"
    using length_row_pads [OF assms(1)] by auto
  have r: "rowwise_rows (concat (map (row_pads ins e (length init)) offsets)) (make_rowwise_view 0 (length offsets * length init) (length init) 0 0) =
    Inr (map (row_pads ins e (length init)) offsets)"
    using rows_of_concat [OF assms(2) l] by (simp only: length_map)
  show ?thesis
    unfolding offset_transform_reduce_vec_def Let_def g bind_r_simps row_pads_bytes length_replicate r ..
qed

lemma mac_transform_reduce_vec_correct:
  assumes "AES_BLOCK_SIZE * length offsets < 2 ^ 31"
  shows "mac_transform_reduce_vec ins v offsets init op = Inr (fold (\<lambda>t acc. op acc t) (map (tag_pad ins v 0x10) offsets) init)"
proof -
  let ?p = "pad (engine_block ins (ve_crypto v)) 0x10 (table_version (ve_crypto v))"
  have g: "generate_otp_vec (engine_encrypt ins (ve_crypto v)) 16 0x10 (table_version (ve_crypto v)) offsets 1 1 (replicate (length offsets) (0 :: u128)) =
    Inr (concat (map (\<lambda>a. concat (pad_row (engine_block ins (ve_crypto v)) 0x10 (table_version (ve_crypto v)) 1 a)) offsets))"
    by (rule engine.generate_otp_vec_pads) (use assms in \<open>simp_all add: AES_BLOCK_SIZE_def\<close>)
  have p: "concat (map (\<lambda>a. concat (pad_row (engine_block ins (ve_crypto v)) 0x10 (table_version (ve_crypto v)) 1 a)) offsets) =
    concat (map ?p offsets)"
    by (simp add: pad_row_def)
  have "cast128 (concat (map ?p offsets)) = map (tag_pad ins v 0x10) offsets"
    using cast128_concat [of "map ?p offsets"] engine.length_pad
    by (simp add: AES_BLOCK_SIZE_def tag_pad_def)
  then show ?thesis unfolding mac_transform_reduce_vec_def g bind_r_simps p by simp
qed

lemma mac_transform_reduce_correct:
  "mac_transform_reduce ins v offsets init op = Inr (fold (\<lambda>t acc. op acc t) (map (tag_pad ins v 0x10) offsets) init)"
  by (induction offsets arbitrary: init) (simp_all add: generate_otp128_pad)

lemma checksum_fold: "fst (fold checksum_step xs (a, s)) = a + checksum s xs"
proof (induction xs arbitrary: a s)
  case (Cons x xs)
  then show ?case by (simp add: checksum_step_def checksum_def add.assoc)
qed (simp add: checksum_def)

lemma linear_checksum_correct: "linear_checksum ins v xs = Inr (checksum (tag_pad ins v 0x01 (base_address v)) xs)"
  by (simp add: linear_checksum_def generate_otp128_pad checksum_fold)

lemma length_factors [simp]: "length (factors s n) = n"
  by (induction n arbitrary: s) simp_all

section \<open>Linearity\<close>

lemma fold_vsum:
  "\<forall>r \<in> set rows. length r = n \<Longrightarrow> length acc = n \<Longrightarrow>
    length (fold (\<lambda>r acc. map2 (+) acc r) rows acc) = n \<and>
    (\<forall>j < n. fold (\<lambda>r acc. map2 (+) acc r) rows acc ! j = acc ! j + sum_list (map (\<lambda>r. r ! j) rows))"
  for rows :: "'a::comm_monoid_add list list"
proof (induction rows arbitrary: acc)
  case (Cons r rows)
  have "length (map2 (+) acc r) = n" using Cons.prems by simp
  then show ?case using Cons.IH [of "map2 (+) acc r"] Cons.prems by (simp add: add.assoc)
qed simp

lemma length_vsum: "\<forall>r \<in> set rows. length r = n \<Longrightarrow> length (vsum n rows) = n"
  using fold_vsum [of rows n "replicate n 0"] by (simp add: vsum_def)

lemma vsum_nth: "\<forall>r \<in> set rows. length r = n \<Longrightarrow> j < n \<Longrightarrow> vsum n rows ! j = sum_list (map (\<lambda>r. r ! j) rows)"
  using fold_vsum [of rows n "replicate n 0"] by (simp add: vsum_def)

text \<open>Subtracting pads from rows and adding the sum of the pads to the sum of the results gives the sum of the rows.\<close>

lemma vsum_decrypt:
  fixes row pd :: "'i \<Rightarrow> 'a::ab_group_add list"
  assumes "\<forall>i \<in> set is. length (row i) = n" "\<forall>i \<in> set is. length (pd i) = n"
  shows "map2 (+) (vsum n (map (\<lambda>i. map2 (-) (row i) (pd i)) is)) (vsum n (map pd is)) = vsum n (map row is)"
proof -
  have m: "\<forall>r \<in> set (map (\<lambda>i. map2 (-) (row i) (pd i)) is). length r = n"
    "\<forall>r \<in> set (map row is). length r = n" "\<forall>r \<in> set (map pd is). length r = n"
    using assms by auto
  show ?thesis
  proof (rule nth_equalityI)
    fix j assume "j < length (map2 (+) (vsum n (map (\<lambda>i. map2 (-) (row i) (pd i)) is)) (vsum n (map pd is)))"
    then have j: "j < n" using m by (simp add: length_vsum)
    have "sum_list (map (\<lambda>r. r ! j) (map (\<lambda>i. map2 (-) (row i) (pd i)) is)) + sum_list (map (\<lambda>r. r ! j) (map pd is)) =
      sum_list (map (\<lambda>r. r ! j) (map row is))"
      using assms j by (induction "is") (auto simp: algebra_simps)
    then show "map2 (+) (vsum n (map (\<lambda>i. map2 (-) (row i) (pd i)) is)) (vsum n (map pd is)) ! j = vsum n (map row is) ! j"
      using j m by (simp add: length_vsum vsum_nth)
  qed (use m in \<open>simp add: length_vsum\<close>)
qed

lemma ucast_sum_fit:
  "sum_list (map unat xs) < 2 ^ 32 \<Longrightarrow> ucast (sum_list xs :: u32) = (sum_list (map ucast xs) :: u128)"
proof -
  assume "sum_list (map unat xs) < 2 ^ 32"
  then have "unat (sum_list xs) = sum_list (map unat xs) \<and> ucast (sum_list xs) = (sum_list (map ucast xs) :: u128)"
  proof (induction xs)
    case (Cons x xs)
    then have u: "unat (x + sum_list xs) = unat x + unat (sum_list xs)"
      by (subst unat_add_lem [symmetric]) (simp add: Cons)
    have "(ucast (x + sum_list xs) :: u128) = word_of_nat (unat (x + sum_list xs))" by simp
    also have "\<dots> = ucast x + ucast (sum_list xs)" unfolding u by simp
    finally show ?case using u Cons by simp
  qed simp
  then show ?thesis ..
qed

lemma checksum_vsum:
  assumes "\<forall>r \<in> set rows. length r = n" "columns_fit n rows"
  shows "checksum s (vsum n rows) = sum_list (map (checksum s) rows)"
proof -
  have c: "checksum s xs = (\<Sum>j < n. factors s n ! j * ucast (xs ! j))" if "length xs = n" for xs
    using that by (simp add: checksum_def sum_list_sum_nth atLeast0LessThan)
  have "ucast (vsum n rows ! j) = (sum_list (map (\<lambda>r. ucast (r ! j)) rows) :: u128)" if "j < n" for j
    using ucast_sum_fit [of "map (\<lambda>r. r ! j) rows"] assms(2) that
    by (simp add: vsum_nth [OF assms(1)] columns_fit_def comp_def)
  then have "checksum s (vsum n rows) = (\<Sum>j < n. factors s n ! j * sum_list (map (\<lambda>r. ucast (r ! j)) rows))"
    using c [of "vsum n rows"] length_vsum [OF assms(1)] by simp
  also have "\<dots> = sum_list (map (\<lambda>r. \<Sum>j < n. factors s n ! j * ucast (r ! j)) rows)"
    by (induction rows) (simp_all add: distrib_left sum.distrib)
  also have "\<dots> = sum_list (map (checksum s) rows)"
    using c assms(1) by (intro arg_cong [where f = sum_list] map_cong) auto
  finally show ?thesis .
qed

lemma fold_add_eq_vsum:
  fixes acc :: "'a::comm_monoid_add list"
  assumes "\<forall>r \<in> set rows. length r = n" "length acc = n"
  shows "fold (\<lambda>r acc. map2 (+) acc r) rows acc = map2 (+) acc (vsum n rows)"
  using fold_vsum [OF assms] vsum_nth [OF assms(1)] length_vsum [OF assms(1)] assms(2)
  by (intro nth_equalityI) simp_all

lemma reduce_slice_correct:
  "reduce_slice ins e op c offsets data =
    Inr (fold (\<lambda>r acc. op acc r) (map (\<lambda>a. cast32 (pad (engine_block ins e) 0 (table_version e) (a + c))) offsets) data)"
  by (induction offsets arbitrary: data) (simp_all add: generate_otp32_pad)

lemma length_cast_pad: "length (cast32 (pad (engine_block ins e) prefix version a)) = OTP_SIZE"
  using engine.length_pad [of ins e prefix version a] by (simp add: AES_BLOCK_SIZE_def OTP_SIZE_def OTPBytes_def)

lemma vsum_append:
  fixes as bs :: "'i \<Rightarrow> 'a::comm_monoid_add list"
  assumes "\<And>i. length (as i) = n" "\<And>i. length (bs i) = m"
  shows "vsum (n + m) (map (\<lambda>i. as i @ bs i) is) = vsum n (map as is) @ vsum m (map bs is)"
proof -
  have "fold (\<lambda>r acc. map2 (+) acc r) (map (\<lambda>i. as i @ bs i) is) (p @ q) =
    fold (\<lambda>r acc. map2 (+) acc r) (map as is) p @ fold (\<lambda>r acc. map2 (+) acc r) (map bs is) q"
    if "length p = n" "length q = m" for p q
    using that assms by (induction "is" arbitrary: p q) simp_all
  then show ?thesis by (simp add: vsum_def replicate_add)
qed

lemma reduce_slices_correct:
  assumes "length init = k * OTP_SIZE"
  shows "reduce_slices ins e (map2 (+)) offsets k init c =
    Inr (map2 (+) (map2 (+) init (vsum (k * OTP_SIZE) (map (\<lambda>a. concat (map cast32 (pad_row (engine_block ins e) 0 (table_version e) k (a + c)))) offsets))) init)"
  using assms
proof (induction k arbitrary: init c)
  case (Suc k)
  let ?p = "\<lambda>a. cast32 (pad (engine_block ins e) 0 (table_version e) (a + c))"
  let ?q = "\<lambda>a. concat (map cast32 (pad_row (engine_block ins e) 0 (table_version e) k (a + (c + word_of_nat OTPBytes))))"
  let ?i = "take OTP_SIZE init" and ?j = "drop OTP_SIZE init"
  have l: "length ?i = OTP_SIZE" "length ?j = k * OTP_SIZE" "length (?p a) = OTP_SIZE" for a
    using Suc.prems length_cast_pad by simp_all
  have q: "length (?q a) = k * OTP_SIZE" for a
    using length_row_pads [of "k * OTP_SIZE" ins e "a + (c + word_of_nat OTPBytes)"]
    by (simp add: row_pads_def OTP_SIZE_def OTPBytes_def)
  have r: "reduce_slice ins e (map2 (+)) c offsets ?i = Inr (map2 (+) ?i (vsum OTP_SIZE (map ?p offsets)))"
    unfolding reduce_slice_correct by (subst fold_add_eq_vsum) (use l in auto)
  have IH: "reduce_slices ins e (map2 (+)) offsets k ?j (c + word_of_nat OTPBytes) =
    Inr (map2 (+) (map2 (+) ?j (vsum (k * OTP_SIZE) (map ?q offsets))) ?j)"
    by (rule Suc.IH) (rule l(2))
  have v: "vsum (Suc k * OTP_SIZE) (map (\<lambda>a. concat (map cast32 (pad_row (engine_block ins e) 0 (table_version e) (Suc k) (a + c)))) offsets) =
    vsum OTP_SIZE (map ?p offsets) @ vsum (k * OTP_SIZE) (map ?q offsets)"
    using vsum_append [of ?p OTP_SIZE ?q "k * OTP_SIZE" offsets] l(3) q
    by (simp add: pad_row_Suc OTPBytes_def AES_BLOCK_SIZE_def add.assoc)
  have w: "length (vsum OTP_SIZE (map ?p offsets)) = OTP_SIZE" by (rule length_vsum) (use l in auto)
  have "map2 (+) (map2 (+) (?i @ ?j) (vsum OTP_SIZE (map ?p offsets) @ vsum (k * OTP_SIZE) (map ?q offsets))) (?i @ ?j) =
    map2 (+) (map2 (+) ?i (vsum OTP_SIZE (map ?p offsets))) ?i @ map2 (+) (map2 (+) ?j (vsum (k * OTP_SIZE) (map ?q offsets))) ?j"
    using l w by (simp del: append_take_drop_id)
  then show ?case unfolding v reduce_slices.simps r IH bind_r_simps append_take_drop_id
    by (rule arg_cong [OF sym])
qed (simp add: vsum_def)

lemma add_twice_assoc: "map2 (+) (map2 (+) a b) c = map2 (+) a (map2 (+) b c)" for a :: "'a::ab_semigroup_add list"
  by (rule nth_equalityI) (simp_all add: add.assoc)

lemma fold_add_sum_list: "fold (\<lambda>t acc. acc + t) ts a = a + sum_list ts" for a :: "'a::comm_monoid_add"
  by (induction ts arbitrary: a) (simp_all add: add.assoc)

lemma pads_fit_tags:
  assumes "n mod OTP_SIZE = 0" "0 < n" "pads_fit n offsets"
  shows "AES_BLOCK_SIZE * length offsets < 2 ^ 31"
proof -
  have "4 \<le> n" using assms(1,2) by (simp add: OTP_SIZE_def OTPBytes_def dvd_imp_le mod_0_imp_dvd)
  then have "16 * length offsets \<le> 4 * n * length offsets" by (intro mult_right_mono) simp_all
  also have "\<dots> < 2 ^ 31" using assms(3) by (simp only: pads_fit_def)
  finally show ?thesis by (simp only: AES_BLOCK_SIZE_def)
qed

section \<open>Properties\<close>

text \<open>
  C23: the sum of rows that were encrypted at their addresses is decrypted by the sum of the pads of
  these addresses: it is the sum of the plain rows modulo \<open>2 ^ 32\<close>. The sum of the rows' encrypted
  tags validates it whenever no column sum of the plain rows leaves 32 bits.
\<close>
theorem encrypted_sum_decrypts:
  assumes "n mod OTP_SIZE = 0" "0 < n" "\<forall>(r, a) \<in> set ros. length r = n" "pads_fit n (map snd ros)"
  shows "\<exists>encs macs. map_r (\<lambda>(r, a). encrypt ins e r a) ros = Inr encs \<and>
    map_r (\<lambda>(r, a). generate_mac ins v r a) ros = Inr macs \<and>
    decrypt_psum_offsets ins e (vsum n (map fst encs)) (map snd ros) (map2 (+)) = Inr (vsum n (map fst ros)) \<and>
    (columns_fit n (map fst ros) \<longrightarrow>
      validate_psum_offsets ins v (vsum n (map fst ros)) (map snd ros) (sum_list macs) (+) = Inr True)"
proof -
  let ?enc = "\<lambda>(r, a). map2 (-) r (row_pads ins e n a)"
  let ?mac = "\<lambda>(r, a). checksum (tag_pad ins v 0x01 (base_address v)) r - tag_pad ins v 0x10 a"
  have l: "length (fst ro) = n" if "ro \<in> set ros" for ro using assms(3) that by auto
  have e: "map_r (\<lambda>(r, a). encrypt ins e r a) ros = Inr (map (\<lambda>ro. (?enc ro, word_of_nat (4 * n))) ros)"
    by (rule map_r_Inr) (use l encrypt_correct assms(1) in \<open>fastforce simp: split_def\<close>)
  have m: "map_r (\<lambda>(r, a). generate_mac ins v r a) ros = Inr (map ?mac ros)"
    by (rule map_r_Inr) (simp add: generate_mac_def linear_checksum_correct generate_otp128_pad split_def)
  have p: "\<forall>r \<in> set (map (row_pads ins e n) (map snd ros)). length r = n" using length_row_pads [OF assms(1)] by auto
  have le: "length (vsum n (map ?enc ros)) = n"
    by (rule length_vsum) (use l length_row_pads [OF assms(1)] in \<open>auto simp: split_def\<close>)
  have z: "map2 (+) (replicate n (0 :: u32)) (vsum n (map (row_pads ins e n) (map snd ros))) = vsum n (map (row_pads ins e n) (map snd ros))"
    using length_vsum [OF p] by (intro nth_equalityI) simp_all
  have "offset_transform_reduce_vec ins e (map snd ros) (replicate n 0) (map2 (+)) = Inr (vsum n (map (row_pads ins e n) (map snd ros)))"
    using offset_transform_reduce_vec_correct [of "replicate n 0" "map snd ros" ins e "map2 (+)"] assms(1,2,4) p
    by (simp only: length_replicate fold_add_eq_vsum z)
  moreover have "map2 (+) (vsum n (map ?enc ros)) (vsum n (map (\<lambda>ro. row_pads ins e n (snd ro)) ros)) = vsum n (map fst ros)"
    using vsum_decrypt [of ros fst n "\<lambda>ro. row_pads ins e n (snd ro)"] l length_row_pads [OF assms(1)]
    by (simp add: split_def)
  ultimately have d: "decrypt_psum_offsets ins e (vsum n (map ?enc ros)) (map snd ros) (map2 (+)) = Inr (vsum n (map fst ros))"
    using le assms(1) length_vsum [OF p] by (simp add: decrypt_psum_offsets_def decrypt_psum_def comp_def)
  have t: "validate_psum_offsets ins v (vsum n (map fst ros)) (map snd ros) (sum_list (map ?mac ros)) (+) = Inr True"
    if "columns_fit n (map fst ros)"
  proof -
    have "mac_transform_reduce_vec ins v (map snd ros) 0 (+) = Inr (sum_list (map (\<lambda>ro. tag_pad ins v 0x10 (snd ro)) ros))"
      using mac_transform_reduce_vec_correct [OF pads_fit_tags [OF assms(1,2,4)]] by (simp add: fold_add_sum_list comp_def)
    moreover have "sum_list (map ?mac ros) + sum_list (map (\<lambda>ro. tag_pad ins v 0x10 (snd ro)) ros) =
      sum_list (map (checksum (tag_pad ins v 0x01 (base_address v))) (map fst ros))"
      by (induction ros) (auto simp: algebra_simps)
    ultimately show ?thesis
      using checksum_vsum [OF _ that, of "tag_pad ins v 0x01 (base_address v)"] l
      by (auto simp: validate_psum_offsets_def validate_psum_def linear_checksum_correct)
  qed
  show ?thesis using e m d t by (auto simp: comp_def)
qed

theorem encrypted_sum_decrypts_witness:
  "\<exists>encs macs. map_r (\<lambda>(r, a). encrypt example_instructions example_crypto r a) [([1, 2, 3, 4], 0), ([5, 6, 7, 8], 16)] = Inr encs \<and>
    map_r (\<lambda>(r, a). generate_mac example_instructions example_verifier r a) [([1, 2, 3, 4], 0), ([5, 6, 7, 8], 16)] = Inr macs \<and>
    decrypt_psum_offsets example_instructions example_crypto (vsum 4 (map fst encs)) [0, 16] (map2 (+)) = Inr [6, 8, 10, 12] \<and>
    validate_psum_offsets example_instructions example_verifier [6, 8, 10, 12] [0, 16] (sum_list macs) (+) = Inr True"
proof -
  have s: "vsum 4 [[1, 2, 3, 4], [5, 6, 7, 8 :: u32]] = [6, 8, 10, 12]" by code_simp
  have c: "columns_fit 4 [[1, 2, 3, 4], [5, 6, 7, 8]]"
    unfolding columns_fit_def
  proof (intro allI impI)
    fix j :: nat assume "j < 4"
    then consider "j = 0" | "j = 1" | "j = 2" | "j = 3" by linarith
    then show "sum_list (map (\<lambda>r. unat (r ! j)) [[1, 2, 3, 4], [5, 6, 7, 8 :: u32]]) < 2 ^ 32" by cases simp_all
  qed
  show ?thesis
    using encrypted_sum_decrypts [of 4 "[([1, 2, 3, 4], 0), ([5, 6, 7, 8], 16)]" example_instructions example_crypto example_verifier] s c
    by (simp add: OTP_SIZE_def OTPBytes_def pads_fit_def)
qed

text \<open>
  The deprecated reduction of pads adds the initial value once more than the vectorised one, so
  the two agree exactly when twice adding the initial value is adding it once, as for zeros.
\<close>
theorem deprecated_reduction_adds_init_twice:
  assumes "length init mod OTP_SIZE = 0" "0 < length init" "pads_fit (length init) offsets"
  shows "\<exists>r. offset_transform_reduce_vec ins e offsets init (map2 (+)) = Inr r \<and>
    offset_transform_reduce ins e offsets init (map2 (+)) = Inr (map2 (+) r init)"
proof -
  have p: "\<forall>r \<in> set (map (row_pads ins e (length init)) offsets). length r = length init" using length_row_pads [OF assms(1)] by auto
  obtain k where k: "length init = k * OTP_SIZE" using assms(1) by (metis mod_0_imp_dvd dvd_def mult.commute)
  then have d: "length init div OTP_SIZE = k" by (simp add: OTP_SIZE_def OTPBytes_def)
  have "offset_transform_reduce_vec ins e offsets init (map2 (+)) = Inr (map2 (+) init (vsum (length init) (map (row_pads ins e (length init)) offsets)))"
    unfolding offset_transform_reduce_vec_correct [OF assms] fold_add_eq_vsum [OF p refl] ..
  moreover have "offset_transform_reduce ins e offsets init (map2 (+)) =
    Inr (map2 (+) (map2 (+) init (vsum (length init) (map (row_pads ins e (length init)) offsets))) init)"
    using assms(1) reduce_slices_correct [OF k, of ins e offsets 0]
    by (simp add: offset_transform_reduce_def row_pads_def [abs_def] d k [symmetric])
  ultimately show ?thesis by blast
qed

end
