(* ===== verification/Secure_Load.thy ===== *)
theory Secure_Load
  imports Secure_Engine Cpu_Sls
begin

text \<open>
  Loading tables into the secure library: the preprocessor reads the plain tables, masks every row
  with one-time pads and writes the masked rows and their tags to the device's buffer
  (\<open>secure/encryption/sls_dlrm_preprocessor.h\<close>, \<open>io_traits.h\<close>, \<open>secure/common/sls_io.h\<close>). Arrays hold
  32-bit entries. The lemmas give the contents of the buffer and tell when loading returns.
\<close>

section \<open>Loading tables\<close>

text \<open>The writers differ in the space they use for the tag of a row.\<close>

datatype io_writer = TrivialMemoryWriter | MemoryWriter

definition meta_size :: "io_writer \<Rightarrow> nat" where
  "meta_size w = (case w of TrivialMemoryWriter \<Rightarrow> 16 | MemoryWriter \<Rightarrow> 64)"

definition memory_size :: "io_writer \<Rightarrow> nat \<Rightarrow> bool \<Rightarrow> nat" where
  "memory_size w n with_meta = n * 4 + (if with_meta then meta_size w else 0)"

record load_state =
  reader_pos :: nat
  out_buf :: "u32 list"
  out_pos :: nat
  slice_offset :: u64

definition reader_read :: "u32 list \<Rightarrow> nat \<Rightarrow> load_state \<Rightarrow> (u32 list \<times> load_state) result" where
  "reader_read src n st =
     bind_r (view_elems src (make_view (reader_pos st) (reader_pos st + n))) (\<lambda>slc.
       Inr (slc, st\<lparr>reader_pos := reader_pos st + n\<rparr>))"

definition writer_write :: "u32 list \<Rightarrow> load_state \<Rightarrow> load_state result" where
  "writer_write xs st =
     bind_r (view_write (out_buf st) (make_view (out_pos st) (out_pos st + length xs)) xs) (\<lambda>buf.
       Inr (st\<lparr>out_buf := buf, out_pos := out_pos st + length xs\<rparr>))"

definition write_meta :: "io_writer \<Rightarrow> u128 \<Rightarrow> load_state \<Rightarrow> load_state result" where
  "write_meta w tag st =
     (case w of TrivialMemoryWriter \<Rightarrow> writer_write (tag_elems tag) st
      | MemoryWriter \<Rightarrow> bind_r (writer_write (tag_elems tag) st)
          (writer_write (replicate ((meta_size w - 16) div 4) 0)))"

record load_params =
  lp_ins :: aes_instructions
  lp_ee :: CommonCryptoEngine
  lp_ve :: VerificationEngine
  lp_writer :: io_writer
  lp_tag :: bool
  lp_cols :: nat
  lp_src :: "u32 list"

definition BUFFER_SIZE :: nat where
  "BUFFER_SIZE = 8192"

definition rows_per_batch :: "nat \<Rightarrow> nat" where
  "rows_per_batch cols = BUFFER_SIZE div (4 * cols)"

text \<open>Encryption of one row, of the rows of a slice, and of a table batch by batch. The loop over
  the batches need not end: not returning is \<^const>\<open>None\<close>.\<close>

definition load_row :: "load_params \<Rightarrow> u32 list \<Rightarrow> load_state \<Rightarrow> load_state result" where
  "load_row p row st =
     bind_r (if lp_tag p then generate_mac (lp_ins p) (lp_ve p) row (slice_offset st) else Inr 0) (\<lambda>tag.
     bind_r (encrypt (lp_ins p) (lp_ee p) row (slice_offset st)) (\<lambda>(enc, size).
     bind_r (writer_write enc st) (\<lambda>st.
     bind_r (if lp_tag p then write_meta (lp_writer p) tag st else Inr st) (\<lambda>st.
       Inr (st\<lparr>slice_offset := slice_offset st + size\<rparr>)))))"

primrec load_rows :: "load_params \<Rightarrow> nat \<Rightarrow> u32 list \<Rightarrow> load_state \<Rightarrow> load_state result" where
  "load_rows p 0 slc st = Inr st"
| "load_rows p (Suc k) slc st =
     bind_r (load_row p (take (lp_cols p) slc) st) (load_rows p k (drop (lp_cols p) slc))"

definition load_batch :: "load_params \<Rightarrow> nat \<Rightarrow> load_state \<Rightarrow> load_state result" where
  "load_batch p rows_to_read st =
     bind_r (reader_read (lp_src p) (rows_to_read * lp_cols p) st) (\<lambda>(slc, st).
       load_rows p rows_to_read slc st)"

partial_function (option) load_table :: "load_params \<Rightarrow> nat \<Rightarrow> load_state \<Rightarrow> load_state result option" where
  "load_table p row_count st =
     (if row_count > 0 then
        case load_batch p (min row_count (rows_per_batch (lp_cols p))) st of
          Inl f \<Rightarrow> Some (Inl f)
        | Inr st \<Rightarrow> load_table p (row_count - min row_count (rows_per_batch (lp_cols p))) st
      else Some (Inr st))"

primrec load_all_tables :: "load_params \<Rightarrow> nat list \<Rightarrow> load_state \<Rightarrow> (u64 list \<times> load_state) result option" where
  "load_all_tables p [] st = Some (Inr ([], st))"
| "load_all_tables p (row_count # entries) st =
     (case load_table p row_count st of None \<Rightarrow> None | Some (Inl f) \<Rightarrow> Some (Inl f)
      | Some (Inr st') \<Rightarrow>
          (case load_all_tables p entries st' of None \<Rightarrow> None | Some (Inl f) \<Rightarrow> Some (Inl f)
           | Some (Inr (offsets, st')) \<Rightarrow> Some (Inr (slice_offset st # offsets, st'))))"

text \<open>
  What loading takes from its environment: the instructions and the key expansion, the two random
  keys, the address of the output buffer, and the hash of the address of the source.
\<close>

record load_env =
  env_ins :: aes_instructions
  env_expand :: key_expansion
  env_key_e :: "u8 list"
  env_key_v :: "u8 list"
  env_out :: u64
  env_hash :: u64

definition create_table_version :: "u64 \<Rightarrow> u32" where
  "create_table_version hash = ucast hash XOR ucast (drop_bit 32 hash)"

definition encrypted_buffer_size :: "io_writer \<Rightarrow> nat list \<Rightarrow> nat \<Rightarrow> bool \<Rightarrow> nat" where
  "encrypted_buffer_size w entries cols include_tag = memory_size w cols include_tag * sum_list entries"

record DLRMPostprocessor =
  pp_ins :: aes_instructions
  e_engine :: CommonCryptoEngine
  v_engine :: VerificationEngine
  pp_offsets :: "u64 list"
  cols_count :: u64

definition load_impl ::
  "load_env \<Rightarrow> io_writer \<Rightarrow> u32 list \<Rightarrow> nat list \<Rightarrow> nat \<Rightarrow> bool \<Rightarrow> u32 list \<Rightarrow> (DLRMPostprocessor \<times> u32 list) result option" where
  "load_impl env w src entries cols include_tag out =
     (if cols = 0 then Some (Inl Undefined) else
      case CommonCryptoEngine_make (env_expand env) (create_table_version (env_hash env)) (env_key_e env) of
        Inl f \<Rightarrow> Some (Inl f)
      | Inr ee \<Rightarrow>
      case VerificationEngine_make (env_expand env) (env_out env) (create_table_version (env_hash env)) (env_key_v env) of
        Inl f \<Rightarrow> Some (Inl f)
      | Inr ve \<Rightarrow>
      case load_all_tables \<lparr>lp_ins = env_ins env, lp_ee = ee, lp_ve = ve, lp_writer = w, lp_tag = include_tag,
             lp_cols = cols, lp_src = src\<rparr> entries \<lparr>reader_pos = 0, out_buf = out, out_pos = 0, slice_offset = 0\<rparr> of
        None \<Rightarrow> None
      | Some (Inl f) \<Rightarrow> Some (Inl f)
      | Some (Inr (offsets, st)) \<Rightarrow>
          Some (Inr (\<lparr>pp_ins = env_ins env, e_engine = ee, v_engine = ve, pp_offsets = offsets, cols_count = word_of_nat cols\<rparr>,
            out_buf st)))"

section \<open>The sealed tables\<close>

text \<open>
  What loading is to produce: every row masked with the pads of its address, followed by its masked
  tag. The address of a row is its position among the rows of all tables times the size of a row.
\<close>

definition row_address :: "nat \<Rightarrow> nat \<Rightarrow> u64" where
  "row_address cols k = word_of_nat (4 * cols * k)"

definition row_mac :: "aes_instructions \<Rightarrow> VerificationEngine \<Rightarrow> u32 list \<Rightarrow> u64 \<Rightarrow> u128" where
  "row_mac ins v r a = checksum (tag_pad ins v 0x01 (base_address v)) r - tag_pad ins v 0x10 a"

definition meta_words :: "io_writer \<Rightarrow> nat" where
  "meta_words w = meta_size w div 4"

definition sealed_row :: "load_params \<Rightarrow> nat \<Rightarrow> u32 list \<Rightarrow> u32 list" where
  "sealed_row p k r =
     map2 (-) r (row_pads (lp_ins p) (lp_ee p) (lp_cols p) (row_address (lp_cols p) k)) @
     (if lp_tag p then tag_elems (row_mac (lp_ins p) (lp_ve p) r (row_address (lp_cols p) k)) @
        replicate (meta_words (lp_writer p) - 4) 0 else [])"

primrec sealed_rows :: "load_params \<Rightarrow> nat \<Rightarrow> u32 list list \<Rightarrow> u32 list list" where
  "sealed_rows p k [] = []"
| "sealed_rows p k (r # rs) = sealed_row p k r # sealed_rows p (Suc k) rs"

primrec sealed_tables :: "load_params \<Rightarrow> nat \<Rightarrow> u32 list list list \<Rightarrow> u32 list list list" where
  "sealed_tables p k [] = []"
| "sealed_tables p k (t # ts) = sealed_rows p k t # sealed_tables p (k + length t) ts"

primrec table_starts :: "nat \<Rightarrow> 'a list list \<Rightarrow> nat list" where
  "table_starts k [] = []"
| "table_starts k (t # ts) = k # table_starts (k + length t) ts"

primrec table_offsets :: "load_params \<Rightarrow> nat \<Rightarrow> 'a list list \<Rightarrow> u64 list" where
  "table_offsets p k [] = []"
| "table_offsets p k (t # ts) = row_address (lp_cols p) k # table_offsets p (k + length t) ts"

definition row_words :: "load_params \<Rightarrow> nat" where
  "row_words p = lp_cols p + (if lp_tag p then meta_words (lp_writer p) else 0)"

definition load_at :: "load_params \<Rightarrow> nat \<Rightarrow> nat \<Rightarrow> u32 list \<Rightarrow> u32 list \<Rightarrow> load_state" where
  "load_at p rp k pre post = \<lparr>reader_pos = rp, out_buf = pre @ post, out_pos = length pre, slice_offset = row_address (lp_cols p) k\<rparr>"

definition seal_params :: "load_env \<Rightarrow> io_writer \<Rightarrow> bool \<Rightarrow> nat \<Rightarrow> u32 list \<Rightarrow> CommonCryptoEngine \<Rightarrow> VerificationEngine \<Rightarrow> load_params" where
  "seal_params env w tagged cols src ee ve =
     \<lparr>lp_ins = env_ins env, lp_ee = ee, lp_ve = ve, lp_writer = w, lp_tag = tagged, lp_cols = cols, lp_src = src\<rparr>"

definition engines_made :: "load_env \<Rightarrow> CommonCryptoEngine \<Rightarrow> VerificationEngine \<Rightarrow> bool" where
  "engines_made env ee ve \<longleftrightarrow>
     CommonCryptoEngine_make (env_expand env) (create_table_version (env_hash env)) (env_key_e env) = Inr ee \<and>
     VerificationEngine_make (env_expand env) (env_out env) (create_table_version (env_hash env)) (env_key_v env) = Inr ve"

definition post_of :: "load_params \<Rightarrow> u32 list list list \<Rightarrow> DLRMPostprocessor" where
  "post_of p ts = \<lparr>pp_ins = lp_ins p, e_engine = lp_ee p, v_engine = lp_ve p, pp_offsets = table_offsets p 0 ts,
     cols_count = word_of_nat (lp_cols p)\<rparr>"

section \<open>Loading seals the tables\<close>

lemma writer_write_at:
  assumes "length xs \<le> length post"
  shows "writer_write xs (load_at p rp k pre post) = Inr (load_at p rp k (pre @ xs) (drop (length xs) post))"
proof -
  obtain hole rest where h: "post = hole @ rest" "length hole = length xs" using split_front [OF assms] by blast
  show ?thesis unfolding h(1)
    by (simp add: writer_write_def load_at_def view_write_def make_view_def h(2))
qed

lemma write_meta_at:
  assumes "meta_words w \<le> length post"
  shows "write_meta w tag (load_at p rp k pre post) =
    Inr (load_at p rp k (pre @ tag_elems tag @ replicate (meta_words w - 4) 0) (drop (meta_words w) post))"
  using assms writer_write_at [of "tag_elems tag" post p rp k pre]
    writer_write_at [of "replicate 12 0" "drop 4 post" p rp k "pre @ tag_elems tag"]
  by (cases w) (simp_all add: write_meta_def meta_words_def meta_size_def)

lemma load_row_at:
  assumes "length r = lp_cols p" "lp_cols p mod OTP_SIZE = 0" "row_words p \<le> length post"
  shows "load_row p r (load_at p rp k pre post) =
    Inr (load_at p rp (Suc k) (pre @ sealed_row p k r) (drop (row_words p) post))"
proof -
  let ?a = "row_address (lp_cols p) k"
  let ?enc = "map2 (-) r (row_pads (lp_ins p) (lp_ee p) (lp_cols p) ?a)"
  have l: "length ?enc = lp_cols p" using assms(1,2) by (simp add: length_row_pads)
  have e: "encrypt (lp_ins p) (lp_ee p) r ?a = Inr (?enc, word_of_nat (4 * lp_cols p))"
    using encrypt_correct [of r "lp_ins p" "lp_ee p" ?a] assms(1,2) by simp
  have m: "generate_mac (lp_ins p) (lp_ve p) r ?a = Inr (row_mac (lp_ins p) (lp_ve p) r ?a)"
    by (simp add: generate_mac_def linear_checksum_correct generate_otp128_pad row_mac_def)
  have w: "writer_write ?enc (load_at p rp k pre post) = Inr (load_at p rp k (pre @ ?enc) (drop (lp_cols p) post))"
    using writer_write_at [of ?enc post p rp k pre] l assms(3) by (simp add: row_words_def)
  have o: "slice_offset (load_at p rp k pre post) = ?a" by (simp add: load_at_def)
  have n: "?a + word_of_nat (4 * lp_cols p) = row_address (lp_cols p) (Suc k)" by (simp add: row_address_def algebra_simps)
  have s: "load_at p rp k pre' post' \<lparr>slice_offset := slice_offset (load_at p rp k pre' post') + word_of_nat (4 * lp_cols p)\<rparr> =
    load_at p rp (Suc k) pre' post'" for pre' post'
    using n by (simp add: load_at_def)
  show ?thesis
  proof (cases "lp_tag p")
    case True
    have "meta_words (lp_writer p) \<le> length (drop (lp_cols p) post)" using assms(3) True by (simp add: row_words_def)
    note wm = write_meta_at [OF this]
    show ?thesis
      unfolding load_row_def o e m by (simp add: True w wm s del: of_nat_mult) (simp add: sealed_row_def row_words_def True add.commute)
  next
    case False
    then show ?thesis unfolding load_row_def o e by (simp add: w s sealed_row_def row_words_def del: of_nat_mult)
  qed
qed

lemma load_rows_at:
  assumes "\<forall>r \<in> set rs. length r = lp_cols p" "lp_cols p mod OTP_SIZE = 0" "row_words p * length rs \<le> length post"
  shows "load_rows p (length rs) (concat rs) (load_at p rp k pre post) =
    Inr (load_at p rp (k + length rs) (pre @ concat (sealed_rows p k rs)) (drop (row_words p * length rs) post))"
  using assms(1,3)
proof (induction rs arbitrary: k pre post)
  case (Cons r rs)
  have "load_row p r (load_at p rp k pre post) =
    Inr (load_at p rp (Suc k) (pre @ sealed_row p k r) (drop (row_words p) post))"
    by (rule load_row_at) (use Cons.prems assms(2) in simp_all)
  moreover have "load_rows p (length rs) (concat rs) (load_at p rp (Suc k) (pre @ sealed_row p k r) (drop (row_words p) post)) =
    Inr (load_at p rp (Suc k + length rs) ((pre @ sealed_row p k r) @ concat (sealed_rows p (Suc k) rs))
      (drop (row_words p * length rs) (drop (row_words p) post)))"
    by (rule Cons.IH) (use Cons.prems in simp_all)
  ultimately show ?case using Cons.prems by (simp add: add.commute)
qed simp

lemma load_batch_at:
  assumes "\<forall>r \<in> set rs. length r = lp_cols p" "lp_cols p mod OTP_SIZE = 0" "row_words p * length rs \<le> length post"
    "lp_src p = done @ concat rs @ rest"
  shows "load_batch p (length rs) (load_at p (length done) k pre post) =
    Inr (load_at p (length done + length rs * lp_cols p) (k + length rs) (pre @ concat (sealed_rows p k rs)) (drop (row_words p * length rs) post))"
proof -
  have c: "length (concat rs) = length rs * lp_cols p" using length_concat_eq [OF assms(1)] by (simp add: mult.commute)
  have "reader_read (lp_src p) (length rs * lp_cols p) (load_at p (length done) k pre post) =
    Inr (concat rs, load_at p (length done + length rs * lp_cols p) k pre post)"
    by (simp add: reader_read_def load_at_def view_elems_def assms(4) c)
  then show ?thesis using load_rows_at [OF assms(1-3)] by (simp add: load_batch_def)
qed

lemma sealed_rows_append: "sealed_rows p k (as @ bs) = sealed_rows p k as @ sealed_rows p (k + length as) bs"
  by (induction as arbitrary: k) simp_all

lemma length_sealed_rows [simp]: "length (sealed_rows p k rs) = length rs"
  by (induction rs arbitrary: k) simp_all

lemma load_table_at:
  assumes "\<forall>r \<in> set rs. length r = lp_cols p" "lp_cols p mod OTP_SIZE = 0" "row_words p * length rs \<le> length post"
    "lp_src p = done @ concat rs @ rest" "0 < rows_per_batch (lp_cols p)"
  shows "load_table p (length rs) (load_at p (length done) k pre post) =
    Some (Inr (load_at p (length done + length rs * lp_cols p) (k + length rs) (pre @ concat (sealed_rows p k rs)) (drop (row_words p * length rs) post)))"
  using assms(1,3,4)
proof (induction "length rs" arbitrary: rs k pre post "done" rule: less_induct)
  case less
  show ?case
  proof (cases "rs = []")
    case True
    then show ?thesis by (subst load_table.simps) simp
  next
    case False
    define m where "m = min (length rs) (rows_per_batch (lp_cols p))"
    have "m \<le> length rs" by (simp add: m_def)
    then obtain as bs where rs: "rs = as @ bs" "length as = m" using split_front by blast
    have m: "0 < m" using False assms(5) by (simp add: m_def)
    have c: "length (concat as) = length as * lp_cols p"
      using length_concat_eq [of as "lp_cols p"] less.prems(1) rs(1) by (simp add: mult.commute)
    have le: "row_words p * length as \<le> length post" "row_words p * length bs \<le> length (drop (row_words p * length as) post)"
      using less.prems(2) unfolding rs(1) by (simp_all add: distrib_left)
    have "load_batch p (length as) (load_at p (length done) k pre post) =
      Inr (load_at p (length done + length as * lp_cols p) (k + length as) (pre @ concat (sealed_rows p k as)) (drop (row_words p * length as) post))"
      by (rule load_batch_at [OF _ assms(2) le(1)]) (use less.prems rs(1) in simp_all)
    moreover have "load_table p (length bs) (load_at p (length (done @ concat as)) (k + length as) (pre @ concat (sealed_rows p k as)) (drop (row_words p * length as) post)) =
      Some (Inr (load_at p (length (done @ concat as) + length bs * lp_cols p) (k + length as + length bs)
        ((pre @ concat (sealed_rows p k as)) @ concat (sealed_rows p (k + length as) bs)) (drop (row_words p * length bs) (drop (row_words p * length as) post))))"
    proof (rule less.hyps)
      show "length bs < length rs" using m rs by simp
    qed (use less.prems le rs(1) in simp_all)
    moreover have "length rs - m = length bs" using rs by simp
    ultimately show ?thesis using False
      by (subst load_table.simps) (simp add: m_def [symmetric] rs(2) [symmetric] c, simp add: rs(1) sealed_rows_append algebra_simps)
  qed
qed

lemma load_all_tables_at:
  assumes "tables_wf (lp_cols p) ts" "lp_cols p mod OTP_SIZE = 0" "row_words p * sum_list (map length ts) \<le> length post"
    "lp_src p = done @ concat (map concat ts) @ rest" "0 < rows_per_batch (lp_cols p)"
  shows "load_all_tables p (map length ts) (load_at p (length done) k pre post) =
    Some (Inr (table_offsets p k ts, load_at p (length done + sum_list (map length ts) * lp_cols p) (k + sum_list (map length ts))
      (pre @ concat (map concat (sealed_tables p k ts))) (drop (row_words p * sum_list (map length ts)) post)))"
  using assms(1,3,4)
proof (induction ts arbitrary: k pre post "done")
  case (Cons t ts)
  have t: "\<forall>r \<in> set t. length r = lp_cols p" "tables_wf (lp_cols p) ts" using Cons.prems(1) by (simp_all add: tables_wf_def)
  have c: "length (concat t) = length t * lp_cols p" using length_concat_eq [OF t(1)] by (simp add: mult.commute)
  have le: "row_words p * length t \<le> length post" "row_words p * sum_list (map length ts) \<le> length (drop (row_words p * length t) post)"
    using Cons.prems(2) by (simp_all add: distrib_left)
  have "load_table p (length t) (load_at p (length done) k pre post) =
    Some (Inr (load_at p (length done + length t * lp_cols p) (k + length t) (pre @ concat (sealed_rows p k t)) (drop (row_words p * length t) post)))"
    by (rule load_table_at [OF t(1) assms(2) le(1) _ assms(5)]) (use Cons.prems(3) in simp)
  moreover have "load_all_tables p (map length ts) (load_at p (length (done @ concat t)) (k + length t) (pre @ concat (sealed_rows p k t)) (drop (row_words p * length t) post)) =
    Some (Inr (table_offsets p (k + length t) ts, load_at p (length (done @ concat t) + sum_list (map length ts) * lp_cols p) (k + length t + sum_list (map length ts))
      ((pre @ concat (sealed_rows p k t)) @ concat (map concat (sealed_tables p (k + length t) ts))) (drop (row_words p * sum_list (map length ts)) (drop (row_words p * length t) post))))"
    by (rule Cons.IH [OF t(2) le(2)]) (use Cons.prems(3) in simp)
  ultimately show ?case using c by (simp add: algebra_simps) (simp add: load_at_def)
qed simp

section \<open>Whether loading returns\<close>

lemma load_table_returns:
  assumes "0 < rows_per_batch (lp_cols p)"
  shows "load_table p n st \<noteq> None"
proof (induction n arbitrary: st rule: less_induct)
  case (less n)
  show ?case
  proof (cases "n = 0")
    case False
    then have "n - min n (rows_per_batch (lp_cols p)) < n" using assms by simp
    then show ?thesis using less by (subst load_table.simps) (auto split: sum.split)
  qed (subst load_table.simps, simp)
qed

lemma load_table_diverges:
  assumes "rows_per_batch (lp_cols p) = 0" "0 < n" "reader_pos st \<le> length (lp_src p)"
  shows "load_table p n st = None"
proof -
  have b: "load_batch p 0 st = Inr st" if "reader_pos st \<le> length (lp_src p)" for p st
    using that by (simp add: load_batch_def reader_read_def view_elems_def make_view_def)
  have "\<not> (rows_per_batch (lp_cols p) = 0 \<and> 0 < n \<and> reader_pos st \<le> length (lp_src p))" if "load_table p n st = Some y" for y
  proof (rule load_table.raw_induct [of "\<lambda>p n st y. \<not> (rows_per_batch (lp_cols p) = 0 \<and> 0 < n \<and> reader_pos st \<le> length (lp_src p))", OF _ that])
    fix f p n st y
    assume IH: "\<And>p n st y. f p n st = Some y \<Longrightarrow> \<not> (rows_per_batch (lp_cols p) = 0 \<and> 0 < n \<and> reader_pos st \<le> length (lp_src p))"
      and r: "(if n > 0 then case load_batch p (min n (rows_per_batch (lp_cols p))) st of Inl f \<Rightarrow> Some (Inl f)
        | Inr st \<Rightarrow> f p (n - min n (rows_per_batch (lp_cols p))) st else Some (Inr st)) = Some y"
    show "\<not> (rows_per_batch (lp_cols p) = 0 \<and> 0 < n \<and> reader_pos st \<le> length (lp_src p))"
      using IH [of p n st y] r b [of st p] by auto
  qed
  then show ?thesis using assms by (cases "load_table p n st") auto
qed

lemma load_all_tables_returns:
  "0 < rows_per_batch (lp_cols p) \<Longrightarrow> load_all_tables p ns st \<noteq> None"
proof (induction ns arbitrary: st)
  case (Cons n ns)
  obtain r where r: "load_table p n st = Some r" using load_table_returns [OF Cons.prems, of n st] by blast
  show ?case
  proof (cases r)
    case (Inr st')
    then show ?thesis using Cons.IH [OF Cons.prems, of st'] r by (auto split: sum.split)
  qed (simp add: r)
qed simp

lemma load_all_tables_diverges:
  assumes "rows_per_batch (lp_cols p) = 0" "\<exists>n \<in> set ns. 0 < n" "reader_pos st \<le> length (lp_src p)"
  shows "load_all_tables p ns st = None"
  using assms(2)
proof (induction ns)
  case (Cons n ns)
  have z: "load_table p 0 st = Some (Inr st)" by (subst load_table.simps) simp
  show ?case using load_table_diverges [OF assms(1) _ assms(3)] Cons z by (cases "n = 0") simp_all
qed simp

lemma load_all_tables_zero:
  assumes "\<forall>n \<in> set ns. n = 0"
  shows "load_all_tables p ns st \<noteq> None"
  using assms
proof (induction ns)
  case (Cons n ns)
  have "load_table p 0 st = Some (Inr st)" by (subst load_table.simps) simp
  then show ?case using Cons by (auto split: sum.split option.split)
qed simp

lemma rows_per_batch_pos: "0 < cols \<Longrightarrow> 0 < rows_per_batch cols \<longleftrightarrow> cols \<le> 2048"
  by (simp add: rows_per_batch_def BUFFER_SIZE_def div_greater_zero_iff)

section \<open>Loading as a whole\<close>

lemma seal_params_simps [simp]:
  "lp_ins (seal_params env w tagged cols src ee ve) = env_ins env" "lp_ee (seal_params env w tagged cols src ee ve) = ee"
  "lp_ve (seal_params env w tagged cols src ee ve) = ve" "lp_writer (seal_params env w tagged cols src ee ve) = w"
  "lp_tag (seal_params env w tagged cols src ee ve) = tagged" "lp_cols (seal_params env w tagged cols src ee ve) = cols"
  "lp_src (seal_params env w tagged cols src ee ve) = src"
  by (simp_all add: seal_params_def)

lemma load_impl_correct:
  fixes w :: io_writer and tagged :: bool
  assumes "engines_made env ee ve" "tables_wf cols ts" "cols mod OTP_SIZE = 0" "0 < cols" "cols \<le> 2048"
    "src = concat (map concat ts) @ rest"
  defines "p \<equiv> seal_params env w tagged cols src ee ve"
  assumes "length out = row_words p * sum_list (map length ts)"
  shows "load_impl env w src (map length ts) cols tagged out = Some (Inr (post_of p ts, concat (map concat (sealed_tables p 0 ts))))"
proof -
  have a: "load_all_tables p (map length ts) (load_at p (length ([] :: u32 list)) 0 [] out) =
    Some (Inr (table_offsets p 0 ts, load_at p (length ([] :: u32 list) + sum_list (map length ts) * lp_cols p) (0 + sum_list (map length ts))
      ([] @ concat (map concat (sealed_tables p 0 ts))) (drop (row_words p * sum_list (map length ts)) out)))"
    by (rule load_all_tables_at) (use assms rows_per_batch_pos [of cols] in \<open>simp_all add: p_def\<close>)
  have s: "load_at p (length ([] :: u32 list)) 0 [] out = \<lparr>reader_pos = 0, out_buf = out, out_pos = 0, slice_offset = 0\<rparr>"
    by (simp add: load_at_def row_address_def)
  have e: "CommonCryptoEngine_make (env_expand env) (create_table_version (env_hash env)) (env_key_e env) = Inr ee"
    "VerificationEngine_make (env_expand env) (env_out env) (create_table_version (env_hash env)) (env_key_v env) = Inr ve"
    using assms(1) by (simp_all add: engines_made_def)
  show ?thesis
    using a assms(4,8) unfolding s load_impl_def e seal_params_def [symmetric] p_def [symmetric]
    by (simp add: load_at_def post_of_def) (simp add: p_def)
qed

lemma buffer_words: "encrypted_buffer_size w entries cols tagged div 4 = row_words (seal_params env w tagged cols src ee ve) * sum_list entries"
proof -
  have "memory_size w cols tagged = 4 * row_words (seal_params env w tagged cols src ee ve)"
    by (cases w) (simp_all add: memory_size_def row_words_def meta_words_def meta_size_def)
  then show ?thesis by (simp add: encrypted_buffer_size_def)
qed

lemma table_offsets_nth:
  "t < length ts \<Longrightarrow> table_offsets p k ts ! t = row_address (lp_cols p) (table_starts k ts ! t)"
proof (induction ts arbitrary: k t)
  case (Cons x ts)
  then show ?case by (cases t) simp_all
qed simp

lemma length_table_offsets [simp]: "length (table_offsets p k ts) = length ts" "length (table_starts k ts) = length ts"
  by (induction ts arbitrary: k) simp_all

end
