(* ===== verification/Secure_Sls.thy ===== *)
theory Secure_Sls
  imports Secure_Load
begin

text \<open>
  Sparse-lengths-sum on encrypted tables: the sums over the one-time pads and the decryption in the
  postprocessor (\<open>secure/encryption/sls_dlrm_postprocessor.h\<close>), the executor that combines them with
  a device (\<open>secure/common/sls_executor.h\<close>) and the device that computes on the host
  (\<open>secure/plain/device/trivial_cpu.h\<close>).
\<close>

section \<open>Sums over pads and decryption\<close>

definition fill_offsets :: "DLRMPostprocessor \<Rightarrow> nat \<Rightarrow> u32 list \<Rightarrow> u64 list result" where
  "fill_offsets pp table_id indices =
     (if table_id < length (pp_offsets pp)
      then Inr (map (\<lambda>index. pp_offsets pp ! table_id + (ucast index * cols_count pp) * 4) indices)
      else Inl Undefined)"

definition sls_op_psum :: "u32 list \<Rightarrow> u32 list \<Rightarrow> u32 list" where
  "sls_op_psum acc value = map2 (+) value acc"

definition no_rows :: rowwise where
  "no_rows = \<lparr>rw_begin = 0, rw_end = 0, row_physical_size = 0, row_logical_size = 0, front_gap = 0, rw_size = 0\<rparr>"

definition row_at :: "rowwise \<Rightarrow> nat \<Rightarrow> view" where
  "row_at v i = it_current (it_plus (rw_begin_it v) i)"

text \<open>The body of the loop over the lookups of a table.\<close>

definition perform_lookup ::
  "DLRMPostprocessor \<Rightarrow> nat \<Rightarrow> rowwise \<Rightarrow> rowwise \<Rightarrow> nat \<Rightarrow> u32 list \<Rightarrow> u32 list \<Rightarrow> u32 list result" where
  "perform_lookup pp table_id psum tags psum_index lookup buf =
     bind_r (fill_offsets pp table_id lookup) (\<lambda>sls_offset.
     let current_psum = row_at psum psum_index; n = v_end current_psum - v_begin current_psum in
     bind_r (view_write buf current_psum (replicate n 0)) (\<lambda>buf.
     bind_r (offset_transform_reduce_vec (pp_ins pp) (e_engine pp) sls_offset (replicate n 0) sls_op_psum) (\<lambda>sums.
     bind_r (view_write buf current_psum sums) (\<lambda>buf.
       if rw_size tags \<noteq> 0 then
         bind_r (mac_transform_reduce_vec (pp_ins pp) (v_engine pp) sls_offset 0 (+)) (\<lambda>etag.
           view_write buf (tag_view (v_begin (row_at tags psum_index))) (tag_elems etag))
       else Inr buf))))"

primrec perform_lookups ::
  "DLRMPostprocessor \<Rightarrow> nat \<Rightarrow> rowwise \<Rightarrow> rowwise \<Rightarrow> u32 list list \<Rightarrow> nat \<times> u32 list \<Rightarrow> (nat \<times> u32 list) result" where
  "perform_lookups pp table_id psum tags [] s = Inr s"
| "perform_lookups pp table_id psum tags (lookup # lookups) s =
     bind_r (perform_lookup pp table_id psum tags (fst s) lookup (snd s)) (\<lambda>buf.
       perform_lookups pp table_id psum tags lookups (fst s + 1, buf))"

primrec perform_requests ::
  "DLRMPostprocessor \<Rightarrow> u32 list \<Rightarrow> rowwise \<Rightarrow> rowwise \<Rightarrow> (nat \<times> variable_row) list \<Rightarrow> nat \<times> u32 list \<Rightarrow> (nat \<times> u32 list) result" where
  "perform_requests pp inds psum tags [] s = Inr s"
| "perform_requests pp inds psum tags (request # requests) s =
     bind_r (variable_rows inds (snd request)) (\<lambda>lookups.
     bind_r (perform_lookups pp (fst request) psum tags lookups s) (perform_requests pp inds psum tags requests))"

definition perform_sls_impl ::
  "DLRMPostprocessor \<Rightarrow> u32 list \<Rightarrow> (nat \<times> variable_row) list \<Rightarrow> rowwise \<Rightarrow> rowwise \<Rightarrow> u32 list \<Rightarrow> u32 list result" where
  "perform_sls_impl pp inds requests psum tags buf =
     bind_r (perform_requests pp inds psum tags requests (0, buf)) (\<lambda>(psum_index, buf). Inr buf)"

text \<open>Decryption of the rows of an array of partial sums; the device's tags are in the same array.\<close>

record decrypt_state =
  ds_psums :: "u32 list"
  ds_checks :: "u8 list"
  ds_ok :: bool

definition decrypt_row ::
  "DLRMPostprocessor \<Rightarrow> rowwise \<Rightarrow> u32 list \<Rightarrow> rowwise \<Rightarrow> rowwise \<Rightarrow> rowwise \<Rightarrow> nat \<Rightarrow> u32 list \<Rightarrow> decrypt_state \<Rightarrow> decrypt_state result" where
  "decrypt_row pp psums epsum epsums ctags etags i cres s =
     (let eres = v_begin (row_at epsums i) in
      bind_r (view_elems epsum (make_view eres (eres + length cres))) (\<lambda>otp.
      bind_r (decrypt_psum cres otp) (\<lambda>dec.
      bind_r (view_write (ds_psums s) (row_at psums i) dec) (\<lambda>arr.
      if rw_size ctags \<noteq> 0 \<and> rw_size etags \<noteq> 0 then
        bind_r (view_elems arr (tag_view (v_begin (row_at ctags i)))) (\<lambda>ct.
        bind_r (view_elems epsum (tag_view (v_begin (row_at etags i)))) (\<lambda>et.
        bind_r (validate_psum (pp_ins pp) (v_engine pp) dec (tag_of ct) (tag_of et)) (\<lambda>b.
          if i < length (ds_checks s)
          then Inr (s\<lparr>ds_psums := arr, ds_checks := (ds_checks s)[i := of_bool b], ds_ok := ds_ok s \<and> b\<rparr>)
          else Inl Undefined)))
      else Inr (s\<lparr>ds_psums := arr\<rparr>)))))"

primrec decrypt_rows ::
  "DLRMPostprocessor \<Rightarrow> rowwise \<Rightarrow> u32 list \<Rightarrow> rowwise \<Rightarrow> rowwise \<Rightarrow> rowwise \<Rightarrow> nat \<Rightarrow> u32 list list \<Rightarrow> decrypt_state \<Rightarrow> decrypt_state result" where
  "decrypt_rows pp psums epsum epsums ctags etags i [] s = Inr s"
| "decrypt_rows pp psums epsum epsums ctags etags i (cres # rows) s =
     bind_r (decrypt_row pp psums epsum epsums ctags etags i cres s) (decrypt_rows pp psums epsum epsums ctags etags (i + 1) rows)"

definition decrypt_psum_impl ::
  "DLRMPostprocessor \<Rightarrow> rowwise \<Rightarrow> u32 list \<Rightarrow> rowwise \<Rightarrow> rowwise \<Rightarrow> rowwise \<Rightarrow> u32 list \<Rightarrow> u8 list \<Rightarrow> decrypt_state result" where
  "decrypt_psum_impl pp psums epsum epsums ctags etags arr checks =
     bind_r (rowwise_rows arr psums) (\<lambda>rows.
       decrypt_rows pp psums epsum epsums ctags etags 0 rows \<lparr>ds_psums = arr, ds_checks = checks, ds_ok = True\<rparr>)"

section \<open>Devices\<close>

record 'd sls_device =
  dev_writer :: io_writer
  dev_load :: "u32 list \<Rightarrow> 'd \<Rightarrow> 'd result"
  dev_run :: "'d \<Rightarrow> nat \<Rightarrow> nat list \<Rightarrow> u32 list \<Rightarrow> u32 list \<Rightarrow> ('d \<times> u32 list) result"

text \<open>The device that computes on the host.\<close>

record TrivialCPU =
  tc_rows :: "nat list"
  tc_cols :: nat
  tc_with_tag :: bool
  tc_data :: "u32 list"

definition TrivialCPU_default :: TrivialCPU where
  "TrivialCPU_default = \<lparr>tc_rows = [], tc_cols = 0, tc_with_tag = False, tc_data = []\<rparr>"

definition TrivialCPU_init :: "nat list \<Rightarrow> nat \<Rightarrow> bool \<Rightarrow> TrivialCPU \<Rightarrow> TrivialCPU" where
  "TrivialCPU_init rws cols with_tag d = d\<lparr>tc_rows := tc_rows d @ rws, tc_cols := cols, tc_with_tag := with_tag\<rparr>"

definition TrivialCPU_load :: "u32 list \<Rightarrow> TrivialCPU \<Rightarrow> TrivialCPU result" where
  "TrivialCPU_load src d = Inr (d\<lparr>tc_data := src\<rparr>)"

definition TrivialCPU_run_sls :: "TrivialCPU \<Rightarrow> nat \<Rightarrow> nat list \<Rightarrow> u32 list \<Rightarrow> u32 list \<Rightarrow> u32 list result" where
  "TrivialCPU_run_sls d mb lens inds psum = cpu_compute (+) (tc_data d) (tc_rows d) inds lens (tc_cols d) mb psum"

definition TrivialCPU_run_sls_with_tag :: "TrivialCPU \<Rightarrow> nat \<Rightarrow> nat list \<Rightarrow> u32 list \<Rightarrow> u32 list \<Rightarrow> u32 list result" where
  "TrivialCPU_run_sls_with_tag d mb lens inds psum =
     cpu_compute_with_tag (+) (tc_data d) (tc_rows d) inds lens (tc_cols d) mb psum"

definition TrivialCPU_run :: "TrivialCPU \<Rightarrow> nat \<Rightarrow> nat list \<Rightarrow> u32 list \<Rightarrow> u32 list \<Rightarrow> (TrivialCPU \<times> u32 list) result" where
  "TrivialCPU_run d mb lens inds psum =
     bind_r (if \<not> tc_with_tag d then TrivialCPU_run_sls d mb lens inds psum
             else TrivialCPU_run_sls_with_tag d mb lens inds psum) (\<lambda>psum. Inr (d, psum))"

definition trivial_cpu :: "TrivialCPU sls_device" where
  "trivial_cpu = \<lparr>dev_writer = TrivialMemoryWriter, dev_load = TrivialCPU_load, dev_run = TrivialCPU_run\<rparr>"

section \<open>The executor\<close>

definition TAG_SIZE :: nat where
  "TAG_SIZE = 16 div 4"

definition resize :: "nat \<Rightarrow> 'a \<Rightarrow> 'a list \<Rightarrow> 'a list" where
  "resize n x xs = take n xs @ replicate (n - length xs) x"

record 'd executor =
  num_tables :: nat
  sparse_feature_size :: nat
  with_tag :: bool
  postprocessor :: "DLRMPostprocessor option"
  ex_device :: 'd
  cpsum :: "u32 list"
  epsum :: "u32 list"

definition executor_make :: "'d \<Rightarrow> 'd executor" where
  "executor_make d = \<lparr>num_tables = 0, sparse_feature_size = 0, with_tag = False, postprocessor = None,
     ex_device = d, cpsum = [], epsum = []\<rparr>"

definition load_tables ::
  "load_env \<Rightarrow> 'd sls_device \<Rightarrow> u32 list \<Rightarrow> nat list \<Rightarrow> nat \<Rightarrow> bool \<Rightarrow> 'd executor \<Rightarrow> 'd executor result option" where
  "load_tables env dev src num_entries cols tagged ex =
     (let buffer = replicate (encrypted_buffer_size (dev_writer dev) num_entries cols tagged div 4) 0 in
      case load_impl env (dev_writer dev) src num_entries cols tagged buffer of
        None \<Rightarrow> None
      | Some (Inl f) \<Rightarrow> Some (Inl f)
      | Some (Inr (pp, buffer)) \<Rightarrow>
          Some (bind_r (dev_load dev buffer (ex_device ex)) (\<lambda>d.
            Inr (ex\<lparr>postprocessor := Some pp, ex_device := d, num_tables := length num_entries,
              sparse_feature_size := cols, with_tag := tagged\<rparr>))))"

text \<open>The index lists of every table, as views of the indices with the table's lengths as row sizes.\<close>

primrec reorder_tables ::
  "nat \<Rightarrow> nat \<Rightarrow> rows_iterator \<Rightarrow> nat \<Rightarrow> nat list \<Rightarrow> (nat \<times> variable_row) list result" where
  "reorder_tables 0 tid lengths_it idx_it lens = Inr []"
| "reorder_tables (Suc k) tid lengths_it idx_it lens =
     bind_r (view_elems lens (it_current lengths_it)) (\<lambda>ls.
     let lookups_in_minibatch = sum_list ls in
     bind_r (reorder_tables k (tid + 1) (it_next lengths_it) (idx_it + lookups_in_minibatch) lens) (\<lambda>rest.
       Inr ((tid, make_variable_row_view idx_it (idx_it + lookups_in_minibatch) ls) # rest)))"

definition reorder_indices :: "'d executor \<Rightarrow> nat \<Rightarrow> nat list \<Rightarrow> (nat \<times> variable_row) list result" where
  "reorder_indices ex mb lens =
     (if mb = 0 then Inl Undefined
      else reorder_tables (num_tables ex) 0 (rw_begin_it (make_rowwise_view 0 (length lens) mb 0 0)) 0 lens)"

text \<open>
  A task computes the sums over pads of one table into its part of the buffer. The strategy runs the
  tasks on the buffer and gives the outcome of each of them, which is inspected after the device has
  run; \<open>SlsSync\<close> runs every task when it is given.
\<close>

type_synonym task = "u32 list \<Rightarrow> u32 list result"

type_synonym strategy = "task list \<Rightarrow> u32 list \<Rightarrow> u32 list \<times> fault option list"

primrec sync_run :: strategy where
  "sync_run [] buf = (buf, [])"
| "sync_run (t # ts) buf =
     (case t buf of Inl f \<Rightarrow> (let (buf, rs) = sync_run ts buf in (buf, Some f # rs))
      | Inr buf \<Rightarrow> (let (buf, rs) = sync_run ts buf in (buf, None # rs)))"

primrec get_all :: "fault option list \<Rightarrow> unit result" where
  "get_all [] = Inr ()"
| "get_all (r # rs) = (case r of None \<Rightarrow> get_all rs | Some f \<Rightarrow> Inl f)"

definition augmented_row_size :: "'d executor \<Rightarrow> nat" where
  "augmented_row_size ex = sparse_feature_size ex + TAG_SIZE * of_bool (with_tag ex)"

primrec sls_tasks ::
  "'d executor \<Rightarrow> DLRMPostprocessor \<Rightarrow> u32 list \<Rightarrow> (nat \<times> variable_row) list \<Rightarrow> nat \<Rightarrow> task list" where
  "sls_tasks ex pp inds [] epsum_it = []"
| "sls_tasks ex pp inds (request # requests) epsum_it =
     (let per_table = augmented_row_size ex * length (vr_row_size (snd request));
          epsum_v = make_rowwise_view epsum_it (epsum_it + per_table) (augmented_row_size ex) 0 (TAG_SIZE * of_bool (with_tag ex));
          tag_v = (if with_tag ex
                   then make_rowwise_view epsum_it (epsum_it + per_table) (augmented_row_size ex) (sparse_feature_size ex) 0
                   else no_rows) in
      perform_sls_impl pp inds [request] epsum_v tag_v # sls_tasks ex pp inds requests (epsum_it + per_table))"

definition execute_sls ::
  "strategy \<Rightarrow> 'd sls_device \<Rightarrow> 'd executor \<Rightarrow> (nat \<times> variable_row) list \<Rightarrow> nat \<Rightarrow> nat list \<Rightarrow> u32 list \<Rightarrow> u32 list \<Rightarrow>
     ('d executor \<times> u32 list) result" where
  "execute_sls strat dev ex requests mb lens inds augmented_psum =
     (case postprocessor ex of None \<Rightarrow> Inl Undefined | Some pp \<Rightarrow>
       let (buf, results) = strat (sls_tasks ex pp inds requests 0) (epsum ex) in
       bind_r (dev_run dev (ex_device ex) mb lens inds augmented_psum) (\<lambda>(d, augmented_psum).
       bind_r (get_all results) (\<lambda>_. Inr (ex\<lparr>ex_device := d, epsum := buf\<rparr>, augmented_psum))))"

definition ex_decrypt :: "'d executor \<Rightarrow> nat \<Rightarrow> u32 list \<Rightarrow> u8 list \<Rightarrow> decrypt_state result" where
  "ex_decrypt ex mb psum_buffer checks =
     (case postprocessor ex of None \<Rightarrow> Inl Undefined | Some pp \<Rightarrow>
       let psum_size = mb * num_tables ex * sparse_feature_size ex;
           psum_rv = make_rowwise_view 0 psum_size (sparse_feature_size ex) 0 0;
           epsum_v = make_rowwise_view 0 (length (epsum ex)) (augmented_row_size ex) 0 (TAG_SIZE * of_bool (with_tag ex)) in
       if with_tag ex then
         let ctag_v = make_rowwise_view psum_size (length psum_buffer) TAG_SIZE 0 0;
             tag_v = make_rowwise_view 0 (length (epsum ex)) (augmented_row_size ex) (sparse_feature_size ex) 0 in
         decrypt_psum_impl pp psum_rv (epsum ex) epsum_v ctag_v tag_v psum_buffer checks
       else decrypt_psum_impl pp psum_rv (epsum ex) epsum_v no_rows no_rows psum_buffer [])"

text \<open>Rows whose check failed are not copied to the user's buffer.\<close>

primrec copy_rows :: "nat \<Rightarrow> nat \<Rightarrow> u32 list list \<Rightarrow> u8 list \<Rightarrow> u32 list \<Rightarrow> u32 list result" where
  "copy_rows cols i [] checks user = Inr user"
| "copy_rows cols i (aug_row # rows) checks user =
     (case checks of [] \<Rightarrow> Inl Undefined | is_row_ok # checks \<Rightarrow>
       bind_r (if is_row_ok \<noteq> 0 then view_write user (make_view (i * cols) (i * cols + cols)) aug_row else Inr user)
         (copy_rows cols (i + 1) rows checks))"

definition make_user_psum :: "'d executor \<Rightarrow> u32 list \<Rightarrow> u32 list \<Rightarrow> u8 list \<Rightarrow> u32 list result" where
  "make_user_psum ex user_psum augmented_psum checks =
     bind_r (rowwise_rows augmented_psum (make_rowwise_view 0 (length user_psum) (sparse_feature_size ex) 0 0)) (\<lambda>rows.
       copy_rows (sparse_feature_size ex) 0 rows checks user_psum)"

record 'd run_outcome =
  ro_executor :: "'d executor"
  ro_psum :: "u32 list"
  ro_checks :: "u8 list"
  ro_status :: bool

definition run_sls ::
  "strategy \<Rightarrow> 'd sls_device \<Rightarrow> 'd executor \<Rightarrow> nat \<Rightarrow> nat list \<Rightarrow> u32 list \<Rightarrow> u32 list \<Rightarrow> u8 list \<Rightarrow> 'd run_outcome result" where
  "run_sls strat dev ex mb lens inds psum checks =
     (let ex = (if with_tag ex
                then ex\<lparr>cpsum := resize (mb * num_tables ex * (sparse_feature_size ex + TAG_SIZE)) 0 (cpsum ex)\<rparr> else ex);
          augmented_psum = (if with_tag ex then cpsum ex else psum);
          ex = ex\<lparr>epsum := resize (length augmented_psum) 0 (epsum ex)\<rparr> in
      bind_r (reorder_indices ex mb lens) (\<lambda>requests.
      bind_r (execute_sls strat dev ex requests mb lens inds augmented_psum) (\<lambda>(ex, augmented_psum).
      if with_tag ex then
        bind_r (ex_decrypt ex mb augmented_psum checks) (\<lambda>ds.
        bind_r (make_user_psum ex psum (ds_psums ds) (ds_checks ds)) (\<lambda>psum.
          Inr \<lparr>ro_executor = ex\<lparr>cpsum := ds_psums ds\<rparr>, ro_psum = psum, ro_checks = ds_checks ds, ro_status = ds_ok ds\<rparr>))
      else
        bind_r (ex_decrypt ex mb augmented_psum []) (\<lambda>ds.
          Inr \<lparr>ro_executor = ex, ro_psum = ds_psums ds, ro_checks = checks, ro_status = ds_ok ds\<rparr>))))"

section \<open>The sums over the pads\<close>

definition epsum_row :: "load_params \<Rightarrow> nat \<Rightarrow> u32 list \<Rightarrow> u32 list" where
  "epsum_row p start seg =
     vsum (lp_cols p) (map (\<lambda>i. row_pads (lp_ins p) (lp_ee p) (lp_cols p) (row_address (lp_cols p) (start + unat i))) seg) @
     (if lp_tag p then tag_elems (sum_list (map (\<lambda>i. tag_pad (lp_ins p) (lp_ve p) 0x10 (row_address (lp_cols p) (start + unat i))) seg)) else [])"

definition epsum_width :: "load_params \<Rightarrow> nat" where
  "epsum_width p = lp_cols p + TAG_SIZE * of_bool (lp_tag p)"

definition epsum_view :: "load_params \<Rightarrow> nat \<Rightarrow> nat \<Rightarrow> rowwise" where
  "epsum_view p base n = make_rowwise_view base (base + epsum_width p * n) (epsum_width p) 0 (TAG_SIZE * of_bool (lp_tag p))"

definition etags_view :: "load_params \<Rightarrow> nat \<Rightarrow> nat \<Rightarrow> rowwise" where
  "etags_view p base n =
     (if lp_tag p then make_rowwise_view base (base + epsum_width p * n) (epsum_width p) (lp_cols p) 0 else no_rows)"

definition lookup_fits :: "load_params \<Rightarrow> 'a list \<Rightarrow> bool" where
  "lookup_fits p seg \<longleftrightarrow> 4 * lp_cols p * length seg < 2 ^ 31"

text \<open>What a task leaves in the table's part of the buffer: new rows for the batches that the loop over
  the index lists visits, and what was there before for the others.\<close>

definition table_pads :: "load_params \<Rightarrow> nat \<Rightarrow> nat list \<Rightarrow> u32 list \<Rightarrow> u32 list \<Rightarrow> u32 list" where
  "table_pads p start ls xs old =
     concat (map (epsum_row p start) (segments (visited ls) xs)) @ drop (epsum_width p * length (visited ls)) old"

text \<open>
  Every task rewrites its own segment of the buffer and leaves the others alone. Whatever the order
  in which the tasks run, all segments are rewritten.
\<close>

definition local_tasks :: "task list \<Rightarrow> (u32 list \<Rightarrow> u32 list) list \<Rightarrow> nat \<Rightarrow> bool" where
  "local_tasks tasks fs w \<longleftrightarrow> length fs = length tasks \<and>
     (\<forall>k < length tasks. \<forall>segs. length segs = length tasks \<longrightarrow> (\<forall>s \<in> set segs. length s = w) \<longrightarrow>
        (tasks ! k) (concat segs) = Inr (concat (segs[k := (fs ! k) (segs ! k)])) \<and> length ((fs ! k) (segs ! k)) = w)"

primrec run_order :: "task list \<Rightarrow> nat list \<Rightarrow> u32 list \<Rightarrow> u32 list result" where
  "run_order tasks [] buf = Inr buf"
| "run_order tasks (k # ks) buf = bind_r ((tasks ! k) buf) (run_order tasks ks)"

definition executor_for :: "'d executor \<Rightarrow> load_params \<Rightarrow> u32 list list list \<Rightarrow> bool" where
  "executor_for ex p ts \<longleftrightarrow> sparse_feature_size ex = lp_cols p \<and> with_tag ex = lp_tag p \<and>
     postprocessor ex = Some (post_of p ts) \<and> num_tables ex = length ts"

primrec requests_of :: "nat \<Rightarrow> nat \<Rightarrow> nat list list \<Rightarrow> (nat \<times> variable_row) list" where
  "requests_of tid idx [] = []"
| "requests_of tid idx (ls # lss) = (tid, make_variable_row_view idx (idx + sum_list ls) ls) # requests_of (Suc tid) (idx + sum_list ls) lss"

definition pads_from :: "load_params \<Rightarrow> u32 list list list \<Rightarrow> u32 list \<Rightarrow> nat list list \<Rightarrow> nat \<Rightarrow> u32 list \<Rightarrow> u32 list" where
  "pads_from p ts inds lss k = table_pads p (table_starts 0 ts ! k) (lss ! k) (drop (sum_list (concat (take k lss))) inds)"

definition dec_row :: "load_params \<Rightarrow> u32 list \<Rightarrow> u32 list \<Rightarrow> u32 list" where
  "dec_row p d e = map2 (+) d (take (lp_cols p) e)"

definition row_valid :: "load_params \<Rightarrow> u32 list \<Rightarrow> u128 \<Rightarrow> u32 list \<Rightarrow> bool" where
  "row_valid p d ct e \<longleftrightarrow>
     checksum (tag_pad (lp_ins p) (lp_ve p) 0x01 (base_address (lp_ve p))) (dec_row p d e) = ct + tag_of (drop (lp_cols p) e)"

definition cut_rows :: "load_params \<Rightarrow> nat \<Rightarrow> rowwise" where
  "cut_rows p n = make_rowwise_view 0 (n * lp_cols p) (lp_cols p) 0 0"

definition ctags_view :: "load_params \<Rightarrow> nat \<Rightarrow> rowwise" where
  "ctags_view p n = (if lp_tag p then make_rowwise_view (n * lp_cols p) (n * lp_cols p + n * TAG_SIZE) TAG_SIZE 0 0 else no_rows)"

type_synonym row_triple = "u32 list \<times> u128 \<times> u32 list"

definition triples_ok :: "load_params \<Rightarrow> row_triple list \<Rightarrow> bool" where
  "triples_ok p rows \<longleftrightarrow> (\<forall>(d, ct, e) \<in> set rows. length d = lp_cols p \<and> length e = epsum_width p)"

definition dec_rows :: "load_params \<Rightarrow> row_triple list \<Rightarrow> u32 list" where
  "dec_rows p rows = concat (map (\<lambda>(d, ct, e). dec_row p d e) rows)"

definition valid_rows :: "load_params \<Rightarrow> row_triple list \<Rightarrow> bool list" where
  "valid_rows p rows = map (\<lambda>(d, ct, e). row_valid p d ct e) rows"

definition tag_area :: "row_triple list \<Rightarrow> u32 list" where
  "tag_area rows = concat (map (\<lambda>(d, ct, e). tag_elems ct) rows)"

definition set_checks :: "nat \<Rightarrow> bool list \<Rightarrow> u8 list \<Rightarrow> u8 list" where
  "set_checks i bs cs = take i cs @ map of_bool bs @ drop (i + length bs) cs"

type_synonym cell = "(u32 list list \<times> nat) \<times> u32 list"

definition run_cells :: "nat \<Rightarrow> u32 list list list \<Rightarrow> nat list \<Rightarrow> u32 list \<Rightarrow> cell list" where
  "run_cells mb ts lens inds = per_table mb (zip ts (table_starts 0 ts)) (segments lens inds)"

definition cell_ok :: "nat \<Rightarrow> cell \<Rightarrow> bool" where
  "cell_ok cols = (\<lambda>((t, st), seg). (\<forall>r \<in> set t. length r = cols) \<and> (\<forall>i \<in> set seg. unat i < length t))"

definition cell_triple :: "load_params \<Rightarrow> cell \<Rightarrow> row_triple" where
  "cell_triple p = (\<lambda>((t, st), seg). (sls_sum (+) (lp_cols p) (sealed_rows p st t) seg, tag_sum (lp_cols p) (sealed_rows p st t) seg, epsum_row p st seg))"

definition cell_fits :: "nat \<Rightarrow> cell \<Rightarrow> bool" where
  "cell_fits cols = (\<lambda>((t, st), seg). columns_fit cols (map (\<lambda>i. t ! unat i) seg))"

definition request_ok :: "nat \<Rightarrow> u32 list list list \<Rightarrow> nat \<Rightarrow> nat list list \<Rightarrow> u32 list \<Rightarrow> bool" where
  "request_ok cols ts mb lss inds \<longleftrightarrow> tables_wf cols ts \<and> cols mod OTP_SIZE = 0 \<and> 0 < cols \<and> 0 < mb \<and>
     length lss = length ts \<and> (\<forall>ls \<in> set lss. length ls = mb) \<and> (\<forall>l \<in> set (concat lss). 4 * cols * l < 2 ^ 31) \<and>
     sum_list (concat lss) \<le> length inds \<and> segs_ok (per_table mb ts (segments (concat lss) inds))"

text \<open>The last batch of every table has an index, so that the loop over the batches visits them all.\<close>

definition all_visited :: "nat list list \<Rightarrow> bool" where
  "all_visited lss \<longleftrightarrow> (\<forall>ls \<in> set lss. last ls \<noteq> 0)"

definition delivered :: "load_params \<Rightarrow> row_triple list \<Rightarrow> u32 list list \<Rightarrow> u32 list list" where
  "delivered p rows olds = map2 (\<lambda>(d, ct, e) old. if row_valid p d ct e then dec_row p d e else old) rows olds"

definition columns_ok :: "nat \<Rightarrow> u32 list list list \<Rightarrow> nat \<Rightarrow> nat list \<Rightarrow> u32 list \<Rightarrow> bool" where
  "columns_ok cols ts mb lens inds \<longleftrightarrow>
     (\<forall>(t, seg) \<in> set (per_table mb ts (segments lens inds)). columns_fit cols (map (\<lambda>i. t ! unat i) seg))"

definition cpu_holds :: "TrivialCPU \<Rightarrow> nat \<Rightarrow> bool \<Rightarrow> u32 list list list \<Rightarrow> bool" where
  "cpu_holds d cols tagged tables \<longleftrightarrow> tc_data d = concat (map concat tables) \<and> tc_rows d = map length tables \<and>
     tc_cols d = cols \<and> tc_with_tag d = tagged"

definition demo_env :: load_env where
  "demo_env = \<lparr>env_ins = \<lparr>aesenc = (\<lambda>d k. d + k), aesenclast = (\<lambda>d k. d XOR k)\<rparr>, env_expand = (\<lambda>ks key schedule. Inr (map (\<lambda>_. 5) schedule)),
     env_key_e = replicate 16 1, env_key_v = replicate 16 2, env_out = 64, env_hash = 7\<rparr>"

definition demo_crypto :: CommonCryptoEngine where
  "demo_crypto = \<lparr>table_version = create_table_version 7, aes_backend = \<lparr>encryption_rounds = 10, key_schedule = 5 # replicate 10 5\<rparr>\<rparr>"

definition demo_verification :: VerificationEngine where
  "demo_verification = \<lparr>ve_crypto = demo_crypto, base_address = 64\<rparr>"

definition demo_params :: load_params where
  "demo_params = seal_params demo_env TrivialMemoryWriter True 4 [1, 2, 3, 4] demo_crypto demo_verification"

definition demo_executor :: "unit executor" where
  "demo_executor = \<lparr>num_tables = 1, sparse_feature_size = 4, with_tag = True, postprocessor = Some (post_of demo_params [[[1, 2, 3, 4]]]),
     ex_device = (), cpsum = [], epsum = []\<rparr>"

definition zero_device :: "unit sls_device" where
  "zero_device = \<lparr>dev_writer = TrivialMemoryWriter, dev_load = (\<lambda>buf d. Inr d), dev_run = (\<lambda>d mb lens inds ps. Inr (d, replicate 8 0))\<rparr>"

lemma fill_offsets_correct:
  assumes "t < length ts"
  shows "fill_offsets (post_of p ts) t seg = Inr (map (\<lambda>i. row_address (lp_cols p) (table_starts 0 ts ! t + unat i)) seg)"
  using assms
  by (simp add: fill_offsets_def post_of_def table_offsets_nth) (simp add: row_address_def algebra_simps)

lemma sls_op_psum_add: "sls_op_psum = map2 (+)"
  by (rule ext)+ (rule nth_equalityI; simp add: sls_op_psum_def add.commute)

lemma load_tables_correct:
  fixes dev :: "'d sls_device" and tagged :: bool
  assumes "engines_made env ee ve" "tables_wf cols ts" "cols mod OTP_SIZE = 0" "0 < cols" "cols \<le> 2048"
    "src = concat (map concat ts) @ rest"
  defines "p \<equiv> seal_params env (dev_writer dev) tagged cols src ee ve"
  shows "load_tables env dev src (map length ts) cols tagged ex =
    Some (bind_r (dev_load dev (concat (map concat (sealed_tables p 0 ts))) (ex_device ex)) (\<lambda>d.
      Inr (ex\<lparr>postprocessor := Some (post_of p ts), ex_device := d, num_tables := length ts, sparse_feature_size := cols, with_tag := tagged\<rparr>)))"
  using load_impl_correct [OF assms(1-6), where w = "dev_writer dev" and tagged = tagged] buffer_words [of "dev_writer dev" "map length ts" cols tagged env src ee ve]
  by (simp add: load_tables_def p_def)

lemma length_epsum_row: "lp_cols p mod OTP_SIZE = 0 \<Longrightarrow> length (epsum_row p start seg) = epsum_width p"
  using length_vsum [of "map (\<lambda>i. row_pads (lp_ins p) (lp_ee p) (lp_cols p) (row_address (lp_cols p) (start + unat i))) seg" "lp_cols p"]
  by (simp add: epsum_row_def epsum_width_def length_row_pads TAG_SIZE_def)

lemma row_at_epsum: "row_at (epsum_view p base n) i = make_view (base + epsum_width p * i) (base + epsum_width p * i + lp_cols p)"
  by (simp add: row_at_def epsum_view_def make_rowwise_view_def it_plus_def rw_begin_it_def it_current_def epsum_width_def)

lemma row_at_etags: "lp_tag p \<Longrightarrow> v_begin (row_at (etags_view p base n) i) = base + epsum_width p * i + lp_cols p"
  by (simp add: row_at_def etags_view_def make_rowwise_view_def it_plus_def rw_begin_it_def it_current_def)

lemma size_etags: "0 < n \<Longrightarrow> 0 < lp_cols p \<Longrightarrow> rw_size (etags_view p base n) = of_bool (lp_tag p) * n"
  by (simp add: etags_view_def make_rowwise_view_def no_rows_def epsum_width_def)

lemma pad_sums_correct:
  assumes "lp_cols p mod OTP_SIZE = 0" "0 < lp_cols p" "pads_fit (lp_cols p) offs"
  shows "offset_transform_reduce_vec (lp_ins p) (lp_ee p) offs (replicate (lp_cols p) 0) sls_op_psum =
    Inr (vsum (lp_cols p) (map (row_pads (lp_ins p) (lp_ee p) (lp_cols p)) offs))"
  using offset_transform_reduce_vec_correct [of "replicate (lp_cols p) 0" offs "lp_ins p" "lp_ee p" sls_op_psum] assms
  by (simp add: sls_op_psum_add vsum_def)

lemma perform_lookup_at:
  assumes "t < length ts" "lp_cols p mod OTP_SIZE = 0" "0 < lp_cols p" "lookup_fits p seg" "0 < n"
    "length pre = base + epsum_width p * i" "length old = epsum_width p"
  shows "perform_lookup (post_of p ts) t (epsum_view p base n) (etags_view p base n) i seg (pre @ old @ post) =
    Inr (pre @ epsum_row p (table_starts 0 ts ! t) seg @ post)"
proof -
  let ?offs = "map (\<lambda>i. row_address (lp_cols p) (table_starts 0 ts ! t + unat i)) seg"
  let ?s = "vsum (lp_cols p) (map (row_pads (lp_ins p) (lp_ee p) (lp_cols p)) ?offs)"
  obtain o1 o2 where o: "old = o1 @ o2" "length o1 = lp_cols p" "length o2 = TAG_SIZE * of_bool (lp_tag p)"
    using split_front [of "lp_cols p" old] assms(7) by (auto simp: epsum_width_def)
  have ls: "length ?s = lp_cols p" by (rule length_vsum) (use length_row_pads [OF assms(2)] in auto)
  have pf: "pads_fit (lp_cols p) ?offs" using assms(4) by (simp add: lookup_fits_def pads_fit_def)
  have w: "view_write (pre @ xs @ o2 @ post) (make_view (base + epsum_width p * i) (base + epsum_width p * i + lp_cols p)) ys =
    Inr (pre @ ys @ o2 @ post)" if "length xs = lp_cols p" "length ys = lp_cols p" for xs ys
    by (rule view_write_mid [OF assms(6) that])
  have tw: "view_write (pre @ ?s @ o2 @ post) (tag_view (base + epsum_width p * i + lp_cols p)) (tag_elems v) = Inr (pre @ ?s @ tag_elems v @ post)"
    if "lp_tag p" for v
    using view_write_mid [of "pre @ ?s" "base + epsum_width p * i + lp_cols p" o2 4 "tag_elems v" post] assms(6) ls o(3) that
    by (simp add: tag_view_def TAG_SIZE_def)
  have m: "mac_transform_reduce_vec (lp_ins p) (lp_ve p) ?offs 0 (+) = Inr (sum_list (map (tag_pad (lp_ins p) (lp_ve p) 0x10) ?offs))"
    using mac_transform_reduce_vec_correct [OF pads_fit_tags [OF assms(2,3) pf]] by (simp add: fold_add_sum_list)
  have f: "fill_offsets (post_of p ts) t seg = Inr ?offs" by (rule fill_offsets_correct [OF assms(1)])
  note q = pad_sums_correct [OF assms(2,3) pf]
  show ?thesis
    unfolding perform_lookup_def f o(1)
    using q m w [OF o(2), of "replicate (lp_cols p) 0"] w [of "replicate (lp_cols p) 0" ?s] tw ls o(3) assms(3,5)
    by (cases "lp_tag p") (simp_all add: row_at_epsum row_at_etags size_etags post_of_def Let_def epsum_row_def comp_def)
qed

lemma perform_lookups_at:
  assumes "t < length ts" "lp_cols p mod OTP_SIZE = 0" "0 < lp_cols p" "\<forall>seg \<in> set segs. lookup_fits p seg" "0 < n"
    "length pre = base + epsum_width p * i" "length s = epsum_width p * length segs"
  shows "perform_lookups (post_of p ts) t (epsum_view p base n) (etags_view p base n) segs (i, pre @ s @ post) =
    Inr (i + length segs, pre @ concat (map (epsum_row p (table_starts 0 ts ! t)) segs) @ post)"
  using assms(4,6,7)
proof (induction segs arbitrary: i pre s)
  case (Cons seg segs)
  obtain old s' where s: "s = old @ s'" "length old = epsum_width p" "length s' = epsum_width p * length segs"
    using split_front [of "epsum_width p" s] Cons.prems(3) by auto
  have "perform_lookup (post_of p ts) t (epsum_view p base n) (etags_view p base n) i seg (pre @ old @ s' @ post) =
    Inr (pre @ epsum_row p (table_starts 0 ts ! t) seg @ s' @ post)"
    by (rule perform_lookup_at) (use assms Cons.prems s in simp_all)
  moreover have "perform_lookups (post_of p ts) t (epsum_view p base n) (etags_view p base n) segs
      (Suc i, (pre @ epsum_row p (table_starts 0 ts ! t) seg) @ s' @ post) =
    Inr (Suc i + length segs, (pre @ epsum_row p (table_starts 0 ts ! t) seg) @ concat (map (epsum_row p (table_starts 0 ts ! t)) segs) @ post)"
    by (rule Cons.IH) (use Cons.prems s assms(2) in \<open>simp_all add: length_epsum_row\<close>)
  ultimately show ?case by (simp add: s(1))
qed simp

lemma length_visited: "length (visited ls) \<le> length ls"
  by (induction ls) simp_all

lemma sum_visited: "sum_list (visited ls) = sum_list ls"
  by (induction ls) simp_all

lemma length_table_pads:
  assumes "lp_cols p mod OTP_SIZE = 0" "length old = epsum_width p * length ls"
  shows "length (table_pads p start ls xs old) = epsum_width p * length ls"
proof -
  have "length (concat (map (epsum_row p start) (segments (visited ls) xs))) = epsum_width p * length (visited ls)"
    using length_concat_eq [of "map (epsum_row p start) (segments (visited ls) xs)" "epsum_width p"] length_epsum_row [OF assms(1)] by simp
  moreover have "epsum_width p * length (visited ls) \<le> epsum_width p * length ls" by (intro mult_left_mono) (simp_all add: length_visited)
  ultimately show ?thesis using assms(2) by (simp add: table_pads_def)
qed

lemma table_task_at:
  assumes "t < length ts" "lp_cols p mod OTP_SIZE = 0" "0 < lp_cols p" "0 < length ls"
    "\<forall>l \<in> set ls. 4 * lp_cols p * l < 2 ^ 31" "b + sum_list ls \<le> length inds"
    "length s = epsum_width p * length ls"
  shows "perform_sls_impl (post_of p ts) inds [(t, make_variable_row_view b (b + sum_list ls) ls)]
      (epsum_view p (length pre) (length ls)) (etags_view p (length pre) (length ls)) (pre @ s @ post) =
    Inr (pre @ table_pads p (table_starts 0 ts ! t) ls (drop b inds) s @ post)"
proof -
  let ?segs = "segments (visited ls) (drop b inds)"
  have v: "variable_rows inds (make_variable_row_view b (b + sum_list ls) ls) = Inr ?segs"
    using variable_loop_correct [of ls "[]" ls b inds] assms(6)
    by (simp add: variable_rows_def vr_begin_it_def) (simp add: make_variable_row_view_def)
  have "\<forall>seg \<in> set ?segs. length seg \<in> set ls"
  proof
    fix seg assume "seg \<in> set ?segs"
    then have "length seg \<in> set (map length ?segs)" by simp
    also have "map length ?segs = visited ls" by (rule map_length_segments) (use assms(6) sum_visited [of ls] in simp)
    finally show "length seg \<in> set ls" by (induction ls) (auto split: if_splits)
  qed
  then have f: "\<forall>seg \<in> set ?segs. lookup_fits p seg" using assms(5) by (auto simp: lookup_fits_def)
  have le: "epsum_width p * length (visited ls) \<le> length s" unfolding assms(7) by (intro mult_left_mono) (simp_all add: length_visited)
  obtain s1 s2 where s: "s = s1 @ s2" "length s1 = epsum_width p * length (visited ls)" using split_front [OF le] by blast
  have "perform_lookups (post_of p ts) t (epsum_view p (length pre) (length ls)) (etags_view p (length pre) (length ls)) ?segs (0, pre @ s1 @ s2 @ post) =
    Inr (0 + length ?segs, pre @ concat (map (epsum_row p (table_starts 0 ts ! t)) ?segs) @ s2 @ post)"
    by (rule perform_lookups_at [OF assms(1-3) f]) (use assms(4) s(2) in simp_all)
  then show ?thesis by (simp add: perform_sls_impl_def v s table_pads_def)
qed

section \<open>Tasks on their own parts of the buffer\<close>

lemma run_order_local:
  assumes "local_tasks tasks fs w" "set ks \<subseteq> {..<length tasks}" "distinct ks"
    "length segs = length tasks" "\<forall>s \<in> set segs. length s = w"
  shows "run_order tasks ks (concat segs) =
    Inr (concat (map (\<lambda>k. if k \<in> set ks then (fs ! k) (segs ! k) else segs ! k) [0..<length segs]))"
  using assms(2-5)
proof (induction ks arbitrary: segs)
  case Nil
  then show ?case using map_nth [of segs] by simp
next
  case (Cons k ks)
  let ?segs = "segs[k := (fs ! k) (segs ! k)]"
  have k: "k < length tasks" using Cons.prems(1) by simp
  then have t: "(tasks ! k) (concat segs) = Inr (concat ?segs)" "length ((fs ! k) (segs ! k)) = w"
    using assms(1) Cons.prems(3,4) by (auto simp: local_tasks_def)
  have "run_order tasks ks (concat ?segs) =
    Inr (concat (map (\<lambda>j. if j \<in> set ks then (fs ! j) (?segs ! j) else ?segs ! j) [0..<length ?segs]))"
    by (rule Cons.IH) (use Cons.prems t(2) in \<open>auto dest!: set_update_subset_insert [THEN subsetD]\<close>)
  moreover have "map (\<lambda>j. if j \<in> set ks then (fs ! j) (?segs ! j) else ?segs ! j) [0..<length ?segs] =
    map (\<lambda>j. if j \<in> set (k # ks) then (fs ! j) (segs ! j) else segs ! j) [0..<length segs]"
    using Cons.prems(2) k Cons.prems(3) by (auto simp: nth_list_update)
  ultimately show ?case unfolding run_order.simps t(1) bind_r_simps by (simp only:)
qed

lemma sync_run_order:
  "run_order tasks ks buf = Inr buf' \<Longrightarrow> sync_run (map ((!) tasks) ks) buf = (buf', replicate (length ks) None)"
  by (induction ks arbitrary: buf) (auto simp: bind_r_Inr_iff)

lemma get_all_None: "get_all (replicate n None) = Inr ()"
  by (induction n) simp_all

lemma run_order_all:
  assumes "local_tasks tasks fs w" "set ks = {..<length tasks}" "distinct ks"
    "length segs = length tasks" "\<forall>s \<in> set segs. length s = w"
  shows "run_order tasks ks (concat segs) = Inr (concat (map (\<lambda>k. (fs ! k) (segs ! k)) [0..<length segs]))"
proof -
  have "map (\<lambda>k. if k \<in> set ks then (fs ! k) (segs ! k) else segs ! k) [0..<length segs] =
    map (\<lambda>k. (fs ! k) (segs ! k)) [0..<length segs]"
    using assms(2,4) by auto
  then show ?thesis using run_order_local [OF assms(1) _ assms(3-5)] assms(2) by (simp only: order_refl)
qed

lemma sync_run_local:
  assumes "local_tasks tasks fs w" "length segs = length tasks" "\<forall>s \<in> set segs. length s = w"
  shows "sync_run tasks (concat segs) = (concat (map (\<lambda>k. (fs ! k) (segs ! k)) [0..<length segs]), replicate (length tasks) None)"
  using sync_run_order [OF run_order_all [OF assms(1) _ _ assms(2,3)], of "[0..<length tasks]"]
  by (simp add: map_nth atLeast0LessThan)

section \<open>The tasks of a run\<close>

lemma length_requests_of [simp]: "length (requests_of tid idx lss) = length lss"
  by (induction lss arbitrary: tid idx) simp_all

lemma length_sls_tasks [simp]: "length (sls_tasks ex pp inds reqs b) = length reqs"
  by (induction reqs arbitrary: b) (simp_all add: Let_def)

lemma requests_of_nth:
  "k < length lss \<Longrightarrow> requests_of tid idx lss ! k =
    (tid + k, make_variable_row_view (idx + sum_list (concat (take k lss))) (idx + sum_list (concat (take k lss)) + sum_list (lss ! k)) (lss ! k))"
proof (induction lss arbitrary: tid idx k)
  case (Cons ls lss)
  then show ?case by (cases k) (simp_all add: add.assoc)
qed simp

lemma reorder_tables_correct:
  assumes "\<forall>ls \<in> set lss. length ls = mb" "length pre = pos"
  shows "reorder_tables (length lss) tid (row_it pos mb) idx (pre @ concat lss @ rest) = Inr (requests_of tid idx lss)"
  using assms
proof (induction lss arbitrary: tid idx pre pos)
  case (Cons ls lss)
  have "reorder_tables (length lss) (Suc tid) (row_it (pos + mb) mb) (idx + sum_list ls) ((pre @ ls) @ concat lss @ rest) =
    Inr (requests_of (Suc tid) (idx + sum_list ls) lss)"
    by (rule Cons.IH) (use Cons.prems in simp_all)
  then show ?case using view_elems_mid [of pre pos ls mb "concat lss @ rest"] Cons.prems by (simp add: Let_def)
qed simp

lemma sls_tasks_nth:
  assumes "executor_for ex p ts" "\<forall>ls \<in> set lss. length ls = mb" "k < length lss"
  shows "sls_tasks ex pp inds (requests_of tid idx lss) b ! k =
    perform_sls_impl pp inds [requests_of tid idx lss ! k]
      (epsum_view p (b + epsum_width p * mb * k) mb) (etags_view p (b + epsum_width p * mb * k) mb)"
  using assms(2,3)
proof (induction lss arbitrary: tid idx b k)
  case (Cons ls lss)
  have a: "augmented_row_size ex = epsum_width p" "with_tag ex = lp_tag p" "sparse_feature_size ex = lp_cols p"
    using assms(1) by (simp_all add: executor_for_def augmented_row_size_def epsum_width_def)
  show ?case
  proof (cases k)
    case 0
    then show ?thesis using Cons.prems a
      by (simp add: Let_def epsum_view_def etags_view_def make_variable_row_view_def)
  next
    case (Suc j)
    then show ?thesis using Cons.IH [of j "Suc tid" "idx + sum_list ls" "b + epsum_width p * mb"] Cons.prems a
      by (simp add: Let_def make_variable_row_view_def add.assoc)
  qed
qed simp

lemma sum_concat_take: "k < length lss \<Longrightarrow> sum_list (concat (take k lss)) + sum_list (lss ! k) \<le> sum_list (concat lss)"
  for lss :: "nat list list"
proof -
  assume "k < length lss"
  then have "concat lss = concat (take k lss) @ lss ! k @ concat (drop (Suc k) lss)" by (rule concat_split_nth)
  then have "sum_list (concat lss) = sum_list (concat (take k lss) @ lss ! k @ concat (drop (Suc k) lss))" by (rule arg_cong)
  then show ?thesis by simp
qed

lemma sls_tasks_local:
  assumes "executor_for ex p ts" "length lss = length ts" "\<forall>ls \<in> set lss. length ls = mb" "0 < mb"
    "lp_cols p mod OTP_SIZE = 0" "0 < lp_cols p" "\<forall>l \<in> set (concat lss). 4 * lp_cols p * l < 2 ^ 31"
    "sum_list (concat lss) \<le> length inds"
  shows "local_tasks (sls_tasks ex (post_of p ts) inds (requests_of 0 0 lss) 0)
    (map (pads_from p ts inds lss) [0..<length lss]) (epsum_width p * mb)"
  unfolding local_tasks_def
proof (intro conjI allI impI)
  let ?tasks = "sls_tasks ex (post_of p ts) inds (requests_of 0 0 lss) 0"
  show "length (map (pads_from p ts inds lss) [0..<length lss]) = length ?tasks" by simp
  fix k and segs :: "u32 list list"
  assume k: "k < length ?tasks" and len: "length segs = length ?tasks" and w: "\<forall>s \<in> set segs. length s = epsum_width p * mb"
  have kk: "k < length lss" "k < length segs" "k < length ts" using k len assms(2) by simp_all
  have "lss ! k \<in> set lss" using kk(1) by (rule nth_mem)
  then have ls: "length (lss ! k) = mb" "set (lss ! k) \<subseteq> set (concat lss)" using assms(3) by auto
  have sk: "length (segs ! k) = epsum_width p * length (lss ! k)" using w kk(2) ls(1) by simp
  have pre: "length (concat (take k segs)) = epsum_width p * mb * k"
    using length_concat_eq [of "take k segs" "epsum_width p * mb"] w kk(2) by (auto dest: in_set_takeD)
  have nf: "map (pads_from p ts inds lss) [0..<length lss] ! k = pads_from p ts inds lss k" using kk(1) by simp
  show "length ((map (pads_from p ts inds lss) [0..<length lss] ! k) (segs ! k)) = epsum_width p * mb"
    unfolding nf pads_from_def using length_table_pads [OF assms(5) sk] ls(1) by simp
  have "(?tasks ! k) (concat (take k segs) @ segs ! k @ concat (drop (Suc k) segs)) =
    Inr (concat (take k segs) @ pads_from p ts inds lss k (segs ! k) @ concat (drop (Suc k) segs))"
    unfolding sls_tasks_nth [OF assms(1,3) kk(1)] requests_of_nth [OF kk(1)] add_0 pads_from_def pre [symmetric]
    unfolding ls(1) [symmetric]
    by (rule table_task_at) (use kk ls assms(4-8) sk sum_concat_take [OF kk(1)] in auto)
  then show "(?tasks ! k) (concat segs) = Inr (concat (segs[k := (map (pads_from p ts inds lss) [0..<length lss] ! k) (segs ! k)]))"
    unfolding nf upd_conv_take_nth_drop [OF kk(2)] concat_split_nth [OF kk(2), symmetric] by simp
qed

section \<open>Decryption\<close>

lemma row_at_cut: "row_at (cut_rows p n) i = make_view (lp_cols p * i) (lp_cols p * i + lp_cols p)"
  by (simp add: row_at_def cut_rows_def make_rowwise_view_def it_plus_def rw_begin_it_def it_current_def)

lemma row_at_ctags: "lp_tag p \<Longrightarrow> v_begin (row_at (ctags_view p n) i) = n * lp_cols p + TAG_SIZE * i"
  by (simp add: row_at_def ctags_view_def make_rowwise_view_def it_plus_def rw_begin_it_def it_current_def)

lemma size_ctags: "rw_size (ctags_view p n) = of_bool (lp_tag p) * n"
  by (simp add: ctags_view_def make_rowwise_view_def no_rows_def TAG_SIZE_def)

lemma decrypt_row_at:
  assumes "0 < lp_cols p" "i < n" "length d = lp_cols p" "length e = epsum_width p"
    "length pre = lp_cols p * i" "length epre = epsum_width p * i" "length (pre @ d @ post) = n * lp_cols p"
    "lp_tag p \<Longrightarrow> length tpre = TAG_SIZE * i \<and> length ct = TAG_SIZE \<and> i < length (ds_checks s)"
    "ds_psums s = pre @ d @ post @ tpre @ ct @ tpost"
  shows "decrypt_row (post_of p ts) (cut_rows p n) (epre @ e @ epost) (epsum_view p 0 n) (ctags_view p n) (etags_view p 0 n) i d s =
    Inr (if lp_tag p then s\<lparr>ds_psums := pre @ dec_row p d e @ post @ tpre @ ct @ tpost,
           ds_checks := (ds_checks s)[i := of_bool (row_valid p d (tag_of ct) e)], ds_ok := ds_ok s \<and> row_valid p d (tag_of ct) e\<rparr>
         else s\<lparr>ds_psums := pre @ dec_row p d e @ post @ tpre @ ct @ tpost\<rparr>)"
proof -
  obtain e1 e2 where e: "e = e1 @ e2" "length e1 = lp_cols p" "length e2 = TAG_SIZE * of_bool (lp_tag p)"
    using split_front [of "lp_cols p" e] assms(4) by (auto simp: epsum_width_def)
  let ?dec = "dec_row p d e"
  have ld: "length ?dec = lp_cols p" using assms(3) e(2) by (simp add: dec_row_def e(1))
  have o: "view_elems (epre @ e @ epost) (make_view (epsum_width p * i) (epsum_width p * i + length d)) = Inr e1"
    using view_elems_mid [of epre "epsum_width p * i" e1 "lp_cols p" "e2 @ epost"] assms(3,6) e by simp
  have dc: "decrypt_psum d e1 = Inr ?dec" using assms(3) e by (simp add: decrypt_psum_def dec_row_def)
  have w: "view_write (ds_psums s) (make_view (lp_cols p * i) (lp_cols p * i + lp_cols p)) ?dec = Inr (pre @ ?dec @ post @ tpre @ ct @ tpost)"
    using view_write_mid [of pre "lp_cols p * i" d "lp_cols p" ?dec "post @ tpre @ ct @ tpost"] assms(3,5) ld by (simp add: assms(9))
  have ctv: "view_elems (pre @ ?dec @ post @ tpre @ ct @ tpost) (tag_view (n * lp_cols p + TAG_SIZE * i)) = Inr ct" if "lp_tag p"
    using view_elems_mid [of "pre @ ?dec @ post @ tpre" "n * lp_cols p + TAG_SIZE * i" ct TAG_SIZE tpost] assms(3,7,8) ld that
    by (simp add: tag_view_def TAG_SIZE_def)
  have etv: "view_elems (epre @ e @ epost) (tag_view (epsum_width p * i + lp_cols p)) = Inr e2" if "lp_tag p"
    using view_elems_mid [of "epre @ e1" "epsum_width p * i + lp_cols p" e2 TAG_SIZE epost] assms(6) e that
    by (simp add: tag_view_def TAG_SIZE_def)
  have v: "validate_psum (lp_ins p) (lp_ve p) ?dec (tag_of ct) (tag_of e2) = Inr (row_valid p d (tag_of ct) e)"
    using e(2) by (simp add: validate_psum_def linear_checksum_correct row_valid_def e(1))
  show ?thesis
    unfolding decrypt_row_def
    using o dc w ctv etv v assms(1,2,8)
    by (cases "lp_tag p") (simp_all add: row_at_epsum row_at_cut row_at_etags row_at_ctags size_etags size_ctags post_of_def Let_def)
qed

lemma triple_rows_simps [simp]:
  "dec_rows p [] = []" "valid_rows p [] = []" "tag_area [] = []"
  "dec_rows p ((d, ct, e) # rows) = dec_row p d e @ dec_rows p rows"
  "valid_rows p ((d, ct, e) # rows) = row_valid p d ct e # valid_rows p rows"
  "tag_area ((d, ct, e) # rows) = tag_elems ct @ tag_area rows"
  by (simp_all add: dec_rows_def valid_rows_def tag_area_def)

lemma set_checks_Cons:
  "i < length cs \<Longrightarrow> set_checks (Suc i) bs (cs[i := of_bool b]) = set_checks i (b # bs) cs"
  by (simp add: set_checks_def take_Suc_conv_app_nth)

lemma length_dec_row: "length d = lp_cols p \<Longrightarrow> length e = epsum_width p \<Longrightarrow> length (dec_row p d e) = lp_cols p"
  by (simp add: dec_row_def epsum_width_def)

lemma length_data_rows: "triples_ok p rows \<Longrightarrow> length (concat (map fst rows)) = length rows * lp_cols p"
  by (induction rows) (auto simp: triples_ok_def)

lemma decrypt_rows_tagged:
  assumes "0 < lp_cols p" "lp_tag p" "triples_ok p rows" "n = i + length rows" "n \<le> length cs"
    "length pre = lp_cols p * i" "length epre = epsum_width p * i" "length tpre = TAG_SIZE * i"
  shows "decrypt_rows (post_of p ts) (cut_rows p n) (epre @ concat (map (snd \<circ> snd) rows)) (epsum_view p 0 n) (ctags_view p n) (etags_view p 0 n) i
      (map fst rows) \<lparr>ds_psums = pre @ concat (map fst rows) @ tpre @ tag_area rows, ds_checks = cs, ds_ok = ok\<rparr> =
    Inr \<lparr>ds_psums = pre @ dec_rows p rows @ tpre @ tag_area rows, ds_checks = set_checks i (valid_rows p rows) cs,
         ds_ok = ok \<and> False \<notin> set (valid_rows p rows)\<rparr>"
  using assms(3-8)
proof (induction rows arbitrary: i cs pre epre tpre ok)
  case Nil
  then show ?case by (simp add: set_checks_def)
next
  case (Cons r rows)
  obtain d ct e where r: "r = (d, ct, e)" by (cases r)
  have l: "length d = lp_cols p" "length e = epsum_width p" "triples_ok p rows" using Cons.prems(1) by (auto simp: triples_ok_def r)
  let ?ok = "row_valid p d ct e"
  let ?s = "\<lparr>ds_psums = pre @ d @ concat (map fst rows) @ tpre @ tag_elems ct @ tag_area rows, ds_checks = cs, ds_ok = ok\<rparr>"
  have "decrypt_row (post_of p ts) (cut_rows p n) (epre @ e @ concat (map (snd \<circ> snd) rows)) (epsum_view p 0 n) (ctags_view p n) (etags_view p 0 n) i d ?s =
    Inr (if lp_tag p then ?s\<lparr>ds_psums := pre @ dec_row p d e @ concat (map fst rows) @ tpre @ tag_elems ct @ tag_area rows,
        ds_checks := (ds_checks ?s)[i := of_bool (row_valid p d (tag_of (tag_elems ct)) e)],
        ds_ok := ds_ok ?s \<and> row_valid p d (tag_of (tag_elems ct)) e\<rparr>
      else ?s\<lparr>ds_psums := pre @ dec_row p d e @ concat (map fst rows) @ tpre @ tag_elems ct @ tag_area rows\<rparr>)"
    by (rule decrypt_row_at) (use assms(1) Cons.prems l length_data_rows [OF l(3)] in \<open>simp_all add: TAG_SIZE_def algebra_simps\<close>)
  moreover have "decrypt_rows (post_of p ts) (cut_rows p n) ((epre @ e) @ concat (map (snd \<circ> snd) rows)) (epsum_view p 0 n) (ctags_view p n) (etags_view p 0 n) (Suc i)
      (map fst rows) \<lparr>ds_psums = (pre @ dec_row p d e) @ concat (map fst rows) @ (tpre @ tag_elems ct) @ tag_area rows,
        ds_checks = cs[i := of_bool ?ok], ds_ok = ok \<and> ?ok\<rparr> =
    Inr \<lparr>ds_psums = (pre @ dec_row p d e) @ dec_rows p rows @ (tpre @ tag_elems ct) @ tag_area rows,
      ds_checks = set_checks (Suc i) (valid_rows p rows) (cs[i := of_bool ?ok]), ds_ok = (ok \<and> ?ok) \<and> False \<notin> set (valid_rows p rows)\<rparr>"
    by (rule Cons.IH) (use Cons.prems l length_dec_row [OF l(1,2)] in \<open>simp_all add: TAG_SIZE_def\<close>)
  ultimately show ?case using assms(2) Cons.prems set_checks_Cons [of i cs "valid_rows p rows" ?ok]
    by (simp add: r tag_of_elems comp_def)
qed

lemma decrypt_rows_plain:
  assumes "0 < lp_cols p" "\<not> lp_tag p" "triples_ok p rows" "n = i + length rows"
    "length pre = lp_cols p * i" "length epre = epsum_width p * i"
  shows "decrypt_rows (post_of p ts) (cut_rows p n) (epre @ concat (map (snd \<circ> snd) rows) @ epost) (epsum_view p 0 n) (ctags_view p n) (etags_view p 0 n) i
      (map fst rows) \<lparr>ds_psums = pre @ concat (map fst rows) @ post, ds_checks = cs, ds_ok = ok\<rparr> =
    Inr \<lparr>ds_psums = pre @ dec_rows p rows @ post, ds_checks = cs, ds_ok = ok\<rparr>"
  using assms(3-6)
proof (induction rows arbitrary: i pre epre)
  case Nil
  then show ?case by simp
next
  case (Cons r rows)
  obtain d ct e where r: "r = (d, ct, e)" by (cases r)
  have l: "length d = lp_cols p" "length e = epsum_width p" "triples_ok p rows" using Cons.prems(1) by (auto simp: triples_ok_def r)
  let ?s = "\<lparr>ds_psums = pre @ d @ concat (map fst rows) @ post, ds_checks = cs, ds_ok = ok\<rparr>"
  have "decrypt_row (post_of p ts) (cut_rows p n) (epre @ e @ concat (map (snd \<circ> snd) rows) @ epost) (epsum_view p 0 n) (ctags_view p n) (etags_view p 0 n) i d ?s =
    Inr (if lp_tag p then ?s\<lparr>ds_psums := pre @ dec_row p d e @ concat (map fst rows) @ [] @ [] @ post,
        ds_checks := (ds_checks ?s)[i := of_bool (row_valid p d (tag_of []) e)], ds_ok := ds_ok ?s \<and> row_valid p d (tag_of []) e\<rparr>
      else ?s\<lparr>ds_psums := pre @ dec_row p d e @ concat (map fst rows) @ [] @ [] @ post\<rparr>)"
    by (rule decrypt_row_at) (use assms(1,2) Cons.prems l length_data_rows [OF l(3)] in \<open>simp_all add: algebra_simps\<close>)
  moreover have "decrypt_rows (post_of p ts) (cut_rows p n) ((epre @ e) @ concat (map (snd \<circ> snd) rows) @ epost) (epsum_view p 0 n) (ctags_view p n) (etags_view p 0 n) (Suc i)
      (map fst rows) \<lparr>ds_psums = (pre @ dec_row p d e) @ concat (map fst rows) @ post, ds_checks = cs, ds_ok = ok\<rparr> =
    Inr \<lparr>ds_psums = (pre @ dec_row p d e) @ dec_rows p rows @ post, ds_checks = cs, ds_ok = ok\<rparr>"
    by (rule Cons.IH) (use Cons.prems l length_dec_row [OF l(1,2)] in simp_all)
  ultimately show ?case using assms(2) by (simp add: r comp_def)
qed

section \<open>Cells: a table and the indices of one of its batches\<close>

lemma per_table_map: "per_table mb (map f xs) segs = map (\<lambda>(x, s). (f x, s)) (per_table mb xs segs)"
  by (induction xs arbitrary: segs) (simp_all add: comp_def)

lemma per_table_segments:
  assumes "length lss = length xs" "\<forall>ls \<in> set lss. length ls = mb"
  shows "per_table mb xs (segments (concat lss) inds) =
    concat (map (\<lambda>k. map (Pair (xs ! k)) (segments (lss ! k) (drop (sum_list (concat (take k lss))) inds))) [0..<length xs])"
  using assms
proof (induction xs arbitrary: lss inds)
  case (Cons x xs)
  obtain ls lss' where l: "lss = ls # lss'" using Cons.prems(1) by (cases lss) auto
  have u: "[0..<length (x # xs)] = 0 # map Suc [0..<length xs]" by (simp add: upt_conv_Cons map_Suc_upt del: upt_Suc)
  have IH: "per_table mb xs (segments (concat lss') (drop (sum_list ls) inds)) =
    concat (map (\<lambda>k. map (Pair (xs ! k)) (segments (lss' ! k) (drop (sum_list (concat (take k lss'))) (drop (sum_list ls) inds)))) [0..<length xs])"
    by (rule Cons.IH) (use Cons.prems l in simp_all)
  show ?case unfolding u using Cons.prems IH by (simp add: l segments_append comp_def add.commute)
qed simp

lemma length_per_table: "length segs = mb * length xs \<Longrightarrow> length (per_table mb xs segs) = mb * length xs"
  by (induction xs arbitrary: segs) simp_all

lemma cells_tables: "per_table mb ts (segments lens inds) = map (\<lambda>((t, st), seg). (t, seg)) (run_cells mb ts lens inds)"
  using per_table_map [of mb fst "zip ts (table_starts 0 ts)" "segments lens inds"]
  by (simp add: run_cells_def split_def map_fst_zip)

lemma cells_starts: "per_table mb (table_starts 0 ts) (segments lens inds) = map (\<lambda>((t, st), seg). (st, seg)) (run_cells mb ts lens inds)"
  using per_table_map [of mb snd "zip ts (table_starts 0 ts)" "segments lens inds"]
  by (simp add: run_cells_def split_def map_snd_zip)

lemma sealed_tables_zip: "sealed_tables p k ts = map (\<lambda>(t, st). sealed_rows p st t) (zip ts (table_starts k ts))"
  by (induction ts arbitrary: k) simp_all

lemma cells_sealed:
  "per_table mb (sealed_tables p 0 ts) (segments lens inds) = map (\<lambda>((t, st), seg). (sealed_rows p st t, seg)) (run_cells mb ts lens inds)"
  by (simp add: sealed_tables_zip per_table_map run_cells_def split_def)

lemma set_per_table: "(x, seg) \<in> set (per_table mb xs segs) \<Longrightarrow> x \<in> set xs"
proof (induction xs arbitrary: segs)
  case (Cons y ys)
  then show ?case by auto
qed simp

lemma run_cells_ok:
  assumes "tables_wf cols ts" "segs_ok (per_table mb ts (segments lens inds))" "c \<in> set (run_cells mb ts lens inds)"
  shows "cell_ok cols c"
proof -
  obtain t st seg where c: "c = ((t, st), seg)" by (metis prod.exhaust)
  have "t \<in> set ts" using set_per_table [of "(t, st)" seg] assms(3) by (auto simp: run_cells_def c dest: set_zip_leftD)
  moreover have "(t, seg) \<in> set (per_table mb ts (segments lens inds))" using assms(3) by (force simp: cells_tables c)
  ultimately show ?thesis using assms(1,2) by (auto simp: cell_ok_def c tables_wf_def segs_ok_def)
qed

section \<open>Decryption of a cell\<close>

lemma sealed_rows_nth: "i < length t \<Longrightarrow> sealed_rows p st t ! i = sealed_row p (st + i) (t ! i)"
proof (induction t arbitrary: st i)
  case (Cons r t)
  then show ?case by (cases i) simp_all
qed simp

lemma sls_sum_vsum: "sls_sum (+) n table seg = vsum n (map (\<lambda>i. take n (table ! unat i)) seg)"
  by (simp add: sls_sum_def vsum_def fold_map comp_def)

lemma cell_decrypts:
  assumes "cell_ok (lp_cols p) ((t, st), seg)" "lp_cols p mod OTP_SIZE = 0"
  shows "dec_row p (sls_sum (+) (lp_cols p) (sealed_rows p st t) seg) (epsum_row p st seg) = sls_sum (+) (lp_cols p) t seg"
proof -
  let ?n = "lp_cols p"
  let ?pad = "\<lambda>i :: u32. row_pads (lp_ins p) (lp_ee p) ?n (row_address ?n (st + unat i))"
  have ti: "length (t ! unat i) = ?n" "unat i < length t" if "i \<in> set seg" for i using assms(1) that by (auto simp: cell_ok_def)
  have lp: "length (?pad i) = ?n" for i using length_row_pads [OF assms(2)] .
  have "map (\<lambda>i. take ?n (sealed_rows p st t ! unat i)) seg = map (\<lambda>i. map2 (-) (t ! unat i) (?pad i)) seg"
    using ti lp by (auto simp: sealed_rows_nth sealed_row_def)
  then have d: "sls_sum (+) ?n (sealed_rows p st t) seg = vsum ?n (map (\<lambda>i. map2 (-) (t ! unat i) (?pad i)) seg)"
    by (simp only: sls_sum_vsum)
  have "length (vsum ?n (map ?pad seg)) = ?n" by (rule length_vsum) (use lp in auto)
  then have e: "take ?n (epsum_row p st seg) = vsum ?n (map ?pad seg)" by (simp add: epsum_row_def)
  have s: "sls_sum (+) ?n t seg = vsum ?n (map (\<lambda>i. t ! unat i) seg)"
    using ti by (simp add: sls_sum_vsum cong: map_cong)
  show ?thesis unfolding dec_row_def d e s by (rule vsum_decrypt) (use ti lp in auto)
qed

lemma cell_validates:
  assumes "cell_ok (lp_cols p) ((t, st), seg)" "lp_cols p mod OTP_SIZE = 0" "lp_tag p" "lp_writer p = TrivialMemoryWriter"
    "cell_fits (lp_cols p) ((t, st), seg)"
  shows "row_valid p (sls_sum (+) (lp_cols p) (sealed_rows p st t) seg) (tag_sum (lp_cols p) (sealed_rows p st t) seg) (epsum_row p st seg)"
proof -
  let ?n = "lp_cols p"
  let ?a = "\<lambda>i :: u32. row_address ?n (st + unat i)"
  let ?s = "tag_pad (lp_ins p) (lp_ve p) 0x01 (base_address (lp_ve p))"
  let ?E = "\<lambda>i. tag_pad (lp_ins p) (lp_ve p) 0x10 (?a i)"
  have ti: "length (t ! unat i) = ?n" "unat i < length t" if "i \<in> set seg" for i using assms(1) that by (auto simp: cell_ok_def)
  have lp: "length (row_pads (lp_ins p) (lp_ee p) ?n (?a i)) = ?n" for i using length_row_pads [OF assms(2)] .
  have "map (\<lambda>i. tag_of (drop ?n (sealed_rows p st t ! unat i))) seg = map (\<lambda>i. checksum ?s (t ! unat i) - ?E i) seg"
    using ti lp assms(3,4) by (auto simp: sealed_rows_nth sealed_row_def meta_words_def meta_size_def tag_of_elems row_mac_def)
  then have ct: "tag_sum ?n (sealed_rows p st t) seg = sum_list (map (\<lambda>i. checksum ?s (t ! unat i) - ?E i) seg)"
    by (simp only: tag_sum_def)
  have "length (vsum ?n (map (\<lambda>i. row_pads (lp_ins p) (lp_ee p) ?n (?a i)) seg)) = ?n" by (rule length_vsum) (use lp in auto)
  then have et: "tag_of (drop ?n (epsum_row p st seg)) = sum_list (map ?E seg)"
    using assms(3) by (simp add: epsum_row_def tag_of_elems)
  have "sls_sum (+) ?n t seg = vsum ?n (map (\<lambda>i. t ! unat i) seg)" using ti by (simp add: sls_sum_vsum cong: map_cong)
  then have "checksum ?s (sls_sum (+) ?n t seg) = sum_list (map (checksum ?s) (map (\<lambda>i. t ! unat i) seg))"
    using checksum_vsum [of "map (\<lambda>i. t ! unat i) seg" ?n ?s] ti assms(5) by (auto simp: cell_fits_def)
  also have "\<dots> = sum_list (map (\<lambda>i. checksum ?s (t ! unat i) - ?E i) seg) + sum_list (map ?E seg)"
    by (induction seg) (simp_all add: algebra_simps)
  finally show ?thesis unfolding row_valid_def cell_decrypts [OF assms(1,2)] ct et .
qed

section \<open>A whole run\<close>

lemma visited_all: "ls \<noteq> [] \<Longrightarrow> last ls \<noteq> 0 \<Longrightarrow> visited ls = ls"
proof (induction ls)
  case (Cons l ls)
  then show ?case
  proof (cases "ls = []")
    case False
    then have "last ls \<in> set ls" "last ls \<noteq> 0" using Cons.prems by simp_all
    then have "0 < l + sum_list ls" using member_le_sum_list [of "last ls" ls] by linarith
    then show ?thesis using Cons.IH Cons.prems False by (simp del: sum_list_eq_0_iff)
  qed simp
qed simp

lemma pads_of_cells:
  assumes "request_ok (lp_cols p) ts mb lss inds" "all_visited lss" "length segs = length ts" "\<forall>s \<in> set segs. length s = epsum_width p * mb"
  shows "concat (map (\<lambda>k. pads_from p ts inds lss k (segs ! k)) [0..<length ts]) =
    concat (map (\<lambda>((t, st), seg). epsum_row p st seg) (run_cells mb ts (concat lss) inds))"
proof -
  have r: "length lss = length ts" "\<forall>ls \<in> set lss. length ls = mb" "0 < mb" using assms(1) by (simp_all add: request_ok_def)
  have k: "pads_from p ts inds lss k (segs ! k) =
    concat (map (epsum_row p (table_starts 0 ts ! k)) (segments (lss ! k) (drop (sum_list (concat (take k lss))) inds)))" if "k < length ts" for k
  proof -
    have m: "lss ! k \<in> set lss" "segs ! k \<in> set segs" using that r(1) assms(3) by simp_all
    then have l: "length (lss ! k) = mb" "last (lss ! k) \<noteq> 0" "length (segs ! k) = epsum_width p * mb"
      using r(2) assms(2,4) by (auto simp: all_visited_def)
    then have "visited (lss ! k) = lss ! k" using r(3) by (intro visited_all) auto
    then show ?thesis by (simp add: pads_from_def table_pads_def l)
  qed
  have "concat (map (\<lambda>((t, st), seg). epsum_row p st seg) (run_cells mb ts (concat lss) inds)) =
    concat (map (\<lambda>(st, seg). epsum_row p st seg) (per_table mb (table_starts 0 ts) (segments (concat lss) inds)))"
    unfolding cells_starts by (simp add: split_def comp_def)
  also have "\<dots> = concat (map (\<lambda>k. concat (map (epsum_row p (table_starts 0 ts ! k)) (segments (lss ! k) (drop (sum_list (concat (take k lss))) inds)))) [0..<length ts])"
    using per_table_segments [of lss "table_starts 0 ts" mb inds] r by (simp add: map_concat comp_def concat_concat_map)
  also have "\<dots> = concat (map (\<lambda>k. pads_from p ts inds lss k (segs ! k)) [0..<length ts])"
    using k by (intro arg_cong [where f = concat] map_cong) auto
  finally show ?thesis ..
qed

lemma chunks_of:
  assumes "length xs = k * w"
  shows "\<exists>segs. xs = concat segs \<and> length segs = k \<and> (\<forall>s \<in> set segs. length s = w)"
  using assms
proof (induction k arbitrary: xs)
  case (Suc k)
  obtain a b where ab: "xs = a @ b" "length a = w" using split_front [of w xs] Suc.prems by auto
  then obtain segs where "b = concat segs" "length segs = k" "\<forall>s \<in> set segs. length s = w" using Suc by auto
  then show ?case using ab by (intro exI [of _ "a # segs"]) simp
qed simp

lemma length_resize [simp]: "length (resize n x xs) = n"
  by (simp add: resize_def)

lemma triples_of_cells:
  assumes "lp_cols p mod OTP_SIZE = 0" "\<forall>c \<in> set cs. cell_ok (lp_cols p) c"
  shows "triples_ok p (map (cell_triple p) cs)"
proof -
  have "length (sls_sum (+) (lp_cols p) (sealed_rows p st t) seg) = lp_cols p \<and> length (epsum_row p st seg) = epsum_width p"
    if "((t, st), seg) \<in> set cs" for t st seg
  proof -
    have ok: "cell_ok (lp_cols p) ((t, st), seg)" using assms(2) that by blast
    have "length (take (lp_cols p) (sealed_rows p st t ! unat i)) = lp_cols p" if "i \<in> set seg" for i
      using ok that length_row_pads [OF assms(1)] by (auto simp: cell_ok_def sealed_rows_nth sealed_row_def)
    then show ?thesis using length_epsum_row [OF assms(1)] by (auto simp: sls_sum_vsum intro!: length_vsum)
  qed
  then show ?thesis by (auto simp: triples_ok_def cell_triple_def)
qed

lemma cell_triple_sums:
  "concat (map fst (map (cell_triple p) cs)) = cell_sums (+) (lp_cols p) (map (\<lambda>((t, st), seg). (sealed_rows p st t, seg)) cs)"
  "tag_area (map (cell_triple p) cs) = cell_tags (lp_cols p) (map (\<lambda>((t, st), seg). (sealed_rows p st t, seg)) cs)"
  "concat (map (snd \<circ> snd) (map (cell_triple p) cs)) = concat (map (\<lambda>((t, st), seg). epsum_row p st seg) cs)"
  by (induction cs) (auto simp: cell_triple_def cell_sums_def cell_tags_def)

lemma dec_rows_cells:
  assumes "lp_cols p mod OTP_SIZE = 0" "\<forall>c \<in> set cs. cell_ok (lp_cols p) c"
  shows "dec_rows p (map (cell_triple p) cs) = cell_sums (+) (lp_cols p) (map (\<lambda>((t, st), seg). (t, seg)) cs)"
  using assms(2)
proof (induction cs)
  case (Cons c cs)
  obtain t st seg where c: "c = ((t, st), seg)" by (metis prod.exhaust)
  show ?case using Cons cell_decrypts [OF _ assms(1), of t st seg] by (simp add: c cell_triple_def cell_sums_def)
qed (simp add: cell_sums_def)

lemma valid_rows_cells:
  assumes "lp_cols p mod OTP_SIZE = 0" "\<forall>c \<in> set cs. cell_ok (lp_cols p) c \<and> cell_fits (lp_cols p) c" "lp_tag p" "lp_writer p = TrivialMemoryWriter"
  shows "valid_rows p (map (cell_triple p) cs) = replicate (length cs) True"
  using assms(2)
proof (induction cs)
  case (Cons c cs)
  obtain t st seg where c: "c = ((t, st), seg)" by (metis prod.exhaust)
  show ?case using Cons cell_validates [OF _ assms(1,3,4), of t st seg] by (simp add: c cell_triple_def)
qed simp

lemma rowwise_rows_prefix:
  assumes "0 < n" "\<forall>r \<in> set rs. length r = n"
  shows "rowwise_rows (concat rs @ post) (make_rowwise_view 0 (length rs * n) n 0 0) = Inr rs"
proof -
  have l: "length (concat rs) = length rs * n" using length_concat_eq [OF assms(2)] by (simp add: mult.commute)
  have "rowwise_rows (concat rs @ post) (make_rowwise_view 0 (length rs * n) n 0 0) =
    Inr (map (\<lambda>i. take n (drop (i * n) (concat rs @ post))) [0..<length rs])"
    using rowwise_loop_correct [of n 0 "length rs" "concat rs @ post" 0 0 0] assms(1) l
    by (simp add: rowwise_rows_def rw_begin_it_def) (simp add: make_rowwise_view_def)
  also have "map (\<lambda>i. take n (drop (i * n) (concat rs @ post))) [0..<length rs] = rs"
    using assms(2)
  proof (induction rs)
    case (Cons r rs)
    have u: "[0..<length (r # rs)] = 0 # map Suc [0..<length rs]"
      by (simp add: upt_conv_Cons map_Suc_upt del: upt_Suc)
    show ?case unfolding u using Cons by (simp add: comp_def)
  qed simp
  finally show ?thesis .
qed

lemma length_run_cells: "length lens = mb * length ts \<Longrightarrow> length (run_cells mb ts lens inds) = mb * length ts"
  by (simp add: run_cells_def length_per_table)

locale task_strategy =
  fixes strat :: strategy
  assumes strat_local: "local_tasks tasks fs w \<Longrightarrow> length segs = length tasks \<Longrightarrow> \<forall>s \<in> set segs. length s = w \<Longrightarrow>
    strat tasks (concat segs) = (concat (map (\<lambda>k. (fs ! k) (segs ! k)) [0..<length segs]), replicate (length tasks) None)"

locale honest_device =
  fixes dev :: "'d sls_device" and holds :: "'d \<Rightarrow> nat \<Rightarrow> bool \<Rightarrow> u32 list list list \<Rightarrow> bool"
    and accepts :: "nat \<Rightarrow> nat list \<Rightarrow> bool"
  assumes run_plain: "holds d cols False tables \<Longrightarrow> tables_wf cols tables \<Longrightarrow> length lens = mb * length tables \<Longrightarrow>
      sum_list lens \<le> length inds \<Longrightarrow> segs_ok (per_table mb tables (segments lens inds)) \<Longrightarrow> length ps = mb * length tables * cols \<Longrightarrow>
      accepts mb lens \<Longrightarrow>
      \<exists>d'. dev_run dev d mb lens inds ps = Inr (d', cell_sums (+) cols (per_table mb tables (segments lens inds))) \<and>
        holds d' cols False tables"
    and run_tagged: "holds d cols True tables \<Longrightarrow> tables_wf (cols + 4) tables \<Longrightarrow> length lens = mb * length tables \<Longrightarrow>
      sum_list lens \<le> length inds \<Longrightarrow> segs_ok (per_table mb tables (segments lens inds)) \<Longrightarrow> length ps = mb * length tables * (cols + 4) \<Longrightarrow>
      accepts mb lens \<Longrightarrow>
      \<exists>d'. dev_run dev d mb lens inds ps = Inr (d', cell_sums (+) cols (per_table mb tables (segments lens inds)) @
        cell_tags cols (per_table mb tables (segments lens inds))) \<and> holds d' cols True tables"

lemma length_pad_rows: "triples_ok p rows \<Longrightarrow> length (concat (map (snd \<circ> snd) rows)) = epsum_width p * length rows"
  by (induction rows) (auto simp: triples_ok_def)

lemma length_tag_area [simp]: "length (tag_area rows) = TAG_SIZE * length rows"
  by (induction rows) (auto simp: TAG_SIZE_def)

lemma data_rows_cut:
  assumes "0 < lp_cols p" "triples_ok p rows"
  shows "rowwise_rows (concat (map fst rows) @ post) (cut_rows p (length rows)) = Inr (map fst rows)"
  using rowwise_rows_prefix [of "lp_cols p" "map fst rows" post] assms by (auto simp: cut_rows_def triples_ok_def split_def)

lemma ex_decrypt_plain:
  assumes "executor_for ex p ts" "\<not> lp_tag p" "0 < lp_cols p" "triples_ok p rows" "length rows = mb * length ts"
    "epsum ex = concat (map (snd \<circ> snd) rows)"
  shows "ex_decrypt ex mb (concat (map fst rows)) checks = Inr \<lparr>ds_psums = dec_rows p rows, ds_checks = [], ds_ok = True\<rparr>"
proof -
  have e: "sparse_feature_size ex = lp_cols p" "with_tag ex = lp_tag p" "postprocessor ex = Some (post_of p ts)" "num_tables ex = length ts"
    using assms(1) by (simp_all add: executor_for_def)
  have v: "make_rowwise_view 0 (mb * length ts * lp_cols p) (lp_cols p) 0 0 = cut_rows p (length rows)"
    "make_rowwise_view 0 (length (epsum ex)) (epsum_width p) 0 (TAG_SIZE * of_bool (lp_tag p)) = epsum_view p 0 (length rows)"
    "no_rows = ctags_view p (length rows)" "no_rows = etags_view p 0 (length rows)"
    using assms(2,5,6) length_pad_rows [OF assms(4)] by (simp_all add: cut_rows_def epsum_view_def ctags_view_def etags_view_def)
  have "ex_decrypt ex mb (concat (map fst rows)) checks =
    decrypt_psum_impl (post_of p ts) (cut_rows p (length rows)) (epsum ex) (epsum_view p 0 (length rows)) (ctags_view p (length rows))
      (etags_view p 0 (length rows)) (concat (map fst rows)) []"
    unfolding ex_decrypt_def v(3,4) [symmetric] v(1,2) [symmetric]
    using assms(2) by (simp add: e augmented_row_size_def epsum_width_def Let_def)
  also have "\<dots> = Inr \<lparr>ds_psums = dec_rows p rows, ds_checks = [], ds_ok = True\<rparr>"
    using data_rows_cut [OF assms(3,4), of "[]"] decrypt_rows_plain [OF assms(3,2,4), of "length rows" 0 "[]" "[]" ts "[]" "[]" "[]" True]
    by (simp add: decrypt_psum_impl_def assms(6))
  finally show ?thesis .
qed

lemma ex_decrypt_tagged:
  assumes "executor_for ex p ts" "lp_tag p" "0 < lp_cols p" "triples_ok p rows" "length rows = mb * length ts"
    "epsum ex = concat (map (snd \<circ> snd) rows)" "length checks = length rows"
  shows "ex_decrypt ex mb (concat (map fst rows) @ tag_area rows) checks =
    Inr \<lparr>ds_psums = dec_rows p rows @ tag_area rows, ds_checks = map of_bool (valid_rows p rows), ds_ok = (False \<notin> set (valid_rows p rows))\<rparr>"
proof -
  have e: "sparse_feature_size ex = lp_cols p" "with_tag ex = lp_tag p" "postprocessor ex = Some (post_of p ts)" "num_tables ex = length ts"
    using assms(1) by (simp_all add: executor_for_def)
  have v: "make_rowwise_view 0 (mb * length ts * lp_cols p) (lp_cols p) 0 0 = cut_rows p (length rows)"
    "make_rowwise_view 0 (length (epsum ex)) (epsum_width p) 0 (TAG_SIZE * of_bool (lp_tag p)) = epsum_view p 0 (length rows)"
    "make_rowwise_view (mb * length ts * lp_cols p) (length (concat (map fst rows) @ tag_area rows)) TAG_SIZE 0 0 = ctags_view p (length rows)"
    "make_rowwise_view 0 (length (epsum ex)) (epsum_width p) (lp_cols p) 0 = etags_view p 0 (length rows)"
    using assms(2,5,6) length_pad_rows [OF assms(4)] length_data_rows [OF assms(4)]
    by (simp_all add: cut_rows_def epsum_view_def ctags_view_def etags_view_def mult.commute)
  have "ex_decrypt ex mb (concat (map fst rows) @ tag_area rows) checks =
    decrypt_psum_impl (post_of p ts) (cut_rows p (length rows)) (epsum ex) (epsum_view p 0 (length rows)) (ctags_view p (length rows))
      (etags_view p 0 (length rows)) (concat (map fst rows) @ tag_area rows) checks"
    unfolding ex_decrypt_def v [symmetric]
    using assms(2) by (simp add: e augmented_row_size_def epsum_width_def Let_def)
  also have "\<dots> = Inr \<lparr>ds_psums = dec_rows p rows @ tag_area rows, ds_checks = set_checks 0 (valid_rows p rows) checks, ds_ok = (False \<notin> set (valid_rows p rows))\<rparr>"
    using data_rows_cut [OF assms(3,4), of "tag_area rows"] decrypt_rows_tagged [OF assms(3,2,4), of "length rows" 0 checks "[]" "[]" "[]" ts True] assms(7)
    by (simp add: decrypt_psum_impl_def assms(6))
  also have "set_checks 0 (valid_rows p rows) checks = map of_bool (valid_rows p rows)"
    using assms(7) by (simp add: set_checks_def valid_rows_def)
  finally show ?thesis .
qed

lemma copy_rows_at:
  assumes "triples_ok p rows" "length olds = length rows" "\<forall>r \<in> set olds. length r = lp_cols p" "length pre = i * lp_cols p"
  shows "copy_rows (lp_cols p) i (map (\<lambda>(d, ct, e). dec_row p d e) rows) (map of_bool (valid_rows p rows)) (pre @ concat olds) =
    Inr (pre @ concat (delivered p rows olds))"
  using assms
proof (induction rows arbitrary: i pre olds)
  case Nil
  then show ?case by (simp add: delivered_def)
next
  case (Cons r rows)
  obtain d ct e where r: "r = (d, ct, e)" by (cases r)
  obtain old olds' where o: "olds = old # olds'" using Cons.prems(2) by (cases olds) auto
  let ?new = "if row_valid p d ct e then dec_row p d e else old"
  have l: "length d = lp_cols p" "length e = epsum_width p" "triples_ok p rows" "length old = lp_cols p"
    using Cons.prems by (auto simp: triples_ok_def r o)
  have w: "view_write (pre @ old @ concat olds') (make_view (i * lp_cols p) (i * lp_cols p + lp_cols p)) (dec_row p d e) =
    Inr (pre @ dec_row p d e @ concat olds')"
    by (rule view_write_mid) (use Cons.prems(4) l length_dec_row [OF l(1,2)] in simp_all)
  have "copy_rows (lp_cols p) (Suc i) (map (\<lambda>(d, ct, e). dec_row p d e) rows) (map of_bool (valid_rows p rows)) ((pre @ ?new) @ concat olds') =
    Inr ((pre @ ?new) @ concat (delivered p rows olds'))"
    by (rule Cons.IH) (use Cons.prems l length_dec_row [OF l(1,2)] o in simp_all)
  then show ?case using w by (cases "row_valid p d ct e") (simp_all add: r o delivered_def)
qed

lemma make_user_psum_correct:
  assumes "executor_for ex p ts" "0 < lp_cols p" "triples_ok p rows" "length olds = length rows" "\<forall>r \<in> set olds. length r = lp_cols p"
  shows "make_user_psum ex (concat olds) (dec_rows p rows @ post) (map of_bool (valid_rows p rows)) = Inr (concat (delivered p rows olds))"
proof -
  let ?decs = "map (\<lambda>(d, ct, e). dec_row p d e) rows"
  have l: "\<forall>r \<in> set ?decs. length r = lp_cols p" using assms(3) length_dec_row by (fastforce simp: triples_ok_def)
  have "length (concat olds) = length ?decs * lp_cols p" using length_concat_eq [OF assms(5)] assms(4) by (simp add: mult.commute)
  then have "rowwise_rows (dec_rows p rows @ post) (make_rowwise_view 0 (length (concat olds)) (lp_cols p) 0 0) = Inr ?decs"
    using rowwise_rows_prefix [OF assms(2) l, of post] by (simp only: dec_rows_def)
  then show ?thesis
    using copy_rows_at [OF assms(3-5), of "[]" 0] assms(1) by (simp add: make_user_psum_def executor_for_def)
qed

context task_strategy
begin

lemma pads_computed:
  assumes "executor_for ex p ts" "request_ok (lp_cols p) ts mb lss inds" "all_visited lss" "length (epsum ex) = epsum_width p * (mb * length ts)"
  shows "strat (sls_tasks ex (post_of p ts) inds (requests_of 0 0 lss) 0) (epsum ex) =
    (concat (map (\<lambda>((t, st), seg). epsum_row p st seg) (run_cells mb ts (concat lss) inds)), replicate (length ts) None)"
proof -
  have r: "length lss = length ts" using assms(2) by (simp add: request_ok_def)
  obtain segs where s: "epsum ex = concat segs" "length segs = length ts" "\<forall>s \<in> set segs. length s = epsum_width p * mb"
    using chunks_of [of "epsum ex" "length ts" "epsum_width p * mb"] assms(4) by auto
  have "local_tasks (sls_tasks ex (post_of p ts) inds (requests_of 0 0 lss) 0) (map (pads_from p ts inds lss) [0..<length lss]) (epsum_width p * mb)"
    by (rule sls_tasks_local [OF assms(1)]) (use assms(2) in \<open>auto simp: request_ok_def\<close>)
  then have "strat (sls_tasks ex (post_of p ts) inds (requests_of 0 0 lss) 0) (concat segs) =
    (concat (map (\<lambda>k. (map (pads_from p ts inds lss) [0..<length lss] ! k) (segs ! k)) [0..<length segs]), replicate (length ts) None)"
    using strat_local [of _ _ _ segs] s r by simp
  moreover have "map (\<lambda>k. (map (pads_from p ts inds lss) [0..<length lss] ! k) (segs ! k)) [0..<length segs] =
    map (\<lambda>k. pads_from p ts inds lss k (segs ! k)) [0..<length ts]"
    using s(2) r by simp
  ultimately show ?thesis using pads_of_cells [OF assms(2,3) s(2,3)] s(1) by simp
qed

lemma executed:
  assumes "executor_for ex p ts" "request_ok (lp_cols p) ts mb lss inds" "all_visited lss" "length (epsum ex) = epsum_width p * (mb * length ts)"
    "dev_run dev (ex_device ex) mb (concat lss) inds ps = Inr (d, ps')"
  shows "bind_r (reorder_indices ex mb (concat lss)) (\<lambda>requests. execute_sls strat dev ex requests mb (concat lss) inds ps) =
    Inr (ex\<lparr>ex_device := d, epsum := concat (map (\<lambda>((t, st), seg). epsum_row p st seg) (run_cells mb ts (concat lss) inds))\<rparr>, ps')"
proof -
  have r: "length lss = length ts" "\<forall>ls \<in> set lss. length ls = mb" "0 < mb" using assms(2) by (simp_all add: request_ok_def)
  have "reorder_indices ex mb (concat lss) = Inr (requests_of 0 0 lss)"
    using reorder_tables_correct [OF r(2), of "[]" 0 0 0 "[]"] r assms(1)
    by (simp add: reorder_indices_def rw_begin_it_make executor_for_def)
  moreover have "postprocessor ex = Some (post_of p ts)" using assms(1) by (simp add: executor_for_def)
  ultimately show ?thesis
    using pads_computed [OF assms(1-4)] assms(5) by (simp add: execute_sls_def get_all_None)
qed

end

context task_strategy
begin

lemma run_tagged_any_device:
  assumes "executor_for ex p ts" "request_ok (lp_cols p) ts mb lss inds" "all_visited lss" "lp_tag p"
    "dev_run dev (ex_device ex) mb (concat lss) inds (resize (mb * length ts * (lp_cols p + TAG_SIZE)) 0 (cpsum ex)) = Inr (dv, concat (map fst rows) @ tag_area rows)"
    "map (snd \<circ> snd) rows = map (\<lambda>((t, st), seg). epsum_row p st seg) (run_cells mb ts (concat lss) inds)" "triples_ok p rows"
    "length checks = mb * length ts" "length olds = mb * length ts" "\<forall>r \<in> set olds. length r = lp_cols p"
  shows "\<exists>ex'. run_sls strat dev ex mb (concat lss) inds (concat olds) checks =
    Inr \<lparr>ro_executor = ex', ro_psum = concat (delivered p rows olds), ro_checks = map of_bool (valid_rows p rows),
         ro_status = (False \<notin> set (valid_rows p rows))\<rparr> \<and> executor_for ex' p ts \<and> ex_device ex' = dv"
proof -
  let ?n = "mb * length ts * (lp_cols p + TAG_SIZE)"
  define exa where "exa = ex\<lparr>cpsum := resize ?n 0 (cpsum ex), epsum := resize ?n 0 (epsum ex)\<rparr>"
  let ?ep = "concat (map (\<lambda>((t, st), seg). epsum_row p st seg) (run_cells mb ts (concat lss) inds))"
  have x: "executor_for exa p ts" "ex_device exa = ex_device ex" "with_tag ex" "num_tables ex = length ts" "sparse_feature_size ex = lp_cols p"
    using assms(1,4) by (simp_all add: exa_def executor_for_def)
  have c: "0 < lp_cols p" "length (concat lss) = mb * length ts"
    using assms(2) length_concat_eq [of lss mb] by (auto simp: request_ok_def)
  have l: "length rows = mb * length ts" using arg_cong [OF assms(6), of length] length_run_cells [OF c(2)] by simp
  have e: "bind_r (reorder_indices exa mb (concat lss)) (\<lambda>requests. execute_sls strat dev exa requests mb (concat lss) inds (resize ?n 0 (cpsum ex))) =
    Inr (exa\<lparr>ex_device := dv, epsum := ?ep\<rparr>, concat (map fst rows) @ tag_area rows)"
    by (rule executed [OF x(1) assms(2,3)]) (use assms(4,5) x(2) in \<open>simp_all add: exa_def epsum_width_def algebra_simps\<close>)
  have x2: "executor_for (exa\<lparr>ex_device := dv, epsum := ?ep\<rparr>) p ts" using x(1) by (simp add: executor_for_def)
  have d: "ex_decrypt (exa\<lparr>ex_device := dv, epsum := ?ep\<rparr>) mb (concat (map fst rows) @ tag_area rows) checks =
    Inr \<lparr>ds_psums = dec_rows p rows @ tag_area rows, ds_checks = map of_bool (valid_rows p rows), ds_ok = (False \<notin> set (valid_rows p rows))\<rparr>"
    by (rule ex_decrypt_tagged [OF x2 assms(4) c(1) assms(7)]) (use l assms(6,8) in simp_all)
  have m: "make_user_psum (exa\<lparr>ex_device := dv, epsum := ?ep\<rparr>) (concat olds) (dec_rows p rows @ tag_area rows) (map of_bool (valid_rows p rows)) =
    Inr (concat (delivered p rows olds))"
    by (rule make_user_psum_correct [OF x2 c(1) assms(7) _ assms(10)]) (use l assms(9) in simp)
  have t: "with_tag (exa\<lparr>ex_device := dv, epsum := ?ep\<rparr>)" using x(3) by (simp add: exa_def)
  have "run_sls strat dev ex mb (concat lss) inds (concat olds) checks =
    bind_r (bind_r (reorder_indices exa mb (concat lss)) (\<lambda>requests. execute_sls strat dev exa requests mb (concat lss) inds (resize ?n 0 (cpsum ex))))
      (\<lambda>(ex, augmented_psum). if with_tag ex then
        bind_r (ex_decrypt ex mb augmented_psum checks) (\<lambda>ds.
        bind_r (make_user_psum ex (concat olds) (ds_psums ds) (ds_checks ds)) (\<lambda>psum.
          Inr \<lparr>ro_executor = ex\<lparr>cpsum := ds_psums ds\<rparr>, ro_psum = psum, ro_checks = ds_checks ds, ro_status = ds_ok ds\<rparr>))
      else bind_r (ex_decrypt ex mb augmented_psum []) (\<lambda>ds.
          Inr \<lparr>ro_executor = ex, ro_psum = ds_psums ds, ro_checks = checks, ro_status = ds_ok ds\<rparr>))"
    unfolding run_sls_def Let_def exa_def
    by (cases "reorder_indices exa mb (concat lss)") (simp_all add: x exa_def)
  also have "\<dots> = Inr \<lparr>ro_executor = exa\<lparr>ex_device := dv, epsum := ?ep, cpsum := dec_rows p rows @ tag_area rows\<rparr>, ro_psum = concat (delivered p rows olds),
      ro_checks = map of_bool (valid_rows p rows), ro_status = (False \<notin> set (valid_rows p rows))\<rparr>"
    unfolding e bind_r_simps prod.case using t by (simp add: d m)
  finally show ?thesis using x2 x(2) by (auto simp: executor_for_def)
qed

lemma run_plain_any_device:
  assumes "executor_for ex p ts" "request_ok (lp_cols p) ts mb lss inds" "all_visited lss" "\<not> lp_tag p"
    "dev_run dev (ex_device ex) mb (concat lss) inds ps = Inr (dv, concat (map fst rows))"
    "map (snd \<circ> snd) rows = map (\<lambda>((t, st), seg). epsum_row p st seg) (run_cells mb ts (concat lss) inds)" "triples_ok p rows"
    "length ps = mb * length ts * lp_cols p"
  shows "\<exists>ex'. run_sls strat dev ex mb (concat lss) inds ps checks =
    Inr \<lparr>ro_executor = ex', ro_psum = dec_rows p rows, ro_checks = checks, ro_status = True\<rparr> \<and> executor_for ex' p ts \<and> ex_device ex' = dv"
proof -
  define exa where "exa = ex\<lparr>epsum := resize (length ps) 0 (epsum ex)\<rparr>"
  let ?ep = "concat (map (\<lambda>((t, st), seg). epsum_row p st seg) (run_cells mb ts (concat lss) inds))"
  have x: "executor_for exa p ts" "ex_device exa = ex_device ex" "\<not> with_tag ex" "num_tables ex = length ts" "sparse_feature_size ex = lp_cols p"
    using assms(1,4) by (simp_all add: exa_def executor_for_def)
  have c: "0 < lp_cols p" "length (concat lss) = mb * length ts"
    using assms(2) length_concat_eq [of lss mb] by (auto simp: request_ok_def)
  have l: "length rows = mb * length ts" using arg_cong [OF assms(6), of length] length_run_cells [OF c(2)] by simp
  have e: "bind_r (reorder_indices exa mb (concat lss)) (\<lambda>requests. execute_sls strat dev exa requests mb (concat lss) inds ps) =
    Inr (exa\<lparr>ex_device := dv, epsum := ?ep\<rparr>, concat (map fst rows))"
    by (rule executed [OF x(1) assms(2,3)]) (use assms(4,5,8) x(2) in \<open>simp_all add: exa_def epsum_width_def algebra_simps\<close>)
  have x2: "executor_for (exa\<lparr>ex_device := dv, epsum := ?ep\<rparr>) p ts" using x(1) by (simp add: executor_for_def)
  have d: "ex_decrypt (exa\<lparr>ex_device := dv, epsum := ?ep\<rparr>) mb (concat (map fst rows)) [] = Inr \<lparr>ds_psums = dec_rows p rows, ds_checks = [], ds_ok = True\<rparr>"
    by (rule ex_decrypt_plain [OF x2 assms(4) c(1) assms(7)]) (use l assms(6) in simp_all)
  have t: "\<not> with_tag (exa\<lparr>ex_device := dv, epsum := ?ep\<rparr>)" using x(3) by (simp add: exa_def)
  have "run_sls strat dev ex mb (concat lss) inds ps checks =
    bind_r (bind_r (reorder_indices exa mb (concat lss)) (\<lambda>requests. execute_sls strat dev exa requests mb (concat lss) inds ps))
      (\<lambda>(ex, augmented_psum). if with_tag ex then
        bind_r (ex_decrypt ex mb augmented_psum checks) (\<lambda>ds.
        bind_r (make_user_psum ex ps (ds_psums ds) (ds_checks ds)) (\<lambda>psum.
          Inr \<lparr>ro_executor = ex\<lparr>cpsum := ds_psums ds\<rparr>, ro_psum = psum, ro_checks = ds_checks ds, ro_status = ds_ok ds\<rparr>))
      else bind_r (ex_decrypt ex mb augmented_psum []) (\<lambda>ds.
          Inr \<lparr>ro_executor = ex, ro_psum = ds_psums ds, ro_checks = checks, ro_status = ds_ok ds\<rparr>))"
    unfolding run_sls_def Let_def exa_def
    by (cases "reorder_indices exa mb (concat lss)") (simp_all add: x exa_def)
  also have "\<dots> = Inr \<lparr>ro_executor = exa\<lparr>ex_device := dv, epsum := ?ep\<rparr>, ro_psum = dec_rows p rows, ro_checks = checks, ro_status = True\<rparr>"
    unfolding e bind_r_simps prod.case using t by (simp add: d)
  finally show ?thesis using x2 x(2) by auto
qed

end

lemma length_sealed_row:
  assumes "length r = lp_cols p" "lp_cols p mod OTP_SIZE = 0"
  shows "length (sealed_row p k r) = row_words p"
  using assms length_row_pads [OF assms(2)]
  by (cases "lp_writer p") (simp_all add: sealed_row_def row_words_def meta_words_def meta_size_def)

lemma sealed_rows_wf: "\<forall>r \<in> set t. length r = lp_cols p \<Longrightarrow> lp_cols p mod OTP_SIZE = 0 \<Longrightarrow> r \<in> set (sealed_rows p k t) \<Longrightarrow> length r = row_words p"
  by (induction t arbitrary: k) (auto simp: length_sealed_row)

lemma sealed_tables_wf: "tables_wf (lp_cols p) ts \<Longrightarrow> lp_cols p mod OTP_SIZE = 0 \<Longrightarrow> tables_wf (row_words p) (sealed_tables p k ts)"
  by (induction ts arbitrary: k) (auto simp: tables_wf_def sealed_rows_wf)

lemma length_sealed_tables [simp]: "length (sealed_tables p k ts) = length ts" "map length (sealed_tables p k ts) = map length ts"
  by (induction ts arbitrary: k) simp_all

lemma sealed_segs_ok:
  "segs_ok (per_table mb (sealed_tables p 0 ts) (segments lens inds)) = segs_ok (per_table mb ts (segments lens inds))"
  unfolding cells_sealed by (simp add: segs_ok_def cells_tables split_def)

locale secure_run = task_strategy strat + honest_device dev holds accepts
  for strat :: strategy and dev :: "'d sls_device" and holds :: "'d \<Rightarrow> nat \<Rightarrow> bool \<Rightarrow> u32 list list list \<Rightarrow> bool"
    and accepts :: "nat \<Rightarrow> nat list \<Rightarrow> bool"
begin

lemma request_facts:
  assumes "request_ok (lp_cols p) ts mb lss inds"
  shows "lp_cols p mod OTP_SIZE = 0" "\<forall>c \<in> set (run_cells mb ts (concat lss) inds). cell_ok (lp_cols p) c"
    "length (concat lss) = mb * length (sealed_tables p 0 ts)" "sum_list (concat lss) \<le> length inds"
    "segs_ok (per_table mb (sealed_tables p 0 ts) (segments (concat lss) inds))" "tables_wf (row_words p) (sealed_tables p 0 ts)"
  using assms length_concat_eq [of lss mb] run_cells_ok [of "lp_cols p" ts mb "concat lss" inds] sealed_tables_wf [of p ts 0]
  by (auto simp: request_ok_def sealed_segs_ok)

lemma decrypts_to_plain_sums:
  assumes "executor_for ex p ts" "request_ok (lp_cols p) ts mb lss inds" "all_visited lss" "\<not> lp_tag p"
    "holds (ex_device ex) (lp_cols p) False (sealed_tables p 0 ts)" "length ps = mb * length ts * lp_cols p" "accepts mb (concat lss)"
  shows "\<exists>ex'. run_sls strat dev ex mb (concat lss) inds ps checks =
    Inr \<lparr>ro_executor = ex', ro_psum = cell_sums (+) (lp_cols p) (per_table mb ts (segments (concat lss) inds)),
         ro_checks = checks, ro_status = True\<rparr> \<and> executor_for ex' p ts \<and> holds (ex_device ex') (lp_cols p) False (sealed_tables p 0 ts)"
proof -
  let ?cells = "run_cells mb ts (concat lss) inds"
  let ?rows = "map (cell_triple p) ?cells"
  note f = request_facts [OF assms(2)]
  have "\<exists>d'. dev_run dev (ex_device ex) mb (concat lss) inds ps =
      Inr (d', cell_sums (+) (lp_cols p) (per_table mb (sealed_tables p 0 ts) (segments (concat lss) inds))) \<and> holds d' (lp_cols p) False (sealed_tables p 0 ts)"
    by (rule run_plain [OF assms(5)]) (use f assms(4,6,7) in \<open>simp_all add: row_words_def\<close>)
  then obtain d' where d: "dev_run dev (ex_device ex) mb (concat lss) inds ps = Inr (d', concat (map fst ?rows))"
    and h: "holds d' (lp_cols p) False (sealed_tables p 0 ts)"
    by (metis cell_triple_sums(1) cells_sealed)
  have s: "map (snd \<circ> snd) ?rows = map (\<lambda>((t, st), seg). epsum_row p st seg) ?cells" by (auto simp: cell_triple_def)
  show ?thesis
    using run_plain_any_device [OF assms(1-4) d s triples_of_cells [OF f(1,2)] assms(6), of checks] h
    unfolding dec_rows_cells [OF f(1,2)] cells_tables by blast
qed

lemma delivers_verified_sums:
  assumes "executor_for ex p ts" "request_ok (lp_cols p) ts mb lss inds" "all_visited lss" "lp_tag p" "lp_writer p = TrivialMemoryWriter"
    "holds (ex_device ex) (lp_cols p) True (sealed_tables p 0 ts)" "length ps = mb * length ts * lp_cols p"
    "columns_ok (lp_cols p) ts mb (concat lss) inds" "length checks = mb * length ts" "accepts mb (concat lss)"
  shows "\<exists>ex'. run_sls strat dev ex mb (concat lss) inds ps checks =
    Inr \<lparr>ro_executor = ex', ro_psum = cell_sums (+) (lp_cols p) (per_table mb ts (segments (concat lss) inds)),
         ro_checks = replicate (mb * length ts) 1, ro_status = True\<rparr> \<and> executor_for ex' p ts \<and> holds (ex_device ex') (lp_cols p) True (sealed_tables p 0 ts)"
proof -
  let ?cells = "run_cells mb ts (concat lss) inds"
  let ?rows = "map (cell_triple p) ?cells"
  let ?ps = "resize (mb * length ts * (lp_cols p + TAG_SIZE)) 0 (cpsum ex)"
  note f = request_facts [OF assms(2)]
  have c: "\<forall>c \<in> set ?cells. cell_ok (lp_cols p) c \<and> cell_fits (lp_cols p) c"
    using f(2) assms(8) by (auto simp: columns_ok_def cells_tables cell_fits_def)
  have w: "row_words p = lp_cols p + 4" using assms(4,5) by (simp add: row_words_def meta_words_def meta_size_def)
  have "\<exists>d'. dev_run dev (ex_device ex) mb (concat lss) inds ?ps = Inr (d', cell_sums (+) (lp_cols p) (per_table mb (sealed_tables p 0 ts) (segments (concat lss) inds)) @
      cell_tags (lp_cols p) (per_table mb (sealed_tables p 0 ts) (segments (concat lss) inds))) \<and> holds d' (lp_cols p) True (sealed_tables p 0 ts)"
    by (rule run_tagged [OF assms(6)]) (use f w assms(10) in \<open>simp_all add: TAG_SIZE_def\<close>)
  then obtain d' where d: "dev_run dev (ex_device ex) mb (concat lss) inds ?ps = Inr (d', concat (map fst ?rows) @ tag_area ?rows)"
    and h: "holds d' (lp_cols p) True (sealed_tables p 0 ts)"
    by (metis cell_triple_sums(1,2) cells_sealed)
  have s: "map (snd \<circ> snd) ?rows = map (\<lambda>((t, st), seg). epsum_row p st seg) ?cells" by (auto simp: cell_triple_def)
  obtain olds where o: "ps = concat olds" "length olds = mb * length ts" "\<forall>r \<in> set olds. length r = lp_cols p"
    using chunks_of [OF assms(7)] by blast
  have lc: "length ?cells = mb * length ts" using length_run_cells f(3) by simp
  have v: "valid_rows p ?rows = replicate (length ?cells) True" by (rule valid_rows_cells [OF f(1) c assms(4,5)])
  have "delivered p ?rows olds = map (\<lambda>(d, ct, e). dec_row p d e) ?rows"
  proof (rule nth_equalityI)
    fix i assume i: "i < length (delivered p ?rows olds)"
    then have "valid_rows p ?rows ! i" using v by (simp add: delivered_def)
    then show "delivered p ?rows olds ! i = map (\<lambda>(d, ct, e). dec_row p d e) ?rows ! i"
      using i by (auto simp: delivered_def valid_rows_def split: prod.splits)
  qed (simp add: delivered_def o(2) lc)
  then have "concat (delivered p ?rows olds) = dec_rows p ?rows" by (simp only: dec_rows_def)
  then show ?thesis
    using run_tagged_any_device [OF assms(1-4) d s triples_of_cells [OF f(1,2)] assms(9) o(2,3)] h
    unfolding v dec_rows_cells [OF f(1,2)] cells_tables o(1) [symmetric] lc by (simp add: lc) blast
qed

end

interpretation sync: task_strategy sync_run
  by unfold_locales (rule sync_run_local)

interpretation sync_cpu: secure_run sync_run trivial_cpu cpu_holds "\<lambda>_ _. True"
proof unfold_locales
  show "\<exists>d'. dev_run trivial_cpu d mb lens inds ps = Inr (d', cell_sums (+) cols (per_table mb tables (segments lens inds))) \<and> cpu_holds d' cols False tables"
    if "cpu_holds d cols False tables" "tables_wf cols tables" "length lens = mb * length tables" "sum_list lens \<le> length inds"
      "segs_ok (per_table mb tables (segments lens inds))" "length ps = mb * length tables * cols" for d cols tables lens mb inds ps
    using that cpu_compute_correct [of cols tables lens mb inds ps "(+)"]
    by (simp add: trivial_cpu_def TrivialCPU_run_def TrivialCPU_run_sls_def cpu_holds_def)
  show "\<exists>d'. dev_run trivial_cpu d mb lens inds ps = Inr (d', cell_sums (+) cols (per_table mb tables (segments lens inds)) @
      cell_tags cols (per_table mb tables (segments lens inds))) \<and> cpu_holds d' cols True tables"
    if "cpu_holds d cols True tables" "tables_wf (cols + 4) tables" "length lens = mb * length tables" "sum_list lens \<le> length inds"
      "segs_ok (per_table mb tables (segments lens inds))" "length ps = mb * length tables * (cols + 4)" for d cols tables lens mb inds ps
    using that cpu_compute_with_tag_correct [of cols tables lens mb inds ps "(+)"]
    by (simp add: trivial_cpu_def TrivialCPU_run_def TrivialCPU_run_sls_with_tag_def cpu_holds_def)
qed

section \<open>Loading through the executor\<close>

lemma executor_loaded:
  fixes tagged :: bool
  assumes "engines_made env ee ve" "tables_wf cols ts" "cols mod OTP_SIZE = 0" "0 < cols" "cols \<le> 2048"
    "src = concat (map concat ts) @ rest"
  defines "p \<equiv> seal_params env TrivialMemoryWriter tagged cols src ee ve"
  shows "\<exists>ex. load_tables env trivial_cpu src (map length ts) cols tagged (executor_make (TrivialCPU_init (map length ts) cols tagged TrivialCPU_default)) =
    Some (Inr ex) \<and> executor_for ex p ts \<and> cpu_holds (ex_device ex) cols tagged (sealed_tables p 0 ts)"
  using load_tables_correct [OF assms(1-6), where dev = trivial_cpu and tagged = tagged and ex = "executor_make (TrivialCPU_init (map length ts) cols tagged TrivialCPU_default)"]
  by (simp add: trivial_cpu_def TrivialCPU_load_def p_def executor_for_def executor_make_def cpu_holds_def TrivialCPU_init_def TrivialCPU_default_def)

lemma load_returns:
  assumes "0 < cols" "engines_made env ee ve"
  shows "load_tables env dev src entries cols tagged ex = None \<longleftrightarrow> 2048 < cols \<and> (\<exists>n \<in> set entries. 0 < n)"
proof -
  let ?p = "seal_params env (dev_writer dev) tagged cols src ee ve"
  let ?out = "replicate (encrypted_buffer_size (dev_writer dev) entries cols tagged div 4) (0 :: u32)"
  let ?st = "\<lparr>reader_pos = 0, out_buf = ?out, out_pos = 0, slice_offset = 0\<rparr>"
  have e: "CommonCryptoEngine_make (env_expand env) (create_table_version (env_hash env)) (env_key_e env) = Inr ee"
    "VerificationEngine_make (env_expand env) (env_out env) (create_table_version (env_hash env)) (env_key_v env) = Inr ve"
    using assms(2) by (simp_all add: engines_made_def)
  have "load_tables env dev src entries cols tagged ex = None \<longleftrightarrow> load_all_tables ?p entries ?st = None"
    using assms(1) unfolding load_tables_def load_impl_def e Let_def seal_params_def [symmetric]
    by (auto split: option.split sum.split)
  moreover have "load_all_tables ?p entries ?st \<noteq> None" if "cols \<le> 2048"
    by (rule load_all_tables_returns) (use that rows_per_batch_pos [OF assms(1)] in simp)
  moreover have "load_all_tables ?p entries ?st = None" if "2048 < cols" "\<exists>n \<in> set entries. 0 < n"
    by (rule load_all_tables_diverges) (use that rows_per_batch_pos [OF assms(1)] in auto)
  moreover have "load_all_tables ?p entries ?st \<noteq> None" if "\<not> (\<exists>n \<in> set entries. 0 < n)"
    by (rule load_all_tables_zero) (use that in auto)
  ultimately show ?thesis by (meson not_less)
qed

section \<open>Properties\<close>

text \<open>
  C8: secure sparse-lengths-sum on the host device, without tags: tables are encrypted when they are
  loaded, the device sums encrypted rows, and the decrypted result is what the host reference
  computes on the plain tables, for every key expansion that works (the one of this release throws) and every
  cipher instruction. Rows have at most 2048 entries, and no table has empty lookups at the end of its batch.
\<close>
theorem secure_run_equals_plain:
  assumes "engines_made env ee ve" "request_ok cols ts mb lss inds" "all_visited lss" "cols \<le> 2048" "length ps = mb * length ts * cols"
  shows "\<exists>ex ex' sums. load_tables env trivial_cpu (concat (map concat ts)) (map length ts) cols False
      (executor_make (TrivialCPU_init (map length ts) cols False TrivialCPU_default)) = Some (Inr ex) \<and>
    run_sls sync_run trivial_cpu ex mb (concat lss) inds ps checks =
      Inr \<lparr>ro_executor = ex', ro_psum = sums, ro_checks = checks, ro_status = True\<rparr> \<and>
    cpu_compute (+) (concat (map concat ts)) (map length ts) inds (concat lss) cols mb ps = Inr sums"
proof -
  have r: "tables_wf cols ts" "cols mod OTP_SIZE = 0" "0 < cols" using assms(2) by (simp_all add: request_ok_def)
  let ?p = "seal_params env TrivialMemoryWriter False cols (concat (map concat ts)) ee ve"
  obtain ex where ex: "load_tables env trivial_cpu (concat (map concat ts)) (map length ts) cols False
      (executor_make (TrivialCPU_init (map length ts) cols False TrivialCPU_default)) = Some (Inr ex)"
    "executor_for ex ?p ts" "cpu_holds (ex_device ex) cols False (sealed_tables ?p 0 ts)"
    using executor_loaded [OF assms(1) r assms(4), of _ "[]" False] by auto
  have "cpu_compute (+) (concat (map concat ts)) (map length ts) inds (concat lss) cols mb ps =
    Inr (cell_sums (+) cols (per_table mb ts (segments (concat lss) inds)))"
    using cpu_compute_correct [of cols ts "concat lss" mb inds ps "(+)"] assms(2,5) length_concat_eq [of lss mb] by (simp add: request_ok_def)
  then show ?thesis
    using sync_cpu.decrypts_to_plain_sums [OF ex(2) _ assms(3), of mb inds ps checks] assms(2,5) ex by auto
qed

text \<open>
  C5: with tags the same run, under the same conditions, delivers the plain sums with every check set and reports
  success, provided no column sum of the rows of a batch leaves 32 bits.
\<close>
theorem secure_run_verifies:
  assumes "engines_made env ee ve" "request_ok cols ts mb lss inds" "all_visited lss" "cols \<le> 2048" "length ps = mb * length ts * cols"
    "columns_ok cols ts mb (concat lss) inds" "length checks = mb * length ts"
  shows "\<exists>ex ex' sums. load_tables env trivial_cpu (concat (map concat ts)) (map length ts) cols True
      (executor_make (TrivialCPU_init (map length ts) cols True TrivialCPU_default)) = Some (Inr ex) \<and>
    run_sls sync_run trivial_cpu ex mb (concat lss) inds ps checks =
      Inr \<lparr>ro_executor = ex', ro_psum = sums, ro_checks = replicate (mb * length ts) 1, ro_status = True\<rparr> \<and>
    cpu_compute (+) (concat (map concat ts)) (map length ts) inds (concat lss) cols mb ps = Inr sums"
proof -
  have r: "tables_wf cols ts" "cols mod OTP_SIZE = 0" "0 < cols" using assms(2) by (simp_all add: request_ok_def)
  let ?p = "seal_params env TrivialMemoryWriter True cols (concat (map concat ts)) ee ve"
  obtain ex where ex: "load_tables env trivial_cpu (concat (map concat ts)) (map length ts) cols True
      (executor_make (TrivialCPU_init (map length ts) cols True TrivialCPU_default)) = Some (Inr ex)"
    "executor_for ex ?p ts" "cpu_holds (ex_device ex) cols True (sealed_tables ?p 0 ts)"
    using executor_loaded [OF assms(1) r assms(4), of _ "[]" True] by auto
  have "cpu_compute (+) (concat (map concat ts)) (map length ts) inds (concat lss) cols mb ps =
    Inr (cell_sums (+) cols (per_table mb ts (segments (concat lss) inds)))"
    using cpu_compute_correct [of cols ts "concat lss" mb inds ps "(+)"] assms(2,5) length_concat_eq [of lss mb] by (simp add: request_ok_def)
  then show ?thesis
    using sync_cpu.delivers_verified_sums [OF ex(2) _ assms(3), of mb inds ps checks] assms(2,5-7) ex by auto
qed

text \<open>
  C9: whatever a device returns for the sums and the tags, a row reaches the user's buffer only if
  the checksum of its decryption is the sum of the device's tag and the tag pads of its indices;
  the other rows of the buffer keep their contents, and the run reports success exactly when all
  rows were delivered.
\<close>
theorem unverified_rows_are_not_delivered:
  assumes "executor_for ex p ts" "request_ok (lp_cols p) ts mb lss inds" "all_visited lss" "lp_tag p"
    "dev_run dev (ex_device ex) mb (concat lss) inds (resize (mb * length ts * (lp_cols p + TAG_SIZE)) 0 (cpsum ex)) =
      Inr (dv, concat (map fst rows) @ tag_area rows)"
    "map (snd \<circ> snd) rows = map (\<lambda>((t, st), seg). epsum_row p st seg) (run_cells mb ts (concat lss) inds)" "triples_ok p rows"
    "length checks = mb * length ts" "length olds = mb * length ts" "\<forall>r \<in> set olds. length r = lp_cols p"
  shows "\<exists>ex'. run_sls sync_run dev ex mb (concat lss) inds (concat olds) checks =
    Inr \<lparr>ro_executor = ex',
         ro_psum = concat (map2 (\<lambda>(d, ct, e) old. if row_valid p d ct e then dec_row p d e else old) rows olds),
         ro_checks = map (\<lambda>(d, ct, e). of_bool (row_valid p d ct e)) rows,
         ro_status = (\<forall>(d, ct, e) \<in> set rows. row_valid p d ct e)\<rparr>"
proof -
  have "False \<notin> set (valid_rows p rows) \<longleftrightarrow> (\<forall>(d, ct, e) \<in> set rows. row_valid p d ct e)"
    by (fastforce simp: valid_rows_def)
  then show ?thesis
    using sync.run_tagged_any_device [OF assms] by (auto simp: delivered_def valid_rows_def comp_def split_def)
qed

text \<open>
  With the key expansions of this release loading tables with columns fails with \<open>NotSupported\<close>, since
  they throw. The properties of loading and running are about
  key expansions that work.
\<close>
theorem release_cannot_load:
  assumes "0 < cols" "env_expand env = release_expansion"
  shows "load_tables env dev src entries cols tagged ex = Some (Inl (Throw NotSupported))"
  using assms by (simp add: load_tables_def load_impl_def CommonCryptoEngine_make_def AES_NI_Backend_make_def
      release_expansion_def AES_128_Key_Expansion_def)

text \<open>
  C15: with a key expansion that works, loading does not return exactly when a row has more than 2048
  entries and some table is not empty: then the buffer holds no whole row and the loop makes no
  progress.
\<close>
theorem load_tables_returns_iff:
  assumes "0 < cols" "engines_made env ee ve"
  shows "(\<exists>r. load_tables env dev src entries cols tagged ex = Some r) \<longleftrightarrow> cols \<le> 2048 \<or> (\<forall>n \<in> set entries. n = 0)"
  using load_returns [OF assms, of dev src entries tagged ex] by auto

section \<open>Witnesses\<close>

lemma demo_engines: "engines_made demo_env demo_crypto demo_verification"
  by (simp add: engines_made_def demo_env_def demo_crypto_def demo_verification_def CommonCryptoEngine_make_def VerificationEngine_make_def
      AES_NI_Backend_make_def aes_rounds_count_def map_replicate_const)

lemma demo_request: "request_ok 4 [[[1, 2, 3, 4], [5, 6, 7, 8]]] 1 [[2]] [0, 1]" "all_visited [[2]]"
  by (simp_all add: request_ok_def tables_wf_def segs_ok_def OTP_SIZE_def OTPBytes_def all_visited_def)

lemma demo_lists:
  "concat (map concat [[[1, 2, 3, 4], [5, 6, 7, 8 :: u32]]]) = [1, 2, 3, 4, 5, 6, 7, 8]" "map length [[[1, 2, 3, 4], [5, 6, 7, 8 :: u32]]] = [2]"
  "concat [[2]] = [2]" "1 * length [[[1, 2, 3, 4], [5, 6, 7, 8 :: u32]]] = 1" "replicate 1 (1 :: u8) = [1]"
  by simp_all

lemma demo_sizes:
  "4 \<le> (2048 :: nat)" "length [9, 9, 9, 9 :: u32] = 1 * length [[[1, 2, 3, 4], [5, 6, 7, 8 :: u32]]] * 4"
  "length [0 :: u8] = 1 * length [[[1, 2, 3, 4], [5, 6, 7, 8 :: u32]]]"
  by simp_all

lemma demo_sums: "cpu_compute (+) [1, 2, 3, 4, 5, 6, 7, 8] [2] [0, 1] [2] 4 1 [9, 9, 9, 9] = Inr [6, 8, 10, 12]"
  using cpu_compute_correct [of 4 "[[[1, 2, 3, 4], [5, 6, 7, 8]]]" "[2]" 1 "[0, 1]" "[9, 9, 9, 9]" "(+)"]
  by (simp add: tables_wf_def segs_ok_def cell_sums_def sls_sum_def numeral_eq_Suc)

lemma pick_sums: "\<exists>x y s. P x \<and> Q x y s \<and> c = Inr s \<Longrightarrow> c = Inr v \<Longrightarrow> \<exists>x y. P x \<and> Q x y v"
  by auto

theorem secure_run_equals_plain_witness:
  "\<exists>ex ex'. load_tables demo_env trivial_cpu [1, 2, 3, 4, 5, 6, 7, 8] [2] 4 False
      (executor_make (TrivialCPU_init [2] 4 False TrivialCPU_default)) = Some (Inr ex) \<and>
    run_sls sync_run trivial_cpu ex 1 [2] [0, 1] [9, 9, 9, 9] [] =
      Inr \<lparr>ro_executor = ex', ro_psum = [6, 8, 10, 12], ro_checks = [], ro_status = True\<rparr>"
  by (rule pick_sums [OF secure_run_equals_plain [OF demo_engines demo_request demo_sizes(1,2), of "[]", unfolded demo_lists] demo_sums])

theorem secure_run_verifies_witness:
  "\<exists>ex ex'. load_tables demo_env trivial_cpu [1, 2, 3, 4, 5, 6, 7, 8] [2] 4 True
      (executor_make (TrivialCPU_init [2] 4 True TrivialCPU_default)) = Some (Inr ex) \<and>
    run_sls sync_run trivial_cpu ex 1 [2] [0, 1] [9, 9, 9, 9] [0] =
      Inr \<lparr>ro_executor = ex', ro_psum = [6, 8, 10, 12], ro_checks = [1], ro_status = True\<rparr>"
proof -
  have j: "j = 0 \<or> j = 1 \<or> j = 2 \<or> j = 3" if "j < 4" for j :: nat using that by auto
  have c: "columns_ok 4 [[[1, 2, 3, 4], [5, 6, 7, 8]]] 1 (concat [[2]]) [0, 1]"
    by (auto simp: columns_ok_def columns_fit_def dest!: j)
  show ?thesis
    by (rule pick_sums [OF secure_run_verifies [OF demo_engines demo_request demo_sizes(1,2) c demo_sizes(3), unfolded demo_lists] demo_sums])
qed

lemma demo_cells: "run_cells 1 [[[1, 2, 3, 4]]] (concat [[1]]) [0] = [(([[1, 2, 3, 4]], 0), [0])]"
  by (simp add: run_cells_def)

theorem unverified_rows_are_not_delivered_witness:
  "\<exists>ex'. run_sls sync_run zero_device demo_executor 1 [1] [0] [9, 9, 9, 9] [7] =
    Inr \<lparr>ro_executor = ex',
         ro_psum = (if row_valid demo_params [0, 0, 0, 0] 0 (epsum_row demo_params 0 [0])
                    then dec_row demo_params [0, 0, 0, 0] (epsum_row demo_params 0 [0]) else [9, 9, 9, 9]),
         ro_checks = [of_bool (row_valid demo_params [0, 0, 0, 0] 0 (epsum_row demo_params 0 [0]))],
         ro_status = row_valid demo_params [0, 0, 0, 0] 0 (epsum_row demo_params 0 [0])\<rparr>"
proof -
  let ?row = "([0, 0, 0, 0], 0, epsum_row demo_params 0 [0]) :: row_triple"
  have p: "lp_cols demo_params = 4" "lp_tag demo_params" by (simp_all add: demo_params_def)
  have e: "executor_for demo_executor demo_params [[[1, 2, 3, 4]]]" by (simp add: executor_for_def demo_executor_def p)
  have r: "request_ok (lp_cols demo_params) [[[1, 2, 3, 4]]] 1 [[1]] [0]" "all_visited [[1]]"
    by (simp_all add: p request_ok_def tables_wf_def segs_ok_def OTP_SIZE_def OTPBytes_def all_visited_def)
  have d: "dev_run zero_device (ex_device demo_executor) 1 (concat [[1]]) [0] (resize (1 * length [[[1, 2, 3, 4 :: u32]]] * (lp_cols demo_params + TAG_SIZE)) 0 (cpsum demo_executor)) =
    Inr ((), concat (map fst [?row]) @ tag_area [?row])"
    by (simp add: zero_device_def demo_executor_def tag_elems_def numeral_eq_Suc)
  have t: "triples_ok demo_params [?row]" using length_epsum_row [of demo_params 0 "[0]"]
    by (simp add: triples_ok_def p OTP_SIZE_def OTPBytes_def)
  have s: "map (snd \<circ> snd) [?row] = map (\<lambda>((t, st), seg). epsum_row demo_params st seg) (run_cells 1 [[[1, 2, 3, 4]]] (concat [[1]]) [0])"
    by (simp only: demo_cells) simp
  show ?thesis
    using unverified_rows_are_not_delivered [OF e r p(2) d s t, of "[7]" "[[9, 9, 9, 9]]"]
    by (cases "row_valid demo_params [0, 0, 0, 0] 0 (epsum_row demo_params 0 [0])") (simp_all add: demo_cells p)
qed

theorem release_cannot_load_witness:
  "load_tables (demo_env\<lparr>env_expand := release_expansion\<rparr>) trivial_cpu [1, 2, 3, 4] [1] 4 True
    (executor_make TrivialCPU_default) = Some (Inl (Throw NotSupported))"
  using release_cannot_load [of 4 "demo_env\<lparr>env_expand := release_expansion\<rparr>"] by simp

theorem load_tables_returns_iff_witness:
  "load_tables demo_env trivial_cpu [1, 2, 3, 4] [1] 4096 False (executor_make TrivialCPU_default) = None"
  using load_tables_returns_iff [OF _ demo_engines, of 4096 trivial_cpu "[1, 2, 3, 4]" "[1]" False "executor_make TrivialCPU_default"] by simp

end
