(* ===== verification/Thread_Pool.thy ===== *)
theory Thread_Pool
  imports Prelude "HOL-Library.Multiset"
begin

text \<open>
  The worker threads of the library (\<open>common/threads\<close>): the queue of actions with its blocking
  \<open>pop\<close>, the consumers that run actions until the queue is closed and drained, and the producer that
  pushes actions, waits for their futures, and finally closes the queue and joins the workers. The
  mutex of the queue makes the steps on the queue atomic; waiting on the condition variable and
  its notifications are steps of their own. The threads interleave arbitrarily, also inside the
  actions, which run without a lock: an action is a number, its body a list of atomic accesses to the
  memory that the threads share.
\<close>

section \<open>The queue\<close>

record ActionQueue =
  actions :: "nat list"
  is_active :: bool

definition ActionQueue_make :: ActionQueue where
  "ActionQueue_make = \<lparr>actions = [], is_active = True\<rparr>"

definition push :: "nat \<Rightarrow> ActionQueue \<Rightarrow> ActionQueue" where
  "push a q = q\<lparr>actions := actions q @ [a]\<rparr>"

text \<open>The predicate of the wait is false while the queue is empty and active, which is \<^const>\<open>None\<close>; there is
  no action when the queue is closed and empty.\<close>

definition pop :: "ActionQueue \<Rightarrow> (nat option \<times> ActionQueue) option" where
  "pop q =
     (if actions q = [] \<and> is_active q then None
      else if \<not> is_active q \<and> actions q = [] then Some (None, q)
      else Some (Some (hd (actions q)), q\<lparr>actions := tl (actions q)\<rparr>))"

definition close :: "ActionQueue \<Rightarrow> ActionQueue" where
  "close q = q\<lparr>is_active := False\<rparr>"

definition reopen :: "ActionQueue \<Rightarrow> ActionQueue" where
  "reopen q = q\<lparr>is_active := True\<rparr>"

section \<open>Threads\<close>

text \<open>
  A worker is about to test the predicate in \<open>pop\<close>, asleep on the condition variable, inside an action
  after some of its accesses, or after its loop.
\<close>

datatype worker = Waiting | Asleep | Running nat nat | Exited

definition notify_all :: "worker list \<Rightarrow> worker list" where
  "notify_all ws = map (\<lambda>w. if w = Asleep then Waiting else w) ws"

text \<open>
  The calls of the producer: starting an action, waiting for its future, the destructor that closes
  the queue and then, without the lock, notifies the workers, and the joins of the workers.
\<close>

datatype call = Run nat | Get nat | Close | Notify | Join nat

text \<open>
  The body of an action: accesses to the memory, each of which changes it or throws. The memory is all
  that the threads share and the variables of the actions.
\<close>

type_synonym 's body = "('s \<Rightarrow> 's result) list"

text \<open>
  Beside the state of the threads a pool records what has been pushed, begun and finished and which
  accesses there have been: access \<open>k\<close> of action \<open>a\<close> is \<open>(a, k)\<close>. An exception stays with the action, and
  a packaged task keeps it in its future.
\<close>

record 's pool =
  queue :: ActionQueue
  workers :: "worker list"
  calls :: "call list"
  pushed :: "nat list"
  begun :: "nat list"
  finished :: "nat list"
  accesses :: "(nat \<times> nat) list"
  memory :: "'s \<times> (nat \<Rightarrow> fault option)"

text \<open>After an exception the rest of the body is passed over.\<close>

definition access :: "(nat \<Rightarrow> 's body) \<Rightarrow> nat \<times> nat \<Rightarrow> 's \<times> (nat \<Rightarrow> fault option) \<Rightarrow> 's \<times> (nat \<Rightarrow> fault option)" where
  "access act p m =
     (case p of (a, k) \<Rightarrow>
      if snd m a \<noteq> None then m
      else case (act a ! k) (fst m) of Inl f \<Rightarrow> (fst m, (snd m)(a := Some f)) | Inr x \<Rightarrow> (x, snd m))"

inductive pool_step :: "(nat \<Rightarrow> 's body) \<Rightarrow> 's pool \<Rightarrow> 's pool \<Rightarrow> bool" for act where
  start: "calls s = Run a # cs \<Longrightarrow>
    pool_step act s (s\<lparr>calls := cs, queue := push a (queue s), workers := notify_all (workers s), pushed := pushed s @ [a]\<rparr>)"
| get: "calls s = Get a # cs \<Longrightarrow> a \<in> set (finished s) \<Longrightarrow> pool_step act s (s\<lparr>calls := cs\<rparr>)"
| close: "calls s = Close # cs \<Longrightarrow> pool_step act s (s\<lparr>calls := cs, queue := close (queue s)\<rparr>)"
| notify: "calls s = Notify # cs \<Longrightarrow> pool_step act s (s\<lparr>calls := cs, workers := notify_all (workers s)\<rparr>)"
| join: "calls s = Join i # cs \<Longrightarrow> workers s ! i = Exited \<Longrightarrow> pool_step act s (s\<lparr>calls := cs\<rparr>)"
| sleep: "i < length (workers s) \<Longrightarrow> workers s ! i = Waiting \<Longrightarrow> pop (queue s) = None \<Longrightarrow>
    pool_step act s (s\<lparr>workers := (workers s)[i := Asleep]\<rparr>)"
| take: "i < length (workers s) \<Longrightarrow> workers s ! i = Waiting \<Longrightarrow> pop (queue s) = Some (Some a, q) \<Longrightarrow>
    pool_step act s (s\<lparr>queue := q, workers := (workers s)[i := Running a 0], begun := begun s @ [a]\<rparr>)"
| exit: "i < length (workers s) \<Longrightarrow> workers s ! i = Waiting \<Longrightarrow> pop (queue s) = Some (None, q) \<Longrightarrow>
    pool_step act s (s\<lparr>queue := q, workers := (workers s)[i := Exited]\<rparr>)"
| perform: "i < length (workers s) \<Longrightarrow> workers s ! i = Running a k \<Longrightarrow> k < length (act a) \<Longrightarrow>
    pool_step act s (s\<lparr>workers := (workers s)[i := Running a (Suc k)], accesses := accesses s @ [(a, k)],
      memory := access act (a, k) (memory s)\<rparr>)"
| finish: "i < length (workers s) \<Longrightarrow> workers s ! i = Running a (length (act a)) \<Longrightarrow>
    pool_step act s (s\<lparr>workers := (workers s)[i := Waiting], finished := finished s @ [a]\<rparr>)"

text \<open>A condition variable may also wake a thread for no reason; the thread then tests the predicate again.\<close>

inductive pool_move :: "(nat \<Rightarrow> 's body) \<Rightarrow> 's pool \<Rightarrow> 's pool \<Rightarrow> bool" for act where
  step: "pool_step act s s' \<Longrightarrow> pool_move act s s'"
| spurious: "i < length (workers s) \<Longrightarrow> workers s ! i = Asleep \<Longrightarrow> pool_move act s (s\<lparr>workers := (workers s)[i := Waiting]\<rparr>)"

text \<open>A producer with \<open>n\<close> workers that runs the actions, waits for all of them, and is destroyed.\<close>

definition pool_program :: "nat \<Rightarrow> nat list \<Rightarrow> call list" where
  "pool_program n as = map Run as @ map Get as @ [Close, Notify] @ map Join [0..<n]"

definition pool_init :: "nat \<Rightarrow> nat list \<Rightarrow> 's \<Rightarrow> 's pool" where
  "pool_init n as x = \<lparr>queue = ActionQueue_make, workers = replicate n Waiting, calls = pool_program n as, pushed = [], begun = [],
     finished = [], accesses = [], memory = (x, \<lambda>_. None)\<rparr>"

section \<open>Specification\<close>

definition running_in :: "worker \<Rightarrow> nat list" where
  "running_in w = (case w of Running a k \<Rightarrow> [a] | _ \<Rightarrow> [])"

definition running :: "'s pool \<Rightarrow> nat list" where
  "running s = concat (map running_in (workers s))"

text \<open>Running actions as a whole, one after the other.\<close>

definition body_accesses :: "(nat \<Rightarrow> 's body) \<Rightarrow> nat \<Rightarrow> (nat \<times> nat) list" where
  "body_accesses act a = map (Pair a) [0..<length (act a)]"

definition in_order :: "(nat \<Rightarrow> 's body) \<Rightarrow> nat list \<Rightarrow> 's \<times> (nat \<Rightarrow> fault option) \<Rightarrow> 's \<times> (nat \<Rightarrow> fault option)" where
  "in_order act as m = fold (access act) (concat (map (body_accesses act) as)) m"

text \<open>
  Actions that do not interfere on the memories \<open>I\<close>: their accesses stay in \<open>I\<close>, and accesses of two
  different actions have the same effect in both orders and do not make each other throw.
\<close>

definition result_of :: "'s result \<Rightarrow> 's \<Rightarrow> 's" where
  "result_of r x = (case r of Inl _ \<Rightarrow> x | Inr y \<Rightarrow> y)"

definition fault_of :: "'s result \<Rightarrow> fault option" where
  "fault_of r = (case r of Inl f \<Rightarrow> Some f | Inr _ \<Rightarrow> None)"

definition independent :: "'s set \<Rightarrow> (nat \<Rightarrow> 's body) \<Rightarrow> nat list \<Rightarrow> bool" where
  "independent I act as \<longleftrightarrow>
     (\<forall>a \<in> set as. \<forall>f \<in> set (act a). \<forall>x \<in> I. result_of (f x) x \<in> I) \<and>
     (\<forall>a \<in> set as. \<forall>b \<in> set as. a \<noteq> b \<longrightarrow> (\<forall>f \<in> set (act a). \<forall>g \<in> set (act b). \<forall>x \<in> I.
        let y = result_of (f x) x; z = result_of (g x) x in
        result_of (g y) y = result_of (f z) z \<and> fault_of (g y) = fault_of (g x)))"

text \<open>How far the producer is: pushing actions, waiting for them, notifying, or joining the workers.\<close>

definition pool_phase :: "nat \<Rightarrow> nat list \<Rightarrow> 's pool \<Rightarrow> bool" where
  "pool_phase n as s \<longleftrightarrow>
     (\<exists>bs cs. as = bs @ cs \<and> calls s = map Run cs @ map Get as @ Close # Notify # map Join [0..<n] \<and> pushed s = bs \<and> is_active (queue s)) \<or>
     (\<exists>bs cs. as = bs @ cs \<and> calls s = map Get cs @ Close # Notify # map Join [0..<n] \<and> pushed s = as \<and> is_active (queue s)) \<or>
     (calls s = Notify # map Join [0..<n] \<and> pushed s = as \<and> \<not> is_active (queue s)) \<or>
     (\<exists>k. calls s = map Join [k..<n] \<and> pushed s = as \<and> \<not> is_active (queue s))"

text \<open>
  A worker sleeps only while there is nothing to do, or while a notification is on its way.
\<close>

definition pool_inv :: "(nat \<Rightarrow> 's body) \<Rightarrow> nat \<Rightarrow> nat list \<Rightarrow> 's \<Rightarrow> 's pool \<Rightarrow> bool" where
  "pool_inv act n as x s \<longleftrightarrow> length (workers s) = n \<and> pool_phase n as s \<and>
     pushed s = begun s @ actions (queue s) \<and>
     mset (begun s) = mset (finished s @ running s) \<and>
     (Exited \<in> set (workers s) \<longrightarrow> \<not> is_active (queue s) \<and> actions (queue s) = []) \<and>
     (Asleep \<in> set (workers s) \<longrightarrow> actions (queue s) = [] \<and> (is_active (queue s) \<or> Notify \<in> set (calls s))) \<and>
     (\<forall>a k. Running a k \<in> set (workers s) \<longrightarrow> k \<le> length (act a)) \<and>
     memory s = fold (access act) (accesses s) (x, \<lambda>_. None)"

text \<open>The accesses there have been: the whole body of a finished action, the first ones of a running one, each once and in order.\<close>

definition accesses_of :: "'s pool \<Rightarrow> nat \<Rightarrow> (nat \<times> nat) list" where
  "accesses_of s a = filter (\<lambda>p. fst p = a) (accesses s)"

definition trace_inv :: "(nat \<Rightarrow> 's body) \<Rightarrow> 's pool \<Rightarrow> bool" where
  "trace_inv act s \<longleftrightarrow> (\<forall>a \<in> set (finished s). accesses_of s a = body_accesses act a) \<and>
     (\<forall>a k. Running a k \<in> set (workers s) \<longrightarrow> accesses_of s a = map (Pair a) [0..<k]) \<and>
     (\<forall>a. a \<notin> set (begun s) \<longrightarrow> accesses_of s a = [])"

text \<open>Steps that remain, at most: a worker may have to go to sleep again after every notification.\<close>

definition worker_steps :: "(nat \<Rightarrow> 's body) \<Rightarrow> worker \<Rightarrow> nat" where
  "worker_steps act w = (case w of Waiting \<Rightarrow> 2 | Asleep \<Rightarrow> 1 | Running a k \<Rightarrow> 3 + (length (act a) - k) | Exited \<Rightarrow> 0)"

definition call_steps :: "(nat \<Rightarrow> 's body) \<Rightarrow> nat \<Rightarrow> call \<Rightarrow> nat" where
  "call_steps act n c = (case c of Run a \<Rightarrow> 3 + length (act a) + n | Notify \<Rightarrow> 1 + n | _ \<Rightarrow> 1)"

definition remaining :: "(nat \<Rightarrow> 's body) \<Rightarrow> 's pool \<Rightarrow> nat" where
  "remaining act s = sum_list (map (call_steps act (length (workers s))) (calls s)) +
     sum_list (map (\<lambda>a. 2 + length (act a)) (actions (queue s))) + sum_list (map (worker_steps act) (workers s))"

definition pool_final :: "'s pool \<Rightarrow> bool" where
  "pool_final s \<longleftrightarrow> calls s = [] \<and> (\<forall>w \<in> set (workers s). w = Exited)"

section \<open>Invariant\<close>

lemma mset_concat_update:
  assumes "i < length ws"
  shows "mset (concat (map f (ws[i := w]))) + mset (f (ws ! i)) = mset (concat (map f ws)) + mset (f w)"
proof -
  have "ws = take i ws @ ws ! i # drop (Suc i) ws" using assms by (rule id_take_nth_drop)
  then have "mset (concat (map f ws)) = mset (concat (map f (take i ws @ ws ! i # drop (Suc i) ws)))" by (rule arg_cong)
  then show ?thesis using assms by (simp add: upd_conv_take_nth_drop)
qed

lemma running_in_simps [simp]:
  "running_in Waiting = []" "running_in Asleep = []" "running_in (Running a k) = [a]" "running_in Exited = []"
  by (simp_all add: running_in_def)

text \<open>A worker that takes up or gives back actions \<open>f\<close> changes the running ones by them.\<close>

lemma running_update:
  assumes "i < length (workers s)" "workers s' = (workers s)[i := w]"
  shows "mset (running s') + mset (running_in (workers s ! i)) = mset (running s) + mset (running_in w)"
  using mset_concat_update [OF assms(1), of running_in w] assms(2) by (simp add: running_def)

lemma running_cong: "workers s' = workers s \<Longrightarrow> running s' = running s"
  by (simp add: running_def)

lemma notify_all_simps [simp]:
  "length (notify_all ws) = length ws" "Asleep \<notin> set (notify_all ws)" "Exited \<in> set (notify_all ws) \<longleftrightarrow> Exited \<in> set ws"
  "Running a k \<in> set (notify_all ws) \<longleftrightarrow> Running a k \<in> set ws"
  "map running_in (notify_all ws) = map running_in ws"
  by (auto simp: notify_all_def image_iff)

lemma running_notify: "workers s' = notify_all (workers s) \<Longrightarrow> running s' = running s"
  by (simp add: running_def)

lemma pop_simps:
  "pop q = Some (Some a, q') \<Longrightarrow> actions q = a # actions q' \<and> is_active q' = is_active q"
  "pop q = Some (None, q') \<Longrightarrow> q' = q \<and> actions q = [] \<and> \<not> is_active q"
  "pop q = None \<Longrightarrow> actions q = [] \<and> is_active q"
  by (auto simp: pop_def split: if_splits)

lemma pool_inv_init: "pool_inv act n as x (pool_init n as x)"
  by (auto simp: pool_inv_def pool_init_def pool_phase_def pool_program_def ActionQueue_make_def running_def)

lemma in_update: "v \<in> set (ws[i := w]) \<Longrightarrow> w \<noteq> v \<Longrightarrow> v \<in> set ws"
  by (auto dest!: set_update_subset_insert [THEN subsetD])

lemma phase_cases:
  assumes "pool_phase n as s"
  obtains (pushing) c cs where "as = pushed s @ c # cs" "calls s = map Run (c # cs) @ map Get as @ Close # Notify # map Join [0..<n]" "is_active (queue s)"
    | (waiting) bs cs where "as = bs @ cs" "calls s = map Get cs @ Close # Notify # map Join [0..<n]" "pushed s = as" "is_active (queue s)"
    | (notifying) "calls s = Notify # map Join [0..<n]" "pushed s = as" "\<not> is_active (queue s)"
    | (joining) k where "calls s = map Join [k..<n]" "pushed s = as" "\<not> is_active (queue s)"
proof -
  consider (1) cs where "as = pushed s @ cs" "calls s = map Run cs @ map Get as @ Close # Notify # map Join [0..<n]" "is_active (queue s)"
    | (2) bs cs where "as = bs @ cs" "calls s = map Get cs @ Close # Notify # map Join [0..<n]" "pushed s = as" "is_active (queue s)"
    | (3) "calls s = Notify # map Join [0..<n]" "pushed s = as" "\<not> is_active (queue s)"
    | (4) k where "calls s = map Join [k..<n]" "pushed s = as" "\<not> is_active (queue s)"
    using assms unfolding pool_phase_def by blast
  then show ?thesis
  proof cases
    case 1
    show ?thesis
    proof (cases cs)
      case Nil
      then show ?thesis by (intro waiting [of "[]" as]) (use 1 in simp_all)
    next
      case (Cons c cs')
      then show ?thesis by (intro pushing [of c cs']) (use 1 in simp_all)
    qed
  qed (rule waiting notifying joining; assumption)+
qed

lemma phase_start:
  assumes "pool_phase n as s" "calls s = Run a # cs"
  shows "is_active (queue s) \<and> pool_phase n as (s\<lparr>calls := cs, queue := push a (queue s), workers := ws, pushed := pushed s @ [a]\<rparr>)"
  using assms(1)
proof (cases rule: phase_cases)
  case (waiting bs ds)
  then show ?thesis using assms(2) by (cases ds) simp_all
next
  case (joining k)
  then show ?thesis using assms(2) by (auto simp: map_eq_Cons_conv)
qed (use assms(2) in \<open>auto simp: pool_phase_def push_def\<close>)

lemma phase_get:
  assumes "pool_phase n as s" "calls s = Get a # cs"
  shows "a \<in> set (pushed s) \<and> pool_phase n as (s\<lparr>calls := cs\<rparr>)"
  using assms(1)
proof (cases rule: phase_cases)
  case (waiting bs ds)
  then obtain ds' where "ds = a # ds'" "cs = map Get ds' @ Close # Notify # map Join [0..<n]" using assms(2) by (cases ds) simp_all
  then show ?thesis using waiting unfolding pool_phase_def by (intro conjI disjI2 disjI1 exI [of _ "bs @ [a]"] exI [of _ ds']) simp_all
next
  case (joining k)
  then show ?thesis using assms(2) by (auto simp: map_eq_Cons_conv)
qed (use assms(2) in simp_all)

lemma phase_close:
  assumes "pool_phase n as s" "calls s = Close # cs"
  shows "pool_phase n as (s\<lparr>calls := cs, queue := close (queue s)\<rparr>) \<and> Notify \<in> set cs"
  using assms(1)
proof (cases rule: phase_cases)
  case (waiting bs ds)
  then show ?thesis using assms(2) by (cases ds) (auto simp: pool_phase_def close_def)
next
  case (joining k)
  then show ?thesis using assms(2) by (auto simp: map_eq_Cons_conv)
qed (use assms(2) in simp_all)

lemma phase_notify:
  assumes "pool_phase n as s" "calls s = Notify # cs"
  shows "pool_phase n as (s\<lparr>calls := cs, workers := ws\<rparr>)"
  using assms(1)
proof (cases rule: phase_cases)
  case (waiting bs ds)
  then show ?thesis using assms(2) by (cases ds) simp_all
next
  case (joining k)
  then show ?thesis using assms(2) by (auto simp: map_eq_Cons_conv)
qed (use assms(2) in \<open>auto simp: pool_phase_def\<close>)

lemma phase_join:
  assumes "pool_phase n as s" "calls s = Join i # cs"
  shows "i < n \<and> \<not> is_active (queue s) \<and> Notify \<notin> set (calls s) \<and> pool_phase n as (s\<lparr>calls := cs\<rparr>)"
proof -
  obtain k where k: "Join i # cs = map Join [k..<n]" "pushed s = as" "\<not> is_active (queue s)"
    using assms(1)
  proof (cases rule: phase_cases)
    case (waiting bs ds)
    then show ?thesis using assms(2) by (cases ds) simp_all
  qed (use assms(2) that in simp_all)
  then have "k < n" by (cases "k < n") simp_all
  then have "i = k" "cs = map Join [Suc k..<n]" using k(1) by (simp_all add: upt_conv_Cons)
  then show ?thesis using k \<open>k < n\<close> assms(2) by (auto simp: pool_phase_def)
qed

lemma phase_cong:
  "calls s' = calls s \<Longrightarrow> pushed s' = pushed s \<Longrightarrow> is_active (queue s') = is_active (queue s) \<Longrightarrow> pool_phase n as s' = pool_phase n as s"
  by (simp add: pool_phase_def)

text \<open>Steps of one worker that leave the queue as it is.\<close>

lemma pool_inv_worker:
  assumes "pool_inv act n as x s" "i < length (workers s)" "workers s' = (workers s)[i := w]" "queue s' = queue s" "calls s' = calls s"
    "pushed s' = pushed s" "begun s' = begun s" "mset (finished s') + mset (running_in w) = mset (finished s) + mset (running_in (workers s ! i))"
    "w = Exited \<Longrightarrow> \<not> is_active (queue s) \<and> actions (queue s) = []" "w = Asleep \<Longrightarrow> actions (queue s) = [] \<and> is_active (queue s)"
    "\<And>a k. w = Running a k \<Longrightarrow> k \<le> length (act a)" "memory s' = fold (access act) (accesses s') (x, \<lambda>_. None)"
  shows "pool_inv act n as x s'"
proof -
  have "mset (finished s') + mset (running s') + mset (running_in (workers s ! i)) =
      (mset (finished s') + mset (running_in w)) + mset (running s)"
    using running_update [OF assms(2,3)] by simp
  also have "\<dots> = mset (begun s) + mset (running_in (workers s ! i))"
    using assms(1,8) by (simp add: pool_inv_def)
  finally have "mset (begun s') = mset (finished s' @ running s')" using assms(7) by simp
  moreover have "Exited \<in> set (workers s') \<longrightarrow> w = Exited \<or> Exited \<in> set (workers s)" "Asleep \<in> set (workers s') \<longrightarrow> w = Asleep \<or> Asleep \<in> set (workers s)"
    using in_update [of _ "workers s" i w] assms(3) by metis+
  moreover have "k \<le> length (act a)" if "Running a k \<in> set (workers s')" for a k
  proof (cases "w = Running a k")
    case False
    then have "Running a k \<in> set (workers s)" using in_update that assms(3) by metis
    then show ?thesis using assms(1) unfolding pool_inv_def by blast
  qed (rule assms(11))
  ultimately show ?thesis
    using assms phase_cong [of s' s n as] unfolding pool_inv_def by auto
qed

lemma pool_inv_step:
  assumes "pool_step act s s'" "pool_inv act n as x s"
  shows "pool_inv act n as x s'"
  using assms
proof (induction rule: pool_step.induct)
  case (start s a cs)
  let ?s = "s\<lparr>calls := cs, queue := push a (queue s), workers := notify_all (workers s), pushed := pushed s @ [a]\<rparr>"
  have "running ?s = running s" by (rule running_notify) simp
  then show ?case using start phase_start [of n as s a cs "notify_all (workers s)"] by (auto simp: pool_inv_def push_def)
next
  case (get s a cs)
  have "Notify \<in> set cs \<longleftrightarrow> Notify \<in> set (calls s)" using get.hyps(1) by simp
  then show ?case using get phase_get [of n as s a cs] by (simp add: pool_inv_def running_def)
next
  case (close s cs)
  then show ?case using phase_close [of n as s cs] by (simp add: pool_inv_def close_def running_def)
next
  case (notify s cs)
  have "running (s\<lparr>calls := cs, workers := notify_all (workers s)\<rparr>) = running s" by (rule running_notify) simp
  then show ?case using notify phase_notify [of n as s cs "notify_all (workers s)"] by (simp add: pool_inv_def)
next
  case (join s i cs)
  then show ?case using phase_join [of n as s i cs] by (auto simp: pool_inv_def running_def)
next
  case (sleep i s)
  then show ?case using pop_simps(3) [OF sleep.hyps(3)] by (intro pool_inv_worker [OF sleep.prems sleep.hyps(1)]) (auto simp: pool_inv_def)
next
  case (take i s a q)
  let ?s = "s\<lparr>queue := q, workers := (workers s)[i := Running a 0], begun := begun s @ [a]\<rparr>"
  have q: "actions (queue s) = a # actions q" "is_active q = is_active (queue s)" using pop_simps(1) [OF take.hyps(3)] by simp_all
  have r: "mset (running ?s) = mset (running s) + {#a#}"
    using running_update [OF take.hyps(1), of ?s "Running a 0"] take.hyps(2) by simp
  have e: "Exited \<notin> set (workers ?s)" "Asleep \<notin> set (workers ?s)"
    using in_update [of _ "workers s" i "Running a 0"] take.prems q by (auto simp: pool_inv_def)
  have "\<forall>b k. Running b k \<in> set (workers ?s) \<longrightarrow> k \<le> length (act b)"
    using in_update [of "Running _ _" "workers s" i "Running a 0"] take.prems by (fastforce simp: pool_inv_def)
  moreover have "pool_phase n as ?s" using take.prems q(2) phase_cong [of ?s s] by (simp add: pool_inv_def)
  ultimately show ?case using take.prems q r e unfolding pool_inv_def by simp
next
  case (exit i s q)
  then show ?case using pop_simps(2) [OF exit.hyps(3)] by (intro pool_inv_worker [OF exit.prems exit.hyps(1)]) (auto simp: pool_inv_def)
next
  case (perform i s a k)
  then show ?case by (intro pool_inv_worker [OF perform.prems perform.hyps(1)]) (auto simp: pool_inv_def)
next
  case (finish i s a)
  then show ?case by (intro pool_inv_worker [OF finish.prems finish.hyps(1)]) (auto simp: pool_inv_def)
qed

lemma pool_inv_move: "pool_move act s s' \<Longrightarrow> pool_inv act n as x s \<Longrightarrow> pool_inv act n as x s'"
proof (induction rule: pool_move.induct)
  case (spurious i s)
  then show ?case by (intro pool_inv_worker [OF spurious.prems spurious.hyps(1)]) (auto simp: pool_inv_def)
qed (rule pool_inv_step)

lemma pool_inv_reachable: "(pool_move act)\<^sup>*\<^sup>* (pool_init n as x) s \<Longrightarrow> pool_inv act n as x s"
  by (induction rule: rtranclp_induct) (auto intro: pool_inv_init pool_inv_move)

section \<open>Termination and progress\<close>

lemma sum_list_update: "i < length ws \<Longrightarrow> sum_list (map f (ws[i := w])) + f (ws ! i) = sum_list (map f ws) + f w" for f :: "'a \<Rightarrow> nat"
  by (induction ws arbitrary: i) (auto split: nat.split simp: nth_Cons')

lemma notify_steps: "sum_list (map (worker_steps act) (notify_all ws)) \<le> sum_list (map (worker_steps act) ws) + length ws"
proof (induction ws)
  case (Cons w ws)
  have "worker_steps act (if w = Asleep then Waiting else w) \<le> Suc (worker_steps act w)" by (simp add: worker_steps_def)
  then show ?case using Cons by (simp add: notify_all_def)
qed (simp add: notify_all_def)

lemma step_remaining: "pool_step act s s' \<Longrightarrow> remaining act s' < remaining act s"
proof (induction rule: pool_step.induct)
  case (start s a cs)
  then show ?case using notify_steps [of act "workers s"] by (simp add: remaining_def call_steps_def push_def)
next
  case (notify s cs)
  then show ?case using notify_steps [of act "workers s"] by (simp add: remaining_def call_steps_def)
next
  case (sleep i s)
  then show ?case using sum_list_update [OF sleep.hyps(1), of "worker_steps act" Asleep] by (simp add: remaining_def worker_steps_def)
next
  case (take i s a q)
  then show ?case using sum_list_update [OF take.hyps(1), of "worker_steps act" "Running a 0"] pop_simps(1) [OF take.hyps(3)]
    by (simp add: remaining_def worker_steps_def)
next
  case (exit i s q)
  then show ?case using sum_list_update [OF exit.hyps(1), of "worker_steps act" Exited] pop_simps(2) [OF exit.hyps(3)]
    by (simp add: remaining_def worker_steps_def)
next
  case (perform i s a k)
  then show ?case using sum_list_update [OF perform.hyps(1), of "worker_steps act" "Running a (Suc k)"]
    by (simp add: remaining_def worker_steps_def)
next
  case (finish i s a)
  then show ?case using sum_list_update [OF finish.hyps(1), of "worker_steps act" Waiting]
    by (simp add: remaining_def worker_steps_def)
qed (simp_all add: remaining_def call_steps_def close_def)

lemma pop_cases: "actions q \<noteq> [] \<or> \<not> is_active q \<Longrightarrow> \<exists>r q'. pop q = Some (r, q')"
  by (simp add: pop_def)

text \<open>A worker can go on unless it has ended, sleeps, or has nothing to take.\<close>

lemma worker_moves:
  assumes "pool_inv act n as x s" "i < length (workers s)" "workers s ! i \<noteq> Exited" "Asleep \<notin> set (workers s)"
    "actions (queue s) \<noteq> [] \<or> \<not> is_active (queue s)"
  shows "\<exists>s'. pool_step act s s'"
proof (cases "workers s ! i")
  case Waiting
  obtain r q' where "pop (queue s) = Some (r, q')" using pop_cases [OF assms(5)] by blast
  then show ?thesis using pool_step.take [OF assms(2) Waiting] pool_step.exit [OF assms(2) Waiting] by (cases r) blast+
next
  case (Running a k)
  then have "Running a k \<in> set (workers s)" using assms(2) by (metis nth_mem)
  then have "k \<le> length (act a)" using assms(1) unfolding pool_inv_def by blast
  then show ?thesis using Running pool_step.perform [OF assms(2), of a k act] pool_step.finish [OF assms(2), of a act]
    by (cases "k = length (act a)") auto
next
  case Asleep
  then show ?thesis using assms(2,4) by (metis nth_mem)
qed (use assms(3) in simp)

lemma running_moves:
  assumes "pool_inv act n as x s" "a \<in> set (running s)"
  shows "\<exists>s'. pool_step act s s'"
proof -
  obtain i k where i: "i < length (workers s)" "workers s ! i = Running a k"
    using assms(2) by (auto simp: running_def in_set_conv_nth running_in_def split: worker.splits)
  then have "k \<le> length (act a)" using assms(1) unfolding pool_inv_def by (metis nth_mem)
  then show ?thesis using i pool_step.perform [of i s a k act] pool_step.finish [of i s a act] by (cases "k = length (act a)") auto
qed

lemma pool_progress:
  assumes "pool_inv act n as x s" "0 < n" "\<not> pool_final s"
  shows "\<exists>s'. pool_step act s s'"
proof -
  have i: "length (workers s) = n" "pushed s = begun s @ actions (queue s)" "mset (begun s) = mset (finished s @ running s)"
    "Exited \<in> set (workers s) \<Longrightarrow> \<not> is_active (queue s) \<and> actions (queue s) = []" "pool_phase n as s"
    "Asleep \<in> set (workers s) \<Longrightarrow> actions (queue s) = [] \<and> (is_active (queue s) \<or> Notify \<in> set (calls s))"
    using assms(1) unfolding pool_inv_def by blast+
  show ?thesis
  proof (cases "calls s")
    case Nil
    then have q: "\<not> is_active (queue s)" using i(5) by (auto simp: pool_phase_def)
    moreover have "Asleep \<notin> set (workers s)" using i(6) Nil q by auto
    moreover obtain j where "j < n" "workers s ! j \<noteq> Exited" using assms(3) Nil i(1) by (auto simp: pool_final_def in_set_conv_nth)
    ultimately show ?thesis using worker_moves [OF assms(1)] i(1) by blast
  next
    case (Cons c cs)
    show ?thesis
    proof (cases c)
      case (Get a)
      show ?thesis
      proof (cases "a \<in> set (finished s)")
        case False
        have "a \<in> set (begun s) \<or> a \<in> set (actions (queue s))" using phase_get [OF i(5)] Cons Get i(2) by auto
        moreover have "set (begun s) = set (finished s) \<union> set (running s)" using mset_eq_setD [OF i(3)] by simp
        ultimately consider "a \<in> set (running s)" | "actions (queue s) \<noteq> []" using False by fastforce
        then show ?thesis
        proof cases
          case 1
          then show ?thesis using running_moves [OF assms(1)] by blast
        next
          case 2
          then have "workers s ! 0 \<noteq> Exited" using i(1,4) assms(2) nth_mem by fastforce
          then show ?thesis using worker_moves [OF assms(1), of 0] 2 i(1,6) assms(2) by blast
        qed
      qed (use Cons Get pool_step.get in blast)
    next
      case (Join j)
      then have j: "j < n" "\<not> is_active (queue s)" "Notify \<notin> set (calls s)" using phase_join [OF i(5)] Cons by auto
      then show ?thesis using worker_moves [OF assms(1), of j] i(1,6) Cons Join pool_step.join [of s j cs act] by blast
    qed (use Cons pool_step.start pool_step.close pool_step.notify in blast)+
  qed
qed

lemma pool_final_all:
  assumes "pool_inv act n as x s" "0 < n" "pool_final s"
  shows "mset (finished s) = mset as" "actions (queue s) = []" "running s = []"
proof -
  have i: "length (workers s) = n" "pushed s = begun s @ actions (queue s)" "mset (begun s) = mset (finished s @ running s)"
    "Exited \<in> set (workers s) \<Longrightarrow> actions (queue s) = []" "pool_phase n as s"
    using assms(1) unfolding pool_inv_def by blast+
  have w: "\<forall>w \<in> set (workers s). w = Exited" "calls s = []" using assms(3) by (auto simp: pool_final_def)
  then have "Exited \<in> set (workers s)" using i(1) assms(2) by (cases "workers s") auto
  then show e: "actions (queue s) = []" by (rule i(4))
  show r: "running s = []" using w(1) by (auto simp: running_def)
  moreover have "pushed s = as" using i(5) w(2) by (auto simp: pool_phase_def)
  ultimately show "mset (finished s) = mset as" using i(2,3) e by simp
qed

section \<open>Accesses\<close>

lemma running_once:
  "distinct (concat (map running_in ws)) \<Longrightarrow> i < length ws \<Longrightarrow> j < length ws \<Longrightarrow> ws ! i = Running a k \<Longrightarrow> ws ! j = Running a l \<Longrightarrow> i = j"
proof (induction ws arbitrary: i j)
  case (Cons w ws)
  have a: "a \<in> set (concat (map running_in ws))" if "h < length ws" "ws ! h = Running a m" for h m
    using that by (auto simp: in_set_conv_nth intro!: bexI [of _ "ws ! h"] nth_mem)
  show ?case using Cons.prems Cons.IH a by (cases i; cases j) (auto simp: disjoint_iff)
qed simp

lemma distinct_actions:
  assumes "pool_inv act n as x s" "distinct as"
  shows "distinct (pushed s)" "distinct (finished s @ running s)" "set (begun s) = set (finished s) \<union> set (running s)" "set (pushed s) \<subseteq> set as"
proof -
  have i: "pushed s = begun s @ actions (queue s)" "mset (begun s) = mset (finished s @ running s)" "pool_phase n as s"
    using assms(1) unfolding pool_inv_def by blast+
  have "\<exists>cs. as = pushed s @ cs" using i(3) unfolding pool_phase_def by auto
  then obtain cs where cs: "as = pushed s @ cs" by blast
  from cs show p: "distinct (pushed s)" using assms(2) by (metis distinct_append)
  from cs show "set (pushed s) \<subseteq> set as" by auto
  from p show "distinct (finished s @ running s)" using i(1,2) by (metis distinct_append mset_eq_imp_distinct_iff)
  show "set (begun s) = set (finished s) \<union> set (running s)" using mset_eq_setD [OF i(2)] by simp
qed

text \<open>Steps that access nothing and only take running actions away.\<close>

lemma trace_inv_mono:
  assumes "trace_inv act s" "accesses s' = accesses s" "begun s' = begun s" "set (finished s') = set (finished s)"
    "\<And>a k. Running a k \<in> set (workers s') \<Longrightarrow> Running a k \<in> set (workers s)"
  shows "trace_inv act s'"
  using assms unfolding trace_inv_def accesses_of_def by simp

lemma trace_inv_perform:
  assumes "pool_inv act n as x s" "distinct as" "trace_inv act s" "i < length (workers s)" "workers s ! i = Running a k"
  shows "trace_inv act (s\<lparr>workers := (workers s)[i := Running a (Suc k)], accesses := accesses s @ [(a, k)], memory := m\<rparr>)" (is "trace_inv act ?s")
proof -
  note d = distinct_actions [OF assms(1,2)]
  have w: "Running a k \<in> set (workers s)" using assms(4,5) by (metis nth_mem)
  then have ar: "a \<in> set (running s)" by (force simp: running_def)
  then have a: "a \<notin> set (finished s)" "a \<in> set (begun s)" using d(2,3) by auto
  have acc: "accesses_of ?s b = accesses_of s b @ (if b = a then [(a, k)] else [])" for b by (simp add: accesses_of_def)
  have "accesses_of ?s b = map (Pair b) [0..<l]" if b: "Running b l \<in> set (workers ?s)" for b l
  proof -
    obtain j where j: "j < length (workers s)" "(workers s)[i := Running a (Suc k)] ! j = Running b l" using b by (auto simp: in_set_conv_nth)
    show ?thesis
    proof (cases "j = i")
      case True
      then have "b = a" "l = Suc k" using j(2) assms(4) by auto
      moreover have "accesses_of s a = map (Pair a) [0..<k]" using assms(3) w by (simp add: trace_inv_def)
      ultimately show ?thesis unfolding acc by simp
    next
      case False
      then have r: "workers s ! j = Running b l" using j by simp
      then have "b \<noteq> a" using running_once [of "workers s" i j a k l] d(2) assms(4,5) j(1) False by (auto simp: running_def)
      moreover have "accesses_of s b = map (Pair b) [0..<l]" using assms(3) nth_mem [OF j(1)] by (simp add: r trace_inv_def)
      ultimately show ?thesis unfolding acc by simp
    qed
  qed
  then show ?thesis using assms(3) a unfolding trace_inv_def acc by auto
qed

lemma trace_inv_step:
  assumes "pool_step act s s'" "pool_inv act n as x s" "distinct as" "trace_inv act s"
  shows "trace_inv act s'"
  using assms
proof (induction rule: pool_step.induct)
  case (take i s a q)
  let ?s = "s\<lparr>queue := q, workers := (workers s)[i := Running a 0], begun := begun s @ [a]\<rparr>"
  have "pushed s = begun s @ a # actions q" using take.prems(1) pop_simps(1) [OF take.hyps(3)] by (simp add: pool_inv_def)
  then have a: "a \<notin> set (begun s)" using distinct_actions(1) [OF take.prems(1,2)] by auto
  then have "accesses_of s a = []" using take.prems(3) by (simp add: trace_inv_def)
  moreover have "accesses_of ?s b = accesses_of s b" for b by (simp add: accesses_of_def)
  moreover have "Running b k \<in> set (workers s) \<or> b = a \<and> k = 0" if "Running b k \<in> set (workers ?s)" for b k
    using in_update [of "Running b k" "workers s" i "Running a 0"] that by (cases "Running b k = Running a 0") simp_all
  ultimately show ?case using take.prems(3) unfolding trace_inv_def by fastforce
next
  case (perform i s a k)
  then show ?case by (intro trace_inv_perform) auto
next
  case (finish i s a)
  let ?s = "s\<lparr>workers := (workers s)[i := Waiting], finished := finished s @ [a]\<rparr>"
  have "Running a (length (act a)) \<in> set (workers s)" using finish.hyps by (metis nth_mem)
  then have "accesses_of s a = body_accesses act a" using finish.prems(3) by (simp add: trace_inv_def body_accesses_def)
  moreover have "accesses_of ?s b = accesses_of s b" for b by (simp add: accesses_of_def)
  moreover have "Running b k \<in> set (workers s)" if "Running b k \<in> set (workers ?s)" for b k
    using in_update [of "Running b k" "workers s" i Waiting] that by simp
  ultimately show ?case using finish.prems(3) unfolding trace_inv_def by fastforce
qed (auto elim!: trace_inv_mono dest: in_update)

lemma trace_inv_reachable:
  assumes "(pool_move act)\<^sup>*\<^sup>* (pool_init n as x) s" "distinct as"
  shows "trace_inv act s"
  using assms(1)
proof (induction rule: rtranclp_induct)
  case base
  show ?case by (auto simp: trace_inv_def pool_init_def accesses_of_def)
next
  case (step s s')
  note inv = pool_inv_reachable [OF step.hyps(1)] and IH = step.IH
  from step.hyps(2) show ?case
  proof cases
    case step
    then show ?thesis by (rule trace_inv_step [OF _ inv assms(2) IH])
  next
    case (spurious i)
    then show ?thesis using IH by (auto elim!: trace_inv_mono dest: in_update)
  qed
qed

section \<open>Serialisation\<close>

text \<open>Moving the elements of a list that commute with the others, on states that satisfy \<open>J\<close>, to its front.\<close>

lemma fold_keeps: "(\<And>p x. p \<in> set ps \<Longrightarrow> J x \<Longrightarrow> J (f p x)) \<Longrightarrow> J x \<Longrightarrow> J (fold f ps x)"
  by (induction ps arbitrary: x) auto

lemma fold_pull:
  assumes "\<And>q x. q \<in> set qs \<Longrightarrow> J x \<Longrightarrow> J (f q x) \<and> f q (f p x) = f p (f q x)" "J x"
  shows "fold f qs (f p x) = f p (fold f qs x)"
  using assms by (induction qs arbitrary: x) auto

lemma fold_partition:
  assumes "\<And>p x. p \<in> set ps \<Longrightarrow> J x \<Longrightarrow> J (f p x)" "J x"
    "\<And>p q x. p \<in> set ps \<Longrightarrow> q \<in> set ps \<Longrightarrow> P q \<Longrightarrow> \<not> P p \<Longrightarrow> J x \<Longrightarrow> f q (f p x) = f p (f q x)"
  shows "fold f ps x = fold f (filter P ps @ filter (\<lambda>p. \<not> P p) ps) x"
  using assms
proof (induction ps arbitrary: x)
  case (Cons p ps)
  have "fold f ps (f p x) = fold f (filter P ps @ filter (\<lambda>p. \<not> P p) ps) (f p x)" using Cons.prems by (intro Cons.IH) auto
  moreover have "fold f (filter P ps) (f p x) = f p (fold f (filter P ps) x)" if "\<not> P p"
  proof (rule fold_pull [where J = J])
    fix q y assume "q \<in> set (filter P ps)" "J y"
    then show "J (f q y) \<and> f q (f p y) = f p (f q y)" using Cons.prems(1) Cons.prems(3) [of p q y] that by simp
  qed (rule Cons.prems(2))
  ultimately show ?case by simp
qed simp

lemma fold_group:
  assumes "distinct ks" "\<And>p. p \<in> set ps \<Longrightarrow> key p \<in> set ks" "\<And>p x. p \<in> set ps \<Longrightarrow> J x \<Longrightarrow> J (f p x)" "J x"
    "\<And>p q x. p \<in> set ps \<Longrightarrow> q \<in> set ps \<Longrightarrow> key p \<noteq> key q \<Longrightarrow> J x \<Longrightarrow> f q (f p x) = f p (f q x)"
  shows "fold f ps x = fold f (concat (map (\<lambda>k. filter (\<lambda>p. key p = k) ps) ks)) x"
  using assms
proof (induction ks arbitrary: ps x)
  case Nil
  then have "ps = []" by (cases ps) auto
  then show ?case by simp
next
  case (Cons k ks)
  let ?ps = "filter (\<lambda>p. key p \<noteq> k) ps"
  have "fold f ps x = fold f ?ps (fold f (filter (\<lambda>p. key p = k) ps) x)"
    using fold_partition [of ps J f x "\<lambda>p. key p = k"] Cons.prems(3-5) by simp
  also have "\<dots> = fold f (concat (map (\<lambda>l. filter (\<lambda>p. key p = l) ?ps) ks)) (fold f (filter (\<lambda>p. key p = k) ps) x)"
    using Cons.prems by (intro Cons.IH fold_keeps [where J = J]) auto
  also have "map (\<lambda>l. filter (\<lambda>p. key p = l) ?ps) ks = map (\<lambda>l. filter (\<lambda>p. key p = l) ps) ks"
    using Cons.prems(1) by (auto intro!: filter_cong)
  finally show ?case by simp
qed

lemma access_eq:
  "access act (a, k) m = (if snd m a \<noteq> None then m
     else (result_of ((act a ! k) (fst m)) (fst m), (snd m)(a := fault_of ((act a ! k) (fst m)))))"
  by (cases m) (auto simp: access_def result_of_def fault_of_def split: sum.split)

lemma access_keeps:
  assumes "independent I act as" "a \<in> set as" "k < length (act a)" "fst m \<in> I"
  shows "fst (access act (a, k) m) \<in> I"
  using assms nth_mem [OF assms(3)] by (simp add: access_eq independent_def)

lemma access_commute:
  assumes "independent I act as" "a \<in> set as" "b \<in> set as" "a \<noteq> b" "k < length (act a)" "l < length (act b)" "fst m \<in> I"
  shows "access act (b, l) (access act (a, k) m) = access act (a, k) (access act (b, l) m)"
proof -
  let ?f = "act a ! k" and ?g = "act b ! l" and ?x = "fst m"
  let ?y = "result_of (?f ?x) ?x" and ?z = "result_of (?g ?x) ?x"
  have fg: "?f \<in> set (act a)" "?g \<in> set (act b)" using assms(5,6) by simp_all
  have "result_of (?g ?y) ?y = result_of (?f ?z) ?z" "fault_of (?g ?y) = fault_of (?g ?x)"
    using assms(1-4,7) fg unfolding independent_def Let_def by blast+
  moreover have "fault_of (?f ?z) = fault_of (?f ?x)"
    using assms(1-4,7) fg unfolding independent_def Let_def by metis
  ultimately show ?thesis using assms(4) by (auto simp: access_eq fun_upd_twist)
qed

lemma accesses_valid:
  assumes "trace_inv act s" "p \<in> set (accesses s)" "set (begun s) = set (finished s)"
  shows "fst p \<in> set (finished s) \<and> snd p < length (act (fst p))"
proof -
  have p: "p \<in> set (accesses_of s (fst p))" using assms(2) by (simp add: accesses_of_def)
  then have "fst p \<in> set (finished s)" using assms(1,3) unfolding trace_inv_def by force
  moreover from this have "p \<in> set (body_accesses act (fst p))" using p assms(1) unfolding trace_inv_def by metis
  ultimately show ?thesis by (cases p) (auto simp: body_accesses_def)
qed

lemma serialised:
  assumes "pool_inv act n as x s" "trace_inv act s" "distinct as" "independent I act as" "x \<in> I" "running s = []" "mset os = mset (finished s)"
  shows "memory s = in_order act os (x, \<lambda>_. None)"
proof -
  note d = distinct_actions [OF assms(1,3)]
  have b: "set (begun s) = set (finished s)" using d(3) assms(6) by simp
  have os: "set os = set (finished s)" "distinct os" using d(2) mset_eq_setD [OF assms(7)] mset_eq_imp_distinct_iff [OF assms(7)] by auto
  have sub: "set (finished s) \<subseteq> set as"
    using b d(4) assms(1) unfolding pool_inv_def by auto
  have v: "fst p \<in> set as" "fst p \<in> set os" "snd p < length (act (fst p))" if "p \<in> set (accesses s)" for p
    using accesses_valid [OF assms(2) that b] sub os(1) by auto
  have "memory s = fold (access act) (accesses s) (x, \<lambda>_. None)" using assms(1) unfolding pool_inv_def by blast
  also have "\<dots> = fold (access act) (concat (map (accesses_of s) os)) (x, \<lambda>_. None)"
    unfolding accesses_of_def
  proof (rule fold_group [where J = "\<lambda>m. fst m \<in> I"])
    fix p and m :: "'a \<times> (nat \<Rightarrow> fault option)" assume "p \<in> set (accesses s)" "fst m \<in> I"
    then show "fst (access act p m) \<in> I" using access_keeps [OF assms(4) v(1,3), of p m] by simp
  next
    fix p q and m :: "'a \<times> (nat \<Rightarrow> fault option)" assume "p \<in> set (accesses s)" "q \<in> set (accesses s)" "fst p \<noteq> fst q" "fst m \<in> I"
    then show "access act q (access act p m) = access act p (access act q m)"
      using access_commute [OF assms(4) v(1) v(1) _ v(3) v(3), of p q m] by simp
  qed (use os v assms(5) in auto)
  also have "map (accesses_of s) os = map (body_accesses act) os" using assms(2) os(1) unfolding trace_inv_def by auto
  finally show ?thesis by (simp add: in_order_def)
qed

lemma pool_ends:
  assumes "0 < n"
  shows "(pool_move act)\<^sup>*\<^sup>* (pool_init n as x) s \<Longrightarrow> \<exists>t. (pool_move act)\<^sup>*\<^sup>* (pool_init n as x) t \<and> pool_final t"
proof (induction "remaining act s" arbitrary: s rule: less_induct)
  case less
  show ?case
  proof (cases "pool_final s")
    case False
    then obtain t where t: "pool_step act s t" using pool_progress [OF pool_inv_reachable [OF less.prems] assms] by blast
    show ?thesis using less.hyps [OF step_remaining [OF t] rtranclp.rtrancl_into_rtrancl [OF less.prems pool_move.step [OF t]]] .
  qed (use less.prems in blast)
qed

section \<open>Properties\<close>

text \<open>
  C13: whatever the interleaving, also inside the actions, actions begin in the order in which they
  were pushed, and every action that has begun is running on exactly one worker or finished exactly
  once. When the actions are different, the accesses there have been to the memory are, for a finished action, those
  of its body, for a running one the first of them, each once and in order, and none for an action that has not begun.
\<close>
theorem pool_runs_actions_once:
  assumes "(pool_move act)\<^sup>*\<^sup>* (pool_init n as x) s"
  shows "pushed s = begun s @ actions (queue s) \<and> mset (begun s) = mset (finished s @ running s) \<and>
    memory s = fold (access act) (accesses s) (x, \<lambda>_. None) \<and>
    (distinct as \<longrightarrow> (\<forall>a. (a \<in> set (finished s) \<longrightarrow> accesses_of s a = body_accesses act a) \<and>
       (\<forall>k. Running a k \<in> set (workers s) \<longrightarrow> k \<le> length (act a) \<and> accesses_of s a = map (Pair a) [0..<k]) \<and>
       (a \<notin> set (begun s) \<longrightarrow> accesses_of s a = [])))"
  using pool_inv_reachable [OF assms] trace_inv_reachable [OF assms] unfolding pool_inv_def trace_inv_def by auto

theorem pool_runs_actions_once_witness:
  "\<exists>s. (pool_move (\<lambda>a. [\<lambda>x. Inr (x + a)]))\<^sup>*\<^sup>* (pool_init 1 [5] (0 :: nat)) s \<and> pushed s = [5] \<and> begun s @ actions (queue s) = [5] \<and>
     accesses_of s 5 = []"
proof -
  let ?act = "\<lambda>a. [\<lambda>x :: nat. Inr (x + a) :: nat result]"
  let ?s = "(pool_init 1 [5] (0 :: nat))\<lparr>calls := map Get [5] @ [Close, Notify, Join 0], queue := push 5 ActionQueue_make, workers := [Waiting], pushed := [5]\<rparr>"
  have "pool_step ?act (pool_init 1 [5] (0 :: nat)) ?s"
    using pool_step.start [of "pool_init 1 [5] (0 :: nat)" 5] by (simp add: pool_init_def pool_program_def notify_all_def)
  then have r: "(pool_move ?act)\<^sup>*\<^sup>* (pool_init 1 [5] (0 :: nat)) ?s" by (intro r_into_rtranclp pool_move.step)
  have "distinct [5 :: nat]" "5 \<notin> set (begun ?s)" by (simp_all add: pool_init_def)
  then show ?thesis using r pool_runs_actions_once [OF r] by (intro exI [of _ ?s]) simp
qed

text \<open>
  C12: with at least one worker a producer always ends: every step of a thread brings the pool closer to
  its end, spurious wake-ups apart, after which a worker only repeats its test; and a reachable pool in which no
  thread can take a step has run all actions, has an empty queue, and has joined all workers, so no
  notification is lost.
\<close>
theorem pool_terminates:
  assumes "0 < n" "(pool_move act)\<^sup>*\<^sup>* (pool_init n as x) s"
  shows "(\<forall>s'. pool_step act s s' \<longrightarrow> remaining act s' < remaining act s) \<and>
    ((\<nexists>s'. pool_step act s s') \<longrightarrow> pool_final s \<and> mset (finished s) = mset as \<and> actions (queue s) = [])"
  using step_remaining pool_progress [OF pool_inv_reachable [OF assms(2)] assms(1)]
    pool_final_all [OF pool_inv_reachable [OF assms(2)] assms(1)] by blast

theorem pool_terminates_witness:
  "\<exists>s'. pool_step (\<lambda>a. [\<lambda>x. Inr (x + a)]) (pool_init 2 [0, 1] (0 :: nat)) s' \<and>
     remaining (\<lambda>a. [\<lambda>x. Inr (x + a)]) s' < remaining (\<lambda>a. [\<lambda>x. Inr (x + a)]) (pool_init 2 [0, 1] (0 :: nat))"
proof -
  have "calls (pool_init 2 [0, 1] (0 :: nat)) = Run 0 # [Run 1, Get 0, Get 1, Close, Notify, Join 0, Join 1]"
    by (simp add: pool_init_def pool_program_def upt_rec)
  note step = pool_step.start [OF this, of "\<lambda>a. [\<lambda>x. Inr (x + a)]"]
  have "0 < (2 :: nat)" by simp
  from step pool_terminates [OF this rtranclp.rtrancl_refl, THEN conjunct1, THEN spec, THEN mp, OF step]
  show ?thesis by (intro exI conjI)
qed

text \<open>
  C39: actions that do not interfere can be taken one at a time: when no action is half done, the memory and
  the outcomes in the futures are those of running the finished actions as a whole, one after the other, in
  any order, whatever the interleaving of their accesses was.
\<close>
theorem pool_serialises:
  assumes "(pool_move act)\<^sup>*\<^sup>* (pool_init n as x) s" "distinct as" "independent I act as" "x \<in> I" "running s = []" "mset os = mset (finished s)"
  shows "memory s = in_order act os (x, \<lambda>_. None)"
  using pool_inv_reachable [OF assms(1)] trace_inv_reachable [OF assms(1,2)] assms(2-6) by (rule serialised)

theorem pool_serialises_witness:
  "\<exists>s. (pool_move (\<lambda>a. [\<lambda>x. Inr (x + a), \<lambda>x. Inr (x + 10)]))\<^sup>*\<^sup>* (pool_init 2 [1, 2] (0 :: nat)) s \<and> fst (memory s) = 23"
proof -
  let ?act = "\<lambda>a. [\<lambda>x. Inr (x + a), \<lambda>x :: nat. Inr (x + 10) :: nat result]"
  obtain s where s: "(pool_move ?act)\<^sup>*\<^sup>* (pool_init 2 [1, 2] (0 :: nat)) s" "pool_final s"
    using pool_ends [of 2 ?act "[1, 2]" "0 :: nat", OF _ rtranclp.rtrancl_refl] by auto
  have f: "mset [2, 1] = mset (finished s)" "running s = []"
    using pool_final_all [OF pool_inv_reachable [OF s(1)] _ s(2)] by simp_all
  have "independent UNIV ?act [1, 2]" by (simp add: independent_def result_of_def fault_of_def)
  then have "memory s = in_order ?act [2, 1] (0, \<lambda>_. None)"
    using s(1) f by (intro pool_serialises [where I = UNIV]) simp_all
  then have "fst (memory s) = 23" by (simp add: in_order_def body_accesses_def access_def)
  then show ?thesis using s(1) by blast
qed

text \<open>Without workers the producer waits for ever for the first future.\<close>

lemma no_workers_block:
  assumes "as \<noteq> []"
  shows "\<exists>s. (pool_step act)\<^sup>*\<^sup>* (pool_init 0 as x) s \<and> (\<nexists>s'. pool_move act s s') \<and> \<not> pool_final s"
proof -
  have "\<exists>s. (pool_step act)\<^sup>*\<^sup>* (pool_init 0 as x) s \<and> calls s = map Run cs @ map Get as @ [Close, Notify] \<and> workers s = [] \<and> finished s = []"
    if "as = bs @ cs" for bs cs
    using that
  proof (induction bs arbitrary: cs rule: rev_induct)
    case Nil
    then show ?case by (intro exI [of _ "pool_init 0 as x"]) (simp add: pool_init_def pool_program_def)
  next
    case (snoc b bs)
    then obtain s where s: "(pool_step act)\<^sup>*\<^sup>* (pool_init 0 as x) s" "calls s = Run b # map Run cs @ map Get as @ [Close, Notify]" "workers s = []" "finished s = []"
      using snoc.IH [of "b # cs"] by auto
    then show ?case using rtranclp.rtrancl_into_rtrancl [OF s(1) pool_step.start [OF s(2)]]
      by (intro exI conjI) (assumption, simp_all add: notify_all_def)
  qed
  then obtain s where s: "(pool_step act)\<^sup>*\<^sup>* (pool_init 0 as x) s" "calls s = map Get as @ [Close, Notify]" "workers s = []" "finished s = []"
    by (metis append_Nil2 append_Nil list.map(1))
  moreover have "\<nexists>s'. pool_step act s s'" using s assms by (auto elim!: pool_step.cases simp: map_eq_Cons_conv Cons_eq_append_conv append_eq_Cons_conv)
  ultimately show ?thesis using assms by (auto simp: pool_final_def elim!: pool_move.cases)
qed

end
