(* ===== verification/Embedding_Tables.thy ===== *)
theory Embedding_Tables
  imports Data_Transfer Cxl_Runner
begin

text \<open>
  Embedding tables in device memory (\<open>sls/operation/api/embedding_tables.cpp\<close> and
  \<open>include/pnmlib/sls/embedding_tables.h\<close>): one buffer per table, the layout that tells the
  execution generator which compute units hold a table and where, and the copy of the user's data.
  The lemmas follow the tables from the allocation by the kernel module over the copy to the
  compute units' memory to the reduction that reads them there.
\<close>

section \<open>Creating tables\<close>

record EmbeddingTables =
  et_buffers :: "Buffer list"
  et_layout :: "MemoryObject list list"

definition table_props :: "alloc_consts \<Rightarrow> u32 \<Rightarrow> PropertiesList result" where
  "table_props C option =
     (if option = SLS_ALLOC_REPLICATE_ALL C \<or> option = SLS_ALLOC_AUTO C
      then Inr (add_property MEM_ALLOCATION_POLICY (SLS_ALLOC_REPLICATE_ALL C) Map.empty)
      else if option \<noteq> SLS_ALLOC_DISTRIBUTE_ALL C then Inl (Throw InvalidArguments) else Inr Map.empty)"

text \<open>An exception in a constructor destroys the buffers made so far; other faults end the program.\<close>

primrec destroy_buffers :: "'k kernel_ops \<Rightarrow> int \<Rightarrow> Buffer list \<Rightarrow> ('k, unit) kact" where
  "destroy_buffers K pid [] = lift_k (Inr ())"
| "destroy_buffers K pid (b # bs) = bind_k (Buffer_destroy K pid b) (\<lambda>_. destroy_buffers K pid bs)"

definition unwind :: "'k kernel_ops \<Rightarrow> int \<Rightarrow> Buffer list \<Rightarrow> fault \<Rightarrow> ('k, 'a) kact" where
  "unwind K pid bufs e =
     (case e of Throw _ \<Rightarrow> bind_k (destroy_buffers K pid bufs) (\<lambda>_. lift_k (Inl e))
      | StdException \<Rightarrow> bind_k (destroy_buffers K pid bufs) (\<lambda>_. lift_k (Inl e)) | _ \<Rightarrow> lift_k (Inl e))"

primrec emplace_buffers ::
  "alloc_consts \<Rightarrow> 'k kernel_ops \<Rightarrow> int \<Rightarrow> u64 \<Rightarrow> Allocator option \<Rightarrow> PropertiesList \<Rightarrow> u32 list \<Rightarrow> Buffer list \<Rightarrow>
   ('k, Buffer list) kact" where
  "emplace_buffers C K pid row_size context props [] bufs = lift_k (Inr bufs)"
| "emplace_buffers C K pid row_size context props (sz # szs) bufs = (\<lambda>k.
     case Buffer_make C K pid 1 (ucast sz * row_size) context props k of
       (Inl e, k') \<Rightarrow> unwind K pid bufs e k'
     | (Inr b, k') \<Rightarrow> emplace_buffers C K pid row_size context props szs (bufs @ [b]) k')"

text \<open>The compute units that hold a table, as a mask, and the offsets of the table there.\<close>

primrec set_offsets :: "SequentialRegion list \<Rightarrow> MemoryObject \<Rightarrow> nat \<Rightarrow> (MemoryObject \<times> nat) result" where
  "set_offsets [] ob msk = Inr (ob, msk)"
| "set_offsets (s # rs) ob msk =
     (case reg_location s of None \<Rightarrow> set_offsets rs ob msk
      | Some l \<Rightarrow> if 32 \<le> unat l then Inl Undefined
          else bind_r (obj_set_offset ob (unat l) (reg_start s)) (\<lambda>ob. set_offsets rs ob (msk OR 2 ^ unat l)))"

definition place_table :: "Constants \<Rightarrow> nat \<Rightarrow> Buffer \<Rightarrow> MemoryObject list list \<Rightarrow> MemoryObject list list result" where
  "place_table topo tid b layout =
     bind_r (get_ranked (dr_value (dev_region b))) (\<lambda>rs.
       case find (\<lambda>s. reg_location s \<noteq> None) rs of None \<Rightarrow> Inl AssertFail
       | Some valid_region \<Rightarrow>
           bind_r (set_offsets rs (MemoryObject_make tid (unat (reg_size valid_region)) (NumOfCUnits topo)) 0) (\<lambda>(ob, msk).
             if msk < length layout then Inr (layout[msk := layout ! msk @ [ob]]) else Inl Undefined))"

primrec place_tables :: "Constants \<Rightarrow> nat \<Rightarrow> Buffer list \<Rightarrow> MemoryObject list list \<Rightarrow> MemoryObject list list result" where
  "place_tables topo tid [] layout = Inr layout"
| "place_tables topo tid (b # bs) layout = bind_r (place_table topo tid b layout) (place_tables topo (tid + 1) bs)"

definition construct_layout :: "Constants \<Rightarrow> Buffer list \<Rightarrow> MemoryObject list list result" where
  "construct_layout topo bufs = place_tables topo 0 bufs (replicate (2 ^ NumOfCUnits topo) [])"

definition init_buffers ::
  "Constants \<Rightarrow> alloc_consts \<Rightarrow> 'k kernel_ops \<Rightarrow> int \<Rightarrow> u32 list \<Rightarrow> u64 \<Rightarrow> Allocator option \<Rightarrow> u32 \<Rightarrow>
   ('k, EmbeddingTables) kact" where
  "init_buffers topo C K pid table_sizes row_size context option =
     bind_k (lift_k (table_props C option)) (\<lambda>props.
     bind_k (emplace_buffers C K pid row_size context props table_sizes []) (\<lambda>bufs.
       case construct_layout topo bufs of Inl e \<Rightarrow> unwind K pid bufs e
       | Inr layout \<Rightarrow> lift_k (Inr \<lparr>et_buffers = bufs, et_layout = layout\<rparr>)))"

text \<open>
  The host data is the range from \<open>a\<close> to \<open>z\<close>; the views of the tables are cut off it one after the
  other without a check.
\<close>

primrec transfer_buffers :: "machine \<Rightarrow> Buffer list \<Rightarrow> nat \<Rightarrow> nat \<Rightarrow> bmem \<Rightarrow> bmem \<Rightarrow> (Buffer list \<times> bmem) result" where
  "transfer_buffers M [] a z h m = Inr ([], m)"
| "transfer_buffers M (b # bs) a z h m =
     (let n = unat (buf_size b) in
      if z < a + n then Inl Undefined
      else bind_r (bind_user_region (a, n) b) (\<lambda>b.
        bind_r (Buffer_copy_to_device M 1 b h m) (\<lambda>(b, m, _).
        bind_r (transfer_buffers M bs (a + n) z h m) (\<lambda>(bs, m). Inr (b # bs, m)))))"

definition transfer_data :: "machine \<Rightarrow> EmbeddingTables \<Rightarrow> nat \<times> nat \<Rightarrow> bmem \<Rightarrow> bmem \<Rightarrow> (EmbeddingTables \<times> bmem) result" where
  "transfer_data M et host h m =
     bind_r (transfer_buffers M (et_buffers et) (fst host) (fst host + snd host) h m) (\<lambda>(bufs, m).
       Inr (et\<lparr>et_buffers := bufs\<rparr>, m))"

text \<open>The constructor that also copies the data; the object exists by then, so an exception destroys its buffers.\<close>

definition EmbeddingTables_create ::
  "Constants \<Rightarrow> machine \<Rightarrow> alloc_consts \<Rightarrow> 'k kernel_ops \<Rightarrow> int \<Rightarrow> nat \<times> nat \<Rightarrow> u32 list \<Rightarrow> u64 \<Rightarrow> Allocator option \<Rightarrow> u32 \<Rightarrow>
   bmem \<Rightarrow> bmem \<Rightarrow> ('k, EmbeddingTables \<times> bmem) kact" where
  "EmbeddingTables_create topo M C K pid host table_sizes row_size context option h m =
     bind_k (init_buffers topo C K pid table_sizes row_size context option) (\<lambda>et.
       case transfer_data M et host h m of Inl e \<Rightarrow> unwind K pid (et_buffers et) e | Inr r \<Rightarrow> lift_k (Inr r))"

section \<open>Specification\<close>

text \<open>
  What the runner relies on beyond \<open>pool_ok\<close>: an allocation is in one of the \<open>n\<close> pools, aligned to
  pages, ends within the pool's \<open>cap\<close> bytes, and does not overlap a live one of the same pool.
\<close>

definition alloc_ok :: "nat \<Rightarrow> nat \<Rightarrow> pnm_allocation \<Rightarrow> bool" where
  "alloc_ok n cap r \<longleftrightarrow> unat (memory_pool r) < n \<and> 4096 dvd unat (pa_addr r) \<and> unat (pa_addr r) + unat (pa_size r) \<le> cap"

definition apart_allocs :: "pnm_allocation \<Rightarrow> pnm_allocation \<Rightarrow> bool" where
  "apart_allocs r s \<longleftrightarrow> memory_pool r = memory_pool s \<longrightarrow>
     unat (pa_addr r) + unat (pa_size r) \<le> unat (pa_addr s) \<or> unat (pa_addr s) + unat (pa_size s) \<le> unat (pa_addr r)"

definition separate :: "nat \<Rightarrow> nat \<Rightarrow> pnm_allocation multiset \<Rightarrow> bool" where
  "separate n cap A \<longleftrightarrow> (\<forall>r \<in># A. alloc_ok n cap r) \<and> (\<forall>r s. {#r, s#} \<subseteq># A \<longrightarrow> apart_allocs r s)"

definition places_ok :: "nat \<Rightarrow> nat \<Rightarrow> 'k kernel_ops \<Rightarrow> ('k \<Rightarrow> pnm_allocation multiset) \<Rightarrow> bool" where
  "places_ok n cap K live \<longleftrightarrow>
     (\<forall>req k r k'. separate n cap (live k) \<longrightarrow> k_allocate K req k = (Inr r, k') \<longrightarrow> separate n cap (live k'))"

text \<open>The regions of one table: at the position of a compute unit there is none, or one of the table's size in that unit.\<close>

definition located :: "SequentialRegion list \<Rightarrow> SequentialRegion list" where
  "located rs = filter (\<lambda>s. reg_location s \<noteq> None) rs"

definition ranked_ok :: "nat \<Rightarrow> u64 \<Rightarrow> SequentialRegion list \<Rightarrow> bool" where
  "ranked_ok n sz rs \<longleftrightarrow> length rs = n \<and> located rs \<noteq> [] \<and>
     (\<forall>i < n. rs ! i = empty_region \<or> reg_location (rs ! i) = Some (of_nat i) \<and> reg_size (rs ! i) = sz)"

definition regions_of :: "Buffer \<Rightarrow> SequentialRegion list" where
  "regions_of b = (case dr_value (dev_region b) of Ranked rs \<Rightarrow> rs | Sequential s \<Rightarrow> [s])"

definition table_buffer :: "nat \<Rightarrow> int \<Rightarrow> u64 \<Rightarrow> Buffer \<Rightarrow> bool" where
  "table_buffer n pid sz b \<longleftrightarrow> buf_context b = Some (RankedAllocator n) \<and> buf_size b = sz \<and>
     dr_value (dev_region b) = Ranked (regions_of b) \<and> ranked_ok n sz (regions_of b) \<and>
     owner_process_id (dev_region b) = pid \<and> dr_owned (dev_region b)"

definition live_tables :: "Buffer list \<Rightarrow> pnm_allocation multiset" where
  "live_tables bufs = live_regions (concat (map regions_of bufs))"

definition holders :: "SequentialRegion list \<Rightarrow> nat" where
  "holders rs = horner_sum of_bool 2 (map (\<lambda>s. reg_location s \<noteq> None) rs)"

definition table_object :: "nat \<Rightarrow> u64 \<Rightarrow> SequentialRegion list \<Rightarrow> MemoryObject" where
  "table_object t sz rs = \<lparr>object_id = t, size_bytes = unat sz,
     offsets = map (\<lambda>s. if reg_location s = None then (False, 0) else (True, reg_start s)) rs\<rparr>"

text \<open>The objects of a pack: the tables that exactly the pack's compute units hold, in their order.\<close>

definition pack_tables :: "nat \<Rightarrow> Buffer list \<Rightarrow> nat \<Rightarrow> MemoryObject list" where
  "pack_tables t0 bufs p = map (\<lambda>(t, b). table_object t (buf_size b) (regions_of b))
     (filter (\<lambda>(t, b). holders (regions_of b) = p) (enumerate t0 bufs))"

text \<open>
  The device file: pool \<open>c\<close> is the window of \<open>cap\<close> bytes at the channel's offset, the windows do not
  overlap, and the system maps every piece of a pool.
\<close>

definition windows_ok :: "machine \<Rightarrow> nat \<Rightarrow> nat \<Rightarrow> bool" where
  "windows_ok M n cap \<longleftrightarrow> n \<le> length (channel_offsets M) \<and> cap \<le> 2 ^ 62 \<and>
     (\<forall>c < n. unat (channel_offsets M ! c) + cap \<le> 2 ^ 63) \<and>
     (\<forall>c < n. \<forall>d < n. c \<noteq> d \<longrightarrow> unat (channel_offsets M ! c) + cap \<le> unat (channel_offsets M ! d) \<or>
        unat (channel_offsets M ! d) + cap \<le> unat (channel_offsets M ! c)) \<and>
     (\<forall>c < n. \<forall>a sz len. 4096 dvd unat a \<longrightarrow> unat a + unat sz \<le> cap \<longrightarrow> 0 < sz \<longrightarrow>
        fast_align_up sz channel_page_size = Inr len \<longrightarrow> can_map M len (a + channel_offsets M ! c))"

definition region_place :: "machine \<Rightarrow> SequentialRegion \<Rightarrow> dview" where
  "region_place M s = \<lparr>dv_addr = unat (reg_start s) + unat (channel_offsets M ! unat (the (reg_location s))), dv_len = unat (reg_size s)\<rparr>"

definition table_places :: "machine \<Rightarrow> Buffer \<Rightarrow> dview list" where
  "table_places M b = map (region_place M) (located (regions_of b))"

definition region_fits :: "nat \<Rightarrow> nat \<Rightarrow> SequentialRegion \<Rightarrow> bool" where
  "region_fits n cap s \<longleftrightarrow> 0 < reg_size s \<and> alloc_ok n cap (request_of s (the (reg_location s)))"

definition table_start :: "nat \<Rightarrow> Buffer list \<Rightarrow> nat \<Rightarrow> nat" where
  "table_start a bufs t = a + sum_list (map (\<lambda>b. unat (buf_size b)) (take t bufs))"

definition alloc_place :: "machine \<Rightarrow> pnm_allocation \<Rightarrow> dview" where
  "alloc_place M r = \<lparr>dv_addr = unat (pa_addr r) + unat (channel_offsets M ! unat (memory_pool r)), dv_len = unat (pa_size r)\<rparr>"

text \<open>
  Tables with their data: every compute unit that holds a table according to the layout has the
  table's bytes at the table's offset.
\<close>

definition tables_in_memory :: "machine \<Rightarrow> nat \<Rightarrow> Buffer list \<Rightarrow> u8 list list \<Rightarrow> bmem \<Rightarrow> bool" where
  "tables_in_memory M n bufs datas m \<longleftrightarrow> (\<forall>t < length bufs. \<forall>c < n. reg_location (regions_of (bufs ! t) ! c) \<noteq> None \<longrightarrow>
     read_bytes m (unat (channel_offsets M ! c) + unat (reg_start (regions_of (bufs ! t) ! c))) (length (datas ! t)) = datas ! t)"

text \<open>The compute units see the device memory through their channels' windows.\<close>

definition sees :: "machine \<Rightarrow> nat \<Rightarrow> nat \<Rightarrow> bmem \<Rightarrow> memAddr list \<Rightarrow> bool" where
  "sees M n cap m dev \<longleftrightarrow> length dev = n \<and> (\<forall>c < n. blk_size (dev ! c) SLS_BLOCK_BASE = cap \<and>
     (\<forall>i < cap. blk (dev ! c) SLS_BLOCK_BASE i = m (unat (channel_offsets M ! c) + i)))"

definition table_bytes :: "u32 list list \<Rightarrow> u8 list" where
  "table_bytes T = concat (map row_bytes T)"

text \<open>A request as far as the host decides it; the layout comes from the tables.\<close>

definition request_shape :: "Constants \<Rightarrow> SlsOperation \<Rightarrow> u32 list list list \<Rightarrow> bool" where
  "request_shape topo op tables \<longleftrightarrow> topo_ok topo \<and> op_ok op \<and> 0 < minibatch_size op \<and> tables_sizes op \<noteq> [] \<and>
     (\<forall>l \<in> set (lengths op). 0 < l) \<and> sparse_feature_size op * DataSize topo \<le> psum_single_buf_size topo \<and>
     sim_ok topo op \<and> tables_ok op tables"

definition schedule_for :: "Constants \<Rightarrow> SparseReduction \<Rightarrow> (nat \<times> nat \<times> int) list \<Rightarrow> bool" where
  "schedule_for topo sr sched \<longleftrightarrow> valid_schedule topo sr sched \<and> (\<forall>(p, cu, res) \<in> set sched. bit p cu \<and> 0 \<le> res)"

text \<open>A module that places an allocation after all live ones.\<close>

definition page_end :: "pnm_allocation \<Rightarrow> nat" where
  "page_end r = (unat (pa_addr r) + unat (pa_size r) + 4095) div 4096"

definition bump_kernel :: "nat \<Rightarrow> nat \<Rightarrow> pnm_allocation list kernel_ops" where
  "bump_kernel n cap =
     \<lparr>k_allocate = (\<lambda>req k.
        let pool = (if memory_pool req = 255 then 0 else memory_pool req); a = 4096 * fold max (map page_end k) 0 in
        if unat pool < n \<and> a + unat (pa_size req) \<le> cap
        then (let r = req\<lparr>pa_addr := of_nat a, memory_pool := pool\<rparr> in (Inr r, r # k)) else (Inl 12, k)),
      k_deallocate = (\<lambda>r k. if r \<in> set k then (Inr (), remove1 r k) else (Inl 22, k)),
      k_make_shared = (\<lambda>r k. (Inr (r\<lparr>is_global := 1\<rparr>), k)),
      k_get_shared = (\<lambda>r k. (Inr r, k))\<rparr>"

definition one_machine :: machine where
  "one_machine = \<lparr>can_map = (\<lambda>len off. True), imdb_alignment = 4096, channel_offsets = [0]\<rparr>"

section \<open>Allocation\<close>

lemma allocate_ioctl_separate:
  assumes "places_ok n cap K live" "separate n cap (live k)" "allocate_ioctl C K sz cunit k = (Inr s, k')"
  shows "separate n cap (live k')"
proof -
  obtain req r where "k_allocate K req k = (Inr r, k')"
    using assms(3) by (auto simp: allocate_ioctl_def kact_defs split: prod.splits sum.splits)
  then show ?thesis using assms(1,2) unfolding places_ok_def by blast
qed

lemma replicate_loop_separate:
  assumes "places_ok n cap K live"
  shows "separate n cap (live k) \<Longrightarrow> cnt < 256 \<Longrightarrow> replicate_loop C K sz cnt rank rs k = Some (Inr rs', k') \<Longrightarrow> separate n cap (live k')"
proof (induction "cnt - unat rank" arbitrary: rank rs k)
  case 0
  then show ?case by (subst (asm) replicate_loop.simps) simp
next
  case (Suc d)
  then have "unat rank < cnt" by simp
  then obtain s k1 rs1 where s: "allocate_ioctl C K sz (Some rank) k = (Inr s, k1)" "replicate_loop C K sz cnt (rank + 1) rs1 k1 = Some (Inr rs', k')"
    using Suc.prems(3) by (subst (asm) replicate_loop.simps)
      (auto simp: release_and_throw_def kact_defs split: prod.splits sum.splits)
  have "unat (rank + 1) = Suc (unat rank)" using \<open>unat rank < cnt\<close> Suc.prems(2) by (simp add: unat_word_ariths)
  then show ?case using Suc.hyps(1) [OF _ allocate_ioctl_separate [OF assms Suc.prems(1) s(1)] Suc.prems(2) s(2)] Suc.hyps(2) by simp
qed

lemma located_nth:
  assumes "ranked_ok n sz rs" "s \<in> set (located rs)"
  shows "\<exists>i < n. s = rs ! i \<and> reg_location s = Some (of_nat i) \<and> reg_size s = sz"
  using assms by (fastforce simp: ranked_ok_def located_def in_set_conv_nth empty_region_def)

lemma allocate_table:
  assumes K: "pool_ok (SLS_ALLOC_ANY_CUNIT C) K live" "places_ok n cap K live" "separate n cap (live k)" "consts_ok C"
    and sz: "0 < sz" and n: "n \<le> unat (SLS_ALLOC_ANY_CUNIT C)" "0 < n" and p: "table_props C option = Inr props"
  shows "(\<exists>e k'. ranked_allocate C K n sz props k = (Inl (Throw e), k') \<and> live k' = live k) \<or>
    (\<exists>rs k'. ranked_allocate C K n sz props k = (Inr (Ranked rs), k') \<and> ranked_ok n sz rs \<and>
      live k' = live k + live_regions rs \<and> separate n cap (live k'))"
proof (cases "option = SLS_ALLOC_REPLICATE_ALL C \<or> option = SLS_ALLOC_AUTO C")
  case True
  let ?rs = "replicate n empty_region"
  have a: "ranked_allocate C K n sz props k = bind_k (allocate_replicate_all C K n sz props ?rs) (\<lambda>rs. lift_k (Inr (Ranked rs))) k"
    "\<not> has_property MEM_LOCATION props"
    using True p K(4) by (auto simp: table_props_def add_property_def ranked_allocate_def consts_ok_def has_property_def Let_def)
  have "\<exists>res k'. replicate_loop C K sz (length ?rs) 0 ?rs k = Some (res, k') \<and>
      (case res of Inl e \<Rightarrow> (\<exists>x. e = Throw x) \<and> live k' = live k
       | Inr rs' \<Rightarrow> length rs' = length ?rs \<and> filled sz (length ?rs) rs' \<and> live k' = live k + live_regions rs')"
    using n by (intro replicate_loop_correct [OF K(1) sz]) (simp_all add: filled_def)
  then obtain res k' where l: "replicate_loop C K sz n 0 ?rs k = Some (res, k')"
    "case res of Inl e \<Rightarrow> (\<exists>x. e = Throw x) \<and> live k' = live k | Inr rs' \<Rightarrow> length rs' = n \<and> filled sz n rs' \<and> live k' = live k + live_regions rs'"
    unfolding length_replicate by blast
  show ?thesis
  proof (cases res)
    case (Inr rs)
    have "n < 256" using n(1) byte_bound(1) [of "SLS_ALLOC_ANY_CUNIT C"] by simp
    then have "separate n cap (live k')" using replicate_loop_separate [OF K(2,3) _ l(1) [unfolded Inr]] by blast
    moreover have "rs ! 0 \<in> set (located rs)" using l(2) n Inr by (auto simp: located_def filled_def)
    moreover have "ranked_ok n sz rs" using l(2) Inr calculation(2) by (auto simp: ranked_ok_def filled_def)
    ultimately show ?thesis using l Inr a by (auto simp: allocate_replicate_all_def kact_defs)
  qed (use l a in \<open>auto simp: allocate_replicate_all_def kact_defs\<close>)
next
  case False
  then have props: "props = Map.empty" using p by (auto simp: table_props_def split: if_splits)
  let ?rs = "replicate n empty_region"
  have a: "ranked_allocate C K n sz props k = bind_k (allocate_ioctl C K sz None) (\<lambda>s. bind_k (lift_k (store_region ?rs s)) (\<lambda>rs. lift_k (Inr (Ranked rs)))) k"
    unfolding props by (simp add: ranked_allocate_def allocate_single_def kact_defs split: prod.splits sum.splits)
  show ?thesis using allocate_ioctl_correct [OF K(1), of sz None k]
  proof (elim disjE exE conjE)
    fix s k' l assume s: "allocate_ioctl C K sz None k = (Inr s, k')" "reg_size s = sz" "reg_location s = Some l"
      "live k' = add_mset (request_of s l) (live k)"
    have sep: "separate n cap (live k')" by (rule allocate_ioctl_separate [OF K(2,3) s(1)])
    then have l: "unat l < n" using s(4) by (auto simp: separate_def alloc_ok_def request_of_def)
    let ?rs' = "?rs[unat l := s]"
    have lr: "live_regions ?rs' = {#request_of s l#}"
      using l s(2,3) sz by (subst live_regions_update) (simp_all, simp add: empty_region_def)
    have "s \<in> set (located ?rs')" using l s(3) set_update_memI [of "unat l" ?rs s] by (simp add: located_def)
    then have "ranked_ok n sz ?rs'" using l s(2,3) by (auto simp: ranked_ok_def nth_list_update)
    moreover have "ranked_allocate C K n sz props k = (Inr (Ranked ?rs'), k')" unfolding a using s(1,3) l by (simp add: kact_defs store_region_def)
    ultimately show ?thesis using s(4) lr sep by auto
  qed (use a in \<open>auto simp: kact_defs\<close>)
qed

lemma make_table:
  assumes K: "pool_ok (SLS_ALLOC_ANY_CUNIT C) K live" "places_ok n cap K live" "separate n cap (live k)" "consts_ok C"
    and sz: "0 < sz" and n: "n \<le> unat (SLS_ALLOC_ANY_CUNIT C)" "0 < n" and p: "table_props C option = Inr props"
  shows "(\<exists>e k'. Buffer_make C K pid 1 sz (Some (RankedAllocator n)) props k = (Inl (Throw e), k') \<and> live k' = live k) \<or>
    (\<exists>b k'. Buffer_make C K pid 1 sz (Some (RankedAllocator n)) props k = (Inr b, k') \<and> table_buffer n pid sz b \<and>
      live k' = live k + live_regions (regions_of b) \<and> separate n cap (live k'))"
  using allocate_table [OF K sz n p]
  by (elim disjE exE conjE) (auto simp: Buffer_make_def allocate_def kact_defs table_buffer_def regions_of_def default_wrapper_def)

lemma live_tables_simps [simp]:
  "live_tables [] = {#}" "live_tables (b # bs) = live_regions (regions_of b) + live_tables bs"
  "live_tables (bs @ cs) = live_tables bs + live_tables cs"
  by (simp_all add: live_tables_def)

lemma table_regions_located: "table_buffer n pid sz b \<Longrightarrow> s \<in> set (regions_of b) \<Longrightarrow> 0 < reg_size s \<Longrightarrow> reg_location s \<noteq> None"
  by (fastforce simp: table_buffer_def ranked_ok_def in_set_conv_nth empty_region_def)

lemma destroy_tables:
  assumes "pool_ok any K live" "live_tables bufs \<subseteq># live k" "\<forall>b \<in> set bufs. \<exists>sz. table_buffer n pid sz b"
  shows "\<exists>k'. destroy_buffers K pid bufs k = (Inr (), k') \<and> live k' = live k - live_tables bufs"
  using assms(2,3)
proof (induction bufs arbitrary: k)
  case (Cons b bs)
  obtain sz where b: "table_buffer n pid sz b" using Cons.prems(2) by auto
  obtain R where R: "live k = live_regions (regions_of b) + live_tables bs + R"
    using Cons.prems(1) by (auto simp: mset_subset_eq_exists_conv)
  then have "live_regions (regions_of b) \<subseteq># live k" by (simp add: add.assoc)
  then obtain k1 where k1: "deallocate_regions K (regions_of b) k = (Inr (), k1)" "live k1 = live k - live_regions (regions_of b)"
    using deallocate_regions_correct [OF assms(1), of "regions_of b" k] table_regions_located [OF b] by blast
  have "Buffer_destroy K pid b k = (Inr (), k1)"
    using b k1(1) by (simp add: table_buffer_def Buffer_destroy_def release_def deallocate_def ranked_deallocate_def kact_defs get_ranked_def)
  moreover have "live_tables bs \<subseteq># live k1" using R k1(2) by (simp add: add.assoc)
  ultimately show ?case using Cons.IH [of k1] Cons.prems(2) k1(2) by (auto simp: kact_defs diff_diff_add_mset)
qed (simp add: lift_k_def)

lemma unwind_tables:
  assumes "pool_ok any K live" "live k = L + live_tables bufs" "\<forall>b \<in> set bufs. \<exists>sz. table_buffer n pid sz b"
  shows "\<exists>k'. unwind K pid bufs (Throw e) k = (Inl (Throw e), k') \<and> live k' = L"
  using destroy_tables [OF assms(1) _ assms(3), of k] assms(2) by (auto simp: unwind_def kact_defs)

lemma emplace_tables:
  assumes K: "pool_ok (SLS_ALLOC_ANY_CUNIT C) K live" "places_ok n cap K live" "consts_ok C"
    and n: "n \<le> unat (SLS_ALLOC_ANY_CUNIT C)" "0 < n" and p: "table_props C option = Inr props"
  shows "\<lbrakk>separate n cap (live k); \<forall>sz \<in> set szs. 0 < ucast sz * row_size; live k = L + live_tables bufs;
    list_all2 (\<lambda>sz b. table_buffer n pid (ucast sz * row_size) b) done bufs\<rbrakk> \<Longrightarrow>
    (\<exists>e k'. emplace_buffers C K pid row_size (Some (RankedAllocator n)) props szs bufs k = (Inl (Throw e), k') \<and> live k' = L) \<or>
    (\<exists>bufs' k'. emplace_buffers C K pid row_size (Some (RankedAllocator n)) props szs bufs k = (Inr bufs', k') \<and>
      list_all2 (\<lambda>sz b. table_buffer n pid (ucast sz * row_size) b) (done @ szs) bufs' \<and>
      live k' = L + live_tables bufs' \<and> separate n cap (live k'))"
proof (induction szs arbitrary: k bufs "done")
  case Nil
  then show ?case by (simp add: lift_k_def)
next
  case (Cons sz szs)
  let ?make = "Buffer_make C K pid 1 (ucast sz * row_size) (Some (RankedAllocator n)) props k"
  have sz: "0 < (ucast sz * row_size :: u64)" using Cons.prems(2) by simp
  show ?case using make_table [OF K(1,2) Cons.prems(1) K(3) sz n p, of pid]
  proof (elim disjE exE conjE)
    fix e k' assume e: "?make = (Inl (Throw e), k')" "live k' = live k"
    have "\<forall>b \<in> set bufs. \<exists>sz. table_buffer n pid sz b" using Cons.prems(4) by (fastforce simp: list_all2_conv_all_nth in_set_conv_nth)
    then show ?thesis using unwind_tables [OF K(1), of k' L bufs n pid e] e Cons.prems(3) by auto
  next
    fix b k' assume b: "?make = (Inr b, k')" "table_buffer n pid (ucast sz * row_size) b"
      "live k' = live k + live_regions (regions_of b)" "separate n cap (live k')"
    have "list_all2 (\<lambda>sz b. table_buffer n pid (ucast sz * row_size) b) (done @ [sz]) (bufs @ [b])"
      using Cons.prems(4) b(2) by (intro list_all2_appendI) simp_all
    then show ?thesis using Cons.IH [of k' "bufs @ [b]" "done @ [sz]"] b Cons.prems by (simp add: ac_simps)
  qed
qed

section \<open>The layout\<close>

lemma holders_bit: "bit (holders rs) c \<longleftrightarrow> c < length rs \<and> reg_location (rs ! c) \<noteq> None"
  by (auto simp: holders_def bit_horner_sum_bit_iff)

lemma holders_less: "holders rs < 2 ^ length rs"
  using horner_sum_of_bool_2_less [of "map (\<lambda>s. reg_location s \<noteq> None) rs"] by (simp add: holders_def)

lemma holders_append: "holders (rs @ [s]) = holders rs OR (if reg_location s = None then 0 else 2 ^ length rs)"
  by (rule bit_eqI) (auto simp: holders_bit bit_or_iff nth_append bit_exp_iff split: if_splits)

lemma set_offsets_correct:
  assumes "\<forall>j < length rs. reg_location (rs ! j) = None \<or> reg_location (rs ! j) = Some (of_nat (length pre + j))" "length pre + length rs \<le> 32"
    "length pre + length rs \<le> n"
  shows "set_offsets rs \<lparr>object_id = t, size_bytes = sz, offsets = offsets (table_object t 0 pre) @ replicate (n - length pre) (False, 0)\<rparr> (holders pre) =
    Inr (\<lparr>object_id = t, size_bytes = sz, offsets = offsets (table_object t 0 (pre @ rs)) @ replicate (n - length pre - length rs) (False, 0)\<rparr>, holders (pre @ rs))"
  using assms
proof (induction rs arbitrary: pre)
  case (Cons s rs)
  obtain k where k: "n - length pre = Suc k" using Cons.prems(3) by (cases "n - length pre") simp_all
  then have k': "n - Suc (length pre) = k" "n - Suc (length pre + length rs) = k - length rs" by simp_all
  have IH: "set_offsets rs \<lparr>object_id = t, size_bytes = sz, offsets = offsets (table_object t 0 (pre @ [s])) @ replicate (n - length (pre @ [s])) (False, 0)\<rparr> (holders (pre @ [s])) =
    Inr (\<lparr>object_id = t, size_bytes = sz, offsets = offsets (table_object t 0 ((pre @ [s]) @ rs)) @ replicate (n - length (pre @ [s]) - length rs) (False, 0)\<rparr>, holders ((pre @ [s]) @ rs))"
    using Cons.prems by (intro Cons.IH) (fastforce simp: nth_append)+
  show ?case
  proof (cases "reg_location s")
    case None
    then show ?thesis using IH k k' by (simp add: holders_append table_object_def)
  next
    case (Some l)
    then have l: "l = of_nat (length pre)" using Cons.prems(1) by (metis length_greater_0_conv list.distinct(1) nth_Cons_0 option.distinct(1) option.inject add_0_right)
    then have "unat l = length pre" using Cons.prems(2) by (simp add: unat_of_nat take_bit_nat_eq_self)
    then show ?thesis using IH k k' Some Cons.prems(2)
      by (simp add: holders_append table_object_def obj_set_offset_def assert_r_def list_update_append)
  qed
qed (simp add: table_object_def)

lemma place_table_correct:
  assumes "table_buffer (NumOfCUnits topo) pid sz b" "NumOfCUnits topo \<le> 8" "length layout = num_of_pack topo"
  shows "place_table topo t b layout = Inr (layout[holders (regions_of b) := layout ! holders (regions_of b) @ [table_object t sz (regions_of b)]])"
proof -
  let ?rs = "regions_of b" and ?n = "NumOfCUnits topo"
  have b: "dr_value (dev_region b) = Ranked ?rs" "ranked_ok ?n sz ?rs" using assms(1) by (simp_all add: table_buffer_def)
  have loc: "reg_location (?rs ! j) = None \<or> reg_location (?rs ! j) = Some (of_nat j)" if "j < ?n" for j
    using b(2) that unfolding ranked_ok_def by (auto simp: empty_region_def)
  have len: "length ?rs = ?n" using b(2) by (simp add: ranked_ok_def)
  obtain s where s: "find (\<lambda>s. reg_location s \<noteq> None) ?rs = Some s"
    using b(2) by (cases "find (\<lambda>s. reg_location s \<noteq> None) ?rs") (auto simp: ranked_ok_def located_def find_None_iff filter_empty_conv)
  then have "reg_size s = sz" using located_nth [OF b(2), of s] by (auto simp: located_def find_Some_iff)
  moreover have "set_offsets ?rs (MemoryObject_make t (unat sz) ?n) 0 = Inr (table_object t sz ?rs, holders ?rs)"
    using set_offsets_correct [of ?rs "[]" ?n t "unat sz"] loc len assms(2) by (simp add: MemoryObject_make_def table_object_def holders_def)
  moreover have "holders ?rs < length layout" using holders_less [of ?rs] assms(3) len by (simp add: num_of_pack_def)
  ultimately show ?thesis using b(1) s by (simp add: place_table_def get_ranked_def)
qed

lemma place_tables_correct:
  assumes "\<forall>b \<in> set bufs. table_buffer (NumOfCUnits topo) pid (buf_size b) b" "NumOfCUnits topo \<le> 8" "length layout = num_of_pack topo"
  shows "place_tables topo t bufs layout = Inr (map (\<lambda>p. layout ! p @ pack_tables t bufs p) [0..<num_of_pack topo])"
  using assms(1,3)
proof (induction bufs arbitrary: t layout)
  case Nil
  then show ?case by (auto simp: pack_tables_def intro: nth_equalityI)
next
  case (Cons b bufs)
  let ?h = "holders (regions_of b)" and ?o = "table_object t (buf_size b) (regions_of b)"
  let ?l = "layout[?h := layout ! ?h @ [?o]]"
  have b: "table_buffer (NumOfCUnits topo) pid (buf_size b) b" using Cons.prems(1) by simp
  have "place_tables topo t (b # bufs) layout = place_tables topo (t + 1) bufs ?l"
    by (simp add: place_table_correct [OF b assms(2) Cons.prems(2)])
  also have "\<dots> = Inr (map (\<lambda>p. ?l ! p @ pack_tables (t + 1) bufs p) [0..<num_of_pack topo])" using Cons.prems by (intro Cons.IH) simp_all
  also have "\<dots> = Inr (map (\<lambda>p. layout ! p @ pack_tables t (b # bufs) p) [0..<num_of_pack topo])"
    using Cons.prems(2) by (auto simp: pack_tables_def nth_list_update)
  finally show ?case .
qed

lemma construct_layout_correct:
  assumes "\<forall>b \<in> set bufs. table_buffer (NumOfCUnits topo) pid (buf_size b) b" "NumOfCUnits topo \<le> 8"
  shows "construct_layout topo bufs = Inr (map (pack_tables 0 bufs) [0..<num_of_pack topo])"
  unfolding construct_layout_def
  by (subst place_tables_correct [OF assms]) (simp_all add: num_of_pack_def)

lemma pack_tables_iff:
  "ob \<in> set (pack_tables 0 bufs p) \<longleftrightarrow>
    (\<exists>t < length bufs. holders (regions_of (bufs ! t)) = p \<and> ob = table_object t (buf_size (bufs ! t)) (regions_of (bufs ! t)))"
  by (auto simp: pack_tables_def in_set_enumerate_eq)

lemma distinct_packs: "distinct ps \<Longrightarrow> distinct (concat (map (\<lambda>p. map object_id (pack_tables 0 bufs p)) ps))"
proof (induction ps)
  case (Cons p ps)
  have ids: "map object_id (pack_tables 0 bufs p) = map fst (filter (\<lambda>(t, b). holders (regions_of b) = p) (enumerate 0 bufs))"
    by (simp add: pack_tables_def table_object_def split_def)
  have "distinct (map object_id (pack_tables 0 bufs p))"
    unfolding ids by (rule distinct_map_filter) simp
  moreover have "set (map object_id (pack_tables 0 bufs p)) \<inter> set (concat (map (\<lambda>p. map object_id (pack_tables 0 bufs p)) ps)) = {}"
    using Cons.prems by (auto simp: pack_tables_iff table_object_def)
  ultimately show ?case using Cons by simp
qed simp

lemma holders_pack:
  assumes "table_buffer (NumOfCUnits topo) pid sz b"
  shows "holders (regions_of b) \<in> set (pack_identifiers topo)"
proof -
  let ?rs = "regions_of b"
  have rs: "length ?rs = NumOfCUnits topo" "located ?rs \<noteq> []" using assms by (simp_all add: table_buffer_def ranked_ok_def)
  then obtain i where "i < length ?rs" "reg_location (?rs ! i) \<noteq> None" by (auto simp: located_def filter_empty_conv in_set_conv_nth)
  then have "bit (holders ?rs) i" by (simp add: holders_bit)
  then have "holders ?rs \<noteq> 0" by (metis bit_0_eq bot_apply bot_bool_def)
  then show ?thesis using holders_less [of ?rs] rs(1) by (simp add: pack_id_less num_of_pack_def)
qed

lemma layout_of_tables:
  assumes "\<forall>b \<in> set bufs. table_buffer (NumOfCUnits topo) pid (buf_size b) b"
  defines "layout \<equiv> map (pack_tables 0 bufs) [0..<num_of_pack topo]"
  shows "layout_ok topo (length bufs) layout"
    "\<forall>t < length bufs. \<exists>p \<in> set (pack_identifiers topo). t \<in> object_id ` set (layout ! p)"
proof -
  have nth: "layout ! p = pack_tables 0 bufs p" if "p \<in> set (pack_identifiers topo)" for p
    using that by (simp add: layout_def pack_id_less)
  have m: "map (\<lambda>p. map object_id (layout ! p)) (pack_identifiers topo) = map (\<lambda>p. map object_id (pack_tables 0 bufs p)) (pack_identifiers topo)"
    using nth by simp
  have "distinct (concat (map (\<lambda>p. map object_id (layout ! p)) (pack_identifiers topo)))"
    unfolding m by (rule distinct_packs) (simp add: pack_identifiers_def)
  then show "layout_ok topo (length bufs) layout"
    using nth by (auto simp: layout_ok_def pack_tables_iff table_object_def layout_def)
  show "\<forall>t < length bufs. \<exists>p \<in> set (pack_identifiers topo). t \<in> object_id ` set (layout ! p)"
  proof (intro allI impI)
    fix t assume t: "t < length bufs"
    have p: "holders (regions_of (bufs ! t)) \<in> set (pack_identifiers topo)"
      by (rule holders_pack) (use assms(1) t in \<open>auto dest: nth_mem\<close>)
    have "table_object t (buf_size (bufs ! t)) (regions_of (bufs ! t)) \<in> set (layout ! holders (regions_of (bufs ! t)))"
      using t by (auto simp: nth [OF p] pack_tables_iff)
    then show "\<exists>p \<in> set (pack_identifiers topo). t \<in> object_id ` set (layout ! p)" using p by (force simp: table_object_def)
  qed
qed

text \<open>What the constructor of tables gives, whatever the policy.\<close>

lemma init_buffers_correct:
  assumes K: "pool_ok (SLS_ALLOC_ANY_CUNIT C) K live" "places_ok n cap K live" "separate n cap (live k)" "consts_ok C"
    and n: "n = NumOfCUnits topo" "topo_ok topo" "n \<le> unat (SLS_ALLOC_ANY_CUNIT C)"
    and sz: "\<forall>sz \<in> set szs. 0 < (ucast sz * row_size :: u64)"
  shows "(\<exists>e k'. init_buffers topo C K pid szs row_size (Some (RankedAllocator n)) option k = (Inl (Throw e), k') \<and> live k' = live k) \<or>
    (\<exists>bufs k'. init_buffers topo C K pid szs row_size (Some (RankedAllocator n)) option k =
        (Inr \<lparr>et_buffers = bufs, et_layout = map (pack_tables 0 bufs) [0..<num_of_pack topo]\<rparr>, k') \<and>
      list_all2 (\<lambda>sz b. table_buffer n pid (ucast sz * row_size) b) szs bufs \<and>
      live k' = live k + live_tables bufs \<and> separate n cap (live k'))"
proof (cases "table_props C option")
  case (Inl e)
  then show ?thesis by (auto simp: init_buffers_def kact_defs table_props_def split: if_splits)
next
  case (Inr props)
  have n': "0 < n" "n \<le> 8" using n(1,2) by (simp_all add: topo_ok_def)
  have l: "live k = live k + live_tables []" "list_all2 (\<lambda>sz b. table_buffer n pid (ucast sz * row_size) b) [] []" by simp_all
  show ?thesis
    using emplace_tables [OF K(1,2,4) n(3) n'(1) Inr K(3) sz l]
  proof (elim disjE exE conjE)
    fix e k' assume "emplace_buffers C K pid row_size (Some (RankedAllocator n)) props szs [] k = (Inl (Throw e), k')" "live k' = live k"
    then show ?thesis using Inr by (auto simp: init_buffers_def kact_defs)
  next
    fix bufs k' assume e: "emplace_buffers C K pid row_size (Some (RankedAllocator n)) props szs [] k = (Inr bufs, k')"
      "list_all2 (\<lambda>sz b. table_buffer n pid (ucast sz * row_size) b) ([] @ szs) bufs" "live k' = live k + live_tables bufs" "separate n cap (live k')"
    have "\<forall>b \<in> set bufs. table_buffer (NumOfCUnits topo) pid (buf_size b) b"
      using e(2) n(1) by (fastforce simp: list_all2_conv_all_nth in_set_conv_nth table_buffer_def)
    then have "construct_layout topo bufs = Inr (map (pack_tables 0 bufs) [0..<num_of_pack topo])"
      using n(1) n'(2) by (intro construct_layout_correct) simp_all
    then show ?thesis using Inr e by (auto simp: init_buffers_def kact_defs)
  qed
qed

section \<open>Copying the data\<close>

lemma align_up_page:
  assumes "unat sz \<le> 2 ^ 62"
  shows "\<exists>len. fast_align_up sz channel_page_size = Inr len \<and> sz \<le> len"
proof -
  have ne: "channel_page_size \<noteq> 0 \<and> channel_page_size AND (channel_page_size - 1) = 0" unfolding channel_page_size_def by simp
  let ?x = "sz + channel_page_size - 1"
  have x: "unat ?x = unat sz + (2 ^ 21 - 1)" using assms unfolding channel_page_size_def by (simp add: unat_word_ariths)
  have "?x AND NOT (channel_page_size - 1) = push_bit 21 (drop_bit 21 ?x)"
  proof (rule bit_word_eqI)
    fix i assume "i < LENGTH(64)"
    have "channel_page_size - 1 = mask 21" unfolding channel_page_size_def by (simp add: mask_eq_exp_minus_1)
    then show "bit (?x AND NOT (channel_page_size - 1)) i = bit (push_bit 21 (drop_bit 21 ?x)) i"
      using \<open>i < LENGTH(64)\<close> by (auto simp: bit_simps)
  qed
  moreover have "unat (push_bit 21 (drop_bit 21 ?x)) = unat ?x div 2 ^ 21 * 2 ^ 21"
  proof -
    have "unat ?x div 2 ^ 21 * 2 ^ 21 \<le> unat ?x" by simp
    moreover have "unat ?x < 2 ^ 64" using unsigned_less [of ?x] by simp
    ultimately have "unat ?x div 2 ^ 21 * 2 ^ 21 < 2 ^ 64" by (rule le_less_trans)
    then show ?thesis by (simp add: drop_bit_eq_div push_bit_eq_mult unat_word_ariths unat_div)
  qed
  moreover have "u \<le> (u + (d - 1)) div d * d" if "0 < d" for u d :: nat
    using div_mult_mod_eq [of "u + (d - 1)" d] mod_less_divisor [OF that, of "u + (d - 1)"] that by linarith
  ultimately show ?thesis using ne x by (simp add: fast_align_up_def assert_r_def word_le_nat_alt)
qed

lemma map_table:
  assumes "windows_ok M n cap" "\<forall>s \<in> set (located rs). region_fits n cap s"
  shows "\<exists>vs e. map_channels (can_map M) (take n (channel_offsets M)) rs d = Inr (vs, e) \<and>
    nonempty_views vs = map (region_place M) (located rs)"
  using assms(2)
proof (induction rs arbitrary: d)
  case Nil
  then show ?case by (simp add: nonempty_views_def located_def)
next
  case (Cons s rs)
  show ?case
  proof (cases "reg_location s")
    case None
    then obtain vs e where "map_channels (can_map M) (take n (channel_offsets M)) rs d = Inr (vs, e)"
      "nonempty_views vs = map (region_place M) (located rs)" using Cons.IH [of d] Cons.prems by (auto simp: located_def)
    then show ?thesis using None by (auto simp: nonempty_views_def empty_view_def located_def)
  next
    case (Some l)
    let ?o = "channel_offsets M ! unat l"
    have s: "0 < reg_size s" "unat l < n" "4096 dvd unat (reg_start s)" "unat (reg_start s) + unat (reg_size s) \<le> cap"
      using Cons.prems Some by (auto simp: located_def region_fits_def alloc_ok_def request_of_def)
    have w: "n \<le> length (channel_offsets M)" "cap \<le> 2 ^ 62" "unat ?o + cap \<le> 2 ^ 63"
      using assms(1) s(2) by (auto simp: windows_ok_def)
    obtain len where len: "fast_align_up (reg_size s) channel_page_size = Inr len" "reg_size s \<le> len"
      using align_up_page [of "reg_size s"] s(4) w(2) by auto
    have "can_map M len (reg_start s + ?o)" using assms(1) s len(1) unfolding windows_ok_def by blast
    moreover have "unat (reg_start s + ?o) = unat (reg_start s) + unat ?o"
      using s(4) w(3) by (simp add: unat_word_ariths)
    moreover obtain vs e where "map_channels (can_map M) (take n (channel_offsets M)) rs (reg_size s) = Inr (vs, e)"
      "nonempty_views vs = map (region_place M) (located rs)" using Cons.IH [of "reg_size s"] Cons.prems Some by (auto simp: located_def)
    moreover have "unat (reg_size s) \<noteq> 0" using s(1) by (simp add: unat_eq_0)
    ultimately show ?thesis using Some s w len
      by (simp add: MappedData_make_def get_view_def assert_r_def nonempty_views_def located_def region_place_def)
  qed
qed

lemma table_place_len:
  assumes "table_buffer n pid sz b" "p \<in> set (table_places M b)"
  shows "dv_len p = unat sz"
proof -
  obtain s where s: "s \<in> set (located (regions_of b))" "p = region_place M s" using assms(2) by (auto simp: table_places_def)
  have "ranked_ok n sz (regions_of b)" using assms(1) by (simp add: table_buffer_def)
  then have "reg_size s = sz" using located_nth s(1) by blast
  then show ?thesis using s(2) by (simp add: region_place_def)
qed

lemma copy_table:
  assumes "windows_ok M n cap" "table_buffer n pid sz b" "0 < sz" "\<forall>s \<in> set (located (regions_of b)). region_fits n cap s"
    "apart (table_places M b)" "user_range b = (a, unat sz)"
  shows "\<exists>m'. Buffer_copy_to_device M 1 b h m = Inr (b\<lparr>offloaded := True\<rparr>, m', unat sz) \<and>
    (\<forall>p \<in> set (table_places M b). read_bytes m' (dv_addr p) (unat sz) = read_bytes h a (unat sz)) \<and>
    (\<forall>x. x \<notin> footprint (table_places M b) \<longrightarrow> m' x = m x)"
proof -
  let ?rs = "regions_of b"
  have b: "buf_context b = Some (RankedAllocator n)" "dr_value (dev_region b) = Ranked ?rs" "ranked_ok n sz ?rs"
    using assms(2) by (simp_all add: table_buffer_def)
  have rs: "length ?rs = n" "located ?rs \<noteq> []" using b(3) by (simp_all add: ranked_ok_def)
  obtain vs e where v: "map_channels (can_map M) (take n (channel_offsets M)) ?rs 0 = Inr (vs, e)" "nonempty_views vs = table_places M b"
    using map_table [OF assms(1,4)] unfolding table_places_def by blast
  let ?c = "ChannelCore \<lparr>ca_region = ?rs, ca_views = vs, ca_data_size = e\<rparr>"
  have c: "create_accessor_core M (Ranked ?rs) = Inr ?c"
    using v(1) assms(1) rs(1) by (simp add: create_accessor_core_def ChannelAccessor_make_def windows_ok_def)
  have acc: "direct_access M 1 b = Inr ?c" using c b(2) by (simp add: direct_access_def Accessor_make_def assert_r_def)
  note len = table_place_len [OF assms(2)]
  have ne: "nonempty_views vs \<noteq> []" using v(2) rs(2) by (simp add: table_places_def)
  let ?host = "read_bytes h a (unat sz)"
  obtain m' where m': "channel_copy_to_device ?host vs m 0 = Inr (m', unat sz)"
    "\<forall>p \<in> set (nonempty_views vs). read_bytes m' (dv_addr p) (unat sz) = ?host" "\<forall>x. x \<notin> footprint (nonempty_views vs) \<longrightarrow> m' x = m x"
    using channel.to_places [OF ne, of ?host m] len assms(5) v(2) by auto
  have "snd (user_range b) \<noteq> 0" using assms(3,6) by (simp add: unat_eq_0)
  then show ?thesis using m' v(2) acc b(1) assms(6)
    by (simp add: Buffer_copy_to_device_def copy_to_device_def copy_to_device_impl_def context_transfer_manager_def assert_r_def)
qed

lemma apart_append: "apart (xs @ ys) \<longleftrightarrow> apart xs \<and> apart ys \<and> (\<forall>x \<in> set xs. \<forall>y \<in> set ys. view_set x \<inter> view_set y = {})"
  by (induction xs) auto

lemma transfer_tables:
  assumes "windows_ok M n cap"
  shows "\<lbrakk>\<forall>b \<in> set bufs. table_buffer n pid (buf_size b) b \<and> 0 < buf_size b \<and> (\<forall>s \<in> set (located (regions_of b)). region_fits n cap s);
    apart (concat (map (table_places M) bufs)); table_start a bufs (length bufs) \<le> z\<rbrakk> \<Longrightarrow>
    \<exists>bufs' m'. transfer_buffers M bufs a z h m = Inr (bufs', m') \<and> map regions_of bufs' = map regions_of bufs \<and>
      (\<forall>t < length bufs. \<forall>p \<in> set (table_places M (bufs ! t)).
        read_bytes m' (dv_addr p) (dv_len p) = read_bytes h (table_start a bufs t) (dv_len p)) \<and>
      (\<forall>x. x \<notin> footprint (concat (map (table_places M) bufs)) \<longrightarrow> m' x = m x)"
proof (induction bufs arbitrary: a m)
  case (Cons b bufs)
  let ?n = "unat (buf_size b)" and ?b = "b\<lparr>user_range := (a, unat (buf_size b)), offloaded := False\<rparr>"
  have b: "table_buffer n pid (buf_size b) b" "0 < buf_size b" "\<forall>s \<in> set (located (regions_of b)). region_fits n cap s"
    using Cons.prems(1) by simp_all
  have same: "regions_of ?b = regions_of b" "table_places M ?b = table_places M b" "table_buffer n pid (buf_size b) ?b"
    using b(1) by (simp_all add: regions_of_def table_places_def table_buffer_def)
  have ap: "apart (table_places M b)" "apart (concat (map (table_places M) bufs))"
    "\<forall>x \<in> set (table_places M b). \<forall>y \<in> set (concat (map (table_places M) bufs)). view_set x \<inter> view_set y = {}"
    using Cons.prems(2) by (simp_all add: apart_append)
  obtain m1 where m1: "Buffer_copy_to_device M 1 ?b h m = Inr (?b\<lparr>offloaded := True\<rparr>, m1, ?n)"
    "\<forall>p \<in> set (table_places M b). read_bytes m1 (dv_addr p) ?n = read_bytes h a ?n" "\<forall>x. x \<notin> footprint (table_places M b) \<longrightarrow> m1 x = m x"
    using copy_table [OF assms same(3) b(2), of a h m] b(3) ap(1) unfolding same by auto
  have st: "table_start (a + ?n) bufs t = table_start a (b # bufs) (Suc t)" for t by (simp add: table_start_def)
  then have z: "table_start (a + ?n) bufs (length bufs) \<le> z" using Cons.prems(3) by simp
  then have "a + ?n \<le> z" by (simp add: table_start_def)
  obtain bufs' m' where m': "transfer_buffers M bufs (a + ?n) z h m1 = Inr (bufs', m')" "map regions_of bufs' = map regions_of bufs"
    "\<forall>t < length bufs. \<forall>p \<in> set (table_places M (bufs ! t)).
        read_bytes m' (dv_addr p) (dv_len p) = read_bytes h (table_start (a + ?n) bufs t) (dv_len p)"
    "\<forall>x. x \<notin> footprint (concat (map (table_places M) bufs)) \<longrightarrow> m' x = m1 x"
    using Cons.IH [OF _ ap(2) z, of m1] Cons.prems(1) by auto
  have tr: "transfer_buffers M (b # bufs) a z h m = Inr (?b\<lparr>offloaded := True\<rparr> # bufs', m')"
    using m1(1) m'(1) \<open>a + ?n \<le> z\<close> by (simp add: Let_def bind_user_region_def)
  have hd: "read_bytes m' (dv_addr p) (dv_len p) = read_bytes h a (dv_len p)" if p: "p \<in> set (table_places M b)" for p
  proof -
    have "dv_len p = ?n" using table_place_len [OF b(1) p] .
    moreover have "m' x = m1 x" if "x \<in> view_set p" for x 
    proof -
      have "x \<notin> footprint (concat (map (table_places M) bufs))" using that ap(3) p unfolding footprint_def by blast
      then show ?thesis using m'(4) by blast
    qed
    then have "read_bytes m' (dv_addr p) (dv_len p) = read_bytes m1 (dv_addr p) (dv_len p)"
      by (intro read_bytes_cong) (simp add: view_set_def)
    ultimately show ?thesis using m1(2) p by simp
  qed
  have "map regions_of (?b\<lparr>offloaded := True\<rparr> # bufs') = map regions_of (b # bufs)" using m'(2) by (simp add: regions_of_def [of "_\<lparr>offloaded := _\<rparr>"] regions_of_def [of b])
  moreover have "read_bytes m' (dv_addr p) (dv_len p) = read_bytes h (table_start a (b # bufs) t) (dv_len p)"
    if "t < length (b # bufs)" "p \<in> set (table_places M ((b # bufs) ! t))" for t p
    using that hd m'(3) unfolding st by (cases t) (auto simp: table_start_def [of _ _ 0])
  moreover have "m' x = m x" if "x \<notin> footprint (concat (map (table_places M) (b # bufs)))" for x
    using that m'(4) m1(3) by (auto simp: footprint_def)
  ultimately show ?case using tr by blast
qed simp

lemma live_located:
  assumes "table_buffer n pid sz b" "0 < sz"
  shows "live_regions (regions_of b) = mset (map (\<lambda>s. request_of s (the (reg_location s))) (located (regions_of b)))"
proof -
  have "0 < reg_size s \<longleftrightarrow> reg_location s \<noteq> None" if "s \<in> set (regions_of b)" for s
    using that assms by (fastforce simp: table_buffer_def ranked_ok_def in_set_conv_nth empty_region_def)
  then have "filter (\<lambda>s. 0 < reg_size s) (regions_of b) = located (regions_of b)" unfolding located_def by (rule filter_cong [OF refl])
  then show ?thesis by (simp add: live_regions_def)
qed

lemma windows_apart:
  assumes "windows_ok M n cap" "alloc_ok n cap r" "alloc_ok n cap s" "apart_allocs r s"
  shows "view_set (alloc_place M r) \<inter> view_set (alloc_place M s) = {}"
proof (cases "memory_pool r = memory_pool s")
  case True
  then show ?thesis using assms(4) by (auto simp: apart_allocs_def view_set_def alloc_place_def)
next
  case False
  let ?o = "\<lambda>r. unat (channel_offsets M ! unat (memory_pool r))"
  have "unat (memory_pool r) \<noteq> unat (memory_pool s)" using False by (simp add: word_unat_eq_iff)
  then have "?o r + cap \<le> ?o s \<or> ?o s + cap \<le> ?o r"
    using assms(1-3) unfolding windows_ok_def alloc_ok_def by blast
  then show ?thesis using assms(2,3) by (auto simp: view_set_def alloc_place_def alloc_ok_def)
qed

lemma apart_places:
  assumes "windows_ok M n cap" "separate n cap (mset rs + A)"
  shows "apart (map (alloc_place M) rs)"
  using assms(2)
proof (induction rs arbitrary: A)
  case (Cons r rs)
  have "view_set (alloc_place M r) \<inter> view_set (alloc_place M s) = {}" if "s \<in> set rs" for s
  proof (rule windows_apart [OF assms(1)])
    have "{#r, s#} \<subseteq># mset (r # rs) + A" using that by (simp add: single_subset_iff)
    then show "apart_allocs r s" using Cons.prems unfolding separate_def by blast
  qed (use Cons.prems that in \<open>auto simp: separate_def\<close>)
  then show ?case using Cons.IH [of "add_mset r A"] Cons.prems by auto
qed simp

lemma live_tables_mset:
  assumes "\<forall>b \<in> set bufs. table_buffer n pid (buf_size b) b \<and> 0 < buf_size b"
  shows "live_tables bufs = mset (concat (map (\<lambda>b. map (\<lambda>s. request_of s (the (reg_location s))) (located (regions_of b))) bufs))"
  using assms by (induction bufs) (auto simp: live_located)

lemma separate_tables:
  assumes "windows_ok M n cap" "separate n cap (L + live_tables bufs)" "\<forall>b \<in> set bufs. table_buffer n pid (buf_size b) b \<and> 0 < buf_size b"
  shows "apart (concat (map (table_places M) bufs))" "\<forall>b \<in> set bufs. \<forall>s \<in> set (located (regions_of b)). region_fits n cap s"
proof -
  let ?rs = "concat (map (\<lambda>b. map (\<lambda>s. request_of s (the (reg_location s))) (located (regions_of b))) bufs)"
  have sep: "separate n cap (mset ?rs + L)" using assms(2) live_tables_mset [OF assms(3)] by (simp add: add.commute)
  have "concat (map (table_places M) bufs) = map (alloc_place M) ?rs"
    by (simp add: table_places_def [abs_def] map_concat comp_def alloc_place_def region_place_def [abs_def] request_of_def)
  then show "apart (concat (map (table_places M) bufs))" using apart_places [OF assms(1) sep] by argo
  show "\<forall>b \<in> set bufs. \<forall>s \<in> set (located (regions_of b)). region_fits n cap s"
  proof (intro ballI)
    fix b s assume b: "b \<in> set bufs" "s \<in> set (located (regions_of b))"
    then have "request_of s (the (reg_location s)) \<in># mset ?rs + L" by auto
    then have "alloc_ok n cap (request_of s (the (reg_location s)))" using sep unfolding separate_def by blast
    moreover have "ranked_ok n (buf_size b) (regions_of b)" "0 < buf_size b" using assms(3) b(1) by (auto simp: table_buffer_def)
    then have "0 < reg_size s" using located_nth b(2) by metis
    ultimately show "region_fits n cap s" by (simp add: region_fits_def)
  qed
qed

lemma create_tables:
  assumes K: "pool_ok (SLS_ALLOC_ANY_CUNIT C) K live" "places_ok n cap K live" "separate n cap (live k)" "consts_ok C"
    and n: "n = NumOfCUnits topo" "topo_ok topo" "n \<le> unat (SLS_ALLOC_ANY_CUNIT C)" and w: "windows_ok M n cap"
    and d: "length datas = length szs" "\<forall>t < length szs. length (datas ! t) = unat (ucast (szs ! t) * row_size :: u64) \<and> datas ! t \<noteq> []"
    and h: "read_bytes h a len = concat datas" "len = length (concat datas)"
  shows "(\<exists>e k'. EmbeddingTables_create topo M C K pid (a, len) szs row_size (Some (RankedAllocator n)) option h m k = (Inl (Throw e), k') \<and>
      live k' = live k \<and> init_buffers topo C K pid szs row_size (Some (RankedAllocator n)) option k = (Inl (Throw e), k')) \<or>
    (\<exists>bufs bufs' m' k'. EmbeddingTables_create topo M C K pid (a, len) szs row_size (Some (RankedAllocator n)) option h m k =
        (Inr (\<lparr>et_buffers = bufs', et_layout = map (pack_tables 0 bufs) [0..<num_of_pack topo]\<rparr>, m'), k') \<and>
      list_all2 (\<lambda>sz b. table_buffer n pid (ucast sz * row_size) b) szs bufs \<and> map regions_of bufs' = map regions_of bufs \<and>
      (\<forall>b \<in> set bufs. \<forall>s \<in> set (located (regions_of b)). region_fits n cap s) \<and>
      live k' = live k + live_tables bufs \<and> tables_in_memory M n bufs datas m')"
proof -
  have sz: "\<forall>sz \<in> set szs. 0 < (ucast sz * row_size :: u64)"
    using d(2) by (metis in_set_conv_nth length_greater_0_conv unat_gt_0 word_neq_0_conv)
  show ?thesis using init_buffers_correct [OF K n sz, of pid option]
  proof (elim disjE exE conjE)
    fix e k' assume "init_buffers topo C K pid szs row_size (Some (RankedAllocator n)) option k = (Inl (Throw e), k')" "live k' = live k"
    then show ?thesis by (auto simp: EmbeddingTables_create_def kact_defs)
  next
    fix bufs k' assume i: "init_buffers topo C K pid szs row_size (Some (RankedAllocator n)) option k =
        (Inr \<lparr>et_buffers = bufs, et_layout = map (pack_tables 0 bufs) [0..<num_of_pack topo]\<rparr>, k')"
      "list_all2 (\<lambda>sz b. table_buffer n pid (ucast sz * row_size) b) szs bufs" "live k' = live k + live_tables bufs" "separate n cap (live k')"
    have bl: "length bufs = length szs" and bt: "\<forall>t < length bufs. buf_size (bufs ! t) = ucast (szs ! t) * row_size \<and> table_buffer n pid (buf_size (bufs ! t)) (bufs ! t)"
      using i(2) by (auto simp: list_all2_conv_all_nth table_buffer_def)
    have bz: "\<forall>b \<in> set bufs. table_buffer n pid (buf_size b) b \<and> 0 < buf_size b"
      using bt bl sz by (metis in_set_conv_nth nth_mem)
    have sep: "apart (concat (map (table_places M) bufs))" "\<forall>b \<in> set bufs. \<forall>s \<in> set (located (regions_of b)). region_fits n cap s"
      using separate_tables [OF w i(4) [unfolded i(3)] bz] by blast+
    have sizes: "map (\<lambda>b. unat (buf_size b)) bufs = map length datas"
      using bl bt d by (intro nth_equalityI) simp_all
    have st: "table_start a bufs t = a + length (concat (take t datas))" for t
      by (simp add: table_start_def take_map [symmetric] sizes length_concat)
    have "table_start a bufs (length bufs) \<le> a + len" using bl d(1) h(2) by (simp add: st)
    then obtain bufs' m' where m': "transfer_buffers M bufs a (a + len) h m = Inr (bufs', m')" "map regions_of bufs' = map regions_of bufs"
      "\<forall>t < length bufs. \<forall>p \<in> set (table_places M (bufs ! t)). read_bytes m' (dv_addr p) (dv_len p) = read_bytes h (table_start a bufs t) (dv_len p)"
      using transfer_tables [OF w, of bufs pid a "a + len" h m] bz sep by blast
    have "tables_in_memory M n bufs datas m'"
      unfolding tables_in_memory_def
    proof (intro allI impI)
      fix t c assume t: "t < length bufs" and c: "c < n" "reg_location (regions_of (bufs ! t) ! c) \<noteq> None"
      let ?s = "regions_of (bufs ! t) ! c"
      have r: "ranked_ok n (buf_size (bufs ! t)) (regions_of (bufs ! t))" using bt t unfolding table_buffer_def by blast
      then have "length (regions_of (bufs ! t)) = n" "reg_location ?s = Some (of_nat c)" "reg_size ?s = buf_size (bufs ! t)"
        using c unfolding ranked_ok_def by (auto simp: empty_region_def)
      moreover have "c < 256" using c(1) n(1,2) by (simp add: topo_ok_def)
      ultimately have s: "?s \<in> set (located (regions_of (bufs ! t)))" "unat (the (reg_location ?s)) = c" "reg_size ?s = buf_size (bufs ! t)"
        using c by (auto simp: located_def unat_of_nat take_bit_nat_eq_self)
      have len: "unat (buf_size (bufs ! t)) = length (datas ! t)" using bt bl d(2) t by simp
      have "read_bytes h (table_start a bufs t) (length (datas ! t)) = datas ! t"
      proof -
        have cd: "concat datas = concat (take t datas) @ datas ! t @ concat (drop (Suc t) datas)"
          using id_take_nth_drop [of t datas] t bl d(1) by (metis concat.simps(2) concat_append)
        have "read_bytes h a (length (concat (take t datas)) + (length (datas ! t) + length (concat (drop (Suc t) datas)))) = concat datas"
          using h by (simp add: cd)
        then show ?thesis unfolding st cd read_bytes_add by (metis append_eq_append_conv length_read_bytes)
      qed
      then show "read_bytes m' (unat (channel_offsets M ! c) + unat (reg_start ?s)) (length (datas ! t)) = datas ! t"
        using m'(3) t s len by (fastforce simp: table_places_def region_place_def add.commute)
    qed
    then show ?thesis using i m'(1,2) sep(2) by (fastforce simp: EmbeddingTables_create_def transfer_data_def kact_defs)
  qed
qed

section \<open>Reductions over the tables\<close>

lemma row_bytes_inject:
  assumes "row_bytes r = row_bytes r'"
  shows "r = r'"
proof -
  have "length r = length r'" using assms by (metis length_row_bytes mult_cancel1 zero_neq_numeral)
  moreover have "elems32 (write_bytes (\<lambda>_. 0) 0 (row_bytes r)) 0 (length r) = r" for r
    using load_write_word [of 4 _ r "\<lambda>_. 0" 0] by (intro nth_equalityI) (simp_all add: row_bytes_def elems32_def)
  ultimately show ?thesis using assms by metis
qed

lemma length_table_bytes: "\<forall>r \<in> set T. length r = cols \<Longrightarrow> length (table_bytes T) = length T * (4 * cols)"
  by (induction T) (auto simp: table_bytes_def)

lemma table_row:
  assumes "read_bytes m a (length (table_bytes T)) = table_bytes T" "\<forall>r \<in> set T. length r = cols" "r < length T"
  shows "elems32 m (a + r * (4 * cols)) cols = T ! r"
proof -
  let ?xs = "table_bytes (take r T)" and ?ys = "row_bytes (T ! r)" and ?zs = "table_bytes (drop (Suc r) T)"
  have t: "table_bytes T = ?xs @ ?ys @ ?zs"
    using id_take_nth_drop [OF assms(3)] by (metis concat.simps(2) concat_append list.simps(9) map_append table_bytes_def)
  have l: "length ?xs = r * (4 * cols)" "length ?ys = 4 * cols"
    using length_table_bytes [of "take r T" cols] assms(2,3) by (auto dest: in_set_takeD)
  have "read_bytes m a (length ?xs + (length ?ys + length ?zs)) = ?xs @ ?ys @ ?zs" using assms(1) by (simp add: t)
  then have "read_bytes m (a + r * (4 * cols)) (4 * cols) = ?ys"
    unfolding read_bytes_add using l by (metis append_eq_append_conv length_read_bytes)
  then show ?thesis unfolding read_elems32 by (rule row_bytes_inject)
qed

lemma tables_loaded:
  assumes bufs: "list_all2 (\<lambda>T b. table_buffer n pid (of_nat (length T * (4 * cols))) b) tables bufs"
    "\<forall>b \<in> set bufs. \<forall>s \<in> set (located (regions_of b)). region_fits n cap s"
    and mem: "tables_in_memory M n bufs (map table_bytes tables) m" "sees M n cap m dev"
    and topo: "n = NumOfCUnits topo" "DataSize topo = 4" "cap \<le> 2 ^ 34"
    and op: "sparse_feature_size op = cols" "2 dvd cols" "0 < cols" "tables_wf cols tables" "\<forall>T \<in> set tables. length T * (4 * cols) \<le> 2 ^ 32"
    and p: "p \<in> set (pack_identifiers topo)" "bit p cu"
  shows "loaded topo op tables cu (map (pack_tables 0 bufs) [0..<num_of_pack topo] ! p) (dev ! cu)"
  unfolding loaded_def
proof
  fix ob assume "ob \<in> set (map (pack_tables 0 bufs) [0..<num_of_pack topo] ! p)"
  then have "ob \<in> set (pack_tables 0 bufs p)" using p(1) by (simp add: pack_id_less)
  then obtain t where t: "t < length bufs" "holders (regions_of (bufs ! t)) = p" "ob = table_object t (buf_size (bufs ! t)) (regions_of (bufs ! t))"
    by (auto simp: pack_tables_iff)
  let ?rs = "regions_of (bufs ! t)" and ?T = "tables ! t"
  let ?s = "?rs ! cu" and ?nb = "4 * cols"
  have tb: "table_buffer n pid (of_nat (length ?T * ?nb)) (bufs ! t)" "length tables = length bufs"
    using bufs(1) t(1) by (auto simp: list_all2_conv_all_nth)
  have T: "?T \<in> set tables" "\<forall>r \<in> set ?T. length r = cols" using t(1) tb(2) op(4) by (auto simp: tables_wf_def)
  have cu: "cu < length ?rs" "reg_location ?s \<noteq> None" using p(2) t(2) holders_bit by blast+
  have n: "length ?rs = n" "ranked_ok n (of_nat (length ?T * ?nb)) ?rs" using tb(1) by (simp_all add: table_buffer_def ranked_ok_def)
  have s: "?s \<in> set (located ?rs)" using cu by (simp add: located_def)
  have fits: "4096 dvd unat (reg_start ?s)" "unat (reg_start ?s) + unat (reg_size ?s) \<le> cap"
    using bufs(2) t(1) s by (auto simp: region_fits_def alloc_ok_def request_of_def)
  have sz: "unat (reg_size ?s) = length ?T * ?nb"
  proof -
    have "reg_size ?s = of_nat (length ?T * ?nb)" using located_nth [OF n(2) s] by blast
    moreover have "length ?T * ?nb \<le> 2 ^ 32" using op(5) T(1) by blast
    then have "take_bit LENGTH(64) (length ?T * ?nb) = length ?T * ?nb" by (intro take_bit_nat_eq_self) simp
    ultimately show ?thesis by (simp only: unat_of_nat take_bit_eq_mod)
  qed
  have off: "obj_offset ob cu = Inr (reg_start ?s)" using cu t(3) by (simp add: obj_offset_def table_object_def assert_r_def)
  have bytes: "read_bytes (blk (dev ! cu) SLS_BLOCK_BASE) (unat (reg_start ?s)) (length (table_bytes ?T)) = table_bytes ?T"
  proof -
    have "read_bytes m (unat (channel_offsets M ! cu) + unat (reg_start ?s)) (length (table_bytes ?T)) = table_bytes ?T"
      using mem(1) t(1) cu n(1) tb(2) by (simp add: tables_in_memory_def)
    moreover have "read_bytes (blk (dev ! cu) SLS_BLOCK_BASE) (unat (reg_start ?s)) (length (table_bytes ?T)) =
        read_bytes m (unat (channel_offsets M ! cu) + unat (reg_start ?s)) (length (table_bytes ?T))"
      using mem(2) fits(2) sz cu(1) n(1) length_table_bytes [OF T(2)] by (intro nth_equalityI) (simp_all add: read_bytes_def sees_def add.assoc)
    ultimately show ?thesis by simp
  qed
  have addr: "addr_ok (reg_start ?s + of_nat (r * (cols * 4)))" if "r < length ?T" for r
  proof -
    have "r * ?nb + ?nb \<le> length ?T * ?nb" using that by (metis Suc_leI add.commute mult_Suc mult_le_mono1)
    then have "unat (reg_start ?s) + r * ?nb < 2 ^ 34"
      using fits(2) sz topo(3) op(3) by linarith
    moreover have "8 dvd unat (reg_start ?s) + r * ?nb" using fits(1) op(2) by (intro dvd_add) (auto elim!: dvdE)
    moreover have "reg_start ?s + of_nat (r * (cols * 4)) = of_nat (unat (reg_start ?s) + r * ?nb)" by (simp add: mult.commute)
    ultimately show ?thesis using addr_ok_of_nat [of "unat (reg_start ?s) + r * ?nb"] by metis
  qed
  show "\<exists>off. obj_offset ob cu = Inr off \<and> (let T = tables ! object_id ob; nb = sparse_feature_size op * DataSize topo in
      length T * nb \<le> 2 ^ 32 \<and> unat off + length T * nb \<le> blk_size (dev ! cu) SLS_BLOCK_BASE \<and> unat off + length T * nb < 2 ^ 64 \<and>
      (\<forall>r < length T. addr_ok (off + of_nat (r * nb)) \<and>
         elems32 (blk (dev ! cu) SLS_BLOCK_BASE) (unat off + r * nb) (sparse_feature_size op) = T ! r))"
    using off sz fits(2) topo(2,3) op(1,5) T(1) addr table_row [OF bytes T(2)] mem(2) cu(1) n(1) t(3)
    by (auto simp: table_object_def sees_def Let_def mult.commute)
qed

lemma run_over_tables:
  assumes bufs: "list_all2 (\<lambda>T b. table_buffer n pid (of_nat (length T * (4 * cols))) b) tables bufs"
    "\<forall>b \<in> set bufs. \<forall>s \<in> set (located (regions_of b)). region_fits n cap s"
    and mem: "tables_in_memory M n bufs (map table_bytes tables) m" "sees M n cap m dev" "\<forall>ma \<in> set dev. unit_ok topo ma"
    and topo: "n = NumOfCUnits topo" "cap \<le> 2 ^ 34"
    and op: "request_shape topo op tables" "sparse_feature_size op = cols" "\<forall>T \<in> set tables. length T * (4 * cols) \<le> 2 ^ 32"
      "tables_objects op = map (pack_tables 0 bufs) [0..<num_of_pack topo]"
    and run: "\<And>x y. fadd x y = fadd y x" "length out = length (lengths op) * sparse_feature_size op * DataSize topo"
  shows "\<exists>sr. SparseReduction_make None topo op = Inr sr \<and> set (packs_to_run topo sr) \<subseteq> set (pack_identifiers topo) \<and>
    (\<forall>sched. schedule_for topo sr sched \<longrightarrow> (\<exists>dev'. run_operation sched fadd topo sr (dev, out) = Inr (dev', row_bytes
      (cell_sums (op_add fadd (op_code (sls_type op))) (sparse_feature_size op)
        (per_table (minibatch_size op) tables (segments (lengths op) (indices op))))) \<and> same_tables dev dev'))"
proof -
  have r: "sim_ok topo op" "tables_ok op tables" "DataSize topo = 4" "tables_wf cols tables" "topo_ok topo" "cols \<in> {16, 32, 64}"
    using op(1,2) by (auto simp: request_shape_def sim_ok_def tables_ok_def)
  have tb: "\<forall>b \<in> set bufs. table_buffer (NumOfCUnits topo) pid (buf_size b) b"
    using bufs(1) topo(1) by (fastforce simp: list_all2_conv_all_nth in_set_conv_nth table_buffer_def)
  have nt: "length tables = length bufs" "length tables = length (tables_sizes op)"
    using bufs(1) r(2) by (auto simp: list_all2_lengthD tables_ok_def dest: arg_cong [of _ _ length])
  have lay: "layout_ok topo (length (tables_sizes op)) (tables_objects op)"
    "\<forall>t < length tables. \<exists>p \<in> set (pack_identifiers topo). t \<in> object_id ` set (tables_objects op ! p)"
    using layout_of_tables [OF tb] op(4) nt by simp_all
  have req: "req_ok topo op" using op(1,2) lay(1) r(3,6) by (auto simp: request_shape_def req_ok_def)
  obtain sr where sr: "SparseReduction_make None topo op = Inr sr" using SparseReduction_make_correct [OF req] by blast
  have "unit_ready topo op tables dev x" if "schedule_for topo sr sched" "x \<in> set sched" for sched x
  proof -
    obtain p cu res where x: "x = (p, cu, res)" by (cases x)
    have "set (map fst sched) = set (packs_to_run topo sr)"
      using that(1) unfolding schedule_for_def valid_schedule_def by (blast dest: mset_eq_setD)
    then have s: "bit p cu" "0 \<le> res" "p \<in> set (packs_to_run topo sr)"
      using that x by (force simp: schedule_for_def)+
    have p: "p \<in> set (pack_identifiers topo)"
      using s(1,3) by (auto simp: packs_to_run_def Let_def split: if_splits)
    have "cu < n"
    proof -
      have "p < 2 ^ n" using p topo(1) by (simp add: pack_id_less num_of_pack_def)
      then have "take_bit n p = p" by (simp add: take_bit_nat_eq_self)
      then show ?thesis using s(1) by (metis bit_take_bit_iff)
    qed
    moreover have "length dev = n" using mem(2) by (simp add: sees_def)
    moreover have "loaded topo op tables cu (tables_objects op ! p) (dev ! cu)"
      unfolding op(4) using r op(2,3) p s(1) topo
      by (intro tables_loaded [OF bufs mem(1,2)]) (auto simp: dvd_def)
    ultimately show ?thesis using x s mem(3) by (simp add: unit_ready_def)
  qed
  then show ?thesis
    using run_operation_rows [where fadd = fadd, OF req r(1,2) sr lay(2) _ _ run(1), of _ dev out] run(2) sr packs_hold_tables(1) [OF req r(1,2) sr lay(2)]
    unfolding schedule_for_def by blast
qed

lemma ucast_count: "k < 2 ^ 32 \<Longrightarrow> (ucast (of_nat k :: u32) :: u64) = of_nat k"
  by (simp add: word_unat_eq_iff unsigned_ucast_eq unat_of_nat take_bit_nat_eq_self)

lemma request_shape_layout: "request_shape topo (op\<lparr>tables_objects := layout\<rparr>) tables = request_shape topo op tables"
  by (simp add: request_shape_def op_ok_def sim_ok_def tables_ok_def is_tagged_def)

lemma create_from_tables:
  assumes K: "pool_ok (SLS_ALLOC_ANY_CUNIT C) K live" "places_ok n cap K live" "separate n cap (live k)" "consts_ok C"
    and n: "n = NumOfCUnits topo" "topo_ok topo" "n \<le> unat (SLS_ALLOC_ANY_CUNIT C)" "windows_ok M n cap"
    and T: "tables_wf cols tables" "0 < cols" "\<forall>T \<in> set tables. T \<noteq> [] \<and> length T * (4 * cols) \<le> 2 ^ 32"
    and h: "read_bytes h a len = concat (map table_bytes tables)" "len = length (concat (map table_bytes tables))"
  shows "(\<exists>e k'. EmbeddingTables_create topo M C K pid (a, len) (map (of_nat \<circ> length) tables) (of_nat (4 * cols)) (Some (RankedAllocator n)) option h m k =
      (Inl (Throw e), k') \<and> live k' = live k \<and>
      init_buffers topo C K pid (map (of_nat \<circ> length) tables) (of_nat (4 * cols)) (Some (RankedAllocator n)) option k = (Inl (Throw e), k')) \<or>
    (\<exists>bufs bufs' m' k'. EmbeddingTables_create topo M C K pid (a, len) (map (of_nat \<circ> length) tables) (of_nat (4 * cols)) (Some (RankedAllocator n)) option h m k =
        (Inr (\<lparr>et_buffers = bufs', et_layout = map (pack_tables 0 bufs) [0..<num_of_pack topo]\<rparr>, m'), k') \<and>
      list_all2 (\<lambda>T b. table_buffer n pid (of_nat (length T * (4 * cols))) b) tables bufs \<and>
      (\<forall>b \<in> set bufs. \<forall>s \<in> set (located (regions_of b)). region_fits n cap s) \<and> tables_in_memory M n bufs (map table_bytes tables) m')"
proof -
  let ?szs = "map (of_nat \<circ> length) tables :: u32 list"
  have sz: "ucast (of_nat (length T) :: u32) * of_nat (4 * cols) = (of_nat (length T * (4 * cols)) :: u64)"
    and b: "length (table_bytes T) = unat (of_nat (length T * (4 * cols)) :: u64)" "table_bytes T \<noteq> []" if "T \<in> set tables" for T
  proof -
    have l: "length (table_bytes T) = length T * (4 * cols)"
      by (rule length_table_bytes) (use T(1) that in \<open>auto simp: tables_wf_def\<close>)
    have t: "T \<noteq> []" "length T * (4 * cols) \<le> 2 ^ 32" using T(3) that by auto
    have "length T * 4 \<le> length T * (4 * cols)" using T(2) by (intro mult_left_mono) auto
    then have "length T * 4 \<le> 2 ^ 32" using t(2) by (rule order_trans)
    then show "ucast (of_nat (length T) :: u32) * of_nat (4 * cols) = (of_nat (length T * (4 * cols)) :: u64)" by (simp add: ucast_count)
    show "length (table_bytes T) = unat (of_nat (length T * (4 * cols)) :: u64)"
      using l t(2) by (simp add: unat_of_nat take_bit_nat_eq_self del: of_nat_mult)
    show "table_bytes T \<noteq> []" using l t(1) T(2) by auto
  qed
  have d: "length (map table_bytes tables) = length ?szs"
    "\<forall>t < length ?szs. length (map table_bytes tables ! t) = unat (ucast (?szs ! t) * of_nat (4 * cols) :: u64) \<and> map table_bytes tables ! t \<noteq> []"
    using b sz by simp_all
  have "list_all2 (\<lambda>T b. table_buffer n pid (of_nat (length T * (4 * cols))) b) tables bufs"
    if "list_all2 (\<lambda>sz b. table_buffer n pid (ucast sz * of_nat (4 * cols)) b) ?szs bufs" for bufs
    using that sz by (simp add: list_all2_conv_all_nth)
  then show ?thesis using create_tables [OF K n d h, of pid option m] by blast
qed

section \<open>Properties\<close>

text \<open>
  C16: creating tables that are not empty is all or nothing: with a kernel module that behaves as documented, either a
  library exception is thrown and no allocation is left, or every table is in the layout, in exactly
  one pack of compute units, and destroying the buffers gives all memory back.
\<close>
theorem tables_all_or_nothing:
  assumes "pool_ok (SLS_ALLOC_ANY_CUNIT C) K live" "places_ok n cap K live" "separate n cap (live k)" "consts_ok C"
    "n = NumOfCUnits topo" "topo_ok topo" "n \<le> unat (SLS_ALLOC_ANY_CUNIT C)" "\<forall>sz \<in> set szs. 0 < (ucast sz * row_size :: u64)"
  shows "case init_buffers topo C K pid szs row_size (Some (RankedAllocator n)) option k of
      (Inl e, k') \<Rightarrow> (\<exists>x. e = Throw x) \<and> live k' = live k
    | (Inr et, k') \<Rightarrow> layout_ok topo (length szs) (et_layout et) \<and>
        (\<forall>t < length szs. \<exists>p \<in> set (pack_identifiers topo). t \<in> object_id ` set (et_layout et ! p)) \<and>
        (\<exists>k''. destroy_buffers K pid (et_buffers et) k' = (Inr (), k'') \<and> live k'' = live k)"
  using init_buffers_correct [OF assms, of pid option]
proof (elim disjE exE conjE)
  fix bufs k' assume i: "init_buffers topo C K pid szs row_size (Some (RankedAllocator n)) option k =
      (Inr \<lparr>et_buffers = bufs, et_layout = map (pack_tables 0 bufs) [0..<num_of_pack topo]\<rparr>, k')"
    "list_all2 (\<lambda>sz b. table_buffer n pid (ucast sz * row_size) b) szs bufs" "live k' = live k + live_tables bufs"
  have tb: "\<forall>b \<in> set bufs. table_buffer (NumOfCUnits topo) pid (buf_size b) b"
    using i(2) assms(5) by (fastforce simp: list_all2_conv_all_nth in_set_conv_nth table_buffer_def)
  have "\<forall>b \<in> set bufs. \<exists>sz. table_buffer n pid sz b" using tb assms(5) by blast
  then show ?thesis
    using layout_of_tables [OF tb] destroy_tables [OF assms(1), of bufs k' n pid] i list_all2_lengthD [OF i(2)] by simp
qed simp

text \<open>
  C4: tables that were created from the user's data, each not empty and of at most 4 GB, can be reduced on
  the device: if the creation does not throw, which leaves no allocation behind, then a request without tags over the tables, run by any
  schedule on compute units that see the device's memory, computes what the host reference computes
  on the user's tables.
\<close>
theorem created_tables_reduce:
  assumes "pool_ok (SLS_ALLOC_ANY_CUNIT C) K live" "places_ok n cap K live" "separate n cap (live k)" "consts_ok C"
    "n = NumOfCUnits topo" "n \<le> unat (SLS_ALLOC_ANY_CUNIT C)" "windows_ok M n cap" "cap \<le> 2 ^ 34"
    "request_shape topo op tables" "\<forall>T \<in> set tables. T \<noteq> [] \<and> length T * (4 * sparse_feature_size op) \<le> 2 ^ 32"
    "read_bytes h a len = concat (map table_bytes tables)" "len = length (concat (map table_bytes tables))"
    "\<And>x y. fadd x y = fadd y x" "length ps = length (lengths op) * sparse_feature_size op"
  shows "case EmbeddingTables_create topo M C K pid (a, len) (map (of_nat \<circ> length) tables) (of_nat (4 * sparse_feature_size op))
        (Some (RankedAllocator n)) option h m k of
      (Inl e, k') \<Rightarrow> (\<exists>x. e = Throw x) \<and> live k' = live k
    | (Inr (et, m'), k') \<Rightarrow> \<exists>sr rows. SparseReduction_make None topo (op\<lparr>tables_objects := et_layout et\<rparr>) = Inr sr \<and>
        cpu_compute (op_add fadd (op_code (sls_type op))) (concat (map concat tables)) (tables_sizes op) (indices op) (lengths op)
          (sparse_feature_size op) (minibatch_size op) ps = Inr rows \<and>
        (\<forall>dev out sched. sees M n cap m' dev \<longrightarrow> (\<forall>ma \<in> set dev. unit_ok topo ma) \<longrightarrow>
          length out = length (lengths op) * sparse_feature_size op * DataSize topo \<longrightarrow> schedule_for topo sr sched \<longrightarrow>
          (\<exists>dev'. run_operation sched fadd topo sr (dev, out) = Inr (dev', row_bytes rows)))"
proof -
  let ?cols = "sparse_feature_size op" and ?szs = "map (of_nat \<circ> length) tables :: u32 list"
  have op: "op_ok op" "tables_ok op tables" "topo_ok topo" "DataSize topo = 4" "?cols \<in> {16, 32, 64}" "\<not> is_tagged op"
    using assms(9) by (auto simp: request_shape_def sim_ok_def)
  have wf: "tables_wf ?cols tables" "\<forall>T \<in> set tables. length T < 2 ^ 32" "map length tables = tables_sizes op"
    using op(2) by (simp_all add: tables_ok_def)
  have c0: "0 < ?cols" using op(5) by auto
  have nt: "length tables = length (tables_sizes op)" using wf(3) by (metis length_map)
  have cpu: "cpu_compute (op_add fadd (op_code (sls_type op))) (concat (map concat tables)) (tables_sizes op) (indices op) (lengths op) ?cols (minibatch_size op) ps =
      Inr (cell_sums (op_add fadd (op_code (sls_type op))) ?cols (per_table (minibatch_size op) tables (segments (lengths op) (indices op))))"
    using cpu_compute_correct [of ?cols tables "lengths op" "minibatch_size op" "indices op" ps] assms(14) op(1,2) wf(3) nt
    by (simp add: tables_ok_def op_ok_def mult.commute)
  show ?thesis
    using create_from_tables [OF assms(1-5) op(3) assms(6,7) wf(1) c0 assms(10-12), of pid option m]
  proof (elim disjE exE conjE)
    fix bufs bufs' m' k'
    assume c: "EmbeddingTables_create topo M C K pid (a, len) ?szs (of_nat (4 * ?cols)) (Some (RankedAllocator n)) option h m k =
        (Inr (\<lparr>et_buffers = bufs', et_layout = map (pack_tables 0 bufs) [0..<num_of_pack topo]\<rparr>, m'), k')"
      and bufs: "list_all2 (\<lambda>T b. table_buffer n pid (of_nat (length T * (4 * ?cols))) b) tables bufs"
      and m: "\<forall>b \<in> set bufs. \<forall>s \<in> set (located (regions_of b)). region_fits n cap s" "tables_in_memory M n bufs (map table_bytes tables) m'"
    let ?op = "op\<lparr>tables_objects := map (pack_tables 0 bufs) [0..<num_of_pack topo]\<rparr>"
    have shape: "request_shape topo ?op tables" using assms(9) by (simp only: request_shape_layout)
    have lay: "layout_ok topo (length bufs) (tables_objects ?op)"
      using layout_of_tables(1) [of bufs topo pid] bufs assms(5) by (fastforce simp: list_all2_conv_all_nth in_set_conv_nth table_buffer_def)
    then have "req_ok topo ?op" using shape op(4,5) list_all2_lengthD [OF bufs] nt
      by (auto simp: request_shape_def req_ok_def)
    then obtain sr where sr: "SparseReduction_make None topo ?op = Inr sr" using SparseReduction_make_correct by blast
    have "\<exists>dev'. run_operation sched fadd topo sr (dev, out) = Inr (dev', row_bytes
        (cell_sums (op_add fadd (op_code (sls_type op))) ?cols (per_table (minibatch_size op) tables (segments (lengths op) (indices op)))))"
      if "sees M n cap m' dev" "\<forall>ma \<in> set dev. unit_ok topo ma" "length out = length (lengths op) * ?cols * DataSize topo" "schedule_for topo sr sched"
      for dev out sched
      using run_over_tables [where fadd = fadd and op = ?op and cols = ?cols, OF bufs m that(1,2) assms(5,8) shape _ _ _ assms(13), of out] that(3,4) sr assms(10) by auto
    then show ?thesis using c sr cpu by auto
  qed simp
qed

section \<open>A concrete kernel module\<close>

lemma bump_kernel_pool: "pool_ok 255 (bump_kernel n cap) mset"
  by (auto simp: pool_ok_def bump_kernel_def Let_def)

lemma pair_subset_add:
  assumes "{#x, y#} \<subseteq># add_mset r A"
  shows "{#x, y#} \<subseteq># A \<or> x = r \<and> y \<in># A \<or> y = r \<and> x \<in># A"
proof (cases "x = r \<or> y = r")
  case False
  then have "count {#x, y#} a \<le> count A a" for a
    using assms unfolding subseteq_mset_def by (cases "a = r") (auto dest: spec [of _ a])
  then show ?thesis by (simp add: subseteq_mset_def)
qed (use assms in \<open>auto simp: add_mset_commute\<close>)

lemma bump_kernel_places:
  assumes "cap \<le> 2 ^ 62"
  shows "places_ok n cap (bump_kernel n cap) mset"
  unfolding places_ok_def
proof (intro allI impI)
  fix req r :: pnm_allocation and k k'
  assume sep: "separate n cap (mset k)" and al: "k_allocate (bump_kernel n cap) req k = (Inr r, k')"
  let ?a = "4096 * fold max (map page_end k) 0"
  have r: "k' = r # k" "unat (memory_pool r) < n" "pa_addr r = of_nat ?a" "?a + unat (pa_size r) \<le> cap"
    using al by (auto simp: bump_kernel_def Let_def split: if_splits)
  have a: "unat (pa_addr r) = ?a" unfolding r(3) using r(4) assms by (simp add: unat_of_nat take_bit_nat_eq_self del: of_nat_mult)
  have "unat (pa_addr s) + unat (pa_size s) \<le> ?a" if "s \<in> set k" for s
  proof -
    have "page_end s \<le> fold max (map page_end k) 0" using that fold_max_le [of "page_end s" "map page_end k" 0] by simp
    then show ?thesis by (simp add: page_end_def)
  qed
  then have ap: "apart_allocs r s" "apart_allocs s r" if "s \<in> set k" for s using that a by (auto simp: apart_allocs_def)
  have "alloc_ok n cap r" using r a by (simp add: alloc_ok_def)
  then show "separate n cap (mset k')"
    using sep r(1) ap pair_subset_add [of _ _ r "mset k"] unfolding separate_def by (auto, blast)
qed

lemma one_machine_windows: "windows_ok one_machine 1 8192"
  by (simp add: windows_ok_def one_machine_def)

lemma concat_replicate_replicate: "concat (replicate k (replicate j x)) = replicate (k * j) x"
  by (induction k) (simp_all add: replicate_add)

lemma table_bytes_3s: "table_bytes (replicate k (replicate 16 0x03030303)) = replicate (k * 64) 3"
proof -
  have "word_bytes 4 (0x03030303 :: u32) = [3, 3, 3, 3]" by (simp add: word_bytes_def upt_rec)
  also have "\<dots> = replicate 4 3" by (rule nth_equalityI) (auto simp: nth_Cons split: nat.splits)
  finally have "row_bytes (replicate 16 0x03030303) = replicate (16 * 4) 3"
    unfolding row_bytes_def map_replicate by (simp only: concat_replicate_replicate)
  then show ?thesis unfolding table_bytes_def map_replicate by (simp add: concat_replicate_replicate)
qed

lemma small_shape: "request_shape run_topo small_op small_tables"
  using run_small(1-3) by (simp add: request_shape_def req_ok_def)

lemma small_setup:
  "pool_ok (SLS_ALLOC_ANY_CUNIT ex_consts) (bump_kernel 1 8192) mset" "places_ok 1 8192 (bump_kernel 1 8192) mset" "separate 1 8192 (mset [])"
  "consts_ok ex_consts" "1 = NumOfCUnits run_topo" "topo_ok run_topo" "1 \<le> unat (SLS_ALLOC_ANY_CUNIT ex_consts)"
proof -
  show "pool_ok (SLS_ALLOC_ANY_CUNIT ex_consts) (bump_kernel 1 8192) mset" using bump_kernel_pool [of 1 8192] by (simp add: ex_consts_def)
  show "places_ok 1 8192 (bump_kernel 1 8192) mset" by (rule bump_kernel_places) simp
qed (simp_all add: separate_def ex_consts_def consts_ok_def run_topo_def small_topo_def topo_ok_def inst_single_buf_size_def)

theorem tables_all_or_nothing_witness:
  "case init_buffers run_topo ex_consts (bump_kernel 1 8192) 7 [10, 3] 64 (Some (RankedAllocator 1)) 0 [] of
      (Inl e, k') \<Rightarrow> (\<exists>x. e = Throw x) \<and> mset k' = mset []
    | (Inr et, k') \<Rightarrow> layout_ok run_topo (length [10, 3 :: u32]) (et_layout et) \<and>
        (\<forall>t < length [10, 3 :: u32]. \<exists>p \<in> set (pack_identifiers run_topo). t \<in> object_id ` set (et_layout et ! p)) \<and>
        (\<exists>k''. destroy_buffers (bump_kernel 1 8192) 7 (et_buffers et) k' = (Inr (), k'') \<and> mset k'' = mset [])"
  by (rule tables_all_or_nothing [OF small_setup]) simp

text \<open>The module has room for the small table.\<close>

lemma small_created:
  "\<exists>et m' k'. EmbeddingTables_create run_topo one_machine ex_consts (bump_kernel 1 8192) 7 (0, 640) (map (of_nat \<circ> length) small_tables)
     (of_nat (4 * sparse_feature_size small_op)) (Some (RankedAllocator 1)) 0 (\<lambda>_. 3) (\<lambda>_. 0) [] = (Inr (et, m'), k')"
proof -
  have i: "\<exists>et k'. init_buffers run_topo ex_consts (bump_kernel 1 8192) 7 [10] 64 (Some (RankedAllocator 1)) 0 [] = (Inr et, k')"
    by (simp add: init_buffers_def table_props_def add_property_def Buffer_make_def allocate_def ranked_allocate_def allocate_replicate_all_def
      has_property_def ex_consts_def replicate_loop.simps allocate_ioctl_def bump_kernel_def kact_defs Let_def region_of_def store_region_def
      construct_layout_def place_table_def get_ranked_def obj_set_offset_def MemoryObject_make_def assert_r_def run_topo_def small_topo_def default_wrapper_def)
  have szs: "map (of_nat \<circ> length) small_tables = [10 :: u32]" "(of_nat (4 * sparse_feature_size small_op) :: u64) = 64"
    by (simp_all add: small_tables_def small_simps)
  have d: "length [replicate 640 (3 :: u8)] = length [10 :: u32]"
    "\<forall>t < length [10 :: u32]. length ([replicate 640 (3 :: u8)] ! t) = unat (ucast ([10 :: u32] ! t) * 64 :: u64) \<and> [replicate 640 (3 :: u8)] ! t \<noteq> []"
    "read_bytes (\<lambda>_. 3) 0 640 = concat [replicate 640 3]" "640 = length (concat [replicate 640 (3 :: u8)])"
    by (simp_all add: read_bytes_def map_replicate_const)
  show ?thesis unfolding szs
    using create_tables [OF small_setup one_machine_windows d, of 7 0 "\<lambda>_. 0"] i by auto
qed

theorem created_tables_reduce_witness:
  "\<exists>et m' k' sr rows. EmbeddingTables_create run_topo one_machine ex_consts (bump_kernel 1 8192) 7 (0, 640) (map (of_nat \<circ> length) small_tables)
        (of_nat (4 * sparse_feature_size small_op)) (Some (RankedAllocator 1)) 0 (\<lambda>_. 3) (\<lambda>_. 0) [] = (Inr (et, m'), k') \<and>
    SparseReduction_make None run_topo (small_op\<lparr>tables_objects := et_layout et\<rparr>) = Inr sr \<and>
    cpu_compute (op_add (+) (op_code (sls_type small_op))) (concat (map concat small_tables)) (tables_sizes small_op) (indices small_op)
      (lengths small_op) (sparse_feature_size small_op) (minibatch_size small_op) (replicate 32 7) = Inr rows \<and>
    (\<forall>dev out sched. sees one_machine 1 8192 m' dev \<longrightarrow> (\<forall>ma \<in> set dev. unit_ok run_topo ma) \<longrightarrow>
      length out = length (lengths small_op) * sparse_feature_size small_op * DataSize run_topo \<longrightarrow> schedule_for run_topo sr sched \<longrightarrow>
      (\<exists>dev'. run_operation sched (+) run_topo sr (dev, out) = Inr (dev', row_bytes rows)))"
proof -
  have r: "read_bytes (\<lambda>_. 3) 0 640 = concat (map table_bytes small_tables)" "640 = length (concat (map table_bytes small_tables))"
    by (simp_all add: small_tables_def table_bytes_3s read_bytes_def map_replicate_const)
  have s: "(8192 :: nat) \<le> 2 ^ 34" "\<forall>T \<in> set small_tables. T \<noteq> [] \<and> length T * (4 * sparse_feature_size small_op) \<le> 2 ^ 32"
    "length (replicate 32 (7 :: u32)) = length (lengths small_op) * sparse_feature_size small_op"
    by (simp_all add: small_tables_def small_simps)
  from created_tables_reduce [where fadd = "(+)" and m = "\<lambda>_. 0", OF small_setup(1-5,7) one_machine_windows s(1) small_shape s(2) r add.commute s(3), of 7 0]
  show ?thesis using small_created by auto
qed

end
