(* ===== verification/Secure_Runner.thy ===== *)
theory Secure_Runner
  imports Secure_Sls Thread_Pool Embedding_Tables Param_Checks
begin

text \<open>
  The runners of the secure library in their release configuration
  (\<open>secure/plain/sls.h\<close>, \<open>secure/shared/sls_runner_factory.cpp\<close>): pads are summed by a pool of worker
  threads, and the sums of encrypted rows are computed by the device that holds the encrypted tables
  (\<open>secure/plain/device/untrusted_sls.h\<close>). The lemmas show that every order in which the pool
  finishes its tasks gives the same pads, that the device keeps the contract of the executor, and that
  the whole run computes the sums of the plain tables.
\<close>

section \<open>Strategy and runner\<close>

text \<open>
  \<open>std::from_chars\<close> reads the longest prefix of digits: it fails when there is none, and when the number
  does not fit the type; otherwise it gives the number and the rest of the string.
\<close>

definition is_digit :: "char \<Rightarrow> bool" where
  "is_digit c \<longleftrightarrow> of_char c \<in> {48..(57 :: nat)}"

definition digits_value :: "string \<Rightarrow> nat" where
  "digits_value ds = fold (\<lambda>c n. n * 10 + (of_char c - 48)) ds 0"

definition from_chars :: "string \<Rightarrow> (u32 \<times> string) option" where
  "from_chars s =
     (let ds = takeWhile is_digit s in
      if ds = [] \<or> 2 ^ 32 \<le> digits_value ds then None else Some (of_nat (digits_value ds), dropWhile is_digit s))"

definition DEFAULT_THREAD_COUNT :: u32 where
  "DEFAULT_THREAD_COUNT = 8"

definition get_thread_count :: "string option \<Rightarrow> u32 result" where
  "get_thread_count thread_count_env =
     (case thread_count_env of None \<Rightarrow> Inr DEFAULT_THREAD_COUNT
      | Some env_string \<Rightarrow> (case from_chars env_string of None \<Rightarrow> Inl (Throw InvalidArguments)
          | Some (env_value, rest) \<Rightarrow> if rest \<noteq> [] then Inl (Throw InvalidArguments) else Inr env_value))"

text \<open>The entry types of the runners; the enumeration has two members, any other number is refused.\<close>

datatype runner_entries = Int32 | UInt32

definition make_runner :: "u8 \<Rightarrow> runner_entries result" where
  "make_runner t = (if t = 0 then Inr Int32 else if t = 1 then Inr UInt32 else Inl (Throw NotSupported))"

text \<open>
  The pool as a strategy: the tasks one after the other in some order; an exception stays in the task's
  future. The pool interleaves the tasks' accesses to the buffer; \<open>pool_run_of_threads\<close> shows that tasks that
  work on their own parts of it leave what this function gives.
\<close>

definition pool_run :: "(nat \<Rightarrow> nat list) \<Rightarrow> strategy" where
  "pool_run order tasks buf =
     (let (b, out) = in_order (\<lambda>a. [tasks ! a]) (order (length tasks)) (buf, \<lambda>_. None) in (b, map out [0..<length tasks]))"

section \<open>The untrusted device\<close>

text \<open>
  What the device runs on: topology, machine, kernel module, process, build, float addition, and the
  schedule the threads follow for a reduction. The device's state has, beside the members of the class,
  the state of the kernel module, the device's memory, and the compute units, which see that memory.
\<close>

record 'k sls_platform =
  pf_topo :: Constants
  pf_machine :: machine
  pf_consts :: alloc_consts
  pf_kernel :: "'k kernel_ops"
  pf_pid :: int
  pf_debug :: bool
  pf_fadd :: add_op
  pf_sched :: "SparseReduction \<Rightarrow> (nat \<times> nat \<times> int) list"

record 'k UntrustedDevice =
  ud_rows :: "u32 list"
  ud_cols :: nat
  ud_with_tag :: bool
  ud_preference :: u32
  ud_tables :: "EmbeddingTables option"
  ud_kernel :: 'k
  ud_memory :: bmem
  ud_units :: "memAddr list"


definition attach :: "machine \<Rightarrow> bmem \<Rightarrow> memAddr list \<Rightarrow> memAddr list" where
  "attach M m dev = map (\<lambda>c. set_blk SLS_BLOCK_BASE (\<lambda>i. m (unat (channel_offsets M ! c) + i)) (dev ! c)) [0..<length dev]"

text \<open>The new tables replace the old ones, whose buffers are destroyed.\<close>

definition UntrustedDevice_load :: "'k sls_platform \<Rightarrow> u32 list \<Rightarrow> 'k UntrustedDevice \<Rightarrow> 'k UntrustedDevice result" where
  "UntrustedDevice_load pf src d =
     (let bytes = row_bytes src; sparse_ft_full_size = (of_nat (memory_size MemoryWriter (ud_cols d) (ud_with_tag d)) :: u32) in
      case EmbeddingTables_create (pf_topo pf) (pf_machine pf) (pf_consts pf) (pf_kernel pf) (pf_pid pf) (0, length bytes) (ud_rows d)
          (ucast sparse_ft_full_size) (Some (RankedAllocator (NumOfCUnits (pf_topo pf)))) (ud_preference d)
          (write_bytes (\<lambda>_. 0) 0 bytes) (ud_memory d) (ud_kernel d) of
        (Inl e, k) \<Rightarrow> Inl e
      | (Inr (et, m), k) \<Rightarrow>
          (case destroy_buffers (pf_kernel pf) (pf_pid pf) (case ud_tables d of None \<Rightarrow> [] | Some old \<Rightarrow> et_buffers old) k of
             (Inl e, k) \<Rightarrow> Inl e
           | (Inr _, k) \<Rightarrow> Inr (d\<lparr>ud_tables := Some et, ud_kernel := k, ud_memory := m,
               ud_units := attach (pf_machine pf) m (ud_units d)\<rparr>)))"

text \<open>The constructor of a request, and its parameters for one run. The indices are checked in debug builds.\<close>

definition SlsOperation_create :: "nat \<Rightarrow> nat list \<Rightarrow> EmbeddingTables option \<Rightarrow> op_type \<Rightarrow> SlsOperation result" where
  "SlsOperation_create feature_size sizes tables type =
     (case tables of None \<Rightarrow> Inl (Throw InvalidArguments)
      | Some et \<Rightarrow> bind_r (check_sparse_feature_size feature_size)
          (\<lambda>_. Inr (SlsOperation.make feature_size sizes 0 [] [] (et_layout et) type)))"

definition set_run_params :: "bool \<Rightarrow> nat \<Rightarrow> nat list \<Rightarrow> u32 list \<Rightarrow> nat \<Rightarrow> SlsOperation \<Rightarrow> SlsOperation result" where
  "set_run_params debug mb lens inds psum_len op =
     (let op = op\<lparr>minibatch_size := mb, lengths := lens, indices := inds\<rparr> in
      bind_r (check_run_params debug op psum_len) (\<lambda>_. Inr op))"

definition sls_dispatch :: "'k sls_platform \<Rightarrow> SlsOperation \<Rightarrow> memAddr list \<times> u8 list \<Rightarrow> (memAddr list \<times> u8 list) result" where
  "sls_dispatch pf op s =
     bind_r (SparseReduction_make None (pf_topo pf) op) (\<lambda>sr. run_operation (pf_sched pf sr) (pf_fadd pf) (pf_topo pf) sr s)"

definition untrusted_run :: "'k sls_platform \<Rightarrow> 'k UntrustedDevice \<Rightarrow> nat \<Rightarrow> nat list \<Rightarrow> u32 list \<Rightarrow> u32 list \<Rightarrow> ('k UntrustedDevice \<times> u32 list) result" where
  "untrusted_run pf d mb lens inds ps =
     bind_r (SlsOperation_create (ud_cols d mod 2 ^ 32) (map unat (ud_rows d)) (ud_tables d) (if ud_with_tag d then Uint32Tagged else Uint32)) (\<lambda>op.
     bind_r (set_run_params (pf_debug pf) (mb mod 2 ^ 32) lens inds (length (row_bytes ps)) op) (\<lambda>op.
     bind_r (sls_dispatch pf op (ud_units d, row_bytes ps)) (\<lambda>(units, out). Inr (d\<lparr>ud_units := units\<rparr>, cast32 out))))"

text \<open>Every exception becomes a failure.\<close>

definition UntrustedDevice_run ::
  "'k sls_platform \<Rightarrow> 'k UntrustedDevice \<Rightarrow> nat \<Rightarrow> nat list \<Rightarrow> u32 list \<Rightarrow> u32 list \<Rightarrow> ('k UntrustedDevice \<times> u32 list) result" where
  "UntrustedDevice_run pf d mb lens inds ps =
     (case untrusted_run pf d mb lens inds ps of
        Inl (Throw _) \<Rightarrow> Inl (Throw Failure) | Inl StdException \<Rightarrow> Inl (Throw Failure) | r \<Rightarrow> r)"

definition untrusted_device :: "'k sls_platform \<Rightarrow> 'k UntrustedDevice sls_device" where
  "untrusted_device pf = \<lparr>dev_writer = MemoryWriter, dev_load = UntrustedDevice_load pf, dev_run = UntrustedDevice_run pf\<rparr>"

section \<open>Specification\<close>

text \<open>An access that only reads and changes part \<open>k\<close> of a buffer of \<open>m\<close> parts of width \<open>w\<close>.\<close>

definition local_access :: "nat \<Rightarrow> nat \<Rightarrow> nat \<Rightarrow> task \<Rightarrow> (u32 list \<Rightarrow> u32 list) \<Rightarrow> bool" where
  "local_access m w k f g \<longleftrightarrow> (\<forall>segs. length segs = m \<longrightarrow> (\<forall>s \<in> set segs. length s = w) \<longrightarrow>
     f (concat segs) = Inr (concat (segs[k := g (segs ! k)])) \<and> length (g (segs ! k)) = w)"

text \<open>An order that is no permutation of the tasks is replaced by the one in which they were pushed.\<close>

definition complete_order :: "(nat \<Rightarrow> nat list) \<Rightarrow> nat \<Rightarrow> nat list" where
  "complete_order order k = (if mset (order k) = mset [0..<k] then order k else [0..<k])"

text \<open>The request of a run, when its checks pass.\<close>

definition untrusted_operation :: "'k UntrustedDevice \<Rightarrow> EmbeddingTables \<Rightarrow> nat \<Rightarrow> nat list \<Rightarrow> u32 list \<Rightarrow> SlsOperation" where
  "untrusted_operation d et mb lens inds =
     SlsOperation.make (ud_cols d mod 2 ^ 32) (map unat (ud_rows d)) (mb mod 2 ^ 32) lens inds (et_layout et)
       (if ud_with_tag d then Uint32Tagged else Uint32)"

definition platform_ok :: "'k sls_platform \<Rightarrow> nat \<Rightarrow> nat \<Rightarrow> bool" where
  "platform_ok pf cap cols \<longleftrightarrow> topo_ok (pf_topo pf) \<and> DataSize (pf_topo pf) = 4 \<and> InstructionSize (pf_topo pf) = 8 \<and>
     8 dvd inst_single_buf_size (pf_topo pf) \<and> cols \<in> {16, 32, 64} \<and> cols * 4 \<le> psum_single_buf_size (pf_topo pf) \<and>
     psum_single_buf_size (pf_topo pf) div (cols * 4) \<le> 2 ^ 12 \<and> \<not> pf_debug pf \<and> cap \<le> 2 ^ 34 \<and>
     (\<forall>x y. pf_fadd pf x y = pf_fadd pf y x) \<and>
     (\<forall>sr. set (packs_to_run (pf_topo pf) sr) \<subseteq> set (pack_identifiers (pf_topo pf)) \<longrightarrow> schedule_for (pf_topo pf) sr (pf_sched pf sr))"

definition units_hold :: "'k sls_platform \<Rightarrow> nat \<Rightarrow> 'k UntrustedDevice \<Rightarrow> nat \<Rightarrow> u32 list list list \<Rightarrow> bool" where
  "units_hold pf cap d cols tables \<longleftrightarrow>
     (let n = NumOfCUnits (pf_topo pf) in
      (\<exists>et bufs. ud_tables d = Some et \<and> et_layout et = map (pack_tables 0 bufs) [0..<num_of_pack (pf_topo pf)] \<and>
        list_all2 (\<lambda>T b. table_buffer n (pf_pid pf) (of_nat (length T * (4 * cols))) b) tables bufs \<and>
        (\<forall>b \<in> set bufs. \<forall>s \<in> set (located (regions_of b)). region_fits n cap s) \<and>
        tables_in_memory (pf_machine pf) n bufs (map table_bytes tables) (ud_memory d)) \<and>
      sees (pf_machine pf) n cap (ud_memory d) (ud_units d) \<and> (\<forall>ma \<in> set (ud_units d). unit_ok (pf_topo pf) ma))"

definition untrusted_holds :: "'k sls_platform \<Rightarrow> nat \<Rightarrow> 'k UntrustedDevice \<Rightarrow> nat \<Rightarrow> bool \<Rightarrow> u32 list list list \<Rightarrow> bool" where
  "untrusted_holds pf cap d cols tagged tables \<longleftrightarrow> \<not> tagged \<and> \<not> ud_with_tag d \<and> ud_cols d = cols \<and>
     ud_rows d = map (of_nat \<circ> length) tables \<and> tables \<noteq> [] \<and> (\<forall>T \<in> set tables. length T * (4 * cols) \<le> 2 ^ 32) \<and>
     platform_ok pf cap cols \<and> units_hold pf cap d cols tables"

text \<open>Requests that the device takes: no empty list of rows, and lists that fit the instruction buffer.\<close>

definition untrusted_accepts :: "'k sls_platform \<Rightarrow> nat \<Rightarrow> nat list \<Rightarrow> bool" where
  "untrusted_accepts pf mb lens \<longleftrightarrow> 0 < mb \<and> mb < 2 ^ 32 \<and> sum_list lens < 2 ^ 31 \<and>
     (\<forall>l \<in> set lens. 0 < l \<and> (l + 1) * 8 \<le> inst_single_buf_size (pf_topo pf))"





section \<open>The strategy\<close>

lemma in_order_of_run_order:
  "run_order tasks ks buf = Inr buf' \<Longrightarrow> \<forall>k \<in> set ks. out k = None \<Longrightarrow> in_order (\<lambda>a. [tasks ! a]) ks (buf, out) = (buf', out)"
  by (induction ks arbitrary: buf) (auto simp: bind_r_Inr_iff in_order_def body_accesses_def access_def)

interpretation pool: task_strategy "pool_run (complete_order order)" for order
proof
  fix tasks :: "task list" and fs w and segs :: "u32 list list"
  assume a: "local_tasks tasks fs w" "length segs = length tasks" "\<forall>s \<in> set segs. length s = w"
  have m: "mset (complete_order order (length tasks)) = mset [0..<length tasks]" by (simp add: complete_order_def)
  have "run_order tasks (complete_order order (length tasks)) (concat segs) =
      Inr (concat (map (\<lambda>k. (fs ! k) (segs ! k)) [0..<length segs]))"
    using a mset_eq_setD [OF m] mset_eq_imp_distinct_iff [OF m] by (intro run_order_all) auto
  then show "pool_run (complete_order order) tasks (concat segs) =
      (concat (map (\<lambda>k. (fs ! k) (segs ! k)) [0..<length segs]), replicate (length tasks) None)"
    by (simp add: pool_run_def in_order_of_run_order map_replicate_const)
qed

text \<open>The accesses of the tasks stay within the tasks' parts of the buffer, so they do not interfere.\<close>

lemma local_access_at:
  assumes "list_all2 (local_access m w k) fs gs" "i < length fs" "length segs = m" "\<forall>s \<in> set segs. length s = w"
  shows "(fs ! i) (concat segs) = Inr (concat (segs[k := (gs ! i) (segs ! k)]))" "length ((gs ! i) (segs ! k)) = w"
  using list_all2_nthD [OF assms(1,2)] assms(3,4) by (simp_all add: local_access_def)

lemma widths_update: "\<forall>s \<in> set segs. length s = w \<Longrightarrow> length t = w \<Longrightarrow> \<forall>s \<in> set (segs[k := t]). length s = w"
  by (auto dest!: set_update_subset_insert [THEN subsetD])

lemma local_independent:
  assumes "\<forall>k < m. list_all2 (local_access m w k) (act k) (gs k)"
  shows "independent {concat segs | segs. length segs = m \<and> (\<forall>s \<in> set segs. length s = w)} act [0..<m]"
  unfolding independent_def Let_def
proof (intro conjI ballI impI)
  fix k f and x :: "u32 list" assume "k \<in> set [0..<m]" "f \<in> set (act k)" "x \<in> {concat segs | segs. length segs = m \<and> (\<forall>s \<in> set segs. length s = w)}"
  then obtain i segs where i: "k < m" "i < length (act k)" "f = act k ! i" "x = concat segs" "length segs = m" "\<forall>s \<in> set segs. length s = w"
    by (auto simp: in_set_conv_nth)
  note l = local_access_at [OF assms [rule_format, OF i(1)] i(2,5,6)]
  show "result_of (f x) x \<in> {concat segs | segs. length segs = m \<and> (\<forall>s \<in> set segs. length s = w)}"
    unfolding i(3,4) l(1) result_of_def using widths_update [OF i(6) l(2)] i(5) by auto
next
  fix j k f g and x :: "u32 list" assume "j \<in> set [0..<m]" "k \<in> set [0..<m]" "f \<in> set (act j)" "g \<in> set (act k)" and jk: "j \<noteq> k"
    and "x \<in> {concat segs | segs. length segs = m \<and> (\<forall>s \<in> set segs. length s = w)}"
  then obtain h i segs where h: "j < m" "h < length (act j)" "f = act j ! h" "k < m" "i < length (act k)" "g = act k ! i" "x = concat segs"
    and s: "length segs = m" "\<forall>s \<in> set segs. length s = w"
    by (auto simp: in_set_conv_nth)
  note a = local_access_at [OF assms [rule_format, OF h(1)] h(2)] and b = local_access_at [OF assms [rule_format, OF h(4)] h(5)]
  let ?u = "(gs j ! h) (segs ! j)" and ?v = "(gs k ! i) (segs ! k)"
  have "g (concat (segs[j := ?u])) = Inr (concat (segs[j := ?u, k := ?v]))"
    unfolding h(6) using b(1) [OF _ widths_update [OF s(2) a(2) [OF s]]] s(1) jk by simp
  moreover have "f (concat (segs[k := ?v])) = Inr (concat (segs[k := ?v, j := ?u]))"
    unfolding h(3) using a(1) [OF _ widths_update [OF s(2) b(2) [OF s]]] s(1) jk by simp
  ultimately show "result_of (g (result_of (f x) x)) (result_of (f x) x) = result_of (f (result_of (g x) x)) (result_of (g x) x)"
    "fault_of (g (result_of (f x) x)) = fault_of (g x)"
    using a(1) [OF s] b(1) [OF s] jk by (simp_all add: h(3,6,7) result_of_def fault_of_def list_update_swap)
qed

lemma local_body:
  assumes "list_all2 (local_access m w k) (act k) (gs k)" "out k = None" "length segs = m" "\<forall>s \<in> set segs. length s = w" "k < m"
  shows "n \<le> length (act k) \<Longrightarrow> fold (access act) (map (Pair k) [0..<n]) (concat segs, out) =
    (concat (segs[k := fold (\<lambda>g. g) (take n (gs k)) (segs ! k)]), out) \<and> length (fold (\<lambda>g. g) (take n (gs k)) (segs ! k)) = w"
proof (induction n)
  case 0
  then show ?case using assms(3-5) by simp
next
  case (Suc n)
  let ?t = "fold (\<lambda>g. g) (take n (gs k)) (segs ! k)"
  have n: "n < length (act k)" "n < length (gs k)" using Suc.prems list_all2_lengthD [OF assms(1)] by simp_all
  have IH: "fold (access act) (map (Pair k) [0..<n]) (concat segs, out) = (concat (segs[k := ?t]), out)" "length ?t = w" using Suc by simp_all
  note l = local_access_at [OF assms(1) n(1) _ widths_update [OF assms(4) IH(2), of k]]
  have "access act (k, n) (concat (segs[k := ?t]), out) = (concat (segs[k := (gs k ! n) ?t]), out)" "length ((gs k ! n) ?t) = w"
    using l assms(2,3,5) by (simp_all add: access_def)
  then show ?case using IH(1) n by (simp add: take_Suc_conv_app_nth)
qed

lemma local_in_order:
  assumes "\<forall>k < m. list_all2 (local_access m w k) (act k) (gs k) \<and> (\<forall>s. length s = w \<longrightarrow> (fs ! k) s = fold (\<lambda>g. g) (gs k) s)"
    "local_tasks tasks fs w" "length tasks = m"
  shows "set ks \<subseteq> {..<m} \<Longrightarrow> length segs = m \<Longrightarrow> \<forall>s \<in> set segs. length s = w \<Longrightarrow>
    run_order tasks ks (concat segs) = Inr (fst (in_order act ks (concat segs, \<lambda>_. None))) \<and> snd (in_order act ks (concat segs, \<lambda>_. None)) = (\<lambda>_. None)"
proof (induction ks arbitrary: segs)
  case (Cons k ks)
  let ?segs = "segs[k := (fs ! k) (segs ! k)]"
  have k: "k < m" "length (segs ! k) = w" using Cons.prems by auto
  have la: "list_all2 (local_access m w k) (act k) (gs k)" "(fs ! k) (segs ! k) = fold (\<lambda>g. g) (gs k) (segs ! k)" using assms(1) k by simp_all
  have t: "(tasks ! k) (concat segs) = Inr (concat ?segs)" "length ((fs ! k) (segs ! k)) = w"
    using assms(2,3) Cons.prems(2,3) k(1) by (auto simp: local_tasks_def)
  have b: "fold (access act) (body_accesses act k) (concat segs, \<lambda>_. None) = (concat ?segs, \<lambda>_. None)"
    unfolding body_accesses_def la(2)
    using local_body [of m w k act gs "\<lambda>_. None", OF la(1) _ Cons.prems(2,3) k(1) order_refl] list_all2_lengthD [OF la(1)] by simp
  show ?case using Cons.IH [of ?segs] Cons.prems widths_update [OF Cons.prems(3) t(2)] by (simp add: in_order_def b t(1))
qed (simp add: in_order_def)

text \<open>
  Whatever the interleaving of the workers' accesses, a pool that has ended leaves the buffer and the futures that
  \<open>pool_run\<close> gives for any order of the tasks, when every task is a sequence of accesses to its own part of the buffer.
\<close>

lemma pool_run_of_threads:
  assumes "(pool_move act)\<^sup>*\<^sup>* (pool_init n [0..<length tasks] (concat segs)) s" "0 < n" "pool_final s"
    "local_tasks tasks fs w" "length segs = length tasks" "\<forall>s \<in> set segs. length s = w"
    "\<forall>k < length tasks. list_all2 (local_access (length tasks) w k) (act k) (gs k) \<and> (\<forall>s. length s = w \<longrightarrow> (fs ! k) s = fold (\<lambda>g. g) (gs k) s)"
  shows "pool_run (complete_order order) tasks (concat segs) = (fst (memory s), map (snd (memory s)) [0..<length tasks])"
proof -
  note inv = pool_inv_reachable [OF assms(1)]
  note fin = pool_final_all [OF inv assms(2,3)]
  have ind: "independent {concat segs | segs. length segs = length tasks \<and> (\<forall>s \<in> set segs. length s = w)} act [0..<length tasks]"
    using assms(7) by (intro local_independent [where gs = gs]) simp
  have "memory s = in_order act [0..<length tasks] (concat segs, \<lambda>_. None)"
    by (rule serialised [OF inv trace_inv_reachable [OF assms(1)] _ ind]) (use fin assms(5,6) in auto)
  moreover have "run_order tasks [0..<length tasks] (concat segs) = Inr (concat (map (\<lambda>k. (fs ! k) (segs ! k)) [0..<length segs]))"
    using assms(4-6) by (intro run_order_all) (auto simp: atLeast0LessThan)
  moreover note local_in_order [OF assms(7,4) refl _ assms(5,6), of "[0..<length tasks]"]
  ultimately show ?thesis using pool.strat_local [OF assms(4-6), of order] by (auto simp: atLeast0LessThan map_replicate_const)
qed

section \<open>Number of threads\<close>

lemma from_chars_digits:
  "from_chars s = Some (v, []) \<longleftrightarrow> s \<noteq> [] \<and> (\<forall>c \<in> set s. is_digit c) \<and> digits_value s < 2 ^ 32 \<and> v = of_nat (digits_value s)"
proof (cases "\<forall>c \<in> set s. is_digit c")
  case True
  then have t: "takeWhile is_digit s = s" "dropWhile is_digit s = []" by (simp_all add: takeWhile_eq_all_conv dropWhile_eq_Nil_conv)
  show ?thesis unfolding from_chars_def Let_def t using True by auto
next
  case False
  then show ?thesis by (auto simp: from_chars_def Let_def dropWhile_eq_Nil_conv)
qed

lemma get_thread_count_iff:
  "get_thread_count (Some s) =
     (if s \<noteq> [] \<and> (\<forall>c \<in> set s. is_digit c) \<and> digits_value s < 2 ^ 32 then Inr (of_nat (digits_value s)) else Inl (Throw InvalidArguments))"
proof (cases "s \<noteq> [] \<and> (\<forall>c \<in> set s. is_digit c) \<and> digits_value s < 2 ^ 32")
  case True
  then have "from_chars s = Some (of_nat (digits_value s), [])" using from_chars_digits [of s] by blast
  then show ?thesis using True by (simp add: get_thread_count_def)
next
  case False
  then have "\<forall>v. from_chars s \<noteq> Some (v, [])" using from_chars_digits [of s] by blast
  then show ?thesis unfolding if_not_P [OF False] by (auto simp: get_thread_count_def split: option.split)
qed

section \<open>Lemmas on the untrusted device\<close>

lemma cast32_row_bytes: "cast32 (row_bytes xs) = xs"
proof (induction xs)
  case (Cons x xs)
  have w: "cast32 (word_bytes 4 x) = [x]"
  proof -
    have "le_word (word_bytes 4 x) = x"
    proof (rule bit_word_eqI)
      fix n assume n: "n < LENGTH(32)"
      show "bit (le_word (word_bytes 4 x) :: u32) n = bit x n"
        using n by (cases "24 \<le> n"; cases "16 \<le> n"; cases "8 \<le> n") (auto simp: word_bytes_def le_word_def upt_rec bit_simps)
    qed
    then show ?thesis by (simp add: cast32_def)
  qed
  show ?case using Cons cast32_append [of "word_bytes 4 x" 1 "row_bytes xs"] w by (simp add: row_bytes_def)
qed (simp add: row_bytes_def cast32_def)

lemma platform_facts:
  assumes "platform_ok pf cap cols"
  shows "topo_ok (pf_topo pf)" "DataSize (pf_topo pf) = 4" "InstructionSize (pf_topo pf) = 8" "cols \<in> {16, 32, 64}" "\<not> pf_debug pf"
    "cap \<le> 2 ^ 34" "pf_fadd pf x y = pf_fadd pf y x" "8 dvd inst_single_buf_size (pf_topo pf)"
    "cols * 4 \<le> psum_single_buf_size (pf_topo pf)" "psum_single_buf_size (pf_topo pf) div (cols * 4) \<le> 2 ^ 12"
    "set (packs_to_run (pf_topo pf) sr) \<subseteq> set (pack_identifiers (pf_topo pf)) \<Longrightarrow> schedule_for (pf_topo pf) sr (pf_sched pf sr)"
  using assms unfolding platform_ok_def by blast+

lemma untrusted_operation_simps [simp]:
  "sparse_feature_size (untrusted_operation d et mb lens inds) = ud_cols d mod 2 ^ 32"
  "tables_sizes (untrusted_operation d et mb lens inds) = map unat (ud_rows d)"
  "minibatch_size (untrusted_operation d et mb lens inds) = mb mod 2 ^ 32" "lengths (untrusted_operation d et mb lens inds) = lens"
  "indices (untrusted_operation d et mb lens inds) = inds" "tables_objects (untrusted_operation d et mb lens inds) = et_layout et"
  "sls_type (untrusted_operation d et mb lens inds) = (if ud_with_tag d then Uint32Tagged else Uint32)"
  by (simp_all add: untrusted_operation_def SlsOperation.make_def)

lemma run_params_make:
  "(SlsOperation.make a b 0 [] [] l t)\<lparr>minibatch_size := mb, lengths := lens, indices := inds\<rparr> = SlsOperation.make a b mb lens inds l t"
  by (simp add: SlsOperation.make_def)

lemma units_hold_run:
  assumes "units_hold pf cap d cols tables" "same_tables (ud_units d) us"
  shows "units_hold pf cap (d\<lparr>ud_units := us\<rparr>) cols tables"
proof -
  have l: "length us = length (ud_units d)" "\<forall>c < length us. blk (us ! c) SLS_BLOCK_BASE = blk (ud_units d ! c) SLS_BLOCK_BASE \<and> blk_size (us ! c) = blk_size (ud_units d ! c)"
    using assms(2) by (simp_all add: same_tables_def)
  then have "unit_ok topo ma" if "\<forall>ma \<in> set (ud_units d). unit_ok topo ma" "ma \<in> set us" for topo ma
    using that unit_ok_cong by (metis in_set_conv_nth nth_mem)
  then show ?thesis using assms(1) l by (auto simp: units_hold_def sees_def Let_def)
qed

lemma untrusted_shape:
  assumes "untrusted_holds pf cap d cols False tables" "tables_wf cols tables" "length lens = mb * length tables"
    "sum_list lens \<le> length inds" "segs_ok (per_table mb tables (segments lens inds))" "untrusted_accepts pf mb lens"
  shows "request_shape (pf_topo pf) (untrusted_operation d et mb lens inds) tables" "ud_cols d mod 2 ^ 32 = cols" "mb mod 2 ^ 32 = mb"
    "\<not> ud_with_tag d"
proof -
  have h: "ud_cols d = cols" "\<not> ud_with_tag d" "ud_rows d = map (of_nat \<circ> length) tables" "tables \<noteq> []"
    "\<forall>T \<in> set tables. length T * (4 * cols) \<le> 2 ^ 32" "platform_ok pf cap cols"
    using assms(1) by (simp_all add: untrusted_holds_def)
  note p = platform_facts [OF h(6)]
  show c: "ud_cols d mod 2 ^ 32 = cols" "mb mod 2 ^ 32 = mb" "\<not> ud_with_tag d" using p(4) h(1,2) assms(6) by (auto simp: untrusted_accepts_def)
  have len: "\<forall>T \<in> set tables. length T < 2 ^ 32"
  proof
    fix T assume "T \<in> set tables"
    then have b: "length T * (4 * cols) \<le> 2 ^ 32" using h(5) by blast
    have "length T * 2 \<le> length T * (4 * cols)" using p(4) by (intro mult_left_mono) auto
    then have "length T * 2 \<le> 2 ^ 32" using b by (rule order_trans)
    then show "length T < 2 ^ 32" by simp
  qed
  then have sz: "map unat (ud_rows d) = map length tables" using h(3) by (simp add: unat_of_nat take_bit_nat_eq_self)
  have lens: "\<forall>l \<in> set lens. 0 < l \<and> (l + 1) * 8 \<le> inst_single_buf_size (pf_topo pf)" "0 < mb" "sum_list lens < 2 ^ 31"
    using assms(6) by (simp_all add: untrusted_accepts_def)
  show "request_shape (pf_topo pf) (untrusted_operation d et mb lens inds) tables"
    unfolding request_shape_def op_ok_def sim_ok_def tables_ok_def is_tagged_def untrusted_operation_simps c sz
    using p assms(2-5) h(4) lens len c(3) by (auto simp: mult.commute)
qed

lemma untrusted_run_correct:
  assumes "untrusted_holds pf cap d cols False tables" "tables_wf cols tables" "length lens = mb * length tables"
    "sum_list lens \<le> length inds" "segs_ok (per_table mb tables (segments lens inds))" "length ps = mb * length tables * cols"
    "untrusted_accepts pf mb lens"
  shows "\<exists>d'. UntrustedDevice_run pf d mb lens inds ps = Inr (d', cell_sums (+) cols (per_table mb tables (segments lens inds))) \<and>
    untrusted_holds pf cap d' cols False tables"
proof -
  let ?topo = "pf_topo pf" and ?n = "NumOfCUnits (pf_topo pf)"
  have h: "tables \<noteq> []" "\<forall>T \<in> set tables. length T * (4 * cols) \<le> 2 ^ 32" "platform_ok pf cap cols" "units_hold pf cap d cols tables"
    using assms(1) by (simp_all add: untrusted_holds_def)
  note p = platform_facts [OF h(3)]
  note s = untrusted_shape [OF assms(1-5,7)]
  obtain et bufs where et: "ud_tables d = Some et" "et_layout et = map (pack_tables 0 bufs) [0..<num_of_pack ?topo]"
    and b: "list_all2 (\<lambda>T b. table_buffer ?n (pf_pid pf) (of_nat (length T * (4 * cols))) b) tables bufs"
      "\<forall>b \<in> set bufs. \<forall>s \<in> set (located (regions_of b)). region_fits ?n cap s"
      "tables_in_memory (pf_machine pf) ?n bufs (map table_bytes tables) (ud_memory d)" "sees (pf_machine pf) ?n cap (ud_memory d) (ud_units d)"
      "\<forall>ma \<in> set (ud_units d). unit_ok ?topo ma"
    using h(4) unfolding units_hold_def Let_def by blast
  let ?op = "untrusted_operation d et mb lens inds"
  have out: "length (row_bytes ps) = length (lengths ?op) * sparse_feature_size ?op * DataSize ?topo"
    using assms(3,6) p(2) s(2) by simp
  obtain sr where sr: "SparseReduction_make None ?topo ?op = Inr sr" "set (packs_to_run ?topo sr) \<subseteq> set (pack_identifiers ?topo)"
    and run: "\<forall>sched. schedule_for ?topo sr sched \<longrightarrow> (\<exists>dev'. run_operation sched (pf_fadd pf) ?topo sr (ud_units d, row_bytes ps) =
      Inr (dev', row_bytes (cell_sums (op_add (pf_fadd pf) (op_code (sls_type ?op))) (sparse_feature_size ?op)
        (per_table (minibatch_size ?op) tables (segments (lengths ?op) (indices ?op))))) \<and> same_tables (ud_units d) dev')"
    using run_over_tables [where fadd = "pf_fadd pf", OF b refl p(6) s(1) _ h(2) _ p(7) out] et(2) s(2) by auto
  obtain us where us: "run_operation (pf_sched pf sr) (pf_fadd pf) ?topo sr (ud_units d, row_bytes ps) =
      Inr (us, row_bytes (cell_sums (+) cols (per_table mb tables (segments lens inds))))" "same_tables (ud_units d) us"
    using run [rule_format, OF p(11) [OF sr(2)]] s(2-4) by (auto simp: op_add_def op_code_def)
  have lens: "lens \<noteq> []" "inds \<noteq> []" "ps \<noteq> []"
  proof -
    have "0 < length lens" using assms(3,7) h(1) by (simp add: untrusted_accepts_def)
    then show l: "lens \<noteq> []" by simp
    then have "0 < sum_list lens" using assms(7) by (cases lens) (auto simp: untrusted_accepts_def)
    then have "0 < length inds" using assms(4) by (rule less_le_trans)
    then show "inds \<noteq> []" by simp
    have "0 < length ps" using assms(6,7) h(1) p(4) by (auto simp: untrusted_accepts_def)
    then show "ps \<noteq> []" by simp
  qed
  have chk: "check_sparse_feature_size cols = Inr ()" "check_run_params (pf_debug pf) ?op (length (row_bytes ps)) = Inr ()"
    using p(4,5) lens s(3) assms(7) by (auto simp: check_sparse_feature_size_def check_run_params_def untrusted_accepts_def)
  let ?made = "SlsOperation.make (ud_cols d mod 2 ^ 32) (map unat (ud_rows d)) 0 [] [] (et_layout et) (if ud_with_tag d then Uint32Tagged else Uint32)"
  have op: "?made\<lparr>minibatch_size := mb mod 2 ^ 32, lengths := lens, indices := inds\<rparr> = ?op"
    unfolding untrusted_operation_def by (rule run_params_make)
  have ops: "SlsOperation_create (ud_cols d mod 2 ^ 32) (map unat (ud_rows d)) (ud_tables d) (if ud_with_tag d then Uint32Tagged else Uint32) = Inr ?made"
    "set_run_params (pf_debug pf) (mb mod 2 ^ 32) lens inds (length (row_bytes ps)) ?made = Inr ?op"
  proof -
    show "SlsOperation_create (ud_cols d mod 2 ^ 32) (map unat (ud_rows d)) (ud_tables d) (if ud_with_tag d then Uint32Tagged else Uint32) = Inr ?made"
      unfolding SlsOperation_create_def et(1) option.case s(2) chk(1) by simp
    show "set_run_params (pf_debug pf) (mb mod 2 ^ 32) lens inds (length (row_bytes ps)) ?made = Inr ?op"
      unfolding set_run_params_def Let_def op chk(2) by simp
  qed
  have "UntrustedDevice_run pf d mb lens inds ps = Inr (d\<lparr>ud_units := us\<rparr>, cell_sums (+) cols (per_table mb tables (segments lens inds)))"
    unfolding UntrustedDevice_run_def untrusted_run_def ops bind_r_simps sls_dispatch_def sr(1) us(1)
    by (simp add: cast32_row_bytes)
  moreover have "untrusted_holds pf cap (d\<lparr>ud_units := us\<rparr>) cols False tables"
    using assms(1) units_hold_run [OF h(4) us(2)] by (simp add: untrusted_holds_def)
  ultimately show ?thesis by blast
qed

interpretation untrusted: honest_device "untrusted_device pf" "untrusted_holds pf cap" "untrusted_accepts pf" for pf cap
proof
  show "\<exists>d'. dev_run (untrusted_device pf) d mb lens inds ps = Inr (d', cell_sums (+) cols (per_table mb tables (segments lens inds))) \<and>
      untrusted_holds pf cap d' cols False tables"
    if "untrusted_holds pf cap d cols False tables" "tables_wf cols tables" "length lens = mb * length tables" "sum_list lens \<le> length inds"
      "segs_ok (per_table mb tables (segments lens inds))" "length ps = mb * length tables * cols" "untrusted_accepts pf mb lens"
    for d cols tables lens mb inds ps
    using untrusted_run_correct [OF that] by (simp add: untrusted_device_def)
qed (simp add: untrusted_holds_def)


section \<open>Loading\<close>








section \<open>Properties\<close>


section \<open>Witness\<close>






end
