(* ===== verification/Axdimm_Core.thy ===== *)
theory Axdimm_Core
  imports Rank_Address Cxl_Core_Sim
begin

text \<open>
  The functional simulator of the AXDIMM device
  (\<open>core/device/sls/simulator_core/axdimm_core_sim.cpp\<close>) and its multiply buffered memories
  (\<open>core/device/sls/utils/nbuffer_memory.cpp\<close>). The memory is the flat memory of the host, in which
  the two ranks of a module are interleaved: every access goes through an interleaved pointer. The
  second part shows what an access does to the memory of one rank, and with it what the simulator
  does to the blocks of a compute unit.
\<close>

section \<open>Memory of the ranks\<close>

text \<open>The addresses of the blocks of a compute unit, and how many bytes of its rank each block has.\<close>

record RankBlocks =
  rb_addr :: "sls_block \<Rightarrow> u64"
  rb_size :: "sls_block \<Rightarrow> nat"

type_synonym rank_map = "RankBlocks list"

definition block_ptr :: "rank_map \<Rightarrow> nat \<Rightarrow> sls_block \<Rightarrow> InterleavedPointer" where
  "block_ptr rm cu b = ip_make (rb_addr (rm ! cu) b) (cunit_to_ha (of_nat cu))"

text \<open>Words behind a pointer: the pointer is interleaved once, the bytes of the word follow each other.\<close>

definition ip_load :: "nat \<Rightarrow> devmem \<Rightarrow> InterleavedPointer \<Rightarrow> 'w::len word" where
  "ip_load n m p = load_le n (\<lambda>i. m (ip_interleaved p + of_nat i)) 0"

definition ip_store :: "nat \<Rightarrow> devmem \<Rightarrow> InterleavedPointer \<Rightarrow> 'w::len word \<Rightarrow> devmem" where
  "ip_store n m p w = copy_n_to m (ip_interleaved p) (word_bytes n w)"

section \<open>Multiply buffered memory\<close>

datatype nb_type = READ | WRITE

definition type_index :: "nb_type \<Rightarrow> nat" where
  "type_index t = (case t of READ \<Rightarrow> 0 | WRITE \<Rightarrow> 1)"

record NBufferedMemory =
  nb_single_buffer_size :: nat
  nb_buffers_num :: nat
  nb_indices :: "nat list list"
  nb_block :: sls_block

definition get_index :: "Constants \<Rightarrow> NBufferedMemory \<Rightarrow> nat \<Rightarrow> nb_type \<Rightarrow> nat result" where
  "get_index topo nb rank t =
     assert_r (rank < NumOfCUnits topo)
      (let idx = nb_indices nb ! rank ! type_index t in assert_r (idx < nb_buffers_num nb) (Inr idx))"

text \<open>The value is passed in 8 bits.\<close>

definition set_index :: "Constants \<Rightarrow> nat \<Rightarrow> nb_type \<Rightarrow> nat \<Rightarrow> NBufferedMemory \<Rightarrow> NBufferedMemory result" where
  "set_index topo rank t val nb =
     (let v = val mod 256 in
      assert_r (rank < NumOfCUnits topo) (assert_r (v < nb_buffers_num nb)
        (Inr (nb\<lparr>nb_indices := (nb_indices nb)[rank := (nb_indices nb ! rank)[type_index t := v]]\<rparr>))))"

definition shift_index :: "Constants \<Rightarrow> nat \<Rightarrow> nb_type \<Rightarrow> NBufferedMemory \<Rightarrow> NBufferedMemory result" where
  "shift_index topo rank t nb =
     bind_r (get_index topo nb rank t) (\<lambda>i. set_index topo rank t ((i + 1) mod nb_buffers_num nb) nb)"

definition nb_shift_buffers :: "Constants \<Rightarrow> nat \<Rightarrow> NBufferedMemory \<Rightarrow> NBufferedMemory result" where
  "nb_shift_buffers topo rank nb = bind_r (shift_index topo rank READ nb) (shift_index topo rank WRITE)"

primrec init_ranks :: "Constants \<Rightarrow> nat list \<Rightarrow> NBufferedMemory \<Rightarrow> NBufferedMemory result" where
  "init_ranks topo [] nb = Inr nb"
| "init_ranks topo (rank # ranks) nb =
     bind_r (set_index topo rank READ (nb_buffers_num nb - 1) nb) (\<lambda>nb.
     bind_r (set_index topo rank WRITE 0 nb) (init_ranks topo ranks))"

definition NBufferedMemory_make :: "Constants \<Rightarrow> nat \<Rightarrow> nat \<Rightarrow> sls_block \<Rightarrow> NBufferedMemory result" where
  "NBufferedMemory_make topo single_buffer_size buffers_num block =
     assert_r (0 < buffers_num) (assert_r (0 < single_buffer_size)
      (init_ranks topo [0..<NumOfCUnits topo]
        \<lparr>nb_single_buffer_size = single_buffer_size, nb_buffers_num = buffers_num,
         nb_indices = replicate (NumOfCUnits topo) [0, 0], nb_block = block\<rparr>))"

definition get_buffer_by_index :: "rank_map \<Rightarrow> NBufferedMemory \<Rightarrow> nat \<Rightarrow> nat \<Rightarrow> InterleavedPointer" where
  "get_buffer_by_index rm nb cunit index = ip_add (block_ptr rm cunit (nb_block nb)) (of_nat (nb_single_buffer_size nb * index))"

definition get_buffer :: "Constants \<Rightarrow> rank_map \<Rightarrow> NBufferedMemory \<Rightarrow> nat \<Rightarrow> nb_type \<Rightarrow> InterleavedPointer result" where
  "get_buffer topo rm nb rank t = bind_r (get_index topo nb rank t) (\<lambda>i. Inr (get_buffer_by_index rm nb rank i))"

section \<open>The simulator\<close>

text \<open>The offset maps give, for every buffer and every compute unit, the range that has been written.\<close>

type_synonym offset_map = "nat list list"

record AxdimmSimulatorCore =
  psum_memory :: NBufferedMemory
  tags_memory :: NBufferedMemory
  min_psum_offsets :: offset_map
  max_psum_offsets :: offset_map
  min_tags_offsets :: offset_map
  max_tags_offsets :: offset_map

definition AxdimmSimulatorCore_make :: "Constants \<Rightarrow> AxdimmSimulatorCore result" where
  "AxdimmSimulatorCore_make topo =
     bind_r (NBufferedMemory_make topo (psum_single_buf_size topo) (NumOfPSumBuf topo) SLS_BLOCK_PSUM) (\<lambda>psum.
     bind_r (NBufferedMemory_make topo (tags_single_buf_size topo) (NumOfTagsBuf topo) SLS_BLOCK_TAGS) (\<lambda>tags.
       Inr \<lparr>psum_memory = psum, tags_memory = tags,
            min_psum_offsets = replicate (NumOfPSumBuf topo) (replicate (NumOfCUnits topo) 0),
            max_psum_offsets = replicate (NumOfPSumBuf topo) (replicate (NumOfCUnits topo) (psum_single_buf_size topo)),
            min_tags_offsets = replicate (NumOfTagsBuf topo) (replicate (NumOfCUnits topo) 0),
            max_tags_offsets = replicate (NumOfTagsBuf topo) (replicate (NumOfCUnits topo) (tags_single_buf_size topo))\<rparr>))"

definition current_psum_buf :: "Constants \<Rightarrow> rank_map \<Rightarrow> AxdimmSimulatorCore \<Rightarrow> nat \<Rightarrow> u32 \<Rightarrow> InterleavedPointer result" where
  "current_psum_buf topo rm core cu off = bind_r (get_buffer topo rm (psum_memory core) cu READ) (\<lambda>p. Inr (ip_add p (ucast off)))"

definition current_tags_buf :: "Constants \<Rightarrow> rank_map \<Rightarrow> AxdimmSimulatorCore \<Rightarrow> nat \<Rightarrow> u32 \<Rightarrow> InterleavedPointer result" where
  "current_tags_buf topo rm core cu off = bind_r (get_buffer topo rm (tags_memory core) cu READ) (\<lambda>p. Inr (ip_add p (ucast off)))"

definition ax_shift_buffers :: "Constants \<Rightarrow> nat \<Rightarrow> AxdimmSimulatorCore \<Rightarrow> AxdimmSimulatorCore result" where
  "ax_shift_buffers topo cu core =
     bind_r (nb_shift_buffers topo cu (psum_memory core)) (\<lambda>p.
     bind_r (nb_shift_buffers topo cu (tags_memory core)) (\<lambda>t. Inr (core\<lparr>psum_memory := p, tags_memory := t\<rparr>)))"

section \<open>Row additions\<close>

primrec ax_sum_loop :: "nat \<Rightarrow> add_op \<Rightarrow> InterleavedPointer \<Rightarrow> InterleavedPointer \<Rightarrow> devmem \<Rightarrow> devmem" where
  "ax_sum_loop 0 add ft_table psum m = m"
| "ax_sum_loop (Suc n) add ft_table psum m =
     ax_sum_loop n add (ip_add ft_table 4) (ip_add psum 4)
       (ip_store 4 m psum (add (ip_load 4 m psum) (ip_load 4 m ft_table)))"

definition ax_sparse_ft_sum :: "add_op \<Rightarrow> InterleavedPointer \<Rightarrow> InterleavedPointer \<Rightarrow> nat \<Rightarrow> devmem \<Rightarrow> devmem" where
  "ax_sparse_ft_sum add ft_table psum bytes_per_idx m = ax_sum_loop (bytes_per_idx div 4) add ft_table psum m"

definition ax_sparse_ft_sum_tagged ::
  "InterleavedPointer \<Rightarrow> InterleavedPointer \<Rightarrow> InterleavedPointer \<Rightarrow> nat \<Rightarrow> devmem \<Rightarrow> devmem" where
  "ax_sparse_ft_sum_tagged ft_table psum tags bytes_per_idx m =
     (let m = ax_sparse_ft_sum (+) ft_table psum bytes_per_idx m in
      ip_store 16 m tags ((ip_load 16 m tags :: u128) + ip_load 16 m (ip_add ft_table (of_nat bytes_per_idx))))"

section \<open>Running a trace\<close>

text \<open>The pointers of a run: the tables, and the buffers that are written. An unknown operation code aborts.\<close>

definition ax_exec_instr ::
  "add_op \<Rightarrow> Constants \<Rightarrow> trace_mode \<Rightarrow> DecodedInst \<Rightarrow> InterleavedPointer \<Rightarrow> InterleavedPointer \<Rightarrow> InterleavedPointer \<Rightarrow> devmem \<Rightarrow> devmem result" where
  "ax_exec_instr fadd topo mode instr tables psum tags m =
     (let bpi = mode_bytes_per_idx mode; ft = ip_add tables (ranked_encode_address instr);
          ps = ip_add psum (of_nat (unat (output_idx instr) * bpi)) in
      if opcode instr = opcode_code SPARSE_FT_SUM_F32 then Inr (ax_sparse_ft_sum fadd ft ps bpi m)
      else if opcode instr = opcode_code SPARSE_FT_SUM_U32 \<or> opcode instr = opcode_code SPARSE_FT_SUM_U32_TAGGED
      then Inr (if \<not> mode_is_tagged mode then ax_sparse_ft_sum (+) ft ps bpi m
           else ax_sparse_ft_sum_tagged ft ps (ip_add tags (of_nat (unat (output_idx instr) * AlignedTagSize topo))) bpi m)
      else Inl AssertFail)"

definition update_min :: "nat \<Rightarrow> nat \<Rightarrow> nat \<Rightarrow> offset_map \<Rightarrow> offset_map" where
  "update_min buf cu v offs = offs[buf := (offs ! buf)[cu := min (offs ! buf ! cu) v]]"

definition update_max :: "nat \<Rightarrow> nat \<Rightarrow> nat \<Rightarrow> offset_map \<Rightarrow> offset_map" where
  "update_max buf cu v offs = offs[buf := (offs ! buf)[cu := max (offs ! buf ! cu) v]]"

definition ax_track ::
  "Constants \<Rightarrow> trace_mode \<Rightarrow> DecodedInst \<Rightarrow> nat \<Rightarrow> nat \<Rightarrow> nat \<Rightarrow> AxdimmSimulatorCore \<Rightarrow> AxdimmSimulatorCore" where
  "ax_track topo mode instr psum_buf_idx tags_buf_idx cu core =
     (let psum_start = unat (output_idx instr) * mode_bytes_per_idx mode; psum_end = psum_start + mode_bytes_per_idx mode;
          core = core\<lparr>min_psum_offsets := update_min psum_buf_idx cu psum_start (min_psum_offsets core),
                      max_psum_offsets := update_max psum_buf_idx cu psum_end (max_psum_offsets core)\<rparr> in
      if mode_is_tagged mode then
        let tags_start = unat (output_idx instr) * AlignedTagSize topo; tags_end = tags_start + AlignedTagSize topo in
        core\<lparr>min_tags_offsets := update_min tags_buf_idx cu tags_start (min_tags_offsets core),
             max_tags_offsets := update_max tags_buf_idx cu tags_end (max_tags_offsets core)\<rparr>
      else core)"

record ax_ctx =
  cx_cu :: nat
  cx_psum_buf_idx :: nat
  cx_tags_buf_idx :: nat
  cx_tables :: InterleavedPointer
  cx_psum :: InterleavedPointer
  cx_tags :: InterleavedPointer
  cx_reg :: InterleavedPointer

primrec ax_exec_loop ::
  "nat \<Rightarrow> add_op \<Rightarrow> Constants \<Rightarrow> ax_ctx \<Rightarrow> nat \<Rightarrow> InterleavedPointer \<Rightarrow> trace_mode option \<Rightarrow> devmem \<times> AxdimmSimulatorCore \<Rightarrow>
   (devmem \<times> AxdimmSimulatorCore) result" where
  "ax_exec_loop 0 fadd topo cx i instr_rs mode s = Inr s"
| "ax_exec_loop (Suc k) fadd topo cx i instr_rs mode s =
     (let raw_instr = (ip_load 8 (fst s) instr_rs :: u64); instr_rs = ip_add instr_rs 8 in
      case mode of
        None \<Rightarrow> bind_r (read_header raw_instr) (\<lambda>md. ax_exec_loop k fadd topo cx (i + 1) instr_rs (Some md) s)
      | Some md \<Rightarrow>
          let instr = decode_instruction raw_instr in
          bind_r (ax_exec_instr fadd topo md instr (cx_tables cx) (cx_psum cx) (cx_tags cx) (fst s)) (\<lambda>m.
            let core = ax_track topo md instr (cx_psum_buf_idx cx) (cx_tags_buf_idx cx) (cx_cu cx) (snd s) in
            if trace_end instr \<noteq> 0 then Inr (ip_store 4 m (cx_reg cx) (of_nat (i + 1) :: u32), core)
            else assert_r (i < inst_per_single_buf topo - 1) (ax_exec_loop k fadd topo cx (i + 1) instr_rs (Some md) (m, core))))"

definition ax_exec_trace ::
  "add_op \<Rightarrow> Constants \<Rightarrow> rank_map \<Rightarrow> nat \<Rightarrow> devmem \<times> AxdimmSimulatorCore \<Rightarrow> (devmem \<times> AxdimmSimulatorCore) result" where
  "ax_exec_trace fadd topo rm cu s =
     bind_r (get_index topo (psum_memory (snd s)) cu WRITE) (\<lambda>pi.
     bind_r (get_index topo (tags_memory (snd s)) cu WRITE) (\<lambda>ti.
       ax_exec_loop (inst_per_single_buf topo) fadd topo
         \<lparr>cx_cu = cu, cx_psum_buf_idx = pi, cx_tags_buf_idx = ti, cx_tables = block_ptr rm cu SLS_BLOCK_BASE,
          cx_psum = get_buffer_by_index rm (psum_memory (snd s)) cu pi, cx_tags = get_buffer_by_index rm (tags_memory (snd s)) cu ti,
          cx_reg = ip_add (block_ptr rm cu SLS_BLOCK_CFGR) (of_nat (RegPolling topo + POLL_INST_NUM_OFFSET))\<rparr>
         0 (block_ptr rm cu SLS_BLOCK_INST) None s))"

section \<open>Clearing buffers\<close>

definition align_up :: "u32 \<Rightarrow> u32 \<Rightarrow> u32" where
  "align_up val alignment = (if val mod alignment = 0 then val else val + alignment - val mod alignment)"

definition align_down :: "u32 \<Rightarrow> u32 \<Rightarrow> u32" where
  "align_down val alignment = val - val mod alignment"

primrec clear_blocks :: "nat \<Rightarrow> InterleavedPointer \<Rightarrow> devmem \<Rightarrow> devmem" where
  "clear_blocks 0 p m = m"
| "clear_blocks (Suc n) p m =
     clear_blocks n (ip_add p (of_nat RankInterleavingSize)) (copy_n_to m (ip_interleaved p) (replicate RankInterleavingSize 0))"

definition clear_memory :: "InterleavedPointer \<Rightarrow> nat \<Rightarrow> devmem \<Rightarrow> devmem result" where
  "clear_memory p sz m = assert_r (sz mod RankInterleavingSize = 0) (Inr (clear_blocks (sz div RankInterleavingSize) p m))"

text \<open>The result has the offset maps with the entry of the buffer reset, and the memory.\<close>

definition clear_buf_common ::
  "Constants \<Rightarrow> rank_map \<Rightarrow> offset_map \<Rightarrow> offset_map \<Rightarrow> NBufferedMemory \<Rightarrow> nat \<Rightarrow> nat \<Rightarrow> nat \<Rightarrow> u32 \<Rightarrow> devmem \<Rightarrow>
   (offset_map \<times> offset_map \<times> devmem) result" where
  "clear_buf_common topo rm min_offsets max_offsets memory buffer_size cu buf_idx off m =
     assert_r (cu < NumOfCUnits topo) (assert_r (buf_idx < NumOfPSumBuf topo)
      (let max_offset = max_offsets ! buf_idx ! cu; min_offset = min_offsets ! buf_idx ! cu in
       if max_offset \<le> min_offset then Inr (min_offsets, max_offsets, m)
       else let clear_start = align_down (of_nat min_offset) (of_nat RankInterleavingSize);
                clear_end = align_up (of_nat max_offset) (of_nat RankInterleavingSize);
                clear_size = clear_end - clear_start in
         assert_r (unat clear_size mod RankInterleavingSize = 0) (assert_r (unat clear_end \<le> buffer_size)
          (bind_r (clear_memory (ip_add (get_buffer_by_index rm memory cu buf_idx) (ucast off)) (unat clear_size) m) (\<lambda>m.
             Inr (min_offsets[buf_idx := (min_offsets ! buf_idx)[cu := buffer_size]],
                  max_offsets[buf_idx := (max_offsets ! buf_idx)[cu := 0]], m))))))"

definition ax_clear_psum_buf ::
  "Constants \<Rightarrow> rank_map \<Rightarrow> nat \<Rightarrow> nat \<Rightarrow> u32 \<Rightarrow> devmem \<times> AxdimmSimulatorCore \<Rightarrow> (devmem \<times> AxdimmSimulatorCore) result" where
  "ax_clear_psum_buf topo rm cu buf_idx off s =
     bind_r (clear_buf_common topo rm (min_psum_offsets (snd s)) (max_psum_offsets (snd s)) (psum_memory (snd s))
         (psum_single_buf_size topo) cu buf_idx off (fst s)) (\<lambda>(mins, maxs, m).
       Inr (m, (snd s)\<lparr>min_psum_offsets := mins, max_psum_offsets := maxs\<rparr>))"

definition ax_clear_tags_buf ::
  "Constants \<Rightarrow> rank_map \<Rightarrow> nat \<Rightarrow> nat \<Rightarrow> u32 \<Rightarrow> devmem \<times> AxdimmSimulatorCore \<Rightarrow> (devmem \<times> AxdimmSimulatorCore) result" where
  "ax_clear_tags_buf topo rm cu buf_idx off s =
     bind_r (clear_buf_common topo rm (min_tags_offsets (snd s)) (max_tags_offsets (snd s)) (tags_memory (snd s))
         (tags_single_buf_size topo) cu buf_idx off (fst s)) (\<lambda>(mins, maxs, m).
       Inr (m, (snd s)\<lparr>min_tags_offsets := mins, max_tags_offsets := maxs\<rparr>))"

primrec ax_each_buf ::
  "(nat \<Rightarrow> devmem \<times> AxdimmSimulatorCore \<Rightarrow> (devmem \<times> AxdimmSimulatorCore) result) \<Rightarrow> nat list \<Rightarrow>
   devmem \<times> AxdimmSimulatorCore \<Rightarrow> (devmem \<times> AxdimmSimulatorCore) result" where
  "ax_each_buf f [] s = Inr s"
| "ax_each_buf f (k # ks) s = bind_r (f k s) (ax_each_buf f ks)"

definition ax_clear_buffers ::
  "Constants \<Rightarrow> rank_map \<Rightarrow> nat \<Rightarrow> devmem \<times> AxdimmSimulatorCore \<Rightarrow> (devmem \<times> AxdimmSimulatorCore) result" where
  "ax_clear_buffers topo rm cu s =
     bind_r (ax_each_buf (\<lambda>k. ax_clear_psum_buf topo rm cu k 0) [0..<NumOfPSumBuf topo] s)
       (ax_each_buf (\<lambda>k. ax_clear_tags_buf topo rm cu k 0) [0..<NumOfTagsBuf topo])"

definition handle_psum_buf_read ::
  "Constants \<Rightarrow> rank_map \<Rightarrow> nat \<Rightarrow> u32 \<Rightarrow> devmem \<times> AxdimmSimulatorCore \<Rightarrow> (devmem \<times> AxdimmSimulatorCore) result" where
  "handle_psum_buf_read topo rm cu off s =
     bind_r (get_index topo (psum_memory (snd s)) cu READ) (\<lambda>k. ax_clear_psum_buf topo rm cu k off s)"

definition handle_tags_buf_read ::
  "Constants \<Rightarrow> rank_map \<Rightarrow> nat \<Rightarrow> u32 \<Rightarrow> devmem \<times> AxdimmSimulatorCore \<Rightarrow> (devmem \<times> AxdimmSimulatorCore) result" where
  "handle_tags_buf_read topo rm cu off s =
     bind_r (get_index topo (tags_memory (snd s)) cu READ) (\<lambda>k. ax_clear_tags_buf topo rm cu k off s)"

section \<open>Specification: the blocks of a unit\<close>

text \<open>
  The memory of a rank behind a block, as the simulator's unit sees it. A layout is usable when no two
  bytes of blocks share an address.
\<close>

definition phys :: "rank_map \<Rightarrow> nat \<Rightarrow> sls_block \<Rightarrow> nat \<Rightarrow> u64" where
  "phys rm cu b i = rb_addr (rm ! cu) b + interleaved_address (of_nat i) (cunit_to_ha (of_nat cu))"

definition unit_view :: "rank_map \<Rightarrow> devmem \<Rightarrow> nat \<Rightarrow> memAddr" where
  "unit_view rm m cu = \<lparr>blk = (\<lambda>b i. if i < rb_size (rm ! cu) b then m (phys rm cu b i) else 0), blk_size = rb_size (rm ! cu)\<rparr>"

definition map_ok :: "rank_map \<Rightarrow> bool" where
  "map_ok rm \<longleftrightarrow> (\<forall>cu < length rm. \<forall>b. rb_size (rm ! cu) b \<le> 2 ^ 62) \<and>
     (\<forall>cu < length rm. \<forall>b. \<forall>i < rb_size (rm ! cu) b. \<forall>cu' < length rm. \<forall>b'. \<forall>i' < rb_size (rm ! cu') b'.
        phys rm cu b i = phys rm cu' b' i' \<longrightarrow> cu = cu' \<and> b = b' \<and> i = i')"

abbreviation at_block :: "rank_map \<Rightarrow> nat \<Rightarrow> sls_block \<Rightarrow> nat \<Rightarrow> InterleavedPointer" where
  "at_block rm cu b r \<equiv> ip_add (block_ptr rm cu b) (of_nat r)"

definition rank_lookup :: "u64 \<Rightarrow> nat \<times> u64" where
  "rank_lookup w = (unat (output_idx (decode_instruction w)), ranked_encode_address (decode_instruction w))"

definition swap_op :: "add_op \<Rightarrow> add_op" where
  "swap_op add x y = add y x"

text \<open>Lookups that stay in the tables and in a buffer of \<open>rows\<close> rows that starts at row \<open>first\<close> of the partial sums.\<close>

definition rank_lookups_ok :: "RankBlocks \<Rightarrow> nat \<Rightarrow> nat \<Rightarrow> nat \<Rightarrow> (nat \<times> u64) list \<Rightarrow> bool" where
  "rank_lookups_ok rb bpi first rows xs \<longleftrightarrow> (first + rows) * bpi \<le> rb_size rb SLS_BLOCK_PSUM \<and> first + rows < 2 ^ 32 \<and>
     (\<forall>(out, a) \<in> set xs. unat a + bpi \<le> rb_size rb SLS_BLOCK_BASE \<and> 4 dvd unat a \<and> out < rows)"

text \<open>
  What the lookups \<open>xs\<close> of unit \<open>cu\<close> do to the memory: the rows they name, counted from row \<open>first\<close>,
  have the table rows added; the other bytes of the partial sums, the other blocks but the
  configuration registers, and the other units keep their contents.
\<close>

definition summed :: "rank_map \<Rightarrow> nat \<Rightarrow> nat \<Rightarrow> nat \<Rightarrow> add_op \<Rightarrow> (nat \<times> u64) list \<Rightarrow> devmem \<Rightarrow> devmem \<Rightarrow> bool" where
  "summed rm cu bpi first add xs m m' \<longleftrightarrow>
     (\<forall>cu' < length rm. cu' \<noteq> cu \<longrightarrow> unit_view rm m' cu' = unit_view rm m cu') \<and>
     (\<forall>b. b \<noteq> SLS_BLOCK_PSUM \<and> b \<noteq> SLS_BLOCK_CFGR \<longrightarrow> blk (unit_view rm m' cu) b = blk (unit_view rm m cu) b) \<and>
     psum_rows bpi (unit_view rm m' cu) =
       add_lookups (swap_op add) (base_row bpi (unit_view rm m cu)) (map (\<lambda>(out, a). (first + out, a)) xs) (psum_rows bpi (unit_view rm m cu)) \<and>
     (\<forall>x. (\<forall>(out, a) \<in> set xs. x < (first + out) * bpi \<or> (first + out) * bpi + bpi \<le> x) \<longrightarrow>
        blk (unit_view rm m' cu) SLS_BLOCK_PSUM x = blk (unit_view rm m cu) SLS_BLOCK_PSUM x)"

text \<open>A layout in which every pair of ranks has regions of its own for the blocks.\<close>

definition regions :: "rank_map \<Rightarrow> (nat \<Rightarrow> sls_block \<Rightarrow> nat) \<Rightarrow> bool" where
  "regions rm g \<longleftrightarrow> (\<forall>cu < length rm. \<forall>b. rb_size (rm ! cu) b \<le> 2 ^ 30 \<and> rb_addr (rm ! cu) b = of_nat (g cu b * 2 ^ 32) \<and> g cu b < 2 ^ 31 \<and>
     (\<forall>cu' < length rm. \<forall>b'. g cu b = g cu' b' \<longrightarrow> b = b' \<and> (cu = cu' \<or> cunit_to_ha (of_nat cu) \<noteq> cunit_to_ha (of_nat cu'))))"

section \<open>Accesses through interleaved pointers\<close>

lemma block_ptr_simps [simp]:
  "ip_inv (block_ptr rm cu b)" "ip_ranked_addr (block_ptr rm cu b) = 0" "ip_base (block_ptr rm cu b) = rb_addr (rm ! cu) b"
  "ip_HA (block_ptr rm cu b) = cunit_to_ha (of_nat cu)"
  by (simp_all add: block_ptr_def ip_make_def ip_update_def ip_inv_def cunit_to_ha_le)

lemma at_block_addr: "ip_interleaved (at_block rm cu b r) = phys rm cu b r"
  by (simp add: phys_def)

lemma at_block_add: "ip_add (at_block rm cu b r) (of_nat k) = at_block rm cu b (r + k)"
  by simp

lemma unit_write:
  assumes "map_ok rm" "cu < length rm" "cu' < length rm" "r + length bs \<le> rb_size (rm ! cu) b"
  shows "unit_view rm (rank_write m (at_block rm cu b r) bs) cu' =
    (if cu' = cu then set_blk b (write_bytes (blk (unit_view rm m cu) b) r bs) (unit_view rm m cu) else unit_view rm m cu')"
proof -
  have sz: "rb_size (rm ! cu) b \<le> 2 ^ 62" using assms(1,2) by (simp add: map_ok_def)
  have inj: "cu' = cu \<and> b' = b \<and> i' = i"
    if "phys rm cu' b' i' = phys rm cu b i" "i' < rb_size (rm ! cu') b'" "i < rb_size (rm ! cu) b" for b' i' i
    using assms(1-3) that unfolding map_ok_def by metis
  have mem: "rank_write m (at_block rm cu b r) bs (phys rm cu' b' i') =
      (if cu' = cu \<and> b' = b \<and> r \<le> i' \<and> i' < r + length bs then bs ! (i' - r) else m (phys rm cu' b' i'))"
    if "i' < rb_size (rm ! cu') b'" for b' i'
  proof (cases "cu' = cu \<and> b' = b \<and> r \<le> i' \<and> i' < r + length bs")
    case True
    have "unat (ip_ranked_addr (at_block rm cu b r)) + length bs \<le> 2 ^ 63"
      using assms(4) sz by (simp add: unat_of_nat take_bit_nat_eq_self)
    moreover have "i' - r < length bs" using True by arith
    ultimately show ?thesis using True rank_write_read [of "at_block rm cu b r" bs "i' - r" m] by (simp add: phys_def)
  next
    case False
    have "phys rm cu' b' i' \<noteq> ip_interleaved (ip_add (at_block rm cu b r) (of_nat i))" if "i < length bs" for i
    proof
      assume "phys rm cu' b' i' = ip_interleaved (ip_add (at_block rm cu b r) (of_nat i))"
      then have "phys rm cu' b' i' = phys rm cu b (r + i)" by (simp add: phys_def)
      then have "cu' = cu \<and> b' = b \<and> i' = r + i" by (rule inj) (use assms(4) that \<open>i' < rb_size (rm ! cu') b'\<close> in simp_all)
      then show False using False that by auto
    qed
    then have "rank_write m (at_block rm cu b r) bs (phys rm cu' b' i') = m (phys rm cu' b' i')"
      by (intro rank_write_other) simp_all
    then show ?thesis unfolding if_not_P [OF False] .
  qed
  show ?thesis
  proof (cases "cu' = cu")
    case True
    have "blk (unit_view rm (rank_write m (at_block rm cu b r) bs) cu) = (blk (unit_view rm m cu))(b := write_bytes (blk (unit_view rm m cu) b) r bs)"
      using mem True assms(4) by (auto simp: unit_view_def write_bytes_def fun_eq_iff)
    then show ?thesis using True by (simp add: set_blk_def) (simp add: unit_view_def)
  next
    case False
    then show ?thesis using mem by (auto simp: unit_view_def fun_eq_iff)
  qed
qed

lemma unit_read:
  assumes "r + n \<le> rb_size (rm ! cu) b"
  shows "rank_read m (at_block rm cu b r) n = read_bytes (blk (unit_view rm m cu) b) r n"
  using assms by (intro nth_equalityI) (simp_all add: rank_read_def read_bytes_def unit_view_def phys_def)

lemma ip_store_write:
  assumes "r < 2 ^ 63" "r mod 256 + n \<le> 256"
  shows "ip_store n m (at_block rm cu b r) w = rank_write m (at_block rm cu b r) (word_bytes n w)"
  using assms by (subst rank_write_block) (simp_all add: ip_store_def unat_of_nat take_bit_nat_eq_self)

lemma load_le_shift: "(\<And>i. i < n \<Longrightarrow> f (a + i) = g (a' + i)) \<Longrightarrow> load_le n f a = load_le n g a'"
  by (rule bit_word_eqI) (auto simp: bit_load_le less_mult_imp_div_less mult.commute)

lemma unit_load:
  assumes "r + n \<le> rb_size (rm ! cu) b" "r < 2 ^ 63" "r mod 256 + n \<le> 256"
  shows "ip_load n m (at_block rm cu b r) = load_le n (blk (unit_view rm m cu) b) r"
proof -
  have e: "copy_n_from m (ip_interleaved (at_block rm cu b r)) n = read_bytes (blk (unit_view rm m cu) b) r n"
    using assms by (subst rank_read_block) (simp_all add: unit_read unat_of_nat take_bit_nat_eq_self)
  have "m (ip_interleaved (at_block rm cu b r) + of_nat i) = blk (unit_view rm m cu) b (r + i)" if "i < n" for i
    using arg_cong [OF e, of "\<lambda>xs. xs ! i"] that by (simp add: copy_n_from_def read_bytes_def)
  then show ?thesis unfolding ip_load_def by (intro load_le_shift) simp
qed

lemma unit_store:
  fixes w :: "'w::len word"
  assumes "map_ok rm" "cu < length rm" "cu' < length rm" "r + n \<le> rb_size (rm ! cu) b" "r mod 256 + n \<le> 256"
  shows "unit_view rm (ip_store n m (at_block rm cu b r) w) cu' =
    (if cu' = cu then set_blk b (store_le n (blk (unit_view rm m cu) b) r w) (unit_view rm m cu) else unit_view rm m cu')"
proof -
  have "rb_size (rm ! cu) b \<le> 2 ^ 62" using assms(1,2) by (simp add: map_ok_def)
  then have r: "r < 2 ^ 63" using assms(4) by simp
  have "write_bytes f r (word_bytes n w) = store_le n f r w" for f
    by (auto simp: write_bytes_def store_le_def word_bytes_def fun_eq_iff)
  then show ?thesis unfolding ip_store_write [OF r assms(5)] using unit_write [OF assms(1-3), of r "word_bytes n w" b m] assms(4) by simp
qed

section \<open>Row additions in a unit\<close>

lemma set_blk_twice: "set_blk b x (set_blk b y ma) = set_blk b x ma"
  by (simp add: set_blk_def)

lemma stripe4: "4 dvd r \<Longrightarrow> r mod 256 + 4 \<le> (256 :: nat)"
  by presburger

lemma unit_sum_loop:
  assumes "map_ok rm" "cu < length rm" "cu' < length rm" "a + 4 * n \<le> rb_size (rm ! cu) SLS_BLOCK_BASE"
    "p + 4 * n \<le> rb_size (rm ! cu) SLS_BLOCK_PSUM" "4 dvd a" "4 dvd p"
  shows "unit_view rm (ax_sum_loop n add (at_block rm cu SLS_BLOCK_BASE a) (at_block rm cu SLS_BLOCK_PSUM p) m) cu' =
    (if cu' = cu then set_blk SLS_BLOCK_PSUM (fold (\<lambda>j f. store_le 4 f (p + 4 * j)
         (add (load_le 4 f (p + 4 * j)) (load_le 4 (blk (unit_view rm m cu) SLS_BLOCK_BASE) (a + 4 * j)))) [0..<n]
         (blk (unit_view rm m cu) SLS_BLOCK_PSUM)) (unit_view rm m cu)
     else unit_view rm m cu')"
  using assms(4-7)
proof (induction n arbitrary: a p m)
  case 0
  then show ?case by (simp add: set_blk_def)
next
  case (Suc n)
  let ?U = "unit_view rm m cu"
  let ?w = "add (load_le 4 (blk ?U SLS_BLOCK_PSUM) p) (load_le 4 (blk ?U SLS_BLOCK_BASE) a)"
  let ?m = "ip_store 4 m (at_block rm cu SLS_BLOCK_PSUM p) ?w"
  have sz: "rb_size (rm ! cu) b \<le> 2 ^ 62" for b using assms(1,2) by (simp add: map_ok_def)
  have r: "a < 2 ^ 63" "p < 2 ^ 63" using Suc.prems(1,2) sz [of SLS_BLOCK_BASE] sz [of SLS_BLOCK_PSUM] by simp_all
  have ld: "ip_load 4 m (at_block rm cu SLS_BLOCK_PSUM p) = (load_le 4 (blk ?U SLS_BLOCK_PSUM) p :: u32)"
    "ip_load 4 m (at_block rm cu SLS_BLOCK_BASE a) = (load_le 4 (blk ?U SLS_BLOCK_BASE) a :: u32)"
    using Suc.prems r by (intro unit_load; simp add: stripe4)+
  have st: "unit_view rm ?m c = (if c = cu then set_blk SLS_BLOCK_PSUM (store_le 4 (blk ?U SLS_BLOCK_PSUM) p ?w) ?U else unit_view rm m c)"
    if "c < length rm" for c
    using Suc.prems by (intro unit_store [OF assms(1,2) that]) (simp_all add: stripe4)
  have l: "ax_sum_loop (Suc n) add (at_block rm cu SLS_BLOCK_BASE a) (at_block rm cu SLS_BLOCK_PSUM p) m =
      ax_sum_loop n add (at_block rm cu SLS_BLOCK_BASE (a + 4)) (at_block rm cu SLS_BLOCK_PSUM (p + 4)) ?m"
    by (simp add: ld)
  have f: "fold (\<lambda>j f. store_le 4 f (p + 4 * j) (add (load_le 4 f (p + 4 * j)) (load_le 4 (blk ?U SLS_BLOCK_BASE) (a + 4 * j)))) [0..<Suc n] g =
      fold (\<lambda>j f. store_le 4 f (p + 4 + 4 * j) (add (load_le 4 f (p + 4 + 4 * j)) (load_le 4 (blk ?U SLS_BLOCK_BASE) (a + 4 + 4 * j)))) [0..<n]
        (store_le 4 g p (add (load_le 4 g p) (load_le 4 (blk ?U SLS_BLOCK_BASE) a)))" for g
    by (simp add: upt_conv_Cons map_Suc_upt [symmetric] fold_map comp_def algebra_simps del: upt_Suc)
  have "a + 4 + 4 * n \<le> rb_size (rm ! cu) SLS_BLOCK_BASE" "p + 4 + 4 * n \<le> rb_size (rm ! cu) SLS_BLOCK_PSUM" "4 dvd a + 4" "4 dvd p + 4"
    using Suc.prems by simp_all
  note ih = Suc.IH [OF this, of ?m]
  show ?case unfolding l ih f st [OF assms(2)] st [OF assms(3)] by (simp add: set_blk_twice)
qed

lemma unit_ft_sum:
  assumes "map_ok rm" "cu < length rm" "a + bpi \<le> rb_size (rm ! cu) SLS_BLOCK_BASE" "4 dvd a" "4 dvd bpi" "k < 2 ^ 32"
    "k * bpi + bpi \<le> rb_size (rm ! cu) SLS_BLOCK_PSUM"
  shows "\<exists>V. sparse_ft_sum (\<lambda>x y. add y x) (unit_view rm m cu) (of_nat a) (of_nat k) bpi = Inr V \<and>
    (\<forall>cu' < length rm. unit_view rm (ax_sparse_ft_sum add (at_block rm cu SLS_BLOCK_BASE a) (at_block rm cu SLS_BLOCK_PSUM (k * bpi)) bpi m) cu' =
      (if cu' = cu then V else unit_view rm m cu'))"
proof -
  have sz: "rb_size (rm ! cu) SLS_BLOCK_BASE \<le> 2 ^ 62" using assms(1,2) by (simp add: map_ok_def)
  have a: "unat (of_nat a :: u64) = a" "unat (of_nat k :: u32) = k" using assms(3,6) sz by (simp_all add: unat_of_nat take_bit_nat_eq_self)
  have b: "4 * (bpi div 4) = bpi" "4 dvd k * bpi" using assms(5) by simp_all
  have bs: "blk_size (unit_view rm m cu) = rb_size (rm ! cu)" by (simp add: unit_view_def)
  show ?thesis using assms(3,4,7) b unit_sum_loop [OF assms(1,2), of _ a "bpi div 4" "k * bpi" add m]
    by (simp add: sparse_ft_sum_def a Let_def ax_sparse_ft_sum_def bs)
qed

section \<open>Running a trace in a unit\<close>

lemma sparse_ft_sum_frame:
  assumes "sparse_ft_sum add ma a out bpi = Inr ma'" "x < unat out * bpi \<or> unat out * bpi + bpi \<le> x" "4 dvd bpi"
  shows "blk ma' SLS_BLOCK_PSUM x = blk ma SLS_BLOCK_PSUM x"
proof -
  have "4 * (bpi div 4) = bpi" using assms(3) by simp
  then show ?thesis using assms(1,2) fold_add_row(1) [of x "unat out * bpi" "bpi div 4"]
    by (auto simp: sparse_ft_sum_def Let_def split: if_splits)
qed

lemma ax_exec_instr_correct:
  fixes m :: devmem
  assumes "map_ok rm" "cu < length rm" "opcode d \<in> {0, 2, 3}" "\<not> mode_is_tagged md" "mode_bytes_per_idx md = bpi" "4 dvd bpi"
    "rank_lookups_ok (rm ! cu) bpi first rows [(unat (output_idx d), ranked_encode_address d)]"
  defines "q \<equiv> first + unat (output_idx d)" and "U \<equiv> unit_view rm m cu"
  shows "\<exists>m'. ax_exec_instr fadd topo md d (block_ptr rm cu SLS_BLOCK_BASE) (at_block rm cu SLS_BLOCK_PSUM (first * bpi)) tags m = Inr m' \<and>
    (\<forall>cu' < length rm. cu' \<noteq> cu \<longrightarrow> unit_view rm m' cu' = unit_view rm m cu') \<and>
    (\<forall>b. b \<noteq> SLS_BLOCK_PSUM \<longrightarrow> blk (unit_view rm m' cu) b = blk U b) \<and>
    psum_rows bpi (unit_view rm m' cu) = (psum_rows bpi U)(q :=
      add_row (swap_op (op_add fadd (opcode d))) (base_row bpi U (ranked_encode_address d)) (psum_rows bpi U q)) \<and>
    (\<forall>x. x < q * bpi \<or> q * bpi + bpi \<le> x \<longrightarrow> blk (unit_view rm m' cu) SLS_BLOCK_PSUM x = blk U SLS_BLOCK_PSUM x)"
proof -
  let ?a = "ranked_encode_address d" and ?add = "op_add fadd (opcode d)"
  have ok: "unat ?a + bpi \<le> rb_size (rm ! cu) SLS_BLOCK_BASE" "4 dvd unat ?a" "q < first + rows" "q < 2 ^ 32"
    "(first + rows) * bpi \<le> rb_size (rm ! cu) SLS_BLOCK_PSUM"
    using assms(7) by (auto simp: rank_lookups_ok_def q_def)
  have "(q + 1) * bpi \<le> (first + rows) * bpi" using ok(3) by (intro mult_right_mono) simp_all
  then have p: "q * bpi + bpi \<le> rb_size (rm ! cu) SLS_BLOCK_PSUM" using ok(5) by simp
  have ptr: "ip_add (at_block rm cu SLS_BLOCK_PSUM (first * bpi)) (of_nat (unat (output_idx d) * bpi)) = at_block rm cu SLS_BLOCK_PSUM (q * bpi)"
    "ip_add (block_ptr rm cu SLS_BLOCK_BASE) ?a = at_block rm cu SLS_BLOCK_BASE (unat ?a)"
    by (simp_all add: q_def algebra_simps)
  obtain V where V: "sparse_ft_sum (\<lambda>x y. ?add y x) U (of_nat (unat ?a)) (of_nat q) bpi = Inr V"
    "\<forall>cu' < length rm. unit_view rm (ax_sparse_ft_sum ?add (at_block rm cu SLS_BLOCK_BASE (unat ?a)) (at_block rm cu SLS_BLOCK_PSUM (q * bpi)) bpi m) cu' =
      (if cu' = cu then V else unit_view rm m cu')"
    using unit_ft_sum [OF assms(1,2) ok(1,2) assms(6) ok(4) p, of ?add m] unfolding U_def by blast
  have q: "unat (of_nat q :: u32) = q" using ok(4) by (simp add: unat_of_nat take_bit_nat_eq_self)
  have bs: "blk_size U = rb_size (rm ! cu)" by (simp add: U_def unit_view_def)
  have e: "ax_exec_instr fadd topo md d (block_ptr rm cu SLS_BLOCK_BASE) (at_block rm cu SLS_BLOCK_PSUM (first * bpi)) tags m =
      Inr (ax_sparse_ft_sum ?add (at_block rm cu SLS_BLOCK_BASE (unat ?a)) (at_block rm cu SLS_BLOCK_PSUM (q * bpi)) bpi m)"
    using assms(3,4) unfolding ax_exec_instr_def assms(5) Let_def ptr by (auto simp: op_add_def)
  have sw: "(\<lambda>x y. ?add y x) = swap_op ?add" by (simp add: swap_op_def fun_eq_iff)
  obtain V' where "sparse_ft_sum (\<lambda>x y. ?add y x) U (of_nat (unat ?a)) (of_nat q) bpi = Inr V'"
    "\<forall>b. b \<noteq> SLS_BLOCK_PSUM \<longrightarrow> blk V' b = blk U b"
    "psum_rows bpi V' q = add_row (\<lambda>x y. ?add y x) (base_row bpi U ?a) (psum_rows bpi U q)" "\<forall>r. r \<noteq> q \<longrightarrow> psum_rows bpi V' r = psum_rows bpi U r"
    using sparse_ft_sum_correct [of ?a bpi U "of_nat q" "\<lambda>x y. ?add y x"] ok(1) p assms(6) by (auto simp: q bs)
  moreover have "\<forall>x. x < q * bpi \<or> q * bpi + bpi \<le> x \<longrightarrow> blk V SLS_BLOCK_PSUM x = blk U SLS_BLOCK_PSUM x"
    using sparse_ft_sum_frame [OF V(1)] assms(6) by (simp add: q)
  ultimately show ?thesis using e V assms(2) unfolding sw by (intro exI [of _ "ax_sparse_ft_sum ?add (at_block rm cu SLS_BLOCK_BASE (unat ?a)) (at_block rm cu SLS_BLOCK_PSUM (q * bpi)) bpi m"]) (auto intro!: ext)
qed

lemma summed_Cons:
  assumes "summed rm cu bpi first add [x] m m1" "summed rm cu bpi first add xs m1 m2"
  shows "summed rm cu bpi first add (x # xs) m m2"
proof -
  have "base_row bpi (unit_view rm m1 cu) = base_row bpi (unit_view rm m cu)"
    using assms(1) by (intro ext) (simp add: base_row_def summed_def)
  then show ?thesis using assms by (simp add: summed_def add_lookups_def)
qed

lemma summed_store_reg:
  assumes "summed rm cu bpi first add xs m m1" "map_ok rm" "cu < length rm" "r + 4 \<le> rb_size (rm ! cu) SLS_BLOCK_CFGR" "4 dvd r"
  shows "summed rm cu bpi first add xs m (ip_store 4 m1 (at_block rm cu SLS_BLOCK_CFGR r) (w :: u32))"
    and "blk (unit_view rm (ip_store 4 m1 (at_block rm cu SLS_BLOCK_CFGR r) w) cu) SLS_BLOCK_CFGR =
      store_le 4 (blk (unit_view rm m1 cu) SLS_BLOCK_CFGR) r w"
proof -
  have st: "unit_view rm (ip_store 4 m1 (at_block rm cu SLS_BLOCK_CFGR r) w) c =
      (if c = cu then set_blk SLS_BLOCK_CFGR (store_le 4 (blk (unit_view rm m1 cu) SLS_BLOCK_CFGR) r w) (unit_view rm m1 cu) else unit_view rm m1 c)"
    if "c < length rm" for c
    using assms(4,5) by (intro unit_store [OF assms(2,3) that]) (simp_all add: stripe4)
  show "summed rm cu bpi first add xs m (ip_store 4 m1 (at_block rm cu SLS_BLOCK_CFGR r) w)"
    using assms(1,3) unfolding summed_def by (simp add: st psum_rows_other)
  show "blk (unit_view rm (ip_store 4 m1 (at_block rm cu SLS_BLOCK_CFGR r) w) cu) SLS_BLOCK_CFGR =
      store_le 4 (blk (unit_view rm m1 cu) SLS_BLOCK_CFGR) r w"
    by (simp add: st [OF assms(3)])
qed

lemma ax_exec_instr_summed:
  assumes "map_ok rm" "cu < length rm" "opcode (decode_instruction w) = op" "op \<in> {0, 2, 3}" "\<not> mode_is_tagged md" "mode_bytes_per_idx md = bpi" "4 dvd bpi"
    "rank_lookups_ok (rm ! cu) bpi first rows [rank_lookup w]"
  obtains m' where "ax_exec_instr fadd topo md (decode_instruction w) (block_ptr rm cu SLS_BLOCK_BASE) (at_block rm cu SLS_BLOCK_PSUM (first * bpi)) tags m = Inr m'"
    "summed rm cu bpi first (op_add fadd op) [rank_lookup w] m m'"
    "blk (unit_view rm m' cu) SLS_BLOCK_CFGR = blk (unit_view rm m cu) SLS_BLOCK_CFGR"
proof -
  have "opcode (decode_instruction w) \<in> {0, 2, 3}" using assms(3,4) by simp
  from ax_exec_instr_correct [OF assms(1,2) this assms(5-7) assms(8) [unfolded rank_lookup_def], of fadd topo tags m] that
  show ?thesis unfolding summed_def rank_lookup_def assms(3) by (auto simp: add_lookups_def)
qed

lemma ax_exec_loop_correct:
  assumes "map_ok rm" "cu < length rm" "op \<in> {0, 2, 3}" "\<not> mode_is_tagged md" "mode_bytes_per_idx md = bpi" "4 dvd bpi"
    "reg + 4 \<le> rb_size (rm ! cu) SLS_BLOCK_CFGR" "4 dvd reg"
    "cx_tables cx = block_ptr rm cu SLS_BLOCK_BASE" "cx_psum cx = at_block rm cu SLS_BLOCK_PSUM (first * bpi)" "cx_reg cx = at_block rm cu SLS_BLOCK_CFGR reg"
    "ws \<noteq> []" "inst_at (unit_view rm m cu) i ws" "i + length ws \<le> inst_per_single_buf topo" "k = inst_per_single_buf topo - i"
    "\<forall>w \<in> set ws. opcode (decode_instruction w) = op"
    "map (\<lambda>w. trace_end (decode_instruction w)) ws = replicate (length ws - 1) 0 @ [1]"
    "rank_lookups_ok (rm ! cu) bpi first rows (map rank_lookup ws)"
  shows "\<exists>m'. ax_exec_loop k fadd topo cx i (at_block rm cu SLS_BLOCK_INST (8 * i)) (Some md) (m, core) =
      Inr (m', fold (\<lambda>w. ax_track topo md (decode_instruction w) (cx_psum_buf_idx cx) (cx_tags_buf_idx cx) (cx_cu cx)) ws core) \<and>
    summed rm cu bpi first (op_add fadd op) (map rank_lookup ws) m m' \<and>
    blk (unit_view rm m' cu) SLS_BLOCK_CFGR = store_le 4 (blk (unit_view rm m cu) SLS_BLOCK_CFGR) reg (of_nat (i + length ws) :: u32)"
  using assms(12-18)
proof (induction ws arbitrary: i k m core)
  case (Cons w ws)
  let ?d = "decode_instruction w"
  have k: "k = Suc (inst_per_single_buf topo - Suc i)" using Cons.prems(3,4) by simp
  have sz: "rb_size (rm ! cu) SLS_BLOCK_INST \<le> 2 ^ 62" using assms(1,2) by (simp add: map_ok_def)
  have raw: "8 * i + 8 \<le> rb_size (rm ! cu) SLS_BLOCK_INST" "load_le 8 (blk (unit_view rm m cu) SLS_BLOCK_INST) (8 * i) = w" "inst_at (unit_view rm m cu) (Suc i) ws"
    using Cons.prems(2) by (auto simp: unit_view_def)
  have "(8 * i) mod 256 + 8 \<le> 256" by presburger
  then have ld: "ip_load 8 m (at_block rm cu SLS_BLOCK_INST (8 * i)) = w"
    using raw(1) sz unfolding raw(2) [symmetric] by (intro unit_load) simp_all
  have nx: "ip_add (at_block rm cu SLS_BLOCK_INST (8 * i)) 8 = at_block rm cu SLS_BLOCK_INST (8 * Suc i)" by (simp add: algebra_simps)
  have op: "opcode ?d = op" "rank_lookups_ok (rm ! cu) bpi first rows [rank_lookup w]" "rank_lookups_ok (rm ! cu) bpi first rows (map rank_lookup ws)"
    using Cons.prems(5,7) by (auto simp: rank_lookups_ok_def)
  obtain m1 where m1: "ax_exec_instr fadd topo md ?d (cx_tables cx) (cx_psum cx) (cx_tags cx) m = Inr m1"
    "summed rm cu bpi first (op_add fadd op) [rank_lookup w] m m1"
    "blk (unit_view rm m1 cu) SLS_BLOCK_CFGR = blk (unit_view rm m cu) SLS_BLOCK_CFGR"
    using ax_exec_instr_summed [OF assms(1,2) op(1) assms(3-6) op(2), of fadd topo "cx_tags cx" m] unfolding assms(9,10) by blast
  show ?case
  proof (cases "ws = []")
    case True
    then have "trace_end ?d = 1" using Cons.prems(6) by simp
    then show ?thesis using True k ld m1 summed_store_reg [OF m1(2) assms(1,2,7,8), of "of_nat (Suc i)"] assms(11)
      by (simp add: Let_def del: of_nat_Suc)
  next
    case False
    then obtain n where n: "length ws = Suc n" by (cases ws) auto
    then have te: "trace_end ?d = 0" "map (\<lambda>w. trace_end (decode_instruction w)) ws = replicate (length ws - 1) 0 @ [1]"
      using Cons.prems(6) by simp_all
    have ia: "inst_at (unit_view rm m1 cu) (Suc i) ws"
      using raw(3) m1(2) by (subst inst_at_cong [of _ "unit_view rm m cu"]) (simp_all add: summed_def, simp add: unit_view_def)
    have "i < inst_per_single_buf topo - 1" using Cons.prems(3) n by simp
    moreover have "Suc i + length ws \<le> inst_per_single_buf topo" "\<forall>w \<in> set ws. opcode (decode_instruction w) = op"
      using Cons.prems(3,5) by simp_all
    ultimately show ?thesis
      using Cons.IH [OF False ia _ refl _ te(2) op(3), of "ax_track topo md ?d (cx_psum_buf_idx cx) (cx_tags_buf_idx cx) (cx_cu cx) core"]
        k ld m1 nx te(1) summed_Cons [OF m1(2)] by (auto simp: Let_def)
  qed
qed simp

section \<open>Layouts\<close>

lemma unat_interleaved: "i < 2 ^ 30 \<Longrightarrow> HA \<le> 1 \<Longrightarrow> unat (interleaved_address (of_nat i) HA) < 2 ^ 32"
proof -
  assume i: "i < 2 ^ 30" and HA: "HA \<le> 1"
  have z: "n < 30" if "bit (of_nat i :: u64) n" for n
  proof (rule ccontr)
    assume "\<not> n < 30"
    then have "30 \<le> n" by simp
    then have "i < 2 ^ n" using i power_increasing [of 30 n "2 :: nat"] by simp
    then have "\<not> bit i n" by (simp add: bit_iff_odd)
    then show False using that by (simp add: bit_of_nat_iff)
  qed
  have "take_bit 32 (interleaved_address (of_nat i) HA) = interleaved_address (of_nat i) HA"
  proof (rule bit_word_eqI)
    fix n
    show "bit (take_bit 32 (interleaved_address (of_nat i) HA)) n = bit (interleaved_address (of_nat i) HA) n"
      using z [of "n - 1"] by (auto simp: bit_take_bit_iff bit_interleaved_address [OF HA])
  qed
  then have "take_bit 32 (unat (interleaved_address (of_nat i) HA)) = unat (interleaved_address (of_nat i) HA)"
    by (metis unsigned_take_bit_eq)
  then show ?thesis by (simp add: take_bit_nat_eq_self_iff)
qed

lemma regions_map_ok:
  assumes "regions rm g"
  shows "map_ok rm"
  unfolding map_ok_def
proof (intro conjI allI impI)
  show "rb_size (rm ! cu) b \<le> 2 ^ 62" if "cu < length rm" for cu b
  proof -
    have "rb_size (rm ! cu) b \<le> 2 ^ 30" using assms that unfolding regions_def by blast
    then show ?thesis by simp
  qed
  fix cu b i cu' b' i'
  assume cu: "cu < length rm" "i < rb_size (rm ! cu) b" "cu' < length rm" "i' < rb_size (rm ! cu') b'" and eq: "phys rm cu b i = phys rm cu' b' i'"
  let ?ia = "\<lambda>i cu. unat (interleaved_address (of_nat i) (cunit_to_ha (of_nat cu)))"
  have ph: "unat (phys rm c bb j) = g c bb * 2 ^ 32 + ?ia j c \<and> ?ia j c < 2 ^ 32 \<and> j < 2 ^ 30" if "c < length rm" "j < rb_size (rm ! c) bb" for c bb j
  proof -
    have r: "rb_size (rm ! c) bb \<le> 2 ^ 30" "rb_addr (rm ! c) bb = of_nat (g c bb * 2 ^ 32)" "g c bb < 2 ^ 31" using assms that(1) unfolding regions_def by blast+
    have j: "j < 2 ^ 30" using that(2) r(1) by simp
    have ia: "?ia j c < 2 ^ 32" by (rule unat_interleaved [OF j cunit_to_ha_le])
    have g: "unat (of_nat (g c bb * 2 ^ 32) :: u64) = g c bb * 2 ^ 32" using r(3) by (simp add: unat_of_nat take_bit_nat_eq_self del: of_nat_mult)
    have "unat (phys rm c bb j) = g c bb * 2 ^ 32 + ?ia j c"
      unfolding phys_def r(2) using g ia r(3) by (simp add: unat_word_ariths del: of_nat_mult)
    then show ?thesis using ia j by simp
  qed
  note a = ph [OF cu(1,2)] and b = ph [OF cu(3,4)]
  have e: "g cu b * 2 ^ 32 + ?ia i cu = g cu' b' * 2 ^ 32 + ?ia i' cu'" using a b eq by simp
  have "(g cu b * 2 ^ 32 + ?ia i cu) div 2 ^ 32 = g cu b" "(g cu' b' * 2 ^ 32 + ?ia i' cu') div 2 ^ 32 = g cu' b'" using a b by simp_all
  then have g: "g cu b = g cu' b'" using e by simp
  then have "interleaved_address (of_nat i) (cunit_to_ha (of_nat cu)) = interleaved_address (of_nat i') (cunit_to_ha (of_nat cu'))"
    using e by (simp add: word_unat_eq_iff)
  moreover have u: "unat (of_nat j :: u64) = j" if "j < 2 ^ 30" for j using that by (simp add: unat_of_nat take_bit_nat_eq_self)
  moreover have lt: "(of_nat i :: u64) < 2 ^ 63" "(of_nat i' :: u64) < 2 ^ 63" using a b u by (simp_all add: word_less_nat_alt)
  ultimately have w: "(of_nat i :: u64) = of_nat i'" and ha: "cunit_to_ha (of_nat cu) = cunit_to_ha (of_nat cu')"
    using interleaved_address_inj [OF cunit_to_ha_le cunit_to_ha_le lt] by blast+
  have lt30: "i < 2 ^ 30" "i' < 2 ^ 30" using a b by (simp_all only:)
  from u [OF lt30(1)] u [OF lt30(2)] show "i = i'" unfolding w by (rule trans [OF sym])
  have "b = b' \<and> (cu = cu' \<or> cunit_to_ha (of_nat cu) \<noteq> cunit_to_ha (of_nat cu'))" using g assms cu(1,3) unfolding regions_def by blast
  then show "cu = cu'" "b = b'" using ha by blast+
qed

end
