(* ===== verification/Axdimm_Buffers.thy ===== *)
theory Axdimm_Buffers
  imports Axdimm_Core
begin

text \<open>
  The buffers of a unit of the AXDIMM simulator: the projection of the simulator's state to one unit,
  what shifting, clearing and executing do to it, and the states an idle unit can be in. Every step
  of a unit leaves the other units as they were.
\<close>

section \<open>The state of a unit\<close>

text \<open>
  The simulator keeps the state of every unit in lists over all units; the projection to one unit,
  and the shape of the lists that every operation keeps. \<open>moves\<close> relates two states of the device
  that differ only in one unit.
\<close>

record UnitBuffers =
  ub_idx :: "nat list"
  ub_tags_idx :: "nat list"
  ub_min :: "nat list"
  ub_max :: "nat list"
  ub_tags_min :: "nat list"
  ub_tags_max :: "nat list"

definition unit_core :: "AxdimmSimulatorCore \<Rightarrow> nat \<Rightarrow> UnitBuffers" where
  "unit_core core cu = \<lparr>ub_idx = nb_indices (psum_memory core) ! cu, ub_tags_idx = nb_indices (tags_memory core) ! cu,
     ub_min = map (\<lambda>l. l ! cu) (min_psum_offsets core), ub_max = map (\<lambda>l. l ! cu) (max_psum_offsets core),
     ub_tags_min = map (\<lambda>l. l ! cu) (min_tags_offsets core), ub_tags_max = map (\<lambda>l. l ! cu) (max_tags_offsets core)\<rparr>"

definition nb_shape :: "nat \<Rightarrow> nat \<Rightarrow> nat \<Rightarrow> sls_block \<Rightarrow> NBufferedMemory \<Rightarrow> bool" where
  "nb_shape units sz n b nb \<longleftrightarrow> nb_single_buffer_size nb = sz \<and> nb_buffers_num nb = n \<and> nb_block nb = b \<and> length (nb_indices nb) = units \<and>
     (\<forall>ix \<in> set (nb_indices nb). length ix = 2 \<and> (\<forall>i \<in> set ix. i < n))"

definition map_shape :: "nat \<Rightarrow> nat \<Rightarrow> offset_map \<Rightarrow> bool" where
  "map_shape n units offs \<longleftrightarrow> length offs = n \<and> (\<forall>l \<in> set offs. length l = units)"

definition core_shape :: "Constants \<Rightarrow> AxdimmSimulatorCore \<Rightarrow> bool" where
  "core_shape topo core \<longleftrightarrow>
     nb_shape (NumOfCUnits topo) (psum_single_buf_size topo) (NumOfPSumBuf topo) SLS_BLOCK_PSUM (psum_memory core) \<and>
     nb_shape (NumOfCUnits topo) (tags_single_buf_size topo) (NumOfTagsBuf topo) SLS_BLOCK_TAGS (tags_memory core) \<and>
     map_shape (NumOfPSumBuf topo) (NumOfCUnits topo) (min_psum_offsets core) \<and>
     map_shape (NumOfPSumBuf topo) (NumOfCUnits topo) (max_psum_offsets core) \<and>
     map_shape (NumOfTagsBuf topo) (NumOfCUnits topo) (min_tags_offsets core) \<and>
     map_shape (NumOfTagsBuf topo) (NumOfCUnits topo) (max_tags_offsets core)"

definition moves :: "Constants \<Rightarrow> rank_map \<Rightarrow> nat \<Rightarrow> devmem \<times> AxdimmSimulatorCore \<Rightarrow> devmem \<times> AxdimmSimulatorCore \<Rightarrow> bool" where
  "moves topo rm cu s s' \<longleftrightarrow> core_shape topo (snd s') \<and> (\<forall>cu' < length rm. cu' \<noteq> cu \<longrightarrow>
     unit_view rm (fst s') cu' = unit_view rm (fst s) cu' \<and> unit_core (snd s') cu' = unit_core (snd s) cu')"

text \<open>
  Clearing a buffer zeroes as many bytes as lie between the aligned bounds of the written range, but
  it zeroes them from the start of the buffer.
\<close>

definition cleared_size :: "nat \<Rightarrow> nat \<Rightarrow> nat" where
  "cleared_size mn mx = (if mx \<le> mn then 0 else 256 * ((mx + 255) div 256) - 256 * (mn div 256))"

text \<open>
  A double-buffered device: sizes are multiples of the interleaving size, the blocks of every unit
  have room for the buffers, and the registers are aligned and do not overlap.
\<close>

definition ax_ok :: "Constants \<Rightarrow> rank_map \<Rightarrow> bool" where
  "ax_ok topo rm \<longleftrightarrow> map_ok rm \<and> length rm = NumOfCUnits topo \<and> NumOfPSumBuf topo = 2 \<and> 0 < NumOfTagsBuf topo \<and> NumOfTagsBuf topo \<le> 2 \<and>
     256 dvd psum_single_buf_size topo \<and> psum_single_buf_size topo < 2 ^ 31 \<and>
     256 dvd tags_single_buf_size topo \<and> tags_single_buf_size topo < 2 ^ 31 \<and>
     4 dvd RegPolling topo \<and> 4 dvd RegSlsExec topo \<and> 4 dvd RegSlsEn topo \<and>
     RegSlsExec topo \<noteq> RegPolling topo + 4 \<and> RegSlsExec topo \<noteq> RegPolling topo + 8 \<and>
     (\<forall>cu < length rm. 2 * psum_single_buf_size topo \<le> rb_size (rm ! cu) SLS_BLOCK_PSUM \<and>
        NumOfTagsBuf topo * tags_single_buf_size topo \<le> rb_size (rm ! cu) SLS_BLOCK_TAGS \<and>
        inst_single_buf_size topo \<le> rb_size (rm ! cu) SLS_BLOCK_INST \<and>
        RegPolling topo + 12 \<le> rb_size (rm ! cu) SLS_BLOCK_CFGR \<and> RegSlsExec topo + 4 \<le> rb_size (rm ! cu) SLS_BLOCK_CFGR \<and>
        RegSlsEn topo + 4 \<le> rb_size (rm ! cu) SLS_BLOCK_CFGR)"

definition reset_range :: "nat \<Rightarrow> nat \<Rightarrow> UnitBuffers \<Rightarrow> UnitBuffers" where
  "reset_range sz k ub = (if ub_max ub ! k \<le> ub_min ub ! k then ub
     else ub\<lparr>ub_min := (ub_min ub)[k := sz], ub_max := (ub_max ub)[k := 0]\<rparr>)"

definition zero_prefix :: "sls_block \<Rightarrow> nat \<Rightarrow> nat \<Rightarrow> memAddr \<Rightarrow> memAddr" where
  "zero_prefix b start n ma = set_blk b (write_bytes (blk ma b) start (replicate n 0)) ma"

text \<open>Of the tags only their bounds matter: without tagged operations nothing reads them.\<close>

definition tags_bounded :: "Constants \<Rightarrow> UnitBuffers \<Rightarrow> bool" where
  "tags_bounded topo ub \<longleftrightarrow> (\<forall>k < NumOfTagsBuf topo. ub_tags_max ub ! k \<le> tags_single_buf_size topo)"

definition same_psum :: "UnitBuffers \<Rightarrow> UnitBuffers \<Rightarrow> bool" where
  "same_psum ub ub' \<longleftrightarrow> ub_idx ub' = ub_idx ub \<and> ub_min ub' = ub_min ub \<and> ub_max ub' = ub_max ub"

text \<open>
  A buffer is clean when no range is recorded and it is zero up to the row of the dummy instruction;
  it can be cleared when the bytes that clearing does not reach are zero up to that row. An idle
  unit has only such buffers.
\<close>

definition DUMMY_ROW :: nat where "DUMMY_ROW = 2046 * 64"

definition buf_zero :: "Constants \<Rightarrow> memAddr \<Rightarrow> nat \<Rightarrow> nat \<Rightarrow> bool" where
  "buf_zero topo ma k from \<longleftrightarrow> (\<forall>x. from \<le> x \<and> x < DUMMY_ROW \<longrightarrow> blk ma SLS_BLOCK_PSUM (psum_single_buf_size topo * k + x) = 0)"

definition clean :: "Constants \<Rightarrow> memAddr \<Rightarrow> UnitBuffers \<Rightarrow> nat \<Rightarrow> bool" where
  "clean topo ma ub k \<longleftrightarrow> ub_min ub ! k = psum_single_buf_size topo \<and> ub_max ub ! k = 0 \<and> buf_zero topo ma k 0"

definition clearable :: "Constants \<Rightarrow> memAddr \<Rightarrow> UnitBuffers \<Rightarrow> nat \<Rightarrow> bool" where
  "clearable topo ma ub k \<longleftrightarrow> clean topo ma ub k \<or>
     ub_min ub ! k < ub_max ub ! k \<and> ub_max ub ! k \<le> psum_single_buf_size topo \<and>
     buf_zero topo ma k (cleared_size (ub_min ub ! k) (ub_max ub ! k))"

definition idle :: "Constants \<Rightarrow> rank_map \<Rightarrow> nat \<Rightarrow> devmem \<times> AxdimmSimulatorCore \<Rightarrow> bool" where
  "idle topo rm cu s \<longleftrightarrow> core_shape topo (snd s) \<and> tags_bounded topo (unit_core (snd s) cu) \<and>
     set (ub_idx (unit_core (snd s) cu)) = {0, 1} \<and>
     (\<forall>k < 2. clearable topo (unit_view rm (fst s) cu) (unit_core (snd s) cu) k)"

text \<open>The blocks that the simulator does not write on its own.\<close>

definition keeps :: "rank_map \<Rightarrow> nat \<Rightarrow> devmem \<times> AxdimmSimulatorCore \<Rightarrow> devmem \<times> AxdimmSimulatorCore \<Rightarrow> bool" where
  "keeps rm cu s s' \<longleftrightarrow> (\<forall>b \<in> {SLS_BLOCK_BASE, SLS_BLOCK_INST}. blk (unit_view rm (fst s') cu) b = blk (unit_view rm (fst s) cu) b)"

definition widen :: "nat \<Rightarrow> nat \<Rightarrow> nat list \<Rightarrow> UnitBuffers \<Rightarrow> UnitBuffers" where
  "widen k bpi outs ub = ub\<lparr>ub_min := (ub_min ub)[k := fold (\<lambda>q v. min v (q * bpi)) outs (ub_min ub ! k)],
     ub_max := (ub_max ub)[k := fold (\<lambda>q v. max v (q * bpi + bpi)) outs (ub_max ub ! k)]\<rparr>"

text \<open>A device with one rank.\<close>

definition rank_topo :: Constants where
  "rank_topo = \<lparr>Bus = AXDIMM, NumOfCUnits = 1, PSumBufSize = 262144, NumOfPSumBuf = 2, TagsBufSize = 256,
     NumOfTagsBuf = 1, InstBufSize = 256, NumOfInstBuf = 1, InstructionSize = 8, AlignedTagSize = 64,
     RegPolling = 0, RegSlsExec = 16, RegSlsEn = 20, DataSize = 4\<rparr>"

definition block_no :: "sls_block \<Rightarrow> nat" where
  "block_no b = (case b of SLS_BLOCK_BASE \<Rightarrow> 0 | SLS_BLOCK_INST \<Rightarrow> 1 | SLS_BLOCK_CFGR \<Rightarrow> 2 | SLS_BLOCK_TAGS \<Rightarrow> 3 | SLS_BLOCK_PSUM \<Rightarrow> 4)"

definition rank_layout :: rank_map where
  "rank_layout = [\<lparr>rb_addr = (\<lambda>b. of_nat (block_no b * 2 ^ 32)), rb_size = (\<lambda>_. 262144)\<rparr>]"

text \<open>A simulator whose unit has written the second block of the first buffer.\<close>

definition second_block_written :: AxdimmSimulatorCore where
  "second_block_written =
     \<lparr>psum_memory = \<lparr>nb_single_buffer_size = 131072, nb_buffers_num = 2, nb_indices = [[1, 0]], nb_block = SLS_BLOCK_PSUM\<rparr>,
      tags_memory = \<lparr>nb_single_buffer_size = 256, nb_buffers_num = 1, nb_indices = [[0, 0]], nb_block = SLS_BLOCK_TAGS\<rparr>,
      min_psum_offsets = [[256], [131072]], max_psum_offsets = [[512], [0]],
      min_tags_offsets = [[256]], max_tags_offsets = [[0]]\<rparr>"

section \<open>Shifting\<close>

lemma moves_trans: "moves topo rm cu s s1 \<Longrightarrow> moves topo rm cu s1 s2 \<Longrightarrow> moves topo rm cu s s2"
  by (simp add: moves_def)

lemma moves_refl: "core_shape topo (snd s) \<Longrightarrow> moves topo rm cu s s"
  by (simp add: moves_def)

lemma nb_shapeD:
  assumes "nb_shape units sz n b nb" "cu < units"
  shows "length (nb_indices nb ! cu) = 2" "\<And>t. nb_indices nb ! cu ! type_index t < n" "cu < length (nb_indices nb)"
proof -
  show l: "cu < length (nb_indices nb)" using assms by (simp add: nb_shape_def)
  then have m: "nb_indices nb ! cu \<in> set (nb_indices nb)" by simp
  then show l2: "length (nb_indices nb ! cu) = 2" using assms(1) unfolding nb_shape_def by blast
  show "nb_indices nb ! cu ! type_index t < n" for t
    using assms(1) m l2 unfolding nb_shape_def by (cases t) (auto simp: type_index_def)
qed

lemma get_index_eq:
  assumes "nb_shape (NumOfCUnits topo) sz n b nb" "cu < NumOfCUnits topo"
  shows "get_index topo nb cu t = Inr (nb_indices nb ! cu ! type_index t)"
  using nb_shapeD(2) [OF assms, of t] assms by (simp add: get_index_def nb_shape_def)

lemma shift_index_eq:
  fixes t :: nb_type
  assumes "nb_shape (NumOfCUnits topo) sz n b nb" "cu < NumOfCUnits topo" "n \<le> 256"
  defines "nb' \<equiv> nb\<lparr>nb_indices := (nb_indices nb)[cu := (nb_indices nb ! cu)[type_index t := (nb_indices nb ! cu ! type_index t + 1) mod n]]\<rparr>"
  shows "shift_index topo cu t nb = Inr nb'" "nb_shape (NumOfCUnits topo) sz n b nb'"
proof -
  have n: "0 < n" "nb_buffers_num nb = n" using nb_shapeD(2) [OF assms(1,2), of t] assms(1) by (simp_all add: nb_shape_def)
  then have v: "(nb_indices nb ! cu ! type_index t + 1) mod n < n" by simp
  then have "(nb_indices nb ! cu ! type_index t + 1) mod n mod 256 = (nb_indices nb ! cu ! type_index t + 1) mod n"
    using assms(3) by simp
  then show "shift_index topo cu t nb = Inr nb'"
    using v n assms(2) by (simp add: shift_index_def get_index_eq [OF assms(1,2)] set_index_def nb'_def)
  have "nb_indices nb ! cu \<in> set (nb_indices nb)" using nb_shapeD(3) [OF assms(1,2)] by simp
  then show "nb_shape (NumOfCUnits topo) sz n b nb'"
    using assms(1) v unfolding nb_shape_def nb'_def by (auto dest!: set_update_subset_insert [THEN subsetD])
qed

lemma nb_shift_eq:
  assumes "nb_shape (NumOfCUnits topo) sz n b nb" "cu < NumOfCUnits topo" "n \<le> 256"
  obtains nb' where "nb_shift_buffers topo cu nb = Inr nb'" "nb_shape (NumOfCUnits topo) sz n b nb'"
    "nb_indices nb' ! cu = map (\<lambda>i. (i + 1) mod n) (nb_indices nb ! cu)" "\<And>cu'. cu' \<noteq> cu \<Longrightarrow> nb_indices nb' ! cu' = nb_indices nb ! cu'"
proof -
  note a = shift_index_eq [OF assms, of READ]
  note b = shift_index_eq [OF a(2) assms(2,3), of WRITE]
  obtain r w where "nb_indices nb ! cu = [r, w]" using nb_shapeD(1) [OF assms(1,2)] by (auto simp: length_Suc_conv numeral_2_eq_2)
  then show ?thesis
    using that [OF _ b(2)] a(1) b(1) nb_shapeD(3) [OF assms(1,2)] by (simp add: nb_shift_buffers_def type_index_def)
qed

lemma ax_shift_correct:
  assumes "core_shape topo core" "cu < NumOfCUnits topo" "NumOfPSumBuf topo \<le> 256" "NumOfTagsBuf topo \<le> 256"
  obtains core' where "ax_shift_buffers topo cu core = Inr core'" "core_shape topo core'"
    "unit_core core' cu = (unit_core core cu)\<lparr>ub_idx := map (\<lambda>i. (i + 1) mod NumOfPSumBuf topo) (ub_idx (unit_core core cu)),
       ub_tags_idx := map (\<lambda>i. (i + 1) mod NumOfTagsBuf topo) (ub_tags_idx (unit_core core cu))\<rparr>"
    "\<And>cu'. cu' \<noteq> cu \<Longrightarrow> unit_core core' cu' = unit_core core cu'"
proof -
  have sh: "nb_shape (NumOfCUnits topo) (psum_single_buf_size topo) (NumOfPSumBuf topo) SLS_BLOCK_PSUM (psum_memory core)"
    "nb_shape (NumOfCUnits topo) (tags_single_buf_size topo) (NumOfTagsBuf topo) SLS_BLOCK_TAGS (tags_memory core)"
    using assms(1) by (simp_all add: core_shape_def)
  obtain p where p: "nb_shift_buffers topo cu (psum_memory core) = Inr p"
    "nb_shape (NumOfCUnits topo) (psum_single_buf_size topo) (NumOfPSumBuf topo) SLS_BLOCK_PSUM p"
    "nb_indices p ! cu = map (\<lambda>i. (i + 1) mod NumOfPSumBuf topo) (nb_indices (psum_memory core) ! cu)"
    "\<And>cu'. cu' \<noteq> cu \<Longrightarrow> nb_indices p ! cu' = nb_indices (psum_memory core) ! cu'"
    using nb_shift_eq [OF sh(1) assms(2,3)] by blast
  obtain t where "nb_shift_buffers topo cu (tags_memory core) = Inr t"
    "nb_shape (NumOfCUnits topo) (tags_single_buf_size topo) (NumOfTagsBuf topo) SLS_BLOCK_TAGS t"
    "nb_indices t ! cu = map (\<lambda>i. (i + 1) mod NumOfTagsBuf topo) (nb_indices (tags_memory core) ! cu)"
    "\<And>cu'. cu' \<noteq> cu \<Longrightarrow> nb_indices t ! cu' = nb_indices (tags_memory core) ! cu'"
    using nb_shift_eq [OF sh(2) assms(2,4)] by blast
  then show ?thesis using that [of "core\<lparr>psum_memory := p, tags_memory := t\<rparr>"] p assms(1)
    by (simp add: ax_shift_buffers_def core_shape_def unit_core_def)
qed

section \<open>Clearing\<close>

lemma unit_view_set_blk_same: "set_blk b (blk ma b) ma = ma"
  by (simp add: set_blk_def)

lemma write_bytes_empty [simp]: "write_bytes f r [] = f"
  by (auto simp: write_bytes_def fun_eq_iff)

lemma write_bytes_append: "write_bytes (write_bytes f r xs) (r + length xs) ys = write_bytes f r (xs @ ys)"
  by (auto simp: write_bytes_def fun_eq_iff nth_append)

lemma clear_blocks_view:
  assumes "map_ok rm" "cu < length rm" "cu' < length rm" "256 dvd r" "r + 256 * n \<le> rb_size (rm ! cu) b"
  shows "unit_view rm (clear_blocks n (at_block rm cu b r) m) cu' =
    (if cu' = cu then set_blk b (write_bytes (blk (unit_view rm m cu) b) r (replicate (256 * n) 0)) (unit_view rm m cu) else unit_view rm m cu')"
  using assms(4,5)
proof (induction n arbitrary: r m)
  case 0
  show ?case by (simp add: unit_view_set_blk_same)
next
  case (Suc n)
  let ?z = "replicate 256 (0 :: u8)" and ?p = "at_block rm cu b r"
  have sz: "rb_size (rm ! cu) b \<le> 2 ^ 62" using assms(1,2) by (simp add: map_ok_def)
  have "unat (ip_ranked_addr ?p) = r" using Suc.prems(2) sz by (simp add: unat_of_nat take_bit_nat_eq_self)
  then have w: "copy_n_to m (ip_interleaved ?p) ?z = rank_write m ?p ?z"
    using Suc.prems(1) by (subst rank_write_block) (simp_all add: dvd_eq_mod_eq_0)
  have st: "unit_view rm (copy_n_to m (ip_interleaved ?p) ?z) c =
      (if c = cu then set_blk b (write_bytes (blk (unit_view rm m cu) b) r ?z) (unit_view rm m cu) else unit_view rm m c)" if "c < length rm" for c
    unfolding w using Suc.prems(2) by (intro unit_write [OF assms(1,2) that]) simp
  have z: "replicate (256 * Suc n) (0 :: u8) = ?z @ replicate (256 * n) 0" by (simp add: replicate_add)
  have "256 dvd r + 256" "r + 256 + 256 * n \<le> rb_size (rm ! cu) b" using Suc.prems by simp_all
  note ih = Suc.IH [OF this, of "copy_n_to m (ip_interleaved ?p) ?z"]
  have l: "clear_blocks (Suc n) ?p m = clear_blocks n (at_block rm cu b (r + 256)) (copy_n_to m (ip_interleaved ?p) ?z)"
    by (simp add: ha_consts)
  show ?case unfolding l ih z st [OF assms(2)] st [OF assms(3)]
    using write_bytes_append [of _ r ?z "replicate (256 * n) 0"] by (simp add: set_blk_twice)
qed

lemma up_256:
  fixes x :: nat
  shows "x mod 256 = 0 \<Longrightarrow> 256 * ((x + 255) div 256) = x" "x mod 256 \<noteq> 0 \<Longrightarrow> 256 * ((x + 255) div 256) = x + 256 - x mod 256"
proof -
  define q r where "q = x div 256" and "r = x mod 256"
  have x: "x = 256 * q + r" "r < 256" by (simp_all add: q_def r_def)
  have "r = 0 \<Longrightarrow> (x + 255) div 256 = q" "r \<noteq> 0 \<Longrightarrow> (x + 255) div 256 = Suc q"
    by (rule div_nat_eqI; use x in simp)+
  then show "x mod 256 = 0 \<Longrightarrow> 256 * ((x + 255) div 256) = x" "x mod 256 \<noteq> 0 \<Longrightarrow> 256 * ((x + 255) div 256) = x + 256 - x mod 256"
    using x unfolding r_def [symmetric] by simp_all
qed

lemma unat_align:
  assumes "x < 2 ^ 31"
  shows "unat (align_up (of_nat x) 256) = 256 * ((x + 255) div 256)" "unat (align_down (of_nat x) 256) = 256 * (x div 256)"
proof -
  have x: "unat (of_nat x :: u32) = x" using assms by (simp add: unat_of_nat take_bit_nat_eq_self)
  then have m: "unat ((of_nat x :: u32) mod 256) = x mod 256" by (simp add: unat_mod)
  have le: "(of_nat x :: u32) mod 256 \<le> of_nat x" using x m by (simp add: word_le_nat_alt)
  have "unat ((of_nat x :: u32) - of_nat x mod 256) = x - x mod 256" using le x m by (simp add: unat_sub)
  then show "unat (align_down (of_nat x) 256) = 256 * (x div 256)"
    unfolding align_down_def by (simp add: minus_mod_eq_mult_div)
  show "unat (align_up (of_nat x) 256) = 256 * ((x + 255) div 256)"
  proof (cases "x mod 256 = 0")
    case True
    then have "(of_nat x :: u32) mod 256 = 0" using m by (metis unat_eq_0)
    then show ?thesis using x True up_256(1) [OF True] unfolding align_up_def by simp
  next
    case False
    then have ne: "(of_nat x :: u32) mod 256 \<noteq> 0" using m by (metis unat_0)
    have "unat ((of_nat x :: u32) + 256) = x + 256" using x assms by (simp add: unat_word_ariths)
    moreover have "(of_nat x :: u32) mod 256 \<le> of_nat x + 256"
      using m calculation by (simp add: word_le_nat_alt)
    ultimately have "unat ((of_nat x :: u32) + 256 - of_nat x mod 256) = x + 256 - x mod 256"
      using m by (simp add: unat_sub)
    then show ?thesis using ne up_256(2) [OF False] unfolding align_up_def if_not_P [OF ne] by (simp add: add_diff_eq)
  qed
qed

lemma up_256_le:
  fixes mx :: nat
  assumes "256 dvd sz" "mx \<le> sz"
  shows "256 * ((mx + 255) div 256) \<le> sz"
proof -
  obtain k where k: "sz = 256 * k" using assms(1) by auto
  then have "mx + 255 < 256 * Suc k" using assms(2) by simp
  then have "(mx + 255) div 256 < Suc k" by (simp add: less_mult_imp_div_less mult.commute)
  then show ?thesis using k by simp
qed

lemma cleared_size_le: "256 dvd sz \<Longrightarrow> mx \<le> sz \<Longrightarrow> cleared_size mn mx \<le> (sz :: nat)"
  unfolding cleared_size_def by (cases "mx \<le> mn") (simp_all only: if_True if_False le0 le_trans [OF diff_le_self up_256_le])

lemma map_shape_update:
  assumes "map_shape n units offs" "k < n" "cu < units"
  shows "map_shape n units (offs[k := (offs ! k)[cu := v]])"
    "map (\<lambda>l. l ! cu) (offs[k := (offs ! k)[cu := v]]) = (map (\<lambda>l. l ! cu) offs)[k := v]"
    "cu' \<noteq> cu \<Longrightarrow> map (\<lambda>l. l ! cu') (offs[k := (offs ! k)[cu := v]]) = map (\<lambda>l. l ! cu') offs"
proof -
  have l: "length offs = n" "\<forall>l \<in> set offs. length l = units" using assms(1) by (simp_all add: map_shape_def)
  have k: "length (offs ! k) = units" using l assms(2) by simp
  show "map_shape n units (offs[k := (offs ! k)[cu := v]])"
    using l k by (auto simp: map_shape_def dest!: set_update_subset_insert [THEN subsetD])
  show "map (\<lambda>l. l ! cu) (offs[k := (offs ! k)[cu := v]]) = (map (\<lambda>l. l ! cu) offs)[k := v]"
    using k assms(3) by (simp add: map_update)
  show "map (\<lambda>l. l ! cu') (offs[k := (offs ! k)[cu := v]]) = map (\<lambda>l. l ! cu') offs" if "cu' \<noteq> cu"
    using that l(1) assms(2) by (intro nth_equalityI) (auto simp: nth_list_update)
qed

lemma clear_common_correct:
  assumes "map_ok rm" "cu < length rm" "length rm = NumOfCUnits topo" "nb_shape (NumOfCUnits topo) sz n b nb"
    "map_shape n (NumOfCUnits topo) mins" "map_shape n (NumOfCUnits topo) maxs" "k < n" "n \<le> NumOfPSumBuf topo"
    "256 dvd sz" "sz < 2 ^ 31" "n * sz \<le> rb_size (rm ! cu) b" "maxs ! k ! cu \<le> sz"
  defines "mn \<equiv> mins ! k ! cu" and "mx \<equiv> maxs ! k ! cu"
  obtains mins' maxs' m' where "clear_buf_common topo rm mins maxs nb sz cu k 0 m = Inr (mins', maxs', m')"
    "map_shape n (NumOfCUnits topo) mins'" "map_shape n (NumOfCUnits topo) maxs'"
    "map (\<lambda>l. l ! cu) mins' = (map (\<lambda>l. l ! cu) mins)[k := if mx \<le> mn then mn else sz]"
    "map (\<lambda>l. l ! cu) maxs' = (map (\<lambda>l. l ! cu) maxs)[k := if mx \<le> mn then mx else 0]"
    "\<And>cu'. cu' \<noteq> cu \<Longrightarrow> map (\<lambda>l. l ! cu') mins' = map (\<lambda>l. l ! cu') mins \<and> map (\<lambda>l. l ! cu') maxs' = map (\<lambda>l. l ! cu') maxs"
    "\<And>cu'. cu' < length rm \<Longrightarrow> unit_view rm m' cu' =
      (if cu' = cu then set_blk b (write_bytes (blk (unit_view rm m cu) b) (sz * k) (replicate (cleared_size mn mx) 0)) (unit_view rm m cu)
       else unit_view rm m cu')"
proof (cases "mx \<le> mn")
  case True
  have "length mins = n" "length maxs = n" using assms(5,6) by (simp_all add: map_shape_def)
  then have same: "(map (\<lambda>l. l ! cu) mins)[k := mn] = map (\<lambda>l. l ! cu) mins" "(map (\<lambda>l. l ! cu) maxs)[k := mx] = map (\<lambda>l. l ! cu) maxs"
    using assms(7) by (simp_all add: mn_def mx_def list_update_same_conv)
  have "clear_buf_common topo rm mins maxs nb sz cu k 0 m = Inr (mins, maxs, m)"
    using True assms(2,3,7,8) by (simp add: clear_buf_common_def mn_def mx_def)
  then show ?thesis using that [of mins maxs m] assms(5,6) True same
    by (simp add: cleared_size_def unit_view_set_blk_same)
next
  case False
  define c where "c = cleared_size mn mx"
  have mx: "mx \<le> sz" "mx < 2 ^ 31" "mn < 2 ^ 31" using assms(10,12) False by (simp_all add: mx_def)
  note al = unat_align(1) [OF mx(2)] unat_align(2) [OF mx(3)]
  have up: "256 * ((mx + 255) div 256) \<le> sz" by (rule up_256_le [OF assms(9) mx(1)])
  have ord: "256 * (mn div 256) \<le> 256 * ((mx + 255) div 256)" using False by (simp add: div_le_mono)
  have c: "unat (align_up (of_nat mx) 256 - align_down (of_nat mn) 256) = c"
    using al ord False by (subst unat_sub) (simp_all add: word_le_nat_alt c_def cleared_size_def)
  have c256: "c mod 256 = 0" "256 * (c div 256) = c" "c \<le> sz"
    using up False by (auto simp: c_def cleared_size_def simp flip: right_diff_distrib')
  have nbf: "nb_single_buffer_size nb = sz" "nb_block nb = b" using assms(4) by (simp_all add: nb_shape_def)
  have ptr: "get_buffer_by_index rm nb cu k = at_block rm cu b (sz * k)" by (simp add: get_buffer_by_index_def nbf)
  have "sz * k + sz \<le> n * sz" using assms(7) mult_le_mono1 [of "Suc k" n sz] by (simp add: mult.commute)
  then have fit: "256 dvd sz * k" "sz * k + 256 * (c div 256) \<le> rb_size (rm ! cu) b" using assms(9,11) c256(2,3) by simp_all
  let ?m = "clear_blocks (c div 256) (at_block rm cu b (sz * k)) m"
  have e: "clear_buf_common topo rm mins maxs nb sz cu k 0 m =
      Inr (mins[k := (mins ! k)[cu := sz]], maxs[k := (maxs ! k)[cu := 0]], ?m)"
    using False assms(2,3,7,8) c c256 al up unfolding clear_buf_common_def clear_memory_def ptr mn_def [symmetric] mx_def [symmetric]
    by (simp add: Let_def ha_consts)
  have cu: "cu < NumOfCUnits topo" using assms(2,3) by simp
  show ?thesis
    using that [OF e] False map_shape_update [OF assms(5,7) cu, where v = sz] map_shape_update [OF assms(6,7) cu, where v = 0]
      clear_blocks_view [OF assms(1,2) _ fit, of _ m] c256(2) unfolding c_def [symmetric] by simp
qed

section \<open>Steps of a unit\<close>

lemma core_shapeD:
  assumes "core_shape topo core" "k < NumOfPSumBuf topo" "k' < NumOfTagsBuf topo"
  shows "ub_min (unit_core core cu) ! k = min_psum_offsets core ! k ! cu" "ub_max (unit_core core cu) ! k = max_psum_offsets core ! k ! cu"
    "ub_tags_min (unit_core core cu) ! k' = min_tags_offsets core ! k' ! cu" "ub_tags_max (unit_core core cu) ! k' = max_tags_offsets core ! k' ! cu"
  using assms by (simp_all add: core_shape_def map_shape_def unit_core_def)

lemma clear_psum_step:
  assumes "ax_ok topo rm" "core_shape topo (snd s)" "cu < length rm" "k < 2" "ub_max (unit_core (snd s) cu) ! k \<le> psum_single_buf_size topo"
  obtains s' where "ax_clear_psum_buf topo rm cu k 0 s = Inr s'" "moves topo rm cu s s'"
    "unit_core (snd s') cu = reset_range (psum_single_buf_size topo) k (unit_core (snd s) cu)"
    "unit_view rm (fst s') cu = zero_prefix SLS_BLOCK_PSUM (psum_single_buf_size topo * k)
       (cleared_size (ub_min (unit_core (snd s) cu) ! k) (ub_max (unit_core (snd s) cu) ! k)) (unit_view rm (fst s) cu)"
proof -
  let ?S = "psum_single_buf_size topo" and ?c = "snd s"
  have t: "map_ok rm" "length rm = NumOfCUnits topo" "NumOfPSumBuf topo = 2" "256 dvd ?S" "?S < 2 ^ 31" "2 * ?S \<le> rb_size (rm ! cu) SLS_BLOCK_PSUM" "0 < NumOfTagsBuf topo"
    using assms(1,3) by (simp_all add: ax_ok_def)
  have sh: "nb_shape (NumOfCUnits topo) ?S 2 SLS_BLOCK_PSUM (psum_memory ?c)" "map_shape 2 (NumOfCUnits topo) (min_psum_offsets ?c)"
    "map_shape 2 (NumOfCUnits topo) (max_psum_offsets ?c)" using assms(2) t(3) by (simp_all add: core_shape_def)
  have v: "ub_min (unit_core ?c cu) ! k = min_psum_offsets ?c ! k ! cu" "ub_max (unit_core ?c cu) ! k = max_psum_offsets ?c ! k ! cu"
    using core_shapeD [OF assms(2) _ t(7)] assms(4) t(3) by simp_all
  obtain mins maxs m where c: "clear_buf_common topo rm (min_psum_offsets ?c) (max_psum_offsets ?c) (psum_memory ?c) ?S cu k 0 (fst s) = Inr (mins, maxs, m)"
    "map_shape 2 (NumOfCUnits topo) mins" "map_shape 2 (NumOfCUnits topo) maxs"
    "map (\<lambda>l. l ! cu) mins = (map (\<lambda>l. l ! cu) (min_psum_offsets ?c))[k := if max_psum_offsets ?c ! k ! cu \<le> min_psum_offsets ?c ! k ! cu then min_psum_offsets ?c ! k ! cu else ?S]"
    "map (\<lambda>l. l ! cu) maxs = (map (\<lambda>l. l ! cu) (max_psum_offsets ?c))[k := if max_psum_offsets ?c ! k ! cu \<le> min_psum_offsets ?c ! k ! cu then max_psum_offsets ?c ! k ! cu else 0]"
    "\<And>cu'. cu' \<noteq> cu \<Longrightarrow> map (\<lambda>l. l ! cu') mins = map (\<lambda>l. l ! cu') (min_psum_offsets ?c) \<and> map (\<lambda>l. l ! cu') maxs = map (\<lambda>l. l ! cu') (max_psum_offsets ?c)"
    "\<And>cu'. cu' < length rm \<Longrightarrow> unit_view rm m cu' =
      (if cu' = cu then set_blk SLS_BLOCK_PSUM (write_bytes (blk (unit_view rm (fst s) cu) SLS_BLOCK_PSUM) (?S * k)
         (replicate (cleared_size (min_psum_offsets ?c ! k ! cu) (max_psum_offsets ?c ! k ! cu)) 0)) (unit_view rm (fst s) cu) else unit_view rm (fst s) cu')"
    using clear_common_correct [OF t(1) assms(3) t(2) sh assms(4) _ t(4,5,6), of "fst s"] t(3) assms(5) unfolding v by auto
  have k: "k < length (min_psum_offsets ?c)" "k < length (max_psum_offsets ?c)" using sh(2,3) assms(4) by (simp_all add: map_shape_def)
  then have same: "(map (\<lambda>l. l ! cu) (min_psum_offsets ?c))[k := min_psum_offsets ?c ! k ! cu] = map (\<lambda>l. l ! cu) (min_psum_offsets ?c)"
    "(map (\<lambda>l. l ! cu) (max_psum_offsets ?c))[k := max_psum_offsets ?c ! k ! cu] = map (\<lambda>l. l ! cu) (max_psum_offsets ?c)"
    by (simp_all add: list_update_same_conv)
  show ?thesis
  proof (rule that [of "(m, ?c\<lparr>min_psum_offsets := mins, max_psum_offsets := maxs\<rparr>)"])
    show "ax_clear_psum_buf topo rm cu k 0 s = Inr (m, ?c\<lparr>min_psum_offsets := mins, max_psum_offsets := maxs\<rparr>)"
      by (simp add: ax_clear_psum_buf_def c(1))
    show "moves topo rm cu s (m, ?c\<lparr>min_psum_offsets := mins, max_psum_offsets := maxs\<rparr>)"
      using assms(2) c t(3) by (simp add: moves_def core_shape_def unit_core_def)
    show "unit_core (snd (m, ?c\<lparr>min_psum_offsets := mins, max_psum_offsets := maxs\<rparr>)) cu = reset_range ?S k (unit_core ?c cu)"
      using c(4,5) same unfolding reset_range_def v by (auto simp: unit_core_def)
  qed (simp add: c(7) [OF assms(3)] zero_prefix_def v)
qed

lemma clear_tags_step:
  assumes "ax_ok topo rm" "core_shape topo (snd s)" "cu < length rm" "k < NumOfTagsBuf topo" "tags_bounded topo (unit_core (snd s) cu)"
  obtains s' where "ax_clear_tags_buf topo rm cu k 0 s = Inr s'" "moves topo rm cu s s'"
    "same_psum (unit_core (snd s) cu) (unit_core (snd s') cu)" "tags_bounded topo (unit_core (snd s') cu)"
    "\<And>b. b \<noteq> SLS_BLOCK_TAGS \<Longrightarrow> blk (unit_view rm (fst s') cu) b = blk (unit_view rm (fst s) cu) b"
proof -
  let ?S = "tags_single_buf_size topo" and ?c = "snd s" and ?n = "NumOfTagsBuf topo"
  have t: "map_ok rm" "length rm = NumOfCUnits topo" "?n \<le> NumOfPSumBuf topo" "256 dvd ?S" "?S < 2 ^ 31" "?n * ?S \<le> rb_size (rm ! cu) SLS_BLOCK_TAGS" "0 < NumOfPSumBuf topo"
    using assms(1,3) by (simp_all add: ax_ok_def)
  have sh: "nb_shape (NumOfCUnits topo) ?S ?n SLS_BLOCK_TAGS (tags_memory ?c)" "map_shape ?n (NumOfCUnits topo) (min_tags_offsets ?c)"
    "map_shape ?n (NumOfCUnits topo) (max_tags_offsets ?c)" using assms(2) by (simp_all add: core_shape_def)
  have v: "max_tags_offsets ?c ! k ! cu \<le> ?S"
    using assms(5) core_shapeD(4) [OF assms(2) t(7) assms(4)] assms(4) by (auto simp: tags_bounded_def)
  obtain mins maxs m where c: "clear_buf_common topo rm (min_tags_offsets ?c) (max_tags_offsets ?c) (tags_memory ?c) ?S cu k 0 (fst s) = Inr (mins, maxs, m)"
    "map_shape ?n (NumOfCUnits topo) mins" "map_shape ?n (NumOfCUnits topo) maxs"
    "map (\<lambda>l. l ! cu) maxs = (map (\<lambda>l. l ! cu) (max_tags_offsets ?c))[k := if max_tags_offsets ?c ! k ! cu \<le> min_tags_offsets ?c ! k ! cu then max_tags_offsets ?c ! k ! cu else 0]"
    "\<And>cu'. cu' \<noteq> cu \<Longrightarrow> map (\<lambda>l. l ! cu') mins = map (\<lambda>l. l ! cu') (min_tags_offsets ?c) \<and> map (\<lambda>l. l ! cu') maxs = map (\<lambda>l. l ! cu') (max_tags_offsets ?c)"
    "\<And>cu'. cu' < length rm \<Longrightarrow> unit_view rm m cu' =
      (if cu' = cu then set_blk SLS_BLOCK_TAGS (write_bytes (blk (unit_view rm (fst s) cu) SLS_BLOCK_TAGS) (?S * k)
         (replicate (cleared_size (min_tags_offsets ?c ! k ! cu) (max_tags_offsets ?c ! k ! cu)) 0)) (unit_view rm (fst s) cu) else unit_view rm (fst s) cu')"
    using clear_common_correct [OF t(1) assms(3) t(2) sh assms(4) t(3,4,5,6) v, of "fst s"] by metis
  let ?s = "(m, ?c\<lparr>min_tags_offsets := mins, max_tags_offsets := maxs\<rparr>)"
  show ?thesis
  proof (rule that [of ?s])
    show "ax_clear_tags_buf topo rm cu k 0 s = Inr ?s" by (simp add: ax_clear_tags_buf_def c(1))
    show "moves topo rm cu s ?s" using assms(2) c by (simp add: moves_def core_shape_def unit_core_def)
    show "same_psum (unit_core ?c cu) (unit_core (snd ?s) cu)" by (simp add: same_psum_def unit_core_def)
    have "length (max_tags_offsets ?c) = ?n" using sh(3) by (simp add: map_shape_def)
    then have "map (\<lambda>l. l ! cu) maxs ! j \<le> ?S" if "j < ?n" for j
      using assms(5) v that unfolding c(4) tags_bounded_def unit_core_def by (cases "j = k") simp_all
    then show "tags_bounded topo (unit_core (snd ?s) cu)" by (simp add: tags_bounded_def unit_core_def)
  qed (simp add: c(6) [OF assms(3)])
qed

lemma each_tags_step:
  assumes "ax_ok topo rm" "core_shape topo (snd s)" "cu < length rm" "\<forall>k \<in> set ks. k < NumOfTagsBuf topo" "tags_bounded topo (unit_core (snd s) cu)"
  shows "\<exists>s'. ax_each_buf (\<lambda>k. ax_clear_tags_buf topo rm cu k 0) ks s = Inr s' \<and> moves topo rm cu s s' \<and>
    same_psum (unit_core (snd s) cu) (unit_core (snd s') cu) \<and> tags_bounded topo (unit_core (snd s') cu) \<and>
    (\<forall>b. b \<noteq> SLS_BLOCK_TAGS \<longrightarrow> blk (unit_view rm (fst s') cu) b = blk (unit_view rm (fst s) cu) b)"
  using assms(2,4,5)
proof (induction ks arbitrary: s)
  case Nil
  then show ?case by (simp add: moves_refl same_psum_def)
next
  case (Cons k ks)
  obtain s1 where s1: "ax_clear_tags_buf topo rm cu k 0 s = Inr s1" "moves topo rm cu s s1"
    "same_psum (unit_core (snd s) cu) (unit_core (snd s1) cu)" "tags_bounded topo (unit_core (snd s1) cu)"
    "\<And>b. b \<noteq> SLS_BLOCK_TAGS \<Longrightarrow> blk (unit_view rm (fst s1) cu) b = blk (unit_view rm (fst s) cu) b"
    using clear_tags_step [OF assms(1) Cons.prems(1) assms(3) _ Cons.prems(3), of k] Cons.prems(2) by auto
  have "core_shape topo (snd s1)" using s1(2) by (simp add: moves_def)
  from Cons.IH [OF this _ s1(4)] Cons.prems(2) obtain s2 where
    "ax_each_buf (\<lambda>k. ax_clear_tags_buf topo rm cu k 0) ks s1 = Inr s2" "moves topo rm cu s1 s2"
    "same_psum (unit_core (snd s1) cu) (unit_core (snd s2) cu)" "tags_bounded topo (unit_core (snd s2) cu)"
    "\<forall>b. b \<noteq> SLS_BLOCK_TAGS \<longrightarrow> blk (unit_view rm (fst s2) cu) b = blk (unit_view rm (fst s1) cu) b" by auto
  then show ?case using s1 moves_trans [OF s1(2)] by (simp add: same_psum_def)
qed

lemma clear_step:
  assumes "ax_ok topo rm" "core_shape topo (snd s)" "cu < length rm" "k < 2" "clearable topo (unit_view rm (fst s) cu) (unit_core (snd s) cu) k"
  obtains s' where "ax_clear_psum_buf topo rm cu k 0 s = Inr s'" "moves topo rm cu s s'"
    "clean topo (unit_view rm (fst s') cu) (unit_core (snd s') cu) k"
    "\<And>j. j \<noteq> k \<Longrightarrow> ub_min (unit_core (snd s') cu) ! j = ub_min (unit_core (snd s) cu) ! j \<and> ub_max (unit_core (snd s') cu) ! j = ub_max (unit_core (snd s) cu) ! j"
    "ub_idx (unit_core (snd s') cu) = ub_idx (unit_core (snd s) cu)" "tags_bounded topo (unit_core (snd s') cu) = tags_bounded topo (unit_core (snd s) cu)"
    "\<And>b. b \<noteq> SLS_BLOCK_PSUM \<Longrightarrow> blk (unit_view rm (fst s') cu) b = blk (unit_view rm (fst s) cu) b"
    "\<And>x. x < psum_single_buf_size topo * k \<or> psum_single_buf_size topo * k + psum_single_buf_size topo \<le> x \<Longrightarrow>
       blk (unit_view rm (fst s') cu) SLS_BLOCK_PSUM x = blk (unit_view rm (fst s) cu) SLS_BLOCK_PSUM x"
proof -
  let ?S = "psum_single_buf_size topo" and ?ub = "unit_core (snd s) cu" and ?U = "unit_view rm (fst s) cu"
  let ?c = "cleared_size (ub_min ?ub ! k) (ub_max ?ub ! k)"
  have mx: "ub_max ?ub ! k \<le> ?S" using assms(5) by (auto simp: clearable_def clean_def)
  obtain s' where s': "ax_clear_psum_buf topo rm cu k 0 s = Inr s'" "moves topo rm cu s s'" "unit_core (snd s') cu = reset_range ?S k ?ub"
    "unit_view rm (fst s') cu = zero_prefix SLS_BLOCK_PSUM (?S * k) ?c ?U" using clear_psum_step [OF assms(1-4) mx] by blast
  have t: "256 dvd ?S" "NumOfPSumBuf topo = 2" using assms(1) by (simp_all add: ax_ok_def)
  have c: "?c \<le> ?S" by (rule cleared_size_le [OF t(1) mx])
  have l: "k < length (ub_min ?ub)" "k < length (ub_max ?ub)"
    using assms(2,4) t(2) by (simp_all add: unit_core_def core_shape_def map_shape_def)
  have z: "buf_zero topo (zero_prefix SLS_BLOCK_PSUM (?S * k) ?c ?U) k 0"
    using assms(5) by (auto simp: buf_zero_def zero_prefix_def write_bytes_def clearable_def clean_def cleared_size_def)
  show ?thesis
  proof (rule that [OF s'(1,2)])
    show "clean topo (unit_view rm (fst s') cu) (unit_core (snd s') cu) k"
      using assms(5) z l unfolding s'(3,4) clean_def by (auto simp: reset_range_def clearable_def clean_def)
    fix x assume "x < ?S * k \<or> ?S * k + ?S \<le> x"
    then show "blk (unit_view rm (fst s') cu) SLS_BLOCK_PSUM x = blk ?U SLS_BLOCK_PSUM x"
      using c unfolding s'(4) zero_prefix_def by (auto simp: write_bytes_def)
  qed (simp_all add: s'(3,4) reset_range_def zero_prefix_def tags_bounded_def)
qed

lemma buf_zero_cong:
  assumes "\<And>x. psum_single_buf_size topo * j \<le> x \<Longrightarrow> x < psum_single_buf_size topo * j + DUMMY_ROW \<Longrightarrow> blk ma' SLS_BLOCK_PSUM x = blk ma SLS_BLOCK_PSUM x"
  shows "buf_zero topo ma' j from = buf_zero topo ma j from"
  using assms by (simp add: buf_zero_def)

lemma clean_cong:
  assumes "\<And>x. psum_single_buf_size topo * j \<le> x \<Longrightarrow> x < psum_single_buf_size topo * j + DUMMY_ROW \<Longrightarrow> blk ma' SLS_BLOCK_PSUM x = blk ma SLS_BLOCK_PSUM x"
    "ub_min ub' ! j = ub_min ub ! j" "ub_max ub' ! j = ub_max ub ! j"
  shows "clean topo ma' ub' j = clean topo ma ub j" "clearable topo ma' ub' j = clearable topo ma ub j"
  using assms(2,3) buf_zero_cong [OF assms(1)] by (simp_all add: clean_def clearable_def)

lemma other_buffer:
  fixes j k S :: nat
  assumes "j \<noteq> k" "S * j \<le> x" "x < S * j + D" "D \<le> S"
  shows "x < S * k \<or> S * k + S \<le> x"
proof (cases "j < k")
  case True
  then have "S * Suc j \<le> S * k" by (intro mult_le_mono2) simp
  then show ?thesis using assms(3,4) by simp
next
  case False
  then have "S * Suc k \<le> S * j" using assms(1) by (intro mult_le_mono2) simp
  then show ?thesis using assms(2) by simp
qed

lemma clear_buffers_step:
  assumes "ax_ok topo rm" "cu < length rm" "idle topo rm cu s" "DUMMY_ROW \<le> psum_single_buf_size topo"
  obtains s' where "ax_clear_buffers topo rm cu s = Inr s'" "moves topo rm cu s s'" "idle topo rm cu s'"
    "\<And>k. k < 2 \<Longrightarrow> clean topo (unit_view rm (fst s') cu) (unit_core (snd s') cu) k" "keeps rm cu s s'"
    "blk (unit_view rm (fst s') cu) SLS_BLOCK_CFGR = blk (unit_view rm (fst s) cu) SLS_BLOCK_CFGR"
proof -
  let ?S = "psum_single_buf_size topo"
  let ?U = "\<lambda>s. unit_view rm (fst s) cu" and ?B = "\<lambda>s. unit_core (snd s) cu"
  have i: "core_shape topo (snd s)" "tags_bounded topo (?B s)" "set (ub_idx (?B s)) = {0, 1}"
    "clearable topo (?U s) (?B s) 0" "clearable topo (?U s) (?B s) 1" using assms(3) by (simp_all add: idle_def)
  obtain s1 where s1: "ax_clear_psum_buf topo rm cu 0 0 s = Inr s1" "moves topo rm cu s s1" "clean topo (?U s1) (?B s1) 0"
    "\<And>j. j \<noteq> 0 \<Longrightarrow> ub_min (?B s1) ! j = ub_min (?B s) ! j \<and> ub_max (?B s1) ! j = ub_max (?B s) ! j"
    "ub_idx (?B s1) = ub_idx (?B s)" "tags_bounded topo (?B s1) = tags_bounded topo (?B s)"
    "\<And>b. b \<noteq> SLS_BLOCK_PSUM \<Longrightarrow> blk (?U s1) b = blk (?U s) b"
    "\<And>x. x < ?S * 0 \<or> ?S * 0 + ?S \<le> x \<Longrightarrow> blk (?U s1) SLS_BLOCK_PSUM x = blk (?U s) SLS_BLOCK_PSUM x"
    using clear_step [OF assms(1) i(1) assms(2) _ i(4)] by auto
  have sh1: "core_shape topo (snd s1)" using s1(2) by (simp add: moves_def)
  have c1: "clearable topo (?U s1) (?B s1) 1"
    using i(5) clean_cong(2) [of topo 1 "?U s1" "?U s" "?B s1" "?B s"] s1(4,8) by simp
  obtain s2 where s2: "ax_clear_psum_buf topo rm cu 1 0 s1 = Inr s2" "moves topo rm cu s1 s2" "clean topo (?U s2) (?B s2) 1"
    "\<And>j. j \<noteq> 1 \<Longrightarrow> ub_min (?B s2) ! j = ub_min (?B s1) ! j \<and> ub_max (?B s2) ! j = ub_max (?B s1) ! j"
    "ub_idx (?B s2) = ub_idx (?B s1)" "tags_bounded topo (?B s2) = tags_bounded topo (?B s1)"
    "\<And>b. b \<noteq> SLS_BLOCK_PSUM \<Longrightarrow> blk (?U s2) b = blk (?U s1) b"
    "\<And>x. x < ?S * 1 \<or> ?S * 1 + ?S \<le> x \<Longrightarrow> blk (?U s2) SLS_BLOCK_PSUM x = blk (?U s1) SLS_BLOCK_PSUM x"
    using clear_step [OF assms(1) sh1 assms(2) _ c1] by auto
  have sh2: "core_shape topo (snd s2)" using s2(2) by (simp add: moves_def)
  have c2: "clean topo (?U s2) (?B s2) 0"
    using s1(3) clean_cong(1) [of topo 0 "?U s2" "?U s1" "?B s2" "?B s1"] s2(4,8) assms(4) by simp
  have tb: "tags_bounded topo (?B s2)" using i(2) s1(6) s2(6) by simp
  obtain s3 where s3: "ax_each_buf (\<lambda>k. ax_clear_tags_buf topo rm cu k 0) [0..<NumOfTagsBuf topo] s2 = Inr s3" "moves topo rm cu s2 s3"
    "same_psum (?B s2) (?B s3)" "tags_bounded topo (?B s3)" "\<And>b. b \<noteq> SLS_BLOCK_TAGS \<Longrightarrow> blk (?U s3) b = blk (?U s2) b"
    using each_tags_step [OF assms(1) sh2 assms(2) _ tb, of "[0..<NumOfTagsBuf topo]"] by auto
  have c3: "clean topo (?U s3) (?B s3) k" if "k < 2" for k
  proof -
    have "clean topo (?U s2) (?B s2) k" using that c2 s2(3) by (auto simp: less_2_cases_iff)
    then show ?thesis using s3(3,5) by (subst clean_cong(1) [where ma = "?U s2" and ub = "?B s2"]) (simp_all add: same_psum_def)
  qed
  have mv: "moves topo rm cu s s3" using s1(2) s2(2) s3(2) by (blast intro: moves_trans)
  have "NumOfPSumBuf topo = 2" using assms(1) by (simp add: ax_ok_def)
  then have "ax_clear_buffers topo rm cu s = Inr s3"
    using s1(1) s2(1) s3(1) by (simp add: ax_clear_buffers_def upt_rec numeral_2_eq_2)
  moreover have "idle topo rm cu s3" using mv s3(3,4) i(3) s1(5) s2(5) c3 by (simp add: idle_def moves_def same_psum_def clearable_def)
  ultimately show ?thesis using that [OF _ mv _ c3] s1(7) s2(7) s3(5) by (simp add: keeps_def)
qed

section \<open>A trace in a unit\<close>

lemma track_step:
  fixes d :: DecodedInst and kt :: nat
  assumes "core_shape topo core" "cu < NumOfCUnits topo" "k < NumOfPSumBuf topo" "\<not> mode_is_tagged md"
  defines "core' \<equiv> ax_track topo md d k kt cu core"
  shows "core_shape topo core'" "unit_core core' cu = widen k (mode_bytes_per_idx md) [unat (output_idx d)] (unit_core core cu)"
    "cu' \<noteq> cu \<Longrightarrow> unit_core core' cu' = unit_core core cu'" "psum_memory core' = psum_memory core" "tags_memory core' = tags_memory core"
proof -
  have sh: "map_shape (NumOfPSumBuf topo) (NumOfCUnits topo) (min_psum_offsets core)" "map_shape (NumOfPSumBuf topo) (NumOfCUnits topo) (max_psum_offsets core)"
    using assms(1) by (simp_all add: core_shape_def)
  have l: "length (min_psum_offsets core) = NumOfPSumBuf topo" "length (max_psum_offsets core) = NumOfPSumBuf topo"
    using sh by (simp_all add: map_shape_def)
  note u = map_shape_update [OF sh(1) assms(3,2)] map_shape_update [OF sh(2) assms(3,2)]
  have c: "core' = core\<lparr>min_psum_offsets := update_min k cu (unat (output_idx d) * mode_bytes_per_idx md) (min_psum_offsets core),
      max_psum_offsets := update_max k cu (unat (output_idx d) * mode_bytes_per_idx md + mode_bytes_per_idx md) (max_psum_offsets core)\<rparr>"
    using assms(4) by (simp add: core'_def ax_track_def Let_def)
  show "core_shape topo core'" using assms(1) u(1,4) by (simp add: c core_shape_def update_min_def update_max_def)
  show "unit_core core' cu = widen k (mode_bytes_per_idx md) [unat (output_idx d)] (unit_core core cu)"
    using u(2,5) l assms(3) by (simp add: c unit_core_def widen_def update_min_def update_max_def)
  show "cu' \<noteq> cu \<Longrightarrow> unit_core core' cu' = unit_core core cu'"
    using u(3,6) by (simp add: c unit_core_def update_min_def update_max_def)
  show "psum_memory core' = psum_memory core" "tags_memory core' = tags_memory core" by (simp_all add: c)
qed

lemma track_steps:
  fixes ws :: "u64 list" and kt :: nat
  assumes "core_shape topo core" "cu < NumOfCUnits topo" "k < NumOfPSumBuf topo" "\<not> mode_is_tagged md"
  defines "core' \<equiv> fold (\<lambda>w. ax_track topo md (decode_instruction w) k kt cu) ws core"
  shows "core_shape topo core' \<and> unit_core core' cu = widen k (mode_bytes_per_idx md) (map (fst \<circ> rank_lookup) ws) (unit_core core cu) \<and>
    (\<forall>cu'. cu' \<noteq> cu \<longrightarrow> unit_core core' cu' = unit_core core cu')"
  using assms(1) unfolding core'_def
proof (induction ws arbitrary: core)
  case Nil
  then show ?case by (simp add: widen_def)
next
  case (Cons w ws)
  note t = track_step [OF Cons.prems assms(2-4), where d = "decode_instruction w" and kt = kt]
  have "k < length (min_psum_offsets core)" "k < length (max_psum_offsets core)" using Cons.prems assms(3) by (simp_all add: core_shape_def map_shape_def)
  then have "k < length (ub_min (unit_core core cu))" "k < length (ub_max (unit_core core cu))" by (simp_all add: unit_core_def)
  then show ?case using Cons.IH [OF t(1)] t(2,3) by (simp add: widen_def rank_lookup_def)
qed

lemma ax_exec_trace_step:
  assumes "ax_ok topo rm" "core_shape topo (snd s)" "cu < length rm" "op \<in> {0, 2, 3}" "bpi dvd psum_single_buf_size topo" "4 dvd bpi" "0 < bpi"
    "read_header h = Inr \<lparr>mode_bytes_per_idx = bpi, mode_is_tagged = False\<rparr>" "inst_at (unit_view rm (fst s) cu) 0 (h # ws)"
    "ws \<noteq> []" "Suc (length ws) \<le> inst_per_single_buf topo"
    "\<forall>w \<in> set ws. opcode (decode_instruction w) = op"
    "map (\<lambda>w. trace_end (decode_instruction w)) ws = replicate (length ws - 1) 0 @ [1]"
    "\<forall>(out, a) \<in> set (map rank_lookup ws). unat a + bpi \<le> rb_size (rm ! cu) SLS_BLOCK_BASE \<and> 4 dvd unat a \<and> out * bpi + bpi \<le> psum_single_buf_size topo"
    "k = ub_idx (unit_core (snd s) cu) ! 1"
  defines "first \<equiv> k * (psum_single_buf_size topo div bpi)"
  obtains s' where "ax_exec_trace fadd topo rm cu s = Inr s'" "moves topo rm cu s s'"
    "unit_core (snd s') cu = widen k bpi (map (fst \<circ> rank_lookup) ws) (unit_core (snd s) cu)"
    "summed rm cu bpi first (op_add fadd op) (map rank_lookup ws) (fst s) (fst s')"
    "blk (unit_view rm (fst s') cu) SLS_BLOCK_CFGR =
      store_le 4 (blk (unit_view rm (fst s) cu) SLS_BLOCK_CFGR) (RegPolling topo + 8) (of_nat (Suc (length ws)) :: u32)"
proof -
  let ?S = "psum_single_buf_size topo" and ?md = "\<lparr>mode_bytes_per_idx = bpi, mode_is_tagged = False\<rparr>"
  have t: "map_ok rm" "length rm = NumOfCUnits topo" "NumOfPSumBuf topo = 2" "?S < 2 ^ 31" "2 * ?S \<le> rb_size (rm ! cu) SLS_BLOCK_PSUM"
    "RegPolling topo + 8 + 4 \<le> rb_size (rm ! cu) SLS_BLOCK_CFGR" "4 dvd RegPolling topo + 8"
    using assms(1,3) by (simp_all add: ax_ok_def add.commute)
  have cu: "cu < NumOfCUnits topo" using assms(3) t(2) by simp
  have sh: "nb_shape (NumOfCUnits topo) ?S 2 SLS_BLOCK_PSUM (psum_memory (snd s))"
    "nb_shape (NumOfCUnits topo) (tags_single_buf_size topo) (NumOfTagsBuf topo) SLS_BLOCK_TAGS (tags_memory (snd s))"
    using assms(2) t(3) by (simp_all add: core_shape_def)
  have k: "nb_indices (psum_memory (snd s)) ! cu ! type_index WRITE = k" "k < 2"
    using nb_shapeD(2) [OF sh(1) cu, of WRITE] by (simp_all add: assms(15) unit_core_def type_index_def)
  define rows where "rows = ?S div bpi"
  have rows: "rows * bpi = ?S" using assms(5) by (simp add: rows_def)
  have fb: "first * bpi = ?S * k" "(first + rows) * bpi \<le> 2 * ?S" using rows k(2) by (simp_all add: first_def rows_def [symmetric] algebra_simps less_2_cases_iff) (auto simp: mult.commute mult.left_commute)
  have "first + rows \<le> (first + rows) * bpi" using assms(7) by simp
  then have "first + rows \<le> 2 * ?S" using fb(2) by (rule le_trans)
  then have fr: "first + rows < 2 ^ 32" using t(4) by simp
  have out: "out < rows" if "out * bpi + bpi \<le> ?S" for out
  proof -
    have "Suc out * bpi \<le> rows * bpi" using that rows by simp
    then show ?thesis using assms(7) by (metis Suc_le_lessD mult_le_cancel2)
  qed
  have lk: "rank_lookups_ok (rm ! cu) bpi first rows (map rank_lookup ws)"
    using assms(14) fb(2) t(5) fr out unfolding rank_lookups_ok_def by fastforce
  obtain n where n: "inst_per_single_buf topo = Suc n" using assms(11) by (cases "inst_per_single_buf topo") auto
  let ?ti = "nb_indices (tags_memory (snd s)) ! cu ! type_index WRITE"
  define cx where "cx = \<lparr>cx_cu = cu, cx_psum_buf_idx = k, cx_tags_buf_idx = ?ti, cx_tables = block_ptr rm cu SLS_BLOCK_BASE,
    cx_psum = get_buffer_by_index rm (psum_memory (snd s)) cu k, cx_tags = get_buffer_by_index rm (tags_memory (snd s)) cu ?ti,
    cx_reg = ip_add (block_ptr rm cu SLS_BLOCK_CFGR) (of_nat (RegPolling topo + POLL_INST_NUM_OFFSET))\<rparr>"
  have cxs: "cx_tables cx = block_ptr rm cu SLS_BLOCK_BASE" "cx_psum cx = at_block rm cu SLS_BLOCK_PSUM (first * bpi)"
    "cx_reg cx = at_block rm cu SLS_BLOCK_CFGR (RegPolling topo + 8)" "cx_cu cx = cu" "cx_psum_buf_idx cx = k" "cx_tags_buf_idx cx = ?ti"
    using sh(1) fb(1) by (simp_all add: cx_def get_buffer_by_index_def nb_shape_def POLL_INST_NUM_OFFSET_def del: of_nat_add of_nat_mult)
  have isz: "8 \<le> rb_size (rm ! cu) SLS_BLOCK_INST" "load_le 8 (blk (unit_view rm (fst s) cu) SLS_BLOCK_INST) 0 = h" "inst_at (unit_view rm (fst s) cu) 1 ws"
    using assms(9) by (auto simp: unit_view_def)
  have ip0: "at_block rm cu SLS_BLOCK_INST 0 = block_ptr rm cu SLS_BLOCK_INST" by (simp add: ip_add_0)
  have ld: "ip_load 8 (fst s) (block_ptr rm cu SLS_BLOCK_INST) = h"
    unfolding isz(2) [symmetric] using isz(1) by (subst ip0 [symmetric], intro unit_load) simp_all
  have loop: "ax_exec_trace fadd topo rm cu s = ax_exec_loop n fadd topo cx 1 (at_block rm cu SLS_BLOCK_INST (8 * 1)) (Some ?md) (fst s, snd s)"
    using get_index_eq [OF sh(1) cu, of WRITE] get_index_eq [OF sh(2) cu, of WRITE] k(1) ld assms(8)
    unfolding ax_exec_trace_def n by (simp add: Let_def cx_def)
  have "\<exists>m'. ax_exec_loop n fadd topo cx 1 (at_block rm cu SLS_BLOCK_INST (8 * 1)) (Some ?md) (fst s, snd s) =
      Inr (m', fold (\<lambda>w. ax_track topo ?md (decode_instruction w) (cx_psum_buf_idx cx) (cx_tags_buf_idx cx) (cx_cu cx)) ws (snd s)) \<and>
    summed rm cu bpi first (op_add fadd op) (map rank_lookup ws) (fst s) m' \<and>
    blk (unit_view rm m' cu) SLS_BLOCK_CFGR = store_le 4 (blk (unit_view rm (fst s) cu) SLS_BLOCK_CFGR) (RegPolling topo + 8) (of_nat (1 + length ws) :: u32)"
    using isz(3) assms(10-13) lk n by (intro ax_exec_loop_correct [OF t(1) assms(3,4) _ _ assms(6) t(6,7) cxs(1-3)]) simp_all
  then obtain m' where m': "ax_exec_trace fadd topo rm cu s = Inr (m', fold (\<lambda>w. ax_track topo ?md (decode_instruction w) k ?ti cu) ws (snd s))"
    "summed rm cu bpi first (op_add fadd op) (map rank_lookup ws) (fst s) m'"
    "blk (unit_view rm m' cu) SLS_BLOCK_CFGR = store_le 4 (blk (unit_view rm (fst s) cu) SLS_BLOCK_CFGR) (RegPolling topo + 8) (of_nat (1 + length ws) :: u32)"
    unfolding loop [symmetric] cxs(4-6) by blast
  have tr: "core_shape topo (fold (\<lambda>w. ax_track topo ?md (decode_instruction w) k ?ti cu) ws (snd s)) \<and>
    unit_core (fold (\<lambda>w. ax_track topo ?md (decode_instruction w) k ?ti cu) ws (snd s)) cu = widen k bpi (map (fst \<circ> rank_lookup) ws) (unit_core (snd s) cu) \<and>
    (\<forall>cu'. cu' \<noteq> cu \<longrightarrow> unit_core (fold (\<lambda>w. ax_track topo ?md (decode_instruction w) k ?ti cu) ws (snd s)) cu' = unit_core (snd s) cu')"
    using track_steps [OF assms(2) cu, of k ?md ?ti ws] k(2) t(3) by simp
  show ?thesis using that [OF m'(1)] m'(2,3) tr by (simp add: moves_def summed_def)
qed

section \<open>The initial state\<close>

lemma set_index_eq:
  assumes "rank < NumOfCUnits topo" "v < nb_buffers_num nb" "v < 256"
  shows "set_index topo rank t v nb = Inr (nb\<lparr>nb_indices := (nb_indices nb)[rank := (nb_indices nb ! rank)[type_index t := v]]\<rparr>)"
  using assms by (simp add: set_index_def)

lemma init_ranks_correct:
  assumes "set ranks \<subseteq> {..<NumOfCUnits topo}" "0 < nb_buffers_num nb" "nb_buffers_num nb \<le> 256"
    "length (nb_indices nb) = NumOfCUnits topo" "\<forall>ix \<in> set (nb_indices nb). length ix = 2"
  shows "\<exists>ixs. init_ranks topo ranks nb = Inr (nb\<lparr>nb_indices := ixs\<rparr>) \<and> length ixs = NumOfCUnits topo \<and>
    (\<forall>r < NumOfCUnits topo. ixs ! r = (if r \<in> set ranks then [nb_buffers_num nb - 1, 0] else nb_indices nb ! r))"
  using assms
proof (induction ranks arbitrary: nb)
  case Nil
  then show ?case by (intro exI [of _ "nb_indices nb"]) simp
next
  case (Cons r rs)
  let ?nb = "nb\<lparr>nb_indices := (nb_indices nb)[r := [nb_buffers_num nb - 1, 0]]\<rparr>"
  have r: "r < NumOfCUnits topo" using Cons.prems(1) by simp
  then have "length (nb_indices nb ! r) = 2" using Cons.prems(4,5) by simp
  then obtain x y where xy: "nb_indices nb ! r = [x, y]" by (auto simp: length_Suc_conv numeral_2_eq_2)
  have e: "init_ranks topo (r # rs) nb = init_ranks topo rs ?nb"
    using r Cons.prems(2-4) by (simp add: set_index_eq type_index_def xy)
  have "\<exists>ixs. init_ranks topo rs ?nb = Inr (?nb\<lparr>nb_indices := ixs\<rparr>) \<and> length ixs = NumOfCUnits topo \<and>
      (\<forall>q < NumOfCUnits topo. ixs ! q = (if q \<in> set rs then [nb_buffers_num ?nb - 1, 0] else nb_indices ?nb ! q))"
    using Cons.prems by (intro Cons.IH) (auto dest!: set_update_subset_insert [THEN subsetD])
  then obtain ixs where "init_ranks topo rs ?nb = Inr (nb\<lparr>nb_indices := ixs\<rparr>)" "length ixs = NumOfCUnits topo"
    "\<forall>q < NumOfCUnits topo. ixs ! q = (if q \<in> set rs then [nb_buffers_num nb - 1, 0] else (nb_indices nb)[r := [nb_buffers_num nb - 1, 0]] ! q)" by auto
  then show ?case unfolding e using r Cons.prems(4) by (intro exI [of _ ixs]) (auto simp: nth_list_update)
qed

lemma NBufferedMemory_make_correct:
  assumes "0 < n" "n \<le> 256" "0 < sz"
  obtains nb where "NBufferedMemory_make topo sz n b = Inr nb" "nb_shape (NumOfCUnits topo) sz n b nb"
    "\<And>cu. cu < NumOfCUnits topo \<Longrightarrow> nb_indices nb ! cu = [n - 1, 0]"
proof -
  let ?nb = "\<lparr>nb_single_buffer_size = sz, nb_buffers_num = n, nb_indices = replicate (NumOfCUnits topo) [0, 0], nb_block = b\<rparr>"
  obtain ixs where ixs: "init_ranks topo [0..<NumOfCUnits topo] ?nb = Inr (?nb\<lparr>nb_indices := ixs\<rparr>)" "length ixs = NumOfCUnits topo"
    "\<forall>r < NumOfCUnits topo. ixs ! r = [n - 1, 0]"
    using init_ranks_correct [of "[0..<NumOfCUnits topo]" topo ?nb] assms by (auto simp: atLeast0LessThan)
  then have "NBufferedMemory_make topo sz n b = Inr (?nb\<lparr>nb_indices := ixs\<rparr>)" using assms by (simp add: NBufferedMemory_make_def)
  moreover have "nb_shape (NumOfCUnits topo) sz n b (?nb\<lparr>nb_indices := ixs\<rparr>)"
    using ixs(2,3) assms(1) by (auto simp: nb_shape_def in_set_conv_nth [of _ ixs])
  ultimately show ?thesis using that ixs(3) by simp
qed

lemma initial_idle:
  assumes "ax_ok topo rm" "0 < psum_single_buf_size topo" "0 < tags_single_buf_size topo" "DUMMY_ROW \<le> psum_single_buf_size topo"
  obtains core where "AxdimmSimulatorCore_make topo = Inr core" "\<And>cu m. cu < length rm \<Longrightarrow> idle topo rm cu (m, core)"
proof -
  let ?S = "psum_single_buf_size topo" and ?T = "tags_single_buf_size topo" and ?N = "NumOfCUnits topo"
  have t: "NumOfPSumBuf topo = 2" "0 < NumOfTagsBuf topo" "NumOfTagsBuf topo \<le> 256" "length rm = ?N" "256 dvd ?S"
    using assms(1) by (simp_all add: ax_ok_def)
  obtain p where p: "NBufferedMemory_make topo ?S 2 SLS_BLOCK_PSUM = Inr p" "nb_shape ?N ?S 2 SLS_BLOCK_PSUM p"
    "\<And>cu. cu < ?N \<Longrightarrow> nb_indices p ! cu = [1, 0]" using NBufferedMemory_make_correct [of 2 ?S topo SLS_BLOCK_PSUM] assms(2) by auto
  obtain g where g: "NBufferedMemory_make topo ?T (NumOfTagsBuf topo) SLS_BLOCK_TAGS = Inr g" "nb_shape ?N ?T (NumOfTagsBuf topo) SLS_BLOCK_TAGS g"
    using NBufferedMemory_make_correct [OF t(2,3) assms(3), of topo SLS_BLOCK_TAGS] by blast
  define core where "core = \<lparr>psum_memory = p, tags_memory = g,
    min_psum_offsets = replicate 2 (replicate ?N 0), max_psum_offsets = replicate 2 (replicate ?N ?S),
    min_tags_offsets = replicate (NumOfTagsBuf topo) (replicate ?N 0), max_tags_offsets = replicate (NumOfTagsBuf topo) (replicate ?N ?T)\<rparr>"
  have "AxdimmSimulatorCore_make topo = Inr core" using p(1) g(1) t(1) by (simp add: AxdimmSimulatorCore_make_def core_def)
  moreover have sh: "core_shape topo core" using p(2) g(2) t(1) by (auto simp: core_shape_def core_def map_shape_def)
  have "?S \<le> cleared_size 0 ?S"
  proof -
    have "?S mod 256 = 0" using t(5) by (simp add: dvd_eq_mod_eq_0)
    then show ?thesis using up_256(1) [of ?S] assms(2) by (simp add: cleared_size_def)
  qed
  then have z: "buf_zero topo ma k (cleared_size 0 ?S)" for ma k using assms(4) unfolding buf_zero_def by (meson leD le_trans)
  have "idle topo rm cu (m, core)" if "cu < length rm" for cu m
    using that t sh z p(3) assms(2)
    by (auto simp: idle_def tags_bounded_def clearable_def unit_core_def core_def)
  ultimately show ?thesis by (intro that) auto
qed

lemma rank_layout_ok: "ax_ok rank_topo rank_layout"
proof -
  have "block_no b = block_no b' \<longleftrightarrow> b = b'" "block_no b < 2 ^ 31" for b b' by (cases b; cases b'; simp add: block_no_def)+
  then have "regions rank_layout (\<lambda>_. block_no)" by (simp add: regions_def rank_layout_def)
  then have "map_ok rank_layout" by (rule regions_map_ok)
  then show ?thesis
    by (simp add: ax_ok_def rank_topo_def rank_layout_def psum_single_buf_size_def tags_single_buf_size_def inst_single_buf_size_def)
qed

text \<open>
  C19: clearing a partial-sum buffer of a unit forgets the range that has been written, and zeroes the
  first \<open>cleared_size\<close> bytes of the buffer, as many as the range has with its bounds aligned; every other
  byte of the block, the other blocks and the other units keep their contents. When the range does not
  start in the first block of the buffer, its end is therefore not cleared.
\<close>
theorem clearing_zeroes_the_prefix:
  assumes "ax_ok topo rm" "core_shape topo (snd s)" "cu < length rm" "k < 2" "ub_max (unit_core (snd s) cu) ! k \<le> psum_single_buf_size topo"
  shows "\<exists>s'. ax_clear_psum_buf topo rm cu k 0 s = Inr s' \<and> moves topo rm cu s s' \<and>
    unit_core (snd s') cu = reset_range (psum_single_buf_size topo) k (unit_core (snd s) cu) \<and>
    (\<forall>b i. blk (unit_view rm (fst s') cu) b i =
      (if b = SLS_BLOCK_PSUM \<and> psum_single_buf_size topo * k \<le> i \<and>
          i < psum_single_buf_size topo * k + cleared_size (ub_min (unit_core (snd s) cu) ! k) (ub_max (unit_core (snd s) cu) ! k)
       then 0 else blk (unit_view rm (fst s) cu) b i))"
  by (rule clear_psum_step [OF assms]) (auto simp: zero_prefix_def set_blk_def write_bytes_def)

theorem clearing_zeroes_the_prefix_witness:
  "\<exists>s'. ax_clear_psum_buf rank_topo rank_layout 0 0 0 ((\<lambda>_. 3), second_block_written) = Inr s' \<and>
    ub_max (unit_core (snd s') 0) = [0, 0] \<and> blk (unit_view rank_layout (fst s') 0) SLS_BLOCK_PSUM 0 = 0 \<and>
    blk (unit_view rank_layout (fst s') 0) SLS_BLOCK_PSUM 256 = 3"
proof -
  have u: "unit_core second_block_written 0 = \<lparr>ub_idx = [1, 0], ub_tags_idx = [0, 0], ub_min = [256, 131072], ub_max = [512, 0],
      ub_tags_min = [256], ub_tags_max = [0]\<rparr>" by (simp add: unit_core_def second_block_written_def)
  have t: "psum_single_buf_size rank_topo = 131072" by (simp add: rank_topo_def psum_single_buf_size_def)
  have "core_shape rank_topo second_block_written"
    by (simp add: core_shape_def nb_shape_def map_shape_def second_block_written_def rank_topo_def psum_single_buf_size_def tags_single_buf_size_def)
  moreover have l: "0 < length rank_layout" by (simp add: rank_layout_def)
  moreover have "blk (unit_view rank_layout (\<lambda>_. 3) 0) SLS_BLOCK_PSUM 256 = 3" by (simp add: unit_view_def rank_layout_def)
  ultimately show ?thesis
    using clearing_zeroes_the_prefix [OF rank_layout_ok, of "((\<lambda>_. 3), second_block_written)" 0 0]
    by (auto simp: u t reset_range_def cleared_size_def)
qed

end
