(* ===== verification/Axdimm_Runner.thy ===== *)
theory Axdimm_Runner
  imports Axdimm_Buffers Cxl_Runner
begin

text \<open>
  Reductions on AXDIMM devices: the block readers and writers with rank interleaving
  (\<open>core/device/sls/memblockhandler\<close>), the simulator's compute device
  (\<open>core/device/sls/simulator/axdimm_compute_device.cpp\<close>), the compute unit
  (\<open>sls/compute_unit/axdimm_compute_unit.h\<close>) and the runner
  (\<open>core/operation_runner/reduction/axdimm_runner.h\<close>). The runner is pipelined: while the device
  executes a trace, the host reads the sums of the previous one from the other buffer; a dummy trace
  brings the sums of the last execution out. Whether the device finishes a trace before or after the
  host reads is an argument of the model.
\<close>

section \<open>Block readers and writers\<close>

type_synonym ax_state = "devmem \<times> AxdimmSimulatorCore"

definition RankedBlockWriter :: "rank_map \<Rightarrow> nat \<Rightarrow> sls_block \<Rightarrow> nat \<Rightarrow> u8 list \<Rightarrow> ax_state \<Rightarrow> ax_state result" where
  "RankedBlockWriter rm cu type off bs s =
     bind_r (memcpy_interleaved_to (fst s) bs (length bs) (ip_add (block_ptr rm cu type) (of_nat off))) (\<lambda>(m, _). Inr (m, snd s))"

definition RankedBlockReader :: "rank_map \<Rightarrow> nat \<Rightarrow> sls_block \<Rightarrow> nat \<Rightarrow> nat \<Rightarrow> ax_state \<Rightarrow> (u8 list \<times> ax_state) result" where
  "RankedBlockReader rm cu type off n s =
     bind_r (memcpy_interleaved_from (fst s) (ip_add (block_ptr rm cu type) (of_nat off)) n (replicate n 0)) (\<lambda>(bs, _). Inr (bs, s))"

text \<open>Reading sums or tags clears what has been written to the buffer that is read.\<close>

definition AxdimmSimulatorPsumReader ::
  "Constants \<Rightarrow> rank_map \<Rightarrow> nat \<Rightarrow> sls_block \<Rightarrow> u32 \<Rightarrow> nat \<Rightarrow> ax_state \<Rightarrow> (u8 list \<times> ax_state) result" where
  "AxdimmSimulatorPsumReader topo rm cu type off n s =
     assert_r (type = SLS_BLOCK_PSUM)
      (bind_r (current_psum_buf topo rm (snd s) cu off) (\<lambda>psum_buf.
       bind_r (memcpy_interleaved_from (fst s) psum_buf n (replicate n 0)) (\<lambda>(bs, _).
       bind_r (handle_psum_buf_read topo rm cu off s) (\<lambda>s. Inr (bs, s)))))"

definition AxdimmSimulatorTagsReader ::
  "Constants \<Rightarrow> rank_map \<Rightarrow> nat \<Rightarrow> sls_block \<Rightarrow> u32 \<Rightarrow> nat \<Rightarrow> ax_state \<Rightarrow> (u8 list \<times> ax_state) result" where
  "AxdimmSimulatorTagsReader topo rm cu type off n s =
     assert_r (type = SLS_BLOCK_TAGS)
      (bind_r (current_tags_buf topo rm (snd s) cu off) (\<lambda>tags_buf.
       bind_r (memcpy_interleaved_from (fst s) tags_buf n (replicate n 0)) (\<lambda>(bs, _).
       bind_r (handle_tags_buf_read topo rm cu off s) (\<lambda>s. Inr (bs, s)))))"

definition ax_write_block :: "Constants \<Rightarrow> rank_map \<Rightarrow> sls_block \<Rightarrow> nat \<Rightarrow> nat \<Rightarrow> u8 list \<Rightarrow> ax_state \<Rightarrow> ax_state result" where
  "ax_write_block topo rm type cu off bs s =
     assert_r (cu < NumOfCUnits topo)
      (case type of
         SLS_BLOCK_BASE \<Rightarrow> Inl (Throw InvalidArguments)
       | SLS_BLOCK_INST \<Rightarrow> RankedBlockWriter rm cu type off bs s
       | SLS_BLOCK_CFGR \<Rightarrow> RankedBlockWriter rm cu type off bs s
       | SLS_BLOCK_TAGS \<Rightarrow> Inl (Throw NotSupported)
       | SLS_BLOCK_PSUM \<Rightarrow> Inl (Throw NotSupported))"

definition ax_read_block :: "Constants \<Rightarrow> rank_map \<Rightarrow> sls_block \<Rightarrow> nat \<Rightarrow> nat \<Rightarrow> nat \<Rightarrow> ax_state \<Rightarrow> (u8 list \<times> ax_state) result" where
  "ax_read_block topo rm type cu off n s =
     assert_r (cu < NumOfCUnits topo)
      (case type of
         SLS_BLOCK_BASE \<Rightarrow> Inl (Throw InvalidArguments)
       | SLS_BLOCK_INST \<Rightarrow> Inl (Throw InvalidArguments)
       | SLS_BLOCK_CFGR \<Rightarrow> RankedBlockReader rm cu type off n s
       | SLS_BLOCK_TAGS \<Rightarrow> AxdimmSimulatorTagsReader topo rm cu type (of_nat off) n s
       | SLS_BLOCK_PSUM \<Rightarrow> AxdimmSimulatorPsumReader topo rm cu type (of_nat off) n s)"

definition ax_read_and_reset_psum :: "Constants \<Rightarrow> rank_map \<Rightarrow> nat \<Rightarrow> nat \<Rightarrow> ax_state \<Rightarrow> (u8 list \<times> ax_state) result" where
  "ax_read_and_reset_psum topo rm cu read_size s = ax_read_block topo rm SLS_BLOCK_PSUM cu 0 read_size s"

definition ax_read_and_reset_tags :: "Constants \<Rightarrow> rank_map \<Rightarrow> nat \<Rightarrow> nat \<Rightarrow> ax_state \<Rightarrow> (u8 list \<times> ax_state) result" where
  "ax_read_and_reset_tags topo rm cu read_size s =
     (let aligned = read_size div 16 * AlignedTagSize topo in
      if TagsBufSize topo < aligned then Inl Undefined
      else bind_r (ax_read_block topo rm SLS_BLOCK_TAGS cu 0 aligned s) (\<lambda>(tags_tmp, s).
             bind_r (rowwise_rows tags_tmp (make_rowwise_view 0 aligned (AlignedTagSize topo) 0 (AlignedTagSize topo - 16)))
               (\<lambda>rows. Inr (concat rows, s))))"

section \<open>The compute device of the simulator\<close>

text \<open>A register is a word behind the pointer to its place in the configuration block.\<close>

definition get_block_ptr :: "rank_map \<Rightarrow> sls_block \<Rightarrow> nat \<Rightarrow> nat \<Rightarrow> InterleavedPointer" where
  "get_block_ptr rm type cu off = ip_add (block_ptr rm cu type) (of_nat off)"

definition ax_read_reg :: "rank_map \<Rightarrow> nat \<Rightarrow> nat \<Rightarrow> ax_state \<Rightarrow> u32" where
  "ax_read_reg rm cu reg s = ip_load 4 (fst s) (get_block_ptr rm SLS_BLOCK_CFGR cu reg)"

definition ax_write_reg :: "rank_map \<Rightarrow> nat \<Rightarrow> nat \<Rightarrow> u32 \<Rightarrow> ax_state \<Rightarrow> ax_state" where
  "ax_write_reg rm cu reg val s = (ip_store 4 (fst s) (get_block_ptr rm SLS_BLOCK_CFGR cu reg) val, snd s)"

definition ax_write_exec_sls_register :: "Constants \<Rightarrow> rank_map \<Rightarrow> nat \<Rightarrow> u32 \<Rightarrow> ax_state \<Rightarrow> ax_state result" where
  "ax_write_exec_sls_register topo rm cu val s =
     bind_r (if val = SLS_ENABLE_VALUE then bind_r (ax_shift_buffers topo cu (snd s)) (\<lambda>core. Inr (fst s, core)) else Inr s) (\<lambda>s.
       let s = (if val = SLS_ENABLE_VALUE then ax_write_reg rm cu (psum_poll_register topo) 0 s else s) in
       Inr (ax_write_reg rm cu (exec_sls_register topo) val s))"

definition ax_write_control_switch_register :: "Constants \<Rightarrow> rank_map \<Rightarrow> nat \<Rightarrow> u32 \<Rightarrow> ax_state \<Rightarrow> ax_state result" where
  "ax_write_control_switch_register topo rm cu val s =
     bind_r (if val = SLS_ENABLE_VALUE then ax_clear_buffers topo rm cu s else Inr s) (\<lambda>s.
       Inr (ax_write_reg rm cu (control_switch_register topo) val s))"

definition ax_acquire_reset :: "Constants \<Rightarrow> rank_map \<Rightarrow> nat \<Rightarrow> ax_state \<Rightarrow> ax_state" where
  "ax_acquire_reset topo rm cu s =
     ax_write_reg rm cu (exec_sls_register topo) SLS_DISABLE_VALUE (ax_write_reg rm cu (psum_poll_register topo) 0 s)"

text \<open>
  A round of the simulator thread of a unit. It does nothing as long as the host has not enabled
  the execution.
\<close>

definition ax_worker_round :: "add_op \<Rightarrow> Constants \<Rightarrow> rank_map \<Rightarrow> nat \<Rightarrow> ax_state \<Rightarrow> ax_state result" where
  "ax_worker_round fadd topo rm cu s =
     (if ax_read_reg rm cu (exec_sls_register topo) s \<noteq> SLS_ENABLE_VALUE then Inr s
      else bind_r (ax_exec_trace fadd topo rm cu s) (\<lambda>s.
             Inr (ax_write_reg rm cu (psum_poll_register topo) POLL_FINISH_VALUE
                   (ax_write_reg rm cu (exec_sls_register topo) SLS_DISABLE_VALUE s))))"

section \<open>The compute unit\<close>

definition ax_open :: "Constants \<Rightarrow> rank_map \<Rightarrow> nat \<Rightarrow> ax_state \<Rightarrow> ax_state result" where
  "ax_open topo rm cu s = ax_write_control_switch_register topo rm cu SLS_ENABLE_VALUE (ax_acquire_reset topo rm cu s)"

definition ax_close :: "Constants \<Rightarrow> rank_map \<Rightarrow> nat \<Rightarrow> int \<Rightarrow> ax_state \<Rightarrow> ax_state result" where
  "ax_close topo rm cu res s =
     bind_r (ax_write_control_switch_register topo rm cu SLS_DISABLE_VALUE s) (\<lambda>s. bind_r (release_cunit res) (\<lambda>_. Inr s))"

definition ax_run_async :: "Constants \<Rightarrow> rank_map \<Rightarrow> nat \<Rightarrow> ax_state \<Rightarrow> ax_state result" where
  "ax_run_async topo rm cu s = ax_write_exec_sls_register topo rm cu SLS_ENABLE_VALUE s"

definition ax_poll :: "Constants \<Rightarrow> rank_map \<Rightarrow> nat \<Rightarrow> PollType \<Rightarrow> ax_state \<Rightarrow> unit result" where
  "ax_poll topo rm cu type s =
     (case type of
        FINISH \<Rightarrow> if ax_read_reg rm cu (psum_poll_register topo) s = POLL_FINISH_VALUE then Inr () else Inl Blocked
      | _ \<Rightarrow> Inl (Throw NotSupported))"

text \<open>While the host waits, the simulator thread gets to finish its round.\<close>

definition ax_wait :: "add_op \<Rightarrow> Constants \<Rightarrow> rank_map \<Rightarrow> nat \<Rightarrow> ax_state \<Rightarrow> ax_state result" where
  "ax_wait fadd topo rm cu s =
     bind_r (ax_worker_round fadd topo rm cu s) (\<lambda>s. bind_r (ax_poll topo rm cu FINISH s) (\<lambda>_. Inr s))"

definition ax_run :: "add_op \<Rightarrow> Constants \<Rightarrow> rank_map \<Rightarrow> nat \<Rightarrow> ax_state \<Rightarrow> ax_state result" where
  "ax_run fadd topo rm cu s = bind_r (ax_run_async topo rm cu s) (ax_wait fadd topo rm cu)"

definition ax_read_buffer :: "Constants \<Rightarrow> rank_map \<Rightarrow> nat \<Rightarrow> BlockType \<Rightarrow> nat \<Rightarrow> ax_state \<Rightarrow> (u8 list \<times> ax_state) result" where
  "ax_read_buffer topo rm cu type n s =
     (case type of
        PSUM \<Rightarrow> ax_read_and_reset_psum topo rm cu n s
      | TAGS \<Rightarrow> ax_read_and_reset_tags topo rm cu n s
      | INST \<Rightarrow> Inl (Throw NotSupported))"

definition ax_write_buffer :: "Constants \<Rightarrow> rank_map \<Rightarrow> nat \<Rightarrow> BlockType \<Rightarrow> u8 list \<Rightarrow> ax_state \<Rightarrow> ax_state result" where
  "ax_write_buffer topo rm cu type bs s =
     (case type of INST \<Rightarrow> ax_write_block topo rm SLS_BLOCK_INST cu 0 bs s | _ \<Rightarrow> Inl (Throw NotSupported))"

section \<open>The runner\<close>

definition SINGLE_DOUBLE :: bool where "SINGLE_DOUBLE \<longleftrightarrow> True"

definition ax_wait_and_start :: "add_op \<Rightarrow> Constants \<Rightarrow> rank_map \<Rightarrow> nat \<Rightarrow> u64 list \<Rightarrow> ax_state \<Rightarrow> ax_state result" where
  "ax_wait_and_start fadd topo rm cu trace s =
     bind_r (if SINGLE_DOUBLE
             then bind_r (ax_wait fadd topo rm cu s) (ax_write_buffer topo rm cu INST (view_cast_bytes trace))
             else bind_r (ax_write_buffer topo rm cu INST (view_cast_bytes trace) s) (ax_wait fadd topo rm cu))
       (ax_run_async topo rm cu)"

definition ax_submit_instructions :: "add_op \<Rightarrow> Constants \<Rightarrow> rank_map \<Rightarrow> nat \<Rightarrow> nat \<Rightarrow> u64 list \<Rightarrow> ax_state \<Rightarrow> ax_state result" where
  "ax_submit_instructions fadd topo rm cu exec_id trace s =
     (if exec_id = 0
      then bind_r (ax_write_buffer topo rm cu INST (view_cast_bytes trace) s) (ax_run_async topo rm cu)
      else ax_wait_and_start fadd topo rm cu trace s)"

definition ax_dispatch_read_op ::
  "Constants \<Rightarrow> rank_map \<Rightarrow> nat \<Rightarrow> nat \<Rightarrow> u8 list \<Rightarrow> ax_state \<Rightarrow> (u8 list \<times> ax_state) result" where
  "ax_dispatch_read_op topo rm cu output_id dst s =
     (if output_id = 0 then ax_read_buffer topo rm cu PSUM (length dst) s
      else if output_id = 1 then bind_r (ax_read_buffer topo rm cu TAGS (length dst) s)
             (\<lambda>(bs, s). Inr (bs @ drop (length bs) dst, s))
      else Inl (Throw NotSupported))"

primrec ax_read_outputs ::
  "nat list \<Rightarrow> Constants \<Rightarrow> rank_map \<Rightarrow> SparseReduction \<Rightarrow> nat \<Rightarrow> nat \<Rightarrow> nat \<Rightarrow> u8 list \<Rightarrow> ax_state \<times> u8 list \<Rightarrow>
   (ax_state \<times> u8 list) result" where
  "ax_read_outputs [] topo rm sr cu pack exec_id buf x = Inr x"
| "ax_read_outputs (output_id # ids) topo rm sr cu pack exec_id buf x =
     bind_r (ax_dispatch_read_op topo rm cu output_id buf (fst x)) (\<lambda>(buf, s).
     bind_r (write_result topo sr output_id pack exec_id buf (snd x)) (\<lambda>out.
       ax_read_outputs ids topo rm sr cu pack exec_id buf (s, out)))"

definition ax_read_output_buffers ::
  "Constants \<Rightarrow> rank_map \<Rightarrow> SparseReduction \<Rightarrow> nat \<Rightarrow> nat \<Rightarrow> nat \<Rightarrow> ax_state \<times> u8 list \<Rightarrow> (ax_state \<times> u8 list) result" where
  "ax_read_output_buffers topo rm sr cu pack exec_id x =
     bind_r (get_tmp_buffer_size sr pack exec_id) (\<lambda>n.
       ax_read_outputs [0..<get_num_outputs sr] topo rm sr cu pack exec_id (replicate n 0) x)"

text \<open>The device may finish the trace that has just been started before the host goes on.\<close>

definition ax_overlap :: "bool \<Rightarrow> add_op \<Rightarrow> Constants \<Rightarrow> rank_map \<Rightarrow> nat \<Rightarrow> ax_state \<Rightarrow> ax_state result" where
  "ax_overlap early fadd topo rm cu s = (if early then ax_worker_round fadd topo rm cu s else Inr s)"

primrec ax_run_execs ::
  "nat list \<Rightarrow> (nat \<Rightarrow> bool) \<Rightarrow> add_op \<Rightarrow> Constants \<Rightarrow> rank_map \<Rightarrow> SparseReduction \<Rightarrow> nat \<Rightarrow> nat \<Rightarrow> ax_state \<times> u8 list \<Rightarrow>
   (ax_state \<times> u8 list) result" where
  "ax_run_execs [] early fadd topo rm sr pack cu x = Inr x"
| "ax_run_execs (i # is') early fadd topo rm sr pack cu x =
     bind_r (op_generate_instructions ranked_decode_address sr pack cu i) (\<lambda>traces.
     bind_r (ax_submit_instructions fadd topo rm cu i traces (fst x)) (\<lambda>s.
     bind_r (ax_overlap (early i) fadd topo rm cu s) (\<lambda>s.
     bind_r (if 0 < i then ax_read_output_buffers topo rm sr cu pack (i - 1) (s, snd x) else Inr (s, snd x))
       (ax_run_execs is' early fadd topo rm sr pack cu))))"

text \<open>The number of executions and the number of the last one have 32 bits.\<close>

definition ax_run_on_pack ::
  "(nat \<Rightarrow> bool) \<Rightarrow> add_op \<Rightarrow> Constants \<Rightarrow> rank_map \<Rightarrow> SparseReduction \<Rightarrow> nat \<Rightarrow> nat \<Rightarrow> int \<Rightarrow> ax_state \<times> u8 list \<Rightarrow>
   (ax_state \<times> u8 list) result" where
  "ax_run_on_pack early fadd topo rm sr pack cu res x =
     (if \<not> bit pack cu then Inl Blocked
      else let num_execs = get_num_exec_iterations sr pack mod 2 ^ 32 in
       bind_r (ax_open topo rm cu (fst x)) (\<lambda>s.
       bind_r (ax_run_execs [0..<num_execs] early fadd topo rm sr pack cu (s, snd x)) (\<lambda>(s, out).
       bind_r (ax_wait_and_start fadd topo rm cu dummy_inst s) (\<lambda>s.
       bind_r (ax_overlap (early num_execs) fadd topo rm cu s) (\<lambda>s.
       bind_r (ax_read_output_buffers topo rm sr cu pack ((num_execs + 2 ^ 32 - 1) mod 2 ^ 32) (s, out)) (\<lambda>(s, out).
       bind_r (ax_wait fadd topo rm cu s) (\<lambda>s.
       bind_r (ax_close topo rm cu res s) (\<lambda>s. Inr (s, out)))))))))"

primrec ax_run_operation ::
  "(nat \<times> nat \<times> int \<times> (nat \<Rightarrow> bool)) list \<Rightarrow> add_op \<Rightarrow> Constants \<Rightarrow> rank_map \<Rightarrow> SparseReduction \<Rightarrow> ax_state \<times> u8 list \<Rightarrow>
   (ax_state \<times> u8 list) result" where
  "ax_run_operation [] fadd topo rm sr x = Inr x"
| "ax_run_operation (j # js) fadd topo rm sr x =
     (case j of (pack, cu, res, early) \<Rightarrow>
        bind_r (ax_run_on_pack early fadd topo rm sr pack cu res x) (ax_run_operation js fadd topo rm sr))"

section \<open>Specification\<close>

abbreviation uv :: "rank_map \<Rightarrow> nat \<Rightarrow> ax_state \<Rightarrow> memAddr" where
  "uv rm cu s \<equiv> unit_view rm (fst s) cu"

abbreviation uc :: "nat \<Rightarrow> ax_state \<Rightarrow> UnitBuffers" where
  "uc cu s \<equiv> unit_core (snd s) cu"

text \<open>
  A unit at work: the host reads buffer \<open>r\<close>, the device writes buffer \<open>w\<close>. A buffer holds the bytes
  of a finished execution, or, after the dummy trace, something that clearing removes.
\<close>

definition running :: "Constants \<Rightarrow> nat \<Rightarrow> ax_state \<Rightarrow> nat \<Rightarrow> nat \<Rightarrow> bool" where
  "running topo cu s r w \<longleftrightarrow> core_shape topo (snd s) \<and> tags_bounded topo (uc cu s) \<and> ub_idx (uc cu s) = [r, w] \<and> {r, w} = {0, 1}"

definition holds :: "Constants \<Rightarrow> memAddr \<Rightarrow> UnitBuffers \<Rightarrow> nat \<Rightarrow> u8 list \<Rightarrow> bool" where
  "holds topo ma ub k bs \<longleftrightarrow> ub_min ub ! k = 0 \<and> ub_max ub ! k = length bs \<and> 0 < length bs \<and> length bs \<le> DUMMY_ROW \<and>
     read_bytes (blk ma SLS_BLOCK_PSUM) (psum_single_buf_size topo * k) (length bs) = bs \<and> buf_zero topo ma k (length bs)"

definition result :: "Constants \<Rightarrow> memAddr \<Rightarrow> UnitBuffers \<Rightarrow> nat \<Rightarrow> u8 list option \<Rightarrow> bool" where
  "result topo ma ub k c \<longleftrightarrow> (case c of None \<Rightarrow> clearable topo ma ub k | Some bs \<Rightarrow> holds topo ma ub k bs)"

definition same_buf :: "Constants \<Rightarrow> rank_map \<Rightarrow> nat \<Rightarrow> ax_state \<Rightarrow> ax_state \<Rightarrow> nat \<Rightarrow> bool" where
  "same_buf topo rm cu s s' k \<longleftrightarrow> ub_min (uc cu s') ! k = ub_min (uc cu s) ! k \<and> ub_max (uc cu s') ! k = ub_max (uc cu s) ! k \<and>
     (\<forall>x. psum_single_buf_size topo * k \<le> x \<and> x < psum_single_buf_size topo * k + psum_single_buf_size topo \<longrightarrow>
        blk (uv rm cu s') SLS_BLOCK_PSUM x = blk (uv rm cu s) SLS_BLOCK_PSUM x)"

text \<open>
  A trace gives a result when, from tables \<open>B\<close> and a clean buffer, executing it leaves the result in
  the buffer and does not touch the other one.
\<close>

definition gives :: "add_op \<Rightarrow> Constants \<Rightarrow> rank_map \<Rightarrow> nat \<Rightarrow> bmem \<Rightarrow> u64 list \<Rightarrow> u8 list option \<Rightarrow> bool" where
  "gives fadd topo rm cu B tr c \<longleftrightarrow> (\<forall>s r w. running topo cu s r w \<and> blk (uv rm cu s) SLS_BLOCK_BASE = B \<and>
     inst_at (uv rm cu s) 0 tr \<and> clean topo (uv rm cu s) (uc cu s) w \<longrightarrow>
     (\<exists>s'. ax_exec_trace fadd topo rm cu s = Inr s' \<and> moves topo rm cu s s' \<and> keeps rm cu s s' \<and> running topo cu s' r w \<and>
        same_buf topo rm cu s s' r \<and> result topo (uv rm cu s') (uc cu s') w c \<and>
        (\<forall>reg. 4 dvd reg \<and> reg \<noteq> RegPolling topo + 8 \<longrightarrow> get_reg reg (uv rm cu s') = get_reg reg (uv rm cu s))))"

text \<open>The trace in the instruction buffer is still to be executed, or its result is there.\<close>

definition done_with :: "Constants \<Rightarrow> rank_map \<Rightarrow> nat \<Rightarrow> ax_state \<Rightarrow> nat \<Rightarrow> u8 list option \<Rightarrow> bool" where
  "done_with topo rm cu s w c \<longleftrightarrow> get_reg (exec_sls_register topo) (uv rm cu s) \<noteq> SLS_ENABLE_VALUE \<and>
     get_reg (psum_poll_register topo) (uv rm cu s) = POLL_FINISH_VALUE \<and> result topo (uv rm cu s) (uc cu s) w c"

definition due :: "Constants \<Rightarrow> rank_map \<Rightarrow> nat \<Rightarrow> ax_state \<Rightarrow> nat \<Rightarrow> u64 list \<Rightarrow> u8 list option \<Rightarrow> bool" where
  "due topo rm cu s w tr c \<longleftrightarrow> done_with topo rm cu s w c \<or>
     get_reg (exec_sls_register topo) (uv rm cu s) = SLS_ENABLE_VALUE \<and> inst_at (uv rm cu s) 0 tr \<and> clean topo (uv rm cu s) (uc cu s) w"

text \<open>The steps keep a unit at work, its tables and the trace.\<close>

definition steps_on :: "Constants \<Rightarrow> rank_map \<Rightarrow> nat \<Rightarrow> nat \<Rightarrow> nat \<Rightarrow> ax_state \<Rightarrow> ax_state \<Rightarrow> bool" where
  "steps_on topo rm cu r w s s' \<longleftrightarrow> moves topo rm cu s s' \<and> keeps rm cu s s' \<and> running topo cu s' r w"

text \<open>What is needed of a trace for the simulator to run it to its end.\<close>

definition trace_ok :: "Constants \<Rightarrow> RankBlocks \<Rightarrow> nat \<Rightarrow> u32 \<Rightarrow> u64 \<Rightarrow> u64 list \<Rightarrow> bool" where
  "trace_ok topo rb bpi op h ws \<longleftrightarrow> op \<in> {0, 2, 3} \<and> bpi dvd psum_single_buf_size topo \<and> 4 dvd bpi \<and> 0 < bpi \<and>
     read_header h = Inr \<lparr>mode_bytes_per_idx = bpi, mode_is_tagged = False\<rparr> \<and> ws \<noteq> [] \<and> Suc (length ws) \<le> inst_per_single_buf topo \<and>
     (\<forall>w \<in> set ws. opcode (decode_instruction w) = op) \<and>
     map (\<lambda>w. trace_end (decode_instruction w)) ws = replicate (length ws - 1) 0 @ [1] \<and>
     (\<forall>(out, a) \<in> set (map rank_lookup ws). unat a + bpi \<le> rb_size rb SLS_BLOCK_BASE \<and> 4 dvd unat a \<and> out * bpi + bpi \<le> psum_single_buf_size topo)"

text \<open>
  The requests the pipelined runner serves: every pair has lookups, the number of executions fits its
  variable, and no execution has more sums than fit in front of the row of the dummy instruction.
\<close>

definition pipelined :: "Constants \<Rightarrow> SlsOperation \<Rightarrow> SparseReduction \<Rightarrow> nat \<Rightarrow> bool" where
  "pipelined topo op sr p \<longleftrightarrow> (\<forall>l \<in> set (lengths op). 0 < l) \<and> get_num_exec_iterations sr p < 2 ^ 32 \<and>
     (\<forall>i < get_num_exec_iterations sr p. length (exec_slots_of op sr p i) * (sparse_feature_size op * DataSize topo) \<le> DUMMY_ROW)"

text \<open>
  What a run of a pack on a unit rests on, and the state of the unit before execution \<open>i\<close>: the buffer
  the host reads is clean, the other one has, or will have, the sums of the execution before.
\<close>

definition pack_ready ::
  "add_op \<Rightarrow> Constants \<Rightarrow> rank_map \<Rightarrow> SlsOperation \<Rightarrow> u32 list list list \<Rightarrow> SparseReduction \<Rightarrow> nat \<Rightarrow> nat \<Rightarrow> ax_state \<Rightarrow> bool" where
  "pack_ready fadd topo rm op tables sr p cu s \<longleftrightarrow> ax_ok topo rm \<and> DUMMY_ROW + 64 \<le> psum_single_buf_size topo \<and> cu < length rm \<and>
     64 \<le> rb_size (rm ! cu) SLS_BLOCK_BASE \<and> 2 \<le> inst_per_single_buf topo \<and> 16 * 8 \<le> rb_size (rm ! cu) SLS_BLOCK_INST \<and>
     ready topo op tables sr p \<and> pipelined topo op sr p \<and> loaded topo op tables cu (tables_objects op ! p) (uv rm cu s) \<and>
     (\<forall>x y. fadd x y = fadd y x)"

definition exec_trace_of :: "SparseReduction \<Rightarrow> nat \<Rightarrow> nat \<Rightarrow> nat \<Rightarrow> u64 list" where
  "exec_trace_of sr p cu i = projr (op_generate_instructions ranked_decode_address sr p cu i)"

definition exec_bytes :: "add_op \<Rightarrow> SlsOperation \<Rightarrow> u32 list list list \<Rightarrow> SparseReduction \<Rightarrow> nat \<Rightarrow> nat \<Rightarrow> u8 list" where
  "exec_bytes fadd op tables sr p i = concat (map (new_row fadd op tables) (exec_slots_of op sr p i))"

definition before_exec ::
  "add_op \<Rightarrow> Constants \<Rightarrow> rank_map \<Rightarrow> SlsOperation \<Rightarrow> u32 list list list \<Rightarrow> SparseReduction \<Rightarrow> nat \<Rightarrow> nat \<Rightarrow> nat \<Rightarrow> ax_state \<Rightarrow> bool" where
  "before_exec fadd topo rm op tables sr p cu i s \<longleftrightarrow> (\<exists>r w. running topo cu s r w \<and> clean topo (uv rm cu s) (uc cu s) r \<and>
     (if i = 0 then clean topo (uv rm cu s) (uc cu s) w
      else due topo rm cu s w (exec_trace_of sr p cu (i - 1)) (Some (exec_bytes fadd op tables sr p (i - 1)))))"

definition slots_before :: "SlsOperation \<Rightarrow> SparseReduction \<Rightarrow> nat \<Rightarrow> nat \<Rightarrow> nat set" where
  "slots_before op sr p i = (\<Union>j < i. set (exec_slots_of op sr p j))"

text \<open>A step of a schedule: a pack, one of its units, the driver's answer, and when the device finishes its traces.\<close>

definition rank_ready ::
  "Constants \<Rightarrow> rank_map \<Rightarrow> SlsOperation \<Rightarrow> u32 list list list \<Rightarrow> SparseReduction \<Rightarrow> ax_state \<Rightarrow> nat \<times> nat \<times> int \<times> (nat \<Rightarrow> bool) \<Rightarrow> bool" where
  "rank_ready topo rm op tables sr s x = (case x of (p, cu, res, early) \<Rightarrow> bit p cu \<and> cu < length rm \<and> 0 \<le> res \<and>
     64 \<le> rb_size (rm ! cu) SLS_BLOCK_BASE \<and> 16 * 8 \<le> rb_size (rm ! cu) SLS_BLOCK_INST \<and> pipelined topo op sr p \<and>
     loaded topo op tables cu (tables_objects op ! p) (uv rm cu s) \<and> idle topo rm cu s)"

text \<open>Operations leave the units idle and the tables as they were.\<close>

definition rests :: "Constants \<Rightarrow> rank_map \<Rightarrow> ax_state \<Rightarrow> ax_state \<Rightarrow> bool" where
  "rests topo rm s s' \<longleftrightarrow> (\<forall>cu < length rm. (idle topo rm cu s \<longrightarrow> idle topo rm cu s') \<and>
     blk (uv rm cu s') SLS_BLOCK_BASE = blk (uv rm cu s) SLS_BLOCK_BASE)"

section \<open>Steps of the host and of the device\<close>

lemma same_buf_cong:
  assumes "same_buf topo rm cu s s' k" "DUMMY_ROW \<le> psum_single_buf_size topo"
  shows "clean topo (uv rm cu s') (uc cu s') k = clean topo (uv rm cu s) (uc cu s) k"
    "result topo (uv rm cu s') (uc cu s') k c = result topo (uv rm cu s) (uc cu s) k c"
proof -
  have b: "psum_single_buf_size topo * k \<le> x \<Longrightarrow> x < psum_single_buf_size topo * k + DUMMY_ROW \<Longrightarrow>
      blk (uv rm cu s') SLS_BLOCK_PSUM x = blk (uv rm cu s) SLS_BLOCK_PSUM x" for x
    using assms by (simp add: same_buf_def)
  note cc = clean_cong [OF b, where ub' = "uc cu s'" and ub = "uc cu s"]
  show "clean topo (uv rm cu s') (uc cu s') k = clean topo (uv rm cu s) (uc cu s) k" using cc(1) assms(1) by (simp add: same_buf_def)
  have "holds topo (uv rm cu s') (uc cu s') k bs = holds topo (uv rm cu s) (uc cu s) k bs" for bs
  proof -
    have "length bs \<le> DUMMY_ROW \<Longrightarrow> read_bytes (blk (uv rm cu s') SLS_BLOCK_PSUM) (psum_single_buf_size topo * k) (length bs) =
        read_bytes (blk (uv rm cu s) SLS_BLOCK_PSUM) (psum_single_buf_size topo * k) (length bs)"
      using b by (intro nth_equalityI) (auto simp: read_bytes_def)
    then show ?thesis using buf_zero_cong [OF b] assms(1) by (auto simp: holds_def same_buf_def)
  qed
  then show "result topo (uv rm cu s') (uc cu s') k c = result topo (uv rm cu s) (uc cu s) k c"
    using cc(2) assms(1) by (auto simp: result_def same_buf_def split: option.splits)
qed

lemma same_buf_trans: "same_buf topo rm cu s s1 k \<Longrightarrow> same_buf topo rm cu s1 s2 k \<Longrightarrow> same_buf topo rm cu s s2 k"
  by (simp add: same_buf_def)

lemma keeps_trans: "keeps rm cu s s1 \<Longrightarrow> keeps rm cu s1 s2 \<Longrightarrow> keeps rm cu s s2"
  by (simp add: keeps_def)

lemma uv_size [simp]: "blk_size (uv rm cu s) = rb_size (rm ! cu)"
  by (simp add: unit_view_def)

lemma ax_regs:
  assumes "ax_ok topo rm" "cu < length rm" "reg \<in> {psum_poll_register topo, exec_sls_register topo, control_switch_register topo}"
  shows "4 dvd reg" "reg + 4 \<le> rb_size (rm ! cu) SLS_BLOCK_CFGR" "reg < 2 ^ 63" "reg mod 256 + 4 \<le> 256"
proof -
  show d: "4 dvd reg" and l: "reg + 4 \<le> rb_size (rm ! cu) SLS_BLOCK_CFGR"
    using assms by (auto simp: ax_ok_def psum_poll_register_def exec_sls_register_def control_switch_register_def)
  have "rb_size (rm ! cu) SLS_BLOCK_CFGR \<le> 2 ^ 62" using assms(1,2) by (simp add: ax_ok_def map_ok_def)
  then show "reg < 2 ^ 63" using l by simp
  show "reg mod 256 + 4 \<le> 256" using d by (rule stripe4)
qed

lemma ax_read_reg_eq:
  assumes "ax_ok topo rm" "cu < length rm" "reg \<in> {psum_poll_register topo, exec_sls_register topo, control_switch_register topo}"
  shows "ax_read_reg rm cu reg s = get_reg reg (uv rm cu s)"
  using unit_load [OF ax_regs(2,3,4) [OF assms]] unfolding ax_read_reg_def get_block_ptr_def get_reg_def .

lemma ax_write_reg_step:
  assumes "ax_ok topo rm" "cu < length rm" "reg \<in> {psum_poll_register topo, exec_sls_register topo, control_switch_register topo}"
    "core_shape topo (snd s)"
  shows "moves topo rm cu s (ax_write_reg rm cu reg v s)" "uv rm cu (ax_write_reg rm cu reg v s) = set_reg reg v (uv rm cu s)"
    "snd (ax_write_reg rm cu reg v s) = snd s"
proof -
  have "map_ok rm" using assms(1) by (simp add: ax_ok_def)
  note st = unit_store [OF this assms(2) _ ax_regs(2,4) [OF assms(1-3)], of _ "fst s" v]
  show "moves topo rm cu s (ax_write_reg rm cu reg v s)" "uv rm cu (ax_write_reg rm cu reg v s) = set_reg reg v (uv rm cu s)"
    "snd (ax_write_reg rm cu reg v s) = snd s"
    using st assms(2,4) by (simp_all add: moves_def ax_write_reg_def get_block_ptr_def set_reg_def)
qed

lemma reg_distinct:
  assumes "ax_ok topo rm"
  shows "get_reg (exec_sls_register topo) (set_reg (psum_poll_register topo) v ma) = get_reg (exec_sls_register topo) ma"
    "get_reg (psum_poll_register topo) (set_reg (exec_sls_register topo) v ma) = get_reg (psum_poll_register topo) ma"
proof -
  have "4 dvd exec_sls_register topo" "4 dvd psum_poll_register topo" "exec_sls_register topo \<noteq> psum_poll_register topo"
    using assms by (auto simp: ax_ok_def exec_sls_register_def psum_poll_register_def)
  then have "exec_sls_register topo + 4 \<le> psum_poll_register topo \<or> psum_poll_register topo + 4 \<le> exec_sls_register topo" by presburger
  then show "get_reg (exec_sls_register topo) (set_reg (psum_poll_register topo) v ma) = get_reg (exec_sls_register topo) ma"
    "get_reg (psum_poll_register topo) (set_reg (exec_sls_register topo) v ma) = get_reg (psum_poll_register topo) ma" by auto
qed

lemma steps_on_trans: "steps_on topo rm cu r w s s1 \<Longrightarrow> steps_on topo rm cu r' w' s1 s2 \<Longrightarrow> steps_on topo rm cu r' w' s s2"
  unfolding steps_on_def by (blast intro: moves_trans keeps_trans)

lemma running_swap: "running topo cu s r w \<Longrightarrow> r < 2 \<and> w < 2 \<and> r \<noteq> w"
  by (auto simp: running_def doubleton_eq_iff)

lemma write_reg_steps:
  assumes "ax_ok topo rm" "cu < length rm" "running topo cu s r w"
    "reg \<in> {psum_poll_register topo, exec_sls_register topo, control_switch_register topo}"
  shows "steps_on topo rm cu r w s (ax_write_reg rm cu reg v s)" "same_buf topo rm cu s (ax_write_reg rm cu reg v s) k"
proof -
  have "core_shape topo (snd s)" using assms(3) by (simp add: running_def)
  note st = ax_write_reg_step [OF assms(1,2,4) this, of v]
  show "steps_on topo rm cu r w s (ax_write_reg rm cu reg v s)" "same_buf topo rm cu s (ax_write_reg rm cu reg v s) k"
    using st assms(3) by (simp_all add: steps_on_def keeps_def running_def same_buf_def)
qed

lemma worker_due:
  assumes ok: "ax_ok topo rm" "DUMMY_ROW \<le> psum_single_buf_size topo" "cu < length rm" and run: "running topo cu s r w"
    and g: "gives fadd topo rm cu (blk (uv rm cu s) SLS_BLOCK_BASE) tr c" and due: "due topo rm cu s w tr c"
  obtains s' where "ax_worker_round fadd topo rm cu s = Inr s'" "steps_on topo rm cu r w s s'" "same_buf topo rm cu s s' r" "done_with topo rm cu s' w c"
proof (cases "get_reg (exec_sls_register topo) (uv rm cu s) = SLS_ENABLE_VALUE")
  case False
  then have "ax_worker_round fadd topo rm cu s = Inr s" by (simp add: ax_worker_round_def ax_read_reg_eq [OF ok(1,3)])
  moreover have "steps_on topo rm cu r w s s" using run by (simp add: steps_on_def keeps_def moves_refl running_def)
  ultimately show ?thesis using that due False by (simp add: due_def same_buf_def)
next
  case True
  then have "inst_at (uv rm cu s) 0 tr" "clean topo (uv rm cu s) (uc cu s) w" using due by (simp_all add: due_def done_with_def)
  then obtain s1 where s1: "ax_exec_trace fadd topo rm cu s = Inr s1" "steps_on topo rm cu r w s s1"
    "same_buf topo rm cu s s1 r" "result topo (uv rm cu s1) (uc cu s1) w c"
    using g run unfolding gives_def steps_on_def by blast
  let ?e = "exec_sls_register topo" and ?p = "psum_poll_register topo"
  let ?s2 = "ax_write_reg rm cu ?e SLS_DISABLE_VALUE s1" let ?s3 = "ax_write_reg rm cu ?p POLL_FINISH_VALUE ?s2"
  have r1: "running topo cu s1 r w" using s1(2) by (simp add: steps_on_def)
  have s2: "steps_on topo rm cu r w s1 ?s2" "\<And>k. same_buf topo rm cu s1 ?s2 k" by (rule write_reg_steps [OF ok(1,3) r1]; simp)+
  then have r2: "running topo cu ?s2 r w" by (simp add: steps_on_def)
  have s3: "steps_on topo rm cu r w ?s2 ?s3" "\<And>k. same_buf topo rm cu ?s2 ?s3 k" by (rule write_reg_steps [OF ok(1,3) r2]; simp)+
  have cs: "core_shape topo (snd s1)" "core_shape topo (snd ?s2)" using r1 r2 by (simp_all add: running_def)
  have v: "uv rm cu ?s2 = set_reg ?e SLS_DISABLE_VALUE (uv rm cu s1)" "uv rm cu ?s3 = set_reg ?p POLL_FINISH_VALUE (uv rm cu ?s2)"
    by (rule ax_write_reg_step [OF ok(1,3)]; simp add: cs)+
  have sb: "same_buf topo rm cu s1 ?s3 k" for k using s2(2) s3(2) by (rule same_buf_trans)
  have "get_reg ?e (uv rm cu ?s3) = SLS_DISABLE_VALUE" "get_reg ?p (uv rm cu ?s3) = POLL_FINISH_VALUE"
    unfolding v by (simp_all add: reg_distinct [OF ok(1)])
  then have "done_with topo rm cu ?s3 w c"
    using s1(4) same_buf_cong(2) [OF sb ok(2)] unfolding done_with_def by (simp add: SLS_ENABLE_VALUE_def SLS_DISABLE_VALUE_def)
  moreover have "ax_worker_round fadd topo rm cu s = Inr ?s3" using True s1(1) by (simp add: ax_worker_round_def ax_read_reg_eq [OF ok(1,3)])
  moreover have "steps_on topo rm cu r w s ?s3" using s1(2) s2(1) s3(1) by (blast intro: steps_on_trans)
  moreover have "same_buf topo rm cu s ?s3 r" using s1(3) sb by (rule same_buf_trans)
  ultimately show ?thesis by (rule that [rotated -1])
qed

lemma wait_due:
  assumes "ax_ok topo rm" "DUMMY_ROW \<le> psum_single_buf_size topo" "cu < length rm" "running topo cu s r w"
    "gives fadd topo rm cu (blk (uv rm cu s) SLS_BLOCK_BASE) tr c" "due topo rm cu s w tr c"
  obtains s' where "ax_wait fadd topo rm cu s = Inr s'" "steps_on topo rm cu r w s s'" "same_buf topo rm cu s s' r" "done_with topo rm cu s' w c"
proof -
  obtain s' where s': "ax_worker_round fadd topo rm cu s = Inr s'" "steps_on topo rm cu r w s s'" "same_buf topo rm cu s s' r" "done_with topo rm cu s' w c"
    using worker_due [OF assms] by blast
  then show ?thesis using that by (simp add: ax_wait_def ax_poll_def ax_read_reg_eq [OF assms(1,3)] done_with_def)
qed

lemma overlap_due:
  assumes "ax_ok topo rm" "DUMMY_ROW \<le> psum_single_buf_size topo" "cu < length rm" "running topo cu s r w"
    "gives fadd topo rm cu (blk (uv rm cu s) SLS_BLOCK_BASE) tr c" "due topo rm cu s w tr c"
  obtains s' where "ax_overlap early fadd topo rm cu s = Inr s'" "steps_on topo rm cu r w s s'" "same_buf topo rm cu s s' r" "due topo rm cu s' w tr c"
proof (cases early)
  case True
  then show ?thesis using worker_due [OF assms] that unfolding ax_overlap_def due_def by (metis (full_types))
next
  case False
  moreover have "steps_on topo rm cu r w s s" using assms(4) by (simp add: steps_on_def keeps_def moves_refl running_def)
  ultimately show ?thesis using that assms(6) by (simp add: ax_overlap_def same_buf_def)
qed

lemma write_inst_step:
  assumes "ax_ok topo rm" "cu < length rm" "running topo cu s r w" "8 * length tr \<le> rb_size (rm ! cu) SLS_BLOCK_INST"
  obtains s' where "ax_write_buffer topo rm cu INST (view_cast_bytes tr) s = Inr s'" "moves topo rm cu s s'" "running topo cu s' r w"
    "snd s' = snd s" "\<And>b. b \<noteq> SLS_BLOCK_INST \<Longrightarrow> blk (uv rm cu s') b = blk (uv rm cu s) b" "inst_at (uv rm cu s') 0 tr"
proof -
  let ?p = "at_block rm cu SLS_BLOCK_INST 0" and ?bs = "view_cast_bytes tr"
  let ?m = "rank_write (fst s) ?p ?bs"
  have N: "cu < NumOfCUnits topo" "map_ok rm" using assms(1,2) by (simp_all add: ax_ok_def)
  have e: "ax_write_buffer topo rm cu INST ?bs s = Inr (?m, snd s)"
    using N(1) memcpy_to_eq [of ?p "length ?bs" ?bs "fst s"]
    by (simp add: ax_write_buffer_def ax_write_block_def RankedBlockWriter_def ip_add_0)
  have v: "unit_view rm ?m c = (if c = cu then set_blk SLS_BLOCK_INST (write_bytes (blk (uv rm cu s) SLS_BLOCK_INST) 0 ?bs) (uv rm cu s) else unit_view rm (fst s) c)"
    if "c < length rm" for c using assms(4) by (intro unit_write [OF N(2) assms(2) that]) simp
  have "inst_at (unit_view rm ?m cu) 0 tr"
  proof (rule inst_atI)
    fix k assume "k < length tr"
    then show "load_le 8 (blk (unit_view rm ?m cu) SLS_BLOCK_INST) (8 * (0 + k)) = tr ! k"
      using load_write_word [of 8 k tr "blk (uv rm cu s) SLS_BLOCK_INST" 0] unfolding v [OF assms(2)] by (simp add: view_cast_bytes_def)
  qed (use assms(4) in \<open>simp add: unit_view_def\<close>)
  then show ?thesis using that [OF e] assms(2,3) v by (simp add: moves_def running_def)
qed

lemma run_async_step:
  assumes ok: "ax_ok topo rm" "cu < length rm" and run: "running topo cu s r w"
  obtains s' where "ax_run_async topo rm cu s = Inr s'" "steps_on topo rm cu w r s s'" "\<And>k. same_buf topo rm cu s s' k"
    "get_reg (exec_sls_register topo) (uv rm cu s') = SLS_ENABLE_VALUE"
proof -
  let ?e = "exec_sls_register topo" and ?p = "psum_poll_register topo"
  have t: "cu < NumOfCUnits topo" "NumOfPSumBuf topo = 2" "NumOfPSumBuf topo \<le> 256" "NumOfTagsBuf topo \<le> 256" using ok by (simp_all add: ax_ok_def)
  have cs: "core_shape topo (snd s)" and rw: "ub_idx (uc cu s) = [r, w]" "{r, w} = {0, 1}" using run by (simp_all add: running_def)
  obtain core where c: "ax_shift_buffers topo cu (snd s) = Inr core" "core_shape topo core"
    "unit_core core cu = (uc cu s)\<lparr>ub_idx := map (\<lambda>i. (i + 1) mod 2) (ub_idx (uc cu s)),
       ub_tags_idx := map (\<lambda>i. (i + 1) mod NumOfTagsBuf topo) (ub_tags_idx (uc cu s))\<rparr>"
    "\<And>cu'. cu' \<noteq> cu \<Longrightarrow> unit_core core cu' = unit_core (snd s) cu'"
    using ax_shift_correct [OF cs t(1,3,4)] unfolding t(2) by blast
  let ?s1 = "(fst s, core)" let ?s2 = "ax_write_reg rm cu ?p 0 ?s1" let ?s3 = "ax_write_reg rm cu ?e SLS_ENABLE_VALUE ?s2"
  have "map (\<lambda>i. (i + 1) mod 2) [r, w] = [w, r]" using rw(2) by (auto simp: doubleton_eq_iff)
  then have r1: "running topo cu ?s1 w r" using run c(2,3) by (simp add: running_def tags_bounded_def insert_commute)
  have s1: "steps_on topo rm cu w r s ?s1" "same_buf topo rm cu s ?s1 k" for k
    using r1 c by (simp_all add: steps_on_def moves_def keeps_def same_buf_def)
  have s2: "steps_on topo rm cu w r ?s1 ?s2" "\<And>k. same_buf topo rm cu ?s1 ?s2 k" by (rule write_reg_steps [OF ok r1]; simp)+
  then have r2: "running topo cu ?s2 w r" by (simp add: steps_on_def)
  have s3: "steps_on topo rm cu w r ?s2 ?s3" "\<And>k. same_buf topo rm cu ?s2 ?s3 k" by (rule write_reg_steps [OF ok r2]; simp)+
  have "uv rm cu ?s3 = set_reg ?e SLS_ENABLE_VALUE (uv rm cu ?s2)" using r2 by (intro ax_write_reg_step [OF ok]) (simp_all add: running_def)
  moreover have "ax_run_async topo rm cu s = Inr ?s3" using c(1) by (simp add: ax_run_async_def ax_write_exec_sls_register_def Let_def)
  moreover have "steps_on topo rm cu w r s ?s3" using s1(1) s2(1) s3(1) by (blast intro: steps_on_trans)
  moreover have "same_buf topo rm cu s ?s3 k" for k using s1(2) s2(2) s3(2) by (blast intro: same_buf_trans)
  ultimately show ?thesis using that by simp
qed

text \<open>Starting a trace swaps the buffers: the host reads the one the device has just written.\<close>

lemma start_step:
  assumes ok: "ax_ok topo rm" "DUMMY_ROW \<le> psum_single_buf_size topo" "cu < length rm" and run: "running topo cu s r w"
    and r: "clean topo (uv rm cu s) (uc cu s) r" and fit: "8 * length tr \<le> rb_size (rm ! cu) SLS_BLOCK_INST"
  obtains s' where "bind_r (ax_write_buffer topo rm cu INST (view_cast_bytes tr) s) (ax_run_async topo rm cu) = Inr s'"
    "moves topo rm cu s s'" "running topo cu s' w r" "blk (uv rm cu s') SLS_BLOCK_BASE = blk (uv rm cu s) SLS_BLOCK_BASE"
    "same_buf topo rm cu s s' w" "due topo rm cu s' r tr c"
proof -
  obtain s1 where s1: "ax_write_buffer topo rm cu INST (view_cast_bytes tr) s = Inr s1" "moves topo rm cu s s1" "running topo cu s1 r w"
    "snd s1 = snd s" "\<And>b. b \<noteq> SLS_BLOCK_INST \<Longrightarrow> blk (uv rm cu s1) b = blk (uv rm cu s) b" "inst_at (uv rm cu s1) 0 tr"
    using write_inst_step [OF ok(1,3) run fit] by blast
  have b1: "same_buf topo rm cu s s1 k" for k using s1(4,5) by (simp add: same_buf_def)
  obtain s2 where s2: "ax_run_async topo rm cu s1 = Inr s2" "steps_on topo rm cu w r s1 s2" "\<And>k. same_buf topo rm cu s1 s2 k"
    "get_reg (exec_sls_register topo) (uv rm cu s2) = SLS_ENABLE_VALUE" using run_async_step [OF ok(1,3) s1(3)] by blast
  have b2: "same_buf topo rm cu s s2 k" for k using b1 s2(3) by (rule same_buf_trans)
  have i2: "inst_at (uv rm cu s2) 0 tr"
    using s1(6) s2(2) by (subst inst_at_cong [of _ "uv rm cu s1"]) (simp_all add: steps_on_def keeps_def)
  have "due topo rm cu s2 r tr c" using r i2 s2(4) same_buf_cong(1) [OF b2 ok(2)] by (simp add: due_def)
  moreover have "moves topo rm cu s s2" "running topo cu s2 w r" using s1(2) s2(2) by (auto simp: steps_on_def intro: moves_trans)
  moreover have "blk (uv rm cu s2) SLS_BLOCK_BASE = blk (uv rm cu s) SLS_BLOCK_BASE" using s1(5) s2(2) by (simp add: steps_on_def keeps_def)
  ultimately show ?thesis using that s1(1) s2(1) b2 by simp
qed

lemma wait_and_start_step:
  assumes ok: "ax_ok topo rm" "DUMMY_ROW \<le> psum_single_buf_size topo" "cu < length rm" and run: "running topo cu s r w"
    and g: "gives fadd topo rm cu (blk (uv rm cu s) SLS_BLOCK_BASE) tr c" "due topo rm cu s w tr c"
    and r: "clean topo (uv rm cu s) (uc cu s) r" and fit: "8 * length tr' \<le> rb_size (rm ! cu) SLS_BLOCK_INST"
  obtains s' where "ax_wait_and_start fadd topo rm cu tr' s = Inr s'" "moves topo rm cu s s'" "running topo cu s' w r"
    "blk (uv rm cu s') SLS_BLOCK_BASE = blk (uv rm cu s) SLS_BLOCK_BASE"
    "result topo (uv rm cu s') (uc cu s') w c" "due topo rm cu s' r tr' c'"
proof -
  obtain s1 where s1: "ax_wait fadd topo rm cu s = Inr s1" "steps_on topo rm cu r w s s1" "same_buf topo rm cu s s1 r" "done_with topo rm cu s1 w c"
    using wait_due [OF ok run g] by blast
  have r1: "running topo cu s1 r w" "clean topo (uv rm cu s1) (uc cu s1) r" using s1(2) r same_buf_cong(1) [OF s1(3) ok(2)] by (simp_all add: steps_on_def)
  obtain s2 where s2: "bind_r (ax_write_buffer topo rm cu INST (view_cast_bytes tr') s1) (ax_run_async topo rm cu) = Inr s2"
    "moves topo rm cu s1 s2" "running topo cu s2 w r" "blk (uv rm cu s2) SLS_BLOCK_BASE = blk (uv rm cu s1) SLS_BLOCK_BASE"
    "same_buf topo rm cu s1 s2 w" "due topo rm cu s2 r tr' c'"
    using start_step [OF ok r1 fit] by blast
  have "ax_wait_and_start fadd topo rm cu tr' s = Inr s2"
    using s1(1) s2(1) by (simp add: ax_wait_and_start_def SINGLE_DOUBLE_def)
  moreover have "moves topo rm cu s s2" using s1(2) s2(2) by (auto simp: steps_on_def intro: moves_trans)
  moreover have "result topo (uv rm cu s2) (uc cu s2) w c" using s1(4) same_buf_cong(2) [OF s2(5) ok(2)] by (simp add: done_with_def)
  moreover have "blk (uv rm cu s2) SLS_BLOCK_BASE = blk (uv rm cu s) SLS_BLOCK_BASE" using s1(2) s2(4) by (simp add: steps_on_def keeps_def)
  ultimately show ?thesis using that s2(3,6) by blast
qed

text \<open>Reading a result leaves the buffer clean.\<close>

lemma holds_clearable:
  assumes "holds topo ma ub k bs" "256 dvd psum_single_buf_size topo" "DUMMY_ROW \<le> psum_single_buf_size topo"
  shows "clearable topo ma ub k"
proof -
  have "length bs \<le> 256 * ((length bs + 255) div 256)"
    using up_256 [of "length bs"] by (cases "length bs mod 256 = 0") (simp_all add: less_imp_le)
  then have "length bs \<le> cleared_size 0 (length bs)" using assms(1) by (simp add: cleared_size_def holds_def)
  then show ?thesis using assms(1,3) by (auto simp: clearable_def holds_def buf_zero_def)
qed

lemma read_step:
  assumes ok: "ax_ok topo rm" "DUMMY_ROW \<le> psum_single_buf_size topo" "cu < length rm" and run: "running topo cu s r w"
    and h: "holds topo (uv rm cu s) (uc cu s) r bs"
  obtains s' where "ax_read_buffer topo rm cu PSUM (length bs) s = Inr (bs, s')" "steps_on topo rm cu r w s s'"
    "clean topo (uv rm cu s') (uc cu s') r" "same_buf topo rm cu s s' w"
    "blk (uv rm cu s') SLS_BLOCK_CFGR = blk (uv rm cu s) SLS_BLOCK_CFGR"
proof -
  let ?S = "psum_single_buf_size topo"
  have t: "cu < NumOfCUnits topo" "NumOfPSumBuf topo = 2" "256 dvd ?S" "2 * ?S \<le> rb_size (rm ! cu) SLS_BLOCK_PSUM" using ok(1,3) by (simp_all add: ax_ok_def)
  have cs: "core_shape topo (snd s)" and ix: "ub_idx (uc cu s) = [r, w]" using run by (simp_all add: running_def)
  have r: "r < 2" "w \<noteq> r" using running_swap [OF run] by auto
  have sh: "nb_shape (NumOfCUnits topo) ?S 2 SLS_BLOCK_PSUM (psum_memory (snd s))" using cs t(2) by (simp add: core_shape_def)
  have gi: "get_index topo (psum_memory (snd s)) cu READ = Inr r"
    using get_index_eq [OF sh t(1), of READ] ix by (simp add: type_index_def unit_core_def)
  have cb: "current_psum_buf topo rm (snd s) cu 0 = Inr (at_block rm cu SLS_BLOCK_PSUM (?S * r))"
    using sh gi by (simp add: current_psum_buf_def get_buffer_def get_buffer_by_index_def nb_shape_def)
  have "length bs \<le> ?S" using h ok(2) by (simp add: holds_def)
  moreover have "?S * r + ?S \<le> 2 * ?S" using r(1) by (auto simp: less_2_cases_iff)
  ultimately have fit: "?S * r + length bs \<le> rb_size (rm ! cu) SLS_BLOCK_PSUM" using t(4) by linarith
  have rd: "memcpy_interleaved_from (fst s) (at_block rm cu SLS_BLOCK_PSUM (?S * r)) (length bs) (replicate (length bs) 0) = Inr (bs, length bs)"
    using h unit_read [OF fit, of "fst s"] by (subst memcpy_from_eq) (simp_all add: holds_def)
  have cl: "clearable topo (uv rm cu s) (uc cu s) r" by (rule holds_clearable [OF h t(3) ok(2)])
  obtain s' where s': "ax_clear_psum_buf topo rm cu r 0 s = Inr s'" "moves topo rm cu s s'" "clean topo (uv rm cu s') (uc cu s') r"
    "\<And>j. j \<noteq> r \<Longrightarrow> ub_min (uc cu s') ! j = ub_min (uc cu s) ! j \<and> ub_max (uc cu s') ! j = ub_max (uc cu s) ! j"
    "ub_idx (uc cu s') = ub_idx (uc cu s)" "tags_bounded topo (uc cu s') = tags_bounded topo (uc cu s)"
    "\<And>b. b \<noteq> SLS_BLOCK_PSUM \<Longrightarrow> blk (uv rm cu s') b = blk (uv rm cu s) b"
    "\<And>x. x < ?S * r \<or> ?S * r + ?S \<le> x \<Longrightarrow> blk (uv rm cu s') SLS_BLOCK_PSUM x = blk (uv rm cu s) SLS_BLOCK_PSUM x"
    using clear_step [OF ok(1) cs ok(3) r(1) cl] by blast
  have "ax_read_buffer topo rm cu PSUM (length bs) s = Inr (bs, s')"
    using t(1) cb rd s'(1) gi
    by (simp add: ax_read_buffer_def ax_read_and_reset_psum_def ax_read_block_def AxdimmSimulatorPsumReader_def handle_psum_buf_read_def del: of_nat_mult)
  moreover have "same_buf topo rm cu s s' w"
    using s'(4) [OF r(2)] s'(8) other_buffer [OF r(2) _ _ order_refl, of ?S] by (simp add: same_buf_def)
  moreover have "steps_on topo rm cu r w s s'" using run s'(2,5,6,7) by (simp add: steps_on_def keeps_def running_def moves_def)
  ultimately show ?thesis using that s'(3,7) by simp
qed

section \<open>Traces and their results\<close>

lemma get_reg_store_other:
  assumes "blk ma' SLS_BLOCK_CFGR = store_le 4 (blk ma SLS_BLOCK_CFGR) reg' (v :: u32)" "4 dvd reg" "4 dvd reg'" "reg \<noteq> reg'"
  shows "get_reg reg ma' = get_reg reg ma"
proof -
  have "reg + 4 \<le> reg' \<or> reg' + 4 \<le> reg" using assms(2-4) by presburger
  then show ?thesis unfolding get_reg_def assms(1) by (rule load_store_other)
qed

lemma trace_runs:
  assumes ok: "ax_ok topo rm" "cu < length rm" and run: "running topo cu s r w"
    and tr: "trace_ok topo (rm ! cu) bpi op h ws" "inst_at (uv rm cu s) 0 (h # us)" "\<exists>vs. us = ws @ vs"
  obtains s' where "ax_exec_trace fadd topo rm cu s = Inr s'" "steps_on topo rm cu r w s s'" "same_buf topo rm cu s s' r"
    "\<And>reg. 4 dvd reg \<Longrightarrow> reg \<noteq> RegPolling topo + 8 \<Longrightarrow> get_reg reg (uv rm cu s') = get_reg reg (uv rm cu s)"
    "uc cu s' = widen w bpi (map (fst \<circ> rank_lookup) ws) (uc cu s)"
    "summed rm cu bpi (w * (psum_single_buf_size topo div bpi)) (op_add fadd op) (map rank_lookup ws) (fst s) (fst s')"
proof -
  let ?S = "psum_single_buf_size topo" and ?first = "w * (psum_single_buf_size topo div bpi)"
  have cs: "core_shape topo (snd s)" and ix: "w = ub_idx (uc cu s) ! 1" using run by (simp_all add: running_def)
  have pre: "inst_at ma i (xs @ ys) \<Longrightarrow> inst_at ma i xs" for ma i xs ys by (induction xs arbitrary: i) auto
  obtain vs where "us = ws @ vs" using tr(3) by blast
  then have inst: "inst_at (uv rm cu s) 0 (h # ws)" using tr(2) pre [of _ 0 "h # ws" vs] by simp
  note t = tr(1) [unfolded trace_ok_def]
  obtain s' where s': "ax_exec_trace fadd topo rm cu s = Inr s'" "moves topo rm cu s s'"
    "uc cu s' = widen w bpi (map (fst \<circ> rank_lookup) ws) (uc cu s)"
    "summed rm cu bpi ?first (op_add fadd op) (map rank_lookup ws) (fst s) (fst s')"
    "blk (uv rm cu s') SLS_BLOCK_CFGR = store_le 4 (blk (uv rm cu s) SLS_BLOCK_CFGR) (RegPolling topo + 8) (of_nat (Suc (length ws)) :: u32)"
    using ax_exec_trace_step [OF ok(1) cs ok(2) _ _ _ _ _ inst _ _ _ _ _ ix, of op bpi fadd] t by blast
  have rw: "r < 2" "w < 2" "r \<noteq> w" using running_swap [OF run] by auto
  have fb: "?first * bpi = ?S * w" using t by (auto elim!: dvdE)
  have run': "running topo cu s' r w" using run s'(2,3) by (simp add: running_def moves_def widen_def tags_bounded_def)
  have "keeps rm cu s s'" using s'(4) by (simp add: keeps_def summed_def)
  then have st: "steps_on topo rm cu r w s s'" using s'(2) run' by (simp add: steps_on_def)
  have "blk (uv rm cu s') SLS_BLOCK_PSUM x = blk (uv rm cu s) SLS_BLOCK_PSUM x" if "?S * r \<le> x" "x < ?S * r + ?S" for x
  proof -
    have x: "x < ?S * w \<or> ?S * w + ?S \<le> x" by (rule other_buffer [OF rw(3) that order_refl])
    have "x < (?first + out) * bpi \<or> (?first + out) * bpi + bpi \<le> x" if "(out, a) \<in> set (map rank_lookup ws)" for out a
    proof -
      have "out * bpi + bpi \<le> ?S" using t that by blast
      then show ?thesis using x unfolding distrib_right fb by linarith
    qed
    then show ?thesis using s'(4) unfolding summed_def by blast
  qed
  then have sb: "same_buf topo rm cu s s' r" using rw(3) by (simp add: same_buf_def s'(3) widen_def)
  have "4 dvd RegPolling topo + 8" using ok(1) by (simp add: ax_ok_def)
  then show ?thesis using that [OF s'(1) st sb _ s'(3,4)] get_reg_store_other [OF s'(5)] by blast
qed

lemma fold_min_zero: "0 \<in> set outs \<Longrightarrow> fold (\<lambda>q v. min v (q * bpi)) outs (m :: nat) = 0"
proof (induction outs arbitrary: m)
  case (Cons q outs)
  have "fold (\<lambda>q v. min v (q * bpi)) qs 0 = (0 :: nat)" for qs by (induction qs) simp_all
  then show ?case using Cons by auto
qed simp

lemma fold_max_rows:
  assumes "set outs = {..<n}" "0 < n"
  shows "fold (\<lambda>q v. max v (q * bpi + bpi)) outs 0 = n * (bpi :: nat)"
proof -
  have ub: "fold (\<lambda>q v. max v (q * bpi + bpi)) qs m \<le> k" if "m \<le> k" "\<forall>q \<in> set qs. q * bpi + bpi \<le> k" for qs m k
    using that by (induction qs arbitrary: m) simp_all
  have lb: "m \<le> fold (\<lambda>q v. max v (q * bpi + bpi)) qs m \<and> (\<forall>q \<in> set qs. q * bpi + bpi \<le> fold (\<lambda>q v. max v (q * bpi + bpi)) qs m)" for qs m
  proof (induction qs arbitrary: m)
    case (Cons q qs)
    have "max m (q * bpi + bpi) \<le> fold (\<lambda>q v. max v (q * bpi + bpi)) qs (max m (q * bpi + bpi))" using Cons by blast
    then show ?case using Cons [of "max m (q * bpi + bpi)"] by simp
  qed simp
  have "q * bpi + bpi \<le> n * bpi" if "q < n" for q using mult_le_mono1 [of "Suc q" n bpi] that by simp
  then have "fold (\<lambda>q v. max v (q * bpi + bpi)) outs 0 \<le> n * bpi" using assms(1) by (intro ub) auto
  moreover have "n - 1 \<in> set outs" using assms by simp
  then have "(n - 1) * bpi + bpi \<le> fold (\<lambda>q v. max v (q * bpi + bpi)) outs 0" using lb by blast
  moreover have "(n - 1) * bpi + bpi = n * bpi" using assms(2) by (cases n) simp_all
  ultimately show ?thesis by simp
qed

lemma add_lookups_shift:
  "add_lookups add rw (map (\<lambda>(out, a). (first + out, a)) xs) P (first + k) = add_lookups add rw xs (\<lambda>q. P (first + q)) k"
proof -
  have "filter (\<lambda>(out', a). out' = first + k) (map (\<lambda>(out, a). (first + out, a)) xs) = map (\<lambda>(out, a). (first + out, a)) (filter (\<lambda>(out', a). out' = k) xs)"
    by (induction xs) auto
  then show ?thesis unfolding add_lookups_out by (simp add: comp_def case_prod_unfold)
qed

lemma gives_trace:
  assumes ok: "ax_ok topo rm" "cu < length rm" and tr: "trace_ok topo (rm ! cu) bpi op h ws" "\<exists>vs. us = ws @ vs"
    and res: "\<And>s s' r w. running topo cu s r w \<Longrightarrow> clean topo (uv rm cu s) (uc cu s) w \<Longrightarrow> blk (uv rm cu s) SLS_BLOCK_BASE = B \<Longrightarrow>
      uc cu s' = widen w bpi (map (fst \<circ> rank_lookup) ws) (uc cu s) \<Longrightarrow>
      summed rm cu bpi (w * (psum_single_buf_size topo div bpi)) (op_add fadd op) (map rank_lookup ws) (fst s) (fst s') \<Longrightarrow>
      result topo (uv rm cu s') (uc cu s') w c"
  shows "gives fadd topo rm cu B (h # us) c"
  unfolding gives_def
proof (intro allI impI, elim conjE)
  fix s r w
  assume a: "running topo cu s r w" "blk (uv rm cu s) SLS_BLOCK_BASE = B" "inst_at (uv rm cu s) 0 (h # us)" "clean topo (uv rm cu s) (uc cu s) w"
  obtain s' where s': "ax_exec_trace fadd topo rm cu s = Inr s'" "steps_on topo rm cu r w s s'" "same_buf topo rm cu s s' r"
    "\<And>reg. 4 dvd reg \<Longrightarrow> reg \<noteq> RegPolling topo + 8 \<Longrightarrow> get_reg reg (uv rm cu s') = get_reg reg (uv rm cu s)"
    "uc cu s' = widen w bpi (map (fst \<circ> rank_lookup) ws) (uc cu s)"
    "summed rm cu bpi (w * (psum_single_buf_size topo div bpi)) (op_add fadd op) (map rank_lookup ws) (fst s) (fst s')"
    using trace_runs [OF ok a(1) tr(1) a(3) tr(2)] by blast
  then show "\<exists>s'. ax_exec_trace fadd topo rm cu s = Inr s' \<and> moves topo rm cu s s' \<and> keeps rm cu s s' \<and> running topo cu s' r w \<and>
      same_buf topo rm cu s s' r \<and> result topo (uv rm cu s') (uc cu s') w c \<and>
      (\<forall>reg. 4 dvd reg \<and> reg \<noteq> RegPolling topo + 8 \<longrightarrow> get_reg reg (uv rm cu s') = get_reg reg (uv rm cu s))"
    using res [OF a(1,4,2) s'(5,6)] by (auto simp: steps_on_def)
qed

lemma dummy_decoded:
  "decode_instruction 0xffd000000000000 = \<lparr>opcode = 0, local_bit = 0, output_idx = 2046, trace_end = 1, row = 0, bankgroup = 0, bank = 0, column = 0\<rparr>"
  "rank_lookup 0xffd000000000000 = (2046, 0)"
  by code_simp+

lemma length_widened:
  assumes "ax_ok topo rm" "running topo cu s r w"
  shows "w < length (ub_min (uc cu s))" "w < length (ub_max (uc cu s))"
  using assms running_swap [OF assms(2)] by (simp_all add: running_def core_shape_def map_shape_def unit_core_def ax_ok_def)

text \<open>The dummy trace adds the first table row to the sum of output 2046, far behind the sums in use.\<close>

lemma dummy_gives:
  assumes ok: "ax_ok topo rm" "DUMMY_ROW + 64 \<le> psum_single_buf_size topo" "cu < length rm" "64 \<le> rb_size (rm ! cu) SLS_BLOCK_BASE"
    "2 \<le> inst_per_single_buf topo"
  shows "gives fadd topo rm cu B dummy_inst None"
proof -
  let ?D = "0xffd000000000000 :: u64" and ?S = "psum_single_buf_size topo"
  have d: "dummy_inst = 0 # replicate 15 ?D" "replicate 15 ?D = [?D] @ replicate 14 ?D"
    by (simp_all add: dummy_inst_def DUMMY_INST_SIZE_def numeral_eq_Suc)
  have S: "256 dvd ?S" using ok(1) by (simp add: ax_ok_def)
  then have dv: "64 dvd ?S" by (rule dvd_trans [rotated]) simp
  have "read_header 0 = Inr \<lparr>mode_bytes_per_idx = 64, mode_is_tagged = False\<rparr>" by (simp add: read_header_def get_bytes_per_idx_def)
  then have tr: "trace_ok topo (rm ! cu) 64 0 0 [?D]"
    using ok dv by (simp add: trace_ok_def dummy_decoded DUMMY_ROW_def)
  show ?thesis unfolding d(1)
  proof (rule gives_trace [OF ok(1,3) tr])
    show "\<exists>vs. replicate 15 ?D = [?D] @ vs" using d(2) by blast
    fix s s' :: ax_state and r w
    assume run: "running topo cu s r w" and cl: "clean topo (uv rm cu s) (uc cu s) w"
      and w: "uc cu s' = widen w 64 (map (fst \<circ> rank_lookup) [?D]) (uc cu s)"
      and sm: "summed rm cu 64 (w * (?S div 64)) (op_add fadd 0) (map rank_lookup [?D]) (fst s) (fst s')"
    have mn: "ub_min (uc cu s') ! w = DUMMY_ROW" "ub_max (uc cu s') ! w = DUMMY_ROW + 64"
      using cl ok(2) length_widened [OF ok(1) run] by (simp_all add: w widen_def dummy_decoded clean_def DUMMY_ROW_def)
    have fb: "w * (?S div 64) * 64 = ?S * w" using dv by (auto elim!: dvdE)
    have "blk (uv rm cu s') SLS_BLOCK_PSUM (?S * w + x) = 0" if "x < DUMMY_ROW" for x
    proof -
      have "?S * w + x < (w * (?S div 64) + 2046) * 64" using that unfolding distrib_right fb by (simp add: DUMMY_ROW_def)
      then have "blk (uv rm cu s') SLS_BLOCK_PSUM (?S * w + x) = blk (uv rm cu s) SLS_BLOCK_PSUM (?S * w + x)"
        using sm by (simp add: summed_def dummy_decoded)
      then show ?thesis using cl that by (simp add: clean_def buf_zero_def)
    qed
    then show "result topo (uv rm cu s') (uc cu s') w None" using mn ok(2) by (simp add: result_def clearable_def buf_zero_def)
  qed
qed

lemma slot_outputs:
  assumes "ready topo op tables sr p" "i < get_num_exec_iterations sr p" "e = get_pack_execs (exec_gen sr) p ! i"
    "cs = map (td_chunk op cu (tables_objects op ! p)) (tables_data e)" "\<forall>l \<in> set (lengths op). 0 < l"
  shows "fst ` set (chunk_lookups 0 cs) = {..<length (exec_slot_list op e)}"
proof -
  let ?objs = "tables_objects op ! p" and ?S = "segments (lengths op) (indices op)"
  note ex = ready_exec [OF assms(1-3)]
  have op: "op_ok op" using assms(1) by (simp add: ready_def req_ok_def)
  have outs: "chunk_outputs cs = map (\<lambda>s. (tab_off cu ?objs (s div minibatch_size op), ?S ! s)) (exec_slot_list op e)"
    unfolding assms(4) exec_slot_list_def using ex(1) by (intro chunk_outputs_tds [OF op]) blast
  have "k \<in> fst ` set (chunk_lookups 0 cs)" if k: "k < length (exec_slot_list op e)" for k
  proof -
    let ?s = "exec_slot_list op e ! k"
    have s: "?s < length (lengths op)" using ex(11) k by simp
    have "length (?S ! ?s) = lengths op ! ?s"
      using map_length_segments [of "lengths op" "indices op"] op s by (metis length_segments nth_map op_ok_def)
    then have "?S ! ?s \<noteq> []" using assms(5) s nth_mem by fastforce
    then have "filter (\<lambda>(o', x). o' = 0 + k) (chunk_lookups 0 cs) \<noteq> []" using k by (subst filter_chunk_lookups) (simp_all add: outs)
    then obtain y where "y \<in> set (chunk_lookups 0 cs)" "fst y = k" unfolding filter_empty_conv by auto
    then show ?thesis by (metis image_eqI)
  qed
  moreover have "out < length (exec_slot_list op e)" if "(out, x) \<in> set (chunk_lookups 0 cs)" for out x
    using that by (cases x) (auto dest!: chunk_lookups_fst simp: outs)
  ultimately show ?thesis by auto
qed

lemma swap_op_comm: "(\<And>x y. add x y = add y x) \<Longrightarrow> swap_op add = add"
  by (intro ext) (simp add: swap_op_def)

lemma clean_rows:
  assumes "clean topo ma ub w" "first * nb = psum_single_buf_size topo * w" "4 dvd nb" "(k + 1) * nb \<le> DUMMY_ROW"
  shows "psum_rows nb ma (first + k) = replicate (nb div 4) 0"
proof (rule nth_equalityI)
  fix j assume "j < length (psum_rows nb ma (first + k))"
  then have j: "j < nb div 4" by (simp add: psum_rows_def)
  have "load_le 4 (blk ma SLS_BLOCK_PSUM) ((first + k) * nb + 4 * j) = (0 :: u32)"
  proof (rule load_le_zero)
    fix x assume x: "(first + k) * nb + 4 * j \<le> x" "x < (first + k) * nb + 4 * j + 4"
    have "4 * j + 4 \<le> nb" using j assms(3) by auto
    then have "psum_single_buf_size topo * w \<le> x" "x - psum_single_buf_size topo * w < DUMMY_ROW"
      using x assms(2,4) by (simp_all add: algebra_simps)
    then show "blk ma SLS_BLOCK_PSUM x = 0" using assms(1) unfolding clean_def buf_zero_def by (metis le_add_diff_inverse zero_le)
  qed
  then show "psum_rows nb ma (first + k) ! j = replicate (nb div 4) 0 ! j" using j by (simp add: psum_rows_def)
qed (simp add: psum_rows_def)

lemma summed_holds:
  assumes ok: "ax_ok topo rm" "DUMMY_ROW \<le> psum_single_buf_size topo" and run: "running topo cu s r w"
    and cl: "clean topo (uv rm cu s) (uc cu s) w" and nb: "4 dvd nb" "nb dvd psum_single_buf_size topo"
    and wd: "uc cu s' = widen w nb (map fst ls) (uc cu s)"
    and sm: "summed rm cu nb (w * (psum_single_buf_size topo div nb)) add ls (fst s) (fst s')"
    and n: "fst ` set ls = {..<n}" "0 < n" "0 < nb" "n * nb \<le> DUMMY_ROW" and comm: "\<And>x y. add x y = add y x"
    and rows: "\<And>k. k < n \<Longrightarrow> add_lookups add (base_row nb (uv rm cu s)) ls (\<lambda>_. replicate (nb div 4) 0) k = rw k"
  shows "holds topo (uv rm cu s') (uc cu s') w (concat (map (\<lambda>k. row_bytes (rw k)) [0..<n]))"
proof -
  let ?S = "psum_single_buf_size topo" and ?first = "w * (psum_single_buf_size topo div nb)"
  let ?bs = "concat (map (\<lambda>k. row_bytes (rw k)) [0..<n])"
  have fb: "?first * nb = ?S * w" using nb(2) by (auto elim!: dvdE)
  have set: "set (map fst ls) = {..<n}" using n(1) by simp
  have "ub_min (uc cu s) ! w = ?S" "ub_max (uc cu s) ! w = 0" using cl by (simp_all add: clean_def)
  then have mm: "ub_min (uc cu s') ! w = 0" "ub_max (uc cu s') ! w = n * nb"
    using length_widened [OF ok(1) run] fold_min_zero [of "map fst ls" nb ?S] fold_max_rows [OF set n(2), of nb] set n(2)
    by (simp_all add: wd widen_def)
  have row: "psum_rows nb (uv rm cu s') (?first + k) = rw k" if k: "k < n" for k
  proof -
    have "(k + 1) * nb \<le> n * nb" using k by (intro mult_right_mono) simp_all
    then have "(k + 1) * nb \<le> DUMMY_ROW" using n(4) by simp
    then have z: "psum_rows nb (uv rm cu s) (?first + k) = replicate (nb div 4) 0" by (rule clean_rows [OF cl fb nb(1)])
    have "psum_rows nb (uv rm cu s') (?first + k) = add_lookups add (base_row nb (uv rm cu s)) ls (\<lambda>q. psum_rows nb (uv rm cu s) (?first + q)) k"
      using sm unfolding summed_def swap_op_comm [OF comm] by (simp add: add_lookups_shift)
    also have "\<dots> = add_lookups add (base_row nb (uv rm cu s)) ls (\<lambda>_. replicate (nb div 4) 0) k" unfolding add_lookups_out z ..
    finally show ?thesis using rows [OF k] by simp
  qed
  have rb: "row_bytes (rw k) = read_bytes (blk (uv rm cu s') SLS_BLOCK_PSUM) (?S * w + k * nb) nb" if k: "k < n" for k
  proof -
    have "4 * (nb div 4) = nb" using nb(1) by simp
    then show ?thesis unfolding row [OF k, symmetric] psum_rows_def read_elems32 [symmetric] distrib_right fb by simp
  qed
  have bs: "?bs = read_bytes (blk (uv rm cu s') SLS_BLOCK_PSUM) (?S * w) (n * nb)"
    unfolding read_bytes_rows using rb by (intro arg_cong [of _ _ concat]) simp
  then have len: "length ?bs = n * nb" by simp
  have "blk (uv rm cu s') SLS_BLOCK_PSUM (?S * w + x) = 0" if x: "n * nb \<le> x" "x < DUMMY_ROW" for x
  proof -
    have "(?first + out) * nb + nb \<le> ?S * w + x" if "(out, a) \<in> set ls" for out a
    proof -
      have "out < n" using that n(1) by force
      then have "Suc out * nb \<le> n * nb" by (intro mult_right_mono) simp_all
      then show ?thesis using x(1) unfolding distrib_right fb by simp
    qed
    then have "blk (uv rm cu s') SLS_BLOCK_PSUM (?S * w + x) = blk (uv rm cu s) SLS_BLOCK_PSUM (?S * w + x)"
      using sm unfolding summed_def by blast
    then show ?thesis using cl x(2) by (simp add: clean_def buf_zero_def)
  qed
  then show ?thesis unfolding holds_def len mm using n(2-4) bs by (simp add: buf_zero_def)
qed

lemma exec_gives:
  assumes ok: "ax_ok topo rm" "DUMMY_ROW \<le> psum_single_buf_size topo" "cu < length rm"
    and rd: "ready topo op tables sr p" "i < get_num_exec_iterations sr p" and pl: "pipelined topo op sr p"
    and ld: "loaded topo op tables cu (tables_objects op ! p) (uv rm cu s0)" and comm: "\<And>x y. fadd x y = fadd y x"
  obtains tr where "op_generate_instructions ranked_decode_address sr p cu i = Inr tr" "8 * length tr \<le> rb_size (rm ! cu) SLS_BLOCK_INST"
    "gives fadd topo rm cu (blk (uv rm cu s0) SLS_BLOCK_BASE) tr (Some (concat (map (new_row fadd op tables) (exec_slots_of op sr p i))))"
proof -
  define e where e: "e = get_pack_execs (exec_gen sr) p ! i"
  define nb where nb: "nb = sparse_feature_size op * DataSize topo"
  let ?h = "trace_header (pack_trace_gen topo op p) False" and ?add = "op_add fadd (op_code (sls_type op))"
  let ?cs = "map (td_chunk op cu (tables_objects op ! p)) (tables_data e)" and ?n = "length (exec_slot_list op e)"
  let ?ls = "map (\<lambda>(out, off, r). (out, off + ucast (r * of_nat nb))) (chunk_lookups 0 ?cs)"
  note ex = ready_exec [OF rd e, folded nb, folded e]
  have sim: "sim_ok topo op" using rd(1) by (simp add: ready_def)
  have nb4: "nb = 4 * sparse_feature_size op" "4 dvd nb" "nb div 4 = sparse_feature_size op" "0 < nb" "nb dvd 256" "InstructionSize topo = 8"
    using sim by (auto simp: nb sim_ok_def)
  have sl: "exec_slots_of op sr p i = exec_slot_list op e" by (simp add: exec_slots_of_def e)
  obtain ws where ws: "op_generate_instructions ranked_decode_address sr p cu i = Inr (?h # ws)" "map rank_lookup ws = ?ls"
    "\<forall>w \<in> set ws. opcode (decode_instruction w) = op_code (sls_type op)"
    "map (\<lambda>w. trace_end (decode_instruction w)) ws = replicate (length ws - 1) 0 @ [1]" "length ws = total_lookups e"
    using ranked.exec_trace_words [OF rd e ld refl, folded nb] unfolding rank_lookup_def [symmetric] by blast
  have t: "256 dvd psum_single_buf_size topo" "inst_single_buf_size topo \<le> rb_size (rm ! cu) SLS_BLOCK_INST" using ok(1,3) by (simp_all add: ax_ok_def)
  have fit: "8 * Suc (length ws) \<le> inst_single_buf_size topo" using ex(10) ws(5) by simp
  then have "8 * Suc (length ws) div 8 \<le> inst_single_buf_size topo div 8" by (rule div_le_mono)
  then have fit': "Suc (length ws) \<le> inst_per_single_buf topo" by (simp add: inst_per_single_buf_def nb4(6))
  have nn: "?n * nb \<le> DUMMY_ROW" using pl rd(2) unfolding pipelined_def nb [symmetric] sl [symmetric] by blast
  have lk: "unat a + nb \<le> rb_size (rm ! cu) SLS_BLOCK_BASE \<and> 4 dvd unat a \<and> out * nb + nb \<le> psum_single_buf_size topo"
    if "(out, a) \<in> set ?ls" for out a
  proof -
    note s = slot_lookups [OF rd e ld nb refl refl that]
    have "unat (a mod 8) = 0" using s(2) by (simp add: addr_ok_def)
    then have "8 dvd unat a" by (simp add: unat_mod dvd_eq_mod_eq_0)
    then have "4 dvd unat a" by (rule dvd_trans [rotated]) simp
    then show ?thesis using s(1,3) nn ok(2) by simp
  qed
  have tr: "trace_ok topo (rm ! cu) nb (op_code (sls_type op)) ?h ws"
    unfolding trace_ok_def ws(2)
  proof (intro conjI)
    show "ws \<noteq> []" using ws(5) ex(9) by auto
    show "\<forall>(out, a) \<in> set ?ls. unat a + nb \<le> rb_size (rm ! cu) SLS_BLOCK_BASE \<and> 4 dvd unat a \<and> out * nb + nb \<le> psum_single_buf_size topo"
      using lk by blast
  qed (fact op_code_in dvd_trans [OF nb4(5) t(1)] nb4(2,4) trace_header_mode [OF sim, of p, folded nb] fit' ws(3,4))+
  have outs: "fst ` set ?ls = {..<?n}"
    using slot_outputs [OF rd e refl, of cu] pl by (force simp: pipelined_def image_image case_prod_unfold)
  have "gives fadd topo rm cu (blk (uv rm cu s0) SLS_BLOCK_BASE) (?h # ws) (Some (concat (map (new_row fadd op tables) (exec_slot_list op e))))"
  proof (rule gives_trace [OF ok(1,3) tr])
    fix s s' :: ax_state and r w
    assume run: "running topo cu s r w" and cl: "clean topo (uv rm cu s) (uc cu s) w" and b: "blk (uv rm cu s) SLS_BLOCK_BASE = blk (uv rm cu s0) SLS_BLOCK_BASE"
      and wd: "uc cu s' = widen w nb (map (fst \<circ> rank_lookup) ws) (uc cu s)"
      and sm: "summed rm cu nb (w * (psum_single_buf_size topo div nb)) ?add (map rank_lookup ws) (fst s) (fst s')"
    have add: "?add x y = ?add y x" for x y by (simp add: op_add_def comm add.commute)
    have ld': "loaded topo op tables cu (tables_objects op ! p) (uv rm cu s)" using ld b by (subst loaded_cong [of _ "uv rm cu s0"]) simp_all
    have rows: "add_lookups ?add (base_row nb (uv rm cu s)) ?ls (\<lambda>_. replicate (nb div 4) 0) k = pair_sum ?add op tables (exec_slot_list op e ! k)"
      if "k < ?n" for k by (rule slot_rows [OF rd e ld' nb refl refl add that]) (simp add: nb4(3))
    have wd': "uc cu s' = widen w nb (map fst ?ls) (uc cu s)" using wd ws(2) by (metis map_map)
    have "holds topo (uv rm cu s') (uc cu s') w (concat (map (\<lambda>k. row_bytes (pair_sum ?add op tables (exec_slot_list op e ! k))) [0..<?n]))"
      by (rule summed_holds [OF ok(1,2) run cl nb4(2) dvd_trans [OF nb4(5) t(1)] wd' sm [unfolded ws(2)] outs ex(6) nb4(4) nn add rows])
    moreover have "map (\<lambda>k. row_bytes (pair_sum ?add op tables (exec_slot_list op e ! k))) [0..<?n] = map (new_row fadd op tables) (exec_slot_list op e)"
      by (intro nth_equalityI) (simp_all add: new_row_def)
    ultimately show "result topo (uv rm cu s') (uc cu s') w (Some (concat (map (new_row fadd op tables) (exec_slot_list op e))))"
      by (simp add: result_def)
  qed simp
  then show ?thesis using that [OF ws(1)] fit t(2) by (simp add: sl)
qed

section \<open>The pipeline\<close>

lemma read_output_step:
  assumes ok: "ax_ok topo rm" "DUMMY_ROW \<le> psum_single_buf_size topo" "cu < length rm" and run: "running topo cu s r w"
    and rd: "ready topo op tables sr p" "i < get_num_exec_iterations sr p" and n: "n = length (lengths op)"
    and len: "\<And>s. length (old s) = sparse_feature_size op * DataSize topo"
    and h: "result topo (uv rm cu s) (uc cu s) r (Some (concat (map (new_row fadd op tables) (exec_slots_of op sr p i))))"
  obtains s' where "ax_read_output_buffers topo rm sr cu p i (s, merge_rows n A (new_row fadd op tables) old) =
      Inr (s', merge_rows n (A \<union> set (exec_slots_of op sr p i)) (new_row fadd op tables) old)"
    "steps_on topo rm cu r w s s'" "clean topo (uv rm cu s') (uc cu s') r" "\<And>tr c. due topo rm cu s w tr c \<Longrightarrow> due topo rm cu s' w tr c"
proof -
  let ?bs = "concat (map (new_row fadd op tables) (exec_slots_of op sr p i))"
  obtain s' where s': "ax_read_buffer topo rm cu PSUM (length ?bs) s = Inr (?bs, s')" "steps_on topo rm cu r w s s'"
    "clean topo (uv rm cu s') (uc cu s') r" "same_buf topo rm cu s s' w" "blk (uv rm cu s') SLS_BLOCK_CFGR = blk (uv rm cu s) SLS_BLOCK_CFGR"
    using read_step [OF ok run] h by (auto simp: result_def)
  have req: "req_ok topo op" and mk: "SparseReduction_make None topo op = Inr sr" and sim: "sim_ok topo op" using rd(1) by (simp_all add: ready_def)
  have "length (new_row fadd op tables s) = sparse_feature_size op * DataSize topo" if "s < n" for s
    using length_pair_sum [OF rd(1)] that n sim by (simp add: new_row_def sim_ok_def)
  then have "\<forall>s \<in> set (exec_slots_of op sr p i). length (new_row fadd op tables s) = sparse_feature_size op * DataSize topo"
    using ready_exec(11) [OF rd refl] by (simp add: exec_slots_of_def n)
  then have "length ?bs = length (exec_slots_of op sr p i) * (sparse_feature_size op * DataSize topo)"
    by (simp add: length_concat comp_def sum_list_triv cong: map_cong)
  then have sz: "get_tmp_buffer_size sr p i = Inr (length ?bs)"
    using ready_exec(4) [OF rd refl] rd(2) by (simp add: get_tmp_buffer_size_def exec_slots_of_def)
  have "get_num_outputs sr = 1" using SparseReduction_make_correct [OF req] mk sim by (auto simp: get_num_outputs_def sim_ok_def)
  then have "ax_read_output_buffers topo rm sr cu p i (s, merge_rows n A (new_row fadd op tables) old) =
      Inr (s', merge_rows n (A \<union> set (exec_slots_of op sr p i)) (new_row fadd op tables) old)"
    using s'(1) write_exec_rows [OF rd n len, of fadd A] by (simp add: ax_read_output_buffers_def sz ax_dispatch_read_op_def)
  moreover have "due topo rm cu s' w tr c" if "due topo rm cu s w tr c" for tr c
  proof -
    have "get_reg reg (uv rm cu s') = get_reg reg (uv rm cu s)" for reg using s'(5) by (simp add: get_reg_def)
    moreover have "inst_at (uv rm cu s') 0 tr = inst_at (uv rm cu s) 0 tr" using s'(2) by (intro inst_at_cong) (simp_all add: steps_on_def keeps_def)
    ultimately show ?thesis using that same_buf_cong [OF s'(4) ok(2)] by (simp add: due_def done_with_def)
  qed
  ultimately show ?thesis using that s'(2,3) by blast
qed

lemma pack_ready_cong:
  "blk (uv rm cu s') SLS_BLOCK_BASE = blk (uv rm cu s) SLS_BLOCK_BASE \<Longrightarrow>
   pack_ready fadd topo rm op tables sr p cu s' = pack_ready fadd topo rm op tables sr p cu s"
  using loaded_cong [of "uv rm cu s'" "uv rm cu s"] by (simp add: pack_ready_def)

lemma pack_exec_gives:
  assumes "pack_ready fadd topo rm op tables sr p cu s" "i < get_num_exec_iterations sr p"
  shows "op_generate_instructions ranked_decode_address sr p cu i = Inr (exec_trace_of sr p cu i)"
    "8 * length (exec_trace_of sr p cu i) \<le> rb_size (rm ! cu) SLS_BLOCK_INST"
    "gives fadd topo rm cu (blk (uv rm cu s) SLS_BLOCK_BASE) (exec_trace_of sr p cu i) (Some (exec_bytes fadd op tables sr p i))"
proof -
  have p: "ax_ok topo rm" "DUMMY_ROW \<le> psum_single_buf_size topo" "cu < length rm" "ready topo op tables sr p" "pipelined topo op sr p"
    "loaded topo op tables cu (tables_objects op ! p) (uv rm cu s)" "\<And>x y. fadd x y = fadd y x" using assms(1) by (simp_all add: pack_ready_def)
  obtain tr where "op_generate_instructions ranked_decode_address sr p cu i = Inr tr" "8 * length tr \<le> rb_size (rm ! cu) SLS_BLOCK_INST"
    "gives fadd topo rm cu (blk (uv rm cu s) SLS_BLOCK_BASE) tr (Some (concat (map (new_row fadd op tables) (exec_slots_of op sr p i))))"
    using exec_gives [where fadd = fadd, OF p(1-4) assms(2) p(5-7)] by blast
  then show "op_generate_instructions ranked_decode_address sr p cu i = Inr (exec_trace_of sr p cu i)"
    "8 * length (exec_trace_of sr p cu i) \<le> rb_size (rm ! cu) SLS_BLOCK_INST"
    "gives fadd topo rm cu (blk (uv rm cu s) SLS_BLOCK_BASE) (exec_trace_of sr p cu i) (Some (exec_bytes fadd op tables sr p i))"
    by (simp_all add: exec_trace_of_def exec_bytes_def)
qed

lemma submit_step:
  assumes pr: "pack_ready fadd topo rm op tables sr p cu s" and i: "i < get_num_exec_iterations sr p"
    and be: "before_exec fadd topo rm op tables sr p cu i s"
  obtains s' r w where "ax_submit_instructions fadd topo rm cu i (exec_trace_of sr p cu i) s = Inr s'" "moves topo rm cu s s'"
    "blk (uv rm cu s') SLS_BLOCK_BASE = blk (uv rm cu s) SLS_BLOCK_BASE" "running topo cu s' r w"
    "due topo rm cu s' w (exec_trace_of sr p cu i) (Some (exec_bytes fadd op tables sr p i))"
    "if i = 0 then clean topo (uv rm cu s') (uc cu s') r else result topo (uv rm cu s') (uc cu s') r (Some (exec_bytes fadd op tables sr p (i - 1)))"
proof -
  have ok: "ax_ok topo rm" "DUMMY_ROW \<le> psum_single_buf_size topo" "cu < length rm" using pr by (simp_all add: pack_ready_def)
  obtain r w where rw: "running topo cu s r w" "clean topo (uv rm cu s) (uc cu s) r"
    "if i = 0 then clean topo (uv rm cu s) (uc cu s) w
     else due topo rm cu s w (exec_trace_of sr p cu (i - 1)) (Some (exec_bytes fadd op tables sr p (i - 1)))"
    using be unfolding before_exec_def by blast
  note fit = pack_exec_gives(2) [OF pr i]
  show ?thesis
  proof (cases "i = 0")
    case True
    obtain s' where s': "bind_r (ax_write_buffer topo rm cu INST (view_cast_bytes (exec_trace_of sr p cu i)) s) (ax_run_async topo rm cu) = Inr s'"
      "moves topo rm cu s s'" "running topo cu s' w r" "blk (uv rm cu s') SLS_BLOCK_BASE = blk (uv rm cu s) SLS_BLOCK_BASE"
      "same_buf topo rm cu s s' w" "due topo rm cu s' r (exec_trace_of sr p cu i) (Some (exec_bytes fadd op tables sr p i))"
      using start_step [OF ok rw(1,2) fit] by blast
    have "clean topo (uv rm cu s') (uc cu s') w" using rw(3) True same_buf_cong(1) [OF s'(5) ok(2)] by simp
    then show ?thesis using that [OF _ s'(2,4,3,6)] s'(1) True by (simp add: ax_submit_instructions_def)
  next
    case False
    then have i': "i - 1 < get_num_exec_iterations sr p" using i by simp
    have du: "due topo rm cu s w (exec_trace_of sr p cu (i - 1)) (Some (exec_bytes fadd op tables sr p (i - 1)))" using rw(3) False by simp
    obtain s' where s': "ax_wait_and_start fadd topo rm cu (exec_trace_of sr p cu i) s = Inr s'" "moves topo rm cu s s'" "running topo cu s' w r"
      "blk (uv rm cu s') SLS_BLOCK_BASE = blk (uv rm cu s) SLS_BLOCK_BASE"
      "result topo (uv rm cu s') (uc cu s') w (Some (exec_bytes fadd op tables sr p (i - 1)))"
      "due topo rm cu s' r (exec_trace_of sr p cu i) (Some (exec_bytes fadd op tables sr p i))"
      using wait_and_start_step [OF ok rw(1) pack_exec_gives(3) [OF pr i'] du rw(2) fit] by blast
    then show ?thesis using that [OF _ s'(2,4,3,6)] False by (simp add: ax_submit_instructions_def)
  qed
qed

lemma exec_iteration:
  assumes pr: "pack_ready fadd topo rm op tables sr p cu s" and i: "i < get_num_exec_iterations sr p"
    and be: "before_exec fadd topo rm op tables sr p cu i s" and n: "n = length (lengths op)"
    and len: "\<And>s. length (old s) = sparse_feature_size op * DataSize topo"
  obtains s' where "ax_run_execs (i # js) early fadd topo rm sr p cu (s, merge_rows n (slots_before op sr p (i - 1)) (new_row fadd op tables) old) =
      ax_run_execs js early fadd topo rm sr p cu (s', merge_rows n (slots_before op sr p i) (new_row fadd op tables) old)"
    "moves topo rm cu s s'" "blk (uv rm cu s') SLS_BLOCK_BASE = blk (uv rm cu s) SLS_BLOCK_BASE"
    "before_exec fadd topo rm op tables sr p cu (Suc i) s'"
proof -
  let ?new = "new_row fadd op tables" and ?tr = "exec_trace_of sr p cu" and ?c = "\<lambda>i. Some (exec_bytes fadd op tables sr p i)"
  let ?out = "merge_rows n (slots_before op sr p (i - 1)) ?new old"
  have ok: "ax_ok topo rm" "DUMMY_ROW \<le> psum_single_buf_size topo" "cu < length rm" and rd: "ready topo op tables sr p"
    using pr by (simp_all add: pack_ready_def)
  obtain s1 r w where s1: "ax_submit_instructions fadd topo rm cu i (?tr i) s = Inr s1" "moves topo rm cu s s1"
    "blk (uv rm cu s1) SLS_BLOCK_BASE = blk (uv rm cu s) SLS_BLOCK_BASE" "running topo cu s1 r w" "due topo rm cu s1 w (?tr i) (?c i)"
    "if i = 0 then clean topo (uv rm cu s1) (uc cu s1) r else result topo (uv rm cu s1) (uc cu s1) r (?c (i - 1))"
    using submit_step [OF pr i be] by blast
  have pr1: "pack_ready fadd topo rm op tables sr p cu s1" using pr pack_ready_cong [OF s1(3)] by simp
  obtain s2 where s2: "ax_overlap (early i) fadd topo rm cu s1 = Inr s2" "steps_on topo rm cu r w s1 s2" "same_buf topo rm cu s1 s2 r" "due topo rm cu s2 w (?tr i) (?c i)"
    using overlap_due [OF ok s1(4) pack_exec_gives(3) [OF pr1 i] s1(5)] by blast
  have run2: "running topo cu s2 r w" and base2: "blk (uv rm cu s2) SLS_BLOCK_BASE = blk (uv rm cu s) SLS_BLOCK_BASE" and mv2: "moves topo rm cu s s2"
    using s2(2) s1(2,3) by (auto simp: steps_on_def keeps_def intro: moves_trans)
  have e: "ax_run_execs (i # js) early fadd topo rm sr p cu (s, ?out) =
      bind_r (if 0 < i then ax_read_output_buffers topo rm sr cu p (i - 1) (s2, ?out) else Inr (s2, ?out)) (ax_run_execs js early fadd topo rm sr p cu)"
    using pack_exec_gives(1) [OF pr i] s1(1) s2(1) by simp
  show ?thesis
  proof (cases "i = 0")
    case True
    then have "clean topo (uv rm cu s2) (uc cu s2) r" using s1(6) same_buf_cong(1) [OF s2(3) ok(2)] by simp
    then have "before_exec fadd topo rm op tables sr p cu (Suc i) s2" using run2 s2(4) by (auto simp: before_exec_def)
    then show ?thesis using that [OF _ mv2 base2] e True by (simp add: slots_before_def)
  next
    case False
    then have i': "i - 1 < get_num_exec_iterations sr p" using i by simp
    have res: "result topo (uv rm cu s2) (uc cu s2) r (Some (concat (map ?new (exec_slots_of op sr p (i - 1)))))"
      using s1(6) False same_buf_cong(2) [OF s2(3) ok(2)] by (simp add: exec_bytes_def)
    obtain s3 where s3: "ax_read_output_buffers topo rm sr cu p (i - 1) (s2, ?out) =
        Inr (s3, merge_rows n (slots_before op sr p (i - 1) \<union> set (exec_slots_of op sr p (i - 1))) ?new old)"
      "steps_on topo rm cu r w s2 s3" "clean topo (uv rm cu s3) (uc cu s3) r" "\<And>tr c. due topo rm cu s2 w tr c \<Longrightarrow> due topo rm cu s3 w tr c"
      by (rule read_output_step [where old = old and A = "slots_before op sr p (i - 1)", OF ok run2 rd i' n len res]) blast
    have "slots_before op sr p (i - 1) \<union> set (exec_slots_of op sr p (i - 1)) = slots_before op sr p i"
      using False by (cases i) (auto simp: slots_before_def lessThan_Suc)
    moreover have "before_exec fadd topo rm op tables sr p cu (Suc i) s3" using s3(2-4) s2(4) by (auto simp: before_exec_def steps_on_def)
    moreover have "moves topo rm cu s s3" using mv2 s3(2) by (auto simp: steps_on_def intro: moves_trans)
    moreover have "blk (uv rm cu s3) SLS_BLOCK_BASE = blk (uv rm cu s) SLS_BLOCK_BASE" using base2 s3(2) by (simp add: steps_on_def keeps_def)
    ultimately show ?thesis using that [of s3] e s3(1) False by simp
  qed
qed

lemma run_execs_correct:
  assumes pr: "pack_ready fadd topo rm op tables sr p cu s" and be: "before_exec fadd topo rm op tables sr p cu i s"
    and i: "i \<le> N" "N = get_num_exec_iterations sr p" and n: "n = length (lengths op)"
    and len: "\<And>s. length (old s) = sparse_feature_size op * DataSize topo"
  shows "\<exists>s'. ax_run_execs [i..<N] early fadd topo rm sr p cu (s, merge_rows n (slots_before op sr p (i - 1)) (new_row fadd op tables) old) =
      Inr (s', merge_rows n (slots_before op sr p (N - 1)) (new_row fadd op tables) old) \<and> moves topo rm cu s s' \<and>
    blk (uv rm cu s') SLS_BLOCK_BASE = blk (uv rm cu s) SLS_BLOCK_BASE \<and> before_exec fadd topo rm op tables sr p cu N s'"
  using pr be i(1)
proof (induction "N - i" arbitrary: i s)
  case 0
  then show ?case by (auto simp: before_exec_def running_def intro: moves_refl)
next
  case (Suc k)
  then have lt: "i < N" by simp
  have "[i..<N] = i # [Suc i..<N]" using lt by (rule upt_conv_Cons)
  then obtain s1 where s1: "ax_run_execs [i..<N] early fadd topo rm sr p cu (s, merge_rows n (slots_before op sr p (i - 1)) (new_row fadd op tables) old) =
      ax_run_execs [Suc i..<N] early fadd topo rm sr p cu (s1, merge_rows n (slots_before op sr p i) (new_row fadd op tables) old)"
    "moves topo rm cu s s1" "blk (uv rm cu s1) SLS_BLOCK_BASE = blk (uv rm cu s) SLS_BLOCK_BASE"
    "before_exec fadd topo rm op tables sr p cu (Suc i) s1"
    using exec_iteration [where old = old, OF Suc.prems(1) _ Suc.prems(2) n len, of "[Suc i..<N]" early] lt i(2) by metis
  have pr1: "pack_ready fadd topo rm op tables sr p cu s1" using Suc.prems(1) pack_ready_cong [OF s1(3)] by simp
  have k: "k = N - Suc i" "Suc i \<le> N" using Suc.hyps(2) lt by simp_all
  obtain s2 where s2: "ax_run_execs [Suc i..<N] early fadd topo rm sr p cu (s1, merge_rows n (slots_before op sr p i) (new_row fadd op tables) old) =
      Inr (s2, merge_rows n (slots_before op sr p (N - 1)) (new_row fadd op tables) old)" "moves topo rm cu s1 s2"
    "blk (uv rm cu s2) SLS_BLOCK_BASE = blk (uv rm cu s1) SLS_BLOCK_BASE" "before_exec fadd topo rm op tables sr p cu N s2"
    using Suc.hyps(1) [OF k(1) pr1 s1(4) k(2)] unfolding diff_Suc_1 by blast
  then show ?case using s1 moves_trans [OF s1(2)] by (intro exI [of _ s2]) simp
qed

lemma running_idle:
  assumes "running topo cu s r w" "clearable topo (uv rm cu s) (uc cu s) r" "clearable topo (uv rm cu s) (uc cu s) w"
  shows "idle topo rm cu s"
  using assms running_swap [OF assms(1)] unfolding idle_def running_def by (auto simp: doubleton_eq_iff less_2_cases_iff)

lemma idle_running:
  assumes "ax_ok topo rm" "cu < length rm" "idle topo rm cu s"
  obtains r w where "running topo cu s r w"
proof -
  have "core_shape topo (snd s)" and st: "set (ub_idx (uc cu s)) = {0, 1}" using assms(3) by (simp_all add: idle_def)
  then have sh: "nb_shape (NumOfCUnits topo) (psum_single_buf_size topo) (NumOfPSumBuf topo) SLS_BLOCK_PSUM (psum_memory (snd s))" by (simp add: core_shape_def)
  have "cu < NumOfCUnits topo" using assms(1,2) by (simp add: ax_ok_def)
  then have "length (ub_idx (uc cu s)) = 2" using nb_shapeD(1) [OF sh] by (simp add: unit_core_def)
  then obtain r w where "ub_idx (uc cu s) = [r, w]" by (auto simp: length_Suc_conv numeral_2_eq_2)
  then show ?thesis using that [of r w] assms(3) st by (simp add: running_def idle_def)
qed

lemma idle_cong:
  assumes "idle topo rm cu s" "core_shape topo (snd s')" "uc cu s' = uc cu s" "blk (uv rm cu s') SLS_BLOCK_PSUM = blk (uv rm cu s) SLS_BLOCK_PSUM"
  shows "idle topo rm cu s'"
  using assms clean_cong(2) [where ma = "uv rm cu s" and ma' = "uv rm cu s'" and ub = "uc cu s" and ub' = "uc cu s'"] by (simp add: idle_def)

lemma write_reg_idle:
  assumes "ax_ok topo rm" "cu < length rm" "idle topo rm cu s"
    "reg \<in> {psum_poll_register topo, exec_sls_register topo, control_switch_register topo}"
  shows "idle topo rm cu (ax_write_reg rm cu reg v s)" "moves topo rm cu s (ax_write_reg rm cu reg v s)"
    "blk (uv rm cu (ax_write_reg rm cu reg v s)) SLS_BLOCK_BASE = blk (uv rm cu s) SLS_BLOCK_BASE"
    "clean topo (uv rm cu (ax_write_reg rm cu reg v s)) (uc cu (ax_write_reg rm cu reg v s)) k = clean topo (uv rm cu s) (uc cu s) k"
proof -
  have "core_shape topo (snd s)" using assms(3) by (simp add: idle_def)
  note st = ax_write_reg_step [OF assms(1,2,4) this, of v]
  show "moves topo rm cu s (ax_write_reg rm cu reg v s)" by (rule st(1))
  show "idle topo rm cu (ax_write_reg rm cu reg v s)" using st by (intro idle_cong [OF assms(3)]) (simp_all add: moves_def)
  show "blk (uv rm cu (ax_write_reg rm cu reg v s)) SLS_BLOCK_BASE = blk (uv rm cu s) SLS_BLOCK_BASE" by (simp add: st(2))
  show "clean topo (uv rm cu (ax_write_reg rm cu reg v s)) (uc cu (ax_write_reg rm cu reg v s)) k = clean topo (uv rm cu s) (uc cu s) k"
    by (rule clean_cong(1)) (simp_all add: st(2,3))
qed

lemma open_step:
  assumes ok: "ax_ok topo rm" "DUMMY_ROW \<le> psum_single_buf_size topo" "cu < length rm" and id: "idle topo rm cu s"
  obtains s' where "ax_open topo rm cu s = Inr s'" "moves topo rm cu s s'" "blk (uv rm cu s') SLS_BLOCK_BASE = blk (uv rm cu s) SLS_BLOCK_BASE"
    "before_exec fadd topo rm op tables sr p cu 0 s'"
proof -
  let ?s1 = "ax_write_reg rm cu (psum_poll_register topo) 0 s" let ?s2 = "ax_write_reg rm cu (exec_sls_register topo) SLS_DISABLE_VALUE ?s1"
  have s1: "idle topo rm cu ?s1" "moves topo rm cu s ?s1" "blk (uv rm cu ?s1) SLS_BLOCK_BASE = blk (uv rm cu s) SLS_BLOCK_BASE"
    by (rule write_reg_idle [OF ok(1,3) id]; simp)+
  have s2: "idle topo rm cu ?s2" "moves topo rm cu ?s1 ?s2" "blk (uv rm cu ?s2) SLS_BLOCK_BASE = blk (uv rm cu ?s1) SLS_BLOCK_BASE"
    by (rule write_reg_idle [OF ok(1,3) s1(1)]; simp)+
  obtain s3 where s3: "ax_clear_buffers topo rm cu ?s2 = Inr s3" "moves topo rm cu ?s2 s3" "idle topo rm cu s3"
    "\<And>k. k < 2 \<Longrightarrow> clean topo (uv rm cu s3) (uc cu s3) k" "keeps rm cu ?s2 s3"
    using clear_buffers_step [OF ok(1,3) s2(1) ok(2)] by blast
  let ?s4 = "ax_write_reg rm cu (control_switch_register topo) SLS_ENABLE_VALUE s3"
  have s4: "idle topo rm cu ?s4" "moves topo rm cu s3 ?s4" "blk (uv rm cu ?s4) SLS_BLOCK_BASE = blk (uv rm cu s3) SLS_BLOCK_BASE"
    "\<And>k. clean topo (uv rm cu ?s4) (uc cu ?s4) k = clean topo (uv rm cu s3) (uc cu s3) k"
    by (rule write_reg_idle [OF ok(1,3) s3(3)]; simp)+
  obtain r w where rw: "running topo cu ?s4 r w" using idle_running [OF ok(1,3) s4(1)] by blast
  have "ax_open topo rm cu s = Inr ?s4" using s3(1) by (simp add: ax_open_def ax_acquire_reset_def ax_write_control_switch_register_def)
  moreover have "moves topo rm cu s ?s4" using s1(2) s2(2) s3(2) s4(2) by (blast intro: moves_trans)
  moreover have "blk (uv rm cu ?s4) SLS_BLOCK_BASE = blk (uv rm cu s) SLS_BLOCK_BASE" using s1(3) s2(3) s3(5) s4(3) by (simp add: keeps_def)
  moreover have "before_exec fadd topo rm op tables sr p cu 0 ?s4"
    unfolding before_exec_def using rw s3(4) s4(4) running_swap [OF rw] by auto
  ultimately show ?thesis by (rule that)
qed

lemma finish_step:
  assumes pr: "pack_ready fadd topo rm op tables sr p cu s" and N: "N = get_num_exec_iterations sr p" "0 < N"
    and be: "before_exec fadd topo rm op tables sr p cu N s" and n: "n = length (lengths op)"
    and len: "\<And>s. length (old s) = sparse_feature_size op * DataSize topo"
  obtains s1 s2 s3 s4 where "ax_wait_and_start fadd topo rm cu dummy_inst s = Inr s1" "ax_overlap early fadd topo rm cu s1 = Inr s2"
    "ax_read_output_buffers topo rm sr cu p (N - 1) (s2, merge_rows n (slots_before op sr p (N - 1)) (new_row fadd op tables) old) =
      Inr (s3, merge_rows n (slots_before op sr p N) (new_row fadd op tables) old)"
    "ax_wait fadd topo rm cu s3 = Inr s4" "moves topo rm cu s s4" "blk (uv rm cu s4) SLS_BLOCK_BASE = blk (uv rm cu s) SLS_BLOCK_BASE" "idle topo rm cu s4"
proof -
  let ?new = "new_row fadd op tables" and ?S = "psum_single_buf_size topo"
  have ok: "ax_ok topo rm" "DUMMY_ROW \<le> ?S" "cu < length rm" and rd: "ready topo op tables sr p" and S: "DUMMY_ROW + 64 \<le> ?S" "256 dvd ?S"
    and dm: "64 \<le> rb_size (rm ! cu) SLS_BLOCK_BASE" "2 \<le> inst_per_single_buf topo" "16 * 8 \<le> rb_size (rm ! cu) SLS_BLOCK_INST"
    using pr by (simp_all add: pack_ready_def ax_ok_def)
  have dg: "gives fadd topo rm cu B dummy_inst None" for B by (rule dummy_gives [OF ok(1) S(1) ok(3) dm(1,2)])
  have fit: "8 * length dummy_inst \<le> rb_size (rm ! cu) SLS_BLOCK_INST" using dm(3) by (simp add: dummy_inst_def DUMMY_INST_SIZE_def)
  have N': "N - 1 < get_num_exec_iterations sr p" using N by simp
  obtain r w where rw: "running topo cu s r w" "clean topo (uv rm cu s) (uc cu s) r"
    "due topo rm cu s w (exec_trace_of sr p cu (N - 1)) (Some (exec_bytes fadd op tables sr p (N - 1)))"
    using be N(2) unfolding before_exec_def by auto
  obtain s1 where s1: "ax_wait_and_start fadd topo rm cu dummy_inst s = Inr s1" "moves topo rm cu s s1" "running topo cu s1 w r"
    "blk (uv rm cu s1) SLS_BLOCK_BASE = blk (uv rm cu s) SLS_BLOCK_BASE" "result topo (uv rm cu s1) (uc cu s1) w (Some (exec_bytes fadd op tables sr p (N - 1)))"
    "due topo rm cu s1 r dummy_inst None"
    using wait_and_start_step [OF ok rw(1) pack_exec_gives(3) [OF pr N'] rw(3,2) fit] by blast
  obtain s2 where s2: "ax_overlap early fadd topo rm cu s1 = Inr s2" "steps_on topo rm cu w r s1 s2" "same_buf topo rm cu s1 s2 w" "due topo rm cu s2 r dummy_inst None"
    using overlap_due [OF ok s1(3) dg s1(6)] by blast
  have run2: "running topo cu s2 w r" using s2(2) by (simp add: steps_on_def)
  have res: "result topo (uv rm cu s2) (uc cu s2) w (Some (concat (map ?new (exec_slots_of op sr p (N - 1)))))"
    using s1(5) same_buf_cong(2) [OF s2(3) ok(2)] by (simp add: exec_bytes_def)
  obtain s3 where s3: "ax_read_output_buffers topo rm sr cu p (N - 1) (s2, merge_rows n (slots_before op sr p (N - 1)) ?new old) =
      Inr (s3, merge_rows n (slots_before op sr p (N - 1) \<union> set (exec_slots_of op sr p (N - 1))) ?new old)"
    "steps_on topo rm cu w r s2 s3" "clean topo (uv rm cu s3) (uc cu s3) w" "\<And>tr c. due topo rm cu s2 r tr c \<Longrightarrow> due topo rm cu s3 r tr c"
    by (rule read_output_step [where old = old and A = "slots_before op sr p (N - 1)", OF ok run2 rd N' n len res]) blast
  have run3: "running topo cu s3 w r" using s3(2) by (simp add: steps_on_def)
  obtain s4 where s4: "ax_wait fadd topo rm cu s3 = Inr s4" "steps_on topo rm cu w r s3 s4" "same_buf topo rm cu s3 s4 w" "done_with topo rm cu s4 r None"
    using wait_due [OF ok run3 dg s3(4) [OF s2(4)]] by blast
  have un: "slots_before op sr p (N - 1) \<union> set (exec_slots_of op sr p (N - 1)) = slots_before op sr p N"
    using N(2) by (cases N) (auto simp: slots_before_def lessThan_Suc)
  have st: "steps_on topo rm cu w r s1 s4" using s2(2) s3(2) s4(2) by (blast intro: steps_on_trans)
  have mv: "moves topo rm cu s s4" and bs: "blk (uv rm cu s4) SLS_BLOCK_BASE = blk (uv rm cu s) SLS_BLOCK_BASE"
    using s1(2,4) st by (auto simp: steps_on_def keeps_def intro: moves_trans)
  have "clean topo (uv rm cu s4) (uc cu s4) w" using s3(3) same_buf_cong(1) [OF s4(3) ok(2)] by simp
  then have "idle topo rm cu s4" using st s4(4) by (intro running_idle [of _ _ _ w r]) (simp_all add: steps_on_def clearable_def done_with_def result_def)
  then show ?thesis using that [OF s1(1) s2(1) s3(1) [unfolded un] s4(1) mv bs] by blast
qed

lemma ax_run_on_pack_correct:
  assumes pr: "pack_ready fadd topo rm op tables sr p cu s" and id: "idle topo rm cu s" and b: "bit p cu" "0 \<le> res"
    and N: "0 < get_num_exec_iterations sr p" and n: "n = length (lengths op)"
    and len: "\<And>s. length (old s) = sparse_feature_size op * DataSize topo"
  obtains s' where "ax_run_on_pack early fadd topo rm sr p cu res (s, merge_rows n {} (new_row fadd op tables) old) =
      Inr (s', merge_rows n {s. s div minibatch_size op \<in> object_id ` set (tables_objects op ! p)} (new_row fadd op tables) old)"
    "moves topo rm cu s s'" "blk (uv rm cu s') SLS_BLOCK_BASE = blk (uv rm cu s) SLS_BLOCK_BASE" "idle topo rm cu s'"
proof -
  let ?new = "new_row fadd op tables"
  define N where N': "N = get_num_exec_iterations sr p"
  have N32: "N < 2 ^ 32" "0 < N" using pr N by (simp_all add: pack_ready_def pipelined_def N')
  then have last: "N mod 2 ^ 32 = N" "(N + 2 ^ 32 - 1) mod 2 ^ 32 = N - 1"
    using mod_add_self2 [of "N - 1" "2 ^ 32"] by (simp_all add: N')
  have ok: "ax_ok topo rm" "DUMMY_ROW \<le> psum_single_buf_size topo" "cu < length rm" and rd: "ready topo op tables sr p"
    using pr by (simp_all add: pack_ready_def)
  obtain s1 where s1: "ax_open topo rm cu s = Inr s1" "moves topo rm cu s s1" "blk (uv rm cu s1) SLS_BLOCK_BASE = blk (uv rm cu s) SLS_BLOCK_BASE"
    "before_exec fadd topo rm op tables sr p cu 0 s1" using open_step [OF ok id] by blast
  have pr1: "pack_ready fadd topo rm op tables sr p cu s1" using pr pack_ready_cong [OF s1(3)] by simp
  have z: "slots_before op sr p (0 - 1) = {}" by (simp add: slots_before_def)
  obtain s2 where s2: "ax_run_execs [0..<N] early fadd topo rm sr p cu (s1, merge_rows n {} ?new old) =
      Inr (s2, merge_rows n (slots_before op sr p (N - 1)) ?new old)" "moves topo rm cu s1 s2"
    "blk (uv rm cu s2) SLS_BLOCK_BASE = blk (uv rm cu s1) SLS_BLOCK_BASE" "before_exec fadd topo rm op tables sr p cu N s2"
    using run_execs_correct [where old = old and early = early, OF pr1 s1(4) le0 N' n len] unfolding z by blast
  have pr2: "pack_ready fadd topo rm op tables sr p cu s2" using pr1 pack_ready_cong [OF s2(3)] by simp
  obtain s3 s4 s5 s6 where s6: "ax_wait_and_start fadd topo rm cu dummy_inst s2 = Inr s3" "ax_overlap (early N) fadd topo rm cu s3 = Inr s4"
    "ax_read_output_buffers topo rm sr cu p (N - 1) (s4, merge_rows n (slots_before op sr p (N - 1)) ?new old) = Inr (s5, merge_rows n (slots_before op sr p N) ?new old)"
    "ax_wait fadd topo rm cu s5 = Inr s6" "moves topo rm cu s2 s6" "blk (uv rm cu s6) SLS_BLOCK_BASE = blk (uv rm cu s2) SLS_BLOCK_BASE" "idle topo rm cu s6"
    by (rule finish_step [where old = old and early = "early N", OF pr2 N' N32(2) s2(4) n len]) blast
  let ?s7 = "ax_write_reg rm cu (control_switch_register topo) SLS_DISABLE_VALUE s6"
  have s7: "idle topo rm cu ?s7" "moves topo rm cu s6 ?s7" "blk (uv rm cu ?s7) SLS_BLOCK_BASE = blk (uv rm cu s6) SLS_BLOCK_BASE"
    by (rule write_reg_idle [OF ok(1,3) s6(7)]; simp)+
  have cl: "ax_close topo rm cu res s6 = Inr ?s7"
    using b(2) by (simp add: ax_close_def ax_write_control_switch_register_def release_cunit_def SLS_DISABLE_VALUE_def SLS_ENABLE_VALUE_def)
  have "slots_before op sr p N = {s. s div minibatch_size op \<in> object_id ` set (tables_objects op ! p)}"
    using pack_slots [OF rd] by (simp add: slots_before_def N')
  then have "ax_run_on_pack early fadd topo rm sr p cu res (s, merge_rows n {} ?new old) =
      Inr (?s7, merge_rows n {s. s div minibatch_size op \<in> object_id ` set (tables_objects op ! p)} ?new old)"
    unfolding ax_run_on_pack_def Let_def N' [symmetric] last using b(1) s1(1) s2(1) s6(1-4) cl by simp
  moreover have "moves topo rm cu s ?s7" using s1(2) s2(2) s6(5) s7(2) by (blast intro: moves_trans)
  ultimately show ?thesis using that s7(1,3) s1(3) s2(3) s6(6) by simp
qed

section \<open>Operations\<close>

lemma rank_ready_cong: "rests topo rm s s' \<Longrightarrow> rank_ready topo rm op tables sr s x \<Longrightarrow> rank_ready topo rm op tables sr s' x"
  unfolding rank_ready_def rests_def using loaded_cong [of "uv rm _ s'" "uv rm _ s"] by (auto split: prod.splits)

lemma moves_rests:
  assumes "moves topo rm cu s s'" "idle topo rm cu s'" "blk (uv rm cu s') SLS_BLOCK_BASE = blk (uv rm cu s) SLS_BLOCK_BASE"
  shows "rests topo rm s s'"
  unfolding rests_def
proof (intro allI impI)
  fix c assume c: "c < length rm"
  show "(idle topo rm c s \<longrightarrow> idle topo rm c s') \<and> blk (uv rm c s') SLS_BLOCK_BASE = blk (uv rm c s) SLS_BLOCK_BASE"
  proof (cases "c = cu")
    case False
    then have "uv rm c s' = uv rm c s" "uc c s' = uc c s" "core_shape topo (snd s')" using assms(1) c by (simp_all add: moves_def)
    then show ?thesis using idle_cong [of topo rm c s s'] by simp
  qed (use assms in simp)
qed

lemma ax_run_operation_correct:
  assumes "\<forall>x \<in> set sched. ready topo op tables sr (fst x) \<and> 0 < get_num_exec_iterations sr (fst x) \<and> rank_ready topo rm op tables sr s x"
    "ax_ok topo rm" "DUMMY_ROW + 64 \<le> psum_single_buf_size topo" "2 \<le> inst_per_single_buf topo" "\<And>x y. fadd x y = fadd y x"
    "nb = sparse_feature_size op * DataSize topo" "\<And>s. length (old s) = nb" "n = length (lengths op)"
  shows "\<exists>s'. ax_run_operation sched fadd topo rm sr (s, merge_rows n {} (new_row fadd op tables) old) =
      Inr (s', merge_rows n {s. \<exists>p \<in> fst ` set sched. s div minibatch_size op \<in> object_id ` set (tables_objects op ! p)}
        (new_row fadd op tables) old) \<and> rests topo rm s s'"
  using assms(1,7)
proof (induction sched arbitrary: s old)
  case Nil
  then show ?case by (simp add: rests_def)
next
  case (Cons x xs)
  obtain p cu res early where x: "x = (p, cu, res, early)" by (cases x)
  let ?new = "new_row fadd op tables" and ?S = "\<lambda>p. {s. s div minibatch_size op \<in> object_id ` set (tables_objects op ! p)}"
  let ?A = "{s. \<exists>p \<in> fst ` set xs. s div minibatch_size op \<in> object_id ` set (tables_objects op ! p)}"
  have rd: "ready topo op tables sr p" "0 < get_num_exec_iterations sr p" "rank_ready topo rm op tables sr s (p, cu, res, early)"
    using Cons.prems(1) x by auto
  then have pr: "pack_ready fadd topo rm op tables sr p cu s" "idle topo rm cu s" "bit p cu" "0 \<le> res"
    using assms(2-5) by (simp_all add: pack_ready_def rank_ready_def)
  have len: "\<And>s. length (old s) = sparse_feature_size op * DataSize topo" using Cons.prems(2) assms(6) by simp
  obtain s1 where s1: "ax_run_on_pack early fadd topo rm sr p cu res (s, merge_rows n {} ?new old) = Inr (s1, merge_rows n (?S p) ?new old)"
    "moves topo rm cu s s1" "blk (uv rm cu s1) SLS_BLOCK_BASE = blk (uv rm cu s) SLS_BLOCK_BASE" "idle topo rm cu s1"
    by (rule ax_run_on_pack_correct [where old = old and early = early, OF pr rd(2) assms(8) len]) blast
  have r1: "rests topo rm s s1" by (rule moves_rests [OF s1(2,4,3)])
  have "length (?new s) = nb" if "s < n" for s
    using length_pair_sum [OF rd(1)] that rd(1) assms(6,8) by (simp add: new_row_def ready_def sim_ok_def)
  then obtain old' where old': "\<forall>s. length (old' s) = nb" "merge_rows n (?S p) ?new old = merge_rows n {} ?new old'"
    "\<forall>A. merge_rows n A ?new old' = merge_rows n (?S p \<union> A) ?new old"
    using merge_rows_merge [of old nb n ?new "?S p"] Cons.prems(2) by blast
  have rest: "\<forall>x \<in> set xs. ready topo op tables sr (fst x) \<and> 0 < get_num_exec_iterations sr (fst x) \<and> rank_ready topo rm op tables sr s1 x"
    using Cons.prems(1) rank_ready_cong [OF r1] by simp
  obtain s2 where s2: "ax_run_operation xs fadd topo rm sr (s1, merge_rows n {} ?new old') = Inr (s2, merge_rows n ?A ?new old')" "rests topo rm s1 s2"
    using Cons.IH [OF rest, of old'] old'(1) by blast
  have "?S p \<union> ?A = {s. \<exists>q \<in> fst ` set (x # xs). s div minibatch_size op \<in> object_id ` set (tables_objects op ! q)}" using x by auto
  moreover have "rests topo rm s s2" using r1 s2(2) by (simp add: rests_def)
  ultimately show ?case using s1(1) [unfolded old'(2)] s2(1) old'(3) [rule_format, of ?A] x by simp
qed

lemma runs_have_execs:
  assumes "p \<in> set (packs_to_run topo sr)" "p \<noteq> 0"
  shows "0 < get_num_exec_iterations sr p"
  using assms by (auto simp: packs_to_run_def Let_def split: if_splits)

text \<open>A pack with few pairs is pipelined.\<close>

lemma few_pairs_pipelined:
  assumes "ready topo op tables sr p" "\<forall>l \<in> set (lengths op). 0 < l" "minibatch_size op * length (tables_objects op ! p) < 2 ^ 32"
    "minibatch_size op * length (tables_objects op ! p) * (sparse_feature_size op * DataSize topo) \<le> DUMMY_ROW"
  shows "pipelined topo op sr p"
proof -
  let ?es = "get_pack_execs (exec_gen sr) p" and ?mb = "minibatch_size op" and ?nb = "sparse_feature_size op * DataSize topo"
  have req: "req_ok topo op" and mk: "SparseReduction_make None topo op = Inr sr" and p: "p \<in> set (pack_identifiers topo)"
    using assms(1) by (simp_all add: ready_def)
  have cells: "concat (map exec_cells ?es) = table_cells ?mb (map object_id (tables_objects op ! p))"
    and wf: "\<forall>e \<in> set ?es. tds_wf (tables_data e)"
    using SparseReduction_make_correct [OF req] mk p by (auto simp: exec_ok_def)
  have "length (table_cells ?mb ts) = ?mb * length ts" for ts by (induction ts) (simp_all add: table_cells_def)
  then have tot: "sum_list (map (length \<circ> exec_cells) ?es) = ?mb * length (tables_objects op ! p)"
    using arg_cong [OF cells, of length] by (simp add: length_concat)
  have slots: "length (exec_slot_list op e) = length (exec_cells e)" if "e \<in> set ?es" for e
    using wf that by (simp add: exec_slot_list_def exec_slots exec_cells_def)
  have pos: "0 < length (exec_cells (?es ! i))" if "i < length ?es" for i
    using ready_exec(6) [OF assms(1) _ refl, of i] slots [of "?es ! i"] that by (simp add: get_num_exec_iterations_def)
  have each: "length (exec_cells e) \<le> ?mb * length (tables_objects op ! p)" if "e \<in> set ?es" for e
    using member_le_sum_list [of "(length \<circ> exec_cells) e" "map (length \<circ> exec_cells) ?es"] that tot by auto
  have "sum_list (replicate (length ?es) 1) \<le> sum_list (map (length \<circ> exec_cells) ?es)"
    using pos by (intro sum_list_mono2) (auto simp: Suc_le_eq)
  then have "length ?es \<le> ?mb * length (tables_objects op ! p)" using tot by (simp add: sum_list_replicate)
  moreover have "length (exec_slots_of op sr p i) * ?nb \<le> DUMMY_ROW" if "i < get_num_exec_iterations sr p" for i
  proof -
    have m: "?es ! i \<in> set ?es" using that by (simp add: get_num_exec_iterations_def)
    have "length (exec_slots_of op sr p i) * ?nb \<le> ?mb * length (tables_objects op ! p) * ?nb"
      using each [OF m] slots [OF m] by (intro mult_right_mono) (simp_all add: exec_slots_of_def)
    then show ?thesis using assms(4) by (rule le_trans)
  qed
  ultimately show ?thesis using assms(2,3) by (simp add: pipelined_def get_num_exec_iterations_def)
qed

lemma rank_small:
  "req_ok rank_topo small_op" "sim_ok rank_topo small_op" "pack_identifiers rank_topo = [1]"
  "loaded rank_topo small_op small_tables 0 [small_object] (uv rank_layout 0 ((\<lambda>_. 3), core))"
proof -
  show "req_ok rank_topo small_op"
    by (simp add: req_ok_def small_op_def op_ok_def layout_ok_def small_object_def topo_ok_def inst_single_buf_size_def)
      (simp add: rank_topo_def num_of_pack_def pack_identifiers_def psum_single_buf_size_def upt_rec)
  show "sim_ok rank_topo small_op"
    by (simp add: sim_ok_def rank_topo_def small_op_def is_tagged_def inst_single_buf_size_def psum_single_buf_size_def)
  show "pack_identifiers rank_topo = [1]"
    by (simp add: rank_topo_def pack_identifiers_def num_of_pack_def upt_rec)
  let ?U = "uv rank_layout 0 ((\<lambda>_. 3), core)"
  have b: "blk ?U SLS_BLOCK_BASE x = 3" if "x < 262144" for x using that by (simp add: unit_view_def rank_layout_def)
  have "(4 :: nat) = Suc (Suc (Suc (Suc 0)))" by simp
  then have ld: "load_le 4 (\<lambda>_. 3) a = (0x03030303 :: u32)" for a by (metis (no_types) word_3s)
  have "load_le 4 (blk ?U SLS_BLOCK_BASE) a = (0x03030303 :: u32)" if "a + 4 \<le> 262144" for a
    using that b unfolding ld [of a, symmetric] by (intro load_le_cong) auto
  then have "elems32 (blk ?U SLS_BLOCK_BASE) (4096 + r * 64) 16 = replicate 16 0x03030303" if "r < 10" for r
    using that by (intro nth_equalityI) simp_all
  moreover have "obj_offset small_object 0 = Inr 4096" by (simp add: small_object_def obj_offset_def)
  moreover have "addr_ok (4096 + of_nat r * 64)" if "r < 10" for r using addr_ok_of_nat [of "4096 + r * 64"] that by simp
  moreover have "DataSize rank_topo = 4" "blk_size ?U b = 262144" for b by (simp_all add: rank_topo_def rank_layout_def unit_view_def)
  ultimately show "loaded rank_topo small_op small_tables 0 [small_object] ?U"
    by (simp add: loaded_def small_tables_def small_simps del: uv_size)
qed

section \<open>Properties\<close>

text \<open>
  C3: running a reduction on the simulated AXDIMM device computes what the host reference computes:
  in every order of the packs, on any of their ranks, and whether the device finishes a trace before
  or after the host has read the sums of the previous one, which are the two timings modelled, the user's buffer ends up with the bytes
  of the rows that \<open>cpu_compute\<close> returns. The tables are as before, and the units are idle again, so
  that the next operation can run.
\<close>
theorem ax_run_operation_equals_cpu:
  assumes "req_ok topo op" "sim_ok topo op" "tables_ok op tables" "SparseReduction_make None topo op = Inr sr"
    "\<forall>t < length tables. \<exists>p \<in> set (pack_identifiers topo). t \<in> object_id ` set (tables_objects op ! p)"
    "mset (map fst sched) = mset (packs_to_run topo sr)" "\<forall>x \<in> set sched. rank_ready topo rm op tables sr s x"
    "ax_ok topo rm" "DUMMY_ROW + 64 \<le> psum_single_buf_size topo" "2 \<le> inst_per_single_buf topo" "\<And>x y. fadd x y = fadd y x"
    "length out = length (lengths op) * sparse_feature_size op * DataSize topo" "length ps = length (lengths op) * sparse_feature_size op"
  shows "\<exists>s' rows. ax_run_operation sched fadd topo rm sr (s, out) = Inr (s', concat (map (word_bytes 4) rows)) \<and>
    cpu_compute (op_add fadd (op_code (sls_type op))) (concat (map concat tables)) (tables_sizes op) (indices op) (lengths op)
      (sparse_feature_size op) (minibatch_size op) ps = Inr rows \<and> rests topo rm s s'"
proof -
  let ?n = "length (lengths op)" and ?nb = "sparse_feature_size op * DataSize topo"
  have rd: "ready topo op tables sr p" if "p \<in> set (pack_identifiers topo)" for p using assms(1-4) that by (simp add: ready_def)
  note sub = packs_hold_tables(1) [OF assms(1-5)]
  have sched: "fst ` set sched = set (packs_to_run topo sr)" using assms(6) by (metis set_map set_mset_mset)
  have jobs: "\<forall>x \<in> set sched. ready topo op tables sr (fst x) \<and> 0 < get_num_exec_iterations sr (fst x) \<and> rank_ready topo rm op tables sr s x"
  proof
    fix x assume x: "x \<in> set sched"
    then have r: "fst x \<in> set (packs_to_run topo sr)" using sched by blast
    then have "fst x \<in> set (pack_identifiers topo)" using sub by blast
    then have "ready topo op tables sr (fst x)" "fst x \<noteq> 0" using rd pack_id_less [of "fst x" topo] by auto
    then show "ready topo op tables sr (fst x) \<and> 0 < get_num_exec_iterations sr (fst x) \<and> rank_ready topo rm op tables sr s x"
      using runs_have_execs [OF r] assms(7) x by blast
  qed
  obtain old where old: "\<And>s. length (old s) = ?nb" "out = concat (map old [0..<?n])"
    using split_rows [of out ?n ?nb] assms(12) by (auto simp: mult.assoc)
  obtain s' where s': "ax_run_operation sched fadd topo rm sr (s, merge_rows ?n {} (new_row fadd op tables) old) =
      Inr (s', merge_rows ?n {s. \<exists>p \<in> fst ` set sched. s div minibatch_size op \<in> object_id ` set (tables_objects op ! p)} (new_row fadd op tables) old)"
    "rests topo rm s s'"
    using ax_run_operation_correct [where fadd = fadd and old = old, OF jobs assms(8-11) refl old(1) refl] by blast
  have "merge_rows ?n {} (new_row fadd op tables) old = out" by (simp add: merge_rows_def old(2))
  then have "ax_run_operation sched fadd topo rm sr (s, out) = Inr (s', row_bytes (cell_sums (op_add fadd (op_code (sls_type op)))
      (sparse_feature_size op) (per_table (minibatch_size op) tables (segments (lengths op) (indices op)))))"
    using s'(1) unfolding sched covered_rows [OF assms(1-5)] by simp
  then show ?thesis using cpu_rows [OF assms(1,3,13)] s'(2) by (auto simp: row_bytes_def)
qed

theorem ax_run_operation_equals_cpu_witness:
  "\<exists>core sr s' rows. AxdimmSimulatorCore_make rank_topo = Inr core \<and> SparseReduction_make None rank_topo small_op = Inr sr \<and>
    ax_run_operation [(1, 0, 0, \<lambda>i. i = 0)] (+) rank_topo rank_layout sr (((\<lambda>_. 3), core), replicate 128 9) = Inr (s', concat (map (word_bytes 4) rows)) \<and>
    cpu_compute (+) (concat (map concat small_tables)) [10] [3, 1, 0] [1, 2] 16 2 (replicate 32 7) = Inr rows"
proof -
  let ?sched = "[(1, 0, 0, \<lambda>i. i = 0)] :: (nat \<times> nat \<times> int \<times> (nat \<Rightarrow> bool)) list"
  have t: "DUMMY_ROW + 64 \<le> psum_single_buf_size rank_topo" "2 \<le> inst_per_single_buf rank_topo" "DataSize rank_topo = 4" "0 < tags_single_buf_size rank_topo"
    by (simp_all add: DUMMY_ROW_def rank_topo_def psum_single_buf_size_def inst_per_single_buf_def inst_single_buf_size_def tags_single_buf_size_def)
  then have S: "DUMMY_ROW \<le> psum_single_buf_size rank_topo" "0 < psum_single_buf_size rank_topo" by simp_all
  obtain core where core: "AxdimmSimulatorCore_make rank_topo = Inr core" "\<And>cu m. cu < length rank_layout \<Longrightarrow> idle rank_topo rank_layout cu (m, core)"
    using initial_idle [OF rank_layout_ok S(2) t(4) S(1)] by blast
  obtain sr where sr: "SparseReduction_make None rank_topo small_op = Inr sr" using SparseReduction_make_correct [OF rank_small(1)] by blast
  have rd: "ready rank_topo small_op small_tables sr 1" using rank_small run_small(3) sr by (simp add: ready_def)
  then have "1 \<in> set (packs_to_run rank_topo sr)" by (rule pack_runs [of _ _ _ _ _ 0]) (simp add: small_simps)
  then have v: "mset (map fst ?sched) = mset (packs_to_run rank_topo sr)" by (auto simp: packs_to_run_def rank_small(3) split: if_splits)
  have tb: "\<forall>t < length small_tables. \<exists>p \<in> set (pack_identifiers rank_topo). t \<in> object_id ` set (tables_objects small_op ! p)"
    by (simp add: small_tables_def rank_small(3) small_simps)
  have "pipelined rank_topo small_op sr 1" by (rule few_pairs_pipelined [OF rd]) (simp_all add: small_simps t(3) DUMMY_ROW_def)
  then have rr: "\<forall>x \<in> set ?sched. rank_ready rank_topo rank_layout small_op small_tables sr ((\<lambda>_. 3), core) x"
    using rank_small(4) [of core] core(2) by (simp add: rank_ready_def small_simps bit_0) (simp add: rank_layout_def)
  have add: "op_add (+) c = (+)" for c by (simp add: op_add_def)
  have l: "length (replicate 128 (9 :: u8)) = length (lengths small_op) * sparse_feature_size small_op * DataSize rank_topo"
    "length (replicate 32 (7 :: u32)) = length (lengths small_op) * sparse_feature_size small_op" by (simp_all add: small_simps t(3))
  from ax_run_operation_equals_cpu [where fadd = "(+)", OF rank_small(1,2) run_small(3) sr tb v rr rank_layout_ok t(1,2) add.commute l]
  show ?thesis using sr core(1) by (auto simp add: add small_simps small_op_def [THEN arg_cong, of indices])
qed

end
