(* ===== verification/Spec2Isabelle.thy ===== *)
theory Spec2Isabelle
  imports Prelude Rank_Address Inst_Generator Topology Exec_Generator Trace_Generator Views
    Mem_Map Cxl_Core_Sim Cpu_Sls Sparse_Reduction Param_Checks Cxl_Device Sim_Protocol Cxl_Runner
    Bit_Storage Software_Scan Device_Memory Data_Transfer Imdb_Device Aes_Engine Secure_Engine
    Secure_Load Secure_Sls Thread_Pool Embedding_Tables Secure_Runner Axdimm_Core Axdimm_Buffers
    Axdimm_Runner Byte_Memory
begin

text \<open>
  A verification development for PNMLibrary, the user-space library for near-memory devices
  (\<open>src/PNMLibrary\<close>). All file names below are relative to that directory.

  \<^bold>\<open>The program.\<close> The library offloads two kernels to devices that compute next to their memory.
  Sparse-lengths-sum (SLS) adds rows of embedding tables: a request gives, for every table and every
  element of a minibatch, a list of row numbers, and the device returns one sum of rows for each. The
  in-memory database (IMDB) scans a bit-packed column for values in a range or in a list. A third
  part, the secure library, keeps SLS tables encrypted on the device and decrypts and verifies the
  sums on the host. Data flows as follows: a buffer asks an allocator for device memory, which asks
  the kernel module; embedding tables place their rows in such buffers; a request is checked, split
  into executions that fit the device's buffers, compiled to instruction traces, and run by a runner
  that acquires a compute unit, writes the trace, starts the unit through a register and polls
  another register; the functional simulator plays the device's part in its own threads.

  \<^bold>\<open>Conventions.\<close> A C++ class is a record, an enumeration a datatype, an integer of fixed width a word
  where wrap-around can matter. A throwing function returns \<open>fault + 'a\<close>: \<open>Throw\<close> a library exception,
  \<open>StdException\<close> one of the standard library, \<open>AssertFail\<close> a failed assertion, \<open>Undefined\<close> an access
  out of bounds or other undefined behaviour, \<open>Blocked\<close> a wait or loop that never ends. Buffers are lists or
  byte memories (\<open>nat \<Rightarrow> u8\<close> with a size). Threads are step relations. Code outside the repository is a
  parameter: the kernel module (a record of its requests), floating-point addition, the AES round
  instructions, random keys, the hash of the tables, environment variables and the
  order in which threads run. The key expansions are in the repository, but those of this release only
  throw (\<open>release_expansion\<close>), so no table can be loaded with them (\<open>release_cannot_load\<close>); the secure
  library takes the key expansion as a parameter, and its properties are about expansions that work. The constants of the device are read from the operating system, so the
  topology is a parameter too.

  \<^bold>\<open>Theories.\<close>
  \<^item> \<open>Prelude\<close>: machine integers, faults, their monad, shared lemmas on lists and words.
    \<open>Byte_Memory\<close>: byte memories and little-endian words in them. \<open>Views\<close>: \<open>include/pnmlib/common\<close>
    \<open>views.h\<close>, \<open>rowwise_view.h\<close>, \<open>variable_row_view.h\<close>; iterators visit exactly the rows.
  \<^item> \<open>Rank_Address\<close>: rank interleaving and the interleaved copies
    (\<open>core/device/sls/utils/rank_address.h\<close>, \<open>.cpp\<close>); the copies agree with byte-wise copies and
    undo each other. \<open>Inst_Generator\<close>: instruction words and address codecs (\<open>inst_generator.h\<close>), which
    are bijections on their ranges. \<open>Topology\<close>: device constants, packs and memory objects.
    \<open>Mem_Map\<close>: the blocks of a compute unit.
  \<^item> \<open>Exec_Generator\<close>, \<open>Trace_Generator\<close>, \<open>Sparse_Reduction\<close>, \<open>Param_Checks\<close>: the host side of a request
    (\<open>sls/operation\<close>). Executions cover the request exactly once and fit the buffers; a trace decodes
    to the lookups of its execution; results land in their place of the user's buffer; the memory check
    accepts exactly the tables that fit, and the check of the indices looks at the position of a pair instead
    of the position of its indices.
  \<^item> \<open>Cxl_Core_Sim\<close>, \<open>Cxl_Device\<close>, \<open>Sim_Protocol\<close>, \<open>Cxl_Runner\<close>: the CXL device. The trace interpreter adds
    the rows the trace names; every interleaving of the host and the simulator thread gives the
    result of running them in sequence and cannot get stuck; a whole request, with its packs in any
    order, equals the host reference of \<open>Cpu_Sls\<close> (\<open>common/cpu_sls.h\<close>).
  \<^item> \<open>Axdimm_Core\<close>, \<open>Axdimm_Buffers\<close>, \<open>Axdimm_Runner\<close>: the AXDIMM device, whose ranks are interleaved in the
    host's memory (\<open>core/device/sls/simulator_core/axdimm_core_sim.cpp\<close>, \<open>utils/nbuffer_memory.cpp\<close>,
    \<open>simulator/axdimm_*.cpp\<close>, \<open>memblockhandler/axdimm\<close>, \<open>sls/compute_unit/axdimm_compute_unit.h\<close>,
    \<open>core/operation_runner/reduction/axdimm_runner.h\<close>). The first theory has the simulator over flat
    memory and relates it to the blocks of one rank; the second projects its state to one unit and
    shows what shifting, clearing and executing do to the buffers of that unit and that they leave the
    other units alone; the third has the pipelined runner, which reads the sums of an execution while
    the device runs the next one. For every timing of the device a request equals the host reference,
    provided every output has a lookup and the sums stay in front of the row that the dummy trace
    writes: the code clears a buffer from its start, not from the start of the written range.
  \<^item> \<open>Device_Memory\<close>, \<open>Data_Transfer\<close>, \<open>Embedding_Tables\<close>: allocators, buffers and shared regions,
    accessors and transfers, and tables in device memory. Nothing leaks on any error path, data comes
    back as it was written, and requests over created tables compute the sums of the user's tables.
  \<^item> \<open>Bit_Storage\<close>, \<open>Software_Scan\<close>, \<open>Imdb_Device\<close>: bit-packed columns and bit vectors, the scans of the
    host (plain and AVX2) and the database device with its runner; a scan end to end gives
    what the plain scan gives, for ranges with bounds below \<open>2 ^ 31\<close>; an index scan also gives the surplus rows
    of the last block when 0 matches.
  \<^item> \<open>Aes_Engine\<close>, \<open>Secure_Engine\<close>, \<open>Secure_Load\<close>, \<open>Secure_Sls\<close>, \<open>Secure_Runner\<close>: the secure library. With
    a key expansion that works, loading
    encrypts and tags every row; a run returns the sums of the plain tables and accepts its tags, for requests
    without empty lookups at the end of a table, and rows that fail verification are reported and not delivered.
  \<^item> \<open>Thread_Pool\<close>: \<open>common/threads\<close>. The threads interleave at every access of an action to memory, and waiting
    on the condition variable, notifications and spurious wake-ups are steps. Every action runs exactly once, no
    notification is lost, the destructor ends the workers, and actions that do not interfere leave
    what running them one after the other leaves.

  \<^bold>\<open>Interfaces.\<close> Locales state what one part needs of another and are interpreted on the definitions:
  the address codecs of the two buses (\<open>address_codec\<close>), outputs and predicates of the vectorised scan
  (\<open>scan_output\<close>, \<open>scan_predicate\<close>, \<open>avx2_scan\<close>), copies between host and device (\<open>device_transfer\<close>), the
  encryption backend of the pad generator (\<open>ecb_backend\<close>), the strategies that run pad tasks
  (\<open>task_strategy\<close>) and the device behind the secure executor (\<open>honest_device\<close>, \<open>secure_run\<close>).

  \<^bold>\<open>Bounds and fuel.\<close> No definition takes fuel. Loops are structural or have a termination proof. The
  loops that may run for ever are \<open>partial_function\<close>s in the option monad (the read loop of the secure
  preprocessor, the allocation loop of replicated regions) and step relations (the waits of threads);
  that they end is proved as a property of its own. Bounds in hypotheses are those of the hardware or of the
  code: addresses below the range of an instruction's fields, output numbers of 12 bits, traces that fit
  the instruction buffer, sizes below \<open>2 ^ 32\<close> where the code stores them in 32 bits.

  \<^bold>\<open>Not modelled.\<close> System calls and their wrappers (\<open>mmap\<close>, files, sysfs attributes in
  \<open>core/device/*/control.cpp\<close>, the command line tool \<open>tools/pnm_ctl\<close>), logging, timing and profiling
  (\<open>common/log.h\<close>, \<open>timer.h\<close>, \<open>profile.h\<close>) and the build have no state of the library. Cache flushes and
  fences do not change the memory model. The generators of random test data (\<open>tools/datagen\<close>), the
  benchmarks and the tests are programs over the library. The hardware variants of the devices differ
  from the simulator in what the device does, which is not in the repository. The patches for the
  Linux kernel, PyTorch and other projects (\<open>src/patches\<close>) belong to those projects. Helpers of a line
  or two are modelled as definitions of their own and belong to the lines of the function that calls
  them.
\<close>

end
